(* ===== verification/Prelude.thy ===== *)
theory Prelude
  imports Main
begin

section \<open>Shared vocabulary: results, machine integers, small lemmas\<close>

text \<open>
  The engine reports every expected failure through Rust's \<open>Result\<close>. The models use the sum
  type, \<open>Inl\<close> for the error. A function that changes \<open>&mut self\<close> and can fail half way
  returns a pair of such a result and the state it leaves behind, so that what survives an
  early return is part of the model.

  Machine integers are mathematical integers with the width written out where the source
  checks it (\<open>checked_add\<close> and friends) or wraps.
\<close>

named_theorems result_simps \<open>unfolding rules for results\<close>
named_theorems order_simps \<open>order-book record and selector facts\<close>

subsection \<open>Results\<close>

definition bind_result :: "'e + 'a \<Rightarrow> ('a \<Rightarrow> 'e + 'b) \<Rightarrow> 'e + 'b" where
  "bind_result r f = (case r of Inl e \<Rightarrow> Inl e | Inr x \<Rightarrow> f x)"

definition map_error :: "('e \<Rightarrow> 'f) \<Rightarrow> 'e + 'a \<Rightarrow> 'f + 'a" where
  "map_error h r = (case r of Inl e \<Rightarrow> Inl (h e) | Inr x \<Rightarrow> Inr x)"

definition ok_or :: "'e \<Rightarrow> 'a option \<Rightarrow> 'e + 'a" where
  "ok_or e v = (case v of None \<Rightarrow> Inl e | Some x \<Rightarrow> Inr x)"

text \<open>The operator \<open>?\<close> inside a method that has already changed its state to \<open>s\<close>.\<close>

definition try_in :: "'e + 'a \<Rightarrow> 's \<Rightarrow> ('a \<Rightarrow> ('e + 'b) \<times> 's) \<Rightarrow> ('e + 'b) \<times> 's" where
  "try_in r s f = (case r of Inl e \<Rightarrow> (Inl e, s) | Inr x \<Rightarrow> f x)"

definition try_st :: "('e + 'a) \<times> 's \<Rightarrow> ('a \<Rightarrow> 's \<Rightarrow> ('e + 'b) \<times> 's) \<Rightarrow> ('e + 'b) \<times> 's" where
  "try_st m f = (case m of (Inl e, s) \<Rightarrow> (Inl e, s) | (Inr x, s) \<Rightarrow> f x s)"

fun is_ok :: "'e + 'a \<Rightarrow> bool" where
  "is_ok (Inl e) = False"
| "is_ok (Inr x) = True"

lemma bind_result_simps [simp, result_simps]:
  "bind_result (Inl e) f = Inl e"
  "bind_result (Inr x) f = f x"
  by (simp_all add: bind_result_def)

lemma bind_result_Inr_right [simp]: "bind_result r Inr = r"
  by (cases r) simp_all

lemma bind_result_Inr_iff:
  "bind_result r f = Inr y \<longleftrightarrow> (\<exists>x. r = Inr x \<and> f x = Inr y)"
  by (cases r) auto

lemma bind_result_Inl_iff:
  "bind_result r f = Inl e \<longleftrightarrow> r = Inl e \<or> (\<exists>x. r = Inr x \<and> f x = Inl e)"
  by (cases r) auto

lemma map_error_simps [simp, result_simps]:
  "map_error h (Inl e) = Inl (h e)"
  "map_error h (Inr x) = Inr x"
  by (simp_all add: map_error_def)

lemma map_error_Inr_iff [simp]: "map_error h r = Inr x \<longleftrightarrow> r = Inr x"
  by (cases r) auto

lemma map_error_Inl_iff: "map_error h r = Inl e \<longleftrightarrow> (\<exists>d. r = Inl d \<and> e = h d)"
  by (cases r) auto

lemma ok_or_simps [simp, result_simps]:
  "ok_or e None = Inl e"
  "ok_or e (Some x) = Inr x"
  by (simp_all add: ok_or_def)

lemma ok_or_Inr_iff [simp]: "ok_or e v = Inr x \<longleftrightarrow> v = Some x"
  by (cases v) auto

lemma try_in_simps [simp, result_simps]:
  "try_in (Inl e) s f = (Inl e, s)"
  "try_in (Inr x) s f = f x"
  by (simp_all add: try_in_def)

lemma try_in_ok_iff:
  "try_in r s f = (Inr y, t) \<longleftrightarrow> (\<exists>x. r = Inr x \<and> f x = (Inr y, t))"
  by (cases r) auto

lemma try_st_simps [simp, result_simps]:
  "try_st (Inl e, s) f = (Inl e, s)"
  "try_st (Inr x, s) f = f x s"
  by (simp_all add: try_st_def)

lemma try_st_ok_iff:
  "try_st m f = (Inr y, t) \<longleftrightarrow> (\<exists>x s. m = (Inr x, s) \<and> f x s = (Inr y, t))"
  by (cases m; cases "fst m") auto

lemma is_ok_iff: "is_ok r \<longleftrightarrow> (\<exists>x. r = Inr x)"
  by (cases r) auto

lemma try_in_cong [fundef_cong]:
  assumes "r = r'" "s = s'" "\<And>x. r' = Inr x \<Longrightarrow> f x = f' x"
  shows "try_in r s f = try_in r' s' f'"
  using assms by (cases r') auto

lemma try_st_cong [fundef_cong]:
  assumes "m = m'" "\<And>x s. m' = (Inr x, s) \<Longrightarrow> f x s = f' x s"
  shows "try_st m f = try_st m' f'"
  using assms by (cases m'; cases "fst m'") auto

lemma bind_result_cong [fundef_cong]:
  assumes "r = r'" "\<And>x. r' = Inr x \<Longrightarrow> f x = f' x"
  shows "bind_result r f = bind_result r' f'"
  using assms by (cases r') auto

text \<open>\<open>try_fold\<close>: a fold that stops at the first error.\<close>

fun try_fold :: "('a \<Rightarrow> 'b \<Rightarrow> 'e + 'a) \<Rightarrow> 'a \<Rightarrow> 'b list \<Rightarrow> 'e + 'a" where
  "try_fold f a [] = Inr a"
| "try_fold f a (x # xs) = bind_result (f a x) (\<lambda>b. try_fold f b xs)"

lemma try_fold_append:
  "try_fold f a (xs @ ys) = bind_result (try_fold f a xs) (\<lambda>b. try_fold f b ys)"
  by (induction xs arbitrary: a) (auto simp: bind_result_def split: sum.splits)

text \<open>\<open>collect\<close> of an iterator of results.\<close>

fun try_map :: "('a \<Rightarrow> 'e + 'b) \<Rightarrow> 'a list \<Rightarrow> 'e + 'b list" where
  "try_map f [] = Inr []"
| "try_map f (x # xs) = bind_result (f x) (\<lambda>y. bind_result (try_map f xs) (\<lambda>ys. Inr (y # ys)))"

subsection \<open>Checked sums\<close>

text \<open>
  The contract of a checked addition on a range of numbers, and what a fold of such additions
  computes. The money, accounting and auction-volume additions are its instances.
\<close>

locale checked_sum =
  fixes valid :: "'n::linordered_semidom \<Rightarrow> bool"
    and plus_checked :: "'n \<Rightarrow> 'n \<Rightarrow> 'e + 'n"
  assumes plus_ok: "plus_checked a b = Inr c \<longleftrightarrow> valid (a + b) \<and> c = a + b"
    and convex: "valid a \<Longrightarrow> valid c \<Longrightarrow> a \<le> b \<Longrightarrow> b \<le> c \<Longrightarrow> valid b"
begin

lemma fold_result:
  "try_fold plus_checked a xs = Inr c \<Longrightarrow> c = a + sum_list xs"
proof (induction xs arbitrary: a)
  case (Cons x xs)
  then have "try_fold plus_checked (a + x) xs = Inr c"
    by (auto simp: bind_result_Inr_iff plus_ok)
  then have "c = a + x + sum_list xs" by (rule Cons.IH)
  then show ?case by (simp add: add.assoc)
qed simp

lemma fold_valid: "try_fold plus_checked a xs = Inr c \<Longrightarrow> valid a \<Longrightarrow> valid c"
  by (induction xs arbitrary: a) (auto simp: bind_result_Inr_iff plus_ok)

lemma fold_nonneg:
  assumes "valid a" "\<forall>x\<in>set xs. 0 \<le> x"
  shows "try_fold plus_checked a xs = Inr c \<longleftrightarrow> valid (a + sum_list xs) \<and> c = a + sum_list xs"
  using assms
proof (induction xs arbitrary: a)
  case (Cons x xs)
  have pos: "0 \<le> sum_list xs" using Cons.prems(2) by (simp add: sum_list_nonneg)
  show ?case
  proof (cases "valid (a + x)")
    case True
    then have "plus_checked a x = Inr (a + x)" by (simp add: plus_ok)
    with Cons.IH [OF True] Cons.prems show ?thesis by (simp add: add.assoc)
  next
    case False
    then obtain e where e: "plus_checked a x = Inl e" using plus_ok by (cases "plus_checked a x") auto
    have "\<not> valid (a + sum_list (x # xs))"
      using convex [of a "a + sum_list (x # xs)" "a + x"] Cons.prems pos False
      by (auto simp: add_increasing2 add_left_mono)
    with e show ?thesis by simp
  qed
qed auto

text \<open>Sums of non-negative terms can be checked in any order.\<close>

lemma fold_order:
  assumes "valid a" "\<forall>x\<in>set xs. 0 \<le> x" "sum_list ys = sum_list xs" "\<forall>y\<in>set ys. 0 \<le> y"
  shows "try_fold plus_checked a xs = Inr c \<longleftrightarrow> try_fold plus_checked a ys = Inr c"
  using assms fold_nonneg by metis

end

subsection \<open>Loops that stop at the first error\<close>

text \<open>\<open>for (idx, x) in xs.iter().enumerate()\<close> with a fallible, state-changing body.\<close>

fun try_steps :: "('c \<Rightarrow> 's \<Rightarrow> ('e + unit) \<times> 's) \<Rightarrow> nat \<Rightarrow> 'c list \<Rightarrow> 's \<Rightarrow> (nat \<times> 'e + unit) \<times> 's" where
  "try_steps step idx [] s = (Inr (), s)"
| "try_steps step idx (c # cs) s =
     (case step c s of (Inl e, s') \<Rightarrow> (Inl (idx, e), s') | (Inr _, s') \<Rightarrow> try_steps step (Suc idx) cs s')"

lemma try_steps_induct:
  assumes "try_steps step i cs s = (r, s')" "I s" "\<And>c s. c \<in> set cs \<Longrightarrow> I s \<Longrightarrow> I (snd (step c s))"
  shows "I s'"
  using assms
proof (induction cs arbitrary: i s)
  case (Cons c cs)
  obtain rc sc where c: "step c s = (rc, sc)" by (cases "step c s")
  have "I sc" using Cons.prems(2) Cons.prems(3) [of c s] c by simp
  then show ?case using Cons c by (cases rc) auto
qed simp

text \<open>A log of old values that undoes any number of steps on the keys of a batch.\<close>

locale undo_log =
  fixes snapshot :: "'s \<Rightarrow> 'c list \<Rightarrow> 'u"
    and undo :: "'u \<Rightarrow> 's \<Rightarrow> 's"
    and step :: "'c \<Rightarrow> 's \<Rightarrow> ('e + unit) \<times> 's"
    and well_formed :: "'s \<Rightarrow> bool"
    and agrees :: "'c list \<Rightarrow> 's \<Rightarrow> 's \<Rightarrow> bool"
  assumes agrees_refl: "agrees b s s"
    and step_well_formed: "well_formed s \<Longrightarrow> well_formed (snd (step c s))"
    and step_agrees: "agrees b s0 s \<Longrightarrow> well_formed s \<Longrightarrow> c \<in> set b \<Longrightarrow> agrees b s0 (snd (step c s))"
    and undo_agreeing: "agrees b s0 s \<Longrightarrow> well_formed s0 \<Longrightarrow> well_formed s \<Longrightarrow> undo (snapshot s0 b) s = s0"
begin

lemma steps_well_formed: "try_steps step i cs s = (r, s') \<Longrightarrow> well_formed s \<Longrightarrow> well_formed s'"
  by (rule try_steps_induct) (auto intro: step_well_formed)

lemma steps_undone:
  assumes "try_steps step i b s = (r, s')" "well_formed s"
  shows "undo (snapshot s b) s' = s"
proof -
  have "agrees b s s' \<and> well_formed s'"
    by (rule try_steps_induct [OF assms(1)]) (use assms(2) in \<open>auto intro: agrees_refl step_agrees step_well_formed\<close>)
  then show ?thesis using undo_agreeing assms(2) by blast
qed

end

end
