(* ===== verification/Float64.thy ===== *)
theory Float64
  imports Prelude Complex_Main "HOL-Library.Log_Nat"
begin

section \<open>IEEE-754 binary64, as far as the engine uses it\<close>

text \<open>
  Rates (commission, stamp tax, price limits) are \<open>f64\<close> in the engine. This theory models the
  binary64 values and the operations the sources apply to them: conversion from \<open>i64\<close>,
  multiplication, addition, subtraction, comparison, \<open>floor\<close>, \<open>round\<close>, \<open>abs\<close>,
  \<open>is_finite\<close> and the saturating \<open>as\<close> casts. A finite value is the rational it denotes; every
  operation computes exactly and rounds to nearest, ties to even, with 53 significant bits,
  gradual underflow and overflow to infinity. The sign of zero is not represented: no
  operation used by the engine distinguishes the two zeros.
\<close>

subsection \<open>Round half to even on rationals\<close>

definition rhe :: "rat \<Rightarrow> int" where
  "rhe x = (let f = \<lfloor>x\<rfloor>; d = x - of_int f in
     if d < 1/2 then f else if d > 1/2 then f + 1 else if even f then f else f + 1)"

lemma rhe_of_int [simp]: "rhe (of_int n) = n"
  by (simp add: rhe_def)

lemma rhe_bounds: "of_int (rhe x) - 1/2 \<le> x \<and> x \<le> of_int (rhe x) + 1/2"
  unfolding rhe_def Let_def by (auto simp: field_simps) linarith+

lemma rhe_cases: "rhe x = \<lfloor>x\<rfloor> \<or> rhe x = \<lfloor>x\<rfloor> + 1"
  by (simp add: rhe_def Let_def)

lemma rhe_mono:
  assumes "x \<le> y"
  shows "rhe x \<le> rhe y"
proof (cases "\<lfloor>x\<rfloor> = \<lfloor>y\<rfloor>")
  case True
  with assms show ?thesis by (auto simp: rhe_def Let_def)
next
  case False
  with floor_mono [OF assms] have "\<lfloor>x\<rfloor> + 1 \<le> \<lfloor>y\<rfloor>" by linarith
  with rhe_cases [of x] rhe_cases [of y] show ?thesis by linarith
qed

lemma rhe_minus: "rhe (- x) = - rhe x"
proof (cases "x \<in> \<int>")
  case True
  then obtain n where "x = of_int n" by (elim Ints_cases)
  then show ?thesis using rhe_of_int [of "-n"] by simp
next
  case False
  then have fl: "\<lfloor>- x\<rfloor> = - \<lfloor>x\<rfloor> - 1"
    by (metis (mono_tags, opaque_lifting) Ints_of_int ceiling_altdef ceiling_def diff_conv_add_uminus
        minus_add_distrib minus_minus)
  have "of_int \<lfloor>x\<rfloor> < x" using False
    by (metis Ints_of_int floor_correct less_le)
  then show ?thesis
    unfolding rhe_def Let_def fl by (auto simp: field_simps)
qed

subsection \<open>The binary exponent\<close>

definition binexp :: "rat \<Rightarrow> int" where
  "binexp q =
     (if 1 \<le> \<bar>q\<bar> then int (floorlog 2 (nat \<lfloor>\<bar>q\<bar>\<rfloor>)) - 1
      else - int (floorlog 2 (nat (\<lceil>1 / \<bar>q\<bar>\<rceil> - 1))))"

lemma floorlog2_bounds:
  assumes "0 < n"
  shows "2 ^ (floorlog 2 n - 1) \<le> n" and "n < 2 ^ floorlog 2 n" and "1 \<le> floorlog 2 n"
proof -
  show "2 ^ (floorlog 2 n - 1) \<le> n" "n < 2 ^ floorlog 2 n"
    using floorlog_bounds [of n 2] assms by auto
  then show "1 \<le> floorlog 2 n" using assms by (cases "floorlog 2 n") auto
qed

lemma floorlog2_int:
  assumes "0 < z"
  shows "2 ^ (floorlog 2 (nat z) - 1) \<le> z" and "z < 2 ^ floorlog 2 (nat z)"
    and "1 \<le> floorlog 2 (nat z)"
proof -
  have n: "0 < nat z" and z: "z = int (nat z)" using assms by auto
  note b = floorlog2_bounds [OF n]
  have "int (2 ^ (floorlog 2 (nat z) - 1)) \<le> int (nat z)" using b(1) by (simp only: of_nat_le_iff)
  then show "2 ^ (floorlog 2 (nat z) - 1) \<le> z" using assms by simp
  have "int (nat z) < int (2 ^ floorlog 2 (nat z))" using b(2) by (simp only: of_nat_less_iff)
  then show "z < 2 ^ floorlog 2 (nat z)" using assms by simp
  show "1 \<le> floorlog 2 (nat z)" by (rule b(3))
qed

lemma binexp_ge_one:
  assumes "1 \<le> \<bar>q\<bar>"
  shows "2 powi binexp q \<le> \<bar>q\<bar>" and "\<bar>q\<bar> < 2 powi (binexp q + 1)" and "0 \<le> binexp q"
proof -
  have fl: "0 < \<lfloor>\<bar>q\<bar>\<rfloor>" using assms by (simp add: one_le_floor)
  note b = floorlog2_int [OF fl]
  obtain k where k: "floorlog 2 (nat \<lfloor>\<bar>q\<bar>\<rfloor>) = Suc k"
    using b(3) by (cases "floorlog 2 (nat \<lfloor>\<bar>q\<bar>\<rfloor>)") auto
  have e: "binexp q = int k" using assms k by (simp add: binexp_def)
  show "0 \<le> binexp q" by (simp add: e)
  have z: "2 ^ k \<le> \<lfloor>\<bar>q\<bar>\<rfloor>" "\<lfloor>\<bar>q\<bar>\<rfloor> < 2 ^ Suc k" using b k by auto
  have "(2::rat) ^ k \<le> \<bar>q\<bar>" using z(1) by (simp add: le_floor_iff)
  then show "2 powi binexp q \<le> \<bar>q\<bar>" by (simp add: e)
  have "\<bar>q\<bar> < (2::rat) ^ Suc k" using z(2) by (simp add: floor_less_iff)
  then show "\<bar>q\<bar> < 2 powi (binexp q + 1)"
    by (simp add: e power_int_add_1 power_int_of_nat mult.commute)
qed

lemma binexp_lt_one:
  assumes "0 < \<bar>q\<bar>" "\<bar>q\<bar> < 1"
  shows "2 powi binexp q \<le> \<bar>q\<bar>" and "\<bar>q\<bar> < 2 powi (binexp q + 1)" and "binexp q < 0"
proof -
  define c where "c = \<lceil>1 / \<bar>q\<bar>\<rceil>"
  have r: "1 < 1 / \<bar>q\<bar>" using assms by simp
  then have c: "0 < c - 1" unfolding c_def by (simp add: less_ceiling_iff)
  define k where "k = floorlog 2 (nat (c - 1))"
  have e: "binexp q = - int k" using assms by (simp add: binexp_def c_def k_def)
  have k1: "1 \<le> k" using floorlog2_int(3) [OF c] by (simp add: k_def)
  then show "binexp q < 0" by (simp add: e)
  have z: "2 ^ (k - 1) \<le> c - 1" "c - 1 < 2 ^ k" using floorlog2_int [OF c] k_def by auto
  from z(2) have "c \<le> 2 ^ k" by simp
  then have u: "1 / \<bar>q\<bar> \<le> 2 ^ k" unfolding c_def by (simp add: ceiling_le_iff)
  from z(1) have "2 ^ (k - 1) < c" by simp
  then have l: "2 ^ (k - 1) < 1 / \<bar>q\<bar>" unfolding c_def by (simp add: less_ceiling_iff)
  show "2 powi binexp q \<le> \<bar>q\<bar>" unfolding e
    using u assms(1) by (simp add: power_int_minus power_int_of_nat field_simps)
  have "\<bar>q\<bar> < 1 / 2 ^ (k - 1)" using l assms(1) by (simp add: field_simps)
  also have "(1::rat) / 2 ^ (k - 1) = 2 powi (binexp q + 1)"
  proof -
    have "binexp q + 1 = - int (k - 1)" using k1 by (simp add: e)
    then show ?thesis by (simp add: power_int_minus power_int_of_nat field_simps)
  qed
  finally show "\<bar>q\<bar> < 2 powi (binexp q + 1)" .
qed

lemma binexp_bounds:
  assumes "q \<noteq> 0"
  shows "2 powi binexp q \<le> \<bar>q\<bar>" and "\<bar>q\<bar> < 2 powi (binexp q + 1)"
  using assms binexp_ge_one [of q] binexp_lt_one [of q] by (cases "1 \<le> \<bar>q\<bar>"; simp)+

lemma powi2_less_cancel: "(2::rat) powi a < 2 powi b \<Longrightarrow> a < b"
  by (metis linorder_not_less one_le_numeral power_int_increasing)

lemma binexp_mono:
  assumes "x \<noteq> 0" "\<bar>x\<bar> \<le> \<bar>y\<bar>"
  shows "binexp x \<le> binexp y"
proof -
  from assms have "y \<noteq> 0" by auto
  with assms binexp_bounds [of x] binexp_bounds [of y]
  have "(2::rat) powi binexp x < 2 powi (binexp y + 1)" by linarith
  then have "binexp x < binexp y + 1" by (rule powi2_less_cancel)
  then show ?thesis by simp
qed

lemma binexp_minus [simp]: "binexp (- q) = binexp q"
  by (simp add: binexp_def)

lemma binexp_unique:
  assumes "2 powi e \<le> \<bar>q\<bar>" "\<bar>q\<bar> < 2 powi (e + 1)"
  shows "binexp q = e"
proof -
  have "0 < (2::rat) powi e" by simp
  with assms(1) have "0 < \<bar>q\<bar>" by linarith
  then have "q \<noteq> 0" by simp
  note b = binexp_bounds [OF this]
  have "(2::rat) powi e < 2 powi (binexp q + 1)" using assms b by linarith
  moreover have "(2::rat) powi binexp q < 2 powi (e + 1)" using assms b by linarith
  ultimately show ?thesis by (auto dest!: powi2_less_cancel)
qed


subsection \<open>Rounding to 53 significant bits\<close>

definition grid_exp :: "rat \<Rightarrow> int" where
  "grid_exp q = max (binexp q - 52) (- 1074)"

definition rnd :: "rat \<Rightarrow> rat" where
  "rnd q = (if q = 0 then 0 else of_int (rhe (q / 2 powi grid_exp q)) * 2 powi grid_exp q)"

definition representable :: "rat \<Rightarrow> bool" where
  "representable q \<longleftrightarrow> rnd q = q"

lemma rnd_zero [simp]: "rnd 0 = 0"
  by (simp add: rnd_def)

lemma rnd_minus: "rnd (- q) = - rnd q"
proof -
  have "grid_exp (- q) = grid_exp q" by (simp add: grid_exp_def)
  then show ?thesis by (simp add: rnd_def rhe_minus)
qed

lemma grid_exp_mono: "x \<noteq> 0 \<Longrightarrow> \<bar>x\<bar> \<le> \<bar>y\<bar> \<Longrightarrow> grid_exp x \<le> grid_exp y"
  using binexp_mono [of x y] by (auto simp: grid_exp_def)

lemma powi2_split: "(2::rat) powi (int n + e) = 2 ^ n * 2 powi e"
  by (simp add: power_int_add power_int_of_nat)

lemma powi2_pos [simp]: "0 < (2::rat) powi e"
  by simp

text \<open>Every number on the grid of step \<open>2 powi e\<close> below \<open>2 ^ 53\<close> steps is representable.\<close>

lemma representable_grid:
  assumes e: "- 1074 \<le> e" and k: "\<bar>k\<bar> \<le> 2 ^ 53"
  shows "rnd (of_int k * 2 powi e) = of_int k * 2 powi e"
proof (cases "k = 0")
  case False
  define q where "q = (of_int k :: rat) * 2 powi e"
  have q: "q \<noteq> 0" using False by (simp add: q_def)
  have aq: "\<bar>q\<bar> = of_int \<bar>k\<bar> * 2 powi e" by (simp add: q_def abs_mult)
  have on_grid: "rnd q = q" if "grid_exp q \<le> e"
  proof -
    define g where "g = grid_exp q"
    define n where "n = nat (e - g)"
    have "e = int n + g" using that by (simp add: n_def g_def)
    then have qg: "q = of_int (k * 2 ^ n) * 2 powi g" by (simp add: q_def powi2_split)
    then have "q / 2 powi g = of_int (k * 2 ^ n)" by simp
    then have "rnd q = of_int (k * 2 ^ n) * 2 powi g"
      using q by (simp only: rnd_def g_def [symmetric] rhe_of_int if_False)
    also have "\<dots> = q" by (rule qg [symmetric])
    finally show ?thesis .
  qed
  show ?thesis
  proof (cases "\<bar>k\<bar> = 2 ^ 53")
    case True
    have "\<bar>q\<bar> = 2 powi (int 53 + e)" using True by (simp only: aq powi2_split) simp
    then have "binexp q = int 53 + e"
      by (intro binexp_unique) (auto intro: power_int_strict_increasing)
    then have ge: "grid_exp q = e + 1" using e by (simp add: grid_exp_def)
    define g where "g = grid_exp q"
    define h where "h = k div 2"
    have "k = 2 ^ 53 \<or> k = - (2 ^ 53)" using True by linarith
    then have "k = 2 * h" unfolding h_def by (elim disjE) simp_all
    moreover have "g = int 1 + e" using ge by (simp add: g_def)
    then have "2 powi g = 2 * (2::rat) powi e" using powi2_split [of 1 e] by simp
    ultimately have qg: "q = of_int h * 2 powi g" by (simp add: q_def)
    then have "q / 2 powi g = of_int h" by simp
    then have "rnd q = of_int h * 2 powi g"
      using q by (simp only: rnd_def g_def [symmetric] rhe_of_int if_False)
    also have "\<dots> = q" by (rule qg [symmetric])
    finally show ?thesis by (simp only: q_def)
  next
    case F: False
    with k have "\<bar>k\<bar> < 2 ^ 53" by simp
    then have "of_int \<bar>k\<bar> < (of_int (2 ^ 53) :: rat)" by (simp only: of_int_less_iff)
    then have "\<bar>q\<bar> < 2 powi (int 53 + e)"
      unfolding aq powi2_split by simp
    moreover note binexp_bounds(1) [OF q]
    ultimately have "(2::rat) powi binexp q < 2 powi (int 53 + e)" by linarith
    then have "binexp q < int 53 + e" by (rule powi2_less_cancel)
    then have "grid_exp q \<le> e" using e by (simp add: grid_exp_def)
    with on_grid show ?thesis by (simp only: q_def)
  qed
qed simp

corollary rnd_of_int:
  assumes "\<bar>k\<bar> \<le> 2 ^ 53"
  shows "rnd (of_int k) = of_int k"
  using representable_grid [of 0 k] assms by simp

lemma rnd_powi: "- 1074 \<le> e \<Longrightarrow> rnd (2 powi e) = 2 powi e"
  using representable_grid [of e 1] by simp

lemma rnd_nonneg: "0 \<le> q \<Longrightarrow> 0 \<le> rnd q"
  using rhe_mono [of 0 "q / 2 powi grid_exp q"] rhe_of_int [of 0]
  by (cases "q = 0") (auto simp: rnd_def)

lemma rnd_mono_pos:
  assumes "0 < x" "x \<le> y"
  shows "rnd x \<le> rnd y"
proof (cases "grid_exp x = grid_exp y")
  case True
  have "x / 2 powi grid_exp y \<le> y / 2 powi grid_exp y"
    using assms by (simp add: divide_right_mono)
  then have "of_int (rhe (x / 2 powi grid_exp y)) \<le> (of_int (rhe (y / 2 powi grid_exp y)) :: rat)"
    by (simp only: of_int_le_iff rhe_mono)
  then show ?thesis using assms True by (simp add: rnd_def mult_right_mono)
next
  case False
  have y: "0 < y" using assms by simp
  with False grid_exp_mono [of x y] assms have lt: "grid_exp x < grid_exp y" by auto
  then have gy: "grid_exp y = binexp y - 52" by (auto simp: grid_exp_def)
  have bx: "binexp x + 1 \<le> binexp y" using lt by (auto simp: grid_exp_def)
  define p where "p = (2::rat) powi binexp y"
  have "x < 2 powi (binexp x + 1)" using binexp_bounds(2) [of x] assms by simp
  also have "\<dots> \<le> p" unfolding p_def using bx by (intro power_int_increasing) auto
  finally have xp: "x \<le> p" by simp
  have yp: "p \<le> y" using binexp_bounds(1) [of y] y by (simp add: p_def)
  define n where "n = nat (binexp y - grid_exp x)"
  then have n: "binexp y = int n + grid_exp x" using lt gy by simp
  have pg: "p = 2 ^ 52 * 2 powi grid_exp y"
    using powi2_split [of 52 "grid_exp y"] gy by (simp add: p_def)
  have "rhe (x / 2 powi grid_exp x) \<le> rhe (of_int (2 ^ n))"
    using xp by (intro rhe_mono) (simp add: p_def n powi2_split divide_le_eq)
  then have "rhe (x / 2 powi grid_exp x) \<le> 2 ^ n" by (simp only: rhe_of_int)
  then have "of_int (rhe (x / 2 powi grid_exp x)) \<le> (of_int (2 ^ n) :: rat)"
    by (simp only: of_int_le_iff)
  then have "rnd x \<le> p"
    using assms by (simp add: rnd_def p_def n powi2_split mult_right_mono)
  moreover have "rhe (of_int (2 ^ 52)) \<le> rhe (y / 2 powi grid_exp y)"
    using yp by (intro rhe_mono) (simp add: pg le_divide_eq)
  then have "2 ^ 52 \<le> rhe (y / 2 powi grid_exp y)" by (simp only: rhe_of_int)
  then have "of_int (2 ^ 52) \<le> (of_int (rhe (y / 2 powi grid_exp y)) :: rat)"
    by (simp only: of_int_le_iff)
  then have "of_int (2 ^ 52) * 2 powi grid_exp y \<le> rnd y"
    using y by (simp add: rnd_def mult_right_mono)
  then have "p \<le> rnd y" by (simp add: pg)
  ultimately show ?thesis by simp
qed

theorem rnd_mono:
  assumes "x \<le> y"
  shows "rnd x \<le> rnd y"
proof -
  consider "0 < x" | "y < 0" | "x \<le> 0" "0 \<le> y" by linarith
  then show ?thesis
  proof cases
    case 1
    then show ?thesis using assms by (rule rnd_mono_pos)
  next
    case 2
    then show ?thesis using rnd_mono_pos [of "- y" "- x"] assms by (simp add: rnd_minus)
  next
    case 3
    then show ?thesis using rnd_nonneg [of y] rnd_nonneg [of "- x"] by (simp add: rnd_minus)
  qed
qed


subsection \<open>Values and operations\<close>

datatype f64 = NaN | Infinity bool | Finite rat

text \<open>The argument of \<open>Infinity\<close> is the sign bit. \<open>f64_of_rat\<close> rounds an exact result.\<close>

definition f64_of_rat :: "rat \<Rightarrow> f64" where
  "f64_of_rat q = (let r = rnd q in if 2 ^ 1024 \<le> \<bar>r\<bar> then Infinity (r < 0) else Finite r)"

text \<open>\<open>x as f64\<close> for an integer \<open>x\<close>.\<close>

definition f64_of_int :: "int \<Rightarrow> f64" where
  "f64_of_int n = f64_of_rat (of_int n)"

fun f64_is_finite :: "f64 \<Rightarrow> bool" where
  "f64_is_finite (Finite _) = True"
| "f64_is_finite _ = False"

fun f64_is_nan :: "f64 \<Rightarrow> bool" where
  "f64_is_nan NaN = True"
| "f64_is_nan _ = False"

fun f64_lt :: "f64 \<Rightarrow> f64 \<Rightarrow> bool" where
  "f64_lt NaN _ = False"
| "f64_lt _ NaN = False"
| "f64_lt (Finite x) (Finite y) = (x < y)"
| "f64_lt (Infinity s) (Finite _) = s"
| "f64_lt (Finite _) (Infinity s) = (\<not> s)"
| "f64_lt (Infinity s) (Infinity t) = (s \<and> \<not> t)"

fun f64_eq :: "f64 \<Rightarrow> f64 \<Rightarrow> bool" where
  "f64_eq (Finite x) (Finite y) = (x = y)"
| "f64_eq (Infinity s) (Infinity t) = (s = t)"
| "f64_eq _ _ = False"

definition f64_ge :: "f64 \<Rightarrow> f64 \<Rightarrow> bool" where
  "f64_ge x y \<longleftrightarrow> f64_lt y x \<or> f64_eq x y"

fun f64_neg :: "f64 \<Rightarrow> f64" where
  "f64_neg NaN = NaN"
| "f64_neg (Infinity s) = Infinity (\<not> s)"
| "f64_neg (Finite x) = Finite (- x)"

fun f64_abs :: "f64 \<Rightarrow> f64" where
  "f64_abs NaN = NaN"
| "f64_abs (Infinity s) = Infinity False"
| "f64_abs (Finite x) = Finite \<bar>x\<bar>"

fun f64_add :: "f64 \<Rightarrow> f64 \<Rightarrow> f64" where
  "f64_add NaN _ = NaN"
| "f64_add _ NaN = NaN"
| "f64_add (Infinity s) (Infinity t) = (if s = t then Infinity s else NaN)"
| "f64_add (Infinity s) (Finite _) = Infinity s"
| "f64_add (Finite _) (Infinity s) = Infinity s"
| "f64_add (Finite x) (Finite y) = f64_of_rat (x + y)"

definition f64_sub :: "f64 \<Rightarrow> f64 \<Rightarrow> f64" where
  "f64_sub x y = f64_add x (f64_neg y)"

fun f64_mul :: "f64 \<Rightarrow> f64 \<Rightarrow> f64" where
  "f64_mul NaN _ = NaN"
| "f64_mul _ NaN = NaN"
| "f64_mul (Infinity s) (Infinity t) = Infinity (s \<noteq> t)"
| "f64_mul (Infinity s) (Finite x) = (if x = 0 then NaN else Infinity (s \<noteq> (x < 0)))"
| "f64_mul (Finite x) (Infinity s) = (if x = 0 then NaN else Infinity (s \<noteq> (x < 0)))"
| "f64_mul (Finite x) (Finite y) = f64_of_rat (x * y)"

fun f64_floor :: "f64 \<Rightarrow> f64" where
  "f64_floor (Finite x) = Finite (of_int \<lfloor>x\<rfloor>)"
| "f64_floor x = x"

text \<open>\<open>f64::round\<close>: to the nearest integer, halves away from zero.\<close>

fun f64_round :: "f64 \<Rightarrow> f64" where
  "f64_round (Finite x) = Finite (of_int (if 0 \<le> x then \<lfloor>x + 1/2\<rfloor> else - \<lfloor>- x + 1/2\<rfloor>))"
| "f64_round x = x"

text \<open>\<open>x as iN\<close>: truncation towards zero, saturating, with NaN mapped to 0.\<close>

fun f64_to_int :: "int \<Rightarrow> int \<Rightarrow> f64 \<Rightarrow> int" where
  "f64_to_int lo hi NaN = 0"
| "f64_to_int lo hi (Infinity s) = (if s then lo else hi)"
| "f64_to_int lo hi (Finite x) =
     max lo (min hi (if 0 \<le> x then \<lfloor>x\<rfloor> else - \<lfloor>- x\<rfloor>))"

text \<open>A finite value that can occur at run time.\<close>

definition f64_value :: "rat \<Rightarrow> bool" where
  "f64_value x \<longleftrightarrow> representable x \<and> \<bar>x\<bar> < 2 ^ 1024"

lemma f64_of_rat_representable [simp]: "f64_value x \<Longrightarrow> f64_of_rat x = Finite x"
  by (simp add: f64_of_rat_def f64_value_def representable_def)

lemma f64_value_int:
  assumes "\<bar>k\<bar> \<le> 2 ^ 53"
  shows "f64_value (of_int k)"
proof -
  have "\<bar>k\<bar> < 2 ^ 1024" using assms by (rule le_less_trans) simp
  then have "of_int \<bar>k\<bar> < (of_int (2 ^ 1024) :: rat)" by (simp only: of_int_less_iff)
  then have "\<bar>of_int k :: rat\<bar> < 2 ^ 1024" by simp
  then show ?thesis using rnd_of_int [OF assms] by (simp add: f64_value_def representable_def)
qed

lemma rnd_abs_le_powi:
  assumes "\<bar>q\<bar> \<le> 2 powi e" "- 1074 \<le> e"
  shows "\<bar>rnd q\<bar> \<le> 2 powi e"
proof -
  have "rnd q \<le> rnd (2 powi e)" "rnd (- (2 powi e)) \<le> rnd q"
    using assms(1) by (auto intro!: rnd_mono simp: abs_le_iff)
  then show ?thesis using rnd_powi [OF assms(2)] by (simp add: rnd_minus abs_le_iff)
qed

text \<open>Values of magnitude at most \<open>2 ^ 1000\<close> never overflow; this covers every product the
  engine forms from an \<open>i64\<close> and a rate below \<open>2 ^ 900\<close>.\<close>

lemma f64_of_rat_small:
  assumes "\<bar>q\<bar> \<le> 2 ^ 1000"
  shows "f64_of_rat q = Finite (rnd q)"
proof -
  have "\<bar>q\<bar> \<le> 2 powi (int 1000)" using assms by (simp only: power_int_of_nat)
  then have "\<bar>rnd q\<bar> \<le> 2 powi (int 1000)" by (rule rnd_abs_le_powi) simp
  also have "\<dots> < 2 powi (int 1024)" by (rule power_int_strict_increasing) simp_all
  finally have "\<bar>rnd q\<bar> < 2 ^ 1024" by (simp only: power_int_of_nat)
  then show ?thesis by (simp add: f64_of_rat_def Let_def)
qed

lemma f64_of_rat_unit:
  assumes "\<bar>q\<bar> \<le> 1"
  shows "f64_of_rat q = Finite (rnd q)"
proof (rule f64_of_rat_small)
  have "(1::rat) \<le> 2 ^ 1000" by (rule one_le_power) simp
  with assms show "\<bar>q\<bar> \<le> 2 ^ 1000" by (rule order_trans)
qed

end
