(* ===== verification/Decimal_Text.thy ===== *)
theory Decimal_Text
  imports Prelude
begin

section \<open>Decimal integers as text\<close>

text \<open>
  Printing and parsing of decimal integers as Rust's \<open>Display\<close> and \<open>str::parse\<close> do it. A
  string is a list of characters; the inputs modelled are the code points below 256, of which
  those from 128 on take two bytes in UTF-8 (\<open>byte_len\<close> is Rust's \<open>str::len\<close>).
\<close>

definition is_ascii_digit :: "char \<Rightarrow> bool" where
  "is_ascii_digit c \<longleftrightarrow> (48::nat) \<le> of_char c \<and> of_char c \<le> (57::nat)"

definition digit_value :: "char \<Rightarrow> nat" where
  "digit_value c = of_char c - 48"

definition digit_char :: "nat \<Rightarrow> char" where
  "digit_char d = char_of (48 + d)"

definition byte_len :: "string \<Rightarrow> nat" where
  "byte_len s = sum_list (map (\<lambda>c. if of_char c < (128::nat) then 1 else 2) s)"

definition is_whitespace :: "char \<Rightarrow> bool" where
  "is_whitespace c \<longleftrightarrow> (of_char c :: nat) \<in> {9, 10, 11, 12, 13, 32, 133, 160}"

definition trim :: "string \<Rightarrow> string" where
  "trim s = rev (dropWhile is_whitespace (rev (dropWhile is_whitespace s)))"

fun show_nat :: "nat \<Rightarrow> string" where
  "show_nat n = (if n < 10 then [digit_char n] else show_nat (n div 10) @ [digit_char (n mod 10)])"

declare show_nat.simps [simp del]

definition show_int :: "int \<Rightarrow> string" where
  "show_int z = (if z < 0 then CHR ''-'' # show_nat (nat (- z)) else show_nat (nat z))"

definition digits_value :: "string \<Rightarrow> nat" where
  "digits_value s = foldl (\<lambda>a c. a * 10 + digit_value c) 0 s"

definition all_digits :: "string \<Rightarrow> bool" where
  "all_digits s \<longleftrightarrow> s \<noteq> [] \<and> list_all is_ascii_digit s"

text \<open>\<open>str::parse\<close> for a signed integer type with range \<open>lo..=hi\<close>.\<close>

definition parse_int :: "int \<Rightarrow> int \<Rightarrow> string \<Rightarrow> int option" where
  "parse_int lo hi s = (let (neg, ds) = (case s of
        [] \<Rightarrow> (False, [])
      | c # cs \<Rightarrow> if c = CHR ''-'' then (True, cs) else if c = CHR ''+'' then (False, cs) else (False, s));
      v = (if neg then - int (digits_value ds) else int (digits_value ds)) in
     if all_digits ds \<and> lo \<le> v \<and> v \<le> hi then Some v else None)"

text \<open>\<open>str::parse\<close> for an unsigned integer type (a leading plus sign is accepted).\<close>

definition parse_nat :: "nat \<Rightarrow> string \<Rightarrow> nat option" where
  "parse_nat hi s = (let ds = (case s of c # cs \<Rightarrow> if c = CHR ''+'' then cs else s | [] \<Rightarrow> []) in
     if all_digits ds \<and> digits_value ds \<le> hi then Some (digits_value ds) else None)"

text \<open>A text is canonical when it has no superfluous leading zero.\<close>

definition canonical_digits :: "string \<Rightarrow> bool" where
  "canonical_digits s \<longleftrightarrow> all_digits s \<and> \<not> (1 < length s \<and> hd s = CHR ''0'')"

subsection \<open>Digits\<close>

lemma of_char_digit_char [simp]: "d < 10 \<Longrightarrow> of_char (digit_char d) = 48 + d"
  by (simp add: digit_char_def)

lemma is_ascii_digit_digit_char [simp]: "d < 10 \<Longrightarrow> is_ascii_digit (digit_char d)"
  by (simp add: is_ascii_digit_def)

lemma digit_value_digit_char [simp]: "d < 10 \<Longrightarrow> digit_value (digit_char d) = d"
  by (simp add: digit_value_def)

lemma digit_char_digit_value: "is_ascii_digit c \<Longrightarrow> digit_char (digit_value c) = c"
  by (simp add: is_ascii_digit_def digit_char_def digit_value_def)

lemma digit_value_less [simp]: "is_ascii_digit c \<Longrightarrow> digit_value c < 10"
  unfolding is_ascii_digit_def digit_value_def by arith

lemma digit_char_0: "digit_char 0 = CHR ''0''"
proof -
  have "(of_char (CHR ''0'') :: nat) = 48" by simp
  then have "char_of (48::nat) = CHR ''0''" by (metis char_of_char)
  then show ?thesis by (simp add: digit_char_def)
qed

lemma digit_value_eq_0: "is_ascii_digit c \<Longrightarrow> digit_value c = 0 \<longleftrightarrow> c = CHR ''0''"
  using digit_char_digit_value [of c] digit_char_0 digit_value_digit_char [of 0] by force

lemma digit_not_sign: "is_ascii_digit c \<Longrightarrow> c \<noteq> CHR ''-'' \<and> c \<noteq> CHR ''+'' \<and> c \<noteq> CHR ''.''"
  by (auto simp: is_ascii_digit_def)

lemma digits_value_snoc [simp]: "digits_value (s @ [c]) = digits_value s * 10 + digit_value c"
  by (simp add: digits_value_def)

lemma digits_value_Nil [simp]: "digits_value [] = 0"
  by (simp add: digits_value_def)

lemma digits_value_append:
  "digits_value (s @ t) = digits_value s * 10 ^ length t + digits_value t"
proof (induction t rule: rev_induct)
  case (snoc c t)
  have "digits_value (s @ t @ [c]) = digits_value ((s @ t) @ [c])" by simp
  also have "\<dots> = digits_value (s @ t) * 10 + digit_value c" by (rule digits_value_snoc)
  finally show ?case using snoc by (simp add: algebra_simps)
qed simp

lemma all_digits_append_single [simp]:
  "list_all is_ascii_digit s \<Longrightarrow> is_ascii_digit c \<Longrightarrow> all_digits (s @ [c])"
  by (simp add: all_digits_def)

lemma all_digitsD: "all_digits s \<Longrightarrow> s \<noteq> [] \<and> list_all is_ascii_digit s"
  by (simp add: all_digits_def)

lemma digits_value_bound: "list_all is_ascii_digit s \<Longrightarrow> digits_value s < 10 ^ length s"
proof (induction s rule: rev_induct)
  case (snoc c s)
  then have "digits_value s + 1 \<le> 10 ^ length s" "digit_value c < 10" by auto
  then show ?case by simp
qed simp

lemma digits_value_lower:
  assumes "all_digits s" "hd s \<noteq> CHR ''0''"
  shows "10 ^ (length s - 1) \<le> digits_value s"
proof -
  obtain c t where s: "s = c # t" using assms by (cases s) (auto simp: all_digits_def)
  then have "digit_value c \<noteq> 0" using assms digit_value_eq_0 [of c] by (auto simp: all_digits_def)
  then have "1 * 10 ^ length t \<le> digit_value c * 10 ^ length t" by (intro mult_le_mono1) simp
  moreover have "digits_value s = digit_value c * 10 ^ length t + digits_value t"
    using digits_value_append [of "[c]" t] by (simp add: s digits_value_def)
  ultimately have "10 ^ length t \<le> digits_value s" by linarith
  then show ?thesis by (simp add: s)
qed

subsection \<open>Printing and parsing are inverse\<close>

lemma show_nat_small: "n < 10 \<Longrightarrow> show_nat n = [digit_char n]"
  by (simp add: show_nat.simps)

lemma show_nat_big: "\<not> n < 10 \<Longrightarrow> show_nat n = show_nat (n div 10) @ [digit_char (n mod 10)]"
  by (subst show_nat.simps) simp

lemma all_digits_show_nat [simp]: "all_digits (show_nat n)"
proof (induction n rule: show_nat.induct)
  case (1 n)
  then show ?case
    by (cases "n < 10") (auto simp: show_nat_small show_nat_big all_digits_def)
qed

lemma digits_value_show_nat [simp]: "digits_value (show_nat n) = n"
proof (induction n rule: show_nat.induct)
  case (1 n)
  then show ?case
    by (cases "n < 10") (auto simp: show_nat_small show_nat_big digits_value_def)
qed

lemma hd_show_nat_zero: "hd (show_nat n) = CHR ''0'' \<Longrightarrow> n = 0"
proof (induction n rule: show_nat.induct)
  case (1 n)
  show ?case
  proof (cases "n < 10")
    case True
    with 1(2) digit_value_digit_char [of n] digit_value_digit_char [of 0] digit_char_0
    show ?thesis by (auto simp: show_nat_small)
  next
    case False
    have "show_nat (n div 10) \<noteq> []" using all_digits_show_nat by (simp add: all_digits_def)
    with 1(2) have "hd (show_nat (n div 10)) = CHR ''0''" by (simp add: show_nat_big [OF False])
    with 1(1) [OF False] have "n div 10 = 0" by simp
    with False show ?thesis by simp
  qed
qed

lemma canonical_show_nat [simp]: "canonical_digits (show_nat n)"
proof (cases "n = 0")
  case True
  then have "length (show_nat n) = 1" by (simp add: show_nat_small)
  then show ?thesis by (simp add: canonical_digits_def)
next
  case False
  with hd_show_nat_zero [of n] show ?thesis by (auto simp: canonical_digits_def)
qed

lemma canonical_snoc:
  assumes "canonical_digits (s @ [c])" "s \<noteq> []"
  shows "canonical_digits s" and "0 < digits_value s"
proof -
  have ad: "all_digits s" and hd: "hd s \<noteq> CHR ''0''"
    using assms by (auto simp: canonical_digits_def all_digits_def)
  then show "canonical_digits s" by (simp add: canonical_digits_def)
  have "(0::nat) < 10 ^ (length s - 1)" by simp
  with digits_value_lower [OF ad hd] show "0 < digits_value s" by linarith
qed

lemma show_nat_digits_value:
  assumes "canonical_digits s"
  shows "show_nat (digits_value s) = s"
  using assms
proof (induction s rule: rev_induct)
  case Nil
  then show ?case by (simp add: canonical_digits_def all_digits_def)
next
  case (snoc c s)
  have c: "is_ascii_digit c" using snoc.prems by (auto simp: canonical_digits_def all_digits_def)
  show ?case
  proof (cases "s = []")
    case True
    then show ?thesis using c
      by (simp add: digits_value_def show_nat_small digit_char_digit_value)
  next
    case False
    note s = canonical_snoc [OF snoc.prems False]
    have "\<not> digits_value s * 10 + digit_value c < 10" using s(2) by simp
    moreover have "(digits_value s * 10 + digit_value c) div 10 = digits_value s"
      "(digits_value s * 10 + digit_value c) mod 10 = digit_value c"
      using digit_value_less [OF c] by auto
    ultimately show ?thesis using snoc.IH [OF s(1)] c
      by (simp add: show_nat_big digit_char_digit_value)
  qed
qed

lemma show_nat_nonempty [simp]: "show_nat n \<noteq> []"
  using all_digits_show_nat [of n] by (simp add: all_digits_def)

lemma hd_show_nat_digit: "is_ascii_digit (hd (show_nat n))"
  using all_digits_show_nat [of n] by (cases "show_nat n") (auto simp: all_digits_def)

theorem parse_show_int:
  assumes "lo \<le> z" "z \<le> hi"
  shows "parse_int lo hi (show_int z) = Some z"
proof (cases "z < 0")
  case True
  then show ?thesis using assms by (simp add: parse_int_def show_int_def)
next
  case False
  obtain c cs where cs: "show_nat (nat z) = c # cs" using show_nat_nonempty by (cases "show_nat (nat z)") auto
  then have "is_ascii_digit c" using hd_show_nat_digit [of "nat z"] by simp
  with digit_not_sign have "c \<noteq> CHR ''-''" "c \<noteq> CHR ''+''" by auto
  moreover have "all_digits (c # cs)" "digits_value (c # cs) = nat z"
    using all_digits_show_nat [of "nat z"] digits_value_show_nat [of "nat z"] by (simp_all only: cs)
  ultimately show ?thesis using False assms by (simp add: parse_int_def show_int_def cs)
qed

theorem parse_show_nat:
  assumes "n \<le> hi"
  shows "parse_nat hi (show_nat n) = Some n"
proof -
  obtain c cs where cs: "show_nat n = c # cs" using show_nat_nonempty by (cases "show_nat n") auto
  then have "is_ascii_digit c" using hd_show_nat_digit [of n] by simp
  with digit_not_sign have "c \<noteq> CHR ''+''" by auto
  moreover have "all_digits (c # cs)" "digits_value (c # cs) = n"
    using all_digits_show_nat [of n] digits_value_show_nat [of n] by (simp_all only: cs)
  ultimately show ?thesis using assms by (simp add: parse_nat_def cs)
qed

end
