(* ===== verification/Money.thy ===== *)
theory Money
  imports Float64 Decimal_Text
begin

section \<open>Money: fixed-point amounts in cents (money.rs)\<close>

text \<open>
  \<open>Money\<close> wraps an \<open>i64\<close> number of cents. The model is an \<open>int\<close>; a value that exists at run time
  satisfies \<open>in_i64\<close>, and every operation that can leave the range reports it the way the source
  does. The second half proves what the one place where \<open>f64\<close> enters the money path computes:
  \<open>round_half_to_even\<close> equals mathematical rounding of the binary64 product, although it forms
  \<open>x - floor x\<close> in floating point, and \<open>apply_rate\<close> is monotone and bounded.
\<close>

type_synonym money = int

abbreviation i64_min :: int where "i64_min \<equiv> - (2 ^ 63)"
abbreviation i64_max :: int where "i64_max \<equiv> 2 ^ 63 - 1"
abbreviation i128_min :: int where "i128_min \<equiv> - (2 ^ 127)"
abbreviation i128_max :: int where "i128_max \<equiv> 2 ^ 127 - 1"
abbreviation u32_max :: nat where "u32_max \<equiv> 2 ^ 32 - 1"
abbreviation u64_max :: nat where "u64_max \<equiv> 2 ^ 64 - 1"

definition in_i64 :: "int \<Rightarrow> bool" where
  "in_i64 z \<longleftrightarrow> i64_min \<le> z \<and> z \<le> i64_max"

definition in_i128 :: "int \<Rightarrow> bool" where
  "in_i128 z \<longleftrightarrow> i128_min \<le> z \<and> z \<le> i128_max"

definition checked_i64 :: "int \<Rightarrow> int option" where
  "checked_i64 z = (if in_i64 z then Some z else None)"

definition checked_i128 :: "int \<Rightarrow> int option" where
  "checked_i128 z = (if in_i128 z then Some z else None)"

definition checked_u32 :: "nat \<Rightarrow> nat option" where
  "checked_u32 n = (if n \<le> u32_max then Some n else None)"

definition checked_u64 :: "nat \<Rightarrow> nat option" where
  "checked_u64 n = (if n \<le> u64_max then Some n else None)"

lemma checked_i64_Some_iff [simp]: "checked_i64 z = Some y \<longleftrightarrow> in_i64 z \<and> y = z"
  by (auto simp: checked_i64_def)

lemma checked_i128_Some_iff [simp]: "checked_i128 z = Some y \<longleftrightarrow> in_i128 z \<and> y = z"
  by (auto simp: checked_i128_def)

lemma checked_u32_Some_iff [simp]: "checked_u32 n = Some m \<longleftrightarrow> n \<le> u32_max \<and> m = n"
  by (auto simp: checked_u32_def)

lemma checked_u64_Some_iff [simp]: "checked_u64 n = Some m \<longleftrightarrow> n \<le> u64_max \<and> m = n"
  by (auto simp: checked_u64_def)

subsection \<open>Errors\<close>

datatype parse_fail_reason = TooManyDecimals | NotANumber | Empty | MultipleDots

datatype money_op =
    PositionQtyAdd | T1LockedAdd | InvestedCentsAdd | RecoveredCentsAdd | CashAdd | CashSub
  | MulShares | ApplyRate | Cents | PositiveHalfUpBound | TradeBatchQtyAdd | OtherOp

datatype money_error =
    ParseFailed parse_fail_reason
  | MoneyOverflow money_op int
  | MoneyInvalidRate f64

subsection \<open>Arithmetic\<close>

definition money_add :: "money \<Rightarrow> money \<Rightarrow> money_error + money" where
  "money_add a b = ok_or (MoneyOverflow CashAdd a) (checked_i64 (a + b))"

definition money_sub :: "money \<Rightarrow> money \<Rightarrow> money_error + money" where
  "money_sub a b = ok_or (MoneyOverflow CashSub a) (checked_i64 (a - b))"

definition mul_shares :: "money \<Rightarrow> nat \<Rightarrow> money_error + money" where
  "mul_shares a shares = ok_or (MoneyOverflow MulShares a) (checked_i64 (a * int shares))"

lemma money_add_Inr [simp, result_simps]:
  "money_add a b = Inr c \<longleftrightarrow> in_i64 (a + b) \<and> c = a + b"
  by (simp add: money_add_def)

lemma money_sub_Inr [simp, result_simps]:
  "money_sub a b = Inr c \<longleftrightarrow> in_i64 (a - b) \<and> c = a - b"
  by (simp add: money_sub_def)

lemma mul_shares_Inr [simp, result_simps]:
  "mul_shares a n = Inr c \<longleftrightarrow> in_i64 (a * int n) \<and> c = a * int n"
  by (simp add: mul_shares_def)

lemma money_add_Inl: "money_add a b = Inl e \<longleftrightarrow> \<not> in_i64 (a + b) \<and> e = MoneyOverflow CashAdd a"
  by (auto simp: money_add_def checked_i64_def)

interpretation money_sum: checked_sum in_i64 money_add
  by unfold_locales (auto simp: in_i64_def)

subsection \<open>The wire form: a canonical string of cents\<close>

definition money_serialize :: "money \<Rightarrow> string" where
  "money_serialize m = show_int m"

definition money_deserialize :: "string \<Rightarrow> money option" where
  "money_deserialize text =
    (let digits = (case text of c # cs \<Rightarrow> if c = CHR ''-'' then cs else text | [] \<Rightarrow> text) in
     if digits = [] \<or> \<not> list_all is_ascii_digit digits
        \<or> (1 < length digits \<and> hd digits = CHR ''0'') \<or> text = ''-0''
     then None
     else parse_int i64_min i64_max text)"

lemma show_int_cases:
  obtains (neg) n where "z < 0" "show_int z = CHR ''-'' # show_nat n" "n = nat (- z)" "0 < n"
  | (pos) n where "0 \<le> z" "show_int z = show_nat n" "n = nat z"
  by (cases "z < 0") (auto simp: show_int_def)

lemma money_deserialize_serialize:
  assumes "in_i64 m"
  shows "money_deserialize (money_serialize m) = Some m"
proof -
  have r: "parse_int i64_min i64_max (show_int m) = Some m"
    using assms by (intro parse_show_int) (auto simp: in_i64_def)
  show ?thesis
  proof (cases rule: show_int_cases [of m])
    case (neg n)
    have "canonical_digits (show_nat n)" by simp
    moreover have "show_nat n \<noteq> ''0''"
      using neg(4) digits_value_show_nat [of n] digits_value_show_nat [of 0]
      by (metis digit_char_0 less_numeral_extra(3) show_nat_small zero_less_numeral)
    ultimately show ?thesis using r neg
      by (auto simp: money_deserialize_def money_serialize_def canonical_digits_def all_digits_def)
  next
    case (pos n)
    obtain c cs where cs: "show_nat n = c # cs" using show_nat_nonempty by (cases "show_nat n") auto
    then have "c \<noteq> CHR ''-''" using hd_show_nat_digit [of n] digit_not_sign by force
    moreover have "canonical_digits (c # cs)" using canonical_show_nat [of n] by (simp only: cs)
    ultimately show ?thesis using r pos cs
      by (auto simp: money_deserialize_def money_serialize_def canonical_digits_def all_digits_def)
  qed
qed

lemma money_serialize_deserialize:
  assumes "money_deserialize text = Some m"
  shows "in_i64 m \<and> money_serialize m = text"
proof -
  obtain c cs where t: "text = c # cs"
    using assms by (cases "text") (auto simp: money_deserialize_def)
  show ?thesis
  proof (cases "c = CHR ''-''")
    case True
    with assms t have d: "canonical_digits cs" "cs \<noteq> ''0''" "m = - int (digits_value cs)"
      and r: "in_i64 m"
      by (auto simp: money_deserialize_def canonical_digits_def all_digits_def parse_int_def
          in_i64_def split: if_splits)
    have "digits_value cs \<noteq> 0"
      using show_nat_digits_value [OF d(1)] d(2) by (metis digit_char_0 show_nat_small zero_less_numeral)
    with d r show ?thesis using True t show_nat_digits_value [OF d(1)]
      by (simp add: money_serialize_def show_int_def)
  next
    case False
    with assms t have "canonical_digits text" "m = int (digits_value text)" "in_i64 m"
      using digit_not_sign [of c]
      by (auto simp: money_deserialize_def canonical_digits_def all_digits_def parse_int_def
          in_i64_def Let_def split: if_splits)
    then show ?thesis by (simp add: money_serialize_def show_int_def show_nat_digits_value)
  qed
qed

text \<open>
  A serialized amount reads back as itself, and every accepted text is
  exactly the serialization of the amount it denotes: the wire form is a bijection between
  the \<open>i64\<close> amounts and the accepted texts.
\<close>

theorem money_wire_bijection:
  "(money_deserialize text = Some m) = (in_i64 m \<and> text = money_serialize m)"
  using money_deserialize_serialize money_serialize_deserialize by blast

subsection \<open>Parsing an amount in yuan\<close>

text \<open>\<open>str::split_once('.')\<close>.\<close>

fun split_once_dot :: "string \<Rightarrow> (string \<times> string) option" where
  "split_once_dot [] = None"
| "split_once_dot (c # cs) = (if c = CHR ''.'' then Some ([], cs) else
     map_option (\<lambda>(i, f). (c # i, f)) (split_once_dot cs))"

definition yuan_sign :: "string \<Rightarrow> bool \<times> string" where
  "yuan_sign s = (if hd s = CHR ''-'' then (True, tl s)
     else if hd s = CHR ''+'' then (False, tl s) else (False, s))"

definition yuan_parts :: "string \<Rightarrow> money_error + string \<times> string" where
  "yuan_parts digits = (case split_once_dot digits of
      Some (i, f) \<Rightarrow> if CHR ''.'' \<in> set f then Inl (ParseFailed MultipleDots) else Inr (i, f)
    | None \<Rightarrow> Inr (digits, []))"

definition frac_cents :: "string \<Rightarrow> int" where
  "frac_cents f = (if length f = 0 then 0 else if length f = 1 then int (digits_value f) * 10
     else int (digits_value f))"

definition yuan_cents :: "bool \<Rightarrow> string \<Rightarrow> string \<Rightarrow> money_error + money" where
  "yuan_cents neg i f =
    bind_result (if i = [] then Inr 0
       else ok_or (ParseFailed NotANumber) (parse_int i128_min i128_max i)) (\<lambda>int_cents.
    bind_result (ok_or (MoneyOverflow OtherOp 0)
       (Option.bind (checked_i128 (int_cents * 100)) (\<lambda>c. checked_i128 (c + frac_cents f))))
      (\<lambda>absolute_total.
    bind_result (ok_or (MoneyOverflow Cents 0)
       (if neg then checked_i128 (- absolute_total) else Some absolute_total)) (\<lambda>signed_total.
    ok_or (MoneyOverflow Cents 0) (checked_i64 signed_total))))"

definition from_yuan_str :: "string \<Rightarrow> money_error + money" where
  "from_yuan_str s = (let trimmed = trim s in
     if trimmed = [] then Inl (ParseFailed Empty) else
     let (neg, digits) = yuan_sign trimmed in
     if digits = [] then Inl (ParseFailed NotANumber) else
     bind_result (yuan_parts digits) (\<lambda>(i, f).
       if i = [] \<and> f = [] then Inl (ParseFailed NotANumber)
       else if 2 < byte_len f then Inl (ParseFailed TooManyDecimals)
       else if i \<noteq> [] \<and> \<not> list_all is_ascii_digit i then Inl (ParseFailed NotANumber)
       else if f \<noteq> [] \<and> \<not> list_all is_ascii_digit f then Inl (ParseFailed NotANumber)
       else yuan_cents neg i f))"

text \<open>The canonical decimal writing of an amount, with two decimals.\<close>

definition show_yuan :: "money \<Rightarrow> string" where
  "show_yuan m = (let a = nat \<bar>m\<bar> in
     (if m < 0 then [CHR ''-''] else []) @ show_nat (a div 100) @ [CHR ''.'']
       @ [digit_char (a mod 100 div 10), digit_char (a mod 10)])"

lemma trim_id:
  assumes "s \<noteq> []" "\<not> is_whitespace (hd s)" "\<not> is_whitespace (last s)"
  shows "trim s = s"
proof -
  have "dropWhile is_whitespace s = s" using assms by (cases s) auto
  moreover have "dropWhile is_whitespace (rev s) = rev s"
    using assms by (cases s rule: rev_cases) auto
  ultimately show ?thesis by (simp add: trim_def)
qed

lemma digit_not_whitespace: "is_ascii_digit c \<Longrightarrow> \<not> is_whitespace c"
  by (auto simp: is_ascii_digit_def is_whitespace_def)

lemma split_once_dot_digits:
  "list_all is_ascii_digit i \<Longrightarrow> split_once_dot (i @ CHR ''.'' # f) = Some (i, f)"
  by (induction i) (auto dest: digit_not_sign)

lemma byte_len_digits: "list_all is_ascii_digit s \<Longrightarrow> byte_len s = length s"
  by (induction s) (auto simp: byte_len_def is_ascii_digit_def)

lemma dot_not_in_digits: "list_all is_ascii_digit f \<Longrightarrow> CHR ''.'' \<notin> set f"
  by (auto simp: list_all_iff dest: digit_not_sign)

lemma parse_int_digits:
  assumes "all_digits s"
  shows "parse_int lo hi s
     = (if lo \<le> int (digits_value s) \<and> int (digits_value s) \<le> hi then Some (int (digits_value s)) else None)"
proof -
  obtain c cs where s: "s = c # cs" using assms by (cases s) (auto simp: all_digits_def)
  then have "is_ascii_digit c" using assms by (simp add: all_digits_def)
  with digit_not_sign have "c \<noteq> CHR ''-''" "c \<noteq> CHR ''+''" by auto
  then show ?thesis using assms by (simp add: parse_int_def s Let_def)
qed

text \<open>What a well-formed amount text denotes.\<close>

lemma from_yuan_str_parts:
  assumes i: "all_digits i" and f: "list_all is_ascii_digit f" "length f \<le> 2"
    and small: "digits_value i < 2 ^ 100"
  shows "from_yuan_str ((if neg then [CHR ''-''] else []) @ i @ CHR ''.'' # f)
    = yuan_cents neg i f" (is "from_yuan_str ?s = _")
proof -
  obtain c cs where c: "i = c # cs" "is_ascii_digit c"
    using i by (cases i) (auto simp: all_digits_def)
  have dot: "\<not> is_whitespace (CHR ''.'')" "\<not> is_whitespace (CHR ''-'')"
    by (simp_all add: is_whitespace_def)
  have "f \<noteq> [] \<Longrightarrow> is_ascii_digit (last f)" using f(1) by (simp add: list_all_iff)
  then have "\<not> is_whitespace (last ?s)" using dot digit_not_whitespace by auto
  moreover have "\<not> is_whitespace (hd ?s)" using dot c digit_not_whitespace by auto
  ultimately have tr: "trim ?s = ?s" by (intro trim_id) auto
  have sg: "yuan_sign ?s = (neg, i @ CHR ''.'' # f)"
    using c digit_not_sign [OF c(2)] by (auto simp: yuan_sign_def)
  have pt: "yuan_parts (i @ CHR ''.'' # f) = Inr (i, f)"
    using i f by (simp add: yuan_parts_def all_digits_def split_once_dot_digits dot_not_in_digits)
  show ?thesis
    unfolding from_yuan_str_def Let_def tr sg using i f
    by (simp add: pt all_digits_def byte_len_digits)
qed

lemma yuan_cents_value:
  assumes i: "all_digits i" and f: "list_all is_ascii_digit f" "length f \<le> 2"
    and small: "digits_value i < 2 ^ 100"
    and z: "z = (if neg then - 1 else 1) * (int (digits_value i) * 100 + frac_cents f)"
    and r: "in_i64 z"
  shows "yuan_cents neg i f = Inr z"
proof -
  have ne: "i \<noteq> []" using i by (simp add: all_digits_def)
  have di: "int (digits_value i) < 2 ^ 100"
    using small by (metis of_nat_less_numeral_power_cancel_iff of_nat_numeral of_nat_power)
  have "digits_value f < 10 ^ length f" by (rule digits_value_bound [OF f(1)])
  moreover have "(10::nat) ^ length f \<le> 10 ^ 2" by (rule power_increasing [OF f(2)]) simp
  ultimately have "digits_value f < 100" by simp
  then have ff: "0 \<le> frac_cents f" "frac_cents f < 1000" by (auto simp: frac_cents_def)
  have p: "parse_int i128_min i128_max i = Some (int (digits_value i))"
    using di by (simp add: parse_int_digits [OF i])
  have a: "checked_i128 (int (digits_value i) * 100) = Some (int (digits_value i) * 100)"
    "checked_i128 (int (digits_value i) * 100 + frac_cents f) = Some (int (digits_value i) * 100 + frac_cents f)"
    using di ff by (simp_all add: in_i128_def)
  have n: "checked_i128 (- (int (digits_value i) * 100 + frac_cents f))
     = Some (- (int (digits_value i) * 100 + frac_cents f))"
    using di ff by (simp add: in_i128_def)
  show ?thesis using ne r z
    unfolding yuan_cents_def p by (cases neg) (simp_all only: ok_or_simps bind_result_simps
        if_False if_True a n Option.bind.simps, simp_all add: checked_i64_def)
qed

lemma digits_value_two: "a < 10 \<Longrightarrow> b < 10 \<Longrightarrow> digits_value [digit_char a, digit_char b] = a * 10 + b"
  by (simp add: digits_value_def)

text \<open>
  The parser of decimal amounts reads the canonical writing of every
  \<open>i64\<close> amount, both signs and the two extreme values included, back to the same number of
  cents: nothing is rounded and nothing overflows inside the range.
\<close>

theorem from_yuan_str_show_yuan:
  assumes "in_i64 m"
  shows "from_yuan_str (show_yuan m) = Inr m"
proof -
  define a where "a = nat \<bar>m\<bar>"
  define f where "f = [digit_char (a mod 100 div 10), digit_char (a mod 10)]"
  have s: "show_yuan m = (if m < 0 then [CHR ''-''] else []) @ show_nat (a div 100) @ CHR ''.'' # f"
    by (simp add: show_yuan_def a_def f_def Let_def)
  have f: "list_all is_ascii_digit f" "length f \<le> 2" by (simp_all add: f_def)
  have "a mod 100 mod 10 = a mod 10" by (rule mod_mod_cancel) simp
  then have "a mod 100 div 10 * 10 + a mod 10 = a mod 100"
    using div_mult_mod_eq [of "a mod 100" 10] by simp
  then have fv: "frac_cents f = int (a mod 100)"
    by (simp add: frac_cents_def f_def digits_value_two)
  have "a \<le> 2 ^ 63" using assms by (auto simp: a_def in_i64_def)
  then have small: "digits_value (show_nat (a div 100)) < 2 ^ 100" by simp
  have "int (a div 100) * 100 + int (a mod 100) = int a"
    by (metis div_mult_mod_eq of_nat_add of_nat_mult of_nat_numeral)
  then have z: "m = (if m < 0 then - 1 else 1) * (int (digits_value (show_nat (a div 100))) * 100 + frac_cents f)"
    by (simp add: fv a_def)
  show ?thesis unfolding s from_yuan_str_parts [OF all_digits_show_nat f small]
    by (rule yuan_cents_value [OF all_digits_show_nat f small z assms])
qed

lemma from_yuan_str_show_yuan_witness:
  "from_yuan_str (show_yuan (- 12345)) = Inr (- 12345)"
  by (rule from_yuan_str_show_yuan) (simp add: in_i64_def)

subsection \<open>Scaling by a rate\<close>

text \<open>\<open>round_half_to_even\<close>: the difference to the floor is formed in binary64.\<close>

definition round_half_to_even :: "f64 \<Rightarrow> int" where
  "round_half_to_even x = (let fl = f64_floor x; diff = f64_sub x fl; to_i64 = f64_to_int i64_min i64_max in
     if f64_lt diff (Finite (1/2)) then to_i64 fl
     else if f64_lt (Finite (1/2)) diff then to_i64 (f64_add fl (Finite 1))
     else if to_i64 fl mod 2 = 0 then to_i64 fl
     else to_i64 (f64_add fl (Finite 1)))"

definition apply_rate :: "money \<Rightarrow> f64 \<Rightarrow> money_error + money" where
  "apply_rate m rate =
    (if \<not> f64_is_finite rate then Inl (MoneyInvalidRate rate)
     else if f64_eq rate (Finite 1) then Inr m
     else let scaled = f64_mul (f64_of_int m) rate in
       if \<not> f64_is_finite scaled \<or> f64_ge scaled (f64_of_int i64_max) \<or> f64_lt scaled (f64_of_int i64_min)
       then Inl (MoneyOverflow ApplyRate m)
       else Inr (round_half_to_even scaled))"

text \<open>The subtraction of the floor is exact outside the interval from -1 to 0.\<close>

lemma value_grid:
  assumes "representable x" "x \<noteq> 0"
  shows "x = of_int (rhe (x / 2 powi grid_exp x)) * 2 powi grid_exp x"
  using assms by (simp add: representable_def rnd_def)

lemma powi2_neg_nat: "(2::rat) powi (- int n) * 2 ^ n = 1"
  by (subst mult.commute) (use powi2_split [of n "- int n"] in simp)

lemma diff_floor_exact:
  assumes x: "representable x" and out: "x \<le> -1 \<or> 0 \<le> x"
  shows "rnd (x - of_int \<lfloor>x\<rfloor>) = x - of_int \<lfloor>x\<rfloor>"
proof (cases "0 \<le> x \<and> x < 1")
  case True
  then have "\<lfloor>x\<rfloor> = 0" by linarith
  then show ?thesis using x by (simp add: representable_def)
next
  case False
  then have ax: "1 \<le> \<bar>x\<bar>" using out by auto
  then have xn: "x \<noteq> 0" by auto
  define g where "g = grid_exp x"
  define m where "m = rhe (x / 2 powi g)"
  have xm: "x = of_int m * 2 powi g" using value_grid [OF x xn] by (simp add: g_def m_def)
  have g: "- 52 \<le> g" using binexp_ge_one(3) [OF ax] by (simp add: g_def grid_exp_def)
  show ?thesis
  proof (cases "0 \<le> g")
    case True
    then have "g = int (nat g)" by simp
    then have "x = of_int (m * 2 ^ nat g)"
      by (metis of_int_mult of_int_numeral of_int_power power_int_of_nat xm)
    then have "x - of_int \<lfloor>x\<rfloor> = 0" by (metis floor_of_int diff_self)
    then show ?thesis by simp
  next
    case False
    define n where "n = nat (- g)"
    have gn: "g = - int n" and n52: "n \<le> 52" using False g by (auto simp: n_def)
    have one: "(2::rat) powi g * 2 ^ n = 1" using powi2_neg_nat [of n] gn by simp
    define k where "k = m - \<lfloor>x\<rfloor> * 2 ^ n"
    have "of_int \<lfloor>x\<rfloor> = (of_int (\<lfloor>x\<rfloor> * 2 ^ n) :: rat) * 2 powi g"
      using one by (simp add: mult.assoc mult.commute)
    then have d: "x - of_int \<lfloor>x\<rfloor> = of_int k * 2 powi g"
      by (simp add: k_def xm [symmetric] left_diff_distrib)
    have "0 \<le> x - of_int \<lfloor>x\<rfloor>" "x - of_int \<lfloor>x\<rfloor> < 1" by linarith+
    then have "0 \<le> (of_int k :: rat)" "(of_int k :: rat) * 2 powi g < 2 ^ n * 2 powi g"
      using one powi2_pos [of g] by (auto simp: d zero_le_mult_iff mult.commute not_le)
    then have "0 \<le> k" "(of_int k :: rat) < of_int (2 ^ n)" by simp_all
    then have "0 \<le> k" "k < 2 ^ n" by (simp_all only: of_int_less_iff)
    moreover have "(2::int) ^ n \<le> 2 ^ 53" using n52 by (intro power_increasing) auto
    ultimately have "\<bar>k\<bar> \<le> 2 ^ 53" by simp
    with g show ?thesis unfolding d by (intro representable_grid) simp_all
  qed
qed

text \<open>Between -1 and 0 rounding the difference never crosses one half from below.\<close>

lemma diff_floor_unit:
  assumes x: "representable x" "-1 < x" "x < 0"
  shows "rnd (1 + x) < 1/2 \<longleftrightarrow> 1 + x < 1/2" and "1/2 < 1 + x \<Longrightarrow> 1/2 \<le> rnd (1 + x)"
proof -
  have half: "rnd (1/2) = 1/2" using rnd_powi [of "-1"] by (simp add: power_int_minus)
  show ge: "1/2 < 1 + x \<Longrightarrow> 1/2 \<le> rnd (1 + x)"
    using rnd_mono [of "1/2" "1 + x"] half by simp
  show "rnd (1 + x) < 1/2 \<longleftrightarrow> 1 + x < 1/2"
  proof
    assume "rnd (1 + x) < 1/2"
    then show "1 + x < 1/2" using rnd_mono [of "1/2" "1 + x"] half by (cases "1/2 \<le> 1 + x") auto
  next
    assume lt: "1 + x < 1/2"
    then have xl: "x < - (1/2)" by simp
    then have "binexp x = -1" using x by (intro binexp_unique) (auto simp: power_int_minus)
    then have g: "grid_exp x = - int 53" by (simp add: grid_exp_def)
    have "x \<noteq> 0" using x by simp
    from value_grid [OF x(1) this] obtain m where m: "x = of_int m * 2 powi (- int 53)"
      unfolding g by blast
    have one: "(2::rat) powi (- int 53) * 2 ^ 53 = 1" by (rule powi2_neg_nat)
    then have d: "1 + x = of_int (2 ^ 53 + m) * 2 powi (- int 53)"
      unfolding m by (simp add: distrib_right mult.commute)
    have "(of_int (2 ^ 53 + m) :: rat) * 2 powi (- int 53) < 2 ^ 53 * 2 powi (- int 53)"
      using x one unfolding d [symmetric] by (simp add: mult.commute)
    then have "(of_int (2 ^ 53 + m) :: rat) < of_int (2 ^ 53)" by simp
    then have u: "2 ^ 53 + m < 2 ^ 53" by (simp only: of_int_less_iff)
    have "0 < (of_int (2 ^ 53 + m) :: rat) * 2 powi (- int 53)" using x unfolding d [symmetric] by simp
    then have "0 < 2 ^ 53 + m" by (simp add: zero_less_mult_iff del: of_int_add)
    with u have "\<bar>2 ^ 53 + m\<bar> \<le> 2 ^ 53" by simp
    then have "rnd (1 + x) = 1 + x" unfolding d by (intro representable_grid) simp_all
    with lt show "rnd (1 + x) < 1/2" by simp
  qed
qed

lemma representable_big_integer:
  assumes x: "representable x" and big: "2 ^ 52 \<le> \<bar>x\<bar>"
  shows "x = of_int \<lfloor>x\<rfloor>"
proof -
  have "binexp (2 ^ 52) = 52" by (rule binexp_unique) (simp_all add: power_int_numeral)
  then have "52 \<le> binexp x" using binexp_mono [of "2 ^ 52" x] big by simp
  then have "0 \<le> grid_exp x" by (simp add: grid_exp_def)
  then obtain n where n: "grid_exp x = int n" by (elim nonneg_int_cases)
  have "x \<noteq> 0" using big by auto
  from value_grid [OF x this] obtain m where "x = of_int m * 2 powi int n"
    unfolding n by blast
  then have "x = of_int (m * 2 ^ n)" by simp
  then show ?thesis by (metis floor_of_int)
qed

lemma to_i64_int: "in_i64 k \<Longrightarrow> f64_to_int i64_min i64_max (Finite (of_int k)) = k"
  by (auto simp: in_i64_def)

theorem round_half_to_even_eq_rhe:
  assumes x: "representable x" and r: "- (2 ^ 63) \<le> x" "x < 2 ^ 63"
  shows "round_half_to_even (Finite x) = rhe x"
proof -
  define f where "f = \<lfloor>x\<rfloor>"
  define d where "d = x - of_int f"
  have fx: "of_int f \<le> x" "x < of_int f + 1" unfolding f_def by linarith+
  have f: "in_i64 f"
  proof -
    have "of_int (- (2 ^ 63)) \<le> x" "x < of_int (2 ^ 63)" using r by simp_all
    then have "- (2 ^ 63) \<le> f" "f < 2 ^ 63" unfolding f_def by (simp_all only: le_floor_iff floor_less_iff)
    then show ?thesis by (simp add: in_i64_def)
  qed
  have d01: "0 \<le> d" "d < 1" using fx by (simp_all add: d_def)
  have sub: "f64_sub (Finite x) (Finite (of_int f)) = Finite (rnd d)"
  proof -
    have "(1::rat) \<le> 2 ^ 1000" by simp
    then have "\<bar>d\<bar> \<le> 2 ^ 1000" using d01 by linarith
    from f64_of_rat_small [OF this] show ?thesis by (simp add: f64_sub_def d_def)
  qed
  have up: "f64_to_int i64_min i64_max (f64_add (Finite (of_int f)) (Finite 1)) = f + 1" if "0 < d"
  proof -
    have "\<not> 2 ^ 52 \<le> \<bar>x\<bar>" using representable_big_integer [OF x] that by (auto simp: d_def f_def)
    then have "- (2 ^ 52) < x" "x < 2 ^ 52" by linarith+
    then have "of_int (- (2 ^ 52) - 1) \<le> (of_int f :: rat)" "(of_int f :: rat) < of_int (2 ^ 52)"
      using fx by simp_all
    then have ff: "- (2 ^ 52) - 1 \<le> f" "f < 2 ^ 52" by (simp_all only: of_int_less_iff of_int_le_iff)
    then have "f64_value (of_int (f + 1))" by (intro f64_value_int) simp
    then have "f64_add (Finite (of_int f)) (Finite 1) = Finite (of_int (f + 1))" by simp
    moreover have "in_i64 (f + 1)" using ff by (simp add: in_i64_def)
    ultimately show ?thesis by (simp only: to_i64_int)
  qed
  have lt: "rnd d < 1/2 \<longleftrightarrow> d < 1/2" and gt: "d \<noteq> 1/2 \<Longrightarrow> \<not> d < 1/2 \<Longrightarrow> even f \<Longrightarrow> 1/2 < rnd d"
    and ne: "d = 1/2 \<Longrightarrow> even f \<Longrightarrow> rnd d = 1/2"
  proof -
    have "(rnd d < 1/2 \<longleftrightarrow> d < 1/2) \<and> (rnd d = d \<or> odd f)"
    proof (cases "x \<le> -1 \<or> 0 \<le> x")
      case True
      then show ?thesis using diff_floor_exact [OF x] by (simp add: d_def f_def)
    next
      case False
      then have "f = -1" unfolding f_def by linarith
      then show ?thesis using diff_floor_unit(1) [OF x] False by (simp add: d_def add.commute)
    qed
    then show "rnd d < 1/2 \<longleftrightarrow> d < 1/2" "d \<noteq> 1/2 \<Longrightarrow> \<not> d < 1/2 \<Longrightarrow> even f \<Longrightarrow> 1/2 < rnd d"
      "d = 1/2 \<Longrightarrow> even f \<Longrightarrow> rnd d = 1/2" by auto
  qed
  have rhe: "rhe x = (if d < 1/2 then f else if d > 1/2 then f + 1 else if even f then f else f + 1)"
    by (simp add: rhe_def Let_def f_def d_def)
  have lhs: "round_half_to_even (Finite x) = (if d < 1/2 then f else if 1/2 < rnd d then f + 1
       else if even f then f else f + 1)"
    unfolding round_half_to_even_def Let_def f64_floor.simps f_def [symmetric] sub f64_lt.simps lt
      to_i64_int [OF f]
    using up by (auto simp: even_iff_mod_2_eq_zero)
  show ?thesis unfolding lhs rhe using gt ne by auto
qed

text \<open>The product an amount and a rate have in binary64, before it is rounded to cents.\<close>

definition rated :: "money \<Rightarrow> rat \<Rightarrow> rat" where
  "rated m r = rnd (rnd (of_int m) * r)"

lemma in_i64_of_int_bound:
  assumes "in_i64 m"
  shows "\<bar>of_int m :: rat\<bar> \<le> 2 ^ 63"
proof -
  have "\<bar>m\<bar> \<le> 2 ^ 63" using assms by (auto simp: in_i64_def)
  then have "of_int \<bar>m\<bar> \<le> (of_int (2 ^ 63) :: rat)" by (simp only: of_int_le_iff)
  then show ?thesis by simp
qed

lemma f64_of_i64:
  assumes "in_i64 m"
  shows "f64_of_int m = Finite (rnd (of_int m))"
proof -
  have "(2::rat) ^ 63 \<le> 2 ^ 1000" by (rule power_increasing) simp_all
  with in_i64_of_int_bound [OF assms] have "\<bar>of_int m :: rat\<bar> \<le> 2 ^ 1000" by linarith
  then show ?thesis by (simp add: f64_of_int_def f64_of_rat_small)
qed

lemma rnd_i64_bounds: "rnd (2 ^ 63 - 1) = 2 ^ 63" "rnd (2 ^ 63) = 2 ^ 63"
proof -
  have "grid_exp (2 ^ 63 - 1) = int 10"
    by (simp add: grid_exp_def binexp_unique [of 62] power_int_numeral)
  moreover have "rhe ((2 ^ 63 - 1) / 2 powi (int 10)) = 2 ^ 53"
  proof -
    have "\<lfloor>(9223372036854775807::rat) / 1024\<rfloor> = 9007199254740991" by (rule floor_unique) simp_all
    then show ?thesis unfolding power_int_of_nat by (simp add: rhe_def Let_def)
  qed
  ultimately show "rnd (2 ^ 63 - 1) = 2 ^ 63" by (simp add: rnd_def)
  show "rnd (2 ^ 63) = 2 ^ 63" using rnd_powi [of "int 63"] by (simp only: power_int_of_nat)
qed

lemma f64_i64_limits:
  "f64_of_int i64_max = Finite (2 ^ 63)" "f64_of_int i64_min = Finite (- (2 ^ 63))"
proof -
  have "f64_of_int i64_max = Finite (rnd (of_int i64_max))"
    by (rule f64_of_i64) (simp add: in_i64_def)
  then show "f64_of_int i64_max = Finite (2 ^ 63)" using rnd_i64_bounds(1) by simp
  have "f64_of_int i64_min = Finite (rnd (of_int i64_min))"
    by (rule f64_of_i64) (simp add: in_i64_def)
  also have "rnd (of_int i64_min) = rnd (- (2 ^ 63))" by simp
  also have "\<dots> = - (2 ^ 63)" by (simp only: rnd_minus rnd_i64_bounds)
  finally show "f64_of_int i64_min = Finite (- (2 ^ 63))" .
qed

lemma rnd_idem: "rnd (rnd q) = rnd q"
proof (cases "q = 0")
  case False
  define g where "g = grid_exp q"
  define k where "k = rhe (q / 2 powi g)"
  have q: "rnd q = of_int k * 2 powi g" using False by (simp add: rnd_def k_def g_def)
  have g: "binexp q \<le> 52 + g" "- 1074 \<le> g" by (simp_all add: g_def grid_exp_def)
  have "\<bar>q\<bar> < 2 powi (binexp q + 1)" by (rule binexp_bounds [OF False])
  also have "\<dots> \<le> 2 powi (int 53 + g)" using g by (intro power_int_increasing) simp_all
  finally have "\<bar>q\<bar> \<le> 2 ^ 53 * 2 powi g" by (simp only: powi2_split)
  then have "\<bar>q / 2 powi g\<bar> \<le> of_int (2 ^ 53)" by (simp add: divide_le_eq)
  then have "\<bar>q / 2 powi g\<bar> \<le> 2 ^ 53" by (simp only: of_int_power of_int_numeral)
  then have "q / 2 powi g \<le> of_int (2 ^ 53)" "of_int (- (2 ^ 53)) \<le> q / 2 powi g"
    unfolding abs_le_iff of_int_minus of_int_power of_int_numeral by linarith+
  then have "k \<le> rhe (of_int (2 ^ 53))" "rhe (of_int (- (2 ^ 53))) \<le> k"
    unfolding k_def by (auto intro: rhe_mono)
  then have "\<bar>k\<bar> \<le> 2 ^ 53" unfolding rhe_of_int by linarith
  then show ?thesis unfolding q using g by (intro representable_grid) simp_all
qed simp

lemma rhe_apply:
  assumes m: "in_i64 m" and r: "r \<noteq> 1"
  shows "apply_rate m (Finite r)
    = (if 2 ^ 63 \<le> rated m r \<or> rated m r < - (2 ^ 63) then Inl (MoneyOverflow ApplyRate m)
       else Inr (rhe (rated m r)))"
proof -
  define p where "p = rated m r"
  have mul: "f64_mul (f64_of_int m) (Finite r) = (if 2 ^ 1024 \<le> \<bar>p\<bar> then Infinity (p < 0) else Finite p)"
    by (simp add: f64_of_i64 [OF m] f64_of_rat_def p_def rated_def)
  have rp: "representable p" by (simp add: representable_def p_def rated_def rnd_idem)
  have big: "(2::rat) ^ 63 < 2 ^ 1024" by (rule power_strict_increasing) simp_all
  show ?thesis
  proof (cases "2 ^ 63 \<le> p \<or> p < - (2 ^ 63)")
    case True
    then show ?thesis using r
      unfolding p_def [symmetric] apply_rate_def Let_def mul f64_ge_def f64_i64_limits by auto
  next
    case False
    then have "\<not> 2 ^ 1024 \<le> \<bar>p\<bar>" using big by linarith
    then have "apply_rate m (Finite r) = Inr (round_half_to_even (Finite p))"
      using r False unfolding apply_rate_def Let_def mul f64_ge_def f64_i64_limits by auto
    then show ?thesis using round_half_to_even_eq_rhe [OF rp] False unfolding p_def [symmetric] by simp
  qed
qed

text \<open>
  Scaling an amount by a finite rate other than one rounds the binary64 product of
  the two to the nearest cent, halves to even, and reports an overflow exactly when that product
  is outside the \<open>i64\<close> range; a rate of one returns the amount itself. The hand-written
  rounding, which subtracts the floor in floating point, is thus exact.
\<close>

theorem apply_rate_rounds_product:
  assumes m: "in_i64 m" and r: "r \<noteq> 1"
  shows "apply_rate m (Finite r)
    = (if 2 ^ 63 \<le> rated m r \<or> rated m r < - (2 ^ 63) then Inl (MoneyOverflow ApplyRate m)
       else Inr (rhe (rated m r)))"
  by (rule rhe_apply [OF m r])

text \<open>10002 cents at a quarter: 2500.5 cents, rounded to the even 2500.\<close>

lemma apply_rate_rounds_product_witness:
  "apply_rate 10002 (Finite (1/4)) = Inr 2500"
proof -
  have "rnd (10002 :: rat) = 10002" using rnd_of_int [of 10002] by simp
  moreover have "rnd (10002 / 4 :: rat) = 10002 / 4"
    using representable_grid [of "- 2" 10002] by (simp add: power_int_minus)
  ultimately have p: "rated 10002 (1/4) = 5001 / 2" by (simp add: rated_def)
  have "\<lfloor>5001 / 2 :: rat\<rfloor> = 2500" by (rule floor_unique) simp_all
  then have "rhe (5001 / 2) = 2500" by (simp add: rhe_def Let_def)
  then show ?thesis using apply_rate_rounds_product [of 10002 "1/4"]
    unfolding p by (simp add: in_i64_def)
qed

lemma apply_rate_Inr:
  assumes "in_i64 m" "apply_rate m (Finite r) = Inr x"
  shows "(r = 1 \<and> x = m) \<or> (r \<noteq> 1 \<and> x = rhe (rated m r) \<and> rated m r < 2 ^ 63 \<and> - (2 ^ 63) \<le> rated m r)"
proof (cases "r = 1")
  case True
  then show ?thesis using assms(2) by (simp add: apply_rate_def)
next
  case False
  have "2 ^ 63 \<le> rated m r \<or> rated m r < - (2 ^ 63) \<or> x = rhe (rated m r)
    \<and> rated m r < 2 ^ 63 \<and> - (2 ^ 63) \<le> rated m r"
    using assms(2) False rhe_apply [OF assms(1) False] by (auto split: if_splits)
  then show ?thesis using assms(2) False rhe_apply [OF assms(1) False] by (auto split: if_splits)
qed

lemma rated_mono: "0 \<le> r \<Longrightarrow> a \<le> b \<Longrightarrow> rated a r \<le> rated b r"
  unfolding rated_def by (intro rnd_mono mult_right_mono) simp_all

lemma apply_rate_mono:
  assumes "in_i64 a" "in_i64 b" "0 \<le> r" "a \<le> b"
    and "apply_rate a (Finite r) = Inr x" "apply_rate b (Finite r) = Inr y"
  shows "x \<le> y"
  using apply_rate_Inr [OF assms(1,5)] apply_rate_Inr [OF assms(2,6)] rated_mono [OF assms(3,4)]
    rhe_mono assms(4) by auto

lemma apply_rate_bounded:
  assumes a: "0 \<le> a" "a \<le> 2 ^ 53" and r: "0 \<le> r" "r \<le> 1"
  shows "\<exists>x. apply_rate a (Finite r) = Inr x \<and> 0 \<le> x \<and> x \<le> a"
proof (cases "r = 1")
  case True
  then show ?thesis using a by (simp add: apply_rate_def)
next
  case False
  have i: "in_i64 a" using a by (simp add: in_i64_def)
  have ra: "rnd (of_int a) = of_int a" using a by (intro rnd_of_int) simp
  have "rnd (of_int a * r) \<le> rnd (of_int a)"
    using a r by (intro rnd_mono) (simp add: mult_left_le)
  then have p: "0 \<le> rated a r" "rated a r \<le> of_int a"
    using a r by (simp_all add: rated_def ra rnd_nonneg)
  have "of_int a \<le> (of_int (2 ^ 53) :: rat)" using a by (simp only: of_int_le_iff)
  then have "rated a r < 2 ^ 63" using p by simp
  then have "apply_rate a (Finite r) = Inr (rhe (rated a r))"
    using rhe_apply [OF i False] p by auto
  moreover have "rhe (rated a r) \<le> rhe (of_int a)" by (rule rhe_mono [OF p(2)])
  moreover have "rhe (of_int 0) \<le> rhe (rated a r)" by (rule rhe_mono) (use p in simp)
  ultimately show ?thesis by (simp only: rhe_of_int) blast
qed

end
