(* ===== verification/Game_Config.thy ===== *)
theory Game_Config
  imports Money
begin

section \<open>Game parameters and fees (config.rs, fees.rs)\<close>

text \<open>
  The configuration record with its validation, the three A-share charges, and the incremental
  fee computation used when an order fills in parts. The locale \<open>fee_schedule\<close> is the contract a
  charge has to meet for partial fills to be charged correctly; the three charges of the
  configuration are its instances.
\<close>

record game_config =
  commission_rate :: f64
  commission_min :: money
  stamp_tax_rate :: f64
  default_limit :: f64
  st_limit :: f64
  price_cage_enabled :: bool
  lot_size :: nat
  starting_cash :: money

datatype rate_field = CommissionRate | StampTaxRate | DefaultLimit | StLimit

datatype rate_fault = FaultNaN | FaultPosInf | FaultNegInf | FaultNegative

datatype config_error =
    ConfigInvalidRate rate_field f64 rate_fault
  | InvalidLimit rate_field f64
  | InvalidLotSize nat
  | InvalidCash money
  | InvalidCommissionMinimum money

text \<open>The literal \<open>0.000_01\<close> and the board lot.\<close>

definition a_share_transfer_fee_rate :: f64 where
  "a_share_transfer_fee_rate = f64_of_rat (1 / 100000)"

definition a_share_board_lot :: nat where
  "a_share_board_lot = 100"

fun rate_reason :: "f64 \<Rightarrow> rate_fault" where
  "rate_reason NaN = FaultNaN"
| "rate_reason (Infinity s) = (if s then FaultNegInf else FaultPosInf)"
| "rate_reason (Finite _) = FaultNegative"

definition bad_rate :: "f64 \<Rightarrow> bool" where
  "bad_rate r \<longleftrightarrow> \<not> f64_is_finite r \<or> f64_lt r (Finite 0)"

definition good_limit :: "f64 \<Rightarrow> bool" where
  "good_limit l \<longleftrightarrow> f64_lt (Finite 0) l \<and> f64_lt l (Finite 1)"

definition validate :: "game_config \<Rightarrow> config_error + unit" where
  "validate c =
    (if bad_rate (commission_rate c)
     then Inl (ConfigInvalidRate CommissionRate (commission_rate c) (rate_reason (commission_rate c)))
     else if bad_rate (stamp_tax_rate c)
     then Inl (ConfigInvalidRate StampTaxRate (stamp_tax_rate c) (rate_reason (stamp_tax_rate c)))
     else if \<not> good_limit (default_limit c) then Inl (InvalidLimit DefaultLimit (default_limit c))
     else if \<not> good_limit (st_limit c) then Inl (InvalidLimit StLimit (st_limit c))
     else if lot_size c \<noteq> a_share_board_lot then Inl (InvalidLotSize (lot_size c))
     else if commission_min c < 0 then Inl (InvalidCommissionMinimum (commission_min c))
     else if starting_cash c < 0 then Inl (InvalidCash (starting_cash c))
     else Inr ())"

definition new_config ::
    "f64 \<Rightarrow> money \<Rightarrow> f64 \<Rightarrow> f64 \<Rightarrow> f64 \<Rightarrow> bool \<Rightarrow> nat \<Rightarrow> money \<Rightarrow> config_error + game_config" where
  "new_config cr cm st dl sl cage lot cash =
    (let c = \<lparr>commission_rate = cr, commission_min = cm, stamp_tax_rate = st, default_limit = dl,
        st_limit = sl, price_cage_enabled = cage, lot_size = lot, starting_cash = cash\<rparr> in
     bind_result (validate c) (\<lambda>_. Inr c))"

text \<open>\<open>None\<close> stands for the panic of \<open>expect\<close>.\<close>

definition proposed_defaults :: "game_config option" where
  "proposed_defaults =
    (case new_config (f64_of_rat (25 / 100000)) 500 (f64_of_rat (5 / 10000)) (f64_of_rat (1 / 10))
        (f64_of_rat (1 / 10)) True 100 1000000000000 of
      Inl _ \<Rightarrow> None | Inr c \<Rightarrow> Some c)"

definition commission :: "game_config \<Rightarrow> money \<Rightarrow> money_error + money" where
  "commission c amount = bind_result (apply_rate amount (commission_rate c)) (\<lambda>r.
     Inr (if commission_min c \<le> r then r else commission_min c))"

definition stamp_tax :: "game_config \<Rightarrow> money \<Rightarrow> money_error + money" where
  "stamp_tax c amount = apply_rate amount (stamp_tax_rate c)"

definition transfer_fee :: "game_config \<Rightarrow> money \<Rightarrow> money_error + money" where
  "transfer_fee c amount = apply_rate amount a_share_transfer_fee_rate"

definition fee_delta :: "money \<Rightarrow> money \<Rightarrow> (money \<Rightarrow> money_error + money) \<Rightarrow> money_error + money" where
  "fee_delta before after calculate =
    bind_result (if before = 0 then Inr 0 else calculate before) (\<lambda>before_fee.
    bind_result (calculate after) (\<lambda>after_fee. money_sub after_fee before_fee))"

definition buy_order_reservation ::
    "game_config \<Rightarrow> money \<Rightarrow> nat \<Rightarrow> money \<Rightarrow> money_error + money" where
  "buy_order_reservation c limit qty filled_value =
    bind_result (mul_shares limit qty) (\<lambda>remaining_gross.
    bind_result (money_add filled_value remaining_gross) (\<lambda>final_gross.
    bind_result (fee_delta filled_value final_gross (commission c)) (\<lambda>comm.
    bind_result (fee_delta filled_value final_gross (transfer_fee c)) (\<lambda>trans.
    bind_result (money_add remaining_gross comm) (\<lambda>r. money_add r trans)))))"

subsection \<open>The three charges of one fill\<close>

record fee_components =
  fc_commission :: money
  fc_stamp_tax :: money
  fc_transfer_fee :: money

definition fee_zero :: fee_components where
  "fee_zero = \<lparr>fc_commission = 0, fc_stamp_tax = 0, fc_transfer_fee = 0\<rparr>"

definition fee_total :: "fee_components \<Rightarrow> money_error + money" where
  "fee_total f = bind_result (money_add (fc_commission f) (fc_stamp_tax f)) (\<lambda>fee.
     money_add fee (fc_transfer_fee f))"

lemma fee_total_fold:
  "fee_total f = try_fold money_add (fc_commission f) [fc_stamp_tax f, fc_transfer_fee f]"
  by (simp add: fee_total_def)

subsection \<open>The contract of a charge\<close>

text \<open>
  \<open>fee c a\<close> is the charge on a cumulated amount \<open>a\<close> under a configuration for which \<open>ok\<close> holds. A
  charge is never negative and never decreases with the amount.
\<close>

locale fee_schedule =
  fixes ok :: "game_config \<Rightarrow> bool"
    and fee :: "game_config \<Rightarrow> money \<Rightarrow> money_error + money"
  assumes fee_nonneg: "ok c \<Longrightarrow> in_i64 a \<Longrightarrow> 0 \<le> a \<Longrightarrow> fee c a = Inr x \<Longrightarrow> 0 \<le> x"
    and fee_mono: "ok c \<Longrightarrow> in_i64 a \<Longrightarrow> in_i64 b \<Longrightarrow> a \<le> b \<Longrightarrow>
      fee c a = Inr x \<Longrightarrow> fee c b = Inr y \<Longrightarrow> x \<le> y"
    and fee_defined: "ok c \<Longrightarrow> in_i64 b \<Longrightarrow> 0 \<le> a \<Longrightarrow> a \<le> b \<Longrightarrow>
      fee c b = Inr y \<Longrightarrow> \<exists>x. fee c a = Inr x"
    and fee_i64: "ok c \<Longrightarrow> in_i64 a \<Longrightarrow> fee c a = Inr x \<Longrightarrow> in_i64 x"
begin

lemma delta_nonneg:
  assumes "ok c" "in_i64 b" "0 \<le> a" "a \<le> b" "fee_delta a b (fee c) = Inr d"
  shows "0 \<le> d"
proof -
  have ia: "in_i64 a" using assms(2-4) by (auto simp: in_i64_def)
  obtain x y where "(if a = 0 then Inr 0 else fee c a) = Inr x" "fee c b = Inr y" "d = y - x"
    using assms(5) by (auto simp: fee_delta_def bind_result_Inr_iff)
  then show ?thesis
    using fee_mono [OF assms(1) ia assms(2,4)] fee_nonneg [OF assms(1,2)] assms(3,4)
    by (auto split: if_splits)
qed

text \<open>Charging a partial fill and later the rest costs what charging both at once costs.\<close>

lemma delta_split:
  assumes "ok c" "in_i64 e" "0 \<le> a" "a \<le> b" "b \<noteq> 0" "b \<le> e"
    and "fee_delta a b (fee c) = Inr d1" "fee_delta b e (fee c) = Inr d2"
  shows "fee_delta a e (fee c) = Inr (d1 + d2)"
proof -
  have ib: "in_i64 b" and ia: "in_i64 a" using assms(2-6) by (auto simp: in_i64_def)
  obtain x y z where x: "(if a = 0 then Inr 0 else fee c a) = Inr x" and y: "fee c b = Inr y"
    and z: "fee c e = Inr z" and d: "d1 = y - x" "d2 = z - y"
    using assms(5,7,8) by (auto simp: fee_delta_def bind_result_Inr_iff)
  have "0 \<le> x" using x fee_nonneg [OF assms(1) ia assms(3)] by (auto split: if_splits)
  moreover have "0 \<le> y" using fee_nonneg [OF assms(1) ib _ y] assms(3,4) by simp
  moreover have "y \<le> z" by (rule fee_mono [OF assms(1) ib assms(2,6) y z])
  moreover have "in_i64 z" by (rule fee_i64 [OF assms(1,2) z])
  moreover have "x \<le> y"
    using x fee_mono [OF assms(1) ia ib assms(4) _ y] \<open>0 \<le> y\<close> by (auto split: if_splits)
  ultimately have "in_i64 (z - x)" by (auto simp: in_i64_def)
  with x z d show ?thesis by (simp add: fee_delta_def)
qed

lemma delta_chain:
  assumes "ok c" "in_i64 e" "0 \<le> a" "a \<le> b" "b \<noteq> 0" "b \<le> e"
    and "fee_delta a b (fee c) = Inr d1" "fee_delta b e (fee c) = Inr d2"
  shows "fee_delta a e (fee c) = Inr (d1 + d2) \<and> 0 \<le> d1 \<and> 0 \<le> d2"
proof -
  have b: "in_i64 b" "0 \<le> b" using assms(2-6) by (auto simp: in_i64_def)
  show ?thesis
    using delta_split [OF assms] delta_nonneg [OF assms(1) b(1) assms(3,4,7)]
      delta_nonneg [OF assms(1,2) b(2) assms(6,8)] by simp
qed

text \<open>A charge that is defined for a larger fill is defined, and no larger, for a smaller one.\<close>

lemma delta_smaller:
  assumes "ok c" "0 \<le> a" "a \<le> b" "b \<le> e" "in_i64 e"
    and "fee_delta a e (fee c) = Inr d2"
  shows "\<exists>d1. fee_delta a b (fee c) = Inr d1 \<and> d1 \<le> d2"
proof -
  have ib: "in_i64 b" and ia: "in_i64 a" using assms(2-5) by (auto simp: in_i64_def)
  from assms(6) obtain x z where x: "(if a = 0 then Inr 0 else fee c a) = Inr x"
    and z: "fee c e = Inr z" and d: "d2 = z - x"
    by (auto simp: fee_delta_def bind_result_Inr_iff)
  have "0 \<le> b" using assms(2,3) by simp
  from fee_defined [OF assms(1,5) this assms(4) z] obtain y where y: "fee c b = Inr y" by blast
  have "0 \<le> x" using x fee_nonneg [OF assms(1) ia assms(2)] by (auto split: if_splits)
  moreover have "0 \<le> y" by (rule fee_nonneg [OF assms(1) ib \<open>0 \<le> b\<close> y])
  moreover have "in_i64 y" by (rule fee_i64 [OF assms(1) ib y])
  moreover have "in_i64 x" using x fee_i64 [OF assms(1) ia] by (auto split: if_splits simp: in_i64_def)
  ultimately have "in_i64 (y - x)" by (auto simp: in_i64_def)
  moreover have "y \<le> z" by (rule fee_mono [OF assms(1) ib assms(5,4) y z])
  ultimately show ?thesis using x y d by (simp add: fee_delta_def)
qed

end

subsection \<open>The charges meet the contract\<close>

lemma validate_ok_iff:
  "validate c = Inr () \<longleftrightarrow> \<not> bad_rate (commission_rate c) \<and> \<not> bad_rate (stamp_tax_rate c)
    \<and> good_limit (default_limit c) \<and> good_limit (st_limit c) \<and> lot_size c = 100
    \<and> 0 \<le> commission_min c \<and> 0 \<le> starting_cash c"
  by (auto simp: validate_def a_share_board_lot_def split: if_splits)

definition config_ok :: "game_config \<Rightarrow> bool" where
  "config_ok c \<longleftrightarrow> validate c = Inr () \<and> in_i64 (commission_min c)"

lemma good_rate_cases: "\<not> bad_rate r \<Longrightarrow> (\<And>q. r = Finite q \<Longrightarrow> 0 \<le> q \<Longrightarrow> thesis) \<Longrightarrow> thesis"
  by (cases r) (auto simp: bad_rate_def)

lemma rhe_of_int_bounds: "of_int a \<le> x \<Longrightarrow> a \<le> rhe x" "x \<le> of_int b \<Longrightarrow> rhe x \<le> b"
  using rhe_mono [of "of_int a" x] rhe_mono [of x "of_int b"] by simp_all

lemma apply_rate_i64:
  assumes "in_i64 m" "apply_rate m (Finite q) = Inr x"
  shows "in_i64 x"
proof -
  have "in_i64 (rhe p)" if "p < 2 ^ 63" "- (2 ^ 63) \<le> p" "representable p" for p
  proof -
    have "\<lfloor>p\<rfloor> \<le> 2 ^ 63 - 1" using that(1) by (simp add: floor_less_iff [of p "2 ^ 63"] flip: zle_diff1_eq)
    have "p \<le> of_int (2 ^ 63 - 1)"
    proof (cases "2 ^ 52 \<le> \<bar>p\<bar>")
      case True
      then have "p = of_int \<lfloor>p\<rfloor>" using representable_big_integer [OF that(3)] by simp
      with \<open>\<lfloor>p\<rfloor> \<le> 2 ^ 63 - 1\<close> show ?thesis by (metis of_int_le_iff)
    next
      case False
      then show ?thesis by simp
    qed
    moreover have "of_int (- (2 ^ 63)) \<le> p" using that(2) by simp
    ultimately show ?thesis using rhe_of_int_bounds unfolding in_i64_def by blast
  qed
  with apply_rate_Inr [OF assms] assms(1) show ?thesis
    by (auto simp: representable_def rated_def rnd_idem)
qed

lemma apply_rate_nonneg:
  assumes "in_i64 m" "0 \<le> m" "0 \<le> q" "apply_rate m (Finite q) = Inr x"
  shows "0 \<le> x"
proof -
  have "0 \<le> rated m q" using assms by (simp add: rated_def rnd_nonneg)
  then have "0 \<le> rhe (rated m q)" using rhe_of_int_bounds(1) [of 0] by simp
  with apply_rate_Inr [OF assms(1,4)] assms(2) show ?thesis by auto
qed

lemma apply_rate_defined:
  assumes "in_i64 b" "0 \<le> a" "a \<le> b" "0 \<le> q" "apply_rate b (Finite q) = Inr y"
  shows "\<exists>x. apply_rate a (Finite q) = Inr x"
proof (cases "q = 1")
  case True
  then show ?thesis by (simp add: apply_rate_def)
next
  case False
  have ia: "in_i64 a" using assms by (auto simp: in_i64_def)
  have "0 \<le> rated a q" using assms by (simp add: rated_def rnd_nonneg)
  moreover have "rated a q \<le> rated b q" by (rule rated_mono [OF assms(4,3)])
  moreover have "rated b q < 2 ^ 63" using apply_rate_Inr [OF assms(1,5)] False by auto
  ultimately have "\<not> (2 ^ 63 \<le> rated a q \<or> rated a q < - (2 ^ 63))" by auto
  then show ?thesis using rhe_apply [OF ia False] by auto
qed

lemma transfer_rate_value: "\<exists>q. a_share_transfer_fee_rate = Finite q \<and> 0 \<le> q"
  unfolding a_share_transfer_fee_rate_def by (simp add: f64_of_rat_unit rnd_nonneg)

lemma commission_finite:
  assumes "commission_rate c = Finite q"
  shows "commission c a = Inr x \<longleftrightarrow> (\<exists>r. apply_rate a (Finite q) = Inr r \<and> x = max r (commission_min c))"
proof (cases "apply_rate a (Finite q)")
  case (Inl e)
  then show ?thesis by (simp add: commission_def assms)
next
  case (Inr r)
  then show ?thesis by (simp add: commission_def assms max_def) blast
qed

interpretation commission_fee: fee_schedule config_ok commission
proof unfold_locales
  fix c a b x y
  assume ok: "config_ok c"
  then obtain q where q: "commission_rate c = Finite q" "0 \<le> q"
    by (auto simp: config_ok_def validate_ok_iff elim: good_rate_cases)
  have min: "0 \<le> commission_min c" "in_i64 (commission_min c)"
    using ok by (auto simp: config_ok_def validate_ok_iff)
  show "0 \<le> x" if "commission c a = Inr x"
    using min that by (auto simp: commission_finite [OF q(1)])
  show "x \<le> y" if "in_i64 a" "in_i64 b" "a \<le> b" "commission c a = Inr x" "commission c b = Inr y"
  proof -
    from that obtain r s where r: "apply_rate a (Finite q) = Inr r" "x = max r (commission_min c)"
      and s: "apply_rate b (Finite q) = Inr s" "y = max s (commission_min c)"
      by (auto simp: commission_finite [OF q(1)])
    have "r \<le> s" by (rule apply_rate_mono [OF that(1,2) q(2) that(3) r(1) s(1)])
    with r s show ?thesis by simp
  qed
  show "\<exists>x. commission c a = Inr x" if "in_i64 b" "0 \<le> a" "a \<le> b" "commission c b = Inr y"
  proof -
    from that obtain s where "apply_rate b (Finite q) = Inr s" by (auto simp: commission_finite [OF q(1)])
    from apply_rate_defined [OF that(1-3) q(2) this] show ?thesis
      by (auto simp: commission_finite [OF q(1)])
  qed
  show "in_i64 x" if a: "in_i64 a" and x: "commission c a = Inr x"
  proof -
    from x obtain r where r: "apply_rate a (Finite q) = Inr r" "x = max r (commission_min c)"
      by (auto simp: commission_finite [OF q(1)])
    from apply_rate_i64 [OF a r(1)] r(2) min(2) show ?thesis by (simp add: max_def)
  qed
qed

lemma rate_charge_contract:
  assumes "0 \<le> q"
  shows "in_i64 a \<Longrightarrow> 0 \<le> a \<Longrightarrow> apply_rate a (Finite q) = Inr x \<Longrightarrow> 0 \<le> x"
    and "in_i64 a \<Longrightarrow> in_i64 b \<Longrightarrow> a \<le> b \<Longrightarrow> apply_rate a (Finite q) = Inr x \<Longrightarrow>
      apply_rate b (Finite q) = Inr y \<Longrightarrow> x \<le> y"
    and "in_i64 b \<Longrightarrow> 0 \<le> a \<Longrightarrow> a \<le> b \<Longrightarrow> apply_rate b (Finite q) = Inr y \<Longrightarrow>
      \<exists>x. apply_rate a (Finite q) = Inr x"
    and "in_i64 a \<Longrightarrow> apply_rate a (Finite q) = Inr x \<Longrightarrow> in_i64 x"
  subgoal by (rule apply_rate_nonneg [OF _ _ assms])
  subgoal by (rule apply_rate_mono [OF _ _ assms])
  subgoal by (rule apply_rate_defined [OF _ _ _ assms])
  subgoal by (rule apply_rate_i64)
  done

interpretation stamp_fee: fee_schedule config_ok stamp_tax
proof unfold_locales
  fix c a b x y
  assume ok: "config_ok c"
  then obtain q where q: "stamp_tax_rate c = Finite q" "0 \<le> q"
    by (auto simp: config_ok_def validate_ok_iff elim: good_rate_cases)
  note contract = rate_charge_contract [OF q(2), folded q(1), folded stamp_tax_def]
  show "in_i64 a \<Longrightarrow> 0 \<le> a \<Longrightarrow> stamp_tax c a = Inr x \<Longrightarrow> 0 \<le> x" by (rule contract(1))
  show "in_i64 a \<Longrightarrow> in_i64 b \<Longrightarrow> a \<le> b \<Longrightarrow> stamp_tax c a = Inr x \<Longrightarrow> stamp_tax c b = Inr y \<Longrightarrow> x \<le> y"
    by (rule contract(2))
  show "in_i64 b \<Longrightarrow> 0 \<le> a \<Longrightarrow> a \<le> b \<Longrightarrow> stamp_tax c b = Inr y \<Longrightarrow> \<exists>x. stamp_tax c a = Inr x"
    by (rule contract(3))
  show "in_i64 a \<Longrightarrow> stamp_tax c a = Inr x \<Longrightarrow> in_i64 x" by (rule contract(4))
qed

interpretation transfer: fee_schedule config_ok transfer_fee
proof unfold_locales
  fix c :: game_config and a b x y
  from transfer_rate_value obtain q where q: "a_share_transfer_fee_rate = Finite q" "0 \<le> q"
    by blast
  note contract = rate_charge_contract [OF q(2), folded q(1), folded transfer_fee_def [of c]]
  show "in_i64 a \<Longrightarrow> 0 \<le> a \<Longrightarrow> transfer_fee c a = Inr x \<Longrightarrow> 0 \<le> x" by (rule contract(1))
  show "in_i64 a \<Longrightarrow> in_i64 b \<Longrightarrow> a \<le> b \<Longrightarrow> transfer_fee c a = Inr x \<Longrightarrow> transfer_fee c b = Inr y \<Longrightarrow> x \<le> y"
    by (rule contract(2))
  show "in_i64 b \<Longrightarrow> 0 \<le> a \<Longrightarrow> a \<le> b \<Longrightarrow> transfer_fee c b = Inr y \<Longrightarrow> \<exists>x. transfer_fee c a = Inr x"
    by (rule contract(3))
  show "in_i64 a \<Longrightarrow> transfer_fee c a = Inr x \<Longrightarrow> in_i64 x" by (rule contract(4))
qed

subsection \<open>Properties\<close>

lemma rate_literal:
  assumes "0 < q" "q < 1/2" "1 / 2 ^ 20 \<le> q"
  shows "\<exists>r. f64_of_rat q = Finite r \<and> 0 < r \<and> r \<le> 1/2"
proof -
  have f: "f64_of_rat q = Finite (rnd q)" using assms by (intro f64_of_rat_unit) simp
  have l: "2 powi (- int 20) = 1 / (2::rat) ^ 20" "2 powi (- int 1) = 1 / (2::rat)"
    unfolding power_int_minus power_int_of_nat by (simp_all add: field_simps)
  have "rnd (2 powi (- int 20)) \<le> rnd q" by (rule rnd_mono) (use assms l in simp)
  then have "1 / 2 ^ 20 \<le> rnd q" using rnd_powi [of "- int 20"] unfolding l by simp
  then have "0 < rnd q" by (rule less_le_trans [rotated]) simp
  moreover have "rnd q \<le> rnd (2 powi (- int 1))" by (rule rnd_mono) (use assms l in simp)
  then have "rnd q \<le> 1/2" using rnd_powi [of "- int 1"] unfolding l by simp
  ultimately show ?thesis using f by blast
qed

text \<open>
  The proposed defaults pass the validation of \<open>new\<close>, so the \<open>expect\<close> of
  \<open>proposed_defaults\<close> cannot panic; the configuration it returns has the board lot of 100 shares.
\<close>

theorem proposed_defaults_never_panic:
  "\<exists>c. proposed_defaults = Some c \<and> validate c = Inr () \<and> lot_size c = a_share_board_lot"
proof -
  obtain r where r: "f64_of_rat (25 / 100000) = Finite r" "0 < r" "r \<le> 1/2"
    using rate_literal [of "25 / 100000"] by (auto simp: field_simps)
  obtain s where s: "f64_of_rat (5 / 10000) = Finite s" "0 < s" "s \<le> 1/2"
    using rate_literal [of "5 / 10000"] by (auto simp: field_simps)
  obtain l where l: "f64_of_rat (1 / 10) = Finite l" "0 < l" "l \<le> 1/2"
    using rate_literal [of "1 / 10"] by (auto simp: field_simps)
  show ?thesis unfolding proposed_defaults_def r(1) s(1) l(1) using r s l
    by (simp add: new_config_def Let_def validate_def bad_rate_def good_limit_def a_share_board_lot_def)
qed

text \<open>
  Under a valid configuration, each of the three charges,
  computed incrementally by \<open>fee_delta\<close> on a first fill (from a cumulated amount \<open>a\<close> to \<open>b\<close>) and
  on the next (from \<open>b\<close> to \<open>e\<close>), adds up to the charge of filling both at once, and no
  increment is negative: splitting an order into fills neither saves nor costs fees, the
  commission minimum included.
\<close>

theorem partial_fills_charge_once:
  assumes "config_ok c" "charge \<in> {commission, stamp_tax, transfer_fee}"
    and "in_i64 e" "0 \<le> a" "a \<le> b" "b \<noteq> 0" "b \<le> e"
    and "fee_delta a b (charge c) = Inr d1" "fee_delta b e (charge c) = Inr d2"
  shows "fee_delta a e (charge c) = Inr (d1 + d2) \<and> 0 \<le> d1 \<and> 0 \<le> d2"
proof -
  from assms(2) consider "charge = commission" | "charge = stamp_tax" | "charge = transfer_fee" by blast
  then show ?thesis
  proof cases
    case 1
    from commission_fee.delta_chain [OF assms(1,3-7)] assms(8,9) show ?thesis unfolding 1 by blast
  next
    case 2
    from stamp_fee.delta_chain [OF assms(1,3-7)] assms(8,9) show ?thesis unfolding 2 by blast
  next
    case 3
    from transfer.delta_chain [OF assms(1,3-7)] assms(8,9) show ?thesis unfolding 3 by blast
  qed
qed

text \<open>Two fills of 100 shares at 20 yuan: the commission minimum is paid by the first one.\<close>

definition flat_config :: game_config where
  "flat_config = \<lparr>commission_rate = Finite 0, commission_min = 500, stamp_tax_rate = Finite 0,
     default_limit = Finite (1/2), st_limit = Finite (1/2), price_cage_enabled = True,
     lot_size = 100, starting_cash = 1000\<rparr>"

lemma flat_config_ok: "config_ok flat_config"
  by (simp add: config_ok_def validate_ok_iff flat_config_def bad_rate_def good_limit_def in_i64_def)

lemma flat_commission:
  assumes "in_i64 a"
  shows "commission flat_config a = Inr 500"
proof -
  have "apply_rate a (Finite 0) = Inr 0"
    using rhe_apply [OF assms, of 0] rhe_of_int [of 0] by (simp add: rated_def)
  then show ?thesis by (simp add: commission_def flat_config_def)
qed

lemma partial_fills_charge_once_witness:
  "fee_delta 0 400000 (commission flat_config) = Inr (500 + 0) \<and> (0::int) \<le> 500 \<and> (0::int) \<le> 0"
proof -
  have i: "in_i64 200000" "in_i64 400000" by (simp_all add: in_i64_def)
  have "fee_delta 0 200000 (commission flat_config) = Inr 500"
    "fee_delta 200000 400000 (commission flat_config) = Inr 0"
    using flat_commission i by (simp_all add: fee_delta_def in_i64_def)
  then show ?thesis
    using partial_fills_charge_once [OF flat_config_ok _ i(2), of commission 0 200000 500 0] by simp
qed

text \<open>
  The cash frozen by \<open>buy_order_reservation\<close> for the unfilled part of a
  buy order covers whatever that part can cost: for any further gross amount up to the limit
  price times the open quantity, the charges on it are defined and gross plus charges do not
  exceed the reservation.
\<close>

theorem reservation_covers_fills:
  assumes c: "config_ok c" and f: "0 \<le> filled" and g: "0 \<le> gross" "gross \<le> limit * int qty"
    and r: "buy_order_reservation c limit qty filled = Inr reserved"
  shows "\<exists>d1 d2. fee_delta filled (filled + gross) (commission c) = Inr d1
    \<and> fee_delta filled (filled + gross) (transfer_fee c) = Inr d2
    \<and> gross + d1 + d2 \<le> reserved"
proof -
  define final where "final = filled + limit * int qty"
  from r obtain m1 m2 where i: "in_i64 final"
    and m: "fee_delta filled final (commission c) = Inr m1" "fee_delta filled final (transfer_fee c) = Inr m2"
    and res: "reserved = limit * int qty + m1 + m2"
    by (auto simp: buy_order_reservation_def bind_result_Inr_iff final_def)
  have le: "filled \<le> filled + gross" "filled + gross \<le> final" using g by (simp_all add: final_def)
  from commission_fee.delta_smaller [OF c f le i m(1)] transfer.delta_smaller [OF c f le i m(2)]
  show ?thesis using res g by force
qed

lemma reservation_covers_fills_witness:
  "\<exists>d1 d2. fee_delta 0 (0 + 150000) (commission flat_config) = Inr d1
    \<and> fee_delta 0 (0 + 150000) (transfer_fee flat_config) = Inr d2 \<and> 150000 + d1 + d2 \<le> 2 * 200000 + 500"
proof -
  have i: "in_i64 200000" by (simp add: in_i64_def)
  obtain x where x: "transfer_fee flat_config 200000 = Inr x" "0 \<le> x" "x \<le> 200000"
  proof -
    have q: "a_share_transfer_fee_rate = Finite (rnd (1 / 100000))"
      by (simp add: a_share_transfer_fee_rate_def f64_of_rat_unit)
    have "rnd (1 / 100000) \<le> rnd (2 powi 0)" by (rule rnd_mono) simp
    then have "0 \<le> rnd (1 / 100000)" "rnd (1 / 100000) \<le> 1"
      using rnd_powi [of 0] by (simp_all add: rnd_nonneg)
    from apply_rate_bounded [OF _ _ this, of 200000] that show thesis
      by (auto simp: transfer_fee_def q)
  qed
  have "buy_order_reservation flat_config 2000 100 0 = Inr (200000 + 500 + x)"
    using flat_commission [OF i] x
    by (simp add: buy_order_reservation_def fee_delta_def in_i64_def bind_result_Inr_iff)
  from reservation_covers_fills [OF flat_config_ok _ _ _ this, of 150000] x show ?thesis by force
qed

end
