(* ===== verification/Ordered_Map.thy ===== *)
theory Ordered_Map
  imports Prelude "HOL-Library.Product_Lexorder"
begin

section \<open>Ordered maps\<close>

text \<open>
  Rust's \<open>BTreeMap\<close> as the list of its entries in key order. \<open>map_of\<close> is \<open>get\<close>, the list itself
  is \<open>iter\<close>, its head \<open>first_key_value\<close>, its tail what \<open>pop_first\<close> leaves. The type \<open>reverse\<close> is
  \<open>std::cmp::Reverse\<close>, with the order turned round.
\<close>

datatype 'a reverse = Reverse (unreverse: 'a)

instantiation reverse :: (linorder) linorder
begin

definition less_eq_reverse :: "'a reverse \<Rightarrow> 'a reverse \<Rightarrow> bool" where
  "less_eq_reverse x y \<longleftrightarrow> unreverse y \<le> unreverse x"

definition less_reverse :: "'a reverse \<Rightarrow> 'a reverse \<Rightarrow> bool" where
  "less_reverse x y \<longleftrightarrow> unreverse y < unreverse x"

instance
  by standard (auto simp: less_eq_reverse_def less_reverse_def reverse.expand)

end

lemma reverse_less [simp]: "Reverse a < Reverse b \<longleftrightarrow> b < a" "Reverse a \<le> Reverse b \<longleftrightarrow> b \<le> a"
  by (simp_all add: less_reverse_def less_eq_reverse_def)

subsection \<open>Operations\<close>

type_synonym ('k, 'v) bt = "('k \<times> 'v) list"

definition bt_sorted :: "('k::linorder, 'v) bt \<Rightarrow> bool" where
  "bt_sorted xs \<longleftrightarrow> sorted_wrt (<) (map fst xs)"

fun bt_insert :: "'k::linorder \<Rightarrow> 'v \<Rightarrow> ('k, 'v) bt \<Rightarrow> ('k, 'v) bt" where
  "bt_insert k v [] = [(k, v)]"
| "bt_insert k v (x # xs) = (if k = fst x then (k, v) # xs
     else if k < fst x then (k, v) # x # xs else x # bt_insert k v xs)"

definition bt_remove :: "'k \<Rightarrow> ('k, 'v) bt \<Rightarrow> ('k, 'v) bt" where
  "bt_remove k xs = filter (\<lambda>x. fst x \<noteq> k) xs"

text \<open>What a write through \<open>get_mut\<close> leaves.\<close>

definition bt_update :: "'k \<Rightarrow> 'v \<Rightarrow> ('k, 'v) bt \<Rightarrow> ('k, 'v) bt" where
  "bt_update k v xs = map (\<lambda>x. if fst x = k then (k, v) else x) xs"

abbreviation bt_values :: "('k, 'v) bt \<Rightarrow> 'v list" where
  "bt_values xs \<equiv> map snd xs"

definition bt_first :: "('k, 'v) bt \<Rightarrow> ('k \<times> 'v) option" where
  "bt_first xs = (case xs of [] \<Rightarrow> None | x # _ \<Rightarrow> Some x)"

lemma bt_first_simps [simp]: "bt_first [] = None" "bt_first (x # xs) = Some x"
  by (simp_all add: bt_first_def)

lemma bt_first_Some_iff: "bt_first xs = Some x \<longleftrightarrow> (\<exists>ys. xs = x # ys)"
  by (cases xs) auto

subsection \<open>Laws\<close>

lemma bt_sorted_Nil [simp]: "bt_sorted []"
  by (simp add: bt_sorted_def)

lemma bt_sorted_Cons [simp]: "bt_sorted (x # xs) \<longleftrightarrow> (\<forall>y\<in>set xs. fst x < fst y) \<and> bt_sorted xs"
  by (simp add: bt_sorted_def)

lemma bt_sorted_distinct: "bt_sorted xs \<Longrightarrow> distinct (map fst xs)"
  unfolding bt_sorted_def using strict_sorted_iff by blast

lemma bt_get_iff: "bt_sorted xs \<Longrightarrow> map_of xs k = Some v \<longleftrightarrow> (k, v) \<in> set xs"
  by (simp add: bt_sorted_distinct)

lemma set_bt_insert:
  "bt_sorted xs \<Longrightarrow> set (bt_insert k v xs) = insert (k, v) {x \<in> set xs. fst x \<noteq> k}"
  by (induction xs) auto

lemma set_bt_insert_new:
  "map_of xs k = None \<Longrightarrow> set (bt_insert k v xs) = insert (k, v) (set xs)"
  by (induction xs) (auto split: if_splits)

lemma bt_sorted_insert [simp]: "bt_sorted xs \<Longrightarrow> bt_sorted (bt_insert k v xs)"
proof (induction xs)
  case (Cons x xs)
  then show ?case using set_bt_insert [of xs k v] by (auto simp: not_less_iff_gr_or_eq)
qed simp

lemma map_of_bt_insert: "bt_sorted xs \<Longrightarrow> map_of (bt_insert k v xs) = (map_of xs)(k \<mapsto> v)"
  by (induction xs) (auto simp: fun_eq_iff)

lemma length_bt_insert_new: "map_of xs k = None \<Longrightarrow> length (bt_insert k v xs) = Suc (length xs)"
  by (induction xs) (auto split: if_splits)

lemma set_bt_remove [simp]: "set (bt_remove k xs) = {x \<in> set xs. fst x \<noteq> k}"
  by (auto simp: bt_remove_def)

lemma bt_sorted_remove [simp]: "bt_sorted xs \<Longrightarrow> bt_sorted (bt_remove k xs)"
  by (induction xs) (auto simp: bt_remove_def)

lemma map_of_bt_remove: "map_of (bt_remove k xs) = (map_of xs)(k := None)"
  by (induction xs) (auto simp: bt_remove_def fun_eq_iff)

lemma bt_remove_hd: "bt_sorted (x # xs) \<Longrightarrow> bt_remove (fst x) (x # xs) = xs"
  by (auto simp: bt_remove_def filter_id_conv)

lemma bt_remove_absent: "map_of xs k = None \<Longrightarrow> bt_remove k xs = xs"
  by (auto simp: bt_remove_def filter_id_conv map_of_eq_None_iff)

lemma bt_remove_insert: "map_of xs k = None \<Longrightarrow> bt_remove k (bt_insert k v xs) = xs"
proof (induction xs)
  case (Cons x xs)
  then have "fst x \<noteq> k" "map_of xs k = None" by (auto split: if_splits)
  then show ?case using Cons.IH bt_remove_absent [of xs k] by (auto simp: bt_remove_def)
qed (simp add: bt_remove_def)

lemma length_bt_update [simp]: "length (bt_update k v xs) = length xs"
  by (simp add: bt_update_def)

lemma map_fst_bt_update [simp]: "map fst (bt_update k v xs) = map fst xs"
  by (induction xs) (auto simp: bt_update_def)

lemma bt_sorted_update [simp]: "bt_sorted (bt_update k v xs) = bt_sorted xs"
  by (simp add: bt_sorted_def)

lemma bt_update_absent: "map_of xs k = None \<Longrightarrow> bt_update k v xs = xs"
  by (auto simp: bt_update_def map_of_eq_None_iff image_iff intro!: map_idI)

lemma map_of_bt_update:
  "map_of (bt_update k v xs) c = (if c = k \<and> map_of xs k \<noteq> None then Some v else map_of xs c)"
  by (induction xs) (auto simp: bt_update_def)

lemma set_bt_update:
  "map_of xs k \<noteq> None \<Longrightarrow> set (bt_update k v xs) = insert (k, v) {x \<in> set xs. fst x \<noteq> k}"
  by (induction xs) (auto simp: bt_update_def split: if_splits)

lemma bt_update_hd: "bt_sorted (x # xs) \<Longrightarrow> bt_update (fst x) v (x # xs) = (fst x, v) # xs"
  by (auto simp: bt_update_def intro!: map_idI)

lemma bt_sorted_tl [simp]: "bt_sorted xs \<Longrightarrow> bt_sorted (tl xs)"
  by (cases xs) auto

text \<open>Where the key of a new entry falls.\<close>

lemma bt_insert_split:
  assumes "bt_sorted xs" "map_of xs k = None"
  shows "bt_insert k v xs = filter (\<lambda>x. fst x < k) xs @ (k, v) # filter (\<lambda>x. k < fst x) xs"
  using assms
proof (induction xs)
  case (Cons x xs)
  then have ne: "fst x \<noteq> k" and rest: "bt_sorted xs" "map_of xs k = None" by (auto split: if_splits)
  show ?case
  proof (cases "k < fst x")
    case True
    with Cons.prems(1) have "\<forall>y\<in>set xs. k < fst y" by auto
    then have "filter (\<lambda>x. fst x < k) xs = []" "filter (\<lambda>x. k < fst x) xs = xs"
      by (auto simp: filter_empty_conv filter_id_conv)
    with True ne show ?thesis by auto
  next
    case False
    with ne Cons.IH [OF rest] show ?thesis by auto
  qed
qed simp

subsection \<open>A map is determined by its entries\<close>

lemma bt_determined:
  assumes "bt_sorted xs" "bt_sorted ys" "set xs = set ys"
  shows "xs = ys"
proof (rule map_sorted_distinct_set_unique [of fst])
  show "inj_on fst (set xs \<union> set ys)"
    using bt_sorted_distinct [OF assms(1)] assms(3) by (simp add: distinct_map)
  show "sorted (map fst xs)" "sorted (map fst ys)" "distinct (map fst xs)" "distinct (map fst ys)"
    using assms bt_sorted_distinct by (auto simp: bt_sorted_def strict_sorted_iff)
qed (rule assms)

lemma bt_map_of_determined:
  assumes "bt_sorted xs" "bt_sorted ys" "map_of xs = map_of ys"
  shows "xs = ys"
proof (rule bt_determined [OF assms(1,2)])
  have "(k, v) \<in> set xs \<longleftrightarrow> (k, v) \<in> set ys" for k v
    using bt_get_iff [OF assms(1), of k v] bt_get_iff [OF assms(2), of k v] assms(3) by simp
  then show "set xs = set ys" by auto
qed

text \<open>Sums over the values of a map.\<close>

definition bt_sum :: "('v \<Rightarrow> int) \<Rightarrow> ('k, 'v) bt \<Rightarrow> int" where
  "bt_sum f xs = sum_list (map (\<lambda>x. f (snd x)) xs)"

lemma bt_sum_simps [simp]: "bt_sum f [] = 0" "bt_sum f (x # xs) = f (snd x) + bt_sum f xs"
  by (simp_all add: bt_sum_def)

lemma bt_sum_insert:
  assumes "bt_sorted xs"
  shows "bt_sum f (bt_insert k v xs)
    = bt_sum f xs - (case map_of xs k of None \<Rightarrow> 0 | Some old \<Rightarrow> f old) + f v"
  using assms
proof (induction xs)
  case (Cons x xs)
  have "map_of xs k = None" if "k < fst x \<or> k = fst x"
    using Cons.prems that by (force simp: map_of_eq_None_iff)
  with Cons show ?case by (cases x) (auto simp: less_imp_neq)
qed simp

end
