(* ===== verification/Order_Types.thy ===== *)
theory Order_Types
  imports Money
begin

section \<open>Orders, trades and order-book errors (orderbook.rs)\<close>

text \<open>
  The data of the matching engine: sides, modes, orders with their fill progress, trades and
  the error type. Identities are natural numbers (\<open>u64\<close> at run time); quantities are \<open>u32\<close>, as
  natural numbers with the checked operations written out. Payloads that only carry diagnostics
  are kept where a caller can observe them.
\<close>

type_synonym order_id = nat
type_synonym account_id = nat
type_synonym seq = nat

datatype side = Buy | Sell

datatype matching_mode = Auction | Continuous

datatype stock_exchange = Shanghai | Shenzhen

datatype clearing_reject =
    NotInAuctionMode | CrossedContinuous | QuantityOverflow | SelectionMismatch
  | InvalidPriceTick | PriceOverflow

datatype price_reject = NonPositive | NotTickMultiple

datatype projection_mismatch =
    DuplicateSeq | UnsafeSeq | CrossDuringRestore | TimeSeqDiffers | BidKeyExists | AskKeyExists
  | AbsentLiveOrder | CandidateDiffers | YesterdayCloseChanged | MarketVersionDiffers

datatype order_error =
    InvalidPrice money money price_reject
  | InvalidQty nat
  | InvalidQuantityProgress nat nat nat
  | InvalidFilledValue money
  | DuplicateOrderId order_id
  | ProjectionMismatch projection_mismatch "nat list"
  | InvalidAuctionClearing clearing_reject
  | SequenceOverflow
  | OrderNotFound order_id
  | OrderAlreadyFilled order_id
  | InvalidTick money
  | OrderMoney money_error

record order =
  ord_id :: order_id
  ord_side :: side
  ord_price :: money
  ord_qty :: nat
  ord_original_qty :: nat
  ord_filled_qty :: nat
  ord_filled_value :: money
  ord_owner :: account_id
  ord_seq :: seq

record trade =
  tr_price :: money
  tr_qty :: nat
  tr_maker :: account_id
  tr_taker :: account_id
  tr_maker_order_id :: order_id
  tr_taker_order_id :: order_id
  tr_maker_filled_value_before :: money
  tr_taker_filled_value_before :: money

record match_result =
  mr_trades :: "trade list"
  mr_resting :: "order option"
  mr_maker_before :: "order list"

record clearing_result =
  cr_price :: "money option"
  cr_trades :: "trade list"
  cr_matched_volume :: nat

definition js_safe_max :: nat where
  "js_safe_max = 9007199254740991"

subsection \<open>Fill progress of an order\<close>

definition quantity_progress_error :: "order \<Rightarrow> order_error" where
  "quantity_progress_error o' =
     InvalidQuantityProgress (ord_original_qty o') (ord_filled_qty o') (ord_qty o')"

definition validate_progress :: "order \<Rightarrow> order_error + unit" where
  "validate_progress o' =
    (if ord_qty o' = 0 then Inl (InvalidQty (ord_qty o'))
     else if ord_filled_value o' < 0 then Inl (InvalidFilledValue (ord_filled_value o'))
     else (case checked_u32 (ord_filled_qty o' + ord_qty o') of
         None \<Rightarrow> Inl (quantity_progress_error o')
       | Some tot \<Rightarrow> if tot \<noteq> ord_original_qty o' then Inl (quantity_progress_error o') else Inr ()))"

definition filled_value_after :: "order \<Rightarrow> money \<Rightarrow> order_error + money" where
  "filled_value_after o' fill_value = map_error OrderMoney (money_add (ord_filled_value o') fill_value)"

definition filled_qty_after :: "order \<Rightarrow> nat \<Rightarrow> order_error + nat" where
  "filled_qty_after o' fill_qty =
     ok_or (quantity_progress_error o') (checked_u32 (ord_filled_qty o' + fill_qty))"

text \<open>\<open>u32\<close> subtraction as the release build performs it: it wraps.\<close>

definition u32_sub :: "nat \<Rightarrow> nat \<Rightarrow> nat" where
  "u32_sub a b = (if b \<le> a then a - b else a + 2 ^ 32 - b)"

text \<open>An order is in progress when it is open and its quantities and value add up.\<close>

definition in_progress :: "order \<Rightarrow> bool" where
  "in_progress o' \<longleftrightarrow> 0 < ord_qty o' \<and> 0 \<le> ord_filled_value o' \<and>
     ord_filled_qty o' + ord_qty o' = ord_original_qty o' \<and> ord_original_qty o' \<le> u32_max"

lemma validate_progress_iff [simp]: "validate_progress o' = Inr () \<longleftrightarrow> in_progress o'"
  by (auto simp: validate_progress_def in_progress_def checked_u32_def split: if_splits)

lemma filled_value_after_Inr [simp]:
  "filled_value_after o' v = Inr w \<longleftrightarrow> in_i64 (ord_filled_value o' + v) \<and> w = ord_filled_value o' + v"
  by (simp add: filled_value_after_def)

lemma filled_qty_after_Inr [simp]:
  "filled_qty_after o' q = Inr w \<longleftrightarrow> ord_filled_qty o' + q \<le> u32_max \<and> w = ord_filled_qty o' + q"
  by (simp add: filled_qty_after_def)

lemma u32_sub_le [simp]: "b \<le> a \<Longrightarrow> u32_sub a b = a - b"
  by (simp add: u32_sub_def)

end
