(* ===== verification/Persistent_Index.thy ===== *)
theory Persistent_Index
  imports Order_Types "HOL-Library.Word"
begin

unbundle bit_operations_syntax

section \<open>The persistent identity index (orderbook/persistent\_index.rs)\<close>

text \<open>
  A treap keyed by order id, with a priority that is a 64-bit mix of the id. Path copying makes
  every version persistent, so a functional tree is the exact model. \<open>FilledOrders\<close> and
  \<open>RestingOrderIndex\<close> wrap it; their contract is the locale \<open>oid\_lookup\<close> and its extension
  \<open>oid\_index\<close>, a finite map from ids with rejection of duplicates.
\<close>

datatype 'v index = IEmpty | INode (i_id: order_id) (i_value: 'v) (i_priority: "64 word") (i_left: "'v index") (i_right: "'v index")

definition priority :: "order_id \<Rightarrow> 64 word" where
  "priority oid = (let v = word_of_nat oid + 0x9E3779B97F4A7C15;
     v = (v XOR drop_bit 30 v) * 0xBF58476D1CE4E5B9;
     v = (v XOR drop_bit 27 v) * 0x94D049BB133111EB in
     v XOR drop_bit 31 v)"

fun idx_get :: "'v index \<Rightarrow> order_id \<Rightarrow> 'v option" where
  "idx_get IEmpty oid = None"
| "idx_get (INode k v p l r) oid =
     (if oid = k then Some v else if oid < k then idx_get l oid else idx_get r oid)"

text \<open>The rotations of \<open>insert\<close>: the inserted child is promoted when its priority is smaller.\<close>

fun promote_left :: "order_id \<Rightarrow> 'v \<Rightarrow> 64 word \<Rightarrow> 'v index \<Rightarrow> 'v index \<Rightarrow> 'v index" where
  "promote_left k v p (INode ck cv cp cl cr) r =
     (if cp < p then INode ck cv cp cl (INode k v p cr r) else INode k v p (INode ck cv cp cl cr) r)"
| "promote_left k v p IEmpty r = INode k v p IEmpty r"

fun promote_right :: "order_id \<Rightarrow> 'v \<Rightarrow> 64 word \<Rightarrow> 'v index \<Rightarrow> 'v index \<Rightarrow> 'v index" where
  "promote_right k v p l (INode ck cv cp cl cr) =
     (if cp < p then INode ck cv cp (INode k v p l cl) cr else INode k v p l (INode ck cv cp cl cr))"
| "promote_right k v p l IEmpty = INode k v p l IEmpty"

fun idx_insert :: "'v index \<Rightarrow> order_id \<Rightarrow> 'v \<Rightarrow> order_error + 'v index" where
  "idx_insert IEmpty oid value = Inr (INode oid value (priority oid) IEmpty IEmpty)"
| "idx_insert (INode k v p l r) oid value =
    (if k = oid then Inl (DuplicateOrderId oid)
     else if oid < k then bind_result (idx_insert l oid value) (\<lambda>l'. Inr (promote_left k v p l' r))
     else bind_result (idx_insert r oid value) (\<lambda>r'. Inr (promote_right k v p l r')))"

fun idx_merge :: "'v index \<Rightarrow> 'v index \<Rightarrow> 'v index" where
  "idx_merge IEmpty IEmpty = IEmpty"
| "idx_merge (INode k v p l r) IEmpty = INode k v p l r"
| "idx_merge IEmpty (INode k v p l r) = INode k v p l r"
| "idx_merge (INode k v p l r) (INode k' v' p' l' r') =
    (if p < p' then INode k v p l (idx_merge r (INode k' v' p' l' r'))
     else INode k' v' p' (idx_merge (INode k v p l r) l') r')"

fun idx_remove :: "'v index \<Rightarrow> order_id \<Rightarrow> 'v index \<times> 'v option" where
  "idx_remove IEmpty oid = (IEmpty, None)"
| "idx_remove (INode k v p l r) oid =
    (if oid = k then (idx_merge l r, Some v)
     else if oid < k then
       (let (l', removed) = idx_remove l oid in
        if removed \<noteq> None then (INode k v p l' r, removed) else (INode k v p l r, None))
     else
       (let (r', removed) = idx_remove r oid in
        if removed \<noteq> None then (INode k v p l r', removed) else (INode k v p l r, None)))"

text \<open>
  \<open>entries\<close> walks the tree with an explicit stack: the inner loop descends to the left, pushing
  nodes; then a node is popped, emitted, and its right subtree becomes the cursor.
\<close>

function entries_loop :: "'v index \<Rightarrow> (order_id \<times> 'v \<times> 'v index) list \<Rightarrow> (order_id \<times> 'v) list
    \<Rightarrow> (order_id \<times> 'v) list" where
  "entries_loop (INode k v p l r) stack result = entries_loop l ((k, v, r) # stack) result"
| "entries_loop IEmpty ((k, v, r) # stack) result = entries_loop r stack (result @ [(k, v)])"
| "entries_loop IEmpty [] result = result"
  by pat_completeness auto
termination
  by (relation "measure (\<lambda>(c, st, res). 2 * size c + sum_list (map (\<lambda>(k, v, r). 2 * size r + 1) st))")
    auto

definition idx_entries :: "'v index \<Rightarrow> (order_id \<times> 'v) list" where
  "idx_entries t = entries_loop t [] []"

subsection \<open>Search-tree and heap order\<close>

fun idx_ids :: "'v index \<Rightarrow> order_id set" where
  "idx_ids IEmpty = {}"
| "idx_ids (INode k v p l r) = insert k (idx_ids l \<union> idx_ids r)"

fun root_ge :: "64 word \<Rightarrow> 'v index \<Rightarrow> bool" where
  "root_ge q IEmpty = True"
| "root_ge q (INode k v p l r) = (q \<le> p)"

fun idx_inv :: "'v index \<Rightarrow> bool" where
  "idx_inv IEmpty = True"
| "idx_inv (INode k v p l r) = ((\<forall>i\<in>idx_ids l. i < k) \<and> (\<forall>i\<in>idx_ids r. k < i) \<and> p = priority k
     \<and> root_ge p l \<and> root_ge p r \<and> idx_inv l \<and> idx_inv r)"

fun inorder_list :: "'v index \<Rightarrow> (order_id \<times> 'v) list" where
  "inorder_list IEmpty = []"
| "inorder_list (INode k v p l r) = inorder_list l @ (k, v) # inorder_list r"

lemma idx_get_None_iff: "idx_inv t \<Longrightarrow> idx_get t oid = None \<longleftrightarrow> oid \<notin> idx_ids t"
proof (induction t)
  case (INode k v p l r)
  then have o: "\<forall>i\<in>idx_ids l. i < k" "\<forall>i\<in>idx_ids r. k < i" by simp_all
  consider "oid = k" | "oid < k" | "k < oid" by linarith
  then show ?case
  proof cases
    case 2
    with o(2) have "oid \<notin> idx_ids r" by force
    with 2 INode show ?thesis by simp
  next
    case 3
    with o(1) have "oid \<notin> idx_ids l" by force
    with 3 INode show ?thesis by simp
  qed simp
qed simp

lemma idx_get_outside: "idx_inv t \<Longrightarrow> oid \<notin> idx_ids t \<Longrightarrow> idx_get t oid = None"
  by (simp add: idx_get_None_iff)

lemma idx_get_dom: "idx_inv t \<Longrightarrow> dom (idx_get t) = idx_ids t"
  unfolding dom_def by (simp add: idx_get_None_iff)

lemma finite_idx_ids [simp]: "finite (idx_ids t)"
  by (induction t) auto

lemma idx_insert_ids:
  "idx_insert t oid v = Inr t' \<Longrightarrow> idx_ids t' = insert oid (idx_ids t)"
proof (induction t arbitrary: t')
  case (INode k w p l r)
  show ?case
  proof (cases "oid < k")
    case True
    with INode.prems obtain l' where "idx_insert l oid v = Inr l'" "t' = promote_left k w p l' r"
      by (auto simp: bind_result_Inr_iff split: if_splits)
    with INode.IH(1) show ?thesis by (cases l') auto
  next
    case False
    with INode.prems obtain r' where "idx_insert r oid v = Inr r'" "t' = promote_right k w p l r'"
      by (auto simp: bind_result_Inr_iff split: if_splits)
    with INode.IH(2) show ?thesis by (cases r') auto
  qed
qed auto

lemma idx_insert_ok_iff:
  "idx_inv t \<Longrightarrow> (\<exists>t'. idx_insert t oid v = Inr t') \<longleftrightarrow> idx_get t oid = None"
  by (induction t) (auto simp: bind_result_Inr_iff)

lemma idx_insert_error:
  "idx_insert t oid v = Inl e \<Longrightarrow> e = DuplicateOrderId oid"
  by (induction t) (auto simp: bind_result_Inl_iff split: if_splits)

text \<open>
  Rotating keeps the order. The children of the root that an insertion leaves respect every
  bound the old root respected, so the promotion is the only repair that is needed.
\<close>

lemma root_ge_trans: "root_ge q t \<Longrightarrow> q' \<le> q \<Longrightarrow> root_ge q' t"
  by (cases t) auto

lemma idx_insert_children:
  "idx_inv t \<Longrightarrow> root_ge q t \<Longrightarrow> idx_insert t oid v = Inr (INode ck cv cp cl cr) \<Longrightarrow>
    root_ge q cl \<and> root_ge q cr"
proof (induction t arbitrary: ck cv cp cl cr)
  case (INode k w p l r)
  from INode.prems have inv: "idx_inv l" "idx_inv r" and q: "q \<le> p"
    and ge: "root_ge q l" "root_ge q r" by (auto intro: root_ge_trans)
  show ?case
  proof (cases "oid < k")
    case True
    with INode.prems(3) obtain l' where l': "idx_insert l oid v = Inr l'"
      "promote_left k w p l' r = INode ck cv cp cl cr"
      by (auto simp: bind_result_Inr_iff split: if_splits)
    show ?thesis
    proof (cases l')
      case (INode dk dv dp dl dr)
      with INode.IH(1) [OF inv(1) ge(1)] l' q ge show ?thesis by (auto split: if_splits)
    qed (use l' ge q in auto)
  next
    case False
    with INode.prems(3) obtain r' where r': "idx_insert r oid v = Inr r'"
      "promote_right k w p l r' = INode ck cv cp cl cr"
      by (auto simp: bind_result_Inr_iff split: if_splits)
    show ?thesis
    proof (cases r')
      case (INode dk dv dp dl dr)
      with INode.IH(2) [OF inv(2) ge(2)] r' q ge show ?thesis by (auto split: if_splits)
    qed (use r' ge q in auto)
  qed
qed auto

lemma promote_left_inv:
  assumes "idx_inv l'" "idx_inv r" "\<forall>i\<in>idx_ids l'. i < k" "\<forall>i\<in>idx_ids r. k < i"
    "root_ge (priority k) r"
    and heap: "\<And>ck cv cp cl cr. l' = INode ck cv cp cl cr \<Longrightarrow> root_ge (priority k) cr"
  shows "idx_inv (promote_left k v (priority k) l' r)"
proof (cases l')
  case (INode ck cv cp cl cr)
  with heap have "root_ge (priority k) cr" by simp
  with INode assms(1-5) show ?thesis by (auto simp: not_less)
qed (use assms(1-5) in simp)

lemma promote_right_inv:
  assumes "idx_inv l" "idx_inv r'" "\<forall>i\<in>idx_ids l. i < k" "\<forall>i\<in>idx_ids r'. k < i"
    "root_ge (priority k) l"
    and heap: "\<And>ck cv cp cl cr. r' = INode ck cv cp cl cr \<Longrightarrow> root_ge (priority k) cl"
  shows "idx_inv (promote_right k v (priority k) l r')"
proof (cases r')
  case (INode ck cv cp cl cr)
  with heap have "root_ge (priority k) cl" by simp
  with INode assms(1-5) show ?thesis by (auto simp: not_less)
qed (use assms(1-5) in simp)

lemma idx_insert_inv:
  "idx_inv t \<Longrightarrow> idx_insert t oid v = Inr t' \<Longrightarrow> idx_inv t'"
proof (induction t arbitrary: t')
  case (INode k w p l r)
  from INode.prems(1) have p: "p = priority k" and inv: "idx_inv l" "idx_inv r"
    and o: "\<forall>i\<in>idx_ids l. i < k" "\<forall>i\<in>idx_ids r. k < i"
    and ge: "root_ge (priority k) l" "root_ge (priority k) r" by auto
  show ?case
  proof (cases "oid < k")
    case True
    with INode.prems(2) obtain l' where l': "idx_insert l oid v = Inr l'" "t' = promote_left k w p l' r"
      by (auto simp: bind_result_Inr_iff split: if_splits)
    have "\<forall>i\<in>idx_ids l'. i < k" using idx_insert_ids [OF l'(1)] o True by simp
    then show ?thesis unfolding l'(2) p
      using INode.IH(1) [OF inv(1) l'(1)] inv o ge idx_insert_children [OF inv(1) ge(1)] l'(1)
      by (intro promote_left_inv) auto
  next
    case False
    with INode.prems(2) obtain r' where r': "idx_insert r oid v = Inr r'" "t' = promote_right k w p l r'"
      and ne: "k \<noteq> oid"
      by (auto simp: bind_result_Inr_iff split: if_splits)
    have "\<forall>i\<in>idx_ids r'. k < i" using idx_insert_ids [OF r'(1)] o False ne by auto
    then show ?thesis unfolding r'(2) p
      using INode.IH(2) [OF inv(2) r'(1)] inv o ge idx_insert_children [OF inv(2) ge(2)] r'(1)
      by (intro promote_right_inv) auto
  qed
qed auto

lemma inorder_promote [simp]:
  "inorder_list (promote_left k v p l r) = inorder_list (INode k v p l r)"
  "inorder_list (promote_right k v p l r) = inorder_list (INode k v p l r)"
  by (cases l; simp) (cases r; simp)

subsection \<open>The index as a finite map\<close>

lemma fst_inorder [simp]: "fst ` set (inorder_list t) = idx_ids t"
  by (induction t) auto

lemma inorder_sorted: "idx_inv t \<Longrightarrow> sorted_wrt (<) (map fst (inorder_list t))"
proof (induction t)
  case (INode k v p l r)
  have "\<forall>x\<in>set (inorder_list l). fst x < k" "\<forall>x\<in>set (inorder_list r). k < fst x"
    using INode.prems fst_inorder [of l] fst_inorder [of r] by (metis idx_inv.simps(2) imageI)+
  with INode show ?case by (fastforce simp: sorted_wrt_append)
qed simp

lemma inorder_distinct: "idx_inv t \<Longrightarrow> distinct (map fst (inorder_list t))"
  using inorder_sorted strict_sorted_iff by blast

lemma idx_get_inorder: "idx_inv t \<Longrightarrow> idx_get t i = map_of (inorder_list t) i"
proof (induction t)
  case (INode k v p l r)
  then have o: "\<forall>i\<in>idx_ids l. i < k" "\<forall>i\<in>idx_ids r. k < i"
    and ih: "idx_get l i = map_of (inorder_list l) i" "idx_get r i = map_of (inorder_list r) i"
    by simp_all
  have d: "dom (map_of (inorder_list l)) = idx_ids l" "dom (map_of (inorder_list r)) = idx_ids r"
    by (simp_all add: dom_map_of_conv_image_fst)
  consider "i = k" | "i < k" | "k < i" by linarith
  then show ?case
  proof cases
    case 1
    with o(1) have "i \<notin> dom (map_of (inorder_list l))" unfolding d by force
    then have "map_of (inorder_list l) i = None" by (simp add: domIff)
    with 1 show ?thesis by (simp add: map_add_def)
  next
    case 2
    with o(2) have "i \<notin> dom (map_of (inorder_list r))" unfolding d by force
    then have "map_of (inorder_list r) i = None" by (simp add: domIff)
    with 2 ih show ?thesis by (simp add: map_add_def split: option.split)
  next
    case 3
    with o(1) have "i \<notin> dom (map_of (inorder_list l))" unfolding d by force
    then have "map_of (inorder_list l) i = None" by (simp add: domIff)
    with 3 ih show ?thesis by (simp add: map_add_def split: option.split)
  qed
qed simp

lemma idx_get_Some_iff: "idx_inv t \<Longrightarrow> idx_get t i = Some v \<longleftrightarrow> (i, v) \<in> set (inorder_list t)"
  using idx_get_inorder map_of_eq_Some_iff [OF inorder_distinct] by metis

lemma set_inorder_insert:
  "idx_insert t oid v = Inr t' \<Longrightarrow> set (inorder_list t') = insert (oid, v) (set (inorder_list t))"
  by (induction t arbitrary: t') (auto simp: bind_result_Inr_iff split: if_splits)

lemma idx_get_insert:
  assumes "idx_inv t" "idx_insert t oid v = Inr t'"
  shows "idx_get t' = (idx_get t)(oid \<mapsto> v)"
proof
  fix i
  have inv: "idx_inv t'" by (rule idx_insert_inv [OF assms])
  have new: "idx_get t oid = None" using idx_insert_ok_iff [OF assms(1)] assms(2) by blast
  have "idx_get t' i = Some w \<longleftrightarrow> ((idx_get t)(oid \<mapsto> v)) i = Some w" for w
    using new by (auto simp: idx_get_Some_iff [OF inv] idx_get_Some_iff [OF assms(1), symmetric]
        set_inorder_insert [OF assms(2)])
  then show "idx_get t' i = ((idx_get t)(oid \<mapsto> v)) i"
    by (metis option.exhaust)
qed

lemma inorder_merge [simp]: "inorder_list (idx_merge l r) = inorder_list l @ inorder_list r"
  by (induction l r rule: idx_merge.induct) auto

lemma ids_merge [simp]: "idx_ids (idx_merge l r) = idx_ids l \<union> idx_ids r"
  using fst_inorder [of "idx_merge l r"] by (simp add: image_Un del: fst_inorder) simp

lemma root_ge_merge: "root_ge q l \<Longrightarrow> root_ge q r \<Longrightarrow> root_ge q (idx_merge l r)"
  by (induction l r rule: idx_merge.induct) auto

lemma idx_inv_merge:
  "idx_inv l \<Longrightarrow> idx_inv r \<Longrightarrow> \<forall>i\<in>idx_ids l. \<forall>j\<in>idx_ids r. i < j \<Longrightarrow> idx_inv (idx_merge l r)"
proof (induction l r rule: idx_merge.induct)
  case (4 k v p l r k' v' p' l' r')
  show ?case
  proof (cases "p < p'")
    case True
    with 4 show ?thesis by (auto intro!: root_ge_merge)
  next
    case False
    with 4 show ?thesis by (auto intro!: root_ge_merge simp: not_less)
  qed
qed auto

lemma inorder_remove:
  "idx_inv t \<Longrightarrow> inorder_list (fst (idx_remove t oid)) = filter (\<lambda>e. fst e \<noteq> oid) (inorder_list t)
    \<and> snd (idx_remove t oid) = idx_get t oid"
proof (induction t)
  case (INode k v p l r)
  then have o: "\<forall>i\<in>idx_ids l. i < k" "\<forall>i\<in>idx_ids r. k < i" by simp_all
  have keep: "filter (\<lambda>e. fst e \<noteq> oid) (inorder_list s) = inorder_list s" if "oid \<notin> idx_ids s" for s
    using that fst_inorder [of s] by (force simp: filter_id_conv simp del: fst_inorder)
  consider "oid = k" | "oid < k" | "k < oid" by linarith
  then show ?case
  proof cases
    case 1
    with o have "oid \<notin> idx_ids l" "oid \<notin> idx_ids r" by auto
    with keep [of l] keep [of r] show ?thesis by (simp add: 1)
  next
    case 2
    with o have r: "oid \<notin> idx_ids r" by force
    have "oid \<notin> idx_ids l" if "idx_get l oid = None"
      using that idx_get_None_iff [of l oid] INode.prems by simp
    with 2 r INode show ?thesis by (auto simp: keep split: prod.split)
  next
    case 3
    with o have l: "oid \<notin> idx_ids l" by force
    have "oid \<notin> idx_ids r" if "idx_get r oid = None"
      using that idx_get_None_iff [of r oid] INode.prems by simp
    with 3 l INode show ?thesis by (auto simp: keep split: prod.split)
  qed
qed simp

lemma ids_remove:
  assumes "idx_inv t"
  shows "idx_ids (fst (idx_remove t oid)) = idx_ids t - {oid}"
proof -
  have "idx_ids (fst (idx_remove t oid)) = fst ` set (filter (\<lambda>e. fst e \<noteq> oid) (inorder_list t))"
    using inorder_remove [OF assms, of oid] fst_inorder [of "fst (idx_remove t oid)"] by metis
  also have "\<dots> = fst ` set (inorder_list t) - {oid}"
    by (auto simp: image_iff simp del: fst_inorder)
  finally show ?thesis by simp
qed

lemma root_ge_remove: "root_ge q t \<Longrightarrow> idx_inv t \<Longrightarrow> root_ge q (fst (idx_remove t oid))"
proof (induction t)
  case (INode k v p l r)
  have "root_ge q l" "root_ge q r" using INode.prems by (auto intro: root_ge_trans)
  with INode show ?case by (auto intro: root_ge_merge split: prod.split)
qed simp

lemma idx_remove_inv: "idx_inv t \<Longrightarrow> idx_inv (fst (idx_remove t oid))"
proof (induction t)
  case (INode k v p l r)
  then have inv: "idx_inv l" "idx_inv r" by simp_all
  have ids: "idx_ids (fst (idx_remove l oid)) = idx_ids l - {oid}"
    "idx_ids (fst (idx_remove r oid)) = idx_ids r - {oid}" by (simp_all add: ids_remove inv)
  have ge: "root_ge p (fst (idx_remove l oid))" "root_ge p (fst (idx_remove r oid))"
  proof -
    have "root_ge p l" "root_ge p r" using INode.prems unfolding idx_inv.simps by blast+
    then show "root_ge p (fst (idx_remove l oid))" "root_ge p (fst (idx_remove r oid))"
      by (auto intro: root_ge_remove inv)
  qed
  have mg: "idx_inv (idx_merge l r)"
    using INode.prems by (intro idx_inv_merge) (auto intro: less_trans)
  from ids ge INode mg show ?case
    by (cases "idx_remove l oid"; cases "idx_remove r oid") simp
qed simp

lemma idx_get_remove:
  assumes "idx_inv t"
  shows "idx_get (fst (idx_remove t oid)) = (idx_get t)(oid := None)"
proof
  fix i
  have "idx_get (fst (idx_remove t oid)) i = Some w \<longleftrightarrow> ((idx_get t)(oid := None)) i = Some w" for w
    by (auto simp: idx_get_Some_iff [OF idx_remove_inv [OF assms]] idx_get_Some_iff [OF assms]
        inorder_remove [OF assms])
  then show "idx_get (fst (idx_remove t oid)) i = ((idx_get t)(oid := None)) i"
    by (metis option.exhaust)
qed

lemma idx_remove_absent: "snd (idx_remove t oid) = None \<Longrightarrow> fst (idx_remove t oid) = t"
  by (induction t) (auto split: prod.splits if_splits)

lemma entries_loop_inorder:
  "entries_loop c st res = res @ inorder_list c
     @ concat (map (\<lambda>(k, v, r). (k, v) # inorder_list r) st)"
  by (induction c st res rule: entries_loop.induct) auto

lemma idx_entries_inorder: "idx_entries t = inorder_list t"
  by (simp add: idx_entries_def entries_loop_inorder)

subsection \<open>The contract of the identity indexes\<close>

locale id_lookup =
  fixes inv :: "'t \<Rightarrow> bool"
    and empty :: 't
    and get :: "'t \<Rightarrow> order_id \<Rightarrow> 'v option"
    and ins :: "'t \<Rightarrow> order_id \<Rightarrow> 'v \<Rightarrow> order_error + 't"
    and entries :: "'t \<Rightarrow> (order_id \<times> 'v) list"
  assumes inv_empty: "inv empty"
    and get_empty: "get empty = Map.empty"
    and ins_ok: "inv t \<Longrightarrow> get t i = None \<Longrightarrow> \<exists>t'. ins t i v = Inr t'"
    and ins_dup: "inv t \<Longrightarrow> get t i \<noteq> None \<Longrightarrow> ins t i v = Inl (DuplicateOrderId i)"
    and inv_ins: "inv t \<Longrightarrow> ins t i v = Inr t' \<Longrightarrow> inv t'"
    and get_ins: "inv t \<Longrightarrow> ins t i v = Inr t' \<Longrightarrow> get t' = (get t)(i \<mapsto> v)"
    and entries_map: "inv t \<Longrightarrow> map_of (entries t) = get t"
    and entries_sorted: "inv t \<Longrightarrow> sorted_wrt (<) (map fst (entries t))"
begin

lemma ins_iff: "inv t \<Longrightarrow> (\<exists>t'. ins t i v = Inr t') \<longleftrightarrow> get t i = None"
  using ins_ok ins_dup by (metis sum.distinct(1))

text \<open>Inserting a list of entries with new and distinct ids always succeeds.\<close>

lemma ins_list:
  assumes "inv t" "distinct (map fst xs)" "\<forall>x\<in>set xs. get t (fst x) = None"
  shows "\<exists>t'. try_fold (\<lambda>t (i, v). ins t i v) t xs = Inr t' \<and> inv t' \<and> get t' = get t ++ map_of xs"
  using assms
proof (induction xs arbitrary: t)
  case (Cons x xs)
  obtain i v where x: "x = (i, v)" by (cases x)
  with Cons.prems ins_ok obtain t1 where t1: "ins t i v = Inr t1" by force
  from Cons.prems(1) t1 have g: "inv t1" "get t1 = (get t)(i \<mapsto> v)" by (auto dest: inv_ins get_ins)
  have "\<forall>y\<in>set xs. get t1 (fst y) = None" using Cons.prems(2,3) by (auto simp: g x)
  from Cons.IH [OF g(1) _ this] Cons.prems(2) obtain t' where
    t': "try_fold (\<lambda>t (i, v). ins t i v) t1 xs = Inr t'" "inv t'" "get t' = get t1 ++ map_of xs"
    by auto
  have "i \<notin> dom (map_of xs)" using Cons.prems(2) by (simp add: x dom_map_of_conv_image_fst)
  then have "get t ++ map_of (x # xs) = get t1 ++ map_of xs"
    by (simp add: x g map_add_upd_left)
  with t' have "get t' = get t ++ map_of (x # xs)" by (simp only:)
  moreover have "try_fold (\<lambda>t (i, v). ins t i v) t (x # xs) = Inr t'" using t' t1 by (simp add: x)
  ultimately show ?case using t'(2) by blast
qed (simp add: inv_empty)

lemma entries_distinct: "inv t \<Longrightarrow> distinct (map fst (entries t))"
  using entries_sorted strict_sorted_iff by blast

lemma get_entries: "inv t \<Longrightarrow> get t i = Some v \<longleftrightarrow> (i, v) \<in> set (entries t)"
  using entries_map entries_distinct map_of_eq_Some_iff by metis

text \<open>A saved list of entries rebuilds the index it was taken from.\<close>

lemma rebuild:
  assumes "inv t"
  shows "\<exists>t'. try_fold (\<lambda>t (i, v). ins t i v) empty (entries t) = Inr t' \<and> inv t' \<and> get t' = get t"
  using ins_list [OF inv_empty entries_distinct [OF assms]] by (simp add: get_empty entries_map assms)

end

locale id_index = id_lookup +
  fixes rem :: "'a \<Rightarrow> order_id \<Rightarrow> 'a \<times> 'b option"
  assumes rem_value: "inv t \<Longrightarrow> snd (rem t i) = get t i"
    and inv_rem: "inv t \<Longrightarrow> inv (fst (rem t i))"
    and get_rem: "inv t \<Longrightarrow> get (fst (rem t i)) = (get t)(i := None)"
begin

lemma ins_rem:
  assumes "inv t" "ins t i v = Inr t'"
  shows "snd (rem t' i) = Some v \<and> get (fst (rem t' i)) = get t"
proof -
  from assms have "get t i = None" using ins_iff by blast
  moreover have "inv t'" "get t' = (get t)(i \<mapsto> v)" using assms inv_ins get_ins by auto
  ultimately show ?thesis by (simp add: rem_value get_rem fun_upd_idem)
qed

end

interpretation idx: id_index idx_inv IEmpty idx_get idx_insert idx_entries idx_remove
proof unfold_locales
  show "idx_inv IEmpty" by simp
  show "idx_get IEmpty = Map.empty" by (simp add: fun_eq_iff)
  fix t :: "'v index" and i v t'
  assume inv: "idx_inv t"
  show "\<exists>t'. idx_insert t i v = Inr t'" if "idx_get t i = None"
    using that idx_insert_ok_iff [OF inv] by blast
  show "idx_insert t i v = Inl (DuplicateOrderId i)" if "idx_get t i \<noteq> None"
    using that idx_insert_ok_iff [OF inv, of i v] idx_insert_error [of t i v]
    by (cases "idx_insert t i v") auto
  show "idx_inv t'" if "idx_insert t i v = Inr t'" by (rule idx_insert_inv [OF inv that])
  show "idx_get t' = (idx_get t)(i \<mapsto> v)" if "idx_insert t i v = Inr t'"
    by (rule idx_get_insert [OF inv that])
  show "map_of (idx_entries t) = idx_get t"
    using idx_get_inorder [OF inv] by (simp add: fun_eq_iff idx_entries_inorder)
  show "sorted_wrt (<) (map fst (idx_entries t))"
    using inorder_sorted [OF inv] by (simp add: idx_entries_inorder)
  show "snd (idx_remove t i) = idx_get t i" using inorder_remove [OF inv] by simp
  show "idx_inv (fst (idx_remove t i))" by (rule idx_remove_inv [OF inv])
  show "idx_get (fst (idx_remove t i)) = (idx_get t)(i := None)" by (rule idx_get_remove [OF inv])
qed

subsection \<open>Filled orders and resting index (filled\_orders.rs, resting\_index.rs)\<close>

type_synonym filled_orders = "account_id index"

definition filled_owner :: "filled_orders \<Rightarrow> order_id \<Rightarrow> account_id option" where
  "filled_owner f oid = idx_get f oid"

definition filled_insert :: "filled_orders \<Rightarrow> order_id \<Rightarrow> account_id \<Rightarrow> order_error + filled_orders" where
  "filled_insert f oid owner = idx_insert f oid owner"

definition filled_entries :: "filled_orders \<Rightarrow> (order_id \<times> account_id) list" where
  "filled_entries f = idx_entries f"

datatype resting_key = BidKey money seq | AskKey money seq

type_synonym resting_index = "resting_key index"

definition resting_get :: "resting_index \<Rightarrow> order_id \<Rightarrow> resting_key option" where
  "resting_get t oid = idx_get t oid"

definition resting_insert :: "resting_index \<Rightarrow> order_id \<Rightarrow> resting_key \<Rightarrow> order_error + resting_index" where
  "resting_insert t oid key = idx_insert t oid key"

definition resting_remove :: "resting_index \<Rightarrow> order_id \<Rightarrow> resting_index \<times> resting_key option" where
  "resting_remove t oid = idx_remove t oid"

lemma wrapper_eqs:
  "filled_owner = idx_get" "filled_insert = idx_insert" "filled_entries = idx_entries"
  "resting_get = idx_get" "resting_insert = idx_insert" "resting_remove = idx_remove"
  by (simp_all add: fun_eq_iff filled_owner_def filled_insert_def filled_entries_def
      resting_get_def resting_insert_def resting_remove_def)

interpretation filled: id_lookup idx_inv IEmpty filled_owner filled_insert filled_entries
  unfolding wrapper_eqs by (rule idx.id_lookup_axioms)

interpretation resting: id_index idx_inv IEmpty resting_get resting_insert idx_entries resting_remove
  unfolding wrapper_eqs by (rule idx.id_index_axioms)

subsection \<open>The shape of the tree is canonical\<close>

text \<open>
  The priority is a bijective mix of the 64-bit id, so two ids never tie; a search tree that is
  also heap-ordered by it has then only one shape.
\<close>

lemma xorshift_inverse:
  fixes x :: "64 word"
  assumes "22 \<le> n"
  shows "(x XOR drop_bit n x) XOR drop_bit n (x XOR drop_bit n x)
    XOR drop_bit (2 * n) (x XOR drop_bit n x) = x"
  using assms by (intro bit_word_eqI) (auto simp: bit_simps mult_2 add.assoc dest: bit_imp_le_length)

lemma xorshift_inj:
  fixes x y :: "64 word"
  assumes "22 \<le> n" "x XOR drop_bit n x = y XOR drop_bit n y"
  shows "x = y"
  using xorshift_inverse [OF assms(1), of x] xorshift_inverse [OF assms(1), of y] assms(2) by metis

lemma mult_odd_inj:
  fixes x y c d :: "64 word"
  assumes "c * d = 1" "x * c = y * c"
  shows "x = y"
proof -
  have "x * (c * d) = y * (c * d)" using assms(2) by (metis mult.assoc)
  with assms(1) show ?thesis by simp
qed

lemma priority_inj:
  assumes "i < 2 ^ 64" "j < 2 ^ 64" "priority i = priority j"
  shows "i = j"
proof -
  let ?a = "0xBF58476D1CE4E5B9 :: 64 word" and ?b = "0x94D049BB133111EB :: 64 word"
  have inv: "?a * 0x96DE1B173F119089 = 1" "?b * 0x319642B2D24D8EC3 = 1" by simp_all
  have n: "22 \<le> (31::nat)" "22 \<le> (27::nat)" "22 \<le> (30::nat)" by simp_all
  note e1 = xorshift_inj [OF n(1) assms(3) [unfolded priority_def Let_def]]
  note e2 = xorshift_inj [OF n(2) mult_odd_inj [OF inv(2) e1]]
  note e3 = xorshift_inj [OF n(3) mult_odd_inj [OF inv(1) e2]]
  have "(word_of_nat i :: 64 word) = word_of_nat j" using e3 by simp
  then have "unat (word_of_nat i :: 64 word) = unat (word_of_nat j :: 64 word)" by (simp only:)
  then show ?thesis using assms(1,2) by (simp add: unat_of_nat take_bit_nat_eq_self)
qed

lemma root_ge_ids: "idx_inv t \<Longrightarrow> root_ge q t \<Longrightarrow> i \<in> idx_ids t \<Longrightarrow> q \<le> priority i"
proof (induction t arbitrary: q)
  case (INode k v p l r)
  from INode.prems have qp: "q \<le> p" "p = priority k" "root_ge p l" "root_ge p r" "idx_inv l" "idx_inv r"
    by auto
  then have "root_ge q l" "root_ge q r" by (auto intro: root_ge_trans)
  with INode qp show ?case by auto
qed simp

lemma idx_get_subtrees:
  assumes "idx_inv (INode k v p l r)"
  shows "idx_get l i = (if i < k then idx_get (INode k v p l r) i else None)"
    and "idx_get r i = (if k < i then idx_get (INode k v p l r) i else None)"
proof -
  have "\<not> i < k \<Longrightarrow> i \<notin> idx_ids l" "\<not> k < i \<Longrightarrow> i \<notin> idx_ids r" using assms by force+
  then show "idx_get l i = (if i < k then idx_get (INode k v p l r) i else None)"
    "idx_get r i = (if k < i then idx_get (INode k v p l r) i else None)"
    using assms by (auto simp: idx_get_outside)
qed

lemma index_unique:
  assumes "idx_inv s" "idx_inv t" "idx_get s = idx_get t" "\<forall>i\<in>idx_ids s. i < 2 ^ 64"
  shows "s = t"
  using assms
proof (induction s arbitrary: t)
  case IEmpty
  then have "idx_ids t = {}" using idx_get_dom [of t] by (simp add: fun_eq_iff dom_def)
  then show ?case by (cases t) auto
next
  case (INode k v p l r)
  have ids: "idx_ids t = idx_ids (INode k v p l r)"
    using INode.prems(1-3) idx_get_dom by metis
  then obtain k' v' p' l' r' where t: "t = INode k' v' p' l' r'" by (cases t) auto
  have p: "p = priority k" "p' = priority k'" using INode.prems(1,2) t by auto
  have "priority k \<le> priority k'"
    using root_ge_ids [OF INode.prems(1), of p k'] ids t p by auto
  moreover have "priority k' \<le> priority k"
    using root_ge_ids [OF INode.prems(2), of p' k] ids t p by auto
  ultimately have k: "k' = k" using priority_inj [of k' k] INode.prems(4) ids t by auto
  then have v: "v' = v" using fun_cong [OF INode.prems(3), of k] t by simp
  have sub: "idx_get l i = idx_get l' i \<and> idx_get r i = idx_get r' i" for i
  proof -
    note a = idx_get_subtrees [OF INode.prems(1), of i]
    note b = idx_get_subtrees [OF INode.prems(2) [unfolded t], of i, unfolded k]
    have g: "idx_get (INode k v p l r) i = idx_get (INode k v' p' l' r') i"
      using INode.prems(3) by (simp only: t k)
    show ?thesis by (simp only: a b g)
  qed
  then have sub': "idx_get l = idx_get l'" "idx_get r = idx_get r'" by (simp_all add: fun_eq_iff)
  have inv: "idx_inv l" "idx_inv r" "idx_inv l'" "idx_inv r'" using INode.prems(1,2) t by simp_all
  have small: "\<forall>i\<in>idx_ids l. i < 2 ^ 64" "\<forall>i\<in>idx_ids r. i < 2 ^ 64"
    using INode.prems(4) by simp_all
  have "l = l'" by (rule INode.IH(1) [OF inv(1,3) sub'(1) small(1)])
  moreover have "r = r'" by (rule INode.IH(2) [OF inv(2,4) sub'(2) small(2)])
  ultimately show ?case by (simp add: t k v p)
qed

subsection \<open>Properties\<close>

text \<open>
  C34 (The index is a finite map). Under the search-tree and heap invariant, inserting into the
  treap succeeds exactly when the id is absent, adds exactly that entry and keeps the invariant;
  a duplicate is rejected with the error naming it. Removing returns what was stored, deletes
  exactly that entry and keeps the invariant.
\<close>

theorem index_refines_map:
  assumes "idx_inv t"
  shows "(case idx_insert t i v of
        Inl e \<Rightarrow> e = DuplicateOrderId i \<and> idx_get t i \<noteq> None
      | Inr t' \<Rightarrow> idx_get t i = None \<and> idx_inv t' \<and> idx_get t' = (idx_get t)(i \<mapsto> v))
    \<and> (case idx_remove t i of (t', removed) \<Rightarrow>
        idx_inv t' \<and> removed = idx_get t i \<and> idx_get t' = (idx_get t)(i := None))"
  using idx.ins_iff [OF assms, of i v] idx.ins_dup [OF assms, of i v] idx.inv_ins [OF assms, of i v]
    idx.get_ins [OF assms, of i v] idx.rem_value [OF assms, of i] idx.inv_rem [OF assms, of i]
    idx.get_rem [OF assms, of i]
  by (cases "idx_insert t i v") (auto split: prod.split)

lemma index_refines_map_witness:
  "idx_insert (INode 7 (3::nat) (priority 7) IEmpty IEmpty) 7 4 = Inl (DuplicateOrderId 7)"
  using index_refines_map [of "INode 7 (3::nat) (priority 7) IEmpty IEmpty" 7 4] by simp

text \<open>
  Two identity indexes that hold the same entries for 64-bit ids
  are the same tree, whatever sequence of insertions and removals produced them; together with the
  rejection of duplicates this makes a snapshot of the index independent of history.
\<close>

theorem index_shape_canonical:
  assumes "idx_inv s" "idx_inv t" "\<forall>i\<in>idx_ids s. i < 2 ^ 64"
  shows "(idx_get s = idx_get t) = (s = t)"
  using index_unique [OF assms(1,2) _ assms(3)] by blast

lemma index_shape_canonical_witness:
  "(idx_get (INode 7 True (priority 7) IEmpty IEmpty) = idx_get IEmpty) = False"
  using index_shape_canonical [of "INode 7 True (priority 7) IEmpty IEmpty" IEmpty] by simp

text \<open>
  The list of filled orders that a book saves is in strictly
  increasing id order, and inserting it into an empty index succeeds and restores the owner of
  every filled order.
\<close>

theorem filled_orders_round_trip:
  assumes "idx_inv f"
  shows "sorted_wrt (<) (map fst (filled_entries f))
    \<and> (\<exists>g. try_fold (\<lambda>g (i, owner). filled_insert g i owner) IEmpty (filled_entries f) = Inr g
        \<and> filled_owner g = filled_owner f)"
  using filled.entries_sorted [OF assms] filled.rebuild [OF assms] by blast

lemma filled_orders_round_trip_witness:
  "\<exists>g. try_fold (\<lambda>g (i, owner). filled_insert g i owner) IEmpty
     (filled_entries (INode 7 3 (priority 7) IEmpty IEmpty)) = Inr g
     \<and> filled_owner g 7 = Some 3"
  using filled_orders_round_trip [of "INode 7 3 (priority 7) IEmpty IEmpty"]
  by (fastforce simp: wrapper_eqs)

end
