(* ===== verification/Book_State.thy ===== *)
theory Book_State
  imports Ordered_Map Persistent_Index
begin

section \<open>The owner of the two sides and the identity index (orderbook/book\_state.rs)\<close>

text \<open>
  \<open>BookState\<close> keeps the bids keyed by descending price and arrival, the asks keyed by ascending
  price and arrival, the index from order ids to keys, and the filled orders. The operations are
  modelled on all branches, with the state an early return leaves behind. The invariant
  \<open>book_ok\<close> ties the four parts together; every operation is shown to preserve it.
\<close>

type_synonym bid_map = "(money reverse \<times> seq, order) bt"
type_synonym ask_map = "(money \<times> seq, order) bt"

record book_state =
  bs_bids :: bid_map
  bs_asks :: ask_map
  bs_live :: resting_index
  bs_filled :: filled_orders

record order_change =
  oc_id :: order_id
  oc_before :: "order option"
  oc_after :: "order option"
  oc_filled_owner :: "account_id option"

definition empty_book_state :: book_state where
  "empty_book_state = \<lparr>bs_bids = [], bs_asks = [], bs_live = IEmpty, bs_filled = IEmpty\<rparr>"

definition bid_key :: "order \<Rightarrow> money reverse \<times> seq" where
  "bid_key o' = (Reverse (ord_price o'), ord_seq o')"

definition ask_key :: "order \<Rightarrow> money \<times> seq" where
  "ask_key o' = (ord_price o', ord_seq o')"

definition resting_order_by_id :: "book_state \<Rightarrow> order_id \<Rightarrow> order option" where
  "resting_order_by_id st oid =
    (case resting_get (bs_live st) oid of
      None \<Rightarrow> None
    | Some (BidKey p s) \<Rightarrow> map_of (bs_bids st) (Reverse p, s)
    | Some (AskKey p s) \<Rightarrow> map_of (bs_asks st) (p, s))"

text \<open>The argument is the \<open>BTreeMap\<close> of originals, in key order.\<close>

definition state_changes_since :: "book_state \<Rightarrow> (order_id, order option) bt \<Rightarrow> order_change list" where
  "state_changes_since st originals =
    List.map_filter (\<lambda>(oid, before).
      let after = resting_order_by_id st oid; owner = filled_owner (bs_filled st) oid in
      if before \<noteq> after \<or> owner \<noteq> None
      then Some \<lparr>oc_id = oid, oc_before = before, oc_after = after, oc_filled_owner = owner\<rparr>
      else None) originals"

definition insert_resting :: "order \<Rightarrow> book_state \<Rightarrow> (order_error + unit) \<times> book_state" where
  "insert_resting o' st =
    (if resting_get (bs_live st) (ord_id o') \<noteq> None \<or> filled_owner (bs_filled st) (ord_id o') \<noteq> None
     then (Inl (DuplicateOrderId (ord_id o')), st)
     else (case ord_side o' of
       Buy \<Rightarrow>
         (if map_of (bs_bids st) (bid_key o') \<noteq> None
          then (Inl (ProjectionMismatch BidKeyExists []), st)
          else let st1 = st\<lparr>bs_bids := bt_insert (bid_key o') o' (bs_bids st)\<rparr> in
            try_in (resting_insert (bs_live st1) (ord_id o') (BidKey (ord_price o') (ord_seq o'))) st1
              (\<lambda>live. (Inr (), st1\<lparr>bs_live := live\<rparr>)))
     | Sell \<Rightarrow>
         (if map_of (bs_asks st) (ask_key o') \<noteq> None
          then (Inl (ProjectionMismatch AskKeyExists []), st)
          else let st1 = st\<lparr>bs_asks := bt_insert (ask_key o') o' (bs_asks st)\<rparr> in
            try_in (resting_insert (bs_live st1) (ord_id o') (AskKey (ord_price o') (ord_seq o'))) st1
              (\<lambda>live. (Inr (), st1\<lparr>bs_live := live\<rparr>)))))"

definition cancel_order :: "order_id \<Rightarrow> book_state \<Rightarrow> (order_error + order) \<times> book_state" where
  "cancel_order oid st =
    (case resting_remove (bs_live st) oid of
      (live, Some key) \<Rightarrow>
        let st1 = st\<lparr>bs_live := live\<rparr> in
        (case key of
          BidKey p s \<Rightarrow>
            (ok_or (ProjectionMismatch AbsentLiveOrder [oid]) (map_of (bs_bids st) (Reverse p, s)),
             st1\<lparr>bs_bids := bt_remove (Reverse p, s) (bs_bids st)\<rparr>)
        | AskKey p s \<Rightarrow>
            (ok_or (ProjectionMismatch AbsentLiveOrder [oid]) (map_of (bs_asks st) (p, s)),
             st1\<lparr>bs_asks := bt_remove (p, s) (bs_asks st)\<rparr>))
    | (live, None) \<Rightarrow>
        if filled_owner (bs_filled st) oid \<noteq> None then (Inl (OrderAlreadyFilled oid), st\<lparr>bs_live := live\<rparr>)
        else (Inl (OrderNotFound oid), st\<lparr>bs_live := live\<rparr>))"

definition record_filled :: "order_id \<Rightarrow> account_id \<Rightarrow> book_state \<Rightarrow> (order_error + unit) \<times> book_state" where
  "record_filled oid owner st =
     try_in (filled_insert (bs_filled st) oid owner) st (\<lambda>f. (Inr (), st\<lparr>bs_filled := f\<rparr>))"

fun state_restore_filled :: "(order_id \<times> account_id) list \<Rightarrow> book_state \<Rightarrow> (order_error + unit) \<times> book_state" where
  "state_restore_filled [] st = (Inr (), st)"
| "state_restore_filled ((oid, owner) # es) st =
    (if resting_get (bs_live st) oid \<noteq> None then (Inl (DuplicateOrderId oid), st)
     else try_st (record_filled oid owner st) (\<lambda>_ st'. state_restore_filled es st'))"

text \<open>The write through \<open>get_mut\<close>: the quantity is reduced before the progress is checked.\<close>

definition fill_in_place :: "order \<Rightarrow> nat \<Rightarrow> money \<Rightarrow> (order_error + unit) \<times> order" where
  "fill_in_place m fill_qty value_after =
    (let m1 = m\<lparr>ord_qty := u32_sub (ord_qty m) fill_qty\<rparr> in
     try_in (filled_qty_after m1 fill_qty) m1
       (\<lambda>q. (Inr (), m1\<lparr>ord_filled_qty := q, ord_filled_value := value_after\<rparr>)))"

definition apply_maker_fill ::
    "side \<Rightarrow> order \<Rightarrow> nat \<Rightarrow> money \<Rightarrow> book_state \<Rightarrow> (order_error + unit) \<times> book_state" where
  "apply_maker_fill sd maker fill_qty value_after st =
    (case sd of
      Buy \<Rightarrow>
        if ord_qty maker = fill_qty then
          record_filled (ord_id maker) (ord_owner maker)
            (st\<lparr>bs_asks := tl (bs_asks st), bs_live := fst (resting_remove (bs_live st) (ord_id maker))\<rparr>)
        else (case map_of (bs_asks st) (ask_key maker) of
            None \<Rightarrow> (Inr (), st)
          | Some m \<Rightarrow> (case fill_in_place m fill_qty value_after of
              (r, m') \<Rightarrow> (r, st\<lparr>bs_asks := bt_update (ask_key maker) m' (bs_asks st)\<rparr>)))
    | Sell \<Rightarrow>
        if ord_qty maker = fill_qty then
          record_filled (ord_id maker) (ord_owner maker)
            (st\<lparr>bs_bids := tl (bs_bids st), bs_live := fst (resting_remove (bs_live st) (ord_id maker))\<rparr>)
        else (case map_of (bs_bids st) (bid_key maker) of
            None \<Rightarrow> (Inr (), st)
          | Some m \<Rightarrow> (case fill_in_place m fill_qty value_after of
              (r, m') \<Rightarrow> (r, st\<lparr>bs_bids := bt_update (bid_key maker) m' (bs_bids st)\<rparr>))))"

definition clear_resting :: "book_state \<Rightarrow> book_state" where
  "clear_resting st = st\<lparr>bs_bids := [], bs_asks := [], bs_live := IEmpty\<rparr>"

definition change_rejected :: "book_state \<Rightarrow> order_change \<Rightarrow> bool" where
  "change_rejected st c \<longleftrightarrow>
     resting_order_by_id st (oc_id c) \<noteq> oc_before c
     \<or> (oc_before c = None \<and> filled_owner (bs_filled st) (oc_id c) \<noteq> None)
     \<or> (\<exists>o'. oc_after c = Some o' \<and> ord_id o' \<noteq> oc_id c)
     \<or> (oc_after c \<noteq> None \<and> oc_filled_owner c \<noteq> None)"

fun apply_change_list :: "order_change list \<Rightarrow> book_state \<Rightarrow> (order_error + unit) \<times> book_state" where
  "apply_change_list [] st = (Inr (), st)"
| "apply_change_list (c # cs) st =
    try_st (if oc_before c \<noteq> None
        then (case cancel_order (oc_id c) st of (r, st1) \<Rightarrow> (map_sum id (\<lambda>_. ()) r, st1))
        else (Inr (), st)) (\<lambda>_ st1.
    try_st (case oc_after c of
        Some after \<Rightarrow> insert_resting after st1
      | None \<Rightarrow> (case oc_filled_owner c of
          Some owner \<Rightarrow> record_filled (oc_id c) owner st1
        | None \<Rightarrow> (Inr (), st1))) (\<lambda>_ st2.
    apply_change_list cs st2))"

definition state_apply_changes :: "order_change list \<Rightarrow> book_state \<Rightarrow> (order_error + unit) \<times> book_state" where
  "state_apply_changes changes st =
    (case find (change_rejected st) changes of
      Some c \<Rightarrow> (Inl (ProjectionMismatch CandidateDiffers [oc_id c]), st)
    | None \<Rightarrow> apply_change_list changes st)"

subsection \<open>The contract of one side\<close>

text \<open>
  Both sides are ordered maps from a key of price and arrival to an order. What the operations
  rely on is that the key is a function of the order that separates the orders of the side.
\<close>

locale price_time_side =
  fixes key :: "order \<Rightarrow> 'k::linorder"
    and sd :: side
  assumes key_iff: "key a = key b \<longleftrightarrow> ord_price a = ord_price b \<and> ord_seq a = ord_seq b"
    and key_less: "key a < key b \<longleftrightarrow>
      (case sd of Buy \<Rightarrow> ord_price b < ord_price a | Sell \<Rightarrow> ord_price a < ord_price b)
      \<or> ord_price a = ord_price b \<and> ord_seq a < ord_seq b"
begin

definition side_ok :: "('k, order) bt \<Rightarrow> bool" where
  "side_ok xs \<longleftrightarrow> bt_sorted xs \<and> (\<forall>(k, o')\<in>set xs. k = key o' \<and> ord_side o' = sd)"

lemma side_ok_sorted: "side_ok xs \<Longrightarrow> bt_sorted xs"
  by (simp add: side_ok_def)

lemma side_ok_Nil: "side_ok []"
  by (simp add: side_ok_def)

lemma side_ok_tl: "side_ok xs \<Longrightarrow> side_ok (tl xs)"
  by (cases xs) (auto simp: side_ok_def)

lemma side_get: "side_ok xs \<Longrightarrow> map_of xs k = Some o' \<longleftrightarrow> o' \<in> set (bt_values xs) \<and> key o' = k"
  by (force simp: side_ok_def bt_get_iff image_iff)

lemma side_get_key: "side_ok xs \<Longrightarrow> o' \<in> set (bt_values xs) \<Longrightarrow> map_of xs (key o') = Some o'"
  by (simp add: side_get)

lemma side_same_key:
  "side_ok xs \<Longrightarrow> a \<in> set (bt_values xs) \<Longrightarrow> b \<in> set (bt_values xs) \<Longrightarrow> key a = key b \<Longrightarrow> a = b"
  using side_get_key by (metis option.inject)

lemma side_mem: "side_ok xs \<Longrightarrow> o' \<in> set (bt_values xs) \<Longrightarrow> ord_side o' = sd"
  by (auto simp: side_ok_def)

lemma side_insert:
  assumes "side_ok xs" "ord_side o' = sd" "map_of xs (key o') = None"
  shows "side_ok (bt_insert (key o') o' xs)"
    and "set (bt_values (bt_insert (key o') o' xs)) = insert o' (set (bt_values xs))"
  using assms by (auto simp: side_ok_def set_bt_insert_new)

lemma side_remove:
  assumes "side_ok xs"
  shows "side_ok (bt_remove k xs)"
    and "set (bt_values (bt_remove k xs)) = {o' \<in> set (bt_values xs). key o' \<noteq> k}"
  using assms by (force simp: side_ok_def)+

lemma side_update:
  assumes "side_ok xs" "o' \<in> set (bt_values xs)" "key new = key o'" "ord_side new = sd"
  shows "side_ok (bt_update (key o') new xs)"
    and "set (bt_values (bt_update (key o') new xs)) = insert new (set (bt_values xs) - {o'})"
proof -
  have some: "map_of xs (key o') \<noteq> None" using side_get_key [OF assms(1,2)] by simp
  show "side_ok (bt_update (key o') new xs)"
    using assms set_bt_update [OF some, of new] by (auto simp: side_ok_def)
  have "snd ` {x \<in> set xs. fst x \<noteq> key o'} = set (bt_values xs) - {o'}"
    using assms(1) side_same_key [OF assms(1) _ assms(2)] by (force simp: side_ok_def)
  then show "set (bt_values (bt_update (key o') new xs)) = insert new (set (bt_values xs) - {o'})"
    using set_bt_update [OF some, of new] by auto
qed

lemma side_hd:
  assumes "side_ok ((k, m) # xs)"
  shows "k = key m" "ord_side m = sd" "m \<notin> set (bt_values xs)"
    "\<forall>o'\<in>set (bt_values xs). key m < key o'"
proof -
  show k: "k = key m" "ord_side m = sd" using assms by (auto simp: side_ok_def)
  show less: "\<forall>o'\<in>set (bt_values xs). key m < key o'"
  proof
    fix o' assume "o' \<in> set (bt_values xs)"
    then obtain l where "(l, o') \<in> set xs" by auto
    with assms have "k < l" "l = key o'" by (auto simp: side_ok_def)
    with k show "key m < key o'" by simp
  qed
  then show "m \<notin> set (bt_values xs)" by blast
qed

lemma side_pop:
  assumes "side_ok xs" "bt_first xs = Some (k, m)"
  shows "k = key m" "m \<in> set (bt_values xs)" "tl xs = bt_remove (key m) xs"
    "set (bt_values (tl xs)) = set (bt_values xs) - {m}"
proof -
  obtain ys where xs: "xs = (k, m) # ys" using assms(2) by (auto simp: bt_first_Some_iff)
  note hd = side_hd [OF assms(1) [unfolded xs]]
  show "k = key m" by (rule hd)
  then show "tl xs = bt_remove (key m) xs"
    using bt_remove_hd [of "(k, m)" ys] side_ok_sorted [OF assms(1)] by (simp add: xs)
  show "m \<in> set (bt_values xs)" "set (bt_values (tl xs)) = set (bt_values xs) - {m}"
    using hd(3) by (auto simp: xs)
qed

lemma side_update_hd:
  assumes "side_ok ((k, m) # xs)"
  shows "bt_update (key m) new ((k, m) # xs) = (k, new) # xs"
  using bt_update_hd [of "(k, m)" xs new] side_ok_sorted [OF assms] side_hd(1) [OF assms] by simp

text \<open>The first order of a side is its best by price and, within a price, the earliest.\<close>

lemma first_is_best:
  assumes "side_ok xs" "bt_first xs = Some (k, m)" "o' \<in> set (bt_values xs)"
  shows "(case sd of Buy \<Rightarrow> ord_price o' \<le> ord_price m | Sell \<Rightarrow> ord_price m \<le> ord_price o')
    \<and> (ord_price o' = ord_price m \<longrightarrow> ord_seq m \<le> ord_seq o')"
proof -
  obtain ys where xs: "xs = (k, m) # ys" using assms(2) by (auto simp: bt_first_Some_iff)
  consider "o' = m" | "o' \<in> set (bt_values ys)" using assms(3) by (auto simp: xs)
  then show ?thesis
  proof cases
    case 1
    then show ?thesis by (cases sd) simp_all
  next
    case 2
    with side_hd(4) [OF assms(1) [unfolded xs]] have "key m < key o'" by blast
    then show ?thesis unfolding key_less by (cases sd) auto
  qed
qed

end

interpretation bid_side: price_time_side bid_key Buy
  by unfold_locales (auto simp: bid_key_def)

interpretation ask_side: price_time_side ask_key Sell
  by unfold_locales (auto simp: ask_key_def)

subsection \<open>The invariant\<close>

definition book_orders :: "book_state \<Rightarrow> order set" where
  "book_orders st = set (bt_values (bs_bids st)) \<union> set (bt_values (bs_asks st))"

definition resting_key_of :: "order \<Rightarrow> resting_key" where
  "resting_key_of o' = (case ord_side o' of
     Buy \<Rightarrow> BidKey (ord_price o') (ord_seq o') | Sell \<Rightarrow> AskKey (ord_price o') (ord_seq o'))"

definition index_agrees :: "resting_index \<Rightarrow> order set \<Rightarrow> bool" where
  "index_agrees live os \<longleftrightarrow>
     (\<forall>i k. resting_get live i = Some k \<longleftrightarrow> (\<exists>o'\<in>os. ord_id o' = i \<and> resting_key_of o' = k))"

definition book_ok :: "book_state \<Rightarrow> bool" where
  "book_ok st \<longleftrightarrow> bid_side.side_ok (bs_bids st) \<and> ask_side.side_ok (bs_asks st)
     \<and> idx_inv (bs_live st) \<and> idx_inv (bs_filled st)
     \<and> index_agrees (bs_live st) (book_orders st)
     \<and> (\<forall>o'\<in>book_orders st. filled_owner (bs_filled st) (ord_id o') = None)"

lemma book_okD:
  assumes "book_ok st"
  shows "bid_side.side_ok (bs_bids st)" "ask_side.side_ok (bs_asks st)"
    "idx_inv (bs_live st)" "idx_inv (bs_filled st)" "index_agrees (bs_live st) (book_orders st)"
    "\<And>o'. o' \<in> book_orders st \<Longrightarrow> filled_owner (bs_filled st) (ord_id o') = None"
  using assms by (auto simp: book_ok_def)

lemma book_ok_empty: "book_ok empty_book_state"
  by (simp add: book_ok_def empty_book_state_def bid_side.side_ok_Nil ask_side.side_ok_Nil
      index_agrees_def book_orders_def wrapper_eqs)

lemma bid_mem: "book_ok st \<Longrightarrow> o' \<in> set (bt_values (bs_bids st)) \<longleftrightarrow> o' \<in> book_orders st \<and> ord_side o' = Buy"
  using bid_side.side_mem [OF book_okD(1)] ask_side.side_mem [OF book_okD(2)]
  by (fastforce simp: book_orders_def simp del: set_map)

lemma ask_mem: "book_ok st \<Longrightarrow> o' \<in> set (bt_values (bs_asks st)) \<longleftrightarrow> o' \<in> book_orders st \<and> ord_side o' = Sell"
  using bid_side.side_mem [OF book_okD(1)] ask_side.side_mem [OF book_okD(2)]
  by (fastforce simp: book_orders_def simp del: set_map)

lemma same_key_same_order:
  assumes ok: "book_ok st" and a: "a \<in> book_orders st" and b: "b \<in> book_orders st"
    and k: "resting_key_of a = resting_key_of b"
  shows "a = b"
proof (cases "ord_side a")
  case Buy
  with k have "ord_side b = Buy" "bid_key a = bid_key b"
    by (auto simp: resting_key_of_def bid_key_def split: side.splits)
  with Buy a b bid_side.side_same_key [OF book_okD(1) [OF ok]] bid_mem [OF ok] show ?thesis by blast
next
  case Sell
  with k have "ord_side b = Sell" "ask_key a = ask_key b"
    by (auto simp: resting_key_of_def ask_key_def split: side.splits)
  with Sell a b ask_side.side_same_key [OF book_okD(2) [OF ok]] ask_mem [OF ok] show ?thesis by blast
qed

lemma live_get: "book_ok st \<Longrightarrow> o' \<in> book_orders st \<Longrightarrow> resting_get (bs_live st) (ord_id o') = Some (resting_key_of o')"
  using book_okD(5) [of st] by (auto simp: index_agrees_def)

lemma live_get_None: "book_ok st \<Longrightarrow> resting_get (bs_live st) i = None \<longleftrightarrow> (\<forall>o'\<in>book_orders st. ord_id o' \<noteq> i)"
proof -
  assume "book_ok st"
  then have "index_agrees (bs_live st) (book_orders st)" by (rule book_okD)
  then show ?thesis unfolding index_agrees_def by (metis not_None_eq)
qed

lemma same_id_same_order:
  assumes "book_ok st" "a \<in> book_orders st" "b \<in> book_orders st" "ord_id a = ord_id b"
  shows "a = b"
  using live_get [OF assms(1,2)] live_get [OF assms(1,3)] assms same_key_same_order by simp

lemma lookup_key:
  assumes ok: "book_ok st" and o: "o' \<in> book_orders st"
  shows "(case resting_key_of o' of BidKey p s \<Rightarrow> map_of (bs_bids st) (Reverse p, s)
      | AskKey p s \<Rightarrow> map_of (bs_asks st) (p, s)) = Some o'"
proof (cases "ord_side o'")
  case Buy
  with o have "o' \<in> set (bt_values (bs_bids st))" using bid_mem [OF ok] by blast
  from bid_side.side_get_key [OF book_okD(1) [OF ok] this] Buy show ?thesis
    by (simp add: resting_key_of_def bid_key_def)
next
  case Sell
  with o have "o' \<in> set (bt_values (bs_asks st))" using ask_mem [OF ok] by blast
  from ask_side.side_get_key [OF book_okD(2) [OF ok] this] Sell show ?thesis
    by (simp add: resting_key_of_def ask_key_def)
qed

lemma resting_order_by_id_Some:
  assumes ok: "book_ok st"
  shows "resting_order_by_id st i = Some o' \<longleftrightarrow> o' \<in> book_orders st \<and> ord_id o' = i"
proof
  assume r: "o' \<in> book_orders st \<and> ord_id o' = i"
  with live_get [OF ok] lookup_key [OF ok] show "resting_order_by_id st i = Some o'"
    by (auto simp: resting_order_by_id_def)
next
  assume l: "resting_order_by_id st i = Some o'"
  then obtain k where "resting_get (bs_live st) i = Some k"
    by (auto simp: resting_order_by_id_def split: option.splits)
  then obtain p where p: "p \<in> book_orders st" "ord_id p = i"
    using book_okD(5) [OF ok] by (auto simp: index_agrees_def)
  with live_get [OF ok] lookup_key [OF ok] have "resting_order_by_id st i = Some p"
    by (auto simp: resting_order_by_id_def)
  with l p show "o' \<in> book_orders st \<and> ord_id o' = i" by simp
qed

lemma resting_order_by_id_None:
  "book_ok st \<Longrightarrow> resting_order_by_id st i = None \<longleftrightarrow> (\<forall>o'\<in>book_orders st. ord_id o' \<noteq> i)"
  using resting_order_by_id_Some by (metis not_None_eq)

subsection \<open>Inserting and cancelling\<close>

definition key_free :: "order \<Rightarrow> book_state \<Rightarrow> bool" where
  "key_free o' st \<longleftrightarrow> (\<forall>p\<in>book_orders st. resting_key_of p \<noteq> resting_key_of o')"

definition id_free :: "order_id \<Rightarrow> book_state \<Rightarrow> bool" where
  "id_free i st \<longleftrightarrow> (\<forall>p\<in>book_orders st. ord_id p \<noteq> i) \<and> filled_owner (bs_filled st) i = None"

lemma index_agrees_insert:
  assumes "index_agrees live os" "idx_inv live" "\<forall>p\<in>os. ord_id p \<noteq> ord_id o'"
    "resting_insert live (ord_id o') (resting_key_of o') = Inr live'"
  shows "index_agrees live' (insert o' os)"
  using assms resting.get_ins [OF assms(2,4)] by (auto simp: index_agrees_def)

lemma index_agrees_remove:
  assumes "index_agrees live os" "idx_inv live" "inj_on ord_id os" "o' \<in> os"
  shows "index_agrees (fst (resting_remove live (ord_id o'))) (os - {o'})"
  using assms by (auto simp: index_agrees_def resting.get_rem [OF assms(2)] inj_on_def split: if_splits)

lemma inj_ids: "book_ok st \<Longrightarrow> inj_on ord_id (book_orders st)"
  using same_id_same_order by (auto simp: inj_on_def)

lemma key_free_bid:
  "book_ok st \<Longrightarrow> ord_side o' = Buy \<Longrightarrow> map_of (bs_bids st) (bid_key o') = None \<longleftrightarrow> key_free o' st"
proof -
  assume ok: "book_ok st" and s: "ord_side o' = Buy"
  have "map_of (bs_bids st) (bid_key o') = None \<longleftrightarrow>
    (\<forall>p\<in>set (bt_values (bs_bids st)). bid_key p \<noteq> bid_key o')"
    using bid_side.side_get [OF book_okD(1) [OF ok], of "bid_key o'"] by (metis not_None_eq)
  also have "\<dots> \<longleftrightarrow> key_free o' st" using s
    by (auto simp: key_free_def bid_mem [OF ok] resting_key_of_def bid_key_def split: side.splits
        simp del: set_map)
  finally show ?thesis .
qed

lemma key_free_ask:
  "book_ok st \<Longrightarrow> ord_side o' = Sell \<Longrightarrow> map_of (bs_asks st) (ask_key o') = None \<longleftrightarrow> key_free o' st"
proof -
  assume ok: "book_ok st" and s: "ord_side o' = Sell"
  have "map_of (bs_asks st) (ask_key o') = None \<longleftrightarrow>
    (\<forall>p\<in>set (bt_values (bs_asks st)). ask_key p \<noteq> ask_key o')"
    using ask_side.side_get [OF book_okD(2) [OF ok], of "ask_key o'"] by (metis not_None_eq)
  also have "\<dots> \<longleftrightarrow> key_free o' st" using s
    by (auto simp: key_free_def ask_mem [OF ok] resting_key_of_def ask_key_def split: side.splits
        simp del: set_map)
  finally show ?thesis .
qed

lemma id_free_iff:
  "book_ok st \<Longrightarrow> id_free i st \<longleftrightarrow> resting_get (bs_live st) i = None \<and> filled_owner (bs_filled st) i = None"
  by (simp add: id_free_def live_get_None)

text \<open>What the state becomes when an order is added under a free id and a free key.\<close>

definition added :: "order \<Rightarrow> book_state \<Rightarrow> book_state \<Rightarrow> bool" where
  "added o' st st' \<longleftrightarrow> book_ok st' \<and> book_orders st' = insert o' (book_orders st)
     \<and> bs_filled st' = bs_filled st
     \<and> bs_bids st' = (if ord_side o' = Buy then bt_insert (bid_key o') o' (bs_bids st) else bs_bids st)
     \<and> bs_asks st' = (if ord_side o' = Sell then bt_insert (ask_key o') o' (bs_asks st) else bs_asks st)"

lemma insert_resting_ok:
  assumes ok: "book_ok st" and i: "id_free (ord_id o') st" and k: "key_free o' st"
  shows "\<exists>st'. insert_resting o' st = (Inr (), st') \<and> added o' st st'"
proof -
  note inv = book_okD [OF ok]
  have free: "resting_get (bs_live st) (ord_id o') = None" "filled_owner (bs_filled st) (ord_id o') = None"
    using i id_free_iff [OF ok] by auto
  obtain live where live: "resting_insert (bs_live st) (ord_id o') (resting_key_of o') = Inr live"
    using resting.ins_ok [OF inv(3) free(1)] by blast
  have ag: "index_agrees live (insert o' (book_orders st))"
    using index_agrees_insert [OF inv(5,3) _ live] i by (simp add: id_free_def)
  have li: "idx_inv live" by (rule resting.inv_ins [OF inv(3) live])
  show ?thesis
  proof (cases "ord_side o'")
    case Buy
    with key_free_bid [OF ok] k have kf: "map_of (bs_bids st) (bid_key o') = None" by simp
    define st' where "st' = st\<lparr>bs_bids := bt_insert (bid_key o') o' (bs_bids st), bs_live := live\<rparr>"
    have os: "book_orders st' = insert o' (book_orders st)"
      using bid_side.side_insert(2) [OF inv(1) Buy kf] by (auto simp: book_orders_def st'_def simp del: set_map)
    have "book_ok st'"
      unfolding book_ok_def os using bid_side.side_insert(1) [OF inv(1) Buy kf] inv ag li free
      by (auto simp: st'_def)
    moreover have "insert_resting o' st = (Inr (), st')"
      using live Buy kf free by (simp add: insert_resting_def resting_key_of_def st'_def Let_def)
    ultimately show ?thesis using os Buy by (auto simp: added_def st'_def)
  next
    case Sell
    with key_free_ask [OF ok] k have kf: "map_of (bs_asks st) (ask_key o') = None" by simp
    define st' where "st' = st\<lparr>bs_asks := bt_insert (ask_key o') o' (bs_asks st), bs_live := live\<rparr>"
    have os: "book_orders st' = insert o' (book_orders st)"
      using ask_side.side_insert(2) [OF inv(2) Sell kf] by (auto simp: book_orders_def st'_def simp del: set_map)
    have "book_ok st'"
      unfolding book_ok_def os using ask_side.side_insert(1) [OF inv(2) Sell kf] inv ag li free
      by (auto simp: st'_def)
    moreover have "insert_resting o' st = (Inr (), st')"
      using live Sell kf free by (simp add: insert_resting_def resting_key_of_def st'_def Let_def)
    ultimately show ?thesis using os Sell by (auto simp: added_def st'_def)
  qed
qed

lemma insert_resting_rejects:
  assumes ok: "book_ok st" and r: "\<not> (id_free (ord_id o') st \<and> key_free o' st)"
  shows "\<exists>e. insert_resting o' st = (Inl e, st)"
proof (cases "id_free (ord_id o') st")
  case True
  with r have k: "\<not> key_free o' st" by simp
  show ?thesis
  proof (cases "ord_side o'")
    case Buy
    with key_free_bid [OF ok] k True id_free_iff [OF ok] show ?thesis by (simp add: insert_resting_def)
  next
    case Sell
    with key_free_ask [OF ok] k True id_free_iff [OF ok] show ?thesis by (simp add: insert_resting_def)
  qed
next
  case False
  with id_free_iff [OF ok] show ?thesis by (auto simp: insert_resting_def)
qed

lemma insert_resting_result:
  assumes "book_ok st"
  shows "(\<exists>st'. insert_resting o' st = (Inr (), st') \<and> added o' st st'
      \<and> id_free (ord_id o') st \<and> key_free o' st)
    \<or> (\<exists>e. insert_resting o' st = (Inl e, st) \<and> \<not> (id_free (ord_id o') st \<and> key_free o' st))"
  using insert_resting_ok [OF assms] insert_resting_rejects [OF assms] by blast

definition removed :: "order \<Rightarrow> book_state \<Rightarrow> book_state \<Rightarrow> bool" where
  "removed o' st st' \<longleftrightarrow> book_ok st' \<and> book_orders st' = book_orders st - {o'}
     \<and> bs_filled st' = bs_filled st
     \<and> bs_bids st' = (if ord_side o' = Buy then bt_remove (bid_key o') (bs_bids st) else bs_bids st)
     \<and> bs_asks st' = (if ord_side o' = Sell then bt_remove (ask_key o') (bs_asks st) else bs_asks st)"

lemma book_orders_remove:
  assumes ok: "book_ok st" and o: "o' \<in> book_orders st"
    and b: "bs_bids st' = (if ord_side o' = Buy then bt_remove (bid_key o') (bs_bids st) else bs_bids st)"
    and a: "bs_asks st' = (if ord_side o' = Sell then bt_remove (ask_key o') (bs_asks st) else bs_asks st)"
  shows "book_orders st' = book_orders st - {o'}"
    and "bid_side.side_ok (bs_bids st')" "ask_side.side_ok (bs_asks st')"
proof -
  note inv = book_okD [OF ok]
  have bids: "set (bt_values (bs_bids st')) = set (bt_values (bs_bids st)) - {o'}"
  proof (cases "ord_side o'")
    case Buy
    with o have m: "o' \<in> set (bt_values (bs_bids st))" using bid_mem [OF ok] by blast
    have "{p \<in> set (bt_values (bs_bids st)). bid_key p \<noteq> bid_key o'} = set (bt_values (bs_bids st)) - {o'}"
      using bid_side.side_same_key [OF inv(1) _ m] by blast
    with Buy b bid_side.side_remove(2) [OF inv(1)] show ?thesis by simp
  next
    case Sell
    then have "o' \<notin> set (bt_values (bs_bids st))" using bid_mem [OF ok] by simp
    with b Sell show ?thesis by simp
  qed
  have asks: "set (bt_values (bs_asks st')) = set (bt_values (bs_asks st)) - {o'}"
  proof (cases "ord_side o'")
    case Sell
    with o have m: "o' \<in> set (bt_values (bs_asks st))" using ask_mem [OF ok] by blast
    have "{p \<in> set (bt_values (bs_asks st)). ask_key p \<noteq> ask_key o'} = set (bt_values (bs_asks st)) - {o'}"
      using ask_side.side_same_key [OF inv(2) _ m] by blast
    with Sell a ask_side.side_remove(2) [OF inv(2)] show ?thesis by simp
  next
    case Buy
    then have "o' \<notin> set (bt_values (bs_asks st))" using ask_mem [OF ok] by simp
    with a Buy show ?thesis by simp
  qed
  show "book_orders st' = book_orders st - {o'}" unfolding book_orders_def bids asks by blast
  show "bid_side.side_ok (bs_bids st')" "ask_side.side_ok (bs_asks st')"
    using a b inv(1,2) bid_side.side_remove(1) ask_side.side_remove(1) by simp_all
qed

lemma removedI:
  assumes ok: "book_ok st" and o: "o' \<in> book_orders st"
    and live: "bs_live st' = fst (resting_remove (bs_live st) (ord_id o'))"
    and filled: "bs_filled st' = bs_filled st"
    and b: "bs_bids st' = (if ord_side o' = Buy then bt_remove (bid_key o') (bs_bids st) else bs_bids st)"
    and a: "bs_asks st' = (if ord_side o' = Sell then bt_remove (ask_key o') (bs_asks st) else bs_asks st)"
  shows "removed o' st st'"
proof -
  note inv = book_okD [OF ok]
  note os = book_orders_remove [OF ok o b a]
  have "index_agrees (bs_live st') (book_orders st - {o'})"
    unfolding live by (rule index_agrees_remove [OF inv(5,3) inj_ids [OF ok] o])
  moreover have "idx_inv (bs_live st')" unfolding live by (rule resting.inv_rem [OF inv(3)])
  ultimately have "book_ok st'"
    unfolding book_ok_def os(1) using os(2,3) inv(4,6) filled by auto
  with os(1) a b filled show ?thesis by (simp add: removed_def)
qed

lemma cancel_live:
  assumes ok: "book_ok st" and o: "o' \<in> book_orders st"
  shows "\<exists>st'. cancel_order (ord_id o') st = (Inr o', st') \<and> removed o' st st'"
proof -
  define live where "live = fst (resting_remove (bs_live st) (ord_id o'))"
  have rem: "resting_remove (bs_live st) (ord_id o') = (live, Some (resting_key_of o'))"
    using resting.rem_value [OF book_okD(3) [OF ok]] live_get [OF ok o]
    by (metis live_def prod.collapse)
  show ?thesis
  proof (cases "ord_side o'")
    case Buy
    define st' where "st' = st\<lparr>bs_live := live, bs_bids := bt_remove (bid_key o') (bs_bids st)\<rparr>"
    have "cancel_order (ord_id o') st = (Inr o', st')"
      using rem lookup_key [OF ok o] Buy
      by (simp add: cancel_order_def resting_key_of_def bid_key_def st'_def)
    moreover have "removed o' st st'" by (rule removedI [OF ok o]) (simp_all add: st'_def live_def Buy)
    ultimately show ?thesis by blast
  next
    case Sell
    define st' where "st' = st\<lparr>bs_live := live, bs_asks := bt_remove (ask_key o') (bs_asks st)\<rparr>"
    have "cancel_order (ord_id o') st = (Inr o', st')"
      using rem lookup_key [OF ok o] Sell
      by (simp add: cancel_order_def resting_key_of_def ask_key_def st'_def)
    moreover have "removed o' st st'" by (rule removedI [OF ok o]) (simp_all add: st'_def live_def Sell)
    ultimately show ?thesis by blast
  qed
qed

lemma cancel_absent:
  assumes ok: "book_ok st" and o: "\<forall>o'\<in>book_orders st. ord_id o' \<noteq> i"
  shows "cancel_order i st = (Inl (if filled_owner (bs_filled st) i \<noteq> None then OrderAlreadyFilled i
      else OrderNotFound i), st)"
proof -
  have none: "resting_get (bs_live st) i = None" using live_get_None [OF ok] o by simp
  then have s: "snd (resting_remove (bs_live st) i) = None"
    using resting.rem_value [OF book_okD(3) [OF ok]] by simp
  then have "fst (resting_remove (bs_live st) i) = bs_live st"
    by (simp add: wrapper_eqs idx_remove_absent)
  with s have "resting_remove (bs_live st) i = (bs_live st, None)" by (metis prod.collapse)
  then show ?thesis by (simp add: cancel_order_def)
qed

subsection \<open>Fills\<close>

fun flip :: "side \<Rightarrow> side" where
  "flip Buy = Sell"
| "flip Sell = Buy"

text \<open>The orders an incoming order of a side meets, best first.\<close>

definition queue :: "side \<Rightarrow> book_state \<Rightarrow> order list" where
  "queue sd st = (case sd of Buy \<Rightarrow> bt_values (bs_asks st) | Sell \<Rightarrow> bt_values (bs_bids st))"

definition filled_by :: "nat \<Rightarrow> money \<Rightarrow> order \<Rightarrow> order" where
  "filled_by q v m = m\<lparr>ord_qty := ord_qty m - q, ord_filled_qty := ord_filled_qty m + q,
     ord_filled_value := v\<rparr>"

lemma filled_by_fields [simp]:
  "ord_id (filled_by q v m) = ord_id m" "ord_side (filled_by q v m) = ord_side m"
  "ord_price (filled_by q v m) = ord_price m" "ord_seq (filled_by q v m) = ord_seq m"
  "ord_owner (filled_by q v m) = ord_owner m" "ord_qty (filled_by q v m) = ord_qty m - q"
  "ord_filled_qty (filled_by q v m) = ord_filled_qty m + q"
  "ord_filled_value (filled_by q v m) = v"
  "ord_original_qty (filled_by q v m) = ord_original_qty m"
  "bid_key (filled_by q v m) = bid_key m" "ask_key (filled_by q v m) = ask_key m"
  "resting_key_of (filled_by q v m) = resting_key_of m"
  by (simp_all add: filled_by_def bid_key_def ask_key_def resting_key_of_def split: side.split)

lemma queue_mem: "book_ok st \<Longrightarrow> o' \<in> set (queue sd st) \<longleftrightarrow> o' \<in> book_orders st \<and> ord_side o' = flip sd"
  using bid_mem ask_mem by (cases sd) (auto simp: queue_def simp del: set_map)

lemma queue_union: "book_orders st = set (queue Buy st) \<union> set (queue Sell st)"
  by (auto simp: book_orders_def queue_def)

lemma queue_hd_map:
  assumes ok: "book_ok st" and q: "queue sd st = m # rest"
  shows "case sd of
      Buy \<Rightarrow> bs_asks st = (ask_key m, m) # tl (bs_asks st) \<and> bt_values (tl (bs_asks st)) = rest
    | Sell \<Rightarrow> bs_bids st = (bid_key m, m) # tl (bs_bids st) \<and> bt_values (tl (bs_bids st)) = rest"
proof (cases sd)
  case Buy
  with q obtain k ys where "bs_asks st = (k, m) # ys" "bt_values ys = rest"
    by (auto simp: queue_def)
  with ask_side.side_hd(1) [of k m ys] book_okD(2) [OF ok] Buy show ?thesis by simp
next
  case Sell
  with q obtain k ys where "bs_bids st = (k, m) # ys" "bt_values ys = rest"
    by (auto simp: queue_def)
  with bid_side.side_hd(1) [of k m ys] book_okD(1) [OF ok] Sell show ?thesis by simp
qed

lemma record_filled_ok:
  assumes ok: "book_ok st" and i: "id_free i st"
  shows "\<exists>f. record_filled i owner st = (Inr (), st\<lparr>bs_filled := f\<rparr>)
    \<and> filled_owner f = (filled_owner (bs_filled st))(i \<mapsto> owner) \<and> book_ok (st\<lparr>bs_filled := f\<rparr>)"
proof -
  note inv = book_okD [OF ok]
  obtain f where f: "filled_insert (bs_filled st) i owner = Inr f"
    using filled.ins_ok [OF inv(4), of i owner] i by (auto simp: id_free_def)
  have g: "filled_owner f = (filled_owner (bs_filled st))(i \<mapsto> owner)" "idx_inv f"
    using filled.get_ins [OF inv(4) f] filled.inv_ins [OF inv(4) f] by auto
  have "book_ok (st\<lparr>bs_filled := f\<rparr>)"
    using ok i g by (auto simp: book_ok_def book_orders_def id_free_def)
  with f g show ?thesis by (intro exI [of _ f]) (simp add: record_filled_def)
qed

lemma record_filled_rejects:
  assumes ok: "book_ok st" and i: "filled_owner (bs_filled st) i \<noteq> None"
  shows "record_filled i owner st = (Inl (DuplicateOrderId i), st)"
  using filled.ins_dup [OF book_okD(4) [OF ok] i] by (simp add: record_filled_def)

text \<open>A maker that is filled completely leaves its side and becomes a filled identity.\<close>

definition popped :: "side \<Rightarrow> order \<Rightarrow> book_state \<Rightarrow> book_state \<Rightarrow> bool" where
  "popped sd m st st' \<longleftrightarrow> book_ok st' \<and> book_orders st' = book_orders st - {m}
     \<and> queue sd st' = tl (queue sd st) \<and> queue (flip sd) st' = queue (flip sd) st
     \<and> filled_owner (bs_filled st') = (filled_owner (bs_filled st))(ord_id m \<mapsto> ord_owner m)"

lemma maker_fill_full:
  assumes ok: "book_ok st" and q: "queue sd st = m # rest"
  shows "\<exists>st'. apply_maker_fill sd m (ord_qty m) v st = (Inr (), st') \<and> popped sd m st st'"
proof -
  have mem: "m \<in> book_orders st" and s: "ord_side m = flip sd"
    using queue_mem [OF ok, of m sd] q by auto
  define st1 where "st1 = (case sd of
      Buy \<Rightarrow> st\<lparr>bs_asks := tl (bs_asks st), bs_live := fst (resting_remove (bs_live st) (ord_id m))\<rparr>
    | Sell \<Rightarrow> st\<lparr>bs_bids := tl (bs_bids st), bs_live := fst (resting_remove (bs_live st) (ord_id m))\<rparr>)"
  have "removed m st st1"
  proof (cases sd)
    case Buy
    with queue_hd_map [OF ok q] obtain ys where "bs_asks st = (ask_key m, m) # ys" by auto
    then have "bt_first (bs_asks st) = Some (ask_key m, m)" by simp
    then have tl: "tl (bs_asks st) = bt_remove (ask_key m) (bs_asks st)"
      by (rule ask_side.side_pop(3) [OF book_okD(2) [OF ok]])
    show ?thesis by (rule removedI [OF ok mem]) (simp_all add: st1_def Buy s tl)
  next
    case Sell
    with queue_hd_map [OF ok q] obtain ys where "bs_bids st = (bid_key m, m) # ys" by auto
    then have "bt_first (bs_bids st) = Some (bid_key m, m)" by simp
    then have tl: "tl (bs_bids st) = bt_remove (bid_key m) (bs_bids st)"
      by (rule bid_side.side_pop(3) [OF book_okD(1) [OF ok]])
    show ?thesis by (rule removedI [OF ok mem]) (simp_all add: st1_def Sell s tl)
  qed
  then have ok1: "book_ok st1" and os: "book_orders st1 = book_orders st - {m}"
    and fl: "bs_filled st1 = bs_filled st" by (auto simp: removed_def)
  have "id_free (ord_id m) st1"
    using same_id_same_order [OF ok _ mem] book_okD(6) [OF ok mem] by (auto simp: id_free_def os fl)
  from record_filled_ok [OF ok1 this] obtain f where
    f: "record_filled (ord_id m) (ord_owner m) st1 = (Inr (), st1\<lparr>bs_filled := f\<rparr>)"
    "filled_owner f = (filled_owner (bs_filled st1))(ord_id m \<mapsto> ord_owner m)"
    "book_ok (st1\<lparr>bs_filled := f\<rparr>)" by blast
  have "apply_maker_fill sd m (ord_qty m) v st = (Inr (), st1\<lparr>bs_filled := f\<rparr>)"
    using f(1) by (cases sd) (simp_all add: apply_maker_fill_def st1_def)
  moreover have "queue sd st1 = tl (queue sd st)" "queue (flip sd) st1 = queue (flip sd) st"
    by (cases sd; simp add: queue_def st1_def map_tl)+
  ultimately show ?thesis using f os fl
    by (auto simp: popped_def book_orders_def queue_def split: side.splits)
qed

text \<open>A maker that is filled in part keeps its key and with it its place.\<close>

definition shrunk :: "side \<Rightarrow> order \<Rightarrow> order \<Rightarrow> book_state \<Rightarrow> book_state \<Rightarrow> bool" where
  "shrunk sd m m' st st' \<longleftrightarrow> book_ok st' \<and> book_orders st' = insert m' (book_orders st - {m})
     \<and> queue sd st' = m' # tl (queue sd st) \<and> queue (flip sd) st' = queue (flip sd) st
     \<and> bs_filled st' = bs_filled st"

lemma index_agrees_replace:
  assumes "index_agrees live os" "m \<in> os" "ord_id m' = ord_id m" "resting_key_of m' = resting_key_of m"
  shows "index_agrees live (insert m' (os - {m}))"
  using assms unfolding index_agrees_def by (metis Diff_iff insert_iff singletonD)

lemma maker_fill_part:
  assumes ok: "book_ok st" and q: "queue sd st = m # rest" and p: "in_progress m" and n: "n < ord_qty m"
  shows "\<exists>st'. apply_maker_fill sd m n v st = (Inr (), st') \<and> shrunk sd m (filled_by n v m) st st'"
proof -
  note inv = book_okD [OF ok]
  have mem: "m \<in> book_orders st" and s: "ord_side m = flip sd"
    using queue_mem [OF ok, of m sd] q by auto
  have fill: "fill_in_place m n v = (Inr (), filled_by n v m)"
    using p n by (simp add: fill_in_place_def Let_def filled_qty_after_def checked_u32_def in_progress_def
        filled_by_def)
  have ag: "index_agrees (bs_live st) (insert (filled_by n v m) (book_orders st - {m}))"
    by (rule index_agrees_replace [OF inv(5) mem]) simp_all
  have ok': "book_ok st'" if "book_orders st' = insert (filled_by n v m) (book_orders st - {m})"
    "bs_live st' = bs_live st" "bs_filled st' = bs_filled st"
    "bid_side.side_ok (bs_bids st')" "ask_side.side_ok (bs_asks st')" for st'
    unfolding book_ok_def that using that(4,5) inv(3,4,6) ag mem by auto
  show ?thesis
  proof (cases sd)
    case Buy
    define st' where "st' = st\<lparr>bs_asks := bt_update (ask_key m) (filled_by n v m) (bs_asks st)\<rparr>"
    have m: "m \<in> set (bt_values (bs_asks st))" using ask_mem [OF ok] mem s Buy by simp
    have get: "map_of (bs_asks st) (ask_key m) = Some m" by (rule ask_side.side_get_key [OF inv(2) m])
    note up = ask_side.side_update [OF inv(2) m, of "filled_by n v m", simplified, OF s [unfolded Buy, simplified]]
    have nb: "m \<notin> set (bt_values (bs_bids st))" using bid_mem [OF ok] s Buy by simp
    have os: "book_orders st' = insert (filled_by n v m) (book_orders st - {m})"
      using up(2) nb by (auto simp: book_orders_def st'_def)
    have "book_ok st'" by (rule ok' [OF os]) (use up(1) inv(1) in \<open>simp_all add: st'_def\<close>)
    moreover from queue_hd_map [OF ok q] Buy have hd: "bs_asks st = (ask_key m, m) # tl (bs_asks st)" by simp
    have "bt_update (ask_key m) (filled_by n v m) (bs_asks st) = (ask_key m, filled_by n v m) # tl (bs_asks st)"
      using ask_side.side_update_hd [of "ask_key m" m "tl (bs_asks st)"] inv(2) hd by metis
    then have "queue sd st' = filled_by n v m # tl (queue sd st)"
      by (simp add: queue_def st'_def Buy map_tl)
    moreover have "apply_maker_fill sd m n v st = (Inr (), st')"
      using get fill n by (simp add: apply_maker_fill_def Buy st'_def)
    ultimately show ?thesis using os by (auto simp: shrunk_def queue_def st'_def Buy)
  next
    case Sell
    define st' where "st' = st\<lparr>bs_bids := bt_update (bid_key m) (filled_by n v m) (bs_bids st)\<rparr>"
    have m: "m \<in> set (bt_values (bs_bids st))" using bid_mem [OF ok] mem s Sell by simp
    have get: "map_of (bs_bids st) (bid_key m) = Some m" by (rule bid_side.side_get_key [OF inv(1) m])
    note up = bid_side.side_update [OF inv(1) m, of "filled_by n v m", simplified, OF s [unfolded Sell, simplified]]
    have nb: "m \<notin> set (bt_values (bs_asks st))" using ask_mem [OF ok] s Sell by simp
    have os: "book_orders st' = insert (filled_by n v m) (book_orders st - {m})"
      using up(2) nb by (auto simp: book_orders_def st'_def)
    have "book_ok st'" by (rule ok' [OF os]) (use up(1) inv(2) in \<open>simp_all add: st'_def\<close>)
    moreover from queue_hd_map [OF ok q] Sell have hd: "bs_bids st = (bid_key m, m) # tl (bs_bids st)" by simp
    have "bt_update (bid_key m) (filled_by n v m) (bs_bids st) = (bid_key m, filled_by n v m) # tl (bs_bids st)"
      using bid_side.side_update_hd [of "bid_key m" m "tl (bs_bids st)"] inv(1) hd by metis
    then have "queue sd st' = filled_by n v m # tl (queue sd st)"
      by (simp add: queue_def st'_def Sell map_tl)
    moreover have "apply_maker_fill sd m n v st = (Inr (), st')"
      using get fill n by (simp add: apply_maker_fill_def Sell st'_def)
    ultimately show ?thesis using os by (auto simp: shrunk_def queue_def st'_def Sell)
  qed
qed

lemma clear_ok: "book_ok st \<Longrightarrow> book_ok (clear_resting st) \<and> book_orders (clear_resting st) = {}"
  by (auto simp: book_ok_def clear_resting_def book_orders_def index_agrees_def wrapper_eqs
      bid_side.side_ok_Nil ask_side.side_ok_Nil)

end
