(* ===== verification/Matching.thy ===== *)
theory Matching
  imports Book_State
begin

section \<open>Continuous matching (orderbook.rs, place\_inner)\<close>

text \<open>
  The loop that matches an incoming order against the opposite side, on the detailed state and
  with every early return, and its abstract specification \<open>fill_queue\<close> on the list of opposing
  orders. The refinement theorem identifies the two; what an order may rely on (price, priority,
  conservation of quantity) is then proved on the specification by induction on the list.
\<close>

subsection \<open>The loop\<close>

definition crossed :: "order \<Rightarrow> book_state \<Rightarrow> bool" where
  "crossed taker st = (case ord_side taker of
      Buy \<Rightarrow> (case bt_first (bs_asks st) of None \<Rightarrow> False | Some ((ask_p, _), _) \<Rightarrow> ask_p \<le> ord_price taker)
    | Sell \<Rightarrow> (case bt_first (bs_bids st) of None \<Rightarrow> False
        | Some ((bid_p, _), _) \<Rightarrow> ord_price taker \<le> unreverse bid_p))"

definition best_opposite :: "side \<Rightarrow> book_state \<Rightarrow> order option" where
  "best_opposite sd st = (case sd of
      Buy \<Rightarrow> map_option snd (bt_first (bs_asks st)) | Sell \<Rightarrow> map_option snd (bt_first (bs_bids st)))"

text \<open>The legs of a trade: the maker field is the selling order, the taker field the buying one.\<close>

definition leg_trade :: "money \<Rightarrow> nat \<Rightarrow> order \<Rightarrow> order \<Rightarrow> trade" where
  "leg_trade price q sell buy = \<lparr>tr_price = price, tr_qty = q, tr_maker = ord_owner sell,
     tr_taker = ord_owner buy, tr_maker_order_id = ord_id sell, tr_taker_order_id = ord_id buy,
     tr_maker_filled_value_before = ord_filled_value sell,
     tr_taker_filled_value_before = ord_filled_value buy\<rparr>"

definition match_trade :: "order \<Rightarrow> order \<Rightarrow> nat \<Rightarrow> trade" where
  "match_trade taker maker q = (case ord_side taker of
      Buy \<Rightarrow> leg_trade (ord_price maker) q maker taker
    | Sell \<Rightarrow> leg_trade (ord_price maker) q taker maker)"

lemma best_opposite_queue: "best_opposite sd st = (case queue sd st of [] \<Rightarrow> None | m # _ \<Rightarrow> Some m)"
  by (cases sd) (auto simp: best_opposite_def queue_def bt_first_def split: list.split)

lemma apply_maker_fill_length:
  assumes "best_opposite sd st = Some m" "apply_maker_fill sd m n v st = (Inr (), st')"
  shows "length (queue sd st') = (if ord_qty m = n then length (queue sd st) - 1 else length (queue sd st))"
  using assms by (cases sd)
    (auto simp: apply_maker_fill_def record_filled_def queue_def try_in_ok_iff split: if_splits option.splits prod.splits)

function match_loop :: "bool \<Rightarrow> order \<Rightarrow> trade list \<Rightarrow> order list \<Rightarrow> book_state
    \<Rightarrow> (order_error + order \<times> trade list \<times> order list) \<times> book_state" where
  "match_loop recording taker trades before st =
    (if ord_qty taker = 0 then (Inr (taker, trades, before), st)
     else case (if crossed taker st then best_opposite (ord_side taker) st else None) of
       None \<Rightarrow> (Inr (taker, trades, before), st)
     | Some maker \<Rightarrow>
        let fill_qty = min (ord_qty taker) (ord_qty maker);
            before1 = (if recording then before @ [maker] else before) in
        try_in (map_error OrderMoney (mul_shares (ord_price maker) fill_qty)) st (\<lambda>fill_value.
        try_in (filled_value_after maker fill_value) st (\<lambda>maker_value.
        try_in (filled_value_after taker fill_value) st (\<lambda>taker_value.
        try_in (filled_qty_after taker fill_qty) st (\<lambda>taker_filled.
        try_st (apply_maker_fill (ord_side taker) maker fill_qty maker_value st) (\<lambda>u st1.
          match_loop recording
            (taker\<lparr>ord_filled_value := taker_value, ord_filled_qty := taker_filled,
               ord_qty := u32_sub (ord_qty taker) fill_qty\<rparr>)
            (trades @ [match_trade taker maker fill_qty]) before1 st1))))))"
  by pat_completeness auto
termination
proof (relation "measure (\<lambda>(recording, taker, trades, before, st). ord_qty taker + length (queue (ord_side taker) st))")
  fix recording taker trades before st maker x xa and fill_value maker_value taker_value :: money
    and taker_filled u :: nat and unit and st1
  assume q: "ord_qty taker \<noteq> 0"
    and best: "(if crossed taker st then best_opposite (ord_side taker) st else None) = Some maker"
    and x: "x = min (ord_qty taker) (ord_qty maker)"
    and fill: "apply_maker_fill (ord_side taker) maker x maker_value st = (Inr unit, st1)"
  from best have b: "best_opposite (ord_side taker) st = Some maker" by (simp split: if_splits)
  then have ne: "queue (ord_side taker) st \<noteq> []" by (auto simp: best_opposite_queue split: list.splits)
  have "length (queue (ord_side taker) st1) = (if ord_qty maker = x
      then length (queue (ord_side taker) st) - 1 else length (queue (ord_side taker) st))"
    using apply_maker_fill_length [OF b, of x maker_value st1] fill by simp
  with q ne x show "((recording, taker\<lparr>ord_filled_value := taker_value, ord_filled_qty := taker_filled,
           ord_qty := u32_sub (ord_qty taker) x\<rparr>, trades @ [match_trade taker maker x], xa, st1),
        recording, taker, trades, before, st)
       \<in> measure (\<lambda>(recording, taker, trades, before, st). ord_qty taker + length (queue (ord_side taker) st))"
    by (cases "queue (ord_side taker) st") (auto simp: u32_sub_def)
qed simp

declare match_loop.simps [simp del]

subsection \<open>The specification\<close>

definition crosses :: "order \<Rightarrow> order \<Rightarrow> bool" where
  "crosses taker m = (case ord_side taker of
     Buy \<Rightarrow> ord_price m \<le> ord_price taker | Sell \<Rightarrow> ord_price taker \<le> ord_price m)"

text \<open>The taker after a fill of \<open>q\<close> shares at the price of \<open>m\<close>, and the maker after it.\<close>

definition taker_after :: "nat \<Rightarrow> order \<Rightarrow> order \<Rightarrow> order" where
  "taker_after q m taker = filled_by q (ord_filled_value taker + ord_price m * int q) taker"

definition maker_after :: "nat \<Rightarrow> order \<Rightarrow> order" where
  "maker_after q m = filled_by q (ord_filled_value m + ord_price m * int q) m"

text \<open>
  The queue is served from its head while it crosses and the taker is open. The result is the
  taker as it stands, the trades, the makers that were filled completely, and the rest.
\<close>

fun fill_queue :: "order \<Rightarrow> order list \<Rightarrow> order \<times> trade list \<times> order list \<times> order list" where
  "fill_queue taker [] = (taker, [], [], [])"
| "fill_queue taker (m # ms) =
    (if ord_qty taker = 0 \<or> \<not> crosses taker m then (taker, [], [], m # ms)
     else if ord_qty m \<le> ord_qty taker then
       (case fill_queue (taker_after (ord_qty m) m taker) ms of
         (taker', ts, fs, rest) \<Rightarrow> (taker', match_trade taker m (ord_qty m) # ts, m # fs, rest))
     else (taker_after (ord_qty taker) m taker, [match_trade taker m (ord_qty taker)], [],
       maker_after (ord_qty taker) m # ms))"

definition tradable :: "order \<Rightarrow> bool" where
  "tradable m \<longleftrightarrow> in_progress m \<and> 0 < ord_price m"

lemma taker_after_fields [simp]:
  "ord_side (taker_after q m taker) = ord_side taker" "ord_price (taker_after q m taker) = ord_price taker"
  "ord_id (taker_after q m taker) = ord_id taker" "ord_owner (taker_after q m taker) = ord_owner taker"
  "ord_qty (taker_after q m taker) = ord_qty taker - q" "ord_seq (taker_after q m taker) = ord_seq taker"
  "ord_filled_qty (taker_after q m taker) = ord_filled_qty taker + q"
  "ord_original_qty (taker_after q m taker) = ord_original_qty taker"
  "ord_filled_value (taker_after q m taker) = ord_filled_value taker + ord_price m * int q"
  by (simp_all add: taker_after_def)

lemma crosses_taker_after [simp]: "crosses (taker_after q m taker) = crosses taker"
  by (simp add: fun_eq_iff crosses_def split: side.split)

lemma crossed_queue: "book_ok st \<Longrightarrow> crossed taker st \<longleftrightarrow>
    (case queue (ord_side taker) st of [] \<Rightarrow> False | m # _ \<Rightarrow> crosses taker m)"
proof (cases "queue (ord_side taker) st")
  case Nil
  then show ?thesis by (cases "ord_side taker") (auto simp: crossed_def queue_def)
next
  case (Cons m rest)
  assume ok: "book_ok st"
  show ?thesis
  proof (cases "ord_side taker")
    case Buy
    with queue_hd_map [OF ok Cons] obtain ys where "bs_asks st = (ask_key m, m) # ys" by auto
    with Buy Cons show ?thesis by (simp add: crossed_def crosses_def ask_key_def)
  next
    case Sell
    with queue_hd_map [OF ok Cons] obtain ys where "bs_bids st = (bid_key m, m) # ys" by auto
    with Sell Cons show ?thesis by (simp add: crossed_def crosses_def bid_key_def)
  qed
qed

text \<open>One step of the loop, given that the head of the queue crosses.\<close>

lemma loop_stop:
  assumes "book_ok st" and "ord_qty taker = 0 \<or> (case queue (ord_side taker) st of [] \<Rightarrow> True
      | m # _ \<Rightarrow> \<not> crosses taker m)"
  shows "match_loop r taker ts bf st = (Inr (taker, ts, bf), st)"
  using assms crossed_queue [OF assms(1), of taker]
  by (subst match_loop.simps) (auto split: list.splits)

definition next_taker :: "nat \<Rightarrow> order \<Rightarrow> order \<Rightarrow> order" where
  "next_taker q m taker = taker\<lparr>ord_filled_value := ord_filled_value taker + ord_price m * int q,
     ord_filled_qty := ord_filled_qty taker + q, ord_qty := u32_sub (ord_qty taker) q\<rparr>"

lemma next_taker_eq: "q \<le> ord_qty taker \<Longrightarrow> next_taker q m taker = taker_after q m taker"
  by (simp add: next_taker_def taker_after_def filled_by_def)

lemma loop_step:
  assumes ok: "book_ok st" and q: "queue (ord_side taker) st = m # ms"
    and opn: "ord_qty taker \<noteq> 0" and cr: "crosses taker m"
    and t: "\<forall>m\<in>book_orders st. tradable m"
    and loop: "match_loop r taker ts bf st = (res, st')"
  defines "n \<equiv> min (ord_qty taker) (ord_qty m)"
  shows "(\<exists>e. res = Inl e \<and> st' = st) \<or>
    (\<exists>st1. (if ord_qty m = n then popped (ord_side taker) m st st1
        else shrunk (ord_side taker) m (maker_after n m) st st1)
      \<and> in_i64 (ord_price m * int n) \<and> in_i64 (ord_filled_value m + ord_price m * int n)
      \<and> in_i64 (ord_filled_value taker + ord_price m * int n) \<and> ord_filled_qty taker + n \<le> u32_max
      \<and> match_loop r (taker_after n m taker) (ts @ [match_trade taker m n])
          (if r then bf @ [m] else bf) st1 = (res, st'))"
proof -
  define v where "v = ord_price m * int n"
  let ?guards = "in_i64 v \<and> in_i64 (ord_filled_value m + v) \<and> in_i64 (ord_filled_value taker + v)
    \<and> ord_filled_qty taker + n \<le> u32_max"
  have mem: "m \<in> book_orders st" using queue_mem [OF ok, of m "ord_side taker"] q by simp
  then have tr: "tradable m" using t by blast
  have unf: "match_loop r taker ts bf st =
      try_in (map_error OrderMoney (mul_shares (ord_price m) n)) st (\<lambda>fill_value.
      try_in (filled_value_after m fill_value) st (\<lambda>maker_value.
      try_in (filled_value_after taker fill_value) st (\<lambda>taker_value.
      try_in (filled_qty_after taker n) st (\<lambda>taker_filled.
      try_st (apply_maker_fill (ord_side taker) m n maker_value st) (\<lambda>u st1.
        match_loop r (taker\<lparr>ord_filled_value := taker_value, ord_filled_qty := taker_filled,
             ord_qty := u32_sub (ord_qty taker) n\<rparr>)
          (ts @ [match_trade taker m n]) (if r then bf @ [m] else bf) st1)))))"
    using opn cr q crossed_queue [OF ok, of taker]
    by (subst match_loop.simps) (simp add: best_opposite_queue n_def Let_def)
  show ?thesis
  proof (cases "?guards")
    case False
    then have "\<exists>e. match_loop r taker ts bf st = (Inl e, st)"
      unfolding unf v_def
      by (auto simp: mul_shares_def filled_value_after_def filled_qty_after_def money_add_def
          checked_i64_def checked_u32_def)
    with loop show ?thesis by auto
  next
    case True
    then have e: "match_loop r taker ts bf st =
      try_st (apply_maker_fill (ord_side taker) m n (ord_filled_value m + v) st) (\<lambda>u st1.
        match_loop r (next_taker n m taker) (ts @ [match_trade taker m n]) (if r then bf @ [m] else bf) st1)"
      unfolding unf v_def next_taker_def
      by (simp add: mul_shares_def filled_value_after_def filled_qty_after_def money_add_def
          checked_i64_def checked_u32_def)
    have nt: "next_taker n m taker = taker_after n m taker" by (rule next_taker_eq) (simp add: n_def)
    show ?thesis
    proof (cases "ord_qty m = n")
      case full: True
      from maker_fill_full [OF ok q] obtain st1 where
        "apply_maker_fill (ord_side taker) m n (ord_filled_value m + v) st = (Inr (), st1)"
        "popped (ord_side taker) m st st1" unfolding full by blast
      with e loop nt full True show ?thesis by (auto simp: v_def)
    next
      case part: False
      then have "n < ord_qty m" by (simp add: n_def)
      from maker_fill_part [OF ok q _ this] tr obtain st1 where
        "apply_maker_fill (ord_side taker) m n (ord_filled_value m + v) st = (Inr (), st1)"
        "shrunk (ord_side taker) m (filled_by n (ord_filled_value m + v) m) st st1"
        by (auto simp: tradable_def)
      with e loop nt part True show ?thesis by (auto simp: v_def maker_after_def)
    qed
  qed
qed

lemma maker_after_tradable:
  assumes "tradable m" "n < ord_qty m"
  shows "tradable (maker_after n m)"
  using assms by (simp add: tradable_def in_progress_def maker_after_def)

subsection \<open>Refinement\<close>

text \<open>
  What every outcome of the loop, an early error included, leaves of the book: the invariant,
  tradable orders, the taker's own side, orders that were there before under the same identity
  and key, and no filled identity but old ones and makers.
\<close>

definition same_identity :: "order \<Rightarrow> order \<Rightarrow> bool" where
  "same_identity a b \<longleftrightarrow> ord_id a = ord_id b \<and> resting_key_of a = resting_key_of b \<and>
     ord_side a = ord_side b \<and> ord_price a = ord_price b \<and> ord_seq a = ord_seq b \<and>
     ord_owner a = ord_owner b \<and> ord_original_qty a = ord_original_qty b"

definition remains :: "book_state \<Rightarrow> book_state \<Rightarrow> bool" where
  "remains st st' \<longleftrightarrow> (\<forall>m\<in>book_orders st'. \<exists>p\<in>book_orders st. same_identity m p)
     \<and> (\<forall>i. filled_owner (bs_filled st') i \<noteq> None \<longrightarrow>
          filled_owner (bs_filled st) i \<noteq> None \<or> (\<exists>p\<in>book_orders st. ord_id p = i))
     \<and> (\<forall>i w. filled_owner (bs_filled st) i = Some w \<longrightarrow> filled_owner (bs_filled st') i = Some w)"

lemma same_identity_refl [simp]: "same_identity a a"
  by (simp add: same_identity_def)

lemma same_identity_filled [simp]: "same_identity (filled_by n v m) m" "same_identity (maker_after n m) m"
  by (simp_all add: same_identity_def maker_after_def)

lemma same_identity_trans: "same_identity a b \<Longrightarrow> same_identity b c \<Longrightarrow> same_identity a c"
  by (simp add: same_identity_def)

lemma remains_refl [simp]: "remains st st"
  unfolding remains_def using same_identity_refl by blast

lemma remains_trans:
  assumes "remains a b" "remains b c"
  shows "remains a c"
  unfolding remains_def
proof (intro conjI ballI allI impI)
  fix m assume "m \<in> book_orders c"
  with assms show "\<exists>p\<in>book_orders a. same_identity m p"
    unfolding remains_def by (meson same_identity_trans)
next
  fix i assume "filled_owner (bs_filled c) i \<noteq> None"
  with assms(2) consider "filled_owner (bs_filled b) i \<noteq> None" | p where "p \<in> book_orders b" "ord_id p = i"
    unfolding remains_def by blast
  then show "filled_owner (bs_filled a) i \<noteq> None \<or> (\<exists>p\<in>book_orders a. ord_id p = i)"
  proof cases
    case 1
    with assms(1) show ?thesis unfolding remains_def by blast
  next
    case 2
    with assms(1) show ?thesis unfolding remains_def same_identity_def by metis
  qed
next
  fix i w assume "filled_owner (bs_filled a) i = Some w"
  with assms show "filled_owner (bs_filled c) i = Some w" unfolding remains_def by blast
qed

lemma popped_remains:
  assumes ok: "book_ok st" and m: "m \<in> book_orders st" and p: "popped sd m st st'"
  shows "remains st st'"
  using p m book_okD(6) [OF ok m] same_identity_refl unfolding remains_def popped_def
  by (metis DiffD1 fun_upd_apply option.distinct(1))

lemma shrunk_remains:
  assumes m: "m \<in> book_orders st" and p: "shrunk sd m m' st st'" and s: "same_identity m' m"
  shows "remains st st'"
  using p m s same_identity_refl unfolding remains_def shrunk_def by (metis DiffD1 insert_iff)

definition loop_frame :: "side \<Rightarrow> book_state \<Rightarrow> book_state \<Rightarrow> bool" where
  "loop_frame sd st st' \<longleftrightarrow> book_ok st' \<and> (\<forall>m\<in>book_orders st'. tradable m)
     \<and> queue (flip sd) st' = queue (flip sd) st \<and> remains st st'"

lemma loop_frame_refl: "book_ok st \<Longrightarrow> \<forall>m\<in>book_orders st. tradable m \<Longrightarrow> loop_frame sd st st"
  by (simp add: loop_frame_def)

lemma loop_frame_trans: "loop_frame sd a b \<Longrightarrow> loop_frame sd b c \<Longrightarrow> loop_frame sd a c"
  unfolding loop_frame_def by (metis remains_trans)

lemma popped_frame:
  assumes "book_ok st" "m \<in> book_orders st" "\<forall>m\<in>book_orders st. tradable m" "popped sd m st st1"
  shows "loop_frame sd st st1"
  using assms popped_remains [OF assms(1,2,4)] by (auto simp: loop_frame_def popped_def)

lemma shrunk_frame:
  assumes "m \<in> book_orders st" "\<forall>m\<in>book_orders st. tradable m" "n < ord_qty m"
    "shrunk sd m (maker_after n m) st st1"
  shows "loop_frame sd st st1"
  using assms shrunk_remains [OF assms(1,4)] maker_after_tradable [of m n]
  by (auto simp: loop_frame_def shrunk_def)

text \<open>The identities of completely filled orders are recorded in turn.\<close>

definition record_owners :: "order list \<Rightarrow> (order_id \<rightharpoonup> account_id) \<Rightarrow> (order_id \<rightharpoonup> account_id)" where
  "record_owners fs f = fold (\<lambda>m f. f(ord_id m \<mapsto> ord_owner m)) fs f"

lemma record_owners_simps [simp]:
  "record_owners [] f = f"
  "record_owners (m # fs) f = record_owners fs (f(ord_id m \<mapsto> ord_owner m))"
  by (simp_all add: record_owners_def)

lemma match_loop_refines:
  assumes "book_ok st" "queue (ord_side taker) st = qs" "\<forall>m\<in>book_orders st. tradable m"
    and "match_loop r taker ts bf st = (res, st')"
  shows "loop_frame (ord_side taker) st st' \<and>
    (\<forall>t' ts' bf'. res = Inr (t', ts', bf') \<longrightarrow> (\<exists>new fs rest.
      fill_queue taker qs = (t', new, fs, rest) \<and> ts' = ts @ new
      \<and> bf' = bf @ (if r then take (length new) qs else [])
      \<and> queue (ord_side taker) st' = rest
      \<and> filled_owner (bs_filled st') = record_owners fs (filled_owner (bs_filled st))))"
  using assms
proof (induction qs arbitrary: taker ts bf st)
  case Nil
  with loop_stop [of st taker r ts bf] show ?case by (auto simp: loop_frame_refl)
next
  case (Cons m ms)
  let ?sd = "ord_side taker"
  show ?case
  proof (cases "ord_qty taker = 0 \<or> \<not> crosses taker m")
    case True
    with loop_stop [of st taker r ts bf] Cons.prems show ?thesis
      by (auto simp: loop_frame_refl)
  next
    case False
    define n where "n = min (ord_qty taker) (ord_qty m)"
    have mem: "m \<in> book_orders st" using queue_mem [OF Cons.prems(1), of m ?sd] Cons.prems(2) by simp
    from False have opn: "ord_qty taker \<noteq> 0" "crosses taker m" by auto
    from loop_step [OF Cons.prems(1,2) opn Cons.prems(3,4), folded n_def]
    consider e where "res = Inl e" "st' = st"
      | st1 where "if ord_qty m = n then popped ?sd m st st1 else shrunk ?sd m (maker_after n m) st st1"
        "match_loop r (taker_after n m taker) (ts @ [match_trade taker m n]) (if r then bf @ [m] else bf) st1 = (res, st')"
      by blast
    then show ?thesis
    proof cases
      case 1
      then show ?thesis using Cons.prems by (simp add: loop_frame_refl)
    next
      case (2 st1)
      show ?thesis
      proof (cases "ord_qty m = n")
        case full: True
        then have p: "popped ?sd m st st1" using 2(1) by simp
        note fr = popped_frame [OF Cons.prems(1) mem Cons.prems(3) p]
        have q1: "queue (ord_side (taker_after n m taker)) st1 = ms"
          using p Cons.prems(2) by (simp add: popped_def)
        note IH = Cons.IH [OF _ q1 _ 2(2)]
        have ok1: "book_ok st1" "\<forall>m\<in>book_orders st1. tradable m" using fr by (auto simp: loop_frame_def)
        note IH' = IH [OF ok1]
        have fo: "filled_owner (bs_filled st1) = (filled_owner (bs_filled st))(ord_id m \<mapsto> ord_owner m)"
          using p by (simp add: popped_def)
        have fr': "loop_frame ?sd st st'" using loop_frame_trans [OF fr] IH' by simp
        have le: "ord_qty m \<le> ord_qty taker" using full by (simp add: n_def)
        show ?thesis
        proof (intro conjI allI impI fr')
          fix t' ts' bf' assume "res = Inr (t', ts', bf')"
          with IH' obtain new fs rest where
            f: "fill_queue (taker_after n m taker) ms = (t', new, fs, rest)"
              "ts' = (ts @ [match_trade taker m n]) @ new"
              "bf' = (if r then bf @ [m] else bf) @ (if r then take (length new) ms else [])"
              "queue ?sd st' = rest"
              "filled_owner (bs_filled st') = record_owners fs (filled_owner (bs_filled st1))"
            by auto
          show "\<exists>new fs rest. fill_queue taker (m # ms) = (t', new, fs, rest) \<and> ts' = ts @ new
            \<and> bf' = bf @ (if r then take (length new) (m # ms) else [])
            \<and> queue ?sd st' = rest
            \<and> filled_owner (bs_filled st') = record_owners fs (filled_owner (bs_filled st))"
            using f False le full fo by auto
        qed
      next
        case part: False
        then have lt: "n < ord_qty m" "n = ord_qty taker" by (simp_all add: n_def)
        have s: "shrunk ?sd m (maker_after n m) st st1" using 2(1) part by simp
        note fr = shrunk_frame [OF mem Cons.prems(3) lt(1) s]
        have ok1: "book_ok st1" using fr by (simp add: loop_frame_def)
        have "(res, st') = (Inr (taker_after n m taker, ts @ [match_trade taker m n], if r then bf @ [m] else bf), st1)"
          using loop_stop [OF ok1, of "taker_after n m taker"] 2(2) lt(2) by simp
        with fr s lt False Cons.prems(2) show ?thesis
          by (auto simp: shrunk_def)
      qed
    qed
  qed
qed

subsection \<open>What the specification gives\<close>

definition traded_qty :: "trade list \<Rightarrow> nat" where
  "traded_qty ts = sum_list (map tr_qty ts)"

definition traded_value :: "trade list \<Rightarrow> int" where
  "traded_value ts = sum_list (map (\<lambda>t. tr_price t * int (tr_qty t)) ts)"

lemma traded_simps [simp]:
  "traded_qty [] = 0" "traded_qty (t # ts) = tr_qty t + traded_qty ts"
  "traded_value [] = 0" "traded_value (t # ts) = tr_price t * int (tr_qty t) + traded_value ts"
  by (simp_all add: traded_qty_def traded_value_def)

lemma traded_append [simp]:
  "traded_qty (a @ b) = traded_qty a + traded_qty b" "traded_value (a @ b) = traded_value a + traded_value b"
  by (simp_all add: traded_qty_def traded_value_def)

lemma match_trade_fields [simp]:
  "tr_price (match_trade t m q) = ord_price m" "tr_qty (match_trade t m q) = q"
  by (simp_all add: match_trade_def leg_trade_def split: side.split)

text \<open>The taker after the run: what was traded is what it lost, at the value it was charged.\<close>

lemma fill_queue_taker:
  "fill_queue t qs = (t', ts, fs, rest) \<Longrightarrow>
     traded_qty ts \<le> ord_qty t \<and>
     t' = filled_by (traded_qty ts) (ord_filled_value t + traded_value ts) t"
proof (induction t qs arbitrary: t' ts fs rest rule: fill_queue.induct)
  case (1 taker)
  then show ?case by (simp add: filled_by_def)
next
  case (2 taker m ms)
  show ?case
  proof (cases "ord_qty taker = 0 \<or> \<not> crosses taker m")
    case True
    with "2.prems" show ?thesis by (auto simp: filled_by_def)
  next
    case opn: False
    show ?thesis
    proof (cases "ord_qty m \<le> ord_qty taker")
      case True
      obtain ta ts1 fs1 rest1 where r: "fill_queue (taker_after (ord_qty m) m taker) ms = (ta, ts1, fs1, rest1)"
        by (cases "fill_queue (taker_after (ord_qty m) m taker) ms")
      with "2.prems" opn True have "t' = ta" "ts = match_trade taker m (ord_qty m) # ts1" by auto
      with "2.IH" [OF opn True r] True show ?thesis by (auto simp: filled_by_def taker_after_def add.assoc)
    next
      case False
      with "2.prems" opn show ?thesis by (auto simp: filled_by_def taker_after_def)
    qed
  qed
qed

text \<open>The queue splits into the makers that were filled and the rest; only the last maker
  traded with can be left open, and then the taker is exhausted.\<close>

lemma fill_queue_split:
  "fill_queue t qs = (t', ts, fs, rest) \<Longrightarrow>
    (qs = fs @ rest \<and> length ts = length fs \<and> (ord_qty t' = 0 \<or> rest = [] \<or> \<not> crosses t (hd rest)))
    \<or> (\<exists>m ms n. qs = fs @ m # ms \<and> rest = maker_after n m # ms \<and> 0 < n \<and> n < ord_qty m
        \<and> length ts = Suc (length fs) \<and> ord_qty t' = 0 \<and> crosses t m)"
proof (induction t qs arbitrary: t' ts fs rest rule: fill_queue.induct)
  case (2 taker m ms)
  show ?case
  proof (cases "ord_qty taker = 0 \<or> \<not> crosses taker m")
    case True
    with "2.prems" show ?thesis by auto
  next
    case opn: False
    show ?thesis
    proof (cases "ord_qty m \<le> ord_qty taker")
      case True
      obtain ta ts1 fs1 rest1 where r: "fill_queue (taker_after (ord_qty m) m taker) ms = (ta, ts1, fs1, rest1)"
        by (cases "fill_queue (taker_after (ord_qty m) m taker) ms")
      with "2.prems" opn True have "t' = ta" "ts = match_trade taker m (ord_qty m) # ts1"
        "fs = m # fs1" "rest = rest1" by auto
      with "2.IH" [OF opn True r] show ?thesis by auto
    next
      case False
      with "2.prems" opn have "ts = [match_trade taker m (ord_qty taker)]" "fs = []"
        "rest = maker_after (ord_qty taker) m # ms" "t' = taker_after (ord_qty taker) m taker" by auto
      with False opn show ?thesis by (intro disjI2 exI [of _ m] exI [of _ ms] exI [of _ "ord_qty taker"]) auto
    qed
  qed
qed simp

text \<open>Trade by trade: the i-th trade is with the i-th order of the queue, at its price.\<close>

definition trade_with :: "order \<Rightarrow> order \<Rightarrow> trade \<Rightarrow> bool" where
  "trade_with taker m t \<longleftrightarrow> crosses taker m \<and> tr_price t = ord_price m \<and> tr_qty t \<le> ord_qty m
    \<and> (case ord_side taker of
        Buy \<Rightarrow> tr_taker_order_id t = ord_id taker \<and> tr_taker t = ord_owner taker
          \<and> tr_maker_order_id t = ord_id m \<and> tr_maker t = ord_owner m
      | Sell \<Rightarrow> tr_maker_order_id t = ord_id taker \<and> tr_maker t = ord_owner taker
          \<and> tr_taker_order_id t = ord_id m \<and> tr_taker t = ord_owner m)"

lemma trade_with_taker_after [simp]: "trade_with (taker_after q m t) = trade_with t"
  by (simp add: fun_eq_iff trade_with_def split: side.split)

lemma trade_with_match: "crosses t m \<Longrightarrow> q \<le> ord_qty m \<Longrightarrow> trade_with t m (match_trade t m q)"
  by (simp add: trade_with_def match_trade_def leg_trade_def split: side.split)

lemma fill_queue_trades:
  "fill_queue t qs = (t', ts, fs, rest) \<Longrightarrow>
    length ts \<le> length qs \<and> list_all2 (trade_with t) (take (length ts) qs) ts"
proof (induction t qs arbitrary: t' ts fs rest rule: fill_queue.induct)
  case (2 taker m ms)
  show ?case
  proof (cases "ord_qty taker = 0 \<or> \<not> crosses taker m")
    case True
    with "2.prems" show ?thesis by auto
  next
    case opn: False
    show ?thesis
    proof (cases "ord_qty m \<le> ord_qty taker")
      case True
      obtain ta ts1 fs1 rest1 where r: "fill_queue (taker_after (ord_qty m) m taker) ms = (ta, ts1, fs1, rest1)"
        by (cases "fill_queue (taker_after (ord_qty m) m taker) ms")
      with "2.prems" opn True have "ts = match_trade taker m (ord_qty m) # ts1" by auto
      with "2.IH" [OF opn True r] opn show ?thesis by (simp add: trade_with_match)
    next
      case False
      with "2.prems" opn have "ts = [match_trade taker m (ord_qty taker)]" by auto
      with False opn show ?thesis by (simp add: trade_with_match)
    qed
  qed
qed simp

text \<open>No share is created or lost on the resting side.\<close>

definition open_qty :: "order list \<Rightarrow> nat" where
  "open_qty qs = sum_list (map ord_qty qs)"

lemma fill_queue_conserves:
  "fill_queue t qs = (t', ts, fs, rest) \<Longrightarrow> open_qty rest + traded_qty ts = open_qty qs"
proof (induction t qs arbitrary: t' ts fs rest rule: fill_queue.induct)
  case (2 taker m ms)
  show ?case
  proof (cases "ord_qty taker = 0 \<or> \<not> crosses taker m")
    case True
    with "2.prems" show ?thesis by auto
  next
    case opn: False
    show ?thesis
    proof (cases "ord_qty m \<le> ord_qty taker")
      case True
      obtain ta ts1 fs1 rest1 where r: "fill_queue (taker_after (ord_qty m) m taker) ms = (ta, ts1, fs1, rest1)"
        by (cases "fill_queue (taker_after (ord_qty m) m taker) ms")
      with "2.prems" opn True have "ts = match_trade taker m (ord_qty m) # ts1" "rest = rest1" by auto
      with "2.IH" [OF opn True r] show ?thesis by (simp add: open_qty_def)
    next
      case False
      with "2.prems" opn show ?thesis by (auto simp: open_qty_def maker_after_def)
    qed
  qed
qed (simp add: open_qty_def)

lemma fill_queue_positive:
  "fill_queue t qs = (t', ts, fs, rest) \<Longrightarrow> \<forall>m\<in>set qs. 0 < ord_qty m \<Longrightarrow> \<forall>tr\<in>set ts. 0 < tr_qty tr"
proof (induction t qs arbitrary: t' ts fs rest rule: fill_queue.induct)
  case (2 taker m ms)
  show ?case
  proof (cases "ord_qty taker = 0 \<or> \<not> crosses taker m")
    case True
    with "2.prems" show ?thesis by auto
  next
    case opn: False
    show ?thesis
    proof (cases "ord_qty m \<le> ord_qty taker")
      case True
      obtain ta ts1 fs1 rest1 where r: "fill_queue (taker_after (ord_qty m) m taker) ms = (ta, ts1, fs1, rest1)"
        by (cases "fill_queue (taker_after (ord_qty m) m taker) ms")
      with "2.prems" opn True have "ts = match_trade taker m (ord_qty m) # ts1" by auto
      with "2.IH" [OF opn True r] "2.prems"(2) show ?thesis by auto
    next
      case False
      with "2.prems" opn show ?thesis by auto
    qed
  qed
qed simp

end
