(* ===== verification/Auction_Clearing.thy ===== *)
theory Auction_Clearing
  imports Order_Types Ordered_Map
begin

section \<open>Selecting the call-auction price (orderbook/auction\_clearing.rs)\<close>

text \<open>
  The selection works on a projection of the orders: side, limit and quantity. The model follows
  the code: statistics at every limit price, restriction to the maximal volume, then the
  exchange's tie-break. The theory then proves what the rule has to guarantee: the selected
  price executes the largest volume any price could, a price is selected exactly when some price
  executes, and the Shanghai midpoint, which need not be a limit price, is always executable.
\<close>

record clearing_order =
  co_side :: side
  co_limit :: money
  co_qty :: nat

record clearing_selection =
  cs_price :: money
  cs_volume :: nat
  cs_imbalance :: nat

record candidate =
  cd_result :: clearing_selection
  cd_aggressive_difference :: nat

definition rejected :: "clearing_reject \<Rightarrow> order_error" where
  "rejected reason = InvalidAuctionClearing reason"

definition abs_diff :: "nat \<Rightarrow> nat \<Rightarrow> nat" where
  "abs_diff a b = (if a < b then b - a else a - b)"

definition add_qty :: "nat \<Rightarrow> nat \<Rightarrow> order_error + nat" where
  "add_qty tot q = ok_or (rejected QuantityOverflow) (checked_u64 (tot + q))"

definition checked_qty_sum :: "nat list \<Rightarrow> order_error + nat" where
  "checked_qty_sum qs = try_fold add_qty 0 qs"

definition side_qtys :: "clearing_order list \<Rightarrow> side \<Rightarrow> (money \<Rightarrow> bool) \<Rightarrow> nat list" where
  "side_qtys os sd p = map co_qty (filter (\<lambda>c. co_side c = sd \<and> p (co_limit c)) os)"

definition candidate_stats :: "clearing_order list \<Rightarrow> money \<Rightarrow> order_error + candidate option" where
  "candidate_stats os price =
    bind_result (checked_qty_sum (side_qtys os Buy (\<lambda>limit. price \<le> limit))) (\<lambda>buy.
    bind_result (checked_qty_sum (side_qtys os Sell (\<lambda>limit. limit \<le> price))) (\<lambda>sell.
    let volume = min buy sell in
    if volume = 0 then Inr None else
    bind_result (checked_qty_sum (side_qtys os Buy (\<lambda>limit. price < limit))) (\<lambda>aggressive_buy.
    bind_result (checked_qty_sum (side_qtys os Sell (\<lambda>limit. limit < price))) (\<lambda>aggressive_sell.
    if volume < aggressive_buy \<or> volume < aggressive_sell then Inr None
    else Inr (Some \<lparr>
      cd_result = \<lparr>cs_price = price, cs_volume = volume, cs_imbalance = abs_diff buy sell\<rparr>,
      cd_aggressive_difference = abs_diff aggressive_buy aggressive_sell\<rparr>)))))"

text \<open>\<open>i128\<close> division truncates towards zero; the divisor here is positive.\<close>

definition trunc_div :: "int \<Rightarrow> int \<Rightarrow> int" where
  "trunc_div a b = (if 0 \<le> a then a div b else - ((- a) div b))"

definition rounded_midpoint :: "money \<Rightarrow> money \<Rightarrow> money \<Rightarrow> order_error + money" where
  "rounded_midpoint low high tick =
    (if tick \<le> 0 then Inl (rejected InvalidPriceTick)
     else ok_or (rejected PriceOverflow)
       (checked_i64 (trunc_div (low + high + tick) (tick * 2) * tick)))"

definition checked_total_imbalance :: "clearing_order list \<Rightarrow> order_error + nat" where
  "checked_total_imbalance os =
    bind_result (checked_qty_sum (side_qtys os Buy (\<lambda>_. True))) (\<lambda>buy.
    bind_result (checked_qty_sum (side_qtys os Sell (\<lambda>_. True))) (\<lambda>sell.
    Inr (abs_diff buy sell)))"

text \<open>The prices a \<open>BTreeSet\<close> of the limits iterates over.\<close>

definition candidate_prices :: "clearing_order list \<Rightarrow> money list" where
  "candidate_prices os = remdups (sort (map co_limit os))"

definition cd_volume :: "candidate \<Rightarrow> nat" where
  "cd_volume c = cs_volume (cd_result c)"

definition cd_price :: "candidate \<Rightarrow> money" where
  "cd_price c = cs_price (cd_result c)"

definition cd_imbalance :: "candidate \<Rightarrow> nat" where
  "cd_imbalance c = cs_imbalance (cd_result c)"

definition select_shanghai :: "clearing_order list \<Rightarrow> candidate list \<Rightarrow> money
    \<Rightarrow> order_error + clearing_selection option" where
  "select_shanghai os stats tick =
    (if stats = [] then Inl (rejected SelectionMismatch) else
     let min_imbalance = Min (set (map cd_imbalance stats));
         kept = filter (\<lambda>c. cd_imbalance c = min_imbalance) stats in
     if kept = [] then Inl (rejected SelectionMismatch) else
     let low = Min (set (map cd_price kept)); high = Max (set (map cd_price kept)) in
     bind_result (rounded_midpoint low high tick) (\<lambda>midpoint.
     bind_result (candidate_stats os midpoint) (\<lambda>c. Inr (map_option cd_result c))))"

definition select_shenzhen :: "candidate list \<Rightarrow> money \<Rightarrow> order_error + clearing_selection option" where
  "select_shenzhen stats previous_close =
    (if stats = [] then Inl (rejected SelectionMismatch) else
     let min_difference = Min (set (map cd_aggressive_difference stats));
         kept = filter (\<lambda>c. cd_aggressive_difference c = min_difference) stats in
     if kept = [] then Inr None
     else Inr (Some (cd_result
       (arg_min_list (\<lambda>c. (\<bar>cd_price c - previous_close\<bar>, cd_price c)) kept))))"

definition select_clearing :: "clearing_order list \<Rightarrow> money \<Rightarrow> stock_exchange \<Rightarrow> money
    \<Rightarrow> order_error + clearing_selection option" where
  "select_clearing os previous_close exchange tick =
    bind_result (try_map (candidate_stats os) (candidate_prices os)) (\<lambda>cs.
    let stats = List.map_filter id cs in
    if stats = [] then Inr None else
    let max_volume = Max (set (map cd_volume stats));
        best = filter (\<lambda>c. cd_volume c = max_volume) stats in
    (case exchange of
       Shanghai \<Rightarrow> select_shanghai os best tick
     | Shenzhen \<Rightarrow> select_shenzhen best previous_close))"

subsection \<open>Sums of quantities\<close>

interpretation qty_sum: checked_sum "\<lambda>n. n \<le> u64_max" add_qty
  by unfold_locales (auto simp: add_qty_def)

definition side_sum :: "clearing_order list \<Rightarrow> side \<Rightarrow> (money \<Rightarrow> bool) \<Rightarrow> nat" where
  "side_sum os sd p = sum_list (side_qtys os sd p)"

lemma checked_qty_sum_Inr [simp]:
  "checked_qty_sum qs = Inr n \<longleftrightarrow> sum_list qs \<le> u64_max \<and> n = sum_list qs"
  using qty_sum.fold_nonneg [of 0 qs n] by (simp add: checked_qty_sum_def)

lemma side_sum_mono:
  assumes "\<And>l. p l \<Longrightarrow> q l"
  shows "side_sum os sd p \<le> side_sum os sd q"
  unfolding side_sum_def side_qtys_def by (induction os) (auto intro: assms trans_le_add2)

lemma side_sum_pos:
  "0 < side_sum os sd p \<longleftrightarrow> (\<exists>c\<in>set os. co_side c = sd \<and> p (co_limit c) \<and> 0 < co_qty c)"
  unfolding side_sum_def side_qtys_def by (induction os) auto

lemma side_sum_cong:
  assumes "\<And>c. c \<in> set os \<Longrightarrow> p (co_limit c) = q (co_limit c)"
  shows "side_sum os sd p = side_sum os sd q"
  using assms unfolding side_sum_def side_qtys_def by (induction os) auto

text \<open>Demand and offers at a price, and the strictly better parts of them.\<close>

definition demand :: "clearing_order list \<Rightarrow> money \<Rightarrow> nat" where
  "demand os p = side_sum os Buy (\<lambda>l. p \<le> l)"

definition offers :: "clearing_order list \<Rightarrow> money \<Rightarrow> nat" where
  "offers os p = side_sum os Sell (\<lambda>l. l \<le> p)"

definition demand_above :: "clearing_order list \<Rightarrow> money \<Rightarrow> nat" where
  "demand_above os p = side_sum os Buy (\<lambda>l. p < l)"

definition offers_below :: "clearing_order list \<Rightarrow> money \<Rightarrow> nat" where
  "offers_below os p = side_sum os Sell (\<lambda>l. l < p)"

definition executable :: "clearing_order list \<Rightarrow> money \<Rightarrow> nat" where
  "executable os p = min (demand os p) (offers os p)"

text \<open>A clearing price must serve every strictly better order.\<close>

definition serves_better :: "clearing_order list \<Rightarrow> money \<Rightarrow> bool" where
  "serves_better os p \<longleftrightarrow> demand_above os p \<le> executable os p \<and> offers_below os p \<le> executable os p"

definition imbalance_at :: "clearing_order list \<Rightarrow> money \<Rightarrow> nat" where
  "imbalance_at os p = abs_diff (demand os p) (offers os p)"

definition aggressive_diff_at :: "clearing_order list \<Rightarrow> money \<Rightarrow> nat" where
  "aggressive_diff_at os p = abs_diff (demand_above os p) (offers_below os p)"

definition stats_at :: "clearing_order list \<Rightarrow> money \<Rightarrow> candidate" where
  "stats_at os p = \<lparr>
     cd_result = \<lparr>cs_price = p, cs_volume = executable os p, cs_imbalance = imbalance_at os p\<rparr>,
     cd_aggressive_difference = aggressive_diff_at os p\<rparr>"

lemma stats_at_fields [simp]:
  "cd_price (stats_at os p) = p" "cd_volume (stats_at os p) = executable os p"
  "cd_imbalance (stats_at os p) = imbalance_at os p"
  "cd_aggressive_difference (stats_at os p) = aggressive_diff_at os p"
  "cs_price (cd_result (stats_at os p)) = p" "cs_volume (cd_result (stats_at os p)) = executable os p"
  "cs_imbalance (cd_result (stats_at os p)) = imbalance_at os p"
  by (simp_all add: stats_at_def cd_price_def cd_volume_def cd_imbalance_def)

definition valid_at :: "clearing_order list \<Rightarrow> money \<Rightarrow> bool" where
  "valid_at os p \<longleftrightarrow> 0 < executable os p \<and> serves_better os p"

lemma candidate_stats_Inr:
  assumes "candidate_stats os p = Inr c"
  shows "c = (if valid_at os p then Some (stats_at os p) else None)"
proof -
  have d: "sum_list (side_qtys os Buy (\<lambda>limit. p \<le> limit)) = demand os p"
    "sum_list (side_qtys os Sell (\<lambda>limit. limit \<le> p)) = offers os p"
    "sum_list (side_qtys os Buy (\<lambda>limit. p < limit)) = demand_above os p"
    "sum_list (side_qtys os Sell (\<lambda>limit. limit < p)) = offers_below os p"
    by (simp_all add: demand_def offers_def demand_above_def offers_below_def side_sum_def)
  from assms show ?thesis
    unfolding candidate_stats_def bind_result_Inr_iff checked_qty_sum_Inr d Let_def
    by (auto simp: valid_at_def serves_better_def executable_def stats_at_def imbalance_at_def
        aggressive_diff_at_def bind_result_Inr_iff d not_less split: if_splits)
qed

lemma candidate_stats_total:
  assumes "side_sum os Buy (\<lambda>_. True) \<le> u64_max" "side_sum os Sell (\<lambda>_. True) \<le> u64_max"
  shows "candidate_stats os p = Inr (if valid_at os p then Some (stats_at os p) else None)"
proof -
  have s: "side_sum os Buy q \<le> u64_max" "side_sum os Sell q \<le> u64_max" for q
    using side_sum_mono [of q "\<lambda>_. True" os Buy] side_sum_mono [of q "\<lambda>_. True" os Sell] assms
    by auto
  then have e: "checked_qty_sum (side_qtys os Buy q) = Inr (side_sum os Buy q)"
    "checked_qty_sum (side_qtys os Sell q) = Inr (side_sum os Sell q)" for q
    by (simp_all add: side_sum_def)
  have "\<exists>c. candidate_stats os p = Inr c"
    unfolding candidate_stats_def Let_def e bind_result_simps by simp
  then show ?thesis using candidate_stats_Inr by blast
qed

subsection \<open>The largest volume is always reached at a valid limit price\<close>

abbreviation limits :: "clearing_order list \<Rightarrow> money set" where
  "limits os \<equiv> co_limit ` set os"

lemma demand_antimono: "p \<le> q \<Longrightarrow> demand os q \<le> demand os p"
  unfolding demand_def by (rule side_sum_mono) simp

lemma offers_mono: "p \<le> q \<Longrightarrow> offers os p \<le> offers os q"
  unfolding offers_def by (rule side_sum_mono) simp

lemma demand_above_less: "p < q \<Longrightarrow> demand os q \<le> demand_above os p"
  unfolding demand_def demand_above_def by (rule side_sum_mono) simp

lemma offers_below_less: "p < q \<Longrightarrow> offers os p \<le> offers_below os q"
  unfolding offers_def offers_below_def by (rule side_sum_mono) simp

lemma demand_above_le: "demand_above os p \<le> demand os p"
  unfolding demand_def demand_above_def by (rule side_sum_mono) simp

lemma offers_below_le: "offers_below os p \<le> offers os p"
  unfolding offers_def offers_below_def by (rule side_sum_mono) simp

lemma demand_above_antimono: "p \<le> q \<Longrightarrow> demand_above os q \<le> demand_above os p"
  unfolding demand_above_def by (rule side_sum_mono) simp

lemma offers_below_mono: "p \<le> q \<Longrightarrow> offers_below os p \<le> offers_below os q"
  unfolding offers_below_def by (rule side_sum_mono) simp

lemma next_limit:
  assumes "0 < side_sum os Buy P" and up: "\<And>l l'. P l \<Longrightarrow> l \<le> l' \<Longrightarrow> P l'"
  shows "\<exists>p'\<in>limits os. P p' \<and> demand os p' = side_sum os Buy P"
proof -
  define S where "S = {l \<in> limits os. P l \<and> (\<exists>c\<in>set os. co_side c = Buy \<and> co_limit c = l)}"
  have fin: "finite S" by (simp add: S_def)
  have ne: "S \<noteq> {}" using assms(1) by (auto simp: side_sum_pos S_def)
  have m: "Min S \<in> S" by (rule Min_in [OF fin ne])
  have "demand os (Min S) = side_sum os Buy P"
    unfolding demand_def side_sum_def side_qtys_def
  proof (rule arg_cong [where f = sum_list], rule arg_cong [where f = "map co_qty"], rule filter_cong)
    fix c assume c: "c \<in> set os"
    show "(co_side c = Buy \<and> Min S \<le> co_limit c) = (co_side c = Buy \<and> P (co_limit c))"
    proof (cases "co_side c = Buy")
      case True
      have "P (co_limit c)" if "Min S \<le> co_limit c" using up [OF _ that] m by (simp add: S_def)
      moreover have "Min S \<le> co_limit c" if "P (co_limit c)"
      proof -
        have "co_limit c \<in> S" using c that True by (auto simp: S_def)
        then show ?thesis by (rule Min_le [OF fin])
      qed
      ultimately show ?thesis by blast
    qed simp
  qed simp
  moreover have "Min S \<in> limits os" "P (Min S)" using m by (simp_all add: S_def)
  ultimately show ?thesis by blast
qed

lemma prev_limit:
  assumes "0 < side_sum os Sell P" and down: "\<And>l l'. P l \<Longrightarrow> l' \<le> l \<Longrightarrow> P l'"
  shows "\<exists>p'\<in>limits os. P p' \<and> offers os p' = side_sum os Sell P"
proof -
  define S where "S = {l \<in> limits os. P l \<and> (\<exists>c\<in>set os. co_side c = Sell \<and> co_limit c = l)}"
  have fin: "finite S" by (simp add: S_def)
  have ne: "S \<noteq> {}" using assms(1) by (auto simp: side_sum_pos S_def)
  have m: "Max S \<in> S" by (rule Max_in [OF fin ne])
  have "offers os (Max S) = side_sum os Sell P"
    unfolding offers_def side_sum_def side_qtys_def
  proof (rule arg_cong [where f = sum_list], rule arg_cong [where f = "map co_qty"], rule filter_cong)
    fix c assume c: "c \<in> set os"
    show "(co_side c = Sell \<and> co_limit c \<le> Max S) = (co_side c = Sell \<and> P (co_limit c))"
    proof (cases "co_side c = Sell")
      case True
      have "P (co_limit c)" if "co_limit c \<le> Max S" using down [OF _ that] m by (simp add: S_def)
      moreover have "co_limit c \<le> Max S" if "P (co_limit c)"
      proof -
        have "co_limit c \<in> S" using c that True by (auto simp: S_def)
        then show ?thesis by (rule Max_ge [OF fin])
      qed
      ultimately show ?thesis by blast
    qed simp
  qed simp
  moreover have "Max S \<in> limits os" "P (Max S)" using m by (simp_all add: S_def)
  ultimately show ?thesis by blast
qed

lemma limit_suffices:
  assumes "0 < executable os q"
  shows "\<exists>p\<in>limits os. executable os q \<le> executable os p"
proof -
  have "0 < side_sum os Buy (\<lambda>l. q \<le> l)" using assms by (simp add: executable_def demand_def)
  from next_limit [OF this] obtain p where p: "p \<in> limits os" "q \<le> p" "demand os p = demand os q"
    by (auto simp: demand_def)
  have "executable os q \<le> executable os p"
    using p(3) offers_mono [OF p(2), of os] by (auto simp: executable_def)
  with p(1) show ?thesis by blast
qed

theorem valid_maximum_exists:
  assumes "0 < executable os q0"
  shows "\<exists>p\<in>limits os. valid_at os p \<and> (\<forall>q. executable os q \<le> executable os p)"
proof -
  define V where "V = Max (executable os ` limits os)"
  have ne: "limits os \<noteq> {}" using limit_suffices [OF assms] by auto
  have le_V: "executable os q \<le> V" for q
  proof (cases "0 < executable os q")
    case True
    from limit_suffices [OF this] obtain p where "p \<in> limits os" "executable os q \<le> executable os p" by blast
    then show ?thesis unfolding V_def by (metis (no_types, lifting) Max_ge finite_imageI imageI
        le_trans List.finite_set)
  qed simp
  have V: "0 < V" using le_V [of q0] assms by linarith
  define M where "M = {p \<in> limits os. executable os p = V}"
  have "V \<in> executable os ` limits os" unfolding V_def using ne by (intro Max_in) auto
  then have M: "finite M" "M \<noteq> {}" by (auto simp: M_def)
  define A where "A = {p \<in> M. demand_above os p \<le> V}"
  have "Max M \<in> A"
  proof (rule ccontr)
    assume "Max M \<notin> A"
    have mx: "Max M \<in> M" by (rule Max_in [OF M])
    with \<open>Max M \<notin> A\<close> have gt: "V < demand_above os (Max M)" by (simp add: A_def)
    then have "0 < side_sum os Buy (\<lambda>l. Max M < l)" by (simp add: demand_above_def)
    from next_limit [OF this] obtain p where p: "p \<in> limits os" "Max M < p"
      "demand os p = demand_above os (Max M)" by (auto simp: demand_above_def)
    have "V \<le> offers os (Max M)" using mx by (auto simp: M_def executable_def)
    also have "\<dots> \<le> offers os p" using p(2) by (intro offers_mono) simp
    finally have "V \<le> executable os p" using gt p(3) by (simp add: executable_def)
    with le_V [of p] have "p \<in> M" using p(1) by (simp add: M_def)
    with Max_ge [OF M(1)] p(2) show False by force
  qed
  then have A: "finite A" "A \<noteq> {}" using M(1) unfolding A_def by (simp, blast)
  define p where "p = Min A"
  have pA: "p \<in> A" unfolding p_def by (rule Min_in [OF A])
  then have pM: "p \<in> limits os" "executable os p = V" "demand_above os p \<le> V" by (auto simp: A_def M_def)
  have "offers_below os p \<le> V"
  proof (rule ccontr)
    assume "\<not> offers_below os p \<le> V"
    then have gt: "V < offers_below os p" by simp
    then have "0 < side_sum os Sell (\<lambda>l. l < p)" by (simp add: offers_below_def)
    from prev_limit [OF this] obtain q where q: "q \<in> limits os" "q < p" "offers os q = offers_below os p"
      by (auto simp: offers_below_def)
    have dp: "demand os p = V" using gt offers_below_le [of os p] pM(2) by (simp add: executable_def)
    have "V \<le> demand os q" using demand_antimono [of q p os] q(2) dp by simp
    then have "V \<le> executable os q" using gt q(3) by (simp add: executable_def)
    with le_V [of q] have e: "executable os q = V" by simp
    then have "demand os q = V" using gt q(3) by (simp add: executable_def min_def split: if_splits)
    then have "q \<in> A" using demand_above_le [of os q] e q(1) by (simp add: A_def M_def)
    with Min_le [OF A(1) this] q(2) show False by (simp add: p_def)
  qed
  with pM V le_V show ?thesis by (auto simp: valid_at_def serves_better_def)
qed

subsection \<open>The statistics the selection works on\<close>

definition valid_limits :: "clearing_order list \<Rightarrow> money list" where
  "valid_limits os = filter (valid_at os) (candidate_prices os)"

lemma set_candidate_prices [simp]: "set (candidate_prices os) = limits os"
  by (simp add: candidate_prices_def)

lemma try_map_stats:
  "try_map (candidate_stats os) ps = Inr cs \<Longrightarrow>
    List.map_filter id cs = map (stats_at os) (filter (valid_at os) ps)"
  by (induction ps arbitrary: cs)
    (auto simp: bind_result_Inr_iff map_filter_simps dest!: candidate_stats_Inr)

lemma try_map_total:
  "(\<And>x. x \<in> set xs \<Longrightarrow> \<exists>y. f x = Inr y) \<Longrightarrow> \<exists>ys. try_map f xs = Inr ys"
proof (induction xs)
  case (Cons x xs)
  then obtain y ys where "f x = Inr y" "try_map f xs = Inr ys" by (metis list.set_intros)
  then show ?case by simp
qed simp

definition best_limits :: "clearing_order list \<Rightarrow> money list" where
  "best_limits os = filter (\<lambda>p. executable os p = Max (executable os ` set (valid_limits os))) (valid_limits os)"

lemma select_clearing_stats:
  assumes "select_clearing os pc ex tick = Inr r"
  shows "if valid_limits os = [] then r = None
    else (case ex of Shanghai \<Rightarrow> select_shanghai os (map (stats_at os) (best_limits os)) tick
      | Shenzhen \<Rightarrow> select_shenzhen (map (stats_at os) (best_limits os)) pc) = Inr r"
proof -
  from assms obtain cs where cs: "try_map (candidate_stats os) (candidate_prices os) = Inr cs"
    and r: "(let stats = List.map_filter id cs in
      if stats = [] then Inr None else
      let max_volume = Max (set (map cd_volume stats));
          best = filter (\<lambda>c. cd_volume c = max_volume) stats in
      (case ex of Shanghai \<Rightarrow> select_shanghai os best tick | Shenzhen \<Rightarrow> select_shenzhen best pc)) = Inr r"
    unfolding select_clearing_def bind_result_Inr_iff by blast
  have st: "List.map_filter id cs = map (stats_at os) (valid_limits os)"
    unfolding valid_limits_def by (rule try_map_stats [OF cs])
  have mv: "set (map cd_volume (map (stats_at os) (valid_limits os))) = executable os ` set (valid_limits os)"
    by (auto simp: image_iff)
  have bl: "filter (\<lambda>c. cd_volume c = mx) (map (stats_at os) (valid_limits os))
      = map (stats_at os) (filter (\<lambda>p. executable os p = mx) (valid_limits os))" for mx
    by (simp add: filter_map o_def)
  show ?thesis using r unfolding st Let_def mv bl best_limits_def by (auto split: if_splits)
qed

lemma best_limits_max:
  assumes "p \<in> set (best_limits os)"
  shows "valid_at os p" "p \<in> limits os" "executable os q \<le> executable os p"
proof -
  show v: "valid_at os p" "p \<in> limits os" using assms by (auto simp: best_limits_def valid_limits_def)
  then have "0 < executable os p" by (simp add: valid_at_def)
  from valid_maximum_exists [OF this] obtain m where m: "m \<in> limits os" "valid_at os m"
    "\<forall>q. executable os q \<le> executable os m" by blast
  then have "m \<in> set (valid_limits os)" by (simp add: valid_limits_def)
  moreover have "executable os p = Max (executable os ` set (valid_limits os))"
    using assms by (simp add: best_limits_def)
  ultimately have "executable os m \<le> executable os p" by simp
  with m show "executable os q \<le> executable os p" by (meson le_trans)
qed

lemma best_limits_empty: "best_limits os = [] \<longleftrightarrow> valid_limits os = []"
proof
  assume b: "best_limits os = []"
  show "valid_limits os = []"
  proof (rule ccontr)
    assume "valid_limits os \<noteq> []"
    then have "Max (executable os ` set (valid_limits os)) \<in> executable os ` set (valid_limits os)"
      by (intro Max_in) auto
    with b show False by (auto simp: best_limits_def filter_empty_conv)
  qed
qed (simp add: best_limits_def)

lemma valid_limits_empty: "valid_limits os = [] \<longleftrightarrow> (\<forall>p. executable os p = 0)"
proof
  assume v: "valid_limits os = []"
  show "\<forall>p. executable os p = 0"
  proof (rule ccontr)
    assume "\<not> (\<forall>p. executable os p = 0)"
    then obtain p where "0 < executable os p" by auto
    from valid_maximum_exists [OF this] v show False by (auto simp: valid_limits_def filter_empty_conv)
  qed
qed (simp add: valid_limits_def filter_empty_conv valid_at_def)

subsection \<open>The tie-breaks\<close>

definition on_grid :: "money \<Rightarrow> clearing_order list \<Rightarrow> bool" where
  "on_grid tick os \<longleftrightarrow> 0 < tick \<and> (\<forall>l\<in>limits os. 0 < l \<and> tick dvd l \<and> in_i64 l)"

lemma rounded_midpoint_between:
  assumes t: "0 < tick" and low: "tick dvd low" "0 < low" and high: "tick dvd high" "low \<le> high" "in_i64 high"
  shows "\<exists>m. rounded_midpoint low high tick = Inr m \<and> low \<le> m \<and> m \<le> high \<and> tick dvd m"
proof -
  obtain a b where a: "low = tick * a" and b: "high = tick * b" using low(1) high(1) by (auto simp: dvd_def)
  have ab: "a \<le> b" "0 < a" using high(2) low(2) t by (simp_all add: a b zero_less_mult_iff)
  define c where "c = (a + b + 1) div 2"
  have c: "a \<le> c" "c \<le> b" using ab(1) by (simp_all add: c_def)
  have "low + high + tick = (a + b + 1) * tick" by (simp add: a b algebra_simps)
  then have "(low + high + tick) div (tick * 2) = c"
    using div_mult_mult2 [of tick "a + b + 1" 2] t by (simp add: c_def mult.commute)
  moreover have "0 \<le> low + high + tick" using low(2) high(2) t by simp
  ultimately have m: "trunc_div (low + high + tick) (tick * 2) * tick = c * tick"
    by (simp add: trunc_div_def)
  have lm: "low \<le> c * tick" "c * tick \<le> high"
    using c t by (simp_all add: a b mult.commute mult_left_mono)
  with low(2) high(3) have "in_i64 (c * tick)" by (auto simp: in_i64_def)
  with m lm t show ?thesis by (simp add: rounded_midpoint_def checked_i64_def)
qed

text \<open>Between two valid prices of maximal volume every price is valid, of maximal volume, and
  strictly between them balanced.\<close>

lemma between_valid:
  assumes low: "valid_at os low" "\<forall>q. executable os q \<le> executable os low"
    and high: "valid_at os high" "\<forall>q. executable os q \<le> executable os high"
    and m: "low < m" "m < high"
  shows "valid_at os m" "executable os m = executable os low" "imbalance_at os m = 0"
proof -
  define V where "V = executable os low"
  have hV: "executable os high = V" using low(2) high(2) by (simp add: V_def le_antisym)
  have "V \<le> demand os high" "V \<le> offers os low" using hV by (auto simp: V_def executable_def)
  then have ge: "V \<le> demand os m" "V \<le> offers os m"
    using demand_antimono [of m high os] offers_mono [of low m os] m by simp_all
  have "demand os m \<le> demand_above os low" by (rule demand_above_less [OF m(1)])
  moreover have "demand_above os low \<le> V" using low(1) by (simp add: valid_at_def serves_better_def V_def)
  ultimately have d: "demand os m = V" using ge by simp
  have "offers os m \<le> offers_below os high" by (rule offers_below_less [OF m(2)])
  moreover have "offers_below os high \<le> V" using high(1) hV by (simp add: valid_at_def serves_better_def)
  ultimately have s: "offers os m = V" using ge by simp
  have e: "executable os m = V" by (simp add: executable_def d s)
  then show "executable os m = executable os low" by (simp add: V_def)
  show "imbalance_at os m = 0" by (simp add: imbalance_at_def d s abs_diff_def)
  have "0 < V" using low(1) by (simp add: V_def valid_at_def)
  then show "valid_at os m" using demand_above_le [of os m] offers_below_le [of os m]
    by (simp add: valid_at_def serves_better_def e d s)
qed

definition maximal_at :: "clearing_order list \<Rightarrow> money \<Rightarrow> bool" where
  "maximal_at os p \<longleftrightarrow> valid_at os p \<and> (\<forall>q. executable os q \<le> executable os p)"

lemma best_limits_iff: "p \<in> set (best_limits os) \<longleftrightarrow> p \<in> limits os \<and> maximal_at os p"
proof
  assume "p \<in> set (best_limits os)"
  from best_limits_max [OF this] show "p \<in> limits os \<and> maximal_at os p" by (auto simp: maximal_at_def)
next
  assume p: "p \<in> limits os \<and> maximal_at os p"
  then have v: "p \<in> set (valid_limits os)" by (simp add: valid_limits_def maximal_at_def)
  have "Max (executable os ` set (valid_limits os)) = executable os p"
    using v p by (intro Max_eqI) (auto simp: maximal_at_def)
  with v show "p \<in> set (best_limits os)" by (simp add: best_limits_def)
qed

lemma select_shanghai_spec:
  assumes g: "on_grid tick os" and s: "select_shanghai os (map (stats_at os) (best_limits os)) tick = Inr r"
    and ne: "best_limits os \<noteq> []"
  shows "\<exists>s. r = Some s \<and> maximal_at os (cs_price s) \<and> s = cd_result (stats_at os (cs_price s))
    \<and> tick dvd cs_price s \<and> 0 < cs_price s \<and> in_i64 (cs_price s)
    \<and> (\<forall>p. p \<in> limits os \<and> maximal_at os p \<longrightarrow> cs_imbalance s \<le> imbalance_at os p)"
proof -
  define I where "I = Min (imbalance_at os ` set (best_limits os))"
  define K where "K = {p \<in> set (best_limits os). imbalance_at os p = I}"
  have img: "set (map cd_imbalance (map (stats_at os) xs)) = imbalance_at os ` set xs"
    "set (map cd_price (map (stats_at os) xs)) = set xs" for xs by (auto simp: image_iff)
  have flt: "filter (\<lambda>c. cd_imbalance c = I) (map (stats_at os) (best_limits os))
      = map (stats_at os) (filter (\<lambda>p. imbalance_at os p = I) (best_limits os))"
    by (simp add: filter_map o_def)
  have Iin: "I \<in> imbalance_at os ` set (best_limits os)" unfolding I_def using ne by (intro Min_in) auto
  then have K: "finite K" "K \<noteq> {}" by (auto simp: K_def)
  define low where "low = Min K"
  define high where "high = Max K"
  have lK: "low \<in> K" "high \<in> K" unfolding low_def high_def using K by auto
  have lh: "low \<le> high" unfolding low_def high_def using K by (simp add: Min_le)
  have lim: "p \<in> limits os" "maximal_at os p" if "p \<in> K" for p
    using that best_limits_iff by (auto simp: K_def)
  have gl: "0 < tick" "tick dvd low" "0 < low" "tick dvd high" "in_i64 high"
    using g lim [OF lK(1)] lim [OF lK(2)] by (auto simp: on_grid_def)
  from rounded_midpoint_between [OF gl(1-4) lh gl(5)] obtain m where
    m: "rounded_midpoint low high tick = Inr m" "low \<le> m" "m \<le> high" "tick dvd m" by blast
  have mm: "maximal_at os m \<and> imbalance_at os m \<le> I"
  proof (cases "m = low \<or> m = high")
    case True
    with lK lim show ?thesis by (auto simp: K_def)
  next
    case False
    with m have b: "low < m" "m < high" by auto
    from lim(2) [OF lK(1)] lim(2) [OF lK(2)] between_valid [OF _ _ _ _ b, of os]
    show ?thesis by (auto simp: maximal_at_def)
  qed
  have "filter (\<lambda>p. imbalance_at os p = I) (best_limits os) \<noteq> []" using K by (auto simp: K_def filter_empty_conv)
  moreover have "set (filter (\<lambda>p. imbalance_at os p = I) (best_limits os)) = K" by (auto simp: K_def)
  ultimately have "candidate_stats os m = Inr c \<Longrightarrow> r = map_option cd_result c" 
    and ex: "\<exists>c. candidate_stats os m = Inr c" for c
    using s ne unfolding select_shanghai_def Let_def img I_def [symmetric] flt
    by (auto simp: img low_def [symmetric] high_def [symmetric] m(1) bind_result_Inr_iff simp del: set_map)
  then have r: "r = Some (cd_result (stats_at os m))"
    using candidate_stats_Inr mm by (metis maximal_at_def option.simps(9))
  have "\<forall>p. p \<in> limits os \<and> maximal_at os p \<longrightarrow> I \<le> imbalance_at os p"
    using best_limits_iff by (auto simp: I_def)
  with r mm m gl(3,5) show ?thesis by (force simp: in_i64_def)
qed

lemma select_shanghai_total:
  assumes g: "on_grid tick os" and ne: "best_limits os \<noteq> []"
    and tot: "\<And>p. candidate_stats os p = Inr (if valid_at os p then Some (stats_at os p) else None)"
  shows "\<exists>r. select_shanghai os (map (stats_at os) (best_limits os)) tick = Inr r"
proof -
  define I where "I = Min (imbalance_at os ` set (best_limits os))"
  define ks where "ks = filter (\<lambda>p. imbalance_at os p = I) (best_limits os)"
  have img: "set (map cd_imbalance (map (stats_at os) xs)) = imbalance_at os ` set xs"
    "set (map cd_price (map (stats_at os) xs)) = set xs" for xs by (auto simp: image_iff)
  have flt: "filter (\<lambda>c. cd_imbalance c = I) (map (stats_at os) (best_limits os)) = map (stats_at os) ks"
    by (simp add: filter_map o_def ks_def)
  have "I \<in> imbalance_at os ` set (best_limits os)" unfolding I_def using ne by (intro Min_in) auto
  then have kne: "ks \<noteq> []" by (auto simp: ks_def filter_empty_conv)
  define low where "low = Min (set ks)"
  define high where "high = Max (set ks)"
  have "low \<in> set ks" "high \<in> set ks" "low \<le> high"
    unfolding low_def high_def using kne by (auto simp: Min_le)
  then have "low \<in> limits os" "high \<in> limits os" "low \<le> high"
    using best_limits_iff by (auto simp: ks_def)
  with g rounded_midpoint_between [of tick low high] obtain m where "rounded_midpoint low high tick = Inr m"
    by (auto simp: on_grid_def)
  then show ?thesis using ne kne
    unfolding select_shanghai_def Let_def img I_def [symmetric] flt low_def [symmetric] high_def [symmetric]
    by (simp add: tot)
qed

lemma arg_min_list_lex:
  assumes "xs \<noteq> []"
  shows "arg_min_list f xs \<in> set xs \<and> (\<forall>x\<in>set xs. f (arg_min_list f xs) \<le> f x)"
  using arg_min_list_in [OF assms] f_arg_min_list_f [OF assms, of f] by simp

lemma select_shenzhen_spec:
  assumes s: "select_shenzhen (map (stats_at os) (best_limits os)) pc = Inr r" and ne: "best_limits os \<noteq> []"
  shows "\<exists>s. r = Some s \<and> cs_price s \<in> limits os \<and> maximal_at os (cs_price s)
    \<and> s = cd_result (stats_at os (cs_price s))
    \<and> (\<forall>p. p \<in> limits os \<and> maximal_at os p \<longrightarrow>
        aggressive_diff_at os (cs_price s) < aggressive_diff_at os p
        \<or> aggressive_diff_at os (cs_price s) = aggressive_diff_at os p
          \<and> (\<bar>cs_price s - pc\<bar>, cs_price s) \<le> (\<bar>p - pc\<bar>, p))"
proof -
  define D where "D = Min (aggressive_diff_at os ` set (best_limits os))"
  define ks where "ks = filter (\<lambda>p. aggressive_diff_at os p = D) (best_limits os)"
  have img: "set (map cd_aggressive_difference (map (stats_at os) xs)) = aggressive_diff_at os ` set xs" for xs
    by (auto simp: image_iff)
  have flt: "filter (\<lambda>c. cd_aggressive_difference c = D) (map (stats_at os) (best_limits os)) = map (stats_at os) ks"
    by (simp add: filter_map o_def ks_def)
  have "D \<in> aggressive_diff_at os ` set (best_limits os)" unfolding D_def using ne by (intro Min_in) auto
  then have kne: "ks \<noteq> []" by (auto simp: ks_def filter_empty_conv)
  define f where "f = (\<lambda>c. (\<bar>cd_price c - pc\<bar>, cd_price c))"
  define c where "c = arg_min_list f (map (stats_at os) ks)"
  have r: "r = Some (cd_result c)"
    using s ne kne unfolding select_shenzhen_def Let_def img D_def [symmetric] flt
    by (simp add: c_def f_def)
  have cm: "c \<in> set (map (stats_at os) ks)" "\<forall>x\<in>set (map (stats_at os) ks). f c \<le> f x"
    using arg_min_list_lex [of "map (stats_at os) ks" f] kne by (auto simp: c_def)
  then obtain p where p: "p \<in> set ks" "c = stats_at os p" by auto
  have pm: "p \<in> limits os" "maximal_at os p" "aggressive_diff_at os p = D"
    using p(1) best_limits_iff by (auto simp: ks_def)
  have "aggressive_diff_at os p < aggressive_diff_at os q
      \<or> aggressive_diff_at os p = aggressive_diff_at os q \<and> (\<bar>p - pc\<bar>, p) \<le> (\<bar>q - pc\<bar>, q)"
    if q: "q \<in> limits os \<and> maximal_at os q" for q
  proof -
    have qb: "q \<in> set (best_limits os)" using q best_limits_iff by blast
    then have "D \<le> aggressive_diff_at os q" by (simp add: D_def)
    moreover have "(\<bar>p - pc\<bar>, p) \<le> (\<bar>q - pc\<bar>, q)" if "aggressive_diff_at os q = D"
      using cm(2) qb that p(2) by (auto simp: ks_def f_def)
    ultimately show ?thesis using pm(3) by force
  qed
  with r pm p(2) show ?thesis by auto
qed

lemma select_clearing_cases:
  assumes "select_clearing os pc ex tick = Inr r" "ex = Shanghai \<Longrightarrow> on_grid tick os"
  shows "(r = None \<and> (\<forall>p. executable os p = 0)) \<or>
    (\<exists>s. r = Some s \<and> maximal_at os (cs_price s) \<and> s = cd_result (stats_at os (cs_price s)))"
proof (cases "valid_limits os = []")
  case True
  then have "r = None" using select_clearing_stats [OF assms(1)] by simp
  with True show ?thesis by (simp add: valid_limits_empty)
next
  case False
  then have ne: "best_limits os \<noteq> []" by (simp add: best_limits_empty)
  show ?thesis
  proof (cases ex)
    case Shanghai
    then have "select_shanghai os (map (stats_at os) (best_limits os)) tick = Inr r"
      using select_clearing_stats [OF assms(1)] False by simp
    from select_shanghai_spec [OF assms(2) [OF Shanghai] this ne] show ?thesis by blast
  next
    case Shenzhen
    then have "select_shenzhen (map (stats_at os) (best_limits os)) pc = Inr r"
      using select_clearing_stats [OF assms(1)] False by simp
    from select_shenzhen_spec [OF this ne] show ?thesis by blast
  qed
qed

lemma select_clearing_price:
  assumes g: "on_grid tick os" and s: "select_clearing os pc ex tick = Inr (Some s)"
  shows "0 < cs_price s" "maximal_at os (cs_price s)" "cs_volume s = executable os (cs_price s)"
    "cs_imbalance s = imbalance_at os (cs_price s)"
proof -
  have nv: "valid_limits os \<noteq> []" using select_clearing_stats [OF s] by auto
  then have ne: "best_limits os \<noteq> []" by (simp add: best_limits_empty)
  have "0 < cs_price s \<and> maximal_at os (cs_price s) \<and> s = cd_result (stats_at os (cs_price s))"
  proof (cases ex)
    case Shanghai
    then have "select_shanghai os (map (stats_at os) (best_limits os)) tick = Inr (Some s)"
      using select_clearing_stats [OF s] nv by simp
    from select_shanghai_spec [OF g this ne] show ?thesis by blast
  next
    case Shenzhen
    then have "select_shenzhen (map (stats_at os) (best_limits os)) pc = Inr (Some s)"
      using select_clearing_stats [OF s] nv by simp
    from select_shenzhen_spec [OF this ne] g show ?thesis by (auto simp: on_grid_def)
  qed
  then have m: "0 < cs_price s" "maximal_at os (cs_price s)" and e: "s = cd_result (stats_at os (cs_price s))"
    by blast+
  show "0 < cs_price s" "maximal_at os (cs_price s)" by (rule m)+
  show "cs_volume s = executable os (cs_price s)" "cs_imbalance s = imbalance_at os (cs_price s)"
    by (subst e, simp)+
qed

lemma try_map_each: "try_map f xs = Inr ys \<Longrightarrow> x \<in> set xs \<Longrightarrow> \<exists>y. f x = Inr y"
  by (induction xs arbitrary: ys) (auto simp: bind_result_Inr_iff)

text \<open>The checks that the candidates are not empty never fail; a selection fails on an overflow only.\<close>

definition overflow_reject :: "order_error \<Rightarrow> bool" where
  "overflow_reject e \<longleftrightarrow> e = rejected QuantityOverflow \<or> e = rejected PriceOverflow"

lemma checked_qty_sum_Inl: "checked_qty_sum qs = Inl e \<Longrightarrow> overflow_reject e"
proof -
  have "try_fold add_qty n qs = Inl e \<Longrightarrow> overflow_reject e" for n
    by (induction qs arbitrary: n) (auto simp: add_qty_def bind_result_Inl_iff ok_or_def overflow_reject_def split: option.splits)
  then show "checked_qty_sum qs = Inl e \<Longrightarrow> overflow_reject e" by (simp add: checked_qty_sum_def)
qed

lemma candidate_stats_Inl: "candidate_stats os price = Inl e \<Longrightarrow> overflow_reject e"
  by (auto simp: candidate_stats_def bind_result_Inl_iff Let_def dest: checked_qty_sum_Inl split: if_splits)

lemma try_map_Inl: "try_map f xs = Inl e \<Longrightarrow> \<exists>x\<in>set xs. f x = Inl e"
  by (induction xs) (auto simp: bind_result_Inl_iff)

lemma filter_extreme:
  fixes f :: "'a \<Rightarrow> 'b::linorder"
  assumes "xs \<noteq> []"
  shows "filter (\<lambda>x. f x = Max (set (map f xs))) xs \<noteq> []" "filter (\<lambda>x. f x = Min (set (map f xs))) xs \<noteq> []"
proof -
  have "Max (set (map f xs)) \<in> set (map f xs)" "Min (set (map f xs)) \<in> set (map f xs)"
    using assms by (intro Max_in Min_in; simp)+
  then show "filter (\<lambda>x. f x = Max (set (map f xs))) xs \<noteq> []" "filter (\<lambda>x. f x = Min (set (map f xs))) xs \<noteq> []"
    by (auto simp: filter_empty_conv)
qed

lemma select_clearing_error:
  assumes "select_clearing os pc ex tick = Inl e" "0 < tick"
  shows "overflow_reject e"
proof (cases "try_map (candidate_stats os) (candidate_prices os)")
  case (Inl e')
  with assms(1) have "try_map (candidate_stats os) (candidate_prices os) = Inl e" by (simp add: select_clearing_def)
  from try_map_Inl [OF this] candidate_stats_Inl show ?thesis by blast
next
  case (Inr cs)
  define stats where "stats = List.map_filter id cs"
  define best where "best = filter (\<lambda>c. cd_volume c = Max (set (map cd_volume stats))) stats"
  have "(if stats = [] then Inr None else case ex of Shanghai \<Rightarrow> select_shanghai os best tick | Shenzhen \<Rightarrow> select_shenzhen best pc) = Inl e"
    using assms(1) unfolding best_def stats_def select_clearing_def Let_def Inr bind_result_simps .
  then have sel: "stats \<noteq> []" "(case ex of Shanghai \<Rightarrow> select_shanghai os best tick | Shenzhen \<Rightarrow> select_shenzhen best pc) = Inl e"
    by (simp_all split: if_splits)
  have best: "best \<noteq> []" using filter_extreme(1) [OF sel(1)] by (simp add: best_def)
  show ?thesis
  proof (cases ex)
    case Shanghai
    with sel(2) best filter_extreme(2) [OF best, of cd_imbalance] assms(2) show ?thesis
      by (auto simp: select_shanghai_def Let_def bind_result_Inl_iff rounded_midpoint_def ok_or_def overflow_reject_def
          dest: candidate_stats_Inl [unfolded overflow_reject_def] split: option.splits simp del: set_map)
  next
    case Shenzhen
    with sel(2) best show ?thesis by (auto simp: select_shenzhen_def Let_def split: if_splits)
  qed
qed

lemma select_clearing_volume:
  assumes "select_clearing os pc ex tick = Inr r"
  shows "executable os p \<le> u64_max"
proof (cases "0 < executable os p")
  case True
  then obtain l where l: "l \<in> limits os" "executable os p \<le> executable os l"
    using limit_suffices by blast
  from assms obtain cs where "try_map (candidate_stats os) (candidate_prices os) = Inr cs"
    unfolding select_clearing_def bind_result_Inr_iff by blast
  from try_map_each [OF this] l(1) obtain c where "candidate_stats os l = Inr c" by auto
  then have "demand os l \<le> u64_max"
    unfolding candidate_stats_def bind_result_Inr_iff checked_qty_sum_Inr
    by (auto simp: demand_def side_sum_def)
  with l(2) show ?thesis by (simp add: executable_def)
qed simp

subsection \<open>Properties\<close>

text \<open>
  C5 (The auction price executes the most). Whatever the exchange rule, when a clearing price is
  selected, its volume is positive, is what demand and supply at that price execute, and no
  price, on or off the order limits, executes more; every order with a strictly better limit is
  served in full. Nothing is selected exactly when no price executes anything.
\<close>

theorem auction_maximises_volume:
  assumes "select_clearing os pc ex tick = Inr r" "ex = Shanghai \<longrightarrow> on_grid tick os"
  shows "case r of
      None \<Rightarrow> \<forall>p. executable os p = 0
    | Some s \<Rightarrow> 0 < cs_volume s \<and> cs_volume s = executable os (cs_price s)
        \<and> (\<forall>q. executable os q \<le> cs_volume s) \<and> serves_better os (cs_price s)"
proof (cases r)
  case None
  with select_clearing_cases [OF assms(1)] assms(2) show ?thesis by auto
next
  case (Some s)
  with select_clearing_cases [OF assms(1)] assms(2) have m: "maximal_at os (cs_price s)"
    and s: "s = cd_result (stats_at os (cs_price s))" by auto
  have "cs_volume s = executable os (cs_price s)" by (subst s) simp
  with m Some show ?thesis by (simp add: maximal_at_def valid_at_def)
qed

lemmas select_clearing_eval = select_clearing_def select_shanghai_def select_shenzhen_def
  candidate_stats_def candidate_prices_def checked_qty_sum_def add_qty_def side_qtys_def
  checked_u64_def cd_volume_def cd_imbalance_def cd_price_def abs_diff_def Let_def map_filter_simps
  rounded_midpoint_def trunc_div_def checked_i64_def in_i64_def

definition two_orders :: "clearing_order list" where
  "two_orders = [\<lparr>co_side = Buy, co_limit = 1000, co_qty = 300\<rparr>,
     \<lparr>co_side = Sell, co_limit = 900, co_qty = 200\<rparr>]"

lemma two_orders_selection:
  "select_clearing two_orders 950 Shanghai 1
    = Inr (Some \<lparr>cs_price = 1000, cs_volume = 200, cs_imbalance = 100\<rparr>)"
  by (simp add: select_clearing_eval two_orders_def del: checked_qty_sum_Inr)

lemma two_orders_grid: "on_grid 1 two_orders"
  by (simp add: on_grid_def two_orders_def in_i64_def)

lemma auction_maximises_volume_witness:
  "\<forall>q. executable two_orders q \<le> 200"
  using auction_maximises_volume [OF two_orders_selection] two_orders_grid by simp

text \<open>
  When the quantities of each side fit \<open>u64\<close> and the limits are
  positive multiples of the tick, the selection returns without error for both exchanges; in
  particular neither the midpoint overflow nor the internal mismatch can be reported.
\<close>

theorem auction_selection_total:
  assumes "side_sum os Buy (\<lambda>_. True) \<le> u64_max" "side_sum os Sell (\<lambda>_. True) \<le> u64_max"
    and g: "on_grid tick os"
  shows "\<exists>r. select_clearing os pc ex tick = Inr r"
proof -
  note tot = candidate_stats_total [OF assms(1,2)]
  obtain cs where cs: "try_map (candidate_stats os) (candidate_prices os) = Inr cs"
    using try_map_total [of "candidate_prices os" "candidate_stats os"] tot by blast
  have st: "List.map_filter id cs = map (stats_at os) (valid_limits os)"
    unfolding valid_limits_def by (rule try_map_stats [OF cs])
  show ?thesis
  proof (cases "valid_limits os = []")
    case True
    then show ?thesis unfolding select_clearing_def cs bind_result_simps Let_def st by simp
  next
    case False
    then have ne: "best_limits os \<noteq> []" by (simp add: best_limits_empty)
    have mv: "set (map cd_volume (map (stats_at os) (valid_limits os))) = executable os ` set (valid_limits os)"
      by (auto simp: image_iff)
    have bl: "filter (\<lambda>c. cd_volume c = mx) (map (stats_at os) (valid_limits os))
        = map (stats_at os) (filter (\<lambda>p. executable os p = mx) (valid_limits os))" for mx
      by (simp add: filter_map o_def)
    have "\<exists>r. select_shanghai os (map (stats_at os) (best_limits os)) tick = Inr r"
      by (rule select_shanghai_total [OF g ne tot])
    moreover have "\<exists>r. select_shenzhen (map (stats_at os) (best_limits os)) pc = Inr r"
      using ne by (simp add: select_shenzhen_def Let_def)
    ultimately show ?thesis
      unfolding select_clearing_def cs bind_result_simps Let_def st mv bl best_limits_def [symmetric]
      using False by (cases ex) auto
  qed
qed

lemma auction_selection_total_witness:
  "\<exists>r. select_clearing two_orders 0 Shenzhen 1 = Inr r"
  by (rule auction_selection_total)
    (simp_all add: two_orders_grid, simp_all add: two_orders_def side_sum_def side_qtys_def)

text \<open>
  Among the limit prices that execute the maximal volume and
  serve every better order, Shanghai's price has an imbalance no larger than any of them and is a
  multiple of the tick; Shenzhen's is one of them with the smallest difference between the
  strictly better quantities, then closest to the previous close, then lowest.
\<close>

theorem auction_tie_breaks:
  assumes "on_grid tick os" "select_clearing os pc ex tick = Inr (Some s)"
    and "p \<in> limits os" "maximal_at os p"
  shows "case ex of
      Shanghai \<Rightarrow> tick dvd cs_price s \<and> cs_imbalance s = imbalance_at os (cs_price s)
        \<and> cs_imbalance s \<le> imbalance_at os p
    | Shenzhen \<Rightarrow> cs_price s \<in> limits os \<and>
        (aggressive_diff_at os (cs_price s) < aggressive_diff_at os p
        \<or> aggressive_diff_at os (cs_price s) = aggressive_diff_at os p
          \<and> (\<bar>cs_price s - pc\<bar>, cs_price s) \<le> (\<bar>p - pc\<bar>, p))"
proof -
  have "p \<in> set (best_limits os)" using assms(3,4) best_limits_iff by blast
  then have ne: "best_limits os \<noteq> []" by auto
  then have nv: "valid_limits os \<noteq> []" by (simp add: best_limits_empty)
  show ?thesis
  proof (cases ex)
    case Shanghai
    then have "select_shanghai os (map (stats_at os) (best_limits os)) tick = Inr (Some s)"
      using select_clearing_stats [OF assms(2)] nv by simp
    from select_shanghai_spec [OF assms(1) this ne] obtain s' where s': "s = s'"
      "s' = cd_result (stats_at os (cs_price s'))" "tick dvd cs_price s'"
      "\<forall>p. p \<in> limits os \<and> maximal_at os p \<longrightarrow> cs_imbalance s' \<le> imbalance_at os p"
      by blast
    have "cs_imbalance s' = imbalance_at os (cs_price s')" by (subst s'(2)) simp
    with s' assms(3,4) Shanghai show ?thesis by simp
  next
    case Shenzhen
    then have "select_shenzhen (map (stats_at os) (best_limits os)) pc = Inr (Some s)"
      using select_clearing_stats [OF assms(2)] nv by simp
    from select_shenzhen_spec [OF this ne] assms(3,4) Shenzhen show ?thesis by auto
  qed
qed

lemma auction_tie_breaks_witness:
  "cs_imbalance \<lparr>cs_price = 1000, cs_volume = 200, cs_imbalance = 100\<rparr> \<le> imbalance_at two_orders 1000"
proof -
  have e: "executable two_orders q \<le> 200" for q
    by (simp add: executable_def demand_def offers_def side_sum_def side_qtys_def two_orders_def)
  have "executable two_orders 1000 = 200" "valid_at two_orders 1000"
    by (simp_all add: valid_at_def serves_better_def executable_def demand_def offers_def
        demand_above_def offers_below_def side_sum_def side_qtys_def two_orders_def)
  with e have "maximal_at two_orders 1000" by (simp add: maximal_at_def)
  from auction_tie_breaks [OF two_orders_grid two_orders_selection _ this] show ?thesis
    by (simp add: two_orders_def)
qed

end
