(* ===== verification/Order_Book.thy ===== *)
theory Order_Book
  imports Matching Auction_Clearing
begin

section \<open>The order book of one stock (orderbook.rs)\<close>

text \<open>
  \<open>OrderBook\<close>: the book state, the arrival counter, the tick and the matching mode, with every
  operation of the source. An operation that changes the book returns its result together with
  the book it leaves, so that a rejected call can be compared with the book before it.
\<close>

record order_book =
  ob_state :: book_state
  ob_next_seq :: nat
  ob_tick :: money
  ob_mode :: matching_mode

record book_delta =
  bd_expected_next_seq :: nat
  bd_next_seq :: nat
  bd_changes :: "order_change list"

definition new_book :: "money \<Rightarrow> order_error + order_book" where
  "new_book tick = (if tick \<le> 0 then Inl (InvalidTick tick)
     else Inr \<lparr>ob_state = empty_book_state, ob_next_seq = 0, ob_tick = tick, ob_mode = Continuous\<rparr>)"

definition best_bid :: "order_book \<Rightarrow> money option" where
  "best_bid b = map_option (\<lambda>((p, _), _). unreverse p) (bt_first (bs_bids (ob_state b)))"

definition best_ask :: "order_book \<Rightarrow> money option" where
  "best_ask b = map_option (\<lambda>((p, _), _). p) (bt_first (bs_asks (ob_state b)))"

definition set_mode :: "matching_mode \<Rightarrow> order_book \<Rightarrow> (order_error + unit) \<times> order_book" where
  "set_mode mode b =
    (if mode = Continuous \<and> (case (best_bid b, best_ask b) of
          (Some bid, Some ask) \<Rightarrow> ask \<le> bid | _ \<Rightarrow> False)
     then (Inl (InvalidAuctionClearing CrossedContinuous), b)
     else (Inr (), b\<lparr>ob_mode := mode\<rparr>))"

subsection \<open>Placing orders\<close>

definition check_price :: "money \<Rightarrow> order \<Rightarrow> order_error + unit" where
  "check_price tick od =
    (if ord_price od \<le> 0 \<or> ord_price od mod tick \<noteq> 0
     then Inl (InvalidPrice (ord_price od) tick
       (if ord_price od \<le> 0 then NonPositive else NotTickMultiple))
     else Inr ())"

definition known_id :: "order_id \<Rightarrow> book_state \<Rightarrow> bool" where
  "known_id oid st \<longleftrightarrow> filled_owner (bs_filled st) oid \<noteq> None \<or> resting_get (bs_live st) oid \<noteq> None"

text \<open>The end of both placing paths: the next sequence number is taken, then the order rests.\<close>

definition rest_order :: "order \<Rightarrow> order_book \<Rightarrow> (order_error + order) \<times> order_book" where
  "rest_order od b =
    try_in (ok_or SequenceOverflow (checked_u64 (ob_next_seq b + 1))) b (\<lambda>next.
      let b1 = b\<lparr>ob_next_seq := next\<rparr>; od1 = od\<lparr>ord_seq := ob_next_seq b\<rparr> in
      (case insert_resting od1 (ob_state b1) of
        (Inl e, st) \<Rightarrow> (Inl e, b1\<lparr>ob_state := st\<rparr>)
      | (Inr _, st) \<Rightarrow> (Inr od1, b1\<lparr>ob_state := st\<rparr>)))"

definition place_auction :: "order \<Rightarrow> order_book \<Rightarrow> (order_error + match_result) \<times> order_book" where
  "place_auction od b =
    (if known_id (ord_id od) (ob_state b) then (Inl (DuplicateOrderId (ord_id od)), b)
     else try_in (validate_progress od) b (\<lambda>_.
       try_in (check_price (ob_tick b) od) b (\<lambda>_.
       try_st (rest_order od b) (\<lambda>od1 b1.
         (Inr \<lparr>mr_trades = [], mr_resting = Some od1, mr_maker_before = []\<rparr>, b1)))))"

definition place_inner :: "order \<Rightarrow> bool \<Rightarrow> order_book \<Rightarrow> (order_error + match_result) \<times> order_book" where
  "place_inner od record_makers b =
    (if known_id (ord_id od) (ob_state b) then (Inl (DuplicateOrderId (ord_id od)), b)
     else try_in (validate_progress od) b (\<lambda>_.
       try_in (check_price (ob_tick b) od) b (\<lambda>_.
       (case match_loop record_makers od [] [] (ob_state b) of
         (Inl e, st) \<Rightarrow> (Inl e, b\<lparr>ob_state := st\<rparr>)
       | (Inr (od1, trades, before), st) \<Rightarrow>
           let b1 = b\<lparr>ob_state := st\<rparr> in
           if ord_qty od1 = 0 then
             (case record_filled (ord_id od1) (ord_owner od1) st of
               (Inl e, st2) \<Rightarrow> (Inl e, b1\<lparr>ob_state := st2\<rparr>)
             | (Inr _, st2) \<Rightarrow>
                 (Inr \<lparr>mr_trades = trades, mr_resting = None, mr_maker_before = before\<rparr>,
                  b1\<lparr>ob_state := st2\<rparr>))
           else try_st (rest_order od1 b1) (\<lambda>od2 b2.
             (Inr \<lparr>mr_trades = trades, mr_resting = Some od2, mr_maker_before = before\<rparr>, b2))))))"

definition place :: "order \<Rightarrow> order_book \<Rightarrow> (order_error + match_result) \<times> order_book" where
  "place od b = (case ob_mode b of Auction \<Rightarrow> place_auction od b | Continuous \<Rightarrow> place_inner od False b)"

definition place_recording :: "order \<Rightarrow> order_book \<Rightarrow> (order_error + match_result) \<times> order_book" where
  "place_recording od b =
     (case ob_mode b of Auction \<Rightarrow> place_auction od b | Continuous \<Rightarrow> place_inner od True b)"

definition cancel :: "order_id \<Rightarrow> order_book \<Rightarrow> (order_error + order) \<times> order_book" where
  "cancel oid b = (case cancel_order oid (ob_state b) of (r, st) \<Rightarrow> (r, b\<lparr>ob_state := st\<rparr>))"

definition filled_order_owner :: "order_id \<Rightarrow> order_book \<Rightarrow> account_id option" where
  "filled_order_owner oid b = filled_owner (bs_filled (ob_state b)) oid"

definition clear_book :: "order_book \<Rightarrow> order_book" where
  "clear_book b = b\<lparr>ob_state := clear_resting (ob_state b)\<rparr>"

subsection \<open>Views of the book\<close>

definition resting_order_refs :: "order_book \<Rightarrow> order list" where
  "resting_order_refs b = bt_values (bs_bids (ob_state b)) @ bt_values (bs_asks (ob_state b))"

definition resting_orders_for :: "account_id \<Rightarrow> order_book \<Rightarrow> order list" where
  "resting_orders_for owner b = filter (\<lambda>od. ord_owner od = owner) (resting_order_refs b)"

text \<open>In order of arrival; \<open>sort_by_key\<close> is stable, as is \<open>sort_key\<close>.\<close>

definition resting_orders :: "order_book \<Rightarrow> order list" where
  "resting_orders b = sort_key ord_seq (resting_order_refs b)"

definition resting_order_count :: "order_book \<Rightarrow> nat" where
  "resting_order_count b = length (bs_bids (ob_state b)) + length (bs_asks (ob_state b))"

text \<open>Adjacent orders of one price are added up; \<open>rev\<close> of the accumulator is the output so far.\<close>

fun aggregate_loop :: "nat option \<Rightarrow> (money \<times> nat) list \<Rightarrow> order list \<Rightarrow> (money \<times> nat) list" where
  "aggregate_loop max_levels acc [] = rev acc"
| "aggregate_loop max_levels acc (od # ods) =
    (case acc of
      (p, q) # rest \<Rightarrow>
        if p = ord_price od then aggregate_loop max_levels ((p, q + ord_qty od) # rest) ods
        else if Some (length acc) = max_levels then rev acc
        else aggregate_loop max_levels ((ord_price od, ord_qty od) # acc) ods
    | [] \<Rightarrow>
        if Some (length acc) = max_levels then rev acc
        else aggregate_loop max_levels [(ord_price od, ord_qty od)] ods)"

definition bid_depth :: "order_book \<Rightarrow> (money \<times> nat) list" where
  "bid_depth b = aggregate_loop None [] (bt_values (bs_bids (ob_state b)))"

definition ask_depth :: "order_book \<Rightarrow> (money \<times> nat) list" where
  "ask_depth b = aggregate_loop None [] (bt_values (bs_asks (ob_state b)))"

definition bid_depth_limited :: "nat \<Rightarrow> order_book \<Rightarrow> (money \<times> nat) list" where
  "bid_depth_limited n b = aggregate_loop (Some n) [] (bt_values (bs_bids (ob_state b)))"

definition ask_depth_limited :: "nat \<Rightarrow> order_book \<Rightarrow> (money \<times> nat) list" where
  "ask_depth_limited n b = aggregate_loop (Some n) [] (bt_values (bs_asks (ob_state b)))"

subsection \<open>The call auction\<close>

definition clearing_order_of :: "order \<Rightarrow> clearing_order" where
  "clearing_order_of od = \<lparr>co_side = ord_side od, co_limit = ord_price od, co_qty = ord_qty od\<rparr>"

definition clearing_orders :: "order_book \<Rightarrow> clearing_order list" where
  "clearing_orders b = map clearing_order_of (resting_order_refs b)"

definition clearing_selection_of :: "money \<Rightarrow> stock_exchange \<Rightarrow> order_book
    \<Rightarrow> order_error + clearing_selection option" where
  "clearing_selection_of previous_close exchange b =
     select_clearing (clearing_orders b) previous_close exchange (ob_tick b)"

definition indicative_clearing_price :: "money \<Rightarrow> stock_exchange \<Rightarrow> order_book \<Rightarrow> order_error + money option" where
  "indicative_clearing_price previous_close exchange b =
     bind_result (clearing_selection_of previous_close exchange b) (\<lambda>s. Inr (map_option cs_price s))"

definition auction_indicative :: "money \<Rightarrow> stock_exchange \<Rightarrow> order_book
    \<Rightarrow> order_error + (money \<times> nat) option \<times> nat" where
  "auction_indicative previous_close exchange b =
    bind_result (clearing_selection_of previous_close exchange b) (\<lambda>selection.
    bind_result (case selection of
        Some s \<Rightarrow> Inr (cs_imbalance s)
      | None \<Rightarrow> checked_total_imbalance (clearing_orders b)) (\<lambda>imbalance.
    Inr (map_option (\<lambda>s. (cs_price s, cs_volume s)) selection, imbalance)))"

text \<open>
  The execution loop takes the best order of both sides while volume is left. It is bounded by
  that volume: every round either fails or trades at least one share.
\<close>

function auction_loop :: "money \<Rightarrow> nat \<Rightarrow> nat \<Rightarrow> trade list \<Rightarrow> book_state
    \<Rightarrow> (order_error + trade list \<times> nat) \<times> book_state" where
  "auction_loop price volume matched trades st =
    (if volume \<le> matched then (Inr (trades, matched), st)
     else case (case best_opposite Sell st of
          Some buy \<Rightarrow> if price \<le> ord_price buy then Some buy else None | None \<Rightarrow> None) of
       None \<Rightarrow> (Inl (rejected SelectionMismatch), st)
     | Some buy \<Rightarrow>
       (case (case best_opposite Buy st of
            Some sell \<Rightarrow> if ord_price sell \<le> price then Some sell else None | None \<Rightarrow> None) of
         None \<Rightarrow> (Inl (rejected SelectionMismatch), st)
       | Some sell \<Rightarrow>
          let qty = min (ord_qty buy) (ord_qty sell) in
          try_in (map_error OrderMoney (mul_shares price qty)) st (\<lambda>fill_value.
          try_in (filled_value_after buy fill_value) st (\<lambda>buy_after.
          try_in (filled_value_after sell fill_value) st (\<lambda>sell_after.
          try_in (filled_qty_after buy qty) st (\<lambda>buy_qty.
          try_in (filled_qty_after sell qty) st (\<lambda>sell_qty.
          try_in (ok_or (rejected QuantityOverflow) (checked_u64 (matched + qty))) st (\<lambda>volume_after.
          if qty = 0 \<or> volume < volume_after then (Inl (rejected SelectionMismatch), st)
          else
            try_st (apply_maker_fill Sell buy qty buy_after st) (\<lambda>u1 st1.
            try_st (apply_maker_fill Buy sell qty sell_after st1) (\<lambda>u2 st2.
            auction_loop price volume volume_after (trades @ [leg_trade price qty sell buy]) st2))))))))))"
  by pat_completeness auto
termination
  by (relation "measure (\<lambda>(price, volume, matched, trades, st). volume - matched)")
    (auto simp: checked_u64_def split: if_splits)

declare auction_loop.simps [simp del]

definition execute_auction_clearing :: "money \<Rightarrow> stock_exchange \<Rightarrow> order_book
    \<Rightarrow> (order_error + clearing_result) \<times> order_book" where
  "execute_auction_clearing previous_close exchange b =
    (if ob_mode b \<noteq> Auction then (Inl (InvalidAuctionClearing NotInAuctionMode), b)
     else try_in (clearing_selection_of previous_close exchange b) b (\<lambda>selection.
       case selection of
         None \<Rightarrow> (Inr \<lparr>cr_price = None, cr_trades = [], cr_matched_volume = 0\<rparr>, b)
       | Some s \<Rightarrow>
          (case auction_loop (cs_price s) (cs_volume s) 0 [] (ob_state b) of
            (Inl e, st) \<Rightarrow> (Inl e, b\<lparr>ob_state := st\<rparr>)
          | (Inr (trades, matched), st) \<Rightarrow>
              (Inr \<lparr>cr_price = Some (cs_price s), cr_trades = trades, cr_matched_volume = matched\<rparr>,
               b\<lparr>ob_state := st\<rparr>))))"

subsection \<open>Saving, restoring and projecting\<close>

definition filled_orders_of :: "order_book \<Rightarrow> (order_id \<times> account_id) list" where
  "filled_orders_of b = filled_entries (bs_filled (ob_state b))"

definition restore_filled_orders :: "(order_id \<times> account_id) list \<Rightarrow> order_book
    \<Rightarrow> (order_error + unit) \<times> order_book" where
  "restore_filled_orders es b =
     (case state_restore_filled es (ob_state b) of (r, st) \<Rightarrow> (r, b\<lparr>ob_state := st\<rparr>))"

fun duplicate_seq :: "order list \<Rightarrow> nat option" where
  "duplicate_seq (a # b # ods) = (if ord_seq a = ord_seq b then Some (ord_seq a) else duplicate_seq (b # ods))"
| "duplicate_seq _ = None"

fun restore_loop :: "nat \<Rightarrow> order list \<Rightarrow> order_book \<Rightarrow> order_error + order_book" where
  "restore_loop next_seq [] candidate = Inr candidate"
| "restore_loop next_seq (od # ods) candidate =
    (if next_seq \<le> ord_seq od \<or> js_safe_max < ord_seq od
     then Inl (ProjectionMismatch UnsafeSeq [ord_seq od, next_seq])
     else case place od (candidate\<lparr>ob_next_seq := ord_seq od\<rparr>) of
       (Inl e, _) \<Rightarrow> Inl e
     | (Inr result, candidate1) \<Rightarrow>
         if mr_trades result \<noteq> [] \<or> mr_resting result \<noteq> Some od
         then Inl (ProjectionMismatch CrossDuringRestore [])
         else restore_loop next_seq ods candidate1)"

definition restore_resting_orders :: "order list \<Rightarrow> nat \<Rightarrow> order_book \<Rightarrow> (order_error + unit) \<times> order_book" where
  "restore_resting_orders ods next_seq b =
    (let ordered = sort_key ord_seq ods in
     case duplicate_seq ordered of
       Some s \<Rightarrow> (Inl (ProjectionMismatch DuplicateSeq [s]), b)
     | None \<Rightarrow>
       try_in (bind_result (new_book (ob_tick b)) (\<lambda>c. restore_loop next_seq ordered (c\<lparr>ob_mode := ob_mode b\<rparr>))) b
         (\<lambda>candidate. (Inr (), candidate\<lparr>ob_next_seq := next_seq\<rparr>)))"

definition changed_orders_since :: "nat \<Rightarrow> (order_id, order option) bt \<Rightarrow> order_book \<Rightarrow> book_delta" where
  "changed_orders_since expected originals b =
    \<lparr>bd_expected_next_seq = expected, bd_next_seq = ob_next_seq b,
     bd_changes = state_changes_since (ob_state b) originals\<rparr>"

definition apply_changes :: "book_delta \<Rightarrow> order_book \<Rightarrow> (order_error + unit) \<times> order_book" where
  "apply_changes delta b =
    (if ob_next_seq b \<noteq> bd_expected_next_seq delta then (Inl (ProjectionMismatch TimeSeqDiffers []), b)
     else (case state_apply_changes (bd_changes delta) (ob_state b) of
         (Inl e, st) \<Rightarrow> (Inl e, b\<lparr>ob_state := st\<rparr>)
       | (Inr _, st) \<Rightarrow> (Inr (), b\<lparr>ob_state := st, ob_next_seq := bd_next_seq delta\<rparr>)))"

subsection \<open>The invariant of a book\<close>

definition uncrossed :: "book_state \<Rightarrow> bool" where
  "uncrossed st \<longleftrightarrow> (\<forall>x\<in>book_orders st. \<forall>y\<in>book_orders st.
     ord_side x = Buy \<and> ord_side y = Sell \<longrightarrow> ord_price x < ord_price y)"

text \<open>Everything the invariant says of the state, given the tick and the arrival counter.\<close>

definition state_inv :: "money \<Rightarrow> nat \<Rightarrow> book_state \<Rightarrow> bool" where
  "state_inv tick next st \<longleftrightarrow> book_ok st \<and> inj_on ord_seq (book_orders st)
     \<and> (\<forall>od\<in>book_orders st. tradable od \<and> tick dvd ord_price od \<and> ord_seq od < next)"

definition book_inv :: "order_book \<Rightarrow> bool" where
  "book_inv b \<longleftrightarrow> 0 < ob_tick b \<and> state_inv (ob_tick b) (ob_next_seq b) (ob_state b)
     \<and> (ob_mode b = Continuous \<longrightarrow> uncrossed (ob_state b))"

lemma state_invD:
  assumes "state_inv tick next st"
  shows "book_ok st" "inj_on ord_seq (book_orders st)"
    "\<And>od. od \<in> book_orders st \<Longrightarrow> tradable od"
    "\<And>od. od \<in> book_orders st \<Longrightarrow> tick dvd ord_price od"
    "\<And>od. od \<in> book_orders st \<Longrightarrow> ord_seq od < next"
  using assms by (auto simp: state_inv_def)

lemma book_orders_empty [simp]: "book_orders empty_book_state = {}"
  by (simp add: book_orders_def empty_book_state_def)

lemma new_book_inv: "new_book tick = Inr b \<Longrightarrow> book_inv b"
  by (auto simp: new_book_def book_inv_def state_inv_def book_ok_empty uncrossed_def split: if_splits)

text \<open>Smaller or partly filled books keep all of it.\<close>

lemma remains_uncrossed:
  assumes "remains st st'" "uncrossed st"
  shows "uncrossed st'"
  unfolding uncrossed_def
proof (intro ballI impI)
  fix x y assume x: "x \<in> book_orders st'" and y: "y \<in> book_orders st'"
    and s: "ord_side x = Buy \<and> ord_side y = Sell"
  from assms(1) x y obtain p q where "p \<in> book_orders st" "same_identity x p"
    "q \<in> book_orders st" "same_identity y q" unfolding remains_def by meson
  with assms(2) s show "ord_price x < ord_price y" by (auto simp: uncrossed_def same_identity_def)
qed

lemma frame_state_inv:
  assumes f: "loop_frame sd st st'" and i: "state_inv tick next st"
  shows "state_inv tick next st'"
proof -
  from f have ok: "book_ok st'" and t: "\<forall>m\<in>book_orders st'. tradable m" and r: "remains st st'"
    by (auto simp: loop_frame_def)
  have orig: "\<exists>p\<in>book_orders st. same_identity m p" if "m \<in> book_orders st'" for m
    using r that by (simp add: remains_def)
  have "inj_on ord_seq (book_orders st')"
  proof (rule inj_onI)
    fix x y assume x: "x \<in> book_orders st'" and y: "y \<in> book_orders st'" and e: "ord_seq x = ord_seq y"
    from orig [OF x] orig [OF y] obtain p q where p: "p \<in> book_orders st" "same_identity x p"
      and q: "q \<in> book_orders st" "same_identity y q" by blast
    with e have "ord_seq p = ord_seq q" by (simp add: same_identity_def)
    with state_invD(2) [OF i] p q have "p = q" by (simp add: inj_on_def)
    with p q have "ord_id x = ord_id y" by (simp add: same_identity_def)
    with same_id_same_order [OF ok x y] show "x = y" by simp
  qed
  moreover have "tick dvd ord_price m \<and> ord_seq m < next" if "m \<in> book_orders st'" for m
    using orig [OF that] state_invD(4,5) [OF i] by (auto simp: same_identity_def)
  ultimately show ?thesis using ok t by (simp add: state_inv_def)
qed

lemma remains_id_free:
  assumes "remains st st'" "id_free i st"
  shows "id_free i st'"
  using assms unfolding remains_def id_free_def same_identity_def by metis

lemma known_id_iff: "book_ok st \<Longrightarrow> known_id i st \<longleftrightarrow> \<not> id_free i st"
  by (auto simp: known_id_def id_free_iff)

lemma check_price_iff: "0 < tick \<Longrightarrow> check_price tick od = Inr () \<longleftrightarrow> 0 < ord_price od \<and> tick dvd ord_price od"
  by (auto simp: check_price_def dvd_eq_mod_eq_0)

subsection \<open>Resting a new order\<close>

definition stamped :: "nat \<Rightarrow> order \<Rightarrow> order" where
  "stamped s od = od\<lparr>ord_seq := s\<rparr>"

lemma stamped_fields [simp]:
  "ord_id (stamped s od) = ord_id od" "ord_side (stamped s od) = ord_side od"
  "ord_price (stamped s od) = ord_price od" "ord_seq (stamped s od) = s"
  "ord_qty (stamped s od) = ord_qty od" "ord_owner (stamped s od) = ord_owner od"
  "ord_original_qty (stamped s od) = ord_original_qty od"
  "ord_filled_qty (stamped s od) = ord_filled_qty od"
  "ord_filled_value (stamped s od) = ord_filled_value od"
  "tradable (stamped s od) = tradable od"
  by (simp_all add: stamped_def tradable_def in_progress_def)

lemma fresh_seq_key_free:
  assumes "state_inv tick next st" "ord_seq od = next"
  shows "key_free od st"
  unfolding key_free_def
proof
  fix p assume "p \<in> book_orders st"
  then have "ord_seq p \<noteq> ord_seq od" using state_invD(5) [OF assms(1)] assms(2) by force
  then show "resting_key_of p \<noteq> resting_key_of od" by (auto simp: resting_key_of_def split: side.splits)
qed

lemma added_state_inv:
  assumes i: "state_inv tick next st" and a: "added od st st'" and s: "ord_seq od = next"
    and t: "tradable od" "tick dvd ord_price od"
  shows "state_inv tick (next + 1) st'"
proof -
  have os: "book_orders st' = insert od (book_orders st)" "book_ok st'" using a by (auto simp: added_def)
  have "inj_on ord_seq (insert od (book_orders st))"
    using state_invD(2,5) [OF i] s by (fastforce simp: inj_on_def)
  with os t s state_invD [OF i] show ?thesis by (fastforce simp: state_inv_def)
qed

lemma rest_order_result:
  assumes i: "state_inv (ob_tick b) (ob_next_seq b) (ob_state b)" and f: "id_free (ord_id od) (ob_state b)"
    and t: "tradable od" "ob_tick b dvd ord_price od"
  shows "(rest_order od b = (Inl SequenceOverflow, b) \<and> u64_max < ob_next_seq b + 1)
    \<or> (\<exists>st. rest_order od b = (Inr (stamped (ob_next_seq b) od),
            b\<lparr>ob_next_seq := ob_next_seq b + 1, ob_state := st\<rparr>)
        \<and> added (stamped (ob_next_seq b) od) (ob_state b) st
        \<and> state_inv (ob_tick b) (ob_next_seq b + 1) st)"
proof (cases "ob_next_seq b + 1 \<le> u64_max")
  case False
  then show ?thesis by (simp add: rest_order_def checked_u64_def)
next
  case True
  let ?od = "stamped (ob_next_seq b) od"
  have "key_free ?od (ob_state b)" by (rule fresh_seq_key_free [OF i]) simp
  from insert_resting_ok [OF state_invD(1) [OF i] _ this] f obtain st where
    st: "insert_resting ?od (ob_state b) = (Inr (), st)" "added ?od (ob_state b) st" by auto
  have "state_inv (ob_tick b) (ob_next_seq b + 1) st"
    by (rule added_state_inv [OF i st(2)]) (simp_all add: t)
  moreover have "rest_order od b = (Inr ?od, b\<lparr>ob_next_seq := ob_next_seq b + 1, ob_state := st\<rparr>)"
    using st(1) True by (simp add: rest_order_def checked_u64_def Let_def stamped_def)
  ultimately show ?thesis using st(2) by blast
qed

lemma rest_order_inv:
  assumes i: "state_inv (ob_tick b) (ob_next_seq b) (ob_state b)" and f: "id_free (ord_id od) (ob_state b)"
    and t: "tradable od" "ob_tick b dvd ord_price od"
    and r: "rest_order od b = (res, b')"
  shows "state_inv (ob_tick b') (ob_next_seq b') (ob_state b') \<and> ob_tick b' = ob_tick b \<and> ob_mode b' = ob_mode b"
  using rest_order_result [OF i f t] i r by auto

lemma place_auction_inv:
  assumes b: "book_inv b" and m: "ob_mode b = Auction"
  shows "book_inv (snd (place_auction od b)) \<and> ob_mode (snd (place_auction od b)) = Auction"
proof (cases "known_id (ord_id od) (ob_state b) \<or> validate_progress od \<noteq> Inr () \<or> check_price (ob_tick b) od \<noteq> Inr ()")
  case True
  then have "snd (place_auction od b) = b"
    by (auto simp: place_auction_def try_in_def split: sum.splits)
  with b m show ?thesis by simp
next
  case False
  from b have tick: "0 < ob_tick b" and i: "state_inv (ob_tick b) (ob_next_seq b) (ob_state b)"
    by (auto simp: book_inv_def)
  from False have p: "in_progress od" "0 < ord_price od" "ob_tick b dvd ord_price od"
    and f: "id_free (ord_id od) (ob_state b)"
    using check_price_iff [OF tick] known_id_iff [OF state_invD(1) [OF i]] by auto
  have t: "tradable od" using p by (simp add: tradable_def)
  have v: "validate_progress od = Inr ()" "check_price (ob_tick b) od = Inr ()"
    "known_id (ord_id od) (ob_state b) = False" using False by blast+
  have "snd (place_auction od b) = snd (rest_order od b)"
    by (simp add: place_auction_def v try_st_def split: prod.split sum.split)
  moreover obtain res b' where r: "rest_order od b = (res, b')" by (cases "rest_order od b")
  ultimately show ?thesis using rest_order_inv [OF i f t p(3) r] tick m by (auto simp: book_inv_def)
qed

subsection \<open>Continuous matching on the book\<close>

lemma traded_value_nonneg:
  assumes "list_all2 (trade_with t) ms ts" "\<forall>m\<in>set ms. 0 < ord_price m"
  shows "0 \<le> traded_value ts"
  using assms by (induction rule: list_all2_induct) (auto simp: trade_with_def)

lemma fill_queue_value_nonneg:
  assumes "fill_queue t qs = (t', ts, fs, rest)" "\<forall>m\<in>set qs. tradable m"
  shows "0 \<le> traded_value ts"
  using fill_queue_trades [OF assms(1)] assms(2) traded_value_nonneg
  by (metis in_set_takeD tradable_def)

text \<open>The taker that is left over is an order in progress.\<close>

lemma leftover_tradable:
  assumes f: "fill_queue t qs = (t', ts, fs, rest)" and q: "\<forall>m\<in>set qs. tradable m"
    and t: "tradable t" and l: "ord_qty t' \<noteq> 0"
  shows "tradable t'"
proof -
  have "0 \<le> traded_value ts" by (rule fill_queue_value_nonneg [OF f q])
  with fill_queue_taker [OF f] t l show ?thesis
    by (auto simp: tradable_def in_progress_def)
qed

lemma queue_sorted:
  assumes ok: "book_ok st" and q: "queue sd st = m # rest" and x: "x \<in> set (queue sd st)"
  shows "(case sd of Buy \<Rightarrow> ord_price m \<le> ord_price x | Sell \<Rightarrow> ord_price x \<le> ord_price m)
    \<and> (ord_price x = ord_price m \<longrightarrow> ord_seq m \<le> ord_seq x)"
proof (cases sd)
  case Buy
  with queue_hd_map [OF ok q] obtain ys where "bs_asks st = (ask_key m, m) # ys" by auto
  with ask_side.first_is_best [OF book_okD(2) [OF ok], of "ask_key m" m x] x Buy show ?thesis
    by (simp add: queue_def)
next
  case Sell
  with queue_hd_map [OF ok q] obtain ys where "bs_bids st = (bid_key m, m) # ys" by auto
  with bid_side.first_is_best [OF book_okD(1) [OF ok], of "bid_key m" m x] x Sell show ?thesis
    by (simp add: queue_def)
qed

lemma no_cross_head:
  assumes ok: "book_ok st" and h: "queue (ord_side t) st = [] \<or> \<not> crosses t (hd (queue (ord_side t) st))"
    and x: "x \<in> set (queue (ord_side t) st)"
  shows "\<not> crosses t x"
proof (cases "queue (ord_side t) st")
  case (Cons m rest)
  with h queue_sorted [OF ok Cons x] show ?thesis by (auto simp: crosses_def split: side.splits)
qed (use x in simp)

lemma added_uncrossed:
  assumes u: "uncrossed st" and a: "added od st st'" and ok: "book_ok st"
    and n: "\<forall>x\<in>set (queue (ord_side od) st). \<not> crosses od x"
  shows "uncrossed st'"
  unfolding uncrossed_def
proof (intro ballI impI)
  fix x y assume x: "x \<in> book_orders st'" and y: "y \<in> book_orders st'"
    and s: "ord_side x = Buy \<and> ord_side y = Sell"
  from a x y have m: "x = od \<or> x \<in> book_orders st" "y = od \<or> y \<in> book_orders st"
    by (auto simp: added_def)
  have q: "z \<in> set (queue (ord_side od) st)" if "z \<in> book_orders st" "ord_side z \<noteq> ord_side od" for z
    using queue_mem [OF ok] that by (cases "ord_side od"; cases "ord_side z") auto
  consider "x \<in> book_orders st" "y \<in> book_orders st" | "x = od" "y \<in> book_orders st"
    | "y = od" "x \<in> book_orders st" using m s by auto
  then show "ord_price x < ord_price y"
  proof cases
    case 1
    with u s show ?thesis by (simp add: uncrossed_def)
  next
    case 2
    with q [of y] s n show ?thesis by (force simp: crosses_def)
  next
    case 3
    with q [of x] s n show ?thesis by (force simp: crosses_def)
  qed
qed

text \<open>
  All outcomes of a call in Continuous mode: rejected before matching, stopped by an overflow in
  the middle, or done, with the trades of the specification.
\<close>

definition rejected_unchanged :: "order_book \<Rightarrow> (order_error + match_result) \<times> order_book \<Rightarrow> bool" where
  "rejected_unchanged b r \<longleftrightarrow> (\<exists>e. r = (Inl e, b))"

definition matched_outcome :: "bool \<Rightarrow> order \<Rightarrow> order_book \<Rightarrow> match_result \<Rightarrow> order_book \<Rightarrow> bool" where
  "matched_outcome recording od b res b' \<longleftrightarrow> (\<exists>t' ts fs rest.
      fill_queue od (queue (ord_side od) (ob_state b)) = (t', ts, fs, rest)
    \<and> mr_trades res = ts
    \<and> mr_maker_before res = (if recording then take (length ts) (queue (ord_side od) (ob_state b)) else [])
    \<and> queue (ord_side od) (ob_state b') = rest
    \<and> (if ord_qty t' = 0 then mr_resting res = None \<and> ob_next_seq b' = ob_next_seq b
         \<and> filled_owner (bs_filled (ob_state b'))
             = (record_owners fs (filled_owner (bs_filled (ob_state b))))(ord_id od \<mapsto> ord_owner od)
         \<and> queue (flip (ord_side od)) (ob_state b') = queue (flip (ord_side od)) (ob_state b)
       else mr_resting res = Some (stamped (ob_next_seq b) t') \<and> ob_next_seq b' = ob_next_seq b + 1
         \<and> filled_owner (bs_filled (ob_state b')) = record_owners fs (filled_owner (bs_filled (ob_state b)))
         \<and> set (queue (flip (ord_side od)) (ob_state b'))
             = insert (stamped (ob_next_seq b) t') (set (queue (flip (ord_side od)) (ob_state b)))))"

lemma added_queue:
  assumes "added od st st'" "ord_side od = sd"
  shows "queue sd st' = queue sd st"
  using assms by (cases sd) (auto simp: added_def queue_def)

lemma added_own_queue:
  assumes a: "added od st st'" and ok: "book_ok st"
  shows "set (queue (flip (ord_side od)) st') = insert od (set (queue (flip (ord_side od)) st))"
proof -
  have ok': "book_ok st'" and os: "book_orders st' = insert od (book_orders st)"
    using a by (auto simp: added_def)
  have "flip (flip (ord_side od)) = ord_side od" by (cases "ord_side od") auto
  then show ?thesis using queue_mem [OF ok'] queue_mem [OF ok] os by auto
qed

text \<open>Whatever the outcome, an order on the book was there before or is the one that arrived.\<close>

definition arrivals :: "order \<Rightarrow> book_state \<Rightarrow> book_state \<Rightarrow> bool" where
  "arrivals od st st' \<longleftrightarrow> (\<forall>m\<in>book_orders st'. (\<exists>p\<in>book_orders st. same_identity m p)
     \<or> ord_id m = ord_id od \<and> ord_price m = ord_price od)
     \<and> (\<forall>i. filled_owner (bs_filled st') i \<noteq> None \<longrightarrow> filled_owner (bs_filled st) i \<noteq> None
          \<or> (\<exists>p\<in>book_orders st. ord_id p = i) \<or> i = ord_id od)"

lemma remains_arrivals: "remains st st' \<Longrightarrow> arrivals od st st'"
  unfolding remains_def arrivals_def by blast

lemma added_arrivals:
  assumes "arrivals od st st1" "added m st1 st2" "ord_id m = ord_id od" "ord_price m = ord_price od"
  shows "arrivals od st st2"
  using assms by (simp add: arrivals_def added_def)

lemma place_inner_outcome:
  assumes b: "book_inv b" and u: "uncrossed (ob_state b)" and p: "place_inner od recording b = (r, b')"
  shows "book_inv b' \<and> uncrossed (ob_state b') \<and> ob_tick b' = ob_tick b \<and> ob_mode b' = ob_mode b
    \<and> arrivals od (ob_state b) (ob_state b')
    \<and> (case r of
        Inl e \<Rightarrow> (known_id (ord_id od) (ob_state b) \<or> validate_progress od \<noteq> Inr ()
          \<or> check_price (ob_tick b) od \<noteq> Inr ()) \<and> b' = b
          \<or> id_free (ord_id od) (ob_state b) \<and> tradable od \<and> ob_tick b dvd ord_price od
      | Inr res \<Rightarrow> id_free (ord_id od) (ob_state b) \<and> tradable od \<and> ob_tick b dvd ord_price od
          \<and> matched_outcome recording od b res b')"
proof (cases "known_id (ord_id od) (ob_state b) \<or> validate_progress od \<noteq> Inr () \<or> check_price (ob_tick b) od \<noteq> Inr ()")
  case True
  then have "\<exists>e. place_inner od recording b = (Inl e, b)"
    by (auto simp: place_inner_def try_in_def split: sum.splits)
  with p b u True show ?thesis by (auto simp: remains_arrivals)
next
  case False
  from b have tick: "0 < ob_tick b" and i: "state_inv (ob_tick b) (ob_next_seq b) (ob_state b)"
    by (auto simp: book_inv_def)
  note ok = state_invD(1) [OF i]
  from False have v: "validate_progress od = Inr ()" "check_price (ob_tick b) od = Inr ()"
    "known_id (ord_id od) (ob_state b) = False" by blast+
  then have pr: "in_progress od" "0 < ord_price od" "ob_tick b dvd ord_price od"
    and f: "id_free (ord_id od) (ob_state b)"
    using check_price_iff [OF tick] known_id_iff [OF ok] by auto
  have t: "tradable od" using pr by (simp add: tradable_def)
  have all: "\<forall>m\<in>book_orders (ob_state b). tradable m" using state_invD(3) [OF i] by blast
  obtain res st where l: "match_loop recording od [] [] (ob_state b) = (res, st)"
    by (cases "match_loop recording od [] [] (ob_state b)")
  note ref = match_loop_refines [OF ok refl all l]
  then have fr: "loop_frame (ord_side od) (ob_state b) st" by blast
  have si: "state_inv (ob_tick b) (ob_next_seq b) st" by (rule frame_state_inv [OF fr i])
  have rem: "remains (ob_state b) st" using fr by (simp add: loop_frame_def)
  have un: "uncrossed st" by (rule remains_uncrossed [OF rem u])
  have idf: "id_free (ord_id od) st" by (rule remains_id_free [OF rem f])
  show ?thesis
  proof (cases res)
    case (Inl e)
    then have "r = Inl e" "b' = b\<lparr>ob_state := st\<rparr>" using p l by (simp_all add: place_inner_def v)
    with si un tick f t pr show ?thesis by (simp add: book_inv_def remains_arrivals [OF rem])
  next
    case (Inr x)
    obtain t' ts bf where x: "res = Inr (t', ts, bf)" using Inr by (cases x) auto
    from ref x obtain fs rest where fq:
      "fill_queue od (queue (ord_side od) (ob_state b)) = (t', ts, fs, rest)"
      "bf = (if recording then take (length ts) (queue (ord_side od) (ob_state b)) else [])"
      "queue (ord_side od) st = rest"
      "filled_owner (bs_filled st) = record_owners fs (filled_owner (bs_filled (ob_state b)))"
      by fastforce
    have tk: "t' = filled_by (traded_qty ts) (ord_filled_value od + traded_value ts) od"
      using fill_queue_taker [OF fq(1)] by blast
    have qflip: "queue (flip (ord_side od)) st = queue (flip (ord_side od)) (ob_state b)"
      using fr by (simp add: loop_frame_def)
    have qt: "\<forall>m\<in>set (queue (ord_side od) (ob_state b)). tradable m"
      using all queue_mem [OF ok] by blast
    show ?thesis
    proof (cases "ord_qty t' = 0")
      case True
      from record_filled_ok [OF state_invD(1) [OF si] idf, of "ord_owner od"] obtain f1 where
        f1: "record_filled (ord_id od) (ord_owner od) st = (Inr (), st\<lparr>bs_filled := f1\<rparr>)"
        "filled_owner f1 = (filled_owner (bs_filled st))(ord_id od \<mapsto> ord_owner od)"
        "book_ok (st\<lparr>bs_filled := f1\<rparr>)" by blast
      define st2 where "st2 = st\<lparr>bs_filled := f1\<rparr>"
      have os: "book_orders st2 = book_orders st" by (simp add: st2_def book_orders_def)
      have "r = Inr \<lparr>mr_trades = ts, mr_resting = None, mr_maker_before = bf\<rparr>"
        "b' = b\<lparr>ob_state := st2\<rparr>"
        using p l x True f1(1) tk by (simp_all add: place_inner_def v st2_def)
      moreover have "state_inv (ob_tick b) (ob_next_seq b) st2"
        using si f1(3) os by (simp add: state_inv_def st2_def)
      moreover have "uncrossed st2" using un os by (simp add: uncrossed_def)
      moreover have "queue sd st2 = queue sd st" for sd by (cases sd) (simp_all add: queue_def st2_def)
      moreover have "arrivals od (ob_state b) st2"
        unfolding arrivals_def os using remains_arrivals [OF rem, of od] f1(2)
        by (simp add: arrivals_def st2_def) blast
      ultimately show ?thesis using tick f t pr fq True f1(2) qflip
        by (auto simp: book_inv_def matched_outcome_def st2_def)
    next
      case False
      have lt: "tradable t'" by (rule leftover_tradable [OF fq(1) qt t False])
      define b1 where "b1 = b\<lparr>ob_state := st\<rparr>"
      have b1: "ob_tick b1 = ob_tick b" "ob_next_seq b1 = ob_next_seq b" "ob_state b1 = st"
        "ob_mode b1 = ob_mode b" by (simp_all add: b1_def)
      have pl: "place_inner od recording b = try_st (rest_order t' b1) (\<lambda>od2 b2.
             (Inr \<lparr>mr_trades = ts, mr_resting = Some od2, mr_maker_before = bf\<rparr>, b2))"
        using l x False by (simp add: place_inner_def v b1_def)
      have "state_inv (ob_tick b1) (ob_next_seq b1) (ob_state b1)" "id_free (ord_id t') (ob_state b1)"
        "ob_tick b1 dvd ord_price t'"
        using si idf pr tk by (simp_all add: b1)
      from rest_order_result [OF this(1,2) lt this(3)] show ?thesis
      proof (elim disjE exE conjE)
        assume "rest_order t' b1 = (Inl SequenceOverflow, b1)"
        with pl p have "r = Inl SequenceOverflow" "b' = b1" by simp_all
        with si un tick f t pr show ?thesis by (simp add: book_inv_def b1 remains_arrivals [OF rem])
      next
        fix st2
        assume r2: "rest_order t' b1 = (Inr (stamped (ob_next_seq b1) t'),
            b1\<lparr>ob_next_seq := ob_next_seq b1 + 1, ob_state := st2\<rparr>)"
          and a: "added (stamped (ob_next_seq b1) t') (ob_state b1) st2"
          and s2: "state_inv (ob_tick b1) (ob_next_seq b1 + 1) st2"
        have out: "r = Inr \<lparr>mr_trades = ts, mr_resting = Some (stamped (ob_next_seq b) t'), mr_maker_before = bf\<rparr>"
          "b' = b\<lparr>ob_next_seq := ob_next_seq b + 1, ob_state := st2\<rparr>"
          using pl p r2 by (simp_all add: b1_def)
        have sd: "ord_side t' = ord_side od" and cr: "crosses t' = crosses od"
          by (simp_all add: tk crosses_def fun_eq_iff split: side.split)
        have "rest = [] \<or> \<not> crosses od (hd rest)"
          using fill_queue_split [OF fq(1)] False by auto
        then have nc: "\<forall>x\<in>set (queue (ord_side t') st). \<not> crosses t' x"
          using no_cross_head [OF state_invD(1) [OF si], of t'] fq(3) by (simp add: sd cr)
        have "crosses (stamped (ob_next_seq b) t') = crosses t'"
          by (simp add: fun_eq_iff crosses_def split: side.split)
        then have "uncrossed st2"
          using added_uncrossed [OF un a [unfolded b1] state_invD(1) [OF si]] nc by simp
        moreover have "queue (ord_side od) st2 = rest"
          using added_queue [OF a, of "ord_side od"] fq(3) by (simp add: sd b1)
        moreover have "bs_filled st2 = bs_filled st" using a by (simp add: added_def b1)
        moreover have "set (queue (flip (ord_side od)) st2)
            = insert (stamped (ob_next_seq b) t') (set (queue (flip (ord_side od)) (ob_state b)))"
          using added_own_queue [OF a [unfolded b1] state_invD(1) [OF si]] qflip by (simp add: sd)
        moreover have "arrivals od (ob_state b) st2"
          using added_arrivals [OF remains_arrivals [OF rem] a [unfolded b1]] tk by simp
        ultimately show ?thesis using out s2 tick f t pr fq False
          by (simp add: book_inv_def matched_outcome_def b1)
      qed
    qed
  qed
qed

end
