(* ===== verification/Auction_Execution.thy ===== *)
theory Auction_Execution
  imports Order_Book
begin

section \<open>Executing the call auction\<close>

text \<open>
  The execution loop against the selected price. The invariant of the loop relates the open
  quantities on both sides to the volume that is still to be matched; it shows that the loop
  never disagrees with the selection, trades exactly the selected volume at the selected price,
  and leaves an uncrossed book.
\<close>

subsection \<open>Filling the head of a side\<close>

definition fill_head :: "side \<Rightarrow> order \<Rightarrow> nat \<Rightarrow> money \<Rightarrow> book_state \<Rightarrow> book_state \<Rightarrow> bool" where
  "fill_head sd m n v st st' \<longleftrightarrow>
     (if ord_qty m = n then popped sd m st st' else shrunk sd m (filled_by n v m) st st')"

lemma fill_head_exists:
  assumes "book_ok st" "queue sd st = m # rest" "in_progress m" "n \<le> ord_qty m"
  shows "\<exists>st'. apply_maker_fill sd m n v st = (Inr (), st') \<and> fill_head sd m n v st st'"
proof (cases "ord_qty m = n")
  case True
  with maker_fill_full [OF assms(1,2), of v] show ?thesis by (auto simp: fill_head_def)
next
  case False
  with maker_fill_part [OF assms(1-3), of n v] assms(4) show ?thesis by (auto simp: fill_head_def)
qed

lemma filled_tradable: "tradable m \<Longrightarrow> n < ord_qty m \<Longrightarrow> 0 \<le> v \<Longrightarrow> tradable (filled_by n v m)"
  by (auto simp: tradable_def in_progress_def)

lemma fill_head_frame:
  assumes ok: "book_ok st" and q: "queue sd st = m # rest" and t: "\<forall>m\<in>book_orders st. tradable m"
    and n: "n \<le> ord_qty m" and v: "0 \<le> v" and h: "fill_head sd m n v st st'"
  shows "loop_frame sd st st'"
proof -
  have m: "m \<in> book_orders st" using queue_mem [OF ok, of m sd] q by simp
  show ?thesis
  proof (cases "ord_qty m = n")
    case True
    with h popped_frame [OF ok m t] show ?thesis by (simp add: fill_head_def)
  next
    case False
    with h have s: "shrunk sd m (filled_by n v m) st st'" by (simp add: fill_head_def)
    have "tradable (filled_by n v m)" using filled_tradable t m n False v by simp
    with s t show ?thesis using shrunk_remains [OF m s] by (auto simp: loop_frame_def shrunk_def)
  qed
qed

lemma fill_head_queue:
  assumes "fill_head sd m n v st st'" "queue sd st = m # rest"
  shows "queue sd st' = (if ord_qty m = n then rest else filled_by n v m # rest)"
    and "queue (flip sd) st' = queue (flip sd) st"
  using assms by (auto simp: fill_head_def popped_def shrunk_def split: if_splits)

text \<open>Open quantity of a side within a set of prices.\<close>

definition open_at :: "side \<Rightarrow> (money \<Rightarrow> bool) \<Rightarrow> book_state \<Rightarrow> nat" where
  "open_at sd P st = open_qty (filter (\<lambda>m. P (ord_price m)) (queue sd st))"

lemma open_at_fill:
  assumes "fill_head sd m n v st st'" "queue sd st = m # rest" "n \<le> ord_qty m"
  shows "open_at sd P st' = (if P (ord_price m) then open_at sd P st - n else open_at sd P st)"
    and "open_at (flip sd) P st' = open_at (flip sd) P st"
  using fill_head_queue [OF assms(1,2)] assms(2,3) by (auto simp: open_at_def open_qty_def)

lemma open_at_head:
  assumes "queue sd st = m # rest" "P (ord_price m)"
  shows "ord_qty m \<le> open_at sd P st"
  using assms by (simp add: open_at_def open_qty_def)

lemma open_at_pos:
  assumes "0 < open_at sd P st"
  shows "\<exists>m\<in>set (queue sd st). P (ord_price m)"
proof (rule ccontr)
  assume "\<not> ?thesis"
  then have "filter (\<lambda>m. P (ord_price m)) (queue sd st) = []" by (auto simp: filter_empty_conv)
  with assms show False by (simp add: open_at_def open_qty_def)
qed

lemma open_at_zero:
  assumes "open_at sd P st = 0" "\<forall>m\<in>set (queue sd st). 0 < ord_qty m" "m \<in> set (queue sd st)"
  shows "\<not> P (ord_price m)"
proof
  assume "P (ord_price m)"
  with assms(3) have "m \<in> set (filter (\<lambda>m. P (ord_price m)) (queue sd st))" by simp
  then have "ord_qty m \<le> open_at sd P st"
    unfolding open_at_def open_qty_def by (intro member_le_sum_list) simp_all
  with assms show False by auto
qed

text \<open>Prices that are at least as good for the side as one that qualifies qualify.\<close>

definition better_closed :: "side \<Rightarrow> (money \<Rightarrow> bool) \<Rightarrow> bool" where
  "better_closed sd P \<longleftrightarrow> (\<forall>p q. P p \<longrightarrow> (case sd of Sell \<Rightarrow> p \<le> q | Buy \<Rightarrow> q \<le> p) \<longrightarrow> P q)"

lemma head_qualifies:
  assumes ok: "book_ok st" and c: "better_closed sd P" and o: "0 < open_at sd P st"
  shows "\<exists>m rest. queue sd st = m # rest \<and> P (ord_price m)"
proof -
  from open_at_pos [OF o] obtain x where x: "x \<in> set (queue sd st)" "P (ord_price x)" by blast
  then obtain m rest where q: "queue sd st = m # rest" by (cases "queue sd st") auto
  from queue_sorted [OF ok q x(1)] c x(2) have "P (ord_price m)"
    unfolding better_closed_def by (cases sd) auto
  with q show ?thesis by blast
qed

subsection \<open>The loop\<close>

text \<open>What is still to be matched, in terms of the open quantities at and beyond the price.\<close>

definition to_match :: "money \<Rightarrow> nat \<Rightarrow> book_state \<Rightarrow> bool" where
  "to_match p left st \<longleftrightarrow>
     min (open_at Sell (\<lambda>l. p \<le> l) st) (open_at Buy (\<lambda>l. l \<le> p) st) = left
     \<and> open_at Sell (\<lambda>l. p < l) st \<le> left \<and> open_at Buy (\<lambda>l. l < p) st \<le> left"

lemma closed_prices:
  "better_closed Sell (\<lambda>l. p \<le> l)" "better_closed Buy (\<lambda>l. l \<le> p)"
  "better_closed Sell (\<lambda>l. p < l)" "better_closed Buy (\<lambda>l. l < p)"
  by (auto simp: better_closed_def)

text \<open>A strictly better part either shrinks by the traded quantity or was empty.\<close>

lemma strict_part:
  assumes ok: "book_ok st" and q: "queue sd st = m # rest" and c: "better_closed sd P"
    and h: "fill_head sd m n v st st'" and n: "n \<le> ord_qty m" and l: "open_at sd P st \<le> left"
  shows "open_at sd P st' \<le> left - n"
proof (cases "P (ord_price m)")
  case True
  with open_at_fill(1) [OF h q n, of P] l show ?thesis by simp
next
  case False
  then have "open_at sd P st = 0" using head_qualifies [OF ok c] q by fastforce
  with open_at_fill(1) [OF h q n, of P] False show ?thesis by simp
qed

lemma round_to_match:
  assumes ok: "book_ok st" "book_ok st1"
    and qb: "queue Sell st = buy # bs" and qs: "queue Buy st = sell # ss"
    and pb: "p \<le> ord_price buy" and ps: "ord_price sell \<le> p"
    and n: "n \<le> ord_qty buy" "n \<le> ord_qty sell"
    and h1: "fill_head Sell buy n v st st1" and h2: "fill_head Buy sell n w st1 st2"
    and t: "to_match p left st"
  shows "to_match p (left - n) st2"
proof -
  have qs1: "queue Buy st1 = sell # ss" using fill_head_queue(2) [OF h1 qb] qs by simp
  note o1 = open_at_fill [OF h1 qb n(1), simplified]
  note o2 = open_at_fill [OF h2 qs1 n(2), simplified]
  have "open_at Sell (\<lambda>l. p \<le> l) st2 = open_at Sell (\<lambda>l. p \<le> l) st - n"
    using o1(1) [of "\<lambda>l. p \<le> l"] o2(2) [of "\<lambda>l. p \<le> l"] pb by simp
  moreover have "open_at Buy (\<lambda>l. l \<le> p) st2 = open_at Buy (\<lambda>l. l \<le> p) st - n"
    using o1(2) [of "\<lambda>l. l \<le> p"] o2(1) [of "\<lambda>l. l \<le> p"] ps by simp
  moreover have "open_at Sell (\<lambda>l. p < l) st2 \<le> left - n"
    using strict_part [OF ok(1) qb closed_prices(3) h1 n(1)] o2(2) [of "\<lambda>l. p < l"] t
    by (simp add: to_match_def)
  moreover have "open_at Buy (\<lambda>l. l < p) st2 \<le> left - n"
    using strict_part [OF ok(2) qs1 closed_prices(4) h2 n(2)] o1(2) [of "\<lambda>l. l < p"] t
    by (simp add: to_match_def)
  ultimately show ?thesis using t by (auto simp: to_match_def min_diff)
qed

lemma best_opposite_Some: "best_opposite sd st = Some m \<longleftrightarrow> (\<exists>rest. queue sd st = m # rest)"
  by (auto simp: best_opposite_queue split: list.split)

definition good_trades :: "money \<Rightarrow> trade list \<Rightarrow> bool" where
  "good_trades p ts \<longleftrightarrow> (\<forall>t\<in>set ts. tr_price t = p \<and> 0 < tr_qty t)"

definition money_error :: "order_error \<Rightarrow> bool" where
  "money_error e \<longleftrightarrow> (\<exists>d. e = OrderMoney d)"

lemma auction_round:
  assumes i: "state_inv tick next st" and p: "0 < p" and left: "m < V" "V \<le> u64_max"
    and t: "to_match p (V - m) st"
    and l: "auction_loop p V m ts st = (res, st')"
  shows "(\<exists>e. res = Inl e \<and> money_error e \<and> st' = st) \<or>
    (\<exists>buy sell n st2. state_inv tick next st2 \<and> remains st st2 \<and> to_match p (V - (m + n)) st2
      \<and> 0 < n \<and> m + n \<le> V
      \<and> open_at Sell (\<lambda>_. True) st = open_at Sell (\<lambda>_. True) st2 + n
      \<and> open_at Buy (\<lambda>_. True) st = open_at Buy (\<lambda>_. True) st2 + n
      \<and> auction_loop p V (m + n) (ts @ [leg_trade p n sell buy]) st2 = (res, st'))"
proof -
  note ok = state_invD(1) [OF i]
  have pos: "0 < open_at Sell (\<lambda>l. p \<le> l) st" "0 < open_at Buy (\<lambda>l. l \<le> p) st"
    using t left by (auto simp: to_match_def)
  obtain buy bs where qb: "queue Sell st = buy # bs" "p \<le> ord_price buy"
    using head_qualifies [OF ok closed_prices(1) pos(1)] by blast
  obtain sell ss where qs: "queue Buy st = sell # ss" "ord_price sell \<le> p"
    using head_qualifies [OF ok closed_prices(2) pos(2)] by blast
  define n where "n = min (ord_qty buy) (ord_qty sell)"
  define v where "v = p * int n"
  have mem: "buy \<in> book_orders st" "sell \<in> book_orders st"
    using queue_mem [OF ok, of buy Sell] queue_mem [OF ok, of sell Buy] qb qs by simp_all
  then have tr: "tradable buy" "tradable sell" using state_invD(3) [OF i] by auto
  then have n: "0 < n" "n \<le> ord_qty buy" "n \<le> ord_qty sell" "ord_filled_qty buy + n \<le> u32_max"
    "ord_filled_qty sell + n \<le> u32_max"
    by (auto simp: n_def tradable_def in_progress_def)
  have "n \<le> V - m"
    using t open_at_head [of Sell st buy bs "\<lambda>l. p \<le> l"] open_at_head [of Buy st sell ss "\<lambda>l. l \<le> p"]
      qb qs by (auto simp: to_match_def n_def)
  then have nV: "m + n \<le> V" using left by simp
  have v0: "0 \<le> v" using p by (simp add: v_def)
  have unf: "auction_loop p V m ts st =
    try_in (map_error OrderMoney (mul_shares p n)) st (\<lambda>fill_value.
    try_in (filled_value_after buy fill_value) st (\<lambda>buy_after.
    try_in (filled_value_after sell fill_value) st (\<lambda>sell_after.
      try_st (apply_maker_fill Sell buy n buy_after st) (\<lambda>u1 st1.
      try_st (apply_maker_fill Buy sell n sell_after st1) (\<lambda>u2 st2.
      auction_loop p V (m + n) (ts @ [leg_trade p n sell buy]) st2)))))"
    using left qb qs n nV best_opposite_queue [of Sell st] best_opposite_queue [of Buy st]
    by (subst auction_loop.simps) (simp add: n_def [symmetric] filled_qty_after_def checked_u32_def checked_u64_def Let_def)
  show ?thesis
  proof (cases "in_i64 v \<and> in_i64 (ord_filled_value buy + v) \<and> in_i64 (ord_filled_value sell + v)")
    case False
    then have "\<exists>e. auction_loop p V m ts st = (Inl e, st) \<and> money_error e"
      unfolding unf v_def
      by (auto simp: mul_shares_def filled_value_after_def money_add_def checked_i64_def money_error_def)
    with l show ?thesis by auto
  next
    case True
    from fill_head_exists [OF ok qb(1) _ n(2)] tr obtain st1 where
      f1: "apply_maker_fill Sell buy n (ord_filled_value buy + v) st = (Inr (), st1)"
        "fill_head Sell buy n (ord_filled_value buy + v) st st1" by (auto simp: tradable_def)
    have all: "\<forall>m\<in>book_orders st. tradable m" using state_invD(3) [OF i] by blast
    have bv: "0 \<le> ord_filled_value buy + v" "0 \<le> ord_filled_value sell + v"
      using tr v0 by (auto simp: tradable_def in_progress_def)
    note fr1 = fill_head_frame [OF ok qb(1) all n(2) bv(1) f1(2)]
    note i1 = frame_state_inv [OF fr1 i]
    note ok1 = state_invD(1) [OF i1]
    have qs1: "queue Buy st1 = sell # ss" using fill_head_queue(2) [OF f1(2) qb(1)] qs by simp
    from fill_head_exists [OF ok1 qs1 _ n(3)] tr obtain st2 where
      f2: "apply_maker_fill Buy sell n (ord_filled_value sell + v) st1 = (Inr (), st2)"
        "fill_head Buy sell n (ord_filled_value sell + v) st1 st2" by (auto simp: tradable_def)
    have all1: "\<forall>m\<in>book_orders st1. tradable m" using state_invD(3) [OF i1] by blast
    note fr2 = fill_head_frame [OF ok1 qs1 all1 n(3) bv(2) f2(2)]
    note i2 = frame_state_inv [OF fr2 i1]
    have rm: "remains st st2"
      using fr1 fr2 remains_trans by (auto simp: loop_frame_def)
    have tm: "to_match p (V - m - n) st2"
      by (rule round_to_match [OF ok ok1 qb(1) qs(1) qb(2) qs(2) n(2,3) f1(2) f2(2) t])
    have "ord_qty buy \<le> open_at Sell (\<lambda>_. True) st" "ord_qty sell \<le> open_at Buy (\<lambda>_. True) st1"
      using open_at_head [OF qb(1), of "\<lambda>_. True"] open_at_head [OF qs1, of "\<lambda>_. True"] by simp_all
    then have cons: "open_at Sell (\<lambda>_. True) st = open_at Sell (\<lambda>_. True) st2 + n"
      "open_at Buy (\<lambda>_. True) st = open_at Buy (\<lambda>_. True) st2 + n"
      using open_at_fill [OF f1(2) qb(1) n(2), of "\<lambda>_. True"] open_at_fill [OF f2(2) qs1 n(3), of "\<lambda>_. True"] n
      by simp_all
    have "auction_loop p V m ts st = auction_loop p V (m + n) (ts @ [leg_trade p n sell buy]) st2"
      unfolding unf using True f1(1) f2(1)
      by (simp add: mul_shares_def filled_value_after_def money_add_def checked_i64_def v_def)
    with l i2 rm tm cons n nV show ?thesis by (intro disjI2 exI [of _ buy] exI [of _ sell] exI [of _ n] exI [of _ st2]) simp
  qed
qed

lemma auction_loop_result:
  assumes "state_inv tick next st" "0 < p" "m \<le> V" "V \<le> u64_max" "to_match p (V - m) st"
    and "auction_loop p V m ts st = (res, st')"
  shows "state_inv tick next st' \<and> remains st st' \<and>
    (case res of
      Inl e \<Rightarrow> money_error e
    | Inr (ts', m') \<Rightarrow> m' = V \<and> to_match p 0 st'
        \<and> (\<exists>new. ts' = ts @ new \<and> good_trades p new \<and> traded_qty new = V - m
          \<and> open_at Sell (\<lambda>_. True) st = open_at Sell (\<lambda>_. True) st' + traded_qty new
          \<and> open_at Buy (\<lambda>_. True) st = open_at Buy (\<lambda>_. True) st' + traded_qty new))"
  using assms
proof (induction "V - m" arbitrary: m ts st rule: less_induct)
  case less
  show ?case
  proof (cases "m < V")
    case False
    then have "auction_loop p V m ts st = (Inr (ts, m), st)"
      by (subst auction_loop.simps) simp
    with less.prems False show ?thesis by (auto simp: good_trades_def)
  next
    case True
    from auction_round [OF less.prems(1,2) True less.prems(4,5,6)]
    show ?thesis
    proof (elim disjE exE conjE)
      fix e assume "res = Inl e" "money_error e" "st' = st"
      with less.prems(1) show ?thesis by simp
    next
      fix buy sell n st2
      assume r: "state_inv tick next st2" "remains st st2" "to_match p (V - (m + n)) st2" "0 < n" "m + n \<le> V"
        "open_at Sell (\<lambda>_. True) st = open_at Sell (\<lambda>_. True) st2 + n"
        "open_at Buy (\<lambda>_. True) st = open_at Buy (\<lambda>_. True) st2 + n"
        "auction_loop p V (m + n) (ts @ [leg_trade p n sell buy]) st2 = (res, st')"
      have "V - (m + n) < V - m" using r(4,5) True by simp
      from less.hyps [OF this r(1) less.prems(2) r(5) less.prems(4) r(3,8)] have IH:
        "state_inv tick next st'" "remains st2 st'"
        "case res of Inl e \<Rightarrow> money_error e
         | Inr (ts', m') \<Rightarrow> m' = V \<and> to_match p 0 st'
          \<and> (\<exists>new. ts' = (ts @ [leg_trade p n sell buy]) @ new \<and> good_trades p new \<and> traded_qty new = V - (m + n)
            \<and> open_at Sell (\<lambda>_. True) st2 = open_at Sell (\<lambda>_. True) st' + traded_qty new
            \<and> open_at Buy (\<lambda>_. True) st2 = open_at Buy (\<lambda>_. True) st' + traded_qty new)" by blast+
      have rm: "remains st st'" by (rule remains_trans [OF r(2) IH(2)])
      show ?thesis
      proof (cases res)
        case (Inl e)
        with IH rm show ?thesis by simp
      next
        case (Inr x)
        obtain ts' m' where x: "x = (ts', m')" by (cases x)
        with IH(3) Inr obtain new where new: "m' = V" "to_match p 0 st'"
          "ts' = ts @ (leg_trade p n sell buy # new)" "good_trades p new" "traded_qty new = V - (m + n)"
          "open_at Sell (\<lambda>_. True) st2 = open_at Sell (\<lambda>_. True) st' + traded_qty new"
          "open_at Buy (\<lambda>_. True) st2 = open_at Buy (\<lambda>_. True) st' + traded_qty new" by auto
        have "good_trades p (leg_trade p n sell buy # new)"
          using new(4) r(4) by (auto simp: good_trades_def leg_trade_def)
        moreover have "traded_qty (leg_trade p n sell buy # new) = V - m"
          using new(5) r(5) by (simp add: leg_trade_def)
        ultimately show ?thesis using new r(6,7) IH(1) rm Inr x
          by (auto simp: leg_trade_def intro!: exI [of _ "leg_trade p n sell buy # new"])
      qed
    qed
  qed
qed

text \<open>When nothing is left to match at the price, the book no longer crosses.\<close>

lemma to_match_uncrossed:
  assumes i: "state_inv tick next st" and t: "to_match p 0 st"
  shows "uncrossed st"
  unfolding uncrossed_def
proof (intro ballI impI)
  note ok = state_invD(1) [OF i]
  fix x y assume x: "x \<in> book_orders st" and y: "y \<in> book_orders st"
    and s: "ord_side x = Buy \<and> ord_side y = Sell"
  have xq: "x \<in> set (queue Sell st)" using queue_mem [OF ok, of x Sell] x s by simp
  have yq: "y \<in> set (queue Buy st)" using queue_mem [OF ok, of y Buy] y s by simp
  have pos: "\<forall>m\<in>set (queue sd st). 0 < ord_qty m" for sd
    using queue_mem [OF ok] state_invD(3) [OF i] by (auto simp: tradable_def in_progress_def)
  have "\<not> p < ord_price x" using open_at_zero [OF _ pos xq, of "\<lambda>l. p < l"] t by (simp add: to_match_def)
  moreover have "\<not> ord_price y < p" using open_at_zero [OF _ pos yq, of "\<lambda>l. l < p"] t by (simp add: to_match_def)
  moreover have "open_at Sell (\<lambda>l. p \<le> l) st = 0 \<or> open_at Buy (\<lambda>l. l \<le> p) st = 0"
    using t by (auto simp: to_match_def min_def split: if_splits)
  then have "\<not> p \<le> ord_price x \<or> \<not> ord_price y \<le> p"
    using open_at_zero [OF _ pos xq, of "\<lambda>l. p \<le> l"] open_at_zero [OF _ pos yq, of "\<lambda>l. l \<le> p"] by blast
  ultimately show "ord_price x < ord_price y" by linarith
qed

subsection \<open>From the selection to the loop\<close>

lemma side_sum_append: "side_sum (xs @ ys) sd P = side_sum xs sd P + side_sum ys sd P"
  by (simp add: side_sum_def side_qtys_def)

lemma side_sum_same:
  "\<forall>m\<in>set qs. ord_side m = sd \<Longrightarrow> side_sum (map clearing_order_of qs) sd P
     = open_qty (filter (\<lambda>m. P (ord_price m)) qs)"
  by (induction qs) (auto simp: side_sum_def side_qtys_def open_qty_def clearing_order_of_def)

lemma side_sum_other:
  "\<forall>m\<in>set qs. ord_side m \<noteq> sd \<Longrightarrow> side_sum (map clearing_order_of qs) sd P = 0"
  by (induction qs) (auto simp: side_sum_def side_qtys_def clearing_order_of_def)

lemma clearing_side_sum:
  assumes ok: "book_ok (ob_state b)"
  shows "side_sum (clearing_orders b) Buy P = open_at Sell P (ob_state b)"
    and "side_sum (clearing_orders b) Sell P = open_at Buy P (ob_state b)"
proof -
  have s: "\<forall>m\<in>set (queue Sell (ob_state b)). ord_side m = Buy" "\<forall>m\<in>set (queue Buy (ob_state b)). ord_side m = Sell"
    using queue_mem [OF ok] by auto
  have c: "clearing_orders b = map clearing_order_of (queue Sell (ob_state b)) @ map clearing_order_of (queue Buy (ob_state b))"
    by (simp add: clearing_orders_def resting_order_refs_def queue_def)
  show "side_sum (clearing_orders b) Buy P = open_at Sell P (ob_state b)"
    using side_sum_same [OF s(1)] side_sum_other [of "queue Buy (ob_state b)" Buy] s
    by (simp add: c side_sum_append open_at_def)
  show "side_sum (clearing_orders b) Sell P = open_at Buy P (ob_state b)"
    using side_sum_same [OF s(2)] side_sum_other [of "queue Sell (ob_state b)" Sell] s
    by (simp add: c side_sum_append open_at_def)
qed

lemma selection_to_match:
  assumes "book_ok (ob_state b)" "serves_better (clearing_orders b) p"
  shows "to_match p (executable (clearing_orders b) p) (ob_state b)"
  using assms(2) unfolding serves_better_def to_match_def executable_def demand_def offers_def
    demand_above_def offers_below_def clearing_side_sum [OF assms(1)] by simp

definition i64_prices :: "order_book \<Rightarrow> bool" where
  "i64_prices b \<longleftrightarrow> (\<forall>od\<in>book_orders (ob_state b). in_i64 (ord_price od))"

lemma book_on_grid:
  assumes "book_inv b" "i64_prices b"
  shows "on_grid (ob_tick b) (clearing_orders b)"
proof -
  have "set (resting_order_refs b) = book_orders (ob_state b)"
    by (auto simp: resting_order_refs_def book_orders_def)
  then have "limits (clearing_orders b) = ord_price ` book_orders (ob_state b)"
    by (auto simp: clearing_orders_def clearing_order_of_def image_iff)
  with assms show ?thesis
    by (auto simp: on_grid_def book_inv_def state_inv_def tradable_def i64_prices_def)
qed

lemma nothing_executable_uncrossed:
  assumes i: "state_inv tick next (ob_state b)" and z: "\<forall>p. executable (clearing_orders b) p = 0"
  shows "uncrossed (ob_state b)"
  unfolding uncrossed_def
proof (intro ballI impI)
  note ok = state_invD(1) [OF i]
  fix x y assume x: "x \<in> book_orders (ob_state b)" and y: "y \<in> book_orders (ob_state b)"
    and s: "ord_side x = Buy \<and> ord_side y = Sell"
  have xq: "x \<in> set (queue Sell (ob_state b))" using queue_mem [OF ok, of x Sell] x s by simp
  have yq: "y \<in> set (queue Buy (ob_state b))" using queue_mem [OF ok, of y Buy] y s by simp
  have pos: "\<forall>m\<in>set (queue sd (ob_state b)). 0 < ord_qty m" for sd
    using queue_mem [OF ok] state_invD(3) [OF i] by (auto simp: tradable_def in_progress_def)
  have "executable (clearing_orders b) (ord_price x)
      = min (open_at Sell (\<lambda>l. ord_price x \<le> l) (ob_state b)) (open_at Buy (\<lambda>l. l \<le> ord_price x) (ob_state b))"
    unfolding executable_def demand_def offers_def clearing_side_sum [OF ok] ..
  then have "open_at Sell (\<lambda>l. ord_price x \<le> l) (ob_state b) = 0
      \<or> open_at Buy (\<lambda>l. l \<le> ord_price x) (ob_state b) = 0"
    using z by (metis min_def)
  then have "\<not> ord_price x \<le> ord_price x \<or> \<not> ord_price y \<le> ord_price x"
    using open_at_zero [OF _ pos xq, of "\<lambda>l. ord_price x \<le> l"]
      open_at_zero [OF _ pos yq, of "\<lambda>l. l \<le> ord_price x"] by blast
  then show "ord_price x < ord_price y" by simp
qed

lemma execute_outcome:
  assumes b: "book_inv b" and g: "i64_prices b" and x: "execute_auction_clearing pc ex b = (r, b')"
  shows "book_inv b' \<and> ob_mode b' = ob_mode b \<and> ob_next_seq b' = ob_next_seq b \<and> ob_tick b' = ob_tick b
    \<and> remains (ob_state b) (ob_state b') \<and>
    (case r of
      Inl e \<Rightarrow> ob_mode b \<noteq> Auction \<and> b' = b \<or> clearing_selection_of pc ex b = Inl e \<and> b' = b \<or> money_error e
    | Inr res \<Rightarrow> ob_mode b = Auction \<and> uncrossed (ob_state b') \<and>
       (\<exists>sel. clearing_selection_of pc ex b = Inr sel \<and> cr_price res = map_option cs_price sel \<and>
         (case sel of
           None \<Rightarrow> b' = b \<and> cr_trades res = [] \<and> cr_matched_volume res = 0
         | Some s \<Rightarrow> cr_matched_volume res = cs_volume s \<and> traded_qty (cr_trades res) = cs_volume s
             \<and> good_trades (cs_price s) (cr_trades res)
             \<and> open_at Sell (\<lambda>_. True) (ob_state b) = open_at Sell (\<lambda>_. True) (ob_state b') + cs_volume s
             \<and> open_at Buy (\<lambda>_. True) (ob_state b) = open_at Buy (\<lambda>_. True) (ob_state b') + cs_volume s)))"
proof (cases "ob_mode b = Auction")
  case False
  with x b show ?thesis by (auto simp: execute_auction_clearing_def)
next
  case auction: True
  from b have tick: "0 < ob_tick b" and i: "state_inv (ob_tick b) (ob_next_seq b) (ob_state b)"
    by (auto simp: book_inv_def)
  note grid = book_on_grid [OF b g]
  show ?thesis
  proof (cases "clearing_selection_of pc ex b")
    case (Inl e)
    with x b auction show ?thesis by (auto simp: execute_auction_clearing_def)
  next
    case (Inr sel)
    note sc = Inr [unfolded clearing_selection_of_def]
    show ?thesis
    proof (cases sel)
      case None
      then have "\<forall>p. executable (clearing_orders b) p = 0"
        using select_clearing_cases [OF sc] grid by simp
      from nothing_executable_uncrossed [OF i this] x b auction Inr None show ?thesis
        by (auto simp: execute_auction_clearing_def)
    next
      case (Some s)
      note pr = select_clearing_price [OF grid sc [unfolded Some]]
      have sv: "serves_better (clearing_orders b) (cs_price s)"
        using pr(2) by (simp add: maximal_at_def valid_at_def)
      have tm: "to_match (cs_price s) (cs_volume s - 0) (ob_state b)"
        using selection_to_match [OF state_invD(1) [OF i] sv] pr(3) by simp
      have V: "cs_volume s \<le> u64_max" using select_clearing_volume [OF sc] pr(3) by simp
      obtain lr st where l: "auction_loop (cs_price s) (cs_volume s) 0 [] (ob_state b) = (lr, st)"
        by (cases "auction_loop (cs_price s) (cs_volume s) 0 [] (ob_state b)")
      note res = auction_loop_result [OF i pr(1) _ V tm l, simplified]
      then have si: "state_inv (ob_tick b) (ob_next_seq b) st" "remains (ob_state b) st" by auto
      show ?thesis
      proof (cases lr)
        case (Inl e)
        with x l auction Inr Some have "r = Inl e" "b' = b\<lparr>ob_state := st\<rparr>"
          by (simp_all add: execute_auction_clearing_def)
        with res Inl si tick auction show ?thesis by (simp add: book_inv_def)
      next
        case (Inr y)
        obtain ts m where y: "y = (ts, m)" by (cases y)
        with res Inr have o: "m = cs_volume s" "to_match (cs_price s) 0 st" "good_trades (cs_price s) ts"
          "traded_qty ts = cs_volume s"
          "open_at Sell (\<lambda>_. True) (ob_state b) = open_at Sell (\<lambda>_. True) st + traded_qty ts"
          "open_at Buy (\<lambda>_. True) (ob_state b) = open_at Buy (\<lambda>_. True) st + traded_qty ts" by auto
        from x l auction \<open>clearing_selection_of pc ex b = Inr sel\<close> Some Inr y
        have "r = Inr \<lparr>cr_price = Some (cs_price s), cr_trades = ts, cr_matched_volume = m\<rparr>"
          "b' = b\<lparr>ob_state := st\<rparr>"
          by (simp_all add: execute_auction_clearing_def)
        with o si tick auction to_match_uncrossed [OF si(1) o(2)] \<open>clearing_selection_of pc ex b = Inr sel\<close> Some
        show ?thesis by (simp add: book_inv_def)
      qed
    qed
  qed
qed

end
