(* ===== verification/Book_Machine.thy ===== *)
theory Book_Machine
  imports Auction_Execution
begin

section \<open>The order book as a state machine\<close>

text \<open>
  The public operations as commands, the books they can reach, and the invariant of every
  reachable book. A book is determined by its resting orders and its filled identities, which is
  what makes undoing and restoring exact.
\<close>

subsection \<open>Reachable books\<close>

datatype book_command =
    PlaceCmd order bool
  | CancelCmd order_id
  | ModeCmd matching_mode
  | ClearCmd
  | AuctionCmd money stock_exchange

fun run_command :: "book_command \<Rightarrow> order_book \<Rightarrow> order_book" where
  "run_command (PlaceCmd od recording) b = snd (if recording then place_recording od b else place od b)"
| "run_command (CancelCmd oid) b = snd (cancel oid b)"
| "run_command (ModeCmd m) b = snd (set_mode m b)"
| "run_command ClearCmd b = clear_book b"
| "run_command (AuctionCmd pc ex) b = snd (execute_auction_clearing pc ex b)"

text \<open>The ranges of the machine types of an order.\<close>

definition order_typed :: "order \<Rightarrow> bool" where
  "order_typed od \<longleftrightarrow> in_i64 (ord_price od) \<and> ord_id od < 2 ^ 64"

fun command_typed :: "book_command \<Rightarrow> bool" where
  "command_typed (PlaceCmd od _) = order_typed od"
| "command_typed _ = True"

text \<open>
  The books that arise from a new one. The entry points that rebuild a book from a save are modelled but are no
  steps of the machine: the code runs them on saves it has validated.
\<close>

inductive book_reachable :: "order_book \<Rightarrow> bool" where
  fresh: "new_book tick = Inr b \<Longrightarrow> book_reachable b"
| step: "book_reachable b \<Longrightarrow> command_typed c \<Longrightarrow> book_reachable (run_command c b)"

definition book_typed :: "order_book \<Rightarrow> bool" where
  "book_typed b \<longleftrightarrow> (\<forall>od\<in>book_orders (ob_state b). order_typed od)
     \<and> (\<forall>i. filled_owner (bs_filled (ob_state b)) i \<noteq> None \<longrightarrow> i < 2 ^ 64)"

lemma typed_i64: "book_typed b \<Longrightarrow> i64_prices b"
  by (simp add: book_typed_def i64_prices_def order_typed_def)

lemma arrivals_typed:
  assumes a: "arrivals od (ob_state b) (ob_state b')" and t: "book_typed b" and o: "order_typed od"
  shows "book_typed b'"
  unfolding book_typed_def
proof (intro conjI ballI allI impI)
  fix m assume "m \<in> book_orders (ob_state b')"
  with a consider p where "p \<in> book_orders (ob_state b)" "same_identity m p"
    | "ord_id m = ord_id od" "ord_price m = ord_price od" unfolding arrivals_def by blast
  then show "order_typed m"
    using t o by cases (auto simp: book_typed_def order_typed_def same_identity_def)
next
  fix i assume "filled_owner (bs_filled (ob_state b')) i \<noteq> None"
  with a t o show "i < 2 ^ 64" by (auto simp: arrivals_def book_typed_def order_typed_def)
qed

lemma remains_typed:
  assumes r: "remains (ob_state b) (ob_state b')" and t: "book_typed b"
  shows "book_typed b'"
proof (cases "book_orders (ob_state b) = {}")
  case True
  with r t show ?thesis by (simp add: remains_def book_typed_def)
next
  case False
  then obtain p where p: "p \<in> book_orders (ob_state b)" by blast
  with t have "order_typed p" by (simp add: book_typed_def)
  with arrivals_typed [OF remains_arrivals [OF r] t] show ?thesis .
qed

lemma subset_inv:
  assumes i: "state_inv tick next st" and ok: "book_ok st'" and s: "book_orders st' \<subseteq> book_orders st"
  shows "state_inv tick next st'"
  using ok s state_invD [OF i] inj_on_subset [OF state_invD(2) [OF i] s] by (auto simp: state_inv_def)

lemma subset_uncrossed: "uncrossed st \<Longrightarrow> book_orders st' \<subseteq> book_orders st \<Longrightarrow> uncrossed st'"
  by (auto simp: uncrossed_def)

lemma subset_book_inv:
  assumes "book_inv b" "book_ok st'" "book_orders st' \<subseteq> book_orders (ob_state b)"
  shows "book_inv (b\<lparr>ob_state := st'\<rparr>)"
  using assms subset_inv [of _ _ "ob_state b" st'] subset_uncrossed [of "ob_state b" st']
  by (simp add: book_inv_def)

lemma cancel_outcome:
  assumes ok: "book_ok (ob_state b)"
  shows "(\<exists>od st'. od \<in> book_orders (ob_state b) \<and> ord_id od = i
        \<and> cancel i b = (Inr od, b\<lparr>ob_state := st'\<rparr>) \<and> removed od (ob_state b) st')
    \<or> (\<forall>od\<in>book_orders (ob_state b). ord_id od \<noteq> i)
        \<and> cancel i b = (Inl (if filled_owner (bs_filled (ob_state b)) i \<noteq> None then OrderAlreadyFilled i
            else OrderNotFound i), b)"
proof (cases "\<exists>od\<in>book_orders (ob_state b). ord_id od = i")
  case True
  with cancel_live [OF ok] show ?thesis by (fastforce simp: cancel_def)
next
  case False
  with cancel_absent [OF ok, of i] show ?thesis by (simp add: cancel_def)
qed

lemma cancel_inv:
  assumes "book_inv b"
  shows "book_inv (snd (cancel i b)) \<and> book_orders (ob_state (snd (cancel i b))) \<subseteq> book_orders (ob_state b)
    \<and> bs_filled (ob_state (snd (cancel i b))) = bs_filled (ob_state b)"
proof -
  from assms have ok: "book_ok (ob_state b)" by (simp add: book_inv_def state_inv_def)
  from cancel_outcome [OF ok, of i] show ?thesis
  proof (elim disjE exE conjE)
    fix od st' assume c: "cancel i b = (Inr od, b\<lparr>ob_state := st'\<rparr>)" and r: "removed od (ob_state b) st'"
    then have "book_ok st'" "book_orders st' \<subseteq> book_orders (ob_state b)"
      "bs_filled st' = bs_filled (ob_state b)" by (auto simp: removed_def)
    with subset_book_inv [OF assms] c show ?thesis by simp
  qed (use assms in simp)
qed

lemma best_prices:
  assumes ok: "book_ok (ob_state b)"
  shows "best_bid b = (case queue Sell (ob_state b) of [] \<Rightarrow> None | m # _ \<Rightarrow> Some (ord_price m))"
    and "best_ask b = (case queue Buy (ob_state b) of [] \<Rightarrow> None | m # _ \<Rightarrow> Some (ord_price m))"
proof -
  show "best_bid b = (case queue Sell (ob_state b) of [] \<Rightarrow> None | m # _ \<Rightarrow> Some (ord_price m))"
  proof (cases "queue Sell (ob_state b)")
    case Nil
    then show ?thesis by (simp add: best_bid_def queue_def)
  next
    case (Cons m rest)
    with queue_hd_map [OF ok Cons] obtain ys where "bs_bids (ob_state b) = (bid_key m, m) # ys" by auto
    with Cons show ?thesis by (simp add: best_bid_def bid_key_def)
  qed
  show "best_ask b = (case queue Buy (ob_state b) of [] \<Rightarrow> None | m # _ \<Rightarrow> Some (ord_price m))"
  proof (cases "queue Buy (ob_state b)")
    case Nil
    then show ?thesis by (simp add: best_ask_def queue_def)
  next
    case (Cons m rest)
    with queue_hd_map [OF ok Cons] obtain ys where "bs_asks (ob_state b) = (ask_key m, m) # ys" by auto
    with Cons show ?thesis by (simp add: best_ask_def ask_key_def)
  qed
qed

lemma empty_side_uncrossed:
  assumes ok: "book_ok st" and e: "queue sd st = []"
  shows "uncrossed st"
proof -
  have "ord_side m \<noteq> flip sd" if "m \<in> book_orders st" for m
    using queue_mem [OF ok, of m sd] e that by simp
  then show ?thesis by (cases sd) (auto simp: uncrossed_def)
qed

lemma uncrossed_iff_best:
  assumes ok: "book_ok (ob_state b)"
  shows "uncrossed (ob_state b) \<longleftrightarrow> (case (best_bid b, best_ask b) of (Some p, Some q) \<Rightarrow> p < q | _ \<Rightarrow> True)"
proof (cases "queue Sell (ob_state b)"; cases "queue Buy (ob_state b)")
  fix x xs y ys assume q: "queue Sell (ob_state b) = x # xs" "queue Buy (ob_state b) = y # ys"
  have "uncrossed (ob_state b) \<longleftrightarrow> ord_price x < ord_price y"
  proof
    assume "uncrossed (ob_state b)"
    with queue_mem [OF ok, of x Sell] queue_mem [OF ok, of y Buy] q
    show "ord_price x < ord_price y" by (simp add: uncrossed_def)
  next
    assume l: "ord_price x < ord_price y"
    show "uncrossed (ob_state b)" unfolding uncrossed_def
    proof (intro ballI impI)
      fix u v assume "u \<in> book_orders (ob_state b)" "v \<in> book_orders (ob_state b)"
        "ord_side u = Buy \<and> ord_side v = Sell"
      then have "u \<in> set (queue Sell (ob_state b))" "v \<in> set (queue Buy (ob_state b))"
        using queue_mem [OF ok] by auto
      with queue_sorted [OF ok q(1), of u] queue_sorted [OF ok q(2), of v] l
      show "ord_price u < ord_price v" by simp
    qed
  qed
  with best_prices [OF ok] q show ?thesis by simp
qed (use best_prices [OF ok] empty_side_uncrossed [OF ok] in auto)

lemma set_mode_outcome:
  assumes b: "book_inv b"
  shows "set_mode m b = (if m = Continuous \<and> \<not> uncrossed (ob_state b)
      then (Inl (InvalidAuctionClearing CrossedContinuous), b) else (Inr (), b\<lparr>ob_mode := m\<rparr>))"
    and "book_inv (snd (set_mode m b))"
proof -
  from b have ok: "book_ok (ob_state b)" by (simp add: book_inv_def state_inv_def)
  show e: "set_mode m b = (if m = Continuous \<and> \<not> uncrossed (ob_state b)
      then (Inl (InvalidAuctionClearing CrossedContinuous), b) else (Inr (), b\<lparr>ob_mode := m\<rparr>))"
    using uncrossed_iff_best [OF ok] by (auto simp: set_mode_def split: option.splits)
  show "book_inv (snd (set_mode m b))"
    unfolding e using b by (auto simp: book_inv_def)
qed

lemma clear_inv: "book_inv b \<Longrightarrow> book_inv (clear_book b)"
  using subset_book_inv [of b "clear_resting (ob_state b)"] clear_ok [of "ob_state b"]
  by (simp add: clear_book_def book_inv_def state_inv_def)

subsection \<open>Placing\<close>

lemma place_auction_outcome:
  assumes b: "book_inv b" and m: "ob_mode b = Auction" and p: "place_auction od b = (r, b')"
  shows "arrivals od (ob_state b) (ob_state b') \<and>
    (case r of
      Inl e \<Rightarrow> b' = b
    | Inr res \<Rightarrow> id_free (ord_id od) (ob_state b) \<and> tradable od \<and> ob_tick b dvd ord_price od
        \<and> mr_trades res = [] \<and> mr_resting res = Some (stamped (ob_next_seq b) od)
        \<and> (\<exists>st. b' = b\<lparr>ob_next_seq := ob_next_seq b + 1, ob_state := st\<rparr>
            \<and> added (stamped (ob_next_seq b) od) (ob_state b) st))"
proof (cases "known_id (ord_id od) (ob_state b) \<or> validate_progress od \<noteq> Inr () \<or> check_price (ob_tick b) od \<noteq> Inr ()")
  case True
  then have "\<exists>e. place_auction od b = (Inl e, b)"
    by (auto simp: place_auction_def try_in_def split: sum.splits)
  with p show ?thesis by (auto simp: remains_arrivals)
next
  case False
  from b have tick: "0 < ob_tick b" and i: "state_inv (ob_tick b) (ob_next_seq b) (ob_state b)"
    by (auto simp: book_inv_def)
  from False have v: "validate_progress od = Inr ()" "check_price (ob_tick b) od = Inr ()"
    "known_id (ord_id od) (ob_state b) = False" by blast+
  then have pr: "tradable od" "ob_tick b dvd ord_price od" and f: "id_free (ord_id od) (ob_state b)"
    using check_price_iff [OF tick] known_id_iff [OF state_invD(1) [OF i]] by (auto simp: tradable_def)
  have e: "place_auction od b = try_st (rest_order od b) (\<lambda>od1 b1.
         (Inr \<lparr>mr_trades = [], mr_resting = Some od1, mr_maker_before = []\<rparr>, b1))"
    by (simp add: place_auction_def v)
  from rest_order_result [OF i f pr] show ?thesis
  proof (elim disjE exE conjE)
    assume "rest_order od b = (Inl SequenceOverflow, b)"
    with e p show ?thesis by (auto simp: remains_arrivals)
  next
    fix st assume "rest_order od b = (Inr (stamped (ob_next_seq b) od),
        b\<lparr>ob_next_seq := ob_next_seq b + 1, ob_state := st\<rparr>)"
      and a: "added (stamped (ob_next_seq b) od) (ob_state b) st"
    with e p f pr added_arrivals [OF remains_arrivals [OF remains_refl] a, of od] show ?thesis by auto
  qed
qed

lemma place_frame:
  assumes b: "book_inv b" and p: "(if recording then place_recording od b else place od b) = (r, b')"
  shows "book_inv b'" "arrivals od (ob_state b) (ob_state b')" "ob_mode b' = ob_mode b" "ob_tick b' = ob_tick b"
proof -
  have "book_inv b' \<and> arrivals od (ob_state b) (ob_state b') \<and> ob_mode b' = ob_mode b \<and> ob_tick b' = ob_tick b"
  proof (cases "ob_mode b")
    case Auction
    with p have a: "place_auction od b = (r, b')" by (auto simp: place_def place_recording_def split: if_splits)
    from place_auction_inv [OF b Auction, of od] place_auction_outcome [OF b Auction a] a Auction
    show ?thesis by (auto split: sum.splits)
  next
    case Continuous
    with p have a: "place_inner od recording b = (r, b')"
      by (auto simp: place_def place_recording_def split: if_splits)
    from b Continuous have "uncrossed (ob_state b)" by (simp add: book_inv_def)
    from place_inner_outcome [OF b this a] show ?thesis by simp
  qed
  then show "book_inv b'" "arrivals od (ob_state b) (ob_state b')" "ob_mode b' = ob_mode b" "ob_tick b' = ob_tick b"
    by auto
qed

lemma reachable_inv: "book_reachable b \<Longrightarrow> book_inv b \<and> book_typed b"
proof (induction rule: book_reachable.induct)
  case (fresh tick b)
  then show ?case using new_book_inv by (auto simp: new_book_def book_typed_def empty_book_state_def book_orders_def wrapper_eqs split: if_splits)
next
  case (step b c)
  then have b: "book_inv b" "book_typed b" by auto
  show ?case
  proof (cases c)
    case (PlaceCmd od recording)
    obtain r b' where p: "(if recording then place_recording od b else place od b) = (r, b')"
      by (cases "if recording then place_recording od b else place od b")
    with PlaceCmd step.hyps(2) place_frame [OF b(1) p] arrivals_typed [OF _ b(2)] show ?thesis by simp
  next
    case (CancelCmd i)
    with cancel_inv [OF b(1), of i] b(2) show ?thesis by (auto simp: book_typed_def)
  next
    case (ModeCmd m)
    with set_mode_outcome [OF b(1), of m] b(2) show ?thesis by (auto simp: book_typed_def)
  next
    case ClearCmd
    with clear_inv [OF b(1)] clear_ok [of "ob_state b"] b show ?thesis
      by (simp add: book_typed_def clear_book_def book_inv_def state_inv_def clear_resting_def)
  next
    case (AuctionCmd pc ex)
    obtain r b' where x: "execute_auction_clearing pc ex b = (r, b')"
      by (cases "execute_auction_clearing pc ex b")
    with AuctionCmd execute_outcome [OF b(1) typed_i64 [OF b(2)] x] remains_typed [of b b'] b(2)
    show ?thesis by simp
  qed
qed

subsection \<open>A book is determined by what it holds\<close>

context price_time_side
begin

lemma side_keys: "side_ok xs \<Longrightarrow> sorted_wrt (<) (map key (bt_values xs))"
proof -
  assume ok: "side_ok xs"
  then have "map fst xs = map key (bt_values xs)" by (auto simp: side_ok_def)
  with side_ok_sorted [OF ok] show ?thesis by (simp add: bt_sorted_def)
qed

lemma side_entries: "side_ok xs \<Longrightarrow> set xs = (\<lambda>m. (key m, m)) ` set (bt_values xs)"
  by (force simp: side_ok_def)

lemma side_determined:
  assumes "side_ok xs" "side_ok ys" "set (bt_values xs) = set (bt_values ys)"
  shows "xs = ys"
  using bt_determined [OF side_ok_sorted side_ok_sorted] side_entries assms by metis

end

lemma live_ids: "book_ok st \<Longrightarrow> idx_ids (bs_live st) = ord_id ` book_orders st"
  using idx_get_dom [OF book_okD(3)] book_okD(5) by (force simp: index_agrees_def wrapper_eqs dom_def)

lemma live_determined:
  assumes s: "book_ok s" and t: "book_ok t" and o: "book_orders s = book_orders t"
    and b: "\<forall>m\<in>book_orders s. ord_id m < 2 ^ 64"
  shows "bs_live s = bs_live t"
proof (rule index_unique [OF book_okD(3) [OF s] book_okD(3) [OF t]])
  have "resting_get (bs_live s) i = Some k \<longleftrightarrow> resting_get (bs_live t) i = Some k" for i k
    using book_okD(5) [OF s] book_okD(5) [OF t] o by (simp add: index_agrees_def)
  then have "resting_get (bs_live s) i = resting_get (bs_live t) i" for i
    by (metis not_None_eq)
  then show "idx_get (bs_live s) = idx_get (bs_live t)" by (simp add: wrapper_eqs fun_eq_iff)
  show "\<forall>i\<in>idx_ids (bs_live s). i < 2 ^ 64" using live_ids [OF s] b by auto
qed

lemma filled_determined:
  assumes "idx_inv f" "idx_inv g" "filled_owner f = filled_owner g"
    "\<forall>i. filled_owner f i \<noteq> None \<longrightarrow> i < 2 ^ 64"
  shows "f = g"
proof (rule index_unique [OF assms(1,2)])
  show "idx_get f = idx_get g" using assms(3) by (simp add: wrapper_eqs)
  show "\<forall>i\<in>idx_ids f. i < 2 ^ 64" using assms(4) idx_get_None_iff [OF assms(1)] by (auto simp: wrapper_eqs)
qed

lemma book_state_determined:
  assumes s: "book_ok s" and t: "book_ok t" and o: "book_orders s = book_orders t"
    and f: "bs_filled s = bs_filled t" and b: "\<forall>m\<in>book_orders s. ord_id m < 2 ^ 64"
  shows "s = t"
proof -
  have "set (bt_values (bs_bids s)) = set (bt_values (bs_bids t))"
    "set (bt_values (bs_asks s)) = set (bt_values (bs_asks t))"
    using bid_mem [OF s] bid_mem [OF t] ask_mem [OF s] ask_mem [OF t] o by blast+
  then have "bs_bids s = bs_bids t" "bs_asks s = bs_asks t"
    using bid_side.side_determined [OF book_okD(1) [OF s] book_okD(1) [OF t]]
      ask_side.side_determined [OF book_okD(2) [OF s] book_okD(2) [OF t]] by simp_all
  with live_determined [OF s t o b] f show ?thesis by simp
qed

end
