(* ===== verification/Book_Properties.thy ===== *)
theory Book_Properties
  imports Book_Machine
begin

section \<open>What the order book promises\<close>

text \<open>
  The properties a caller relies on: the invariant of reachable books, what a placement trades
  and in which order, which orders are rejected and that a rejection changes nothing, that
  cancelling undoes resting, and what the call auction leaves. The witnesses run a small book.
\<close>

subsection \<open>A sample book\<close>

definition sample_order :: "order_id \<Rightarrow> side \<Rightarrow> money \<Rightarrow> nat \<Rightarrow> order" where
  "sample_order i sd p n = \<lparr>ord_id = i, ord_side = sd, ord_price = p, ord_qty = n,
     ord_original_qty = n, ord_filled_qty = 0, ord_filled_value = 0, ord_owner = i + 100, ord_seq = 0\<rparr>"

definition sample_empty :: order_book where
  "sample_empty = \<lparr>ob_state = empty_book_state, ob_next_seq = 0, ob_tick = 1, ob_mode = Continuous\<rparr>"

definition sample_asks :: order_book where
  "sample_asks = run_command (PlaceCmd (sample_order 1 Sell 1000 200) False) sample_empty"

lemma sample_empty_reachable: "book_reachable sample_empty"
  by (rule book_reachable.fresh [of 1]) (simp add: new_book_def sample_empty_def)

lemma sample_asks_reachable: "book_reachable sample_asks"
  unfolding sample_asks_def
  by (rule book_reachable.step [OF sample_empty_reachable])
    (simp add: order_typed_def sample_order_def in_i64_def)

lemmas book_eval = place_def place_recording_def place_inner_def place_auction_def rest_order_def
  check_price_def known_id_def insert_resting_def resting_insert_def resting_get_def filled_owner_def
  empty_book_state_def checked_u64_def checked_u32_def
  record_filled_def filled_insert_def bid_key_def ask_key_def validate_progress_def
  mul_shares_def filled_value_after_def filled_qty_after_def money_add_def checked_i64_def
  in_i64_def best_opposite_def crossed_def apply_maker_fill_def
  match_trade_def leg_trade_def sample_order_def u32_sub_def fill_in_place_def resting_remove_def bt_update_def Let_def

lemma sample_asks_eq: "sample_asks = \<lparr>ob_state = \<lparr>bs_bids = [],
    bs_asks = [((1000, 0), sample_order 1 Sell 1000 200)],
    bs_live = INode 1 (AskKey 1000 0) (priority 1) IEmpty IEmpty, bs_filled = IEmpty\<rparr>,
    ob_next_seq = 1, ob_tick = 1, ob_mode = Continuous\<rparr>"
  by (simp add: sample_asks_def sample_empty_def match_loop.simps book_eval del: validate_progress_iff)

subsection \<open>The invariant\<close>

text \<open>
  C3 (Every reachable book is well-formed). Whatever sequence of placements, cancellations, mode
  switches, clearings and call auctions a book has been through, failed calls included: both
  sides are in strict price-time order, the identity index and the two sides agree, no resting
  order is also recorded as filled, arrival numbers are distinct and below the counter, every
  resting order is open with a positive price on the tick grid and consistent quantities, and in
  Continuous mode the best bid is below the best ask.
\<close>

theorem reachable_books_well_formed:
  assumes "book_reachable b"
  shows "book_ok (ob_state b) \<and> inj_on ord_seq (book_orders (ob_state b))
    \<and> (\<forall>od\<in>book_orders (ob_state b). in_progress od \<and> 0 < ord_price od \<and> ob_tick b dvd ord_price od
        \<and> ord_seq od < ob_next_seq b)
    \<and> (ob_mode b = Continuous \<longrightarrow>
        (case (best_bid b, best_ask b) of (Some bid, Some ask) \<Rightarrow> bid < ask | _ \<Rightarrow> True))"
  using reachable_inv [OF assms] uncrossed_iff_best [of b]
  by (auto simp: book_inv_def state_inv_def tradable_def)

lemma reachable_books_well_formed_witness:
  "book_ok (ob_state sample_asks) \<and> inj_on ord_seq (book_orders (ob_state sample_asks))"
  using reachable_books_well_formed [OF sample_asks_reachable] by blast

subsection \<open>Placing in Continuous mode\<close>

text \<open>One resting order is ahead of another for an incoming order of the given side.\<close>

definition ahead :: "side \<Rightarrow> order \<Rightarrow> order \<Rightarrow> bool" where
  "ahead sd x y \<longleftrightarrow> (case sd of Buy \<Rightarrow> ord_price x < ord_price y | Sell \<Rightarrow> ord_price y < ord_price x)
     \<or> ord_price x = ord_price y \<and> ord_seq x < ord_seq y"

lemma queue_ahead:
  assumes "book_ok st"
  shows "sorted_wrt (ahead sd) (queue sd st)"
proof (cases sd)
  case Buy
  have "sorted_wrt (<) (map ask_key (queue Buy st))"
    using ask_side.side_keys [OF book_okD(2) [OF assms]] by (simp add: queue_def)
  with Buy show ?thesis by (simp add: sorted_wrt_map ask_side.key_less ahead_def [abs_def])
next
  case Sell
  have "sorted_wrt (<) (map bid_key (queue Sell st))"
    using bid_side.side_keys [OF book_okD(1) [OF assms]] by (simp add: queue_def)
  with Sell show ?thesis by (simp add: sorted_wrt_map bid_side.key_less ahead_def [abs_def])
qed

lemma reachable_continuous:
  assumes "book_reachable b" "ob_mode b = Continuous" "place od b = (Inr res, b')"
  shows "id_free (ord_id od) (ob_state b) \<and> tradable od \<and> ob_tick b dvd ord_price od
    \<and> matched_outcome False od b res b'"
proof -
  have b: "book_inv b" "uncrossed (ob_state b)" using reachable_inv [OF assms(1)] assms(2)
    by (auto simp: book_inv_def)
  have "place_inner od False b = (Inr res, b')" using assms(2,3) by (simp add: place_def)
  from place_inner_outcome [OF b this] show ?thesis by simp
qed

definition sample_taker :: order where
  "sample_taker = sample_order 2 Buy 1010 300"

lemma sample_match: "\<exists>b'. place sample_taker sample_asks = (Inr \<lparr>
    mr_trades = [\<lparr>tr_price = 1000, tr_qty = 200, tr_maker = 101, tr_taker = 102,
      tr_maker_order_id = 1, tr_taker_order_id = 2,
      tr_maker_filled_value_before = 0, tr_taker_filled_value_before = 0\<rparr>],
    mr_resting = Some \<lparr>ord_id = 2, ord_side = Buy, ord_price = 1010, ord_qty = 100,
      ord_original_qty = 300, ord_filled_qty = 200, ord_filled_value = 200000, ord_owner = 102, ord_seq = 1\<rparr>,
    mr_maker_before = []\<rparr>, b')"
  by (simp add: sample_asks_eq sample_taker_def match_loop.simps book_eval del: validate_progress_iff)

lemma sample_continuous: "ob_mode sample_asks = Continuous"
  by (simp add: sample_asks_eq)

text \<open>
  C2 (Placing implements price-time priority). In Continuous mode a successful placement serves
  the opposite queue from its head: the i-th trade is with the i-th order of the queue, at that
  order's price and within the limit of the incoming order; the queue is in order of price and
  then arrival; every order traded with but possibly the last is filled completely, and what
  remains on the opposite side is the rest of the queue in the same order.
\<close>

theorem placing_respects_priority:
  assumes "book_reachable b" "ob_mode b = Continuous" "place od b = (Inr res, b')"
  shows "let q = queue (ord_side od) (ob_state b); k = length (mr_trades res) in
      sorted_wrt (ahead (ord_side od)) q \<and> k \<le> length q
    \<and> list_all2 (trade_with od) (take k q) (mr_trades res)
    \<and> (queue (ord_side od) (ob_state b') = drop k q
       \<or> (\<exists>n. 0 < n \<and> n < ord_qty (q ! (k - 1)) \<and> 0 < k
            \<and> queue (ord_side od) (ob_state b') = maker_after n (q ! (k - 1)) # drop k q))"
proof -
  let ?q = "queue (ord_side od) (ob_state b)" and ?k = "length (mr_trades res)"
  have ok: "book_ok (ob_state b)" using reachable_inv [OF assms(1)] by (simp add: book_inv_def state_inv_def)
  from reachable_continuous [OF assms] obtain t' fs rest where
    f: "fill_queue od ?q = (t', mr_trades res, fs, rest)" "queue (ord_side od) (ob_state b') = rest"
    unfolding matched_outcome_def by blast
  from fill_queue_split [OF f(1)] have "rest = drop ?k ?q \<or> (\<exists>n. 0 < n \<and> n < ord_qty (?q ! (?k - 1)) \<and> 0 < ?k
            \<and> rest = maker_after n (?q ! (?k - 1)) # drop ?k ?q)"
    by (elim disjE exE conjE) (auto simp: nth_append)
  with fill_queue_trades [OF f(1)] queue_ahead [OF ok] f(2) show ?thesis by (simp add: Let_def)
qed

lemma placing_respects_priority_witness:
  "\<exists>res b'. place sample_taker sample_asks = (Inr res, b') \<and> length (mr_trades res) = 1
    \<and> list_all2 (trade_with sample_taker) (take 1 (queue Buy (ob_state sample_asks))) (mr_trades res)"
proof -
  from sample_match obtain res b' where p: "place sample_taker sample_asks = (Inr res, b')"
    "length (mr_trades res) = 1" by fastforce
  have s: "ord_side sample_taker = Buy" by (simp add: sample_taker_def sample_order_def)
  from placing_respects_priority [OF sample_asks_reachable sample_continuous p(1)] p show ?thesis
    unfolding Let_def s by auto
qed

text \<open>
  C1 (Matching refines the queue specification). In Continuous mode, with or without recording of
  the makers, a successful placement is the specification that folds the incoming order over the
  opposite queue: same trades, same remaining queue, the recorded makers are the orders traded
  with as they were before, exactly the completely filled orders become filled identities, and
  what is left of the incoming order rests under the next arrival number, or is recorded as
  filled when nothing is left.
\<close>

theorem placing_refines_specification:
  assumes "book_reachable b" "ob_mode b = Continuous"
    "(if recording then place_recording od b else place od b) = (Inr res, b')"
  shows "matched_outcome recording od b res b'"
proof -
  have b: "book_inv b" "uncrossed (ob_state b)" using reachable_inv [OF assms(1)] assms(2)
    by (auto simp: book_inv_def)
  have "place_inner od recording b = (Inr res, b')"
    using assms(2,3) by (auto simp: place_def place_recording_def split: if_splits)
  from place_inner_outcome [OF b this] show ?thesis by simp
qed

lemma placing_refines_specification_witness:
  "\<exists>res b'. place sample_taker sample_asks = (Inr res, b') \<and> matched_outcome False sample_taker sample_asks res b'"
  using placing_refines_specification [OF sample_asks_reachable sample_continuous, of False sample_taker]
    sample_match by fastforce

text \<open>
  C6 (No share is created or lost in matching). In Continuous mode the quantity of a successful
  placement splits into what was traded and what rests; the value booked on the resting order is
  the value of its trades; the opposite side loses exactly what was traded, every trade is of at
  least one share, and what rests does not cross the best opposite order.
\<close>

theorem placing_conserves_shares:
  assumes "book_reachable b" "ob_mode b = Continuous" "place od b = (Inr res, b')"
  shows "traded_qty (mr_trades res) + (case mr_resting res of Some r \<Rightarrow> ord_qty r | None \<Rightarrow> 0) = ord_qty od
    \<and> open_qty (queue (ord_side od) (ob_state b')) + traded_qty (mr_trades res)
        = open_qty (queue (ord_side od) (ob_state b))
    \<and> (\<forall>t\<in>set (mr_trades res). 0 < tr_qty t)
    \<and> (case mr_resting res of None \<Rightarrow> True
      | Some r \<Rightarrow> ord_filled_value r = ord_filled_value od + traded_value (mr_trades res)
          \<and> (\<forall>m\<in>set (queue (ord_side od) (ob_state b')). \<not> crosses r m))"
proof -
  let ?q = "queue (ord_side od) (ob_state b)"
  have i: "book_ok (ob_state b)" "\<forall>m\<in>set ?q. 0 < ord_qty m"
    using reachable_inv [OF assms(1)] queue_mem [of "ob_state b"]
    by (auto simp: book_inv_def state_inv_def tradable_def in_progress_def)
  have b': "book_inv b'" "ob_mode b' = Continuous"
    using place_frame [of b False od] reachable_inv [OF assms(1)] assms(2,3) by auto
  from reachable_continuous [OF assms] obtain t' fs rest where
    f: "fill_queue od ?q = (t', mr_trades res, fs, rest)" "queue (ord_side od) (ob_state b') = rest"
    and m: "if ord_qty t' = 0 then mr_resting res = None
      else mr_resting res = Some (stamped (ob_next_seq b) t') \<and>
        set (queue (flip (ord_side od)) (ob_state b'))
             = insert (stamped (ob_next_seq b) t') (set (queue (flip (ord_side od)) (ob_state b)))"
    unfolding matched_outcome_def by (auto split: if_splits)
  note tk = fill_queue_taker [OF f(1)]
  have nc: "\<not> crosses r x" if "mr_resting res = Some r" "x \<in> set rest" for r x
  proof -
    have ok': "book_ok (ob_state b')" and u: "uncrossed (ob_state b')"
      using b' by (auto simp: book_inv_def state_inv_def)
    have "r \<in> set (queue (flip (ord_side od)) (ob_state b'))" "ord_side r = ord_side od"
      using m that(1) tk by (auto split: if_splits)
    with u queue_mem [OF ok'] that(2) f(2) show ?thesis
      by (cases "ord_side od") (force simp: uncrossed_def crosses_def)+
  qed
  show ?thesis
    using tk m nc f(2) fill_queue_conserves [OF f(1)] fill_queue_positive [OF f(1) i(2)]
    by (auto simp: stamped_def split: if_splits)
qed

lemma placing_conserves_shares_witness:
  "\<exists>res b'. place sample_taker sample_asks = (Inr res, b') \<and> traded_qty (mr_trades res) = 200
    \<and> traded_qty (mr_trades res) + (case mr_resting res of Some r \<Rightarrow> ord_qty r | None \<Rightarrow> 0)
        = ord_qty sample_taker"
proof -
  from sample_match obtain res b' where p: "place sample_taker sample_asks = (Inr res, b')"
    "traded_qty (mr_trades res) = 200" by fastforce
  from placing_conserves_shares [OF sample_asks_reachable sample_continuous p(1)] p show ?thesis by blast
qed

subsection \<open>Rejections\<close>

text \<open>
  C26 (Rejected orders change nothing). In both modes an order whose id is in use, live or filled,
  is a duplicate; an order whose quantities do not add up is refused with the error of its
  progress check; an order off the tick grid or without a positive price is refused as an invalid
  price. In each case the book is as before, and in Auction mode every other order rests unless
  the arrival counter is exhausted.
\<close>

theorem rejected_orders_change_nothing:
  assumes "book_reachable b"
  shows "(\<not> id_free (ord_id od) (ob_state b) \<longrightarrow> place od b = (Inl (DuplicateOrderId (ord_id od)), b))
    \<and> (id_free (ord_id od) (ob_state b) \<longrightarrow>
        (\<forall>e. validate_progress od = Inl e \<longrightarrow> place od b = (Inl e, b))
      \<and> (in_progress od \<and> \<not> (0 < ord_price od \<and> ob_tick b dvd ord_price od) \<longrightarrow>
          place od b = (Inl (InvalidPrice (ord_price od) (ob_tick b)
            (if ord_price od \<le> 0 then NonPositive else NotTickMultiple)), b))
      \<and> (tradable od \<and> ob_tick b dvd ord_price od \<and> ob_mode b = Auction \<and> ob_next_seq b < u64_max \<longrightarrow>
          (\<exists>res b'. place od b = (Inr res, b') \<and> mr_resting res = Some (od\<lparr>ord_seq := ob_next_seq b\<rparr>))))"
proof -
  from reachable_inv [OF assms] have b: "book_inv b" "0 < ob_tick b" "book_ok (ob_state b)"
    and i: "state_inv (ob_tick b) (ob_next_seq b) (ob_state b)"
    by (auto simp: book_inv_def state_inv_def)
  note k = known_id_iff [OF b(3)]
  show ?thesis
  proof (intro conjI impI allI)
    assume "\<not> id_free (ord_id od) (ob_state b)"
    then show "place od b = (Inl (DuplicateOrderId (ord_id od)), b)"
      using k by (simp add: place_def place_auction_def place_inner_def split: matching_mode.split)
  next
    fix e assume "id_free (ord_id od) (ob_state b)" "validate_progress od = Inl e"
    then show "place od b = (Inl e, b)"
      using k by (simp add: place_def place_auction_def place_inner_def split: matching_mode.split)
  next
    assume f: "id_free (ord_id od) (ob_state b)"
      and p: "in_progress od \<and> \<not> (0 < ord_price od \<and> ob_tick b dvd ord_price od)"
    then have v: "validate_progress od = Inr ()" by simp
    have "check_price (ob_tick b) od = Inl (InvalidPrice (ord_price od) (ob_tick b)
        (if ord_price od \<le> 0 then NonPositive else NotTickMultiple))"
      using p by (auto simp: check_price_def dvd_eq_mod_eq_0)
    then show "place od b = (Inl (InvalidPrice (ord_price od) (ob_tick b)
        (if ord_price od \<le> 0 then NonPositive else NotTickMultiple)), b)"
      using k f v by (simp add: place_def place_auction_def place_inner_def
          split: matching_mode.split del: validate_progress_iff)
  next
    assume f: "id_free (ord_id od) (ob_state b)"
      and p: "tradable od \<and> ob_tick b dvd ord_price od \<and> ob_mode b = Auction \<and> ob_next_seq b < u64_max"
    then have v: "validate_progress od = Inr ()" "check_price (ob_tick b) od = Inr ()"
      using check_price_iff [OF b(2)] by (auto simp: tradable_def)
    from rest_order_result [OF i f] p obtain st where
      "rest_order od b = (Inr (stamped (ob_next_seq b) od), b\<lparr>ob_next_seq := ob_next_seq b + 1, ob_state := st\<rparr>)"
      by auto
    with k f v p show "\<exists>res b'. place od b = (Inr res, b') \<and> mr_resting res = Some (od\<lparr>ord_seq := ob_next_seq b\<rparr>)"
      by (simp add: place_def place_auction_def stamped_def del: validate_progress_iff)
  qed
qed

lemma rejected_orders_change_nothing_witness:
  "place (sample_order 1 Buy 1010 300) sample_asks = (Inl (DuplicateOrderId 1), sample_asks)
    \<and> place (sample_order 2 Buy 0 300) sample_asks = (Inl (InvalidPrice 0 1 NonPositive), sample_asks)"
  using rejected_orders_change_nothing [OF sample_asks_reachable, of "sample_order 1 Buy 1010 300"]
    rejected_orders_change_nothing [OF sample_asks_reachable, of "sample_order 2 Buy 0 300"]
  by (simp add: sample_asks_eq sample_order_def id_free_def book_orders_def in_progress_def filled_owner_def)

subsection \<open>Cancelling\<close>

lemma no_trade_queue:
  assumes "fill_queue od q = (t', [], fs, rest)"
  shows "t' = od" "fs = []" "rest = q"
proof -
  show "t' = od" using fill_queue_taker [OF assms] by (simp add: filled_by_def)
  show "fs = []" "rest = q" using fill_queue_split [OF assms] by auto
qed

lemma rested_without_trading:
  assumes b: "book_inv b" "book_typed b" and p: "place od b = (Inr res, b')" and e: "mr_trades res = []"
  shows "id_free (ord_id od) (ob_state b) \<and> mr_resting res = Some (stamped (ob_next_seq b) od)
      \<and> ob_next_seq b' = ob_next_seq b + 1 \<and> bs_filled (ob_state b') = bs_filled (ob_state b)
      \<and> book_orders (ob_state b') = insert (stamped (ob_next_seq b) od) (book_orders (ob_state b))"
proof (cases "ob_mode b")
  case Auction
  with p have a: "place_auction od b = (Inr res, b')" by (simp add: place_def)
  from place_auction_outcome [OF b(1) Auction a] obtain st where
    o: "id_free (ord_id od) (ob_state b)" "mr_resting res = Some (stamped (ob_next_seq b) od)"
    "added (stamped (ob_next_seq b) od) (ob_state b) st"
    and b': "b' = b\<lparr>ob_next_seq := ob_next_seq b + 1, ob_state := st\<rparr>" by auto
  from o show ?thesis unfolding b' by (simp add: added_def)
next
  case Continuous
  with p have a: "place_inner od False b = (Inr res, b')" by (simp add: place_def)
  from b Continuous have u: "uncrossed (ob_state b)" by (simp add: book_inv_def)
  note out = place_inner_outcome [OF b(1) u a]
  have ok: "book_ok (ob_state b)" "book_ok (ob_state b')" using b(1) out by (auto simp: book_inv_def state_inv_def)
  from out have f: "id_free (ord_id od) (ob_state b)" "tradable od" "matched_outcome False od b res b'" by auto
  from f(3) obtain t' fs rest where
    fq: "fill_queue od (queue (ord_side od) (ob_state b)) = (t', [], fs, rest)"
    and q: "queue (ord_side od) (ob_state b') = rest"
    and m: "if ord_qty t' = 0 then mr_resting res = None
      else mr_resting res = Some (stamped (ob_next_seq b) t') \<and> ob_next_seq b' = ob_next_seq b + 1
        \<and> filled_owner (bs_filled (ob_state b')) = record_owners fs (filled_owner (bs_filled (ob_state b)))
        \<and> set (queue (flip (ord_side od)) (ob_state b'))
             = insert (stamped (ob_next_seq b) t') (set (queue (flip (ord_side od)) (ob_state b)))"
    unfolding matched_outcome_def e by (auto split: if_splits)
  note n = no_trade_queue [OF fq]
  have "0 < ord_qty od" using f(2) by (simp add: tradable_def in_progress_def)
  with m n have r: "mr_resting res = Some (stamped (ob_next_seq b) od)" "ob_next_seq b' = ob_next_seq b + 1"
    "filled_owner (bs_filled (ob_state b)) = filled_owner (bs_filled (ob_state b'))"
    "set (queue (flip (ord_side od)) (ob_state b'))
       = insert (stamped (ob_next_seq b) od) (set (queue (flip (ord_side od)) (ob_state b)))" by auto
  have "bs_filled (ob_state b) = bs_filled (ob_state b')"
    by (rule filled_determined [OF book_okD(4) [OF ok(1)] book_okD(4) [OF ok(2)] r(3)])
      (use b(2) in \<open>simp add: book_typed_def\<close>)
  moreover have "book_orders (ob_state b') = insert (stamped (ob_next_seq b) od) (book_orders (ob_state b))"
    using r(4) q n(3) queue_union [of "ob_state b'"] queue_union [of "ob_state b"]
    by (cases "ord_side od") auto
  ultimately show ?thesis using f(1) r(1,2) by simp
qed

text \<open>
  On a reachable book, cancelling the id of a live order
  returns that order and removes it alone; the filled identities, the arrival counter and the
  mode stay. A filled id and an unknown id are refused with different errors and change nothing.
\<close>

theorem cancel_removes_exactly:
  assumes "book_reachable b"
  shows "case cancel i b of
      (Inr od, b') \<Rightarrow> od \<in> book_orders (ob_state b) \<and> ord_id od = i
        \<and> book_orders (ob_state b') = book_orders (ob_state b) - {od}
        \<and> bs_filled (ob_state b') = bs_filled (ob_state b)
        \<and> ob_next_seq b' = ob_next_seq b \<and> ob_mode b' = ob_mode b \<and> ob_tick b' = ob_tick b
    | (Inl e, b') \<Rightarrow> b' = b \<and> (\<forall>od\<in>book_orders (ob_state b). ord_id od \<noteq> i)
        \<and> e = (case filled_order_owner i b of Some _ \<Rightarrow> OrderAlreadyFilled i | None \<Rightarrow> OrderNotFound i)"
proof -
  have ok: "book_ok (ob_state b)" using reachable_inv [OF assms] by (simp add: book_inv_def state_inv_def)
  from cancel_outcome [OF ok, of i] show ?thesis
  proof (elim disjE exE conjE)
    fix od st' assume "od \<in> book_orders (ob_state b)" "ord_id od = i"
      and "cancel i b = (Inr od, b\<lparr>ob_state := st'\<rparr>)" and "removed od (ob_state b) st'"
    then show ?thesis by (simp add: removed_def)
  qed (auto simp: filled_order_owner_def split: option.split)
qed

lemma cancel_removes_exactly_witness:
  "cancel 5 sample_asks = (Inl (OrderNotFound 5), sample_asks)"
  using cancel_removes_exactly [OF sample_asks_reachable, of 5]
  by (auto simp: sample_asks_eq cancel_def cancel_order_def resting_remove_def book_orders_def
      sample_order_def filled_order_owner_def filled_owner_def)

text \<open>
  When an order comes to rest without trading, cancelling its id
  returns it and puts the book back to the very state it was in, the identity index included;
  only the arrival counter has advanced.
\<close>

theorem cancel_undoes_resting:
  assumes "book_reachable b" "order_typed od" "place od b = (Inr res, b')" "mr_trades res = []"
  shows "mr_resting res = Some (od\<lparr>ord_seq := ob_next_seq b\<rparr>)
    \<and> cancel (ord_id od) b' = (Inr (od\<lparr>ord_seq := ob_next_seq b\<rparr>), b\<lparr>ob_next_seq := ob_next_seq b + 1\<rparr>)"
proof -
  let ?od = "stamped (ob_next_seq b) od"
  from reachable_inv [OF assms(1)] have b: "book_inv b" "book_typed b"
    and ok: "book_ok (ob_state b)" by (auto simp: book_inv_def state_inv_def)
  have rested: "id_free (ord_id od) (ob_state b) \<and> mr_resting res = Some ?od \<and> ob_next_seq b' = ob_next_seq b + 1
      \<and> bs_filled (ob_state b') = bs_filled (ob_state b)
      \<and> book_orders (ob_state b') = insert ?od (book_orders (ob_state b))"
    by (rule rested_without_trading [OF b assms(3,4)])
  note fr = place_frame [OF b(1), of False od "Inr res" b', simplified, OF assms(3)]
  have ok': "book_ok (ob_state b')" using fr(1) by (simp add: book_inv_def state_inv_def)
  have mem: "?od \<in> book_orders (ob_state b')" using rested by simp
  from cancel_live [OF ok' mem] obtain st where
    c: "cancel_order (ord_id od) (ob_state b') = (Inr ?od, st)" "removed ?od (ob_state b') st" by auto
  have new: "?od \<notin> book_orders (ob_state b)" using rested by (auto simp: id_free_def)
  have "st = ob_state b"
  proof (rule book_state_determined)
    show "book_ok st" "book_orders st = book_orders (ob_state b)" "bs_filled st = bs_filled (ob_state b)"
      using c(2) rested new by (auto simp: removed_def)
    show "book_ok (ob_state b)" by (rule ok)
    show "\<forall>m\<in>book_orders st. ord_id m < 2 ^ 64"
      using b(2) \<open>book_orders st = book_orders (ob_state b)\<close> by (simp add: book_typed_def order_typed_def)
  qed
  then have "cancel (ord_id od) b' = (Inr ?od, b'\<lparr>ob_state := ob_state b\<rparr>)"
    using c(1) by (simp add: cancel_def)
  moreover have "b'\<lparr>ob_state := ob_state b\<rparr> = b\<lparr>ob_next_seq := ob_next_seq b + 1\<rparr>"
    using rested fr(3,4) by simp
  ultimately show ?thesis using rested by (simp add: stamped_def)
qed

lemma cancel_undoes_resting_witness:
  "\<exists>b'. snd (place (sample_order 1 Sell 1000 200) sample_empty) = b'
    \<and> cancel 1 b' = (Inr (sample_order 1 Sell 1000 200), sample_empty\<lparr>ob_next_seq := 1\<rparr>)"
proof -
  have p: "place (sample_order 1 Sell 1000 200) sample_empty = (Inr \<lparr>mr_trades = [],
      mr_resting = Some (sample_order 1 Sell 1000 200), mr_maker_before = []\<rparr>, sample_asks)"
    by (simp add: sample_asks_eq sample_empty_def match_loop.simps book_eval del: validate_progress_iff)
  have t: "order_typed (sample_order 1 Sell 1000 200)"
    by (simp add: order_typed_def sample_order_def in_i64_def)
  from cancel_undoes_resting [OF sample_empty_reachable t p] p show ?thesis
    by (simp add: sample_order_def sample_empty_def)
qed

subsection \<open>The call auction\<close>

lemma reachable_execution:
  assumes "book_reachable b" "execute_auction_clearing pc ex b = (r, b')"
  shows "book_inv b \<and> book_inv b' \<and> ob_mode b' = ob_mode b \<and> remains (ob_state b) (ob_state b') \<and>
    (case r of
      Inl e \<Rightarrow> ob_mode b \<noteq> Auction \<and> b' = b \<or> clearing_selection_of pc ex b = Inl e \<and> b' = b \<or> money_error e
    | Inr res \<Rightarrow> ob_mode b = Auction \<and> uncrossed (ob_state b') \<and>
       (\<exists>sel. clearing_selection_of pc ex b = Inr sel \<and> cr_price res = map_option cs_price sel \<and>
         (case sel of
           None \<Rightarrow> b' = b \<and> cr_trades res = [] \<and> cr_matched_volume res = 0
         | Some s \<Rightarrow> cr_matched_volume res = cs_volume s \<and> traded_qty (cr_trades res) = cs_volume s
             \<and> good_trades (cs_price s) (cr_trades res)
             \<and> open_at Sell (\<lambda>_. True) (ob_state b) = open_at Sell (\<lambda>_. True) (ob_state b') + cs_volume s
             \<and> open_at Buy (\<lambda>_. True) (ob_state b) = open_at Buy (\<lambda>_. True) (ob_state b') + cs_volume s)))"
  using execute_outcome [OF _ typed_i64 assms(2)] reachable_inv [OF assms(1)] by simp

definition sample_auction :: order_book where
  "sample_auction = run_command (PlaceCmd (sample_order 2 Buy 1010 300) False)
     (run_command (PlaceCmd (sample_order 1 Sell 1000 200) False)
     (run_command (ModeCmd Auction) sample_empty))"

lemma sample_auction_reachable: "book_reachable sample_auction"
  unfolding sample_auction_def
  by (intro book_reachable.step sample_empty_reachable)
    (simp_all add: order_typed_def sample_order_def in_i64_def)

lemma sample_auction_eq: "sample_auction = \<lparr>ob_state = \<lparr>
      bs_bids = [((Reverse 1010, 1), (sample_order 2 Buy 1010 300)\<lparr>ord_seq := 1\<rparr>)],
      bs_asks = [((1000, 0), sample_order 1 Sell 1000 200)],
      bs_live = INode 1 (AskKey 1000 0) (priority 1) IEmpty (INode 2 (BidKey 1010 1) (priority 2) IEmpty IEmpty),
      bs_filled = IEmpty\<rparr>,
    ob_next_seq = 2, ob_tick = 1, ob_mode = Auction\<rparr>"
  by (simp add: sample_auction_def sample_empty_def match_loop.simps book_eval set_mode_def best_bid_def
      best_ask_def priority_def del: validate_progress_iff)

lemma sample_selection: "clearing_selection_of 1000 Shenzhen sample_auction
    = Inr (Some \<lparr>cs_price = 1010, cs_volume = 200, cs_imbalance = 100\<rparr>)"
  by (simp add: clearing_selection_of_def clearing_orders_def resting_order_refs_def sample_auction_eq
      sample_order_def clearing_order_of_def select_clearing_def candidate_prices_def candidate_stats_def
      side_qtys_def select_shenzhen_def cd_volume_def cd_price_def abs_diff_def List.map_filter_def Let_def
      checked_qty_sum_def add_qty_def checked_u64_def del: checked_qty_sum_Inr)

lemma sample_execution: "\<exists>b'. execute_auction_clearing 1000 Shenzhen sample_auction = (Inr \<lparr>cr_price = Some 1010,
    cr_trades = [leg_trade 1010 200 (sample_order 1 Sell 1000 200) (sample_order 2 Buy 1010 300)],
    cr_matched_volume = 200\<rparr>, b')"
  unfolding execute_auction_clearing_def sample_selection
  by (simp add: auction_loop.simps sample_auction_eq book_eval priority_def)

text \<open>
  C4 (The auction trades exactly the selected volume). A call auction that succeeds ran in Auction mode on the
  selection computed from the book before it, which is the volume that the orders of the book can execute at the
  selected price. When a price was selected, the reported price is that price and the reported volume that volume; every trade
  is at that price and of at least one share, the trades add up to the selected volume, and each side of the book loses
  exactly it. When none was selected there are no trades and the book is unchanged. An auction that fails is not in Auction mode, or
  the selection itself has failed on an overflow, both without a change, or a money value has overflowed while trading a selected volume;
  the checks that the loop and the selection agree never fail.
\<close>

theorem auction_trades_selected_volume:
  assumes "book_reachable b" "execute_auction_clearing pc ex b = (r, b')"
  shows "case r of
      Inr res \<Rightarrow> ob_mode b = Auction \<and> indicative_clearing_price pc ex b = Inr (cr_price res)
        \<and> (case clearing_selection_of pc ex b of
            Inl _ \<Rightarrow> False
          | Inr None \<Rightarrow> res = \<lparr>cr_price = None, cr_trades = [], cr_matched_volume = 0\<rparr> \<and> b' = b
          | Inr (Some s) \<Rightarrow> cr_price res = Some (cs_price s) \<and> cr_matched_volume res = cs_volume s
            \<and> cs_volume s = executable (clearing_orders b) (cs_price s)
            \<and> (\<forall>t\<in>set (cr_trades res). tr_price t = cs_price s \<and> 0 < tr_qty t)
            \<and> traded_qty (cr_trades res) = cs_volume s
            \<and> open_qty (queue Sell (ob_state b)) = open_qty (queue Sell (ob_state b')) + cs_volume s
            \<and> open_qty (queue Buy (ob_state b)) = open_qty (queue Buy (ob_state b')) + cs_volume s)
    | Inl e \<Rightarrow> e \<noteq> rejected SelectionMismatch
        \<and> (if ob_mode b \<noteq> Auction then e = rejected NotInAuctionMode \<and> b' = b
           else case clearing_selection_of pc ex b of
             Inl e' \<Rightarrow> e = e' \<and> overflow_reject e \<and> b' = b
           | Inr None \<Rightarrow> False
           | Inr (Some s) \<Rightarrow> money_error e)"
proof (cases r)
  case (Inl e)
  note out = reachable_execution [OF assms, unfolded Inl, simplified]
  have tick: "0 < ob_tick b" using out by (simp add: book_inv_def)
  show ?thesis
  proof (cases "ob_mode b = Auction")
    case False
    with assms(2) Inl show ?thesis by (auto simp: execute_auction_clearing_def rejected_def)
  next
    case True
    show ?thesis
    proof (cases "clearing_selection_of pc ex b")
      case (Inl e')
      then have "overflow_reject e'" using select_clearing_error tick by (simp add: clearing_selection_of_def)
      with assms(2) True Inl \<open>r = Inl e\<close> show ?thesis by (auto simp: execute_auction_clearing_def overflow_reject_def rejected_def)
    next
      case (Inr sel)
      with out True have "money_error e" by simp
      with assms(2) True Inr \<open>r = Inl e\<close> show ?thesis
        by (cases sel) (auto simp: execute_auction_clearing_def money_error_def rejected_def)
    qed
  qed
next
  case (Inr res)
  with reachable_execution [OF assms] obtain sel where
    s: "ob_mode b = Auction" "clearing_selection_of pc ex b = Inr sel" "cr_price res = map_option cs_price sel"
    and c: "case sel of
           None \<Rightarrow> b' = b \<and> cr_trades res = [] \<and> cr_matched_volume res = 0
         | Some s \<Rightarrow> cr_matched_volume res = cs_volume s \<and> traded_qty (cr_trades res) = cs_volume s
             \<and> good_trades (cs_price s) (cr_trades res)
             \<and> open_at Sell (\<lambda>_. True) (ob_state b) = open_at Sell (\<lambda>_. True) (ob_state b') + cs_volume s
             \<and> open_at Buy (\<lambda>_. True) (ob_state b) = open_at Buy (\<lambda>_. True) (ob_state b') + cs_volume s"
    by auto
  have i: "indicative_clearing_price pc ex b = Inr (cr_price res)"
    using s by (simp add: indicative_clearing_price_def)
  show ?thesis
  proof (cases sel)
    case None
    with c i s Inr show ?thesis by simp
  next
    case (Some sl)
    have "on_grid (ob_tick b) (clearing_orders b)" using book_on_grid reachable_execution [OF assms] typed_i64 reachable_inv [OF assms(1)] by blast
    then have "cs_volume sl = executable (clearing_orders b) (cs_price sl)"
      using select_clearing_price(3) s(2) Some by (simp add: clearing_selection_of_def)
    with Some c i s Inr show ?thesis by (simp add: good_trades_def open_at_def)
  qed
qed

lemma auction_trades_selected_volume_witness:
  "\<exists>res b'. execute_auction_clearing 1000 Shenzhen sample_auction = (Inr res, b') \<and> cr_matched_volume res = 200
    \<and> executable (clearing_orders sample_auction) 1010 = 200
    \<and> open_qty (queue Sell (ob_state sample_auction)) = open_qty (queue Sell (ob_state b')) + 200"
proof -
  from sample_execution obtain res b' where x: "execute_auction_clearing 1000 Shenzhen sample_auction = (Inr res, b')"
    "cr_matched_volume res = 200" "cr_price res = Some 1010" by fastforce
  from auction_trades_selected_volume [OF sample_auction_reachable x(1)] x show ?thesis
    by (auto split: sum.splits option.splits)
qed

text \<open>
  Once a call auction has succeeded, no buy order on
  the book reaches the best sell order, so the switch to Continuous mode is accepted; a book on
  which the auction has not run is refused the switch exactly when it is crossed.
\<close>

theorem auction_opens_continuous:
  assumes "book_reachable b" "execute_auction_clearing pc ex b = (Inr res, b')"
  shows "set_mode Continuous b' = (Inr (), b'\<lparr>ob_mode := Continuous\<rparr>)
    \<and> (fst (set_mode Continuous b) = Inr () \<longleftrightarrow>
        (\<forall>x\<in>book_orders (ob_state b). \<forall>y\<in>book_orders (ob_state b).
           ord_side x = Buy \<and> ord_side y = Sell \<longrightarrow> ord_price x < ord_price y))"
proof -
  have b: "book_inv b" "book_inv b'" "uncrossed (ob_state b')" using reachable_execution [OF assms] by auto
  from set_mode_outcome [OF b(2), of Continuous] set_mode_outcome [OF b(1), of Continuous] b(3)
  show ?thesis by (simp add: uncrossed_def)
qed

lemma auction_opens_continuous_witness:
  "\<exists>res b'. execute_auction_clearing 1000 Shenzhen sample_auction = (Inr res, b')
    \<and> set_mode Continuous b' = (Inr (), b'\<lparr>ob_mode := Continuous\<rparr>)"
  using auction_opens_continuous [OF sample_auction_reachable] sample_execution by blast

end
