(* ===== verification/Market.thy ===== *)
theory Market
  imports Book_Machine
begin

section \<open>The market of one stock (market.rs)\<close>

text \<open>
  \<open>Market\<close> puts the daily price limits, the price cage of continuous trading and the price
  history around an order book. The bounds are integer computations in basis points; the model
  keeps the range checks of the \<open>i128\<close> and \<open>i64\<close> steps. Pure accessors of the source are the
  fields of the record.
\<close>

type_synonym stock_id = nat

datatype market_param = LimitOutOfRange | LimitNotBasisPoints | InitialPriceNotPositive
  | CutoffBeyondBook | ExRightsStateDiffers | ExRatioOverflow | ExRatioInvalid | ExBoundInvalid | ExCageOverflow

datatype market_error =
    LimitExceeded stock_id money money money
  | MarketBook order_error
  | MarketMoney money_error
  | InvalidParams market_param
  | InvalidPriceState money

record market =
  mk_code :: stock_id
  mk_book :: order_book
  mk_last_price :: money
  mk_last_close :: money
  mk_limit_bps :: nat
  mk_tick :: money
  mk_cutoff :: nat

record market_delta =
  md_code :: stock_id
  md_before_last_price :: money
  md_after_last_price :: money
  md_last_close :: money
  md_book :: book_delta

datatype limit_price = Fixed money | Highest | Lowest

subsection \<open>Bounds\<close>

definition price_bound_cents :: "int \<Rightarrow> nat \<Rightarrow> int \<Rightarrow> bool \<Rightarrow> int option" where
  "price_bound_cents reference ratio_bps tick upward =
    (if reference \<le> 0 \<or> tick \<le> 0 then None
     else
       let denominator = 10000 * tick;
           numerator = reference * int ratio_bps;
           rounded_ticks = (numerator + denominator div 2) div denominator in
       Option.bind (checked_i128 (rounded_ticks * tick)) (\<lambda>cents.
       Option.bind (checked_i64 cents) (\<lambda>rounded_cents.
       let bound = max rounded_cents tick in
       if upward \<and> bound \<le> reference then checked_i64 (reference + tick)
       else if \<not> upward \<and> reference \<le> bound then Some (max (reference - tick) tick)
       else Some bound)))"

definition validate_ex_reference_cents :: "int \<Rightarrow> int \<Rightarrow> nat \<Rightarrow> market_param + unit" where
  "validate_ex_reference_cents reference tick limit_bps =
    bind_result (ok_or ExRatioOverflow (checked_u32 (10000 + limit_bps))) (\<lambda>upper.
    bind_result (if limit_bps \<le> 10000 then Inr (10000 - limit_bps) else Inl ExRatioInvalid) (\<lambda>lower.
    bind_result (try_map (\<lambda>(ratio, upward).
        ok_or ExBoundInvalid (price_bound_cents reference ratio tick upward))
      [(upper, True), (lower, False), (10200, True), (9800, False)]) (\<lambda>_.
    bind_result (ok_or ExCageOverflow (checked_i64 (reference + 10))) (\<lambda>_. Inr ()))))"

definition price_bound :: "money \<Rightarrow> nat \<Rightarrow> bool \<Rightarrow> market \<Rightarrow> market_error + money" where
  "price_bound reference ratio_bps upward m =
    ok_or (if reference \<le> 0 then InvalidPriceState reference
           else MarketMoney (MoneyOverflow PositiveHalfUpBound reference))
      (price_bound_cents reference ratio_bps (mk_tick m) upward)"

definition up_stop :: "market \<Rightarrow> market_error + money" where
  "up_stop m = price_bound (mk_last_close m) (10000 + mk_limit_bps m) True m"

definition down_stop :: "market \<Rightarrow> market_error + money" where
  "down_stop m = price_bound (mk_last_close m) (u32_sub 10000 (mk_limit_bps m)) False m"

definition or_else :: "'a option \<Rightarrow> 'a option \<Rightarrow> 'a option" where
  "or_else a b = (case a of Some x \<Rightarrow> Some x | None \<Rightarrow> b)"

definition continuous_limit_reference :: "side \<Rightarrow> market \<Rightarrow> money" where
  "continuous_limit_reference sd m =
    (case (case sd of
        Buy \<Rightarrow> or_else (best_ask (mk_book m)) (best_bid (mk_book m))
      | Sell \<Rightarrow> or_else (best_bid (mk_book m)) (best_ask (mk_book m))) of
      Some p \<Rightarrow> p | None \<Rightarrow> mk_last_price m)"

definition continuous_limit_bound :: "side \<Rightarrow> market \<Rightarrow> market_error + money" where
  "continuous_limit_bound sd m =
    (let reference = continuous_limit_reference sd m in
     bind_result (map_error MarketMoney (mul_shares (mk_tick m) 10)) (\<lambda>ten_ticks.
     case sd of
       Buy \<Rightarrow>
         bind_result (price_bound reference 10200 True m) (\<lambda>bound.
         bind_result (map_error MarketMoney (money_add reference ten_ticks)) (\<lambda>above.
         Inr (max bound above)))
     | Sell \<Rightarrow>
         bind_result (price_bound reference 9800 False m) (\<lambda>bound.
         bind_result (map_error MarketMoney (money_sub reference ten_ticks)) (\<lambda>below.
         Inr (min bound (max below (mk_tick m)))))))"

definition limit_order_price_bound :: "side \<Rightarrow> bool \<Rightarrow> market \<Rightarrow> market_error + money" where
  "limit_order_price_bound sd apply_price_cage m =
    bind_result (case sd of Buy \<Rightarrow> up_stop m | Sell \<Rightarrow> down_stop m) (\<lambda>daily_bound.
    if \<not> apply_price_cage then Inr daily_bound
    else bind_result (continuous_limit_bound sd m) (\<lambda>cage_bound.
      Inr (case sd of Buy \<Rightarrow> min daily_bound cage_bound | Sell \<Rightarrow> max daily_bound cage_bound)))"

definition resolve_limit_price :: "side \<Rightarrow> limit_price \<Rightarrow> bool \<Rightarrow> market \<Rightarrow> market_error + money" where
  "resolve_limit_price sd price apply_price_cage m =
    (case price of
      Fixed p \<Rightarrow> Inr p
    | Highest \<Rightarrow> (case sd of Buy \<Rightarrow> limit_order_price_bound Buy apply_price_cage m | Sell \<Rightarrow> up_stop m)
    | Lowest \<Rightarrow> (case sd of Buy \<Rightarrow> down_stop m | Sell \<Rightarrow> limit_order_price_bound Sell apply_price_cage m))"

subsection \<open>Construction and prices\<close>

definition new_market :: "stock_id \<Rightarrow> money \<Rightarrow> f64 \<Rightarrow> money \<Rightarrow> market_error + market" where
  "new_market code initial_price limit_pct tick =
    (if \<not> (f64_lt (Finite 0) limit_pct \<and> f64_lt limit_pct (Finite 1)) then Inl (InvalidParams LimitOutOfRange)
     else
       let scaled_limit = f64_mul limit_pct (Finite 10000);
           rounded_limit = f64_round scaled_limit in
       if f64_lt (f64_of_rat (1 / 10 ^ 9)) (f64_abs (f64_sub scaled_limit rounded_limit))
       then Inl (InvalidParams LimitNotBasisPoints)
       else if initial_price \<le> 0 then Inl (InvalidParams InitialPriceNotPositive)
       else bind_result (map_error MarketBook (new_book tick)) (\<lambda>book.
         Inr \<lparr>mk_code = code, mk_book = book, mk_last_price = initial_price, mk_last_close = initial_price,
           mk_limit_bps = nat (f64_to_int 0 (int u32_max) rounded_limit), mk_tick = tick, mk_cutoff = 0\<rparr>))"

definition restore_prices :: "money \<Rightarrow> money \<Rightarrow> market \<Rightarrow> market" where
  "restore_prices last_price last_close m = m\<lparr>mk_last_price := last_price, mk_last_close := last_close\<rparr>"

subsection \<open>Orders\<close>

definition last_trade_price :: "trade list \<Rightarrow> money \<Rightarrow> money" where
  "last_trade_price ts p = (if ts = [] then p else tr_price (last ts))"

definition market_place_inner :: "order \<Rightarrow> bool \<Rightarrow> market \<Rightarrow> (market_error + match_result) \<times> market" where
  "market_place_inner od record_makers m =
    try_in (up_stop m) m (\<lambda>up.
    try_in (down_stop m) m (\<lambda>down.
    if ord_price od < down \<or> up < ord_price od
    then (Inl (LimitExceeded (mk_code m) (ord_price od) down up), m)
    else (case (if record_makers then place_recording od (mk_book m) else place od (mk_book m)) of
        (Inl e, b) \<Rightarrow> (Inl (MarketBook e), m\<lparr>mk_book := b\<rparr>)
      | (Inr res, b) \<Rightarrow> (Inr res, m\<lparr>mk_book := b,
          mk_last_price := last_trade_price (mr_trades res) (mk_last_price m)\<rparr>))))"

definition market_place :: "order \<Rightarrow> market \<Rightarrow> (market_error + match_result) \<times> market" where
  "market_place od m = market_place_inner od False m"

definition market_place_recording :: "order \<Rightarrow> market \<Rightarrow> (market_error + match_result) \<times> market" where
  "market_place_recording od m = market_place_inner od True m"

definition market_cancel :: "order_id \<Rightarrow> market \<Rightarrow> (market_error + order) \<times> market" where
  "market_cancel oid m = (case cancel oid (mk_book m) of (r, b) \<Rightarrow> (map_error MarketBook r, m\<lparr>mk_book := b\<rparr>))"

definition set_matching_mode :: "matching_mode \<Rightarrow> market \<Rightarrow> (order_error + unit) \<times> market" where
  "set_matching_mode mode m =
    (let before = ob_mode (mk_book m) in
     case set_mode mode (mk_book m) of
       (Inl e, b) \<Rightarrow> (Inl e, m\<lparr>mk_book := b\<rparr>)
     | (Inr _, b) \<Rightarrow> (Inr (), if before \<noteq> mode
         then m\<lparr>mk_book := b, mk_cutoff := (if mode = Auction then ob_next_seq b else 0)\<rparr>
         else m\<lparr>mk_book := b\<rparr>))"

definition restore_auction_public_cutoff_sequence :: "nat \<Rightarrow> market \<Rightarrow> (market_error + unit) \<times> market" where
  "restore_auction_public_cutoff_sequence cutoff m =
    (if ob_next_seq (mk_book m) < cutoff \<and> 0 < ob_next_seq (mk_book m)
     then (Inl (InvalidParams CutoffBeyondBook), m)
     else (Inr (), m\<lparr>mk_cutoff := cutoff\<rparr>))"

text \<open>The quantity of a price level; the \<open>expect\<close> on its overflow is the result \<open>None\<close>.\<close>

fun add_level :: "order list \<Rightarrow> (money, nat) bt \<Rightarrow> (money, nat) bt option" where
  "add_level [] levels = Some levels"
| "add_level (od # ods) levels =
    Option.bind (checked_u64 ((case map_of levels (ord_price od) of Some q \<Rightarrow> q | None \<Rightarrow> 0) + ord_qty od))
      (\<lambda>q. add_level ods (bt_insert (ord_price od) q levels))"

definition depth_before_sequence :: "nat \<Rightarrow> market \<Rightarrow> ((money \<times> nat) list \<times> (money \<times> nat) list) option" where
  "depth_before_sequence cutoff m =
    (let ods = filter (\<lambda>od. ord_seq od < cutoff) (resting_order_refs (mk_book m)) in
     Option.bind (add_level (filter (\<lambda>od. ord_side od = Buy) ods) []) (\<lambda>bids.
     Option.bind (add_level (filter (\<lambda>od. ord_side od = Sell) ods) []) (\<lambda>asks.
     Some (rev bids, asks))))"

subsection \<open>Auction, settlement of the day, projections\<close>

definition market_execute_auction :: "stock_exchange \<Rightarrow> market \<Rightarrow> (market_error + clearing_result) \<times> market" where
  "market_execute_auction ex m =
    (case execute_auction_clearing (mk_last_close m) ex (mk_book m) of
      (Inl e, b) \<Rightarrow> (Inl (MarketBook e), m\<lparr>mk_book := b\<rparr>)
    | (Inr res, b) \<Rightarrow> (Inr res, m\<lparr>mk_book := b,
        mk_last_price := (case cr_price res of Some p \<Rightarrow> p | None \<Rightarrow> mk_last_price m)\<rparr>))"

definition market_indicative_price :: "stock_exchange \<Rightarrow> market \<Rightarrow> market_error + money option" where
  "market_indicative_price ex m =
     map_error MarketBook (indicative_clearing_price (mk_last_close m) ex (mk_book m))"

definition market_auction_indicative :: "stock_exchange \<Rightarrow> market \<Rightarrow> market_error + (money \<times> nat) option \<times> nat" where
  "market_auction_indicative ex m =
     map_error MarketBook (auction_indicative (mk_last_close m) ex (mk_book m))"

definition market_restore_resting :: "order list \<Rightarrow> nat \<Rightarrow> market \<Rightarrow> (market_error + unit) \<times> market" where
  "market_restore_resting ods next_seq m =
    (case restore_resting_orders ods next_seq (mk_book m) of (r, b) \<Rightarrow>
       (map_error MarketBook r, m\<lparr>mk_book := b\<rparr>))"

definition market_restore_filled :: "(order_id \<times> account_id) list \<Rightarrow> market \<Rightarrow> (market_error + unit) \<times> market" where
  "market_restore_filled es m =
    (case restore_filled_orders es (mk_book m) of (r, b) \<Rightarrow> (map_error MarketBook r, m\<lparr>mk_book := b\<rparr>))"

definition market_changed_since ::
    "money \<Rightarrow> money \<Rightarrow> nat \<Rightarrow> (order_id, order option) bt \<Rightarrow> market \<Rightarrow> market_error + market_delta" where
  "market_changed_since before_last_price before_last_close before_next_seq originals m =
    (if mk_last_close m \<noteq> before_last_close
     then Inl (MarketBook (ProjectionMismatch YesterdayCloseChanged []))
     else Inr \<lparr>md_code = mk_code m, md_before_last_price = before_last_price,
       md_after_last_price = mk_last_price m, md_last_close = mk_last_close m,
       md_book = changed_orders_since before_next_seq originals (mk_book m)\<rparr>)"

definition market_apply_changes :: "market_delta \<Rightarrow> market \<Rightarrow> (market_error + unit) \<times> market" where
  "market_apply_changes delta m =
    (if mk_code m \<noteq> md_code delta \<or> mk_last_price m \<noteq> md_before_last_price delta
        \<or> mk_last_close m \<noteq> md_last_close delta
     then (Inl (MarketBook (ProjectionMismatch MarketVersionDiffers [])), m)
     else (case apply_changes (md_book delta) (mk_book m) of
        (Inl e, b) \<Rightarrow> (Inl (MarketBook e), m\<lparr>mk_book := b\<rparr>)
      | (Inr _, b) \<Rightarrow> (Inr (), m\<lparr>mk_book := b, mk_last_price := md_after_last_price delta\<rparr>)))"

definition end_of_day :: "market \<Rightarrow> market" where
  "end_of_day m = m\<lparr>mk_last_close := mk_last_price m, mk_book := clear_book (mk_book m)\<rparr>"

definition end_of_day_with_trades :: "bool \<Rightarrow> market \<Rightarrow> market" where
  "end_of_day_with_trades traded m =
    (let m1 = (if traded then m\<lparr>mk_last_close := mk_last_price m\<rparr> else m) in
     m1\<lparr>mk_book := clear_book (mk_book m1)\<rparr>)"

definition install_ex_reference :: "money \<Rightarrow> money \<Rightarrow> market \<Rightarrow> (market_error + unit) \<times> market" where
  "install_ex_reference expected_close reference m =
    (if mk_last_close m \<noteq> expected_close \<or> resting_order_count (mk_book m) \<noteq> 0
     then (Inl (InvalidParams ExRightsStateDiffers), m)
     else try_in (map_error InvalidParams (validate_ex_reference_cents reference (mk_tick m) (mk_limit_bps m))) m
       (\<lambda>_. (Inr (), m\<lparr>mk_last_close := reference\<rparr>)))"

subsection \<open>Laws of the bounds\<close>

text \<open>A quotient rounded half up is within half a step of the exact value.\<close>

lemma half_up_div:
  fixes a d :: int
  assumes "0 < d"
  shows "2 * a - d \<le> 2 * (((a + d div 2) div d) * d)" "2 * (((a + d div 2) div d) * d) \<le> 2 * a + d"
proof -
  let ?q = "(a + d div 2) div d" and ?r = "(a + d div 2) mod d"
  have e: "?q * d = a + d div 2 - ?r" using div_mult_mod_eq [of "a + d div 2" d] by linarith
  have r: "0 \<le> ?r" "?r < d" using assms by simp_all
  have h: "d - 1 \<le> 2 * (d div 2)" "2 * (d div 2) \<le> d" by presburger+
  show "2 * a - d \<le> 2 * (?q * d)" "2 * (?q * d) \<le> 2 * a + d" using e r h by linarith+
qed

lemma price_bound_cases:
  assumes "price_bound_cents r k t up = Some b"
  defines "q \<equiv> ((r * int k + (10000 * t) div 2) div (10000 * t)) * t"
  shows "0 < r \<and> 0 < t \<and> in_i64 q \<and> b = (if up \<and> max q t \<le> r then r + t
    else if \<not> up \<and> r \<le> max q t then max (r - t) t else max q t) \<and> (up \<and> max q t \<le> r \<longrightarrow> in_i64 (r + t))"
  using assms by (auto simp: price_bound_cents_def Let_def bind_eq_Some_conv split: if_splits)

lemma price_bound_direction:
  assumes "price_bound_cents r k t up = Some b"
  shows "t \<le> b" "up \<Longrightarrow> r < b" "\<not> up \<Longrightarrow> b < r \<or> b = t" "t dvd r \<Longrightarrow> t dvd b"
proof -
  note c = price_bound_cases [OF assms]
  show "t \<le> b" "up \<Longrightarrow> r < b" "\<not> up \<Longrightarrow> b < r \<or> b = t" using c by (auto split: if_splits)
  assume "t dvd r"
  then show "t dvd b" using c by (auto simp: max_def split: if_splits)
qed

lemma price_bound_accuracy:
  assumes "price_bound_cents r k t up = Some b" "if up then k > 10000 else k < 10000"
  shows "\<bar>10000 * b - r * int k\<bar> \<le> 10000 * t"
proof -
  note c = price_bound_cases [OF assms(1)]
  define q where "q = ((r * int k + (10000 * t) div 2) div (10000 * t)) * t"
  define a where "a = r * int k"
  from c have p: "0 < r" "0 < t" by auto
  have h: "2 * a - 10000 * t \<le> 20000 * q" "20000 * q \<le> 2 * a + 10000 * t"
    using half_up_div [of "10000 * t" a] p by (simp_all add: q_def a_def mult_ac)
  have "0 < a \<or> a = 0" using p by (auto simp: a_def)
  moreover have k: "if up then r * 10000 < a else a < r * 10000" using p assms(2) by (simp add: a_def)
  moreover have "b = (if up \<and> max q t \<le> r then r + t
    else if \<not> up \<and> r \<le> max q t then max (r - t) t else max q t)" using c by (simp add: q_def)
  ultimately show ?thesis
    unfolding a_def [symmetric] using h p by (auto simp: max_def abs_le_iff split: if_splits)
qed

text \<open>The bound exists as long as it and one step above the reference fit.\<close>

lemma price_bound_exists:
  assumes "0 < r" "0 < t" "r * int k + 5000 * t \<le> 10000 * i64_max" "r + t \<le> i64_max"
  shows "\<exists>b. price_bound_cents r k t up = Some b"
proof -
  define q where "q = ((r * int k + (10000 * t) div 2) div (10000 * t)) * t"
  have h: "20000 * q \<le> 2 * (r * int k) + 10000 * t"
    using half_up_div [of "10000 * t" "r * int k"] assms by (simp add: q_def mult_ac)
  have "0 \<le> q" using assms by (simp add: q_def pos_imp_zdiv_nonneg_iff)
  then have "in_i64 q" "in_i128 q" "in_i64 (r + t)"
    using h assms by (auto simp: in_i64_def in_i128_def)
  with assms show ?thesis
    by (auto simp: price_bound_cents_def Let_def q_def checked_i64_def checked_i128_def)
qed

end
