(* ===== verification/Market_Properties.thy ===== *)
theory Market_Properties
  imports Market Book_Properties
begin

section \<open>What a market promises\<close>

text \<open>
  The market as a state machine over its operations. Its invariant keeps every resting order
  within the daily limits, so that no trade, continuous or in the auction, leaves them.
\<close>

subsection \<open>Trades happen at resting prices\<close>

lemma place_trades_resting:
  assumes b: "book_inv b" and p: "(if recording then place_recording od b else place od b) = (Inr res, b')"
    and t: "t \<in> set (mr_trades res)"
  shows "\<exists>m\<in>book_orders (ob_state b). tr_price t = ord_price m"
proof (cases "ob_mode b")
  case Auction
  with p have "place_auction od b = (Inr res, b')" by (auto simp: place_def place_recording_def split: if_splits)
  from place_auction_outcome [OF b Auction this] t show ?thesis by simp
next
  case Continuous
  with p have a: "place_inner od recording b = (Inr res, b')"
    by (auto simp: place_def place_recording_def split: if_splits)
  from b Continuous have u: "uncrossed (ob_state b)" "book_ok (ob_state b)"
    by (auto simp: book_inv_def state_inv_def)
  from place_inner_outcome [OF b u(1) a] obtain t' fs rest where
    "fill_queue od (queue (ord_side od) (ob_state b)) = (t', mr_trades res, fs, rest)"
    by (auto simp: matched_outcome_def)
  from fill_queue_trades [OF this] t obtain m where
    "m \<in> set (queue (ord_side od) (ob_state b))" "trade_with od m t"
    by (auto simp: list_all2_conv_all_nth in_set_conv_nth) (metis nth_take nth_mem order_less_le_trans)
  with queue_mem [OF u(2)] show ?thesis by (auto simp: trade_with_def)
qed

lemma selected_price_between:
  assumes b: "book_inv b" "i64_prices b" and s: "clearing_selection_of pc ex b = Inr (Some s)"
  shows "\<exists>x\<in>book_orders (ob_state b). \<exists>y\<in>book_orders (ob_state b).
    ord_price y \<le> cs_price s \<and> cs_price s \<le> ord_price x"
proof -
  from b have i: "state_inv (ob_tick b) (ob_next_seq b) (ob_state b)" by (simp add: book_inv_def)
  note ok = state_invD(1) [OF i]
  have "0 < executable (clearing_orders b) (cs_price s)"
    using select_clearing_price(2) [OF book_on_grid [OF b] s [unfolded clearing_selection_of_def]]
    by (simp add: maximal_at_def valid_at_def)
  then have "0 < open_at Sell (\<lambda>l. cs_price s \<le> l) (ob_state b)" "0 < open_at Buy (\<lambda>l. l \<le> cs_price s) (ob_state b)"
    by (simp_all add: executable_def demand_def offers_def clearing_side_sum [OF ok])
  from open_at_pos [OF this(1)] open_at_pos [OF this(2)] queue_mem [OF ok] show ?thesis by blast
qed

subsection \<open>Reachable markets\<close>

datatype market_command =
    MPlace order bool
  | MCancel order_id
  | MMode matching_mode
  | MAuction stock_exchange
  | MEndOfDay
  | MEndOfDayTrades bool
  | MExReference money money

fun run_market :: "market_command \<Rightarrow> market \<Rightarrow> market" where
  "run_market (MPlace od recording) m = snd (market_place_inner od recording m)"
| "run_market (MCancel oid) m = snd (market_cancel oid m)"
| "run_market (MMode mode) m = snd (set_matching_mode mode m)"
| "run_market (MAuction ex) m = snd (market_execute_auction ex m)"
| "run_market MEndOfDay m = end_of_day m"
| "run_market (MEndOfDayTrades traded) m = end_of_day_with_trades traded m"
| "run_market (MExReference expected reference) m = snd (install_ex_reference expected reference m)"

fun market_command_typed :: "market_command \<Rightarrow> bool" where
  "market_command_typed (MPlace od _) = order_typed od"
| "market_command_typed _ = True"

text \<open>
  The markets that arise from a new one. Restoring prices and orders from a save, which the code has validated
  by then, and taking over the changes of another copy of the market are modelled but are no steps of the machine.
\<close>

inductive market_reachable :: "market \<Rightarrow> bool" where
  fresh: "new_market code p l tick = Inr m \<Longrightarrow> market_reachable m"
| step: "market_reachable m \<Longrightarrow> market_command_typed c \<Longrightarrow> market_reachable (run_market c m)"

definition in_band :: "market \<Rightarrow> money \<Rightarrow> bool" where
  "in_band m p \<longleftrightarrow> (\<exists>u d. up_stop m = Inr u \<and> down_stop m = Inr d \<and> d \<le> p \<and> p \<le> u)"

definition market_inv :: "market \<Rightarrow> bool" where
  "market_inv m \<longleftrightarrow> book_inv (mk_book m) \<and> book_typed (mk_book m) \<and> ob_tick (mk_book m) = mk_tick m
     \<and> 0 < mk_last_price m \<and> 0 < mk_last_close m \<and> mk_limit_bps m \<le> 10000
     \<and> (\<forall>od\<in>book_orders (ob_state (mk_book m)). in_band m (ord_price od))"

lemma market_invD:
  assumes "market_inv m"
  shows "book_inv (mk_book m)" "book_typed (mk_book m)" "ob_tick (mk_book m) = mk_tick m"
    "0 < mk_last_price m" "0 < mk_last_close m" "mk_limit_bps m \<le> 10000"
    "\<And>od. od \<in> book_orders (ob_state (mk_book m)) \<Longrightarrow> in_band m (ord_price od)"
  using assms by (auto simp: market_inv_def)

lemma stops_cong:
  assumes "mk_last_close m' = mk_last_close m" "mk_limit_bps m' = mk_limit_bps m" "mk_tick m' = mk_tick m"
  shows "up_stop m' = up_stop m" "down_stop m' = down_stop m" "in_band m' = in_band m"
  using assms by (simp_all add: up_stop_def down_stop_def price_bound_def in_band_def fun_eq_iff)

lemma in_band_convex: "in_band m a \<Longrightarrow> in_band m b \<Longrightarrow> a \<le> p \<Longrightarrow> p \<le> b \<Longrightarrow> in_band m p"
  by (auto simp: in_band_def)

lemma in_band_pos:
  assumes "market_inv m" "in_band m p"
  shows "0 < p"
proof -
  have "0 < mk_tick m" using market_invD [OF assms(1)] by (auto simp: book_inv_def)
  moreover obtain d where "down_stop m = Inr d" "d \<le> p" using assms(2) by (auto simp: in_band_def)
  moreover then have "mk_tick m \<le> d"
    using price_bound_direction(1) by (auto simp: down_stop_def price_bound_def)
  ultimately show ?thesis by linarith
qed

text \<open>
  Every operation on the book that leaves the reference price alone keeps the invariant when the
  orders it leaves were there before or are in the band, and the last price is positive.
\<close>

lemma market_inv_book:
  assumes i: "market_inv m" and b: "book_inv b" "book_typed b" "ob_tick b = mk_tick m"
    and o: "\<forall>od\<in>book_orders (ob_state b). in_band m (ord_price od)" and p: "0 < p"
    and m': "m' = m\<lparr>mk_book := b, mk_last_price := p\<rparr>"
  shows "market_inv m'"
  using market_invD(5,6) [OF i] b o p stops_cong [of m' m] by (simp add: market_inv_def m')

lemma arrivals_band:
  assumes "arrivals od (ob_state (mk_book m)) st" "market_inv m" "in_band m (ord_price od)"
  shows "\<forall>x\<in>book_orders st. in_band m (ord_price x)"
proof
  fix x assume "x \<in> book_orders st"
  with assms(1) consider p where "p \<in> book_orders (ob_state (mk_book m))" "same_identity x p"
    | "ord_price x = ord_price od" unfolding arrivals_def by blast
  then show "in_band m (ord_price x)"
    using market_invD(7) [OF assms(2)] assms(3) by cases (auto simp: same_identity_def)
qed

lemma remains_band:
  assumes "remains (ob_state (mk_book m)) st" "market_inv m"
  shows "\<forall>x\<in>book_orders st. in_band m (ord_price x)"
  using assms(1) market_invD(7) [OF assms(2)] unfolding remains_def same_identity_def by metis

text \<open>Placing: refused outside the band without a change, or passed to the book.\<close>

lemma market_place_cases:
  assumes "market_place_inner od r m = (res, m')"
  shows "(m' = m \<and> (\<exists>e. res = Inl e) \<and> \<not> in_band m (ord_price od))
    \<or> (in_band m (ord_price od) \<and> (\<exists>br b. (if r then place_recording od (mk_book m) else place od (mk_book m)) = (br, b)
        \<and> (case br of Inl e \<Rightarrow> res = Inl (MarketBook e) \<and> m' = m\<lparr>mk_book := b, mk_last_price := mk_last_price m\<rparr>
          | Inr x \<Rightarrow> res = Inr x \<and> m' = m\<lparr>mk_book := b, mk_last_price := last_trade_price (mr_trades x) (mk_last_price m)\<rparr>)))"
proof (cases "in_band m (ord_price od)")
  case True
  then obtain u d where "up_stop m = Inr u" "down_stop m = Inr d" "d \<le> ord_price od" "ord_price od \<le> u"
    by (auto simp: in_band_def)
  with assms True show ?thesis
    by (auto simp: market_place_inner_def split: prod.splits sum.splits if_splits)
next
  case False
  with assms show ?thesis
    by (cases "up_stop m"; cases "down_stop m") (auto simp: market_place_inner_def in_band_def split: if_splits)
qed

lemma market_place_inv:
  assumes i: "market_inv m" and p: "market_place_inner od r m = (res, m')" and t: "order_typed od"
  shows "market_inv m' \<and> mk_last_close m' = mk_last_close m \<and> mk_limit_bps m' = mk_limit_bps m \<and> mk_tick m' = mk_tick m"
  using market_place_cases [OF p]
proof (elim disjE exE conjE)
  fix br b
  assume band: "in_band m (ord_price od)"
    and pl: "(if r then place_recording od (mk_book m) else place od (mk_book m)) = (br, b)"
    and c: "case br of Inl e \<Rightarrow> res = Inl (MarketBook e) \<and> m' = m\<lparr>mk_book := b, mk_last_price := mk_last_price m\<rparr>
          | Inr x \<Rightarrow> res = Inr x \<and> m' = m\<lparr>mk_book := b, mk_last_price := last_trade_price (mr_trades x) (mk_last_price m)\<rparr>"
  note fr = place_frame [OF market_invD(1) [OF i] pl]
  have bt: "book_typed b" by (rule arrivals_typed [OF fr(2) market_invD(2) [OF i] t])
  obtain q where m': "m' = m\<lparr>mk_book := b, mk_last_price := q\<rparr>" and q: "0 < q"
  proof (cases br)
    case (Inl e)
    show thesis by (rule that [of "mk_last_price m"]) (use c Inl market_invD(4) [OF i] in simp_all)
  next
    case (Inr x)
    have "0 < last_trade_price (mr_trades x) (mk_last_price m)"
    proof (cases "mr_trades x = []")
      case False
      then have "last (mr_trades x) \<in> set (mr_trades x)" by simp
      from place_trades_resting [OF market_invD(1) [OF i] pl [unfolded Inr] this]
      obtain y where "y \<in> book_orders (ob_state (mk_book m))" "tr_price (last (mr_trades x)) = ord_price y" by blast
      with market_invD(7) [OF i] in_band_pos [OF i] False show ?thesis by (simp add: last_trade_price_def)
    qed (use market_invD(4) [OF i] in \<open>simp add: last_trade_price_def\<close>)
    then show thesis by (rule that [rotated]) (use c Inr in simp)
  qed
  show ?thesis
    using market_inv_book [OF i fr(1) bt _ arrivals_band [OF fr(2) i band] q m'] fr(4) market_invD(3) [OF i]
    by (simp add: m')
qed (use i in simp)

lemma market_auction_inv:
  assumes i: "market_inv m" and x: "market_execute_auction ex m = (res, m')"
  shows "market_inv m' \<and> (\<forall>r p. res = Inr r \<and> cr_price r = Some p \<longrightarrow> in_band m p \<and> mk_last_price m' = p)"
proof -
  note iD = market_invD [OF i]
  obtain br b where e: "execute_auction_clearing (mk_last_close m) ex (mk_book m) = (br, b)"
    by (cases "execute_auction_clearing (mk_last_close m) ex (mk_book m)")
  note out = execute_outcome [OF iD(1) typed_i64 [OF iD(2)] e]
  then have rm: "remains (ob_state (mk_book m)) (ob_state b)" and bi: "book_inv b" "ob_tick b = mk_tick m"
    using iD(3) by auto
  have bt: "book_typed b" by (rule remains_typed [OF rm iD(2)])
  note inv = market_inv_book [OF i bi(1) bt bi(2) remains_band [OF rm i]]
  show ?thesis
  proof (cases br)
    case (Inl er)
    then have "res = Inl (MarketBook er)" "m' = m\<lparr>mk_book := b, mk_last_price := mk_last_price m\<rparr>"
      using e x by (auto simp: market_execute_auction_def)
    with inv [OF iD(4)] show ?thesis by simp
  next
    case (Inr r)
    then have r: "res = Inr r" "m' = m\<lparr>mk_book := b, mk_last_price := (case cr_price r of Some p \<Rightarrow> p | None \<Rightarrow> mk_last_price m)\<rparr>"
      using e x by (auto simp: market_execute_auction_def)
    show ?thesis
    proof (cases "cr_price r")
      case None
      with r inv [OF iD(4)] show ?thesis by simp
    next
      case (Some p)
      from out Inr obtain sel where sel: "clearing_selection_of (mk_last_close m) ex (mk_book m) = Inr sel"
        "cr_price r = map_option cs_price sel" by auto
      with Some obtain s where s: "clearing_selection_of (mk_last_close m) ex (mk_book m) = Inr (Some s)"
        "p = cs_price s" by (cases sel) auto
      from selected_price_between [OF iD(1) typed_i64 [OF iD(2)] s(1)] iD(7) in_band_convex s(2)
      have band: "in_band m p" by blast
      from r inv [OF in_band_pos [OF i band]] band Some show ?thesis by simp
    qed
  qed
qed

lemma market_cleared_inv:
  assumes i: "market_inv m" and p: "0 < c"
    and m': "m' = m\<lparr>mk_last_close := c, mk_book := clear_book (mk_book m)\<rparr>"
  shows "market_inv m'"
proof -
  note iD = market_invD [OF i]
  have "book_orders (ob_state (clear_book (mk_book m))) = {}" "book_typed (clear_book (mk_book m))"
    using clear_ok [of "ob_state (mk_book m)"] iD(1,2)
    by (auto simp: clear_book_def book_inv_def state_inv_def book_typed_def clear_resting_def book_orders_def)
  then show ?thesis
    using iD p clear_inv [OF iD(1)] by (simp add: market_inv_def m' clear_book_def)
qed

lemma no_resting_orders: "resting_order_count b = 0 \<Longrightarrow> book_orders (ob_state b) = {}"
  by (simp add: resting_order_count_def book_orders_def)

lemma ex_reference_checked:
  "validate_ex_reference_cents r t k = Inr () \<Longrightarrow> 0 < r"
  by (auto simp: validate_ex_reference_cents_def bind_result_Inr_iff price_bound_cents_def split: if_splits)

lemma rounded_limit_le:
  assumes "f64_lt (Finite 0) l" "f64_lt l (Finite 1)"
  shows "nat (f64_to_int 0 (int u32_max) (f64_round (f64_mul l (Finite 10000)))) \<le> 10000"
proof -
  from assms obtain x where x: "l = Finite x" "0 < x" "x < 1" by (cases l) auto
  have big: "(10000::rat) \<le> 2 ^ 1000"
  proof (rule order_trans)
    show "(10000::rat) \<le> 2 ^ 14" by simp
    show "(2::rat) ^ 14 \<le> 2 ^ 1000" by (rule power_increasing) simp_all
  qed
  have "\<bar>x * 10000\<bar> \<le> 10000" using x by simp
  then have "\<bar>x * 10000\<bar> \<le> 2 ^ 1000" using big by (rule order_trans)
  from f64_of_rat_small [OF this] have m: "f64_mul l (Finite 10000) = Finite (rnd (x * 10000))"
    by (simp only: x(1) f64_mul.simps)
  have "rnd (x * 10000) \<le> rnd (of_int 10000)" using x by (intro rnd_mono) simp
  then have r: "0 \<le> rnd (x * 10000)" "rnd (x * 10000) \<le> 10000"
    using rnd_nonneg [of "x * 10000"] rnd_of_int [of 10000] x by simp_all
  have "\<lfloor>rnd (x * 10000) + 1 / 2\<rfloor> \<le> 10000" unfolding floor_le_iff using r(2) by simp
  then have "nat \<lfloor>rnd (x * 10000) + 1 / 2\<rfloor> \<le> 10000" by (simp only: nat_le_iff of_nat_numeral)
  with r show ?thesis by (simp add: m)
qed

lemma new_market_inv:
  assumes "new_market code p l tick = Inr m"
  shows "market_inv m"
proof -
  from assms obtain b where b: "new_book tick = Inr b"
    and l: "f64_lt (Finite 0) l" "f64_lt l (Finite 1)" and p: "0 < p"
    and m: "mk_book m = b" "mk_last_price m = p" "mk_last_close m = p" "mk_tick m = tick"
      "mk_limit_bps m = nat (f64_to_int 0 (int u32_max) (f64_round (f64_mul l (Finite 10000))))"
    by (auto simp: new_market_def Let_def bind_result_Inr_iff split: if_splits)
  have e: "book_orders (ob_state b) = {}" "ob_tick b = tick" "bs_filled (ob_state b) = IEmpty"
    using b by (auto simp: new_book_def empty_book_state_def book_orders_def split: if_splits)
  then have "book_typed b" by (simp add: book_typed_def wrapper_eqs)
  with e rounded_limit_le [OF l] p new_book_inv [OF b] show ?thesis by (simp add: market_inv_def m)
qed

lemma market_reachable_inv: "market_reachable m \<Longrightarrow> market_inv m"
proof (induction rule: market_reachable.induct)
  case (fresh code p l tick m)
  then show ?case by (rule new_market_inv)
next
  case (step m c)
  note i = step.IH and iD = market_invD [OF step.IH]
  show ?case
  proof (cases c)
    case (MPlace od r)
    with step.hyps(2) market_place_inv [OF i, of od r] show ?thesis
      by (cases "market_place_inner od r m") simp
  next
    case (MCancel x)
    let ?b = "snd (cancel x (mk_book m))"
    note ci = cancel_inv [OF iD(1), of x]
    have eq: "run_market c m = m\<lparr>mk_book := ?b, mk_last_price := mk_last_price m\<rparr>"
      by (simp add: MCancel market_cancel_def split: prod.split)
    show ?thesis
    proof (rule market_inv_book [OF i _ _ _ _ iD(4) eq])
      show "book_inv ?b" using ci by blast
      show "book_typed ?b" using ci iD(2) by (auto simp: book_typed_def)
      show "ob_tick ?b = mk_tick m" using iD(3) by (simp add: cancel_def split: prod.split)
      show "\<forall>od\<in>book_orders (ob_state ?b). in_band m (ord_price od)" using ci iD(7) by blast
    qed
  next
    case (MMode mode)
    obtain q b where s: "set_mode mode (mk_book m) = (q, b)" by (cases "set_mode mode (mk_book m)")
    have b: "book_inv b" "ob_state b = ob_state (mk_book m)" "ob_tick b = mk_tick m"
      using set_mode_outcome [OF iD(1), of mode] iD(3) s by (auto split: if_splits)
    have "market_inv (m\<lparr>mk_book := b\<rparr>)"
      using i b stops_cong [of "m\<lparr>mk_book := b\<rparr>" m] by (simp add: market_inv_def book_typed_def)
    then have "market_inv (m\<lparr>mk_book := b, mk_cutoff := k\<rparr>)" for k
      using stops_cong [of "m\<lparr>mk_book := b, mk_cutoff := k\<rparr>" m] stops_cong [of "m\<lparr>mk_book := b\<rparr>" m]
      by (simp add: market_inv_def)
    with \<open>market_inv (m\<lparr>mk_book := b\<rparr>)\<close> s show ?thesis
      by (auto simp: MMode set_matching_mode_def Let_def split: sum.split)
  next
    case (MAuction ex)
    with market_auction_inv [OF i, of ex] show ?thesis by (cases "market_execute_auction ex m") simp
  next
    case MEndOfDay
    then show ?thesis using market_cleared_inv [OF i iD(4)] by (simp add: end_of_day_def)
  next
    case (MEndOfDayTrades traded)
    then show ?thesis
      using market_cleared_inv [OF i iD(4)] market_cleared_inv [OF i iD(5)]
      by (simp add: end_of_day_with_trades_def)
  next
    case (MExReference e r)
    show ?thesis
    proof (cases "run_market c m = m")
      case False
      then have "resting_order_count (mk_book m) = 0" "0 < r" "run_market c m = m\<lparr>mk_last_close := r\<rparr>"
        using ex_reference_checked [of r "mk_tick m" "mk_limit_bps m"]
        by (auto simp: MExReference install_ex_reference_def try_in_def split: sum.splits if_splits)
      then show ?thesis using iD no_resting_orders by (simp add: market_inv_def)
    qed (use i in simp)
  qed
qed

subsection \<open>A sample market\<close>

text \<open>A limit of one eighth is exact in binary: 1250 basis points.\<close>

definition sample_market :: market where
  "sample_market = \<lparr>mk_code = 7, mk_book = sample_empty, mk_last_price = 1000, mk_last_close = 1000,
     mk_limit_bps = 1250, mk_tick = 1, mk_cutoff = 0\<rparr>"

lemma sample_market_reachable: "market_reachable sample_market"
proof (rule market_reachable.fresh)
  have "f64_value (1250::rat)" using f64_value_int [of 1250] by simp
  then have m: "f64_mul (Finite (1 / 8)) (Finite 10000) = Finite 1250" by simp
  have "\<lfloor>1250 + 1 / 2 :: rat\<rfloor> = 1250" by (simp add: floor_eq_iff)
  then have r: "f64_round (Finite 1250) = Finite 1250" by simp
  have z: "f64_value (0::rat)" using f64_value_int [of 0] by simp
  have d: "f64_abs (f64_sub (Finite 1250) (Finite 1250)) = Finite 0" using z by (simp add: f64_sub_def)
  have "f64_of_rat (1 / 10 ^ 9) = Finite (rnd (1 / 10 ^ 9))" by (rule f64_of_rat_unit) simp
  then have n: "\<not> f64_lt (f64_of_rat (1 / 10 ^ 9)) (Finite 0)"
    using rnd_nonneg [of "1 / 10 ^ 9"] by (simp del: power_numeral)
  show "new_market 7 1000 (Finite (1 / 8)) 1 = Inr sample_market"
    unfolding new_market_def Let_def m r d
    using n by (simp add: sample_market_def sample_empty_def new_book_def)
qed

lemmas market_eval = up_stop_def down_stop_def price_bound_def price_bound_cents_def Let_def
  checked_i128_def checked_i64_def in_i64_def in_i128_def u32_sub_def

lemma sample_market_stops: "up_stop sample_market = Inr 1125" "down_stop sample_market = Inr 875"
  by (simp_all add: sample_market_def market_eval)

lemma sample_market_order_in_band: "in_band sample_market 1000"
  by (simp add: in_band_def sample_market_stops)

subsection \<open>Properties\<close>

text \<open>
  C7 (No trade outside the daily limits). On a reachable market every resting order is priced
  within the daily limits, an order is accepted only within them, every trade of a placement and
  the price of a call auction lie within them, and the last price becomes the price of the last
  trade or of the auction.
\<close>

theorem no_trade_outside_limits:
  assumes "market_reachable m" "order_typed od"
  shows "(\<forall>x\<in>book_orders (ob_state (mk_book m)). in_band m (ord_price x))
    \<and> (\<forall>res m'. market_place_inner od r m = (Inr res, m') \<longrightarrow> in_band m (ord_price od)
         \<and> (\<forall>t\<in>set (mr_trades res). in_band m (tr_price t))
         \<and> mk_last_price m' = last_trade_price (mr_trades res) (mk_last_price m))
    \<and> (\<forall>res m' p. market_execute_auction ex m = (Inr res, m') \<and> cr_price res = Some p \<longrightarrow>
         in_band m p \<and> mk_last_price m' = p)"
proof -
  note i = market_reachable_inv [OF assms(1)]
  note iD = market_invD [OF i]
  have place: "in_band m (ord_price od) \<and> (\<forall>t\<in>set (mr_trades res). in_band m (tr_price t))
      \<and> mk_last_price m' = last_trade_price (mr_trades res) (mk_last_price m)"
    if p: "market_place_inner od r m = (Inr res, m')" for res m'
    using market_place_cases [OF p]
  proof (elim disjE exE conjE)
    fix br b assume band: "in_band m (ord_price od)"
      and pl: "(if r then place_recording od (mk_book m) else place od (mk_book m)) = (br, b)"
      and c: "case br of Inl e \<Rightarrow> Inr res = Inl (MarketBook e) \<and> m' = m\<lparr>mk_book := b, mk_last_price := mk_last_price m\<rparr>
          | Inr x \<Rightarrow> Inr res = Inr x \<and> m' = m\<lparr>mk_book := b, mk_last_price := last_trade_price (mr_trades x) (mk_last_price m)\<rparr>"
    then have "br = Inr res" by (cases br) auto
    moreover have "\<forall>t\<in>set (mr_trades res). in_band m (tr_price t)"
      using place_trades_resting [OF iD(1) pl [unfolded \<open>br = Inr res\<close>]] iD(7) by metis
    ultimately show ?thesis using band c by auto
  qed simp
  have auction: "in_band m p \<and> mk_last_price m' = p"
    if "market_execute_auction ex m = (Inr res, m')" "cr_price res = Some p" for res m' p
    using market_auction_inv [OF i that(1)] that(2) by blast
  show ?thesis using iD(7) place auction by blast
qed

lemma no_trade_outside_limits_witness:
  "\<exists>res m'. market_place_inner (sample_order 1 Sell 1000 200) False sample_market = (Inr res, m')
    \<and> mk_last_price m' = 1000"
proof -
  have p: "place (sample_order 1 Sell 1000 200) sample_empty = (Inr \<lparr>mr_trades = [],
      mr_resting = Some (sample_order 1 Sell 1000 200), mr_maker_before = []\<rparr>, sample_asks)"
    by (simp add: sample_asks_eq sample_empty_def match_loop.simps book_eval del: validate_progress_iff)
  have "\<exists>res m'. market_place_inner (sample_order 1 Sell 1000 200) False sample_market = (Inr res, m')
      \<and> mr_trades res = []"
    using p by (simp add: market_place_inner_def sample_market_stops) (simp add: sample_market_def sample_order_def)
  moreover have "order_typed (sample_order 1 Sell 1000 200)"
    by (simp add: order_typed_def sample_order_def in_i64_def)
  moreover have "mk_last_price sample_market = 1000" by (simp add: sample_market_def)
  ultimately show ?thesis
    using no_trade_outside_limits [OF sample_market_reachable, of "sample_order 1 Sell 1000 200" False]
    by (auto simp: last_trade_price_def)
qed

text \<open>
  Whenever the limits of a reachable market can be
  computed, an order priced outside them is refused with the limits in the error, and neither the
  book nor the last price changes.
\<close>

theorem outside_limits_refused:
  assumes "market_reachable m" "up_stop m = Inr u" "down_stop m = Inr d" "ord_price od < d \<or> u < ord_price od"
  shows "market_place od m = (Inl (LimitExceeded (mk_code m) (ord_price od) d u), m)
    \<and> market_place_recording od m = (Inl (LimitExceeded (mk_code m) (ord_price od) d u), m)"
  using assms(2-) by (auto simp: market_place_def market_place_recording_def market_place_inner_def)

lemma outside_limits_refused_witness:
  "market_place (sample_order 1 Sell 1200 200) sample_market
    = (Inl (LimitExceeded 7 1200 875 1125), sample_market)"
  using outside_limits_refused [OF sample_market_reachable sample_market_stops, of "sample_order 1 Sell 1200 200"]
  by (simp add: sample_order_def) (simp add: sample_market_def)

text \<open>
  On a reachable market with a limit of at least one basis
  point the limit up lies strictly above the previous close and the limit down strictly below it
  or on the smallest price; both are at least one tick, on the tick grid when the close is, and
  within one tick of the exact percentage. They can be computed whenever twice the close and two
  ticks fit the money range.
\<close>

theorem daily_limits_bracket_close:
  assumes "market_reachable m"
  shows "(\<forall>u. up_stop m = Inr u \<longrightarrow> mk_last_close m < u \<and> mk_tick m \<le> u
        \<and> (mk_tick m dvd mk_last_close m \<longrightarrow> mk_tick m dvd u)
        \<and> (0 < mk_limit_bps m \<longrightarrow>
            \<bar>10000 * u - mk_last_close m * (10000 + int (mk_limit_bps m))\<bar> \<le> 10000 * mk_tick m))
    \<and> (\<forall>d. down_stop m = Inr d \<longrightarrow> (d < mk_last_close m \<or> d = mk_tick m) \<and> mk_tick m \<le> d
        \<and> (mk_tick m dvd mk_last_close m \<longrightarrow> mk_tick m dvd d)
        \<and> (0 < mk_limit_bps m \<longrightarrow>
            \<bar>10000 * d - mk_last_close m * (10000 - int (mk_limit_bps m))\<bar> \<le> 10000 * mk_tick m))
    \<and> (2 * mk_last_close m + 2 * mk_tick m \<le> i64_max \<longrightarrow>
        (\<exists>u d. up_stop m = Inr u \<and> down_stop m = Inr d))"
proof -
  note iD = market_invD [OF market_reachable_inv [OF assms]]
  let ?k = "mk_limit_bps m" and ?c = "mk_last_close m" and ?t = "mk_tick m"
  have t: "0 < ?t" using iD(1,3) by (simp add: book_inv_def)
  have sub: "u32_sub 10000 ?k = 10000 - ?k" using iD(6) by simp
  have up: "?c < u \<and> ?t \<le> u \<and> (?t dvd ?c \<longrightarrow> ?t dvd u)
      \<and> (0 < ?k \<longrightarrow> \<bar>10000 * u - ?c * (10000 + int ?k)\<bar> \<le> 10000 * ?t)" if "up_stop m = Inr u" for u
  proof -
    from that have b: "price_bound_cents ?c (10000 + ?k) ?t True = Some u" by (simp add: up_stop_def price_bound_def)
    from price_bound_direction [OF b] price_bound_accuracy [OF b] show ?thesis by simp
  qed
  have down: "(d < ?c \<or> d = ?t) \<and> ?t \<le> d \<and> (?t dvd ?c \<longrightarrow> ?t dvd d)
      \<and> (0 < ?k \<longrightarrow> \<bar>10000 * d - ?c * (10000 - int ?k)\<bar> \<le> 10000 * ?t)" if "down_stop m = Inr d" for d
  proof -
    from that have b: "price_bound_cents ?c (10000 - ?k) ?t False = Some d"
      by (simp add: down_stop_def price_bound_def sub)
    from price_bound_direction [OF b] price_bound_accuracy [OF b] iD(6) show ?thesis by (simp add: of_nat_diff)
  qed
  have fits: "\<exists>u d. up_stop m = Inr u \<and> down_stop m = Inr d" if f: "2 * ?c + 2 * ?t \<le> i64_max"
  proof -
    have mul: "?c * int k + 5000 * ?t \<le> 10000 * i64_max" if "k \<le> 20000" for k
    proof -
      have "?c * int k \<le> ?c * 20000" using iD(5) that by (intro mult_left_mono) simp_all
      with f t show ?thesis by simp
    qed
    have step: "?c + ?t \<le> i64_max" using f t iD(5) by linarith
    have k: "10000 + ?k \<le> 20000" "10000 - ?k \<le> 20000" using iD(6) by simp_all
    from price_bound_exists [OF iD(5) t mul [OF k(1)] step, of True]
      price_bound_exists [OF iD(5) t mul [OF k(2)] step, of False]
    obtain u d where "price_bound_cents ?c (10000 + ?k) ?t True = Some u"
      "price_bound_cents ?c (10000 - ?k) ?t False = Some d" by blast
    then show ?thesis by (simp add: up_stop_def down_stop_def price_bound_def sub)
  qed
  show ?thesis using up down fits by blast
qed

lemma daily_limits_bracket_close_witness:
  "mk_last_close sample_market < 1125 \<and> mk_tick sample_market \<le> 875"
  using daily_limits_bracket_close [OF sample_market_reachable] sample_market_stops by blast

text \<open>
  When the reference of continuous trading lies within the
  daily limits, the price that a highest or lowest order resolves to, with or without the price
  cage, lies within them too, so that the order is not refused for its price; a highest buy
  reaches at least ten ticks above the reference or the limit up, a lowest sell at least ten
  ticks below it, or the limit down, or the smallest price.
\<close>

theorem symbolic_prices_acceptable:
  assumes "market_reachable m" "in_band m (continuous_limit_reference sd m)"
    "resolve_limit_price sd price cage m = Inr p" "price \<noteq> Fixed p"
  shows "in_band m p
    \<and> (cage \<and> sd = Buy \<and> price = Highest \<longrightarrow>
        up_stop m = Inr p \<or> continuous_limit_reference Buy m + 10 * mk_tick m \<le> p)
    \<and> (cage \<and> sd = Sell \<and> price = Lowest \<longrightarrow>
        down_stop m = Inr p \<or> p \<le> continuous_limit_reference Sell m - 10 * mk_tick m \<or> p = mk_tick m)"
proof -
  note iD = market_invD [OF market_reachable_inv [OF assms(1)]]
  have t: "0 < mk_tick m" using iD(1,3) by (simp add: book_inv_def)
  from assms(2) obtain u d where s: "up_stop m = Inr u" "down_stop m = Inr d"
    "d \<le> continuous_limit_reference sd m" "continuous_limit_reference sd m \<le> u" by (auto simp: in_band_def)
  have du: "d \<le> u" using s by simp
  have dt: "mk_tick m \<le> d"
    using s(2) price_bound_direction(1) by (auto simp: down_stop_def price_bound_def)
  have buy: "in_band m q \<and> (cage \<longrightarrow> q = u \<or> continuous_limit_reference Buy m + 10 * mk_tick m \<le> q)"
    if "sd = Buy" "limit_order_price_bound Buy cage m = Inr q" for q
    using that s t du
    by (auto simp: limit_order_price_bound_def continuous_limit_bound_def in_band_def bind_result_Inr_iff Let_def
        min_def max_def split: if_splits)
  have sell: "in_band m q \<and> (cage \<longrightarrow> q = d \<or> q \<le> continuous_limit_reference Sell m - 10 * mk_tick m \<or> q = mk_tick m)"
    if "sd = Sell" "limit_order_price_bound Sell cage m = Inr q" for q
    using that s t du dt
    by (auto simp: limit_order_price_bound_def continuous_limit_bound_def in_band_def bind_result_Inr_iff Let_def
        min_def max_def split: if_splits)
  show ?thesis
    using assms(3,4) buy sell s du
    by (cases sd; cases price) (auto simp: resolve_limit_price_def in_band_def)
qed

lemma symbolic_prices_acceptable_witness:
  "in_band sample_market 1020"
proof -
  have r: "continuous_limit_reference Buy sample_market = 1000"
    by (simp add: continuous_limit_reference_def sample_market_def sample_empty_def empty_book_state_def
        best_ask_def best_bid_def or_else_def)
  have "limit_order_price_bound Buy True sample_market = Inr 1020"
    unfolding limit_order_price_bound_def continuous_limit_bound_def r
    by (simp add: sample_market_stops, simp add: sample_market_def market_eval mul_shares_def money_add_def)
  then have "resolve_limit_price Buy Highest True sample_market = Inr 1020"
    by (simp add: resolve_limit_price_def)
  from symbolic_prices_acceptable [OF sample_market_reachable _ this] r sample_market_order_in_band
  show ?thesis by simp
qed

text \<open>
  It is accepted only on an empty book whose close is the
  expected one; then both daily limits of the new close can be computed. The last price is not
  touched: until the next trade, the price cage refers to the price before the adjustment and not
  to the new reference.
\<close>

theorem ex_reference_installed:
  assumes "market_reachable m" "install_ex_reference expected reference m = (Inr (), m')"
  shows "mk_last_close m = expected \<and> mk_last_close m' = reference
    \<and> (\<exists>u d. up_stop m' = Inr u \<and> down_stop m' = Inr d)
    \<and> continuous_limit_reference sd m' = mk_last_price m"
proof -
  note iD = market_invD [OF market_reachable_inv [OF assms(1)]]
  from assms(2) have c: "mk_last_close m = expected" "resting_order_count (mk_book m) = 0"
    "validate_ex_reference_cents reference (mk_tick m) (mk_limit_bps m) = Inr ()"
    and m': "m' = m\<lparr>mk_last_close := reference\<rparr>"
    by (auto simp: install_ex_reference_def try_in_def split: if_splits sum.splits)
  have "\<exists>u d. up_stop m' = Inr u \<and> down_stop m' = Inr d"
    using c(3) iD(6) by (auto simp: m' validate_ex_reference_cents_def bind_result_Inr_iff up_stop_def
        down_stop_def price_bound_def)
  moreover have "best_bid (mk_book m) = None" "best_ask (mk_book m) = None"
    using c(2) by (simp_all add: resting_order_count_def best_bid_def best_ask_def)
  ultimately show ?thesis using c(1) by (cases sd) (simp_all add: m' continuous_limit_reference_def or_else_def)
qed

lemma ex_reference_installed_witness:
  "\<exists>m'. install_ex_reference 1000 800 sample_market = (Inr (), m') \<and> mk_last_close m' = 800
    \<and> continuous_limit_reference Buy m' = 1000"
proof -
  have "\<exists>m'. install_ex_reference 1000 800 sample_market = (Inr (), m')"
    by (simp add: install_ex_reference_def sample_market_def sample_empty_def empty_book_state_def
        resting_order_count_def validate_ex_reference_cents_def checked_u32_def market_eval)
  then obtain m' where i: "install_ex_reference 1000 800 sample_market = (Inr (), m')" ..
  from ex_reference_installed [OF sample_market_reachable i, of Buy] i show ?thesis
    by (auto simp: sample_market_def)
qed

end
