(* ===== verification/Account.thy ===== *)
theory Account
  imports Game_Config Order_Types Ordered_Map
begin

section \<open>Accounts (account.rs)\<close>

text \<open>
  Cash, positions with their T+1 locks, and the settlement of trades. A settlement either checks
  everything first and then writes cash and position together, or returns an error; the model
  returns the account with the result, so that this can be stated. The \<open>expect\<close> calls of the source
  are the error \<open>AccountPanic\<close>. The strategy an account carries is opaque to it (type variable
  \<open>'s\<close>), and its validation for a shadow copy is an argument. Sharing through \<open>Arc\<close> is not visible
  in a functional record.
\<close>

datatype account_kind = Retail | Inst | Hot | Player | IssuerRepurchase

datatype account_panic = LockedExceedsQty | NetInvestedOverflow | PositionMissing | QtyUnderflow

datatype account_error =
    InsufficientCash money money
  | InsufficientCashForFees money money
  | InsufficientShares nat nat nat
  | InvalidTrade money nat
  | AccountMoney money_error
  | AccountConfig config_error
  | AccountPanic account_panic

record position =
  ps_qty :: nat
  ps_t1_locked :: nat
  ps_invested :: int
  ps_recovered :: int

record settlement_totals =
  sl_gross :: money
  sl_commission :: money
  sl_stamp_tax :: money
  sl_transfer_fee :: money
  sl_qty :: nat

record 's account =
  ac_id :: account_id
  ac_kind :: account_kind
  ac_cash :: money
  ac_positions :: "(nat, position) bt"
  ac_strategy :: "'s option"

subsection \<open>Positions\<close>

definition from_restored_parts :: "nat \<Rightarrow> nat \<Rightarrow> int \<Rightarrow> int \<Rightarrow> position" where
  "from_restored_parts qty locked invested recovered =
     \<lparr>ps_qty = qty, ps_t1_locked = locked, ps_invested = invested, ps_recovered = recovered\<rparr>"

definition sellable :: "position \<Rightarrow> account_error + nat" where
  "sellable p = (if ps_t1_locked p \<le> ps_qty p then Inr (ps_qty p - ps_t1_locked p)
     else Inl (AccountPanic LockedExceedsQty))"

text \<open>\<open>div_euclid\<close> and \<open>rem_euclid\<close> by a positive divisor are HOL's \<open>div\<close> and \<open>mod\<close>.\<close>

definition round_half_to_even_i64 :: "int \<Rightarrow> nat \<Rightarrow> int" where
  "round_half_to_even_i64 n d =
    (let d' = int d; quotient = n div d'; remainder = n mod d' in
     if 2 * remainder < d' then quotient
     else if d' < 2 * remainder then quotient + 1
     else if even quotient then quotient else quotient + 1)"

definition position_cost_price :: "position \<Rightarrow> account_error + money option" where
  "position_cost_price p =
    (if ps_qty p = 0 then Inr None
     else bind_result (ok_or (AccountPanic NetInvestedOverflow) (checked_i64 (ps_invested p - ps_recovered p)))
       (\<lambda>n. Inr (Some (round_half_to_even_i64 n (ps_qty p)))))"

subsection \<open>Construction, restoring, unlocking\<close>

definition new_account :: "account_id \<Rightarrow> account_kind \<Rightarrow> money \<Rightarrow> 's account" where
  "new_account aid kind cash =
     \<lparr>ac_id = aid, ac_kind = kind, ac_cash = cash, ac_positions = [], ac_strategy = None\<rparr>"

definition restore_balances :: "money \<Rightarrow> (nat, position) bt \<Rightarrow> 's account \<Rightarrow> 's account" where
  "restore_balances cash ps a = a\<lparr>ac_cash := cash, ac_positions := ps\<rparr>"

definition restore_strategy :: "'s option \<Rightarrow> 's account \<Rightarrow> 's account" where
  "restore_strategy s a = a\<lparr>ac_strategy := s\<rparr>"

definition clone_for_shadow :: "('s \<Rightarrow> 'e + unit) \<Rightarrow> 's account \<Rightarrow> 'e + 's account" where
  "clone_for_shadow validate_for_shadow a =
    (case ac_strategy a of
      None \<Rightarrow> Inr a
    | Some s \<Rightarrow> bind_result (validate_for_shadow s) (\<lambda>_. Inr a))"

definition unlock_position :: "position \<Rightarrow> position" where
  "unlock_position p = p\<lparr>ps_t1_locked := 0\<rparr>"

definition unlock_t1_positions :: "'s account \<Rightarrow> 's account" where
  "unlock_t1_positions a =
    (if \<not> list_ex (\<lambda>p. 0 < ps_t1_locked p) (bt_values (ac_positions a)) then a
     else a\<lparr>ac_positions := map (\<lambda>(c, p). (c, unlock_position p)) (ac_positions a)\<rparr>)"

definition unlock_t1_for_stocks :: "nat set \<Rightarrow> 's account \<Rightarrow> 's account" where
  "unlock_t1_for_stocks stocks a =
    (if \<not> list_ex (\<lambda>(c, p). c \<in> stocks \<and> 0 < ps_t1_locked p) (ac_positions a) then a
     else a\<lparr>ac_positions := map (\<lambda>(c, p). (c, if c \<in> stocks then unlock_position p else p)) (ac_positions a)\<rparr>)"

definition sellable_qty :: "nat \<Rightarrow> 's account \<Rightarrow> account_error + nat" where
  "sellable_qty code a = (case map_of (ac_positions a) code of None \<Rightarrow> Inr 0 | Some p \<Rightarrow> sellable p)"

definition cost_price :: "nat \<Rightarrow> 's account \<Rightarrow> account_error + money option" where
  "cost_price code a = (case map_of (ac_positions a) code of None \<Rightarrow> Inr None | Some p \<Rightarrow> position_cost_price p)"

definition grant_position :: "nat \<Rightarrow> nat \<Rightarrow> money \<Rightarrow> 's account \<Rightarrow> (account_error + unit) \<times> 's account" where
  "grant_position code qty cost a =
    try_in (map_error AccountMoney (mul_shares cost qty)) a (\<lambda>invested.
      (Inr (), a\<lparr>ac_positions := bt_insert code
        \<lparr>ps_qty = qty, ps_t1_locked = 0, ps_invested = invested, ps_recovered = 0\<rparr> (ac_positions a)\<rparr>))"

subsection \<open>Buying\<close>

definition apply_buy_settlement ::
    "nat \<Rightarrow> settlement_totals \<Rightarrow> bool \<Rightarrow> 's account \<Rightarrow> (account_error + unit) \<times> 's account" where
  "apply_buy_settlement code s t1_enabled a =
    try_in (map_error AccountMoney (bind_result (money_add (sl_gross s) (sl_commission s))
        (\<lambda>t. money_add t (sl_transfer_fee s)))) a (\<lambda>total.
    if ac_cash a < total then (Inl (InsufficientCash total (ac_cash a)), a)
    else
    try_in (map_error AccountMoney (money_sub (ac_cash a) total)) a (\<lambda>new_cash.
    let current = map_of (ac_positions a) code;
        current_qty = (case current of None \<Rightarrow> 0 | Some p \<Rightarrow> ps_qty p);
        current_locked = (case current of None \<Rightarrow> 0 | Some p \<Rightarrow> ps_t1_locked p);
        current_invested = (case current of None \<Rightarrow> 0 | Some p \<Rightarrow> ps_invested p);
        current_recovered = (case current of None \<Rightarrow> 0 | Some p \<Rightarrow> ps_recovered p) in
    try_in (ok_or (AccountMoney (MoneyOverflow PositionQtyAdd (int current_qty)))
        (checked_u32 (current_qty + sl_qty s))) a (\<lambda>new_qty.
    try_in (if t1_enabled then ok_or (AccountMoney (MoneyOverflow T1LockedAdd (int current_locked)))
        (checked_u32 (current_locked + sl_qty s)) else Inr current_locked) a (\<lambda>new_locked.
    try_in (ok_or (AccountMoney (MoneyOverflow InvestedCentsAdd current_invested))
        (checked_i64 (current_invested + sl_gross s))) a (\<lambda>new_invested.
      (Inr (), a\<lparr>ac_cash := new_cash, ac_positions := bt_insert code
        \<lparr>ps_qty = new_qty, ps_t1_locked = new_locked, ps_invested = new_invested,
          ps_recovered = current_recovered\<rparr> (ac_positions a)\<rparr>))))))"

definition apply_buy_total ::
    "game_config \<Rightarrow> nat \<Rightarrow> money \<Rightarrow> nat \<Rightarrow> bool \<Rightarrow> 's account \<Rightarrow> (account_error + unit) \<times> 's account" where
  "apply_buy_total config code cost qty t1_enabled a =
    try_in (map_error AccountMoney (commission config cost)) a (\<lambda>comm.
    try_in (map_error AccountMoney (transfer_fee config cost)) a (\<lambda>transfer.
      apply_buy_settlement code \<lparr>sl_gross = cost, sl_commission = comm, sl_stamp_tax = 0,
        sl_transfer_fee = transfer, sl_qty = qty\<rparr> t1_enabled a))"

definition apply_buy ::
    "game_config \<Rightarrow> nat \<Rightarrow> money \<Rightarrow> nat \<Rightarrow> bool \<Rightarrow> 's account \<Rightarrow> (account_error + unit) \<times> 's account" where
  "apply_buy config code price qty t1_enabled a =
    try_in (map_error AccountConfig (validate config)) a (\<lambda>_.
    if qty = 0 \<or> price \<le> 0 then (Inl (InvalidTrade price qty), a)
    else try_in (map_error AccountMoney (mul_shares price qty)) a (\<lambda>cost.
      apply_buy_total config code cost qty t1_enabled a))"

subsection \<open>Selling\<close>

text \<open>The final writes of a sale: a position that is sold out is deleted.\<close>

definition write_sold :: "nat \<Rightarrow> position \<Rightarrow> nat \<Rightarrow> int \<Rightarrow> money \<Rightarrow> 's account \<Rightarrow> 's account" where
  "write_sold code p new_qty new_recovered new_cash a =
    a\<lparr>ac_cash := new_cash, ac_positions :=
      (if new_qty = 0 then bt_remove code (ac_positions a)
       else bt_update code (p\<lparr>ps_qty := new_qty, ps_recovered := new_recovered\<rparr>) (ac_positions a))\<rparr>"

definition apply_sell_settlement ::
    "nat \<Rightarrow> settlement_totals \<Rightarrow> 's account \<Rightarrow> (account_error + unit) \<times> 's account" where
  "apply_sell_settlement code s a =
    try_in (sellable_qty code a) a (\<lambda>available.
    if available < sl_qty s then (Inl (InsufficientShares code (sl_qty s) available), a)
    else
    try_in (map_error AccountMoney (bind_result (bind_result (money_sub (sl_gross s) (sl_commission s))
        (\<lambda>n. money_sub n (sl_stamp_tax s))) (\<lambda>n. money_sub n (sl_transfer_fee s)))) a (\<lambda>net.
    try_in (map_error AccountMoney (money_add (ac_cash a) net)) a (\<lambda>new_cash.
    if new_cash < 0 then
      try_in (map_error AccountMoney (money_sub 0 net)) a (\<lambda>needed.
        (Inl (InsufficientCashForFees needed (ac_cash a)), a))
    else (case map_of (ac_positions a) code of
        None \<Rightarrow> (Inl (AccountPanic PositionMissing), a)
      | Some p \<Rightarrow>
          try_in (ok_or (AccountMoney (MoneyOverflow RecoveredCentsAdd (ps_recovered p)))
              (checked_i64 (ps_recovered p + sl_gross s))) a (\<lambda>new_recovered.
          if ps_qty p < sl_qty s then (Inl (AccountPanic QtyUnderflow), a)
          else
            (Inr (), write_sold code p (ps_qty p - sl_qty s) new_recovered new_cash a))))))"

definition apply_sell_total ::
    "game_config \<Rightarrow> nat \<Rightarrow> money \<Rightarrow> nat \<Rightarrow> 's account \<Rightarrow> (account_error + unit) \<times> 's account" where
  "apply_sell_total config code proceeds qty a =
    try_in (map_error AccountMoney (commission config proceeds)) a (\<lambda>comm.
    try_in (map_error AccountMoney (stamp_tax config proceeds)) a (\<lambda>stamp.
    try_in (map_error AccountMoney (transfer_fee config proceeds)) a (\<lambda>transfer.
      apply_sell_settlement code \<lparr>sl_gross = proceeds, sl_commission = comm, sl_stamp_tax = stamp,
        sl_transfer_fee = transfer, sl_qty = qty\<rparr> a)))"

definition apply_sell ::
    "game_config \<Rightarrow> nat \<Rightarrow> money \<Rightarrow> nat \<Rightarrow> 's account \<Rightarrow> (account_error + unit) \<times> 's account" where
  "apply_sell config code price qty a =
    try_in (map_error AccountConfig (validate config)) a (\<lambda>_.
    if qty = 0 \<or> price \<le> 0 then (Inl (InvalidTrade price qty), a)
    else try_in (map_error AccountMoney (mul_shares price qty)) a (\<lambda>proceeds.
      apply_sell_total config code proceeds qty a))"

subsection \<open>Entry points\<close>

definition apply_settlement ::
    "side \<Rightarrow> nat \<Rightarrow> settlement_totals \<Rightarrow> bool \<Rightarrow> 's account \<Rightarrow> (account_error + unit) \<times> 's account" where
  "apply_settlement sd code s t1_enabled a =
    (if sl_qty s = 0 \<or> sl_gross s \<le> 0 \<or> sl_commission s < 0 \<or> sl_stamp_tax s < 0 \<or> sl_transfer_fee s < 0
     then (Inl (InvalidTrade (sl_gross s) (sl_qty s)), a)
     else case sd of
       Buy \<Rightarrow> apply_buy_settlement code s t1_enabled a
     | Sell \<Rightarrow> apply_sell_settlement code s a)"

definition apply_trade :: "game_config \<Rightarrow> side \<Rightarrow> nat \<Rightarrow> money \<Rightarrow> nat \<Rightarrow> bool
    \<Rightarrow> 's account \<Rightarrow> (account_error + unit) \<times> 's account" where
  "apply_trade config sd code price qty t1_enabled a =
    (case sd of
      Buy \<Rightarrow> apply_buy config code price qty t1_enabled a
    | Sell \<Rightarrow> apply_sell config code price qty a)"

fun sum_fills :: "money \<Rightarrow> nat \<Rightarrow> (money \<times> nat) list \<Rightarrow> account_error + money \<times> nat" where
  "sum_fills total_value total_qty [] = Inr (total_value, total_qty)"
| "sum_fills total_value total_qty ((price, qty) # fills) =
    (if qty = 0 \<or> price \<le> 0 then Inl (InvalidTrade price qty)
     else
       bind_result (map_error AccountMoney (mul_shares price qty)) (\<lambda>gross.
       bind_result (map_error AccountMoney (money_add total_value gross)) (\<lambda>value'.
       bind_result (ok_or (AccountMoney (MoneyOverflow TradeBatchQtyAdd (int total_qty)))
           (checked_u32 (total_qty + qty))) (\<lambda>qty'. sum_fills value' qty' fills))))"

definition apply_trade_batch :: "game_config \<Rightarrow> side \<Rightarrow> nat \<Rightarrow> (money \<times> nat) list \<Rightarrow> bool
    \<Rightarrow> 's account \<Rightarrow> (account_error + unit) \<times> 's account" where
  "apply_trade_batch config sd code fills t1_enabled a =
    try_in (map_error AccountConfig (validate config)) a (\<lambda>_.
    if fills = [] then (Inl (InvalidTrade 0 0), a)
    else try_in (sum_fills 0 0 fills) a (\<lambda>(total_value, total_qty).
      case sd of
        Buy \<Rightarrow> apply_buy_total config code total_value total_qty t1_enabled a
      | Sell \<Rightarrow> apply_sell_total config code total_value total_qty a))"

definition market_value :: "nat \<Rightarrow> money \<Rightarrow> 's account \<Rightarrow> money_error + money option" where
  "market_value code price a =
    (case map_of (ac_positions a) code of
      None \<Rightarrow> Inr None
    | Some p \<Rightarrow> bind_result (mul_shares price (ps_qty p)) (\<lambda>v. Inr (Some v)))"

definition unrealized_pnl :: "nat \<Rightarrow> money \<Rightarrow> 's account \<Rightarrow> account_error + money option" where
  "unrealized_pnl code price a =
    (case map_of (ac_positions a) code of
      None \<Rightarrow> Inr None
    | Some p \<Rightarrow> bind_result (position_cost_price p) (\<lambda>cost.
        case cost of
          None \<Rightarrow> Inr None
        | Some c \<Rightarrow>
            bind_result (map_error AccountMoney (money_sub price c)) (\<lambda>per_share.
            bind_result (map_error AccountMoney (mul_shares per_share (ps_qty p))) (\<lambda>v. Inr (Some v)))))"

end
