(* ===== verification/Account_Properties.thy ===== *)
theory Account_Properties
  imports Account "HOL-Library.Multiset"
begin

section \<open>What an account promises\<close>

text \<open>
  Outcomes of the two settlements as lemmas, the accounts that operations can reach, and the
  properties: nothing changes on an error, no overdraft, no oversell, T+1, exact cash movements,
  batches, the rounding of the cost price, and that reserved cash is enough for the fills.
\<close>

subsection \<open>Outcomes\<close>

definition position_or_none :: "nat \<Rightarrow> 's account \<Rightarrow> position" where
  "position_or_none code a = (case map_of (ac_positions a) code of Some p \<Rightarrow> p
     | None \<Rightarrow> \<lparr>ps_qty = 0, ps_t1_locked = 0, ps_invested = 0, ps_recovered = 0\<rparr>)"

definition bought :: "settlement_totals \<Rightarrow> bool \<Rightarrow> position \<Rightarrow> position" where
  "bought s t1 p = \<lparr>ps_qty = ps_qty p + sl_qty s,
     ps_t1_locked = (if t1 then ps_t1_locked p + sl_qty s else ps_t1_locked p),
     ps_invested = ps_invested p + sl_gross s, ps_recovered = ps_recovered p\<rparr>"

definition buy_cost :: "settlement_totals \<Rightarrow> money" where
  "buy_cost s = sl_gross s + sl_commission s + sl_transfer_fee s"

definition sell_net :: "settlement_totals \<Rightarrow> money" where
  "sell_net s = sl_gross s - sl_commission s - sl_stamp_tax s - sl_transfer_fee s"

lemma try_in_err_iff:
  "try_in r s f = (Inl e, t) \<longleftrightarrow> (r = Inl e \<and> t = s) \<or> (\<exists>x. r = Inr x \<and> f x = (Inl e, t))"
  by (cases r) auto

lemma buy_settlement_error: "apply_buy_settlement code s t1 a = (Inl e, a') \<Longrightarrow> a' = a"
  by (auto simp: apply_buy_settlement_def Let_def try_in_err_iff split: if_splits)

lemma buy_settlement_ok:
  "apply_buy_settlement code s t1 a = (Inr u, a') \<Longrightarrow>
    a' = a\<lparr>ac_cash := ac_cash a - buy_cost s,
       ac_positions := bt_insert code (bought s t1 (position_or_none code a)) (ac_positions a)\<rparr>
     \<and> buy_cost s \<le> ac_cash a \<and> in_i64 (ac_cash a - buy_cost s)
     \<and> ps_qty (position_or_none code a) + sl_qty s \<le> u32_max
     \<and> in_i64 (ps_invested (position_or_none code a) + sl_gross s)"
  by (cases "map_of (ac_positions a) code")
    (auto simp: apply_buy_settlement_def try_in_ok_iff Let_def bind_result_Inr_iff position_or_none_def
      bought_def buy_cost_def split: if_splits)

lemma buy_settlement_outcome:
  "(\<exists>e. apply_buy_settlement code s t1 a = (Inl e, a)) \<or>
   (apply_buy_settlement code s t1 a = (Inr (), a\<lparr>ac_cash := ac_cash a - buy_cost s,
       ac_positions := bt_insert code (bought s t1 (position_or_none code a)) (ac_positions a)\<rparr>)
     \<and> buy_cost s \<le> ac_cash a \<and> in_i64 (ac_cash a - buy_cost s)
     \<and> ps_qty (position_or_none code a) + sl_qty s \<le> u32_max
     \<and> in_i64 (ps_invested (position_or_none code a) + sl_gross s))"
proof (cases "apply_buy_settlement code s t1 a")
  case (Pair r a')
  then show ?thesis using buy_settlement_error [of code s t1 a] buy_settlement_ok [of code s t1 a]
    by (cases r) auto
qed

lemma buy_settlement_succeeds:
  assumes "in_i64 (sl_gross s + sl_commission s)" "in_i64 (buy_cost s)" "buy_cost s \<le> ac_cash a"
    "in_i64 (ac_cash a - buy_cost s)" "ps_qty (position_or_none code a) + sl_qty s \<le> u32_max"
    "ps_t1_locked (position_or_none code a) \<le> ps_qty (position_or_none code a)"
    "in_i64 (ps_invested (position_or_none code a) + sl_gross s)"
  shows "\<exists>a'. apply_buy_settlement code s t1 a = (Inr (), a')"
proof -
  have "bind_result (money_add (sl_gross s) (sl_commission s)) (\<lambda>t. money_add t (sl_transfer_fee s)) = Inr (buy_cost s)"
    using assms(1,2) by (simp add: bind_result_Inr_iff buy_cost_def)
  with assms show ?thesis
    by (cases "map_of (ac_positions a) code")
      (simp_all add: apply_buy_settlement_def Let_def position_or_none_def money_sub_def checked_i64_def checked_u32_def)
qed

definition sold :: "settlement_totals \<Rightarrow> position \<Rightarrow> position" where
  "sold s p = p\<lparr>ps_qty := ps_qty p - sl_qty s, ps_recovered := ps_recovered p + sl_gross s\<rparr>"

lemma sell_settlement_error: "apply_sell_settlement code s a = (Inl e, a') \<Longrightarrow> a' = a"
  by (auto simp: apply_sell_settlement_def Let_def try_in_err_iff split: if_splits option.splits)

lemma sell_settlement_ok:
  assumes "apply_sell_settlement code s a = (Inr u, a')"
  shows "\<exists>p. map_of (ac_positions a) code = Some p \<and> ps_t1_locked p + sl_qty s \<le> ps_qty p
     \<and> a' = a\<lparr>ac_cash := ac_cash a + sell_net s,
         ac_positions := (if ps_qty p = sl_qty s then bt_remove code (ac_positions a)
           else bt_update code (sold s p) (ac_positions a))\<rparr>
     \<and> 0 \<le> ac_cash a + sell_net s \<and> in_i64 (ac_cash a + sell_net s)
     \<and> in_i64 (ps_recovered p + sl_gross s)"
proof (cases "map_of (ac_positions a) code")
  case None
  with assms show ?thesis
    by (simp add: apply_sell_settlement_def try_in_ok_iff split: if_splits)
next
  case (Some p)
  with assms obtain available net where
    av: "sellable_qty code a = Inr available" "\<not> available < sl_qty s"
    and net: "bind_result (bind_result (money_sub (sl_gross s) (sl_commission s))
        (\<lambda>n. money_sub n (sl_stamp_tax s))) (\<lambda>n. money_sub n (sl_transfer_fee s)) = Inr net"
    and cash: "in_i64 (ac_cash a + net)" "\<not> ac_cash a + net < 0"
    and p: "in_i64 (ps_recovered p + sl_gross s)"
    and a': "a' = write_sold code p (ps_qty p - sl_qty s) (ps_recovered p + sl_gross s) (ac_cash a + net) a"
    by (simp add: apply_sell_settlement_def try_in_ok_iff split: if_splits) blast
  have n: "net = sell_net s" using net by (auto simp: bind_result_Inr_iff sell_net_def)
  have l: "ps_t1_locked p + sl_qty s \<le> ps_qty p"
    using av Some by (auto simp: sellable_qty_def sellable_def split: if_splits)
  then have "ps_qty p - sl_qty s = 0 \<longleftrightarrow> ps_qty p = sl_qty s" by auto
  with a' p Some l cash n show ?thesis by (simp add: write_sold_def sold_def)
qed

lemma sell_settlement_outcome:
  "(\<exists>e. apply_sell_settlement code s a = (Inl e, a)) \<or>
   (\<exists>p. map_of (ac_positions a) code = Some p \<and> ps_t1_locked p + sl_qty s \<le> ps_qty p
     \<and> apply_sell_settlement code s a = (Inr (), a\<lparr>ac_cash := ac_cash a + sell_net s,
         ac_positions := (if ps_qty p = sl_qty s then bt_remove code (ac_positions a)
           else bt_update code (sold s p) (ac_positions a))\<rparr>)
     \<and> 0 \<le> ac_cash a + sell_net s \<and> in_i64 (ac_cash a + sell_net s)
     \<and> in_i64 (ps_recovered p + sl_gross s))"
proof (cases "apply_sell_settlement code s a")
  case (Pair r a')
  then show ?thesis using sell_settlement_error [of code s a] sell_settlement_ok [of code s a]
    by (cases r) auto
qed

lemma settlement_error: "apply_settlement sd code s t1 a = (Inl e, a') \<Longrightarrow> a' = a"
  by (cases sd) (auto simp: apply_settlement_def dest: buy_settlement_error sell_settlement_error split: if_splits)

lemma buy_total_error: "apply_buy_total c code v n t1 a = (Inl e, a') \<Longrightarrow> a' = a"
  by (auto simp: apply_buy_total_def try_in_err_iff dest: buy_settlement_error)

lemma sell_total_error: "apply_sell_total c code v n a = (Inl e, a') \<Longrightarrow> a' = a"
  by (auto simp: apply_sell_total_def try_in_err_iff dest: sell_settlement_error)

lemma buy_error: "apply_buy c code p n t1 a = (Inl e, a') \<Longrightarrow> a' = a"
  by (auto simp: apply_buy_def try_in_err_iff dest: buy_total_error split: if_splits)

lemma sell_error: "apply_sell c code p n a = (Inl e, a') \<Longrightarrow> a' = a"
  by (auto simp: apply_sell_def try_in_err_iff dest: sell_total_error split: if_splits)

lemma trade_error: "apply_trade c sd code p n t1 a = (Inl e, a') \<Longrightarrow> a' = a"
  by (cases sd) (auto simp: apply_trade_def dest: buy_error sell_error)

lemma batch_error: "apply_trade_batch c sd code fs t1 a = (Inl e, a') \<Longrightarrow> a' = a"
  by (cases sd) (auto simp: apply_trade_batch_def try_in_err_iff dest: buy_total_error sell_total_error
      split: if_splits)

lemma grant_error: "grant_position code n p a = (Inl e, a') \<Longrightarrow> a' = a"
  by (auto simp: grant_position_def try_in_err_iff)

lemmas account_errors = settlement_error buy_error sell_error trade_error batch_error grant_error

subsection \<open>Sound accounts\<close>

text \<open>
  A grant of zero shares is accepted and lists a position without shares. Trades never leave one, so that
  such a position is as the grant has left it; \<open>zero\<close> are the stocks that may have one.
\<close>

definition granted_none :: "position \<Rightarrow> bool" where
  "granted_none p \<longleftrightarrow> ps_qty p = 0 \<and> ps_t1_locked p = 0 \<and> ps_invested p = 0 \<and> ps_recovered p = 0"

definition position_ok :: "bool \<Rightarrow> position \<Rightarrow> bool" where
  "position_ok z p \<longleftrightarrow> (0 < ps_qty p \<or> z \<and> granted_none p) \<and> ps_qty p \<le> u32_max \<and> ps_t1_locked p \<le> ps_qty p
     \<and> in_i64 (ps_invested p) \<and> in_i64 (ps_recovered p)"

definition account_ok :: "nat set \<Rightarrow> 's account \<Rightarrow> bool" where
  "account_ok zero a \<longleftrightarrow> 0 \<le> ac_cash a \<and> in_i64 (ac_cash a) \<and> bt_sorted (ac_positions a)
     \<and> (\<forall>(c, p)\<in>set (ac_positions a). position_ok (c \<in> zero) p)"

lemma account_okD:
  assumes "account_ok zero a"
  shows "0 \<le> ac_cash a" "in_i64 (ac_cash a)" "bt_sorted (ac_positions a)"
    "\<And>c p. map_of (ac_positions a) c = Some p \<Longrightarrow> position_ok (c \<in> zero) p"
    "\<And>c p. (c, p) \<in> set (ac_positions a) \<Longrightarrow> position_ok (c \<in> zero) p"
  using assms map_of_SomeD by (force simp: account_ok_def)+

lemma account_ok_mono: "account_ok zero a \<Longrightarrow> zero \<subseteq> zero' \<Longrightarrow> account_ok zero' a"
  by (auto simp: account_ok_def position_ok_def)

lemma position_or_none_locked:
  "account_ok zero a \<Longrightarrow> ps_t1_locked (position_or_none code a) \<le> ps_qty (position_or_none code a)"
  using account_okD(4) [of _ a code] by (auto simp: position_or_none_def position_ok_def split: option.split)

lemma insert_ok:
  assumes "account_ok zero a" "position_ok (code \<in> zero) p" "0 \<le> c" "in_i64 c"
  shows "account_ok zero (a\<lparr>ac_cash := c, ac_positions := bt_insert code p (ac_positions a)\<rparr>)"
  using assms set_bt_insert [OF account_okD(3) [OF assms(1)], of code p]
  by (auto simp: account_ok_def)

lemma buy_settlement_ok_inv:
  assumes a: "account_ok zero a" and s: "0 < sl_qty s" "0 \<le> buy_cost s"
    and r: "apply_buy_settlement code s t1 a = (r', a')"
  shows "account_ok zero a'"
  using buy_settlement_outcome [of code s t1 a]
proof (elim disjE exE conjE)
  assume e: "apply_buy_settlement code s t1 a = (Inr (), a\<lparr>ac_cash := ac_cash a - buy_cost s,
       ac_positions := bt_insert code (bought s t1 (position_or_none code a)) (ac_positions a)\<rparr>)"
    and c: "buy_cost s \<le> ac_cash a" "in_i64 (ac_cash a - buy_cost s)"
    and q: "ps_qty (position_or_none code a) + sl_qty s \<le> u32_max"
      "in_i64 (ps_invested (position_or_none code a) + sl_gross s)"
  have "in_i64 (ps_recovered (position_or_none code a))"
    using account_okD(4) [OF a, of code]
    by (auto simp: position_or_none_def position_ok_def in_i64_def split: option.split)
  then have "position_ok (code \<in> zero) (bought s t1 (position_or_none code a))"
    using q s(1) position_or_none_locked [OF a, of code] by (simp add: position_ok_def bought_def)
  with insert_ok [OF a] c e r show ?thesis by auto
qed (use a r in auto)

lemma sell_settlement_ok_inv:
  assumes a: "account_ok zero a" and s: "0 < sl_qty s" and r: "apply_sell_settlement code s a = (r', a')"
  shows "account_ok zero a'"
  using sell_settlement_outcome [of code s a]
proof (elim disjE exE conjE)
  fix p assume p: "map_of (ac_positions a) code = Some p" "ps_t1_locked p + sl_qty s \<le> ps_qty p"
    and e: "apply_sell_settlement code s a = (Inr (), a\<lparr>ac_cash := ac_cash a + sell_net s,
         ac_positions := (if ps_qty p = sl_qty s then bt_remove code (ac_positions a)
           else bt_update code (sold s p) (ac_positions a))\<rparr>)"
    and c: "0 \<le> ac_cash a + sell_net s" "in_i64 (ac_cash a + sell_net s)"
      "in_i64 (ps_recovered p + sl_gross s)"
  show ?thesis
  proof (cases "ps_qty p = sl_qty s")
    case True
    with e r c a show ?thesis by (auto simp: account_ok_def)
  next
    case False
    then have "position_ok (code \<in> zero) (sold s p)"
      using p c account_okD(4) [OF a p(1)] by (auto simp: position_ok_def sold_def)
    moreover have "set (bt_update code (sold s p) (ac_positions a))
        = insert (code, sold s p) {x \<in> set (ac_positions a). fst x \<noteq> code}"
      by (rule set_bt_update) (simp add: p(1))
    ultimately show ?thesis using e r c a False by (auto simp: account_ok_def)
  qed
qed (use a r in auto)

lemma unlock_ok:
  assumes "account_ok zero a"
  shows "account_ok zero (unlock_t1_positions a)" "account_ok zero (unlock_t1_for_stocks S a)"
proof -
  have k: "map fst (map (\<lambda>(c, p). (c, unlock_position p)) xs) = map fst xs"
    "map fst (map (\<lambda>(c, p). (c, if c \<in> S then unlock_position p else p)) xs) = map fst xs"
    for xs :: "(nat, position) bt" by (simp_all add: case_prod_beta comp_def)
  have u: "position_ok z p \<Longrightarrow> position_ok z (unlock_position p)" for z p
    by (auto simp: position_ok_def unlock_position_def granted_none_def)
  show "account_ok zero (unlock_t1_positions a)" "account_ok zero (unlock_t1_for_stocks S a)"
    using assms account_okD(5) [OF assms] u
    by (auto simp: account_ok_def unlock_t1_positions_def unlock_t1_for_stocks_def bt_sorted_def k
        simp del: map_map)
qed

lemma sum_fills_pos:
  "sum_fills v n fs = Inr (v', n') \<Longrightarrow> 0 \<le> v \<Longrightarrow> fs \<noteq> [] \<or> 0 < n \<Longrightarrow> 0 \<le> v' \<and> 0 < n'"
proof (induction fs arbitrary: v n)
  case (Cons f fs)
  obtain p k where f: "f = (p, k)" by (cases f)
  with Cons.prems have "0 < k" "0 < p" "sum_fills (v + p * int k) (n + k) fs = Inr (v', n')"
    by (auto simp: bind_result_Inr_iff split: if_splits)
  moreover then have "0 \<le> p * int k" by simp
  ultimately show ?case using Cons.IH Cons.prems(2) by simp
qed simp

text \<open>Charges of a valid configuration are not negative.\<close>

lemma charges_nonneg:
  assumes "config_ok c" "in_i64 v" "0 \<le> v"
  shows "commission c v = Inr x \<Longrightarrow> 0 \<le> x" "stamp_tax c v = Inr y \<Longrightarrow> 0 \<le> y"
    "transfer_fee c v = Inr z \<Longrightarrow> 0 \<le> z"
  using commission_fee.fee_nonneg [OF assms] stamp_fee.fee_nonneg [OF assms] transfer.fee_nonneg [OF assms]
  by blast+

lemma buy_no_panic: "apply_buy_settlement code s t1 a \<noteq> (Inl (AccountPanic x), a')"
  by (auto simp: apply_buy_settlement_def Let_def try_in_err_iff ok_or_def map_error_Inl_iff
      split: if_splits option.splits)

lemma sell_no_panic:
  assumes ok: "account_ok zero a" and n: "0 < sl_qty s"
  shows "apply_sell_settlement code s a \<noteq> (Inl (AccountPanic x), a')"
proof (cases "map_of (ac_positions a) code")
  case None
  with n show ?thesis by (simp add: apply_sell_settlement_def sellable_qty_def)
next
  case (Some p)
  then have "ps_t1_locked p \<le> ps_qty p" using account_okD(4) [OF ok] by (simp add: position_ok_def)
  with Some show ?thesis
    by (auto simp: apply_sell_settlement_def sellable_qty_def sellable_def try_in_err_iff ok_or_def map_error_Inl_iff
        split: if_splits option.splits)
qed

lemma settlement_no_panic:
  assumes "account_ok zero a"
  shows "fst (apply_settlement sd code s t1 a) \<noteq> Inl (AccountPanic x)"
  using buy_no_panic [of code s t1 a x] sell_no_panic [OF assms, of s code x]
  by (cases sd; cases "apply_settlement sd code s t1 a") (auto simp: apply_settlement_def split: if_splits)

lemma buy_total_inv:
  assumes a: "account_ok zero a" and c: "config_ok c" "in_i64 v" "0 \<le> v" "0 < n"
    and r: "apply_buy_total c code v n t1 a = (r', a')"
  shows "account_ok zero a'"
proof (cases r')
  case (Inl e)
  with r buy_total_error a show ?thesis by blast
next
  case (Inr u)
  with r obtain x z where f: "commission c v = Inr x" "transfer_fee c v = Inr z"
    and s: "apply_buy_settlement code \<lparr>sl_gross = v, sl_commission = x, sl_stamp_tax = 0,
        sl_transfer_fee = z, sl_qty = n\<rparr> t1 a = (r', a')"
    by (auto simp: apply_buy_total_def try_in_ok_iff)
  show ?thesis
    using charges_nonneg(1) [OF c(1-3) f(1)] charges_nonneg(3) [OF c(1-3) f(2)] c(3,4)
    by (intro buy_settlement_ok_inv [OF a _ _ s]) (simp_all add: buy_cost_def)
qed

lemma sell_total_inv:
  assumes a: "account_ok zero a" and n: "0 < n" and r: "apply_sell_total c code v n a = (r', a')"
  shows "account_ok zero a'"
proof (cases r')
  case (Inl e)
  with r sell_total_error a show ?thesis by blast
next
  case (Inr u)
  with r obtain x y z where s: "apply_sell_settlement code \<lparr>sl_gross = v, sl_commission = x, sl_stamp_tax = y,
        sl_transfer_fee = z, sl_qty = n\<rparr> a = (r', a')"
    by (auto simp: apply_sell_total_def try_in_ok_iff)
  show ?thesis by (rule sell_settlement_ok_inv [OF a _ s]) (simp add: n)
qed

lemma trade_inv:
  assumes a: "account_ok zero a" and c: "config_ok c" and r: "apply_trade c sd code p n t1 a = (r', a')"
  shows "account_ok zero a'"
proof (cases r')
  case (Inl e)
  with r trade_error a show ?thesis by blast
next
  case (Inr u)
  with r have n: "0 < n" "0 < p" "in_i64 (p * int n)"
    and t: "case sd of Buy \<Rightarrow> apply_buy_total c code (p * int n) n t1 a = (r', a')
      | Sell \<Rightarrow> apply_sell_total c code (p * int n) n a = (r', a')"
    by (auto simp: apply_trade_def apply_buy_def apply_sell_def try_in_ok_iff split: side.splits if_splits)
  then show ?thesis using buy_total_inv [OF a c n(3)] sell_total_inv [OF a n(1)] by (auto split: side.splits)
qed

lemma sum_fills_i64: "sum_fills v n fs = Inr (v', n') \<Longrightarrow> in_i64 v \<Longrightarrow> in_i64 v'"
  by (induction v n fs rule: sum_fills.induct) (auto simp: bind_result_Inr_iff split: if_splits)

lemma batch_inv:
  assumes a: "account_ok zero a" and c: "config_ok c" and r: "apply_trade_batch c sd code fs t1 a = (r', a')"
  shows "account_ok zero a'"
proof (cases r')
  case (Inl e)
  with r batch_error a show ?thesis by blast
next
  case (Inr u)
  with r obtain v n where f: "fs \<noteq> []" "sum_fills 0 0 fs = Inr (v, n)"
    and t: "case sd of Buy \<Rightarrow> apply_buy_total c code v n t1 a = (r', a')
      | Sell \<Rightarrow> apply_sell_total c code v n a = (r', a')"
    by (cases sd) (auto simp: apply_trade_batch_def try_in_ok_iff split: if_splits)
  have "0 \<le> v" "0 < n" "in_i64 v"
    using sum_fills_pos [OF f(2)] sum_fills_i64 [OF f(2)] f(1) by (simp_all add: in_i64_def)
  with t show ?thesis using buy_total_inv [OF a c, of v n] sell_total_inv [OF a, of n] by (cases sd) auto
qed

lemma settlement_inv:
  assumes a: "account_ok zero a" and r: "apply_settlement sd code s t1 a = (r', a')"
  shows "account_ok zero a'"
proof (cases r')
  case (Inl e)
  with r settlement_error a show ?thesis by blast
next
  case (Inr u)
  with r have n: "0 < sl_qty s" "0 \<le> buy_cost s"
    and t: "case sd of Buy \<Rightarrow> apply_buy_settlement code s t1 a = (r', a')
      | Sell \<Rightarrow> apply_sell_settlement code s a = (r', a')"
    by (cases sd; auto simp: apply_settlement_def buy_cost_def split: if_splits)+
  then show ?thesis using buy_settlement_ok_inv [OF a n] sell_settlement_ok_inv [OF a n(1)]
    by (auto split: side.splits)
qed

lemma grant_inv:
  assumes a: "account_ok zero a" and n: "n \<le> u32_max" and z: "n = 0 \<Longrightarrow> code \<in> zero" and r: "grant_position code n p a = (r', a')"
  shows "account_ok zero a'"
proof (cases r')
  case (Inl e)
  with r grant_error a show ?thesis by blast
next
  case (Inr u)
  with r have i: "in_i64 (p * int n)" and e: "a' = a\<lparr>ac_positions := bt_insert code
        \<lparr>ps_qty = n, ps_t1_locked = 0, ps_invested = p * int n, ps_recovered = 0\<rparr> (ac_positions a)\<rparr>"
    by (auto simp: grant_position_def try_in_ok_iff)
  have "position_ok (code \<in> zero) \<lparr>ps_qty = n, ps_t1_locked = 0, ps_invested = p * int n, ps_recovered = 0\<rparr>"
    using i n z by (auto simp: position_ok_def granted_none_def in_i64_def)
  from insert_ok [OF a this account_okD(1,2) [OF a]] show ?thesis by (simp add: e)
qed

subsection \<open>Reachable accounts\<close>

datatype account_command =
    AGrant nat nat money
  | ATrade game_config side nat money nat bool
  | ABatch game_config side nat "(money \<times> nat) list" bool
  | ASettle side nat settlement_totals bool
  | AUnlock
  | AUnlockFor "nat set"

fun run_account :: "account_command \<Rightarrow> 's account \<Rightarrow> 's account" where
  "run_account (AGrant code n p) a = snd (grant_position code n p a)"
| "run_account (ATrade c sd code p n t1) a = snd (apply_trade c sd code p n t1 a)"
| "run_account (ABatch c sd code fs t1) a = snd (apply_trade_batch c sd code fs t1 a)"
| "run_account (ASettle sd code s t1) a = snd (apply_settlement sd code s t1 a)"
| "run_account AUnlock a = unlock_t1_positions a"
| "run_account (AUnlockFor stocks) a = unlock_t1_for_stocks stocks a"

fun account_command_typed :: "account_command \<Rightarrow> bool" where
  "account_command_typed (AGrant code n p) \<longleftrightarrow> n \<le> u32_max"
| "account_command_typed (ATrade c sd code p n t1) \<longleftrightarrow> config_ok c"
| "account_command_typed (ABatch c sd code fs t1) \<longleftrightarrow> config_ok c"
| "account_command_typed _ \<longleftrightarrow> True"

inductive account_reachable :: "'s account \<Rightarrow> bool" where
  fresh: "0 \<le> cash \<Longrightarrow> in_i64 cash \<Longrightarrow> account_reachable (new_account aid kind cash)"
| step: "account_reachable a \<Longrightarrow> account_command_typed c \<Longrightarrow> account_reachable (run_account c a)"

definition zero_grants :: "account_command list \<Rightarrow> nat set" where
  "zero_grants cs = {code. \<exists>p. AGrant code 0 p \<in> set cs}"

lemma run_account_ok:
  assumes a: "account_ok zero a" and c: "account_command_typed c"
  shows "account_ok (zero \<union> zero_grants [c]) (run_account c a)"
proof -
  have up: "account_ok zero a' \<Longrightarrow> account_ok (zero \<union> zero_grants [c]) a'" for a' :: "'a account"
    by (rule account_ok_mono) auto
  show ?thesis
  proof (cases c)
    case (AGrant code n p)
    have "n = 0 \<Longrightarrow> code \<in> zero \<union> zero_grants [c]" by (simp add: AGrant zero_grants_def)
    with AGrant c grant_inv [OF up [OF a], of n code p] show ?thesis by (cases "grant_position code n p a") simp
  next
    case (ATrade cf sd code p n t1)
    with c up trade_inv [OF a, of cf sd code p n t1] show ?thesis by (cases "apply_trade cf sd code p n t1 a") simp
  next
    case (ABatch cf sd code fs t1)
    with c up batch_inv [OF a, of cf sd code fs t1] show ?thesis by (cases "apply_trade_batch cf sd code fs t1 a") simp
  next
    case (ASettle sd code s t1)
    with up settlement_inv [OF a, of sd code s t1] show ?thesis by (cases "apply_settlement sd code s t1 a") simp
  qed (use up unlock_ok [OF a] in auto)
qed

lemma new_account_ok: "0 \<le> cash \<Longrightarrow> in_i64 cash \<Longrightarrow> account_ok zero (new_account aid kind cash)"
  by (simp add: account_ok_def new_account_def)

lemma run_accounts_ok:
  assumes "account_ok zero a" "list_all account_command_typed cs"
  shows "account_ok (zero \<union> zero_grants cs) (fold run_account cs a)"
  using assms
proof (induction cs arbitrary: zero a)
  case (Cons c cs)
  have "(zero \<union> zero_grants [c]) \<union> zero_grants cs = zero \<union> zero_grants (c # cs)" by (auto simp: zero_grants_def)
  moreover have "account_command_typed c" "list_all account_command_typed cs" using Cons.prems(2) by simp_all
  note Cons.IH [OF run_account_ok [OF Cons.prems(1) this(1)] this(2)]
  ultimately show ?case by simp
qed (simp add: zero_grants_def)

lemma account_reachable_ok: "account_reachable a \<Longrightarrow> account_ok UNIV a"
proof (induction rule: account_reachable.induct)
  case fresh
  then show ?case by (rule new_account_ok)
next
  case (step a c)
  from run_account_ok [OF step.IH step.hyps(2)] show ?case by simp
qed

subsection \<open>Properties\<close>

definition sample_account :: "unit account" where
  "sample_account = run_account (AGrant 7 100 50) (new_account 1 Player 10000)"

lemma sample_account_reachable: "account_reachable sample_account"
  unfolding sample_account_def
  by (intro account_reachable.step account_reachable.fresh) (simp_all add: in_i64_def)

lemma sample_account_eq: "sample_account = \<lparr>ac_id = 1, ac_kind = Player, ac_cash = 10000, ac_positions =
    [(7, \<lparr>ps_qty = 100, ps_t1_locked = 0, ps_invested = 5000, ps_recovered = 0\<rparr>)], ac_strategy = None\<rparr>"
  by (simp add: sample_account_def new_account_def grant_position_def mul_shares_def checked_i64_def in_i64_def)

definition sample_totals :: settlement_totals where
  "sample_totals = \<lparr>sl_gross = 600, sl_commission = 5, sl_stamp_tax = 1, sl_transfer_fee = 2, sl_qty = 10\<rparr>"

lemmas account_eval = apply_settlement_def apply_buy_settlement_def apply_sell_settlement_def write_sold_def
  sellable_qty_def sellable_def money_add_def money_sub_def checked_i64_def checked_u32_def in_i64_def
  sample_totals_def bt_update_def Let_def

lemma sample_buy: "apply_settlement Buy 7 sample_totals True sample_account
    = (Inr (), sample_account\<lparr>ac_cash := 9393, ac_positions :=
        [(7, \<lparr>ps_qty = 110, ps_t1_locked = 10, ps_invested = 5600, ps_recovered = 0\<rparr>)]\<rparr>)"
  by (simp add: sample_account_eq account_eval)

text \<open>
  C24 (Accounts stay solvent). Whatever sequence of grants, trades, batches, settlements and unlocks an account
  has been through, failed ones and grants of zero shares included, with trades under a valid configuration, its cash
  is not negative and fits \<open>i64\<close>; no position has more shares than \<open>u32\<close> allows or more locked shares than there are;
  every position is of at least one share, but for one that a grant of zero shares of that stock has listed, which has
  nothing locked and nothing invested or recovered; and the checks whose failure would abort the program never fail.
\<close>

theorem accounts_stay_solvent:
  assumes "0 \<le> cash" "in_i64 cash" "list_all account_command_typed cs" "a = fold run_account cs (new_account aid kind cash)"
  shows "0 \<le> ac_cash a \<and> in_i64 (ac_cash a)
    \<and> (\<forall>(code, p)\<in>set (ac_positions a). ps_qty p \<le> u32_max \<and> ps_t1_locked p \<le> ps_qty p
        \<and> (0 < ps_qty p \<or> (\<exists>q. AGrant code 0 q \<in> set cs) \<and> granted_none p))
    \<and> (\<forall>code. \<exists>n. sellable_qty code a = Inr n)
    \<and> (\<forall>sd code s t1 x. fst (apply_settlement sd code s t1 a) \<noteq> Inl (AccountPanic x))"
proof -
  have ok: "account_ok (zero_grants cs) a"
    using run_accounts_ok [OF new_account_ok [OF assms(1,2)] assms(3), of "{}" aid kind] assms(4) by simp
  have sell: "\<exists>n. sellable_qty code a = Inr n" for code
    using account_okD(4) [OF ok, of code] by (auto simp: sellable_qty_def sellable_def position_ok_def split: option.split)
  have "fst (apply_settlement sd code s t1 a) \<noteq> Inl (AccountPanic x)" for sd code s t1 x
    by (rule settlement_no_panic [OF ok])
  with ok sell show ?thesis by (auto simp: account_ok_def position_ok_def zero_grants_def)
qed

theorem accounts_stay_solvent_witness:
  "\<exists>a. a = fold run_account [AGrant 8 0 50, AGrant 7 100 50, ASettle Buy 7 sample_totals True] (new_account 1 Player 10000)
    \<and> ac_cash a = 9393 \<and> map_of (ac_positions a) 8 = Some \<lparr>ps_qty = 0, ps_t1_locked = 0, ps_invested = 0, ps_recovered = 0\<rparr>
    \<and> (\<exists>n. sellable_qty 8 a = Inr n)"
proof -
  let ?cs = "[AGrant 8 0 50, AGrant 7 100 50, ASettle Buy 7 sample_totals True]"
  let ?a = "fold run_account ?cs (new_account 1 Player 10000)"
  have "0 \<le> (10000::money)" "in_i64 10000" "list_all account_command_typed ?cs" by (simp_all add: in_i64_def)
  from accounts_stay_solvent [OF this refl, of 1 Player] have "\<exists>n. sellable_qty 8 ?a = Inr n" by blast
  moreover have "ac_cash ?a = 9393" "map_of (ac_positions ?a) 8
      = Some \<lparr>ps_qty = 0, ps_t1_locked = 0, ps_invested = 0, ps_recovered = 0\<rparr>"
    by (simp_all add: new_account_def grant_position_def mul_shares_def account_eval)
  ultimately show ?thesis by blast
qed

text \<open>
  A trade, a batch of fills, a settlement or a grant that
  returns an error leaves cash and positions exactly as they were.
\<close>

theorem failed_operations_change_nothing:
  "(apply_trade c sd code p n t1 a = (Inl e, a1) \<longrightarrow> a1 = a)
    \<and> (apply_trade_batch c sd code fs t1 a = (Inl e, a2) \<longrightarrow> a2 = a)
    \<and> (apply_settlement sd code s t1 a = (Inl e, a3) \<longrightarrow> a3 = a)
    \<and> (grant_position code n p a = (Inl e, a4) \<longrightarrow> a4 = a)"
  by (intro conjI impI) (elim trade_error batch_error settlement_error grant_error)+

lemma failed_operations_change_nothing_witness:
  "snd (apply_settlement Buy 7 (sample_totals\<lparr>sl_gross := 20000\<rparr>) True sample_account) = sample_account"
proof -
  obtain r a' where r: "apply_settlement Buy 7 (sample_totals\<lparr>sl_gross := 20000\<rparr>) True sample_account = (r, a')"
    by (cases "apply_settlement Buy 7 (sample_totals\<lparr>sl_gross := 20000\<rparr>) True sample_account")
  then obtain e where "r = Inl e" by (auto simp: sample_account_eq account_eval)
  with r failed_operations_change_nothing [of undefined Buy 7 0 0 True sample_account e undefined "[]" undefined
      "sample_totals\<lparr>sl_gross := 20000\<rparr>" a'] show ?thesis by simp
qed

text \<open>
  C25 (A settlement moves exactly its totals). A successful buy takes the gross amount, the
  commission and the transfer fee from the cash and adds the shares and the gross amount to the
  position, with the shares locked under T+1; a successful sale needs unlocked shares, adds the
  gross amount less all charges to the cash, books the gross amount as recovered, and removes the
  position when it is sold out. Other positions are untouched.
\<close>

theorem settlement_moves_exactly:
  assumes "account_reachable a" "apply_settlement sd code s t1 a = (Inr (), a')"
  shows "(case sd of
      Buy \<Rightarrow> ac_cash a' = ac_cash a - (sl_gross s + sl_commission s + sl_transfer_fee s)
        \<and> map_of (ac_positions a') code = Some (bought s t1 (position_or_none code a))
    | Sell \<Rightarrow> ac_cash a' = ac_cash a + (sl_gross s - sl_commission s - sl_stamp_tax s - sl_transfer_fee s)
        \<and> (\<exists>p. map_of (ac_positions a) code = Some p \<and> sl_qty s \<le> ps_qty p - ps_t1_locked p
            \<and> map_of (ac_positions a') code = (if ps_qty p = sl_qty s then None else Some (sold s p))))
    \<and> (\<forall>c. c \<noteq> code \<longrightarrow> map_of (ac_positions a') c = map_of (ac_positions a) c)"
proof (cases sd)
  case Buy
  with assms(2) have b: "apply_buy_settlement code s t1 a = (Inr (), a')"
    by (simp add: apply_settlement_def split: if_splits)
  have srt: "bt_sorted (ac_positions a)" using account_okD(3) [OF account_reachable_ok [OF assms(1)]] .
  from buy_settlement_ok [OF b] Buy show ?thesis
    by (simp add: buy_cost_def map_of_bt_insert [OF srt])
next
  case Sell
  with assms(2) have b: "apply_sell_settlement code s a = (Inr (), a')"
    by (simp add: apply_settlement_def split: if_splits)
  from sell_settlement_ok [OF b] Sell show ?thesis
    by (auto simp: sell_net_def map_of_bt_remove map_of_bt_update)
qed

lemma settlement_moves_exactly_witness:
  "\<exists>a'. apply_settlement Buy 7 sample_totals True sample_account = (Inr (), a') \<and> ac_cash a' = 10000 - 607"
  using settlement_moves_exactly [OF sample_account_reachable sample_buy] sample_buy
  by (simp add: sample_totals_def sample_account_eq)

lemma round_half_even_rational:
  assumes "0 < d"
  shows "round_half_to_even_i64 n d = rhe (of_int n / of_nat d)"
proof -
  define k where "k = int d"
  have k: "0 < k" "(of_nat d :: rat) = of_int k" using assms by (simp_all add: k_def)
  have fl: "\<lfloor>(of_int n :: rat) / of_int k\<rfloor> = n div k" by (rule floor_divide_of_int_eq)
  have "(of_int (n div k * k + n mod k) :: rat) = of_int n" by simp
  then have "(of_int n :: rat) = of_int (n div k) * of_int k + of_int (n mod k)"
    by (simp only: of_int_add of_int_mult)
  then have e: "(of_int n :: rat) / of_int k - of_int (n div k) = of_int (n mod k) / of_int k"
    using k(1) by (simp add: field_simps)
  have c: "of_int (n mod k) / of_int k < (1 / 2 :: rat) \<longleftrightarrow> 2 * (n mod k) < k"
    "(1 / 2 :: rat) < of_int (n mod k) / of_int k \<longleftrightarrow> k < 2 * (n mod k)"
  proof -
    have "of_int (n mod k) / of_int k < (1 / 2 :: rat) \<longleftrightarrow> (of_int (2 * (n mod k)) :: rat) < of_int k"
      using k(1) by (simp add: field_simps)
    then show "of_int (n mod k) / of_int k < (1 / 2 :: rat) \<longleftrightarrow> 2 * (n mod k) < k" by (simp only: of_int_less_iff)
    have "(1 / 2 :: rat) < of_int (n mod k) / of_int k \<longleftrightarrow> (of_int k :: rat) < of_int (2 * (n mod k))"
      using k(1) by (simp add: field_simps)
    then show "(1 / 2 :: rat) < of_int (n mod k) / of_int k \<longleftrightarrow> k < 2 * (n mod k)" by (simp only: of_int_less_iff)
  qed
  show ?thesis
    unfolding rhe_def round_half_to_even_i64_def Let_def k(2) fl e c k_def [symmetric] by simp
qed

lemma sellable_of: "account_ok zero a \<Longrightarrow> sellable_qty code a
    = Inr (ps_qty (position_or_none code a) - ps_t1_locked (position_or_none code a))"
  using account_okD(4) [of _ a code]
  by (auto simp: sellable_qty_def sellable_def position_or_none_def position_ok_def split: option.split)

lemma map_of_unlock: "map_of (ac_positions (unlock_t1_positions a)) code
    = map_option unlock_position (map_of (ac_positions a) code)"
proof (cases "list_ex (\<lambda>p. 0 < ps_t1_locked p) (bt_values (ac_positions a))")
  case True
  have "map_of (map (\<lambda>(c, p). (c, unlock_position p)) xs) code = map_option unlock_position (map_of xs code)" for xs
    by (induction xs) auto
  with True show ?thesis by (simp add: unlock_t1_positions_def)
next
  case False
  then have "unlock_position p = p" if "map_of (ac_positions a) code = Some p" for p
    using map_of_SomeD [OF that] by (force simp: list_ex_iff unlock_position_def)
  with False show ?thesis by (cases "map_of (ac_positions a) code") (simp_all add: unlock_t1_positions_def)
qed

text \<open>
  C27 (T+1). Shares bought under T+1 cannot be sold on the same day: the sellable quantity is what
  it was before the buy, and grows by the bought shares without T+1. A settlement of a sale of
  more than the sellable quantity is refused. The end-of-day unlock makes the whole position
  sellable.
\<close>

theorem t1_shares_stay_locked:
  assumes "account_reachable a" "apply_settlement Buy code s t1 a = (Inr (), a')"
    "sellable_qty code a = Inr n"
  shows "sellable_qty code a' = Inr (if t1 then n else n + sl_qty s)
    \<and> (\<forall>s2. sl_qty s2 > (if t1 then n else n + sl_qty s) \<longrightarrow>
        fst (apply_sell_settlement code s2 a') = Inl (InsufficientShares code (sl_qty s2) (if t1 then n else n + sl_qty s)))
    \<and> sellable_qty code (unlock_t1_positions a') = Inr (ps_qty (position_or_none code a) + sl_qty s)"
proof -
  note ok = account_reachable_ok [OF assms(1)]
  have b: "apply_buy_settlement code s t1 a = (Inr (), a')"
    using assms(2) by (simp add: apply_settlement_def split: if_splits)
  have ok': "account_ok UNIV a'" by (rule settlement_inv [OF ok assms(2)])
  have pos: "map_of (ac_positions a') code = Some (bought s t1 (position_or_none code a))"
    using buy_settlement_ok [OF b] by (simp add: map_of_bt_insert [OF account_okD(3) [OF ok]])
  then have p': "position_or_none code a' = bought s t1 (position_or_none code a)"
    by (simp add: position_or_none_def)
  have n: "n = ps_qty (position_or_none code a) - ps_t1_locked (position_or_none code a)"
    using assms(3) sellable_of [OF ok] by simp
  have s: "sellable_qty code a' = Inr (if t1 then n else n + sl_qty s)"
    unfolding sellable_of [OF ok'] p' n using position_or_none_locked [OF ok, of code] by (simp add: bought_def)
  have "sellable_qty code (unlock_t1_positions a') = Inr (ps_qty (position_or_none code a) + sl_qty s)"
    unfolding sellable_qty_def map_of_unlock pos by (simp add: sellable_def unlock_position_def bought_def)
  with s show ?thesis by (simp add: apply_sell_settlement_def)
qed

lemma t1_shares_stay_locked_witness:
  "sellable_qty 7 (sample_account\<lparr>ac_cash := 9393, ac_positions :=
        [(7, \<lparr>ps_qty = 110, ps_t1_locked = 10, ps_invested = 5600, ps_recovered = 0\<rparr>)]\<rparr>) = Inr 100"
proof -
  have "sellable_qty 7 sample_account = Inr 100" by (simp add: sample_account_eq sellable_qty_def sellable_def)
  from t1_shares_stay_locked [OF sample_account_reachable sample_buy this] show ?thesis by simp
qed

text \<open>
  For a position whose net investment fits \<open>i64\<close> the
  cost price is the net investment per share rounded to the nearest cent, halves to even, also
  when more was recovered than invested; a position without shares has none.
\<close>

theorem cost_price_rounds_half_even:
  assumes "in_i64 (ps_invested p - ps_recovered p)"
  shows "position_cost_price p = Inr (if ps_qty p = 0 then None
    else Some (rhe (of_int (ps_invested p - ps_recovered p) / of_nat (ps_qty p))))"
proof -
  have "round_half_to_even_i64 n d = rhe (of_int n / of_nat d)" if "0 < d" for n d
    by (rule round_half_even_rational [OF that])
  with assms show ?thesis by (simp add: position_cost_price_def checked_i64_def)
qed

lemma cost_price_rounds_half_even_witness:
  "position_cost_price \<lparr>ps_qty = 2, ps_t1_locked = 0, ps_invested = 0, ps_recovered = 5\<rparr> = Inr (Some (- 2))"
proof -
  have f: "\<lfloor>- 5 / 2 :: rat\<rfloor> = - 3" by (simp add: floor_eq_iff)
  have "rhe (- 5 / 2) = - 2" unfolding rhe_def Let_def f by simp
  then show ?thesis
    using cost_price_rounds_half_even [of "\<lparr>ps_qty = 2, ps_t1_locked = 0, ps_invested = 0, ps_recovered = 5\<rparr>"]
    by (simp add: in_i64_def)
qed

subsection \<open>Batches\<close>

definition fills_value :: "(money \<times> nat) list \<Rightarrow> int" where
  "fills_value fs = sum_list (map (\<lambda>(p, n). p * int n) fs)"

definition fills_qty :: "(money \<times> nat) list \<Rightarrow> nat" where
  "fills_qty fs = sum_list (map snd fs)"

lemma fills_simps [simp]:
  "fills_value [] = 0" "fills_value ((p, n) # fs) = p * int n + fills_value fs"
  "fills_qty [] = 0" "fills_qty ((p, n) # fs) = n + fills_qty fs"
  by (simp_all add: fills_value_def fills_qty_def)

definition fills_positive :: "(money \<times> nat) list \<Rightarrow> bool" where
  "fills_positive fs \<longleftrightarrow> list_all (\<lambda>(p, n). 0 < p \<and> 0 < n) fs"

lemma fills_value_nonneg: "fills_positive fs \<Longrightarrow> 0 \<le> fills_value fs"
  by (induction fs) (auto simp: fills_positive_def)

lemma sum_fills_total:
  assumes "fills_positive fs" "0 \<le> v" "in_i64 (v + fills_value fs)" "n + fills_qty fs \<le> u32_max"
  shows "sum_fills v n fs = Inr (v + fills_value fs, n + fills_qty fs)"
  using assms
proof (induction fs arbitrary: v n)
  case (Cons f fs)
  obtain p k where f: "f = (p, k)" by (cases f)
  have pos: "0 < p" "0 < k" "fills_positive fs" using Cons.prems(1) by (auto simp: fills_positive_def f)
  have "0 \<le> fills_value fs" by (rule fills_value_nonneg [OF pos(3)])
  moreover have "0 \<le> p * int k" using pos by simp
  ultimately have i: "in_i64 (p * int k)" "in_i64 (v + p * int k)"
    using Cons.prems(2,3) by (auto simp: in_i64_def f)
  have "sum_fills (v + p * int k) (n + k) fs = Inr (v + p * int k + fills_value fs, n + k + fills_qty fs)"
    using Cons.IH [OF pos(3), of "v + p * int k" "n + k"] Cons.prems(2-4) \<open>0 \<le> p * int k\<close>
    by (simp add: f add.assoc)
  with pos i Cons.prems(4) show ?case
    by (simp add: f mul_shares_def money_add_def checked_i64_def checked_u32_def add.assoc)
qed simp

lemma fills_mset:
  assumes "mset fs = mset gs"
  shows "fills_value fs = fills_value gs" "fills_qty fs = fills_qty gs" "fills_positive fs = fills_positive gs"
    "(fs = []) = (gs = [])"
proof -
  have s: "sum_list (map h fs) = sum_list (map h gs)" for h :: "money \<times> nat \<Rightarrow> 'n::comm_monoid_add"
  proof -
    have "mset (map h fs) = mset (map h gs)" using assms by simp
    then have "sum_mset (mset (map h fs)) = sum_mset (mset (map h gs))" by (rule arg_cong)
    then show ?thesis by (simp only: sum_mset_sum_list)
  qed
  show "fills_value fs = fills_value gs" "fills_qty fs = fills_qty gs"
    unfolding fills_value_def fills_qty_def by (rule s)+
  show "fills_positive fs = fills_positive gs"
    using mset_eq_setD [OF assms] by (simp add: fills_positive_def list_all_iff)
  show "(fs = []) = (gs = [])" using assms by auto
qed

text \<open>
  When the fills of a batch are positive and their totals
  fit, the batch is settled as a single amount and quantity, so that the minimum commission is
  charged once and the order of the fills does not matter; a batch of one fill is that trade.
\<close>

theorem batch_is_one_trade:
  assumes "fills_positive fs" "in_i64 (fills_value fs)" "fills_qty fs \<le> u32_max" "mset gs = mset fs" "fs \<noteq> []"
    "validate c = Inr ()" "n \<le> u32_max"
  shows "apply_trade_batch c sd code gs t1 a = (case sd of
        Buy \<Rightarrow> apply_buy_total c code (fills_value fs) (fills_qty fs) t1 a
      | Sell \<Rightarrow> apply_sell_total c code (fills_value fs) (fills_qty fs) a)
    \<and> apply_trade_batch c sd code [(p, n)] t1 a = apply_trade c sd code p n t1 a"
proof -
  note m = fills_mset [OF assms(4)]
  have "sum_fills 0 0 gs = Inr (0 + fills_value gs, 0 + fills_qty gs)"
    by (rule sum_fills_total) (use assms m in simp_all)
  then have "apply_trade_batch c sd code gs t1 a = (case sd of
        Buy \<Rightarrow> apply_buy_total c code (fills_value fs) (fills_qty fs) t1 a
      | Sell \<Rightarrow> apply_sell_total c code (fills_value fs) (fills_qty fs) a)"
    using m assms(5,6) by (simp add: apply_trade_batch_def)
  moreover have "apply_trade_batch c sd code [(p, n)] t1 a = apply_trade c sd code p n t1 a"
    using assms(6,7) by (cases sd; cases "in_i64 (p * int n)")
      (auto simp: apply_trade_batch_def apply_trade_def apply_buy_def apply_sell_def mul_shares_def money_add_def
        checked_i64_def checked_u32_def)
  ultimately show ?thesis by blast
qed

lemma batch_is_one_trade_witness:
  "apply_trade_batch flat_config Buy 7 [(20, 3), (10, 5)] True sample_account
    = apply_buy_total flat_config 7 110 8 True sample_account"
proof -
  let ?fs = "[(10::int, 5::nat), (20, 3)]" and ?gs = "[(20::int, 3::nat), (10, 5)]"
  have v: "validate flat_config = Inr ()" using flat_config_ok by (simp add: config_ok_def)
  have h: "fills_positive ?fs" "in_i64 (fills_value ?fs)" "fills_qty ?fs \<le> u32_max" "mset ?gs = mset ?fs" "?fs \<noteq> []"
    by (simp_all add: fills_positive_def in_i64_def)
  have t: "fills_value ?fs = 110" "fills_qty ?fs = 8" by simp_all
  have one: "(1::nat) \<le> u32_max" by simp
  from batch_is_one_trade [OF h v one, of Buy 7 True sample_account, THEN conjunct1] show ?thesis
    unfolding t side.case .
qed

subsection \<open>Reserved cash\<close>

lemma fee_after_fill:
  assumes f: "fee_schedule config_ok fee" and c: "config_ok c"
    and le: "0 \<le> filled" "filled \<le> b" "b \<noteq> 0" "b \<le> e" "e \<le> final" "in_i64 final"
    and d: "fee_delta filled b (fee c) = Inr d" and m: "fee_delta filled final (fee c) = Inr m"
  shows "\<exists>d'. fee_delta b e (fee c) = Inr d' \<and> 0 \<le> d' \<and> d + d' \<le> m"
proof -
  have i: "in_i64 e" "in_i64 b" "0 \<le> b" "0 \<le> e" using le by (auto simp: in_i64_def)
  from m obtain z where "fee c final = Inr z" by (auto simp: fee_delta_def bind_result_Inr_iff)
  from fee_schedule.fee_defined [OF f c le(6) i(4) le(5) this] obtain y where y: "fee c e = Inr y" by blast
  from fee_schedule.fee_defined [OF f c i(1,3) le(4) y] obtain x where x: "fee c b = Inr x" by blast
  have "x \<le> y" "0 \<le> x" "in_i64 y"
    using fee_schedule.fee_mono [OF f c i(2,1) le(4) x y] fee_schedule.fee_nonneg [OF f c i(2,3) x]
      fee_schedule.fee_i64 [OF f c i(1) y] by auto
  then have d': "fee_delta b e (fee c) = Inr (y - x)" "0 \<le> y - x"
    using x y le(3) by (auto simp: fee_delta_def in_i64_def)
  from fee_schedule.delta_split [OF f c i(1) le(1-4) d d'(1)]
  have "fee_delta filled e (fee c) = Inr (d + (y - x))" .
  moreover obtain d1 where "fee_delta filled e (fee c) = Inr d1" "d1 \<le> m"
    using fee_schedule.delta_smaller [OF f c le(1) _ le(5,6) m] le(2,4) by fastforce
  ultimately show ?thesis using d' by auto
qed

text \<open>
  Let the cash of an account cover the reservation of a buy
  order. Then any fill of part of the order at no more than its limit, with the charges computed
  incrementally, settles, provided the position has room for it; and the cash that is left
  covers the reservation of what remains of the order, so that the argument repeats until the
  order is done.
\<close>

theorem reserved_cash_settles:
  assumes a: "account_reachable a" and c: "config_ok c" and f: "0 \<le> filled"
    and r: "buy_order_reservation c limit qty filled = Inr reserved" "reserved \<le> ac_cash a"
    and n: "0 < n" "n \<le> qty" and g: "0 < gross" "gross \<le> limit * int n" and l: "0 \<le> limit"
    and d: "fee_delta filled (filled + gross) (commission c) = Inr d1"
      "fee_delta filled (filled + gross) (transfer_fee c) = Inr d2"
    and room: "ps_qty (position_or_none code a) + n \<le> u32_max"
      "in_i64 (ps_invested (position_or_none code a) + gross)"
  shows "\<exists>a' rest. apply_settlement Buy code \<lparr>sl_gross = gross, sl_commission = d1, sl_stamp_tax = 0,
        sl_transfer_fee = d2, sl_qty = n\<rparr> t1 a = (Inr (), a')
    \<and> buy_order_reservation c limit (qty - n) (filled + gross) = Inr rest \<and> rest \<le> ac_cash a'"
proof -
  note ok = account_reachable_ok [OF a]
  define b where "b = filled + gross"
  define e where "e = b + limit * int (qty - n)"
  define final where "final = filled + limit * int qty"
  let ?s = "\<lparr>sl_gross = gross, sl_commission = d1, sl_stamp_tax = 0, sl_transfer_fee = d2, sl_qty = n\<rparr>"
  from r(1) obtain m1 m2 where i: "in_i64 (limit * int qty)" "in_i64 final"
    and m: "fee_delta filled final (commission c) = Inr m1" "fee_delta filled final (transfer_fee c) = Inr m2"
    and s: "in_i64 (limit * int qty + m1)" "in_i64 (limit * int qty + m1 + m2)"
    and res: "reserved = limit * int qty + m1 + m2"
    by (auto simp: buy_order_reservation_def bind_result_Inr_iff final_def)
  have split: "limit * int qty = limit * int n + limit * int (qty - n)"
    using n(2) by (simp add: of_nat_diff algebra_simps)
  have rem: "0 \<le> limit * int (qty - n)" using l by simp
  have le: "filled \<le> b" "b \<noteq> 0" "b \<le> e" "e \<le> final"
    using f g rem split by (auto simp: b_def e_def final_def)
  from fee_after_fill [OF commission_fee.fee_schedule_axioms c f le i(2) d(1) [folded b_def] m(1)] obtain d1' where
    d1': "fee_delta b e (commission c) = Inr d1'" "0 \<le> d1'" "d1 + d1' \<le> m1" by blast
  from fee_after_fill [OF transfer.fee_schedule_axioms c f le i(2) d(2) [folded b_def] m(2)] obtain d2' where
    d2': "fee_delta b e (transfer_fee c) = Inr d2'" "0 \<le> d2'" "d2 + d2' \<le> m2" by blast
  have ib: "in_i64 b" using le f i(2) by (auto simp: in_i64_def)
  have pos: "0 \<le> d1" "0 \<le> d2"
    using commission_fee.delta_nonneg [OF c ib f le(1) d(1) [folded b_def]]
      transfer.delta_nonneg [OF c ib f le(1) d(2) [folded b_def]] by simp_all
  have cash: "gross + d1 + d2 + (limit * int (qty - n) + d1' + d2') \<le> ac_cash a"
    using r(2) res split g(2) d1'(3) d2'(3) by linarith
  note ci = account_okD(1,2) [OF ok]
  have fit: "in_i64 (gross + d1)" "in_i64 (gross + d1 + d2)" "in_i64 (ac_cash a - (gross + d1 + d2))"
    using cash ci pos d1'(2) d2'(2) rem g(1) by (auto simp: in_i64_def)
  have "\<exists>a'. apply_buy_settlement code ?s t1 a = (Inr (), a')"
    by (rule buy_settlement_succeeds)
      (use fit room cash d1'(2) d2'(2) rem position_or_none_locked [OF ok, of code] in \<open>simp_all add: buy_cost_def\<close>)
  then obtain a' where a': "apply_buy_settlement code ?s t1 a = (Inr (), a')" ..
  then have st: "apply_settlement Buy code ?s t1 a = (Inr (), a')"
    using n g pos by (simp add: apply_settlement_def)
  have left: "ac_cash a' = ac_cash a - (gross + d1 + d2)"
    using buy_settlement_ok [OF a'] by (simp add: buy_cost_def)
  have fit2: "in_i64 (limit * int (qty - n))" "in_i64 e" "in_i64 (limit * int (qty - n) + d1')"
    "in_i64 (limit * int (qty - n) + d1' + d2')"
    using cash ci pos d1'(2) d2'(2) rem g(1) le f i(2) by (auto simp: in_i64_def)
  have "buy_order_reservation c limit (qty - n) b = Inr (limit * int (qty - n) + d1' + d2')"
    using fit2 d1'(1) d2'(1) by (simp add: buy_order_reservation_def bind_result_Inr_iff e_def)
  with st left cash show ?thesis by (simp add: b_def)
qed

lemma transfer_fee_bounded:
  assumes "in_i64 v" "0 \<le> v" "v \<le> 2 ^ 53"
  shows "\<exists>x. transfer_fee c v = Inr x \<and> 0 \<le> x \<and> x \<le> v"
proof -
  have q: "a_share_transfer_fee_rate = Finite (rnd (1 / 100000))"
    by (simp add: a_share_transfer_fee_rate_def f64_of_rat_unit)
  have "rnd (1 / 100000) \<le> rnd (2 powi 0)" by (rule rnd_mono) simp
  then have "0 \<le> rnd (1 / 100000)" "rnd (1 / 100000) \<le> 1"
    using rnd_powi [of 0] by (simp_all add: rnd_nonneg)
  from apply_rate_bounded [OF _ _ this, of v] assms show ?thesis by (auto simp: transfer_fee_def q)
qed

lemma reserved_cash_settles_witness:
  "\<exists>s a' rest. sl_gross s = 200 \<and> sl_qty s = 10 \<and> apply_settlement Buy 7 s True sample_account = (Inr (), a')
    \<and> buy_order_reservation flat_config 20 90 200 = Inr rest \<and> rest \<le> ac_cash a'"
proof -
  obtain x where x: "transfer_fee flat_config 2000 = Inr x" "0 \<le> x" "x \<le> 2000"
    using transfer_fee_bounded [of 2000 flat_config] by (auto simp: in_i64_def)
  obtain y where y: "transfer_fee flat_config 200 = Inr y" "0 \<le> y" "y \<le> 200"
    using transfer_fee_bounded [of 200 flat_config] by (auto simp: in_i64_def)
  have i: "in_i64 2000" "in_i64 200" by (simp_all add: in_i64_def)
  have r: "buy_order_reservation flat_config 20 100 0 = Inr (2000 + 500 + x)"
    using flat_commission [OF i(1)] x
    by (simp add: buy_order_reservation_def fee_delta_def in_i64_def bind_result_Inr_iff)
  have d: "fee_delta 0 (0 + 200) (commission flat_config) = Inr 500" "fee_delta 0 (0 + 200) (transfer_fee flat_config) = Inr y"
    using flat_commission [OF i(2)] y by (simp_all add: fee_delta_def in_i64_def)
  have le: "2000 + 500 + x \<le> ac_cash sample_account" using x by (simp add: sample_account_eq)
  have room: "ps_qty (position_or_none 7 sample_account) + 10 \<le> u32_max"
    "in_i64 (ps_invested (position_or_none 7 sample_account) + 200)"
    by (simp_all add: sample_account_eq position_or_none_def in_i64_def)
  from reserved_cash_settles [OF sample_account_reachable flat_config_ok _ r le _ _ _ _ _ d room, of True]
  show ?thesis by (intro exI [of _ "\<lparr>sl_gross = 200, sl_commission = 500, sl_stamp_tax = 0,
      sl_transfer_fee = y, sl_qty = 10\<rparr>"]) simp
qed

end
