(* ===== verification/Civil_Date.thy ===== *)
theory Civil_Date
  imports Decimal_Text "HOL-Library.Signed_Division"
begin

section \<open>Calendar dates (calendar/date.rs)\<close>

text \<open>
  The Gregorian arithmetic of the simulation calendar: validated dates in the window 1900 to 2199,
  their ISO form, day numbers, weekdays, the next and the previous day, and instants within a day.
  Texts are the bytes of the Rust strings. The first half translates the code; the second half
  relates the day number, computed by a closed formula, to stepping from day to day.
\<close>

definition civil_year_min :: int where "civil_year_min = 1900"
definition civil_year_max :: int where "civil_year_max = 2199"
definition seconds_per_day :: nat where "seconds_per_day = 86400"

datatype weekday = Monday | Tuesday | Wednesday | Thursday | Friday | Saturday | Sunday

fun is_weekend :: "weekday \<Rightarrow> bool" where
  "is_weekend d = (d = Saturday \<or> d = Sunday)"

text \<open>The last constructor stands for the panic of \<open>unreachable!\<close>.\<close>

datatype date_error =
    YearOutOfRange int
  | MonthOutOfRange nat
  | DayOutOfRange int nat nat nat
  | DateParseFailed string string
  | TimeComponent nat string
  | DateUnreachable

record civil_date =
  cd_year :: int
  cd_month :: nat
  cd_day :: nat

subsection \<open>Construction and text form\<close>

definition leap_year :: "int \<Rightarrow> bool" where
  "leap_year y \<longleftrightarrow> (y mod 4 = 0 \<and> y mod 100 \<noteq> 0) \<or> y mod 400 = 0"

definition days_in_month :: "int \<Rightarrow> nat \<Rightarrow> nat option" where
  "days_in_month y m =
    (if m \<in> {1, 3, 5, 7, 8, 10, 12} then Some 31
     else if m \<in> {4, 6, 9, 11} then Some 30
     else if m = 2 then Some (if leap_year y then 29 else 28)
     else None)"

definition date_from_ymd :: "int \<Rightarrow> nat \<Rightarrow> nat \<Rightarrow> date_error + civil_date" where
  "date_from_ymd y m d =
    (if \<not> (civil_year_min \<le> y \<and> y \<le> civil_year_max) then Inl (YearOutOfRange y)
     else if \<not> (1 \<le> m \<and> m \<le> 12) then Inl (MonthOutOfRange m)
     else bind_result (ok_or DateUnreachable (days_in_month y m)) (\<lambda>n.
       if d < 1 \<or> d > n then Inl (DayOutOfRange y m d n)
       else Inr \<lparr>cd_year = y, cd_month = m, cd_day = d\<rparr>))"

text \<open>The loop over the bytes: group number, accumulator and finished groups.\<close>

fun iso_groups :: "string \<Rightarrow> nat \<Rightarrow> nat \<Rightarrow> nat list \<Rightarrow> string \<Rightarrow> date_error + nat list" where
  "iso_groups input idx acc groups [] = Inr (groups @ [acc])"
| "iso_groups input idx acc groups (b # bs) =
    (if idx = 4 \<or> idx = 7 then iso_groups input (Suc idx) 0 (groups @ [acc]) bs
     else if \<not> is_ascii_digit b then Inl (DateParseFailed input ''non-digit component'')
     else iso_groups input (Suc idx) (acc * 10 + digit_value b) groups bs)"

definition date_from_iso :: "string \<Rightarrow> date_error + civil_date" where
  "date_from_iso input =
    (if length input \<noteq> 10 \<or> input ! 4 \<noteq> CHR ''-'' \<or> input ! 7 \<noteq> CHR ''-''
     then Inl (DateParseFailed input ''expected strict YYYY-MM-DD shape'')
     else bind_result (iso_groups input 0 0 [] input) (\<lambda>groups.
       if 2 ^ 31 \<le> groups ! 0 then Inl (DateParseFailed input ''year overflow'')
       else if 256 \<le> groups ! 1 then Inl (DateParseFailed input ''month overflow'')
       else if 256 \<le> groups ! 2 then Inl (DateParseFailed input ''day overflow'')
       else date_from_ymd (int (groups ! 0)) (groups ! 1) (groups ! 2)))"

text \<open>The formats \<open>{:02}\<close> and \<open>{:04}\<close> of a non-negative number.\<close>

definition pad_nat :: "nat \<Rightarrow> nat \<Rightarrow> string" where
  "pad_nat w n = replicate (w - length (show_nat n)) (CHR ''0'') @ show_nat n"

definition date_to_iso :: "civil_date \<Rightarrow> string" where
  "date_to_iso d = pad_nat 4 (nat (cd_year d)) @ CHR ''-'' # pad_nat 2 (cd_month d)
     @ CHR ''-'' # pad_nat 2 (cd_day d)"

subsection \<open>Day numbers\<close>

definition days_from_civil :: "int \<Rightarrow> nat \<Rightarrow> nat \<Rightarrow> int" where
  "days_from_civil year month day = (let
     y = year - (if month \<le> 2 then 1 else 0);
     era = (if 0 \<le> y then y else y - 399) sdiv 400;
     yoe = y - era * 400;
     mp = (int month + 9) mod 12;
     doy = (153 * mp + 2) div 5 + int day - 1;
     doe = yoe * 365 + yoe div 4 - yoe div 100 + doy
   in era * 146097 + doe - 719468)"

definition weekdays_by_offset :: "weekday list" where
  "weekdays_by_offset = [Sunday, Monday, Tuesday, Wednesday, Thursday, Friday, Saturday]"

definition cumulative_days :: "nat list" where
  "cumulative_days = [0, 31, 59, 90, 120, 151, 181, 212, 243, 273, 304, 334]"

definition day_number :: "civil_date \<Rightarrow> int" where
  "day_number d = days_from_civil (cd_year d) (cd_month d) (cd_day d)"

definition weekday_of :: "civil_date \<Rightarrow> weekday" where
  "weekday_of d = weekdays_by_offset ! nat ((day_number d + 4) mod 7)"

definition day_of_year :: "civil_date \<Rightarrow> nat" where
  "day_of_year d = cumulative_days ! (cd_month d - 1) + cd_day d
     + (if leap_year (cd_year d) \<and> 2 < cd_month d then 1 else 0)"

definition days_since :: "civil_date \<Rightarrow> civil_date \<Rightarrow> int" where
  "days_since d e = day_number d - day_number e"

definition next_date :: "civil_date \<Rightarrow> date_error + civil_date" where
  "next_date d = bind_result (ok_or DateUnreachable (days_in_month (cd_year d) (cd_month d))) (\<lambda>n.
     if cd_day d < n then Inr (d\<lparr>cd_day := cd_day d + 1\<rparr>)
     else if cd_month d < 12 then date_from_ymd (cd_year d) (cd_month d + 1) 1
     else date_from_ymd (cd_year d + 1) 1 1)"

definition prev_date :: "civil_date \<Rightarrow> date_error + civil_date" where
  "prev_date d =
    (if 1 < cd_day d then Inr (d\<lparr>cd_day := cd_day d - 1\<rparr>)
     else if 1 < cd_month d then
       bind_result (ok_or DateUnreachable (days_in_month (cd_year d) (cd_month d - 1))) (\<lambda>n.
         date_from_ymd (cd_year d) (cd_month d - 1) n)
     else date_from_ymd (cd_year d - 1) 12 31)"

subsection \<open>Instants of a day\<close>

record civil_instant =
  ci_date :: civil_date
  ci_second :: nat

definition new_instant :: "civil_date \<Rightarrow> nat \<Rightarrow> date_error + civil_instant" where
  "new_instant d s =
    (if seconds_per_day \<le> s then Inl (TimeComponent s ''second_of_day < 86400'')
     else Inr \<lparr>ci_date = d, ci_second = s\<rparr>)"

definition instant_from_hms :: "civil_date \<Rightarrow> nat \<Rightarrow> nat \<Rightarrow> nat \<Rightarrow> date_error + civil_instant" where
  "instant_from_hms d h m s =
    (if 24 \<le> h then Inl (TimeComponent h ''hour must be < 24'')
     else if 60 \<le> m then Inl (TimeComponent m ''minute must be < 60'')
     else if 60 \<le> s then Inl (TimeComponent s ''second must be < 60'')
     else new_instant d (h * 3600 + m * 60 + s))"

subsection \<open>Valid dates\<close>

text \<open>The invariant of the type: what the constructors of the private fields guarantee.\<close>

definition date_ok :: "civil_date \<Rightarrow> bool" where
  "date_ok d \<longleftrightarrow> 1900 \<le> cd_year d \<and> cd_year d \<le> 2199 \<and> 1 \<le> cd_month d \<and> cd_month d \<le> 12
     \<and> (\<exists>n. days_in_month (cd_year d) (cd_month d) = Some n \<and> 1 \<le> cd_day d \<and> cd_day d \<le> n)"

lemma month_cases:
  fixes m :: nat
  assumes "1 \<le> m" "m \<le> 12"
  obtains "m = 1" | "m = 2" | "m = 3" | "m = 4" | "m = 5" | "m = 6" | "m = 7" | "m = 8" | "m = 9"
    | "m = 10" | "m = 11" | "m = 12"
proof -
  have "m \<in> set [1..<13]" using assms by simp
  also have "[1..<13] = [1, 2, 3, 4, 5, 6, 7, 8, 9, 10, 11, 12]" by (simp add: upt_rec)
  finally show thesis using that by auto
qed

lemma days_in_month_bounds: "days_in_month y m = Some n \<Longrightarrow> 28 \<le> n \<and> n \<le> 31"
  by (auto simp: days_in_month_def split: if_splits)

lemma days_in_month_total: "1 \<le> m \<Longrightarrow> m \<le> 12 \<Longrightarrow> \<exists>n. days_in_month y m = Some n"
  by (erule (1) month_cases) (auto simp: days_in_month_def)

lemma date_from_ymd_iff:
  "date_from_ymd y m d = Inr r \<longleftrightarrow> r = \<lparr>cd_year = y, cd_month = m, cd_day = d\<rparr> \<and> date_ok r"
proof (cases "1 \<le> m \<and> m \<le> 12")
  case True
  then obtain n where "days_in_month y m = Some n" using days_in_month_total by blast
  with True show ?thesis
    by (auto simp: date_from_ymd_def date_ok_def civil_year_min_def civil_year_max_def)
qed (auto simp: date_from_ymd_def date_ok_def)

subsection \<open>The closed formula counts days\<close>

text \<open>Days before the first of January of a year, and the day number by years and days.\<close>

definition leap_days :: "int \<Rightarrow> int" where
  "leap_days y = y div 4 - y div 100 + y div 400"

definition days_before_year :: "int \<Rightarrow> int" where
  "days_before_year y = 365 * (y - 1) + leap_days (y - 1) - 719162"

lemma era_sum:
  fixes y :: int
  shows "y div 400 * 146097 + ((y mod 400) * 365 + (y mod 400) div 4 - (y mod 400) div 100)
    = 365 * y + leap_days y"
proof -
  define e r where "e = y div 400" and "r = y mod 400"
  have y: "y = r + 400 * e" by (simp add: e_def r_def)
  then have "y = r + 4 * (100 * e)" "y = r + 100 * (4 * e)" by simp_all
  then have "y div 4 = 100 * e + r div 4" "y div 100 = 4 * e + r div 100"
    by (metis div_mult_self2 zero_neq_numeral)+
  then show ?thesis unfolding leap_days_def e_def [symmetric] r_def [symmetric] using y by linarith
qed

lemma days_from_civil_eq:
  assumes "0 < y"
  shows "days_from_civil y m d = (let y' = y - (if m \<le> 2 then 1 else 0) in
    365 * y' + leap_days y' + (153 * ((int m + 9) mod 12) + 2) div 5 + int d - 719469)"
proof -
  define y' where "y' = y - (if m \<le> 2 then 1 else 0 :: int)"
  have y0: "0 \<le> y'" using assms by (simp add: y'_def)
  have q: "y' sdiv 400 = y' div 400" using y0 by (cases "y' = 0") (simp_all add: signed_divide_int_def)
  have "y' = y' div 400 * 400 + y' mod 400" by simp
  then have "y' - y' div 400 * 400 = y' mod 400" by linarith
  then have "days_from_civil y m d = y' div 400 * 146097 + ((y' mod 400) * 365 + (y' mod 400) div 4
      - (y' mod 400) div 100) + (153 * ((int m + 9) mod 12) + 2) div 5 + int d - 719469"
    unfolding days_from_civil_def Let_def y'_def [symmetric] using y0 q by simp
  then show ?thesis unfolding era_sum Let_def y'_def [symmetric] .
qed

lemma leap_arith:
  fixes a b c :: int
  assumes "a = a' + (if P then 1 else 0)" "b = b' + (if Q then 1 else 0)" "c = c' + (if R then 1 else 0)"
    "R \<Longrightarrow> Q" "Q \<Longrightarrow> P"
  shows "a - b + c = a' - b' + c' + (if P \<and> \<not> Q \<or> R then 1 else 0)"
  by (cases P; cases Q; cases R) (use assms in auto)

lemma leap_step: "leap_days y = leap_days (y - 1) + (if leap_year y then 1 else 0)"
proof -
  have s: "y div k = (y - 1) div k + (if y mod k = 0 then 1 else 0)" if "1 < k" for k :: int
  proof (cases "y mod k = 0")
    case True
    then have y: "y = (y div k) * k" using div_mult_mod_eq [of y k] by simp
    define q where "q = y div k"
    note y = y [folded q_def]
    have "q * k - 1 = k * (q - 1) + (k - 1)" by (simp add: algebra_simps)
    then have "(q * k - 1) div k = q - 1" by (rule int_div_pos_eq) (use that in simp_all)
    then show ?thesis using that by (simp add: y)
  next
    case False
    have "0 \<le> y mod k" "y mod k < k" using that by simp_all
    moreover have "y - 1 = k * (y div k) + (y mod k - 1)" using mult_div_mod_eq [of k y] by linarith
    moreover have "0 \<le> y mod k - 1" "y mod k - 1 < k" using False calculation by linarith+
    ultimately have "(y - 1) div k = y div k" by (intro int_div_pos_eq)
    then show ?thesis using False by simp
  qed
  have d: "y mod 400 = 0 \<Longrightarrow> y mod 100 = 0" "y mod 100 = 0 \<Longrightarrow> y mod 4 = 0" 
    by (simp_all add: mod_eq_0_iff_dvd) (auto elim: dvd_trans [rotated])
  have s4: "y div 4 = (y - 1) div 4 + (if y mod 4 = 0 then 1 else 0)"
    and s100: "y div 100 = (y - 1) div 100 + (if y mod 100 = 0 then 1 else 0)"
    and s400: "y div 400 = (y - 1) div 400 + (if y mod 400 = 0 then 1 else 0)"
    by (rule s, simp)+
  show ?thesis unfolding leap_days_def leap_year_def by (rule leap_arith [OF s4 s100 s400 d])
qed

lemma day_number_split:
  assumes "date_ok d"
  shows "day_number d = days_before_year (cd_year d) + int (day_of_year d) - 1"
proof -
  have m: "1 \<le> cd_month d" "cd_month d \<le> 12" and y: "0 < cd_year d" using assms by (auto simp: date_ok_def)
  have e: "day_number d = (let z = cd_year d - (if cd_month d \<le> 2 then 1 else 0) in
      365 * z + leap_days z + (153 * ((int (cd_month d) + 9) mod 12) + 2) div 5 + int (cd_day d) - 719469)"
    unfolding day_number_def days_from_civil_eq [OF y] by (simp add: Let_def)
  show ?thesis using m unfolding e days_before_year_def day_of_year_def
    by (rule month_cases) (simp_all add: cumulative_days_def Let_def leap_step [of "cd_year d"])
qed

subsection \<open>Order and successors\<close>

text \<open>The derived order of the source: by year, then month, then day.\<close>

definition date_before :: "civil_date \<Rightarrow> civil_date \<Rightarrow> bool" where
  "date_before d e \<longleftrightarrow> cd_year d < cd_year e \<or> (cd_year d = cd_year e
     \<and> (cd_month d < cd_month e \<or> (cd_month d = cd_month e \<and> cd_day d < cd_day e)))"

definition year_length :: "int \<Rightarrow> nat" where
  "year_length y = (if leap_year y then 366 else 365)"

definition month_start :: "int \<Rightarrow> nat \<Rightarrow> nat" where
  "month_start y m = cumulative_days ! (m - 1) + (if leap_year y \<and> 2 < m then 1 else 0)"

lemma day_of_year_month_start: "day_of_year d = month_start (cd_year d) (cd_month d) + cd_day d"
  by (simp add: day_of_year_def month_start_def)

lemma month_start_Suc:
  assumes "1 \<le> m" "m < 12" "days_in_month y m = Some n"
  shows "month_start y (Suc m) = month_start y m + n"
proof -
  have "m \<le> 12" using assms by simp
  with assms(1) show ?thesis
    by (rule month_cases) (use assms in \<open>auto simp: month_start_def cumulative_days_def days_in_month_def\<close>)
qed

lemma month_start_12: "month_start y 12 + 31 = year_length y"
  by (simp add: month_start_def cumulative_days_def year_length_def)

lemma month_start_mono:
  assumes "1 \<le> m" "m < k" "k \<le> 12" "days_in_month y m = Some n"
  shows "month_start y m + n \<le> month_start y k"
  using assms(2,3)
proof (induction k)
  case (Suc k)
  show ?case
  proof (cases "m = k")
    case True
    then show ?thesis using Suc.prems assms month_start_Suc by simp
  next
    case False
    then have "month_start y m + n \<le> month_start y k" using Suc by simp
    moreover obtain n' where "days_in_month y k = Some n'"
      using days_in_month_total [of k y] Suc.prems assms(1) by auto
    then have "month_start y k \<le> month_start y (Suc k)"
      using month_start_Suc [of k y n'] Suc.prems assms(1) by simp
    ultimately show ?thesis by simp
  qed
qed simp

lemma day_of_year_bounds:
  assumes "date_ok d"
  shows "1 \<le> day_of_year d \<and> day_of_year d \<le> year_length (cd_year d)"
proof -
  obtain n where n: "days_in_month (cd_year d) (cd_month d) = Some n" "1 \<le> cd_day d" "cd_day d \<le> n"
    "1 \<le> cd_month d" "cd_month d \<le> 12" using assms by (auto simp: date_ok_def)
  have "month_start (cd_year d) (cd_month d) + n \<le> year_length (cd_year d)"
  proof (cases "cd_month d = 12")
    case True
    then show ?thesis using n month_start_12 [of "cd_year d"] by (simp add: days_in_month_def)
  next
    case False
    then show ?thesis using n month_start_mono [of "cd_month d" 12 "cd_year d" n]
        month_start_12 [of "cd_year d"] by simp
  qed
  with n show ?thesis by (simp add: day_of_year_month_start)
qed

lemma days_before_next_year: "days_before_year (y + 1) = days_before_year y + int (year_length y)"
  using leap_step [of y] by (simp add: days_before_year_def year_length_def)

lemma days_before_year_mono:
  assumes "y < z"
  shows "days_before_year y + int (year_length y) \<le> days_before_year z"
proof -
  have "days_before_year (y + 1) \<le> days_before_year (y + 1 + int k)" for k
  proof (induction k)
    case (Suc k)
    then show ?case using days_before_next_year [of "y + 1 + int k"] by (simp add: add.assoc)
  qed simp
  from this [of "nat (z - y - 1)"] assms show ?thesis by (simp add: days_before_next_year)
qed

lemma day_number_mono:
  assumes "date_ok d" "date_ok e" "date_before d e"
  shows "day_number d < day_number e"
proof (cases "cd_year d < cd_year e")
  case True
  show ?thesis unfolding day_number_split [OF assms(1)] day_number_split [OF assms(2)]
    using days_before_year_mono [OF True] day_of_year_bounds [OF assms(1)] day_of_year_bounds [OF assms(2)]
    by linarith
next
  case False
  then have y: "cd_year d = cd_year e" using assms(3) by (auto simp: date_before_def)
  have "day_of_year d < day_of_year e"
  proof (cases "cd_month d = cd_month e")
    case True
    then show ?thesis using y assms(3) by (auto simp: date_before_def day_of_year_month_start)
  next
    case False
    then have "cd_month d < cd_month e" using y assms(3) by (auto simp: date_before_def)
    moreover obtain n where "days_in_month (cd_year d) (cd_month d) = Some n" "cd_day d \<le> n" "1 \<le> cd_month d"
      "1 \<le> cd_day e" "cd_month e \<le> 12" using assms(1,2) by (auto simp: date_ok_def)
    ultimately show ?thesis
      using month_start_mono [of "cd_month d" "cd_month e" "cd_year d" n] y
      by (simp add: day_of_year_month_start)
  qed
  then show ?thesis unfolding day_number_split [OF assms(1)] day_number_split [OF assms(2)] by (simp add: y)
qed

lemma date_before_total: "d = e \<or> date_before d e \<or> date_before e d" for d e :: civil_date
  by (cases d; cases e) (auto simp: date_before_def)

text \<open>
  Among valid dates the number of days between two dates
  is negative exactly when the first comes before the second, and zero only for equal dates; the
  day of the year runs from one to the length of the year and is the distance to the first of
  January plus one. Day zero is the first of January 1970, a Thursday.
\<close>

theorem day_numbers_ordered:
  assumes "date_ok d" "date_ok e"
  shows "(days_since d e < 0 \<longleftrightarrow> date_before d e) \<and> (days_since d e = 0 \<longleftrightarrow> d = e)
    \<and> day_of_year d \<le> (if leap_year (cd_year d) then 366 else 365)
    \<and> int (day_of_year d) = days_since d \<lparr>cd_year = cd_year d, cd_month = 1, cd_day = 1\<rparr> + 1
    \<and> day_number \<lparr>cd_year = 1970, cd_month = 1, cd_day = 1\<rparr> = 0
    \<and> weekday_of \<lparr>cd_year = 1970, cd_month = 1, cd_day = 1\<rparr> = Thursday"
proof -
  have o1: "(days_since d e < 0 \<longleftrightarrow> date_before d e) \<and> (days_since d e = 0 \<longleftrightarrow> d = e)"
    using date_before_total [of d e] day_number_mono [OF assms] day_number_mono [OF assms(2,1)]
    by (fastforce simp: days_since_def)
  let ?j = "\<lparr>cd_year = cd_year d, cd_month = 1, cd_day = 1\<rparr>"
  have j: "date_ok ?j" using assms(1) by (auto simp: date_ok_def days_in_month_def)
  have "day_of_year ?j = 1" by (simp add: day_of_year_def cumulative_days_def)
  then have "int (day_of_year d) = days_since d ?j + 1"
    unfolding days_since_def day_number_split [OF assms(1)] day_number_split [OF j] by simp
  moreover have z: "day_number \<lparr>cd_year = 1970, cd_month = 1, cd_day = 1\<rparr> = 0"
    by (simp add: day_number_def days_from_civil_def signed_divide_int_def)
  ultimately show ?thesis using o1 day_of_year_bounds [OF assms(1)]
    by (simp add: year_length_def weekday_of_def weekdays_by_offset_def)
qed

lemma day_numbers_ordered_witness:
  "days_since \<lparr>cd_year = 2024, cd_month = 2, cd_day = 29\<rparr> \<lparr>cd_year = 2024, cd_month = 3, cd_day = 1\<rparr> < 0"
  using day_numbers_ordered [of "\<lparr>cd_year = 2024, cd_month = 2, cd_day = 29\<rparr>" "\<lparr>cd_year = 2024, cd_month = 3, cd_day = 1\<rparr>"]
  by (simp add: date_ok_def days_in_month_def leap_year_def date_before_def)

subsection \<open>Stepping from day to day\<close>

definition first_date :: civil_date where
  "first_date = \<lparr>cd_year = 1900, cd_month = 1, cd_day = 1\<rparr>"

definition last_date :: civil_date where
  "last_date = \<lparr>cd_year = 2199, cd_month = 12, cd_day = 31\<rparr>"

lemma date_ok_intro:
  "date_ok \<lparr>cd_year = y, cd_month = m, cd_day = d\<rparr> \<longleftrightarrow> 1900 \<le> y \<and> y \<le> 2199 \<and> 1 \<le> m \<and> m \<le> 12
     \<and> (\<exists>n. days_in_month y m = Some n \<and> 1 \<le> d \<and> d \<le> n)"
  by (simp add: date_ok_def)

lemma next_date_cases:
  assumes "date_ok d"
  shows "(next_date d = Inl (YearOutOfRange 2200) \<and> d = last_date)
    \<or> (\<exists>d'. next_date d = Inr d' \<and> date_ok d' \<and> day_number d' = day_number d + 1)"
proof -
  obtain y m k where d: "d = \<lparr>cd_year = y, cd_month = m, cd_day = k\<rparr>" by (cases d)
  obtain n where n: "1900 \<le> y" "y \<le> 2199" "1 \<le> m" "m \<le> 12" "days_in_month y m = Some n" "1 \<le> k" "k \<le> n"
    using assms by (auto simp: d date_ok_intro)
  have number: "day_number d = days_before_year y + int (month_start y m + k) - 1"
    unfolding day_number_split [OF assms] by (simp add: d day_of_year_month_start)
  consider (day) "k < n" | (month) "k = n" "m < 12" | (year) "k = n" "m = 12" using n by linarith
  then show ?thesis
  proof cases
    case day
    let ?e = "\<lparr>cd_year = y, cd_month = m, cd_day = Suc k\<rparr>"
    have ok: "date_ok ?e" using n day by (simp add: date_ok_intro)
    have "next_date d = Inr ?e" using n day by (simp add: next_date_def d)
    moreover have "day_number ?e = day_number d + 1" unfolding number day_number_split [OF ok]
      by (simp add: day_of_year_month_start)
    ultimately show ?thesis using ok by blast
  next
    case month
    let ?e = "\<lparr>cd_year = y, cd_month = Suc m, cd_day = 1\<rparr>"
    obtain n' where "days_in_month y (Suc m) = Some n'" "28 \<le> n'"
      using days_in_month_total [of "Suc m" y] month days_in_month_bounds by auto
    then have ok: "date_ok ?e" using n month by (simp add: date_ok_intro)
    then have "date_from_ymd y (Suc m) 1 = Inr ?e" by (simp add: date_from_ymd_iff)
    then have "next_date d = Inr ?e" using n month by (simp add: next_date_def d)
    moreover have "day_number ?e = day_number d + 1" unfolding number day_number_split [OF ok]
      using month_start_Suc [OF n(3) month(2) n(5)] month by (simp add: day_of_year_month_start)
    ultimately show ?thesis using ok by blast
  next
    case year
    have k: "n = 31" using n(5) year by (simp add: days_in_month_def)
    show ?thesis
    proof (cases "y = 2199")
      case True
      then show ?thesis using n year k
        by (simp add: next_date_def d last_date_def date_from_ymd_def civil_year_min_def civil_year_max_def)
    next
      case False
      let ?e = "\<lparr>cd_year = y + 1, cd_month = 1, cd_day = 1\<rparr>"
      have ok: "date_ok ?e" using n False by (simp add: date_ok_intro days_in_month_def)
      then have "date_from_ymd (y + 1) 1 1 = Inr ?e" by (simp only: date_from_ymd_iff)
      then have "next_date d = Inr ?e" using n year by (simp add: next_date_def d)
      moreover have "month_start (y + 1) 1 = 0" by (simp add: month_start_def cumulative_days_def)
      then have "day_number ?e = day_number d + 1" unfolding number day_number_split [OF ok]
        using days_before_next_year [of y] month_start_12 [of y] year k by (simp add: day_of_year_month_start)
      ultimately show ?thesis using ok by blast
    qed
  qed
qed

lemma prev_date_cases:
  assumes "date_ok d"
  shows "(prev_date d = Inl (YearOutOfRange 1899) \<and> d = first_date)
    \<or> (\<exists>d'. prev_date d = Inr d' \<and> date_ok d' \<and> day_number d' + 1 = day_number d)"
proof -
  obtain y m k where d: "d = \<lparr>cd_year = y, cd_month = m, cd_day = k\<rparr>" by (cases d)
  obtain n where n: "1900 \<le> y" "y \<le> 2199" "1 \<le> m" "m \<le> 12" "days_in_month y m = Some n" "1 \<le> k" "k \<le> n"
    using assms by (auto simp: d date_ok_intro)
  have number: "day_number d = days_before_year y + int (month_start y m + k) - 1"
    unfolding day_number_split [OF assms] by (simp add: d day_of_year_month_start)
  consider (day) "1 < k" | (month) "k = 1" "1 < m" | (year) "k = 1" "m = 1" using n by linarith
  then show ?thesis
  proof cases
    case day
    let ?e = "\<lparr>cd_year = y, cd_month = m, cd_day = k - 1\<rparr>"
    have ok: "date_ok ?e" using n day by (auto simp: date_ok_intro)
    have "prev_date d = Inr ?e" using day by (simp add: prev_date_def d)
    moreover have "day_number ?e + 1 = day_number d" unfolding number day_number_split [OF ok]
      using day by (simp add: day_of_year_month_start)
    ultimately show ?thesis using ok by blast
  next
    case month
    obtain n' where n': "days_in_month y (m - 1) = Some n'" "28 \<le> n'"
      using days_in_month_total [of "m - 1" y] month n(4) days_in_month_bounds by fastforce
    let ?e = "\<lparr>cd_year = y, cd_month = m - 1, cd_day = n'\<rparr>"
    have ok: "date_ok ?e" using n month n' by (auto simp: date_ok_intro)
    then have "date_from_ymd y (m - 1) n' = Inr ?e" by (simp add: date_from_ymd_iff)
    then have "prev_date d = Inr ?e" using n' month by (simp add: prev_date_def d)
    moreover have "day_number ?e + 1 = day_number d" unfolding number day_number_split [OF ok]
      using month_start_Suc [of "m - 1" y n'] month n n' by (simp add: day_of_year_month_start)
    ultimately show ?thesis using ok by blast
  next
    case year
    show ?thesis
    proof (cases "y = 1900")
      case True
      then show ?thesis using year
        by (simp add: prev_date_def d first_date_def date_from_ymd_def civil_year_min_def civil_year_max_def)
    next
      case False
      let ?e = "\<lparr>cd_year = y - 1, cd_month = 12, cd_day = 31\<rparr>"
      have ok: "date_ok ?e" using n False by (simp add: date_ok_intro days_in_month_def)
      then have "date_from_ymd (y - 1) 12 31 = Inr ?e" by (simp only: date_from_ymd_iff)
      then have "prev_date d = Inr ?e" using year by (simp add: prev_date_def d)
      moreover have "month_start y 1 = 0" by (simp add: month_start_def cumulative_days_def)
      then have "day_number ?e + 1 = day_number d" unfolding number day_number_split [OF ok]
        using days_before_next_year [of "y - 1"] month_start_12 [of "y - 1"] year
        by (simp add: day_of_year_month_start)
      ultimately show ?thesis using ok by blast
    qed
  qed
qed

lemma day_number_inj: "date_ok d \<Longrightarrow> date_ok e \<Longrightarrow> day_number d = day_number e \<Longrightarrow> d = e"
  using date_before_total [of d e] day_number_mono [of d e] day_number_mono [of e d] by auto

fun next_weekday :: "weekday \<Rightarrow> weekday" where
  "next_weekday Monday = Tuesday"
| "next_weekday Tuesday = Wednesday"
| "next_weekday Wednesday = Thursday"
| "next_weekday Thursday = Friday"
| "next_weekday Friday = Saturday"
| "next_weekday Saturday = Sunday"
| "next_weekday Sunday = Monday"

lemma weekday_next:
  assumes "day_number e = day_number d + 1"
  shows "weekday_of e = next_weekday (weekday_of d)"
proof -
  define r where "r = (day_number d + 4) mod 7"
  have r: "0 \<le> r" "r < 7" by (simp_all add: r_def)
  have e: "(day_number e + 4) mod 7 = (r + 1) mod 7" by (simp add: r_def assms mod_add_left_eq algebra_simps) presburger
  have "r \<in> {0, 1, 2, 3, 4, 5, 6}" using r by auto
  then show ?thesis unfolding weekday_of_def e r_def [symmetric]
    by (elim insertE emptyE) (simp_all add: weekdays_by_offset_def)
qed

lemma limits_ok: "date_ok first_date" "date_ok last_date"
  by (simp_all add: first_date_def last_date_def date_ok_intro days_in_month_def)


lemma limits_bound:
  assumes "date_ok d"
  shows "day_number first_date \<le> day_number d \<and> day_number d \<le> day_number last_date"
proof -
  obtain n where "1900 \<le> cd_year d" "cd_year d \<le> 2199" "1 \<le> cd_month d" "cd_month d \<le> 12"
    "days_in_month (cd_year d) (cd_month d) = Some n" "1 \<le> cd_day d" "cd_day d \<le> n"
    using assms by (auto simp: date_ok_def)
  then have "\<not> date_before d first_date" "\<not> date_before last_date d"
    by (auto simp: date_before_def first_date_def last_date_def days_in_month_def split: if_splits)
  with date_before_total [of d first_date] date_before_total [of d last_date]
    day_number_mono [OF limits_ok(1) assms] day_number_mono [OF assms limits_ok(2)]
  show ?thesis by auto
qed

text \<open>
  From every valid date \<open>next\<close> leads to the valid date one day
  and one weekday later and \<open>prev\<close> to the one a day earlier, each undoes the other, and they fail
  only at the ends of the window, with the year that would be left.
\<close>

theorem next_and_prev_step:
  assumes "date_ok d"
  shows "(case next_date d of
      Inl e \<Rightarrow> e = YearOutOfRange 2200 \<and> d = last_date
    | Inr d' \<Rightarrow> date_ok d' \<and> days_since d' d = 1 \<and> weekday_of d' = next_weekday (weekday_of d)
        \<and> prev_date d' = Inr d)
    \<and> (case prev_date d of
      Inl e \<Rightarrow> e = YearOutOfRange 1899 \<and> d = first_date
    | Inr d' \<Rightarrow> date_ok d' \<and> days_since d d' = 1 \<and> next_date d' = Inr d)"
proof (intro conjI)
  show "case next_date d of
      Inl e \<Rightarrow> e = YearOutOfRange 2200 \<and> d = last_date
    | Inr d' \<Rightarrow> date_ok d' \<and> days_since d' d = 1 \<and> weekday_of d' = next_weekday (weekday_of d)
        \<and> prev_date d' = Inr d"
    using next_date_cases [OF assms]
  proof (elim disjE exE conjE)
    fix d' assume n: "next_date d = Inr d'" "date_ok d'" "day_number d' = day_number d + 1"
    have "d' \<noteq> first_date" using limits_bound [OF assms] n(3) by auto
    with prev_date_cases [OF n(2)] obtain d2 where "prev_date d' = Inr d2" "date_ok d2"
      "day_number d2 = day_number d" using n(3) by auto
    with day_number_inj [OF _ assms] n show ?thesis by (auto simp: days_since_def weekday_next)
  qed simp
  show "case prev_date d of
      Inl e \<Rightarrow> e = YearOutOfRange 1899 \<and> d = first_date
    | Inr d' \<Rightarrow> date_ok d' \<and> days_since d d' = 1 \<and> next_date d' = Inr d"
    using prev_date_cases [OF assms]
  proof (elim disjE exE conjE)
    fix d' assume n: "prev_date d = Inr d'" "date_ok d'" "day_number d' + 1 = day_number d"
    have "d' \<noteq> last_date" using limits_bound [OF assms] n(3) by auto
    with next_date_cases [OF n(2)] obtain d2 where "next_date d' = Inr d2" "date_ok d2"
      "day_number d2 = day_number d" using n(3) by auto
    with day_number_inj [OF _ assms] n show ?thesis by (auto simp: days_since_def)
  qed simp
qed

lemma next_and_prev_step_witness:
  "prev_date \<lparr>cd_year = 2100, cd_month = 3, cd_day = 1\<rparr> = Inr \<lparr>cd_year = 2100, cd_month = 2, cd_day = 28\<rparr>"
proof -
  have "next_date \<lparr>cd_year = 2100, cd_month = 2, cd_day = 28\<rparr> = Inr \<lparr>cd_year = 2100, cd_month = 3, cd_day = 1\<rparr>"
    by (simp add: next_date_def days_in_month_def leap_year_def date_from_ymd_def civil_year_min_def
        civil_year_max_def)
  with next_and_prev_step [of "\<lparr>cd_year = 2100, cd_month = 2, cd_day = 28\<rparr>"] show ?thesis
    by (simp add: date_ok_def days_in_month_def leap_year_def)
qed

subsection \<open>The ISO form\<close>

lemma digits_value_inj:
  assumes "list_all is_ascii_digit s" "list_all is_ascii_digit t" "length s = length t"
    "digits_value s = digits_value t"
  shows "s = t"
  using assms
proof (induction s arbitrary: t rule: rev_induct)
  case (snoc c s)
  then obtain u e where t: "t = u @ [e]" by (cases t rule: rev_cases) auto
  have v: "digits_value s * 10 + digit_value c = digits_value u * 10 + digit_value e"
    and c: "is_ascii_digit c" "is_ascii_digit e" using snoc.prems by (simp_all add: t)
  then have vs: "digits_value s = digits_value u"
    using digit_value_less [OF c(1)] digit_value_less [OF c(2)] by linarith
  then have "digit_value c = digit_value e" using v by simp
  then have "c = e" using digit_char_digit_value [OF c(1)] digit_char_digit_value [OF c(2)] by metis
  moreover have "s = u" using snoc.prems vs by (intro snoc.IH) (simp_all add: t)
  ultimately show ?case by (simp add: t)
qed simp

lemma digit_zero: "is_ascii_digit (CHR ''0'')" "digit_value (CHR ''0'') = 0"
  by (simp_all add: is_ascii_digit_def digit_value_def)

lemma digits_value_replicate_zero: "digits_value (replicate k (CHR ''0'') @ s) = digits_value s"
proof -
  have "digits_value (replicate k (CHR ''0'')) = 0"
    by (induction k) (simp_all add: digits_value_def digit_zero)
  then show ?thesis by (simp add: digits_value_append)
qed

lemma pad_nat_digits: "list_all is_ascii_digit (pad_nat w n)" "digits_value (pad_nat w n) = n"
proof -
  show "list_all is_ascii_digit (pad_nat w n)"
    using all_digits_show_nat [of n] by (auto simp: pad_nat_def all_digits_def list_all_iff digit_zero)
  show "digits_value (pad_nat w n) = n" by (simp add: pad_nat_def digits_value_replicate_zero)
qed

lemma length_show_nat:
  assumes "n < 10 ^ w" "0 < w"
  shows "length (show_nat n) \<le> w"
proof (cases "n = 0")
  case True
  then show ?thesis using assms by (simp add: show_nat_small)
next
  case False
  have "10 ^ (length (show_nat n) - 1) \<le> digits_value (show_nat n)"
    using hd_show_nat_zero [of n] False by (intro digits_value_lower) auto
  then have "(10::nat) ^ (length (show_nat n) - 1) < 10 ^ w" using assms(1) by (simp only: digits_value_show_nat)
  then have "length (show_nat n) - 1 < w" by (rule power_less_imp_less_exp [rotated]) simp
  then show ?thesis by simp
qed

lemma length_pad_nat: "n < 10 ^ w \<Longrightarrow> 0 < w \<Longrightarrow> length (pad_nat w n) = w"
  using length_show_nat [of n w] by (simp add: pad_nat_def)

lemma pad_nat_value:
  assumes "list_all is_ascii_digit s" "length s = w" "0 < w"
  shows "pad_nat w (digits_value s) = s"
proof -
  have "digits_value s < 10 ^ w" using digits_value_bound assms by blast
  then show ?thesis using assms length_pad_nat pad_nat_digits by (intro digits_value_inj) simp_all
qed

lemma iso_groups_digits:
  assumes "list_all is_ascii_digit s" "\<forall>k<length s. idx + k \<noteq> 4 \<and> idx + k \<noteq> 7"
  shows "iso_groups input idx acc gs (s @ bs)
    = iso_groups input (idx + length s) (acc * 10 ^ length s + digits_value s) gs bs"
  using assms
proof (induction s arbitrary: idx acc)
  case (Cons c s)
  have i: "idx \<noteq> 4" "idx \<noteq> 7" using Cons.prems(2) by (force dest: spec [of _ 0])+
  have "\<forall>k<length s. Suc idx + k \<noteq> 4 \<and> Suc idx + k \<noteq> 7"
  proof (intro allI impI)
    fix k assume "k < length s"
    with Cons.prems(2) [rule_format, of "Suc k"] show "Suc idx + k \<noteq> 4 \<and> Suc idx + k \<noteq> 7" by simp
  qed
  moreover have "digits_value (c # s) = digit_value c * 10 ^ length s + digits_value s"
    using digits_value_append [of "[c]" s] by (simp add: digits_value_def)
  ultimately show ?case using Cons i by (simp add: algebra_simps)
qed simp

lemma iso_groups_accepts:
  assumes "iso_groups input idx acc gs (s @ bs) = Inr r" "\<forall>k<length s. idx + k \<noteq> 4 \<and> idx + k \<noteq> 7"
  shows "list_all is_ascii_digit s"
  using assms
proof (induction s arbitrary: idx acc)
  case (Cons c s)
  have i: "idx \<noteq> 4" "idx \<noteq> 7" using Cons.prems(2) by (force dest: spec [of _ 0])+
  have "\<forall>k<length s. Suc idx + k \<noteq> 4 \<and> Suc idx + k \<noteq> 7"
  proof (intro allI impI)
    fix k assume "k < length s"
    with Cons.prems(2) [rule_format, of "Suc k"] show "Suc idx + k \<noteq> 4 \<and> Suc idx + k \<noteq> 7" by simp
  qed
  with Cons i show ?case by (auto split: if_splits)
qed simp

text \<open>The shape test and the loop read exactly three groups of digits between hyphens.\<close>

lemma date_from_iso_groups:
  assumes "length a = 4" "length b = 2" "length c = 2"
    "list_all is_ascii_digit a" "list_all is_ascii_digit b" "list_all is_ascii_digit c"
  shows "date_from_iso (a @ CHR ''-'' # b @ CHR ''-'' # c)
    = date_from_ymd (int (digits_value a)) (digits_value b) (digits_value c)"
proof -
  let ?s = "a @ CHR ''-'' # b @ CHR ''-'' # c"
  have g: "iso_groups input 0 0 [] ?s = Inr [digits_value a, digits_value b, digits_value c]" for input
  proof -
    have "iso_groups input 0 0 [] ?s = iso_groups input 5 0 [digits_value a] (b @ CHR ''-'' # c)"
      using assms by (subst iso_groups_digits) auto
    also have "\<dots> = iso_groups input 8 0 [digits_value a, digits_value b] (c @ [])"
      using assms by (subst iso_groups_digits) auto
    also have "\<dots> = Inr [digits_value a, digits_value b, digits_value c]"
      using assms by (subst iso_groups_digits) auto
    finally show ?thesis .
  qed
  have "digits_value a < 10 ^ 4" "digits_value b < 10 ^ 2" "digits_value c < 10 ^ 2"
    using digits_value_bound [OF assms(4)] digits_value_bound [OF assms(5)] digits_value_bound [OF assms(6)] assms(1-3)
    by simp_all
  moreover have "length ?s = 10" "?s ! 4 = CHR ''-''" "?s ! 7 = CHR ''-''" using assms by (simp_all add: nth_append)
  ultimately show ?thesis unfolding date_from_iso_def by (simp add: g)
qed

lemma date_from_iso_shape:
  assumes "date_from_iso s = Inr d"
  obtains a b c where "s = a @ CHR ''-'' # b @ CHR ''-'' # c" "length a = 4" "length b = 2" "length c = 2"
    "list_all is_ascii_digit a" "list_all is_ascii_digit b" "list_all is_ascii_digit c"
proof -
  from assms have l: "length s = 10" "s ! 4 = CHR ''-''" "s ! 7 = CHR ''-''"
    and "\<exists>g. iso_groups s 0 0 [] s = Inr g"
    by (auto simp: date_from_iso_def bind_result_Inr_iff split: if_splits)
  then obtain g where g: "iso_groups s 0 0 [] s = Inr g" by blast
  define a b c where "a = take 4 s" and "b = take 2 (drop 5 s)" and "c = drop 8 s"
  have len: "length a = 4" "length b = 2" "length c = 2" using l by (simp_all add: a_def b_def c_def)
  have "s = a @ drop 4 s" by (simp add: a_def)
  also have "drop 4 s = CHR ''-'' # drop 5 s" using l Cons_nth_drop_Suc [of 4 s] by simp
  also have "drop 5 s = b @ drop 7 s"
    using append_take_drop_id [of 2 "drop 5 s"] by (simp add: b_def)
  also have "drop 7 s = CHR ''-'' # c" using l Cons_nth_drop_Suc [of 7 s] by (simp add: c_def)
  finally have s: "s = a @ CHR ''-'' # b @ CHR ''-'' # c" .
  have "iso_groups s 0 0 [] (a @ CHR ''-'' # b @ CHR ''-'' # c) = Inr g" using g s by simp
  then have da: "list_all is_ascii_digit a" by (rule iso_groups_accepts) (use len in auto)
  have "iso_groups s 0 0 [] (a @ CHR ''-'' # b @ CHR ''-'' # c)
      = iso_groups s 5 0 [digits_value a] (b @ CHR ''-'' # c)"
    using da len by (subst iso_groups_digits) auto
  with g s have g2: "iso_groups s 5 0 [digits_value a] (b @ CHR ''-'' # c) = Inr g" by simp
  then have db: "list_all is_ascii_digit b" by (rule iso_groups_accepts) (use len in auto)
  have "iso_groups s 5 0 [digits_value a] (b @ CHR ''-'' # c)
      = iso_groups s 8 0 [digits_value a, digits_value b] (c @ [])"
    using db len by (subst iso_groups_digits) auto
  with g2 have "iso_groups s 8 0 [digits_value a, digits_value b] (c @ []) = Inr g" by simp
  then have dc: "list_all is_ascii_digit c" by (rule iso_groups_accepts) auto
  show thesis by (rule that [OF s len da db dc])
qed

text \<open>
  The strict ISO parser accepts a text exactly when it is the printed form of a
  valid date, and then yields that date: printing and parsing are inverse bijections between the
  valid dates and the accepted texts.
\<close>

theorem date_text_bijection:
  "(date_from_iso s = Inr d) = (date_ok d \<and> s = date_to_iso d)"
proof (intro iffI conjI)
  assume p: "date_from_iso s = Inr d"
  then obtain a b c where s: "s = a @ CHR ''-'' # b @ CHR ''-'' # c" "length a = 4" "length b = 2" "length c = 2"
    "list_all is_ascii_digit a" "list_all is_ascii_digit b" "list_all is_ascii_digit c"
    by (rule date_from_iso_shape)
  with p date_from_iso_groups [OF s(2-7)]
  have d: "d = \<lparr>cd_year = int (digits_value a), cd_month = digits_value b, cd_day = digits_value c\<rparr>" "date_ok d"
    using date_from_ymd_iff by auto
  show "date_ok d" by (rule d(2))
  show "s = date_to_iso d"
    using pad_nat_value [OF s(5,2)] pad_nat_value [OF s(6,3)] pad_nat_value [OF s(7,4)]
    by (simp add: date_to_iso_def d(1)) (rule s(1))
next
  assume p: "date_ok d \<and> s = date_to_iso d"
  have ok: "date_ok d" and s: "s = date_to_iso d" using p by simp_all
  obtain n where n: "1900 \<le> cd_year d" "cd_year d \<le> 2199" "cd_month d \<le> 12" "cd_day d \<le> n" "n \<le> 31"
    using ok days_in_month_bounds by (fastforce simp: date_ok_def)
  have l: "length (pad_nat 4 (nat (cd_year d))) = 4" "length (pad_nat 2 (cd_month d)) = 2"
    "length (pad_nat 2 (cd_day d)) = 2" using n by (simp_all add: length_pad_nat)
  show "date_from_iso s = Inr d"
    unfolding s date_to_iso_def date_from_iso_groups [OF l pad_nat_digits(1) pad_nat_digits(1) pad_nat_digits(1)]
    using ok n by (simp add: pad_nat_digits date_from_ymd_iff)
qed

text \<open>
  Hours, minutes and seconds are accepted exactly in their ranges, and
  different times of a day give different instants, in the order of the clock.
\<close>

lemma instants_follow_the_clock:
  "is_ok (instant_from_hms d h m s) = (h < 24 \<and> m < 60 \<and> s < 60)
    \<and> (instant_from_hms d h m s = Inr i \<longrightarrow> ci_date i = d \<and> ci_second i < 86400
        \<and> h = ci_second i div 3600 \<and> m = ci_second i div 60 mod 60 \<and> s = ci_second i mod 60)"
proof -
  have b: "h * 3600 + m * 60 + s < 86400" if "h < 24" "m < 60" "s < 60" using that by linarith
  have "h = (h * 3600 + m * 60 + s) div 3600 \<and> m = (h * 3600 + m * 60 + s) div 60 mod 60
      \<and> s = (h * 3600 + m * 60 + s) mod 60" if "m < 60" "s < 60"
  proof -
    have "h * 3600 + m * 60 + s = 3600 * h + (m * 60 + s)" "m * 60 + s < 3600" using that by simp_all
    then have "(h * 3600 + m * 60 + s) div 3600 = h" by (metis div_less div_mult_self4 add.right_neutral zero_neq_numeral)
    moreover have f: "h * 3600 + m * 60 + s = 60 * (h * 60 + m) + s" by simp
    then have "(h * 3600 + m * 60 + s) div 60 = h * 60 + m"
      using that by (metis div_less div_mult_self4 add.right_neutral zero_neq_numeral)
    moreover have "(h * 3600 + m * 60 + s) mod 60 = s" unfolding f mod_mult_self4 using that by simp
    ultimately show ?thesis using that by simp
  qed
  with b show ?thesis
    by (auto simp: instant_from_hms_def new_instant_def seconds_per_day_def split: if_splits)
qed

end
