(* ===== verification/Unicode_Text.thy ===== *)
theory Unicode_Text
  imports Decimal_Text
begin

section \<open>Rust strings as code points\<close>

text \<open>
  Texts that can hold any character are lists of code points. Trimming follows
  \<open>char::is_whitespace\<close>; the UTF-8 encoding gives the bytes that digests are computed from.
\<close>

type_synonym ustring = "nat list"

definition ustr :: "string \<Rightarrow> ustring" where
  "ustr s = map of_char s"

text \<open>\<open>char::is_whitespace\<close> for all of Unicode, and \<open>str::trim\<close>.\<close>

definition unicode_whitespace :: "nat \<Rightarrow> bool" where
  "unicode_whitespace c \<longleftrightarrow> (9 \<le> c \<and> c \<le> 13) \<or> c \<in> {32, 133, 160, 5760} \<or> (8192 \<le> c \<and> c \<le> 8202)
     \<or> c \<in> {8232, 8233, 8239, 8287, 12288}"

definition utrim :: "ustring \<Rightarrow> ustring" where
  "utrim s = rev (dropWhile unicode_whitespace (rev (dropWhile unicode_whitespace s)))"

definition blank :: "ustring \<Rightarrow> bool" where
  "blank s \<longleftrightarrow> utrim s = []"

definition utf8_char :: "nat \<Rightarrow> nat list" where
  "utf8_char c =
    (if c < 128 then [c]
     else if c < 2048 then [192 + c div 64, 128 + c mod 64]
     else if c < 65536 then [224 + c div 4096, 128 + c div 64 mod 64, 128 + c mod 64]
     else [240 + c div 262144, 128 + c div 4096 mod 64, 128 + c div 64 mod 64, 128 + c mod 64])"

definition utf8 :: "ustring \<Rightarrow> nat list" where
  "utf8 s = concat (map utf8_char s)"

end
