(* ===== verification/Accounting_Types.thy ===== *)
theory Accounting_Types
  imports Civil_Date Money Ordered_Map Unicode_Text "HOL-Library.List_Lexorder"
begin

section \<open>Vocabulary of the accounting module (accounting/error.rs, period.rs, journal.rs)\<close>

text \<open>
  The data of double-entry bookkeeping: periods, posting sides, cash-flow classes, the kinds of
  business events, entries and their lines, and the errors of the module. Account codes and names are
  sequences of code points, ordered like Rust strings. Amounts are cents of type \<open>i128\<close>, here
  integers; theory \<open>Accounting_Amount\<close> has their checked arithmetic. The operations on
  periods and the states of periods are here too.
\<close>

type_synonym amount = int
type_synonym ledger_account_id = ustring
type_synonym business_event_id = nat

datatype posting_side = Debit | Credit

datatype cash_flow_class = Operating | Investing | Financing | NonCash

datatype business_kind =
    SimpleRevenueAccrual | SimpleFixedExpenseAccrual | SimpleVariableExpenseAccrual
  | CompanyDividendDeclaration | CompanyDividendPayment | CompanyStockDistributionCredit
  | CompanyRightsOfferingSettlement | CompanyRepurchaseCancellation | CompanyShareReDenomination
  | OpeningBalance | LoanDisbursement | LoanRepayment | CashRevenue | CreditSale
  | ReceivableCollection | CashExpense | InterestAccrual | InterestPayment | TaxAccrual
  | TaxPayment | Depreciation | CustomerDeposit | CustomerWithdrawal | LoanIssued
  | LoanPrincipalCollected | LoanInterestAccrued | LoanInterestCollected
  | DepositInterestAccrued | DepositInterestPaid | FeeAndCommissionEarned | CreditImpairment
  | LoanWriteOff | WriteOffRecovery | LandAcquisition | DevelopmentCostIncurred
  | PresaleCollection | RealEstateDelivery | FinalPaymentCollected | BorrowingCostCapitalized
  | DevelopmentImpairment | InsurancePremiumAccrued | InsurancePremiumCollected
  | InsuranceServiceRevenue | InsuranceFinance | InsuranceLossComponent | InsuranceClaimIncurred
  | InsuranceClaimPaid

datatype accounting_period = AccountingPeriod (ap_year: int) (ap_month: nat)

record journal_line =
  jl_account :: ledger_account_id
  jl_side :: posting_side
  jl_amount :: amount

record journal_entry =
  je_source :: business_event_id
  je_date :: civil_date
  je_kind :: business_kind
  je_cash_flow :: cash_flow_class
  je_lines :: "journal_line list"

datatype accounting_error =
    SimpleSettlementCashFlow business_event_id cash_flow_class
  | AmountOverflow string string
  | DecimalParse string string
  | MoneyRangeExceeded int
  | Unbalanced business_event_id civil_date amount amount
  | NonPositiveLine business_event_id ledger_account_id posting_side amount
  | MissingSide business_event_id string
  | EmptyLines business_event_id
  | UnknownAccount business_event_id ledger_account_id
  | NonCashTouchesCash business_event_id ledger_account_id
  | DuplicatePosting business_event_id civil_date
  | NegativeCashProhibited ledger_account_id amount
  | ClosedPeriod accounting_period business_event_id
  | PeriodAlreadyClosed accounting_period
  | InvalidPeriod int nat string
  | PeriodParse string string
  | ChartInvalid ustring
  | BatchAborted nat "nat option" accounting_error

subsection \<open>The derived orders of the map keys\<close>

fun class_rank :: "cash_flow_class \<Rightarrow> nat" where
  "class_rank Operating = 0"
| "class_rank Investing = 1"
| "class_rank Financing = 2"
| "class_rank NonCash = 3"

lemma class_rank_inj: "class_rank a = class_rank b \<Longrightarrow> a = b"
  by (cases a; cases b) simp_all

instantiation cash_flow_class :: linorder
begin

definition less_eq_cash_flow_class :: "cash_flow_class \<Rightarrow> cash_flow_class \<Rightarrow> bool" where
  "less_eq_cash_flow_class a b \<longleftrightarrow> class_rank a \<le> class_rank b"

definition less_cash_flow_class :: "cash_flow_class \<Rightarrow> cash_flow_class \<Rightarrow> bool" where
  "less_cash_flow_class a b \<longleftrightarrow> class_rank a < class_rank b"

instance
  by standard (auto simp: less_eq_cash_flow_class_def less_cash_flow_class_def dest: class_rank_inj)

end

instantiation accounting_period :: linorder
begin

definition less_eq_accounting_period :: "accounting_period \<Rightarrow> accounting_period \<Rightarrow> bool" where
  "less_eq_accounting_period a b \<longleftrightarrow> (ap_year a, ap_month a) \<le> (ap_year b, ap_month b)"

definition less_accounting_period :: "accounting_period \<Rightarrow> accounting_period \<Rightarrow> bool" where
  "less_accounting_period a b \<longleftrightarrow> (ap_year a, ap_month a) < (ap_year b, ap_month b)"

instance
  by standard (auto simp: less_eq_accounting_period_def less_accounting_period_def accounting_period.expand)

end

subsection \<open>Periods\<close>

definition period_from_ymd :: "int \<Rightarrow> nat \<Rightarrow> accounting_error + accounting_period" where
  "period_from_ymd y m =
    (if \<not> (civil_year_min \<le> y \<and> y \<le> civil_year_max)
     then Inl (InvalidPeriod y m ''year outside civil algorithm window 1900..=2199'')
     else if \<not> (1 \<le> m \<and> m \<le> 12) then Inl (InvalidPeriod y m ''month must be 1..=12'')
     else Inr (AccountingPeriod y m))"

definition period_of_date :: "civil_date \<Rightarrow> accounting_period" where
  "period_of_date d = AccountingPeriod (cd_year d) (cd_month d)"

definition period_from_iso :: "string \<Rightarrow> accounting_error + accounting_period" where
  "period_from_iso input =
    (if length input \<noteq> 7 \<or> input ! 4 \<noteq> CHR ''-'' then Inl (PeriodParse input ''expected strict YYYY-MM shape'')
     else if \<not> list_all is_ascii_digit (take 4 input) \<or> \<not> list_all is_ascii_digit (drop 5 input)
     then Inl (PeriodParse input ''non-digit component'')
     else bind_result (ok_or (PeriodParse input ''year overflow'') (parse_int (- (2 ^ 31)) (2 ^ 31 - 1) (take 4 input)))
       (\<lambda>year. bind_result (ok_or (PeriodParse input ''month overflow'') (parse_nat 255 (drop 5 input)))
       (\<lambda>month. map_error (\<lambda>_. PeriodParse input ''component out of range'') (period_from_ymd year month))))"

definition period_to_iso :: "accounting_period \<Rightarrow> string" where
  "period_to_iso p = pad_nat 4 (nat (ap_year p)) @ CHR ''-'' # pad_nat 2 (ap_month p)"

text \<open>The closed periods, a \<open>BTreeSet\<close>.\<close>

datatype period_status = PeriodOpen | PeriodClosed

type_synonym period_states = "(accounting_period, unit) bt"

definition is_closed :: "accounting_period \<Rightarrow> period_states \<Rightarrow> bool" where
  "is_closed p s \<longleftrightarrow> map_of s p \<noteq> None"

definition states_close :: "accounting_period \<Rightarrow> period_states \<Rightarrow> (accounting_error + unit) \<times> period_states" where
  "states_close p s = (if is_closed p s then (Inl (PeriodAlreadyClosed p), s) else (Inr (), bt_insert p () s))"

definition states_status :: "accounting_period \<Rightarrow> period_states \<Rightarrow> period_status" where
  "states_status p s = (if is_closed p s then PeriodClosed else PeriodOpen)"

definition closed_periods :: "period_states \<Rightarrow> accounting_period list" where
  "closed_periods s = map fst s"

text \<open>The strict parser of periods accepts exactly the printed forms of the valid periods.\<close>

lemma period_from_ymd_iff:
  "period_from_ymd y m = Inr p \<longleftrightarrow> p = AccountingPeriod y m \<and> 1900 \<le> y \<and> y \<le> 2199 \<and> 1 \<le> m \<and> m \<le> 12"
  by (auto simp: period_from_ymd_def civil_year_min_def civil_year_max_def)

lemma period_of_date_valid:
  "date_ok d \<Longrightarrow> period_from_ymd (cd_year d) (cd_month d) = Inr (period_of_date d)"
  by (auto simp: period_from_ymd_iff period_of_date_def date_ok_def)

lemma parse_int_all_digits:
  assumes "list_all is_ascii_digit s" "s \<noteq> []"
  shows "parse_int lo hi s = (let v = int (digits_value s) in if lo \<le> v \<and> v \<le> hi then Some v else None)"
  using parse_int_digits [of s lo hi] assms by (simp add: all_digits_def Let_def)

lemma parse_nat_all_digits:
  assumes "list_all is_ascii_digit s" "s \<noteq> []"
  shows "parse_nat hi s = (if digits_value s \<le> hi then Some (digits_value s) else None)"
proof -
  obtain c cs where s: "s = c # cs" using assms by (cases s) auto
  then have "c \<noteq> CHR ''+''" using assms digit_not_sign by simp
  then show ?thesis using assms by (simp add: parse_nat_def s all_digits_def Let_def)
qed

lemma period_from_iso_groups:
  assumes "length a = 4" "length b = 2" "list_all is_ascii_digit a" "list_all is_ascii_digit b"
  shows "period_from_iso (a @ CHR ''-'' # b) = map_error (\<lambda>_. PeriodParse (a @ CHR ''-'' # b) ''component out of range'')
     (period_from_ymd (int (digits_value a)) (digits_value b))"
proof -
  have "digits_value a < 10 ^ 4" "digits_value b < 10 ^ 2"
    using digits_value_bound [OF assms(3)] digits_value_bound [OF assms(4)] assms(1,2) by simp_all
  moreover have "a \<noteq> []" "b \<noteq> []" using assms(1,2) by auto
  moreover have "take 4 (a @ CHR ''-'' # b) = a" "drop 5 (a @ CHR ''-'' # b) = b" "(a @ CHR ''-'' # b) ! 4 = CHR ''-''"
    "length (a @ CHR ''-'' # b) = 7" using assms(1,2) by (simp_all add: nth_append)
  ultimately show ?thesis using assms(3,4)
    by (simp add: period_from_iso_def parse_int_all_digits parse_nat_all_digits)
qed

lemma period_text_iff:
  "period_from_iso s = Inr p \<longleftrightarrow>
     period_from_ymd (ap_year p) (ap_month p) = Inr p \<and> s = period_to_iso p"
proof (intro iffI conjI)
  assume r: "period_from_iso s = Inr p"
  then have l: "length s = 7" "s ! 4 = CHR ''-''" "list_all is_ascii_digit (take 4 s)" "list_all is_ascii_digit (drop 5 s)"
    by (auto simp: period_from_iso_def split: if_splits)
  define a b where "a = take 4 s" and "b = drop 5 s"
  have s: "s = a @ CHR ''-'' # b"
    using append_take_drop_id [of 4 s] Cons_nth_drop_Suc [of 4 s] l by (simp add: a_def b_def)
  have ab: "length a = 4" "length b = 2" "list_all is_ascii_digit a" "list_all is_ascii_digit b"
    using l by (simp_all add: a_def b_def)
  from r have q: "period_from_ymd (int (digits_value a)) (digits_value b) = Inr p"
    unfolding s period_from_iso_groups [OF ab] by simp
  then show "period_from_ymd (ap_year p) (ap_month p) = Inr p" by (auto simp: period_from_ymd_iff)
  show "s = period_to_iso p"
    using q pad_nat_value [OF ab(3,1)] pad_nat_value [OF ab(4,2)]
    by (simp add: period_from_ymd_iff period_to_iso_def) (simp add: s)
next
  assume r: "period_from_ymd (ap_year p) (ap_month p) = Inr p \<and> s = period_to_iso p"
  then have b: "1900 \<le> ap_year p" "ap_year p \<le> 2199" "ap_month p \<le> 12" by (simp_all add: period_from_ymd_iff)
  have l: "length (pad_nat 4 (nat (ap_year p))) = 4" "length (pad_nat 2 (ap_month p)) = 2"
    using b by (simp_all add: length_pad_nat)
  have "s = pad_nat 4 (nat (ap_year p)) @ CHR ''-'' # pad_nat 2 (ap_month p)" using r by (simp add: period_to_iso_def)
  then show "period_from_iso s = Inr p"
    using r b by (simp add: period_from_iso_groups [OF l pad_nat_digits(1) pad_nat_digits(1)] pad_nat_digits)
qed

end
