(* ===== verification/Accounting_Amount.thy ===== *)
theory Accounting_Amount
  imports Accounting_Types
begin

section \<open>Accounting amounts (accounting/amount.rs)\<close>

text \<open>
  Checked \<open>i128\<close> cents, the application of basis points with banker's rounding, with and without a
  remainder carried to the next period, the conversions to market money and the decimal text form.
  The lemmas after the definitions show the rounding, that the carried remainder loses nothing over
  any number of periods, and the round trip of the text form.
\<close>

definition bp_denom :: int where "bp_denom = 10000"

type_synonym fraction_units = int

definition amount_add :: "amount \<Rightarrow> amount \<Rightarrow> accounting_error + amount" where
  "amount_add a b = ok_or (AmountOverflow ''add'' (show_int a @ '' + '' @ show_int b)) (checked_i128 (a + b))"

definition amount_sub :: "amount \<Rightarrow> amount \<Rightarrow> accounting_error + amount" where
  "amount_sub a b = ok_or (AmountOverflow ''sub'' (show_int a @ '' - '' @ show_int b)) (checked_i128 (a - b))"

definition amount_mul_i128 :: "amount \<Rightarrow> int \<Rightarrow> accounting_error + amount" where
  "amount_mul_i128 a k =
     ok_or (AmountOverflow ''mul_i128'' (show_int a @ '' * '' @ show_int k)) (checked_i128 (a * k))"

definition amount_neg :: "amount \<Rightarrow> accounting_error + amount" where
  "amount_neg a = ok_or (AmountOverflow ''neg'' (''-'' @ show_int a)) (checked_i128 (- a))"

subsection \<open>Basis points\<close>

text \<open>Integer division with ties to even, on absolute values; the divisor is positive.\<close>

definition div_round_half_even :: "int \<Rightarrow> int \<Rightarrow> int" where
  "div_round_half_even n d = (let
     quotient = nat \<bar>n\<bar> div nat \<bar>d\<bar>;
     remainder = nat \<bar>n\<bar> mod nat \<bar>d\<bar>;
     doubled = remainder * 2;
     round_up = nat \<bar>d\<bar> < doubled \<or> (doubled = nat \<bar>d\<bar> \<and> quotient mod 2 \<noteq> 0);
     magnitude = int (if round_up then quotient + 1 else quotient)
   in if n < 0 then - magnitude else magnitude)"

definition bp_product :: "amount \<Rightarrow> int \<Rightarrow> accounting_error + int" where
  "bp_product a bp =
     ok_or (AmountOverflow ''apply_basis_points'' (show_int a @ '' * '' @ show_int bp)) (checked_i128 (a * bp))"

definition apply_basis_points :: "amount \<Rightarrow> int \<Rightarrow> accounting_error + amount" where
  "apply_basis_points a bp = bind_result (bp_product a bp) (\<lambda>scaled. Inr (div_round_half_even scaled bp_denom))"

definition apply_basis_points_accum ::
  "amount \<Rightarrow> int \<Rightarrow> fraction_units \<Rightarrow> accounting_error + amount \<times> fraction_units" where
  "apply_basis_points_accum a bp carried =
    bind_result (bp_product a bp) (\<lambda>scaled.
    bind_result (ok_or (AmountOverflow ''bp_accum'' (show_int scaled @ '' + '' @ show_int carried))
      (checked_i128 (scaled + carried))) (\<lambda>tot.
    let paid = div_round_half_even tot bp_denom in
    bind_result (ok_or (AmountOverflow ''bp_accum'' (show_int paid @ '' * '' @ show_int bp_denom))
      (checked_i128 (paid * bp_denom))) (\<lambda>back.
    bind_result (ok_or (AmountOverflow ''bp_accum'' (show_int tot @ '' - paid'' @ [char_of (215::nat)] @ show_int bp_denom))
      (checked_i128 (tot - back))) (\<lambda>remainder.
    Inr (paid, remainder)))))"

subsection \<open>Market money and text\<close>

definition amount_from_money :: "money \<Rightarrow> amount" where
  "amount_from_money m = m"

definition amount_to_money :: "amount \<Rightarrow> accounting_error + money" where
  "amount_to_money a = ok_or (MoneyRangeExceeded a) (checked_i64 a)"

definition to_yuan_string :: "amount \<Rightarrow> string" where
  "to_yuan_string a = (if a < 0 then ''-'' else '''') @ show_nat (nat \<bar>a\<bar> div 100) @ ''.''
     @ pad_nat 2 (nat \<bar>a\<bar> mod 100)"

definition split_yuan :: "string \<Rightarrow> string \<Rightarrow> accounting_error + string \<times> string" where
  "split_yuan input digits = (case split_once_dot digits of
      Some (i, f) \<Rightarrow>
        if CHR ''.'' \<in> set f then Inl (DecimalParse input ''multiple decimal points'')
        else if f = [] then Inl (DecimalParse input ''dangling decimal point'')
        else Inr (i, f)
    | None \<Rightarrow> Inr (digits, []))"

definition amount_of_parts :: "string \<Rightarrow> bool \<Rightarrow> string \<Rightarrow> string \<Rightarrow> accounting_error + amount" where
  "amount_of_parts input negative i f =
    bind_result (ok_or (DecimalParse input ''integer part out of i128 range'') (parse_int i128_min i128_max i))
      (\<lambda>int_cents.
    bind_result (ok_or (DecimalParse input ''value out of i128 range'')
      (Option.bind (checked_i128 (int_cents * 100)) (\<lambda>c. checked_i128 (c + frac_cents f)))) (\<lambda>absolute.
    ok_or (DecimalParse input ''value out of i128 range'')
      (if negative then checked_i128 (- absolute) else Some absolute)))"

definition amount_from_yuan_str :: "string \<Rightarrow> accounting_error + amount" where
  "amount_from_yuan_str input = (let trimmed = trim input in
     if trimmed = [] then Inl (DecimalParse input ''empty input'') else
     let (negative, digits) = yuan_sign trimmed in
     if digits = [] then Inl (DecimalParse input ''sign without digits'') else
     bind_result (split_yuan input digits) (\<lambda>(i, f).
       if 2 < byte_len f
       then Inl (DecimalParse input (''too many fractional digits: '' @ show_nat (byte_len f)))
       else if \<not> list_all is_ascii_digit i \<or> i = []
       then Inl (DecimalParse input ''integer part must be all digits'')
       else if \<not> list_all is_ascii_digit f
       then Inl (DecimalParse input ''fractional part must be all digits'')
       else amount_of_parts input negative i f))"

definition fraction_serialize :: "fraction_units \<Rightarrow> string" where
  "fraction_serialize u = show_int u"

definition fraction_deserialize :: "string \<Rightarrow> fraction_units option" where
  "fraction_deserialize s = parse_int i128_min i128_max s"

subsection \<open>Checked arithmetic\<close>

lemma amount_Inr_iff [simp]:
  "amount_add a b = Inr c \<longleftrightarrow> in_i128 (a + b) \<and> c = a + b"
  "amount_sub a b = Inr c \<longleftrightarrow> in_i128 (a - b) \<and> c = a - b"
  "amount_mul_i128 a k = Inr c \<longleftrightarrow> in_i128 (a * k) \<and> c = a * k"
  "amount_neg a = Inr c \<longleftrightarrow> in_i128 (- a) \<and> c = - a"
  by (auto simp: amount_add_def amount_sub_def amount_mul_i128_def amount_neg_def)

text \<open>Sums of amounts are an instance of the checked sums of the prelude.\<close>

interpretation amount_sum: checked_sum in_i128 amount_add
  by unfold_locales (auto simp: in_i128_def)

subsection \<open>Rounding\<close>

lemma div_round_half_even_rhe:
  assumes "0 < d"
  shows "div_round_half_even n d = rhe (of_int n / of_int d)"
proof -
  have pos: "div_round_half_even m d = rhe (of_int m / of_int d)" if "0 \<le> m" for m
  proof -
    define q r where "q = m div d" and "r = m mod d"
    have m: "m = q * d + r" and r: "0 \<le> r" "r < d" and q: "0 \<le> q"
      using assms that by (simp_all add: q_def r_def pos_imp_zdiv_nonneg_iff)
    have nq: "nat \<bar>m\<bar> div nat \<bar>d\<bar> = nat q" "nat \<bar>m\<bar> mod nat \<bar>d\<bar> = nat r"
      using that assms by (simp_all add: q_def r_def nat_div_distrib nat_mod_distrib)
    have e: "(of_int m / of_int d :: rat) = of_int q + of_int r / of_int d" using assms by (simp add: m field_simps)
    have f: "\<lfloor>(of_int m / of_int d :: rat)\<rfloor> = q" using r assms unfolding e by (simp add: floor_unique)
    have "(of_int r / of_int d :: rat) < 1 / 2 \<longleftrightarrow> of_int (2 * r) < (of_int d :: rat)"
      "1 / 2 < (of_int r / of_int d :: rat) \<longleftrightarrow> of_int d < (of_int (2 * r) :: rat)"
      using assms by (simp_all add: field_simps)
    then have c: "(of_int r / of_int d :: rat) < 1 / 2 \<longleftrightarrow> 2 * r < d" "1 / 2 < (of_int r / of_int d :: rat) \<longleftrightarrow> d < 2 * r"
      by (simp_all only: of_int_less_iff)
    have n: "nat \<bar>d\<bar> < nat r * 2 \<longleftrightarrow> d < 2 * r" "nat r * 2 = nat \<bar>d\<bar> \<longleftrightarrow> 2 * r = d" "\<not> m < 0"
      using assms r(1) that by linarith+
    have o: "nat q mod 2 \<noteq> 0 \<longleftrightarrow> odd q" 
      using q by (metis even_nat_iff even_iff_mod_2_eq_zero)
    have s: "int (if b then nat q + 1 else nat q) = (if b then q + 1 else q)" for b using q by simp
    have l: "div_round_half_even m d = (if d < 2 * r \<or> (2 * r = d \<and> odd q) then q + 1 else q)"
      unfolding div_round_half_even_def Let_def nq n(1,2) o s using n(3) by (simp only: if_False)
    have dd: "(of_int m / of_int d - of_int q :: rat) = of_int r / of_int d" using e by simp
    have "rhe (of_int m / of_int d) = (if 2 * r < d then q else if d < 2 * r then q + 1 else if even q then q else q + 1)"
      unfolding rhe_def Let_def f dd c by (rule refl)
    with l show ?thesis by (cases "2 * r" d rule: linorder_cases) simp_all
  qed
  show ?thesis
  proof (cases "n < 0")
    case True
    have "div_round_half_even n d = - div_round_half_even (- n) d" using True by (simp add: div_round_half_even_def Let_def)
    also have "\<dots> = - rhe (- (of_int n / of_int d))" using pos [of "- n"] True by simp
    finally show ?thesis by (simp add: rhe_minus)
  qed (use pos in simp)
qed

lemma div_round_half_even_near:
  assumes "0 < d"
  shows "\<bar>2 * (n - div_round_half_even n d * d)\<bar> \<le> d"
proof -
  have "of_int (div_round_half_even n d) - 1 / 2 \<le> (of_int n / of_int d :: rat)"
    "(of_int n / of_int d :: rat) \<le> of_int (div_round_half_even n d) + 1 / 2"
    unfolding div_round_half_even_rhe [OF assms] using rhe_bounds by blast+
  then have "of_int (2 * (div_round_half_even n d * d) - d) \<le> (of_int (2 * n) :: rat)"
    "(of_int (2 * n) :: rat) \<le> of_int (2 * (div_round_half_even n d * d) + d)"
    using assms by (simp_all add: field_simps)
  then have "2 * (div_round_half_even n d * d) - d \<le> 2 * n" "2 * n \<le> 2 * (div_round_half_even n d * d) + d"
    by (simp_all only: of_int_le_iff)
  then show ?thesis unfolding right_diff_distrib abs_le_iff by linarith
qed

text \<open>
  Applying a rate in basis points fails exactly when the
  product with the amount leaves \<open>i128\<close>; otherwise the result is the exact quotient by ten thousand
  rounded to the nearest cent, halves to even: it fits \<open>i128\<close> again and is off by half a cent at most.
\<close>

theorem basis_points_round_half_even:
  "apply_basis_points a bp = (if in_i128 (a * bp) then Inr (rhe (of_int (a * bp) / 10000))
      else Inl (AmountOverflow ''apply_basis_points'' (show_int a @ '' * '' @ show_int bp)))
    \<and> (apply_basis_points a bp = Inr r \<longrightarrow> in_i128 r \<and> \<bar>2 * (a * bp - r * 10000)\<bar> \<le> 10000)"
proof (intro conjI impI)
  have e: "div_round_half_even n bp_denom = rhe (of_int n / 10000)" for n
    using div_round_half_even_rhe [of bp_denom n] by (simp add: bp_denom_def)
  show "apply_basis_points a bp = (if in_i128 (a * bp) then Inr (rhe (of_int (a * bp) / 10000))
      else Inl (AmountOverflow ''apply_basis_points'' (show_int a @ '' * '' @ show_int bp)))"
    by (simp add: apply_basis_points_def bp_product_def checked_i128_def e)
  assume "apply_basis_points a bp = Inr r"
  then have r: "in_i128 (a * bp)" "r = div_round_half_even (a * bp) 10000"
    by (auto simp: apply_basis_points_def bp_product_def bind_result_Inr_iff bp_denom_def)
  then show near: "\<bar>2 * (a * bp - r * 10000)\<bar> \<le> 10000" using div_round_half_even_near [of 10000 "a * bp"] by simp
  then have "- 10000 \<le> 2 * (a * bp - r * 10000)" "2 * (a * bp - r * 10000) \<le> 10000" by linarith+
  then show "in_i128 r" using r(1) unfolding in_i128_def by simp
qed

lemma basis_points_round_half_even_witness:
  "\<bar>2 * (250 * 100 - 2 * 10000)\<bar> \<le> (10000 :: int)"
proof -
  have "apply_basis_points 250 100 = Inr 2"
    by (simp add: apply_basis_points_def bp_product_def checked_i128_def in_i128_def div_round_half_even_def bp_denom_def)
  then show ?thesis using basis_points_round_half_even [of 250 100 2] by simp
qed

subsection \<open>The carried remainder\<close>

text \<open>A contract pays interest in successive periods, handing the remainder on.\<close>

fun accrue :: "(amount \<times> int) list \<Rightarrow> fraction_units \<Rightarrow> accounting_error + amount list \<times> fraction_units" where
  "accrue [] carried = Inr ([], carried)"
| "accrue ((a, bp) # ps) carried = bind_result (apply_basis_points_accum a bp carried) (\<lambda>(paid, rest).
     bind_result (accrue ps rest) (\<lambda>(paids, final). Inr (paid # paids, final)))"

definition exact_units :: "(amount \<times> int) list \<Rightarrow> int" where
  "exact_units ps = sum_list (map (\<lambda>(a, bp). a * bp) ps)"

lemma accum_result:
  assumes "apply_basis_points_accum a bp carried = Inr (paid, rest)"
  shows "paid * 10000 + rest = a * bp + carried \<and> \<bar>rest\<bar> \<le> 5000"
proof -
  from assms have p: "paid = div_round_half_even (a * bp + carried) 10000" "rest = a * bp + carried - paid * 10000"
    by (auto simp: apply_basis_points_accum_def bp_product_def bind_result_Inr_iff bp_denom_def Let_def)
  have "\<bar>2 * (a * bp + carried - paid * 10000)\<bar> \<le> 10000"
    using div_round_half_even_near [of 10000 "a * bp + carried"] by (simp add: p(1))
  with p(2) show ?thesis by simp
qed

lemma accum_total:
  assumes "\<bar>a * bp\<bar> \<le> 2 ^ 126" "\<bar>carried\<bar> \<le> 5000"
  shows "\<exists>paid rest. apply_basis_points_accum a bp carried = Inr (paid, rest)"
proof -
  define t where "t = a * bp + carried"
  define p where "p = div_round_half_even t 10000"
  have t: "\<bar>t\<bar> \<le> 2 ^ 126 + 5000" using assms by (simp add: t_def)
  have "\<bar>2 * (t - p * 10000)\<bar> \<le> 10000" using div_round_half_even_near [of 10000 t] by (simp add: p_def)
  then have "\<bar>t - p * 10000\<bar> \<le> 5000" by simp
  with t assms have "in_i128 (a * bp)" "in_i128 t" "in_i128 (p * 10000)" "in_i128 (t - p * 10000)"
    by (auto simp: in_i128_def)
  then show ?thesis
    by (simp add: apply_basis_points_accum_def bp_product_def checked_i128_def bp_denom_def Let_def
        t_def [symmetric] p_def [symmetric])
qed

lemma accrue_total:
  assumes "\<forall>(a, bp)\<in>set ps. \<bar>a * bp\<bar> \<le> 2 ^ 126" "\<bar>carried\<bar> \<le> 5000"
  shows "\<exists>paids final. accrue ps carried = Inr (paids, final)"
  using assms
proof (induction ps arbitrary: carried)
  case (Cons x ps)
  obtain a bp where x: "x = (a, bp)" by (cases x)
  obtain paid rest where r: "apply_basis_points_accum a bp carried = Inr (paid, rest)"
    using accum_total [of a bp carried] Cons.prems by (auto simp: x)
  then have "\<bar>rest\<bar> \<le> 5000" using accum_result by blast
  with Cons.IH [of rest] Cons.prems r show ?case by (auto simp: x)
qed simp

lemma accrue_result:
  assumes "accrue ps carried = Inr (paids, final)"
  shows "length paids = length ps \<and> sum_list paids * 10000 + final = exact_units ps + carried
    \<and> (\<bar>carried\<bar> \<le> 5000 \<longrightarrow> \<bar>final\<bar> \<le> 5000)"
  using assms
proof (induction ps arbitrary: carried paids)
  case (Cons x ps)
  obtain a bp where x: "x = (a, bp)" by (cases x)
  from Cons.prems obtain paid rest ps' where r: "apply_basis_points_accum a bp carried = Inr (paid, rest)"
    "accrue ps rest = Inr (ps', final)" "paids = paid # ps'"
    by (auto simp: x bind_result_Inr_iff)
  from Cons.IH [OF r(2)] accum_result [OF r(1)] show ?case by (simp add: r(3) x exact_units_def algebra_simps)
qed (simp add: exact_units_def)

text \<open>
  However many periods a contract accrues, handing the remainder
  on, the paid cents and the last remainder account for the exact sum of all products of amounts
  and basis points, and the payments are the rounded exact sum up to half a cent. Products up to
  \<open>2 ^ 126\<close> never overflow.
\<close>

theorem accruals_lose_nothing:
  assumes "\<bar>carried\<bar> \<le> 5000"
  shows "(\<forall>paids final. accrue ps carried = Inr (paids, final) \<longrightarrow>
      sum_list paids * 10000 + final = exact_units ps + carried
      \<and> \<bar>2 * (exact_units ps + carried - sum_list paids * 10000)\<bar> \<le> 10000)
    \<and> ((\<forall>(a, bp)\<in>set ps. \<bar>a * bp\<bar> \<le> 2 ^ 126) \<longrightarrow> is_ok (accrue ps carried))"
proof (intro conjI allI impI)
  fix paids final assume r: "accrue ps carried = Inr (paids, final)"
  with accrue_result assms show e: "sum_list paids * 10000 + final = exact_units ps + carried" by blast
  have "\<bar>final\<bar> \<le> 5000" using accrue_result [OF r] assms by blast
  moreover have "final = exact_units ps + carried - sum_list paids * 10000" using e by simp
  ultimately show "\<bar>2 * (exact_units ps + carried - sum_list paids * 10000)\<bar> \<le> 10000" by simp
next
  assume "\<forall>(a, bp)\<in>set ps. \<bar>a * bp\<bar> \<le> 2 ^ 126"
  with accrue_total [OF _ assms] show "is_ok (accrue ps carried)" by (auto simp: is_ok_iff)
qed

lemma accruals_lose_nothing_witness:
  "\<exists>paids final. accrue [(101, 5000), (101, 5000), (101, 5000)] 0 = Inr (paids, final)
    \<and> sum_list paids * 10000 + final = 1515000"
proof -
  have "is_ok (accrue [(101, 5000), (101, 5000), (101, 5000)] 0)"
    using accruals_lose_nothing [of 0 "[(101, 5000), (101, 5000), (101, 5000)]"] by simp
  then obtain paids final where r: "accrue [(101, 5000), (101, 5000), (101, 5000)] 0 = Inr (paids, final)"
    by (auto simp: is_ok_iff)
  with accruals_lose_nothing [of 0 "[(101, 5000), (101, 5000), (101, 5000)]"] show ?thesis
    by (simp add: exact_units_def)
qed

subsection \<open>Text\<close>

lemma amount_text_parts:
  fixes a :: amount
  defines "i \<equiv> show_nat (nat \<bar>a\<bar> div 100)" and "f \<equiv> pad_nat 2 (nat \<bar>a\<bar> mod 100)"
  shows "amount_from_yuan_str (to_yuan_string a) = amount_of_parts (to_yuan_string a) (a < 0) i f"
proof -
  have f: "list_all is_ascii_digit f" "length f = 2" by (simp_all add: f_def pad_nat_digits length_pad_nat)
  obtain c cs where c: "i = c # cs" "is_ascii_digit c"
    using all_digits_show_nat [of "nat \<bar>a\<bar> div 100"] by (cases i) (auto simp: i_def all_digits_def)
  have i: "list_all is_ascii_digit i" "i \<noteq> []"
    using all_digits_show_nat [of "nat \<bar>a\<bar> div 100"] by (simp_all add: i_def all_digits_def)
  let ?s = "(if a < 0 then ''-'' else []) @ i @ ''.'' @ f"
  have s: "to_yuan_string a = ?s" by (simp add: to_yuan_string_def i_def f_def)
  have dot: "\<not> is_whitespace (CHR ''-'')" by (simp add: is_whitespace_def)
  have "f \<noteq> []" using f(2) by auto
  then have "is_ascii_digit (last f)" using f(1) by (simp add: list_all_iff)
  then have "\<not> is_whitespace (last ?s)" using \<open>f \<noteq> []\<close> digit_not_whitespace by simp
  moreover have "\<not> is_whitespace (hd ?s)" using dot c digit_not_whitespace by simp
  ultimately have tr: "trim ?s = ?s" using c by (intro trim_id) simp_all
  have sg: "yuan_sign ?s = (a < 0, i @ CHR ''.'' # f)"
    using c digit_not_sign by (auto simp: yuan_sign_def)
  have "split_once_dot (i @ CHR ''.'' # f) = Some (i, f)" by (rule split_once_dot_digits [OF i(1)])
  then have pt: "split_yuan (to_yuan_string a) (i @ CHR ''.'' # f) = Inr (i, f)"
    using dot_not_in_digits [OF f(1)] \<open>f \<noteq> []\<close> by (simp add: split_yuan_def)
  have "byte_len f = 2" using byte_len_digits [OF f(1)] f(2) by simp
  moreover have "?s \<noteq> []" using c by simp
  ultimately show ?thesis unfolding amount_from_yuan_str_def s tr Let_def sg
    using i f pt [unfolded s] by simp
qed

text \<open>
  The decimal text that saves an amount reads back as that amount, for every
  \<open>i128\<close> except the least one, whose text is refused because the parser builds the absolute value first.
\<close>

theorem amount_text_round_trip:
  assumes "in_i128 a"
  shows "amount_from_yuan_str (to_yuan_string a) =
    (if a = - (2 ^ 127) then Inl (DecimalParse (to_yuan_string a) ''value out of i128 range'') else Inr a)"
proof -
  define n where "n = nat \<bar>a\<bar>"
  have n: "\<bar>a\<bar> = int n" by (simp add: n_def)
  have fr: "frac_cents (pad_nat 2 (n mod 100)) = int (n mod 100)"
    by (simp add: frac_cents_def length_pad_nat pad_nat_digits)
  have le: "int n \<le> 2 ^ 127" using assms n unfolding in_i128_def by linarith
  have "n div 100 * 100 + n mod 100 = n" by simp
  then have sum: "int (n div 100) * 100 + int (n mod 100) = int n"
    by (metis of_nat_add of_nat_mult of_nat_numeral)
  have nn: "0 \<le> int (n div 100)" "0 \<le> int (n mod 100)" "int (n mod 100) < 100" by simp_all
  have "n \<le> 170141183460469231731687303715884105728" using le by simp
  then have "n div 100 \<le> 170141183460469231731687303715884105728 div 100" by (rule div_le_mono)
  then have "int (n div 100) \<le> 1701411834604692317316873037158841057" by simp
  then have r: "in_i128 (int (n div 100))" "in_i128 (int (n div 100) * 100)" using nn unfolding in_i128_def by auto
  have p: "parse_int i128_min i128_max (show_nat (n div 100)) = Some (int (n div 100))"
    using r(1) by (simp add: parse_int_digits in_i128_def)
  have e: "amount_of_parts s neg (show_nat (n div 100)) (pad_nat 2 (n mod 100)) = (if in_i128 (int n)
      then (if neg then ok_or (DecimalParse s ''value out of i128 range'') (checked_i128 (- int n)) else Inr (int n))
      else Inl (DecimalParse s ''value out of i128 range''))" for s neg
    unfolding amount_of_parts_def p fr using r(2) sum by (simp add: checked_i128_def)
  have m: "in_i128 (int n) \<longleftrightarrow> int n \<noteq> 2 ^ 127" using le by (auto simp: in_i128_def)
  show ?thesis unfolding amount_text_parts n_def [symmetric] e
    using n m assms by (auto simp: checked_i128_def in_i128_def)
qed

lemma amount_text_round_trip_witness:
  "amount_from_yuan_str (to_yuan_string (- 5)) = Inr (- 5)"
  using amount_text_round_trip [of "- 5"] by (simp add: in_i128_def)

end
