(* ===== verification/Ledger.thy ===== *)
theory Ledger
  imports Accounting_Amount
begin

section \<open>Chart of accounts and ledger (accounting/ledger.rs, ledger/chart.rs)\<close>

text \<open>
  The chart of accounts and the ledger: totals of every account, of every account in every period, and
  the cash flows of every period and class. The ledger is a projection of the journal, built entry
  by entry; an entry that fails half way leaves its traces, and \<open>LedgerUndo\<close> takes them back. The
  first half translates the code. The second half states what applying and undoing guarantee: the
  undo log restores the ledger exactly, whatever was applied, and each total moves by the amounts of the lines.
\<close>

subsection \<open>Chart\<close>

datatype account_element = Asset | Liability | Equity | Revenue | Expense

fun normal_side :: "account_element \<Rightarrow> posting_side" where
  "normal_side Asset = Debit"
| "normal_side Expense = Debit"
| "normal_side Liability = Credit"
| "normal_side Equity = Credit"
| "normal_side Revenue = Credit"

record account_def =
  ad_name :: ustring
  ad_element :: account_element
  ad_is_cash :: bool
  ad_is_contra :: bool

definition new_account_def :: "ustring \<Rightarrow> account_element \<Rightarrow> account_def" where
  "new_account_def name element =
     \<lparr>ad_name = name, ad_element = element, ad_is_cash = False, ad_is_contra = False\<rparr>"

definition with_cash :: "account_def \<Rightarrow> account_def" where
  "with_cash d = d\<lparr>ad_is_cash := True\<rparr>"

definition with_contra :: "account_def \<Rightarrow> account_def" where
  "with_contra d = d\<lparr>ad_is_contra := True\<rparr>"

record account_chart =
  ch_version :: nat
  ch_accounts :: "(ledger_account_id, account_def) bt"

fun chart_loop :: "(ledger_account_id \<times> account_def) list \<Rightarrow> (ledger_account_id, account_def) bt
    \<Rightarrow> accounting_error + (ledger_account_id, account_def) bt" where
  "chart_loop [] m = Inr m"
| "chart_loop ((id', d) # rest) m =
    (if utrim id' = [] then Inl (ChartInvalid (ustr ''empty account code''))
     else if utrim (ad_name d) = [] then Inl (ChartInvalid (ustr ''empty name for account '' @ id'))
     else if map_of m id' \<noteq> None then Inl (ChartInvalid (ustr ''duplicate account '' @ id'))
     else chart_loop rest (bt_insert id' d m))"

definition new_chart :: "nat \<Rightarrow> (ledger_account_id \<times> account_def) list \<Rightarrow> accounting_error + account_chart" where
  "new_chart version accounts =
     bind_result (chart_loop accounts []) (\<lambda>m. Inr \<lparr>ch_version = version, ch_accounts = m\<rparr>)"

text \<open>The general chart; the source unwraps the result. The names are code points.\<close>

definition generic_account_chart :: "accounting_error + account_chart" where
  "generic_account_chart = new_chart 1 [
    (ustr ''1001'', with_cash (new_account_def [24211, 23384, 29616, 37329] Asset)),
    (ustr ''1002'', with_cash (new_account_def [38134, 34892, 23384, 27454] Asset)),
    (ustr ''1122'', new_account_def [24212, 25910, 36134, 27454] Asset),
    (ustr ''1601'', new_account_def [22266, 23450, 36164, 20135] Asset),
    (ustr ''1602'', with_contra (new_account_def [32047, 35745, 25240, 26087] Asset)),
    (ustr ''2001'', new_account_def [30701, 26399, 20511, 27454] Liability),
    (ustr ''2202'', new_account_def [24212, 20184, 36134, 27454] Liability),
    (ustr ''2221'', new_account_def [24212, 20132, 31246, 36153] Liability),
    (ustr ''2231'', new_account_def [24212, 20184, 21033, 24687] Liability),
    (ustr ''4001'', new_account_def [23454, 25910, 36164, 26412] Equity),
    (ustr ''4103'', new_account_def [26412, 24180, 21033, 28070] Equity),
    (ustr ''6001'', new_account_def [20027, 33829, 19994, 21153, 25910, 20837] Revenue),
    (ustr ''6401'', new_account_def [20027, 33829, 19994, 21153, 25104, 26412] Expense),
    (ustr ''6602'', new_account_def [31649, 29702, 36153, 29992] Expense),
    (ustr ''6603'', new_account_def [36130, 21153, 36153, 29992] Expense),
    (ustr ''6801'', new_account_def [25152, 24471, 31246, 36153, 29992] Expense)]"

definition chart_get :: "ledger_account_id \<Rightarrow> account_chart \<Rightarrow> account_def option" where
  "chart_get id' c = map_of (ch_accounts c) id'"

definition chart_contains :: "ledger_account_id \<Rightarrow> account_chart \<Rightarrow> bool" where
  "chart_contains id' c \<longleftrightarrow> map_of (ch_accounts c) id' \<noteq> None"

definition chart_is_cash :: "ledger_account_id \<Rightarrow> account_chart \<Rightarrow> bool" where
  "chart_is_cash id' c = (case map_of (ch_accounts c) id' of None \<Rightarrow> False | Some d \<Rightarrow> ad_is_cash d)"

subsection \<open>Balances and the ledger\<close>

record account_balance =
  ab_debit :: amount
  ab_credit :: amount

definition zero_balance :: account_balance where
  "zero_balance = \<lparr>ab_debit = 0, ab_credit = 0\<rparr>"

definition net_debit :: "account_balance \<Rightarrow> accounting_error + amount" where
  "net_debit b = amount_sub (ab_debit b) (ab_credit b)"

record trial_balance_summary =
  tb_debits :: amount
  tb_credits :: amount

record ledger =
  lg_chart :: account_chart
  lg_totals :: "(ledger_account_id, account_balance) bt"
  lg_periods :: "(ledger_account_id \<times> accounting_period, account_balance) bt"
  lg_cash :: "(accounting_period \<times> cash_flow_class, amount) bt"

definition new_ledger :: "account_chart \<Rightarrow> ledger" where
  "new_ledger c = \<lparr>lg_chart = c, lg_totals = [], lg_periods = [], lg_cash = []\<rparr>"

text \<open>The old values of the keys a batch may touch; \<open>None\<close> for a key that was absent.\<close>

record ledger_undo =
  lu_totals :: "(ledger_account_id, account_balance option) bt"
  lu_periods :: "(ledger_account_id \<times> accounting_period, account_balance option) bt"
  lu_cash :: "(accounting_period \<times> cash_flow_class, amount option) bt"

fun restore_keys :: "('k::linorder, 'v) bt \<Rightarrow> ('k \<times> 'v option) list \<Rightarrow> ('k, 'v) bt" where
  "restore_keys m [] = m"
| "restore_keys m ((k, old) # saved) =
     restore_keys (case old of Some v \<Rightarrow> bt_insert k v m | None \<Rightarrow> bt_remove k m) saved"

definition undo_restore :: "ledger_undo \<Rightarrow> ledger \<Rightarrow> ledger" where
  "undo_restore u l = l\<lparr>lg_totals := restore_keys (lg_totals l) (lu_totals u),
     lg_periods := restore_keys (lg_periods l) (lu_periods u),
     lg_cash := restore_keys (lg_cash l) (lu_cash u)\<rparr>"

text \<open>\<open>entry(key).or_insert_with(..)\<close>: the first old value of a key is kept.\<close>

definition or_insert :: "'k::linorder \<Rightarrow> 'v \<Rightarrow> ('k, 'v) bt \<Rightarrow> ('k, 'v) bt" where
  "or_insert k v m = (if map_of m k = None then bt_insert k v m else m)"

definition snapshot_line :: "ledger \<Rightarrow> journal_entry \<Rightarrow> journal_line \<Rightarrow> ledger_undo \<Rightarrow> ledger_undo" where
  "snapshot_line l e line u = (let
     period = period_of_date (je_date e);
     period_key = (jl_account line, period);
     cash_key = (period, je_cash_flow e);
     u1 = u\<lparr>lu_totals := or_insert (jl_account line) (map_of (lg_totals l) (jl_account line)) (lu_totals u),
            lu_periods := or_insert period_key (map_of (lg_periods l) period_key) (lu_periods u)\<rparr>
   in if chart_is_cash (jl_account line) (lg_chart l)
      then u1\<lparr>lu_cash := or_insert cash_key (map_of (lg_cash l) cash_key) (lu_cash u1)\<rparr>
      else u1)"

definition snapshot_batch_keys :: "ledger \<Rightarrow> journal_entry list \<Rightarrow> ledger_undo" where
  "snapshot_batch_keys l batch =
     fold (\<lambda>e u. fold (snapshot_line l e) (je_lines e) u) batch \<lparr>lu_totals = [], lu_periods = [], lu_cash = []\<rparr>"

subsection \<open>Applying an entry\<close>

definition apply_side :: "account_balance \<Rightarrow> posting_side \<Rightarrow> amount \<Rightarrow> accounting_error + account_balance" where
  "apply_side b sd a = (case sd of
      Debit \<Rightarrow> bind_result (amount_add (ab_debit b) a) (\<lambda>v. Inr (b\<lparr>ab_debit := v\<rparr>))
    | Credit \<Rightarrow> bind_result (amount_add (ab_credit b) a) (\<lambda>v. Inr (b\<lparr>ab_credit := v\<rparr>)))"

text \<open>
  \<open>entry(key).or_default()\<close> followed by \<open>apply_side\<close> on the slot: the default entry stays when the
  addition fails.
\<close>

definition apply_slot :: "'k::linorder \<Rightarrow> posting_side \<Rightarrow> amount \<Rightarrow> ('k, account_balance) bt
    \<Rightarrow> (accounting_error + unit) \<times> ('k, account_balance) bt" where
  "apply_slot k sd a m = (let m1 = or_insert k zero_balance m;
       b = (case map_of m k of None \<Rightarrow> zero_balance | Some b \<Rightarrow> b) in
     case apply_side b sd a of Inl err \<Rightarrow> (Inl err, m1) | Inr b' \<Rightarrow> (Inr (), bt_insert k b' m1))"

definition apply_cash_flow :: "journal_entry \<Rightarrow> journal_line \<Rightarrow> accounting_period \<Rightarrow> ledger
    \<Rightarrow> (accounting_error + unit) \<times> ledger" where
  "apply_cash_flow e line period l =
    (if je_cash_flow e = NonCash then (Inl (NonCashTouchesCash (je_source e) (jl_account line)), l)
     else let key = (period, je_cash_flow e);
        current = (case map_of (lg_cash l) key of None \<Rightarrow> 0 | Some v \<Rightarrow> v) in
      try_in (case jl_side line of Debit \<Rightarrow> amount_add current (jl_amount line)
          | Credit \<Rightarrow> amount_sub current (jl_amount line)) l (\<lambda>updated.
        (Inr (), l\<lparr>lg_cash := bt_insert key updated (lg_cash l)\<rparr>)))"

definition apply_line :: "journal_entry \<Rightarrow> journal_line \<Rightarrow> ledger \<Rightarrow> (accounting_error + unit) \<times> ledger" where
  "apply_line e line l = (let period = period_of_date (je_date e) in
    case chart_get (jl_account line) (lg_chart l) of
      None \<Rightarrow> (Inl (UnknownAccount (je_source e) (jl_account line)), l)
    | Some d \<Rightarrow>
        (case apply_slot (jl_account line) (jl_side line) (jl_amount line) (lg_totals l) of (r, totals) \<Rightarrow>
         let l1 = l\<lparr>lg_totals := totals\<rparr> in
         try_in r l1 (\<lambda>_.
           case apply_slot (jl_account line, period) (jl_side line) (jl_amount line) (lg_periods l1) of (r, periods) \<Rightarrow>
           let l2 = l1\<lparr>lg_periods := periods\<rparr> in
           try_in r l2 (\<lambda>_.
             if ad_is_cash d then apply_cash_flow e line period l2 else (Inr (), l2)))))"

fun apply_lines :: "journal_entry \<Rightarrow> journal_line list \<Rightarrow> ledger \<Rightarrow> (accounting_error + unit) \<times> ledger" where
  "apply_lines e [] l = (Inr (), l)"
| "apply_lines e (line # lines) l = try_st (apply_line e line l) (\<lambda>_ l'. apply_lines e lines l')"

definition apply_entry :: "journal_entry \<Rightarrow> ledger \<Rightarrow> (accounting_error + unit) \<times> ledger" where
  "apply_entry e l = apply_lines e (je_lines e) l"

subsection \<open>Queries\<close>

definition balance_of :: "ledger_account_id \<Rightarrow> ledger \<Rightarrow> account_balance" where
  "balance_of id' l = (case map_of (lg_totals l) id' of None \<Rightarrow> zero_balance | Some b \<Rightarrow> b)"

definition account_period_balance :: "ledger_account_id \<Rightarrow> accounting_period \<Rightarrow> ledger \<Rightarrow> account_balance" where
  "account_period_balance id' p l = (case map_of (lg_periods l) (id', p) of None \<Rightarrow> zero_balance | Some b \<Rightarrow> b)"

definition account_net_debit :: "ledger_account_id \<Rightarrow> ledger \<Rightarrow> accounting_error + amount" where
  "account_net_debit id' l = net_debit (balance_of id' l)"

definition element_net_debit_sum :: "(account_def \<Rightarrow> bool) \<Rightarrow> ledger \<Rightarrow> accounting_error + amount" where
  "element_net_debit_sum P l = try_fold (\<lambda>tot (id', d).
     if P d then bind_result (net_debit (balance_of id' l)) (\<lambda>n. amount_add tot n) else Inr tot)
     0 (ch_accounts (lg_chart l))"

definition cash_total :: "ledger \<Rightarrow> accounting_error + amount" where
  "cash_total l = element_net_debit_sum ad_is_cash l"

definition liabilities_total :: "ledger \<Rightarrow> accounting_error + amount" where
  "liabilities_total l = bind_result (element_net_debit_sum (\<lambda>d. ad_element d = Liability) l) amount_neg"

definition net_income :: "ledger \<Rightarrow> accounting_error + amount" where
  "net_income l =
    bind_result (bind_result (element_net_debit_sum (\<lambda>d. ad_element d = Revenue) l) amount_neg) (\<lambda>revenues.
    bind_result (element_net_debit_sum (\<lambda>d. ad_element d = Expense) l) (\<lambda>expenses. amount_sub revenues expenses))"

definition equity_rolling :: "ledger \<Rightarrow> accounting_error + amount" where
  "equity_rolling l =
    bind_result (bind_result (element_net_debit_sum (\<lambda>d. ad_element d = Equity) l) amount_neg) (\<lambda>equity.
    bind_result (net_income l) (\<lambda>income. amount_add equity income))"

definition cash_flow_for_period :: "accounting_period \<Rightarrow> cash_flow_class \<Rightarrow> ledger \<Rightarrow> amount" where
  "cash_flow_for_period p c l = (case map_of (lg_cash l) (p, c) of None \<Rightarrow> 0 | Some v \<Rightarrow> v)"

definition cash_flow_total :: "cash_flow_class \<Rightarrow> ledger \<Rightarrow> accounting_error + amount" where
  "cash_flow_total c l = try_fold (\<lambda>tot ((p, key_class), v). if key_class = c then amount_add tot v else Inr tot)
     0 (lg_cash l)"

definition trial_balance :: "ledger \<Rightarrow> accounting_error + trial_balance_summary" where
  "trial_balance l = bind_result (try_fold (\<lambda>(dr, cr) b.
       bind_result (amount_add dr (ab_debit b)) (\<lambda>dr'.
       bind_result (amount_add cr (ab_credit b)) (\<lambda>cr'. Inr (dr', cr')))) (0, 0) (bt_values (lg_totals l)))
     (\<lambda>(dr, cr). Inr \<lparr>tb_debits = dr, tb_credits = cr\<rparr>)"

end
