(* ===== verification/Books.thy ===== *)
theory Books
  imports Ledger
begin

section \<open>Journal and books (accounting/journal.rs, journal/state.rs, mod.rs)\<close>

text \<open>
  The journal holds the committed batches of entries, an index from sources to dates, and the closed
  periods. \<open>Books\<close> pairs it with the ledger and has the only way to post: a whole batch is checked,
  then applied to the ledger, and on any error the ledger is restored from the undo log. Saving
  writes chart, batches and closed periods; restoring posts every batch again. The chunked history of
  the batches is a list here. In \<open>transact_post_batch\<close> the operation is a parameter.
\<close>

subsection \<open>Entries\<close>

definition je_period :: "journal_entry \<Rightarrow> accounting_period" where
  "je_period e = period_of_date (je_date e)"

text \<open>The loop over the lines: which sides occurred, and their totals.\<close>

fun validate_lines :: "business_event_id \<Rightarrow> journal_line list \<Rightarrow> bool \<times> bool \<times> amount \<times> amount
    \<Rightarrow> accounting_error + bool \<times> bool \<times> amount \<times> amount" where
  "validate_lines ev [] st = Inr st"
| "validate_lines ev (x # xs) (has_debit, has_credit, debit_total, credit_total) =
    (if \<not> 0 < jl_amount x then Inl (NonPositiveLine ev (jl_account x) (jl_side x) (jl_amount x))
     else case jl_side x of
       Debit \<Rightarrow> bind_result (amount_add debit_total (jl_amount x)) (\<lambda>v.
         validate_lines ev xs (True, has_credit, v, credit_total))
     | Credit \<Rightarrow> bind_result (amount_add credit_total (jl_amount x)) (\<lambda>v.
         validate_lines ev xs (has_debit, True, debit_total, v)))"

definition validate_invariants :: "journal_entry \<Rightarrow> accounting_error + unit" where
  "validate_invariants e =
    (if je_kind e \<in> {SimpleRevenueAccrual, SimpleFixedExpenseAccrual, SimpleVariableExpenseAccrual}
        \<and> je_cash_flow e \<noteq> NonCash
     then Inl (SimpleSettlementCashFlow (je_source e) (je_cash_flow e))
     else if je_lines e = [] then Inl (EmptyLines (je_source e))
     else bind_result (validate_lines (je_source e) (je_lines e) (False, False, 0, 0))
       (\<lambda>(has_debit, has_credit, debit_total, credit_total).
         if has_debit \<and> \<not> has_credit then Inl (MissingSide (je_source e) ''credit'')
         else if \<not> has_debit then Inl (MissingSide (je_source e) ''debit'')
         else if debit_total \<noteq> credit_total
         then Inl (Unbalanced (je_source e) (je_date e) debit_total credit_total)
         else Inr ()))"

subsection \<open>Journal\<close>

record journal =
  jn_batches :: "journal_entry list list"
  jn_posted :: "(business_event_id, civil_date) bt"
  jn_periods :: period_states

definition new_journal :: journal where
  "new_journal = \<lparr>jn_batches = [], jn_posted = [], jn_periods = []\<rparr>"

definition insert_posted :: "journal_entry list \<Rightarrow> (business_event_id, civil_date) bt \<Rightarrow> (business_event_id, civil_date) bt" where
  "insert_posted batch m = fold (\<lambda>e m. bt_insert (je_source e) (je_date e) m) batch m"

definition remove_posted :: "journal_entry list \<Rightarrow> (business_event_id, civil_date) bt \<Rightarrow> (business_event_id, civil_date) bt" where
  "remove_posted batch m = fold (\<lambda>e m. bt_remove (je_source e) m) batch m"

definition record_batch :: "journal_entry list \<Rightarrow> journal \<Rightarrow> journal" where
  "record_batch batch j =
     j\<lparr>jn_posted := insert_posted batch (jn_posted j), jn_batches := jn_batches j @ [batch]\<rparr>"

function rollback_to_batch_count :: "nat \<Rightarrow> journal \<Rightarrow> journal" where
  "rollback_to_batch_count n j =
    (if n < length (jn_batches j)
     then rollback_to_batch_count n (j\<lparr>jn_batches := butlast (jn_batches j),
         jn_posted := remove_posted (last (jn_batches j)) (jn_posted j)\<rparr>)
     else j)"
  by pat_completeness auto

termination
  by (relation "measure (\<lambda>(n, j). length (jn_batches j))") auto

declare rollback_to_batch_count.simps [simp del]

definition posted_date :: "business_event_id \<Rightarrow> journal \<Rightarrow> civil_date option" where
  "posted_date ev j = map_of (jn_posted j) ev"

definition check_postable :: "journal_entry \<Rightarrow> journal \<Rightarrow> accounting_error + unit" where
  "check_postable e j = (case map_of (jn_posted j) (je_source e) of
      Some first_posted \<Rightarrow> Inl (DuplicatePosting (je_source e) first_posted)
    | None \<Rightarrow> if is_closed (je_period e) (jn_periods j) then Inl (ClosedPeriod (je_period e) (je_source e))
        else Inr ())"

definition journal_close :: "accounting_period \<Rightarrow> journal \<Rightarrow> (accounting_error + unit) \<times> journal" where
  "journal_close p j = (case states_close p (jn_periods j) of (r, s) \<Rightarrow> (r, j\<lparr>jn_periods := s\<rparr>))"

definition journal_period_status :: "accounting_period \<Rightarrow> journal \<Rightarrow> period_status" where
  "journal_period_status p j = states_status p (jn_periods j)"

definition entry_count :: "journal \<Rightarrow> nat" where
  "entry_count j = length (jn_posted j)"

definition journal_entries :: "journal \<Rightarrow> journal_entry list" where
  "journal_entries j = concat (jn_batches j)"

subsection \<open>Books\<close>

record books =
  bk_journal :: journal
  bk_ledger :: ledger

definition new_books :: "account_chart \<Rightarrow> books" where
  "new_books c = \<lparr>bk_journal = new_journal, bk_ledger = new_ledger c\<rparr>"

text \<open>The structural check of one entry; the sources seen in the batch are the state of the loop.\<close>

definition check_entry :: "journal \<Rightarrow> journal_entry \<Rightarrow> (business_event_id, civil_date) bt
    \<Rightarrow> (accounting_error + unit) \<times> (business_event_id, civil_date) bt" where
  "check_entry j e seen = try_in (validate_invariants e) seen (\<lambda>_.
     let seen' = bt_insert (je_source e) (je_date e) seen in
     case map_of seen (je_source e) of
       Some first_posted \<Rightarrow> (Inl (DuplicatePosting (je_source e) first_posted), seen')
     | None \<Rightarrow> (check_postable e j, seen'))"

fun cash_floor_loop :: "ledger \<Rightarrow> ledger_account_id list \<Rightarrow> accounting_error + unit" where
  "cash_floor_loop l [] = Inr ()"
| "cash_floor_loop l (a # as) = bind_result (account_net_debit a l) (\<lambda>projected.
     if projected < 0 then Inl (NegativeCashProhibited a projected) else cash_floor_loop l as)"

definition check_cash_floor :: "ledger \<Rightarrow> accounting_error + unit" where
  "check_cash_floor l = cash_floor_loop l (map fst (filter (\<lambda>(a, d). ad_is_cash d) (ch_accounts (lg_chart l))))"

definition apply_batch_candidate :: "journal_entry list \<Rightarrow> books \<Rightarrow> (accounting_error + ledger_undo) \<times> books" where
  "apply_batch_candidate batch b = (let abort = BatchAborted (length batch) in
    case fst (try_steps (check_entry (bk_journal b)) 0 batch []) of
      Inl (idx, cause) \<Rightarrow> (Inl (abort (Some idx) cause), b)
    | Inr _ \<Rightarrow> (let undo = snapshot_batch_keys (bk_ledger b) batch in
        case try_steps apply_entry 0 batch (bk_ledger b) of
          (Inl (idx, cause), l) \<Rightarrow> (Inl (abort (Some idx) cause), b\<lparr>bk_ledger := undo_restore undo l\<rparr>)
        | (Inr _, l) \<Rightarrow> (case check_cash_floor l of
            Inl cause \<Rightarrow> (Inl (abort None cause), b\<lparr>bk_ledger := undo_restore undo l\<rparr>)
          | Inr _ \<Rightarrow> (Inr undo, b\<lparr>bk_ledger := l\<rparr>))))"

definition post_batch :: "journal_entry list \<Rightarrow> books \<Rightarrow> (accounting_error + unit) \<times> books" where
  "post_batch batch b = (if batch = [] then (Inr (), b)
     else try_st (apply_batch_candidate batch b) (\<lambda>_ b'.
       (Inr (), b'\<lparr>bk_journal := record_batch batch (bk_journal b')\<rparr>)))"

datatype 'e books_transaction_error = TransactionAccounting accounting_error | TransactionOperation 'e

definition transact_post_batch ::
  "journal_entry list \<Rightarrow> (books \<Rightarrow> 'e + 't) \<Rightarrow> books \<Rightarrow> ('e books_transaction_error + 't) \<times> books" where
  "transact_post_batch batch operation b =
    (if batch = [] then (map_error TransactionOperation (operation b), b)
     else case apply_batch_candidate batch b of
       (Inl e, b') \<Rightarrow> (Inl (TransactionAccounting e), b')
     | (Inr undo, b') \<Rightarrow>
         (let batch_count = length (jn_batches (bk_journal b'));
              b2 = b'\<lparr>bk_journal := record_batch batch (bk_journal b')\<rparr> in
          case operation b2 of
            Inr v \<Rightarrow> (Inr v, b2)
          | Inl e \<Rightarrow> (Inl (TransactionOperation e),
              b2\<lparr>bk_journal := rollback_to_batch_count batch_count (bk_journal b2),
                 bk_ledger := undo_restore undo (bk_ledger b2)\<rparr>)))"

definition books_close_period :: "accounting_period \<Rightarrow> books \<Rightarrow> (accounting_error + unit) \<times> books" where
  "books_close_period p b = (case journal_close p (bk_journal b) of (r, j) \<Rightarrow> (r, b\<lparr>bk_journal := j\<rparr>))"

subsection \<open>Saving and restoring\<close>

text \<open>The saved facts. The error of a restored source is a message in the source.\<close>

record books_save =
  sv_chart :: account_chart
  sv_batches :: "journal_entry list list"
  sv_closed :: "accounting_period list"

datatype restore_error = RestoreAccounting accounting_error | RestoreDuplicateSource business_event_id

definition save_books :: "books \<Rightarrow> books_save" where
  "save_books b = \<lparr>sv_chart = lg_chart (bk_ledger b), sv_batches = jn_batches (bk_journal b),
     sv_closed = closed_periods (jn_periods (bk_journal b))\<rparr>"

fun close_all :: "accounting_period list \<Rightarrow> period_states \<Rightarrow> accounting_error + period_states" where
  "close_all [] s = Inr s"
| "close_all (p # ps) s = (case states_close p s of (Inl e, _) \<Rightarrow> Inl e | (Inr _, s') \<Rightarrow> close_all ps s')"

fun restore_posted :: "journal_entry list \<Rightarrow> (business_event_id, civil_date) bt
    \<Rightarrow> restore_error + (business_event_id, civil_date) bt" where
  "restore_posted [] m = Inr m"
| "restore_posted (e # es) m =
    (if map_of m (je_source e) \<noteq> None then Inl (RestoreDuplicateSource (je_source e))
     else restore_posted es (bt_insert (je_source e) (je_date e) m))"

definition restore_journal :: "journal_entry list list \<Rightarrow> accounting_period list \<Rightarrow> restore_error + journal" where
  "restore_journal batches closed_list =
    bind_result (map_error RestoreAccounting (close_all closed_list [])) (\<lambda>periods.
    try_fold (\<lambda>j batch. bind_result (restore_posted batch (jn_posted j)) (\<lambda>posted.
        Inr (j\<lparr>jn_posted := posted, jn_batches := jn_batches j @ [batch]\<rparr>)))
      \<lparr>jn_batches = [], jn_posted = [], jn_periods = periods\<rparr> batches)"

fun post_all :: "journal_entry list list \<Rightarrow> books \<Rightarrow> (accounting_error + unit) \<times> books" where
  "post_all [] b = (Inr (), b)"
| "post_all (batch # batches) b = try_st (post_batch batch b) (\<lambda>_ b'. post_all batches b')"

fun close_periods :: "accounting_period list \<Rightarrow> books \<Rightarrow> (accounting_error + unit) \<times> books" where
  "close_periods [] b = (Inr (), b)"
| "close_periods (p # ps) b = try_st (books_close_period p b) (\<lambda>_ b'. close_periods ps b')"

definition restore_books :: "books_save \<Rightarrow> restore_error + books" where
  "restore_books s =
    bind_result (restore_journal (sv_batches s) (sv_closed s)) (\<lambda>j.
    case post_all (jn_batches j) (new_books (sv_chart s)) of
      (Inl e, _) \<Rightarrow> Inl (RestoreAccounting e)
    | (Inr _, b) \<Rightarrow> (case close_periods (closed_periods (jn_periods j)) b of
        (Inl e, _) \<Rightarrow> Inl (RestoreAccounting e)
      | (Inr _, b') \<Rightarrow> Inr b'))"

end
