(* ===== verification/Ledger_Laws.thy ===== *)
theory Ledger_Laws
  imports Ledger
begin

section \<open>What the ledger promises: undoing, and projecting the entries\<close>

text \<open>
  Two contracts of the ledger. The undo log of a batch restores the ledger exactly after any part of
  the batch was applied, failed additions included; it is stated as the locale \<open>undo_log\<close>, whose
  client lemma covers the loop of \<open>Books\<close>. And a ledger that lines were applied to is their
  projection: each of its three indexes holds the sums of the amounts of the lines.
\<close>

subsection \<open>Logged keys\<close>

text \<open>The log holds the old value of exactly the given keys.\<close>

definition logged :: "('k::linorder, 'v) bt \<Rightarrow> 'k set \<Rightarrow> ('k, 'v option) bt \<Rightarrow> bool" where
  "logged m ks u \<longleftrightarrow> bt_sorted u \<and> (\<forall>k. map_of u k = (if k \<in> ks then Some (map_of m k) else None))"

lemma logged_empty [simp]: "logged m {} []"
  by (simp add: logged_def)

lemma bt_sorted_or_insert [simp]: "bt_sorted m \<Longrightarrow> bt_sorted (or_insert k v m)"
  by (simp add: or_insert_def)

lemma map_of_or_insert:
  "bt_sorted m \<Longrightarrow> map_of (or_insert k v m) c = (if c = k \<and> map_of m k = None then Some v else map_of m c)"
  by (simp add: or_insert_def map_of_bt_insert)

lemma logged_or_insert: "logged m ks u \<Longrightarrow> logged m (insert k ks) (or_insert k (map_of m k) u)"
  by (auto simp: logged_def map_of_or_insert)

lemma restore_keys_sorted: "bt_sorted m \<Longrightarrow> bt_sorted (restore_keys m saved)"
  by (induction m saved rule: restore_keys.induct) (auto split: option.split)

lemma map_of_restore_keys:
  assumes "bt_sorted m" "bt_sorted saved"
  shows "map_of (restore_keys m saved) k = (case map_of saved k of None \<Rightarrow> map_of m k | Some old \<Rightarrow> old)"
  using assms
proof (induction m saved rule: restore_keys.induct)
  case (2 m j old saved)
  let ?m = "case old of Some v \<Rightarrow> bt_insert j v m | None \<Rightarrow> bt_remove j m"
  have m: "bt_sorted ?m" "map_of ?m = (map_of m)(j := old)"
    using 2(2) by (auto simp: map_of_bt_insert map_of_bt_remove split: option.split)
  have "map_of saved j = None" using 2(3) by (force simp: map_of_eq_None_iff)
  with 2 m show ?case by (auto split: option.split)
qed simp

lemma restore_logged:
  assumes "logged m ks u" "bt_sorted m" "bt_sorted m'" "\<And>k. k \<notin> ks \<Longrightarrow> map_of m' k = map_of m k"
  shows "restore_keys m' u = m"
  using assms
  by (intro bt_map_of_determined) (auto simp: logged_def restore_keys_sorted map_of_restore_keys fun_eq_iff)

subsection \<open>The undo log of the ledger\<close>

definition total_keys :: "journal_entry list \<Rightarrow> ledger_account_id set" where
  "total_keys b = {jl_account x |e x. e \<in> set b \<and> x \<in> set (je_lines e)}"

definition period_keys :: "journal_entry list \<Rightarrow> (ledger_account_id \<times> accounting_period) set" where
  "period_keys b = {(jl_account x, period_of_date (je_date e)) |e x. e \<in> set b \<and> x \<in> set (je_lines e)}"

definition cash_keys :: "account_chart \<Rightarrow> journal_entry list \<Rightarrow> (accounting_period \<times> cash_flow_class) set" where
  "cash_keys c b = {(period_of_date (je_date e), je_cash_flow e) |e x. e \<in> set b \<and> x \<in> set (je_lines e)
     \<and> chart_is_cash (jl_account x) c}"

definition ledger_sorted :: "ledger \<Rightarrow> bool" where
  "ledger_sorted l \<longleftrightarrow> bt_sorted (lg_totals l) \<and> bt_sorted (lg_periods l) \<and> bt_sorted (lg_cash l)"

definition ledger_agrees :: "journal_entry list \<Rightarrow> ledger \<Rightarrow> ledger \<Rightarrow> bool" where
  "ledger_agrees b l0 l \<longleftrightarrow> lg_chart l = lg_chart l0
     \<and> (\<forall>k. k \<notin> total_keys b \<longrightarrow> map_of (lg_totals l) k = map_of (lg_totals l0) k)
     \<and> (\<forall>k. k \<notin> period_keys b \<longrightarrow> map_of (lg_periods l) k = map_of (lg_periods l0) k)
     \<and> (\<forall>k. k \<notin> cash_keys (lg_chart l0) b \<longrightarrow> map_of (lg_cash l) k = map_of (lg_cash l0) k)"

definition undo_logged :: "ledger \<Rightarrow> (journal_entry \<times> journal_line) set \<Rightarrow> ledger_undo \<Rightarrow> bool" where
  "undo_logged l fs u \<longleftrightarrow> logged (lg_totals l) {jl_account x |e x. (e, x) \<in> fs} (lu_totals u)
     \<and> logged (lg_periods l) {(jl_account x, period_of_date (je_date e)) |e x. (e, x) \<in> fs} (lu_periods u)
     \<and> logged (lg_cash l) {(period_of_date (je_date e), je_cash_flow e) |e x. (e, x) \<in> fs
          \<and> chart_is_cash (jl_account x) (lg_chart l)} (lu_cash u)"

lemma undo_logged_line:
  assumes "undo_logged l fs u"
  shows "undo_logged l (insert (e, x) fs) (snapshot_line l e x u)"
proof -
  have s: "{jl_account y |d y. (d, y) \<in> insert (e, x) fs} = insert (jl_account x) {jl_account y |d y. (d, y) \<in> fs}"
    "{(jl_account y, period_of_date (je_date d)) |d y. (d, y) \<in> insert (e, x) fs}
      = insert (jl_account x, period_of_date (je_date e)) {(jl_account y, period_of_date (je_date d)) |d y. (d, y) \<in> fs}"
    "{(period_of_date (je_date d), je_cash_flow d) |d y. (d, y) \<in> insert (e, x) fs \<and> chart_is_cash (jl_account y) (lg_chart l)}
      = (if chart_is_cash (jl_account x) (lg_chart l) then insert (period_of_date (je_date e), je_cash_flow e) else id)
          {(period_of_date (je_date d), je_cash_flow d) |d y. (d, y) \<in> fs \<and> chart_is_cash (jl_account y) (lg_chart l)}"
    by auto
  show ?thesis using assms unfolding undo_logged_def s
    by (simp add: snapshot_line_def Let_def logged_or_insert)
qed

lemma undo_logged_lines:
  "undo_logged l fs u \<Longrightarrow> undo_logged l (fs \<union> {e} \<times> set xs) (fold (snapshot_line l e) xs u)"
proof (induction xs arbitrary: fs u)
  case (Cons x xs)
  from Cons.IH [OF undo_logged_line [OF Cons.prems, of e x]]
  show ?case by (simp add: insert_Times_insert Un_commute Un_left_commute)
qed simp

definition batch_lines :: "journal_entry list \<Rightarrow> (journal_entry \<times> journal_line) set" where
  "batch_lines b = {(e, x). e \<in> set b \<and> x \<in> set (je_lines e)}"

lemma undo_logged_entries:
  "undo_logged l fs u \<Longrightarrow> undo_logged l (fs \<union> batch_lines b) (fold (\<lambda>e u. fold (snapshot_line l e) (je_lines e) u) b u)"
proof (induction b arbitrary: fs u)
  case (Cons e b)
  have "fs \<union> {e} \<times> set (je_lines e) \<union> batch_lines b = fs \<union> batch_lines (e # b)" by (auto simp: batch_lines_def)
  with Cons.IH [OF undo_logged_lines [OF Cons.prems, of e "je_lines e"]] show ?case by simp
qed (simp add: batch_lines_def)

lemma snapshot_logged: "undo_logged l (batch_lines b) (snapshot_batch_keys l b)"
  using undo_logged_entries [of l "{}" "\<lparr>lu_totals = [], lu_periods = [], lu_cash = []\<rparr>" b]
  by (simp add: snapshot_batch_keys_def undo_logged_def)

lemma batch_keys:
  "{jl_account x |e x. (e, x) \<in> batch_lines b} = total_keys b"
  "{(jl_account x, period_of_date (je_date e)) |e x. (e, x) \<in> batch_lines b} = period_keys b"
  "{(period_of_date (je_date e), je_cash_flow e) |e x. (e, x) \<in> batch_lines b \<and> chart_is_cash (jl_account x) c}
    = cash_keys c b"
  by (auto simp: batch_lines_def total_keys_def period_keys_def cash_keys_def)

lemma undo_agreeing_ledger:
  assumes "ledger_agrees b l0 l" "ledger_sorted l0" "ledger_sorted l"
  shows "undo_restore (snapshot_batch_keys l0 b) l = l0"
proof -
  have lg: "logged (lg_totals l0) (total_keys b) (lu_totals (snapshot_batch_keys l0 b))"
    "logged (lg_periods l0) (period_keys b) (lu_periods (snapshot_batch_keys l0 b))"
    "logged (lg_cash l0) (cash_keys (lg_chart l0) b) (lu_cash (snapshot_batch_keys l0 b))"
    using snapshot_logged [of l0 b] unfolding undo_logged_def batch_keys by simp_all
  have "restore_keys (lg_totals l) (lu_totals (snapshot_batch_keys l0 b)) = lg_totals l0"
    "restore_keys (lg_periods l) (lu_periods (snapshot_batch_keys l0 b)) = lg_periods l0"
    "restore_keys (lg_cash l) (lu_cash (snapshot_batch_keys l0 b)) = lg_cash l0"
    by (rule restore_logged [OF lg(1)] restore_logged [OF lg(2)] restore_logged [OF lg(3)];
        use assms in \<open>simp add: ledger_agrees_def ledger_sorted_def split_paired_all\<close>)+
  then show ?thesis using assms(1) by (simp add: undo_restore_def ledger_agrees_def)
qed

text \<open>What applying one line does to each index, whether it succeeds or not.\<close>

definition posted_to :: "posting_side \<Rightarrow> amount \<Rightarrow> account_balance \<Rightarrow> account_balance" where
  "posted_to sd a b = (case sd of Debit \<Rightarrow> b\<lparr>ab_debit := ab_debit b + a\<rparr> | Credit \<Rightarrow> b\<lparr>ab_credit := ab_credit b + a\<rparr>)"

definition slot_balance :: "account_balance option \<Rightarrow> account_balance" where
  "slot_balance v = (case v of None \<Rightarrow> zero_balance | Some b \<Rightarrow> b)"

lemma slot_balance_simps [simp]: "slot_balance None = zero_balance" "slot_balance (Some b) = b"
  by (simp_all add: slot_balance_def)

lemma apply_slot_map:
  assumes "apply_slot k sd a m = (r, m')" "bt_sorted m"
  shows "bt_sorted m' \<and> (\<forall>c. c \<noteq> k \<longrightarrow> map_of m' c = map_of m c)
    \<and> (r = Inr () \<longrightarrow> m' = bt_insert k (posted_to sd a (slot_balance (map_of m k))) m)"
proof -
  have ins: "bt_insert k v (bt_insert k w m) = bt_insert k v m" for v w
    using assms(2) by (intro bt_map_of_determined) (simp_all add: map_of_bt_insert)
  show ?thesis using assms
    by (auto simp: apply_slot_def apply_side_def Let_def map_of_or_insert map_of_bt_insert or_insert_def ins
        bind_result_Inr_iff posted_to_def slot_balance_def split: sum.splits posting_side.splits if_splits option.splits)
qed

lemma apply_cash_flow_cases:
  assumes "apply_cash_flow e x p l = (r, l')"
  shows "(\<exists>err. r = Inl err) \<and> l' = l
    \<or> r = Inr () \<and> je_cash_flow e \<noteq> NonCash
      \<and> l' = l\<lparr>lg_cash := bt_insert (p, je_cash_flow e) (cash_flow_for_period p (je_cash_flow e) l
          + (case jl_side x of Debit \<Rightarrow> jl_amount x | Credit \<Rightarrow> - jl_amount x)) (lg_cash l)\<rparr>"
  using assms
  by (auto simp: apply_cash_flow_def Let_def try_in_def cash_flow_for_period_def
      split: if_splits sum.splits posting_side.splits)

lemma apply_line_frame:
  assumes "apply_line e x l = (r, l')" "ledger_sorted l"
  shows "ledger_sorted l' \<and> lg_chart l' = lg_chart l
    \<and> (\<forall>k. k \<noteq> jl_account x \<longrightarrow> map_of (lg_totals l') k = map_of (lg_totals l) k)
    \<and> (\<forall>k. k \<noteq> (jl_account x, period_of_date (je_date e)) \<longrightarrow> map_of (lg_periods l') k = map_of (lg_periods l) k)
    \<and> (\<forall>k. \<not> (chart_is_cash (jl_account x) (lg_chart l) \<and> k = (period_of_date (je_date e), je_cash_flow e)) \<longrightarrow>
        map_of (lg_cash l') k = map_of (lg_cash l) k)"
proof (cases "chart_get (jl_account x) (lg_chart l)")
  case None
  then show ?thesis using assms by (simp add: apply_line_def)
next
  case (Some d)
  let ?p = "period_of_date (je_date e)"
  obtain r1 m1 where s1: "apply_slot (jl_account x) (jl_side x) (jl_amount x) (lg_totals l) = (r1, m1)" by fastforce
  obtain r2 m2 where s2: "apply_slot (jl_account x, ?p) (jl_side x) (jl_amount x) (lg_periods l) = (r2, m2)" by fastforce
  note a1 = apply_slot_map [OF s1] and a2 = apply_slot_map [OF s2]
  let ?l1 = "l\<lparr>lg_totals := m1\<rparr>" and ?l2 = "l\<lparr>lg_totals := m1, lg_periods := m2\<rparr>"
  have cash: "chart_is_cash (jl_account x) (lg_chart l) = ad_is_cash d"
    using Some by (simp add: chart_is_cash_def chart_get_def)
  have st: "bt_sorted (lg_totals l)" "bt_sorted (lg_periods l)" "bt_sorted (lg_cash l)"
    using assms(2) by (simp_all add: ledger_sorted_def)
  have "l' = ?l1 \<or> l' = ?l2 \<or> (ad_is_cash d \<and> apply_cash_flow e x ?p ?l2 = (r, l'))"
    using assms(1) Some s1 s2 by (auto simp: apply_line_def Let_def try_in_def split: sum.splits if_splits)
  then show ?thesis
  proof (elim disjE conjE)
    assume c: "ad_is_cash d" "apply_cash_flow e x ?p ?l2 = (r, l')"
    from apply_cash_flow_cases [OF c(2)] show ?thesis
      using c(1) cash st a1 a2 by (auto simp: ledger_sorted_def map_of_bt_insert)
  qed (use st a1 a2 in \<open>auto simp: ledger_sorted_def\<close>)
qed

lemma apply_line_agrees:
  assumes "ledger_agrees b l0 l" "ledger_sorted l" "e \<in> set b" "x \<in> set (je_lines e)"
  shows "ledger_agrees b l0 (snd (apply_line e x l)) \<and> ledger_sorted (snd (apply_line e x l))"
proof -
  obtain r l' where a: "apply_line e x l = (r, l')" by fastforce
  have k: "jl_account x \<in> total_keys b" "(jl_account x, period_of_date (je_date e)) \<in> period_keys b"
    "chart_is_cash (jl_account x) c \<Longrightarrow> (period_of_date (je_date e), je_cash_flow e) \<in> cash_keys c b" for c
    using assms(3,4) by (auto simp: total_keys_def period_keys_def cash_keys_def)
  note f = apply_line_frame [OF a assms(2)]
  have c: "lg_chart l = lg_chart l0" using assms(1) by (simp add: ledger_agrees_def)
  have "map_of (lg_totals l') i = map_of (lg_totals l0) i" if "i \<notin> total_keys b" for i
    using f k(1) that assms(1) by (metis ledger_agrees_def)
  moreover have "map_of (lg_periods l') i = map_of (lg_periods l0) i" if "i \<notin> period_keys b" for i
    using f k(2) that assms(1) by (metis ledger_agrees_def)
  moreover have "map_of (lg_cash l') i = map_of (lg_cash l0) i" if "i \<notin> cash_keys (lg_chart l0) b" for i
    using f k(3) that assms(1) c by (metis ledger_agrees_def)
  ultimately show ?thesis using f c by (simp add: a ledger_agrees_def)
qed

lemma apply_lines_agrees:
  assumes "ledger_agrees b l0 l" "ledger_sorted l" "e \<in> set b" "set xs \<subseteq> set (je_lines e)"
  shows "ledger_agrees b l0 (snd (apply_lines e xs l)) \<and> ledger_sorted (snd (apply_lines e xs l))"
  using assms
proof (induction xs arbitrary: l)
  case (Cons x xs)
  obtain r l' where a: "apply_line e x l = (r, l')" by fastforce
  have "ledger_agrees b l0 l' \<and> ledger_sorted l'" using apply_line_agrees [of b l0 l e x] Cons.prems a by simp
  with Cons a show ?case by (cases r) auto
qed simp

interpretation ledger_undo: undo_log snapshot_batch_keys undo_restore apply_entry ledger_sorted ledger_agrees
proof unfold_locales
  fix b and s :: ledger show "ledger_agrees b s s" by (simp add: ledger_agrees_def)
next
  fix s :: ledger and c assume "ledger_sorted s"
  then show "ledger_sorted (snd (apply_entry c s))"
    using apply_lines_agrees [of "[c]" s s c "je_lines c"] by (simp add: apply_entry_def ledger_agrees_def)
next
  fix b and s0 s :: ledger and c assume "ledger_agrees b s0 s" "ledger_sorted s" "c \<in> set b"
  then show "ledger_agrees b s0 (snd (apply_entry c s))"
    using apply_lines_agrees [of b s0 s c "je_lines c"] by (simp add: apply_entry_def)
qed (rule undo_agreeing_ledger)

subsection \<open>The ledger as the projection of the lines\<close>

text \<open>Sums of the amounts of the lines on one side that satisfy a condition.\<close>

type_synonym facts = "(journal_entry \<times> journal_line) list"

definition amounts_on :: "posting_side \<Rightarrow> (journal_entry \<Rightarrow> journal_line \<Rightarrow> bool) \<Rightarrow> facts \<Rightarrow> amount" where
  "amounts_on sd P fs = sum_list (map (\<lambda>(e, x). if jl_side x = sd \<and> P e x then jl_amount x else 0) fs)"

definition facts_of :: "journal_entry list \<Rightarrow> facts" where
  "facts_of es = concat (map (\<lambda>e. map (Pair e) (je_lines e)) es)"

text \<open>The balance the lines with a condition add up to, if there are any.\<close>

definition sums_of :: "(journal_entry \<Rightarrow> journal_line \<Rightarrow> bool) \<Rightarrow> facts \<Rightarrow> account_balance" where
  "sums_of P fs = \<lparr>ab_debit = amounts_on Debit P fs, ab_credit = amounts_on Credit P fs\<rparr>"

definition slot_of :: "(journal_entry \<Rightarrow> journal_line \<Rightarrow> bool) \<Rightarrow> facts \<Rightarrow> account_balance option" where
  "slot_of P fs = (if \<exists>(e, x)\<in>set fs. P e x then Some (sums_of P fs) else None)"

definition on_account :: "ledger_account_id \<Rightarrow> journal_entry \<Rightarrow> journal_line \<Rightarrow> bool" where
  "on_account i e x \<longleftrightarrow> jl_account x = i"

definition in_period :: "accounting_period \<Rightarrow> journal_entry \<Rightarrow> journal_line \<Rightarrow> bool" where
  "in_period p e x \<longleftrightarrow> period_of_date (je_date e) = p"

definition cash_move :: "account_chart \<Rightarrow> accounting_period \<Rightarrow> cash_flow_class \<Rightarrow> journal_entry \<Rightarrow> journal_line \<Rightarrow> bool" where
  "cash_move c p k e x \<longleftrightarrow> chart_is_cash (jl_account x) c \<and> period_of_date (je_date e) = p \<and> je_cash_flow e = k"

text \<open>The specification of the three indexes.\<close>

definition projects :: "facts \<Rightarrow> ledger \<Rightarrow> bool" where
  "projects fs l \<longleftrightarrow> ledger_sorted l
     \<and> (\<forall>i. map_of (lg_totals l) i = slot_of (on_account i) fs)
     \<and> (\<forall>i p. map_of (lg_periods l) (i, p) = slot_of (\<lambda>e x. on_account i e x \<and> in_period p e x) fs)
     \<and> (\<forall>p k. map_of (lg_cash l) (p, k) = map_option (\<lambda>b. ab_debit b - ab_credit b) (slot_of (cash_move (lg_chart l) p k) fs))
     \<and> (\<forall>(e, x)\<in>set fs. chart_get (jl_account x) (lg_chart l) \<noteq> None
          \<and> \<not> (chart_is_cash (jl_account x) (lg_chart l) \<and> je_cash_flow e = NonCash))
     \<and> bt_sum ab_debit (lg_totals l) = amounts_on Debit (\<lambda>_ _. True) fs
     \<and> bt_sum ab_credit (lg_totals l) = amounts_on Credit (\<lambda>_ _. True) fs"

lemma amounts_on_Nil [simp]: "amounts_on sd P [] = 0"
  by (simp add: amounts_on_def)

lemma amounts_on_append [simp]: "amounts_on sd P (fs @ gs) = amounts_on sd P fs + amounts_on sd P gs"
  by (simp add: amounts_on_def)

lemma amounts_on_snoc: "amounts_on sd P (fs @ [(e, x)]) = amounts_on sd P fs + (if jl_side x = sd \<and> P e x then jl_amount x else 0)"
  by (simp add: amounts_on_def)

lemma facts_of_append [simp]: "facts_of (es @ fs) = facts_of es @ facts_of fs"
  by (simp add: facts_of_def)

lemma facts_of_single [simp]: "facts_of [e] = map (Pair e) (je_lines e)"
  by (simp add: facts_of_def)

lemma sums_of_snoc:
  "sums_of P (fs @ [(e, x)]) = (if P e x then posted_to (jl_side x) (jl_amount x) (sums_of P fs) else sums_of P fs)"
  by (cases "jl_side x") (simp_all add: sums_of_def amounts_on_snoc posted_to_def del: amounts_on_append)

lemma slot_balance_slot_of: "slot_balance (slot_of P fs) = sums_of P fs"
proof (cases "\<exists>(e, x)\<in>set fs. P e x")
  case False
  then have n: "\<forall>y\<in>set fs. \<not> (case y of (e, x) \<Rightarrow> P e x)" by blast
  have "amounts_on sd P fs = 0" for sd
    using n by (induction fs) (auto simp: amounts_on_def)
  then show ?thesis using False by (simp add: slot_of_def sums_of_def zero_balance_def)
next
  case True
  then show ?thesis unfolding slot_of_def by (simp only: if_True slot_balance_simps)
qed

lemma slot_of_snoc:
  "slot_of P (fs @ [(e, x)]) = (if P e x then Some (posted_to (jl_side x) (jl_amount x) (slot_balance (slot_of P fs)))
     else slot_of P fs)"
  unfolding slot_balance_slot_of by (simp add: slot_of_def sums_of_snoc)

lemma apply_line_ok:
  assumes "apply_line e x l = (Inr (), l')" "ledger_sorted l"
  defines "p \<equiv> period_of_date (je_date e)" and "cash \<equiv> chart_is_cash (jl_account x) (lg_chart l)"
  shows "chart_get (jl_account x) (lg_chart l) \<noteq> None \<and> \<not> (cash \<and> je_cash_flow e = NonCash)
    \<and> lg_totals l' = bt_insert (jl_account x)
        (posted_to (jl_side x) (jl_amount x) (slot_balance (map_of (lg_totals l) (jl_account x)))) (lg_totals l)
    \<and> lg_periods l' = bt_insert (jl_account x, p)
        (posted_to (jl_side x) (jl_amount x) (slot_balance (map_of (lg_periods l) (jl_account x, p)))) (lg_periods l)
    \<and> lg_cash l' = (if cash then bt_insert (p, je_cash_flow e) (cash_flow_for_period p (je_cash_flow e) l
          + (case jl_side x of Debit \<Rightarrow> jl_amount x | Credit \<Rightarrow> - jl_amount x)) (lg_cash l) else lg_cash l)"
proof -
  have "chart_get (jl_account x) (lg_chart l) \<noteq> None" 
  proof
    assume "chart_get (jl_account x) (lg_chart l) = None"
    with assms(1) show False by (simp add: apply_line_def)
  qed
  then obtain d where d: "chart_get (jl_account x) (lg_chart l) = Some d" by blast
  obtain r1 m1 where s1: "apply_slot (jl_account x) (jl_side x) (jl_amount x) (lg_totals l) = (r1, m1)" by fastforce
  obtain r2 m2 where s2: "apply_slot (jl_account x, p) (jl_side x) (jl_amount x) (lg_periods l) = (r2, m2)" by fastforce
  let ?l2 = "l\<lparr>lg_totals := m1, lg_periods := m2\<rparr>"
  have c: "cash = ad_is_cash d" using d by (simp add: cash_def chart_is_cash_def chart_get_def)
  have r: "r1 = Inr ()" "r2 = Inr ()" "if cash then apply_cash_flow e x p ?l2 = (Inr (), l') else l' = ?l2"
    using assms(1) d s1 s2 c by (auto simp: apply_line_def Let_def p_def try_in_def split: sum.splits if_splits)
  have st: "bt_sorted (lg_totals l)" "bt_sorted (lg_periods l)" using assms(2) by (simp_all add: ledger_sorted_def)
  note a1 = apply_slot_map [OF s1 st(1)] and a2 = apply_slot_map [OF s2 st(2)]
  show ?thesis
  proof (cases cash)
    case True
    with r(3) have "apply_cash_flow e x p ?l2 = (Inr (), l')" by simp
    from apply_cash_flow_cases [OF this] show ?thesis using True d r(1,2) a1 a2
      by (simp add: cash_flow_for_period_def)
  qed (use r d a1 a2 in simp)
qed

lemma cash_flow_of_slot:
  "map_of (lg_cash l) (p, k) = map_option (\<lambda>b. ab_debit b - ab_credit b) v
    \<Longrightarrow> cash_flow_for_period p k l = ab_debit (slot_balance v) - ab_credit (slot_balance v)"
  by (cases v) (simp_all add: cash_flow_for_period_def zero_balance_def)

lemma posted_to_net:
  "ab_debit (posted_to sd a b) - ab_credit (posted_to sd a b)
    = ab_debit b - ab_credit b + (case sd of Debit \<Rightarrow> a | Credit \<Rightarrow> - a)"
  by (cases sd) (simp_all add: posted_to_def)

lemma posted_to_sides:
  "ab_debit (posted_to sd a b) = ab_debit b + (if sd = Debit then a else 0)"
  "ab_credit (posted_to sd a b) = ab_credit b + (if sd = Credit then a else 0)"
  by (cases sd; simp add: posted_to_def)+

lemma bt_sum_posted:
  assumes "bt_sorted m" "f zero_balance = 0"
  shows "bt_sum f (bt_insert k v m) = bt_sum f m - f (slot_balance (map_of m k)) + f v"
  using bt_sum_insert [OF assms(1), of f k v] assms(2) by (cases "map_of m k") simp_all

lemma projects_line:
  assumes "projects fs l" "apply_line e x l = (Inr (), l')"
  shows "projects (fs @ [(e, x)]) l'"
proof -
  let ?p = "period_of_date (je_date e)" and ?i = "jl_account x" and ?k = "je_cash_flow e"
  have srt: "ledger_sorted l" using assms(1) by (simp add: projects_def)
  then have st: "bt_sorted (lg_totals l)" "bt_sorted (lg_periods l)" "bt_sorted (lg_cash l)"
    by (simp_all add: ledger_sorted_def)
  note fr = apply_line_frame [OF assms(2) srt]
  note ok = apply_line_ok [OF assms(2) srt]
  have ch: "lg_chart l' = lg_chart l" and srt': "ledger_sorted l'" using fr by simp_all
  have t: "map_of (lg_totals l') i = slot_of (on_account i) (fs @ [(e, x)])" for i
    using assms(1) ok st by (auto simp: projects_def slot_of_snoc on_account_def map_of_bt_insert)
  have q: "map_of (lg_periods l') (i, p) = slot_of (\<lambda>e x. on_account i e x \<and> in_period p e x) (fs @ [(e, x)])" for i p
    using assms(1) ok st by (auto simp: projects_def slot_of_snoc on_account_def in_period_def map_of_bt_insert)
  have c: "map_of (lg_cash l') (p, k) = map_option (\<lambda>b. ab_debit b - ab_credit b) (slot_of (cash_move (lg_chart l) p k) (fs @ [(e, x)]))" for p k
  proof (cases "cash_move (lg_chart l) p k e x")
    case True
    then have pk: "p = ?p" "k = ?k" and cash: "chart_is_cash ?i (lg_chart l)" by (simp_all add: cash_move_def)
    have "map_of (lg_cash l) (p, k) = map_option (\<lambda>b. ab_debit b - ab_credit b) (slot_of (cash_move (lg_chart l) p k) fs)"
      using assms(1) by (simp add: projects_def)
    from cash_flow_of_slot [OF this] show ?thesis
      using ok cash st True by (simp add: slot_of_snoc posted_to_net map_of_bt_insert pk)
  next
    case False
    then have "map_of (lg_cash l') (p, k) = map_of (lg_cash l) (p, k)" using fr by (auto simp: cash_move_def)
    with False assms(1) show ?thesis by (simp add: projects_def slot_of_snoc)
  qed
  have s: "bt_sum ab_debit (lg_totals l') = amounts_on Debit (\<lambda>_ _. True) (fs @ [(e, x)])"
    "bt_sum ab_credit (lg_totals l') = amounts_on Credit (\<lambda>_ _. True) (fs @ [(e, x)])"
    using assms(1) ok bt_sum_posted [OF st(1), of ab_debit] bt_sum_posted [OF st(1), of ab_credit]
    by (simp_all add: zero_balance_def projects_def posted_to_sides amounts_on_snoc del: amounts_on_append)
  show ?thesis using srt' t q c s ok assms(1) by (auto simp: projects_def ch)
qed

lemma projects_lines:
  "projects fs l \<Longrightarrow> apply_lines e xs l = (Inr (), l') \<Longrightarrow> projects (fs @ map (Pair e) xs) l'"
proof (induction xs arbitrary: fs l)
  case (Cons x xs)
  then obtain l1 where l1: "apply_line e x l = (Inr (), l1)" "apply_lines e xs l1 = (Inr (), l')"
    by (auto simp: try_st_ok_iff)
  from Cons.IH [OF projects_line [OF Cons.prems(1) l1(1)] l1(2)] show ?case by simp
qed simp

lemma projects_steps:
  "projects (facts_of es) l \<Longrightarrow> try_steps apply_entry i b l = (Inr (), l') \<Longrightarrow> projects (facts_of (es @ b)) l'"
proof (induction b arbitrary: es i l)
  case (Cons e b)
  then obtain l1 where l1: "apply_entry e l = (Inr (), l1)" "try_steps apply_entry (Suc i) b l1 = (Inr (), l')"
    by (auto split: prod.splits sum.splits)
  have "projects (facts_of (es @ [e])) l1"
    using projects_lines [OF Cons.prems(1) l1(1) [unfolded apply_entry_def]] by simp
  from Cons.IH [OF this l1(2)] show ?case by simp
qed simp

lemma projects_new: "projects [] (new_ledger c)"
  by (simp add: projects_def new_ledger_def ledger_sorted_def slot_of_def)

text \<open>A ledger is determined by its chart and the lines applied to it.\<close>

lemma projects_determined:
  assumes "projects fs l" "projects fs l'" "lg_chart l = lg_chart l'"
  shows "l = l'"
proof -
  have "lg_totals l = lg_totals l'" "lg_periods l = lg_periods l'" "lg_cash l = lg_cash l'"
    by (rule bt_map_of_determined; use assms in \<open>auto simp: projects_def ledger_sorted_def fun_eq_iff\<close>)+
  with assms(3) show ?thesis by (cases l; cases l') simp
qed

end
