(* ===== verification/Books_Machine.thy ===== *)
theory Books_Machine
  imports Books Ledger_Laws
begin

section \<open>The books as a state machine\<close>

text \<open>
  Commands on books, the reachable books, and their invariant: the ledger projects the entries, the
  index of sources is that of the entries, every entry is valid, and posting the batches again gives
  the same books. On the way, what a posting and a transaction do in each outcome.
\<close>

subsection \<open>The structural check\<close>

definition postable_batch :: "journal \<Rightarrow> journal_entry list \<Rightarrow> bool" where
  "postable_batch j batch \<longleftrightarrow> (\<forall>e\<in>set batch. validate_invariants e = Inr () \<and> check_postable e j = Inr ())
     \<and> distinct (map je_source batch)"

lemma structure_iff:
  assumes "bt_sorted seen"
  shows "fst (try_steps (check_entry j) i batch seen) = Inr () \<longleftrightarrow>
    postable_batch j batch \<and> (\<forall>e\<in>set batch. map_of seen (je_source e) = None)"
  using assms
proof (induction batch arbitrary: i seen)
  case Nil
  then show ?case by (simp add: postable_batch_def)
next
  case (Cons e batch)
  let ?seen = "bt_insert (je_source e) (je_date e) seen"
  show ?case
  proof (cases "validate_invariants e = Inr () \<and> map_of seen (je_source e) = None \<and> check_postable e j = Inr ()")
    case True
    then have "check_entry j e seen = (Inr (), ?seen)" by (simp add: check_entry_def)
    moreover have "(\<forall>d\<in>set batch. map_of ?seen (je_source d) = None) \<longleftrightarrow>
        je_source e \<notin> set (map je_source batch) \<and> (\<forall>d\<in>set batch. map_of seen (je_source d) = None)"
      using Cons.prems by (auto simp: map_of_bt_insert) (metis imageI)
    ultimately show ?thesis using True Cons.IH [of ?seen "Suc i"] Cons.prems
      by (auto simp: postable_batch_def)
  next
    case False
    have "\<exists>err s. check_entry j e seen = (Inl err, s)"
      using False by (cases "validate_invariants e"; cases "map_of seen (je_source e)"; cases "check_postable e j")
        (auto simp: check_entry_def)
    with False show ?thesis by (auto simp: postable_batch_def)
  qed
qed

lemma structure_ok: "fst (try_steps (check_entry j) 0 batch []) = Inr () \<longleftrightarrow> postable_batch j batch"
  by (simp add: structure_iff)

subsection \<open>Posting\<close>

lemma candidate_ok_iff:
  "apply_batch_candidate batch b = (Inr u, b') \<longleftrightarrow> postable_batch (bk_journal b) batch
     \<and> u = snapshot_batch_keys (bk_ledger b) batch
     \<and> (\<exists>l. try_steps apply_entry 0 batch (bk_ledger b) = (Inr (), l) \<and> check_cash_floor l = Inr ()
          \<and> b' = b\<lparr>bk_ledger := l\<rparr>)"
proof (cases "fst (try_steps (check_entry (bk_journal b)) 0 batch [])")
  case (Inl e)
  then have "\<not> postable_batch (bk_journal b) batch" using structure_ok [of "bk_journal b" batch] by simp
  with Inl show ?thesis by (cases e) (simp add: apply_batch_candidate_def Let_def)
next
  case (Inr x)
  then have "postable_batch (bk_journal b) batch" using structure_ok [of "bk_journal b" batch] by simp
  with Inr show ?thesis
    by (auto simp: apply_batch_candidate_def Let_def split: prod.splits sum.splits)
qed

lemma candidate_error:
  assumes "apply_batch_candidate batch b = (Inl e, b')" "ledger_sorted (bk_ledger b)"
  shows "b' = b \<and> (\<exists>i cause. e = BatchAborted (length batch) i cause)"
proof (cases "fst (try_steps (check_entry (bk_journal b)) 0 batch [])")
  case (Inl e)
  with assms(1) show ?thesis by (cases e) (auto simp: apply_batch_candidate_def Let_def)
next
  case (Inr x)
  obtain r l where s: "try_steps apply_entry 0 batch (bk_ledger b) = (r, l)" by fastforce
  have u: "undo_restore (snapshot_batch_keys (bk_ledger b) batch) l = bk_ledger b"
    by (rule ledger_undo.steps_undone [OF s assms(2)])
  show ?thesis
  proof (cases r)
    case (Inl f)
    then show ?thesis using assms(1) Inr s u by (cases f) (auto simp: apply_batch_candidate_def Let_def)
  next
    case (Inr y)
    with assms(1) \<open>fst _ = Inr x\<close> s u show ?thesis
      by (auto simp: apply_batch_candidate_def Let_def split: sum.splits)
  qed
qed

lemma post_error:
  assumes "post_batch batch b = (Inl e, b')" "ledger_sorted (bk_ledger b)"
  shows "b' = b \<and> (\<exists>i cause. e = BatchAborted (length batch) i cause)"
proof -
  obtain r b1 where c: "apply_batch_candidate batch b = (r, b1)" by fastforce
  with assms(1) have "r = Inl e" "b1 = b'" by (cases r; auto simp: post_batch_def split: if_splits)+
  with c candidate_error assms(2) show ?thesis by blast
qed

lemma post_candidate:
  assumes "batch \<noteq> []"
  shows "post_batch batch b = (Inr (), b') \<longleftrightarrow> (\<exists>u b1. apply_batch_candidate batch b = (Inr u, b1)
      \<and> b' = b1\<lparr>bk_journal := record_batch batch (bk_journal b1)\<rparr>)"
  using assms by (auto simp: post_batch_def try_st_ok_iff)

lemma post_ok_iff:
  "post_batch batch b = (Inr (), b') \<longleftrightarrow> (if batch = [] then b' = b else
     postable_batch (bk_journal b) batch \<and> (\<exists>l. try_steps apply_entry 0 batch (bk_ledger b) = (Inr (), l)
       \<and> check_cash_floor l = Inr ()
       \<and> b' = \<lparr>bk_journal = record_batch batch (bk_journal b), bk_ledger = l\<rparr>))"
proof (cases "batch = []")
  case False
  then show ?thesis by (auto simp: candidate_ok_iff post_candidate)
qed (auto simp: post_batch_def)

subsection \<open>The index of sources\<close>

lemma insert_posted_sorted: "bt_sorted m \<Longrightarrow> bt_sorted (insert_posted es m)"
  unfolding insert_posted_def by (induction es arbitrary: m) simp_all

lemma map_of_insert_posted:
  "bt_sorted m \<Longrightarrow> distinct (map je_source es) \<Longrightarrow> map_of (insert_posted es m) k =
    (case map_of (map (\<lambda>e. (je_source e, je_date e)) es) k of None \<Rightarrow> map_of m k | Some d \<Rightarrow> Some d)"
proof (induction es arbitrary: m)
  case (Cons e es)
  have "insert_posted (e # es) m = insert_posted es (bt_insert (je_source e) (je_date e) m)"
    by (simp add: insert_posted_def)
  moreover have "map_of (map (\<lambda>e. (je_source e, je_date e)) es) (je_source e) = None"
    using Cons.prems(2) by (force simp: map_of_eq_None_iff)
  ultimately show ?case using Cons by (auto simp: map_of_bt_insert split: option.split)
qed (simp add: insert_posted_def)

lemma remove_posted_sorted: "bt_sorted m \<Longrightarrow> bt_sorted (remove_posted es m)"
  unfolding remove_posted_def by (induction es arbitrary: m) simp_all

lemma map_of_remove_posted: "map_of (remove_posted es m) k = (if k \<in> je_source ` set es then None else map_of m k)"
proof (induction es arbitrary: m)
  case (Cons e es)
  have "remove_posted (e # es) m = remove_posted es (bt_remove (je_source e) m)" by (simp add: remove_posted_def)
  with Cons show ?case by (auto simp: map_of_bt_remove)
qed (simp add: remove_posted_def)

lemma remove_insert_posted:
  assumes "bt_sorted m" "distinct (map je_source es)" "\<forall>e\<in>set es. map_of m (je_source e) = None"
  shows "remove_posted es (insert_posted es m) = m"
proof (rule bt_map_of_determined)
  have n: "map_of (map (\<lambda>e. (je_source e, je_date e)) es) k = None \<longleftrightarrow> k \<notin> je_source ` set es" for k
    by (force simp: map_of_eq_None_iff)
  show "map_of (remove_posted es (insert_posted es m)) = map_of m"
  proof
    fix k show "map_of (remove_posted es (insert_posted es m)) k = map_of m k"
      using n [of k] assms by (auto simp: map_of_remove_posted map_of_insert_posted split: option.split)
  qed
qed (use assms in \<open>simp_all add: remove_posted_sorted insert_posted_sorted\<close>)

lemma postable_fresh: "postable_batch j batch \<Longrightarrow> e \<in> set batch \<Longrightarrow> map_of (jn_posted j) (je_source e) = None"
  by (auto simp: postable_batch_def check_postable_def split: option.splits)

lemma rollback_record:
  assumes "postable_batch j batch" "bt_sorted (jn_posted j)"
  shows "rollback_to_batch_count (length (jn_batches j)) (record_batch batch j) = j"
proof -
  have r: "remove_posted batch (insert_posted batch (jn_posted j)) = jn_posted j"
    using assms postable_fresh by (intro remove_insert_posted) (auto simp: postable_batch_def)
  show ?thesis
    by (subst rollback_to_batch_count.simps, subst rollback_to_batch_count.simps) (simp add: record_batch_def r)
qed

lemma transact_outcome:
  assumes "transact_post_batch batch operation b = (r, b')" "ledger_sorted (bk_ledger b)" "bt_sorted (jn_posted (bk_journal b))"
  shows "(\<exists>e. r = Inl e) \<and> b' = b \<or> (\<exists>v. r = Inr v) \<and> post_batch batch b = (Inr (), b')"
proof (cases "batch = []")
  case True
  then show ?thesis using assms(1) by (cases "operation b") (auto simp: transact_post_batch_def post_batch_def)
next
  case False
  obtain rc b1 where c: "apply_batch_candidate batch b = (rc, b1)" by fastforce
  show ?thesis
  proof (cases rc)
    case (Inl e)
    with c candidate_error [OF _ assms(2)] have "b1 = b" by blast
    with Inl c assms(1) False show ?thesis by (auto simp: transact_post_batch_def)
  next
    case (Inr u)
    with c obtain l where k: "postable_batch (bk_journal b) batch" "u = snapshot_batch_keys (bk_ledger b) batch"
      "try_steps apply_entry 0 batch (bk_ledger b) = (Inr (), l)" "check_cash_floor l = Inr ()" "b1 = b\<lparr>bk_ledger := l\<rparr>"
      by (auto simp: candidate_ok_iff)
    let ?b2 = "b1\<lparr>bk_journal := record_batch batch (bk_journal b1)\<rparr>"
    have undone: "undo_restore u l = bk_ledger b" unfolding k(2) by (rule ledger_undo.steps_undone [OF k(3) assms(2)])
    have rolled: "rollback_to_batch_count (length (jn_batches (bk_journal b))) (record_batch batch (bk_journal b)) = bk_journal b"
      by (rule rollback_record [OF k(1) assms(3)])
    have p: "post_batch batch b = (Inr (), ?b2)" using c Inr False by (simp add: post_batch_def)
    show ?thesis
    proof (cases "operation ?b2")
      case (Inl e)
      then show ?thesis using assms(1) False c Inr k(5) undone rolled
        by (auto simp: transact_post_batch_def Let_def)
    next
      case (Inr v)
      then show ?thesis using assms(1) False c \<open>rc = Inr u\<close> p by (auto simp: transact_post_batch_def Let_def)
    qed
  qed
qed

subsection \<open>Reachable books and their invariant\<close>

text \<open>An operation inside a transaction is a test that may refuse the books with the batch posted.\<close>

datatype books_command =
    PostBatch "journal_entry list"
  | TransactBatch "journal_entry list" "books \<Rightarrow> bool"
  | ClosePeriod accounting_period

fun run_books :: "books_command \<Rightarrow> books \<Rightarrow> books" where
  "run_books (PostBatch batch) b = snd (post_batch batch b)"
| "run_books (TransactBatch batch f) b =
     snd (transact_post_batch batch (\<lambda>b'. if f b' then Inr () else Inl ()) b)"
| "run_books (ClosePeriod p) b = snd (books_close_period p b)"

inductive books_reachable :: "books \<Rightarrow> bool" where
  new: "bt_sorted (ch_accounts c) \<Longrightarrow> books_reachable (new_books c)"
| step: "books_reachable b \<Longrightarrow> books_reachable (run_books cmd b)"

abbreviation entries_of :: "books \<Rightarrow> journal_entry list" where
  "entries_of b \<equiv> journal_entries (bk_journal b)"

definition reopened :: "books \<Rightarrow> books" where
  "reopened b = b\<lparr>bk_journal := (bk_journal b)\<lparr>jn_periods := []\<rparr>\<rparr>"

definition books_inv :: "books \<Rightarrow> bool" where
  "books_inv b \<longleftrightarrow> bt_sorted (ch_accounts (lg_chart (bk_ledger b)))
     \<and> projects (facts_of (entries_of b)) (bk_ledger b)
     \<and> bt_sorted (jn_posted (bk_journal b)) \<and> bt_sorted (jn_periods (bk_journal b))
     \<and> jn_posted (bk_journal b) = insert_posted (entries_of b) []
     \<and> distinct (map je_source (entries_of b))
     \<and> (\<forall>e\<in>set (entries_of b). validate_invariants e = Inr ())
     \<and> [] \<notin> set (jn_batches (bk_journal b))
     \<and> check_cash_floor (bk_ledger b) = Inr ()
     \<and> post_all (jn_batches (bk_journal b)) (new_books (lg_chart (bk_ledger b))) = (Inr (), reopened b)"

lemma books_invD:
  assumes "books_inv b"
  shows "bt_sorted (ch_accounts (lg_chart (bk_ledger b)))" "projects (facts_of (entries_of b)) (bk_ledger b)"
    "ledger_sorted (bk_ledger b)"
    "bt_sorted (jn_posted (bk_journal b))" "bt_sorted (jn_periods (bk_journal b))"
    "jn_posted (bk_journal b) = insert_posted (entries_of b) []" "distinct (map je_source (entries_of b))"
    "\<forall>e\<in>set (entries_of b). validate_invariants e = Inr ()" "[] \<notin> set (jn_batches (bk_journal b))"
    "check_cash_floor (bk_ledger b) = Inr ()"
    "post_all (jn_batches (bk_journal b)) (new_books (lg_chart (bk_ledger b))) = (Inr (), reopened b)"
  using assms by (auto simp: books_inv_def projects_def)

lemma cash_floor_new: "check_cash_floor (new_ledger c) = Inr ()"
proof -
  have "cash_floor_loop (new_ledger c) as = Inr ()" for as
    by (induction as) (simp_all add: account_net_debit_def balance_of_def new_ledger_def net_debit_def zero_balance_def
        amount_sub_def checked_i128_def in_i128_def)
  then show ?thesis by (simp add: check_cash_floor_def)
qed

lemma new_books_inv:
  assumes "bt_sorted (ch_accounts c)"
  shows "books_inv (new_books c)"
  using assms projects_new [of c] cash_floor_new [of c]
  by (simp add: books_inv_def new_books_def new_journal_def journal_entries_def facts_of_def reopened_def insert_posted_def)
     (simp add: new_ledger_def)

lemma apply_entry_chart:
  assumes "ledger_sorted l"
  shows "lg_chart (snd (apply_entry e l)) = lg_chart l \<and> ledger_sorted (snd (apply_entry e l))"
  using apply_lines_agrees [of "[e]" l l e "je_lines e"] assms by (simp add: apply_entry_def ledger_agrees_def)

lemma steps_chart:
  assumes "try_steps apply_entry i batch l = (r, l')" "ledger_sorted l"
  shows "lg_chart l' = lg_chart l"
proof -
  have "lg_chart l' = lg_chart l \<and> ledger_sorted l'"
    by (rule try_steps_induct [OF assms(1), of "\<lambda>s. lg_chart s = lg_chart l \<and> ledger_sorted s"])
       (use assms(2) apply_entry_chart in auto)
  then show ?thesis by simp
qed

lemma posted_of_entries:
  assumes "books_inv b"
  shows "map_of (jn_posted (bk_journal b)) k = map_of (map (\<lambda>e. (je_source e, je_date e)) (entries_of b)) k"
  unfolding books_invD(6) [OF assms] using map_of_insert_posted [OF bt_sorted_Nil books_invD(7) [OF assms]]
  by (simp split: option.split)

lemma posted_None_iff:
  assumes "books_inv b"
  shows "map_of (jn_posted (bk_journal b)) k = None \<longleftrightarrow> k \<notin> je_source ` set (entries_of b)"
  unfolding posted_of_entries [OF assms] by (force simp: map_of_eq_None_iff)

lemma post_all_append:
  "post_all (xs @ ys) b = try_st (post_all xs b) (\<lambda>_ b'. post_all ys b')"
proof (induction xs arbitrary: b)
  case (Cons x xs)
  then show ?case by (cases "post_batch x b"; cases "fst (post_batch x b)") auto
qed simp

lemma postable_reopened: "postable_batch j batch \<Longrightarrow> postable_batch (j\<lparr>jn_periods := []\<rparr>) batch"
  by (auto simp: postable_batch_def check_postable_def is_closed_def split: option.splits if_splits)

lemma post_preserves:
  assumes "books_inv b" "post_batch batch b = (Inr (), b')"
  shows "books_inv b'"
proof (cases "batch = []")
  case True
  then show ?thesis using assms by (simp add: post_ok_iff)
next
  case False
  note I = books_invD [OF assms(1)]
  from assms(2) False obtain l where k: "postable_batch (bk_journal b) batch"
    "try_steps apply_entry 0 batch (bk_ledger b) = (Inr (), l)" "check_cash_floor l = Inr ()"
    "b' = \<lparr>bk_journal = record_batch batch (bk_journal b), bk_ledger = l\<rparr>"
    by (auto simp: post_ok_iff)
  have ch: "lg_chart l = lg_chart (bk_ledger b)" by (rule steps_chart [OF k(2) I(3)])
  have es: "entries_of b' = entries_of b @ batch" by (simp add: k(4) record_batch_def journal_entries_def)
  have fresh: "\<forall>e\<in>set batch. je_source e \<notin> je_source ` set (entries_of b)"
    using postable_fresh [OF k(1)] posted_None_iff [OF assms(1)] by blast
  have pr: "projects (facts_of (entries_of b')) l" unfolding es by (rule projects_steps [OF I(2) k(2)])
  have posted: "jn_posted (bk_journal b') = insert_posted (entries_of b') []"
    unfolding es using I(6) by (simp add: k(4) record_batch_def insert_posted_def)
  have disj: "\<forall>x\<in>set (entries_of b). \<forall>e\<in>set batch. je_source x \<noteq> je_source e"
    using fresh by (metis imageI)
  have dis: "distinct (map je_source (entries_of b'))"
    using I(7) k(1) disj unfolding es by (auto simp: postable_batch_def)
  have re: "reopened b' = \<lparr>bk_journal = record_batch batch ((bk_journal b)\<lparr>jn_periods := []\<rparr>), bk_ledger = l\<rparr>"
    by (simp add: reopened_def k(4) record_batch_def)
  have "post_batch batch (reopened b) = (Inr (), reopened b')"
    using False k(2,3) postable_reopened [OF k(1)] by (simp add: post_ok_iff re) (simp add: reopened_def)
  then have all: "post_all (jn_batches (bk_journal b')) (new_books (lg_chart l)) = (Inr (), reopened b')"
    using I(11) by (simp add: k(4) record_batch_def post_all_append ch)
  show ?thesis unfolding books_inv_def
    using I(1,4,5,8,9) pr posted dis all k False es
    by (auto simp: ch record_batch_def insert_posted_sorted postable_batch_def)
qed

lemma close_outcome:
  "books_close_period p b = (if is_closed p (jn_periods (bk_journal b)) then (Inl (PeriodAlreadyClosed p), b)
     else (Inr (), b\<lparr>bk_journal := (bk_journal b)\<lparr>jn_periods := bt_insert p () (jn_periods (bk_journal b))\<rparr>\<rparr>))"
  by (simp add: books_close_period_def journal_close_def states_close_def)

lemma close_preserves: "books_inv b \<Longrightarrow> books_inv (snd (books_close_period p b))"
  unfolding close_outcome by (auto simp: books_inv_def journal_entries_def reopened_def)

lemma run_books_cases:
  assumes "books_inv b"
  obtains (same) "run_books cmd b = b" | (posted) batch where "post_batch batch b = (Inr (), run_books cmd b)"
  | (closed) p where "cmd = ClosePeriod p" "run_books cmd b = snd (books_close_period p b)"
proof (cases cmd)
  case (PostBatch batch)
  obtain r b' where p: "post_batch batch b = (r, b')" by fastforce
  with post_error [OF _ books_invD(3) [OF assms]] PostBatch show thesis
    by (cases r) (auto intro: same posted)
next
  case (TransactBatch batch f)
  obtain r b' where p: "transact_post_batch batch (\<lambda>b'. if f b' then Inr () else Inl ()) b = (r, b')" by fastforce
  from transact_outcome [OF p books_invD(3,4) [OF assms]] show thesis
    using TransactBatch p by (auto intro: same posted)
qed (auto intro: closed)

lemma run_preserves: "books_inv b \<Longrightarrow> books_inv (run_books cmd b)"
proof -
  assume b: "books_inv b"
  then show ?thesis
    by (rule run_books_cases [of b cmd]) (simp_all add: b post_preserves [OF b] close_preserves)
qed

lemma reachable_books_inv: "books_reachable b \<Longrightarrow> books_inv b"
  by (induction rule: books_reachable.induct) (auto intro: new_books_inv run_preserves)

end
