(* ===== verification/Books_Properties.thy ===== *)
theory Books_Properties
  imports Books_Machine
begin

section \<open>Properties of the books\<close>

text \<open>
  What follows from the invariant of reachable books: the books balance and cash is never negative,
  refused batches leave no trace, the ledger is the projection of the journal, saving and restoring is
  exact, closed periods stay as they are, and a batch is accepted under exactly the stated conditions.
\<close>

subsection \<open>The books balance\<close>

lemma validate_lines_sums:
  "validate_lines ev xs (hd', hc, dt, ct) = Inr (hd2, hc2, dt2, ct2) \<Longrightarrow>
     dt2 = dt + amounts_on Debit (\<lambda>_ _. True) (map (Pair e) xs)
     \<and> ct2 = ct + amounts_on Credit (\<lambda>_ _. True) (map (Pair e) xs) \<and> (\<forall>x\<in>set xs. 0 < jl_amount x)"
proof (induction xs arbitrary: hd' hc dt ct)
  case (Cons x xs)
  have pos: "0 < jl_amount x" using Cons.prems by (auto split: if_splits)
  show ?case
  proof (cases "jl_side x")
    case Debit
    with Cons.prems pos have "validate_lines ev xs (True, hc, dt + jl_amount x, ct) = Inr (hd2, hc2, dt2, ct2)"
      by (auto simp: bind_result_Inr_iff)
    from Cons.IH [OF this] show ?thesis using pos Debit by (simp add: amounts_on_def)
  next
    case Credit
    with Cons.prems pos have "validate_lines ev xs (hd', True, dt, ct + jl_amount x) = Inr (hd2, hc2, dt2, ct2)"
      by (auto simp: bind_result_Inr_iff)
    from Cons.IH [OF this] show ?thesis using pos Credit by (simp add: amounts_on_def)
  qed
qed simp

lemma validated_entry:
  assumes "validate_invariants e = Inr ()"
  shows "amounts_on Debit (\<lambda>_ _. True) (map (Pair e) (je_lines e)) = amounts_on Credit (\<lambda>_ _. True) (map (Pair e) (je_lines e))
    \<and> (\<forall>x\<in>set (je_lines e). 0 < jl_amount x)"
proof -
  from assms obtain h c d k where v: "validate_lines (je_source e) (je_lines e) (False, False, 0, 0) = Inr (h, c, d, k)" "d = k"
    by (auto simp: validate_invariants_def bind_result_Inr_iff split: if_splits)
  from validate_lines_sums [OF v(1), of e] v(2) show ?thesis by simp
qed

lemma entries_balance:
  assumes "\<forall>e\<in>set es. validate_invariants e = Inr ()"
  shows "amounts_on Debit (\<lambda>_ _. True) (facts_of es) = amounts_on Credit (\<lambda>_ _. True) (facts_of es)"
  using assms
proof (induction es rule: rev_induct)
  case (snoc e es)
  then show ?case using validated_entry [of e] by simp
qed (simp add: facts_of_def)

lemma trial_fold:
  "try_fold (\<lambda>(dr, cr) b. bind_result (amount_add dr (ab_debit b)) (\<lambda>dr'.
       bind_result (amount_add cr (ab_credit b)) (\<lambda>cr'. Inr (dr', cr')))) (d, c) (bt_values m) = Inr (d', c')
   \<Longrightarrow> d' = d + bt_sum ab_debit m \<and> c' = c + bt_sum ab_credit m"
proof (induction m arbitrary: d c)
  case (Cons x m)
  then have "try_fold (\<lambda>(dr, cr) b. bind_result (amount_add dr (ab_debit b)) (\<lambda>dr'.
       bind_result (amount_add cr (ab_credit b)) (\<lambda>cr'. Inr (dr', cr'))))
       (d + ab_debit (snd x), c + ab_credit (snd x)) (bt_values m) = Inr (d', c')"
    by (auto simp: bind_result_Inr_iff)
  from Cons.IH [OF this] show ?case by simp
qed simp

definition net_of :: "account_balance \<Rightarrow> int" where
  "net_of b = ab_debit b - ab_credit b"

lemma net_debit_Inr [simp]: "net_debit b = Inr n \<longleftrightarrow> in_i128 (net_of b) \<and> n = net_of b"
  by (simp add: net_debit_def net_of_def)

lemma element_fold:
  "try_fold (\<lambda>tot (i, d). if P d then bind_result (net_debit (balance_of i l)) (\<lambda>n. amount_add tot n) else Inr tot) t cs
      = Inr s \<Longrightarrow> s = t + sum_list (map (\<lambda>(i, d). if P d then net_of (balance_of i l) else 0) cs)"
proof (induction cs arbitrary: t)
  case (Cons c cs)
  then show ?case by (cases c) (fastforce simp: bind_result_Inr_iff split: if_splits)
qed simp

definition element_net :: "(account_def \<Rightarrow> bool) \<Rightarrow> ledger \<Rightarrow> int" where
  "element_net P l = sum_list (map (\<lambda>(i, d). if P d then net_of (balance_of i l) else 0) (ch_accounts (lg_chart l)))"

lemma element_sum_Inr: "element_net_debit_sum P l = Inr s \<Longrightarrow> s = element_net P l"
  unfolding element_net_debit_sum_def element_net_def by (drule element_fold) simp

lemma element_net_cases:
  "element_net (\<lambda>d. ad_element d = Asset) l + element_net (\<lambda>d. ad_element d = Liability) l
    + element_net (\<lambda>d. ad_element d = Equity) l + element_net (\<lambda>d. ad_element d = Revenue) l
    + element_net (\<lambda>d. ad_element d = Expense) l = element_net (\<lambda>d. True) l"
proof -
  have "(if ad_element d = Asset then n else 0) + (if ad_element d = Liability then n else 0)
      + (if ad_element d = Equity then n else 0) + (if ad_element d = Revenue then n else 0)
      + (if ad_element d = Expense then n else 0) = n" for d :: account_def and n :: int
    by (cases "ad_element d") simp_all
  then show ?thesis unfolding element_net_def
    by (simp flip: sum_list_addf add: case_prod_unfold)
qed

lemma net_over_chart:
  assumes "bt_sorted (ch_accounts (lg_chart l))" "bt_sorted (lg_totals l)"
    and dom: "\<forall>i. map_of (lg_totals l) i \<noteq> None \<longrightarrow> chart_get i (lg_chart l) \<noteq> None"
  shows "element_net (\<lambda>d. True) l = bt_sum net_of (lg_totals l)"
proof -
  let ?f = "\<lambda>i. net_of (balance_of i l)" and ?C = "fst ` set (ch_accounts (lg_chart l))" and ?T = "fst ` set (lg_totals l)"
  have "element_net (\<lambda>d. True) l = sum_list (map ?f (map fst (ch_accounts (lg_chart l))))"
    by (simp add: element_net_def case_prod_unfold comp_def)
  also have "\<dots> = sum ?f ?C"
    using sum_list_distinct_conv_sum_set [OF bt_sorted_distinct [OF assms(1)], of ?f] by simp
  also have "\<dots> = sum ?f ?T"
  proof (rule sum.mono_neutral_right)
    show "?T \<subseteq> ?C" using dom by (auto simp: chart_get_def map_of_eq_None_iff)
    show "\<forall>i\<in>?C - ?T. ?f i = 0"
    proof
      fix i assume "i \<in> ?C - ?T"
      then have "map_of (lg_totals l) i = None" by (simp add: map_of_eq_None_iff)
      then show "?f i = 0" by (simp add: balance_of_def net_of_def zero_balance_def)
    qed
  qed simp
  also have "\<dots> = sum_list (map ?f (map fst (lg_totals l)))"
    using sum_list_distinct_conv_sum_set [OF bt_sorted_distinct [OF assms(2)], of ?f] by simp
  also have "map ?f (map fst (lg_totals l)) = map (\<lambda>x. net_of (snd x)) (lg_totals l)"
  proof -
    have "net_of (balance_of (fst x) l) = net_of (snd x)" if "x \<in> set (lg_totals l)" for x
      using that bt_get_iff [OF assms(2), of "fst x" "snd x"] by (simp add: balance_of_def)
    then show ?thesis by simp
  qed
  finally show ?thesis by (simp add: bt_sum_def)
qed

lemma cash_floor_iff:
  "check_cash_floor l = Inr () \<longleftrightarrow> (\<forall>(i, d)\<in>set (ch_accounts (lg_chart l)). ad_is_cash d \<longrightarrow>
     in_i128 (net_of (balance_of i l)) \<and> 0 \<le> net_of (balance_of i l))"
proof -
  have "cash_floor_loop l as = Inr () \<longleftrightarrow> (\<forall>i\<in>set as. in_i128 (net_of (balance_of i l)) \<and> 0 \<le> net_of (balance_of i l))" for as
    by (induction as) (auto simp: bind_result_Inr_iff account_net_debit_def)
  then show ?thesis by (auto simp: check_cash_floor_def)
qed

text \<open>
  C18 (The books balance). Whatever has been posted, refused, rolled back and closed: the total debits
  of the ledger equal its total credits, the trial balance shows it whenever its sums fit, the
  assets are the liabilities plus the rolling equity, and every cash account has a balance that
  fits and is not negative.
\<close>

theorem books_balance:
  assumes "books_reachable b"
  shows "bt_sum ab_debit (lg_totals (bk_ledger b)) = bt_sum ab_credit (lg_totals (bk_ledger b))
    \<and> (\<forall>s. trial_balance (bk_ledger b) = Inr s \<longrightarrow> tb_debits s = tb_credits s)
    \<and> (\<forall>assets liabilities equity. element_net_debit_sum (\<lambda>d. ad_element d = Asset) (bk_ledger b) = Inr assets
        \<and> liabilities_total (bk_ledger b) = Inr liabilities \<and> equity_rolling (bk_ledger b) = Inr equity
        \<longrightarrow> assets = liabilities + equity)
    \<and> (\<forall>i. chart_is_cash i (lg_chart (bk_ledger b)) \<longrightarrow> (\<exists>n. account_net_debit i (bk_ledger b) = Inr n \<and> 0 \<le> n))"
proof -
  note I = books_invD [OF reachable_books_inv [OF assms]]
  let ?l = "bk_ledger b"
  have sums: "bt_sum ab_debit (lg_totals ?l) = bt_sum ab_credit (lg_totals ?l)"
    using I(2) entries_balance [OF I(8)] by (simp add: projects_def)
  have dom: "\<forall>i. map_of (lg_totals ?l) i \<noteq> None \<longrightarrow> chart_get i (lg_chart ?l) \<noteq> None"
    using I(2) by (auto simp: projects_def slot_of_def on_account_def split: if_splits)
  have "bt_sum net_of (lg_totals ?l) = bt_sum ab_debit (lg_totals ?l) - bt_sum ab_credit (lg_totals ?l)"
    by (simp add: bt_sum_def net_of_def sum_list_subtractf)
  then have zero: "element_net (\<lambda>d. True) ?l = 0"
    using net_over_chart [OF I(1) _ dom] I(3) sums by (simp add: ledger_sorted_def)
  have "assets = liabilities + equity" if "element_net_debit_sum (\<lambda>d. ad_element d = Asset) ?l = Inr assets"
    "liabilities_total ?l = Inr liabilities" "equity_rolling ?l = Inr equity" for assets liabilities equity
    using that zero element_net_cases [of ?l]
    by (auto simp: liabilities_total_def equity_rolling_def net_income_def bind_result_Inr_iff dest!: element_sum_Inr)
  moreover have "tb_debits s = tb_credits s" if "trial_balance ?l = Inr s" for s
    using that sums by (auto simp: trial_balance_def bind_result_Inr_iff dest!: trial_fold)
  moreover have "\<exists>n. account_net_debit i ?l = Inr n \<and> 0 \<le> n" if "chart_is_cash i (lg_chart ?l)" for i
  proof -
    from that obtain d where "(i, d) \<in> set (ch_accounts (lg_chart ?l))" "ad_is_cash d"
      by (auto simp: chart_is_cash_def split: option.splits dest: map_of_SomeD)
    with I(10) show ?thesis by (auto simp: cash_floor_iff account_net_debit_def)
  qed
  ultimately show ?thesis using sums by blast
qed

subsection \<open>A sample\<close>

definition sample_chart :: account_chart where
  "sample_chart = \<lparr>ch_version = 1, ch_accounts =
     [([1], with_cash (new_account_def [1] Asset)), ([2], new_account_def [2] Equity), ([3], new_account_def [3] Expense)]\<rparr>"

definition sample_entry :: "business_event_id \<Rightarrow> nat \<Rightarrow> cash_flow_class \<Rightarrow> ledger_account_id \<Rightarrow> ledger_account_id
    \<Rightarrow> amount \<Rightarrow> journal_entry" where
  "sample_entry ev m k dr cr a = \<lparr>je_source = ev, je_date = \<lparr>cd_year = 2030, cd_month = m, cd_day = 1\<rparr>,
     je_kind = OpeningBalance, je_cash_flow = k,
     je_lines = [\<lparr>jl_account = dr, jl_side = Debit, jl_amount = a\<rparr>, \<lparr>jl_account = cr, jl_side = Credit, jl_amount = a\<rparr>]\<rparr>"

definition sample_books :: books where
  "sample_books = run_books (ClosePeriod (AccountingPeriod 2030 1))
     (run_books (PostBatch [sample_entry 10 1 Financing [1] [2] 500]) (new_books sample_chart))"

lemma sample_chart_sorted: "bt_sorted (ch_accounts sample_chart)"
  by (simp add: sample_chart_def)

lemma sample_books_reachable: "books_reachable sample_books"
  unfolding sample_books_def using sample_chart_sorted by (intro books_reachable.intros)

lemmas books_eval = post_batch_def apply_batch_candidate_def check_entry_def validate_invariants_def check_postable_def
  is_closed_def je_period_def period_of_date_def snapshot_batch_keys_def snapshot_line_def or_insert_def apply_entry_def
  apply_line_def apply_slot_def apply_side_def apply_cash_flow_def chart_get_def chart_is_cash_def check_cash_floor_def
  account_net_debit_def balance_of_def net_debit_def zero_balance_def undo_restore_def record_batch_def insert_posted_def
  less_accounting_period_def less_eq_accounting_period_def less_cash_flow_class_def less_eq_cash_flow_class_def
  bt_remove_def amount_add_def amount_sub_def checked_i128_def in_i128_def try_in_def try_st_def Let_def bind_result_def

lemma sample_books_eq:
  "sample_books = \<lparr>bk_journal = \<lparr>jn_batches = [[sample_entry 10 1 Financing [1] [2] 500]],
      jn_posted = [(10, \<lparr>cd_year = 2030, cd_month = 1, cd_day = 1\<rparr>)], jn_periods = [(AccountingPeriod 2030 1, ())]\<rparr>,
    bk_ledger = \<lparr>lg_chart = sample_chart,
      lg_totals = [([1], \<lparr>ab_debit = 500, ab_credit = 0\<rparr>), ([2], \<lparr>ab_debit = 0, ab_credit = 500\<rparr>)],
      lg_periods = [(([1], AccountingPeriod 2030 1), \<lparr>ab_debit = 500, ab_credit = 0\<rparr>),
        (([2], AccountingPeriod 2030 1), \<lparr>ab_debit = 0, ab_credit = 500\<rparr>)],
      lg_cash = [((AccountingPeriod 2030 1, Financing), 500)]\<rparr>\<rparr>"
  by (simp add: sample_books_def new_books_def new_journal_def new_ledger_def sample_entry_def sample_chart_def
      with_cash_def new_account_def_def books_eval close_outcome)

lemma books_balance_witness:
  "bt_sum ab_debit (lg_totals (bk_ledger sample_books)) = bt_sum ab_credit (lg_totals (bk_ledger sample_books))
    \<and> bt_sum ab_debit (lg_totals (bk_ledger sample_books)) = 500"
  using books_balance [OF sample_books_reachable] by (simp add: sample_books_eq)

subsection \<open>Refusals and transactions\<close>

text \<open>
  C21 (Refused batches leave no trace). When a batch is refused, at whatever entry or line, or by the
  cash floor, the books are exactly what they were, with the length of the batch in the error. The
  same holds when the operation inside a transaction fails after the batch was posted; when it
  succeeds the transaction has posted the batch and the operation saw the books with the batch in them.
\<close>

theorem refused_batches_leave_no_trace:
  assumes "books_reachable b"
  shows "(\<forall>e b'. post_batch batch b = (Inl e, b') \<longrightarrow> b' = b \<and> (\<exists>i cause. e = BatchAborted (length batch) i cause))
    \<and> (\<forall>e b'. transact_post_batch batch f b = (Inl e, b') \<longrightarrow> b' = b)
    \<and> (\<forall>v b'. transact_post_batch batch f b = (Inr v, b') \<longrightarrow> post_batch batch b = (Inr (), b') \<and> f b' = Inr v)
    \<and> (\<forall>b'. post_batch batch b = (Inr (), b') \<and> is_ok (f b') \<longrightarrow> snd (transact_post_batch batch f b) = b')
    \<and> (\<forall>e b'. books_close_period p b = (Inl e, b') \<longrightarrow> b' = b)"
proof -
  note I = books_invD [OF reachable_books_inv [OF assms]]
  have v: "f b' = Inr v" if "transact_post_batch batch f b = (Inr v, b')" for v b'
    using that by (auto simp: transact_post_batch_def Let_def split: if_splits sum.splits prod.splits)
  have ok: "snd (transact_post_batch batch f b) = b'" if "post_batch batch b = (Inr (), b')" "is_ok (f b')" for b'
  proof (cases "batch = []")
    case True
    then show ?thesis using that by (simp add: transact_post_batch_def post_batch_def)
  next
    case False
    from that(1) obtain u b1 where "apply_batch_candidate batch b = (Inr u, b1)"
      "b' = b1\<lparr>bk_journal := record_batch batch (bk_journal b1)\<rparr>"
      unfolding post_candidate [OF False] by blast
    with False that(2) show ?thesis by (auto simp: transact_post_batch_def Let_def is_ok_iff)
  qed
  show ?thesis
  proof (intro conjI allI impI, goal_cases)
    case (1 e b')
    then show ?case using post_error [OF _ I(3)] by blast
  next
    case (2 e b')
    then show ?case using post_error [OF _ I(3)] by blast
  next
    case (3 e b')
    then show ?case using transact_outcome [OF _ I(3,4)] by fastforce
  next
    case (4 v b')
    then show ?case using transact_outcome [OF _ I(3,4)] by fastforce
  next
    case (5 v b')
    then show ?case by (rule v)
  next
    case (6 b')
    then show ?case using ok by blast
  next
    case (7 e b')
    then show ?case by (auto simp: close_outcome split: if_splits)
  qed
qed

lemma refused_batches_leave_no_trace_witness:
  "snd (post_batch [sample_entry 11 2 Operating [3] [1] 400, sample_entry 12 2 Operating [3] [1] 200] sample_books) = sample_books"
proof -
  have "post_batch [sample_entry 11 2 Operating [3] [1] 400, sample_entry 12 2 Operating [3] [1] 200] sample_books
      = (Inl (BatchAborted 2 None (NegativeCashProhibited [1] (- 100))), sample_books)"
    by (simp add: sample_books_eq) (simp add: sample_entry_def sample_chart_def with_cash_def new_account_def_def books_eval)
  with refused_batches_leave_no_trace [OF sample_books_reachable,
      of "[sample_entry 11 2 Operating [3] [1] 400, sample_entry 12 2 Operating [3] [1] 200]"
         "\<lambda>_. Inr () :: unit + unit" "AccountingPeriod 2030 2"]
  show ?thesis by simp
qed

subsection \<open>The ledger is the projection of the journal\<close>

text \<open>
  C19 (The ledger is the projection of the journal). On reachable books every figure of the ledger is
  the sum of the amounts of the journal's lines that it stands for: the balance of an account, its
  balance within a period, and the cash flow of a period and class, with nothing under non-cash. Two
  reachable books with the same chart and the same entries have the same ledger.
\<close>

theorem ledger_projects_journal:
  assumes "books_reachable b"
  shows "balance_of i (bk_ledger b) = sums_of (on_account i) (facts_of (entries_of b))
    \<and> account_period_balance i p (bk_ledger b) = sums_of (\<lambda>e x. on_account i e x \<and> in_period p e x) (facts_of (entries_of b))
    \<and> cash_flow_for_period p k (bk_ledger b)
        = net_of (sums_of (cash_move (lg_chart (bk_ledger b)) p k) (facts_of (entries_of b)))
    \<and> cash_flow_for_period p NonCash (bk_ledger b) = 0
    \<and> (books_reachable b2 \<and> lg_chart (bk_ledger b2) = lg_chart (bk_ledger b) \<and> entries_of b2 = entries_of b
        \<longrightarrow> bk_ledger b2 = bk_ledger b)"
proof -
  note I = books_invD [OF reachable_books_inv [OF assms]]
  let ?l = "bk_ledger b" and ?f = "facts_of (entries_of b)"
  have t: "balance_of i ?l = slot_balance (slot_of (on_account i) ?f)"
    using I(2) by (simp add: projects_def balance_of_def slot_balance_def)
  have q: "account_period_balance i p ?l = slot_balance (slot_of (\<lambda>e x. on_account i e x \<and> in_period p e x) ?f)"
    using I(2) by (simp add: projects_def account_period_balance_def slot_balance_def)
  have c: "cash_flow_for_period p k ?l = net_of (slot_balance (slot_of (cash_move (lg_chart ?l) p k) ?f))" for k
    using I(2) cash_flow_of_slot [of ?l p k] by (simp add: projects_def net_of_def)
  have n: "slot_of (cash_move (lg_chart ?l) p NonCash) ?f = None"
    using I(2) by (auto simp: projects_def slot_of_def cash_move_def)
  have d: "bk_ledger b2 = ?l" if "books_reachable b2" "lg_chart (bk_ledger b2) = lg_chart ?l" "entries_of b2 = entries_of b"
    using projects_determined [OF books_invD(2) [OF reachable_books_inv [OF that(1)]]] I(2) that(2,3) by simp
  have "cash_flow_for_period p NonCash ?l = 0" unfolding c [of NonCash] n by (simp add: net_of_def zero_balance_def)
  with t q c [of k] d show ?thesis by (simp add: slot_balance_slot_of)
qed

lemma ledger_projects_journal_witness:
  "cash_flow_for_period (AccountingPeriod 2030 1) Financing (bk_ledger sample_books) = 500
    \<and> net_of (sums_of (cash_move sample_chart (AccountingPeriod 2030 1) Financing) (facts_of (entries_of sample_books))) = 500"
  using ledger_projects_journal [OF sample_books_reachable, of "[1]" "AccountingPeriod 2030 1" Financing sample_books]
  by (simp add: sample_books_eq cash_flow_for_period_def)

subsection \<open>Saving and restoring\<close>

lemma unit_map_determined:
  fixes s :: "('k::linorder, unit) bt"
  assumes "bt_sorted s" "bt_sorted t" "fst ` set s = fst ` set t"
  shows "s = t"
proof (rule bt_determined [OF assms(1,2)])
  have "set xs = (\<lambda>k. (k, ())) ` (fst ` set xs)" for xs :: "('k, unit) bt" by force
  then show "set s = set t" using assms(3) by metis
qed

lemma close_all_ok:
  "bt_sorted s \<Longrightarrow> distinct ps \<Longrightarrow> \<forall>p\<in>set ps. \<not> is_closed p s \<Longrightarrow>
     \<exists>s'. close_all ps s = Inr s' \<and> bt_sorted s' \<and> fst ` set s' = fst ` set s \<union> set ps"
proof (induction ps arbitrary: s)
  case (Cons p ps)
  let ?s = "bt_insert p () s"
  have m: "map_of s p = None" using Cons.prems(3) by (cases "map_of s p") (auto simp: is_closed_def)
  have "bt_sorted ?s" "\<forall>q\<in>set ps. \<not> is_closed q ?s"
    using Cons.prems by (auto simp: is_closed_def map_of_bt_insert)
  moreover have "fst ` set ?s = insert p (fst ` set s)" using m by (simp add: set_bt_insert_new)
  ultimately show ?case using Cons.IH [of ?s] Cons.prems by (auto simp: states_close_def is_closed_def)
qed simp

lemma close_all_keys:
  assumes "bt_sorted (s :: period_states)"
  shows "close_all (closed_periods s) [] = Inr s"
proof -
  obtain s' where s': "close_all (closed_periods s) [] = Inr s'" "bt_sorted s'" "fst ` set s' = set (closed_periods s)"
    using close_all_ok [of "[]" "closed_periods s"] bt_sorted_distinct [OF assms]
    by (auto simp: is_closed_def closed_periods_def)
  then have "s' = s" using assms by (intro unit_map_determined) (simp_all add: closed_periods_def)
  with s'(1) show ?thesis by simp
qed

lemma close_periods_all:
  "close_all ps (jn_periods (bk_journal b)) = Inr s \<Longrightarrow>
     close_periods ps b = (Inr (), b\<lparr>bk_journal := (bk_journal b)\<lparr>jn_periods := s\<rparr>\<rparr>)"
proof (induction ps arbitrary: b)
  case (Cons p ps)
  have n: "\<not> is_closed p (jn_periods (bk_journal b))"
    and c: "close_all ps (bt_insert p () (jn_periods (bk_journal b))) = Inr s"
    using Cons.prems by (auto simp: states_close_def split: if_splits)
  have "books_close_period p b = (Inr (), b\<lparr>bk_journal := (bk_journal b)\<lparr>jn_periods := bt_insert p () (jn_periods (bk_journal b))\<rparr>\<rparr>)"
    using n by (simp add: close_outcome)
  with c show ?case by (simp add: Cons.IH)
qed simp

lemma restore_posted_ok:
  "bt_sorted m \<Longrightarrow> distinct (map je_source es) \<Longrightarrow> \<forall>e\<in>set es. map_of m (je_source e) = None \<Longrightarrow>
     restore_posted es m = Inr (insert_posted es m)"
proof (induction es arbitrary: m)
  case (Cons e es)
  have "\<forall>d\<in>set es. map_of (bt_insert (je_source e) (je_date e) m) (je_source d) = None"
    using Cons.prems by (auto simp: map_of_bt_insert) (metis imageI)
  with Cons show ?case by (simp add: insert_posted_def)
qed (simp add: insert_posted_def)

lemma restore_batches:
  assumes "distinct (map je_source (es @ concat batches))" "jn_posted j = insert_posted es []"
  shows "try_fold (\<lambda>j batch. bind_result (restore_posted batch (jn_posted j)) (\<lambda>posted.
        Inr (j\<lparr>jn_posted := posted, jn_batches := jn_batches j @ [batch]\<rparr>))) j batches
    = Inr (j\<lparr>jn_posted := insert_posted (es @ concat batches) [], jn_batches := jn_batches j @ batches\<rparr>)"
  using assms
proof (induction batches arbitrary: j es)
  case (Cons batch batches)
  have d: "distinct (map je_source es)" "distinct (map je_source batch)"
    "set (map je_source es) \<inter> set (map je_source batch) = {}"
    using Cons.prems(1) by auto
  have n: "\<forall>e\<in>set batch. map_of (insert_posted es []) (je_source e) = None"
  proof
    fix e assume "e \<in> set batch"
    then have "je_source e \<notin> je_source ` set es" using d(3) by auto
    then have "map_of (map (\<lambda>e. (je_source e, je_date e)) es) (je_source e) = None"
      by (force simp: map_of_eq_None_iff)
    then show "map_of (insert_posted es []) (je_source e) = None" using d(1) by (simp add: map_of_insert_posted)
  qed
  have "restore_posted batch (jn_posted j) = Inr (insert_posted batch (insert_posted es []))"
    unfolding Cons.prems(2) using d(2) n by (intro restore_posted_ok) (simp_all add: insert_posted_sorted)
  then have r: "restore_posted batch (jn_posted j) = Inr (insert_posted (es @ batch) [])" by (simp add: insert_posted_def)
  have "distinct (map je_source ((es @ batch) @ concat batches))" using Cons.prems(1) by simp
  from Cons.IH [OF this, of "j\<lparr>jn_posted := insert_posted (es @ batch) [], jn_batches := jn_batches j @ [batch]\<rparr>"] r
  show ?case by simp
qed simp

lemma restore_journal_ok:
  assumes "books_inv b"
  shows "restore_journal (jn_batches (bk_journal b)) (closed_periods (jn_periods (bk_journal b))) = Inr (bk_journal b)"
proof -
  note I = books_invD [OF assms]
  have "distinct (map je_source ([] @ concat (jn_batches (bk_journal b))))"
    using I(7) by (simp add: journal_entries_def)
  from restore_batches [OF this, of "\<lparr>jn_batches = [], jn_posted = [], jn_periods = jn_periods (bk_journal b)\<rparr>"]
  show ?thesis using I(6) by (simp add: restore_journal_def close_all_keys [OF I(5)] insert_posted_def journal_entries_def)
qed

text \<open>
  C22 (Saved books restore exactly). Saving reachable books and restoring them, which posts every
  batch again with all checks and then closes the periods, gives back the same books: journal,
  index of sources, closed periods and every figure of the ledger, although batches were posted
  before their periods were closed.
\<close>

theorem saved_books_restore:
  assumes "books_reachable b"
  shows "restore_books (save_books b) = Inr b"
proof -
  note inv = reachable_books_inv [OF assms]
  note I = books_invD [OF inv]
  have "jn_periods (bk_journal (reopened b)) = []" by (simp add: reopened_def)
  then have "close_periods (closed_periods (jn_periods (bk_journal b))) (reopened b) = (Inr (), b)"
    using close_periods_all [of _ "reopened b"] close_all_keys [OF I(5)] by (simp add: reopened_def)
  then show ?thesis
    by (simp add: restore_books_def save_books_def restore_journal_ok [OF inv] I(11))
qed

lemma saved_books_restore_witness:
  "restore_books (save_books sample_books) = Inr sample_books \<and> sv_closed (save_books sample_books) = [AccountingPeriod 2030 1]"
  using saved_books_restore [OF sample_books_reachable]
  by (simp add: sample_books_eq save_books_def closed_periods_def)

subsection \<open>Closed periods and sources\<close>

definition period_entries :: "accounting_period \<Rightarrow> books \<Rightarrow> journal_entry list" where
  "period_entries p b = filter (\<lambda>e. je_period e = p) (entries_of b)"

definition run_all_books :: "books_command list \<Rightarrow> books \<Rightarrow> books" where
  "run_all_books cmds b = fold run_books cmds b"

lemma run_frozen:
  assumes "books_inv b" "is_closed p (jn_periods (bk_journal b))"
  shows "is_closed p (jn_periods (bk_journal (run_books cmd b))) \<and> period_entries p (run_books cmd b) = period_entries p b
    \<and> lg_chart (bk_ledger (run_books cmd b)) = lg_chart (bk_ledger b)"
  using assms(1)
proof (rule run_books_cases [of b cmd])
  fix batch assume r: "post_batch batch b = (Inr (), run_books cmd b)"
  show ?thesis
  proof (cases "batch = []")
    case True
    then show ?thesis using r assms(2) by (simp add: post_ok_iff)
  next
    case False
    with r obtain l where k: "postable_batch (bk_journal b) batch" "try_steps apply_entry 0 batch (bk_ledger b) = (Inr (), l)"
      "run_books cmd b = \<lparr>bk_journal = record_batch batch (bk_journal b), bk_ledger = l\<rparr>"
      by (auto simp: post_ok_iff)
    have "filter (\<lambda>e. je_period e = p) batch = []"
      using k(1) assms(2) by (auto simp: filter_empty_conv postable_batch_def check_postable_def split: option.splits if_splits)
    then show ?thesis using assms(2) steps_chart [OF k(2) books_invD(3) [OF assms(1)]]
      by (simp add: k(3) record_batch_def period_entries_def journal_entries_def)
  qed
next
  fix q assume "run_books cmd b = snd (books_close_period q b)"
  then show ?thesis using assms
    by (auto simp: close_outcome is_closed_def map_of_bt_insert books_invD(5) period_entries_def journal_entries_def)
qed (use assms in simp)

lemma run_all_frozen:
  "books_inv b \<Longrightarrow> is_closed p (jn_periods (bk_journal b)) \<Longrightarrow>
   books_inv (run_all_books cmds b) \<and> is_closed p (jn_periods (bk_journal (run_all_books cmds b)))
   \<and> period_entries p (run_all_books cmds b) = period_entries p b
   \<and> lg_chart (bk_ledger (run_all_books cmds b)) = lg_chart (bk_ledger b)"
proof (induction cmds arbitrary: b)
  case (Cons cmd cmds)
  from Cons.IH [OF run_preserves [OF Cons.prems(1), of cmd]] run_frozen [OF Cons.prems, of cmd]
  show ?case by (simp add: run_all_books_def)
qed (simp add: run_all_books_def)

lemma amounts_on_period:
  assumes "\<And>e x. P e x \<Longrightarrow> je_period e = p"
  shows "amounts_on sd P (facts_of es) = amounts_on sd P (facts_of (filter (\<lambda>e. je_period e = p) es))"
proof (induction es rule: rev_induct)
  case (snoc e es)
  have "amounts_on sd P (map (Pair e) xs) = 0" if "je_period e \<noteq> p" for xs
    using that assms by (induction xs) (auto simp: amounts_on_def)
  then show ?case using snoc by (simp add: facts_of_def)
qed simp

text \<open>
  C23 (Closed periods stay as they are). Once a period is closed, no sequence of postings,
  transactions and further closings changes its entries, its balances or its cash flows, nor opens
  it again; closing it twice is refused. And a source is posted once: the entries of reachable books
  have distinct sources.
\<close>

theorem closed_periods_stay:
  assumes "books_reachable b" "journal_period_status p (bk_journal b) = PeriodClosed"
  shows "journal_period_status p (bk_journal (run_all_books cmds b)) = PeriodClosed
    \<and> period_entries p (run_all_books cmds b) = period_entries p b
    \<and> account_period_balance i p (bk_ledger (run_all_books cmds b)) = account_period_balance i p (bk_ledger b)
    \<and> cash_flow_for_period p k (bk_ledger (run_all_books cmds b)) = cash_flow_for_period p k (bk_ledger b)
    \<and> fst (books_close_period p (run_all_books cmds b)) = Inl (PeriodAlreadyClosed p)
    \<and> distinct (map je_source (entries_of (run_all_books cmds b)))"
proof -
  let ?b = "run_all_books cmds b"
  have c: "is_closed p (jn_periods (bk_journal b))"
    using assms(2) by (simp add: journal_period_status_def states_status_def split: if_splits)
  note fr = run_all_frozen [OF reachable_books_inv [OF assms(1)] c, of cmds]
  have reach: "books_reachable ?b"
    using assms(1) unfolding run_all_books_def by (induction cmds arbitrary: b) (auto intro: books_reachable.step)
  have s: "amounts_on sd P (facts_of (entries_of ?b)) = amounts_on sd P (facts_of (entries_of b))"
    if "\<And>e x. P e x \<Longrightarrow> je_period e = p" for sd P
    using amounts_on_period [of P p sd "entries_of ?b", OF that] amounts_on_period [of P p sd "entries_of b", OF that] fr
    by (simp add: period_entries_def)
  have bal: "sums_of P (facts_of (entries_of ?b)) = sums_of P (facts_of (entries_of b))"
    if "\<And>e x. P e x \<Longrightarrow> je_period e = p" for P using s [OF that] by (simp add: sums_of_def)
  have "account_period_balance i p (bk_ledger ?b) = account_period_balance i p (bk_ledger b)"
    using bal [of "\<lambda>e x. on_account i e x \<and> in_period p e x"]
      ledger_projects_journal [OF reach, of i p k b] ledger_projects_journal [OF assms(1), of i p k b]
    by (simp add: in_period_def je_period_def)
  moreover have "cash_flow_for_period p k (bk_ledger ?b) = cash_flow_for_period p k (bk_ledger b)"
    using bal [of "cash_move (lg_chart (bk_ledger b)) p k"] fr
      ledger_projects_journal [OF reach, of i p k b] ledger_projects_journal [OF assms(1), of i p k b]
    by (simp add: cash_move_def je_period_def)
  ultimately show ?thesis using fr books_invD(7) [of ?b]
    by (simp add: close_outcome journal_period_status_def states_status_def)
qed

lemma closed_periods_stay_witness:
  "\<exists>cmds. entries_of (run_all_books cmds sample_books) \<noteq> entries_of sample_books
    \<and> period_entries (AccountingPeriod 2030 1) (run_all_books cmds sample_books) = period_entries (AccountingPeriod 2030 1) sample_books"
proof -
  have st: "journal_period_status (AccountingPeriod 2030 1) (bk_journal sample_books) = PeriodClosed"
    by (simp add: sample_books_eq journal_period_status_def states_status_def is_closed_def)
  have "post_batch [sample_entry 11 2 Operating [3] [1] 400] sample_books = (Inr (), snd (post_batch [sample_entry 11 2 Operating [3] [1] 400] sample_books))"
    by (simp add: sample_books_eq) (simp add: sample_entry_def sample_chart_def with_cash_def new_account_def_def books_eval)
  then have "entries_of (run_books (PostBatch [sample_entry 11 2 Operating [3] [1] 400]) sample_books)
      = entries_of sample_books @ [sample_entry 11 2 Operating [3] [1] 400]"
    by (auto simp: post_ok_iff record_batch_def journal_entries_def)
  with closed_periods_stay [OF sample_books_reachable st, of "[PostBatch [sample_entry 11 2 Operating [3] [1] 400]]" "[1]" Financing]
  show ?thesis by (intro exI [of _ "[PostBatch [sample_entry 11 2 Operating [3] [1] 400]]"]) (simp add: run_all_books_def)
qed

subsection \<open>Exactly which batches are accepted\<close>

text \<open>Facts whose amounts are positive and add up within \<open>i128\<close>: no sum of them overflows.\<close>

definition bounded :: "facts \<Rightarrow> bool" where
  "bounded fs \<longleftrightarrow> (\<forall>(e, x)\<in>set fs. 0 < jl_amount x)
     \<and> amounts_on Debit (\<lambda>_ _. True) fs \<le> i128_max \<and> amounts_on Credit (\<lambda>_ _. True) fs \<le> i128_max"

lemma amounts_on_bounds:
  assumes "\<forall>(e, x)\<in>set fs. 0 < jl_amount x"
  shows "0 \<le> amounts_on sd P fs \<and> amounts_on sd P fs \<le> amounts_on sd (\<lambda>_ _. True) fs"
  using assms by (induction fs) (auto simp: amounts_on_def)

lemma bounded_append: "bounded (fs @ gs) \<Longrightarrow> bounded fs"
  using amounts_on_bounds [of gs Debit "\<lambda>_ _. True"] amounts_on_bounds [of gs Credit "\<lambda>_ _. True"]
  by (fastforce simp: bounded_def)

lemma bounded_sum: "bounded fs \<Longrightarrow> 0 \<le> amounts_on sd P fs \<and> amounts_on sd P fs \<le> i128_max"
  using amounts_on_bounds [of fs sd P] by (cases sd) (auto simp: bounded_def)

lemma bounded_in_i128:
  assumes "bounded fs"
  shows "in_i128 (amounts_on sd P fs)" "in_i128 (amounts_on Debit P fs - amounts_on Credit P fs)"
  using bounded_sum [OF assms, of sd P] bounded_sum [OF assms, of Debit P] bounded_sum [OF assms, of Credit P]
  by (auto simp: in_i128_def)

lemma apply_slot_succeeds:
  assumes "map_of m k = slot_of P fs" "P e x" "bounded (fs @ [(e, x)])"
  shows "fst (apply_slot k (jl_side x) (jl_amount x) m) = Inr ()"
proof -
  have b: "(case map_of m k of None \<Rightarrow> zero_balance | Some b \<Rightarrow> b) = sums_of P fs"
    using slot_balance_slot_of [of P fs] assms(1) by (simp add: slot_balance_def)
  have "in_i128 (amounts_on (jl_side x) P fs + jl_amount x)"
    using bounded_in_i128(1) [OF assms(3), of "jl_side x" P] assms(2) by (simp add: amounts_on_snoc del: amounts_on_append)
  then have "\<exists>b'. apply_side (sums_of P fs) (jl_side x) (jl_amount x) = Inr b'"
    by (cases "jl_side x") (simp_all add: apply_side_def amount_add_def checked_i128_def sums_of_def)
  then show ?thesis by (auto simp: apply_slot_def b Let_def)
qed

definition line_acceptable :: "account_chart \<Rightarrow> journal_entry \<Rightarrow> journal_line \<Rightarrow> bool" where
  "line_acceptable c e x \<longleftrightarrow> chart_contains (jl_account x) c \<and> \<not> (chart_is_cash (jl_account x) c \<and> je_cash_flow e = NonCash)"

lemma apply_line_succeeds:
  assumes "projects fs l" "line_acceptable (lg_chart l) e x" "bounded (fs @ [(e, x)])"
  shows "fst (apply_line e x l) = Inr ()"
proof -
  let ?p = "period_of_date (je_date e)" and ?i = "jl_account x" and ?k = "je_cash_flow e"
  obtain d where d: "chart_get ?i (lg_chart l) = Some d"
    using assms(2) by (auto simp: line_acceptable_def chart_contains_def chart_get_def)
  have cash: "chart_is_cash ?i (lg_chart l) = ad_is_cash d" using d by (simp add: chart_is_cash_def chart_get_def)
  have s1: "fst (apply_slot ?i (jl_side x) (jl_amount x) (lg_totals l)) = Inr ()"
    using assms(1,3) by (intro apply_slot_succeeds [of _ _ "on_account ?i" fs e]) (simp_all add: projects_def on_account_def)
  have s2: "fst (apply_slot (?i, ?p) (jl_side x) (jl_amount x) (lg_periods l)) = Inr ()"
    using assms(1,3)
    by (intro apply_slot_succeeds [of _ _ "\<lambda>e x. on_account ?i e x \<and> in_period ?p e x" fs e])
       (simp_all add: projects_def on_account_def in_period_def)
  have s3: "fst (apply_cash_flow e x ?p l2) = Inr ()" if "ad_is_cash d" "lg_cash l2 = lg_cash l" for l2
  proof -
    let ?P = "cash_move (lg_chart l) ?p ?k"
    have "map_of (lg_cash l) (?p, ?k) = map_option (\<lambda>b. ab_debit b - ab_credit b) (slot_of ?P fs)"
      using assms(1) by (simp add: projects_def)
    then have c: "(case map_of (lg_cash l) (?p, ?k) of None \<Rightarrow> 0 | Some v \<Rightarrow> v) = amounts_on Debit ?P fs - amounts_on Credit ?P fs"
      using cash_flow_of_slot [of l ?p ?k "slot_of ?P fs"] slot_balance_slot_of [of ?P fs]
      by (simp add: cash_flow_for_period_def sums_of_def)
    have "in_i128 (amounts_on Debit ?P fs - amounts_on Credit ?P fs + (case jl_side x of Debit \<Rightarrow> jl_amount x | Credit \<Rightarrow> - jl_amount x))"
      using bounded_in_i128(2) [OF assms(3), of ?P] that(1) cash
      by (cases "jl_side x") (simp_all add: amounts_on_snoc cash_move_def algebra_simps del: amounts_on_append)
    moreover have "je_cash_flow e \<noteq> NonCash" using assms(2) that(1) cash by (simp add: line_acceptable_def)
    ultimately show ?thesis
      by (cases "jl_side x") (simp_all add: apply_cash_flow_def Let_def that(2) c amount_add_def amount_sub_def checked_i128_def)
  qed
  obtain m1 m2 where "apply_slot ?i (jl_side x) (jl_amount x) (lg_totals l) = (Inr (), m1)"
    "apply_slot (?i, ?p) (jl_side x) (jl_amount x) (lg_periods l) = (Inr (), m2)"
    using s1 s2 by (metis prod.collapse)
  with d s3 show ?thesis by (simp add: apply_line_def Let_def)
qed

lemma apply_lines_succeeds:
  "projects fs l \<Longrightarrow> \<forall>x\<in>set xs. line_acceptable (lg_chart l) e x \<Longrightarrow> bounded (fs @ map (Pair e) xs) \<Longrightarrow>
     fst (apply_lines e xs l) = Inr ()"
proof (induction xs arbitrary: fs l)
  case (Cons x xs)
  have b: "bounded (fs @ [(e, x)])" using bounded_append [of "fs @ [(e, x)]" "map (Pair e) xs"] Cons.prems(3) by simp
  obtain l1 where l1: "apply_line e x l = (Inr (), l1)"
    using apply_line_succeeds [OF Cons.prems(1) _ b] Cons.prems(2) by (metis list.set_intros(1) prod.collapse)
  have "lg_chart l1 = lg_chart l" using apply_line_frame [OF l1] Cons.prems(1) by (simp add: projects_def)
  with Cons.IH [OF projects_line [OF Cons.prems(1) l1]] Cons.prems l1 show ?case by simp
qed simp

lemma apply_steps_succeed:
  "projects (facts_of es) l \<Longrightarrow> \<forall>e\<in>set b. \<forall>x\<in>set (je_lines e). line_acceptable (lg_chart l) e x \<Longrightarrow>
     bounded (facts_of (es @ b)) \<Longrightarrow> fst (try_steps apply_entry i b l) = Inr ()"
proof (induction b arbitrary: es i l)
  case (Cons e b)
  have bd: "bounded (facts_of es @ map (Pair e) (je_lines e))"
    using bounded_append [of "facts_of (es @ [e])" "facts_of b"] Cons.prems(3) by (simp add: facts_of_def)
  obtain l1 where l1: "apply_entry e l = (Inr (), l1)"
    using apply_lines_succeeds [OF Cons.prems(1) _ bd] Cons.prems(2) unfolding apply_entry_def
    by (metis list.set_intros(1) prod.collapse)
  have p: "projects (facts_of (es @ [e])) l1"
    using projects_lines [OF Cons.prems(1) l1 [unfolded apply_entry_def]] by simp
  have "lg_chart l1 = lg_chart l" using apply_entry_chart [of l e] Cons.prems(1) l1 by (simp add: projects_def)
  with Cons.IH [OF p] Cons.prems l1 show ?case by simp
qed simp

definition entry_well_formed :: "journal_entry \<Rightarrow> bool" where
  "entry_well_formed e \<longleftrightarrow> je_lines e \<noteq> [] \<and> (\<forall>x\<in>set (je_lines e). 0 < jl_amount x)
     \<and> amounts_on Debit (\<lambda>_ _. True) (facts_of [e]) = amounts_on Credit (\<lambda>_ _. True) (facts_of [e])
     \<and> (je_kind e \<in> {SimpleRevenueAccrual, SimpleFixedExpenseAccrual, SimpleVariableExpenseAccrual}
          \<longrightarrow> je_cash_flow e = NonCash)"

lemma validate_lines_total:
  "\<forall>x\<in>set xs. 0 < jl_amount x \<Longrightarrow> 0 \<le> dt \<Longrightarrow> 0 \<le> ct
    \<Longrightarrow> dt + amounts_on Debit (\<lambda>_ _. True) (map (Pair e) xs) \<le> i128_max
    \<Longrightarrow> ct + amounts_on Credit (\<lambda>_ _. True) (map (Pair e) xs) \<le> i128_max
    \<Longrightarrow> \<exists>d c. validate_lines ev xs (hd', hc, dt, ct)
        = Inr (hd' \<or> (\<exists>x\<in>set xs. jl_side x = Debit), hc \<or> (\<exists>x\<in>set xs. jl_side x = Credit), d, c)"
proof (induction xs arbitrary: hd' hc dt ct)
  case (Cons x xs)
  have s: "0 \<le> amounts_on sd (\<lambda>_ _. True) (map (Pair e) xs)" for sd
    using amounts_on_bounds [of "map (Pair e) xs" sd "\<lambda>_ _. True"] Cons.prems(1) by auto
  have pos: "0 < jl_amount x" using Cons.prems(1) by simp
  show ?case
  proof (cases "jl_side x")
    case Debit
    then have "dt + jl_amount x + amounts_on Debit (\<lambda>_ _. True) (map (Pair e) xs) \<le> i128_max"
      "ct + amounts_on Credit (\<lambda>_ _. True) (map (Pair e) xs) \<le> i128_max"
      using Cons.prems(4,5) by (simp_all add: amounts_on_def)
    moreover from this have "in_i128 (dt + jl_amount x)" using s [of Debit] Cons.prems(2) pos by (simp add: in_i128_def)
    ultimately show ?thesis using Cons.IH [of "dt + jl_amount x" ct True hc] Cons.prems pos Debit
      by (auto simp: amount_add_def checked_i128_def)
  next
    case Credit
    then have "ct + jl_amount x + amounts_on Credit (\<lambda>_ _. True) (map (Pair e) xs) \<le> i128_max"
      "dt + amounts_on Debit (\<lambda>_ _. True) (map (Pair e) xs) \<le> i128_max"
      using Cons.prems(4,5) by (simp_all add: amounts_on_def)
    moreover from this have "in_i128 (ct + jl_amount x)" using s [of Credit] Cons.prems(3) pos by (simp add: in_i128_def)
    ultimately show ?thesis using Cons.IH [of dt "ct + jl_amount x" hd' True] Cons.prems pos Credit
      by (auto simp: amount_add_def checked_i128_def)
  qed
qed simp

lemma validate_well_formed: "validate_invariants e = Inr () \<Longrightarrow> entry_well_formed e"
  using validated_entry [of e]
  by (auto simp: entry_well_formed_def validate_invariants_def split: if_splits)

lemma sum_positive_side:
  assumes "\<forall>x\<in>set xs. 0 < jl_amount x"
  shows "0 < amounts_on sd (\<lambda>_ _. True) (map (Pair e) xs) \<longleftrightarrow> (\<exists>x\<in>set xs. jl_side x = sd)"
  using assms
proof (induction xs)
  case (Cons x xs)
  have "0 \<le> amounts_on sd (\<lambda>_ _. True) (map (Pair e) xs)"
    using amounts_on_bounds [of "map (Pair e) xs" sd "\<lambda>_ _. True"] Cons.prems by auto
  moreover have "amounts_on sd (\<lambda>_ _. True) (map (Pair e) (x # xs))
      = (if jl_side x = sd then jl_amount x else 0) + amounts_on sd (\<lambda>_ _. True) (map (Pair e) xs)"
    by (simp add: amounts_on_def)
  ultimately show ?case using Cons by (auto simp: add_pos_nonneg)
qed simp

lemma well_formed_validates:
  assumes "entry_well_formed e" "bounded (facts_of [e])"
  shows "validate_invariants e = Inr ()"
proof -
  have pos: "\<forall>x\<in>set (je_lines e). 0 < jl_amount x" and ne: "je_lines e \<noteq> []"
    and bal: "amounts_on Debit (\<lambda>_ _. True) (map (Pair e) (je_lines e)) = amounts_on Credit (\<lambda>_ _. True) (map (Pair e) (je_lines e))"
    using assms(1) by (simp_all add: entry_well_formed_def)
  obtain d c where v: "validate_lines (je_source e) (je_lines e) (False, False, 0, 0)
      = Inr (\<exists>x\<in>set (je_lines e). jl_side x = Debit, \<exists>x\<in>set (je_lines e). jl_side x = Credit, d, c)"
    using validate_lines_total [OF pos, of 0 0 e "je_source e" False False] assms(2) by (auto simp: bounded_def)
  have dc: "d = c" using validate_lines_sums [OF v, of e] bal by simp
  obtain x where x: "x \<in> set (je_lines e)" using ne by (cases "je_lines e") auto
  have both: "(\<exists>x\<in>set (je_lines e). jl_side x = Debit) \<longleftrightarrow> (\<exists>x\<in>set (je_lines e). jl_side x = Credit)"
    unfolding sum_positive_side [OF pos, of _ e, symmetric] bal by (rule refl)
  then have "\<exists>x\<in>set (je_lines e). jl_side x = Debit" using x by (cases "jl_side x") auto
  with both v dc ne assms(1) show ?thesis by (auto simp: validate_invariants_def entry_well_formed_def)
qed

lemma set_facts_of: "(e, x) \<in> set (facts_of es) \<longleftrightarrow> e \<in> set es \<and> x \<in> set (je_lines e)"
  by (auto simp: facts_of_def)

lemma well_formed_bounded:
  assumes "\<forall>e\<in>set es. entry_well_formed e" "amounts_on Debit (\<lambda>_ _. True) (facts_of es) \<le> i128_max"
  shows "bounded (facts_of es)"
proof -
  have "amounts_on Debit (\<lambda>_ _. True) (facts_of es) = amounts_on Credit (\<lambda>_ _. True) (facts_of es)"
    using assms(1) by (induction es rule: rev_induct) (simp_all add: entry_well_formed_def facts_of_def amounts_on_def)
  moreover have "\<forall>(e, x)\<in>set (facts_of es). 0 < jl_amount x"
    using assms(1) by (auto simp: set_facts_of entry_well_formed_def)
  ultimately show ?thesis using assms(2) by (simp add: bounded_def)
qed

lemma bounded_entry:
  assumes "bounded (facts_of es)" "e \<in> set es"
  shows "bounded (facts_of [e])"
proof -
  obtain xs ys where s: "es = xs @ e # ys" using split_list [OF assms(2)] by blast
  have f: "facts_of es = facts_of xs @ facts_of [e] @ facts_of ys" by (simp add: s facts_of_def)
  have pos: "\<forall>(d, x)\<in>set (facts_of zs). 0 < jl_amount x" if "set zs \<subseteq> set es" for zs
    using assms(1) that unfolding bounded_def by (auto simp: set_facts_of) (metis (no_types, lifting) case_prodD set_facts_of subsetD)
  have "amounts_on sd (\<lambda>_ _. True) (facts_of [e]) \<le> amounts_on sd (\<lambda>_ _. True) (facts_of es)" for sd
    using amounts_on_bounds [OF pos, of xs sd "\<lambda>_ _. True"] amounts_on_bounds [OF pos, of ys sd "\<lambda>_ _. True"]
    by (simp add: f) (simp add: s subset_iff)
  from this [of Debit] this [of Credit] show ?thesis using assms(1) pos [of "[e]"] assms(2) by (simp add: bounded_def)
qed

lemma postable_iff:
  assumes "books_inv b"
  shows "postable_batch (bk_journal b) batch \<longleftrightarrow> (\<forall>e\<in>set batch. validate_invariants e = Inr ()
      \<and> je_source e \<notin> je_source ` set (entries_of b) \<and> journal_period_status (je_period e) (bk_journal b) = PeriodOpen)
    \<and> distinct (map je_source batch)"
  using posted_None_iff [OF assms]
  by (auto simp: postable_batch_def check_postable_def journal_period_status_def states_status_def split: option.splits if_splits)

lemma projected_floor_iff:
  assumes "projects fs l" "bt_sorted (ch_accounts (lg_chart l))"
  shows "check_cash_floor l = Inr () \<longleftrightarrow> (\<forall>i. chart_is_cash i (lg_chart l) \<longrightarrow>
      in_i128 (net_of (sums_of (on_account i) fs)) \<and> 0 \<le> net_of (sums_of (on_account i) fs))"
proof -
  have n: "balance_of i l = sums_of (on_account i) fs" for i
    using assms(1) slot_balance_slot_of [of "on_account i" fs] by (simp add: projects_def balance_of_def slot_balance_def)
  have "(\<forall>(i, d)\<in>set (ch_accounts (lg_chart l)). ad_is_cash d \<longrightarrow> P i) \<longleftrightarrow> (\<forall>i. chart_is_cash i (lg_chart l) \<longrightarrow> P i)" for P
    using bt_get_iff [OF assms(2)] by (auto simp: chart_is_cash_def split: option.splits)
  then show ?thesis unfolding cash_floor_iff n by (simp add: case_prod_unfold)
qed

lemma projected_acceptable:
  assumes "projects (facts_of es) l" "e \<in> set es" "x \<in> set (je_lines e)"
  shows "line_acceptable (lg_chart l) e x"
proof -
  have "\<forall>(e, x)\<in>set (facts_of es). chart_get (jl_account x) (lg_chart l) \<noteq> None
      \<and> \<not> (chart_is_cash (jl_account x) (lg_chart l) \<and> je_cash_flow e = NonCash)"
    using assms(1) by (simp add: projects_def)
  moreover have "(e, x) \<in> set (facts_of es)" using assms(2,3) by (simp add: set_facts_of)
  ultimately show ?thesis by (auto simp: line_acceptable_def chart_contains_def chart_get_def)
qed

text \<open>
  C20 (Exactly which batches are accepted). Let the debits of the journal and the batch together fit
  \<open>i128\<close>. Then a batch is posted exactly when every entry has positive lines that balance and an accrual
  is non-cash, its source is new and occurs once in the batch, its period is open, its accounts are in
  the chart, a non-cash entry touches no cash account, and afterwards no cash account is overdrawn;
  the balances within the batch do not matter. The journal then has exactly the batch appended.
\<close>

theorem posting_accepts_exactly:
  assumes "books_reachable b" "batch \<noteq> []"
    "amounts_on Debit (\<lambda>_ _. True) (facts_of (entries_of b @ batch)) \<le> 2 ^ 127 - 1"
  shows "(\<exists>b'. post_batch batch b = (Inr (), b') \<and> entries_of b' = entries_of b @ batch) \<longleftrightarrow>
    (\<forall>e\<in>set batch. entry_well_formed e \<and> je_source e \<notin> je_source ` set (entries_of b)
        \<and> journal_period_status (je_period e) (bk_journal b) = PeriodOpen
        \<and> (\<forall>x\<in>set (je_lines e). line_acceptable (lg_chart (bk_ledger b)) e x))
    \<and> distinct (map je_source batch)
    \<and> (\<forall>i. chart_is_cash i (lg_chart (bk_ledger b)) \<longrightarrow> 0 \<le> net_of (sums_of (on_account i) (facts_of (entries_of b @ batch))))"
    (is "?L \<longleftrightarrow> ?E \<and> ?D \<and> ?C")
proof -
  note inv = reachable_books_inv [OF assms(1)]
  note I = books_invD [OF inv]
  let ?f = "facts_of (entries_of b @ batch)" and ?c = "lg_chart (bk_ledger b)"
  have after: "projects ?f l \<and> lg_chart l = ?c \<and> bt_sorted (ch_accounts (lg_chart l))"
    if "try_steps apply_entry 0 batch (bk_ledger b) = (Inr (), l)" for l
    using projects_steps [OF I(2) that] steps_chart [OF that I(3)] I(1) by simp
  show ?thesis
  proof (intro iffI)
    assume ?L
    then obtain l where k: "postable_batch (bk_journal b) batch" "try_steps apply_entry 0 batch (bk_ledger b) = (Inr (), l)"
      "check_cash_floor l = Inr ()" using assms(2) by (auto simp: post_ok_iff)
    have p: "projects ?f l" and ch: "lg_chart l = ?c" and srt: "bt_sorted (ch_accounts (lg_chart l))"
      using after [OF k(2)] by blast+
    show "?E \<and> ?D \<and> ?C"
      using k(1,3) projected_floor_iff [OF p srt] projected_acceptable [OF p] ch
      by (auto simp: postable_iff [OF inv] validate_well_formed)
  next
    assume r: "?E \<and> ?D \<and> ?C"
    have wf: "\<forall>e\<in>set (entries_of b @ batch). entry_well_formed e" using r I(8) validate_well_formed by auto
    then have bd: "bounded ?f" by (rule well_formed_bounded) (rule assms(3))
    have p: "postable_batch (bk_journal b) batch" unfolding postable_iff [OF inv]
      using r bounded_entry [OF bd] well_formed_validates by auto
    obtain l where l: "try_steps apply_entry 0 batch (bk_ledger b) = (Inr (), l)"
      using apply_steps_succeed [OF I(2) _ bd, of 0] r by (metis prod.collapse)
    have pr: "projects ?f l" and ch: "lg_chart l = ?c" and srt: "bt_sorted (ch_accounts (lg_chart l))"
      using after [OF l] by blast+
    have "check_cash_floor l = Inr ()" unfolding projected_floor_iff [OF pr srt] ch
      using r bounded_in_i128(2) [OF bd] by (simp add: net_of_def sums_of_def)
    then show ?L using p l assms(2) by (simp add: post_ok_iff record_batch_def journal_entries_def)
  qed
qed

lemma posting_accepts_exactly_witness:
  "\<exists>b'. post_batch [sample_entry 11 2 Operating [3] [1] 400] sample_books = (Inr (), b')"
proof -
  have "entry_well_formed (sample_entry 11 2 Operating [3] [1] 400)"
    by (simp add: entry_well_formed_def sample_entry_def facts_of_def amounts_on_def)
  moreover have "chart_is_cash i sample_chart \<longleftrightarrow> i = [1]" for i
    by (auto simp: chart_is_cash_def sample_chart_def with_cash_def new_account_def_def)
  moreover have "net_of (sums_of (on_account [1]) (facts_of (entries_of sample_books @ [sample_entry 11 2 Operating [3] [1] 400]))) = 100"
    by (simp add: sample_books_eq journal_entries_def sample_entry_def facts_of_def net_of_def sums_of_def amounts_on_def on_account_def)
  moreover have "line_acceptable sample_chart (sample_entry 11 2 Operating [3] [1] 400) x"
    if "x \<in> set (je_lines (sample_entry 11 2 Operating [3] [1] 400))" for x
    using that by (auto simp: line_acceptable_def sample_entry_def chart_contains_def sample_chart_def)
  moreover have "journal_period_status (je_period (sample_entry 11 2 Operating [3] [1] 400)) (bk_journal sample_books) = PeriodOpen"
    by (simp add: sample_books_eq journal_period_status_def states_status_def is_closed_def je_period_def sample_entry_def period_of_date_def)
  moreover have "amounts_on Debit (\<lambda>_ _. True) (facts_of (entries_of sample_books @ [sample_entry 11 2 Operating [3] [1] 400])) \<le> 2 ^ 127 - 1"
    by (simp add: sample_books_eq journal_entries_def sample_entry_def facts_of_def amounts_on_def)
  moreover have "entries_of sample_books = [sample_entry 10 1 Financing [1] [2] 500]" "lg_chart (bk_ledger sample_books) = sample_chart"
    by (simp_all add: sample_books_eq journal_entries_def)
  ultimately show ?thesis
    using posting_accepts_exactly [OF sample_books_reachable, of "[sample_entry 11 2 Operating [3] [1] 400]"]
    by (auto simp: sample_entry_def)
qed

end
