(* ===== verification/Shared_History.thy ===== *)
theory Shared_History
  imports Prelude
begin

section \<open>Append-only histories with shared chunks (shared_history.rs)\<close>

text \<open>
  \<open>AppendOnlyHistory\<close> is a chain of chunks of at most 32 values behind reference-counted pointers.
  Cloning a history shares its chunks; pushing and popping write into the last chunk in place when
  the history holds the only reference to it, and copy that chunk otherwise. The model has an explicit
  store: chunks at addresses, and the histories that are alive as handles into it. The
  reference count of a chunk is the number of live handles and live chunks that point to it.
  Chunks that nothing reaches are left in the store and count for nothing. Properties: each
  history behaves like a list of its own, whatever is done to the others.
\<close>

definition chunk_capacity :: nat where "chunk_capacity = 32"

record 'a history_chunk =
  hc_previous :: "nat option"
  hc_values :: "'a list"

record history =
  hh_tail :: "nat option"
  hh_len :: nat

record 'a history_store =
  hs_chunks :: "'a history_chunk list"
  hs_handles :: "history option list"

definition new_store :: "'a history_store" where
  "new_store = \<lparr>hs_chunks = [], hs_handles = []\<rparr>"

definition history_at :: "'a history_store \<Rightarrow> nat \<Rightarrow> history option" where
  "history_at s i = (if i < length (hs_handles s) then hs_handles s ! i else None)"

text \<open>
  The chunks from a tail backwards. A chunk is made after the one it points to, so its address is
  larger; the test of the addresses makes the recursion end on every store.
\<close>

function chain :: "'a history_chunk list \<Rightarrow> nat option \<Rightarrow> nat list" where
  "chain cs None = []"
| "chain cs (Some a) = (if a < length cs then a # (case hc_previous (cs ! a) of
      None \<Rightarrow> [] | Some p \<Rightarrow> if p < a then chain cs (Some p) else []) else [])"
  by pat_completeness auto
termination
  by (relation "measure (\<lambda>(cs, t). case t of None \<Rightarrow> 0 | Some a \<Rightarrow> Suc a)") auto

declare chain.simps(2) [simp del]

text \<open>Reference counts.\<close>

definition live_chunks :: "'a history_store \<Rightarrow> nat list" where
  "live_chunks s = remdups (concat (map (\<lambda>h. case h of None \<Rightarrow> [] | Some h \<Rightarrow> chain (hs_chunks s) (hh_tail h)) (hs_handles s)))"

definition strong_count :: "'a history_store \<Rightarrow> nat \<Rightarrow> nat" where
  "strong_count s a = length (filter (\<lambda>h. case h of None \<Rightarrow> False | Some h \<Rightarrow> hh_tail h = Some a) (hs_handles s))
     + length (filter (\<lambda>b. hc_previous (hs_chunks s ! b) = Some a) (live_chunks s))"

definition only_owner :: "'a history_store \<Rightarrow> nat \<Rightarrow> bool" where
  "only_owner s a \<longleftrightarrow> strong_count s a = 1"

subsection \<open>Operations\<close>

definition set_history :: "nat \<Rightarrow> nat option \<Rightarrow> nat \<Rightarrow> 'a history_store \<Rightarrow> 'a history_store" where
  "set_history i t n s = s\<lparr>hs_handles := (hs_handles s)[i := Some \<lparr>hh_tail = t, hh_len = n\<rparr>]\<rparr>"

text \<open>A new chunk becomes the tail of history \<open>i\<close>.\<close>

definition add_chunk :: "nat \<Rightarrow> nat option \<Rightarrow> 'a list \<Rightarrow> nat \<Rightarrow> 'a history_store \<Rightarrow> 'a history_store" where
  "add_chunk i p vs n s = set_history i (Some (length (hs_chunks s))) n
     (s\<lparr>hs_chunks := hs_chunks s @ [\<lparr>hc_previous = p, hc_values = vs\<rparr>]\<rparr>)"

text \<open>The chunk at \<open>a\<close> gets new values in place.\<close>

definition write_chunk :: "nat \<Rightarrow> nat \<Rightarrow> 'a list \<Rightarrow> nat \<Rightarrow> 'a history_store \<Rightarrow> 'a history_store" where
  "write_chunk i a vs n s = set_history i (Some a) n
     (s\<lparr>hs_chunks := (hs_chunks s)[a := (hs_chunks s ! a)\<lparr>hc_values := vs\<rparr>]\<rparr>)"

definition history_push :: "nat \<Rightarrow> 'a \<Rightarrow> 'a history_store \<Rightarrow> 'a history_store" where
  "history_push i v s = (case history_at s i of None \<Rightarrow> s | Some h \<Rightarrow>
     (case hh_tail h of
        None \<Rightarrow> add_chunk i None [v] (hh_len h + 1) s
      | Some a \<Rightarrow> (let vs = hc_values (hs_chunks s ! a) in
          if length vs < chunk_capacity then
            if only_owner s a then write_chunk i a (vs @ [v]) (hh_len h + 1) s
            else add_chunk i (hc_previous (hs_chunks s ! a)) (vs @ [v]) (hh_len h + 1) s
          else add_chunk i (Some a) [v] (hh_len h + 1) s)))"

definition history_pop :: "nat \<Rightarrow> 'a history_store \<Rightarrow> 'a option \<times> 'a history_store" where
  "history_pop i s = (case history_at s i of None \<Rightarrow> (None, s) | Some h \<Rightarrow>
     (case hh_tail h of
        None \<Rightarrow> (None, s)
      | Some a \<Rightarrow> (let vs = hc_values (hs_chunks s ! a) in
          (if vs = [] then None else Some (last vs),
           if 1 < length vs then
             if only_owner s a then write_chunk i a (butlast vs) (hh_len h - 1) s
             else add_chunk i (hc_previous (hs_chunks s ! a)) (butlast vs) (hh_len h - 1) s
           else set_history i (hc_previous (hs_chunks s ! a)) (hh_len h - 1) s))))"

definition history_default :: "'a history_store \<Rightarrow> 'a history_store" where
  "history_default s = s\<lparr>hs_handles := hs_handles s @ [Some \<lparr>hh_tail = None, hh_len = 0\<rparr>]\<rparr>"

definition history_clone :: "nat \<Rightarrow> 'a history_store \<Rightarrow> 'a history_store" where
  "history_clone i s = (case history_at s i of None \<Rightarrow> s | Some h \<Rightarrow> s\<lparr>hs_handles := hs_handles s @ [Some h]\<rparr>)"

definition history_drop :: "nat \<Rightarrow> 'a history_store \<Rightarrow> 'a history_store" where
  "history_drop i s = s\<lparr>hs_handles := (hs_handles s)[i := None]\<rparr>"

subsection \<open>Reading\<close>

definition history_len :: "history \<Rightarrow> nat" where
  "history_len h = hh_len h"

definition history_is_empty :: "history \<Rightarrow> bool" where
  "history_is_empty h \<longleftrightarrow> hh_len h = 0"

definition history_last :: "'a history_store \<Rightarrow> history \<Rightarrow> 'a option" where
  "history_last s h = (case hh_tail h of None \<Rightarrow> None | Some a \<Rightarrow>
     (let vs = hc_values (hs_chunks s ! a) in if vs = [] then None else Some (last vs)))"

fun get_loop :: "'a history_chunk list \<Rightarrow> nat list \<Rightarrow> nat \<Rightarrow> 'a option" where
  "get_loop cs [] k = None"
| "get_loop cs (a # as) k = (let vs = hc_values (cs ! a) in
     if k < length vs then Some (vs ! (length vs - k - 1)) else get_loop cs as (k - length vs))"

definition history_get :: "'a history_store \<Rightarrow> history \<Rightarrow> nat \<Rightarrow> 'a option" where
  "history_get s h index = (if hh_len h \<le> index then None
     else get_loop (hs_chunks s) (chain (hs_chunks s) (hh_tail h)) (hh_len h - index - 1))"

text \<open>The forward iterator and its \<open>next\<close>.\<close>

record 'a history_iter =
  it_chunks :: "'a list list"
  it_chunk_index :: nat
  it_value_index :: nat
  it_remaining :: nat

definition history_iter :: "'a history_store \<Rightarrow> history \<Rightarrow> 'a history_iter" where
  "history_iter s h = \<lparr>it_chunks = rev (map (\<lambda>a. hc_values (hs_chunks s ! a)) (chain (hs_chunks s) (hh_tail h))),
     it_chunk_index = 0, it_value_index = 0, it_remaining = hh_len h\<rparr>"

function iter_next :: "'a history_iter \<Rightarrow> 'a option \<times> 'a history_iter" where
  "iter_next it = (if it_chunk_index it < length (it_chunks it) then
      (let vs = it_chunks it ! it_chunk_index it in
       if it_value_index it < length vs
       then (Some (vs ! it_value_index it),
             it\<lparr>it_value_index := it_value_index it + 1, it_remaining := it_remaining it - 1\<rparr>)
       else iter_next (it\<lparr>it_chunk_index := it_chunk_index it + 1, it_value_index := 0\<rparr>))
    else (None, it))"
  by pat_completeness auto
termination
  by (relation "measure (\<lambda>it. length (it_chunks it) - it_chunk_index it)") auto

declare iter_next.simps [simp del]

text \<open>The backward iterator and its \<open>next\<close>; the list holds the chunks from the current one backwards.\<close>

record 'a history_rev_iter =
  ri_chunks :: "'a list list"
  ri_next_index :: nat
  ri_remaining :: nat

definition history_iter_rev :: "'a history_store \<Rightarrow> history \<Rightarrow> 'a history_rev_iter" where
  "history_iter_rev s h = (let vss = map (\<lambda>a. hc_values (hs_chunks s ! a)) (chain (hs_chunks s) (hh_tail h)) in
     \<lparr>ri_chunks = vss, ri_next_index = (case vss of [] \<Rightarrow> 0 | vs # _ \<Rightarrow> length vs), ri_remaining = hh_len h\<rparr>)"

function rev_next :: "'a history_rev_iter \<Rightarrow> 'a option \<times> 'a history_rev_iter" where
  "rev_next it = (case ri_chunks it of
      [] \<Rightarrow> (None, it)
    | vs # rest \<Rightarrow>
        if 0 < ri_next_index it
        then (Some (vs ! (ri_next_index it - 1)),
              it\<lparr>ri_next_index := ri_next_index it - 1, ri_remaining := ri_remaining it - 1\<rparr>)
        else rev_next (it\<lparr>ri_chunks := rest, ri_next_index := (case rest of [] \<Rightarrow> 0 | vs # _ \<Rightarrow> length vs)\<rparr>))"
  by pat_completeness auto
termination
  by (relation "measure (\<lambda>it. length (ri_chunks it))") auto

declare rev_next.simps [simp del]

text \<open>Collecting an iterator; the first argument bounds the number of values taken.\<close>

fun collect_iter :: "('i \<Rightarrow> 'a option \<times> 'i) \<Rightarrow> nat \<Rightarrow> 'i \<Rightarrow> 'a list" where
  "collect_iter next_fn 0 it = []"
| "collect_iter next_fn (Suc n) it = (case next_fn it of (None, _) \<Rightarrow> [] | (Some x, it') \<Rightarrow> x # collect_iter next_fn n it')"

definition history_values :: "'a history_store \<Rightarrow> history \<Rightarrow> 'a list" where
  "history_values s h = collect_iter iter_next (hh_len h + 1) (history_iter s h)"

definition history_eq :: "'a history_store \<Rightarrow> history \<Rightarrow> history \<Rightarrow> bool" where
  "history_eq s h g \<longleftrightarrow> hh_len h = hh_len g \<and> ((hh_tail h = hh_tail g \<and> hh_tail h \<noteq> None)
     \<or> history_values s h = history_values s g)"

subsection \<open>Contents\<close>

definition contents :: "'a history_chunk list \<Rightarrow> nat option \<Rightarrow> 'a list" where
  "contents cs t = concat (rev (map (\<lambda>a. hc_values (cs ! a)) (chain cs t)))"

definition chunks_ok :: "'a history_chunk list \<Rightarrow> bool" where
  "chunks_ok cs \<longleftrightarrow> (\<forall>a<length cs. hc_values (cs ! a) \<noteq> [] \<and> length (hc_values (cs ! a)) \<le> chunk_capacity
     \<and> (\<forall>p. hc_previous (cs ! a) = Some p \<longrightarrow> p < a))"

definition tail_ok :: "'a history_chunk list \<Rightarrow> nat option \<Rightarrow> bool" where
  "tail_ok cs t \<longleftrightarrow> (\<forall>a. t = Some a \<longrightarrow> a < length cs)"

definition store_ok :: "'a history_store \<Rightarrow> bool" where
  "store_ok s \<longleftrightarrow> chunks_ok (hs_chunks s) \<and> (\<forall>i h. history_at s i = Some h \<longrightarrow>
     tail_ok (hs_chunks s) (hh_tail h) \<and> hh_len h = length (contents (hs_chunks s) (hh_tail h)))"

lemma chain_Some:
  assumes "chunks_ok cs" "a < length cs"
  shows "chain cs (Some a) = a # chain cs (hc_previous (cs ! a))"
  using assms by (auto simp: chain.simps(2) chunks_ok_def split: option.split)

lemma contents_None [simp]: "contents cs None = []"
  by (simp add: contents_def)

lemma contents_Some:
  "chunks_ok cs \<Longrightarrow> a < length cs \<Longrightarrow> contents cs (Some a) = contents cs (hc_previous (cs ! a)) @ hc_values (cs ! a)"
  by (simp add: contents_def chain_Some)

lemma chunks_okD:
  assumes "chunks_ok cs" "a < length cs"
  shows "hc_values (cs ! a) \<noteq> []" "length (hc_values (cs ! a)) \<le> chunk_capacity" "tail_ok cs (hc_previous (cs ! a))"
    "hc_previous (cs ! a) = Some p \<Longrightarrow> p < a"
proof -
  show "hc_values (cs ! a) \<noteq> []" "length (hc_values (cs ! a)) \<le> chunk_capacity"
    "hc_previous (cs ! a) = Some p \<Longrightarrow> p < a" using assms by (simp_all add: chunks_ok_def)
  have "\<forall>p. hc_previous (cs ! a) = Some p \<longrightarrow> p < a" using assms by (simp add: chunks_ok_def)
  then show "tail_ok cs (hc_previous (cs ! a))" using assms(2) by (auto simp: tail_ok_def)
qed

lemma chain_bounds:
  assumes "chunks_ok cs" "tail_ok cs t"
  shows "set (chain cs t) \<subseteq> {..<length cs}"
  using assms
proof (induction cs t rule: chain.induct)
  case (2 cs a)
  show ?case
  proof (cases "hc_previous (cs ! a)")
    case None
    then show ?thesis using 2 by (auto simp: chain_Some tail_ok_def)
  next
    case (Some p)
    have a: "a < length cs" using 2(3) by (simp add: tail_ok_def)
    have "p < a" using chunks_okD(4) [OF 2(2) a Some] .
    with 2 Some a chunks_okD(3) [OF 2(2) a] show ?thesis by (auto simp: chain_Some)
  qed
qed simp

text \<open>The chain of a history does not change when chunks are added, or written outside of it.\<close>

lemma chain_cong:
  assumes "chunks_ok cs" "tail_ok cs t" "length cs \<le> length ds" "\<forall>a<length cs. hc_previous (ds ! a) = hc_previous (cs ! a)"
  shows "chain ds t = chain cs t"
  using assms
proof (induction cs t rule: chain.induct)
  case (2 cs a)
  have a: "a < length cs" using 2(3) by (simp add: tail_ok_def)
  show ?case
  proof (cases "hc_previous (cs ! a)")
    case None
    then show ?thesis using 2(5) a 2(4) by (simp add: chain.simps(2))
  next
    case (Some p)
    have p: "p < a" using chunks_okD(4) [OF 2(2) a Some] .
    have "chain ds (Some p) = chain cs (Some p)"
      using 2(1) [OF a Some p 2(2)] chunks_okD(3) [OF 2(2) a] Some 2(4,5) by simp
    then show ?thesis using Some p 2(5) a 2(4) by (simp add: chain.simps(2) [of _ a])
  qed
qed simp

lemma contents_cong:
  assumes "chunks_ok cs" "tail_ok cs t" "length cs \<le> length ds" "\<forall>a<length cs. hc_previous (ds ! a) = hc_previous (cs ! a)"
    "\<forall>a\<in>set (chain cs t). hc_values (ds ! a) = hc_values (cs ! a)"
  shows "contents ds t = contents cs t"
proof -
  have "map (\<lambda>a. hc_values (ds ! a)) (chain cs t) = map (\<lambda>a. hc_values (cs ! a)) (chain cs t)"
    using assms(5) by simp
  then show ?thesis by (simp only: contents_def chain_cong [OF assms(1-4)])
qed

lemma chunks_ok_append:
  assumes "chunks_ok cs" "tail_ok cs p" "vs \<noteq> []" "length vs \<le> chunk_capacity"
  shows "chunks_ok (cs @ [\<lparr>hc_previous = p, hc_values = vs\<rparr>])"
  using assms by (auto simp: chunks_ok_def tail_ok_def nth_append less_Suc_eq)

lemma contents_append_old:
  assumes "chunks_ok cs" "tail_ok cs t"
  shows "contents (cs @ [c]) t = contents cs t"
  using chain_bounds [OF assms] by (intro contents_cong [OF assms]) (auto simp: nth_append)

lemma contents_append_new:
  assumes "chunks_ok cs" "tail_ok cs p" "vs \<noteq> []" "length vs \<le> chunk_capacity"
  shows "contents (cs @ [\<lparr>hc_previous = p, hc_values = vs\<rparr>]) (Some (length cs)) = contents cs p @ vs"
  using contents_Some [OF chunks_ok_append [OF assms], of "length cs"] contents_append_old [OF assms(1,2)]
  by (simp add: nth_append)

lemma chunks_ok_write:
  assumes "chunks_ok cs" "vs \<noteq> []" "length vs \<le> chunk_capacity" "a < length cs"
  shows "chunks_ok (cs[a := (cs ! a)\<lparr>hc_values := vs\<rparr>])"
  using assms by (auto simp: chunks_ok_def nth_list_update)

lemma contents_write_other:
  assumes "chunks_ok cs" "tail_ok cs t" "a \<notin> set (chain cs t)" "a < length cs"
  shows "contents (cs[a := (cs ! a)\<lparr>hc_values := vs\<rparr>]) t = contents cs t"
  using assms by (intro contents_cong) (auto simp: nth_list_update)

lemma chain_smaller:
  assumes "chunks_ok cs" "a < length cs" "b \<in> set (chain cs (hc_previous (cs ! a)))"
  shows "b < a"
proof -
  have le: "\<forall>b\<in>set (chain cs (Some p)). b \<le> p" if "p < length cs" for p
    using that
  proof (induction p rule: less_induct)
    case (less p)
    show ?case
    proof (cases "hc_previous (cs ! p)")
      case (Some q)
      have "q < p" using chunks_okD(4) [OF assms(1) less.prems Some] .
      with less Some show ?thesis by (fastforce simp: chain_Some [OF assms(1) less.prems])
    qed (simp add: chain_Some [OF assms(1) less.prems])
  qed
  show ?thesis
  proof (cases "hc_previous (cs ! a)")
    case (Some p)
    then have "p < a" by (rule chunks_okD(4) [OF assms(1,2)])
    moreover have "b \<le> p" using le [of p] assms(2,3) Some \<open>p < a\<close> by simp
    ultimately show ?thesis by simp
  qed (use assms(3) in simp)
qed

lemma contents_write_tail:
  assumes "chunks_ok cs" "a < length cs" "vs \<noteq> []" "length vs \<le> chunk_capacity"
  shows "contents (cs[a := (cs ! a)\<lparr>hc_values := vs\<rparr>]) (Some a) = contents cs (hc_previous (cs ! a)) @ vs"
proof -
  have "a \<notin> set (chain cs (hc_previous (cs ! a)))" using chain_smaller [OF assms(1,2)] by blast
  then show ?thesis
    using contents_Some [OF chunks_ok_write [OF assms(1,3,4,2)], of a] assms chunks_okD(3) [OF assms(1,2)]
    by (simp add: contents_write_other)
qed

subsection \<open>Sharing\<close>

lemma history_at_set: "i < length (hs_handles s) \<Longrightarrow> history_at (set_history i t n s) j
    = (if j = i then Some \<lparr>hh_tail = t, hh_len = n\<rparr> else history_at s j)"
  by (simp add: history_at_def set_history_def nth_list_update)

lemma history_at_bound: "history_at s i = Some h \<Longrightarrow> i < length (hs_handles s) \<and> hs_handles s ! i = Some h"
  by (simp add: history_at_def split: if_splits)

lemma history_at_chunks [simp]: "history_at (s\<lparr>hs_chunks := cs\<rparr>) j = history_at s j"
  by (simp add: history_at_def)

lemma chain_previous:
  assumes "chunks_ok cs" "tail_ok cs t" "a \<in> set (chain cs t)" "t \<noteq> Some a"
  shows "\<exists>b\<in>set (chain cs t). hc_previous (cs ! b) = Some a"
  using assms
proof (induction cs t rule: chain.induct)
  case (2 cs c)
  have c: "c < length cs" using 2(3) by (simp add: tail_ok_def)
  show ?case
  proof (cases "hc_previous (cs ! c)")
    case None
    then show ?thesis using 2(4,5) c by (simp add: chain_Some [OF 2(2) c])
  next
    case (Some p)
    have p: "p < c" using chunks_okD(4) [OF 2(2) c Some] .
    have "a \<in> set (chain cs (Some p))" using 2(4,5) Some by (simp add: chain_Some [OF 2(2) c])
    then have "p = a \<or> (\<exists>b\<in>set (chain cs (Some p)). hc_previous (cs ! b) = Some a)"
      using 2(1) [OF c Some p 2(2)] chunks_okD(3) [OF 2(2) c] Some by auto
    then show ?thesis using Some by (auto simp: chain_Some [OF 2(2) c])
  qed
qed simp

lemma two_members:
  assumes "i < length xs" "j < length xs" "i \<noteq> j" "P (xs ! i)" "P (xs ! j)"
  shows "2 \<le> length (filter P xs)"
proof -
  have "{i, j} \<subseteq> {k. k < length xs \<and> P (xs ! k)}" using assms by simp
  then have "card {i, j} \<le> card {k. k < length xs \<and> P (xs ! k)}" by (intro card_mono) simp_all
  with assms(3) show ?thesis by (simp add: length_filter_conv_card)
qed

text \<open>A chunk with a single reference is in the chain of no other history.\<close>

lemma only_owner_exclusive:
  assumes "store_ok s" "history_at s i = Some h" "hh_tail h = Some a" "only_owner s a"
    "history_at s j = Some g" "j \<noteq> i"
  shows "a \<notin> set (chain (hs_chunks s) (hh_tail g))"
proof
  let ?hd = "\<lambda>h. case h of None \<Rightarrow> False | Some h \<Rightarrow> hh_tail h = Some a"
  assume a: "a \<in> set (chain (hs_chunks s) (hh_tail g))"
  note i = history_at_bound [OF assms(2)] and j = history_at_bound [OF assms(5)]
  have "?hd (hs_handles s ! i)" using i assms(3) by simp
  then have one: "1 \<le> length (filter ?hd (hs_handles s))"
    using i by (metis (mono_tags, lifting) filter_empty_conv length_0_conv less_one linorder_not_less nth_mem)
  have cs: "chunks_ok (hs_chunks s)" "tail_ok (hs_chunks s) (hh_tail g)" using assms(1,5) by (auto simp: store_ok_def)
  show False
  proof (cases "hh_tail g = Some a")
    case True
    then have "2 \<le> length (filter ?hd (hs_handles s))" using i j assms(3,6) by (intro two_members [of i "hs_handles s" j ?hd]) simp_all
    with assms(4) show False by (simp add: only_owner_def strong_count_def)
  next
    case False
    from chain_previous [OF cs a False] obtain b where b: "b \<in> set (chain (hs_chunks s) (hh_tail g))"
      "hc_previous (hs_chunks s ! b) = Some a" by blast
    have "hs_handles s ! j \<in> set (hs_handles s)" using j by (intro nth_mem) simp
    then have "b \<in> set (live_chunks s)" using j b(1) by (force simp: live_chunks_def)
    then have "filter (\<lambda>b. hc_previous (hs_chunks s ! b) = Some a) (live_chunks s) \<noteq> []"
      using b(2) by (auto simp: filter_empty_conv)
    then have "1 \<le> length (filter (\<lambda>b. hc_previous (hs_chunks s ! b) = Some a) (live_chunks s))"
      by (cases "filter (\<lambda>b. hc_previous (hs_chunks s ! b) = Some a) (live_chunks s)") simp_all
    with one assms(4) show False by (simp add: only_owner_def strong_count_def)
  qed
qed

subsection \<open>Each history is a list of its own\<close>

text \<open>The list a live history stands for.\<close>

definition history_list :: "'a history_store \<Rightarrow> nat \<Rightarrow> 'a list option" where
  "history_list s i = map_option (\<lambda>h. contents (hs_chunks s) (hh_tail h)) (history_at s i)"

lemma store_okD:
  assumes "store_ok s" "history_at s i = Some h"
  shows "chunks_ok (hs_chunks s)" "tail_ok (hs_chunks s) (hh_tail h)"
    "hh_len h = length (contents (hs_chunks s) (hh_tail h))"
  using assms by (auto simp: store_ok_def)

lemma add_chunk_list:
  assumes "store_ok s" "history_at s i = Some h" "tail_ok (hs_chunks s) p" "vs \<noteq> []" "length vs \<le> chunk_capacity"
    "n = length (contents (hs_chunks s) p @ vs)"
  shows "store_ok (add_chunk i p vs n s)
    \<and> history_list (add_chunk i p vs n s) j = (if j = i then Some (contents (hs_chunks s) p @ vs) else history_list s j)"
proof -
  let ?cs = "hs_chunks s" and ?ds = "hs_chunks s @ [\<lparr>hc_previous = p, hc_values = vs\<rparr>]"
  have cs: "chunks_ok ?cs" by (rule store_okD [OF assms(1,2)])
  have i: "i < length (hs_handles s)" using history_at_bound [OF assms(2)] by simp
  have at: "history_at (add_chunk i p vs m s) j = (if j = i then Some \<lparr>hh_tail = Some (length ?cs), hh_len = m\<rparr> else history_at s j)" for j m
    using i by (simp add: add_chunk_def history_at_set)
  have ch: "hs_chunks (add_chunk i p vs m s) = ?ds" for m by (simp add: add_chunk_def set_history_def)
  have old: "contents ?ds (hh_tail g) = contents ?cs (hh_tail g)" "tail_ok ?ds (hh_tail g)" if "history_at s k = Some g" for k g
    using contents_append_old [OF cs] store_okD(2) [OF assms(1) that] by (auto simp: tail_ok_def)
  have new: "contents ?ds (Some (length ?cs)) = contents ?cs p @ vs" by (rule contents_append_new [OF cs assms(3-5)])
  have "chunks_ok ?ds" by (rule chunks_ok_append [OF cs assms(3-5)])
  then have "store_ok (add_chunk i p vs n s)"
    using old new assms(6) store_okD(3) [OF assms(1)] by (auto simp: store_ok_def at ch tail_ok_def)
  then show ?thesis using old(1) [of j] new by (cases "history_at s j") (auto simp: history_list_def at ch)
qed

lemma write_chunk_list:
  assumes "store_ok s" "history_at s i = Some h" "hh_tail h = Some a" "only_owner s a" "vs \<noteq> []" "length vs \<le> chunk_capacity"
    "n = length (contents (hs_chunks s) (hc_previous (hs_chunks s ! a)) @ vs)"
  shows "store_ok (write_chunk i a vs n s)
    \<and> history_list (write_chunk i a vs n s) j
      = (if j = i then Some (contents (hs_chunks s) (hc_previous (hs_chunks s ! a)) @ vs) else history_list s j)"
proof -
  let ?cs = "hs_chunks s" and ?ds = "(hs_chunks s)[a := (hs_chunks s ! a)\<lparr>hc_values := vs\<rparr>]"
  have cs: "chunks_ok ?cs" by (rule store_okD [OF assms(1,2)])
  have a: "a < length ?cs" using store_okD(2) [OF assms(1,2)] assms(3) by (simp add: tail_ok_def)
  have i: "i < length (hs_handles s)" using history_at_bound [OF assms(2)] by simp
  have at: "history_at (write_chunk i a vs m s) j = (if j = i then Some \<lparr>hh_tail = Some a, hh_len = m\<rparr> else history_at s j)" for j m
    using i by (simp add: write_chunk_def history_at_set)
  have ch: "hs_chunks (write_chunk i a vs m s) = ?ds" for m by (simp add: write_chunk_def set_history_def)
  have old: "contents ?ds (hh_tail g) = contents ?cs (hh_tail g)" "tail_ok ?ds (hh_tail g)"
    if "history_at s k = Some g" "k \<noteq> i" for k g
    using contents_write_other [OF cs _ only_owner_exclusive [OF assms(1-4) that] a] store_okD(2) [OF assms(1) that(1)]
    by (auto simp: tail_ok_def)
  have new: "contents ?ds (Some a) = contents ?cs (hc_previous (?cs ! a)) @ vs"
    by (rule contents_write_tail [OF cs a assms(5,6)])
  have "chunks_ok ?ds" by (rule chunks_ok_write [OF cs assms(5,6) a])
  then have "store_ok (write_chunk i a vs n s)"
    using old new assms(7) a store_okD(3) [OF assms(1)] by (auto simp: store_ok_def at ch tail_ok_def)
  then show ?thesis using old(1) [of j] new by (cases "history_at s j") (auto simp: history_list_def at ch)
qed

lemma set_history_list:
  assumes "store_ok s" "history_at s i = Some h" "tail_ok (hs_chunks s) t" "n = length (contents (hs_chunks s) t)"
  shows "store_ok (set_history i t n s)
    \<and> history_list (set_history i t n s) j = (if j = i then Some (contents (hs_chunks s) t) else history_list s j)"
proof -
  have i: "i < length (hs_handles s)" using history_at_bound [OF assms(2)] by simp
  have ch: "hs_chunks (set_history i t m s) = hs_chunks s" for m by (simp add: set_history_def)
  show ?thesis using assms i by (auto simp: store_ok_def history_at_set ch history_list_def)
qed

lemma push_list:
  assumes "store_ok s" "history_at s i = Some h"
  shows "store_ok (history_push i v s)
    \<and> history_list (history_push i v s) j
      = (if j = i then Some (contents (hs_chunks s) (hh_tail h) @ [v]) else history_list s j)"
proof (cases "hh_tail h")
  case None
  then show ?thesis using add_chunk_list [OF assms, of None "[v]" _ j] store_okD(3) [OF assms] assms(2)
    by (simp add: history_push_def tail_ok_def chunk_capacity_def)
next
  case (Some a)
  let ?cs = "hs_chunks s" and ?p = "hc_previous (hs_chunks s ! a)" and ?vs = "hc_values (hs_chunks s ! a)"
  have a: "a < length ?cs" using store_okD(2) [OF assms] Some by (simp add: tail_ok_def)
  note cs = store_okD(1) [OF assms]
  have c: "contents ?cs (hh_tail h) = contents ?cs ?p @ ?vs" unfolding Some by (rule contents_Some [OF cs a])
  have n: "hh_len h + 1 = length (contents ?cs ?p @ ?vs @ [v])" using store_okD(3) [OF assms] c by simp
  have t: "tail_ok ?cs (Some a)" using a by (simp add: tail_ok_def)
  have n2: "hh_len h + 1 = length (contents ?cs (Some a) @ [v])" using store_okD(3) [OF assms] Some by simp
  have push: "history_push i v s = (if length ?vs < chunk_capacity then
        if only_owner s a then write_chunk i a (?vs @ [v]) (hh_len h + 1) s
        else add_chunk i ?p (?vs @ [v]) (hh_len h + 1) s
      else add_chunk i (Some a) [v] (hh_len h + 1) s)"
    using assms(2) Some by (simp add: history_push_def Let_def)
  show ?thesis
  proof (cases "length ?vs < chunk_capacity")
    case True
    then have l: "length (?vs @ [v]) \<le> chunk_capacity" and ne: "?vs @ [v] \<noteq> []" by simp_all
    show ?thesis
    proof (cases "only_owner s a")
      case True
      show ?thesis using push \<open>length ?vs < chunk_capacity\<close> True c write_chunk_list [OF assms Some True ne l n, of j] by simp
    next
      case False
      show ?thesis using push \<open>length ?vs < chunk_capacity\<close> False c
          add_chunk_list [OF assms chunks_okD(3) [OF cs a] ne l n, of j] by simp
    qed
  next
    case False
    then show ?thesis using push Some add_chunk_list [OF assms t _ _ n2, of j] by (simp add: chunk_capacity_def)
  qed
qed

lemma pop_list:
  assumes "store_ok s" "history_at s i = Some h"
  shows "fst (history_pop i s) = (if contents (hs_chunks s) (hh_tail h) = [] then None
        else Some (last (contents (hs_chunks s) (hh_tail h))))
    \<and> store_ok (snd (history_pop i s))
    \<and> history_list (snd (history_pop i s)) j
      = (if j = i then Some (butlast (contents (hs_chunks s) (hh_tail h))) else history_list s j)"
proof (cases "hh_tail h")
  case None
  then show ?thesis using assms by (simp add: history_pop_def history_list_def)
next
  case (Some a)
  let ?cs = "hs_chunks s" and ?p = "hc_previous (hs_chunks s ! a)" and ?vs = "hc_values (hs_chunks s ! a)"
  have a: "a < length ?cs" using store_okD(2) [OF assms] Some by (simp add: tail_ok_def)
  note cs = store_okD(1) [OF assms]
  have ne: "?vs \<noteq> []" "length ?vs \<le> chunk_capacity" using chunks_okD [OF cs a] by simp_all
  have c: "contents ?cs (hh_tail h) = contents ?cs ?p @ ?vs" unfolding Some by (rule contents_Some [OF cs a])
  have n: "hh_len h - 1 = length (contents ?cs ?p @ butlast ?vs)" using store_okD(3) [OF assms] c ne(1) by (cases ?vs) auto
  have bl: "length (butlast ?vs) \<le> chunk_capacity" using ne(2) by simp
  have fst: "fst (history_pop i s) = Some (last ?vs)" using assms(2) Some ne(1) by (simp add: history_pop_def Let_def)
  have snd: "snd (history_pop i s) = (if 1 < length ?vs then
        if only_owner s a then write_chunk i a (butlast ?vs) (hh_len h - 1) s
        else add_chunk i ?p (butlast ?vs) (hh_len h - 1) s
      else set_history i ?p (hh_len h - 1) s)"
    using assms(2) Some by (simp add: history_pop_def Let_def)
  show ?thesis
  proof (cases "1 < length ?vs")
    case True
    then have b: "butlast ?vs \<noteq> []" by (cases ?vs) auto
    show ?thesis
    proof (cases "only_owner s a")
      case owner: True
      then have "snd (history_pop i s) = write_chunk i a (butlast ?vs) (hh_len h - 1) s" using True snd by simp
      with fst c ne(1) write_chunk_list [OF assms Some owner b bl n, of j] show ?thesis by (simp add: butlast_append)
    next
      case False
      then have "snd (history_pop i s) = add_chunk i ?p (butlast ?vs) (hh_len h - 1) s" using True snd by simp
      with fst c ne(1) add_chunk_list [OF assms chunks_okD(3) [OF cs a] b bl n, of j] show ?thesis
        by (simp add: butlast_append)
    qed
  next
    case False
    then have "length ?vs = 1" using ne(1) by (cases ?vs) auto
    then have b: "butlast ?vs = []" by (cases ?vs) auto
    show ?thesis using False fst snd c ne(1) b n set_history_list [OF assms chunks_okD(3) [OF cs a], of "hh_len h - 1" j]
      by (simp add: butlast_append)
  qed
qed

subsection \<open>Reading\<close>

lemma nth_from_end:
  "k < length ys \<Longrightarrow> (xs @ ys) ! (length (xs @ ys) - k - 1) = ys ! (length ys - k - 1)"
  "length ys \<le> k \<Longrightarrow> k < length (xs @ ys) \<Longrightarrow> (xs @ ys) ! (length (xs @ ys) - k - 1) = xs ! (length xs - (k - length ys) - 1)"
  by (auto simp: nth_append intro!: arg_cong [of _ _ "(!) _"])

lemma get_loop_rev:
  "get_loop cs as k = (let xs = concat (rev (map (\<lambda>a. hc_values (cs ! a)) as)) in
     if k < length xs then Some (xs ! (length xs - k - 1)) else None)"
proof (induction as arbitrary: k)
  case (Cons a as)
  let ?vs = "hc_values (cs ! a)" and ?xs = "concat (rev (map (\<lambda>a. hc_values (cs ! a)) as))"
  have c: "concat (rev (map (\<lambda>a. hc_values (cs ! a)) (a # as))) = ?xs @ ?vs" by simp
  show ?case
  proof (cases "k < length ?vs")
    case True
    then show ?thesis unfolding c Let_def nth_from_end(1) [OF True] by (simp add: Let_def)
  next
    case False
    then have le: "length ?vs \<le> k" by simp
    have "get_loop cs (a # as) k = get_loop cs as (k - length ?vs)" using False by (simp add: Let_def)
    also have "\<dots> = (if k - length ?vs < length ?xs then Some (?xs ! (length ?xs - (k - length ?vs) - 1)) else None)"
      unfolding Cons Let_def ..
    also have "\<dots> = (if k < length (?xs @ ?vs) then Some ((?xs @ ?vs) ! (length (?xs @ ?vs) - k - 1)) else None)"
    proof (cases "k < length (?xs @ ?vs)")
      case True
      then have "k - length ?vs < length ?xs" using le unfolding length_append by arith
      then show ?thesis using nth_from_end(2) [OF le True] True by (simp only: if_True)
    next
      case False
      then have "\<not> k - length ?vs < length ?xs" using le unfolding length_append by arith
      then show ?thesis using False by (simp only: if_False)
    qed
    finally show ?thesis unfolding c Let_def .
  qed
qed (simp add: Let_def)

definition iter_rest :: "'a history_iter \<Rightarrow> 'a list" where
  "iter_rest it = drop (it_value_index it) (concat (drop (it_chunk_index it) (it_chunks it)))"

definition iter_ok :: "'a history_iter \<Rightarrow> bool" where
  "iter_ok it \<longleftrightarrow> (it_chunk_index it < length (it_chunks it) \<longrightarrow>
     it_value_index it \<le> length (it_chunks it ! it_chunk_index it))
     \<and> (length (it_chunks it) \<le> it_chunk_index it \<longrightarrow> it_value_index it = 0)"

lemma iter_next_rest:
  assumes "iter_ok it"
  shows "case iter_next it of (None, _) \<Rightarrow> iter_rest it = []
    | (Some x, it') \<Rightarrow> iter_rest it = x # iter_rest it' \<and> iter_ok it'"
  using assms
proof (induction it rule: iter_next.induct)
  case (1 it)
  let ?ci = "it_chunk_index it" and ?vi = "it_value_index it" and ?cs = "it_chunks it"
  show ?case
  proof (cases "?ci < length ?cs")
    case False
    then show ?thesis by (simp add: iter_next.simps [of it] iter_rest_def)
  next
    case ci: True
    then have d: "drop ?ci ?cs = ?cs ! ?ci # drop (Suc ?ci) ?cs" by (simp add: Cons_nth_drop_Suc)
    show ?thesis
    proof (cases "?vi < length (?cs ! ?ci)")
      case True
      then have "drop ?vi (?cs ! ?ci) = ?cs ! ?ci ! ?vi # drop (Suc ?vi) (?cs ! ?ci)" by (simp add: Cons_nth_drop_Suc)
      with ci d True show ?thesis by (simp add: iter_next.simps [of it] iter_rest_def iter_ok_def Let_def)
    next
      case False
      let ?it = "it\<lparr>it_chunk_index := ?ci + 1, it_value_index := 0\<rparr>"
      have "?vi = length (?cs ! ?ci)" using False ci 1(2) by (simp add: iter_ok_def)
      then have r: "iter_rest it = iter_rest ?it" using d by (simp add: iter_rest_def)
      have "iter_ok ?it" by (simp add: iter_ok_def)
      moreover have "iter_next it = iter_next ?it" using ci False by (simp add: iter_next.simps [of it] Let_def)
      ultimately show ?thesis using 1(1) [OF ci refl False] unfolding r by presburger
    qed
  qed
qed

lemma collect_rest: "iter_ok it \<Longrightarrow> length (iter_rest it) \<le> n \<Longrightarrow> collect_iter iter_next n it = iter_rest it"
proof (induction n arbitrary: it)
  case (Suc n)
  obtain r it' where x: "iter_next it = (r, it')" by (cases "iter_next it")
  with iter_next_rest [OF Suc.prems(1)] Suc show ?case by (cases r) auto
qed simp

definition rev_rest :: "'a history_rev_iter \<Rightarrow> 'a list" where
  "rev_rest it = (case ri_chunks it of [] \<Rightarrow> [] | vs # rest \<Rightarrow> rev (take (ri_next_index it) vs) @ concat (map rev rest))"

definition rev_ok :: "'a history_rev_iter \<Rightarrow> bool" where
  "rev_ok it \<longleftrightarrow> (\<forall>vs rest. ri_chunks it = vs # rest \<longrightarrow> ri_next_index it \<le> length vs)"

lemma rev_next_rest:
  assumes "rev_ok it"
  shows "case rev_next it of (None, _) \<Rightarrow> rev_rest it = []
    | (Some x, it') \<Rightarrow> rev_rest it = x # rev_rest it' \<and> rev_ok it'"
  using assms
proof (induction it rule: rev_next.induct)
  case (1 it)
  show ?case
  proof (cases "ri_chunks it")
    case Nil
    then show ?thesis by (simp add: rev_next.simps [of it] rev_rest_def)
  next
    case (Cons vs rest)
    show ?thesis
    proof (cases "0 < ri_next_index it")
      case True
      then obtain n where n: "ri_next_index it = Suc n" by (cases "ri_next_index it") auto
      then have "n < length vs" using 1(2) Cons by (simp add: rev_ok_def)
      then have "rev (take (Suc n) vs) = vs ! n # rev (take n vs)" by (simp add: take_Suc_conv_app_nth)
      with Cons n \<open>n < length vs\<close> show ?thesis by (simp add: rev_next.simps [of it] rev_rest_def rev_ok_def)
    next
      case False
      let ?it = "it\<lparr>ri_chunks := rest, ri_next_index := (case rest of [] \<Rightarrow> 0 | vs # _ \<Rightarrow> length vs)\<rparr>"
      have r: "rev_rest it = rev_rest ?it" using False Cons by (simp add: rev_rest_def split: list.split)
      have "rev_ok ?it" by (simp add: rev_ok_def)
      moreover have "rev_next it = rev_next ?it" using Cons False by (simp add: rev_next.simps [of it])
      ultimately show ?thesis using 1(1) [OF Cons False] unfolding r by presburger
    qed
  qed
qed

lemma collect_rev: "rev_ok it \<Longrightarrow> length (rev_rest it) \<le> n \<Longrightarrow> collect_iter rev_next n it = rev_rest it"
proof (induction n arbitrary: it)
  case (Suc n)
  obtain r it' where x: "rev_next it = (r, it')" by (cases "rev_next it")
  with rev_next_rest [OF Suc.prems(1)] Suc show ?case by (cases r) auto
qed simp

lemma history_values_contents:
  assumes "store_ok s" "history_at s i = Some h"
  shows "history_values s h = contents (hs_chunks s) (hh_tail h)"
proof -
  have "iter_rest (history_iter s h) = contents (hs_chunks s) (hh_tail h)"
    by (simp add: iter_rest_def history_iter_def contents_def rev_map)
  moreover have "iter_ok (history_iter s h)" by (auto simp: iter_ok_def history_iter_def)
  ultimately show ?thesis unfolding history_values_def using store_okD(3) [OF assms] by (subst collect_rest) simp_all
qed

lemma history_rev_contents:
  assumes "store_ok s" "history_at s i = Some h"
  shows "collect_iter rev_next (hh_len h + 1) (history_iter_rev s h) = rev (contents (hs_chunks s) (hh_tail h))"
proof -
  let ?vss = "map (\<lambda>a. hc_values (hs_chunks s ! a)) (chain (hs_chunks s) (hh_tail h))"
  have "rev_rest (history_iter_rev s h) = concat (map rev ?vss)"
    by (cases "chain (hs_chunks s) (hh_tail h)") (simp_all add: rev_rest_def history_iter_rev_def Let_def)
  also have "\<dots> = rev (contents (hs_chunks s) (hh_tail h))" by (simp add: contents_def rev_concat rev_map)
  finally have r: "rev_rest (history_iter_rev s h) = rev (contents (hs_chunks s) (hh_tail h))" .
  have "rev_ok (history_iter_rev s h)" by (simp add: rev_ok_def history_iter_rev_def Let_def)
  with r show ?thesis using store_okD(3) [OF assms] by (subst collect_rev) simp_all
qed


lemma history_get_contents:
  assumes "store_ok s" "history_at s i = Some h"
  shows "history_get s h k = (let xs = contents (hs_chunks s) (hh_tail h) in if k < length xs then Some (xs ! k) else None)"
proof -
  let ?xs = "contents (hs_chunks s) (hh_tail h)"
  have "k < length ?xs \<Longrightarrow> length ?xs - k - 1 < length ?xs \<and> length ?xs - (length ?xs - k - 1) - 1 = k" by arith
  then show ?thesis using store_okD(3) [OF assms] unfolding history_get_def get_loop_rev contents_def [symmetric] Let_def
    by (cases "k < length ?xs") simp_all
qed

lemma history_last_contents:
  assumes "store_ok s" "history_at s i = Some h"
  shows "history_last s h = (let xs = contents (hs_chunks s) (hh_tail h) in if xs = [] then None else Some (last xs))"
proof (cases "hh_tail h")
  case (Some a)
  then have a: "a < length (hs_chunks s)" using store_okD(2) [OF assms] by (simp add: tail_ok_def)
  note cs = store_okD(1) [OF assms]
  show ?thesis using Some chunks_okD(1) [OF cs a] by (simp add: history_last_def contents_Some [OF cs a] Let_def)
qed (simp add: history_last_def)

lemma history_eq_contents:
  assumes "store_ok s" "history_at s i = Some h" "history_at s j = Some g"
  shows "history_eq s h g \<longleftrightarrow> contents (hs_chunks s) (hh_tail h) = contents (hs_chunks s) (hh_tail g)"
  using history_values_contents [OF assms(1,2)] history_values_contents [OF assms(1,3)]
    store_okD(3) [OF assms(1,2)] store_okD(3) [OF assms(1,3)]
  by (auto simp: history_eq_def)

subsection \<open>Runs\<close>

datatype 'a history_command =
    New_History
  | Clone_History nat
  | Drop_History nat
  | Push_History nat 'a
  | Pop_History nat

fun run_history :: "'a history_command \<Rightarrow> 'a history_store \<Rightarrow> 'a history_store" where
  "run_history New_History s = history_default s"
| "run_history (Clone_History i) s = history_clone i s"
| "run_history (Drop_History i) s = history_drop i s"
| "run_history (Push_History i v) s = history_push i v s"
| "run_history (Pop_History i) s = snd (history_pop i s)"

inductive store_reachable :: "'a history_store \<Rightarrow> bool" where
  start: "store_reachable new_store"
| step: "store_reachable s \<Longrightarrow> store_reachable (run_history c s)"

text \<open>The abstract machine: a table of independent lists.\<close>

fun run_lists :: "'a history_command \<Rightarrow> 'a list option list \<Rightarrow> 'a list option list" where
  "run_lists New_History t = t @ [Some []]"
| "run_lists (Clone_History i) t = (if i < length t \<and> t ! i \<noteq> None then t @ [t ! i] else t)"
| "run_lists (Drop_History i) t = t[i := None]"
| "run_lists (Push_History i v) t = (if i < length t then t[i := map_option (\<lambda>xs. xs @ [v]) (t ! i)] else t)"
| "run_lists (Pop_History i) t = (if i < length t then t[i := map_option butlast (t ! i)] else t)"

definition abs_store :: "'a history_store \<Rightarrow> 'a list option list" where
  "abs_store s = map (map_option (\<lambda>h. contents (hs_chunks s) (hh_tail h))) (hs_handles s)"

lemma length_abs_store [simp]: "length (abs_store s) = length (hs_handles s)"
  by (simp add: abs_store_def)

lemma abs_store_nth: "i < length (hs_handles s) \<Longrightarrow> abs_store s ! i = history_list s i"
  by (simp add: abs_store_def history_list_def history_at_def)

lemma abs_storeI:
  assumes "length (hs_handles s') = length t" "\<And>j. j < length t \<Longrightarrow> history_list s' j = t ! j"
  shows "abs_store s' = t"
  using assms by (intro nth_equalityI) (simp_all add: abs_store_nth)

lemma handles_updates [simp]:
  "length (hs_handles (history_push i v s)) = length (hs_handles s)"
  "length (hs_handles (snd (history_pop i s))) = length (hs_handles s)"
  by (auto simp: history_push_def history_pop_def add_chunk_def write_chunk_def set_history_def Let_def split: option.split)

lemma history_at_default: "history_at (history_default s) j
    = (if j = length (hs_handles s) then Some \<lparr>hh_tail = None, hh_len = 0\<rparr> else history_at s j)"
  by (auto simp: history_at_def history_default_def nth_append)

lemma history_at_clone: "history_at s i = Some h \<Longrightarrow> history_at (history_clone i s) j
    = (if j = length (hs_handles s) then Some h else history_at s j)"
  by (auto simp: history_clone_def) (auto simp: history_at_def nth_append)

lemma history_at_drop: "history_at (history_drop i s) j = (if j = i then None else history_at s j)"
  by (auto simp: history_at_def history_drop_def)

lemma no_history_idle:
  assumes "history_at s i = None"
  shows "history_push i v s = s" "history_pop i s = (None, s)" "history_clone i s = s"
  using assms by (simp_all add: history_push_def history_pop_def history_clone_def)

lemma store_ok_new: "store_ok new_store"
  by (simp add: store_ok_def new_store_def chunks_ok_def history_at_def)

lemma store_ok_step: "store_ok s \<Longrightarrow> store_ok (run_history c s)"
proof (cases c)
  case New_History
  moreover assume "store_ok s"
  moreover have "hs_chunks (history_default s) = hs_chunks s" by (simp add: history_default_def)
  ultimately show ?thesis by (simp add: store_ok_def history_at_default tail_ok_def)
next
  case (Clone_History i)
  moreover assume "store_ok s"
  moreover have "hs_chunks (history_clone i s) = hs_chunks s" by (simp add: history_clone_def split: option.split)
  ultimately show ?thesis
    by (cases "history_at s i") (auto simp: store_ok_def history_at_clone no_history_idle)
next
  case (Drop_History i)
  moreover assume "store_ok s"
  moreover have "hs_chunks (history_drop i s) = hs_chunks s" by (simp add: history_drop_def)
  ultimately show ?thesis by (simp add: store_ok_def history_at_drop)
next
  case (Push_History i v)
  moreover assume "store_ok s"
  ultimately show ?thesis using conjunct1 [OF push_list]
    by (cases "history_at s i") (simp_all add: no_history_idle)
next
  case (Pop_History i)
  moreover assume "store_ok s"
  ultimately show ?thesis using conjunct1 [OF conjunct2 [OF pop_list]]
    by (cases "history_at s i") (simp_all add: no_history_idle)
qed

lemma store_reachable_ok: "store_reachable s \<Longrightarrow> store_ok s"
  by (induction rule: store_reachable.induct) (simp_all add: store_ok_new store_ok_step)

lemma history_list_None: "history_list s i = None \<longleftrightarrow> history_at s i = None"
  by (simp add: history_list_def)

lemma push_abs:
  assumes "store_ok s"
  shows "abs_store (history_push i v s) = run_lists (Push_History i v) (abs_store s)"
proof (cases "history_at s i")
  case None
  then show ?thesis by (auto simp: no_history_idle abs_store_nth history_list_def intro!: nth_equalityI)
    (auto simp: nth_list_update abs_store_nth history_list_def)
next
  case (Some h)
  with history_at_bound have i: "i < length (hs_handles s)" by blast
  show ?thesis using i push_list [OF assms Some, of v] Some
    by (intro abs_storeI) (auto simp: nth_list_update abs_store_nth history_list_def)
qed

lemma pop_abs:
  assumes "store_ok s"
  shows "abs_store (snd (history_pop i s)) = run_lists (Pop_History i) (abs_store s)"
proof (cases "history_at s i")
  case None
  then show ?thesis by (auto simp: no_history_idle abs_store_nth history_list_def intro!: nth_equalityI)
    (auto simp: nth_list_update abs_store_nth history_list_def)
next
  case (Some h)
  with history_at_bound have i: "i < length (hs_handles s)" by blast
  show ?thesis using i pop_list [OF assms Some] Some
    by (intro abs_storeI) (auto simp: nth_list_update abs_store_nth history_list_def)
qed

lemma step_abs: "store_ok s \<Longrightarrow> abs_store (run_history c s) = run_lists c (abs_store s)"
  by (cases c)
    (auto simp: push_abs pop_abs simp del: run_lists.simps(4,5),
     auto simp: abs_store_def history_default_def history_clone_def history_drop_def map_update history_at_def split: option.splits)

text \<open>
  C33 (Histories with shared chunks are independent lists). Take any store reached by creating,
  cloning, dropping, pushing to and popping from histories, and one more such command. The table of
  the lists the live histories stand for changes exactly as the same command changes a table
  of independent lists: a push appends to one list, a pop takes the last value off one list, and
  no other history moves, however many chunks they share. The copy-on-write test by
  reference count is what makes this true.
\<close>

theorem histories_refine_lists:
  assumes "store_reachable s"
  shows "abs_store (run_history c s) = run_lists c (abs_store s)"
  by (rule step_abs [OF store_reachable_ok [OF assms]])

definition shared_run :: "nat history_store" where
  "shared_run = run_history (Clone_History 0) (run_history (Push_History 0 7) (run_history New_History new_store))"

lemma shared_run_reachable: "store_reachable shared_run"
  unfolding shared_run_def by (intro store_reachable.intros)

lemma histories_refine_lists_witness:
  "abs_store (run_history (Push_History 1 8) shared_run) = [Some [7], Some [7, 8]]"
proof -
  have "abs_store shared_run = [Some [7], Some [7]]" by code_simp
  then show ?thesis using histories_refine_lists [OF shared_run_reachable, of "Push_History 1 8"] by simp
qed

text \<open>
  In a reachable store, let a live history stand for the
  list \<open>xs\<close>. Its length, emptiness and last value are those of \<open>xs\<close>; \<open>get k\<close> is the \<open>k\<close>-th value or
  nothing past the end; the forward iterator yields \<open>xs\<close> and the backward iterator its reverse; a pop
  returns the last value; and two histories are equal exactly when their lists are, also
  through the shortcut that compares the two tail pointers.
\<close>

theorem history_reads:
  assumes "store_reachable s" "history_at s i = Some h" "history_list s i = Some xs"
  shows "history_len h = length xs \<and> (history_is_empty h \<longleftrightarrow> xs = [])
    \<and> history_last s h = (if xs = [] then None else Some (last xs))
    \<and> history_get s h k = (if k < length xs then Some (xs ! k) else None)
    \<and> history_values s h = xs
    \<and> collect_iter rev_next (hh_len h + 1) (history_iter_rev s h) = rev xs
    \<and> fst (history_pop i s) = (if xs = [] then None else Some (last xs))
    \<and> (history_at s j = Some g \<longrightarrow> (history_eq s h g \<longleftrightarrow> history_list s j = Some xs))"
proof -
  note ok = store_reachable_ok [OF assms(1)]
  have xs: "contents (hs_chunks s) (hh_tail h) = xs" using assms(2,3) by (simp add: history_list_def)
  note reads = history_get_contents [OF ok assms(2)] history_last_contents [OF ok assms(2)]
    history_values_contents [OF ok assms(2)] history_rev_contents [OF ok assms(2)] store_okD(3) [OF ok assms(2)]
  have "fst (history_pop i s) = (if xs = [] then None else Some (last xs))" using pop_list [OF ok assms(2)] xs by simp
  moreover have "history_eq s h g \<longleftrightarrow> history_list s j = Some xs" if "history_at s j = Some g"
    using history_eq_contents [OF ok assms(2) that] that xs by (auto simp: history_list_def)
  ultimately show ?thesis using reads xs by (simp add: history_len_def history_is_empty_def Let_def)
qed

lemma history_reads_witness:
  "history_values shared_run \<lparr>hh_tail = Some 0, hh_len = 1\<rparr> = [7]
    \<and> history_eq shared_run \<lparr>hh_tail = Some 0, hh_len = 1\<rparr> \<lparr>hh_tail = Some 0, hh_len = 1\<rparr>"
proof -
  have at: "history_at shared_run 0 = Some \<lparr>hh_tail = Some 0, hh_len = 1\<rparr>"
    "history_at shared_run 1 = Some \<lparr>hh_tail = Some 0, hh_len = 1\<rparr>"
    "history_list shared_run 0 = Some [7]" "history_list shared_run 1 = Some [7]" by code_simp+
  show ?thesis using history_reads [OF shared_run_reachable at(1,3), of 0 1] at(2,4) by simp
qed

end
