(* ===== verification/Calendar_Policy.thy ===== *)
theory Calendar_Policy
  imports Civil_Date Unicode_Text Ordered_Map "HOL-Library.Word"
begin

section \<open>The frozen calendar policy (calendar/policy, calendar/data)\<close>

text \<open>
  A policy holds the bounds of the calendar, the official closing notices of both exchanges, and
  the table of lunar dates from which the holidays of all other years follow. Digests bind the
  data: a policy read from a save is accepted only when every digest is recomputed to the stored
  value and the data has the right shape. The messages of the source are constructors here.
\<close>

unbundle bit_operations_syntax

definition date_le :: "civil_date \<Rightarrow> civil_date \<Rightarrow> bool" where
  "date_le d e \<longleftrightarrow> d = e \<or> date_before d e"

definition date_key :: "civil_date \<Rightarrow> int \<times> nat \<times> nat" where
  "date_key d = (cd_year d, cd_month d, cd_day d)"

subsection \<open>Data\<close>

datatype calendar_exchange = Sse | Szse

datatype holiday_kind =
    NewYearDay | LabourDay | NationalDay | SpringFestival | Qingming | DragonBoat | MidAutumn

datatype closed_reason =
    Weekend
  | OfficialHoliday ustring
  | SimulatedHoliday holiday_kind

datatype day_status = Trading | Closed closed_reason

datatype year_coverage_label = Official | SimulatedHistorical | SimulatedFuture | NoticeTextUnverified

record date_range =
  dr_from :: civil_date
  dr_to :: civil_date

record official_coverage_entry =
  oc_exchange :: calendar_exchange
  oc_year :: int
  oc_closed_ranges :: "date_range list"
  oc_source_citation_id :: ustring
  oc_source_digest :: ustring

record lunar_year_fact =
  lf_year :: int
  lf_lunar_new_year :: civil_date
  lf_dragon_boat :: civil_date
  lf_mid_autumn :: civil_date
  lf_qingming :: civil_date

record lunar_year_facts =
  lt_facts :: "lunar_year_fact list"
  lt_digest :: ustring

record simulated_fallback_ruleset =
  sf_version :: nat
  sf_notice_unverified_year :: int
  sf_lunar_facts :: lunar_year_facts
  sf_digest :: ustring

record calendar_policy_spec =
  cp_algorithm_version :: nat
  cp_default_start :: civil_date
  cp_runtime_min_start :: civil_date
  cp_runtime_max_end :: civil_date
  cp_init_only_min_start :: civil_date
  cp_official_coverage :: "official_coverage_entry list"
  cp_simulated_fallback :: simulated_fallback_ruleset

record calendar_policy = calendar_policy_spec +
  cp_content_digest :: ustring

datatype policy_fault =
    EmptyFactTable
  | FactYearsNotIncreasing int int
  | FactOutsideItsYear lunar_year_fact
  | InitFloorNotBeforeMinStart civil_date civil_date
  | DefaultStartOutsideWindow civil_date civil_date civil_date
  | CoverageYearOutside int int int
  | CoverageLacksCitation calendar_exchange int
  | CoverageWithoutRanges calendar_exchange int
  | ClosedRangeNotInYear civil_date civil_date calendar_exchange int
  | LabelYearOutside int

datatype coverage_fault =
    EntriesNotSorted "calendar_exchange \<times> int" "calendar_exchange \<times> int"
  | OverlappingRanges calendar_exchange int date_range date_range

datatype calendar_error =
    CivilError date_error
  | BeforeInitFloor civil_date civil_date
  | AfterRuntimeCeiling civil_date civil_date
  | RuntimeStartOutOfRange civil_date civil_date civil_date
  | NotATradingDay calendar_exchange civil_date closed_reason
  | PrehistoryExhausted nat nat civil_date civil_date
  | MissingLunarFact int
  | ConflictingOfficialCoverage coverage_fault
  | DigestMismatch string ustring ustring
  | PolicyInvalid policy_fault
  | InvalidCount string nat

subsection \<open>Digests\<close>

definition fnv_prime :: "64 word" where "fnv_prime = 0x00000100000001b3"
definition fnv_offset_basis :: "64 word" where "fnv_offset_basis = 0xcbf29ce484222325"

definition fnv_byte :: "64 word \<Rightarrow> nat \<Rightarrow> 64 word" where
  "fnv_byte h b = (h XOR of_nat b) * fnv_prime"

definition fnv_part :: "64 word \<Rightarrow> ustring \<Rightarrow> 64 word" where
  "fnv_part h part = fnv_byte (foldl fnv_byte h (utf8 part)) 31"

definition hex_digit :: "nat \<Rightarrow> nat" where
  "hex_digit n = (if n < 10 then 48 + n else 87 + n)"

definition hex_16 :: "64 word \<Rightarrow> ustring" where
  "hex_16 w = map (\<lambda>i. hex_digit (unat w div 16 ^ (15 - i) mod 16)) [0..<16]"

definition fnv1a64_hex :: "ustring list \<Rightarrow> ustring" where
  "fnv1a64_hex parts = hex_16 (foldl fnv_part fnv_offset_basis parts)"

definition uint_text :: "nat \<Rightarrow> ustring" where
  "uint_text n = ustr (show_nat n)"

definition int_text :: "int \<Rightarrow> ustring" where
  "int_text n = ustr (show_int n)"

definition iso_text :: "civil_date \<Rightarrow> ustring" where
  "iso_text d = ustr (date_to_iso d)"

fun join_with :: "ustring \<Rightarrow> ustring list \<Rightarrow> ustring" where
  "join_with sep [] = []"
| "join_with sep [x] = x"
| "join_with sep (x # y # xs) = x @ sep @ join_with sep (y # xs)"

fun exchange_id :: "calendar_exchange \<Rightarrow> ustring" where
  "exchange_id Sse = ustr ''sse''"
| "exchange_id Szse = ustr ''szse''"

subsection \<open>The table of lunar dates\<close>

definition lunar_source_id :: ustring where
  "lunar_source_id = ustr ''hko-gregorian-lunar-conversion-table''"

definition lunar_retrieval_date :: ustring where
  "lunar_retrieval_date = ustr ''2026-09-10''"

definition fact_row :: "lunar_year_fact \<Rightarrow> ustring" where
  "fact_row f = int_text (lf_year f) @ ustr '':'' @ join_with (ustr '','')
     (map iso_text [lf_lunar_new_year f, lf_dragon_boat f, lf_mid_autumn f, lf_qingming f])"

definition compute_facts_digest :: "lunar_year_fact list \<Rightarrow> ustring" where
  "compute_facts_digest facts = fnv1a64_hex (lunar_source_id # lunar_retrieval_date # map fact_row facts)"

text \<open>A loop over \<open>windows(2)\<close> that stops at the first error.\<close>

fun each_window :: "('a \<Rightarrow> 'a \<Rightarrow> 'e + unit) \<Rightarrow> 'a list \<Rightarrow> 'e + unit" where
  "each_window f (x # y # xs) = bind_result (f x y) (\<lambda>_. each_window f (y # xs))"
| "each_window f xs = Inr ()"

text \<open>A loop that checks every element and stops at the first error.\<close>

fun each_of :: "('a \<Rightarrow> 'e + unit) \<Rightarrow> 'a list \<Rightarrow> 'e + unit" where
  "each_of f [] = Inr ()"
| "each_of f (x # xs) = bind_result (f x) (\<lambda>_. each_of f xs)"

definition check_shape :: "lunar_year_fact list \<Rightarrow> calendar_error + unit" where
  "check_shape facts =
    (if facts = [] then Inl (PolicyInvalid EmptyFactTable)
     else bind_result (each_window (\<lambda>f g. if lf_year g \<le> lf_year f
           then Inl (PolicyInvalid (FactYearsNotIncreasing (lf_year f) (lf_year g))) else Inr ()) facts)
       (\<lambda>_. each_of (\<lambda>f. if list_all (\<lambda>d. cd_year d = lf_year f)
             [lf_lunar_new_year f, lf_dragon_boat f, lf_mid_autumn f, lf_qingming f]
           then Inr () else Inl (PolicyInvalid (FactOutsideItsYear f))) facts))"

definition facts_rehydrated :: "lunar_year_fact list \<Rightarrow> ustring \<Rightarrow> calendar_error + lunar_year_facts" where
  "facts_rehydrated facts digest = bind_result (check_shape facts) (\<lambda>_. Inr \<lparr>lt_facts = facts, lt_digest = digest\<rparr>)"

definition facts_from :: "lunar_year_fact list \<Rightarrow> calendar_error + lunar_year_facts" where
  "facts_from facts = facts_rehydrated facts (compute_facts_digest facts)"

definition validate_facts :: "lunar_year_facts \<Rightarrow> calendar_error + unit" where
  "validate_facts t = bind_result (check_shape (lt_facts t)) (\<lambda>_.
     let computed = compute_facts_digest (lt_facts t) in
     if computed \<noteq> lt_digest t then Inl (DigestMismatch ''lunar_facts'' (lt_digest t) computed) else Inr ())"

text \<open>The binary search of the source, on years that increase strictly, finds the only row of a year.\<close>

definition fact_for_year :: "lunar_year_facts \<Rightarrow> int \<Rightarrow> calendar_error + lunar_year_fact" where
  "fact_for_year t year = ok_or (MissingLunarFact year) (find (\<lambda>f. lf_year f = year) (lt_facts t))"

subsection \<open>Coverage and fallback\<close>

definition covers :: "official_coverage_entry \<Rightarrow> civil_date \<Rightarrow> bool" where
  "covers e d \<longleftrightarrow> list_ex (\<lambda>r. date_le (dr_from r) d \<and> date_le d (dr_to r)) (oc_closed_ranges e)"

definition compute_fallback_digest :: "nat \<Rightarrow> int \<Rightarrow> lunar_year_facts \<Rightarrow> ustring" where
  "compute_fallback_digest version year facts =
     fnv1a64_hex [ustr ''simulated-fallback'', uint_text version, int_text year, lt_digest facts]"

definition fallback_rehydrated :: "nat \<Rightarrow> int \<Rightarrow> lunar_year_facts \<Rightarrow> ustring \<Rightarrow> calendar_error + simulated_fallback_ruleset" where
  "fallback_rehydrated version year facts digest = bind_result (validate_facts facts) (\<lambda>_.
     Inr \<lparr>sf_version = version, sf_notice_unverified_year = year, sf_lunar_facts = facts, sf_digest = digest\<rparr>)"

definition new_fallback :: "nat \<Rightarrow> int \<Rightarrow> lunar_year_facts \<Rightarrow> calendar_error + simulated_fallback_ruleset" where
  "new_fallback version year facts = fallback_rehydrated version year facts (compute_fallback_digest version year facts)"

definition validate_fallback :: "simulated_fallback_ruleset \<Rightarrow> calendar_error + unit" where
  "validate_fallback s = bind_result (validate_facts (sf_lunar_facts s)) (\<lambda>_.
     let computed = compute_fallback_digest (sf_version s) (sf_notice_unverified_year s) (sf_lunar_facts s) in
     if computed \<noteq> sf_digest s then Inl (DigestMismatch ''simulated_fallback'' (sf_digest s) computed) else Inr ())"

subsection \<open>Validation of a policy\<close>

definition check_bounds :: "civil_date \<Rightarrow> civil_date \<Rightarrow> civil_date \<Rightarrow> civil_date \<Rightarrow> calendar_error + unit" where
  "check_bounds default_start runtime_min_start runtime_max_end init_only_min_start =
    (if date_le runtime_min_start init_only_min_start
     then Inl (PolicyInvalid (InitFloorNotBeforeMinStart init_only_min_start runtime_min_start))
     else if \<not> (date_le runtime_min_start default_start \<and> date_le default_start runtime_max_end)
     then Inl (PolicyInvalid (DefaultStartOutsideWindow default_start runtime_min_start runtime_max_end))
     else Inr ())"

definition check_single_entry :: "official_coverage_entry \<Rightarrow> civil_date \<Rightarrow> civil_date \<Rightarrow> calendar_error + unit" where
  "check_single_entry e floor ceiling =
    (if oc_year e < cd_year floor \<or> cd_year ceiling < oc_year e
     then Inl (PolicyInvalid (CoverageYearOutside (oc_year e) (cd_year floor) (cd_year ceiling)))
     else if blank (oc_source_citation_id e) \<or> blank (oc_source_digest e)
     then Inl (PolicyInvalid (CoverageLacksCitation (oc_exchange e) (oc_year e)))
     else if oc_closed_ranges e = []
     then Inl (PolicyInvalid (CoverageWithoutRanges (oc_exchange e) (oc_year e)))
     else let ranges = sort_key (\<lambda>r. (date_key (dr_from r), date_key (dr_to r))) (oc_closed_ranges e) in
       bind_result (each_window (\<lambda>r q. if date_le (dr_from q) (dr_to r)
           then Inl (ConflictingOfficialCoverage (OverlappingRanges (oc_exchange e) (oc_year e) r q)) else Inr ()) ranges)
         (\<lambda>_. each_of (\<lambda>r. if date_before (dr_to r) (dr_from r) \<or> cd_year (dr_from r) \<noteq> oc_year e \<or> cd_year (dr_to r) \<noteq> oc_year e
           then Inl (PolicyInvalid (ClosedRangeNotInYear (dr_from r) (dr_to r) (oc_exchange e) (oc_year e))) else Inr ()) ranges))"

fun exchange_rank :: "calendar_exchange \<Rightarrow> nat" where
  "exchange_rank Sse = 0"
| "exchange_rank Szse = 1"

definition check_coverage_entries :: "official_coverage_entry list \<Rightarrow> civil_date \<Rightarrow> civil_date \<Rightarrow> calendar_error + unit" where
  "check_coverage_entries entries floor ceiling =
     bind_result (each_window (\<lambda>a b. if (exchange_rank (oc_exchange b), oc_year b) \<le> (exchange_rank (oc_exchange a), oc_year a)
         then Inl (ConflictingOfficialCoverage (EntriesNotSorted (oc_exchange a, oc_year a) (oc_exchange b, oc_year b)))
         else Inr ()) entries)
       (\<lambda>_. each_of (\<lambda>e. check_single_entry e floor ceiling) entries)"

definition check_facts_coverage :: "lunar_year_facts \<Rightarrow> civil_date \<Rightarrow> civil_date \<Rightarrow> calendar_error + unit" where
  "check_facts_coverage facts floor ceiling =
     each_of (\<lambda>year. map_sum id (\<lambda>_. ()) (fact_for_year facts year)) [cd_year floor..cd_year ceiling]"

definition entry_texts :: "official_coverage_entry \<Rightarrow> ustring list" where
  "entry_texts e =
    [join_with (ustr ''/'') [exchange_id (oc_exchange e), int_text (oc_year e), oc_source_citation_id e,
       join_with (ustr '';'') (map (\<lambda>r. iso_text (dr_from r) @ ustr ''..'' @ iso_text (dr_to r)) (oc_closed_ranges e))],
     oc_source_digest e]"

definition compute_content_digest :: "calendar_policy_spec \<Rightarrow> ustring" where
  "compute_content_digest s = fnv1a64_hex
    ([ustr ''calendar-policy'', uint_text (cp_algorithm_version s), iso_text (cp_default_start s),
      iso_text (cp_runtime_min_start s), iso_text (cp_runtime_max_end s), iso_text (cp_init_only_min_start s)]
     @ concat (map entry_texts (cp_official_coverage s)) @ [sf_digest (cp_simulated_fallback s)])"

definition policy_from_parts :: "calendar_policy_spec \<Rightarrow> calendar_error + calendar_policy" where
  "policy_from_parts s =
     bind_result (validate_fallback (cp_simulated_fallback s)) (\<lambda>_.
     bind_result (check_bounds (cp_default_start s) (cp_runtime_min_start s) (cp_runtime_max_end s) (cp_init_only_min_start s)) (\<lambda>_.
     bind_result (check_coverage_entries (cp_official_coverage s) (cp_init_only_min_start s) (cp_runtime_max_end s)) (\<lambda>_.
     bind_result (check_facts_coverage (sf_lunar_facts (cp_simulated_fallback s)) (cp_init_only_min_start s) (cp_runtime_max_end s)) (\<lambda>_.
     Inr \<lparr>cp_algorithm_version = cp_algorithm_version s, cp_default_start = cp_default_start s,
       cp_runtime_min_start = cp_runtime_min_start s, cp_runtime_max_end = cp_runtime_max_end s,
       cp_init_only_min_start = cp_init_only_min_start s, cp_official_coverage = cp_official_coverage s,
       cp_simulated_fallback = cp_simulated_fallback s, cp_content_digest = compute_content_digest s\<rparr>))))"

definition policy_spec :: "calendar_policy \<Rightarrow> calendar_policy_spec" where
  "policy_spec p = \<lparr>cp_algorithm_version = cp_algorithm_version p, cp_default_start = cp_default_start p,
     cp_runtime_min_start = cp_runtime_min_start p, cp_runtime_max_end = cp_runtime_max_end p,
     cp_init_only_min_start = cp_init_only_min_start p, cp_official_coverage = cp_official_coverage p,
     cp_simulated_fallback = cp_simulated_fallback p\<rparr>"

definition validate_policy :: "calendar_policy \<Rightarrow> calendar_error + unit" where
  "validate_policy p =
     bind_result (validate_fallback (cp_simulated_fallback p)) (\<lambda>_.
     let computed = compute_content_digest (policy_spec p) in
     if computed \<noteq> cp_content_digest p then Inl (DigestMismatch ''content_digest'' (cp_content_digest p) computed)
     else map_sum id (\<lambda>_. ()) (policy_from_parts (policy_spec p)))"

definition year_label :: "calendar_policy \<Rightarrow> calendar_exchange \<Rightarrow> int \<Rightarrow> calendar_error + year_coverage_label" where
  "year_label p ex year =
    (if year < cd_year (cp_init_only_min_start p) \<or> cd_year (cp_runtime_max_end p) < year
     then Inl (PolicyInvalid (LabelYearOutside year))
     else if list_ex (\<lambda>e. oc_exchange e = ex \<and> oc_year e = year) (cp_official_coverage p) then Inr Official
     else let boundary = sf_notice_unverified_year (cp_simulated_fallback p) in
       if year = boundary then Inr NoticeTextUnverified
       else if boundary < year then Inr SimulatedFuture else Inr SimulatedHistorical)"

text \<open>Every policy that is assembled passes its own validation.\<close>

lemma assembled_policy_validates:
  assumes "policy_from_parts s = Inr p"
  shows "validate_policy p = Inr ()" "policy_spec p = s"
proof -
  show s: "policy_spec p = s" using assms by (auto simp: policy_from_parts_def policy_spec_def bind_result_Inr_iff)
  have "cp_content_digest p = compute_content_digest s" "cp_simulated_fallback p = cp_simulated_fallback s"
    "validate_fallback (cp_simulated_fallback s) = Inr ()"
    using assms by (auto simp: policy_from_parts_def bind_result_Inr_iff)
  then show "validate_policy p = Inr ()" using s assms by (simp add: validate_policy_def)
qed

end
