(* ===== verification/Trading_Calendar.thy ===== *)
theory Trading_Calendar
  imports Calendar_Policy
begin

section \<open>Trading days (calendar/holidays.rs)\<close>

text \<open>
  Whether a day is a trading day, and the searches over days. A day is closed on a weekend; a year
  with an official notice of the exchange closes on the days of the notice; any other year
  on the simulated holidays. The searches are loops without a bound: they are partial functions,
  \<open>None\<close> for a loop that does not end, and the properties prove that they always end.
\<close>

definition validate_runtime_start :: "calendar_policy \<Rightarrow> civil_date \<Rightarrow> calendar_error + unit" where
  "validate_runtime_start p d = (let lo = cp_runtime_min_start p; hi = cp_runtime_max_end p in
     if date_before d lo \<or> date_before hi d then Inl (RuntimeStartOutOfRange d lo hi) else Inr ())"

definition ensure_within_applicability :: "calendar_policy \<Rightarrow> civil_date \<Rightarrow> calendar_error + unit" where
  "ensure_within_applicability p d = (let floor = cp_init_only_min_start p; ceiling = cp_runtime_max_end p in
     if date_before d floor then Inl (BeforeInitFloor d floor)
     else if date_before ceiling d then Inl (AfterRuntimeCeiling d ceiling)
     else Inr ())"

text \<open>The operator \<open>.ok()?\<close>: an error gives no holiday.\<close>

definition spring_festival :: "lunar_year_fact \<Rightarrow> (civil_date \<times> civil_date) option" where
  "spring_festival f = (case prev_date (lf_lunar_new_year f) of Inl _ \<Rightarrow> None | Inr eve \<Rightarrow>
     (case next_date (lf_lunar_new_year f) of Inl _ \<Rightarrow> None | Inr second \<Rightarrow>
     (case next_date second of Inl _ \<Rightarrow> None | Inr third \<Rightarrow> Some (eve, third))))"

definition simulated_holiday_kind :: "calendar_policy \<Rightarrow> civil_date \<Rightarrow> holiday_kind option" where
  "simulated_holiday_kind p d = (case fact_for_year (sf_lunar_facts (cp_simulated_fallback p)) (cd_year d) of
     Inl _ \<Rightarrow> None | Inr f \<Rightarrow> (case spring_festival f of None \<Rightarrow> None | Some (eve, third) \<Rightarrow>
     if date_le eve d \<and> date_le d third then Some SpringFestival
     else if cd_month d = 1 \<and> cd_day d = 1 then Some NewYearDay
     else if cd_month d = 5 \<and> cd_day d \<in> {1, 2} then Some LabourDay
     else if cd_month d = 10 \<and> cd_day d \<in> {1, 2, 3} then Some NationalDay
     else if d = lf_qingming f then Some Qingming
     else if d = lf_dragon_boat f then Some DragonBoat
     else if d = lf_mid_autumn f then Some MidAutumn
     else None))"

definition day_status_inner :: "calendar_policy \<Rightarrow> calendar_exchange \<Rightarrow> civil_date \<Rightarrow> day_status" where
  "day_status_inner p ex d =
    (if is_weekend (weekday_of d) then Closed Weekend
     else case find (\<lambda>e. oc_exchange e = ex \<and> oc_year e = cd_year d) (cp_official_coverage p) of
       Some e \<Rightarrow> if covers e d then Closed (OfficialHoliday (oc_source_citation_id e)) else Trading
     | None \<Rightarrow> (case simulated_holiday_kind p d of
         Some kind \<Rightarrow> Closed (SimulatedHoliday kind)
       | None \<Rightarrow> Trading))"

definition day_status :: "calendar_policy \<Rightarrow> calendar_exchange \<Rightarrow> civil_date \<Rightarrow> calendar_error + day_status" where
  "day_status p ex d = bind_result (ensure_within_applicability p d) (\<lambda>_. Inr (day_status_inner p ex d))"

definition is_trading_day :: "calendar_policy \<Rightarrow> calendar_exchange \<Rightarrow> civil_date \<Rightarrow> calendar_error + bool" where
  "is_trading_day p ex d = bind_result (day_status p ex d) (\<lambda>st. Inr (st = Trading))"

definition is_trading_unchecked :: "calendar_policy \<Rightarrow> calendar_exchange \<Rightarrow> civil_date \<Rightarrow> bool" where
  "is_trading_unchecked p ex d \<longleftrightarrow> day_status_inner p ex d = Trading"

subsection \<open>Searches\<close>

partial_function (option) next_trading_loop ::
  "calendar_policy \<Rightarrow> calendar_exchange \<Rightarrow> civil_date \<Rightarrow> (calendar_error + civil_date) option" where
  "next_trading_loop p ex cur = (case next_date cur of
     Inl e \<Rightarrow> Some (Inl (CivilError e))
   | Inr d \<Rightarrow>
       if date_before (cp_runtime_max_end p) d then Some (Inl (AfterRuntimeCeiling d (cp_runtime_max_end p)))
       else if is_trading_unchecked p ex d then Some (Inr d)
       else next_trading_loop p ex d)"

definition next_trading_day :: "calendar_policy \<Rightarrow> calendar_exchange \<Rightarrow> civil_date \<Rightarrow> (calendar_error + civil_date) option" where
  "next_trading_day p ex after = (case ensure_within_applicability p after of
     Inl e \<Rightarrow> Some (Inl e) | Inr _ \<Rightarrow> next_trading_loop p ex after)"

partial_function (option) previous_trading_loop ::
  "calendar_policy \<Rightarrow> calendar_exchange \<Rightarrow> civil_date \<Rightarrow> (calendar_error + civil_date) option" where
  "previous_trading_loop p ex cur = (case prev_date cur of
     Inl e \<Rightarrow> Some (Inl (CivilError e))
   | Inr d \<Rightarrow>
       if date_before d (cp_init_only_min_start p) then Some (Inl (BeforeInitFloor d (cp_init_only_min_start p)))
       else if is_trading_unchecked p ex d then Some (Inr d)
       else previous_trading_loop p ex d)"

definition previous_trading_day :: "calendar_policy \<Rightarrow> calendar_exchange \<Rightarrow> civil_date \<Rightarrow> (calendar_error + civil_date) option" where
  "previous_trading_day p ex before = (case ensure_within_applicability p before of
     Inl e \<Rightarrow> Some (Inl e) | Inr _ \<Rightarrow> previous_trading_loop p ex before)"

partial_function (option) days_before_loop ::
  "calendar_policy \<Rightarrow> calendar_exchange \<Rightarrow> civil_date \<Rightarrow> nat \<Rightarrow> civil_date \<Rightarrow> nat \<Rightarrow> (calendar_error + civil_date) option" where
  "days_before_loop p ex date n cur remaining = (case prev_date cur of
     Inl e \<Rightarrow> Some (Inl (CivilError e))
   | Inr d \<Rightarrow>
       if date_before d (cp_init_only_min_start p)
       then Some (Inl (PrehistoryExhausted n (n - remaining) date (cp_init_only_min_start p)))
       else if is_trading_unchecked p ex d then
         if remaining - 1 = 0 then Some (Inr d) else days_before_loop p ex date n d (remaining - 1)
       else days_before_loop p ex date n d remaining)"

definition trading_days_before ::
  "calendar_policy \<Rightarrow> calendar_exchange \<Rightarrow> civil_date \<Rightarrow> nat \<Rightarrow> (calendar_error + civil_date) option" where
  "trading_days_before p ex date n = (case ensure_within_applicability p date of
     Inl e \<Rightarrow> Some (Inl e)
   | Inr _ \<Rightarrow> if n = 0 then Some (Inl (InvalidCount ''trading day count'' 0))
             else days_before_loop p ex date n date n)"

partial_function (option) ordinal_loop ::
  "calendar_policy \<Rightarrow> calendar_exchange \<Rightarrow> civil_date \<Rightarrow> civil_date \<Rightarrow> nat \<Rightarrow> (calendar_error + nat) option" where
  "ordinal_loop p ex date cur ordinal =
    (if date_before cur date then
       (case next_date cur of
          Inl e \<Rightarrow> Some (Inl (CivilError e))
        | Inr d \<Rightarrow> ordinal_loop p ex date d (if is_trading_unchecked p ex cur then ordinal + 1 else ordinal))
     else Some (Inr ordinal))"

definition trading_day_ordinal :: "calendar_policy \<Rightarrow> calendar_exchange \<Rightarrow> civil_date \<Rightarrow> (calendar_error + nat) option" where
  "trading_day_ordinal p ex date = (case ensure_within_applicability p date of
     Inl e \<Rightarrow> Some (Inl e)
   | Inr _ \<Rightarrow> (case day_status_inner p ex date of
       Closed reason \<Rightarrow> Some (Inl (NotATradingDay ex date reason))
     | Trading \<Rightarrow> ordinal_loop p ex date (cp_init_only_min_start p) 0))"

partial_function (option) date_of_ordinal_loop ::
  "calendar_policy \<Rightarrow> calendar_exchange \<Rightarrow> civil_date \<Rightarrow> nat \<Rightarrow> (calendar_error + civil_date) option" where
  "date_of_ordinal_loop p ex cur remaining =
    (if date_before (cp_runtime_max_end p) cur then Some (Inl (AfterRuntimeCeiling cur (cp_runtime_max_end p)))
     else if is_trading_unchecked p ex cur \<and> remaining = 0 then Some (Inr cur)
     else (case next_date cur of
        Inl e \<Rightarrow> Some (Inl (CivilError e))
      | Inr d \<Rightarrow> date_of_ordinal_loop p ex d (if is_trading_unchecked p ex cur then remaining - 1 else remaining)))"

definition date_of_ordinal :: "calendar_policy \<Rightarrow> calendar_exchange \<Rightarrow> nat \<Rightarrow> (calendar_error + civil_date) option" where
  "date_of_ordinal p ex ordinal = date_of_ordinal_loop p ex (cp_init_only_min_start p) ordinal"

subsection \<open>Stretches of days\<close>

definition policy_dates_ok :: "calendar_policy \<Rightarrow> bool" where
  "policy_dates_ok p \<longleftrightarrow> date_ok (cp_init_only_min_start p) \<and> date_ok (cp_runtime_max_end p)"

text \<open>The open days from one date up to, but not including, another.\<close>

definition open_days :: "calendar_policy \<Rightarrow> calendar_exchange \<Rightarrow> civil_date \<Rightarrow> civil_date \<Rightarrow> civil_date set" where
  "open_days p ex d e = {x. date_ok x \<and> date_le d x \<and> date_before x e \<and> is_trading_unchecked p ex x}"

lemma before_number: "date_ok d \<Longrightarrow> date_ok e \<Longrightarrow> date_before d e \<longleftrightarrow> day_number d < day_number e"
  using date_before_total [of d e] day_number_mono by fastforce

lemma le_number: "date_ok d \<Longrightarrow> date_ok e \<Longrightarrow> date_le d e \<longleftrightarrow> day_number d \<le> day_number e"
  using before_number day_number_inj unfolding date_le_def by fastforce

lemmas date_numbers = before_number le_number

lemma finite_dates: "finite {x. date_ok x \<and> day_number x \<in> {a..b}}"
proof (rule finite_imageD)
  show "finite (day_number ` {x. date_ok x \<and> day_number x \<in> {a..b}})"
    by (rule finite_subset [of _ "{a..b}"]) auto
  show "inj_on day_number {x. date_ok x \<and> day_number x \<in> {a..b}}"
    by (auto simp: inj_on_def intro: day_number_inj)
qed

lemma finite_open_days: "date_ok d \<Longrightarrow> date_ok e \<Longrightarrow> finite (open_days p ex d e)"
  by (rule finite_subset [OF _ finite_dates [of "day_number d" "day_number e"]])
    (auto simp: open_days_def date_numbers)

lemma open_days_step:
  assumes "date_ok c" "date_ok d" "day_number d = day_number c + 1" "date_ok e" "date_before c e"
  shows "open_days p ex c e = (if is_trading_unchecked p ex c then insert c (open_days p ex d e) else open_days p ex d e)"
    "c \<notin> open_days p ex d e"
proof -
  have "date_le c x \<longleftrightarrow> x = c \<or> date_le d x" if "date_ok x" for x
    using that assms(1-3) day_number_inj [OF assms(1) that] by (auto simp: le_number)
  then show "open_days p ex c e = (if is_trading_unchecked p ex c then insert c (open_days p ex d e) else open_days p ex d e)"
    using assms by (auto simp: open_days_def)
  show "c \<notin> open_days p ex d e" using assms by (auto simp: open_days_def le_number)
qed

lemma open_days_empty: "date_ok d \<Longrightarrow> date_ok e \<Longrightarrow> \<not> date_before d e \<Longrightarrow> open_days p ex d e = {}"
  by (auto simp: open_days_def date_numbers)

lemma open_days_split:
  assumes "date_ok a" "date_ok b" "date_ok c" "date_le a b" "date_le b c"
  shows "open_days p ex a c = open_days p ex a b \<union> open_days p ex b c" "open_days p ex a b \<inter> open_days p ex b c = {}"
  using assms by (auto simp: open_days_def date_numbers)

lemma date_before_asym: "date_before d e \<Longrightarrow> \<not> date_before e d"
  by (auto simp: date_before_def)

lemma date_le_iff: "date_le d e \<longleftrightarrow> \<not> date_before e d"
  using date_before_total [of d e] date_before_asym by (auto simp: date_le_def)

lemma within_iff:
  "ensure_within_applicability p d = Inr () \<longleftrightarrow> date_le (cp_init_only_min_start p) d \<and> date_le d (cp_runtime_max_end p)"
  by (simp add: ensure_within_applicability_def Let_def date_le_iff)

lemma within_cases:
  obtains (outside) e where "ensure_within_applicability p d = Inl e"
      "\<not> (date_le (cp_init_only_min_start p) d \<and> date_le d (cp_runtime_max_end p))"
    | (within) "ensure_within_applicability p d = Inr ()" "date_le (cp_init_only_min_start p) d" "date_le d (cp_runtime_max_end p)"
  using within_iff [of p d] by (cases "ensure_within_applicability p d") auto

text \<open>The two steps of a search: to the next day, or past the end of the window of dates.\<close>

lemma next_step:
  assumes "date_ok c"
  obtains (last) e where "next_date c = Inl e" "\<And>x. date_ok x \<Longrightarrow> \<not> date_before c x"
    | (day) d where "next_date c = Inr d" "date_ok d" "day_number d = day_number c + 1"
  using next_date_cases [OF assms] limits_bound by (auto simp: before_number [OF assms]) (metis not_le)

lemma prev_step:
  assumes "date_ok c"
  obtains (first) e where "prev_date c = Inl e" "\<And>x. date_ok x \<Longrightarrow> \<not> date_before x c"
    | (day) d where "prev_date c = Inr d" "date_ok d" "day_number d + 1 = day_number c"
  using prev_date_cases [OF assms] limits_bound by (auto simp: before_number [OF _ assms]) (metis not_le)

lemma later_induct [consumes 1, case_names step]:
  assumes "date_ok c" "\<And>c. date_ok c \<Longrightarrow> (\<And>d. date_ok d \<Longrightarrow> day_number c < day_number d \<Longrightarrow> P d) \<Longrightarrow> P c"
  shows "P c"
  using assms(1)
proof (induction "nat (day_number last_date - day_number c)" arbitrary: c rule: less_induct)
  case less
  show ?case
  proof (rule assms(2) [OF less.prems])
    fix d assume d: "date_ok d" "day_number c < day_number d"
    with limits_bound [OF d(1)] show "P d" by (intro less.hyps) auto
  qed
qed

lemma earlier_induct [consumes 1, case_names step]:
  assumes "date_ok c" "\<And>c. date_ok c \<Longrightarrow> (\<And>d. date_ok d \<Longrightarrow> day_number d < day_number c \<Longrightarrow> P d) \<Longrightarrow> P c"
  shows "P c"
  using assms(1)
proof (induction "nat (day_number c - day_number first_date)" arbitrary: c rule: less_induct)
  case less
  show ?case
  proof (rule assms(2) [OF less.prems])
    fix d assume d: "date_ok d" "day_number d < day_number c"
    with limits_bound [OF d(1)] show "P d" by (intro less.hyps) auto
  qed
qed

subsection \<open>The loops\<close>

definition closed_between :: "calendar_policy \<Rightarrow> calendar_exchange \<Rightarrow> civil_date \<Rightarrow> civil_date \<Rightarrow> bool" where
  "closed_between p ex d e \<longleftrightarrow> (\<forall>x. date_ok x \<and> date_before d x \<and> date_before x e \<longrightarrow> \<not> is_trading_unchecked p ex x)"

lemma next_trading_loop_spec:
  assumes "date_ok c" "policy_dates_ok p"
  shows "\<exists>r. next_trading_loop p ex c = Some r \<and> (\<forall>t. r = Inr t \<longleftrightarrow>
    date_ok t \<and> date_before c t \<and> date_le t (cp_runtime_max_end p) \<and> is_trading_unchecked p ex t \<and> closed_between p ex c t)"
  using assms(1)
proof (induction c rule: later_induct)
  case (step c)
  have hi: "date_ok (cp_runtime_max_end p)" using assms(2) by (simp add: policy_dates_ok_def)
  show ?case using step(1)
  proof (cases rule: next_step)
    case (last e)
    then show ?thesis by (auto simp: next_trading_loop.simps [of p ex c])
  next
    case (day d)
    have between: "date_before c x \<longleftrightarrow> x = d \<or> date_before d x" if "date_ok x" for x
      using day that day_number_inj [OF day(2) that] step(1) by (auto simp: before_number)
    consider (past) "date_before (cp_runtime_max_end p) d" | (trading) "\<not> date_before (cp_runtime_max_end p) d" "is_trading_unchecked p ex d"
      | (shut) "\<not> date_before (cp_runtime_max_end p) d" "\<not> is_trading_unchecked p ex d" by blast
    then show ?thesis
    proof cases
      case past
      then have "\<not> (date_before c t \<and> date_le t (cp_runtime_max_end p))" if "date_ok t" for t
        using that day step(1) hi by (auto simp: date_numbers)
      then show ?thesis using day past by (auto simp: next_trading_loop.simps [of p ex c])
    next
      case trading
      have "t = d" if "date_ok t" "date_before c t" "closed_between p ex c t" for t
        using that between [of t] trading(2) day between [of d] by (auto simp: closed_between_def)
      moreover have "closed_between p ex c d"
        using between date_before_asym by (auto simp: closed_between_def)
      ultimately have "\<forall>t. (Inr d :: calendar_error + civil_date) = Inr t \<longleftrightarrow> date_ok t \<and> date_before c t
          \<and> date_le t (cp_runtime_max_end p) \<and> is_trading_unchecked p ex t \<and> closed_between p ex c t"
        using trading day(2) between [OF day(2)] unfolding date_le_iff by blast
      moreover have "next_trading_loop p ex c = Some (Inr d)" using day trading by (simp add: next_trading_loop.simps [of p ex c])
      ultimately show ?thesis by blast
    next
      case shut
      obtain r where r: "next_trading_loop p ex d = Some r" "\<forall>t. r = Inr t \<longleftrightarrow>
          date_ok t \<and> date_before d t \<and> date_le t (cp_runtime_max_end p) \<and> is_trading_unchecked p ex t \<and> closed_between p ex d t"
        using step(2) [OF day(2)] day(3) by auto
      have "closed_between p ex c t \<longleftrightarrow> closed_between p ex d t" if "date_ok t" for t
        using between shut(2) by (auto simp: closed_between_def)
      moreover have "date_before c t \<longleftrightarrow> date_before d t" if "date_ok t" "is_trading_unchecked p ex t" for t
        using between [OF that(1)] that(2) shut(2) by auto
      ultimately have "\<forall>t. r = Inr t \<longleftrightarrow>
          date_ok t \<and> date_before c t \<and> date_le t (cp_runtime_max_end p) \<and> is_trading_unchecked p ex t \<and> closed_between p ex c t"
        using r(2) by blast
      moreover have "next_trading_loop p ex c = Some r" using r(1) shut day by (simp add: next_trading_loop.simps [of p ex c])
      ultimately show ?thesis by blast
    qed
  qed
qed

lemma previous_trading_loop_spec:
  assumes "date_ok c" "policy_dates_ok p"
  shows "\<exists>r. previous_trading_loop p ex c = Some r \<and> (\<forall>t. r = Inr t \<longleftrightarrow>
    date_ok t \<and> date_before t c \<and> date_le (cp_init_only_min_start p) t \<and> is_trading_unchecked p ex t \<and> closed_between p ex t c)"
  using assms(1)
proof (induction c rule: earlier_induct)
  case (step c)
  have lo: "date_ok (cp_init_only_min_start p)" using assms(2) by (simp add: policy_dates_ok_def)
  show ?case using step(1)
  proof (cases rule: prev_step)
    case (first e)
    then show ?thesis by (auto simp: previous_trading_loop.simps [of p ex c])
  next
    case (day d)
    have between: "date_before x c \<longleftrightarrow> x = d \<or> date_before x d" if "date_ok x" for x
      using day that day_number_inj [OF day(2) that] step(1) by (auto simp: before_number)
    consider (past) "date_before d (cp_init_only_min_start p)" | (trading) "\<not> date_before d (cp_init_only_min_start p)" "is_trading_unchecked p ex d"
      | (shut) "\<not> date_before d (cp_init_only_min_start p)" "\<not> is_trading_unchecked p ex d" by blast
    then show ?thesis
    proof cases
      case past
      then have "\<not> (date_before t c \<and> date_le (cp_init_only_min_start p) t)" if "date_ok t" for t
        using that day step(1) lo by (auto simp: date_numbers)
      then show ?thesis using day past by (auto simp: previous_trading_loop.simps [of p ex c])
    next
      case trading
      have "t = d" if "date_ok t" "date_before t c" "closed_between p ex t c" for t
        using that between [of t] trading(2) day between [of d] by (auto simp: closed_between_def)
      moreover have "closed_between p ex d c"
        using between date_before_asym by (auto simp: closed_between_def)
      ultimately have "\<forall>t. (Inr d :: calendar_error + civil_date) = Inr t \<longleftrightarrow> date_ok t \<and> date_before t c
          \<and> date_le (cp_init_only_min_start p) t \<and> is_trading_unchecked p ex t \<and> closed_between p ex t c"
        using trading day(2) between [OF day(2)] unfolding date_le_iff by blast
      moreover have "previous_trading_loop p ex c = Some (Inr d)" using day trading by (simp add: previous_trading_loop.simps [of p ex c])
      ultimately show ?thesis by blast
    next
      case shut
      obtain r where r: "previous_trading_loop p ex d = Some r" "\<forall>t. r = Inr t \<longleftrightarrow>
          date_ok t \<and> date_before t d \<and> date_le (cp_init_only_min_start p) t \<and> is_trading_unchecked p ex t \<and> closed_between p ex t d"
        using step(2) [OF day(2)] day(3) by auto
      have "closed_between p ex t c \<longleftrightarrow> closed_between p ex t d" if "date_ok t" for t
        using between shut(2) by (auto simp: closed_between_def)
      moreover have "date_before t c \<longleftrightarrow> date_before t d" if "date_ok t" "is_trading_unchecked p ex t" for t
        using between [OF that(1)] that(2) shut(2) by auto
      ultimately have "\<forall>t. r = Inr t \<longleftrightarrow>
          date_ok t \<and> date_before t c \<and> date_le (cp_init_only_min_start p) t \<and> is_trading_unchecked p ex t \<and> closed_between p ex t c"
        using r(2) by blast
      moreover have "previous_trading_loop p ex c = Some r" using r(1) shut day by (simp add: previous_trading_loop.simps [of p ex c])
      ultimately show ?thesis by blast
    qed
  qed
qed

text \<open>
  What a search answers when there is no open day left within the bounds of the policy: it has stepped to the
  first day past the bound, or to the end of the dates.
\<close>

definition past_ceiling :: "calendar_policy \<Rightarrow> calendar_error" where
  "past_ceiling p = (case next_date (cp_runtime_max_end p) of
     Inl e \<Rightarrow> CivilError e | Inr d \<Rightarrow> AfterRuntimeCeiling d (cp_runtime_max_end p))"

definition past_floor :: "calendar_policy \<Rightarrow> calendar_error" where
  "past_floor p = (case prev_date (cp_init_only_min_start p) of
     Inl e \<Rightarrow> CivilError e | Inr d \<Rightarrow> BeforeInitFloor d (cp_init_only_min_start p))"

definition none_after :: "calendar_policy \<Rightarrow> calendar_exchange \<Rightarrow> civil_date \<Rightarrow> bool" where
  "none_after p ex c \<longleftrightarrow> (\<forall>t. date_ok t \<and> date_before c t \<and> date_le t (cp_runtime_max_end p) \<longrightarrow> \<not> is_trading_unchecked p ex t)"

definition none_before :: "calendar_policy \<Rightarrow> calendar_exchange \<Rightarrow> civil_date \<Rightarrow> bool" where
  "none_before p ex c \<longleftrightarrow> (\<forall>t. date_ok t \<and> date_before t c \<and> date_le (cp_init_only_min_start p) t \<longrightarrow> \<not> is_trading_unchecked p ex t)"

lemma next_trading_loop_error:
  assumes "date_ok c" "policy_dates_ok p" "date_le c (cp_runtime_max_end p)"
  shows "next_trading_loop p ex c = Some (Inl err) \<longleftrightarrow> none_after p ex c \<and> err = past_ceiling p"
  using assms(1,3)
proof (induction c rule: later_induct)
  case (step c)
  let ?hi = "cp_runtime_max_end p"
  have hi: "date_ok ?hi" using assms(2) by (simp add: policy_dates_ok_def)
  show ?case using step(1)
  proof (cases rule: next_step)
    case (last e)
    have c: "c = ?hi" using last step(3) hi by (auto simp: date_le_def)
    have "next_trading_loop p ex c = Some (Inl (CivilError e))" using last by (simp add: next_trading_loop.simps)
    moreover have "none_after p ex c" using last by (auto simp: none_after_def)
    ultimately show ?thesis using last c by (auto simp: past_ceiling_def)
  next
    case (day d)
    have between: "date_before c x \<longleftrightarrow> x = d \<or> date_before d x" if "date_ok x" for x
      using day that day_number_inj [OF day(2) that] step(1) by (auto simp: before_number)
    show ?thesis
    proof (cases "date_before ?hi d")
      case True
      then have "day_number c = day_number ?hi" using day step(1,3) hi by (simp add: date_numbers)
      then have c: "c = ?hi" using day_number_inj step(1) hi by blast
      have "none_after p ex c" unfolding none_after_def c using date_le_iff by blast
      moreover have "next_trading_loop p ex c = Some (Inl (AfterRuntimeCeiling d ?hi))" using True day by (simp add: next_trading_loop.simps)
      ultimately show ?thesis using day c by (auto simp: past_ceiling_def)
    next
      case False
      have after: "none_after p ex c \<longleftrightarrow> \<not> is_trading_unchecked p ex d \<and> none_after p ex d"
        using between day(2) False unfolding none_after_def date_le_iff by blast
      have "next_trading_loop p ex d = Some (Inl err) \<longleftrightarrow> none_after p ex d \<and> err = past_ceiling p"
        using step(2) [OF day(2)] day(3) False by (simp add: date_le_iff)
      with after False day show ?thesis by (simp add: next_trading_loop.simps [of p ex c])
    qed
  qed
qed

lemma previous_trading_loop_error:
  assumes "date_ok c" "policy_dates_ok p" "date_le (cp_init_only_min_start p) c"
  shows "previous_trading_loop p ex c = Some (Inl err) \<longleftrightarrow> none_before p ex c \<and> err = past_floor p"
  using assms(1,3)
proof (induction c rule: earlier_induct)
  case (step c)
  let ?lo = "cp_init_only_min_start p"
  have lo: "date_ok ?lo" using assms(2) by (simp add: policy_dates_ok_def)
  show ?case using step(1)
  proof (cases rule: prev_step)
    case (first e)
    have c: "c = ?lo" using first step(3) lo by (auto simp: date_le_def)
    have "previous_trading_loop p ex c = Some (Inl (CivilError e))" using first by (simp add: previous_trading_loop.simps)
    moreover have "none_before p ex c" using first by (auto simp: none_before_def)
    ultimately show ?thesis using first c by (auto simp: past_floor_def)
  next
    case (day d)
    have between: "date_before x c \<longleftrightarrow> x = d \<or> date_before x d" if "date_ok x" for x
      using day that day_number_inj [OF day(2) that] step(1) by (auto simp: before_number)
    show ?thesis
    proof (cases "date_before d ?lo")
      case True
      then have "day_number c = day_number ?lo" using day step(1,3) lo by (simp add: date_numbers)
      then have c: "c = ?lo" using day_number_inj step(1) lo by blast
      have "none_before p ex c" unfolding none_before_def c using date_le_iff by blast
      moreover have "previous_trading_loop p ex c = Some (Inl (BeforeInitFloor d ?lo))" using True day by (simp add: previous_trading_loop.simps)
      ultimately show ?thesis using day c by (auto simp: past_floor_def)
    next
      case False
      have before: "none_before p ex c \<longleftrightarrow> \<not> is_trading_unchecked p ex d \<and> none_before p ex d"
        using between day(2) False unfolding none_before_def date_le_iff by blast
      have "previous_trading_loop p ex d = Some (Inl err) \<longleftrightarrow> none_before p ex d \<and> err = past_floor p"
        using step(2) [OF day(2)] day(3) False by (simp add: date_le_iff)
      with before False day show ?thesis by (simp add: previous_trading_loop.simps [of p ex c])
    qed
  qed
qed

lemma ordinal_loop_counts:
  assumes "date_ok c" "date_ok d" "date_le c d"
  shows "ordinal_loop p ex d c k = Some (Inr (k + card (open_days p ex c d)))"
  using assms(1,3)
proof (induction c arbitrary: k rule: later_induct)
  case (step c)
  show ?case
  proof (cases "date_before c d")
    case False
    then show ?thesis using step(1) assms(2) by (simp add: ordinal_loop.simps open_days_empty)
  next
    case True
    show ?thesis using step(1)
    proof (cases rule: next_step)
      case (last e)
      then show ?thesis using True assms(2) by blast
    next
      case (day e)
      have "date_le e d" using True day step(1) assms(2) by (simp add: date_numbers)
      then have "ordinal_loop p ex d e k' = Some (Inr (k' + card (open_days p ex e d)))" for k'
        using step(2) [OF day(2)] day(3) by simp
      then show ?thesis using True day open_days_step [OF step(1) day(2,3) assms(2) True] finite_open_days [OF day(2) assms(2)]
        by (simp add: ordinal_loop.simps [of p ex d c])
    qed
  qed
qed

lemma date_of_ordinal_loop_spec:
  assumes "date_ok c" "policy_dates_ok p"
  shows "\<exists>r. date_of_ordinal_loop p ex c n = Some r \<and> (\<forall>t. r = Inr t \<longleftrightarrow>
    date_ok t \<and> date_le c t \<and> date_le t (cp_runtime_max_end p) \<and> is_trading_unchecked p ex t \<and> card (open_days p ex c t) = n)"
  using assms(1)
proof (induction c arbitrary: n rule: later_induct)
  case (step c)
  have hi: "date_ok (cp_runtime_max_end p)" using assms(2) by (simp add: policy_dates_ok_def)
  have self: "open_days p ex c c = {}" using step(1) by (intro open_days_empty) (auto simp: date_before_def)
  consider (past) "date_before (cp_runtime_max_end p) c"
    | (found) "\<not> date_before (cp_runtime_max_end p) c" "is_trading_unchecked p ex c" "n = 0"
    | (further) "\<not> date_before (cp_runtime_max_end p) c" "is_trading_unchecked p ex c \<longrightarrow> n \<noteq> 0" by blast
  then show ?case
  proof cases
    case past
    then have "\<not> (date_le c t \<and> date_le t (cp_runtime_max_end p))" if "date_ok t" for t
      using that step(1) hi by (auto simp: date_numbers)
    then show ?thesis using past by (auto simp: date_of_ordinal_loop.simps [of p ex c])
  next
    case found
    have "t = c" if "date_ok t" "date_le c t" "card (open_days p ex c t) = 0" for t
    proof (rule ccontr)
      assume "t \<noteq> c"
      then have "c \<in> open_days p ex c t" using that(2) found(2) step(1) by (auto simp: open_days_def date_le_def)
      with that(3) finite_open_days [OF step(1) that(1)] show False by (auto simp: card_eq_0_iff)
    qed
    then have "\<forall>t. (Inr c :: calendar_error + civil_date) = Inr t \<longleftrightarrow>
        date_ok t \<and> date_le c t \<and> date_le t (cp_runtime_max_end p) \<and> is_trading_unchecked p ex t \<and> card (open_days p ex c t) = n"
      using found step(1) self by (auto simp: date_le_iff dest: date_before_asym)
    moreover have "date_of_ordinal_loop p ex c n = Some (Inr c)" using found by (simp add: date_of_ordinal_loop.simps)
    ultimately show ?thesis by blast
  next
    case further
    have not_c: "\<not> (is_trading_unchecked p ex t \<and> card (open_days p ex c t) = n \<and> t = c)" for t
      using further(2) self by auto
    show ?thesis using step(1)
    proof (cases rule: next_step)
      case (last e)
      then have "date_ok t \<and> date_le c t \<longrightarrow> t = c" for t by (auto simp: date_le_def)
      then have "\<forall>t. (Inl (CivilError e) :: calendar_error + civil_date) = Inr t \<longleftrightarrow>
        date_ok t \<and> date_le c t \<and> date_le t (cp_runtime_max_end p) \<and> is_trading_unchecked p ex t \<and> card (open_days p ex c t) = n"
        using not_c by blast
      moreover have "date_of_ordinal_loop p ex c n = Some (Inl (CivilError e))" using further last
        by (auto simp: date_of_ordinal_loop.simps [of p ex c])
      ultimately show ?thesis by blast
    next
      case (day d)
      let ?n = "if is_trading_unchecked p ex c then n - 1 else n"
      obtain r where r: "date_of_ordinal_loop p ex d ?n = Some r" "\<forall>t. r = Inr t \<longleftrightarrow>
          date_ok t \<and> date_le d t \<and> date_le t (cp_runtime_max_end p) \<and> is_trading_unchecked p ex t \<and> card (open_days p ex d t) = ?n"
        using step(2) [OF day(2), of ?n] day(3) by auto
      have le: "date_le c t \<longleftrightarrow> t = c \<or> date_le d t" if "date_ok t" for t
        using day that day_number_inj [OF step(1) that] step(1) by (auto simp: le_number)
      have n: "card (open_days p ex c t) = n \<longleftrightarrow> card (open_days p ex d t) = ?n" if "date_ok t" "date_le d t" for t
      proof -
        have "date_before c t" using that day step(1) by (simp add: date_numbers)
        then show ?thesis
          using open_days_step [OF step(1) day(2,3) that(1)] finite_open_days [OF day(2) that(1)] further(2) by auto
      qed
      have "\<forall>t. r = Inr t \<longleftrightarrow>
        date_ok t \<and> date_le c t \<and> date_le t (cp_runtime_max_end p) \<and> is_trading_unchecked p ex t \<and> card (open_days p ex c t) = n"
        using r(2) le n not_c by blast
      moreover have "date_of_ordinal_loop p ex c n = Some r" using further r(1) day
        by (auto simp: date_of_ordinal_loop.simps [of p ex c])
      ultimately show ?thesis by blast
    qed
  qed
qed

lemma days_before_loop_spec:
  assumes "date_ok c" "policy_dates_ok p" "0 < k"
  shows "\<exists>r. days_before_loop p ex date n c k = Some r \<and> (\<forall>t. r = Inr t \<longleftrightarrow>
    date_ok t \<and> date_before t c \<and> date_le (cp_init_only_min_start p) t \<and> is_trading_unchecked p ex t \<and> card (open_days p ex t c) = k)"
  using assms(1,3)
proof (induction c arbitrary: k rule: earlier_induct)
  case (step c)
  have lo: "date_ok (cp_init_only_min_start p)" using assms(2) by (simp add: policy_dates_ok_def)
  show ?case using step(1)
  proof (cases rule: prev_step)
    case (first e)
    then show ?thesis by (auto simp: days_before_loop.simps [of p ex date n c])
  next
    case (day d)
    have between: "date_before x c \<longleftrightarrow> x = d \<or> date_before x d" if "date_ok x" for x
      using day that day_number_inj [OF day(2) that] step(1) by (auto simp: before_number)
    have dc: "date_before d c" using between [OF day(2)] by simp
    have split: "open_days p ex t c = (if is_trading_unchecked p ex d then insert d (open_days p ex t d) else open_days p ex t d)"
      "d \<notin> open_days p ex t d" if "date_ok t" "date_before t c" for t
      using between that day(2) date_before_asym by (auto simp: open_days_def date_le_def)
    have cards: "card (open_days p ex t c) = (if is_trading_unchecked p ex d then Suc (card (open_days p ex t d)) else card (open_days p ex t d))"
      if "date_ok t" "date_before t c" for t
      using split [OF that] finite_open_days [OF that(1) day(2)] by simp
    have self: "open_days p ex d d = {}" using day(2) by (intro open_days_empty) (auto simp: date_before_def)
    consider (past) "date_before d (cp_init_only_min_start p)"
      | (found) "\<not> date_before d (cp_init_only_min_start p)" "is_trading_unchecked p ex d" "k = 1"
      | (further) "\<not> date_before d (cp_init_only_min_start p)" "is_trading_unchecked p ex d \<longrightarrow> k \<noteq> 1" by blast
    then show ?thesis
    proof cases
      case past
      then have "\<not> (date_before t c \<and> date_le (cp_init_only_min_start p) t)" if "date_ok t" for t
        using that day step(1) lo by (auto simp: date_numbers)
      then show ?thesis using day past by (auto simp: days_before_loop.simps [of p ex date n c])
    next
      case found
      have "t = d" if t: "date_ok t" "date_before t c" "is_trading_unchecked p ex t" "card (open_days p ex t c) = 1" for t
      proof (rule ccontr)
        assume "t \<noteq> d"
        with between t have "t \<in> open_days p ex t d" by (auto simp: open_days_def date_le_def)
        moreover have "card (open_days p ex t d) = 0" using cards [OF t(1,2)] found(2) t(4) by simp
        ultimately show False using finite_open_days [OF t(1) day(2)] by (auto simp: card_eq_0_iff)
      qed
      moreover have "card (open_days p ex d c) = 1" using cards [OF day(2) dc] found(2) self by simp
      ultimately have "\<forall>t. (Inr d :: calendar_error + civil_date) = Inr t \<longleftrightarrow> date_ok t \<and> date_before t c
          \<and> date_le (cp_init_only_min_start p) t \<and> is_trading_unchecked p ex t \<and> card (open_days p ex t c) = k"
        using found day(2) dc unfolding date_le_iff by blast
      moreover have "days_before_loop p ex date n c k = Some (Inr d)" using found day by (simp add: days_before_loop.simps)
      ultimately show ?thesis by blast
    next
      case further
      let ?k = "if is_trading_unchecked p ex d then k - 1 else k"
      have pos: "0 < ?k" using further(2) step(3) by auto
      obtain r where r: "days_before_loop p ex date n d ?k = Some r" "\<forall>t. r = Inr t \<longleftrightarrow> date_ok t \<and> date_before t d
          \<and> date_le (cp_init_only_min_start p) t \<and> is_trading_unchecked p ex t \<and> card (open_days p ex t d) = ?k"
        using step(2) [OF day(2) _ pos] day(3) by auto
      have "card (open_days p ex t c) = k \<longleftrightarrow> card (open_days p ex t d) = ?k" if "date_ok t" "date_before t c" for t
        using cards [OF that] step(3) by auto
      moreover have "card (open_days p ex d c) = k \<longrightarrow> \<not> is_trading_unchecked p ex d"
        using cards [OF day(2) dc] self further(2) by auto
      ultimately have "\<forall>t. r = Inr t \<longleftrightarrow> date_ok t \<and> date_before t c
          \<and> date_le (cp_init_only_min_start p) t \<and> is_trading_unchecked p ex t \<and> card (open_days p ex t c) = k"
        using r(2) between by blast
      moreover have "days_before_loop p ex date n c k = Some r" using further r(1) day step(3)
        by (auto simp: days_before_loop.simps [of p ex date n c k])
      ultimately show ?thesis by blast
    qed
  qed
qed

subsection \<open>Properties\<close>

text \<open>
  C39 (Every search over the calendar ends). Whatever notices and holidays a policy holds, as long as
  its bounds are dates, the unbounded loops of the searches end from every date: for the next and the previous
  trading day, the \<open>n\<close>-th trading day before, the ordinal of a day and the day of an ordinal.
\<close>

theorem trading_searches_end:
  assumes "policy_dates_ok p" "date_ok d"
  shows "next_trading_day p ex d \<noteq> None \<and> previous_trading_day p ex d \<noteq> None \<and> trading_days_before p ex d n \<noteq> None
    \<and> trading_day_ordinal p ex d \<noteq> None \<and> date_of_ordinal p ex n \<noteq> None"
proof -
  have lo: "date_ok (cp_init_only_min_start p)" using assms(1) by (simp add: policy_dates_ok_def)
  have "n \<noteq> 0 \<Longrightarrow> days_before_loop p ex d n d n \<noteq> None"
    using days_before_loop_spec [OF assms(2,1), of n ex d n] by auto
  moreover have "ordinal_loop p ex d (cp_init_only_min_start p) 0 \<noteq> None" if "ensure_within_applicability p d = Inr ()"
    using that ordinal_loop_counts [OF lo assms(2), of p ex 0] by (simp add: within_iff)
  ultimately show ?thesis
    using next_trading_loop_spec [OF assms(2,1), of ex] previous_trading_loop_spec [OF assms(2,1), of ex]
      date_of_ordinal_loop_spec [OF lo assms(1), of ex n]
    by (auto simp: next_trading_day_def previous_trading_day_def trading_days_before_def trading_day_ordinal_def
        date_of_ordinal_def split: sum.splits day_status.splits)
qed

text \<open>
  C40 (The searches find the nearest trading day or report that there is none). A date before the floor or past the
  ceiling of the policy is refused with that error. From any other date the search forward returns exactly the day
  that is open, after the date, within the bounds, and with no open day in between; and it returns an error
  exactly when no day after the date up to the ceiling is open, namely that the first day past the ceiling is past it,
  or, when the ceiling is the last date there is, that the dates have run out. The search backward is its mirror image.
\<close>

theorem searches_find_nearest:
  assumes "policy_dates_ok p" "date_ok d"
  shows "if date_before d (cp_init_only_min_start p) then
      next_trading_day p ex d = Some (Inl (BeforeInitFloor d (cp_init_only_min_start p)))
      \<and> previous_trading_day p ex d = Some (Inl (BeforeInitFloor d (cp_init_only_min_start p)))
    else if date_before (cp_runtime_max_end p) d then
      next_trading_day p ex d = Some (Inl (AfterRuntimeCeiling d (cp_runtime_max_end p)))
      \<and> previous_trading_day p ex d = Some (Inl (AfterRuntimeCeiling d (cp_runtime_max_end p)))
    else
      (next_trading_day p ex d = Some (Inr t) \<longleftrightarrow>
        date_ok t \<and> date_before d t \<and> date_le t (cp_runtime_max_end p) \<and> is_trading_unchecked p ex t \<and> closed_between p ex d t)
      \<and> (next_trading_day p ex d = Some (Inl err) \<longleftrightarrow> none_after p ex d \<and> err = past_ceiling p)
      \<and> (previous_trading_day p ex d = Some (Inr t) \<longleftrightarrow>
        date_ok t \<and> date_before t d \<and> date_le (cp_init_only_min_start p) t \<and> is_trading_unchecked p ex t \<and> closed_between p ex t d)
      \<and> (previous_trading_day p ex d = Some (Inl err) \<longleftrightarrow> none_before p ex d \<and> err = past_floor p)"
proof (cases "date_before d (cp_init_only_min_start p) \<or> date_before (cp_runtime_max_end p) d")
  case True
  then show ?thesis by (auto simp: next_trading_day_def previous_trading_day_def ensure_within_applicability_def Let_def)
next
  case False
  then have within: "date_le (cp_init_only_min_start p) d" "date_le d (cp_runtime_max_end p)" by (simp_all add: date_le_iff)
  then have "ensure_within_applicability p d = Inr ()" by (simp add: within_iff)
  then have "next_trading_day p ex d = next_trading_loop p ex d" "previous_trading_day p ex d = previous_trading_loop p ex d"
    by (simp_all add: next_trading_day_def previous_trading_day_def)
  moreover have "next_trading_loop p ex d = Some (Inr t) \<longleftrightarrow>
      date_ok t \<and> date_before d t \<and> date_le t (cp_runtime_max_end p) \<and> is_trading_unchecked p ex t \<and> closed_between p ex d t"
  proof -
    obtain r where "next_trading_loop p ex d = Some r" "r = Inr t \<longleftrightarrow> date_ok t \<and> date_before d t \<and> date_le t (cp_runtime_max_end p)
        \<and> is_trading_unchecked p ex t \<and> closed_between p ex d t"
      using next_trading_loop_spec [OF assms(2,1), of ex] by blast
    then show ?thesis by simp
  qed
  moreover have "previous_trading_loop p ex d = Some (Inr t) \<longleftrightarrow>
      date_ok t \<and> date_before t d \<and> date_le (cp_init_only_min_start p) t \<and> is_trading_unchecked p ex t \<and> closed_between p ex t d"
  proof -
    obtain r where "previous_trading_loop p ex d = Some r" "r = Inr t \<longleftrightarrow> date_ok t \<and> date_before t d \<and> date_le (cp_init_only_min_start p) t
        \<and> is_trading_unchecked p ex t \<and> closed_between p ex t d"
      using previous_trading_loop_spec [OF assms(2,1), of ex] by blast
    then show ?thesis by simp
  qed
  ultimately show ?thesis using False next_trading_loop_error [OF assms(2,1) within(2), of ex err]
      previous_trading_loop_error [OF assms(2,1) within(1), of ex err] by presburger
qed

text \<open>
  On the open days of a policy the ordinal of a day is
  the number of open days before it, and the ordinal of a date and the date of an ordinal are inverse to
  each other. The \<open>n\<close>-th trading day before a date is the open day from which \<open>n\<close> open days
  lead up to the date.
\<close>

theorem trading_days_numbered:
  assumes "policy_dates_ok p" "date_ok d" "date_ok t"
  shows "(trading_day_ordinal p ex d = Some (Inr n) \<longleftrightarrow> date_le (cp_init_only_min_start p) d \<and> date_le d (cp_runtime_max_end p)
      \<and> is_trading_unchecked p ex d \<and> card (open_days p ex (cp_init_only_min_start p) d) = n)
    \<and> (date_of_ordinal p ex n = Some (Inr d) \<longleftrightarrow> trading_day_ordinal p ex d = Some (Inr n))
    \<and> (trading_days_before p ex d n = Some (Inr t) \<longleftrightarrow> 0 < n \<and> date_le (cp_init_only_min_start p) d \<and> date_le d (cp_runtime_max_end p)
      \<and> date_before t d \<and> date_le (cp_init_only_min_start p) t \<and> is_trading_unchecked p ex t \<and> card (open_days p ex t d) = n)"
proof -
  have lo: "date_ok (cp_init_only_min_start p)" using assms(1) by (simp add: policy_dates_ok_def)
  have number: "trading_day_ordinal p ex d = Some (Inr n) \<longleftrightarrow> date_le (cp_init_only_min_start p) d \<and> date_le d (cp_runtime_max_end p)
      \<and> is_trading_unchecked p ex d \<and> card (open_days p ex (cp_init_only_min_start p) d) = n"
  proof (cases rule: within_cases [of p d])
    case (outside e)
    then show ?thesis by (auto simp: trading_day_ordinal_def)
  next
    case within
    then show ?thesis using ordinal_loop_counts [OF lo assms(2) within(2), of p ex 0]
      by (cases "day_status_inner p ex d") (auto simp: trading_day_ordinal_def is_trading_unchecked_def)
  qed
  moreover have "date_of_ordinal p ex n = Some (Inr d) \<longleftrightarrow> date_le (cp_init_only_min_start p) d \<and> date_le d (cp_runtime_max_end p)
      \<and> is_trading_unchecked p ex d \<and> card (open_days p ex (cp_init_only_min_start p) d) = n"
  proof -
    obtain r where "date_of_ordinal_loop p ex (cp_init_only_min_start p) n = Some r"
      "r = Inr d \<longleftrightarrow> date_ok d \<and> date_le (cp_init_only_min_start p) d \<and> date_le d (cp_runtime_max_end p)
        \<and> is_trading_unchecked p ex d \<and> card (open_days p ex (cp_init_only_min_start p) d) = n"
      using date_of_ordinal_loop_spec [OF lo assms(1), of ex n] by blast
    then show ?thesis using assms(2) by (simp add: date_of_ordinal_def)
  qed
  moreover have "trading_days_before p ex d n = Some (Inr t) \<longleftrightarrow> 0 < n \<and> date_le (cp_init_only_min_start p) d \<and> date_le d (cp_runtime_max_end p)
      \<and> date_before t d \<and> date_le (cp_init_only_min_start p) t \<and> is_trading_unchecked p ex t \<and> card (open_days p ex t d) = n"
  proof (cases rule: within_cases [of p d])
    case (outside e)
    then show ?thesis by (auto simp: trading_days_before_def)
  next
    case within
    show ?thesis
    proof (cases "n = 0")
      case True
      then show ?thesis using within(1) by (simp add: trading_days_before_def)
    next
      case False
      then have "trading_days_before p ex d n = days_before_loop p ex d n d n"
        using within(1) by (simp add: trading_days_before_def)
      moreover obtain r where "days_before_loop p ex d n d n = Some r"
        "r = Inr t \<longleftrightarrow> date_ok t \<and> date_before t d \<and> date_le (cp_init_only_min_start p) t
          \<and> is_trading_unchecked p ex t \<and> card (open_days p ex t d) = n"
        using days_before_loop_spec [OF assms(2,1), of n ex d n] False by blast
      ultimately show ?thesis using False within(2,3) assms(3) by simp
    qed
  qed
  ultimately show ?thesis by blast
qed

subsection \<open>The closing notices of 2026, and a policy around them\<close>

definition notice_ranges_2026 :: "(string \<times> string) list" where
  "notice_ranges_2026 =
    [(''2026-01-01'', ''2026-01-03''), (''2026-01-04'', ''2026-01-04''), (''2026-02-14'', ''2026-02-14''),
     (''2026-02-15'', ''2026-02-23''), (''2026-02-28'', ''2026-02-28''), (''2026-04-04'', ''2026-04-06''),
     (''2026-05-01'', ''2026-05-05''), (''2026-05-09'', ''2026-05-09''), (''2026-06-19'', ''2026-06-21''),
     (''2026-09-20'', ''2026-09-20''), (''2026-09-25'', ''2026-09-27''), (''2026-10-01'', ''2026-10-07''),
     (''2026-10-10'', ''2026-10-10'')]"

definition range_of_texts :: "string \<times> string \<Rightarrow> calendar_error + date_range" where
  "range_of_texts r = bind_result (map_error CivilError (date_from_iso (fst r))) (\<lambda>a.
     bind_result (map_error CivilError (date_from_iso (snd r))) (\<lambda>b. Inr \<lparr>dr_from = a, dr_to = b\<rparr>))"

definition official_2026_coverage :: "calendar_error + official_coverage_entry list" where
  "official_2026_coverage = bind_result (try_map range_of_texts notice_ranges_2026) (\<lambda>ranges. Inr
    [\<lparr>oc_exchange = Sse, oc_year = 2026, oc_closed_ranges = ranges,
       oc_source_citation_id = ustr ''sse-2026-holiday-notice'',
       oc_source_digest = ustr ''3ecade6151ea19fe223b747eea08212be430f69ae7a52056f1961b2087e939bc''\<rparr>,
     \<lparr>oc_exchange = Szse, oc_year = 2026, oc_closed_ranges = ranges,
       oc_source_citation_id = ustr ''szse-2026-holiday-notice'',
       oc_source_digest = ustr ''87ecf6071c1aa57eb6dc70327e7d763481976300079d622739b27766b789535f''\<rparr>])"

definition sample_date :: "int \<Rightarrow> nat \<Rightarrow> nat \<Rightarrow> civil_date" where
  "sample_date y m d = \<lparr>cd_year = y, cd_month = m, cd_day = d\<rparr>"

definition sample_facts :: lunar_year_facts where
  "sample_facts = \<lparr>lt_facts = [\<lparr>lf_year = 2025, lf_lunar_new_year = sample_date 2025 1 29,
     lf_dragon_boat = sample_date 2025 5 31, lf_mid_autumn = sample_date 2025 10 6, lf_qingming = sample_date 2025 4 4\<rparr>], lt_digest = []\<rparr>"

definition sample_policy :: calendar_policy where
  "sample_policy = \<lparr>cp_algorithm_version = 1, cp_default_start = sample_date 2026 1 1,
     cp_runtime_min_start = sample_date 2026 1 1, cp_runtime_max_end = sample_date 2026 12 31,
     cp_init_only_min_start = sample_date 2025 1 1,
     cp_official_coverage = [\<lparr>oc_exchange = Sse, oc_year = 2026, oc_closed_ranges =
         [\<lparr>dr_from = sample_date 2026 5 1, dr_to = sample_date 2026 5 5\<rparr>], oc_source_citation_id = [115], oc_source_digest = [57]\<rparr>],
     cp_simulated_fallback = \<lparr>sf_version = 1, sf_notice_unverified_year = 2026, sf_lunar_facts = sample_facts, sf_digest = []\<rparr>,
     cp_content_digest = []\<rparr>"

lemma sample_dates_ok:
  "policy_dates_ok sample_policy" "date_ok (sample_date 2026 2 13)" "date_ok (sample_date 2026 2 24)"
  "date_ok (sample_date 2025 1 27)" "date_ok (sample_date 2025 2 3)"
  by (simp_all add: policy_dates_ok_def sample_policy_def sample_date_def date_ok_def days_in_month_def leap_year_def)

lemma trading_searches_end_witness:
  "next_trading_day sample_policy Sse (sample_date 2026 2 13) \<noteq> None"
  using trading_searches_end [OF sample_dates_ok(1,2), of Sse 0] by blast

lemma sample_days:
  "next_date (sample_date 2026 5 8) = Inr (sample_date 2026 5 9)" "next_date (sample_date 2026 5 9) = Inr (sample_date 2026 5 10)"
  "next_date (sample_date 2026 5 10) = Inr (sample_date 2026 5 11)"
  "is_trading_unchecked sample_policy Sse (sample_date 2026 5 9) = False"
  "is_trading_unchecked sample_policy Sse (sample_date 2026 5 10) = False"
  "is_trading_unchecked sample_policy Sse (sample_date 2026 5 11) = True"
  "next_date (sample_date 2025 1 1) = Inr (sample_date 2025 1 2)" "next_date (sample_date 2025 1 2) = Inr (sample_date 2025 1 3)"
  "is_trading_unchecked sample_policy Sse (sample_date 2025 1 1) = False"
  "is_trading_unchecked sample_policy Sse (sample_date 2025 1 2) = True"
  "day_status_inner sample_policy Sse (sample_date 2025 1 3) = Trading"
  by code_simp+

lemma sample_bounds:
  "cp_init_only_min_start sample_policy = sample_date 2025 1 1" "cp_runtime_max_end sample_policy = sample_date 2026 12 31"
  by (simp_all add: sample_policy_def)

lemmas sample_search = next_trading_loop.simps [of sample_policy Sse "sample_date 2026 5 d" for d]
  ordinal_loop.simps [of sample_policy Sse "sample_date 2025 1 d" "sample_date 2025 1 e" for d e]

theorem searches_find_nearest_witness:
  "next_trading_day sample_policy Sse (sample_date 2026 5 8) = Some (Inr (sample_date 2026 5 11))
    \<and> closed_between sample_policy Sse (sample_date 2026 5 8) (sample_date 2026 5 11)
    \<and> next_trading_day sample_policy Sse (sample_date 2026 12 31) = Some (Inl (past_ceiling sample_policy))
    \<and> past_ceiling sample_policy = AfterRuntimeCeiling (sample_date 2027 1 1) (sample_date 2026 12 31)"
proof -
  have b: "\<not> date_before (sample_date 2026 5 8) (cp_init_only_min_start sample_policy)"
    "\<not> date_before (cp_runtime_max_end sample_policy) (sample_date 2026 5 8)" "date_ok (sample_date 2026 5 8)"
    "\<not> date_before (sample_date 2026 12 31) (cp_init_only_min_start sample_policy)"
    "\<not> date_before (cp_runtime_max_end sample_policy) (sample_date 2026 12 31)" "date_ok (sample_date 2026 12 31)"
    by (simp_all add: sample_bounds date_before_def sample_date_def date_ok_def days_in_month_def)
  have "next_trading_loop sample_policy Sse (sample_date 2026 5 8) = Some (Inr (sample_date 2026 5 11))"
    by (simp add: sample_search sample_days sample_bounds) (simp add: date_before_def sample_date_def)
  then have "next_trading_day sample_policy Sse (sample_date 2026 5 8) = Some (Inr (sample_date 2026 5 11))"
    using b(1,2) within_iff [of sample_policy "sample_date 2026 5 8"] by (simp add: next_trading_day_def date_le_iff)
  with searches_find_nearest [OF sample_dates_ok(1) b(3), of Sse "sample_date 2026 5 11"] b(1,2)
  have found: "next_trading_day sample_policy Sse (sample_date 2026 5 8) = Some (Inr (sample_date 2026 5 11))
    \<and> closed_between sample_policy Sse (sample_date 2026 5 8) (sample_date 2026 5 11)" by simp
  have "none_after sample_policy Sse (sample_date 2026 12 31)"
    by (simp add: none_after_def sample_bounds date_le_iff)
  with searches_find_nearest [OF sample_dates_ok(1) b(6), of Sse undefined "past_ceiling sample_policy"] b(4,5)
  have "next_trading_day sample_policy Sse (sample_date 2026 12 31) = Some (Inl (past_ceiling sample_policy))" by simp
  moreover have "next_date (sample_date 2026 12 31) = Inr (sample_date 2027 1 1)" by code_simp
  then have "past_ceiling sample_policy = AfterRuntimeCeiling (sample_date 2027 1 1) (sample_date 2026 12 31)"
    by (simp add: past_ceiling_def sample_bounds)
  ultimately show ?thesis using found by blast
qed

lemma trading_days_numbered_witness:
  "trading_day_ordinal sample_policy Sse (sample_date 2025 1 3) = Some (Inr 1)
    \<and> date_of_ordinal sample_policy Sse 1 = Some (Inr (sample_date 2025 1 3))"
proof -
  have d: "date_before (sample_date 2025 1 1) (sample_date 2025 1 3)" "date_before (sample_date 2025 1 2) (sample_date 2025 1 3)"
    "\<not> date_before (sample_date 2025 1 3) (sample_date 2025 1 3)" "date_ok (sample_date 2025 1 3)"
    "ensure_within_applicability sample_policy (sample_date 2025 1 3) = Inr ()"
    by (simp_all add: within_iff sample_bounds date_le_def date_before_def sample_date_def date_ok_def days_in_month_def
        del: One_nat_def)
  have "trading_day_ordinal sample_policy Sse (sample_date 2025 1 3) = Some (Inr 1)"
    by (simp add: trading_day_ordinal_def d sample_days sample_search sample_bounds del: One_nat_def)
  with trading_days_numbered [OF sample_dates_ok(1) d(4,4), of Sse 1] show ?thesis by blast
qed

end
