(* ===== verification/Share_Types.thy ===== *)
theory Share_Types
  imports Calendar_Policy Order_Types "HOL-Library.List_Lexorder" "HOL-Library.AList"
begin

section \<open>Vocabulary of the share registry (company/share_registry.rs)\<close>

text \<open>
  The registry of an issuer says who holds its shares, in lots with a date, a source and a
  restriction. This theory has the data of the registry, of a day's net changes and of the typed
  settlement days, and the checks that look at one value at a time. Error texts keep the source's
  words; where the source wraps an error into a longer text, \<open>FaultAt\<close> keeps the phase, the event
  and the cause.
\<close>

type_synonym stock_code = ustring
type_synonym company_id = nat

datatype holder_id = AccountHolder account_id | External ustring | IssuerTreasury

datatype acquisition_source =
    InitialAllocation ustring
  | SecondaryMarket ustring
  | CorporateAction ustring

datatype share_restriction = Unrestricted | Restricted ustring civil_date

record repurchase_account_facts =
  rf_account_reference :: ustring
  rf_source_evidence :: ustring
  rf_established_on :: civil_date

record share_lot =
  sl_id :: ustring
  sl_qty :: nat
  sl_acquired_on :: civil_date
  sl_source :: acquisition_source
  sl_restriction :: share_restriction

record share_holding =
  sh_holder :: holder_id
  sh_lots :: "share_lot list"

record net_acquisition =
  na_lot_id :: ustring
  na_source :: acquisition_source
  na_restriction :: share_restriction

record lot_consumption =
  lc_lot_id :: ustring
  lc_qty :: nat

record day_net_change =
  nc_holder :: holder_id
  nc_change :: int
  nc_acquisition :: "net_acquisition option"
  nc_consume :: "lot_consumption list option"

subsection \<open>Typed settlement days\<close>

datatype share_unit = InitialUnit | ReDenominated ustring

record share_day_frontier =
  df_settled_on :: civil_date
  df_receipt_count :: nat
  df_unit :: share_unit

record opening_movement_ref =
  om_movement_event :: ustring
  om_registration_event :: ustring
  om_source_lots :: "ustring list list"
  om_from_unit :: share_unit
  om_to_unit :: share_unit

record share_confirmation_ref =
  cf_account :: account_id
  cf_receipt_id :: nat

datatype share_market_source =
    FinalConfirmations "share_confirmation_ref list"
  | CalendarClosed calendar_exchange ustring

datatype share_post_action_ref =
    MovementRef ustring
  | UnitMovementRef ustring share_unit share_unit
  | CaptureRef ustring

record share_settlement_binding =
  sb_predecessor :: share_day_frontier
  sb_opening :: "opening_movement_ref list"
  sb_market_unit :: share_unit
  sb_market_source :: share_market_source
  sb_post :: "share_post_action_ref list"

datatype movement_scope =
    PublicMarket
  | SettlementDayMarket share_settlement_binding
  | NonTradingTransfer ustring
  | IssuerRepurchaseCancellation ustring
  | ShareReDenomination ustring

record share_day_request =
  dq_event_id :: ustring
  dq_day :: civil_date
  dq_scope :: movement_scope
  dq_changes :: "day_net_change list"

record disposed_lot =
  dl_holder :: holder_id
  dl_lot :: share_lot
  dl_disposed_on :: civil_date

record share_day_receipt =
  rc_request :: share_day_request
  rc_disposals :: "disposed_lot list"

record registration_snapshot =
  rs_event_id :: ustring
  rs_stock :: stock_code
  rs_issuer :: company_id
  rs_registered_on :: civil_date
  rs_issued_shares :: nat
  rs_settled_receipts :: nat
  rs_repurchase_account :: "repurchase_account_facts option"
  rs_holdings :: "share_holding list"

record frozen_opening_movement =
  fo_reference :: opening_movement_ref
  fo_request :: share_day_request

record pending_opening =
  po_predecessor :: share_day_frontier
  po_opening :: frozen_opening_movement

record share_registry =
  sr_stock :: stock_code
  sr_issuer :: company_id
  sr_issued_shares :: nat
  sr_repurchase_account :: "repurchase_account_facts option"
  sr_settled_on :: civil_date
  sr_holdings :: "share_holding list"
  sr_receipts :: "share_day_receipt list"
  sr_registrations :: "registration_snapshot list"
  sr_pending_opening :: "pending_opening option"

datatype registry_error =
    InvalidFact string
  | InsufficientTransferableShares holder_id nat nat
  | FaultAt string ustring registry_error

subsection \<open>Checks of single values\<close>

text \<open>A check that refuses with the given error.\<close>

definition refuse_if :: "bool \<Rightarrow> 'e \<Rightarrow> 'e + unit" where
  "refuse_if b e = (if b then Inl e else Inr ())"

lemma refuse_if_Inr [simp]: "refuse_if b e = Inr u \<longleftrightarrow> \<not> b"
  by (simp add: refuse_if_def)

abbreviation all_checks :: "('e + unit) \<Rightarrow> ('e + unit) \<Rightarrow> 'e + unit" where
  "all_checks r q \<equiv> bind_result r (\<lambda>_. q)"

fun is_redenomination :: "movement_scope \<Rightarrow> bool" where
  "is_redenomination (ShareReDenomination _) = True"
| "is_redenomination _ = False"

fun is_transfer :: "movement_scope \<Rightarrow> bool" where
  "is_transfer (NonTradingTransfer _) = True"
| "is_transfer _ = False"

fun is_cancellation :: "movement_scope \<Rightarrow> bool" where
  "is_cancellation (IssuerRepurchaseCancellation _) = True"
| "is_cancellation _ = False"

fun scope_binding :: "movement_scope \<Rightarrow> share_settlement_binding option" where
  "scope_binding (SettlementDayMarket b) = Some b"
| "scope_binding _ = None"

fun scope_basis :: "movement_scope \<Rightarrow> ustring option" where
  "scope_basis (NonTradingTransfer b) = Some b"
| "scope_basis (IssuerRepurchaseCancellation b) = Some b"
| "scope_basis (ShareReDenomination b) = Some b"
| "scope_basis _ = None"

definition validate_holder :: "holder_id \<Rightarrow> registry_error + unit" where
  "validate_holder h = refuse_if (case h of External i \<Rightarrow> blank i | _ \<Rightarrow> False)
     (InvalidFact ''external holder identity is required'')"

fun source_identity :: "acquisition_source \<Rightarrow> ustring" where
  "source_identity (InitialAllocation e) = e"
| "source_identity (SecondaryMarket s) = s"
| "source_identity (CorporateAction e) = e"

definition validate_source :: "acquisition_source \<Rightarrow> registry_error + unit" where
  "validate_source s = refuse_if (blank (source_identity s)) (InvalidFact ''acquisition source evidence is required'')"

definition validate_lot :: "share_lot \<Rightarrow> civil_date \<Rightarrow> registry_error + unit" where
  "validate_lot l settled_on =
     all_checks (refuse_if (blank (sl_id l) \<or> sl_qty l = 0 \<or> date_before settled_on (sl_acquired_on l))
       (InvalidFact ''invalid share lot identity, quantity or acquisition date''))
    (all_checks (validate_source (sl_source l))
      (case sl_restriction l of
         Unrestricted \<Rightarrow> Inr ()
       | Restricted reason release_on \<Rightarrow>
           refuse_if (blank reason \<or> date_before release_on (sl_acquired_on l)) (InvalidFact ''invalid share restriction facts'')))"

text \<open>The loop over the holders and their lots: identities seen so far, last date, running total.\<close>

fun validate_lots :: "civil_date \<Rightarrow> ustring list \<Rightarrow> civil_date option \<Rightarrow> nat \<Rightarrow> share_lot list \<Rightarrow> registry_error + (ustring list \<times> nat)" where
  "validate_lots day ids prev acc [] = Inr (ids, acc)"
| "validate_lots day ids prev acc (l # ls) =
     bind_result (validate_lot l day) (\<lambda>_.
       if sl_id l \<in> set ids \<or> (case prev of None \<Rightarrow> False | Some d \<Rightarrow> date_before (sl_acquired_on l) d)
       then Inl (InvalidFact ''duplicate lot identity or non-FIFO acquisition dates'')
       else bind_result (ok_or (InvalidFact ''share sum overflow'') (checked_u64 (acc + sl_qty l))) (\<lambda>t.
         validate_lots day (sl_id l # ids) (Some (sl_acquired_on l)) t ls))"

fun validate_holders :: "civil_date \<Rightarrow> holder_id list \<Rightarrow> ustring list \<Rightarrow> nat \<Rightarrow> share_holding list \<Rightarrow> registry_error + nat" where
  "validate_holders day holders ids acc [] = Inr acc"
| "validate_holders day holders ids acc (h # hs) =
     bind_result (validate_holder (sh_holder h)) (\<lambda>_.
       if sh_holder h \<in> set holders then Inl (InvalidFact ''duplicate holder'')
       else bind_result (validate_lots day ids None acc (sh_lots h)) (\<lambda>(ids', t).
         validate_holders day (sh_holder h # holders) ids' t hs))"

definition validate_holdings :: "share_holding list \<Rightarrow> nat \<Rightarrow> civil_date \<Rightarrow> registry_error + unit" where
  "validate_holdings hs issued day = bind_result (validate_holders day [] [] 0 hs) (\<lambda>lots.
     refuse_if (issued = 0 \<or> lots \<noteq> issued) (InvalidFact ''issued share conservation mismatch''))"

definition validate_repurchase_account :: "repurchase_account_facts option \<Rightarrow> civil_date \<Rightarrow> registry_error + unit" where
  "validate_repurchase_account facts as_of = (case facts of None \<Rightarrow> Inr () | Some f \<Rightarrow>
     refuse_if (blank (rf_account_reference f) \<or> blank (rf_source_evidence f) \<or> date_before as_of (rf_established_on f))
       (InvalidFact ''invalid issuer repurchase account facts''))"

definition validate_snapshot :: "registration_snapshot \<Rightarrow> registry_error + unit" where
  "validate_snapshot s =
     all_checks (refuse_if (blank (rs_event_id s) \<or> blank (rs_stock s))
       (InvalidFact ''registration event, stock and issuer identities are required''))
    (all_checks (validate_holdings (rs_holdings s) (rs_issued_shares s) (rs_registered_on s))
      (validate_repurchase_account (rs_repurchase_account s) (rs_registered_on s)))"

definition entitled_holdings :: "registration_snapshot \<Rightarrow> share_holding list" where
  "entitled_holdings s = filter (\<lambda>h. sh_holder h \<noteq> IssuerTreasury \<and> sh_lots h \<noteq> []) (rs_holdings s)"

subsection \<open>The check of a day request\<close>

definition check_cancellation :: "day_net_change list \<Rightarrow> registry_error + unit" where
  "check_cancellation changes = (case changes of
     [c] \<Rightarrow>
       all_checks (refuse_if (nc_holder c \<noteq> IssuerTreasury \<or> 0 \<le> nc_change c)
         (InvalidFact ''issuer repurchase cancellation must reduce the issuer treasury holder only''))
      (all_checks (refuse_if (nc_acquisition c \<noteq> None) (InvalidFact ''cancellation cannot create acquisition lots''))
        (refuse_if (nc_consume c = None)
          (InvalidFact ''issuer repurchase cancellation requires an explicit lot consumption selection'')))
   | _ \<Rightarrow> Inl (InvalidFact ''issuer repurchase cancellation must carry exactly one treasury reduction''))"

definition quantity_of_change :: "int \<Rightarrow> nat option" where
  "quantity_of_change z = (if 0 \<le> z \<and> z \<le> int u64_max then Some (nat z) else None)"

definition acquired_lot :: "net_acquisition \<Rightarrow> nat \<Rightarrow> civil_date \<Rightarrow> share_lot" where
  "acquired_lot a qty day = \<lparr>sl_id = na_lot_id a, sl_qty = qty, sl_acquired_on = day,
     sl_source = na_source a, sl_restriction = na_restriction a\<rparr>"

fun is_corporate :: "acquisition_source \<Rightarrow> bool" where
  "is_corporate (CorporateAction _) = True" | "is_corporate _ = False"

fun is_secondary :: "acquisition_source \<Rightarrow> bool" where
  "is_secondary (SecondaryMarket _) = True" | "is_secondary _ = False"

definition check_acquisition :: "movement_scope \<Rightarrow> civil_date \<Rightarrow> day_net_change \<Rightarrow> registry_error + unit" where
  "check_acquisition scope day c =
    (if 0 < nc_change c then
       bind_result (ok_or (InvalidFact ''net acquisition facts are required'') (nc_acquisition c)) (\<lambda>a.
       all_checks
        (if is_transfer scope \<or> is_redenomination scope
         then refuse_if (\<not> is_corporate (na_source a))
           (InvalidFact ''non-trading transfer acquisition requires a corporate-action source'')
         else refuse_if (\<not> is_secondary (na_source a) \<or> na_restriction a \<noteq> Unrestricted)
           (InvalidFact ''public market acquisition requires secondary-market source and unrestricted shares''))
        (bind_result (ok_or (InvalidFact ''net acquisition exceeds u64'') (quantity_of_change (nc_change c))) (\<lambda>qty.
          validate_lot (acquired_lot a qty day) day)))
     else refuse_if (nc_acquisition c \<noteq> None) (InvalidFact ''non-positive net change cannot create an acquisition lot''))"

fun validate_changes :: "movement_scope \<Rightarrow> civil_date \<Rightarrow> holder_id list \<Rightarrow> int \<Rightarrow> day_net_change list \<Rightarrow> registry_error + int" where
  "validate_changes scope day holders net [] = Inr net"
| "validate_changes scope day holders net (c # cs) =
     bind_result (validate_holder (nc_holder c)) (\<lambda>_.
     bind_result (refuse_if (nc_holder c \<in> set holders \<and> \<not> is_redenomination scope)
       (InvalidFact ''daily request contains duplicate holder; supply one net change'')) (\<lambda>_.
     bind_result (refuse_if (nc_consume c \<noteq> None \<and> 0 \<le> nc_change c)
       (InvalidFact ''explicit lot consumption is only valid on a net reduction'')) (\<lambda>_.
     bind_result (refuse_if (nc_consume c \<noteq> None \<and> \<not> is_cancellation scope \<and> \<not> is_redenomination scope)
       (InvalidFact ''explicit lot consumption is only valid for issuer repurchase cancellation or re-denomination'')) (\<lambda>_.
     bind_result (ok_or (InvalidFact ''daily net change sum overflow'') (checked_i128 (net + nc_change c))) (\<lambda>t.
     bind_result (check_acquisition scope day c) (\<lambda>_.
     bind_result (refuse_if (is_transfer scope \<and> nc_change c < 0)
       (InvalidFact ''non-trading transfer cannot reduce a holder; disposals belong to the public market scope'')) (\<lambda>_.
     validate_changes scope day (nc_holder c # holders) t cs)))))))"

definition check_net :: "movement_scope \<Rightarrow> day_net_change list \<Rightarrow> int \<Rightarrow> registry_error + unit" where
  "check_net scope changes net =
    (if is_transfer scope then
       refuse_if (net \<le> 0) (InvalidFact ''non-trading transfer must issue a positive number of new shares'')
     else if is_redenomination scope then
       all_checks (refuse_if (net = 0) (InvalidFact ''share re-denomination must strictly change issued shares''))
        (refuse_if (list_ex (\<lambda>c. 0 < nc_change c) changes \<and> list_ex (\<lambda>c. nc_change c < 0) changes)
          (InvalidFact ''share re-denomination changes must share one direction; mixed signs are a transfer, not re-denomination''))
     else if is_cancellation scope then
       refuse_if (0 \<le> net) (InvalidFact ''issuer repurchase cancellation must strictly reduce issued shares'')
     else refuse_if (net \<noteq> 0) (InvalidFact ''secondary transfer must conserve issued shares''))"

definition validate_request :: "share_day_request \<Rightarrow> registry_error + unit" where
  "validate_request q =
     all_checks (refuse_if (case scope_basis (dq_scope q) of None \<Rightarrow> False | Some b \<Rightarrow> blank b)
       (InvalidFact ''non-trading transfer requires a nonempty legal basis reference''))
    (all_checks (if is_cancellation (dq_scope q) then check_cancellation (dq_changes q) else Inr ())
    (all_checks (refuse_if (blank (dq_event_id q)) (InvalidFact ''empty daily settlement identity''))
    (bind_result (validate_changes (dq_scope q) (dq_day q) [] 0 (dq_changes q)) (\<lambda>net.
       check_net (dq_scope q) (dq_changes q) net))))"

end
