(* ===== verification/Share_Movement.thy ===== *)
theory Share_Movement
  imports Share_Types
begin

section \<open>Applying a day's net changes (ShareRegistry::apply_movement)\<close>

text \<open>
  The core of the registry: the net changes of a request are applied one after another to the lots of
  the holders. A reduction takes the oldest transferable lots, or exactly the lots the request
  names; an acquisition adds a lot. The source only ever applies a movement to a copy that it
  drops on an error, so an error has no state here. The second half shows what a movement does to the
  holdings.
\<close>

definition has_lot_id :: "share_registry \<Rightarrow> ustring \<Rightarrow> bool" where
  "has_lot_id r i \<longleftrightarrow> list_ex (\<lambda>h. list_ex (\<lambda>l. sl_id l = i) (sh_lots h)) (sr_holdings r)
     \<or> list_ex (\<lambda>rc. list_ex (\<lambda>d. sl_id (dl_lot d) = i) (rc_disposals rc)
          \<or> list_ex (\<lambda>c. case nc_acquisition c of None \<Rightarrow> False | Some a \<Rightarrow> na_lot_id a = i) (dq_changes (rc_request rc)))
        (sr_receipts r)
     \<or> list_ex (\<lambda>s. list_ex (\<lambda>h. list_ex (\<lambda>l. sl_id l = i) (sh_lots h)) (rs_holdings s)) (sr_registrations r)"

text \<open>A restriction that still holds on a day; re-denomination is not a transfer and ignores it.\<close>

definition locked_on :: "civil_date \<Rightarrow> bool \<Rightarrow> share_lot \<Rightarrow> bool" where
  "locked_on day redenomination l \<longleftrightarrow> (case sl_restriction l of
     Unrestricted \<Rightarrow> False | Restricted _ release_on \<Rightarrow> date_before day release_on \<and> \<not> redenomination)"

subsection \<open>Reductions\<close>

text \<open>The loop over the lots: lots left, lots taken, shares still to take.\<close>

fun fifo_take :: "civil_date \<Rightarrow> bool \<Rightarrow> nat \<Rightarrow> share_lot list \<Rightarrow> share_lot list \<times> share_lot list \<times> nat" where
  "fifo_take day re remaining [] = ([], [], remaining)"
| "fifo_take day re remaining (l # ls) =
    (if remaining = 0 then (l # ls, [], 0)
     else if locked_on day re l then
       (case fifo_take day re remaining ls of (rest, taken, left) \<Rightarrow> (l # rest, taken, left))
     else let consumed = min remaining (sl_qty l) in
       (case fifo_take day re (remaining - consumed) ls of (rest, taken, left) \<Rightarrow>
         (l\<lparr>sl_qty := sl_qty l - consumed\<rparr> # rest, l\<lparr>sl_qty := consumed\<rparr> # taken, left)))"

fun selection_map :: "(ustring, nat) bt \<Rightarrow> nat \<Rightarrow> lot_consumption list \<Rightarrow> registry_error + ((ustring, nat) bt \<times> nat)" where
  "selection_map sel acc [] = Inr (sel, acc)"
| "selection_map sel acc (e # es) =
    (if blank (lc_lot_id e) \<or> lc_qty e = 0
     then Inl (InvalidFact ''explicit lot consumption entries must name an existing lot and a positive quantity'')
     else if map_of sel (lc_lot_id e) \<noteq> None
     then Inl (InvalidFact ''explicit lot consumption names one lot more than once'')
     else bind_result (ok_or (InvalidFact ''explicit lot consumption total overflow'') (checked_u64 (acc + lc_qty e)))
       (\<lambda>t. selection_map (bt_insert (lc_lot_id e) (lc_qty e) sel) t es))"

definition pick_lot :: "civil_date \<Rightarrow> bool \<Rightarrow> share_lot list \<Rightarrow> ustring \<times> nat \<Rightarrow> registry_error + share_lot" where
  "pick_lot day re lots e =
     bind_result (ok_or (InvalidFact ''explicit lot consumption names an unregistered lot'') (find (\<lambda>l. sl_id l = fst e) lots)) (\<lambda>l.
       if locked_on day re l then Inl (InvalidFact ''explicit lot consumption cannot dispose an unreleased restricted lot'')
       else if sl_qty l < snd e then Inl (InvalidFact ''explicit lot consumption exceeds the lot's current quantity'')
       else Inr (l\<lparr>sl_qty := snd e\<rparr>))"

fun subtract_lot :: "ustring \<times> nat \<Rightarrow> share_lot list \<Rightarrow> share_lot list" where
  "subtract_lot e [] = []"
| "subtract_lot e (l # ls) = (if sl_id l = fst e then l\<lparr>sl_qty := sl_qty l - snd e\<rparr> # ls else l # subtract_lot e ls)"

definition consume_selection ::
  "civil_date \<Rightarrow> bool \<Rightarrow> nat \<Rightarrow> lot_consumption list \<Rightarrow> share_lot list \<Rightarrow> registry_error + (share_lot list \<times> share_lot list)" where
  "consume_selection day re quantity selection lots =
     bind_result (selection_map [] 0 selection) (\<lambda>(sel, acc).
       if acc \<noteq> quantity
       then Inl (InvalidFact ''explicit lot consumption must cover exactly the requested reduction'')
       else bind_result (try_map (pick_lot day re lots) sel) (\<lambda>taken. Inr (fold subtract_lot sel lots, taken)))"

definition reduce_lots ::
  "civil_date \<Rightarrow> bool \<Rightarrow> holder_id \<Rightarrow> nat \<Rightarrow> lot_consumption list option \<Rightarrow> share_lot list \<Rightarrow> registry_error + (share_lot list \<times> share_lot list)" where
  "reduce_lots day re holder quantity consume lots = (case consume of
     Some selection \<Rightarrow> consume_selection day re quantity selection lots
   | None \<Rightarrow> (case fifo_take day re quantity lots of (rest, taken, left) \<Rightarrow>
       if left \<noteq> 0 then Inl (InsufficientTransferableShares holder quantity (quantity - left))
       else Inr (rest, taken)))"

subsection \<open>The movement\<close>

fun set_lots :: "holder_id \<Rightarrow> share_lot list \<Rightarrow> share_holding list \<Rightarrow> share_holding list" where
  "set_lots holder ls [] = []"
| "set_lots holder ls (h # hs) = (if sh_holder h = holder then h\<lparr>sh_lots := ls\<rparr> # hs else h # set_lots holder ls hs)"

definition find_holding :: "holder_id \<Rightarrow> share_holding list \<Rightarrow> share_holding option" where
  "find_holding holder hs = find (\<lambda>h. sh_holder h = holder) hs"

type_synonym movement = "share_registry \<times> disposed_lot list \<times> nat"

definition apply_reduction :: "share_day_request \<Rightarrow> movement \<Rightarrow> day_net_change \<Rightarrow> registry_error + movement" where
  "apply_reduction q m c = (case m of (r, disposals, issued_new) \<Rightarrow>
     bind_result (refuse_if (nc_change c = i128_min) (InvalidFact ''negative share change overflow'')) (\<lambda>_.
     bind_result (ok_or (InvalidFact ''share change exceeds u64'') (quantity_of_change (- nc_change c))) (\<lambda>quantity.
     bind_result (ok_or (InvalidFact ''disposing holder is not registered'') (find_holding (nc_holder c) (sr_holdings r))) (\<lambda>h.
     bind_result (reduce_lots (dq_day q) (is_redenomination (dq_scope q)) (nc_holder c) quantity (nc_consume c) (sh_lots h)) (\<lambda>(rest, taken).
       Inr (r\<lparr>sr_holdings := set_lots (nc_holder c) (filter (\<lambda>l. sl_qty l \<noteq> 0) rest) (sr_holdings r)\<rparr>,
            disposals @ map (\<lambda>l. \<lparr>dl_holder = nc_holder c, dl_lot = l, dl_disposed_on = dq_day q\<rparr>) taken,
            issued_new))))))"

definition apply_acquisition :: "share_day_request \<Rightarrow> movement \<Rightarrow> day_net_change \<Rightarrow> registry_error + movement" where
  "apply_acquisition q m c = (case m of (r, disposals, issued_new) \<Rightarrow>
     bind_result (ok_or (InvalidFact ''share change exceeds u64'') (quantity_of_change (nc_change c))) (\<lambda>quantity.
     bind_result (ok_or (InvalidFact ''net acquisition facts are required'') (nc_acquisition c)) (\<lambda>a.
     bind_result (refuse_if (has_lot_id r (na_lot_id a)) (InvalidFact ''share lot identity reused'')) (\<lambda>_.
     bind_result (if is_transfer (dq_scope q) \<or> is_redenomination (dq_scope q)
         then ok_or (InvalidFact ''non-trading transfer issuance total overflow'') (checked_u64 (issued_new + quantity))
         else Inr issued_new) (\<lambda>issued_new.
       let l = acquired_lot a quantity (dq_day q) in
       Inr (r\<lparr>sr_holdings := (case find_holding (nc_holder c) (sr_holdings r) of
              Some h \<Rightarrow> set_lots (nc_holder c) (sh_lots h @ [l]) (sr_holdings r)
            | None \<Rightarrow> sr_holdings r @ [\<lparr>sh_holder = nc_holder c, sh_lots = [l]\<rparr>])\<rparr>, disposals, issued_new))))))"

definition apply_change :: "share_day_request \<Rightarrow> movement \<Rightarrow> day_net_change \<Rightarrow> registry_error + movement" where
  "apply_change q m c =
    (if nc_change c < 0 then apply_reduction q m c
     else if 0 < nc_change c then apply_acquisition q m c
     else bind_result (refuse_if (find_holding (nc_holder c) (sr_holdings (fst m)) = None)
       (InvalidFact ''zero-net holder is not registered'')) (\<lambda>_. Inr m))"

definition net_change :: "day_net_change list \<Rightarrow> int" where
  "net_change cs = sum_list (map nc_change cs)"

definition issued_after :: "share_day_request \<Rightarrow> nat \<Rightarrow> nat \<Rightarrow> registry_error + nat" where
  "issued_after q issued issued_new = (let net = net_change (dq_changes q) in
     case dq_scope q of
       NonTradingTransfer _ \<Rightarrow> ok_or (InvalidFact ''issued share increase overflow'') (checked_u64 (issued + issued_new))
     | IssuerRepurchaseCancellation _ \<Rightarrow>
         bind_result (ok_or (InvalidFact ''issuer repurchase cancellation total underflow'') (quantity_of_change \<bar>net\<bar>)) (\<lambda>cancelled.
           if issued < cancelled then Inl (InvalidFact ''issuer repurchase cancellation underflows issued shares'')
           else Inr (issued - cancelled))
     | ShareReDenomination _ \<Rightarrow>
         if 0 < net then ok_or (InvalidFact ''share re-denomination increase overflow'') (checked_u64 (issued + issued_new))
         else bind_result (ok_or (InvalidFact ''share re-denomination reduction overflow'') (quantity_of_change \<bar>net\<bar>)) (\<lambda>reduced.
           if issued < reduced then Inl (InvalidFact ''share re-denomination underflows issued shares'')
           else Inr (issued - reduced))
     | _ \<Rightarrow> Inr issued)"

definition fresh_acquisitions :: "share_registry \<Rightarrow> day_net_change list \<Rightarrow> registry_error + unit" where
  "fresh_acquisitions r cs = each_of (\<lambda>c. case nc_acquisition c of None \<Rightarrow> Inr ()
     | Some a \<Rightarrow> refuse_if (has_lot_id r (na_lot_id a)) (InvalidFact ''share lot identity reused'')) cs"

definition apply_movement :: "share_registry \<Rightarrow> share_day_request \<Rightarrow> registry_error + (share_registry \<times> share_day_receipt)" where
  "apply_movement r q =
     bind_result (validate_request q) (\<lambda>_.
     bind_result (fresh_acquisitions r (dq_changes q)) (\<lambda>_.
     bind_result (try_fold (apply_change q) (r, [], 0) (dq_changes q)) (\<lambda>(r1, disposals, issued_new).
     bind_result (issued_after q (sr_issued_shares r1) issued_new) (\<lambda>issued.
       let receipt = \<lparr>rc_request = q, rc_disposals = disposals\<rparr> in
       Inr (r1\<lparr>sr_issued_shares := issued, sr_receipts := sr_receipts r1 @ [receipt]\<rparr>, receipt)))))"

subsection \<open>What a reduction takes\<close>

definition lots_qty :: "share_lot list \<Rightarrow> nat" where
  "lots_qty ls = sum_list (map sl_qty ls)"

lemma lots_qty_simps [simp]:
  "lots_qty [] = 0" "lots_qty (l # ls) = sl_qty l + lots_qty ls" "lots_qty (ls @ ks) = lots_qty ls + lots_qty ks"
  by (simp_all add: lots_qty_def)

lemma lots_qty_nonzero [simp]: "lots_qty (filter (\<lambda>l. sl_qty l \<noteq> 0) ls) = lots_qty ls"
  by (induction ls) auto

lemma fifo_take_sums:
  "fifo_take day re n ls = (rest, taken, left) \<Longrightarrow>
     left \<le> n \<and> lots_qty taken + left = n \<and> lots_qty rest + lots_qty taken = lots_qty ls"
proof (induction day re n ls arbitrary: rest taken left rule: fifo_take.induct)
  case (2 day re n l ls)
  show ?case
  proof (cases "n = 0 \<or> locked_on day re l")
    case True
    then show ?thesis using 2 by (auto split: if_splits prod.splits)
  next
    case False
    let ?c = "min n (sl_qty l)"
    obtain rest' taken' where r: "fifo_take day re (n - ?c) ls = (rest', taken', left)"
      "rest = l\<lparr>sl_qty := sl_qty l - ?c\<rparr> # rest'" "taken = l\<lparr>sl_qty := ?c\<rparr> # taken'"
      using 2(3) False by (auto simp: Let_def split: prod.splits)
    with 2(2) [OF _ _ refl r(1)] False show ?thesis by auto
  qed
qed auto

text \<open>A reduction without a selection takes the oldest transferable lots first.\<close>

definition transferable :: "civil_date \<Rightarrow> bool \<Rightarrow> share_lot list \<Rightarrow> share_lot list" where
  "transferable day re ls = filter (\<lambda>l. \<not> locked_on day re l) ls"

lemma fifo_take_zero: "fifo_take day re 0 ls = (ls, [], 0)"
  by (cases ls) auto

lemma fifo_take_oldest:
  "fifo_take day re n ls = (rest, taken, left) \<Longrightarrow>
     taken = [] \<or> (\<exists>k x l. taken = take k (transferable day re ls) @ [x] \<and> k < length (transferable day re ls)
       \<and> l = transferable day re ls ! k \<and> x = l\<lparr>sl_qty := sl_qty x\<rparr> \<and> sl_qty x \<le> sl_qty l)"
proof (induction day re n ls arbitrary: rest taken left rule: fifo_take.induct)
  case (2 day re n l ls)
  consider (zero) "n = 0" | (locked) "n \<noteq> 0" "locked_on day re l" | (take) "n \<noteq> 0" "\<not> locked_on day re l" by blast
  then show ?case
  proof cases
    case zero
    then show ?thesis using 2(3) by simp
  next
    case locked
    then show ?thesis using 2(1) [OF locked] 2(3) by (fastforce simp: transferable_def split: prod.splits)
  next
    case take
    let ?c = "min n (sl_qty l)"
    obtain rest' taken' where r: "fifo_take day re (n - ?c) ls = (rest', taken', left)" "taken = l\<lparr>sl_qty := ?c\<rparr> # taken'"
      using 2(3) take by (auto simp: Let_def split: prod.splits)
    show ?thesis
    proof (cases "taken' = []")
      case True
      then show ?thesis using r(2) take by (intro disjI2 exI [of _ 0] exI [of _ "l\<lparr>sl_qty := ?c\<rparr>"] exI [of _ l])
        (simp add: transferable_def)
    next
      case False
      then have "n - ?c \<noteq> 0" using r(1) by (auto simp: fifo_take_zero)
      then have c: "?c = sl_qty l" by auto
      obtain k x where k: "taken' = take k (transferable day re ls) @ [x]" "k < length (transferable day re ls)"
        "x = (transferable day re ls ! k)\<lparr>sl_qty := sl_qty x\<rparr>" "sl_qty x \<le> sl_qty (transferable day re ls ! k)"
        using 2(2) [OF take refl r(1)] False by blast
      have "taken = take (Suc k) (transferable day re (l # ls)) @ [x]" using k(1) r(2) take c by (simp add: transferable_def)
      then show ?thesis using k take by (intro disjI2 exI [of _ "Suc k"] exI [of _ x] exI conjI)
        (auto simp: transferable_def)
    qed
  qed
qed simp

lemma selection_map_facts:
  "selection_map sel acc es = Inr (sel', n) \<Longrightarrow> bt_sorted sel \<Longrightarrow>
     bt_sorted sel' \<and> n = acc + sum_list (map lc_qty es) \<and> n + sum_list (map snd sel) = acc + sum_list (map snd sel')"
proof (induction es arbitrary: sel acc)
  case (Cons e es)
  let ?sel = "bt_insert (lc_lot_id e) (lc_qty e) sel"
  have free: "map_of sel (lc_lot_id e) = None" and rec: "selection_map ?sel (acc + lc_qty e) es = Inr (sel', n)"
    using Cons.prems(1) by (auto simp: bind_result_Inr_iff split: if_splits)
  have "sum_list (map snd (bt_insert k v xs)) = v + sum_list (map snd xs)" if "map_of xs k = None" for k v and xs :: "(ustring, nat) bt"
    using that by (induction xs) (auto split: if_splits)
  with Cons.IH [OF rec] Cons.prems(2) free show ?case by simp
qed simp

lemma subtract_lot_facts:
  assumes "find (\<lambda>l. sl_id l = fst e) ls = Some l" "snd e \<le> sl_qty l"
  shows "lots_qty (subtract_lot e ls) + snd e = lots_qty ls"
    and "i \<noteq> fst e \<Longrightarrow> find (\<lambda>l. sl_id l = i) (subtract_lot e ls) = find (\<lambda>l. sl_id l = i) ls"
    and "x \<in> set ls \<Longrightarrow> x \<noteq> l \<Longrightarrow> x \<in> set (subtract_lot e ls)"
  using assms by (induction ls) (auto split: if_splits)

lemma fold_subtract_facts:
  assumes "distinct (map fst es)" "\<forall>e\<in>set es. \<exists>l. find (\<lambda>l. sl_id l = fst e) ls = Some l \<and> snd e \<le> sl_qty l \<and> \<not> locked_on day re l"
  shows "lots_qty (fold subtract_lot es ls) + sum_list (map snd es) = lots_qty ls
    \<and> (\<forall>x\<in>set ls. locked_on day re x \<longrightarrow> x \<in> set (fold subtract_lot es ls))"
  using assms
proof (induction es arbitrary: ls)
  case (Cons e es)
  obtain l where l: "find (\<lambda>l. sl_id l = fst e) ls = Some l" "snd e \<le> sl_qty l" "\<not> locked_on day re l" using Cons.prems(2) by auto
  note one = subtract_lot_facts [OF l(1,2)]
  have rest: "\<forall>d\<in>set es. \<exists>l. find (\<lambda>l. sl_id l = fst d) (subtract_lot e ls) = Some l \<and> snd d \<le> sl_qty l \<and> \<not> locked_on day re l"
  proof
    fix d assume d: "d \<in> set es"
    then have "fst d \<noteq> fst e" using Cons.prems(1) by (auto simp: image_iff)
    with d Cons.prems(2) one(2) [of "fst d"] show "\<exists>l. find (\<lambda>l. sl_id l = fst d) (subtract_lot e ls) = Some l
      \<and> snd d \<le> sl_qty l \<and> \<not> locked_on day re l" by auto
  qed
  have "lots_qty (fold subtract_lot es (subtract_lot e ls)) + sum_list (map snd es) = lots_qty (subtract_lot e ls)
    \<and> (\<forall>x\<in>set (subtract_lot e ls). locked_on day re x \<longrightarrow> x \<in> set (fold subtract_lot es (subtract_lot e ls)))"
    using Cons.IH [OF _ rest] Cons.prems(1) by simp
  with one(1,3) l(3) show ?case by auto
qed simp

lemma try_map_all: "try_map f xs = Inr ys \<Longrightarrow> length ys = length xs \<and> (\<forall>i<length xs. f (xs ! i) = Inr (ys ! i))"
proof (induction xs arbitrary: ys)
  case (Cons x xs)
  then obtain z zs where "f x = Inr z" "try_map f xs = Inr zs" "ys = z # zs" by (auto simp: bind_result_Inr_iff)
  with Cons.IH show ?case by (auto simp: nth_Cons split: nat.split)
qed simp

lemma pick_lot_Inr: "pick_lot day re lots e = Inr x \<longleftrightarrow> (\<exists>l. find (\<lambda>l. sl_id l = fst e) lots = Some l
    \<and> \<not> locked_on day re l \<and> snd e \<le> sl_qty l \<and> x = l\<lparr>sl_qty := snd e\<rparr>)"
  by (cases "find (\<lambda>l. sl_id l = fst e) lots") (auto simp: pick_lot_def bind_result_Inr_iff)

lemma picked_facts:
  assumes "try_map (pick_lot day re lots) sel = Inr taken"
  shows "\<forall>e\<in>set sel. \<exists>l. find (\<lambda>l. sl_id l = fst e) lots = Some l \<and> snd e \<le> sl_qty l \<and> \<not> locked_on day re l"
    "lots_qty taken = sum_list (map snd sel)" "\<forall>x\<in>set taken. \<not> locked_on day re x"
proof -
  note all = try_map_all [OF assms]
  show "\<forall>e\<in>set sel. \<exists>l. find (\<lambda>l. sl_id l = fst e) lots = Some l \<and> snd e \<le> sl_qty l \<and> \<not> locked_on day re l"
    using all by (fastforce simp: in_set_conv_nth pick_lot_Inr)
  show "lots_qty taken = sum_list (map snd sel)"
    unfolding lots_qty_def by (rule arg_cong [of _ _ sum_list]) (use all in \<open>auto intro!: nth_equalityI simp: pick_lot_Inr\<close>)
  show "\<forall>x\<in>set taken. \<not> locked_on day re x"
    using all by (fastforce simp: in_set_conv_nth pick_lot_Inr locked_on_def)
qed

lemma fifo_take_locked:
  "fifo_take day re n ls = (rest, taken, left) \<Longrightarrow>
     (\<forall>x\<in>set ls. locked_on day re x \<longrightarrow> x \<in> set rest) \<and> (\<forall>x\<in>set taken. \<not> locked_on day re x)"
proof (induction day re n ls arbitrary: rest taken left rule: fifo_take.induct)
  case (2 day re n l ls)
  consider (zero) "n = 0" | (locked) "n \<noteq> 0" "locked_on day re l" | (free) "n \<noteq> 0" "\<not> locked_on day re l" by blast
  then show ?case
  proof cases
    case zero
    then show ?thesis using 2(3) by simp
  next
    case locked
    obtain rest' where r: "fifo_take day re n ls = (rest', taken, left)" "rest = l # rest'"
      using 2(3) locked by (auto split: prod.splits)
    with 2(1) [OF locked r(1)] show ?thesis by simp
  next
    case free
    let ?c = "min n (sl_qty l)"
    obtain rest' taken' where r: "fifo_take day re (n - ?c) ls = (rest', taken', left)"
      "rest = l\<lparr>sl_qty := sl_qty l - ?c\<rparr> # rest'" "taken = l\<lparr>sl_qty := ?c\<rparr> # taken'"
      using 2(3) free by (auto simp: Let_def split: prod.splits)
    have "locked_on day re (l\<lparr>sl_qty := ?c\<rparr>) = locked_on day re l" by (simp add: locked_on_def)
    with 2(2) [OF free refl r(1)] free r(2,3) show ?thesis by auto
  qed
qed auto

lemma reduce_lots_facts:
  assumes "reduce_lots day re holder n consume ls = Inr (rest, taken)"
  shows "lots_qty rest + n = lots_qty ls" "lots_qty taken = n"
    "\<forall>x\<in>set ls. locked_on day re x \<longrightarrow> x \<in> set rest" "\<forall>x\<in>set taken. \<not> locked_on day re x"
proof -
  have "lots_qty rest + n = lots_qty ls \<and> lots_qty taken = n
    \<and> (\<forall>x\<in>set ls. locked_on day re x \<longrightarrow> x \<in> set rest) \<and> (\<forall>x\<in>set taken. \<not> locked_on day re x)"
  proof (cases consume)
    case None
    then have "fifo_take day re n ls = (rest, taken, 0)" using assms by (auto simp: reduce_lots_def split: prod.splits if_splits)
    then show ?thesis using fifo_take_sums fifo_take_locked by fastforce
  next
    case (Some selection)
    then obtain sel where sel: "selection_map [] 0 selection = Inr (sel, n)" "try_map (pick_lot day re ls) sel = Inr taken"
      "rest = fold subtract_lot sel ls"
      using assms by (auto simp: reduce_lots_def consume_selection_def bind_result_Inr_iff split: if_splits)
    from selection_map_facts [OF sel(1)] have sm: "bt_sorted sel" "sum_list (map snd sel) = n" by simp_all
    note picked = picked_facts [OF sel(2)]
    show ?thesis using fold_subtract_facts [OF bt_sorted_distinct [OF sm(1)] picked(1)] sm(2) picked(2,3) sel(3) by simp
  qed
  then show "lots_qty rest + n = lots_qty ls" "lots_qty taken = n"
    "\<forall>x\<in>set ls. locked_on day re x \<longrightarrow> x \<in> set rest" "\<forall>x\<in>set taken. \<not> locked_on day re x" by blast+
qed

subsection \<open>What a movement does\<close>

text \<open>The shares of a holder, and the lots of a holder.\<close>

definition holder_lots :: "share_holding list \<Rightarrow> holder_id \<Rightarrow> share_lot list" where
  "holder_lots hs k = concat (map sh_lots (filter (\<lambda>h. sh_holder h = k) hs))"

definition holder_qty :: "share_holding list \<Rightarrow> holder_id \<Rightarrow> nat" where
  "holder_qty hs k = lots_qty (holder_lots hs k)"

lemma holder_lots_simps [simp]:
  "holder_lots [] k = []"
  "holder_lots (h # hs) k = (if sh_holder h = k then sh_lots h @ holder_lots hs k else holder_lots hs k)"
  "holder_lots (hs @ gs) k = holder_lots hs k @ holder_lots gs k"
  by (simp_all add: holder_lots_def)

lemma set_lots_other: "k \<noteq> holder \<Longrightarrow> holder_lots (set_lots holder ls hs) k = holder_lots hs k"
  by (induction hs) auto

lemma set_lots_own:
  "find_holding holder hs = Some h \<Longrightarrow> \<exists>more. holder_lots (set_lots holder ls hs) holder = ls @ more
     \<and> holder_lots hs holder = sh_lots h @ more"
  by (induction hs) (auto simp: find_holding_def split: if_splits)

lemma find_holding_None: "find_holding k hs = None \<Longrightarrow> holder_lots hs k = []"
  by (induction hs) (auto simp: find_holding_def split: if_splits)

definition registry_frame :: "share_registry \<Rightarrow> share_registry \<Rightarrow> bool" where
  "registry_frame r r' \<longleftrightarrow> r' = r\<lparr>sr_holdings := sr_holdings r'\<rparr>"

lemma frame_trans: "registry_frame r r1 \<Longrightarrow> registry_frame r1 r2 \<Longrightarrow> registry_frame r r2"
  unfolding registry_frame_def by (cases r; cases r1; cases r2) simp

lemma quantity_of_change_Some: "quantity_of_change z = Some n \<longleftrightarrow> 0 \<le> z \<and> z \<le> int u64_max \<and> n = nat z"
  by (auto simp: quantity_of_change_def)

text \<open>One change: the frame, the lots of every holder, the disposals and the new shares.\<close>

definition change_step :: "share_day_request \<Rightarrow> movement \<Rightarrow> day_net_change \<Rightarrow> movement \<Rightarrow> bool" where
  "change_step q m c m' \<longleftrightarrow> registry_frame (fst m) (fst m')
     \<and> (\<forall>k. int (holder_qty (sr_holdings (fst m')) k) = int (holder_qty (sr_holdings (fst m)) k) + (if k = nc_holder c then nc_change c else 0))
     \<and> (\<forall>k. \<forall>l\<in>set (holder_lots (sr_holdings (fst m)) k). locked_on (dq_day q) (is_redenomination (dq_scope q)) l \<and> sl_qty l \<noteq> 0
          \<longrightarrow> l \<in> set (holder_lots (sr_holdings (fst m')) k))
     \<and> (\<exists>ds. fst (snd m') = fst (snd m) @ ds \<and> (\<forall>d\<in>set ds. dl_holder d = nc_holder c \<and> dl_disposed_on d = dq_day q
          \<and> \<not> locked_on (dq_day q) (is_redenomination (dq_scope q)) (dl_lot d))
          \<and> int (lots_qty (map dl_lot ds)) = max 0 (- nc_change c))
     \<and> int (snd (snd m')) = int (snd (snd m))
          + (if is_transfer (dq_scope q) \<or> is_redenomination (dq_scope q) then max 0 (nc_change c) else 0)"

lemma apply_reduction_step:
  assumes "apply_reduction q m c = Inr m'" "nc_change c < 0"
  shows "change_step q m c m'"
proof -
  obtain r disposals issued_new where m: "m = (r, disposals, issued_new)" by (cases m)
  obtain n h rest taken where n: "quantity_of_change (- nc_change c) = Some n"
    and h: "find_holding (nc_holder c) (sr_holdings r) = Some h"
    and red: "reduce_lots (dq_day q) (is_redenomination (dq_scope q)) (nc_holder c) n (nc_consume c) (sh_lots h) = Inr (rest, taken)"
    and m': "m' = (r\<lparr>sr_holdings := set_lots (nc_holder c) (filter (\<lambda>l. sl_qty l \<noteq> 0) rest) (sr_holdings r)\<rparr>,
      disposals @ map (\<lambda>l. \<lparr>dl_holder = nc_holder c, dl_lot = l, dl_disposed_on = dq_day q\<rparr>) taken, issued_new)"
    using assms(1) by (auto simp: apply_reduction_def m bind_result_Inr_iff)
  note facts = reduce_lots_facts [OF red]
  obtain more where more: "holder_lots (set_lots (nc_holder c) (filter (\<lambda>l. sl_qty l \<noteq> 0) rest) (sr_holdings r)) (nc_holder c)
      = filter (\<lambda>l. sl_qty l \<noteq> 0) rest @ more" "holder_lots (sr_holdings r) (nc_holder c) = sh_lots h @ more"
    using set_lots_own [OF h] by blast
  have n': "int n = - nc_change c" using n assms(2) by (auto simp: quantity_of_change_Some)
  let ?ds = "map (\<lambda>l. \<lparr>dl_holder = nc_holder c, dl_lot = l, dl_disposed_on = dq_day q\<rparr>) taken"
  have ds: "map dl_lot ?ds = taken" by (simp add: comp_def)
  have other: "holder_lots (sr_holdings (fst m')) k = holder_lots (sr_holdings r) k" if "k \<noteq> nc_holder c" for k
    using that by (simp add: m' set_lots_other)
  have own: "int (holder_qty (sr_holdings (fst m')) (nc_holder c)) = int (holder_qty (sr_holdings r) (nc_holder c)) + nc_change c"
    using facts(1) n' by (simp add: m' holder_qty_def more del: neq0_conv)
  have kept: "l \<in> set (holder_lots (sr_holdings (fst m')) (nc_holder c))"
    if "l \<in> set (holder_lots (sr_holdings r) (nc_holder c))" "locked_on (dq_day q) (is_redenomination (dq_scope q)) l" "sl_qty l \<noteq> 0" for l
    using that facts(3) by (auto simp: m' more simp del: neq0_conv)
  show ?thesis unfolding change_step_def
  proof (intro conjI)
    show "registry_frame (fst m) (fst m')" by (simp add: m m' registry_frame_def)
    show "\<forall>k. int (holder_qty (sr_holdings (fst m')) k)
        = int (holder_qty (sr_holdings (fst m)) k) + (if k = nc_holder c then nc_change c else 0)"
      using own other by (simp add: m holder_qty_def)
    show "\<forall>k. \<forall>l\<in>set (holder_lots (sr_holdings (fst m)) k). locked_on (dq_day q) (is_redenomination (dq_scope q)) l \<and> sl_qty l \<noteq> 0
          \<longrightarrow> l \<in> set (holder_lots (sr_holdings (fst m')) k)"
      using kept other by (metis fst_conv m)
    show "\<exists>ds. fst (snd m') = fst (snd m) @ ds \<and> (\<forall>d\<in>set ds. dl_holder d = nc_holder c \<and> dl_disposed_on d = dq_day q
          \<and> \<not> locked_on (dq_day q) (is_redenomination (dq_scope q)) (dl_lot d)) \<and> int (lots_qty (map dl_lot ds)) = max 0 (- nc_change c)"
      using facts(2,4) ds n' assms(2) by (intro exI [of _ ?ds]) (auto simp: m m')
    show "int (snd (snd m')) = int (snd (snd m))
          + (if is_transfer (dq_scope q) \<or> is_redenomination (dq_scope q) then max 0 (nc_change c) else 0)"
      using assms(2) by (simp add: m m')
  qed
qed

lemma apply_acquisition_step:
  assumes "apply_acquisition q m c = Inr m'" "0 < nc_change c"
  shows "change_step q m c m'"
proof -
  obtain r disposals issued_new where m: "m = (r, disposals, issued_new)" by (cases m)
  obtain n a where n: "quantity_of_change (nc_change c) = Some n"
    and issued: "snd (snd m') = (if is_transfer (dq_scope q) \<or> is_redenomination (dq_scope q) then issued_new + n else issued_new)"
    and m': "fst m' = r\<lparr>sr_holdings := (case find_holding (nc_holder c) (sr_holdings r) of
        Some h \<Rightarrow> set_lots (nc_holder c) (sh_lots h @ [acquired_lot a n (dq_day q)]) (sr_holdings r)
      | None \<Rightarrow> sr_holdings r @ [\<lparr>sh_holder = nc_holder c, sh_lots = [acquired_lot a n (dq_day q)]\<rparr>])\<rparr>"
      "fst (snd m') = disposals"
    using assms(1) by (auto simp: apply_acquisition_def m bind_result_Inr_iff Let_def split: if_splits)
  let ?l = "acquired_lot a n (dq_day q)"
  have n': "int n = nc_change c" using n assms(2) by (auto simp: quantity_of_change_Some)
  have q: "sl_qty ?l = n" by (simp add: acquired_lot_def)
  have own: "\<exists>xs ys. holder_lots (sr_holdings (fst m')) (nc_holder c) = xs @ ?l # ys \<and> holder_lots (sr_holdings r) (nc_holder c) = xs @ ys"
  proof (cases "find_holding (nc_holder c) (sr_holdings r)")
    case None
    then show ?thesis using find_holding_None [OF None] by (auto simp: m'(1))
  next
    case (Some h)
    from set_lots_own [OF Some, of "sh_lots h @ [?l]"] show ?thesis by (auto simp: m'(1) Some)
  qed
  have other: "holder_lots (sr_holdings (fst m')) k = holder_lots (sr_holdings r) k" if "k \<noteq> nc_holder c" for k
    using that by (auto simp: m'(1) set_lots_other split: option.split)
  have qty: "int (holder_qty (sr_holdings (fst m')) (nc_holder c)) = int (holder_qty (sr_holdings r) (nc_holder c)) + nc_change c"
    using own n' q by (auto simp: holder_qty_def)
  have kept: "l \<in> set (holder_lots (sr_holdings (fst m')) k)" if "l \<in> set (holder_lots (sr_holdings r) k)" for l k
    using that own other [of k] by (cases "k = nc_holder c") auto
  show ?thesis unfolding change_step_def
  proof (intro conjI)
    show "registry_frame (fst m) (fst m')" by (simp add: m registry_frame_def m'(1))
    show "\<forall>k. int (holder_qty (sr_holdings (fst m')) k)
        = int (holder_qty (sr_holdings (fst m)) k) + (if k = nc_holder c then nc_change c else 0)"
      using qty other by (simp add: m holder_qty_def)
    show "\<forall>k. \<forall>l\<in>set (holder_lots (sr_holdings (fst m)) k). locked_on (dq_day q) (is_redenomination (dq_scope q)) l \<and> sl_qty l \<noteq> 0
          \<longrightarrow> l \<in> set (holder_lots (sr_holdings (fst m')) k)"
      using kept by (simp add: m)
    show "\<exists>ds. fst (snd m') = fst (snd m) @ ds \<and> (\<forall>d\<in>set ds. dl_holder d = nc_holder c \<and> dl_disposed_on d = dq_day q
          \<and> \<not> locked_on (dq_day q) (is_redenomination (dq_scope q)) (dl_lot d)) \<and> int (lots_qty (map dl_lot ds)) = max 0 (- nc_change c)"
      using assms(2) by (intro exI [of _ "[]"]) (simp add: m m')
    show "int (snd (snd m')) = int (snd (snd m))
          + (if is_transfer (dq_scope q) \<or> is_redenomination (dq_scope q) then max 0 (nc_change c) else 0)"
      using assms(2) issued n' by (simp add: m)
  qed
qed

lemma apply_change_step:
  assumes "apply_change q m c = Inr m'"
  shows "change_step q m c m'"
proof -
  consider (less) "nc_change c < 0" | (more) "0 < nc_change c" | (zero) "nc_change c = 0" by linarith
  then show ?thesis
  proof cases
    case less
    then show ?thesis using assms by (auto simp: apply_change_def intro: apply_reduction_step)
  next
    case more
    then show ?thesis using assms by (auto simp: apply_change_def intro: apply_acquisition_step)
  next
    case zero
    then have "m' = m" using assms by (auto simp: apply_change_def bind_result_Inr_iff)
    then show ?thesis using zero by (simp add: change_step_def registry_frame_def)
  qed
qed

text \<open>All changes of a request.\<close>

definition change_of :: "holder_id \<Rightarrow> day_net_change list \<Rightarrow> int" where
  "change_of k cs = net_change (filter (\<lambda>c. nc_holder c = k) cs)"

definition disposals_of :: "holder_id \<Rightarrow> disposed_lot list \<Rightarrow> share_lot list" where
  "disposals_of k ds = map dl_lot (filter (\<lambda>d. dl_holder d = k) ds)"

definition reductions_of :: "holder_id \<Rightarrow> day_net_change list \<Rightarrow> int" where
  "reductions_of k cs = sum_list (map (\<lambda>c. if nc_holder c = k then max 0 (- nc_change c) else 0) cs)"

lemma net_change_simps [simp]: "net_change [] = 0" "net_change (c # cs) = nc_change c + net_change cs"
  by (simp_all add: net_change_def)

lemma change_of_simps [simp]:
  "change_of k [] = 0" "change_of k (c # cs) = (if nc_holder c = k then nc_change c else 0) + change_of k cs"
  by (simp_all add: change_of_def)

definition changes_steps :: "share_day_request \<Rightarrow> movement \<Rightarrow> day_net_change list \<Rightarrow> movement \<Rightarrow> bool" where
  "changes_steps q m cs m' \<longleftrightarrow> registry_frame (fst m) (fst m')
     \<and> (\<forall>k. int (holder_qty (sr_holdings (fst m')) k) = int (holder_qty (sr_holdings (fst m)) k) + change_of k cs)
     \<and> (\<forall>k. \<forall>l\<in>set (holder_lots (sr_holdings (fst m)) k). locked_on (dq_day q) (is_redenomination (dq_scope q)) l \<and> sl_qty l \<noteq> 0
          \<longrightarrow> l \<in> set (holder_lots (sr_holdings (fst m')) k))
     \<and> (\<exists>ds. fst (snd m') = fst (snd m) @ ds \<and> (\<forall>d\<in>set ds. dl_disposed_on d = dq_day q
          \<and> \<not> locked_on (dq_day q) (is_redenomination (dq_scope q)) (dl_lot d))
          \<and> (\<forall>k. int (lots_qty (disposals_of k ds)) = reductions_of k cs))
     \<and> int (snd (snd m')) = int (snd (snd m))
          + (if is_transfer (dq_scope q) \<or> is_redenomination (dq_scope q) then sum_list (map (\<lambda>c. max 0 (nc_change c)) cs) else 0)"

lemma changes_steps_refl: "changes_steps q m [] m"
  by (simp add: changes_steps_def registry_frame_def reductions_of_def disposals_of_def)

lemma changes_steps_Cons:
  assumes "change_step q m c m1" "changes_steps q m1 cs m'"
  shows "changes_steps q m (c # cs) m'"
proof -
  obtain ds1 where ds1: "fst (snd m1) = fst (snd m) @ ds1" "\<forall>d\<in>set ds1. dl_holder d = nc_holder c \<and> dl_disposed_on d = dq_day q
      \<and> \<not> locked_on (dq_day q) (is_redenomination (dq_scope q)) (dl_lot d)"
    "int (lots_qty (map dl_lot ds1)) = max 0 (- nc_change c)"
    using assms(1) unfolding change_step_def by blast
  obtain ds2 where ds2: "fst (snd m') = fst (snd m1) @ ds2" "\<forall>d\<in>set ds2. dl_disposed_on d = dq_day q
      \<and> \<not> locked_on (dq_day q) (is_redenomination (dq_scope q)) (dl_lot d)"
    "\<forall>k. int (lots_qty (disposals_of k ds2)) = reductions_of k cs"
    using assms(2) unfolding changes_steps_def by blast
  have "filter (\<lambda>d. dl_holder d = k) ds1 = (if k = nc_holder c then ds1 else [])" for k
    using ds1(2) by (induction ds1) auto
  then have "int (lots_qty (disposals_of k (ds1 @ ds2))) = reductions_of k (c # cs)" for k
    using ds1(3) ds2(3) by (auto simp: disposals_of_def reductions_of_def)
  moreover have "registry_frame (fst m) (fst m')" using assms unfolding change_step_def changes_steps_def by (blast intro: frame_trans)
  moreover have "int (holder_qty (sr_holdings (fst m')) k) = int (holder_qty (sr_holdings (fst m)) k) + change_of k (c # cs)" for k
    using assms unfolding change_step_def changes_steps_def by simp
  moreover have "l \<in> set (holder_lots (sr_holdings (fst m')) k)"
    if "l \<in> set (holder_lots (sr_holdings (fst m)) k)" "locked_on (dq_day q) (is_redenomination (dq_scope q)) l" "sl_qty l \<noteq> 0" for l k
    using assms that unfolding change_step_def changes_steps_def by blast
  moreover have "int (snd (snd m')) = int (snd (snd m))
      + (if is_transfer (dq_scope q) \<or> is_redenomination (dq_scope q) then sum_list (map (\<lambda>c. max 0 (nc_change c)) (c # cs)) else 0)"
    using assms unfolding change_step_def changes_steps_def by simp
  ultimately show ?thesis using ds1(1,2) ds2(1,2) unfolding changes_steps_def
    by (intro conjI exI [of _ "ds1 @ ds2"]) auto
qed

lemma try_fold_steps: "try_fold (apply_change q) m cs = Inr m' \<Longrightarrow> changes_steps q m cs m'"
proof (induction cs arbitrary: m)
  case (Cons c cs)
  then obtain m1 where "apply_change q m c = Inr m1" "try_fold (apply_change q) m1 cs = Inr m'" by (auto simp: bind_result_Inr_iff)
  with Cons.IH show ?case by (blast intro: changes_steps_Cons apply_change_step)
qed (simp add: changes_steps_refl)

subsection \<open>Checked requests\<close>

lemma validate_changes_Inr:
  assumes "validate_changes scope day hs net cs = Inr s"
  shows "s = net + net_change cs" "is_transfer scope \<Longrightarrow> \<forall>c\<in>set cs. 0 \<le> nc_change c"
    "\<forall>c\<in>set cs. nc_change c \<le> 0 \<longrightarrow> nc_acquisition c = None"
  using assms
  by (induction scope day hs net cs rule: validate_changes.induct)
    (auto simp: bind_result_Inr_iff check_acquisition_def split: if_splits)

lemma validate_request_net:
  assumes "validate_request q = Inr ()"
  shows "\<not> is_transfer (dq_scope q) \<Longrightarrow> \<not> is_redenomination (dq_scope q) \<Longrightarrow> \<not> is_cancellation (dq_scope q)
      \<Longrightarrow> net_change (dq_changes q) = 0"
    "is_transfer (dq_scope q) \<Longrightarrow> 0 < net_change (dq_changes q) \<and> (\<forall>c\<in>set (dq_changes q). 0 \<le> nc_change c)"
    "is_cancellation (dq_scope q) \<Longrightarrow> net_change (dq_changes q) < 0"
    "is_redenomination (dq_scope q) \<Longrightarrow> net_change (dq_changes q) \<noteq> 0
      \<and> ((\<forall>c\<in>set (dq_changes q). 0 \<le> nc_change c) \<or> (\<forall>c\<in>set (dq_changes q). nc_change c \<le> 0))"
proof -
  obtain net where net: "validate_changes (dq_scope q) (dq_day q) [] 0 (dq_changes q) = Inr net"
    "check_net (dq_scope q) (dq_changes q) net = Inr ()"
    using assms by (auto simp: validate_request_def bind_result_Inr_iff)
  note facts = validate_changes_Inr [OF net(1)]
  have kinds: "is_transfer s \<Longrightarrow> \<not> is_redenomination s" "is_transfer s \<Longrightarrow> \<not> is_cancellation s"
    "is_redenomination s \<Longrightarrow> \<not> is_cancellation s" for s by (cases s; simp)+
  show "net_change (dq_changes q) = 0"
    if "\<not> is_transfer (dq_scope q)" "\<not> is_redenomination (dq_scope q)" "\<not> is_cancellation (dq_scope q)"
    using that net(2) facts(1) by (simp add: check_net_def)
  show "0 < net_change (dq_changes q) \<and> (\<forall>c\<in>set (dq_changes q). 0 \<le> nc_change c)" if "is_transfer (dq_scope q)"
    using that net(2) facts(1,2) by (simp add: check_net_def)
  show "net_change (dq_changes q) < 0" if "is_cancellation (dq_scope q)"
    using that net(2) facts(1) kinds [of "dq_scope q"] by (auto simp: check_net_def split: if_splits)
  show "net_change (dq_changes q) \<noteq> 0
      \<and> ((\<forall>c\<in>set (dq_changes q). 0 \<le> nc_change c) \<or> (\<forall>c\<in>set (dq_changes q). nc_change c \<le> 0))" if "is_redenomination (dq_scope q)"
    using that net(2) facts(1) kinds [of "dq_scope q"]
    by (fastforce simp: check_net_def bind_result_Inr_iff list_ex_iff split: if_splits)
qed

lemma sum_nonneg_changes: "\<forall>c\<in>set cs. 0 \<le> nc_change c \<Longrightarrow> sum_list (map (\<lambda>c. max 0 (nc_change c)) cs) = net_change cs"
  by (induction cs) auto

lemma net_nonpos: "\<forall>c\<in>set cs. nc_change c \<le> 0 \<Longrightarrow> net_change cs \<le> 0"
  by (induction cs) auto

text \<open>What an accepted movement does to the registry.\<close>

definition moves :: "share_registry \<Rightarrow> share_day_request \<Rightarrow> share_registry \<Rightarrow> share_day_receipt \<Rightarrow> bool" where
  "moves r q r' rc \<longleftrightarrow> rc_request rc = q
     \<and> r' = r\<lparr>sr_holdings := sr_holdings r', sr_issued_shares := sr_issued_shares r', sr_receipts := sr_receipts r @ [rc]\<rparr>
     \<and> (\<forall>k. int (holder_qty (sr_holdings r') k) = int (holder_qty (sr_holdings r) k) + change_of k (dq_changes q))
     \<and> int (sr_issued_shares r') = int (sr_issued_shares r) + net_change (dq_changes q)
     \<and> (\<forall>k. \<forall>l\<in>set (holder_lots (sr_holdings r) k). locked_on (dq_day q) (is_redenomination (dq_scope q)) l \<and> sl_qty l \<noteq> 0
          \<longrightarrow> l \<in> set (holder_lots (sr_holdings r') k))
     \<and> (\<forall>d\<in>set (rc_disposals rc). dl_disposed_on d = dq_day q \<and> \<not> locked_on (dq_day q) (is_redenomination (dq_scope q)) (dl_lot d))
     \<and> (\<forall>k. int (lots_qty (disposals_of k (rc_disposals rc))) = reductions_of k (dq_changes q))"

lemma apply_movement_moves:
  assumes "apply_movement r q = Inr (r', rc)"
  shows "moves r q r' rc"
proof -
  obtain r1 ds issued_new issued where v: "validate_request q = Inr ()"
    and fold: "try_fold (apply_change q) (r, [], 0) (dq_changes q) = Inr (r1, ds, issued_new)"
    and issued: "issued_after q (sr_issued_shares r1) issued_new = Inr issued"
    and rc: "rc = \<lparr>rc_request = q, rc_disposals = ds\<rparr>"
    and r': "r' = r1\<lparr>sr_issued_shares := issued, sr_receipts := sr_receipts r1 @ [rc]\<rparr>"
    using assms by (auto simp: apply_movement_def bind_result_Inr_iff Let_def)
  have steps: "changes_steps q (r, [], 0) (dq_changes q) (r1, ds, issued_new)" by (rule try_fold_steps [OF fold])
  then have frame: "r1 = r\<lparr>sr_holdings := sr_holdings r1\<rparr>" by (simp add: changes_steps_def registry_frame_def)
  then have eqs: "sr_issued_shares r1 = sr_issued_shares r" "sr_receipts r1 = sr_receipts r" by (metis share_registry.select_convs share_registry.surjective share_registry.update_convs(6))+
  note net = validate_request_net [OF v]
  have new: "int issued_new = (if is_transfer (dq_scope q) \<or> is_redenomination (dq_scope q)
      then sum_list (map (\<lambda>c. max 0 (nc_change c)) (dq_changes q)) else 0)" using steps by (simp add: changes_steps_def)
  have "int issued = int (sr_issued_shares r) + net_change (dq_changes q)"
  proof (cases "dq_scope q")
    case (NonTradingTransfer b)
    then show ?thesis using issued new net(2) eqs by (auto simp: issued_after_def Let_def sum_nonneg_changes)
  next
    case (IssuerRepurchaseCancellation b)
    then show ?thesis using issued net(3) eqs
      by (auto simp: issued_after_def Let_def bind_result_Inr_iff quantity_of_change_Some split: if_splits)
  next
    case (ShareReDenomination b)
    show ?thesis
    proof (cases "0 < net_change (dq_changes q)")
      case True
      then have "\<forall>c\<in>set (dq_changes q). 0 \<le> nc_change c" using net(4) ShareReDenomination net_nonpos by fastforce
      then show ?thesis using issued new True eqs ShareReDenomination by (auto simp: issued_after_def Let_def sum_nonneg_changes)
    next
      case False
      then show ?thesis using issued eqs ShareReDenomination
        by (auto simp: issued_after_def Let_def bind_result_Inr_iff quantity_of_change_Some split: if_splits)
    qed
  qed (use issued net(1) eqs in \<open>auto simp: issued_after_def\<close>)
  moreover have "r' = r\<lparr>sr_holdings := sr_holdings r', sr_issued_shares := sr_issued_shares r', sr_receipts := sr_receipts r @ [rc]\<rparr>"
    using r' frame eqs by (cases r; cases r1) simp
  moreover have "(\<forall>d\<in>set ds. dl_disposed_on d = dq_day q \<and> \<not> locked_on (dq_day q) (is_redenomination (dq_scope q)) (dl_lot d))
      \<and> (\<forall>k. int (lots_qty (disposals_of k ds)) = reductions_of k (dq_changes q))"
    using steps by (auto simp: changes_steps_def)
  moreover have "sr_holdings r' = sr_holdings r1" "sr_issued_shares r' = issued" by (simp_all add: r')
  ultimately show ?thesis using steps unfolding moves_def changes_steps_def rc by simp
qed

end
