(* ===== verification/Share_Registry.thy ===== *)
theory Share_Registry
  imports Share_Movement Trading_Calendar
begin

section \<open>The share registry and its validation (share_registry.rs, settlement_day.rs)\<close>

text \<open>
  A registry holds the current lots of all holders, the receipts of every past movement, and
  snapshots of the holders on registration days. \<open>validate\<close> checks all of this against itself: the
  lots add up to the issued shares, every receipt agrees with its request, and every snapshot,
  replayed through the later receipts, gives the current holdings again. Typed settlement days bind
  the movements of a day into one receipt, whose references are resolved here. The operations validate
  their candidate before they install it.
\<close>

definition get_at :: "'a list \<Rightarrow> nat \<Rightarrow> 'a option" where
  "get_at xs i = (if i < length xs then Some (xs ! i) else None)"

text \<open>\<open>get(i.wrapping_sub(1))\<close>: below zero the index is the largest \<open>usize\<close>, out of every list.\<close>

definition get_before :: "'a list \<Rightarrow> nat \<Rightarrow> 'a option" where
  "get_before xs i = (if i = 0 then None else get_at xs (i - 1))"

definition option_is :: "('a \<Rightarrow> bool) \<Rightarrow> 'a option \<Rightarrow> bool" where
  "option_is P x \<longleftrightarrow> (case x of None \<Rightarrow> False | Some y \<Rightarrow> P y)"

lemma option_is_simps [simp]: "option_is P None = False" "option_is P (Some x) = P x"
  by (simp_all add: option_is_def)

abbreviation receipt_id :: "share_day_receipt \<Rightarrow> ustring" where "receipt_id rc \<equiv> dq_event_id (rc_request rc)"
abbreviation receipt_day :: "share_day_receipt \<Rightarrow> civil_date" where "receipt_day rc \<equiv> dq_day (rc_request rc)"
abbreviation receipt_scope :: "share_day_receipt \<Rightarrow> movement_scope" where "receipt_scope rc \<equiv> dq_scope (rc_request rc)"

definition registration :: "share_registry \<Rightarrow> ustring \<Rightarrow> registration_snapshot option" where
  "registration r ev = find (\<lambda>s. rs_event_id s = ev) (sr_registrations r)"

definition receipt_by_event :: "share_registry \<Rightarrow> ustring \<Rightarrow> share_day_receipt option" where
  "receipt_by_event r ev = find (\<lambda>rc. receipt_id rc = ev) (sr_receipts r)"

subsection \<open>Units and openings\<close>

definition unit_at :: "share_registry \<Rightarrow> nat \<Rightarrow> share_unit" where
  "unit_at r n = (case find (\<lambda>rc. is_redenomination (receipt_scope rc)) (rev (take n (sr_receipts r))) of
     None \<Rightarrow> InitialUnit | Some rc \<Rightarrow> ReDenominated (receipt_id rc))"

definition settlement_frontier :: "share_registry \<Rightarrow> share_day_frontier" where
  "settlement_frontier r = (case sr_pending_opening r of
     Some p \<Rightarrow> po_predecessor p
   | None \<Rightarrow> \<lparr>df_settled_on = sr_settled_on r, df_receipt_count = length (sr_receipts r),
       df_unit = unit_at r (length (sr_receipts r))\<rparr>)"

definition opening_scope_matches :: "movement_scope \<Rightarrow> opening_movement_ref \<Rightarrow> bool" where
  "opening_scope_matches scope ref \<longleftrightarrow>
     is_redenomination scope \<or> (is_transfer scope \<and> om_from_unit ref = om_to_unit ref)"

definition opening_changes_match :: "share_day_request \<Rightarrow> bool" where
  "opening_changes_match q \<longleftrightarrow> \<not> is_transfer (dq_scope q) \<or> list_all (\<lambda>c. 0 \<le> nc_change c) (dq_changes q)"

definition check_transition :: "share_unit \<Rightarrow> share_unit \<Rightarrow> share_unit \<Rightarrow> ustring \<Rightarrow> registry_error + unit" where
  "check_transition current from_unit to_unit ev = refuse_if (from_unit \<noteq> current \<or> to_unit \<noteq> ReDenominated ev)
     (FaultAt ''unit transition'' ev (InvalidFact ''does not bind the actual movement receipt identity''))"

subsection \<open>Replaying a registration\<close>

fun replay_receipts :: "share_registry \<Rightarrow> share_day_receipt list \<Rightarrow> registry_error + share_registry" where
  "replay_receipts r [] = Inr r"
| "replay_receipts r (rc # rcs) = bind_result (apply_movement r (rc_request rc)) (\<lambda>(r', actual).
     if actual \<noteq> rc then Inl (InvalidFact ''registration suffix replay disagrees with disposal lot metadata'')
     else replay_receipts r' rcs)"

definition replay_start :: "share_registry \<Rightarrow> registration_snapshot \<Rightarrow> share_registry" where
  "replay_start r s = \<lparr>sr_stock = sr_stock r, sr_issuer = sr_issuer r, sr_issued_shares = rs_issued_shares s,
     sr_repurchase_account = rs_repurchase_account s, sr_settled_on = rs_registered_on s, sr_holdings = rs_holdings s,
     sr_receipts = take (rs_settled_receipts s) (sr_receipts r), sr_registrations = [], sr_pending_opening = None\<rparr>"

definition replay_registration_to :: "share_registry \<Rightarrow> registration_snapshot \<Rightarrow> nat \<Rightarrow> registry_error + share_registry" where
  "replay_registration_to r s stop = (let frontier = rs_settled_receipts s in
     if stop < frontier \<or> length (sr_receipts r) < stop
        \<or> option_is (\<lambda>rc. receipt_day rc \<noteq> rs_registered_on s) (get_before (sr_receipts r) frontier)
        \<or> option_is (\<lambda>rc. date_before (receipt_day rc) (rs_registered_on s)) (get_at (sr_receipts r) frontier)
     then Inl (InvalidFact ''registration date does not match its receipt frontier'')
     else bind_result (validate_snapshot s) (\<lambda>_.
       bind_result (replay_receipts (replay_start r s) (drop frontier (take stop (sr_receipts r)))) (\<lambda>replay.
         if stop = length (sr_receipts r) \<and> (sr_holdings replay \<noteq> sr_holdings r \<or> sr_issued_shares replay \<noteq> sr_issued_shares r)
         then Inl (InvalidFact ''registration frontier replay disagrees with current holder lots or capital'')
         else Inr replay)))"

subsection \<open>Frozen openings\<close>

text \<open>The lots of one source group: identities seen, shares so far, common restriction.\<close>

fun check_group_lots :: "bool \<Rightarrow> share_lot list \<Rightarrow> ustring list \<Rightarrow> nat \<Rightarrow> share_restriction option \<Rightarrow> ustring list
    \<Rightarrow> registry_error + (ustring list \<times> nat \<times> share_restriction option)" where
  "check_group_lots positive lots seen before res [] = Inr (seen, before, res)"
| "check_group_lots positive lots seen before res (i # is) =
     bind_result (refuse_if (i \<in> set seen) (InvalidFact ''opening original lot is repeated across source groups'')) (\<lambda>_.
     bind_result (ok_or (InvalidFact ''opening source lot does not belong to the registered holder'') (find (\<lambda>l. sl_id l = i) lots)) (\<lambda>l.
     bind_result (ok_or (InvalidFact ''opening source lot quantity overflow'') (checked_u64 (before + sl_qty l))) (\<lambda>b.
     if \<not> positive then check_group_lots positive lots (i # seen) b res is
     else (case res of
         None \<Rightarrow> check_group_lots positive lots (i # seen) b (Some (sl_restriction l)) is
       | Some prior \<Rightarrow>
           if prior = sl_restriction l then check_group_lots positive lots (i # seen) b res is
           else Inl (InvalidFact ''opening positive source group mixes restrictions'')))))"

definition inherited_restriction :: "civil_date \<Rightarrow> share_restriction \<Rightarrow> share_restriction" where
  "inherited_restriction day original = (case original of
     Restricted _ release_on \<Rightarrow> if date_before release_on day then Unrestricted else original
   | Unrestricted \<Rightarrow> Unrestricted)"

definition check_source_group ::
  "civil_date \<Rightarrow> share_holding list \<Rightarrow> ustring list \<Rightarrow> ustring list \<times> day_net_change \<Rightarrow> registry_error + ustring list" where
  "check_source_group day holdings seen gc = (case gc of (grp, c) \<Rightarrow>
     bind_result (refuse_if (grp = []) (InvalidFact ''opening source lot group is empty'')) (\<lambda>_.
     bind_result (ok_or (InvalidFact ''opening source holder is absent from original registration'') (find_holding (nc_holder c) holdings)) (\<lambda>h.
     bind_result (check_group_lots (0 < nc_change c) (sh_lots h) seen 0 None grp) (\<lambda>(seen', before, res).
     bind_result (ok_or (InvalidFact ''opening source group target overflow'') (checked_i128 (int before + nc_change c))) (\<lambda>after.
     bind_result (ok_or (InvalidFact ''opening source group target is outside u64'') (quantity_of_change after)) (\<lambda>_.
     bind_result (case nc_consume c of
         Some selection \<Rightarrow> refuse_if (list_ex (\<lambda>e. lc_lot_id e \<notin> set grp) selection)
           (InvalidFact ''opening lot consumption crosses its frozen source group'')
       | None \<Rightarrow> refuse_if (nc_change c < 0 \<and> length grp \<noteq> length (sh_lots h))
           (InvalidFact ''opening partial source bucket reduction requires explicit lot selection'')) (\<lambda>_.
     bind_result (case nc_acquisition c of
         None \<Rightarrow> Inr ()
       | Some a \<Rightarrow> bind_result (ok_or (InvalidFact ''opening acquisition lacks original restriction facts'') res) (\<lambda>original.
           refuse_if (na_restriction a \<noteq> inherited_restriction day original)
             (InvalidFact ''opening acquisition restriction does not preserve the existing inheritance rule''))) (\<lambda>_.
     Inr seen'))))))))"

definition validate_frozen_opening :: "share_registry \<Rightarrow> opening_movement_ref \<Rightarrow> nat \<Rightarrow> share_day_receipt \<Rightarrow> registry_error + unit" where
  "validate_frozen_opening r ref index rc =
     bind_result (ok_or (InvalidFact ''opening registration reference is unknown'') (registration r (om_registration_event ref))) (\<lambda>s.
     bind_result (refuse_if (index < rs_settled_receipts s \<or> unit_at r (rs_settled_receipts s) \<noteq> om_from_unit ref
         \<or> date_le (receipt_day rc) (rs_registered_on s) \<or> length (om_source_lots ref) \<noteq> length (dq_changes (rc_request rc)))
       (InvalidFact ''opening original registration day/frontier/unit/source groups do not match'')) (\<lambda>_.
     bind_result (replay_registration_to r s index) (\<lambda>current.
     bind_result (refuse_if (sr_holdings current \<noteq> rs_holdings s \<or> sr_issued_shares current \<noteq> rs_issued_shares s)
       (InvalidFact ''opening frozen original lots changed after registration'')) (\<lambda>_.
     bind_result (try_fold (check_source_group (receipt_day rc) (rs_holdings s)) [] (zip (om_source_lots ref) (dq_changes (rc_request rc)))) (\<lambda>seen.
     refuse_if (length seen \<noteq> sum_list (map (\<lambda>h. length (sh_lots h)) (rs_holdings s)))
       (InvalidFact ''opening source groups do not cover all frozen original lots''))))))"

definition validate_pending_opening :: "share_registry \<Rightarrow> registry_error + unit" where
  "validate_pending_opening r = (case sr_pending_opening r of None \<Rightarrow> Inr () | Some p \<Rightarrow>
     let index = df_receipt_count (po_predecessor p); ref = fo_reference (po_opening p); q = fo_request (po_opening p) in
     bind_result (refuse_if (index + 1 \<noteq> length (sr_receipts r)
         \<or> df_settled_on (po_predecessor p) \<noteq> sr_settled_on r
         \<or> days_since (dq_day q) (sr_settled_on r) \<noteq> 1
         \<or> df_unit (po_predecessor p) \<noteq> unit_at r index
         \<or> option_is (\<lambda>rc. receipt_day rc \<noteq> df_settled_on (po_predecessor p)) (get_before (sr_receipts r) index)
         \<or> list_ex (\<lambda>s. rs_event_id s = dq_event_id q) (sr_registrations r)
         \<or> dq_event_id q \<noteq> om_movement_event ref
         \<or> \<not> opening_scope_matches (dq_scope q) ref
         \<or> \<not> opening_changes_match q
         \<or> rc_request (sr_receipts r ! index) \<noteq> q)
       (InvalidFact ''pending opening does not bind its predecessor and physical suffix'')) (\<lambda>_.
     bind_result (if is_redenomination (dq_scope q)
         then check_transition (df_unit (po_predecessor p)) (om_from_unit ref) (om_to_unit ref) (dq_event_id q)
         else refuse_if (om_from_unit ref \<noteq> df_unit (po_predecessor p)) (InvalidFact ''pending opening unit differs from predecessor'')) (\<lambda>_.
     validate_frozen_opening r ref index (sr_receipts r ! index))))"

subsection \<open>Typed settlement days\<close>

fun post_movement_id :: "share_post_action_ref \<Rightarrow> ustring option" where
  "post_movement_id (MovementRef e) = Some e"
| "post_movement_id (UnitMovementRef e _ _) = Some e"
| "post_movement_id (CaptureRef _) = None"

definition typed_ids :: "share_day_receipt \<Rightarrow> ustring list" where
  "typed_ids rc = (case scope_binding (receipt_scope rc) of None \<Rightarrow> [] | Some b \<Rightarrow>
     receipt_id rc # map om_movement_event (sb_opening b) @ List.map_filter post_movement_id (sb_post b))"

definition is_typed_movement_identity :: "share_registry \<Rightarrow> ustring \<Rightarrow> bool" where
  "is_typed_movement_identity r ev \<longleftrightarrow> list_ex (\<lambda>rc. ev \<in> set (typed_ids rc)) (sr_receipts r)"

definition check_market_source :: "share_market_source \<Rightarrow> registry_error + unit" where
  "check_market_source src = (case src of
     FinalConfirmations refs \<Rightarrow> refuse_if (\<not> distinct (map cf_receipt_id refs))
       (InvalidFact ''typed market confirmation reference identity is repeated'')
   | CalendarClosed _ digest \<Rightarrow> refuse_if (blank digest) (InvalidFact ''calendar-closed source policy binding is empty''))"

text \<open>The openings of a day, in order: unit so far and identities used.\<close>

fun check_openings :: "share_registry \<Rightarrow> civil_date \<Rightarrow> nat \<Rightarrow> share_unit \<Rightarrow> ustring list \<Rightarrow> opening_movement_ref list
    \<Rightarrow> registry_error + (share_unit \<times> ustring list)" where
  "check_openings r day index u ids [] = Inr (u, ids)"
| "check_openings r day index u ids (ref # refs) = (let stored = sr_receipts r ! index in
     bind_result (refuse_if (receipt_day stored \<noteq> day \<or> receipt_id stored \<noteq> om_movement_event ref
         \<or> \<not> opening_scope_matches (receipt_scope stored) ref \<or> \<not> opening_changes_match (rc_request stored)
         \<or> om_movement_event ref \<in> set ids)
       (InvalidFact ''opening reference does not resolve to its exact ordered movement'')) (\<lambda>_.
     bind_result (if is_redenomination (receipt_scope stored)
         then check_transition u (om_from_unit ref) (om_to_unit ref) (receipt_id stored)
         else refuse_if (u \<noteq> om_from_unit ref) (InvalidFact ''stock distribution opening does not retain the current unit'')) (\<lambda>_.
     bind_result (map_error (FaultAt ''opening'' (om_movement_event ref)) (validate_frozen_opening r ref index stored)) (\<lambda>_.
     check_openings r day (Suc index) (om_to_unit ref) (om_movement_event ref # ids) refs))))"

text \<open>The post-market actions, in order: unit, position in the receipts, identities, captures.\<close>

fun check_post_actions :: "share_registry \<Rightarrow> civil_date \<Rightarrow> share_unit \<Rightarrow> nat \<Rightarrow> ustring list \<Rightarrow> ustring list \<Rightarrow> share_post_action_ref list
    \<Rightarrow> registry_error + (nat \<times> ustring list)" where
  "check_post_actions r day u cursor ids captures [] = Inr (cursor, captures)"
| "check_post_actions r day u cursor ids captures (CaptureRef ev # acts) =
     bind_result (ok_or (FaultAt ''capture'' ev (InvalidFact ''has no immutable snapshot'')) (registration r ev)) (\<lambda>s.
     bind_result (refuse_if (ev \<in> set (map receipt_id (sr_receipts r)) \<or> ev \<in> set ids \<or> ev \<in> set captures
         \<or> rs_registered_on s \<noteq> day \<or> rs_settled_receipts s \<noteq> cursor \<or> unit_at r cursor \<noteq> u)
       (FaultAt ''capture'' ev (InvalidFact ''capture date/receipt frontier/unit/identity disagrees with its action position''))) (\<lambda>_.
     check_post_actions r day u cursor (ev # ids) (ev # captures) acts))"
| "check_post_actions r day u cursor ids captures (MovementRef ev # acts) =
     bind_result (ok_or (FaultAt ''post'' ev (InvalidFact ''movement reference exceeds stored history'')) (get_at (sr_receipts r) cursor)) (\<lambda>stored.
     bind_result (refuse_if (receipt_id stored \<noteq> ev \<or> receipt_day stored \<noteq> day \<or> ev \<in> set ids)
       (FaultAt ''post'' ev (InvalidFact ''movement reference has wrong identity/day/order''))) (\<lambda>_.
     bind_result (refuse_if (\<not> (is_transfer (receipt_scope stored) \<or> is_cancellation (receipt_scope stored)))
       (FaultAt ''post'' ev (InvalidFact ''ordinary post movement has an opening/market/unit scope''))) (\<lambda>_.
     check_post_actions r day u (Suc cursor) (ev # ids) captures acts)))"
| "check_post_actions r day u cursor ids captures (UnitMovementRef ev from_unit to_unit # acts) =
     bind_result (ok_or (FaultAt ''post'' ev (InvalidFact ''movement reference exceeds stored history'')) (get_at (sr_receipts r) cursor)) (\<lambda>stored.
     bind_result (refuse_if (receipt_id stored \<noteq> ev \<or> receipt_day stored \<noteq> day \<or> ev \<in> set ids)
       (FaultAt ''post'' ev (InvalidFact ''movement reference has wrong identity/day/order''))) (\<lambda>_.
     bind_result (refuse_if (\<not> is_redenomination (receipt_scope stored))
       (FaultAt ''post'' ev (InvalidFact ''post unit movement does not reference a re-denomination''))) (\<lambda>_.
     bind_result (check_transition u from_unit to_unit ev) (\<lambda>_.
     check_post_actions r day to_unit (Suc cursor) (ev # ids) captures acts))))"

definition check_binding :: "share_registry \<Rightarrow> nat \<Rightarrow> share_day_receipt \<Rightarrow> share_settlement_binding \<Rightarrow> registry_error + unit" where
  "check_binding r market_index rc b =
     bind_result (check_market_source (sb_market_source b)) (\<lambda>_. let start = df_receipt_count (sb_predecessor b) in
     bind_result (refuse_if (market_index < start \<or> market_index - start \<noteq> length (sb_opening b)
         \<or> days_since (receipt_day rc) (df_settled_on (sb_predecessor b)) \<noteq> 1
         \<or> option_is (\<lambda>prior. receipt_day prior \<noteq> df_settled_on (sb_predecessor b)) (get_before (sr_receipts r) start)
         \<or> df_unit (sb_predecessor b) \<noteq> unit_at r start)
       (InvalidFact ''typed predecessor date/receipt frontier/unit does not resolve'')) (\<lambda>_.
     bind_result (check_openings r (receipt_day rc) start (df_unit (sb_predecessor b)) [] (sb_opening b)) (\<lambda>(u, ids).
     bind_result (refuse_if (sb_market_unit b \<noteq> u \<or> sb_market_unit b \<noteq> unit_at r market_index \<or> receipt_id rc \<in> set ids)
       (InvalidFact ''market close is not in the opening result unit'')) (\<lambda>_.
     bind_result (check_post_actions r (receipt_day rc) u (Suc market_index) (receipt_id rc # ids) [] (sb_post b)) (\<lambda>(cursor, captures).
     refuse_if (option_is (\<lambda>next_rc. date_le (receipt_day next_rc) (receipt_day rc)) (get_at (sr_receipts r) cursor)
         \<or> list_ex (\<lambda>s. rs_registered_on s = receipt_day rc \<and> rs_event_id s \<notin> set captures) (sr_registrations r))
       (InvalidFact ''typed day contains an unlisted market/post/capture fact''))))))"

fun check_bindings :: "share_registry \<Rightarrow> nat \<Rightarrow> share_day_receipt list \<Rightarrow> registry_error + unit" where
  "check_bindings r index [] = Inr ()"
| "check_bindings r index (rc # rcs) =
     bind_result (case scope_binding (receipt_scope rc) of None \<Rightarrow> Inr ()
       | Some b \<Rightarrow> map_error (FaultAt ''replay'' (receipt_id rc)) (check_binding r index rc b)) (\<lambda>_.
     check_bindings r (Suc index) rcs)"

definition validate_settlement_bindings :: "share_registry \<Rightarrow> registry_error + unit" where
  "validate_settlement_bindings r =
     (case find (\<lambda>s. is_typed_movement_identity r (rs_event_id s)) (sr_registrations r) of
        Some s \<Rightarrow> Inl (FaultAt ''typed-identity'' (rs_event_id s) (InvalidFact ''registration collides with a typed movement''))
      | None \<Rightarrow> check_bindings r 0 (sr_receipts r))"

subsection \<open>Receipts\<close>

definition receipt_follows :: "share_registry \<Rightarrow> civil_date \<Rightarrow> share_day_receipt \<Rightarrow> bool" where
  "receipt_follows r previous rc \<longleftrightarrow> (let day = receipt_day rc in case receipt_scope rc of
     PublicMarket \<Rightarrow> days_since day previous = 1
   | NonTradingTransfer _ \<Rightarrow> day = previous
       \<or> (days_since day previous = 1
          \<and> (option_is (\<lambda>p. dq_event_id (fo_request (po_opening p)) = receipt_id rc) (sr_pending_opening r)
             \<or> list_ex (\<lambda>m. option_is (\<lambda>b. list_ex (\<lambda>o'. om_movement_event o' = receipt_id rc) (sb_opening b))
                   (scope_binding (receipt_scope m))) (sr_receipts r)))
   | IssuerRepurchaseCancellation _ \<Rightarrow> date_le previous day
   | _ \<Rightarrow> day = previous \<or> days_since day previous = 1)"

text \<open>
  The tallies of a request, by holder: the reduction, and the lots that its selections name; and the
  acquired lots of all receipts so far.
\<close>

definition tally_selection :: "(ustring, nat) bt \<Rightarrow> lot_consumption list \<Rightarrow> registry_error + (ustring, nat) bt" where
  "tally_selection = try_fold (\<lambda>m e. if map_of m (lc_lot_id e) \<noteq> None
     then Inl (InvalidFact ''explicit lot consumption names one lot more than once'')
     else Inr (bt_insert (lc_lot_id e) (lc_qty e) m))"

type_synonym change_tally = "(holder_id \<times> nat) list \<times> (holder_id \<times> (ustring, nat) bt) list \<times> ustring list"

definition or_zero :: "nat option \<Rightarrow> nat" where
  "or_zero x = (case x of None \<Rightarrow> 0 | Some n \<Rightarrow> n)"

definition or_empty :: "(ustring, nat) bt option \<Rightarrow> (ustring, nat) bt" where
  "or_empty x = (case x of None \<Rightarrow> [] | Some m \<Rightarrow> m)"

definition tally_change :: "change_tally \<Rightarrow> day_net_change \<Rightarrow> registry_error + change_tally" where
  "tally_change t c = (case t of (expected, selections, acquired) \<Rightarrow>
     bind_result (case nc_acquisition c of None \<Rightarrow> Inr acquired
       | Some a \<Rightarrow> if na_lot_id a \<in> set acquired then Inl (InvalidFact ''historical acquisition lot identity reused'')
                 else Inr (na_lot_id a # acquired)) (\<lambda>acquired'.
     bind_result (if nc_change c < 0 then
         bind_result (refuse_if (nc_change c = i128_min) (InvalidFact ''negative share change overflow'')) (\<lambda>_.
         bind_result (ok_or (InvalidFact ''share change exceeds u64'') (quantity_of_change (- nc_change c))) (\<lambda>n.
         bind_result (ok_or (InvalidFact ''disposal sum overflow'') (checked_u64 (or_zero (map_of expected (nc_holder c)) + n)))
           (\<lambda>t. Inr (AList.update (nc_holder c) t expected))))
       else Inr expected) (\<lambda>expected'.
     bind_result (case nc_consume c of None \<Rightarrow> Inr selections
       | Some selection \<Rightarrow> bind_result (tally_selection (or_empty (map_of selections (nc_holder c))) selection)
           (\<lambda>m. Inr (AList.update (nc_holder c) m selections))) (\<lambda>selections'.
     Inr (expected', selections', acquired')))))"

type_synonym disposal_tally = "(holder_id \<times> nat) list \<times> (holder_id \<times> (ustring, nat) bt) list"

definition tally_disposal :: "disposal_tally \<Rightarrow> disposed_lot \<Rightarrow> registry_error + disposal_tally" where
  "tally_disposal t d = (case t of (consumed, disposed) \<Rightarrow>
     let h = dl_holder d; l = dl_lot d; m = or_empty (map_of disposed h) in
     bind_result (ok_or (InvalidFact ''disposal sum overflow'') (checked_u64 (or_zero (map_of consumed h) + sl_qty l))) (\<lambda>n.
     bind_result (ok_or (InvalidFact ''disposal sum overflow'') (checked_u64 (or_zero (map_of m (sl_id l)) + sl_qty l))) (\<lambda>k.
     Inr (AList.update h n consumed, AList.update h (bt_insert (sl_id l) k m) disposed))))"

definition check_disposal :: "share_day_receipt \<Rightarrow> (holder_id \<times> ustring) list \<Rightarrow> disposed_lot \<Rightarrow> registry_error + (holder_id \<times> ustring) list" where
  "check_disposal rc ids d =
     bind_result (validate_holder (dl_holder d)) (\<lambda>_.
     bind_result (validate_lot (dl_lot d) (dl_disposed_on d)) (\<lambda>_.
     bind_result (refuse_if ((dl_holder d, sl_id (dl_lot d)) \<in> set ids)
       (InvalidFact ''a physical lot is disposed more than once in one day'')) (\<lambda>_.
     bind_result (refuse_if (locked_on (dl_disposed_on d) (is_redenomination (receipt_scope rc)) (dl_lot d))
       (InvalidFact ''transfer receipt contains an unreleased physical lot'')) (\<lambda>_.
     bind_result (refuse_if (dl_disposed_on d \<noteq> receipt_day rc
         \<or> \<not> list_ex (\<lambda>c. nc_holder c = dl_holder d \<and> nc_change c < 0) (dq_changes (rc_request rc)))
       (InvalidFact ''orphan disposal receipt'')) (\<lambda>_.
     Inr ((dl_holder d, sl_id (dl_lot d)) # ids))))))"

text \<open>The state of the loop over the receipts: identities, previous day, acquired lots.\<close>

type_synonym receipt_walk = "ustring list \<times> civil_date option \<times> ustring list"

definition physical_day :: "share_registry \<Rightarrow> civil_date" where
  "physical_day r = (case sr_pending_opening r of Some p \<Rightarrow> dq_day (fo_request (po_opening p)) | None \<Rightarrow> sr_settled_on r)"

definition validate_receipt :: "share_registry \<Rightarrow> receipt_walk \<Rightarrow> share_day_receipt \<Rightarrow> registry_error + receipt_walk" where
  "validate_receipt r w rc = (case w of (ids, previous, acquired) \<Rightarrow>
     bind_result (validate_request (rc_request rc)) (\<lambda>_.
     bind_result (refuse_if (receipt_id rc \<in> set ids \<or> date_before (physical_day r) (receipt_day rc))
       (InvalidFact ''invalid settlement receipt identity or date'')) (\<lambda>_.
     bind_result (refuse_if (option_is (\<lambda>p. \<not> receipt_follows r p rc) previous)
       (InvalidFact ''settlement receipt dates are not consecutive'')) (\<lambda>_.
     bind_result (try_fold tally_change ([], [], acquired) (dq_changes (rc_request rc))) (\<lambda>(expected, selections, acquired').
     bind_result (try_fold tally_disposal ([], []) (rc_disposals rc)) (\<lambda>(consumed, disposed).
     bind_result (refuse_if (list_ex (\<lambda>(h, n). map_of consumed h \<noteq> Some n) expected)
       (InvalidFact ''disposal receipt does not match daily net reduction'')) (\<lambda>_.
     bind_result (refuse_if (length consumed \<noteq> length expected)
       (InvalidFact ''disposal receipt names a holder without a net reduction'')) (\<lambda>_.
     bind_result (refuse_if (list_ex (\<lambda>(h, m). map_of disposed h \<noteq> Some m) selections)
       (InvalidFact ''explicit lot consumption does not match the disposal receipt'')) (\<lambda>_.
     bind_result (try_fold (check_disposal rc) [] (rc_disposals rc)) (\<lambda>_.
     Inr (receipt_id rc # ids, Some (receipt_day rc), acquired')))))))))))"

subsection \<open>Registrations and the whole registry\<close>

fun issues_shares :: "movement_scope \<Rightarrow> bool" where
  "issues_shares s = (is_transfer s \<or> is_cancellation s \<or> is_redenomination s)"

definition issued_since :: "share_day_receipt list \<Rightarrow> registry_error + int" where
  "issued_since rcs = try_fold (\<lambda>n rc. if issues_shares (receipt_scope rc)
     then try_fold (\<lambda>n c. ok_or (InvalidFact ''issued share replay overflow'') (checked_i128 (n + nc_change c))) n (dq_changes (rc_request rc))
     else Inr n) 0 rcs"

definition validate_registration :: "share_registry \<Rightarrow> ustring list \<Rightarrow> registration_snapshot \<Rightarrow> registry_error + ustring list" where
  "validate_registration r ids s =
     bind_result (validate_snapshot s) (\<lambda>_.
     bind_result (refuse_if (length (sr_receipts r) < rs_settled_receipts s)
       (InvalidFact ''registration settled receipt count exceeds the stored settlement history'')) (\<lambda>_.
     bind_result (issued_since (drop (rs_settled_receipts s) (sr_receipts r))) (\<lambda>after.
     bind_result (ok_or (InvalidFact ''issued share replay overflow'') (checked_i128 (int (sr_issued_shares r) - after))) (\<lambda>z.
     bind_result (ok_or (InvalidFact ''issued share replay underflow'') (quantity_of_change z)) (\<lambda>issued.
     bind_result (refuse_if (blank (rs_event_id s) \<or> rs_event_id s \<in> set ids \<or> rs_stock s \<noteq> sr_stock r
         \<or> rs_issuer s \<noteq> sr_issuer r \<or> rs_issued_shares s \<noteq> issued \<or> date_before (sr_settled_on r) (rs_registered_on s))
       (InvalidFact ''invalid immutable registration identity, issuer, capital or date'')) (\<lambda>_.
     bind_result (validate_holdings (rs_holdings s) (rs_issued_shares s) (rs_registered_on s)) (\<lambda>_.
     bind_result (map_error (FaultAt ''registration-replay'' (rs_event_id s))
       (replay_registration_to r s (length (sr_receipts r)))) (\<lambda>_.
     bind_result (refuse_if (rs_repurchase_account s \<noteq>
         (case sr_repurchase_account r of None \<Rightarrow> None
          | Some f \<Rightarrow> if date_le (rf_established_on f) (rs_registered_on s) then Some f else None))
       (InvalidFact ''registration issuer repurchase account facts do not match registry history'')) (\<lambda>_.
     Inr (rs_event_id s # ids))))))))))"

definition validate :: "share_registry \<Rightarrow> registry_error + unit" where
  "validate r =
     bind_result (refuse_if (blank (sr_stock r)) (InvalidFact ''stock and issuer identities are required'')) (\<lambda>_.
     bind_result (validate_holdings (sr_holdings r) (sr_issued_shares r) (physical_day r)) (\<lambda>_.
     bind_result (validate_repurchase_account (sr_repurchase_account r) (sr_settled_on r)) (\<lambda>_.
     bind_result (try_fold (validate_receipt r) ([], None, []) (sr_receipts r)) (\<lambda>(ids, previous, acquired).
     bind_result (refuse_if (option_is (\<lambda>d. d \<noteq> physical_day r) previous)
       (InvalidFact ''latest receipt does not match physical date'')) (\<lambda>_.
     bind_result (try_fold (validate_registration r) [] (sr_registrations r)) (\<lambda>_.
     bind_result (validate_settlement_bindings r) (\<lambda>_.
     validate_pending_opening r)))))))"

subsection \<open>Operations\<close>

definition new_registry :: "stock_code \<Rightarrow> company_id \<Rightarrow> nat \<Rightarrow> civil_date \<Rightarrow> share_holding list \<Rightarrow> registry_error + share_registry" where
  "new_registry stock issuer issued settled_on holdings = (let r = \<lparr>sr_stock = stock, sr_issuer = issuer,
       sr_issued_shares = issued, sr_repurchase_account = None, sr_settled_on = settled_on, sr_holdings = holdings,
       sr_receipts = [], sr_registrations = [], sr_pending_opening = None\<rparr> in
     bind_result (validate r) (\<lambda>_. Inr r))"

definition set_issuer_repurchase_account :: "repurchase_account_facts \<Rightarrow> share_registry \<Rightarrow> (registry_error + unit) \<times> share_registry" where
  "set_issuer_repurchase_account facts r = (case sr_repurchase_account r of
     Some existing \<Rightarrow> (refuse_if (existing \<noteq> facts) (InvalidFact ''issuer repurchase account facts are immutable once set''), r)
   | None \<Rightarrow>
       try_in (validate_repurchase_account (Some facts) (sr_settled_on r)) r (\<lambda>_.
       if list_ex (\<lambda>s. date_le (rf_established_on facts) (rs_registered_on s)) (sr_registrations r)
       then (Inl (InvalidFact ''issuer repurchase account facts cannot be established retroactively across a registration''), r)
       else (Inr (), r\<lparr>sr_repurchase_account := Some facts\<rparr>)))"

definition close_day :: "share_day_request \<Rightarrow> share_registry \<Rightarrow> (registry_error + share_day_receipt) \<times> share_registry" where
  "close_day q r =
    (if scope_binding (dq_scope q) \<noteq> None
     then (Inl (InvalidFact ''typed settlement marker requires prepare_settlement_day''), r)
     else case receipt_by_event r (dq_event_id q) of
       Some rc \<Rightarrow> (if rc_request rc = q then Inr rc else Inl (InvalidFact ''day event identity reused with different input''), r)
     | None \<Rightarrow>
         try_in (validate_request q) r (\<lambda>_.
         try_in (fresh_acquisitions r (dq_changes q)) r (\<lambda>_.
         let same_day = (dq_day q = sr_settled_on r \<and> issues_shares (dq_scope q)) in
         if \<not> same_day \<and> days_since (dq_day q) (sr_settled_on r) \<noteq> 1
         then (Inl (InvalidFact ''day settlement must follow the previous natural day''), r)
         else try_in (apply_movement r q) r (\<lambda>(candidate, rc).
         let candidate = (if same_day then candidate else candidate\<lparr>sr_settled_on := receipt_day rc\<rparr>) in
         try_in (validate candidate) r (\<lambda>_. (Inr rc, candidate))))))"

definition snapshot_now :: "ustring \<Rightarrow> share_registry \<Rightarrow> registration_snapshot" where
  "snapshot_now ev r = \<lparr>rs_event_id = ev, rs_stock = sr_stock r, rs_issuer = sr_issuer r, rs_registered_on = sr_settled_on r,
     rs_issued_shares = sr_issued_shares r, rs_settled_receipts = length (sr_receipts r),
     rs_repurchase_account = sr_repurchase_account r, rs_holdings = sr_holdings r\<rparr>"

definition preview_current_snapshot :: "ustring \<Rightarrow> share_registry \<Rightarrow> registry_error + registration_snapshot" where
  "preview_current_snapshot ev r =
     bind_result (validate r) (\<lambda>_.
     bind_result (refuse_if (sr_pending_opening r \<noteq> None)
       (InvalidFact ''cannot preview a registry with a pending opening movement'')) (\<lambda>_.
     bind_result (refuse_if (blank ev \<or> is_typed_movement_identity r ev)
       (InvalidFact ''invalid or reused preview event identity'')) (\<lambda>_.
     let s = snapshot_now ev r in bind_result (validate_snapshot s) (\<lambda>_. Inr s))))"

definition register :: "ustring \<Rightarrow> civil_date \<Rightarrow> share_registry \<Rightarrow> (registry_error + registration_snapshot) \<times> share_registry" where
  "register ev day r = (case registration r ev of
     Some s \<Rightarrow> (if rs_registered_on s \<noteq> day then Inl (InvalidFact ''registration identity reused with different date'') else Inr s, r)
   | None \<Rightarrow>
       if blank ev then (Inl (InvalidFact ''empty registration event identity''), r)
       else if day \<noteq> sr_settled_on r
       then (Inl (InvalidFact ''registration must capture the current completed day, not a historical or future balance''), r)
       else if list_ex (\<lambda>rc. receipt_day rc = day \<and> scope_binding (receipt_scope rc) \<noteq> None) (sr_receipts r)
       then (Inl (InvalidFact ''typed settlement captures must be listed in the complete day request''), r)
       else if is_typed_movement_identity r ev
       then (Inl (InvalidFact ''registration identity collides with a typed day movement''), r)
       else try_in (validate r) r (\<lambda>_.
         let s = snapshot_now ev r in (Inr s, r\<lparr>sr_registrations := sr_registrations r @ [s]\<rparr>)))"

definition prepare_opening_movement ::
  "share_day_frontier \<Rightarrow> frozen_opening_movement \<Rightarrow> share_registry \<Rightarrow> registry_error + share_registry" where
  "prepare_opening_movement predecessor opening r = (let q = fo_request opening; ref = fo_reference opening in
     bind_result (validate r) (\<lambda>_.
     bind_result (refuse_if (sr_pending_opening r \<noteq> None \<or> predecessor \<noteq> settlement_frontier r
         \<or> days_since (dq_day q) (sr_settled_on r) \<noteq> 1 \<or> dq_event_id q \<noteq> om_movement_event ref
         \<or> \<not> opening_scope_matches (dq_scope q) ref \<or> \<not> opening_changes_match q)
       (InvalidFact ''opening predecessor/day/scope is invalid or already pending'')) (\<lambda>_.
     bind_result (apply_movement r q) (\<lambda>(candidate, _).
     let candidate = candidate\<lparr>sr_pending_opening := Some \<lparr>po_predecessor = predecessor, po_opening = opening\<rparr>\<rparr> in
     bind_result (validate candidate) (\<lambda>_. Inr candidate)))))"

end
