(* ===== verification/Share_Settlement.thy ===== *)
theory Share_Settlement
  imports Share_Registry
begin

section \<open>Complete settlement days (share_registry/settlement_day.rs)\<close>

text \<open>
  A complete day of the registry: the frozen opening movements, the net of the confirmed trades of
  the market, and the actions after the market, among them the capture of registration
  snapshots. It is applied to a candidate as one transaction. The trades it rests on are checked against
  the confirmations and the trading calendar. The calendar is the policy it was built from.
\<close>

record confirmed_market_close =
  mc_unit :: share_unit
  mc_source :: share_market_source
  mc_request :: share_day_request

datatype share_post_action =
    PostMovement share_day_request
  | PostUnitMovement share_day_request share_unit share_unit
  | PostCapture ustring

record share_settlement_day =
  sd_stock :: stock_code
  sd_day :: civil_date
  sd_predecessor :: share_day_frontier
  sd_opening :: "frozen_opening_movement list"
  sd_market_close :: confirmed_market_close
  sd_post_actions :: "share_post_action list"

record market_confirmation =
  mf_account :: account_id
  mf_receipt_id :: nat
  mf_stock :: stock_code
  mf_day :: civil_date
  mf_side :: side
  mf_qty :: nat

record market_context =
  mx_calendar :: calendar_policy
  mx_exchange :: calendar_exchange
  mx_confirmations :: "market_confirmation list"
  mx_treasury_account :: "account_id option"
  mx_completed_through :: "civil_date option"

subsection \<open>The sources of the market receipts\<close>

text \<open>The net of a holder over the confirmed trades of a day.\<close>

definition confirmed_holder :: "market_context \<Rightarrow> market_confirmation \<Rightarrow> holder_id" where
  "confirmed_holder x row = (if mx_treasury_account x = Some (mf_account row) then IssuerTreasury else AccountHolder (mf_account row))"

definition signed_qty :: "market_confirmation \<Rightarrow> int" where
  "signed_qty row = (if mf_side row = Buy then int (mf_qty row) else - int (mf_qty row))"

definition or_zero_int :: "int option \<Rightarrow> int" where
  "or_zero_int v = (case v of None \<Rightarrow> 0 | Some n \<Rightarrow> n)"

definition confirmed_net :: "market_context \<Rightarrow> market_confirmation list \<Rightarrow> registry_error + (holder_id \<times> int) list" where
  "confirmed_net x = try_fold (\<lambda>net row. let h = confirmed_holder x row in
     bind_result (ok_or (InvalidFact ''final confirmation holder net overflow'') (checked_i128 (or_zero_int (map_of net h) + signed_qty row)))
       (\<lambda>n. Inr (AList.update h n net))) []"

text \<open>The last change of a holder counts, as when a map is collected.\<close>

definition collected_change :: "day_net_change list \<Rightarrow> holder_id \<Rightarrow> int option" where
  "collected_change cs h = map_of (rev (map (\<lambda>c. (nc_holder c, nc_change c)) cs)) h"

definition check_confirmations ::
  "market_context \<Rightarrow> market_confirmation list \<Rightarrow> share_confirmation_ref list \<Rightarrow> share_day_receipt \<Rightarrow> registry_error + unit" where
  "check_confirmations x rows refs rc = (let expected = map (\<lambda>row. (mf_account row, mf_receipt_id row)) rows;
       supplied = map (\<lambda>ref. (cf_account ref, cf_receipt_id ref)) refs; changes = dq_changes (rc_request rc) in
     bind_result (refuse_if (\<not> distinct supplied \<or> set supplied \<noteq> set expected)
       (InvalidFact ''market confirmation references are orphaned, repeated or omit final confirmations'')) (\<lambda>_.
     bind_result (confirmed_net x rows) (\<lambda>net.
     refuse_if (list_ex (\<lambda>h. or_zero_int (map_of net h) \<noteq> or_zero_int (collected_change changes h)) (map fst net @ map nc_holder changes))
       (InvalidFact ''final confirmation quantity does not match the market holder net change''))))"

definition check_market_receipt ::
  "share_registry \<Rightarrow> market_context \<Rightarrow> share_settlement_binding \<Rightarrow> share_day_receipt \<Rightarrow> registry_error + unit" where
  "check_market_receipt r x b rc =
     bind_result (refuse_if (case mx_completed_through x of None \<Rightarrow> True | Some d \<Rightarrow> date_before d (receipt_day rc))
       (InvalidFact ''market source day has not actually completed'')) (\<lambda>_.
     bind_result (map_error (\<lambda>_. InvalidFact ''frozen market calendar rejected day'')
       (is_trading_day (mx_calendar x) (mx_exchange x) (receipt_day rc))) (\<lambda>trading.
     let rows = filter (\<lambda>row. mf_stock row = sr_stock r \<and> mf_day row = receipt_day rc) (mx_confirmations x) in
     case sb_market_source b of
       CalendarClosed ex digest \<Rightarrow>
         refuse_if (trading \<or> ex \<noteq> mx_exchange x \<or> digest \<noteq> cp_content_digest (mx_calendar x) \<or> rows \<noteq> []
             \<or> list_ex (\<lambda>c. nc_change c \<noteq> 0) (dq_changes (rc_request rc)))
           (InvalidFact ''calendar-closed source disagrees with frozen policy or contains market movements'')
     | FinalConfirmations refs \<Rightarrow>
         bind_result (refuse_if (\<not> trading) (InvalidFact ''final market confirmations claim an exchange-closed day'')) (\<lambda>_.
         check_confirmations x rows refs rc)))"

definition validate_market_sources :: "share_registry \<Rightarrow> market_context \<Rightarrow> registry_error + unit" where
  "validate_market_sources r x =
     bind_result (try_fold (\<lambda>ids row. if mf_qty row = 0 \<or> blank (mf_stock row) \<or> mf_receipt_id row \<in> set ids
         then Inl (InvalidFact ''market source context contains invalid or repeated confirmation identities'')
         else Inr (mf_receipt_id row # ids)) [] (mx_confirmations x)) (\<lambda>_.
     each_of (\<lambda>rc. case scope_binding (receipt_scope rc) of None \<Rightarrow> Inr ()
       | Some b \<Rightarrow> map_error (FaultAt ''market-source'' (receipt_id rc)) (check_market_receipt r x b rc)) (sr_receipts r))"

subsection \<open>The transaction of a day\<close>

fun post_ref :: "share_post_action \<Rightarrow> share_post_action_ref" where
  "post_ref (PostMovement q) = MovementRef (dq_event_id q)"
| "post_ref (PostUnitMovement q f t) = UnitMovementRef (dq_event_id q) f t"
| "post_ref (PostCapture ev) = CaptureRef ev"

fun post_movement :: "share_post_action \<Rightarrow> share_day_request option" where
  "post_movement (PostMovement q) = Some q"
| "post_movement (PostUnitMovement q f t) = Some q"
| "post_movement (PostCapture ev) = None"

definition day_binding :: "share_settlement_day \<Rightarrow> share_settlement_binding" where
  "day_binding d = \<lparr>sb_predecessor = sd_predecessor d, sb_opening = map fo_reference (sd_opening d),
     sb_market_unit = mc_unit (sd_market_close d), sb_market_source = mc_source (sd_market_close d),
     sb_post = map post_ref (sd_post_actions d)\<rparr>"

definition market_request :: "share_settlement_day \<Rightarrow> share_day_request" where
  "market_request d = (mc_request (sd_market_close d))\<lparr>dq_scope := SettlementDayMarket (day_binding d)\<rparr>"

definition stored_as :: "share_registry \<Rightarrow> share_day_request \<Rightarrow> bool" where
  "stored_as r q \<longleftrightarrow> option_is (\<lambda>rc. rc_request rc = q) (receipt_by_event r (dq_event_id q))"

definition check_opening_requests :: "share_settlement_day \<Rightarrow> registry_error + unit" where
  "check_opening_requests d = each_of (\<lambda>op. refuse_if (dq_day (fo_request op) \<noteq> sd_day d
       \<or> dq_event_id (fo_request op) \<noteq> om_movement_event (fo_reference op)
       \<or> \<not> opening_scope_matches (dq_scope (fo_request op)) (fo_reference op) \<or> \<not> opening_changes_match (fo_request op))
     (InvalidFact ''opening request does not bind its declared day/phase/movement reference'')) (sd_opening d)"

definition check_retry :: "share_registry \<Rightarrow> share_settlement_day \<Rightarrow> share_day_receipt \<Rightarrow> registry_error + share_registry" where
  "check_retry r d stored =
     bind_result (refuse_if (rc_request stored \<noteq> market_request d)
       (InvalidFact ''complete settlement retry changed market, unit, source or action positions'')) (\<lambda>_.
     bind_result (each_of (\<lambda>op. refuse_if (\<not> stored_as r (fo_request op))
       (InvalidFact ''complete settlement retry changed its frozen opening movement'')) (sd_opening d)) (\<lambda>_.
     bind_result (each_of (\<lambda>q. refuse_if (\<not> stored_as r q)
       (InvalidFact ''complete settlement retry changed a post-market movement'')) (List.map_filter post_movement (sd_post_actions d))) (\<lambda>_.
     Inr r)))"

text \<open>The loops over the openings and the post-market actions: candidate and identities used so far.\<close>

type_synonym day_state = "share_registry \<times> ustring list"

definition apply_opening :: "share_settlement_day \<Rightarrow> day_state \<Rightarrow> frozen_opening_movement \<Rightarrow> registry_error + day_state" where
  "apply_opening d st op = (case st of (r, ids) \<Rightarrow> let q = fo_request op; ref = fo_reference op in
     bind_result (refuse_if (dq_day q \<noteq> sd_day d \<or> om_movement_event ref \<noteq> dq_event_id q
         \<or> \<not> opening_scope_matches (dq_scope q) ref \<or> dq_event_id q \<in> set ids)
       (InvalidFact ''opening movement identity/day/scope is invalid or reused'')) (\<lambda>_.
     bind_result (map_error (FaultAt ''opening'' (om_movement_event ref)) (apply_movement r q)) (\<lambda>(r', _).
     Inr (r', dq_event_id q # ids))))"

definition apply_post_movement ::
  "share_settlement_day \<Rightarrow> day_state \<Rightarrow> bool \<Rightarrow> share_day_request \<Rightarrow> registry_error + day_state" where
  "apply_post_movement d st correct_scope q = (case st of (r, ids) \<Rightarrow>
     bind_result (refuse_if (\<not> correct_scope \<or> dq_day q \<noteq> sd_day d \<or> dq_event_id q \<in> set ids)
       (FaultAt ''post'' (dq_event_id q) (InvalidFact ''post-market movement has wrong scope/day or a reused identity''))) (\<lambda>_.
     bind_result (map_error (FaultAt ''post'' (dq_event_id q)) (apply_movement r q)) (\<lambda>(r', _).
     Inr (r', dq_event_id q # ids))))"

fun apply_post_action :: "share_settlement_day \<Rightarrow> day_state \<Rightarrow> share_post_action \<Rightarrow> registry_error + day_state" where
  "apply_post_action d st (PostMovement q) = apply_post_movement d st (is_transfer (dq_scope q) \<or> is_cancellation (dq_scope q)) q"
| "apply_post_action d st (PostUnitMovement q f t) = apply_post_movement d st (is_redenomination (dq_scope q)) q"
| "apply_post_action d st (PostCapture ev) = (case st of (r, ids) \<Rightarrow>
     bind_result (refuse_if (blank ev \<or> ev \<in> set ids) (InvalidFact ''capture registration identity is empty or reused'')) (\<lambda>_.
     Inr (r\<lparr>sr_registrations := sr_registrations r @ [(snapshot_now ev r)\<lparr>rs_registered_on := sd_day d\<rparr>]\<rparr>, ev # ids)))"

definition apply_day :: "share_settlement_day \<Rightarrow> share_registry \<Rightarrow> registry_error + share_registry" where
  "apply_day d r = (let ids = map receipt_id (sr_receipts r) @ map rs_event_id (sr_registrations r) in
     bind_result (case sr_pending_opening r of
         Some p \<Rightarrow> if sd_opening d \<noteq> [po_opening p] then Inl (InvalidFact ''settlement opening differs from pending suffix'')
                 else Inr (r\<lparr>sr_pending_opening := None\<rparr>, ids)
       | None \<Rightarrow> try_fold (apply_opening d) (r, ids) (sd_opening d)) (\<lambda>(r1, ids1).
     bind_result (refuse_if (dq_event_id (market_request d) \<in> set ids1) (InvalidFact ''market identity is reused in another phase'')) (\<lambda>_.
     bind_result (apply_movement r1 (market_request d)) (\<lambda>(r2, _).
     bind_result (try_fold (apply_post_action d) (r2, dq_event_id (market_request d) # ids1) (sd_post_actions d)) (\<lambda>(r3, _).
     Inr (r3\<lparr>sr_settled_on := sd_day d\<rparr>))))))"

definition prepare_settlement_day :: "share_settlement_day \<Rightarrow> market_context \<Rightarrow> share_registry \<Rightarrow> registry_error + share_registry" where
  "prepare_settlement_day d x r = map_error (FaultAt ''complete-day'' (dq_event_id (mc_request (sd_market_close d)))) (
     bind_result (validate r) (\<lambda>_.
     bind_result (validate_market_sources r x) (\<lambda>_.
     bind_result (refuse_if (sd_stock d \<noteq> sr_stock r \<or> dq_day (mc_request (sd_market_close d)) \<noteq> sd_day d
         \<or> dq_scope (mc_request (sd_market_close d)) \<noteq> PublicMarket)
       (InvalidFact ''stock/day/market scope does not match the typed settlement day'')) (\<lambda>_.
     bind_result (check_opening_requests d) (\<lambda>_.
     case receipt_by_event r (dq_event_id (market_request d)) of
       Some stored \<Rightarrow> check_retry r d stored
     | None \<Rightarrow>
         bind_result (refuse_if (sd_predecessor d \<noteq> settlement_frontier r \<or> days_since (sd_day d) (sr_settled_on r) \<noteq> 1)
           (InvalidFact ''typed settlement predecessor/frontier/unit or natural day is stale'')) (\<lambda>_.
         bind_result (apply_day d r) (\<lambda>candidate.
         bind_result (validate candidate) (\<lambda>_.
         bind_result (validate_market_sources candidate x) (\<lambda>_. Inr candidate)))))))))"

end
