(* ===== verification/Share_Laws.thy ===== *)
theory Share_Laws
  imports Share_Settlement
begin

section \<open>Laws of the share registry\<close>

text \<open>
  What a valid registry satisfies, which parts of the state each check reads, and what a
  settlement day does. The theory \<open>Share_Properties\<close> derives the properties from these laws.
\<close>

lemma refuse_if_False [simp]: "refuse_if False e = Inr ()"
  by (simp add: refuse_if_def)

subsection \<open>Valid holdings\<close>

definition all_lots :: "share_holding list \<Rightarrow> share_lot list" where
  "all_lots hs = concat (map sh_lots hs)"

lemma all_lots_simps [simp]: "all_lots [] = []" "all_lots (h # hs) = sh_lots h @ all_lots hs"
  by (simp_all add: all_lots_def)

lemma validate_lots_Inr:
  assumes "validate_lots day ids prev acc ls = Inr (ids', acc')" "acc \<le> u64_max"
  shows "acc' = acc + lots_qty ls \<and> acc' \<le> u64_max \<and> ids' = rev (map sl_id ls) @ ids
    \<and> (distinct ids \<longrightarrow> distinct ids') \<and> (\<forall>l\<in>set ls. sl_qty l \<noteq> 0 \<and> date_le (sl_acquired_on l) day)
    \<and> sorted_wrt date_le (map sl_acquired_on ls) \<and> (\<forall>d. prev = Some d \<longrightarrow> (\<forall>l\<in>set ls. date_le d (sl_acquired_on l)))"
  using assms
proof (induction day ids prev acc ls rule: validate_lots.induct)
  case (2 day ids prev acc l ls)
  have l: "validate_lot l day = Inr ()" "sl_id l \<notin> set ids" "\<not> (case prev of None \<Rightarrow> False | Some d \<Rightarrow> date_before (sl_acquired_on l) d)"
    "acc + sl_qty l \<le> u64_max"
    and rest: "validate_lots day (sl_id l # ids) (Some (sl_acquired_on l)) (acc + sl_qty l) ls = Inr (ids', acc')"
    using 2(2) by (auto simp: bind_result_Inr_iff split: if_splits)
  have q: "sl_qty l \<noteq> 0" "date_le (sl_acquired_on l) day"
    using l(1) by (auto simp: validate_lot_def bind_result_Inr_iff date_le_iff)
  have trans: "date_le a b \<Longrightarrow> date_le b c \<Longrightarrow> date_le a c" for a b c
    by (auto simp: date_le_def date_before_def)
  have prev: "date_le d (sl_acquired_on l)" if "prev = Some d" for d using l(3) that by (simp add: date_le_iff)
  have neg: "\<not> (sl_id l \<in> set ids \<or> (case prev of None \<Rightarrow> False | Some d \<Rightarrow> date_before (sl_acquired_on l) d))"
    using l(2,3) by simp
  have chk: "ok_or (InvalidFact ''share sum overflow'') (checked_u64 (acc + sl_qty l)) = Inr (acc + sl_qty l)" using l(4) by simp
  note ih = 2(1) [OF l(1) neg chk rest l(4)]
  have later: "\<forall>k\<in>set ls. date_le (sl_acquired_on l) (sl_acquired_on k)" using ih l(2,3,4) by simp
  then have "\<forall>d. prev = Some d \<longrightarrow> (\<forall>k\<in>set (l # ls). date_le d (sl_acquired_on k))"
    using prev by (auto intro: trans)
  moreover have "distinct (sl_id l # ids) \<longrightarrow> distinct ids'" using ih by blast
  then have "distinct ids \<longrightarrow> distinct ids'" using l(2) by simp
  moreover have "acc' = acc + lots_qty (l # ls)" "acc' \<le> u64_max" "ids' = rev (map sl_id (l # ls)) @ ids"
    "\<forall>k\<in>set (l # ls). sl_qty k \<noteq> 0 \<and> date_le (sl_acquired_on k) day" "sorted_wrt date_le (map sl_acquired_on (l # ls))"
    using ih q later by simp_all
  ultimately show ?case by blast
qed simp

lemma validate_holders_Inr:
  assumes "validate_holders day holders ids acc hs = Inr n" "acc \<le> u64_max"
  shows "n = acc + lots_qty (all_lots hs) \<and> n \<le> u64_max \<and> (distinct ids \<longrightarrow> distinct (rev (map sl_id (all_lots hs)) @ ids))
    \<and> (distinct holders \<longrightarrow> distinct (rev (map sh_holder hs) @ holders))
    \<and> (\<forall>l\<in>set (all_lots hs). sl_qty l \<noteq> 0 \<and> date_le (sl_acquired_on l) day)
    \<and> (\<forall>h\<in>set hs. sorted_wrt date_le (map sl_acquired_on (sh_lots h)))"
  using assms
proof (induction day holders ids acc hs rule: validate_holders.induct)
  case (2 day holders ids acc h hs)
  obtain ids' t where l: "validate_lots day ids None acc (sh_lots h) = Inr (ids', t)" "sh_holder h \<notin> set holders"
    and rest: "validate_holders day (sh_holder h # holders) ids' t hs = Inr n"
    and vh: "validate_holder (sh_holder h) = Inr ()"
    using 2(2) by (auto simp: bind_result_Inr_iff split: if_splits)
  note lots = validate_lots_Inr [OF l(1) 2(3)]
  have t: "t \<le> u64_max" using lots by blast
  note ih = 2(1) [OF vh l(2,1) refl rest t]
  let ?all = "all_lots (h # hs)"
  have lot_ids: "rev (map sl_id ?all) @ ids = rev (map sl_id (all_lots hs)) @ ids'" using lots by simp
  have d1: "distinct ids \<longrightarrow> distinct (rev (map sl_id ?all) @ ids)"
    unfolding lot_ids using lots ih by blast
  have "distinct (sh_holder h # holders) \<longrightarrow> distinct (rev (map sh_holder hs) @ sh_holder h # holders)" using ih by blast
  then have d2: "distinct holders \<longrightarrow> distinct (rev (map sh_holder (h # hs)) @ holders)" using l(2) by simp
  have "n = acc + lots_qty ?all" "n \<le> u64_max" "\<forall>k\<in>set ?all. sl_qty k \<noteq> 0 \<and> date_le (sl_acquired_on k) day"
    "\<forall>k\<in>set (h # hs). sorted_wrt date_le (map sl_acquired_on (sh_lots k))"
    using ih lots by auto
  with d1 d2 show ?case by blast
qed auto

text \<open>What valid holdings are: a partition of the issued shares into dated lots of distinct holders.\<close>

definition holdings_ok :: "share_holding list \<Rightarrow> nat \<Rightarrow> civil_date \<Rightarrow> bool" where
  "holdings_ok hs issued day \<longleftrightarrow> 0 < issued \<and> issued \<le> u64_max \<and> lots_qty (all_lots hs) = issued
     \<and> distinct (map sh_holder hs) \<and> distinct (map sl_id (all_lots hs))
     \<and> (\<forall>l\<in>set (all_lots hs). sl_qty l \<noteq> 0 \<and> date_le (sl_acquired_on l) day)
     \<and> (\<forall>h\<in>set hs. sorted_wrt date_le (map sl_acquired_on (sh_lots h)))"

lemma validate_holdings_ok: "validate_holdings hs issued day = Inr () \<Longrightarrow> holdings_ok hs issued day"
  using validate_holders_Inr [of day "[]" "[]" 0 hs]
  by (auto simp: validate_holdings_def bind_result_Inr_iff holdings_ok_def)

lemma sum_by_holder:
  "finite K \<Longrightarrow> sh_holder ` set hs \<subseteq> K \<Longrightarrow> (\<Sum>k\<in>K. holder_qty hs k) = lots_qty (all_lots hs)"
proof (induction hs)
  case (Cons h hs)
  have "(\<Sum>k\<in>K. holder_qty (h # hs) k) = (\<Sum>k\<in>K. (if k = sh_holder h then lots_qty (sh_lots h) else 0) + holder_qty hs k)"
    by (rule sum.cong) (auto simp: holder_qty_def)
  also have "\<dots> = lots_qty (sh_lots h) + lots_qty (all_lots hs)" using Cons by (simp add: sum.distrib)
  finally show ?case by simp
qed (simp add: holder_qty_def)

subsection \<open>Valid registries\<close>

lemma validateD:
  assumes "validate r = Inr ()"
  obtains ids acquired where "\<not> blank (sr_stock r)" "validate_holdings (sr_holdings r) (sr_issued_shares r) (physical_day r) = Inr ()"
    "validate_repurchase_account (sr_repurchase_account r) (sr_settled_on r) = Inr ()"
    "try_fold (validate_receipt r) ([], None, []) (sr_receipts r) = Inr (ids, map_option receipt_day (get_before (sr_receipts r) (length (sr_receipts r))), acquired)"
    "\<not> option_is (\<lambda>d. d \<noteq> physical_day r) (map_option receipt_day (get_before (sr_receipts r) (length (sr_receipts r))))"
    "try_fold (validate_registration r) [] (sr_registrations r) = Inr (rev (map rs_event_id (sr_registrations r)))"
    "validate_settlement_bindings r = Inr ()" "validate_pending_opening r = Inr ()"
    "distinct (map receipt_id (sr_receipts r))" "distinct (map rs_event_id (sr_registrations r))"
proof -
  obtain ids prev acquired regs where v: "\<not> blank (sr_stock r)" "validate_holdings (sr_holdings r) (sr_issued_shares r) (physical_day r) = Inr ()"
    "validate_repurchase_account (sr_repurchase_account r) (sr_settled_on r) = Inr ()"
    "try_fold (validate_receipt r) ([], None, []) (sr_receipts r) = Inr (ids, prev, acquired)"
    "\<not> option_is (\<lambda>d. d \<noteq> physical_day r) prev"
    "try_fold (validate_registration r) [] (sr_registrations r) = Inr regs"
    "validate_settlement_bindings r = Inr ()" "validate_pending_opening r = Inr ()"
    using assms by (auto simp: validate_def bind_result_Inr_iff)
  have walk: "try_fold (validate_receipt r) (ids0, prev0, acq0) rcs = Inr (ids, prev, acquired) \<Longrightarrow>
      ids = rev (map receipt_id rcs) @ ids0 \<and> prev = (if rcs = [] then prev0 else Some (receipt_day (last rcs)))
      \<and> (distinct ids0 \<longrightarrow> distinct ids)" for ids0 prev0 acq0 rcs
  proof (induction rcs arbitrary: ids0 prev0 acq0)
    case (Cons rc rcs)
    from Cons.prems obtain w where w: "validate_receipt r (ids0, prev0, acq0) rc = Inr w"
      and walk: "try_fold (validate_receipt r) w rcs = Inr (ids, prev, acquired)" by (auto simp: bind_result_Inr_iff)
    from w obtain acq1 where fresh: "receipt_id rc \<notin> set ids0" and w_eq: "w = (receipt_id rc # ids0, Some (receipt_day rc), acq1)"
      by (auto simp: bind_result_Inr_iff validate_receipt_def)
    note rest = walk [unfolded w_eq]
    note ih = Cons.IH [OF rest]
    have "distinct (receipt_id rc # ids0) \<longrightarrow> distinct ids" using ih by blast
    then have "distinct ids0 \<longrightarrow> distinct ids" using fresh by simp
    moreover have "ids = rev (map receipt_id (rc # rcs)) @ ids0" "prev = (if rc # rcs = [] then prev0 else Some (receipt_day (last (rc # rcs))))"
      using ih by simp_all
    ultimately show ?case by blast
  qed simp
  have regs: "try_fold (validate_registration r) ids0 ss = Inr ids1 \<Longrightarrow>
      ids1 = rev (map rs_event_id ss) @ ids0 \<and> (distinct ids0 \<longrightarrow> distinct ids1)" for ids0 ids1 ss
  proof (induction ss arbitrary: ids0)
    case (Cons s ss)
    from Cons.prems obtain w where w: "validate_registration r ids0 s = Inr w"
      and walk: "try_fold (validate_registration r) w ss = Inr ids1" by (auto simp: bind_result_Inr_iff)
    from w have fresh: "rs_event_id s \<notin> set ids0" and w_eq: "w = rs_event_id s # ids0"
      by (auto simp: bind_result_Inr_iff validate_registration_def)
    note rest = walk [unfolded w_eq]
    note ih = Cons.IH [OF rest]
    have "distinct (rs_event_id s # ids0) \<longrightarrow> distinct ids1" using ih by blast
    then have "distinct ids0 \<longrightarrow> distinct ids1" using fresh by simp
    moreover have "ids1 = rev (map rs_event_id (s # ss)) @ ids0" using ih by simp
    ultimately show ?case by blast
  qed simp
  have "prev = map_option receipt_day (get_before (sr_receipts r) (length (sr_receipts r)))"
    using walk [OF v(4)] by (auto simp: get_before_def get_at_def last_conv_nth)
  moreover have "distinct (map receipt_id (sr_receipts r))" using walk [OF v(4)] by auto
  moreover have "regs = rev (map rs_event_id (sr_registrations r))" "distinct (map rs_event_id (sr_registrations r))"
    using regs [OF v(6)] by auto
  ultimately show thesis using v that by blast
qed

lemma receipt_found:
  assumes "distinct (map receipt_id (sr_receipts r))" "rc \<in> set (sr_receipts r)"
  shows "receipt_by_event r (receipt_id rc) = Some rc"
proof -
  have "find (\<lambda>x. receipt_id x = receipt_id rc) xs = Some rc" if "distinct (map receipt_id xs)" "rc \<in> set xs" for xs
    using that by (induction xs) (auto simp: rev_image_eqI)
  with assms show ?thesis by (simp add: receipt_by_event_def)
qed

subsection \<open>What the checks read\<close>

definition same_history :: "share_registry \<Rightarrow> share_registry \<Rightarrow> bool" where
  "same_history r r' \<longleftrightarrow> sr_receipts r' = sr_receipts r \<and> sr_stock r' = sr_stock r \<and> sr_issuer r' = sr_issuer r
     \<and> sr_holdings r' = sr_holdings r \<and> sr_issued_shares r' = sr_issued_shares r \<and> sr_settled_on r' = sr_settled_on r
     \<and> sr_pending_opening r' = sr_pending_opening r"

lemma same_history_reads:
  assumes "same_history r r'"
  shows "physical_day r' = physical_day r" "unit_at r' = unit_at r" "replay_registration_to r' = replay_registration_to r"
    "receipt_follows r' = receipt_follows r" "validate_receipt r' = validate_receipt r"
    "is_typed_movement_identity r' = is_typed_movement_identity r"
proof -
  note reads = assms [unfolded same_history_def]
  show day: "physical_day r' = physical_day r" and "unit_at r' = unit_at r"
    and "is_typed_movement_identity r' = is_typed_movement_identity r"
    by (simp_all add: physical_day_def unit_at_def is_typed_movement_identity_def fun_eq_iff reads split: option.split)
  show "replay_registration_to r' = replay_registration_to r"
    by (intro ext) (simp add: replay_registration_to_def replay_start_def reads Let_def)
  show follows: "receipt_follows r' = receipt_follows r"
    by (intro ext) (simp add: receipt_follows_def reads Let_def split: movement_scope.split)
  show "validate_receipt r' = validate_receipt r"
    by (intro ext) (simp add: validate_receipt_def day follows)
qed

lemma validate_registration_history:
  assumes "same_history r r'" "sr_repurchase_account r' = sr_repurchase_account r"
  shows "validate_registration r' = validate_registration r"
  using assms same_history_reads(3) [OF assms(1)]
  by (auto simp: same_history_def validate_registration_def fun_eq_iff)

text \<open>Appending a snapshot does not change how a known one is found.\<close>

definition more_registrations :: "share_registry \<Rightarrow> share_registry \<Rightarrow> bool" where
  "more_registrations r r' \<longleftrightarrow> same_history r r' \<and> (\<exists>ss. sr_registrations r' = sr_registrations r @ ss)"

lemma find_append_Some: "find P xs = Some x \<Longrightarrow> find P (xs @ ys) = Some x"
  by (induction xs) auto

lemma registration_kept: "more_registrations r r' \<Longrightarrow> registration r ev = Some s \<Longrightarrow> registration r' ev = Some s"
  by (auto simp: more_registrations_def registration_def intro: find_append_Some)

lemma frozen_opening_kept:
  assumes "more_registrations r r'" "validate_frozen_opening r ref index rc = Inr ()"
  shows "validate_frozen_opening r' ref index rc = Inr ()"
proof -
  have "same_history r r'" using assms(1) by (simp add: more_registrations_def)
  with assms show ?thesis
    by (auto simp: validate_frozen_opening_def bind_result_Inr_iff same_history_reads dest: registration_kept)
qed

lemma check_openings_kept:
  assumes "more_registrations r r'"
  shows "check_openings r day index u ids refs = Inr x \<Longrightarrow> check_openings r' day index u ids refs = Inr x"
proof (induction refs arbitrary: index u ids)
  case (Cons ref refs)
  have "sr_receipts r' = sr_receipts r" using assms by (simp add: more_registrations_def same_history_def)
  with Cons show ?case by (auto simp: Let_def bind_result_Inr_iff intro: frozen_opening_kept [OF assms])
qed simp

lemma check_post_actions_kept:
  assumes "more_registrations r r'"
  shows "check_post_actions r day u cursor ids captures acts = Inr x \<Longrightarrow> check_post_actions r' day u cursor ids captures acts = Inr x"
proof (induction acts arbitrary: u cursor ids captures)
  case (Cons a acts)
  have same: "same_history r r'" using assms by (simp add: more_registrations_def)
  then have "sr_receipts r' = sr_receipts r" by (simp add: same_history_def)
  note eq = this same_history_reads(2) [OF same]
  show ?case
  proof (cases a)
    case (CaptureRef ev)
    with Cons.prems obtain s where s: "registration r ev = Some s" by (auto simp: bind_result_Inr_iff)
    with CaptureRef Cons show ?thesis by (simp add: registration_kept [OF assms s] bind_result_Inr_iff eq)
  next
    case (MovementRef ev)
    with Cons show ?thesis by (simp add: bind_result_Inr_iff eq) blast
  next
    case (UnitMovementRef ev f t)
    with Cons show ?thesis by (simp add: bind_result_Inr_iff eq) blast
  qed
qed simp

lemma check_binding_kept:
  assumes "more_registrations r r'" "check_binding r index rc b = Inr ()"
    and new: "\<forall>s\<in>set (sr_registrations r'). s \<in> set (sr_registrations r) \<or> rs_registered_on s \<noteq> receipt_day rc"
  shows "check_binding r' index rc b = Inr ()"
proof -
  have same: "same_history r r'" using assms(1) by (simp add: more_registrations_def)
  have eq: "sr_receipts r' = sr_receipts r" "unit_at r' = unit_at r"
    using same same_history_reads(2) [OF same] by (simp_all add: same_history_def)
  obtain u ids cursor captures where b: "check_market_source (sb_market_source b) = Inr ()"
      "check_openings r (receipt_day rc) (df_receipt_count (sb_predecessor b)) (df_unit (sb_predecessor b)) [] (sb_opening b) = Inr (u, ids)"
      "check_post_actions r (receipt_day rc) u (Suc index) (receipt_id rc # ids) [] (sb_post b) = Inr (cursor, captures)"
    and listed: "\<not> list_ex (\<lambda>s. rs_registered_on s = receipt_day rc \<and> rs_event_id s \<notin> set captures) (sr_registrations r)"
    using assms(2) by (auto simp: check_binding_def bind_result_Inr_iff Let_def)
  have "\<not> list_ex (\<lambda>s. rs_registered_on s = receipt_day rc \<and> rs_event_id s \<notin> set captures) (sr_registrations r')"
    using listed new by (auto simp: list_ex_iff)
  with assms(2) b check_openings_kept [OF assms(1) b(2)] check_post_actions_kept [OF assms(1) b(3)] show ?thesis
    by (simp add: check_binding_def Let_def eq bind_result_Inr_iff)
qed

lemma check_bindings_kept:
  assumes "more_registrations r r'"
  shows "check_bindings r index rcs = Inr () \<Longrightarrow> \<forall>rc\<in>set rcs. scope_binding (receipt_scope rc) \<noteq> None \<longrightarrow>
      (\<forall>s\<in>set (sr_registrations r'). s \<in> set (sr_registrations r) \<or> rs_registered_on s \<noteq> receipt_day rc)
    \<Longrightarrow> check_bindings r' index rcs = Inr ()"
proof (induction rcs arbitrary: index)
  case (Cons rc rcs)
  show ?case
  proof (cases "scope_binding (receipt_scope rc)")
    case None
    with Cons show ?thesis by (simp add: bind_result_Inr_iff)
  next
    case (Some b)
    with Cons.prems have "check_binding r' index rc b = Inr ()"
      by (intro check_binding_kept [OF assms]) (simp_all add: bind_result_Inr_iff)
    with Some Cons show ?thesis by (simp add: bind_result_Inr_iff)
  qed
qed simp

lemma validate_pending_opening_kept:
  assumes "more_registrations r r'" "sr_registrations r' = sr_registrations r" "validate_pending_opening r = Inr ()"
  shows "validate_pending_opening r' = Inr ()"
proof -
  have same: "same_history r r'" using assms(1) by (simp add: more_registrations_def)
  show ?thesis
  proof (cases "sr_pending_opening r")
    case None
    with same show ?thesis by (simp add: same_history_def validate_pending_opening_def)
  next
    case (Some p)
    have eqs: "sr_receipts r' = sr_receipts r" "sr_settled_on r' = sr_settled_on r" "sr_pending_opening r' = Some p" "unit_at r' = unit_at r"
      using same Some same_history_reads(2) [OF same] by (simp_all add: same_history_def)
    have "validate_frozen_opening r (fo_reference (po_opening p)) (df_receipt_count (po_predecessor p))
        (sr_receipts r ! df_receipt_count (po_predecessor p)) = Inr ()"
      using assms(3) Some by (simp add: validate_pending_opening_def bind_result_Inr_iff Let_def)
    from frozen_opening_kept [OF assms(1) this] assms(2,3) Some show ?thesis
      by (simp add: validate_pending_opening_def bind_result_Inr_iff Let_def eqs)
  qed
qed

subsection \<open>Operations that only append or set facts keep a registry valid\<close>

lemma validateI:
  assumes "validate r = Inr ()" "more_registrations r r'"
    and "validate_repurchase_account (sr_repurchase_account r') (sr_settled_on r) = Inr ()"
    and "\<exists>ids. try_fold (validate_registration r') [] (sr_registrations r') = Inr ids"
    and "validate_settlement_bindings r' = Inr ()" "validate_pending_opening r' = Inr ()"
  shows "validate r' = Inr ()"
proof -
  have same: "same_history r r'" using assms(2) by (simp add: more_registrations_def)
  note reads = same_history_reads [OF same] same [unfolded same_history_def]
  show ?thesis using assms(1,3-6) by (auto simp: validate_def bind_result_Inr_iff reads)
qed

lemma validate_receipts_days:
  "try_fold (validate_receipt r) w rcs = Inr w' \<Longrightarrow> \<forall>rc\<in>set rcs. \<not> date_before (physical_day r) (receipt_day rc) \<and> validate_request (rc_request rc) = Inr ()"
proof (induction rcs arbitrary: w)
  case (Cons rc rcs)
  then obtain w1 where w: "validate_receipt r w rc = Inr w1" "try_fold (validate_receipt r) w1 rcs = Inr w'"
    by (auto simp: bind_result_Inr_iff)
  obtain ids previous acquired where "w = (ids, previous, acquired)" by (cases w)
  with w(1) have "\<not> date_before (physical_day r) (receipt_day rc)" "validate_request (rc_request rc) = Inr ()"
    by (simp_all add: validate_receipt_def bind_result_Inr_iff)
  with Cons.IH [OF w(2)] show ?case by simp
qed simp

lemma find_None_not_in: "find P xs = None \<Longrightarrow> x \<in> set xs \<Longrightarrow> \<not> P x"
  by (induction xs) (auto split: if_splits)

lemma settlement_bindings_kept:
  assumes "more_registrations r r'" "validate_settlement_bindings r = Inr ()"
    and ids: "\<forall>s\<in>set (sr_registrations r'). s \<in> set (sr_registrations r) \<or> \<not> is_typed_movement_identity r (rs_event_id s)"
    and days: "\<forall>rc\<in>set (sr_receipts r). scope_binding (receipt_scope rc) \<noteq> None \<longrightarrow>
      (\<forall>s\<in>set (sr_registrations r'). s \<in> set (sr_registrations r) \<or> rs_registered_on s \<noteq> receipt_day rc)"
  shows "validate_settlement_bindings r' = Inr ()"
proof -
  have same: "same_history r r'" using assms(1) by (simp add: more_registrations_def)
  then have receipts: "sr_receipts r' = sr_receipts r" by (simp add: same_history_def)
  have old: "find (\<lambda>s. is_typed_movement_identity r (rs_event_id s)) (sr_registrations r) = None"
    and bindings: "check_bindings r 0 (sr_receipts r) = Inr ()"
    using assms(2) by (auto simp: validate_settlement_bindings_def split: option.splits)
  have "find (\<lambda>s. is_typed_movement_identity r (rs_event_id s)) (sr_registrations r') = None"
    using ids find_None_not_in [OF old] by (auto simp: find_None_iff)
  with check_bindings_kept [OF assms(1) bindings days] show ?thesis
    by (simp add: validate_settlement_bindings_def same_history_reads [OF same] receipts)
qed

text \<open>A snapshot taken now passes the checks of a registration.\<close>

lemma replay_now:
  assumes "\<not> option_is (\<lambda>d. d \<noteq> sr_settled_on r) (map_option receipt_day (get_before (sr_receipts r) (length (sr_receipts r))))"
    and "validate_snapshot (snapshot_now ev r) = Inr ()"
  shows "replay_registration_to r (snapshot_now ev r) (length (sr_receipts r)) = Inr (replay_start r (snapshot_now ev r))"
proof -
  have "\<not> option_is (\<lambda>rc. receipt_day rc \<noteq> sr_settled_on r) (get_before (sr_receipts r) (length (sr_receipts r)))"
    using assms(1) by (cases "get_before (sr_receipts r) (length (sr_receipts r))") auto
  with assms(2) show ?thesis
    by (simp add: replay_registration_to_def Let_def snapshot_now_def replay_start_def get_at_def)
qed

lemma snapshot_now_valid:
  assumes "validate r = Inr ()" "sr_pending_opening r = None" "\<not> blank ev"
  shows "validate_snapshot (snapshot_now ev r) = Inr ()"
  using assms by (auto elim!: validateD simp: validate_snapshot_def snapshot_now_def physical_day_def)

lemma register_new_valid:
  assumes valid: "validate r = Inr ()" and pending: "sr_pending_opening r = None" and ev: "\<not> blank ev"
    and fresh: "registration r ev = None" "\<not> is_typed_movement_identity r ev"
    and untyped: "\<not> list_ex (\<lambda>rc. receipt_day rc = sr_settled_on r \<and> scope_binding (receipt_scope rc) \<noteq> None) (sr_receipts r)"
  shows "validate (r\<lparr>sr_registrations := sr_registrations r @ [snapshot_now ev r]\<rparr>) = Inr ()"
    (is "validate ?r = _")
proof -
  let ?s = "snapshot_now ev r"
  have more: "more_registrations r ?r" by (simp add: more_registrations_def same_history_def)
  have same: "same_history r ?r" by (simp add: same_history_def)
  have snap: "validate_snapshot ?s = Inr ()" by (rule snapshot_now_valid [OF valid pending ev])
  obtain ids acquired where v: "validate_holdings (sr_holdings r) (sr_issued_shares r) (physical_day r) = Inr ()"
    "validate_repurchase_account (sr_repurchase_account r) (sr_settled_on r) = Inr ()"
    "\<not> option_is (\<lambda>d. d \<noteq> physical_day r) (map_option receipt_day (get_before (sr_receipts r) (length (sr_receipts r))))"
    "try_fold (validate_registration r) [] (sr_registrations r) = Inr (rev (map rs_event_id (sr_registrations r)))"
    "validate_settlement_bindings r = Inr ()" "validate_pending_opening r = Inr ()"
    using valid by (rule validateD)
  have day: "physical_day r = sr_settled_on r" using pending by (simp add: physical_day_def)
  have replay: "replay_registration_to r ?s (length (sr_receipts r)) = Inr (replay_start r ?s)"
    by (rule replay_now) (use v(3) snap in \<open>simp_all add: day\<close>)
  have issued: "sr_issued_shares r \<le> u64_max" using validate_holdings_ok [OF v(1)] by (simp add: holdings_ok_def)
  then have amounts: "checked_i128 (int (sr_issued_shares r)) = Some (int (sr_issued_shares r))"
    "quantity_of_change (int (sr_issued_shares r)) = Some (sr_issued_shares r)"
    by (simp_all add: checked_i128_def in_i128_def quantity_of_change_def)
  have ev_new: "ev \<notin> set (rev (map rs_event_id (sr_registrations r)))"
    using find_None_not_in [OF fresh(1) [unfolded registration_def]] by auto
  have account: "(case sr_repurchase_account r of None \<Rightarrow> None
      | Some f \<Rightarrow> if date_le (rf_established_on f) (rs_registered_on ?s) then Some f else None) = sr_repurchase_account r"
    using v(2) by (auto simp: snapshot_now_def validate_repurchase_account_def date_le_iff split: option.splits)
  have irrefl: "\<not> date_before d d" for d by (simp add: date_before_def)
  have last: "validate_registration r (rev (map rs_event_id (sr_registrations r))) ?s = Inr (ev # rev (map rs_event_id (sr_registrations r)))"
    unfolding validate_registration_def snap replay account
    using ev ev_new v(1) by (simp add: issued_since_def snapshot_now_def amounts day irrefl)
  have "try_fold (validate_registration ?r) [] (sr_registrations ?r) = Inr (ev # rev (map rs_event_id (sr_registrations r)))"
    using v(4) last validate_registration_history [OF same] by (simp add: try_fold_append)
  moreover have "validate_settlement_bindings ?r = Inr ()"
    by (rule settlement_bindings_kept [OF more v(5)]) (use fresh untyped in \<open>auto simp: snapshot_now_def list_ex_iff\<close>)
  moreover have "validate_pending_opening ?r = Inr ()" by (simp add: validate_pending_opening_def pending)
  ultimately show ?thesis using v(2) by (intro validateI [OF valid more]) simp_all
qed

lemma set_account_valid:
  assumes valid: "validate r = Inr ()" and none: "sr_repurchase_account r = None"
    and facts: "validate_repurchase_account (Some facts) (sr_settled_on r) = Inr ()"
    and later: "\<not> list_ex (\<lambda>s. date_le (rf_established_on facts) (rs_registered_on s)) (sr_registrations r)"
  shows "validate (r\<lparr>sr_repurchase_account := Some facts\<rparr>) = Inr ()" (is "validate ?r = _")
proof -
  have more: "more_registrations r ?r" by (simp add: more_registrations_def same_history_def)
  have same: "same_history r ?r" by (simp add: same_history_def)
  obtain ids acquired where v: "try_fold (validate_registration r) [] (sr_registrations r) = Inr (rev (map rs_event_id (sr_registrations r)))"
    "validate_settlement_bindings r = Inr ()" "validate_pending_opening r = Inr ()"
    using valid by (rule validateD)
  have one: "validate_registration ?r ids0 s = validate_registration r ids0 s"
    if "s \<in> set (sr_registrations r)" for ids0 s
    using that later none by (auto simp: validate_registration_def same_history_reads [OF same] list_ex_iff)
  have "try_fold (validate_registration ?r) ids0 ss = try_fold (validate_registration r) ids0 ss"
    if "set ss \<subseteq> set (sr_registrations r)" for ids0 ss
    using that by (induction ss arbitrary: ids0) (auto simp: one)
  then have "try_fold (validate_registration ?r) [] (sr_registrations ?r) = Inr (rev (map rs_event_id (sr_registrations r)))"
    using v(1) by simp
  moreover have "validate_settlement_bindings ?r = Inr ()"
    by (rule settlement_bindings_kept [OF more v(2)]) auto
  moreover have "validate_pending_opening ?r = Inr ()"
    by (rule validate_pending_opening_kept [OF more _ v(3)]) simp
  ultimately show ?thesis using facts by (intro validateI [OF valid more]) simp_all
qed

end
