(* ===== verification/Share_Properties.thy ===== *)
theory Share_Properties
  imports Share_Laws
begin

section \<open>The share registry: properties\<close>

text \<open>
  The registry as a machine whose commands are its public operations, and what holds in every state
  it reaches: the lots add up, a settlement day moves exactly what its request says, retries change
  nothing, and every registration, replayed through the later receipts, gives the current holdings.
\<close>

subsection \<open>The machine\<close>

datatype registry_command =
    Close_Day share_day_request
  | Register ustring civil_date
  | Set_Account repurchase_account_facts
  | Open_Day share_day_frontier frozen_opening_movement
  | Settle_Day share_settlement_day market_context

definition keep_or :: "share_registry \<Rightarrow> registry_error + share_registry \<Rightarrow> share_registry" where
  "keep_or r res = (case res of Inl _ \<Rightarrow> r | Inr r' \<Rightarrow> r')"

fun run_registry :: "registry_command \<Rightarrow> share_registry \<Rightarrow> share_registry" where
  "run_registry (Close_Day q) r = snd (close_day q r)"
| "run_registry (Register ev day) r = snd (register ev day r)"
| "run_registry (Set_Account facts) r = snd (set_issuer_repurchase_account facts r)"
| "run_registry (Open_Day predecessor frozen) r = keep_or r (prepare_opening_movement predecessor frozen r)"
| "run_registry (Settle_Day d x) r = keep_or r (prepare_settlement_day d x r)"

text \<open>A new registration is not asked for between an opening and its day.\<close>

fun admissible :: "registry_command \<Rightarrow> share_registry \<Rightarrow> bool" where
  "admissible (Register ev day) r = (sr_pending_opening r = None \<or> registration r ev \<noteq> None)"
| "admissible _ r = True"

inductive reachable :: "share_registry \<Rightarrow> bool" where
  created: "new_registry stock issuer issued day hs = Inr r \<Longrightarrow> reachable r"
| commanded: "reachable r \<Longrightarrow> admissible c r \<Longrightarrow> reachable (run_registry c r)"

inductive_cases reachable_cases: "reachable r"

subsection \<open>What the operations return\<close>

lemma close_day_cases:
  assumes "close_day q r = (res, r')"
  obtains (unchanged) "r' = r" "(\<exists>e. res = Inl e) \<or> (\<exists>rc. res = Inr rc \<and> receipt_by_event r (dq_event_id q) = Some rc \<and> rc_request rc = q)"
  | (closed) rc candidate where "res = Inr rc" "receipt_by_event r (dq_event_id q) = None" "scope_binding (dq_scope q) = None"
      "apply_movement r q = Inr (candidate, rc)" "validate r' = Inr ()"
      "r' = (if dq_day q = sr_settled_on r \<and> issues_shares (dq_scope q) then candidate else candidate\<lparr>sr_settled_on := dq_day q\<rparr>)"
      "dq_day q = sr_settled_on r \<and> issues_shares (dq_scope q) \<or> days_since (dq_day q) (sr_settled_on r) = 1"
proof (cases "scope_binding (dq_scope q) = None \<and> receipt_by_event r (dq_event_id q) = None")
  case False
  then show thesis using assms unchanged unfolding close_day_def by (cases "receipt_by_event r (dq_event_id q)") (auto split: if_splits)
next
  case True
  let ?same = "dq_day q = sr_settled_on r \<and> issues_shares (dq_scope q)"
  show thesis
  proof (cases res)
    case (Inl e)
    with assms True show thesis
      by (intro unchanged) (auto simp: close_day_def try_in_def Let_def split: sum.splits prod.splits if_splits)
  next
    case (Inr rc)
    have body: "try_in (validate_request q) r (\<lambda>_. try_in (fresh_acquisitions r (dq_changes q)) r (\<lambda>_.
        if \<not> ?same \<and> days_since (dq_day q) (sr_settled_on r) \<noteq> 1
        then (Inl (InvalidFact ''day settlement must follow the previous natural day''), r)
        else try_in (apply_movement r q) r (\<lambda>(candidate, rc).
          let candidate = (if ?same then candidate else candidate\<lparr>sr_settled_on := receipt_day rc\<rparr>) in
          try_in (validate candidate) r (\<lambda>_. (Inr rc, candidate))))) = (Inr rc, r')"
      using assms True Inr unfolding close_day_def Let_def by simp
    then obtain candidate rc0 where applied: "apply_movement r q = Inr (candidate, rc0)"
      and day: "?same \<or> days_since (dq_day q) (sr_settled_on r) = 1"
      and tail: "try_in (validate (if ?same then candidate else candidate\<lparr>sr_settled_on := receipt_day rc0\<rparr>)) r
          (\<lambda>_. (Inr rc0, if ?same then candidate else candidate\<lparr>sr_settled_on := receipt_day rc0\<rparr>)) = (Inr rc, r')"
      by (auto simp: try_in_ok_iff Let_def split: if_split_asm)
    have "rc_request rc0 = q" using apply_movement_moves [OF applied] by (simp add: moves_def)
    then have r': "r' = (if ?same then candidate else candidate\<lparr>sr_settled_on := dq_day q\<rparr>)" and "rc0 = rc"
      and valid: "validate r' = Inr ()"
      using tail by (auto simp: try_in_ok_iff)
    with applied have "apply_movement r q = Inr (candidate, rc)" by simp
    from closed [OF Inr _ _ this valid r' day] True show thesis by simp
  qed
qed

lemma register_cases:
  assumes "register ev day r = (res, r')"
  obtains (unchanged) "r' = r" "(\<exists>e. res = Inl e) \<or> (\<exists>s. res = Inr s \<and> registration r ev = Some s \<and> rs_registered_on s = day)"
  | (registered) "res = Inr (snapshot_now ev r)" "r' = r\<lparr>sr_registrations := sr_registrations r @ [snapshot_now ev r]\<rparr>"
      "registration r ev = None" "\<not> blank ev" "day = sr_settled_on r" "\<not> is_typed_movement_identity r ev" "validate r = Inr ()"
      "\<not> list_ex (\<lambda>rc. receipt_day rc = sr_settled_on r \<and> scope_binding (receipt_scope rc) \<noteq> None) (sr_receipts r)"
proof (cases "registration r ev")
  case (Some s)
  with assms show thesis by (intro unchanged) (auto simp: register_def split: if_splits)
next
  case None
  show thesis
  proof (cases res)
    case (Inl e)
    with assms None show thesis by (intro unchanged) (auto simp: register_def try_in_def Let_def split: if_splits sum.splits)
  next
    case (Inr s)
    with assms None show thesis
      by (intro registered) (auto simp: register_def try_in_ok_iff Let_def split: if_split_asm)
  qed
qed

lemma prepare_opening_movement_Inr:
  "prepare_opening_movement predecessor frozen r = Inr r' \<Longrightarrow> validate r' = Inr ()"
  by (auto simp: prepare_opening_movement_def Let_def bind_result_Inr_iff)

lemma prepare_settlement_day_Inr:
  "prepare_settlement_day d x r = Inr r' \<Longrightarrow> validate r' = Inr () \<and> validate_market_sources r' x = Inr ()"
  unfolding prepare_settlement_day_def map_error_Inr_iff bind_result_Inr_iff
  by (auto simp: bind_result_Inr_iff check_retry_def split: option.splits)

lemma command_valid:
  assumes "validate r = Inr ()" "admissible c r"
  shows "validate (run_registry c r) = Inr ()"
proof (cases c)
  case (Close_Day q)
  obtain res r' where q: "close_day q r = (res, r')" by (cases "close_day q r")
  then have "validate r' = Inr ()" by (rule close_day_cases) (use assms in auto)
  with Close_Day q show ?thesis by simp
next
  case (Register ev day)
  obtain res r' where q: "register ev day r = (res, r')" by (cases "register ev day r")
  then have "validate r' = Inr ()"
  proof (cases rule: register_cases)
    case registered
    with assms Register have "sr_pending_opening r = None" by simp
    with registered show ?thesis using register_new_valid [OF assms(1)] by simp
  qed (simp add: assms)
  with Register q show ?thesis by simp
next
  case (Set_Account facts)
  show ?thesis
  proof (cases "sr_repurchase_account r = None \<and> validate_repurchase_account (Some facts) (sr_settled_on r) = Inr ()
      \<and> \<not> list_ex (\<lambda>s. date_le (rf_established_on facts) (rs_registered_on s)) (sr_registrations r)")
    case True
    with set_account_valid [OF assms(1)] Set_Account show ?thesis by (simp add: set_issuer_repurchase_account_def)
  next
    case False
    then have "snd (set_issuer_repurchase_account facts r) = r"
      by (auto simp: set_issuer_repurchase_account_def try_in_def split: option.splits sum.splits)
    with Set_Account assms show ?thesis by simp
  qed
next
  case (Open_Day predecessor frozen)
  with assms show ?thesis by (auto simp: keep_or_def dest: prepare_opening_movement_Inr split: sum.splits)
next
  case (Settle_Day d x)
  with assms show ?thesis by (auto simp: keep_or_def dest: prepare_settlement_day_Inr split: sum.splits)
qed

lemma reachable_valid: "reachable r \<Longrightarrow> validate r = Inr ()"
  by (induction rule: reachable.induct) (auto simp: new_registry_def Let_def bind_result_Inr_iff command_valid)


subsection \<open>Receipts that a complete day leaves\<close>

lemma each_of_Inr: "each_of f xs = Inr () \<longleftrightarrow> (\<forall>x\<in>set xs. f x = Inr ())"
  by (induction xs) (auto simp: bind_result_Inr_iff)

lemma apply_movement_receipts:
  assumes "apply_movement r q = Inr (r', rc)"
  shows "sr_receipts r' = sr_receipts r @ [rc]" "rc_request rc = q" "sr_registrations r' = sr_registrations r"
    "sr_pending_opening r' = sr_pending_opening r" "sr_settled_on r' = sr_settled_on r" "sr_repurchase_account r' = sr_repurchase_account r"
    "sr_stock r' = sr_stock r" "sr_issuer r' = sr_issuer r"
proof -
  have "rc_request rc = q"
    and frame: "r' = r\<lparr>sr_holdings := sr_holdings r', sr_issued_shares := sr_issued_shares r', sr_receipts := sr_receipts r @ [rc]\<rparr>"
    using apply_movement_moves [OF assms] unfolding moves_def by blast+
  then show "rc_request rc = q" by simp
  show "sr_receipts r' = sr_receipts r @ [rc]" "sr_registrations r' = sr_registrations r"
    "sr_pending_opening r' = sr_pending_opening r" "sr_settled_on r' = sr_settled_on r" "sr_repurchase_account r' = sr_repurchase_account r"
    "sr_stock r' = sr_stock r" "sr_issuer r' = sr_issuer r"
    by (subst frame, simp)+
qed

text \<open>The requests that have a receipt.\<close>

definition stored_requests :: "share_registry \<Rightarrow> share_day_request set" where
  "stored_requests r = rc_request ` set (sr_receipts r)"

lemma apply_movement_stores:
  "apply_movement r q = Inr (r', rc) \<Longrightarrow> stored_requests r' = insert q (stored_requests r)"
  by (simp add: stored_requests_def apply_movement_receipts)

lemma apply_openings_store:
  "try_fold (apply_opening d) (r, ids) ops = Inr (r', ids') \<Longrightarrow> stored_requests r' = stored_requests r \<union> fo_request ` set ops"
proof (induction ops arbitrary: r ids)
  case (Cons op ops)
  then obtain r1 ids1 where step: "apply_opening d (r, ids) op = Inr (r1, ids1)"
    and rest: "try_fold (apply_opening d) (r1, ids1) ops = Inr (r', ids')" by (auto simp: bind_result_Inr_iff)
  from step obtain rc where "apply_movement r (fo_request op) = Inr (r1, rc)"
    by (auto simp: bind_result_Inr_iff apply_opening_def Let_def)
  then have "stored_requests r1 = insert (fo_request op) (stored_requests r)" by (simp add: apply_movement_stores)
  with Cons.IH [OF rest] show ?case by auto
qed simp

lemma apply_posts_store:
  "try_fold (apply_post_action d) (r, ids) acts = Inr (r', ids') \<Longrightarrow>
     stored_requests r' = stored_requests r \<union> set (List.map_filter post_movement acts)"
proof (induction acts arbitrary: r ids)
  case (Cons a acts)
  then obtain r1 ids1 where step: "apply_post_action d (r, ids) a = Inr (r1, ids1)"
    and rest: "try_fold (apply_post_action d) (r1, ids1) acts = Inr (r', ids')" by (auto simp: bind_result_Inr_iff)
  have "stored_requests r1 = stored_requests r \<union> set (List.map_filter post_movement [a])"
    using step by (cases a) (auto simp: apply_post_movement_def bind_result_Inr_iff apply_movement_stores stored_requests_def List.map_filter_def
        dest!: apply_movement_stores)
  with Cons.IH [OF rest] show ?case by (auto simp: List.map_filter_def)
qed (simp add: List.map_filter_def)

lemma pending_stored:
  assumes "validate r = Inr ()" "sr_pending_opening r = Some p"
  shows "fo_request (po_opening p) \<in> stored_requests r"
proof -
  let ?i = "df_receipt_count (po_predecessor p)"
  have "validate_pending_opening r = Inr ()" using assms(1) by (rule validateD)
  with assms(2) have "?i + 1 = length (sr_receipts r)" "rc_request (sr_receipts r ! ?i) = fo_request (po_opening p)"
    by (simp_all add: validate_pending_opening_def Let_def bind_result_Inr_iff)
  then show ?thesis unfolding stored_requests_def by (metis imageI less_add_one nth_mem)
qed

lemma apply_day_stores:
  assumes "apply_day d r = Inr r'" "validate r = Inr ()"
  shows "insert (market_request d) (fo_request ` set (sd_opening d) \<union> set (List.map_filter post_movement (sd_post_actions d))) \<subseteq> stored_requests r'"
proof -
  let ?ids = "map receipt_id (sr_receipts r) @ map rs_event_id (sr_registrations r)"
  obtain r1 ids1 r2 rc r3 ids3 where opened: "(case sr_pending_opening r of
         Some p \<Rightarrow> if sd_opening d \<noteq> [po_opening p] then Inl (InvalidFact ''settlement opening differs from pending suffix'')
                 else Inr (r\<lparr>sr_pending_opening := None\<rparr>, ?ids)
       | None \<Rightarrow> try_fold (apply_opening d) (r, ?ids) (sd_opening d)) = Inr (r1, ids1)"
    and market: "apply_movement r1 (market_request d) = Inr (r2, rc)"
    and posts: "try_fold (apply_post_action d) (r2, dq_event_id (market_request d) # ids1) (sd_post_actions d) = Inr (r3, ids3)"
    and r': "r' = r3\<lparr>sr_settled_on := sd_day d\<rparr>"
    using assms(1) by (auto simp: apply_day_def Let_def bind_result_Inr_iff)
  have "fo_request ` set (sd_opening d) \<subseteq> stored_requests r1"
  proof (cases "sr_pending_opening r")
    case None
    with opened show ?thesis by (auto dest: apply_openings_store)
  next
    case (Some p)
    with opened pending_stored [OF assms(2) Some] show ?thesis by (auto simp: stored_requests_def split: if_splits)
  qed
  moreover have "stored_requests r' = stored_requests r3" by (simp add: stored_requests_def r')
  ultimately show ?thesis using apply_movement_stores [OF market] apply_posts_store [OF posts] by auto
qed

lemma apply_day_stock:
  assumes "apply_day d r = Inr r'"
  shows "sr_stock r' = sr_stock r"
proof -
  have openings: "try_fold (apply_opening d) (r, ids) ops = Inr (r1, ids1) \<Longrightarrow> sr_stock r1 = sr_stock r" for r ids ops r1 ids1
  proof (induction ops arbitrary: r ids)
    case (Cons op ops)
    then obtain r2 ids2 where step: "apply_opening d (r, ids) op = Inr (r2, ids2)"
      and rest: "try_fold (apply_opening d) (r2, ids2) ops = Inr (r1, ids1)" by (auto simp: bind_result_Inr_iff)
    from step have "sr_stock r2 = sr_stock r" by (auto simp: bind_result_Inr_iff apply_opening_def Let_def apply_movement_receipts)
    with Cons.IH [OF rest] show ?case by simp
  qed simp
  have posts: "try_fold (apply_post_action d) (r, ids) acts = Inr (r1, ids1) \<Longrightarrow> sr_stock r1 = sr_stock r" for r ids acts r1 ids1
  proof (induction acts arbitrary: r ids)
    case (Cons a acts)
    then obtain r2 ids2 where step: "apply_post_action d (r, ids) a = Inr (r2, ids2)"
      and rest: "try_fold (apply_post_action d) (r2, ids2) acts = Inr (r1, ids1)" by (auto simp: bind_result_Inr_iff)
    from step have "sr_stock r2 = sr_stock r"
      by (cases a) (auto simp: bind_result_Inr_iff apply_post_movement_def apply_movement_receipts)
    with Cons.IH [OF rest] show ?case by simp
  qed simp
  show ?thesis using assms
    by (auto simp: apply_day_def Let_def bind_result_Inr_iff apply_movement_receipts(7) dest!: openings posts
        split: option.splits if_splits)
qed

lemma stored_found:
  assumes "validate r = Inr ()" "q \<in> stored_requests r"
  shows "stored_as r q"
proof -
  obtain rc where rc: "rc \<in> set (sr_receipts r)" "q = rc_request rc" using assms(2) by (auto simp: stored_requests_def)
  have "distinct (map receipt_id (sr_receipts r))" using assms(1) by (rule validateD)
  from receipt_found [OF this rc(1)] rc(2) show ?thesis by (simp add: stored_as_def)
qed


lemma replay_receipts_sums:
  "replay_receipts r rcs = Inr r' \<Longrightarrow>
     int (holder_qty (sr_holdings r') k) = int (holder_qty (sr_holdings r) k) + sum_list (map (\<lambda>rc. change_of k (dq_changes (rc_request rc))) rcs)
     \<and> int (sr_issued_shares r') = int (sr_issued_shares r) + sum_list (map (\<lambda>rc. net_change (dq_changes (rc_request rc))) rcs)"
proof (induction rcs arbitrary: r)
  case (Cons rc rcs)
  then obtain r1 where step: "apply_movement r (rc_request rc) = Inr (r1, rc)" and rest: "replay_receipts r1 rcs = Inr r'"
    by (auto simp: bind_result_Inr_iff split: if_splits)
  have "moves r (rc_request rc) r1 rc" by (rule apply_movement_moves [OF step])
  then have "int (holder_qty (sr_holdings r1) k) = int (holder_qty (sr_holdings r) k) + change_of k (dq_changes (rc_request rc))"
    "int (sr_issued_shares r1) = int (sr_issued_shares r) + net_change (dq_changes (rc_request rc))"
    by (simp_all add: moves_def)
  with Cons.IH [OF rest] show ?case by simp
qed simp

lemma registrations_checked:
  assumes "validate r = Inr ()" "s \<in> set (sr_registrations r)"
  shows "\<exists>ids ids'. validate_registration r ids s = Inr ids'"
proof -
  have "try_fold (validate_registration r) ids ss = Inr ids' \<Longrightarrow> s \<in> set ss \<Longrightarrow> \<exists>a b. validate_registration r a s = Inr b" for ids ids' ss
    by (induction ss arbitrary: ids) (auto simp: bind_result_Inr_iff)
  moreover have "try_fold (validate_registration r) [] (sr_registrations r) = Inr (rev (map rs_event_id (sr_registrations r)))"
    using assms(1) by (rule validateD)
  ultimately show ?thesis using assms(2) by blast
qed

subsection \<open>The samples of the witnesses\<close>

definition sample_day :: "nat \<Rightarrow> civil_date" where
  "sample_day d = \<lparr>cd_year = 2026, cd_month = 1, cd_day = d\<rparr>"

definition sample_holdings :: "share_holding list" where
  "sample_holdings = [\<lparr>sh_holder = AccountHolder 1, sh_lots = [\<lparr>sl_id = [65], sl_qty = 100, sl_acquired_on = sample_day 2,
     sl_source = InitialAllocation [69], sl_restriction = Unrestricted\<rparr>]\<rparr>]"

definition sample_registry :: share_registry where
  "sample_registry = \<lparr>sr_stock = [83], sr_issuer = 1, sr_issued_shares = 100, sr_repurchase_account = None,
     sr_settled_on = sample_day 5, sr_holdings = sample_holdings, sr_receipts = [], sr_registrations = [], sr_pending_opening = None\<rparr>"

definition sample_request :: share_day_request where
  "sample_request = \<lparr>dq_event_id = [77], dq_day = sample_day 6, dq_scope = PublicMarket, dq_changes =
     [\<lparr>nc_holder = AccountHolder 1, nc_change = -40, nc_acquisition = None, nc_consume = None\<rparr>,
      \<lparr>nc_holder = AccountHolder 2, nc_change = 40, nc_acquisition = Some \<lparr>na_lot_id = [66], na_source = SecondaryMarket [84],
         na_restriction = Unrestricted\<rparr>, nc_consume = None\<rparr>]\<rparr>"

definition sample_receipt :: share_day_receipt where
  "sample_receipt = \<lparr>rc_request = sample_request, rc_disposals = [\<lparr>dl_holder = AccountHolder 1, dl_lot = \<lparr>sl_id = [65], sl_qty = 40,
     sl_acquired_on = sample_day 2, sl_source = InitialAllocation [69], sl_restriction = Unrestricted\<rparr>, dl_disposed_on = sample_day 6\<rparr>]\<rparr>"

definition sample_snapshot :: registration_snapshot where
  "sample_snapshot = snapshot_now [82] sample_registry"

definition sample_registered :: share_registry where
  "sample_registered = sample_registry\<lparr>sr_registrations := [sample_snapshot]\<rparr>"

definition sample_closed :: share_registry where
  "sample_closed = sample_registered\<lparr>sr_settled_on := sample_day 6, sr_receipts := [sample_receipt], sr_holdings :=
     [\<lparr>sh_holder = AccountHolder 1, sh_lots = [\<lparr>sl_id = [65], sl_qty = 60, sl_acquired_on = sample_day 2,
        sl_source = InitialAllocation [69], sl_restriction = Unrestricted\<rparr>]\<rparr>,
      \<lparr>sh_holder = AccountHolder 2, sh_lots = [\<lparr>sl_id = [66], sl_qty = 40, sl_acquired_on = sample_day 6,
        sl_source = SecondaryMarket [84], sl_restriction = Unrestricted\<rparr>]\<rparr>]\<rparr>"

lemmas check_evals = Let_def option_is_def refuse_if_def checked_u64_def checked_i128_def in_i128_def quantity_of_change_def
  blank_def utrim_def unicode_whitespace_def date_before_def date_le_def physical_day_def days_since_def day_number_def
  days_from_civil_def get_at_def get_before_def find_holding_def acquired_lot_def has_lot_id_def locked_on_def
  validate_holder_def validate_source_def validate_lot_def validate_holdings_def validate_repurchase_account_def
  validate_snapshot_def validate_request_def check_net_def check_acquisition_def

lemmas registry_evals = check_evals validate_def validate_settlement_bindings_def validate_pending_opening_def
  validate_receipt_def receipt_follows_def validate_registration_def replay_registration_to_def replay_start_def issued_since_def
  is_typed_movement_identity_def typed_ids_def tally_change_def tally_disposal_def tally_selection_def check_disposal_def
  or_zero_def or_empty_def fresh_acquisitions_def apply_movement_def apply_change_def apply_reduction_def apply_acquisition_def
  reduce_lots_def issued_after_def net_change_def registration_def receipt_by_event_def

lemmas sample_defs = sample_registered_def sample_closed_def sample_registry_def sample_holdings_def sample_snapshot_def
  sample_request_def sample_receipt_def sample_day_def snapshot_now_def

lemma sample_created: "new_registry [83] 1 100 (sample_day 5) sample_holdings = Inr sample_registry"
  by (simp add: new_registry_def registry_evals sample_defs)

lemma sample_register: "register [82] (sample_day 5) sample_registry = (Inr sample_snapshot, sample_registered)"
  by (simp add: register_def registry_evals sample_defs)

lemma sample_close: "close_day sample_request sample_registered = (Inr sample_receipt, sample_closed)"
  by (simp add: close_day_def registry_evals sample_defs)

lemma sample_reachable: "reachable sample_registry" "reachable sample_registered" "reachable sample_closed"
proof -
  show a: "reachable sample_registry" by (rule reachable.created [OF sample_created])
  have "admissible (Register [82] (sample_day 5)) sample_registry" by (simp add: sample_registry_def)
  from reachable.commanded [OF a this] show b: "reachable sample_registered" by (simp add: sample_register)
  from reachable.commanded [OF b, of "Close_Day sample_request"] show "reachable sample_closed" by (simp add: sample_close)
qed


definition sample_opening :: frozen_opening_movement where
  "sample_opening = \<lparr>fo_reference = \<lparr>om_movement_event = [79], om_registration_event = [82], om_source_lots = [[[65]]],
       om_from_unit = InitialUnit, om_to_unit = InitialUnit\<rparr>,
     fo_request = \<lparr>dq_event_id = [79], dq_day = sample_day 6, dq_scope = NonTradingTransfer [76], dq_changes =
       [\<lparr>nc_holder = AccountHolder 1, nc_change = 10, nc_acquisition = Some \<lparr>na_lot_id = [67], na_source = CorporateAction [79],
         na_restriction = Unrestricted\<rparr>, nc_consume = None\<rparr>]\<rparr>\<rparr>"

definition sample_pending :: share_registry where
  "sample_pending = sample_registered\<lparr>sr_issued_shares := 110, sr_holdings :=
       [\<lparr>sh_holder = AccountHolder 1, sh_lots = [\<lparr>sl_id = [65], sl_qty = 100, sl_acquired_on = sample_day 2,
          sl_source = InitialAllocation [69], sl_restriction = Unrestricted\<rparr>,
        \<lparr>sl_id = [67], sl_qty = 10, sl_acquired_on = sample_day 6, sl_source = CorporateAction [79], sl_restriction = Unrestricted\<rparr>]\<rparr>],
     sr_receipts := [\<lparr>rc_request = fo_request sample_opening, rc_disposals = []\<rparr>],
     sr_pending_opening := Some \<lparr>po_predecessor = settlement_frontier sample_registered, po_opening = sample_opening\<rparr>\<rparr>"

definition sample_context :: market_context where
  "sample_context = \<lparr>mx_calendar = sample_policy, mx_exchange = Sse, mx_confirmations =
       [\<lparr>mf_account = 1, mf_receipt_id = 1, mf_stock = [83], mf_day = sample_day 6, mf_side = Sell, mf_qty = 40\<rparr>,
        \<lparr>mf_account = 2, mf_receipt_id = 2, mf_stock = [83], mf_day = sample_day 6, mf_side = Buy, mf_qty = 40\<rparr>],
     mx_treasury_account = None, mx_completed_through = Some (sample_day 6)\<rparr>"

definition sample_settlement :: share_settlement_day where
  "sample_settlement = \<lparr>sd_stock = [83], sd_day = sample_day 6, sd_predecessor = settlement_frontier sample_registered,
     sd_opening = [], sd_market_close = \<lparr>mc_unit = InitialUnit, mc_source = FinalConfirmations
       [\<lparr>cf_account = 1, cf_receipt_id = 1\<rparr>, \<lparr>cf_account = 2, cf_receipt_id = 2\<rparr>], mc_request = sample_request\<rparr>,
     sd_post_actions = [PostCapture [81]]\<rparr>"

lemmas settlement_evals = registry_evals settlement_frontier_def unit_at_def prepare_opening_movement_def opening_scope_matches_def
  opening_changes_match_def check_transition_def validate_frozen_opening_def check_source_group_def inherited_restriction_def
  check_binding_def check_market_source_def prepare_settlement_day_def validate_market_sources_def check_market_receipt_def
  check_confirmations_def confirmed_net_def confirmed_holder_def signed_qty_def or_zero_int_def collected_change_def
  check_opening_requests_def apply_day_def market_request_def day_binding_def map_filter_simps

lemma sample_trading: "is_trading_day sample_policy Sse (sample_day 6) = Inr True"
  by code_simp

lemma sample_frontier: "settlement_frontier sample_registered
    = \<lparr>df_settled_on = sample_day 5, df_receipt_count = 0, df_unit = InitialUnit\<rparr>"
  by (simp add: settlement_frontier_def unit_at_def sample_registered_def sample_registry_def)

lemma sample_opening_applied:
  "apply_movement sample_registered (fo_request sample_opening)
    = Inr (sample_pending\<lparr>sr_pending_opening := None\<rparr>, \<lparr>rc_request = fo_request sample_opening, rc_disposals = []\<rparr>)"
  by (simp add: registry_evals sample_defs sample_opening_def sample_pending_def)

lemma sample_pending_valid: "validate sample_pending = Inr ()"
  unfolding sample_pending_def sample_frontier
  by (simp add: settlement_evals sample_defs sample_opening_def)

lemma sample_open: "prepare_opening_movement (settlement_frontier sample_registered) sample_opening sample_registered = Inr sample_pending"
proof -
  have valid: "validate sample_registered = Inr ()" by (rule reachable_valid [OF sample_reachable(2)])
  have "sr_pending_opening sample_registered = None"
    "days_since (dq_day (fo_request sample_opening)) (sr_settled_on sample_registered) = 1"
    "dq_event_id (fo_request sample_opening) = om_movement_event (fo_reference sample_opening)"
    "opening_scope_matches (dq_scope (fo_request sample_opening)) (fo_reference sample_opening)"
    "opening_changes_match (fo_request sample_opening)"
    by (simp_all add: sample_opening_def sample_defs opening_scope_matches_def opening_changes_match_def
        days_since_def day_number_def days_from_civil_def)
  moreover have "sample_pending\<lparr>sr_pending_opening :=
      Some \<lparr>po_predecessor = settlement_frontier sample_registered, po_opening = sample_opening\<rparr>\<rparr> = sample_pending"
    by (simp add: sample_pending_def)
  ultimately show ?thesis
    by (simp add: prepare_opening_movement_def valid sample_opening_applied sample_pending_valid Let_def)
qed

definition sample_settled :: share_registry where
  "sample_settled = sample_closed\<lparr>sr_receipts := [sample_receipt\<lparr>rc_request := market_request sample_settlement\<rparr>],
     sr_registrations := [sample_snapshot, \<lparr>rs_event_id = [81], rs_stock = [83], rs_issuer = 1, rs_registered_on = sample_day 6,
       rs_issued_shares = 100, rs_settled_receipts = 1, rs_repurchase_account = None, rs_holdings = sr_holdings sample_closed\<rparr>]\<rparr>"

lemmas settled_defs = sample_settled_def sample_settlement_def sample_context_def sample_defs

lemma sample_market: "market_request sample_settlement = sample_request\<lparr>dq_scope := SettlementDayMarket (day_binding sample_settlement)\<rparr>"
  by (simp add: market_request_def sample_settlement_def)

lemma sample_market_applied:
  "apply_movement sample_registered (market_request sample_settlement)
    = Inr (sample_settled\<lparr>sr_registrations := [sample_snapshot], sr_settled_on := sample_day 5\<rparr>,
        sample_receipt\<lparr>rc_request := market_request sample_settlement\<rparr>)"
  unfolding sample_settled_def sample_market by (simp add: registry_evals sample_defs)

lemma sample_day_applied: "apply_day sample_settlement sample_registered = Inr sample_settled"
proof -
  have "sr_pending_opening sample_registered = None" "sd_opening sample_settlement = []" "sd_post_actions sample_settlement = [PostCapture [81]]"
    "map receipt_id (sr_receipts sample_registered) @ map rs_event_id (sr_registrations sample_registered) = [[82]]"
    "\<not> blank [81]"
    by (simp_all add: sample_settlement_def sample_defs blank_def utrim_def unicode_whitespace_def)
  moreover have "dq_event_id (market_request sample_settlement) = [77]" by (simp add: sample_market) (simp add: sample_request_def)
  ultimately show ?thesis
    by (simp add: apply_day_def sample_market_applied)
      (simp add: sample_settled_def sample_closed_def sample_settlement_def sample_registered_def sample_registry_def snapshot_now_def)
qed

lemma sample_settled_valid: "validate sample_settled = Inr ()"
  by (simp add: settlement_evals settled_defs)

lemma sample_sources: "validate_market_sources sample_settled sample_context = Inr ()"
  by (simp add: settlement_evals sample_trading [unfolded sample_defs One_nat_def] settled_defs)

lemma sample_settles: "prepare_settlement_day sample_settlement sample_context sample_registered = Inr sample_settled"
proof -
  have valid: "validate sample_registered = Inr ()" by (rule reachable_valid [OF sample_reachable(2)])
  have "validate_market_sources sample_registered sample_context = Inr ()"
    by (simp add: validate_market_sources_def sample_context_def sample_registered_def sample_registry_def check_evals)
  moreover have "check_opening_requests sample_settlement = Inr ()"
    by (simp add: check_opening_requests_def sample_settlement_def)
  moreover have "receipt_by_event sample_registered (dq_event_id (market_request sample_settlement)) = None"
    by (simp add: receipt_by_event_def sample_registered_def sample_registry_def)
  moreover have "sd_predecessor sample_settlement = settlement_frontier sample_registered" "sd_stock sample_settlement = sr_stock sample_registered"
    "days_since (sd_day sample_settlement) (sr_settled_on sample_registered) = 1"
    "dq_scope (mc_request (sd_market_close sample_settlement)) = PublicMarket"
    "dq_day (mc_request (sd_market_close sample_settlement)) = sd_day sample_settlement"
    by (simp_all add: sample_settlement_def sample_defs days_since_def day_number_def days_from_civil_def)
  ultimately show ?thesis
    by (simp add: prepare_settlement_day_def valid sample_day_applied sample_settled_valid sample_sources)
qed

lemma fifo_take_all:
  "fifo_take day re n ls = (rest, taken, left) \<Longrightarrow> left \<noteq> 0 \<Longrightarrow> lots_qty taken = lots_qty (transferable day re ls)"
proof (induction day re n ls arbitrary: rest taken left rule: fifo_take.induct)
  case (2 day re n l ls)
  show ?case
  proof (cases "n = 0 \<or> locked_on day re l")
    case True
    then show ?thesis using 2 by (auto simp: transferable_def split: if_splits prod.splits)
  next
    case False
    let ?c = "min n (sl_qty l)"
    obtain rest' taken' where r: "fifo_take day re (n - ?c) ls = (rest', taken', left)" "taken = l\<lparr>sl_qty := ?c\<rparr> # taken'"
      using 2(3) False by (auto simp: Let_def split: prod.splits)
    have "n - ?c \<noteq> 0" using fifo_take_sums [OF r(1)] 2(4) by linarith
    then have "?c = sl_qty l" by linarith
    moreover have "lots_qty taken' = lots_qty (transferable day re ls)" using 2(2) [OF _ _ refl r(1) 2(4)] False by simp
    ultimately show ?thesis using r(2) False by (simp add: transferable_def)
  qed
qed (simp add: transferable_def)

subsection \<open>The properties\<close>

text \<open>
  C35 (Reachable registries are valid). Every registry the machine reaches passes its own validation,
  and its lots are a partition of the issued shares: distinct holders, distinct lot identities, no empty
  lot, no lot from the future, and the lots of a holder in the order of their dates.
\<close>

theorem reachable_registries_valid:
  assumes "reachable r"
  shows "validate r = Inr () \<and> holdings_ok (sr_holdings r) (sr_issued_shares r) (physical_day r)
    \<and> (\<Sum>k\<in>sh_holder ` set (sr_holdings r). holder_qty (sr_holdings r) k) = sr_issued_shares r"
proof -
  have v: "validate r = Inr ()" by (rule reachable_valid [OF assms])
  then have "validate_holdings (sr_holdings r) (sr_issued_shares r) (physical_day r) = Inr ()" by (rule validateD)
  then have ok: "holdings_ok (sr_holdings r) (sr_issued_shares r) (physical_day r)" by (rule validate_holdings_ok)
  then have "(\<Sum>k\<in>sh_holder ` set (sr_holdings r). holder_qty (sr_holdings r) k) = sr_issued_shares r"
    using sum_by_holder [of "sh_holder ` set (sr_holdings r)" "sr_holdings r"] by (simp add: holdings_ok_def)
  with v ok show ?thesis by blast
qed

lemma reachable_registries_valid_witness:
  "validate sample_closed = Inr () \<and> holdings_ok (sr_holdings sample_closed) (sr_issued_shares sample_closed) (physical_day sample_closed)"
  using reachable_registries_valid [OF sample_reachable(3)] by blast

text \<open>
  C36 (A day moves exactly its net changes). An accepted day that is new changes the shares of every holder by
  the changes the request has for it and the issued shares by their sum. It appends one receipt and nothing
  else, it settles the day of the request, it keeps every lot whose restriction still holds, and what it disposes of
  each holder is exactly the reduction asked for, out of transferable lots.
\<close>

theorem day_moves_exactly:
  assumes "close_day q r = (Inr rc, r')" "receipt_by_event r (dq_event_id q) = None"
  shows "(\<forall>k. int (holder_qty (sr_holdings r') k) = int (holder_qty (sr_holdings r) k) + change_of k (dq_changes q))
    \<and> int (sr_issued_shares r') = int (sr_issued_shares r) + net_change (dq_changes q)
    \<and> rc_request rc = q
    \<and> r' = r\<lparr>sr_holdings := sr_holdings r', sr_issued_shares := sr_issued_shares r',
           sr_receipts := sr_receipts r @ [rc], sr_settled_on := dq_day q\<rparr>
    \<and> (\<forall>k. \<forall>l\<in>set (holder_lots (sr_holdings r) k). locked_on (dq_day q) (is_redenomination (dq_scope q)) l \<and> sl_qty l \<noteq> 0
         \<longrightarrow> l \<in> set (holder_lots (sr_holdings r') k))
    \<and> (\<forall>k. int (lots_qty (disposals_of k (rc_disposals rc))) = reductions_of k (dq_changes q))
    \<and> (\<forall>d\<in>set (rc_disposals rc). dl_disposed_on d = dq_day q \<and> \<not> locked_on (dq_day q) (is_redenomination (dq_scope q)) (dl_lot d))"
  using assms(1)
proof (cases rule: close_day_cases)
  case unchanged
  with assms(2) show ?thesis by auto
next
  case (closed rc' candidate)
  then have m: "moves r q candidate rc" using apply_movement_moves by auto
  have r': "sr_holdings r' = sr_holdings candidate" "sr_issued_shares r' = sr_issued_shares candidate"
    "r' = candidate\<lparr>sr_settled_on := dq_day q\<rparr>"
    using closed(6) apply_movement_receipts(5) [OF closed(4)] by auto
  have "candidate = r\<lparr>sr_holdings := sr_holdings candidate, sr_issued_shares := sr_issued_shares candidate, sr_receipts := sr_receipts r @ [rc]\<rparr>"
    using m unfolding moves_def by blast
  then have "r' = r\<lparr>sr_holdings := sr_holdings r', sr_issued_shares := sr_issued_shares r',
      sr_receipts := sr_receipts r @ [rc], sr_settled_on := dq_day q\<rparr>"
    unfolding r'(1,2) by (subst r'(3)) simp
  with m show ?thesis unfolding moves_def r'(1,2) by blast
qed

lemma day_moves_exactly_witness:
  "int (holder_qty (sr_holdings sample_closed) (AccountHolder 2)) = 40 \<and> sr_receipts sample_closed = [sample_receipt]"
  using day_moves_exactly [OF sample_close]
  by (simp add: sample_registered_def sample_registry_def sample_holdings_def receipt_by_event_def sample_closed_def holder_qty_def holder_lots_def)

text \<open>
  A reduction that names no lots takes, in the order of the
  holder's lots, whole transferable lots and a part of the next one. It takes exactly the quantity, or it
  refuses when the transferable lots do not cover it.
\<close>

theorem reduction_takes_oldest:
  "case reduce_lots day re holder n None ls of
     Inl e \<Rightarrow> lots_qty (transferable day re ls) < n
       \<and> e = InsufficientTransferableShares holder n (lots_qty (transferable day re ls))
   | Inr (rest, taken) \<Rightarrow> lots_qty taken = n \<and> lots_qty rest + n = lots_qty ls
       \<and> (taken = [] \<or> (\<exists>k x. taken = take k (transferable day re ls) @ [x] \<and> k < length (transferable day re ls)
            \<and> x = (transferable day re ls ! k)\<lparr>sl_qty := sl_qty x\<rparr> \<and> sl_qty x \<le> sl_qty (transferable day re ls ! k)))"
proof -
  obtain rest taken left where f: "fifo_take day re n ls = (rest, taken, left)" by (cases "fifo_take day re n ls")
  note sums = fifo_take_sums [OF f] and oldest = fifo_take_oldest [OF f]
  note all = fifo_take_all [OF f]
  show ?thesis
  proof (cases "left = 0")
    case True
    with sums oldest f show ?thesis by (auto simp: reduce_lots_def)
  next
    case False
    with sums all f show ?thesis by (auto simp: reduce_lots_def)
  qed
qed

text \<open>
  After a day was accepted, asking for it again returns the same receipt
  and leaves the registry as it is; another request under the same identity is refused without a change.
\<close>

theorem day_retry_same:
  assumes "close_day q r = (Inr rc, r')"
  shows "close_day q r' = (Inr rc, r')
    \<and> (\<forall>q'. q' \<noteq> q \<and> dq_event_id q' = dq_event_id q \<longrightarrow> (\<exists>e. close_day q' r' = (Inl e, r')))"
proof -
  have "scope_binding (dq_scope q) = None" using assms by (auto simp: close_day_def split: if_splits)
  moreover have "receipt_by_event r' (dq_event_id q) = Some rc \<and> rc_request rc = q"
    using assms
  proof (cases rule: close_day_cases)
    case (closed rc' candidate)
    have "rc \<in> set (sr_receipts r')" "rc_request rc = q"
      using closed apply_movement_receipts(1,2) [OF closed(4)] by auto
    moreover have "distinct (map receipt_id (sr_receipts r'))" using closed(5) by (rule validateD)
    ultimately show ?thesis using receipt_found by blast
  qed auto
  ultimately show ?thesis by (auto simp: close_day_def)
qed

lemma day_retry_same_witness: "close_day sample_request sample_closed = (Inr sample_receipt, sample_closed)"
  using day_retry_same [OF sample_close] by blast


text \<open>
  Once a settlement day went through, preparing the same day
  again, against the same market facts, succeeds and gives the same registry.
\<close>

theorem settlement_retry_same:
  assumes "prepare_settlement_day d x r = Inr r'"
  shows "prepare_settlement_day d x r' = Inr r'"
proof -
  have head: "validate r = Inr ()" "sd_stock d = sr_stock r" "dq_day (mc_request (sd_market_close d)) = sd_day d"
      "dq_scope (mc_request (sd_market_close d)) = PublicMarket" "check_opening_requests d = Inr ()"
    and body: "(case receipt_by_event r (dq_event_id (market_request d)) of
       Some stored \<Rightarrow> check_retry r d stored
     | None \<Rightarrow>
         bind_result (refuse_if (sd_predecessor d \<noteq> settlement_frontier r \<or> days_since (sd_day d) (sr_settled_on r) \<noteq> 1)
           (InvalidFact ''typed settlement predecessor/frontier/unit or natural day is stale'')) (\<lambda>_.
         bind_result (apply_day d r) (\<lambda>candidate.
         bind_result (validate candidate) (\<lambda>_.
         bind_result (validate_market_sources candidate x) (\<lambda>_. Inr candidate))))) = Inr r'"
    using assms unfolding prepare_settlement_day_def by (auto simp: bind_result_Inr_iff)
  have after: "validate r' = Inr ()" "validate_market_sources r' x = Inr ()"
    using prepare_settlement_day_Inr [OF assms] by simp_all
  show ?thesis
  proof (cases "receipt_by_event r (dq_event_id (market_request d))")
    case (Some stored)
    with body have "r' = r" by (auto simp: check_retry_def bind_result_Inr_iff)
    with assms show ?thesis by simp
  next
    case None
    with body have applied: "apply_day d r = Inr r'" by (auto simp: bind_result_Inr_iff)
    have stored: "stored_as r' (market_request d)" "\<forall>op\<in>set (sd_opening d). stored_as r' (fo_request op)"
      "\<forall>q\<in>set (List.map_filter post_movement (sd_post_actions d)). stored_as r' q"
      using apply_day_stores [OF applied head(1)] stored_found [OF after(1)] by auto
    then obtain rc where "receipt_by_event r' (dq_event_id (market_request d)) = Some rc" "rc_request rc = market_request d"
      by (auto simp: stored_as_def option_is_def split: option.splits)
    with stored have "(case receipt_by_event r' (dq_event_id (market_request d)) of Some rc \<Rightarrow> check_retry r' d rc | None \<Rightarrow> undefined) = Inr r'"
      by (simp add: check_retry_def each_of_Inr bind_result_Inr_iff)
    moreover have "sr_stock r' = sr_stock r" by (rule apply_day_stock [OF applied])
    ultimately show ?thesis using after head \<open>receipt_by_event r' (dq_event_id (market_request d)) = Some rc\<close>
      by (simp add: prepare_settlement_day_def)
  qed
qed

lemma settlement_retry_same_witness:
  "prepare_settlement_day sample_settlement sample_context sample_settled = Inr sample_settled"
  by (rule settlement_retry_same [OF sample_settles])

text \<open>
  C37 (Registrations stay true to the current holdings). For every snapshot of a reachable registry, the current
  shares of each holder are its shares on the registration day plus its changes in the receipts since then,
  and the issued shares likewise.
\<close>

theorem registrations_replay:
  assumes "reachable r" "s \<in> set (sr_registrations r)"
  shows "int (holder_qty (sr_holdings r) k) = int (holder_qty (rs_holdings s) k)
      + sum_list (map (\<lambda>rc. change_of k (dq_changes (rc_request rc))) (drop (rs_settled_receipts s) (sr_receipts r)))
    \<and> int (sr_issued_shares r) = int (rs_issued_shares s)
      + sum_list (map (\<lambda>rc. net_change (dq_changes (rc_request rc))) (drop (rs_settled_receipts s) (sr_receipts r)))"
proof -
  have "validate r = Inr ()" by (rule reachable_valid [OF assms(1)])
  from registrations_checked [OF this assms(2)] obtain replay where
    "replay_registration_to r s (length (sr_receipts r)) = Inr replay"
    by (auto simp: validate_registration_def bind_result_Inr_iff)
  then have "replay_receipts (replay_start r s) (drop (rs_settled_receipts s) (sr_receipts r)) = Inr replay"
    "sr_holdings replay = sr_holdings r" "sr_issued_shares replay = sr_issued_shares r"
    by (auto simp: replay_registration_to_def Let_def bind_result_Inr_iff split: if_splits)
  with replay_receipts_sums [of "replay_start r s" _ replay k] show ?thesis by (simp add: replay_start_def)
qed

lemma registrations_replay_witness:
  "int (holder_qty (sr_holdings sample_closed) (AccountHolder 1)) = 100 + (- 40)"
  using registrations_replay [OF sample_reachable(3), of sample_snapshot "AccountHolder 1"]
  by (simp add: sample_defs holder_qty_def holder_lots_def)

text \<open>
  C38 (Registering during an opening corrupts the registry). A new registration that is accepted while an
  opening movement is pending leaves a registry that no longer passes its own validation, since its frontier
  already counts the receipt of the next day. The preview of a snapshot refuses this case, the registration itself does not.
\<close>

theorem register_during_opening:
  assumes "sr_pending_opening r = Some p" "registration r ev = None" "register ev day r = (Inr s, r')"
  shows "is_ok (validate r) \<and> \<not> is_ok (validate r') \<and> \<not> is_ok (preview_current_snapshot ev r)"
proof -
  have valid: "validate r = Inr ()" and r': "r' = r\<lparr>sr_registrations := sr_registrations r @ [snapshot_now ev r]\<rparr>"
    using assms(2,3) by (auto elim!: register_cases)
  let ?i = "df_receipt_count (po_predecessor p)"
  have "validate_pending_opening r = Inr ()" using valid by (rule validateD)
  with assms(1) have p: "?i + 1 = length (sr_receipts r)" "rc_request (sr_receipts r ! ?i) = fo_request (po_opening p)"
    "days_since (dq_day (fo_request (po_opening p))) (sr_settled_on r) = 1"
    by (simp_all add: validate_pending_opening_def Let_def bind_result_Inr_iff)
  then have before: "get_before (sr_receipts r) (length (sr_receipts r)) = Some (sr_receipts r ! ?i)"
    by (auto simp: get_before_def get_at_def simp flip: p(1))
  have day: "receipt_day (sr_receipts r ! ?i) \<noteq> sr_settled_on r" using p(2,3) by (auto simp: days_since_def)
  have "\<not> is_ok (validate r')"
  proof
    assume "is_ok (validate r')"
    then have "validate r' = Inr ()" by (auto simp: is_ok_iff)
    from registrations_checked [OF this] obtain replay where
      "replay_registration_to r' (snapshot_now ev r) (length (sr_receipts r')) = Inr replay"
      by (fastforce simp: r' validate_registration_def bind_result_Inr_iff)
    with before day show False by (simp add: r' replay_registration_to_def snapshot_now_def Let_def)
  qed
  with valid assms(1) show ?thesis by (simp add: preview_current_snapshot_def refuse_if_def)
qed

lemma register_during_opening_witness:
  "\<exists>s r'. register [81] (sample_day 5) sample_pending = (Inr s, r') \<and> \<not> is_ok (validate r')"
proof -
  have "validate sample_pending = Inr ()" by (rule prepare_opening_movement_Inr [OF sample_open])
  then have "register [81] (sample_day 5) sample_pending = (Inr (snapshot_now [81] sample_pending),
      sample_pending\<lparr>sr_registrations := sr_registrations sample_pending @ [snapshot_now [81] sample_pending]\<rparr>)"
    by (simp add: register_def registration_def check_evals is_typed_movement_identity_def typed_ids_def sample_pending_def sample_opening_def sample_defs)
  then obtain s r' where q: "register [81] (sample_day 5) sample_pending = (Inr s, r')" by blast
  have "sr_pending_opening sample_pending = Some \<lparr>po_predecessor = settlement_frontier sample_registered, po_opening = sample_opening\<rparr>"
    "registration sample_pending [81] = None"
    by (simp_all add: sample_pending_def sample_defs registration_def)
  from register_during_opening [OF this q] q show ?thesis by blast
qed

end
