(* ===== verification/Receipt_Key.thy ===== *)
theory Receipt_Key
  imports Game_Config Order_Types Ordered_Map
begin

section \<open>Identities of reservations and receipts (session/pipeline/receipt\_key.rs)\<close>

text \<open>
  A reservation of cash or shares belongs to an order of an account on a stock and a side. A receipt
  changes one reservation; its local identity says which journal and source it comes from and the how
  manieth change of the reservation by this source it is. Sources and keys are ordered by ranks
  written out in the code; the derived equality and this order agree on keys that pass the checks.
\<close>

datatype step_fatal =
    InvariantViolation string string
  | MoneyViolation string money_error
  | ConfigViolation string config_error
  | StepPanic string

definition key_fault :: "string \<Rightarrow> step_fatal" where
  "key_fault = InvariantViolation ''pipeline::receipt_key''"

datatype journal_rank = PreSeal | SealedBatch

fun journal_order :: "journal_rank \<Rightarrow> nat" where
  "journal_order PreSeal = 0" | "journal_order SealedBatch = 1"

datatype receipt_source = SealedIntent nat | QuoteExpiry nat | AuctionSource nat | DayEnd nat

fun source_journal :: "receipt_source \<Rightarrow> journal_rank" where
  "source_journal (QuoteExpiry _) = PreSeal"
| "source_journal _ = SealedBatch"

fun source_rank :: "receipt_source \<Rightarrow> nat" where
  "source_rank (QuoteExpiry _) = 0"
| "source_rank (SealedIntent _) = 0"
| "source_rank (AuctionSource _) = 1"
| "source_rank (DayEnd _) = 2"

fun source_payload :: "receipt_source \<Rightarrow> nat" where
  "source_payload (SealedIntent i) = i"
| "source_payload (QuoteExpiry i) = i"
| "source_payload (AuctionSource i) = i"
| "source_payload (DayEnd i) = i"

subsection \<open>Reservation keys\<close>

datatype envelope_key = EnvelopeKey (ek_account: account_id) (ek_stock: nat) (ek_order: order_id) (ek_side: side)

fun side_rank :: "side \<Rightarrow> nat" where
  "side_rank Buy = 0" | "side_rank Sell = 1"

definition envelope_order :: "envelope_key \<Rightarrow> nat \<times> nat \<times> nat \<times> nat" where
  "envelope_order k = (ek_account k, ek_stock k, ek_order k, side_rank (ek_side k))"

lemma side_rank_inj [simp]: "side_rank a = side_rank b \<longleftrightarrow> a = b"
  by (cases a; cases b) auto

lemma envelope_order_inj [simp]: "envelope_order k = envelope_order k' \<longleftrightarrow> k = k'"
  by (cases k; cases k') (simp add: envelope_order_def)

instantiation envelope_key :: linorder
begin

definition less_eq_envelope_key :: "envelope_key \<Rightarrow> envelope_key \<Rightarrow> bool" where
  "less_eq_envelope_key k k' \<longleftrightarrow> envelope_order k \<le> envelope_order k'"

definition less_envelope_key :: "envelope_key \<Rightarrow> envelope_key \<Rightarrow> bool" where
  "less_envelope_key k k' \<longleftrightarrow> envelope_order k < envelope_order k'"

instance
proof
  fix x y z :: envelope_key
  show "x < y \<longleftrightarrow> x \<le> y \<and> \<not> y \<le> x" "x \<le> x" "x \<le> y \<or> y \<le> x"
    by (simp_all add: less_eq_envelope_key_def less_envelope_key_def less_le_not_le linear)
  show "x \<le> y \<Longrightarrow> y \<le> z \<Longrightarrow> x \<le> z" "x \<le> y \<Longrightarrow> y \<le> x \<Longrightarrow> x = y"
    unfolding less_eq_envelope_key_def by (rule order_trans) (simp_all add: order_antisym flip: envelope_order_inj)
qed

end

lemma envelope_key_less: "k < k' \<longleftrightarrow> ek_account k < ek_account k' \<or> (ek_account k = ek_account k'
    \<and> (ek_stock k, ek_order k, side_rank (ek_side k)) < (ek_stock k', ek_order k', side_rank (ek_side k')))"
  by (auto simp: less_envelope_key_def envelope_order_def)

subsection \<open>Receipt keys\<close>

record receipt_local_key =
  lk_journal :: journal_rank
  lk_source :: receipt_source
  lk_envelope :: envelope_key
  lk_ordinal :: nat

definition new_local_key :: "journal_rank \<Rightarrow> receipt_source \<Rightarrow> envelope_key \<Rightarrow> nat \<Rightarrow> step_fatal + receipt_local_key" where
  "new_local_key j s e n =
    (if j \<noteq> source_journal s then Inl (InvariantViolation ''ReceiptLocalKey::new'' ''invalid journal/source pairing'')
     else Inr \<lparr>lk_journal = j, lk_source = s, lk_envelope = e, lk_ordinal = n\<rparr>)"

text \<open>The order of local keys, which is also what a set of them goes by.\<close>

definition local_order :: "receipt_local_key \<Rightarrow> nat \<times> nat \<times> nat \<times> envelope_key \<times> nat" where
  "local_order k = (journal_order (lk_journal k), source_rank (lk_source k), source_payload (lk_source k), lk_envelope k, lk_ordinal k)"

lemma local_order_inj:
  assumes "lk_journal k = source_journal (lk_source k)" "lk_journal k' = source_journal (lk_source k')"
  shows "local_order k = local_order k' \<longleftrightarrow> k = k'"
proof
  assume eq: "local_order k = local_order k'"
  then have "lk_source k = lk_source k'" using assms
    by (cases "lk_source k"; cases "lk_source k'") (auto simp: local_order_def)
  with eq assms show "k = k'" by (simp add: local_order_def)
qed simp

record indexed_key =
  ik_index :: nat
  ik_envelope :: envelope_key
  ik_local :: receipt_local_key

subsection \<open>Checks of a batch of keys\<close>

text \<open>The state of the loop: identities seen, and the next ordinal of each source and reservation.\<close>

type_synonym key_walk = "receipt_local_key list \<times> ((receipt_source \<times> envelope_key) \<rightharpoonup> nat)"

definition check_local_key :: "key_walk \<Rightarrow> receipt_local_key \<Rightarrow> step_fatal + key_walk" where
  "check_local_key w k = (case w of (seen, next_ordinal) \<Rightarrow>
     let domain = (lk_source k, lk_envelope k); ordinal = (case next_ordinal domain of None \<Rightarrow> 0 | Some n \<Rightarrow> n) in
     if lk_journal k \<noteq> source_journal (lk_source k) then Inl (key_fault ''invalid receipt journal/source pairing'')
     else if local_order k \<in> set (map local_order seen) then Inl (key_fault ''duplicate receipt identity'')
     else if lk_ordinal k \<noteq> ordinal then Inl (key_fault ''receipt source ordinal is not contiguous'')
     else bind_result (ok_or (key_fault ''receipt source ordinal overflow'') (checked_u64 (ordinal + 1))) (\<lambda>n.
       Inr (k # seen, next_ordinal(domain \<mapsto> n))))"

definition validate_receipt_keys :: "receipt_local_key list \<Rightarrow> step_fatal + unit" where
  "validate_receipt_keys ks = bind_result (try_fold check_local_key ([], Map.empty) ks) (\<lambda>_. Inr ())"

fun check_indices :: "(envelope_key \<times> nat) list \<Rightarrow> nat option \<Rightarrow> indexed_key list \<Rightarrow> step_fatal + unit" where
  "check_indices pairs expected [] = Inr ()"
| "check_indices pairs expected (k # ks) =
    (if ik_envelope k \<noteq> lk_envelope (ik_local k) then Inl (key_fault ''receipt envelope disagrees with local key'')
     else if (ik_envelope k, ik_index k) \<in> set pairs then Inl (key_fault ''duplicate envelope receipt index'')
     else if Some (ik_index k) \<noteq> expected then Inl (key_fault ''receipt indices are not contiguous'')
     else bind_result (ok_or (key_fault ''receipt index overflow'') (checked_u64 (ik_index k + 1))) (\<lambda>n.
       check_indices ((ik_envelope k, ik_index k) # pairs) (Some n) ks))"

definition validate_indexed_receipt_keys :: "indexed_key list \<Rightarrow> step_fatal + unit" where
  "validate_indexed_receipt_keys ks = bind_result (validate_receipt_keys (map ik_local ks)) (\<lambda>_.
     check_indices [] (case ks of [] \<Rightarrow> None | k # _ \<Rightarrow> Some (ik_index k)) ks)"

subsection \<open>What accepted batches satisfy\<close>

lemma upt_step: "xs = [a + 1..<a + 1 + length xs] \<Longrightarrow> a # xs = [a..<a + length (a # xs)]"
proof -
  assume xs: "xs = [a + 1..<a + 1 + length xs]"
  have "[a..<a + length (a # xs)] = a # [a + 1..<a + 1 + length xs]" by (simp add: upt_conv_Cons del: upt_Suc)
  then show ?thesis using xs by simp
qed

text \<open>The ordinals of a source on a reservation are 0, 1, 2 and so on, in the order of the batch.\<close>

definition ordinals_of :: "receipt_source \<Rightarrow> envelope_key \<Rightarrow> receipt_local_key list \<Rightarrow> nat list" where
  "ordinals_of s e ks = map lk_ordinal (filter (\<lambda>k. lk_source k = s \<and> lk_envelope k = e) ks)"

lemma check_local_keys_Inr:
  "try_fold check_local_key (seen, nxt) ks = Inr w \<Longrightarrow> \<forall>k\<in>set seen. lk_journal k = source_journal (lk_source k) \<Longrightarrow> distinct seen \<Longrightarrow>
     distinct (rev ks @ seen) \<and> (\<forall>k\<in>set ks. lk_journal k = source_journal (lk_source k))
     \<and> (\<forall>s e. ordinals_of s e ks = [(case nxt (s, e) of None \<Rightarrow> 0 | Some n \<Rightarrow> n)..<(case nxt (s, e) of None \<Rightarrow> 0 | Some n \<Rightarrow> n) + length (ordinals_of s e ks)])"
proof (induction ks arbitrary: seen nxt)
  case (Cons k ks)
  let ?o = "case nxt (lk_source k, lk_envelope k) of None \<Rightarrow> 0 | Some n \<Rightarrow> n"
  obtain w1 where step: "check_local_key (seen, nxt) k = Inr w1" and walk: "try_fold check_local_key w1 ks = Inr w"
    using Cons.prems(1) by (auto simp: bind_result_Inr_iff)
  have k: "lk_journal k = source_journal (lk_source k)" "local_order k \<notin> set (map local_order seen)" "lk_ordinal k = ?o"
    and w1: "w1 = (k # seen, nxt((lk_source k, lk_envelope k) \<mapsto> ?o + 1))"
    using step by (auto simp: check_local_key_def Let_def bind_result_Inr_iff split: if_splits)
  note rest = walk [unfolded w1]
  have "k \<notin> set seen" using k(2) by auto
  with Cons.IH [OF rest] k(1) Cons.prems(2,3) have ih: "distinct (rev ks @ k # seen)"
    "\<forall>k\<in>set ks. lk_journal k = source_journal (lk_source k)"
    "\<And>s e. ordinals_of s e ks = [(case (nxt((lk_source k, lk_envelope k) \<mapsto> ?o + 1)) (s, e) of None \<Rightarrow> 0 | Some n \<Rightarrow> n)
      ..<(case (nxt((lk_source k, lk_envelope k) \<mapsto> ?o + 1)) (s, e) of None \<Rightarrow> 0 | Some n \<Rightarrow> n) + length (ordinals_of s e ks)]"
    by auto
  have "ordinals_of s e (k # ks) = [(case nxt (s, e) of None \<Rightarrow> 0 | Some n \<Rightarrow> n)
      ..<(case nxt (s, e) of None \<Rightarrow> 0 | Some n \<Rightarrow> n) + length (ordinals_of s e (k # ks))]" for s e
  proof (cases "lk_source k = s \<and> lk_envelope k = e")
    case True
    then have "ordinals_of s e (k # ks) = ?o # ordinals_of s e ks" using k(3) by (simp add: ordinals_of_def)
    moreover have "ordinals_of s e ks = [?o + 1..<?o + 1 + length (ordinals_of s e ks)]" using ih(3) [of s e] True by simp
    ultimately show ?thesis using True upt_step by metis
  next
    case False
    then have "ordinals_of s e (k # ks) = ordinals_of s e ks" by (auto simp: ordinals_of_def)
    with ih(3) [of s e] False show ?thesis by auto
  qed
  with ih(1,2) k(1) show ?case by auto
qed (simp add: ordinals_of_def)

lemma check_indices_Inr:
  "check_indices pairs expected ks = Inr () \<Longrightarrow> (\<forall>i. expected = Some i \<longrightarrow> map ik_index ks = [i..<i + length ks])
     \<and> (expected = None \<longrightarrow> ks = []) \<and> (\<forall>k\<in>set ks. ik_envelope k = lk_envelope (ik_local k))"
proof (induction pairs expected ks rule: check_indices.induct)
  case (2 pairs expected k ks)
  have e: "ik_envelope k = lk_envelope (ik_local k)" "expected = Some (ik_index k)" "ik_index k + 1 \<le> u64_max"
    and rest: "check_indices ((ik_envelope k, ik_index k) # pairs) (Some (ik_index k + 1)) ks = Inr ()"
    using 2(2) by (auto simp: bind_result_Inr_iff split: if_splits)
  have "map ik_index ks = [ik_index k + 1..<ik_index k + 1 + length ks] \<and> (\<forall>k\<in>set ks. ik_envelope k = lk_envelope (ik_local k))"
    using 2(1) [OF _ _ _ _ rest] 2(2) e by (auto simp: bind_result_Inr_iff split: if_splits)
  then have ks: "map ik_index ks = [ik_index k + 1..<ik_index k + 1 + length (map ik_index ks)]"
    and keys: "\<forall>k\<in>set ks. ik_envelope k = lk_envelope (ik_local k)" by (simp_all del: upt_Suc)
  have "map ik_index (k # ks) = [ik_index k..<ik_index k + length (k # ks)]" using upt_step [OF ks] by (simp del: upt_Suc)
  with e keys show ?case by (simp del: upt_Suc)
qed simp

end
