(* ===== verification/Envelope.thy ===== *)
theory Envelope
  imports Receipt_Key Market
begin

section \<open>Reservations of resources (session/pipeline/conservation.rs, envelope.rs)\<close>

text \<open>
  An envelope holds the cash or the shares reserved for one order. Its \<open>basis\<close> is what it began the
  tick with; what receipts \<open>spent\<close> and \<open>released\<close> and what is still \<open>live\<close> add up to it. The audit
  carries the order's cumulative fills and fees over ticks. A verification of the audit against the fee
  schedule is remembered in the envelope: the source keeps it in a cell written at most once, which copies
  of the envelope share; here it is a field, and the theorems about it allow for a field filled by a copy.

  Messages that the source writes in Chinese or that print a key are given in English without the key; a
  message that is the text of another error carries that error. \<open>StepPanic\<close> stands for a failed
  \<open>expect\<close>.
\<close>

subsection \<open>Resource vectors\<close>

record res_vec =
  rv_cash :: money
  rv_shares :: nat

definition res_zero :: res_vec where
  "res_zero = \<lparr>rv_cash = 0, rv_shares = 0\<rparr>"

definition res_fault :: "string \<Rightarrow> step_fatal" where
  "res_fault = InvariantViolation ''pipeline::ResVec''"

definition res_add :: "res_vec \<Rightarrow> res_vec \<Rightarrow> step_fatal + res_vec" where
  "res_add a b = bind_result (map_error (MoneyViolation ''pipeline::ResVec'') (money_add (rv_cash a) (rv_cash b))) (\<lambda>cash.
     bind_result (ok_or (res_fault ''shares add'') (checked_u32 (rv_shares a + rv_shares b))) (\<lambda>shares.
     Inr \<lparr>rv_cash = cash, rv_shares = shares\<rparr>))"

definition res_sub :: "res_vec \<Rightarrow> res_vec \<Rightarrow> step_fatal + res_vec" where
  "res_sub a b = bind_result (map_error (MoneyViolation ''pipeline::ResVec'') (money_sub (rv_cash a) (rv_cash b))) (\<lambda>cash.
     if cash < 0 then Inl (res_fault ''cash underflow'')
     else if rv_shares a < rv_shares b then Inl (res_fault ''shares underflow'')
     else Inr \<lparr>rv_cash = cash, rv_shares = rv_shares a - rv_shares b\<rparr>)"

definition res_validate_nonnegative :: "res_vec \<Rightarrow> step_fatal + unit" where
  "res_validate_nonnegative r = (if rv_cash r < 0 then Inl (res_fault ''negative cash resource'') else Inr ())"

record receipt_delta =
  dl_spent :: res_vec
  dl_released :: res_vec
  dl_live_after :: res_vec

subsection \<open>Conservation rows\<close>

datatype conservation_basis =
    BasisTickStart res_vec res_vec res_vec
  | BasisCreated res_vec

record conservation_row =
  cr_key :: envelope_key
  cr_basis :: conservation_basis
  cr_spent :: res_vec
  cr_released :: res_vec
  cr_live :: res_vec

definition row_fault :: "string \<Rightarrow> step_fatal" where
  "row_fault = InvariantViolation ''pipeline::ConservationRow''"

definition row_validate :: "conservation_row \<Rightarrow> step_fatal + unit" where
  "row_validate row =
    bind_result (res_validate_nonnegative (cr_spent row)) (\<lambda>_.
    bind_result (res_validate_nonnegative (cr_released row)) (\<lambda>_.
    bind_result (res_validate_nonnegative (cr_live row)) (\<lambda>_.
    bind_result (res_add (cr_spent row) (cr_released row)) (\<lambda>used.
    bind_result (res_add used (cr_live row)) (\<lambda>sealed_total.
    case cr_basis row of
      BasisTickStart start expiry allocation \<Rightarrow>
        bind_result (res_validate_nonnegative start) (\<lambda>_.
        bind_result (res_validate_nonnegative expiry) (\<lambda>_.
        bind_result (res_validate_nonnegative allocation) (\<lambda>_.
        bind_result (res_add expiry allocation) (\<lambda>both.
        if start \<noteq> both then Inl (row_fault ''preseal conservation mismatch'')
        else if allocation \<noteq> sealed_total then Inl (row_fault ''sealed conservation mismatch'')
        else Inr ()))))
    | BasisCreated created \<Rightarrow>
        bind_result (res_validate_nonnegative created) (\<lambda>_.
        if created \<noteq> sealed_total then Inl (row_fault ''created conservation mismatch'') else Inr ()))))))"

definition row_validate_with_preseal :: "conservation_row \<Rightarrow> res_vec \<Rightarrow> step_fatal + unit" where
  "row_validate_with_preseal row expiry_released =
    bind_result (res_validate_nonnegative expiry_released) (\<lambda>_.
    case cr_basis row of
      BasisTickStart _ recorded _ \<Rightarrow>
        if recorded = expiry_released then row_validate row else Inl (row_fault ''preseal conservation row mismatch'')
    | BasisCreated _ \<Rightarrow>
        if expiry_released = res_zero then row_validate row
        else Inl (row_fault ''an envelope created at validation has an expiry contribution''))"

subsection \<open>Envelopes\<close>

datatype envelope_origin = TickStart | CreatedAtValidation

record envelope_audit =
  au_limit :: money
  au_remaining_qty :: nat
  au_filled_qty :: nat
  au_filled_value :: money
  au_nominal :: fee_components
  au_charged :: fee_components

text \<open>
  The inputs of the fee formulas. The source compares the rates by their bits, which tells a negative zero
  and the payload of a NaN apart; the numbers of the model do not have these.
\<close>

record fee_inputs =
  fi_commission_rate :: f64
  fi_commission_min :: money
  fi_stamp_tax_rate :: f64
  fi_transfer_rate :: f64

definition fee_inputs_capture :: "game_config \<Rightarrow> fee_inputs" where
  "fee_inputs_capture c = \<lparr>fi_commission_rate = commission_rate c, fi_commission_min = commission_min c,
     fi_stamp_tax_rate = stamp_tax_rate c, fi_transfer_rate = a_share_transfer_fee_rate\<rparr>"

record fee_proof =
  fp_inputs :: fee_inputs
  fp_revision :: nat
  fp_calculator :: game_config

datatype fee_failure = FatalFailure step_fatal | LiveResources

datatype fee_check_site = GenericSite | BookCapture | StockRound

record envelope =
  env_key :: envelope_key
  env_origin :: envelope_origin
  env_basis :: res_vec
  env_live :: res_vec
  env_spent :: res_vec
  env_released :: res_vec
  env_audit :: envelope_audit
  env_pending :: "limit_price option"
  env_revision :: nat
  env_proof :: "(fee_failure + fee_proof) option"

text \<open>Equality of the source: the verification is left out.\<close>

definition envelope_eq :: "envelope \<Rightarrow> envelope \<Rightarrow> bool" where
  "envelope_eq e e' \<longleftrightarrow> env_key e = env_key e' \<and> env_origin e = env_origin e' \<and> env_basis e = env_basis e'
     \<and> env_live e = env_live e' \<and> env_spent e = env_spent e' \<and> env_released e = env_released e'
     \<and> env_audit e = env_audit e' \<and> env_pending e = env_pending e'"

definition tick_start_existing :: "envelope_key \<Rightarrow> money \<Rightarrow> nat \<Rightarrow> envelope_audit \<Rightarrow> envelope" where
  "tick_start_existing key cash shares audit = (let live = \<lparr>rv_cash = cash, rv_shares = shares\<rparr> in
     \<lparr>env_key = key, env_origin = TickStart, env_basis = live, env_live = live, env_spent = res_zero, env_released = res_zero,
      env_audit = audit, env_pending = None, env_revision = 0, env_proof = None\<rparr>)"

definition created_at_validation :: "envelope_key \<Rightarrow> money \<Rightarrow> nat \<Rightarrow> envelope_audit \<Rightarrow> envelope" where
  "created_at_validation key cash shares audit = (let live = \<lparr>rv_cash = cash, rv_shares = shares\<rparr> in
     \<lparr>env_key = key, env_origin = CreatedAtValidation, env_basis = live, env_live = live, env_spent = res_zero,
      env_released = res_zero, env_audit = audit, env_pending = None, env_revision = 0, env_proof = None\<rparr>)"

definition created_with_pending_price ::
    "envelope_key \<Rightarrow> money \<Rightarrow> nat \<Rightarrow> envelope_audit \<Rightarrow> limit_price option \<Rightarrow> envelope" where
  "created_with_pending_price key cash shares audit pending =
     (created_at_validation key cash shares audit)\<lparr>env_pending := pending\<rparr>"

definition envelope_validate :: "envelope \<Rightarrow> step_fatal + unit" where
  "envelope_validate e =
    (if env_pending e \<noteq> None \<and> env_origin e \<noteq> CreatedAtValidation
     then Inl (InvariantViolation ''pipeline::Envelope::validate'' ''an envelope not created at validation has a pending price'')
     else bind_result (res_validate_nonnegative (env_basis e)) (\<lambda>_.
     bind_result (res_validate_nonnegative (env_spent e)) (\<lambda>_.
     bind_result (res_validate_nonnegative (env_released e)) (\<lambda>_.
     bind_result (res_validate_nonnegative (env_live e)) (\<lambda>_.
     bind_result (res_add (env_spent e) (env_released e)) (\<lambda>used.
     bind_result (res_add used (env_live e)) (\<lambda>all_used.
     if all_used \<noteq> env_basis e
     then Inl (InvariantViolation ''pipeline::Envelope::validate'' ''envelope conservation mismatch'') else Inr ())))))))"

subsection \<open>Verification of the fee audit\<close>

definition ledger_fault :: "string \<Rightarrow> step_fatal" where
  "ledger_fault = InvariantViolation ''pipeline::EnvelopeLedger''"

definition projection_fault :: "string \<Rightarrow> step_fatal" where
  "projection_fault = InvariantViolation ''GameSession::project_live_envelopes''"

abbreviation projection_money :: "money_error \<Rightarrow> step_fatal" where
  "projection_money \<equiv> MoneyViolation ''GameSession::project_live_envelopes''"

definition fee_negative :: "fee_components \<Rightarrow> bool" where
  "fee_negative f \<longleftrightarrow> fc_commission f < 0 \<or> fc_stamp_tax f < 0 \<or> fc_transfer_fee f < 0"

definition fee_exceeds :: "fee_components \<Rightarrow> fee_components \<Rightarrow> bool" where
  "fee_exceeds charged nominal \<longleftrightarrow> fc_commission charged > fc_commission nominal
     \<or> fc_stamp_tax charged > fc_stamp_tax nominal \<or> fc_transfer_fee charged > fc_transfer_fee nominal"

definition validate_charged_audit :: "side \<Rightarrow> envelope_audit \<Rightarrow> step_fatal + unit" where
  "validate_charged_audit sd audit =
    (if fee_negative (au_nominal audit) \<or> fee_negative (au_charged audit)
     then Inl (projection_fault ''live-order fee audit contains a negative component'')
     else if fee_exceeds (au_charged audit) (au_nominal audit)
     then Inl (projection_fault ''live-order charged fee audit exceeds nominal fee audit'')
     else if sd = Buy then
       (if au_charged audit \<noteq> au_nominal audit
        then Inl (projection_fault ''buyer charged fee audit disagrees with nominal fee audit'') else Inr ())
     else bind_result (map_error projection_money (fee_total (au_charged audit))) (\<lambda>charged_total.
       if charged_total > au_filled_value audit
       then Inl (projection_fault ''seller charged fee audit exceeds cumulative gross value'') else Inr ()))"

definition cumulative_nominal_fees :: "game_config \<Rightarrow> side \<Rightarrow> money \<Rightarrow> step_fatal + fee_components" where
  "cumulative_nominal_fees c sd filled_value =
    (if filled_value = 0 then Inr fee_zero
     else bind_result (map_error projection_money (commission c filled_value)) (\<lambda>comm.
       bind_result (case sd of Buy \<Rightarrow> Inr 0 | Sell \<Rightarrow> map_error projection_money (stamp_tax c filled_value)) (\<lambda>stamp.
       bind_result (map_error projection_money (transfer_fee c filled_value)) (\<lambda>trans.
       Inr \<lparr>fc_commission = comm, fc_stamp_tax = stamp, fc_transfer_fee = trans\<rparr>))))"

text \<open>What an order of the side with this audit has to have reserved.\<close>

definition expected_live :: "game_config \<Rightarrow> side \<Rightarrow> envelope_audit \<Rightarrow> step_fatal + res_vec" where
  "expected_live c sd audit = (case sd of
      Buy \<Rightarrow> bind_result (map_error (MoneyViolation ''pipeline::EnvelopeLedger'')
          (buy_order_reservation c (au_limit audit) (au_remaining_qty audit) (au_filled_value audit)))
        (\<lambda>cash. Inr \<lparr>rv_cash = cash, rv_shares = 0\<rparr>)
    | Sell \<Rightarrow> Inr \<lparr>rv_cash = 0, rv_shares = au_remaining_qty audit\<rparr>)"

definition audit_mismatch :: step_fatal where
  "audit_mismatch = projection_fault ''live-order nominal fee audit disagrees with cumulative filled value''"

definition validate_financial_birth :: "envelope \<Rightarrow> step_fatal + unit" where
  "validate_financial_birth e =
    (if au_filled_value (env_audit e) = 0 \<and> (au_nominal (env_audit e) \<noteq> fee_zero \<or> au_charged (env_audit e) \<noteq> fee_zero)
     then Inl audit_mismatch else Inr ())"

text \<open>The initialiser of the remembered verification.\<close>

definition establish_proof :: "game_config \<Rightarrow> envelope \<Rightarrow> fee_failure + fee_proof" where
  "establish_proof c e = (let sd = ek_side (env_key e); audit = env_audit e;
       proof = \<lparr>fp_inputs = fee_inputs_capture c, fp_revision = env_revision e, fp_calculator = c\<rparr> in
    bind_result (map_error (FatalFailure \<circ> ConfigViolation ''pipeline::EnvelopeLedger'') (Game_Config.validate c)) (\<lambda>_.
    bind_result (map_error FatalFailure (cumulative_nominal_fees c sd (au_filled_value audit))) (\<lambda>nominal.
    if au_nominal audit \<noteq> nominal then Inl (FatalFailure audit_mismatch)
    else bind_result (map_error FatalFailure (validate_charged_audit sd audit)) (\<lambda>_.
    if env_live e \<noteq> res_zero then
      bind_result (map_error FatalFailure (expected_live c sd audit)) (\<lambda>expected.
        if env_live e \<noteq> expected then Inl LiveResources else Inr proof)
    else Inr proof))))"

definition live_mismatch :: "fee_check_site \<Rightarrow> side \<Rightarrow> step_fatal" where
  "live_mismatch site sd = (case site of
      GenericSite \<Rightarrow> ledger_fault ''live envelope projection disagrees with ledger''
    | BookCapture \<Rightarrow> InvariantViolation ''pipeline::continuous_matching_adapter''
        ''continuous order books disagree with live envelope resources''
    | StockRound \<Rightarrow> InvariantViolation ''pipeline::continuous_matching''
        (case sd of Buy \<Rightarrow> ''resting buy envelope disagrees with its exact reservation''
         | Sell \<Rightarrow> ''resting sell envelope disagrees with its quantity''))"

definition failure_at :: "fee_check_site \<Rightarrow> side \<Rightarrow> fee_failure \<Rightarrow> step_fatal" where
  "failure_at site sd f = (case f of FatalFailure err \<Rightarrow> err | LiveResources \<Rightarrow> live_mismatch site sd)"

text \<open>The result, and the envelope with the verification remembered.\<close>

definition verified_live_at :: "game_config \<Rightarrow> fee_check_site \<Rightarrow> envelope \<Rightarrow> (step_fatal + res_vec) \<times> envelope" where
  "verified_live_at c site e =
    try_in (envelope_validate e) e (\<lambda>_.
    try_in (validate_financial_birth e) e (\<lambda>_.
    let result = (case env_proof e of Some r \<Rightarrow> r | None \<Rightarrow> establish_proof c e);
        e' = e\<lparr>env_proof := Some result\<rparr> in
    try_in (map_error (failure_at site (ek_side (env_key e))) result) e' (\<lambda>proof.
    if fp_inputs proof \<noteq> fee_inputs_capture c \<or> fp_revision proof \<noteq> env_revision e
    then (Inl (ledger_fault ''fee inputs or content revision of the verification disagree''), e')
    else (Inr (env_live e), e'))))"

subsection \<open>Changes of an envelope\<close>

definition rebase_for_next_tick :: "envelope \<Rightarrow> (step_fatal + unit) \<times> envelope" where
  "rebase_for_next_tick e =
    (if env_pending e \<noteq> None
     then (Inl (ledger_fault ''live envelope reached tick commit with an unresolved price''), e)
     else let e' = e\<lparr>env_origin := TickStart, env_basis := env_live e, env_spent := res_zero, env_released := res_zero\<rparr> in
       (envelope_validate e', e'))"

definition apply_fault :: "string \<Rightarrow> step_fatal" where
  "apply_fault = InvariantViolation ''pipeline::Envelope::apply''"

text \<open>The candidate with the checks of the change.\<close>

definition changed_envelope :: "receipt_delta \<Rightarrow> envelope_audit \<Rightarrow> bool \<Rightarrow> envelope \<Rightarrow> step_fatal + envelope" where
  "changed_envelope delta audit_after resolved_price e =
    bind_result (res_add (dl_spent delta) (dl_released delta)) (\<lambda>consumed.
    bind_result (res_sub (env_live e) consumed) (\<lambda>expected.
    if expected \<noteq> dl_live_after delta then Inl (apply_fault ''envelope chain mismatch'')
    else bind_result (res_add (env_spent e) (dl_spent delta)) (\<lambda>spent.
    bind_result (res_add (env_released e) (dl_released delta)) (\<lambda>released.
    if resolved_price \<and> env_pending e = None then Inl (apply_fault ''envelope has no pending price'')
    else let candidate = e\<lparr>env_spent := spent, env_released := released, env_live := dl_live_after delta,
        env_audit := audit_after, env_pending := (if resolved_price then None else env_pending e)\<rparr> in
      bind_result (envelope_validate candidate) (\<lambda>_. Inr candidate)))))"

text \<open>
  Changed facts get a new revision and lose the remembered verification; where the old envelope had one that
  succeeded, the new facts are verified at once under its schedule.
\<close>

definition renew_proof :: "envelope \<Rightarrow> envelope \<Rightarrow> step_fatal + envelope" where
  "renew_proof e candidate =
    (if env_audit candidate \<noteq> env_audit e \<or> env_live candidate \<noteq> env_live e \<or> env_pending candidate \<noteq> env_pending e then
       bind_result (ok_or (ledger_fault ''content revision of the order exhausted'') (checked_u64 (env_revision e + 1))) (\<lambda>revision.
       let renewed = candidate\<lparr>env_revision := revision, env_proof := None\<rparr> in
       case env_proof e of
         Some (Inr proof) \<Rightarrow> (case verified_live_at (fp_calculator proof) GenericSite renewed of (r, verified) \<Rightarrow>
           bind_result r (\<lambda>_. Inr verified))
       | _ \<Rightarrow> Inr renewed)
     else Inr candidate)"

text \<open>The new envelope, or the error that leaves the old one in place.\<close>

definition envelope_apply :: "receipt_delta \<Rightarrow> envelope_audit \<Rightarrow> bool \<Rightarrow> envelope \<Rightarrow> step_fatal + envelope" where
  "envelope_apply delta audit_after resolved_price e =
    bind_result (changed_envelope delta audit_after resolved_price e) (renew_proof e)"

end
