(* ===== verification/Receipt_Rules.thy ===== *)
theory Receipt_Rules
  imports Envelope
begin

section \<open>Rules of receipts (session/pipeline/ledger.rs, ledger\_validation.rs, ledger\_candidate.rs)\<close>

text \<open>
  A receipt records one change of an envelope: a fill, the resolution of a symbolic price, a release, a
  reject or a rollover. Before it is applied its kind has to be legal for its source, its fields have to
  continue the audit of the envelope, and its resources have to be those of the side: a buyer pays the
  value and the charge, a seller delivers shares and receives the value less a charge that is taken from
  the components of the fee in a fixed order.
\<close>

datatype receipt_kind =
    Fill
  | PriceResolved limit_price money money
  | Release
  | Reject
  | Rollover

record envelope_receipt =
  rc_index :: nat
  rc_local_key :: receipt_local_key
  rc_envelope :: envelope_key
  rc_kind :: receipt_kind
  rc_qty_before :: nat
  rc_qty_after :: nat
  rc_value_before :: money
  rc_value_after :: money
  rc_delta :: receipt_delta
  rc_nominal :: fee_components
  rc_charged :: fee_components
  rc_charged_before :: fee_components
  rc_charged_after :: fee_components
  rc_deliver_qty :: nat
  rc_deliver_cash :: money

fun is_price_resolved :: "receipt_kind \<Rightarrow> bool" where
  "is_price_resolved (PriceResolved _ _ _) = True"
| "is_price_resolved _ = False"

subsection \<open>Fees\<close>

abbreviation ledger_money :: "money_error \<Rightarrow> step_fatal" where
  "ledger_money \<equiv> MoneyViolation ''pipeline::EnvelopeLedger''"

text \<open>The checked operations of the ledger on amounts.\<close>

definition lm_add :: "money \<Rightarrow> money \<Rightarrow> step_fatal + money" where
  "lm_add a b = map_error ledger_money (money_add a b)"

definition lm_sub :: "money \<Rightarrow> money \<Rightarrow> step_fatal + money" where
  "lm_sub a b = map_error ledger_money (money_sub a b)"

definition lm_total :: "fee_components \<Rightarrow> step_fatal + money" where
  "lm_total f = map_error ledger_money (fee_total f)"

definition fee_add :: "fee_components \<Rightarrow> fee_components \<Rightarrow> step_fatal + fee_components" where
  "fee_add a b =
    bind_result (lm_add (fc_commission a) (fc_commission b)) (\<lambda>comm.
    bind_result (lm_add (fc_stamp_tax a) (fc_stamp_tax b)) (\<lambda>stamp.
    bind_result (lm_add (fc_transfer_fee a) (fc_transfer_fee b)) (\<lambda>trans.
    Inr \<lparr>fc_commission = comm, fc_stamp_tax = stamp, fc_transfer_fee = trans\<rparr>)))"

definition fee_sub :: "fee_components \<Rightarrow> fee_components \<Rightarrow> step_fatal + fee_components" where
  "fee_sub a b =
    (if fee_exceeds b a then Inl (ledger_fault ''fee component subtraction underflow'')
     else bind_result (lm_sub (fc_commission a) (fc_commission b)) (\<lambda>comm.
       bind_result (lm_sub (fc_stamp_tax a) (fc_stamp_tax b)) (\<lambda>stamp.
       bind_result (lm_sub (fc_transfer_fee a) (fc_transfer_fee b)) (\<lambda>trans.
       Inr \<lparr>fc_commission = comm, fc_stamp_tax = stamp, fc_transfer_fee = trans\<rparr>))))"

definition allocate_seller_charge :: "fee_components \<Rightarrow> money \<Rightarrow> step_fatal + fee_components" where
  "allocate_seller_charge unpaid charge_cap =
    (let comm = min (fc_commission unpaid) charge_cap in
     bind_result (lm_sub charge_cap comm) (\<lambda>after_commission.
     let stamp = min (fc_stamp_tax unpaid) after_commission in
     bind_result (lm_sub after_commission stamp) (\<lambda>after_stamp_tax.
     let trans = min (fc_transfer_fee unpaid) after_stamp_tax;
         allocated = \<lparr>fc_commission = comm, fc_stamp_tax = stamp, fc_transfer_fee = trans\<rparr> in
     bind_result (lm_total allocated) (\<lambda>charge.
     if charge \<noteq> charge_cap then Inl (ledger_fault ''seller charge allocation did not exhaust cap'')
     else Inr allocated))))"

subsection \<open>Validation\<close>

definition kind_legal :: "receipt_source \<Rightarrow> receipt_kind \<Rightarrow> bool" where
  "kind_legal s k = (case s of
      QuoteExpiry _ \<Rightarrow> k = Release
    | SealedIntent _ \<Rightarrow> k = Fill \<or> is_price_resolved k \<or> k = Release \<or> k = Reject
    | AuctionSource _ \<Rightarrow> k = Fill \<or> k = Rollover
    | DayEnd _ \<Rightarrow> k = Release)"

definition validate_kind :: "envelope_receipt \<Rightarrow> step_fatal + unit" where
  "validate_kind r = (if kind_legal (lk_source (rc_local_key r)) (rc_kind r) then Inr ()
     else Inl (ledger_fault ''receipt kind is illegal for journal/source''))"

definition validate_fee :: "fee_components \<Rightarrow> step_fatal + unit" where
  "validate_fee f = (if fee_negative f then Inl (ledger_fault ''receipt fee component is negative'') else Inr ())"

text \<open>The disjunction of the source computes the totals only when the components agree.\<close>

definition validate_audit :: "envelope_receipt \<Rightarrow> envelope_audit \<Rightarrow> step_fatal + unit" where
  "validate_audit r audit =
    (if rc_qty_before r \<noteq> au_remaining_qty audit \<or> rc_value_before r \<noteq> au_filled_value audit
        \<or> rc_charged_before r \<noteq> au_charged audit
     then Inl (ledger_fault ''receipt before fields disagree with envelope audit'')
     else if rc_qty_after r > rc_qty_before r \<or> rc_value_after r < rc_value_before r
     then Inl (ledger_fault ''receipt cumulative chain regressed'')
     else bind_result (try_map validate_fee [rc_nominal r, rc_charged r, rc_charged_before r, rc_charged_after r]) (\<lambda>_.
     if rc_kind r = Fill \<and> (rc_qty_after r = rc_qty_before r \<or> rc_value_after r = rc_value_before r)
     then Inl (ledger_fault ''fill receipt has no cumulative movement'')
     else if rc_kind r \<noteq> Fill \<and> (rc_qty_after r \<noteq> rc_qty_before r \<or> rc_value_after r \<noteq> rc_value_before r)
     then Inl (ledger_fault ''non-fill receipt changes cumulative fill audit'')
     else bind_result (fee_add (au_nominal audit) (rc_nominal r)) (\<lambda>nominal_after.
     bind_result (fee_add (au_charged audit) (rc_charged r)) (\<lambda>charged_after.
     if rc_charged_after r \<noteq> charged_after then Inl (ledger_fault ''charged component chain mismatch'')
     else bind_result (lm_total (rc_charged_after r)) (\<lambda>after_total.
     bind_result (lm_total (rc_charged_before r)) (\<lambda>before_total.
     bind_result (lm_total (rc_charged r)) (\<lambda>charge.
     bind_result (lm_add before_total charge) (\<lambda>both.
     if after_total \<noteq> both \<or> fee_exceeds (rc_charged_after r) nominal_after
     then Inl (ledger_fault ''charged component chain mismatch'') else Inr ()))))))))"

definition price_direction_valid :: "limit_price \<Rightarrow> side \<Rightarrow> money \<Rightarrow> money \<Rightarrow> bool" where
  "price_direction_valid pending sd before after = (case pending of
      Highest \<Rightarrow> (case sd of Buy \<Rightarrow> after \<le> before | Sell \<Rightarrow> after = before)
    | Lowest \<Rightarrow> (case sd of Buy \<Rightarrow> after = before | Sell \<Rightarrow> after \<ge> before)
    | Fixed _ \<Rightarrow> False)"

definition validate_price_resolution :: "envelope_receipt \<Rightarrow> envelope_audit \<Rightarrow> envelope \<Rightarrow> step_fatal + unit" where
  "validate_price_resolution r audit e = (case rc_kind r of
      PriceResolved requested before after \<Rightarrow> (case env_pending e of
          None \<Rightarrow> Inl (ledger_fault ''price resolution has no pending symbolic price'')
        | Some pending \<Rightarrow>
            if env_origin e \<noteq> CreatedAtValidation \<or> lk_ordinal (rc_local_key r) \<noteq> 0 \<or> au_filled_qty audit \<noteq> 0
               \<or> before \<noteq> au_limit audit \<or> after \<le> 0 \<or> pending \<noteq> requested
            then Inl (ledger_fault ''price resolution is not the first transition of a pending order created at validation'')
            else if \<not> price_direction_valid pending (ek_side (env_key e)) before after
               \<or> (before = after \<and> dl_released (rc_delta r) \<noteq> res_zero)
               \<or> rv_shares (dl_released (rc_delta r)) \<noteq> 0
               \<or> (ek_side (env_key e) = Sell \<and> rv_cash (dl_released (rc_delta r)) \<noteq> 0)
            then Inl (ledger_fault ''price resolution releases invalid escrow resources'')
            else Inr ())
    | k \<Rightarrow> if env_pending e \<noteq> None \<and> k \<noteq> Reject \<and> k \<noteq> Release
            then Inl (ledger_fault ''pending symbolic price was used before resolution'') else Inr ())"

definition validate_non_fill_transition :: "envelope_receipt \<Rightarrow> step_fatal + unit" where
  "validate_non_fill_transition r =
    (if rc_kind r = Fill then Inr ()
     else if dl_spent (rc_delta r) \<noteq> res_zero \<or> rc_nominal r \<noteq> fee_zero \<or> rc_charged r \<noteq> fee_zero
     then Inl (ledger_fault ''non-fill receipt spends resources or accrues fees'')
     else if rc_kind r = Rollover \<and> dl_released (rc_delta r) \<noteq> res_zero
     then Inl (ledger_fault ''rollover receipt releases live resources'') else Inr ())"

definition receipt_terminal :: "envelope_receipt \<Rightarrow> bool" where
  "receipt_terminal r \<longleftrightarrow> rc_kind r = Release \<or> rc_kind r = Reject \<or> (rc_kind r = Fill \<and> rc_qty_after r = 0)"

text \<open>The difference of quantities, where the source subtracts checked.\<close>

definition receipt_filled :: "string \<Rightarrow> envelope_receipt \<Rightarrow> step_fatal + nat" where
  "receipt_filled message r = (if rc_qty_before r < rc_qty_after r then Inl (ledger_fault message)
     else Inr (rc_qty_before r - rc_qty_after r))"

definition validate_buyer_resources :: "envelope_receipt \<Rightarrow> envelope \<Rightarrow> step_fatal + unit" where
  "validate_buyer_resources r e =
    (if rv_shares (env_live e) \<noteq> 0 \<or> rv_shares (dl_spent (rc_delta r)) \<noteq> 0 \<or> rv_shares (dl_released (rc_delta r)) \<noteq> 0
        \<or> rv_shares (dl_live_after (rc_delta r)) \<noteq> 0
     then Inl (ledger_fault ''buyer share envelope resources must be zero'')
     else bind_result (receipt_filled ''buyer quantity chain regressed'' r) (\<lambda>filled.
     if rc_kind r = Fill then
       bind_result (lm_sub (rc_value_after r) (rc_value_before r)) (\<lambda>gross.
       bind_result (lm_total (rc_charged r)) (\<lambda>charge.
       bind_result (lm_add gross charge) (\<lambda>expected_spent.
       if rc_deliver_qty r \<noteq> filled \<or> rc_deliver_cash r \<noteq> 0 \<or> rv_cash (dl_spent (rc_delta r)) \<noteq> expected_spent
       then Inl (ledger_fault ''buyer fill resource or delivery mismatch'') else Inr ())))
     else if rc_deliver_qty r = 0 \<and> rc_deliver_cash r = 0 then Inr ()
     else Inl (ledger_fault ''non-fill buyer receipt has delivery'')))"

definition validate_seller_fill_charge :: "envelope_receipt \<Rightarrow> envelope_audit \<Rightarrow> money \<Rightarrow> step_fatal + unit" where
  "validate_seller_fill_charge r audit gross =
    (if fee_exceeds (rc_charged_before r) (au_nominal audit)
     then Inl (ledger_fault ''seller charged history exceeds nominal history'')
     else bind_result (lm_total (rc_charged_before r)) (\<lambda>charged_before_total.
     if charged_before_total > rc_value_before r
     then Inl (ledger_fault ''seller charged history exceeds cumulative gross value'')
     else bind_result (fee_add (au_nominal audit) (rc_nominal r)) (\<lambda>nominal_after.
     bind_result (fee_sub nominal_after (rc_charged_before r)) (\<lambda>unpaid.
     bind_result (lm_total nominal_after) (\<lambda>nominal_total.
     bind_result (lm_sub nominal_total charged_before_total) (\<lambda>unpaid_total.
     bind_result (allocate_seller_charge unpaid (min unpaid_total gross)) (\<lambda>expected.
     if rc_charged r \<noteq> expected
     then Inl (ledger_fault ''seller charged delta violates cap or component priority'') else Inr ())))))))"

definition validate_seller_delivery :: "envelope_receipt \<Rightarrow> envelope_audit \<Rightarrow> step_fatal + unit" where
  "validate_seller_delivery r audit =
    bind_result (receipt_filled ''seller quantity chain regressed'' r) (\<lambda>filled.
    if rc_kind r = Fill then
      bind_result (lm_sub (rc_value_after r) (rc_value_before r)) (\<lambda>gross.
      bind_result (validate_seller_fill_charge r audit gross) (\<lambda>_.
      let mismatch = ledger_fault ''seller fill resource or delivery mismatch'' in
      if rc_deliver_qty r \<noteq> 0 \<or> rv_shares (dl_spent (rc_delta r)) \<noteq> filled \<or> rv_shares (dl_released (rc_delta r)) \<noteq> 0
         \<or> rv_shares (dl_live_after (rc_delta r)) \<noteq> rc_qty_after r \<or> rc_deliver_cash r < 0
      then Inl mismatch
      else bind_result (lm_total (rc_charged r)) (\<lambda>charge.
        if charge > gross then Inl mismatch
        else bind_result (lm_add (rc_deliver_cash r) charge) (\<lambda>back.
        if back \<noteq> gross then Inl mismatch else Inr ()))))
    else if rc_deliver_qty r = 0 \<and> rc_deliver_cash r = 0 then Inr ()
    else Inl (ledger_fault ''non-fill seller receipt has delivery''))"

definition validate_resources :: "envelope_receipt \<Rightarrow> envelope \<Rightarrow> step_fatal + unit" where
  "validate_resources r e =
    bind_result (validate_non_fill_transition r) (\<lambda>_.
    if receipt_terminal r \<and> dl_live_after (rc_delta r) \<noteq> res_zero
    then Inl (ledger_fault ''terminal receipt leaves live resources'')
    else case ek_side (env_key e) of
      Buy \<Rightarrow> validate_buyer_resources r e
    | Sell \<Rightarrow>
        if rv_cash (env_live e) \<noteq> 0 \<or> rv_cash (dl_spent (rc_delta r)) \<noteq> 0 \<or> rv_cash (dl_released (rc_delta r)) \<noteq> 0
           \<or> rv_cash (dl_live_after (rc_delta r)) \<noteq> 0
        then Inl (ledger_fault ''seller cash envelope resources must be zero'')
        else validate_seller_delivery r (env_audit e))"

definition validate_envelope_receipt :: "envelope_receipt \<Rightarrow> envelope_audit \<Rightarrow> envelope option \<Rightarrow> step_fatal + unit" where
  "validate_envelope_receipt r audit envelope =
    bind_result (validate_kind r) (\<lambda>_.
    bind_result (validate_audit r audit) (\<lambda>_.
    bind_result (ok_or (ledger_fault ''unknown envelope'') envelope) (\<lambda>e.
    bind_result (validate_price_resolution r audit e) (\<lambda>_. validate_resources r e))))"

definition next_audit :: "envelope_receipt \<Rightarrow> envelope_audit \<Rightarrow> step_fatal + envelope_audit" where
  "next_audit r audit =
    bind_result (receipt_filled ''quantity chain regressed'' r) (\<lambda>filled.
    bind_result (ok_or (ledger_fault ''filled quantity overflow'') (checked_u32 (au_filled_qty audit + filled))) (\<lambda>filled_qty.
    bind_result (fee_add (au_nominal audit) (rc_nominal r)) (\<lambda>nominal.
    Inr \<lparr>au_limit = (case rc_kind r of PriceResolved _ _ after \<Rightarrow> after | _ \<Rightarrow> au_limit audit),
      au_remaining_qty = rc_qty_after r, au_filled_qty = filled_qty, au_filled_value = rc_value_after r,
      au_nominal = nominal, au_charged = rc_charged_after r\<rparr>)))"

subsection \<open>Order and numbers of a batch\<close>

text \<open>
  One envelope's fills are applied along its own chain of quantities, so that the batch is sorted by it
  before the local key. The sort is stable.
\<close>

definition receipt_order ::
    "envelope_receipt \<Rightarrow> nat \<times> nat \<times> envelope_key \<times> nat reverse \<times> money \<times> nat \<times> nat \<times> nat \<times> nat \<times> envelope_key \<times> nat" where
  "receipt_order r = (journal_order (lk_journal (rc_local_key r)), source_rank (lk_source (rc_local_key r)), rc_envelope r,
     Reverse (rc_qty_before r), rc_value_before r, (if is_price_resolved (rc_kind r) then 0 else 1), local_order (rc_local_key r))"

fun number_receipts :: "nat \<Rightarrow> envelope_receipt list \<Rightarrow> (step_fatal + envelope_receipt list) \<times> nat" where
  "number_receipts n [] = (Inr [], n)"
| "number_receipts n (r # rs) =
    try_in (ok_or (ledger_fault ''receipt index overflow'') (checked_u64 (n + 1))) n (\<lambda>n'.
    try_st (number_receipts n' rs) (\<lambda>rs' n''. (Inr (r\<lparr>rc_index := n\<rparr> # rs'), n'')))"

definition indexed_of :: "envelope_receipt \<Rightarrow> indexed_key" where
  "indexed_of r = \<lparr>ik_index = rc_index r, ik_envelope = rc_envelope r, ik_local = rc_local_key r\<rparr>"

definition index_in_order :: "nat \<Rightarrow> envelope_receipt list \<Rightarrow> (step_fatal + envelope_receipt list) \<times> nat" where
  "index_in_order n rs = try_st (number_receipts n rs) (\<lambda>candidate n'.
     try_in (validate_indexed_receipt_keys (map indexed_of candidate)) n' (\<lambda>_. (Inr candidate, n')))"

definition normalize :: "nat \<Rightarrow> envelope_receipt list \<Rightarrow> (step_fatal + envelope_receipt list) \<times> nat" where
  "normalize n rs = index_in_order n (sort_key receipt_order rs)"

end
