(* ===== verification/Paged_Map.thy ===== *)
theory Paged_Map
  imports Receipt_Key
begin

section \<open>Rows of the ledger in pages (session/pipeline/ledger\_paged\_map.rs)\<close>

text \<open>
  The ledger keeps its rows in pages of 32 accounts, and sixteen pages to a group, so that a copy for
  a candidate shares all pages but the changed ones. Sharing is not visible in a functional map; the
  layout is. The contract a client may rely on is the locale \<open>row_map\<close>, a sorted map; the
  paged map is shown to meet it, so that pages are an implementation of it.
\<close>

definition page_shift :: nat where "page_shift = 5"
definition group_shift :: nat where "group_shift = 4"

type_synonym 'v page = "(envelope_key, 'v) bt"
type_synonym 'v page_group = "(nat, 'v page) bt"

record 'v paged_map =
  pm_groups :: "(nat, 'v page_group) bt"
  pm_len :: nat

definition pm_empty :: "'v paged_map" where
  "pm_empty = \<lparr>pm_groups = [], pm_len = 0\<rparr>"

text \<open>Shifts and masks of an unsigned number, as quotients and remainders.\<close>

definition group_of :: "envelope_key \<Rightarrow> nat" where
  "group_of k = ek_account k div 2 ^ (page_shift + group_shift)"

definition page_of :: "envelope_key \<Rightarrow> nat" where
  "page_of k = ek_account k div 2 ^ page_shift mod 2 ^ group_shift"

definition or_default :: "('k, 'v) bt option \<Rightarrow> ('k, 'v) bt" where
  "or_default x = (case x of None \<Rightarrow> [] | Some m \<Rightarrow> m)"

definition group_at :: "'v paged_map \<Rightarrow> nat \<Rightarrow> 'v page_group" where
  "group_at m g = or_default (map_of (pm_groups m) g)"

definition page_at :: "'v paged_map \<Rightarrow> nat \<Rightarrow> nat \<Rightarrow> 'v page" where
  "page_at m g p = or_default (map_of (group_at m g) p)"

definition pm_get :: "'v paged_map \<Rightarrow> envelope_key \<Rightarrow> 'v option" where
  "pm_get m k = (case map_of (pm_groups m) (group_of k) of None \<Rightarrow> None | Some grp \<Rightarrow>
     (case map_of grp (page_of k) of None \<Rightarrow> None | Some page \<Rightarrow> map_of page k))"

text \<open>What a write through \<open>get_mut\<close> leaves.\<close>

definition pm_update :: "envelope_key \<Rightarrow> 'v \<Rightarrow> 'v paged_map \<Rightarrow> 'v paged_map" where
  "pm_update k v m = m\<lparr>pm_groups := bt_update (group_of k)
     (bt_update (page_of k) (bt_update k v (page_at m (group_of k) (page_of k))) (group_at m (group_of k))) (pm_groups m)\<rparr>"

definition pm_insert :: "envelope_key \<Rightarrow> 'v \<Rightarrow> 'v paged_map \<Rightarrow> 'v option \<times> 'v paged_map" where
  "pm_insert k v m = (let page = page_at m (group_of k) (page_of k); previous = map_of page k;
       grp = bt_insert (page_of k) (bt_insert k v page) (group_at m (group_of k)) in
     (previous, \<lparr>pm_groups = bt_insert (group_of k) grp (pm_groups m),
       pm_len = (if previous = None then pm_len m + 1 else pm_len m)\<rparr>))"

definition pm_remove :: "envelope_key \<Rightarrow> 'v paged_map \<Rightarrow> 'v option \<times> 'v paged_map" where
  "pm_remove k m = (case map_of (pm_groups m) (group_of k) of None \<Rightarrow> (None, m) | Some grp \<Rightarrow>
     (case map_of grp (page_of k) of None \<Rightarrow> (None, m) | Some page \<Rightarrow>
       let removed = map_of page k; page' = bt_remove k page;
         grp' = (if page' = [] then bt_remove (page_of k) grp else bt_update (page_of k) page' grp);
         groups = (if grp' = [] then bt_remove (group_of k) (pm_groups m) else bt_update (group_of k) grp' (pm_groups m)) in
       (removed, \<lparr>pm_groups = groups, pm_len = (if removed \<noteq> None then pm_len m - 1 else pm_len m)\<rparr>)))"

definition pm_clear :: "'v paged_map \<Rightarrow> 'v paged_map" where
  "pm_clear m = pm_empty"

text \<open>Page numbers are below sixteen, so that the bitwise or of the source is a sum.\<close>

definition pm_pages :: "'v paged_map \<Rightarrow> (nat \<times> 'v page) list" where
  "pm_pages m = concat (map (\<lambda>(g, grp). map (\<lambda>(p, page). (g * 2 ^ group_shift + p, page)) grp) (pm_groups m))"

definition pm_entries :: "'v paged_map \<Rightarrow> (envelope_key, 'v) bt" where
  "pm_entries m = concat (map (\<lambda>(g, grp). concat (map snd grp)) (pm_groups m))"

definition pm_contains :: "'v paged_map \<Rightarrow> envelope_key \<Rightarrow> bool" where
  "pm_contains m k \<longleftrightarrow> pm_get m k \<noteq> None"

definition pm_is_empty :: "'v paged_map \<Rightarrow> bool" where
  "pm_is_empty m \<longleftrightarrow> pm_len m = 0"

definition pm_from :: "(envelope_key, 'v) bt \<Rightarrow> 'v paged_map" where
  "pm_from rows = fold (\<lambda>(k, v) m. snd (pm_insert k v m)) rows pm_empty"

subsection \<open>The contract\<close>

locale row_map =
  fixes ok :: "'m \<Rightarrow> bool"
    and empty :: 'm
    and get :: "'m \<Rightarrow> 'k::linorder \<Rightarrow> 'v option"
    and insert :: "'k \<Rightarrow> 'v \<Rightarrow> 'm \<Rightarrow> 'v option \<times> 'm"
    and update :: "'k \<Rightarrow> 'v \<Rightarrow> 'm \<Rightarrow> 'm"
    and remove :: "'k \<Rightarrow> 'm \<Rightarrow> 'v option \<times> 'm"
    and entries :: "'m \<Rightarrow> ('k, 'v) bt"
    and size_of :: "'m \<Rightarrow> nat"
  assumes empty_ok: "ok empty" and entries_empty: "entries empty = []"
    and sorted_entries: "ok m \<Longrightarrow> bt_sorted (entries m)"
    and get_entries: "ok m \<Longrightarrow> get m k = map_of (entries m) k"
    and insert_ok: "ok m \<Longrightarrow> ok (snd (insert k v m))"
    and insert_previous: "ok m \<Longrightarrow> fst (insert k v m) = get m k"
    and get_insert: "ok m \<Longrightarrow> get (snd (insert k v m)) k' = (if k' = k then Some v else get m k')"
    and update_ok: "ok m \<Longrightarrow> ok (update k v m)"
    and get_update: "ok m \<Longrightarrow> get (update k v m) k' = (if k' = k \<and> get m k \<noteq> None then Some v else get m k')"
    and remove_ok: "ok m \<Longrightarrow> ok (snd (remove k m))"
    and remove_removed: "ok m \<Longrightarrow> fst (remove k m) = get m k"
    and get_remove: "ok m \<Longrightarrow> get (snd (remove k m)) k' = (if k' = k then None else get m k')"
    and size_entries: "ok m \<Longrightarrow> size_of m = length (entries m)"
begin

text \<open>The operations on the sorted list of entries.\<close>

lemma entries_by_get:
  assumes "ok m" "bt_sorted xs" "\<And>k. map_of xs k = get m k"
  shows "entries m = xs"
  by (rule bt_map_of_determined) (use assms sorted_entries get_entries in \<open>auto simp: fun_eq_iff\<close>)

lemma entries_insert: "ok m \<Longrightarrow> entries (snd (insert k v m)) = bt_insert k v (entries m)"
  by (rule entries_by_get) (auto simp: insert_ok sorted_entries map_of_bt_insert get_insert simp flip: get_entries)

lemma entries_update: "ok m \<Longrightarrow> entries (update k v m) = bt_update k v (entries m)"
  by (rule entries_by_get) (auto simp: update_ok sorted_entries map_of_bt_update get_update simp flip: get_entries)

lemma entries_remove: "ok m \<Longrightarrow> entries (snd (remove k m)) = bt_remove k (entries m)"
  by (rule entries_by_get) (auto simp: remove_ok sorted_entries map_of_bt_remove get_remove simp flip: get_entries)

lemma entries_get: "ok m \<Longrightarrow> (k, v) \<in> set (entries m) \<longleftrightarrow> get m k = Some v"
  using bt_get_iff [OF sorted_entries] get_entries by metis

lemma entries_eq: "ok m \<Longrightarrow> ok m' \<Longrightarrow> (\<And>k. get m k = get m' k) \<Longrightarrow> entries m = entries m'"
  by (rule entries_by_get) (auto simp: sorted_entries get_entries)

lemma insert_all:
  "ok m \<Longrightarrow> ok (fold (\<lambda>(k, v) m. snd (insert k v m)) rows m)
     \<and> entries (fold (\<lambda>(k, v) m. snd (insert k v m)) rows m) = fold (\<lambda>(k, v). bt_insert k v) rows (entries m)"
  by (induction rows arbitrary: m) (auto simp: insert_ok entries_insert)

lemma keys_get: "ok m \<Longrightarrow> k \<in> fst ` set (entries m) \<longleftrightarrow> get m k \<noteq> None"
  by (metis get_entries map_of_eq_None_iff)

lemma size_keys: "ok m \<Longrightarrow> size_of m = card (fst ` set (entries m))"
  using bt_sorted_distinct [OF sorted_entries, of m] size_entries [of m] distinct_card [of "map fst (entries m)"] by simp

end

subsection \<open>Maps of maps\<close>

text \<open>
  A map from classes to maps whose keys have the class. When the classes of the keys are ordered like the
  keys, the inner maps in order are one sorted map.
\<close>

definition nested :: "('k::linorder \<Rightarrow> 'c::linorder) \<Rightarrow> ('c, ('k, 'v) bt) bt \<Rightarrow> bool" where
  "nested cls xs \<longleftrightarrow> bt_sorted xs \<and> (\<forall>(c, ys)\<in>set xs. bt_sorted ys \<and> ys \<noteq> [] \<and> (\<forall>k\<in>fst ` set ys. cls k = c))"

lemma nested_Cons: "nested cls ((c, ys) # xs) \<longleftrightarrow> (\<forall>x\<in>set xs. c < fst x) \<and> bt_sorted ys \<and> ys \<noteq> []
    \<and> (\<forall>k\<in>fst ` set ys. cls k = c) \<and> nested cls xs"
  by (auto simp: nested_def)

lemma nested_flat:
  assumes "nested cls xs"
    and mono: "\<And>k k'. k \<in> K \<Longrightarrow> k' \<in> K \<Longrightarrow> cls k < cls k' \<Longrightarrow> k < k'"
    and within: "\<forall>(c, ys)\<in>set xs. fst ` set ys \<subseteq> K"
  shows "bt_sorted (concat (map snd xs)) \<and> (\<forall>k. map_of (concat (map snd xs)) k
    = (case map_of xs (cls k) of None \<Rightarrow> None | Some ys \<Rightarrow> map_of ys k))"
  using assms(1,3)
proof (induction xs)
  case (Cons x xs)
  obtain c ys where x: "x = (c, ys)" by (cases x)
  let ?rest = "concat (map snd xs)"
  have n: "\<forall>x\<in>set xs. c < fst x" "bt_sorted ys" "\<forall>k\<in>fst ` set ys. cls k = c" "nested cls xs"
    using Cons.prems(1) by (auto simp: x nested_Cons)
  have ih: "bt_sorted ?rest" "\<And>k. map_of ?rest k = (case map_of xs (cls k) of None \<Rightarrow> None | Some ys \<Rightarrow> map_of ys k)"
    using Cons.IH [OF n(4)] Cons.prems(2) by auto
  have below: "fst a < fst b" if a: "a \<in> set ys" and b: "b \<in> set ?rest" for a b
  proof (rule mono)
    from b obtain d zs where z: "(d, zs) \<in> set xs" "b \<in> set zs" by auto
    then have "cls (fst b) = d" "c < d" using n(1,4) unfolding nested_def by fastforce+
    moreover have "cls (fst a) = c" using n(3) a by blast
    ultimately show "cls (fst a) < cls (fst b)" by simp
    show "fst a \<in> K" "fst b \<in> K" using a z Cons.prems(2) by (auto simp: x dest!: bspec [of _ _ "(d, zs)"])
  qed
  have "bt_sorted (ys @ ?rest)"
    using n(2) ih(1) below unfolding bt_sorted_def map_append sorted_wrt_append set_map ball_simps by blast
  moreover have "map_of (ys @ ?rest) k = (case map_of (x # xs) (cls k) of None \<Rightarrow> None | Some ys \<Rightarrow> map_of ys k)" for k
  proof (cases "cls k = c")
    case True
    have "map_of xs c = None" using n(1) by (auto simp: map_of_eq_None_iff)
    with True ih(2) [of k] show ?thesis by (cases "map_of ys k") (auto simp: x map_add_def)
  next
    case False
    then have "map_of ys k = None" using n(3) by (auto simp: map_of_eq_None_iff)
    with False ih(2) [of k] show ?thesis by (auto simp: x map_add_def split: option.splits)
  qed
  ultimately show ?case by (simp add: x)
qed simp

lemma nested_get: "nested cls xs \<Longrightarrow> map_of xs c = Some ys \<Longrightarrow> bt_sorted ys \<and> ys \<noteq> [] \<and> (\<forall>k\<in>fst ` set ys. cls k = c)"
  by (drule map_of_SomeD) (auto simp: nested_def)

lemma nested_insert:
  assumes "nested cls xs" "bt_sorted ys" "ys \<noteq> []" "\<forall>k\<in>fst ` set ys. cls k = c"
  shows "nested cls (bt_insert c ys xs)"
  using assms by (auto simp: nested_def set_bt_insert)

lemma nested_update:
  assumes "nested cls xs" "bt_sorted ys" "ys \<noteq> []" "\<forall>k\<in>fst ` set ys. cls k = c"
  shows "nested cls (bt_update c ys xs)"
proof -
  have "set (bt_update c ys xs) \<subseteq> insert (c, ys) (set xs)" by (auto simp: bt_update_def)
  with assms show ?thesis unfolding nested_def by (auto dest!: subsetD)
qed

lemma nested_remove: "nested cls xs \<Longrightarrow> nested cls (bt_remove c xs)"
  by (auto simp: nested_def)

subsection \<open>The paged map meets the contract\<close>

definition group_ok :: "nat \<Rightarrow> 'v page_group \<Rightarrow> bool" where
  "group_ok g grp \<longleftrightarrow> nested page_of grp \<and> grp \<noteq> [] \<and> (\<forall>(p, page)\<in>set grp. \<forall>k\<in>fst ` set page. group_of k = g)"

definition pm_ok :: "'v paged_map \<Rightarrow> bool" where
  "pm_ok m \<longleftrightarrow> bt_sorted (pm_groups m) \<and> (\<forall>(g, grp)\<in>set (pm_groups m). group_ok g grp) \<and> pm_len m = length (pm_entries m)"

lemma group_less: "group_of k < group_of k' \<Longrightarrow> k < k'"
  unfolding group_of_def envelope_key_less by (meson div_le_mono leD not_le_imp_less)

lemma page_less: "group_of k = group_of k' \<Longrightarrow> page_of k < page_of k' \<Longrightarrow> k < k'"
proof -
  let ?q = "\<lambda>k. ek_account k div 2 ^ page_shift"
  assume "group_of k = group_of k'" "page_of k < page_of k'"
  then have g: "?q k div 2 ^ group_shift = ?q k' div 2 ^ group_shift" and p: "?q k mod 2 ^ group_shift < ?q k' mod 2 ^ group_shift"
    by (simp_all add: group_of_def page_of_def power_add div_mult2_eq)
  have "?q k = ?q k div 2 ^ group_shift * 2 ^ group_shift + ?q k mod 2 ^ group_shift" by (rule div_mult_mod_eq [symmetric])
  also have "\<dots> < ?q k' div 2 ^ group_shift * 2 ^ group_shift + ?q k' mod 2 ^ group_shift" using g p by simp
  also have "\<dots> = ?q k'" by (rule div_mult_mod_eq)
  finally have "?q k < ?q k'" .
  then have "ek_account k < ek_account k'" by (meson div_le_mono leD not_le_imp_less)
  then show "k < k'" by (simp add: envelope_key_less)
qed

lemma group_entries:
  assumes "group_ok g grp"
  shows "bt_sorted (concat (map snd grp))" "concat (map snd grp) \<noteq> []" "\<forall>k\<in>fst ` set (concat (map snd grp)). group_of k = g"
    "map_of (concat (map snd grp)) k = (case map_of grp (page_of k) of None \<Rightarrow> None | Some page \<Rightarrow> map_of page k)"
proof -
  have n: "nested page_of grp" "grp \<noteq> []" using assms by (simp_all add: group_ok_def)
  have "\<forall>(c, ys)\<in>set grp. fst ` set ys \<subseteq> {k. group_of k = g}" using assms by (auto simp: group_ok_def)
  from nested_flat [OF n(1) _ this] page_less
  show "bt_sorted (concat (map snd grp))"
    "map_of (concat (map snd grp)) k = (case map_of grp (page_of k) of None \<Rightarrow> None | Some page \<Rightarrow> map_of page k)" by auto
  show "\<forall>k\<in>fst ` set (concat (map snd grp)). group_of k = g" using assms by (fastforce simp: group_ok_def)
  show "concat (map snd grp) \<noteq> []" using n by (cases grp) (auto simp: nested_def)
qed

text \<open>The groups with their pages joined.\<close>

definition joined :: "'v paged_map \<Rightarrow> (nat, (envelope_key, 'v) bt) bt" where
  "joined m = map (\<lambda>(g, grp). (g, concat (map snd grp))) (pm_groups m)"

lemma map_of_joined: "map_of (joined m) g = map_option (\<lambda>grp. concat (map snd grp)) (map_of (pm_groups m) g)"
  by (simp add: joined_def map_of_map)

lemma entries_joined: "pm_entries m = concat (map snd (joined m))"
  by (auto simp: pm_entries_def joined_def intro!: arg_cong [of _ _ concat])

definition groups_ok :: "'v paged_map \<Rightarrow> bool" where
  "groups_ok m \<longleftrightarrow> bt_sorted (pm_groups m) \<and> (\<forall>(g, grp)\<in>set (pm_groups m). group_ok g grp)"

lemma groups_nested: "groups_ok m \<Longrightarrow> nested group_of (joined m)"
  using group_entries(1-3) unfolding groups_ok_def nested_def joined_def
  by (fastforce simp: bt_sorted_def sorted_wrt_map case_prod_beta)

lemma pm_entries_get:
  assumes "groups_ok m"
  shows "bt_sorted (pm_entries m)" "map_of (pm_entries m) k = pm_get m k"
proof -
  note flat = nested_flat [OF groups_nested [OF assms], of UNIV, simplified, OF group_less]
  show "bt_sorted (pm_entries m)" using flat by (auto simp: entries_joined)
  show "map_of (pm_entries m) k = pm_get m k"
  proof (cases "map_of (pm_groups m) (group_of k)")
    case None
    with flat show ?thesis by (auto simp: entries_joined map_of_joined pm_get_def)
  next
    case (Some grp)
    then have "group_ok (group_of k) grp" using assms by (auto simp: groups_ok_def dest: map_of_SomeD)
    with flat Some group_entries(4) show ?thesis by (auto simp: entries_joined map_of_joined pm_get_def)
  qed
qed

lemma pm_ok_iff: "pm_ok m \<longleftrightarrow> groups_ok m \<and> pm_len m = length (pm_entries m)"
  by (auto simp: pm_ok_def groups_ok_def)

lemma group_at_ok:
  assumes "groups_ok m"
  shows "nested page_of (group_at m g) \<and> (\<forall>(p, page)\<in>set (group_at m g). \<forall>k\<in>fst ` set page. group_of k = g)"
proof (cases "map_of (pm_groups m) g")
  case None
  then show ?thesis by (simp add: group_at_def or_default_def nested_def)
next
  case (Some grp)
  then have "group_ok g grp" using assms by (auto simp: groups_ok_def dest!: map_of_SomeD)
  with Some show ?thesis by (simp add: group_at_def or_default_def group_ok_def)
qed

lemma page_at_ok:
  assumes "groups_ok m"
  shows "bt_sorted (page_at m g p) \<and> (\<forall>k\<in>fst ` set (page_at m g p). group_of k = g \<and> page_of k = p)"
proof (cases "map_of (group_at m g) p")
  case None
  then show ?thesis by (simp add: page_at_def or_default_def)
next
  case (Some page)
  have "(p, page) \<in> set (group_at m g)" using Some by (rule map_of_SomeD)
  with group_at_ok [OF assms, of g] nested_get [OF _ Some] show ?thesis
    by (fastforce simp: page_at_def or_default_def Some)
qed

lemma page_at_get: "map_of (page_at m (group_of k) (page_of k)) k = pm_get m k"
  by (simp add: page_at_def group_at_def pm_get_def or_default_def split: option.split)

text \<open>Putting a non-empty page back.\<close>

lemma put_page_ok:
  assumes "groups_ok m" "bt_sorted page" "page \<noteq> []" "\<forall>k'\<in>fst ` set page. group_of k' = g \<and> page_of k' = p"
  shows "group_ok g (bt_insert p page (group_at m g))"
proof -
  have "nested page_of (bt_insert p page (group_at m g))"
    using nested_insert [of page_of "group_at m g" page p] group_at_ok [OF assms(1), of g] assms by blast
  moreover have "bt_sorted (group_at m g)" using group_at_ok [OF assms(1), of g] by (simp add: nested_def)
  then have "set (bt_insert p page (group_at m g)) = insert (p, page) {x \<in> set (group_at m g). fst x \<noteq> p}" by (rule set_bt_insert)
  ultimately show ?thesis using group_at_ok [OF assms(1), of g] assms(4) unfolding group_ok_def by fastforce
qed

lemma bt_update_insert: "map_of xs k \<noteq> None \<Longrightarrow> bt_sorted xs \<Longrightarrow> bt_update k v xs = bt_insert k v xs"
  by (rule bt_map_of_determined) (auto simp: map_of_bt_update map_of_bt_insert)

lemma put_group_ok:
  assumes "groups_ok m" "group_ok g grp"
  shows "groups_ok \<lparr>pm_groups = bt_insert g grp (pm_groups m), pm_len = n\<rparr>"
  using assms set_bt_insert [of "pm_groups m" g grp] by (auto simp: groups_ok_def)

text \<open>What is found after a page was put back.\<close>

lemma get_put:
  assumes "groups_ok m"
  shows "pm_get \<lparr>pm_groups = bt_insert (group_of k) (bt_insert (page_of k) page (group_at m (group_of k))) (pm_groups m), pm_len = n\<rparr> k'
    = (if group_of k' = group_of k \<and> page_of k' = page_of k then map_of page k' else pm_get m k')"
proof -
  have "bt_sorted (pm_groups m)" "bt_sorted (group_at m (group_of k))"
    using assms group_at_ok [OF assms] by (auto simp: groups_ok_def nested_def)
  then show ?thesis
    by (auto simp: pm_get_def map_of_bt_insert group_at_def or_default_def split: option.splits)
qed

lemma pm_insert_laws:
  assumes "groups_ok m"
  shows "groups_ok (snd (pm_insert k v m))" "fst (pm_insert k v m) = pm_get m k"
    "pm_get (snd (pm_insert k v m)) k' = (if k' = k then Some v else pm_get m k')"
proof -
  let ?page = "bt_insert k v (page_at m (group_of k) (page_of k))"
  note page = page_at_ok [OF assms, of "group_of k" "page_of k"]
  have new: "bt_sorted ?page" "?page \<noteq> []" "\<forall>k'\<in>fst ` set ?page. group_of k' = group_of k \<and> page_of k' = page_of k"
    using page set_bt_insert [of "page_at m (group_of k) (page_of k)" k v] by auto
  show "groups_ok (snd (pm_insert k v m))"
    using put_group_ok [OF assms put_page_ok [OF assms new]] by (simp add: pm_insert_def Let_def)
  show "fst (pm_insert k v m) = pm_get m k" by (simp add: pm_insert_def Let_def page_at_get)
  show "pm_get (snd (pm_insert k v m)) k' = (if k' = k then Some v else pm_get m k')"
    using page by (auto simp: pm_insert_def Let_def get_put [OF assms] map_of_bt_insert)
      (metis page_at_get)+
qed

lemma pm_update_insert:
  assumes "groups_ok m" "pm_get m k \<noteq> None"
  shows "pm_update k v m = \<lparr>pm_groups = pm_groups (snd (pm_insert k v m)), pm_len = pm_len m\<rparr>"
proof -
  have "map_of (pm_groups m) (group_of k) \<noteq> None" "map_of (group_at m (group_of k)) (page_of k) \<noteq> None"
    "map_of (page_at m (group_of k) (page_of k)) k \<noteq> None"
    using assms(2) by (auto simp: pm_get_def group_at_def page_at_def or_default_def split: option.splits)
  moreover have "bt_sorted (pm_groups m)" "bt_sorted (group_at m (group_of k))" "bt_sorted (page_at m (group_of k) (page_of k))"
    using assms(1) group_at_ok [OF assms(1)] page_at_ok [OF assms(1)] by (auto simp: groups_ok_def nested_def)
  ultimately show ?thesis by (simp add: pm_update_def pm_insert_def Let_def bt_update_insert)
qed

lemma pm_update_absent:
  assumes "groups_ok m" "pm_get m k = None"
  shows "pm_update k v m = m"
proof -
  let ?page = "page_at m (group_of k) (page_of k)"
  have "bt_update k v ?page = ?page" using assms(2) by (simp add: bt_update_absent page_at_get)
  moreover have same: "bt_update c x xs = xs" if "bt_sorted xs" "map_of xs c = None \<or> map_of xs c = Some x" for c x and xs :: "(nat, 'b) bt"
    by (rule bt_map_of_determined) (use that in \<open>auto simp: map_of_bt_update fun_eq_iff\<close>)
  have sorted: "bt_sorted (pm_groups m)" "bt_sorted (group_at m (group_of k))"
    using assms(1) group_at_ok [OF assms(1)] by (auto simp: groups_ok_def nested_def)
  have "bt_update (page_of k) ?page (group_at m (group_of k)) = group_at m (group_of k)"
    by (rule same [OF sorted(2)]) (auto simp: page_at_def or_default_def split: option.splits)
  moreover have "bt_update (group_of k) (group_at m (group_of k)) (pm_groups m) = pm_groups m"
    by (rule same [OF sorted(1)]) (auto simp: group_at_def or_default_def split: option.splits)
  ultimately show ?thesis by (simp add: pm_update_def)
qed

text \<open>A map with an inner map replaced, or taken out when it is empty.\<close>

definition put_or_drop :: "'c \<Rightarrow> 'x list \<Rightarrow> ('c, 'x list) bt \<Rightarrow> ('c, 'x list) bt" where
  "put_or_drop c ys xs = (if ys = [] then bt_remove c xs else bt_update c ys xs)"

lemma map_of_put_or_drop:
  "map_of xs c \<noteq> None \<Longrightarrow> map_of (put_or_drop c ys xs) d = (if d = c then (if ys = [] then None else Some ys) else map_of xs d)"
  by (auto simp: put_or_drop_def map_of_bt_remove map_of_bt_update)

lemma set_put_or_drop: "set (put_or_drop c ys xs) \<subseteq> (if ys = [] then {} else {(c, ys)}) \<union> {x \<in> set xs. fst x \<noteq> c}"
  by (auto simp: put_or_drop_def bt_update_def split: if_splits)

lemma nested_put_or_drop:
  "nested cls xs \<Longrightarrow> bt_sorted ys \<Longrightarrow> \<forall>k\<in>fst ` set ys. cls k = c \<Longrightarrow> nested cls (put_or_drop c ys xs)"
  by (auto simp: put_or_drop_def nested_remove nested_update)

lemma pm_remove_parts:
  assumes "map_of (pm_groups m) (group_of k) = Some grp" "map_of grp (page_of k) = Some page"
  shows "pm_remove k m = (map_of page k, \<lparr>pm_groups = put_or_drop (group_of k) (put_or_drop (page_of k) (bt_remove k page) grp) (pm_groups m),
    pm_len = (if map_of page k \<noteq> None then pm_len m - 1 else pm_len m)\<rparr>)"
  using assms by (simp add: pm_remove_def Let_def put_or_drop_def)

lemma pm_remove_laws:
  assumes "groups_ok m"
  shows "groups_ok (snd (pm_remove k m))" "fst (pm_remove k m) = pm_get m k"
    "pm_get (snd (pm_remove k m)) k' = (if k' = k then None else pm_get m k')"
proof -
  consider (absent) "pm_remove k m = (None, m)" "pm_get m k = None"
    | (present) grp page where "map_of (pm_groups m) (group_of k) = Some grp" "map_of grp (page_of k) = Some page"
  proof (cases "map_of (pm_groups m) (group_of k)")
    case None
    then show thesis by (intro absent) (simp_all add: pm_remove_def pm_get_def)
  next
    case (Some grp)
    then show thesis using present absent
      by (cases "map_of grp (page_of k)") (simp_all add: pm_remove_def pm_get_def)
  qed
  then have "groups_ok (snd (pm_remove k m)) \<and> fst (pm_remove k m) = pm_get m k
    \<and> pm_get (snd (pm_remove k m)) k' = (if k' = k then None else pm_get m k')"
  proof cases
    case absent
    with assms show ?thesis by simp
  next
    case present
    have grp: "group_ok (group_of k) grp" using assms map_of_SomeD [OF present(1)] by (auto simp: groups_ok_def)
    then have n: "nested page_of grp" by (simp add: group_ok_def)
    note page = nested_get [OF n present(2)]
    let ?page = "bt_remove k page" and ?grp = "put_or_drop (page_of k) (bt_remove k page) grp"
    have "nested page_of ?grp" by (rule nested_put_or_drop [OF n]) (use page in auto)
    moreover have "\<forall>(p, pg)\<in>set ?grp. \<forall>k'\<in>fst ` set pg. group_of k' = group_of k"
    proof -
      have old: "\<forall>(p, pg)\<in>set grp. \<forall>k'\<in>fst ` set pg. group_of k' = group_of k" using grp by (simp add: group_ok_def)
      have "fst ` set ?page \<subseteq> fst ` set page" by auto
      then have mine: "\<forall>k'\<in>fst ` set ?page. group_of k' = group_of k" using bspec [OF old map_of_SomeD [OF present(2)]] by blast
      have "x = (page_of k, ?page) \<or> x \<in> set grp" if "x \<in> set ?grp" for x
        using that set_put_or_drop [of "page_of k" ?page grp] by (cases "?page = []") auto
      with old mine show ?thesis by blast
    qed
    ultimately have new: "?grp \<noteq> [] \<Longrightarrow> group_ok (group_of k) ?grp" by (simp add: group_ok_def)
    have "groups_ok \<lparr>pm_groups = put_or_drop (group_of k) ?grp (pm_groups m), pm_len = x\<rparr>" for x
    proof -
      have "bt_sorted (put_or_drop (group_of k) ?grp (pm_groups m))"
        using assms by (simp add: put_or_drop_def groups_ok_def)
      with new assms set_put_or_drop [of "group_of k" ?grp "pm_groups m"] show ?thesis
        unfolding groups_ok_def by (fastforce split: if_splits)
    qed
    moreover have "pm_get \<lparr>pm_groups = put_or_drop (group_of k) ?grp (pm_groups m), pm_len = x\<rparr> k'
        = (if k' = k then None else pm_get m k')" for x
    proof (cases "group_of k' = group_of k")
      case True
      have "pm_get \<lparr>pm_groups = put_or_drop (group_of k) ?grp (pm_groups m), pm_len = x\<rparr> k'
          = (case map_of ?grp (page_of k') of None \<Rightarrow> None | Some pg \<Rightarrow> map_of pg k')"
        using True present by (cases "?grp = []") (simp_all add: pm_get_def map_of_put_or_drop)
      also have "\<dots> = (if page_of k' = page_of k then map_of ?page k' else pm_get m k')"
        using True present by (cases "?page = []") (simp_all add: pm_get_def map_of_put_or_drop)
      also have "\<dots> = (if k' = k then None else pm_get m k')"
        using True present by (auto simp: pm_get_def map_of_bt_remove)
      finally show ?thesis .
    next
      case False
      with present show ?thesis by (auto simp: pm_get_def map_of_put_or_drop)
    qed
    moreover have "pm_get m k = map_of page k" using present by (simp add: pm_get_def)
    ultimately show ?thesis by (simp add: pm_remove_parts [OF present])
  qed
  then show "groups_ok (snd (pm_remove k m))" "fst (pm_remove k m) = pm_get m k"
    "pm_get (snd (pm_remove k m)) k' = (if k' = k then None else pm_get m k')" by blast+
qed

text \<open>The number of rows is kept.\<close>

lemma length_get: "groups_ok m \<Longrightarrow> length (pm_entries m) = card {k. pm_get m k \<noteq> None}"
proof -
  assume ok: "groups_ok m"
  have "length (pm_entries m) = card (fst ` set (pm_entries m))"
    using distinct_card [OF bt_sorted_distinct [OF pm_entries_get(1) [OF ok]]] by simp
  also have "fst ` set (pm_entries m) = {k. pm_get m k \<noteq> None}"
    by (auto simp: pm_entries_get(2) [OF ok, symmetric] map_of_eq_None_iff)
  finally show ?thesis .
qed

lemma present_finite: "groups_ok m \<Longrightarrow> finite {k. pm_get m k \<noteq> None}"
  using finite_dom_map_of [of "pm_entries m"] by (simp add: pm_entries_get(2) dom_def)

lemma pm_insert_len: "pm_ok m \<Longrightarrow> pm_ok (snd (pm_insert k v m))"
proof -
  assume "pm_ok m"
  then have ok: "groups_ok m" and len: "pm_len m = card {k. pm_get m k \<noteq> None}" by (simp_all add: pm_ok_iff length_get)
  note new = pm_insert_laws [OF ok, of k v]
  have "{k'. pm_get (snd (pm_insert k v m)) k' \<noteq> None} = insert k {k'. pm_get m k' \<noteq> None}" by (auto simp: new(3))
  moreover have "pm_len (snd (pm_insert k v m)) = (if pm_get m k = None then pm_len m + 1 else pm_len m)"
    by (simp add: pm_insert_def Let_def page_at_get)
  ultimately show ?thesis using new(1) present_finite [OF ok] len
    by (simp add: pm_ok_iff length_get card_insert_if)
qed

lemma pm_remove_len: "pm_ok m \<Longrightarrow> pm_ok (snd (pm_remove k m))"
proof -
  assume "pm_ok m"
  then have ok: "groups_ok m" and len: "pm_len m = card {k. pm_get m k \<noteq> None}" by (simp_all add: pm_ok_iff length_get)
  note new = pm_remove_laws [OF ok, of k]
  have "{k'. pm_get (snd (pm_remove k m)) k' \<noteq> None} = {k'. pm_get m k' \<noteq> None} - {k}" by (auto simp: new(3))
  moreover have "pm_len (snd (pm_remove k m)) = (if pm_get m k = None then pm_len m else pm_len m - 1)"
    by (auto simp: pm_remove_def pm_get_def Let_def split: option.split)
  ultimately show ?thesis using new(1) present_finite [OF ok] len
    by (auto simp: pm_ok_iff length_get)
qed

lemma pm_update_len: "pm_ok m \<Longrightarrow> pm_ok (pm_update k v m)
    \<and> pm_get (pm_update k v m) k' = (if k' = k \<and> pm_get m k \<noteq> None then Some v else pm_get m k')"
proof (cases "pm_get m k = None")
  case True
  assume "pm_ok m"
  with True show ?thesis by (simp add: pm_ok_iff pm_update_absent)
next
  case False
  assume ok: "pm_ok m"
  then have g: "groups_ok m" by (simp add: pm_ok_iff)
  let ?m = "snd (pm_insert k v m)"
  have "pm_len ?m = pm_len m" using False by (simp add: pm_insert_def Let_def page_at_get)
  then have "pm_update k v m = ?m" using pm_update_insert [OF g False] by simp
  then show ?thesis using pm_insert_len [OF ok] pm_insert_laws(3) [OF g] False by simp
qed

interpretation rows: row_map pm_ok pm_empty pm_get pm_insert pm_update pm_remove pm_entries pm_len
proof
  fix m :: "'v paged_map" and k k' v
  show "pm_ok pm_empty" "pm_entries pm_empty = []" by (simp_all add: pm_ok_def pm_empty_def pm_entries_def)
  assume ok: "pm_ok m"
  then have g: "groups_ok m" by (simp add: pm_ok_iff)
  show "bt_sorted (pm_entries m)" "pm_get m k = map_of (pm_entries m) k" using pm_entries_get [OF g] by simp_all
  show "pm_ok (snd (pm_insert k v m))" by (rule pm_insert_len [OF ok])
  show "fst (pm_insert k v m) = pm_get m k"
    "pm_get (snd (pm_insert k v m)) k' = (if k' = k then Some v else pm_get m k')" using pm_insert_laws [OF g] by blast+
  show "pm_ok (pm_update k v m)"
    "pm_get (pm_update k v m) k' = (if k' = k \<and> pm_get m k \<noteq> None then Some v else pm_get m k')" using pm_update_len [OF ok] by blast+
  show "pm_ok (snd (pm_remove k m))" by (rule pm_remove_len [OF ok])
  show "fst (pm_remove k m) = pm_get m k"
    "pm_get (snd (pm_remove k m)) k' = (if k' = k then None else pm_get m k')" using pm_remove_laws [OF g] by blast+
  show "pm_len m = length (pm_entries m)" using ok by (simp add: pm_ok_iff)
qed

end
