(* ===== verification/Envelope_Ledger.thy ===== *)
theory Envelope_Ledger
  imports Receipt_Rules Paged_Map
begin

section \<open>The reservation ledger (session/pipeline/ledger.rs, ledger\_conservation.rs)\<close>

text \<open>
  Four maps with the same keys: live envelopes, envelopes that ended in this tick, the audit of each, and
  what the receipts of this tick did to it. Public operations work on a copy and put it in place only when
  all succeeded; the private ones are for owners that discard the ledger on an error, and what they leave
  is part of the model. Checks of the whole ledger have a path for few rows and one for many, which the
  source may run on several threads.

  A memory of ledgers whose evidence was checked is not part of the state: it holds the identities of the
  four maps, which cannot change without a new identity, and answers only for the maps it was written for.
  It is written after a check that succeeded, and by the rebase, for which a theorem shows that the check
  would succeed.
\<close>

record conservation_state =
  cs_expiry_released :: res_vec
  cs_sealed_spent :: res_vec
  cs_sealed_released :: res_vec

definition conservation_empty :: conservation_state where
  "conservation_empty = \<lparr>cs_expiry_released = res_zero, cs_sealed_spent = res_zero, cs_sealed_released = res_zero\<rparr>"

type_synonym seen_keys = "(nat \<times> nat \<times> nat \<times> envelope_key \<times> nat, receipt_local_key) bt"

record envelope_ledger =
  el_envelopes :: "envelope paged_map"
  el_terminal :: "envelope paged_map"
  el_audits :: "envelope_audit paged_map"
  el_conservation :: "conservation_state paged_map"
  el_seen :: seen_keys
  el_next_index :: nat

subsection \<open>Conservation of the whole ledger\<close>

text \<open>Two changed fields: the first may be written when the second fails.\<close>

definition record_state :: "envelope_receipt \<Rightarrow> conservation_state \<Rightarrow> (step_fatal + unit) \<times> conservation_state" where
  "record_state r s =
    (if lk_journal (rc_local_key r) = PreSeal then
       try_in (res_add (cs_expiry_released s) (dl_released (rc_delta r))) s (\<lambda>x. (Inr (), s\<lparr>cs_expiry_released := x\<rparr>))
     else
       try_in (res_add (cs_sealed_spent s) (dl_spent (rc_delta r))) s (\<lambda>x. let s' = s\<lparr>cs_sealed_spent := x\<rparr> in
       try_in (res_add (cs_sealed_released s') (dl_released (rc_delta r))) s' (\<lambda>y. (Inr (), s'\<lparr>cs_sealed_released := y\<rparr>))))"

definition conservation_row_of :: "envelope \<Rightarrow> conservation_state \<Rightarrow> step_fatal + conservation_row" where
  "conservation_row_of e s =
    bind_result (case env_origin e of
        TickStart \<Rightarrow> bind_result (res_sub (env_basis e) (cs_expiry_released s)) (\<lambda>rest.
          Inr (BasisTickStart (env_basis e) (cs_expiry_released s) rest))
      | CreatedAtValidation \<Rightarrow> Inr (BasisCreated (env_basis e))) (\<lambda>basis.
    Inr \<lparr>cr_key = env_key e, cr_basis = basis, cr_spent = cs_sealed_spent s, cr_released = cs_sealed_released s,
      cr_live = env_live e\<rparr>)"

record row_totals =
  rt_basis :: conservation_basis
  rt_spent :: res_vec
  rt_released :: res_vec
  rt_live :: res_vec

definition check_row :: "envelope \<Rightarrow> conservation_state \<Rightarrow> step_fatal + row_totals" where
  "check_row e s =
    bind_result (conservation_row_of e s) (\<lambda>row.
    bind_result (row_validate_with_preseal row (cs_expiry_released s)) (\<lambda>_.
    Inr \<lparr>rt_basis = cr_basis row, rt_spent = cr_spent row, rt_released = cr_released row, rt_live = cr_live row\<rparr>))"

text \<open>The five totals: basis, expiry released, spent, released, live.\<close>

type_synonym totals = "res_vec \<times> res_vec \<times> res_vec \<times> res_vec \<times> res_vec"

definition no_totals :: totals where
  "no_totals = (res_zero, res_zero, res_zero, res_zero, res_zero)"

definition accumulate_totals :: "totals \<Rightarrow> row_totals \<Rightarrow> step_fatal + totals" where
  "accumulate_totals t row = (case t of (basis, expiry, spent, released, live) \<Rightarrow>
    bind_result (case rt_basis row of
        BasisTickStart start gone _ \<Rightarrow> bind_result (res_add basis start) (\<lambda>b.
          bind_result (res_add expiry gone) (\<lambda>x. Inr (b, x)))
      | BasisCreated created \<Rightarrow> bind_result (res_add basis created) (\<lambda>b. Inr (b, expiry))) (\<lambda>(b, x).
    bind_result (res_add spent (rt_spent row)) (\<lambda>s.
    bind_result (res_add released (rt_released row)) (\<lambda>r.
    bind_result (res_add live (rt_live row)) (\<lambda>l. Inr (b, x, s, r, l))))))"

definition validate_aggregate :: "totals \<Rightarrow> step_fatal + unit" where
  "validate_aggregate t = (case t of (basis, expiry, spent, released, live) \<Rightarrow>
    bind_result (res_add expiry spent) (\<lambda>a.
    bind_result (res_add a released) (\<lambda>b.
    bind_result (res_add b live) (\<lambda>c.
    if basis \<noteq> c then Inl (ledger_fault ''aggregate conservation row mismatch'') else Inr ()))))"

text \<open>The rows in the order of the checks: live ones, then those that ended.\<close>

definition ledger_rows :: "envelope_ledger \<Rightarrow> (envelope_key \<times> envelope) list" where
  "ledger_rows l = pm_entries (el_envelopes l) @ pm_entries (el_terminal l)"

definition parallel_row_threshold :: nat where "parallel_row_threshold = 512"

definition dense_ledger :: "envelope_ledger \<Rightarrow> bool" where
  "dense_ledger l \<longleftrightarrow> \<not> (pm_len (el_envelopes l) < parallel_row_threshold
     \<and> pm_len (el_terminal l) < parallel_row_threshold - pm_len (el_envelopes l))"

definition conservation_of :: "envelope_ledger \<Rightarrow> envelope_key \<Rightarrow> step_fatal + conservation_state" where
  "conservation_of l k = ok_or (ledger_fault ''missing conservation row'') (pm_get (el_conservation l) k)"

definition validate_checked_rows :: "(step_fatal + row_totals) list \<Rightarrow> step_fatal + unit" where
  "validate_checked_rows rows =
    bind_result (try_fold (\<lambda>t r. bind_result r (accumulate_totals t)) no_totals rows) validate_aggregate"

text \<open>Few rows: each row is checked and added before the next. Many rows: all are checked first.\<close>

definition validate_conservation :: "envelope_ledger \<Rightarrow> step_fatal + unit" where
  "validate_conservation l =
    (if \<not> dense_ledger l then
       bind_result (try_fold (\<lambda>t (k, e). bind_result (conservation_of l k) (\<lambda>s.
         bind_result (conservation_row_of e s) (\<lambda>row.
         bind_result (row_validate_with_preseal row (cs_expiry_released s)) (\<lambda>_.
         accumulate_totals t \<lparr>rt_basis = cr_basis row, rt_spent = cr_spent row, rt_released = cr_released row, rt_live = cr_live row\<rparr>))))
         no_totals (ledger_rows l)) validate_aggregate
     else validate_checked_rows (map (\<lambda>(k, e). bind_result (conservation_of l k) (check_row e)) (ledger_rows l)))"

subsection \<open>Evidence of the whole ledger\<close>

definition validate_evidence_row :: "envelope_ledger \<Rightarrow> envelope_key \<Rightarrow> envelope \<Rightarrow> conservation_state option \<Rightarrow> step_fatal + unit" where
  "validate_evidence_row l k e conservation =
    bind_result (envelope_validate e) (\<lambda>_.
    if env_key e \<noteq> k then Inl (ledger_fault ''row key disagrees with the identity of the order'')
    else if pm_contains (el_envelopes l) k \<and> pm_contains (el_terminal l) k
    then Inl (ledger_fault ''live and terminal envelope rows overlap'')
    else if pm_get (el_audits l) k \<noteq> Some (env_audit e) then Inl (ledger_fault ''envelope audit row disagrees with envelope'')
    else if conservation = None then Inl (ledger_fault ''envelope has no conservation row'') else Inr ())"

definition pm_values :: "'v paged_map \<Rightarrow> 'v list" where
  "pm_values m = map snd (pm_entries m)"

definition evidence_counts :: "envelope_ledger \<Rightarrow> step_fatal + unit" where
  "evidence_counts l =
    (if \<exists>e\<in>set (pm_values (el_envelopes l)). env_live e = res_zero
     then Inl (ledger_fault ''live envelope row has no live resources'')
     else if \<exists>e\<in>set (pm_values (el_terminal l)). env_live e \<noteq> res_zero
     then Inl (ledger_fault ''terminal envelope row still has live resources'')
     else bind_result (ok_or (ledger_fault ''ledger row count overflow'')
         (checked_u64 (pm_len (el_envelopes l) + pm_len (el_terminal l)))) (\<lambda>expected_rows.
       if pm_len (el_audits l) \<noteq> expected_rows \<or> pm_len (el_conservation l) \<noteq> expected_rows
       then Inl (ledger_fault ''ledger evidence rows do not match envelope rows'') else Inr ()))"

text \<open>
  Many rows: conservation and evidence of a row are checked in one pass, errors of conservation and of the
  totals are reported first.
\<close>

definition validate_complete_evidence :: "envelope_ledger \<Rightarrow> step_fatal + unit" where
  "validate_complete_evidence l =
    (if dense_ledger l then
       (let checked = map (\<lambda>(k, e). bind_result (conservation_of l k) (\<lambda>s.
            bind_result (check_row e s) (\<lambda>row. Inr (row, validate_evidence_row l k e (Some s))))) (ledger_rows l) in
        bind_result (validate_checked_rows (map (\<lambda>c. bind_result c (\<lambda>x. Inr (fst x))) checked)) (\<lambda>_.
        bind_result (evidence_counts l) (\<lambda>_.
        try_fold (\<lambda>_ c. bind_result c snd) () checked)))
     else
       bind_result (validate_conservation l) (\<lambda>_.
       bind_result (evidence_counts l) (\<lambda>_.
       try_fold (\<lambda>_ (k, e). validate_evidence_row l k e (pm_get (el_conservation l) k)) () (ledger_rows l))))"

subsection \<open>Receipts\<close>

definition conservation_record :: "envelope_receipt \<Rightarrow> envelope_ledger \<Rightarrow> (step_fatal + unit) \<times> envelope_ledger" where
  "conservation_record r l = (case pm_get (el_conservation l) (rc_envelope r) of
      None \<Rightarrow> (Inl (ledger_fault ''missing conservation state''), l)
    | Some s \<Rightarrow> (case record_state r s of (result, s') \<Rightarrow>
        (result, l\<lparr>el_conservation := pm_update (rc_envelope r) s' (el_conservation l)\<rparr>)))"

definition apply_one :: "envelope_receipt \<Rightarrow> envelope_ledger \<Rightarrow> (step_fatal + unit) \<times> envelope_ledger" where
  "apply_one r l = (let k = rc_envelope r in
    try_in (ok_or (ledger_fault ''unknown envelope audit'') (pm_get (el_audits l) k)) l (\<lambda>audit.
    try_in (validate_envelope_receipt r audit (pm_get (el_envelopes l) k)) l (\<lambda>_.
    try_in (next_audit r audit) l (\<lambda>audit_after.
    try_in (ok_or (ledger_fault ''unknown envelope'') (pm_get (el_envelopes l) k)) l (\<lambda>e.
    try_in (envelope_apply (rc_delta r) audit_after (is_price_resolved (rc_kind r)) e) l (\<lambda>e'.
    let l1 = l\<lparr>el_envelopes := pm_update k e' (el_envelopes l)\<rparr> in
    try_st (conservation_record r l1) (\<lambda>_ l2.
    (Inr (), l2\<lparr>el_audits := snd (pm_insert k audit_after (el_audits l2))\<rparr>))))))))"

fun apply_each :: "envelope_receipt list \<Rightarrow> envelope_ledger \<Rightarrow> (step_fatal + unit) \<times> envelope_ledger" where
  "apply_each [] l = (Inr (), l)"
| "apply_each (r # rs) l =
    (if map_of (el_seen l) (local_order (rc_local_key r)) \<noteq> None
     then (Inl (ledger_fault ''duplicate receipt local key''), l)
     else try_st (apply_one r (l\<lparr>el_seen := bt_insert (local_order (rc_local_key r)) (rc_local_key r) (el_seen l)\<rparr>))
       (\<lambda>_ l'. apply_each rs l'))"

text \<open>The result carries the numbered receipts, which replace the caller's.\<close>

definition apply_private ::
    "(nat \<Rightarrow> envelope_receipt list \<Rightarrow> (step_fatal + envelope_receipt list) \<times> nat) \<Rightarrow> bool \<Rightarrow>
     envelope_receipt list \<Rightarrow> envelope_ledger \<Rightarrow> (step_fatal + envelope_receipt list) \<times> envelope_ledger" where
  "apply_private normalizer aggregate rs l = (case normalizer (el_next_index l) rs of (result, n) \<Rightarrow>
     try_in result (l\<lparr>el_next_index := n\<rparr>) (\<lambda>candidate.
     try_st (apply_each candidate (l\<lparr>el_next_index := n\<rparr>)) (\<lambda>_ l'.
     if aggregate then try_in (validate_conservation l') l' (\<lambda>_. (Inr candidate, l')) else (Inr candidate, l'))))"

text \<open>An operation on a copy that is put in place when it succeeds.\<close>

definition atomically :: "('l \<Rightarrow> ('e + 'a) \<times> 'l) \<Rightarrow> 'l \<Rightarrow> ('e + 'a) \<times> 'l" where
  "atomically f l = (case f l of (Inl e, _) \<Rightarrow> (Inl e, l) | (Inr x, l') \<Rightarrow> (Inr x, l'))"

definition apply_receipts :: "envelope_receipt list \<Rightarrow> envelope_ledger \<Rightarrow> (step_fatal + envelope_receipt list) \<times> envelope_ledger" where
  "apply_receipts rs = atomically (apply_private normalize True rs)"

fun end_each :: "envelope_key list \<Rightarrow> envelope_ledger \<Rightarrow> (step_fatal + unit) \<times> envelope_ledger" where
  "end_each [] l = (Inr (), l)"
| "end_each (k # ks) l = (case pm_remove k (el_envelopes l) of
      (None, live) \<Rightarrow> (Inl (ledger_fault ''unknown terminal envelope''), l\<lparr>el_envelopes := live\<rparr>)
    | (Some e, live) \<Rightarrow>
        if env_live e \<noteq> res_zero
        then (Inl (ledger_fault ''terminal envelope still has live resources''), l\<lparr>el_envelopes := live\<rparr>)
        else end_each ks (l\<lparr>el_envelopes := live, el_terminal := snd (pm_insert k e (el_terminal l))\<rparr>))"

definition remove_terminal_private :: "bool \<Rightarrow> envelope_key list \<Rightarrow> envelope_ledger \<Rightarrow> (step_fatal + unit) \<times> envelope_ledger" where
  "remove_terminal_private aggregate ks l = try_st (end_each ks l) (\<lambda>_ l'.
     if aggregate then try_in (validate_conservation l') l' (\<lambda>_. (Inr (), l')) else (Inr (), l'))"

definition remove_terminal :: "envelope_key list \<Rightarrow> envelope_ledger \<Rightarrow> (step_fatal + unit) \<times> envelope_ledger" where
  "remove_terminal ks = atomically (remove_terminal_private True ks)"

definition replay_for_commit_evidence ::
    "envelope_receipt list \<Rightarrow> envelope_key list \<Rightarrow> envelope_ledger \<Rightarrow> (step_fatal + unit) \<times> envelope_ledger" where
  "replay_for_commit_evidence rs ks l = try_st (apply_private normalize True rs l) (\<lambda>_ l'. remove_terminal_private True ks l')"

definition apply_for_stock_round ::
    "envelope_receipt list \<Rightarrow> envelope_key list \<Rightarrow> envelope_ledger \<Rightarrow> (step_fatal + unit) \<times> envelope_ledger" where
  "apply_for_stock_round rs ks l = try_st (apply_private normalize False rs l) (\<lambda>_ l'. remove_terminal_private False ks l')"

subsection \<open>Rows created and ended\<close>

definition new_row :: "(envelope paged_map \<times> envelope_audit paged_map \<times> conservation_state paged_map) \<Rightarrow> envelope \<Rightarrow>
    step_fatal + (envelope paged_map \<times> envelope_audit paged_map \<times> conservation_state paged_map)" where
  "new_row maps e = (case maps of (rows, audits, conservation) \<Rightarrow>
     bind_result (envelope_validate e) (\<lambda>_. case pm_insert (env_key e) e rows of (previous, rows') \<Rightarrow>
     if previous \<noteq> None then Inl (ledger_fault ''duplicate envelope'')
     else Inr (rows', snd (pm_insert (env_key e) (env_audit e) audits),
       snd (pm_insert (env_key e) conservation_empty conservation))))"

definition new_envelope_ledger :: "nat \<Rightarrow> envelope list \<Rightarrow> step_fatal + envelope_ledger" where
  "new_envelope_ledger n es = bind_result (try_fold new_row (pm_empty, pm_empty, pm_empty) es) (\<lambda>(rows, audits, conservation).
     Inr \<lparr>el_envelopes = rows, el_terminal = pm_empty, el_audits = audits, el_conservation = conservation,
       el_seen = [], el_next_index = n\<rparr>)"

definition known_key :: "envelope_ledger \<Rightarrow> envelope_key \<Rightarrow> bool" where
  "known_key l k \<longleftrightarrow> pm_contains (el_envelopes l) k \<or> pm_contains (el_terminal l) k \<or> pm_contains (el_audits l) k
     \<or> pm_contains (el_conservation l) k"

definition prepare_row :: "envelope_ledger \<Rightarrow> envelope list \<Rightarrow> envelope \<Rightarrow> step_fatal + envelope list" where
  "prepare_row l prepared e =
    bind_result (envelope_validate e) (\<lambda>_.
    if env_origin e \<noteq> CreatedAtValidation then Inl (ledger_fault ''inserted envelope was not created at validation'')
    else if env_live e = res_zero then Inl (ledger_fault ''inserted envelope has no live resources'')
    else if env_key e \<in> set (map env_key prepared) \<or> known_key l (env_key e)
    then Inl (ledger_fault ''inserted envelope key conflicts with evidence of the ledger'')
    else Inr (prepared @ [e]))"

definition install_row :: "envelope \<Rightarrow> envelope_ledger \<Rightarrow> envelope_ledger" where
  "install_row e l = l\<lparr>el_audits := snd (pm_insert (env_key e) (env_audit e) (el_audits l)),
     el_conservation := snd (pm_insert (env_key e) conservation_empty (el_conservation l)),
     el_envelopes := snd (pm_insert (env_key e) e (el_envelopes l))\<rparr>"

definition insert_created_for_stock_round :: "envelope list \<Rightarrow> envelope_ledger \<Rightarrow> step_fatal + envelope_ledger" where
  "insert_created_for_stock_round es l = bind_result (try_fold (prepare_row l) [] es) (\<lambda>prepared.
     Inr (fold install_row prepared l))"

definition insert_created :: "envelope list \<Rightarrow> envelope_ledger \<Rightarrow> step_fatal + envelope_ledger" where
  "insert_created es l = bind_result (insert_created_for_stock_round es l) (\<lambda>shadow.
     bind_result (validate_complete_evidence l) (\<lambda>_.
     bind_result (validate_complete_evidence shadow) (\<lambda>_. Inr shadow)))"

definition reset_tick_state :: "envelope_ledger \<Rightarrow> envelope_ledger" where
  "reset_tick_state l = l\<lparr>el_envelopes := pm_clear (el_envelopes l), el_terminal := pm_clear (el_terminal l),
     el_audits := pm_clear (el_audits l), el_conservation := pm_clear (el_conservation l), el_seen := []\<rparr>"

subsection \<open>The next tick\<close>

definition unchanged_row :: "envelope \<Rightarrow> bool" where
  "unchanged_row e \<longleftrightarrow> env_origin e = TickStart \<and> env_pending e = None \<and> env_basis e = env_live e"

definition rebase_unneeded :: "envelope_ledger \<Rightarrow> bool" where
  "rebase_unneeded l \<longleftrightarrow> pm_is_empty (el_terminal l) \<and> (\<forall>e\<in>set (pm_values (el_envelopes l)). unchanged_row e)
     \<and> (\<forall>s\<in>set (pm_values (el_conservation l)). s = conservation_empty)"

fun rebase_each :: "envelope_key list \<Rightarrow> envelope_ledger \<Rightarrow> (step_fatal + unit) \<times> envelope_ledger" where
  "rebase_each [] l = (Inr (), l)"
| "rebase_each (k # ks) l = (case pm_get (el_envelopes l) k of
      None \<Rightarrow> (Inl (StepPanic ''rebase row is of the owned private ledger''), l)
    | Some e \<Rightarrow> (case rebase_for_next_tick e of (result, e') \<Rightarrow>
        try_in result (l\<lparr>el_envelopes := pm_update k e' (el_envelopes l)\<rparr>)
          (\<lambda>_. rebase_each ks (l\<lparr>el_envelopes := pm_update k e' (el_envelopes l)\<rparr>))))"

definition forget_row :: "envelope_key \<Rightarrow> envelope_ledger \<Rightarrow> envelope_ledger" where
  "forget_row k l = l\<lparr>el_audits := snd (pm_remove k (el_audits l)), el_conservation := snd (pm_remove k (el_conservation l))\<rparr>"

fun clear_each :: "envelope_key list \<Rightarrow> envelope_ledger \<Rightarrow> (step_fatal + unit) \<times> envelope_ledger" where
  "clear_each [] l = (Inr (), l)"
| "clear_each (k # ks) l = (case pm_get (el_conservation l) k of
      None \<Rightarrow> (Inl (StepPanic ''conservation row is of the owned private ledger''), l)
    | Some _ \<Rightarrow> clear_each ks (l\<lparr>el_conservation := pm_update k conservation_empty (el_conservation l)\<rparr>))"

definition changed_keys :: "envelope_ledger \<Rightarrow> envelope_key list" where
  "changed_keys l = map fst (filter (\<lambda>(k, e). \<not> unchanged_row e) (pm_entries (el_envelopes l)))"

text \<open>The path that rewrites the rows.\<close>

definition rebase_rows :: "envelope_ledger \<Rightarrow> (step_fatal + unit) \<times> envelope_ledger" where
  "rebase_rows l = try_st (rebase_each (changed_keys l) l) (\<lambda>_ l1.
     let l2 = fold forget_row (map fst (pm_entries (el_terminal l1))) l1;
         stale = map fst (filter (\<lambda>(k, s). s \<noteq> conservation_empty) (pm_entries (el_conservation l2))) in
     try_st (clear_each stale l2) (\<lambda>_ l3. (Inr (), l3\<lparr>el_terminal := pm_clear (el_terminal l3), el_seen := []\<rparr>)))"

definition rebase_private :: "envelope_ledger \<Rightarrow> (step_fatal + unit) \<times> envelope_ledger" where
  "rebase_private l = try_in (validate_complete_evidence l) l (\<lambda>_.
     if rebase_unneeded l then (Inr (), l\<lparr>el_seen := []\<rparr>) else rebase_rows l)"

definition rebase_live_for_next_tick :: "envelope_ledger \<Rightarrow> (step_fatal + unit) \<times> envelope_ledger" where
  "rebase_live_for_next_tick = atomically rebase_private"

subsection \<open>Comparison with a projection of the books\<close>

definition adjacent_equal :: "'a list \<Rightarrow> bool" where
  "adjacent_equal xs \<longleftrightarrow> (\<exists>(x, y)\<in>set (zip xs (tl xs)). x = y)"

definition hydrate_or_validate :: "envelope list \<Rightarrow> envelope_ledger \<Rightarrow> (step_fatal + unit) \<times> envelope_ledger" where
  "hydrate_or_validate projection l = (let projected = sort_key env_key projection in
    if adjacent_equal (map env_key projected) then (Inl (ledger_fault ''duplicate envelope''), l)
    else if \<exists>e\<in>set projected. pm_contains (el_terminal l) (env_key e)
    then (Inl (ledger_fault ''live projection overlaps terminal envelope evidence''), l)
    else if pm_is_empty (el_envelopes l) then
      try_in (new_envelope_ledger (el_next_index l) projected) l (\<lambda>candidate.
        (Inr (), l\<lparr>el_envelopes := el_envelopes candidate, el_audits := el_audits candidate,
          el_conservation := el_conservation candidate\<rparr>))
    else if length projected \<noteq> pm_len (el_envelopes l)
      \<or> (\<exists>((k, e), p)\<in>set (zip (pm_entries (el_envelopes l)) projected). k \<noteq> env_key p \<or> \<not> envelope_eq e p)
    then (Inl (ledger_fault ''live envelope projection disagrees with ledger''), l)
    else (Inr (), l))"

end
