(* ===== verification/Envelope_Laws.thy ===== *)
theory Envelope_Laws
  imports Envelope_Ledger
begin

section \<open>Laws of envelopes, receipts and rows\<close>

text \<open>
  What success of each check and operation means, as equations between resources. The laws of whole
  ledgers rest on these.
\<close>

subsection \<open>Resource vectors\<close>

definition res_plus :: "res_vec \<Rightarrow> res_vec \<Rightarrow> res_vec" where
  "res_plus a b = \<lparr>rv_cash = rv_cash a + rv_cash b, rv_shares = rv_shares a + rv_shares b\<rparr>"

definition res_nonneg :: "res_vec \<Rightarrow> bool" where
  "res_nonneg r \<longleftrightarrow> 0 \<le> rv_cash r"

definition res_ok :: "res_vec \<Rightarrow> bool" where
  "res_ok r \<longleftrightarrow> 0 \<le> rv_cash r \<and> rv_cash r \<le> i64_max \<and> rv_shares r \<le> u32_max"

lemma res_plus_sel [simp]: "rv_cash (res_plus a b) = rv_cash a + rv_cash b" "rv_shares (res_plus a b) = rv_shares a + rv_shares b"
  by (simp_all add: res_plus_def)

lemma res_zero_sel [simp]: "rv_cash res_zero = 0" "rv_shares res_zero = 0"
  by (simp_all add: res_zero_def)

lemma res_eq_iff: "a = b \<longleftrightarrow> rv_cash a = rv_cash b \<and> rv_shares a = rv_shares (b :: res_vec)"
  by (cases a; cases b) simp

lemma res_plus_zero [simp]: "res_plus res_zero a = a" "res_plus a res_zero = a"
  by (simp_all add: res_eq_iff)

lemma res_plus_assoc: "res_plus (res_plus a b) c = res_plus a (res_plus b c)"
  by (simp add: res_eq_iff)

lemma res_plus_commute: "res_plus a b = res_plus b a"
  by (simp add: res_eq_iff)

lemma res_plus_left_commute: "res_plus b (res_plus a c) = res_plus a (res_plus b c)"
  by (simp add: res_eq_iff)

lemmas res_plus_ac = res_plus_assoc res_plus_commute res_plus_left_commute

lemma res_ok_zero [simp]: "res_ok res_zero" "res_nonneg res_zero"
  by (simp_all add: res_ok_def res_nonneg_def)

lemma res_ok_nonneg: "res_ok r \<Longrightarrow> res_nonneg r"
  by (simp add: res_ok_def res_nonneg_def)

lemma res_nonneg_plus: "res_nonneg a \<Longrightarrow> res_nonneg b \<Longrightarrow> res_nonneg (res_plus a b)"
  by (simp add: res_nonneg_def)

lemma res_ok_plusD: "res_ok (res_plus a b) \<Longrightarrow> res_nonneg a \<Longrightarrow> res_nonneg b \<Longrightarrow> res_ok a \<and> res_ok b"
  by (simp add: res_ok_def res_nonneg_def)

lemma res_validate_nonnegative_Inr [simp]: "res_validate_nonnegative r = Inr u \<longleftrightarrow> res_nonneg r"
  by (auto simp: res_validate_nonnegative_def res_nonneg_def)

lemma res_add_Inr: "res_nonneg a \<Longrightarrow> res_nonneg b \<Longrightarrow> res_add a b = Inr c \<longleftrightarrow> res_ok (res_plus a b) \<and> c = res_plus a b"
  by (auto simp: res_add_def bind_result_Inr_iff res_ok_def res_nonneg_def in_i64_def res_plus_def)

lemma res_add_value: "res_add a b = Inr c \<Longrightarrow> c = res_plus a b"
  by (auto simp: res_add_def bind_result_Inr_iff res_plus_def)

lemma res_sub_value: "res_sub a b = Inr c \<Longrightarrow> a = res_plus b c \<and> res_nonneg c"
  by (auto simp: res_sub_def bind_result_Inr_iff res_nonneg_def res_eq_iff split: if_splits)

lemma res_sub_Inr: "res_ok a \<Longrightarrow> res_nonneg b \<Longrightarrow> res_nonneg c \<Longrightarrow> res_sub a b = Inr c \<longleftrightarrow> a = res_plus b c"
  by (auto simp: res_sub_def bind_result_Inr_iff res_nonneg_def res_ok_def res_eq_iff in_i64_def split: if_splits)

subsection \<open>Envelopes\<close>

text \<open>What an accepted envelope satisfies.\<close>

definition envelope_ok :: "envelope \<Rightarrow> bool" where
  "envelope_ok e \<longleftrightarrow> (env_pending e \<noteq> None \<longrightarrow> env_origin e = CreatedAtValidation)
     \<and> res_ok (env_basis e) \<and> res_nonneg (env_spent e) \<and> res_nonneg (env_released e) \<and> res_nonneg (env_live e)
     \<and> env_basis e = res_plus (res_plus (env_spent e) (env_released e)) (env_live e)"

lemma envelope_validate_Inr: "envelope_validate e = Inr u \<longleftrightarrow> envelope_ok e"
proof -
  have "envelope_validate e = Inr u \<longleftrightarrow> (env_pending e \<noteq> None \<longrightarrow> env_origin e = CreatedAtValidation)
      \<and> res_nonneg (env_basis e) \<and> res_nonneg (env_spent e) \<and> res_nonneg (env_released e) \<and> res_nonneg (env_live e)
      \<and> res_ok (res_plus (env_spent e) (env_released e)) \<and> res_ok (res_plus (res_plus (env_spent e) (env_released e)) (env_live e))
      \<and> env_basis e = res_plus (res_plus (env_spent e) (env_released e)) (env_live e)"
    by (auto simp: envelope_validate_def bind_result_Inr_iff res_add_Inr res_nonneg_plus split: if_splits)
  also have "\<dots> \<longleftrightarrow> envelope_ok e"
    using res_ok_plusD [of "res_plus (env_spent e) (env_released e)" "env_live e"]
    by (auto simp: envelope_ok_def res_nonneg_plus dest: res_ok_nonneg)
  finally show ?thesis .
qed

lemma envelope_ok_live: "envelope_ok e \<Longrightarrow> res_ok (env_live e)"
  by (metis envelope_ok_def res_nonneg_plus res_ok_plusD)

text \<open>A change of an envelope: what is live is split, and basis, identity and origin stay.\<close>

definition envelope_step :: "receipt_delta \<Rightarrow> envelope_audit \<Rightarrow> bool \<Rightarrow> envelope \<Rightarrow> envelope \<Rightarrow> bool" where
  "envelope_step delta audit resolved e e' \<longleftrightarrow>
     env_live e = res_plus (res_plus (dl_spent delta) (dl_released delta)) (dl_live_after delta)
     \<and> env_live e' = dl_live_after delta \<and> env_spent e' = res_plus (env_spent e) (dl_spent delta)
     \<and> env_released e' = res_plus (env_released e) (dl_released delta) \<and> env_audit e' = audit
     \<and> env_pending e' = (if resolved then None else env_pending e) \<and> (resolved \<longrightarrow> env_pending e \<noteq> None)
     \<and> env_key e' = env_key e \<and> env_origin e' = env_origin e \<and> env_basis e' = env_basis e"

text \<open>The envelope without its remembered verification.\<close>

definition bare :: "envelope \<Rightarrow> envelope" where
  "bare e = e\<lparr>env_revision := 0, env_proof := None\<rparr>"

lemma bare_sel [simp]: "env_key (bare e) = env_key e" "env_origin (bare e) = env_origin e" "env_basis (bare e) = env_basis e"
    "env_live (bare e) = env_live e" "env_spent (bare e) = env_spent e" "env_released (bare e) = env_released e"
    "env_audit (bare e) = env_audit e" "env_pending (bare e) = env_pending e"
  by (simp_all add: bare_def)

lemma envelope_eq_bare: "envelope_eq e e' \<longleftrightarrow> bare e = bare e'"
  by (cases e; cases e') (auto simp: envelope_eq_def bare_def)

lemma envelope_ok_bare: "envelope_ok (bare e) = envelope_ok e"
  by (simp add: envelope_ok_def)

lemma verified_live_keeps: "verified_live_at c site e = (r, e') \<Longrightarrow> bare e' = bare e \<and> env_revision e' = env_revision e"
  by (auto simp: verified_live_at_def try_in_def Let_def bare_def split: sum.splits if_splits)

lemma bare_ok: "bare e' = bare e \<Longrightarrow> envelope_ok e' = envelope_ok e"
  by (metis envelope_ok_bare)

lemma bare_fields:
  assumes "bare e = bare e'"
  shows "env_key e = env_key e'" "env_origin e = env_origin e'" "env_basis e = env_basis e'" "env_live e = env_live e'"
    "env_spent e = env_spent e'" "env_released e = env_released e'" "env_audit e = env_audit e'" "env_pending e = env_pending e'"
  using assms unfolding envelope_eq_bare [symmetric] envelope_eq_def by blast+

lemma envelope_step_bare: "bare e' = bare e'' \<Longrightarrow> envelope_step d a x e e' = envelope_step d a x e e''"
  by (frule bare_fields(1), frule bare_fields(2), frule bare_fields(3), frule bare_fields(4), frule bare_fields(5),
    frule bare_fields(6), frule bare_fields(7), drule bare_fields(8), simp add: envelope_step_def)

lemma changed_envelope_Inr:
  assumes "changed_envelope delta audit resolved e = Inr e'"
  shows "envelope_step delta audit resolved e e' \<and> envelope_ok e' \<and> env_revision e' = env_revision e \<and> env_proof e' = env_proof e"
proof -
  obtain consumed where consumed: "res_add (dl_spent delta) (dl_released delta) = Inr consumed"
    using assms by (cases "res_add (dl_spent delta) (dl_released delta)") (simp_all add: changed_envelope_def)
  obtain expected where sub: "res_sub (env_live e) consumed = Inr expected"
    using assms by (cases "res_sub (env_live e) consumed") (simp_all add: changed_envelope_def consumed)
  have live: "expected = dl_live_after delta"
    using assms by (cases "expected = dl_live_after delta") (simp_all add: changed_envelope_def consumed sub)
  obtain spent where spent: "res_add (env_spent e) (dl_spent delta) = Inr spent"
    using assms by (cases "res_add (env_spent e) (dl_spent delta)") (simp_all add: changed_envelope_def consumed sub live)
  obtain released where released: "res_add (env_released e) (dl_released delta) = Inr released"
    using assms by (cases "res_add (env_released e) (dl_released delta)") (simp_all add: changed_envelope_def consumed sub live spent)
  have pending: "\<not> (resolved \<and> env_pending e = None)"
    using assms by (cases "resolved \<and> env_pending e = None") (simp_all add: changed_envelope_def consumed sub live spent released)
  let ?c = "e\<lparr>env_spent := spent, env_released := released, env_live := dl_live_after delta,
    env_audit := audit, env_pending := (if resolved then None else env_pending e)\<rparr>"
  have "bind_result (envelope_validate ?c) (\<lambda>_. Inr ?c) = Inr e'"
    using assms pending unfolding changed_envelope_def Let_def by (simp only: consumed sub spent released live bind_result_simps if_False simp_thms)
  then have "envelope_ok ?c" "e' = ?c" unfolding bind_result_Inr_iff envelope_validate_Inr sum.inject by blast+
  moreover have "envelope_step delta audit resolved e ?c"
    using res_add_value [OF consumed] res_sub_value [OF sub] res_add_value [OF spent] res_add_value [OF released] pending live
    by (simp add: envelope_step_def)
  ultimately show ?thesis by simp
qed

lemma renew_proof_cases:
  assumes "renew_proof e candidate = Inr e'"
  shows "(e' = candidate \<and> env_audit candidate = env_audit e \<and> env_live candidate = env_live e)
    \<or> (\<exists>n. e' = candidate\<lparr>env_revision := n, env_proof := None\<rparr>)
    \<or> (\<exists>n c r. verified_live_at c GenericSite (candidate\<lparr>env_revision := n, env_proof := None\<rparr>) = (r, e'))"
  using assms unfolding renew_proof_def Let_def
  by (auto simp: bind_result_Inr_iff split: if_splits option.splits sum.splits prod.splits)

lemma renew_proof_bare: "renew_proof e candidate = Inr e' \<Longrightarrow> bare e' = bare candidate"
  by (drule renew_proof_cases) (auto simp: bare_def dest!: verified_live_keeps)

lemma envelope_apply_step:
  assumes "envelope_apply delta audit resolved e = Inr e'"
  shows "envelope_step delta audit resolved e e' \<and> envelope_ok e'"
proof -
  obtain c where c: "changed_envelope delta audit resolved e = Inr c" "renew_proof e c = Inr e'"
    using assms by (auto simp: envelope_apply_def bind_result_Inr_iff)
  then show ?thesis using changed_envelope_Inr [OF c(1)] renew_proof_bare [OF c(2)]
    by (simp only: envelope_step_bare [of e' c] bare_ok [of e' c])
qed

lemma rebase_for_next_tick_cases:
  assumes "envelope_ok e"
  shows "env_pending e = None \<Longrightarrow> rebase_for_next_tick e = (Inr (), e\<lparr>env_origin := TickStart, env_basis := env_live e, env_spent := res_zero, env_released := res_zero\<rparr>)"
    "env_pending e \<noteq> None \<Longrightarrow> fst (rebase_for_next_tick e) = Inl (ledger_fault ''live envelope reached tick commit with an unresolved price'')"
proof -
  let ?e = "e\<lparr>env_origin := TickStart, env_basis := env_live e, env_spent := res_zero, env_released := res_zero\<rparr>"
  assume "env_pending e = None"
  moreover have "res_ok (env_live e)" "res_nonneg (env_live e)" using envelope_ok_live [OF assms] by (auto dest: res_ok_nonneg)
  ultimately have "envelope_ok ?e" by (simp add: envelope_ok_def)
  then show "rebase_for_next_tick e = (Inr (), ?e)"
    using \<open>env_pending e = None\<close> envelope_validate_Inr [of ?e "()"] by (simp add: rebase_for_next_tick_def Let_def)
qed (simp add: rebase_for_next_tick_def)

subsection \<open>Remembered verifications\<close>

text \<open>
  A remembered verification is one of the facts the envelope has now, under some schedule: copies that share
  it have the same facts, and it is given up when these change.
\<close>

definition proof_ok :: "envelope \<Rightarrow> bool" where
  "proof_ok e \<longleftrightarrow> (\<forall>r. env_proof e = Some r \<longrightarrow> (\<exists>c. r = establish_proof c e))"

lemma proof_ok_none [simp]: "env_proof e = None \<Longrightarrow> proof_ok e"
  by (simp add: proof_ok_def)

text \<open>What the verification reads of the envelope.\<close>

lemma establish_proof_cong:
  assumes "env_key e = env_key e'" "env_audit e = env_audit e'" "env_live e = env_live e'" "env_revision e = env_revision e'"
  shows "establish_proof c e = establish_proof c e'"
  by (simp add: establish_proof_def assms Let_def cong: if_cong)

text \<open>What it reads of the schedule.\<close>

lemma fee_schedule_cong:
  assumes "fee_inputs_capture c = fee_inputs_capture c'"
  shows "commission c = commission c'" "stamp_tax c = stamp_tax c'" "transfer_fee c = transfer_fee c'"
    "cumulative_nominal_fees c = cumulative_nominal_fees c'" "expected_live c = expected_live c'"
proof -
  show *: "commission c = commission c'" "stamp_tax c = stamp_tax c'" "transfer_fee c = transfer_fee c'"
    using assms by (auto simp: fun_eq_iff fee_inputs_capture_def commission_def stamp_tax_def transfer_fee_def cong: if_cong)
  have "buy_order_reservation c = buy_order_reservation c'" by (simp add: fun_eq_iff buy_order_reservation_def *)
  then show "cumulative_nominal_fees c = cumulative_nominal_fees c'" "expected_live c = expected_live c'"
    by (simp_all add: fun_eq_iff cumulative_nominal_fees_def expected_live_def * split: side.split)
qed

lemma establish_proof_Inr:
  "establish_proof c e = Inr p \<longleftrightarrow> Game_Config.validate c = Inr ()
     \<and> cumulative_nominal_fees c (ek_side (env_key e)) (au_filled_value (env_audit e)) = Inr (au_nominal (env_audit e))
     \<and> validate_charged_audit (ek_side (env_key e)) (env_audit e) = Inr ()
     \<and> (env_live e \<noteq> res_zero \<longrightarrow> expected_live c (ek_side (env_key e)) (env_audit e) = Inr (env_live e))
     \<and> p = \<lparr>fp_inputs = fee_inputs_capture c, fp_revision = env_revision e, fp_calculator = c\<rparr>"
  by (auto simp: establish_proof_def Let_def bind_result_Inr_iff split: if_splits)

lemma establish_proof_transfer:
  assumes "establish_proof c0 e = Inr p" "fp_inputs p = fee_inputs_capture c" "Game_Config.validate c = Inr ()"
  shows "establish_proof c e = Inr (p\<lparr>fp_calculator := c\<rparr>)"
proof -
  have "fee_inputs_capture c0 = fee_inputs_capture c" using assms(1,2) by (simp add: establish_proof_Inr)
  note same = fee_schedule_cong [OF this] this
  from assms(1,3) show ?thesis by (simp add: establish_proof_Inr same)
qed

lemma verified_live_Inr:
  "fst (verified_live_at c site e) = Inr r \<longleftrightarrow> envelope_ok e \<and> validate_financial_birth e = Inr () \<and> r = env_live e
     \<and> (\<exists>p. (case env_proof e of Some r \<Rightarrow> r | None \<Rightarrow> establish_proof c e) = Inr p
       \<and> fp_inputs p = fee_inputs_capture c \<and> fp_revision p = env_revision e)"
  by (auto simp: verified_live_at_def try_in_def Let_def simp flip: envelope_validate_Inr [of e "()"] split: sum.splits)

lemma verified_live_proof_ok: "proof_ok e \<Longrightarrow> verified_live_at c site e = (r, e') \<Longrightarrow> proof_ok e'"
proof -
  assume ok: "proof_ok e" and v: "verified_live_at c site e = (r, e')"
  have "e' = e \<or> e' = e\<lparr>env_proof := Some (case env_proof e of Some r \<Rightarrow> r | None \<Rightarrow> establish_proof c e)\<rparr>"
    using v by (auto simp: verified_live_at_def try_in_def Let_def split: sum.splits if_splits)
  moreover have "establish_proof c' (e\<lparr>env_proof := x\<rparr>) = establish_proof c' e" for c' x by (rule establish_proof_cong) simp_all
  ultimately show ?thesis using ok by (auto simp: proof_ok_def split: option.splits)
qed

text \<open>Success of a remembered verification is success of a new one, for any valid schedule.\<close>

lemma remembered_is_new:
  assumes "proof_ok e" "Game_Config.validate c = Inr ()" "fst (verified_live_at c site e) = Inr r"
  shows "fst (verified_live_at c site' (e\<lparr>env_proof := None\<rparr>)) = Inr r"
proof -
  let ?e = "e\<lparr>env_proof := None\<rparr>"
  obtain p where e: "envelope_ok e" "validate_financial_birth e = Inr ()" "r = env_live e"
    and p: "(case env_proof e of Some r \<Rightarrow> r | None \<Rightarrow> establish_proof c e) = Inr p" "fp_inputs p = fee_inputs_capture c" "fp_revision p = env_revision e"
    using assms(3) unfolding verified_live_Inr by blast
  have "\<exists>c0. establish_proof c0 e = Inr p"
    using p(1) assms(1) by (cases "env_proof e") (auto simp: proof_ok_def)
  with p(2) assms(2) have "establish_proof c e = Inr (p\<lparr>fp_calculator := c\<rparr>)" using establish_proof_transfer by blast
  moreover have "establish_proof c ?e = establish_proof c e" by (rule establish_proof_cong) simp_all
  moreover have "envelope_ok ?e \<longleftrightarrow> envelope_ok e" "validate_financial_birth ?e = validate_financial_birth e"
    by (simp_all add: envelope_ok_def validate_financial_birth_def)
  ultimately show ?thesis using e p unfolding verified_live_Inr by simp
qed

lemma envelope_apply_proof_ok:
  assumes "proof_ok e" "envelope_apply delta audit resolved e = Inr e'"
  shows "proof_ok e'"
proof -
  obtain c where c: "changed_envelope delta audit resolved e = Inr c" "renew_proof e c = Inr e'"
    using assms(2) by (auto simp: envelope_apply_def bind_result_Inr_iff)
  have same: "env_key c = env_key e" "env_revision c = env_revision e" "env_proof c = env_proof e"
    using changed_envelope_Inr [OF c(1)] by (simp_all add: envelope_step_def)
  consider "e' = c" "env_audit c = env_audit e" "env_live c = env_live e" | n where "e' = c\<lparr>env_revision := n, env_proof := None\<rparr>"
    | n d r where "verified_live_at d GenericSite (c\<lparr>env_revision := n, env_proof := None\<rparr>) = (r, e')"
    using renew_proof_cases [OF c(2)] by blast
  then show ?thesis
  proof cases
    case 1
    then show ?thesis using assms(1) establish_proof_cong [of e' e] same by (simp add: proof_ok_def)
  next
    case 2
    then show ?thesis by simp
  next
    case 3
    show ?thesis by (rule verified_live_proof_ok [OF _ 3]) simp
  qed
qed

subsection \<open>Receipts\<close>

definition fee_sum :: "fee_components \<Rightarrow> money" where
  "fee_sum f = fc_commission f + fc_stamp_tax f + fc_transfer_fee f"

lemma lm_simps: "lm_add a b = Inr c \<longleftrightarrow> in_i64 (a + b) \<and> c = a + b" "lm_sub a b = Inr c \<longleftrightarrow> in_i64 (a - b) \<and> c = a - b"
  by (auto simp: lm_add_def lm_sub_def)

lemma lm_total_value: "lm_total f = Inr t \<Longrightarrow> t = fee_sum f"
  by (auto simp: lm_total_def fee_total_def fee_sum_def bind_result_Inr_iff)

lemma fee_add_value: "fee_add a b = Inr c \<Longrightarrow> fc_commission c = fc_commission a + fc_commission b
    \<and> fc_stamp_tax c = fc_stamp_tax a + fc_stamp_tax b \<and> fc_transfer_fee c = fc_transfer_fee a + fc_transfer_fee b"
  by (auto simp: fee_add_def bind_result_Inr_iff lm_simps)

lemma fee_add_sum: "fee_add a b = Inr c \<Longrightarrow> fee_sum c = fee_sum a + fee_sum b"
  by (drule fee_add_value) (simp add: fee_sum_def)

lemma fee_sub_value: "fee_sub a b = Inr c \<Longrightarrow> \<not> fee_exceeds b a \<and> fc_commission c = fc_commission a - fc_commission b
    \<and> fc_stamp_tax c = fc_stamp_tax a - fc_stamp_tax b \<and> fc_transfer_fee c = fc_transfer_fee a - fc_transfer_fee b"
  by (auto simp: fee_sub_def bind_result_Inr_iff lm_simps split: if_splits)

text \<open>The charge is taken from the commission first, then from the stamp tax, then from the transfer fee.\<close>

definition taken_in_order :: "fee_components \<Rightarrow> fee_components \<Rightarrow> bool" where
  "taken_in_order charge unpaid \<longleftrightarrow> \<not> fee_exceeds charge unpaid
     \<and> (fc_stamp_tax charge \<noteq> 0 \<longrightarrow> fc_commission charge = fc_commission unpaid)
     \<and> (fc_transfer_fee charge \<noteq> 0 \<longrightarrow> fc_commission charge = fc_commission unpaid \<and> fc_stamp_tax charge = fc_stamp_tax unpaid)"

lemma allocate_seller_charge_Inr:
  assumes "allocate_seller_charge unpaid cap = Inr charge" "\<not> fee_negative unpaid" "0 \<le> cap"
  shows "fee_sum charge = cap \<and> taken_in_order charge unpaid \<and> \<not> fee_negative charge"
proof -
  have "fee_sum charge = cap" and c: "fc_commission charge = min (fc_commission unpaid) cap"
    "fc_stamp_tax charge = min (fc_stamp_tax unpaid) (cap - min (fc_commission unpaid) cap)"
    "fc_transfer_fee charge = min (fc_transfer_fee unpaid) (cap - min (fc_commission unpaid) cap - min (fc_stamp_tax unpaid) (cap - min (fc_commission unpaid) cap))"
    using assms(1) by (auto simp: allocate_seller_charge_def Let_def bind_result_Inr_iff lm_simps dest: lm_total_value split: if_splits)
  with assms(2,3) show ?thesis unfolding taken_in_order_def fee_exceeds_def fee_negative_def c by (auto simp: min_def)
qed

lemma try_map_validate_fee: "try_map validate_fee fs = Inr us \<Longrightarrow> \<forall>f\<in>set fs. \<not> fee_negative f"
  by (induction fs arbitrary: us) (auto simp: validate_fee_def bind_result_Inr_iff split: if_splits)

text \<open>The receipt continues the audit.\<close>

lemma validate_audit_Inr:
  assumes "validate_audit r audit = Inr u"
  shows "rc_qty_before r = au_remaining_qty audit" "rc_value_before r = au_filled_value audit" "rc_charged_before r = au_charged audit"
    "rc_qty_after r \<le> rc_qty_before r" "rc_value_before r \<le> rc_value_after r"
    "\<not> fee_negative (rc_nominal r)" "\<not> fee_negative (rc_charged r)"
    "\<not> fee_negative (rc_charged_before r)" "\<not> fee_negative (rc_charged_after r)"
    "rc_kind r = Fill \<longleftrightarrow> rc_qty_after r < rc_qty_before r" "rc_kind r = Fill \<longleftrightarrow> rc_value_before r < rc_value_after r"
    "\<exists>nominal. fee_add (au_nominal audit) (rc_nominal r) = Inr nominal \<and> \<not> fee_exceeds (rc_charged_after r) nominal"
    "fee_add (au_charged audit) (rc_charged r) = Inr (rc_charged_after r)"
proof -
  have "rc_qty_before r = au_remaining_qty audit \<and> rc_value_before r = au_filled_value audit \<and> rc_charged_before r = au_charged audit"
    using assms by (rule contrapos_pp) (auto simp: validate_audit_def)
  then show before: "rc_qty_before r = au_remaining_qty audit" "rc_value_before r = au_filled_value audit" "rc_charged_before r = au_charged audit" by blast+
  have "\<not> (rc_qty_after r > rc_qty_before r \<or> rc_value_after r < rc_value_before r)"
    using assms by (rule contrapos_pn) (auto simp: validate_audit_def before)
  then show order: "rc_qty_after r \<le> rc_qty_before r" "rc_value_before r \<le> rc_value_after r" by auto
  obtain us where fees: "try_map validate_fee [rc_nominal r, rc_charged r, rc_charged_before r, rc_charged_after r] = Inr us"
    using assms order by (cases "try_map validate_fee [rc_nominal r, rc_charged r, rc_charged_before r, rc_charged_after r]")
      (auto simp: validate_audit_def before)
  show "\<not> fee_negative (rc_nominal r)" "\<not> fee_negative (rc_charged r)"
    "\<not> fee_negative (rc_charged_before r)" "\<not> fee_negative (rc_charged_after r)"
    using try_map_validate_fee [OF fees] by auto
  have moved: "\<not> (rc_kind r = Fill \<and> (rc_qty_after r = rc_qty_before r \<or> rc_value_after r = rc_value_before r))"
    "\<not> (rc_kind r \<noteq> Fill \<and> (rc_qty_after r \<noteq> rc_qty_before r \<or> rc_value_after r \<noteq> rc_value_before r))"
    using assms order unfolding validate_audit_def fees bind_result_simps by (auto simp: before split: if_splits)
  then show "rc_kind r = Fill \<longleftrightarrow> rc_qty_after r < rc_qty_before r" "rc_kind r = Fill \<longleftrightarrow> rc_value_before r < rc_value_after r"
    using order by auto
  show "\<exists>nominal. fee_add (au_nominal audit) (rc_nominal r) = Inr nominal \<and> \<not> fee_exceeds (rc_charged_after r) nominal"
    "fee_add (au_charged audit) (rc_charged r) = Inr (rc_charged_after r)"
    using assms order moved unfolding validate_audit_def fees bind_result_simps
    by (auto simp: before bind_result_Inr_iff split: if_splits)
qed

lemma receipt_filled_Inr: "receipt_filled m r = Inr n \<longleftrightarrow> rc_qty_after r \<le> rc_qty_before r \<and> n = rc_qty_before r - rc_qty_after r"
  by (auto simp: receipt_filled_def)

lemma next_audit_Inr:
  assumes "next_audit r audit = Inr a"
  shows "au_remaining_qty a = rc_qty_after r" "au_filled_qty a = au_filled_qty audit + (rc_qty_before r - rc_qty_after r)"
    "au_filled_value a = rc_value_after r" "fee_add (au_nominal audit) (rc_nominal r) = Inr (au_nominal a)" "au_charged a = rc_charged_after r"
    "\<not> is_price_resolved (rc_kind r) \<Longrightarrow> au_limit a = au_limit audit"
  using assms by (auto simp: next_audit_def bind_result_Inr_iff receipt_filled_Inr split: receipt_kind.splits)

lemma validate_envelope_receipt_Inr:
  "validate_envelope_receipt r audit (Some e) = Inr u \<longleftrightarrow> kind_legal (lk_source (rc_local_key r)) (rc_kind r)
     \<and> validate_audit r audit = Inr () \<and> validate_price_resolution r audit e = Inr () \<and> validate_resources r e = Inr ()"
  by (auto simp: validate_envelope_receipt_def validate_kind_def bind_result_Inr_iff split: if_splits)

lemma buyer_fill:
  assumes "validate_resources r e = Inr u" "ek_side (env_key e) = Buy" "rc_kind r = Fill"
  shows "rv_cash (dl_spent (rc_delta r)) = (rc_value_after r - rc_value_before r) + fee_sum (rc_charged r)"
    "rc_deliver_qty r = rc_qty_before r - rc_qty_after r" "rc_deliver_cash r = 0" "rv_shares (dl_spent (rc_delta r)) = 0"
    "rc_qty_after r = 0 \<Longrightarrow> dl_live_after (rc_delta r) = res_zero"
  using assms by (auto simp: validate_resources_def validate_buyer_resources_def receipt_terminal_def bind_result_Inr_iff receipt_filled_Inr lm_simps
      dest: lm_total_value split: if_splits)

lemma seller_fill:
  assumes "validate_resources r e = Inr u" "ek_side (env_key e) = Sell" "rc_kind r = Fill"
  shows "rc_deliver_cash r + fee_sum (rc_charged r) = rc_value_after r - rc_value_before r" "0 \<le> rc_deliver_cash r"
    "rv_shares (dl_spent (rc_delta r)) = rc_qty_before r - rc_qty_after r" "rv_cash (dl_spent (rc_delta r)) = 0"
    "rv_shares (dl_released (rc_delta r)) = 0" "rv_shares (dl_live_after (rc_delta r)) = rc_qty_after r" "rc_deliver_qty r = 0"
    "validate_seller_fill_charge r (env_audit e) (rc_value_after r - rc_value_before r) = Inr ()"
proof -
  have v: "validate_seller_delivery r (env_audit e) = Inr ()" and "rv_cash (dl_spent (rc_delta r)) = 0"
    using assms by (auto simp: validate_resources_def bind_result_Inr_iff split: if_splits)
  then show "rv_cash (dl_spent (rc_delta r)) = 0" by blast
  show "rc_deliver_cash r + fee_sum (rc_charged r) = rc_value_after r - rc_value_before r" "0 \<le> rc_deliver_cash r"
    "rv_shares (dl_spent (rc_delta r)) = rc_qty_before r - rc_qty_after r"
    "rv_shares (dl_released (rc_delta r)) = 0" "rv_shares (dl_live_after (rc_delta r)) = rc_qty_after r" "rc_deliver_qty r = 0"
    "validate_seller_fill_charge r (env_audit e) (rc_value_after r - rc_value_before r) = Inr ()"
    using v assms(3) by (auto simp: validate_seller_delivery_def Let_def bind_result_Inr_iff receipt_filled_Inr lm_simps
        dest: lm_total_value split: if_splits)
qed

lemma seller_charge:
  assumes "validate_seller_fill_charge r audit gross = Inr u" "validate_audit r audit = Inr u'" "0 \<le> gross"
    "fee_add (au_nominal audit) (rc_nominal r) = Inr nominal"
  shows "fee_sum (rc_charged r) = min (fee_sum nominal - fee_sum (au_charged audit)) gross"
    "fee_sum (au_charged audit) \<le> au_filled_value audit"
    "\<exists>unpaid. fee_sub nominal (au_charged audit) = Inr unpaid \<and> taken_in_order (rc_charged r) unpaid"
proof -
  note a = validate_audit_Inr [OF assms(2)]
  obtain unpaid unpaid_total where sub: "fee_sub nominal (au_charged audit) = Inr unpaid"
    and t: "unpaid_total = fee_sum nominal - fee_sum (au_charged audit)"
    and alloc: "allocate_seller_charge unpaid (min unpaid_total gross) = Inr (rc_charged r)"
    and hist: "fee_sum (au_charged audit) \<le> au_filled_value audit"
    using assms(1,4) a by (auto simp: validate_seller_fill_charge_def bind_result_Inr_iff lm_simps dest!: lm_total_value split: if_splits)
  have pos: "\<not> fee_negative unpaid" and sum: "fee_sum unpaid = unpaid_total"
    using fee_sub_value [OF sub] by (auto simp: fee_negative_def fee_exceeds_def fee_sum_def t)
  then have "0 \<le> unpaid_total" by (auto simp: fee_negative_def fee_sum_def)
  then have "fee_sum (rc_charged r) = min unpaid_total gross \<and> taken_in_order (rc_charged r) unpaid"
    using allocate_seller_charge_Inr [OF alloc pos] assms(3) by simp
  with t sub hist show "fee_sum (rc_charged r) = min (fee_sum nominal - fee_sum (au_charged audit)) gross"
    "fee_sum (au_charged audit) \<le> au_filled_value audit"
    "\<exists>unpaid. fee_sub nominal (au_charged audit) = Inr unpaid \<and> taken_in_order (rc_charged r) unpaid" by auto
qed

end
