(* ===== verification/Envelope_Invariant.thy ===== *)
theory Envelope_Invariant
  imports Envelope_Laws "HOL-Library.Multiset"
begin

section \<open>The invariant of the reservation ledger\<close>

text \<open>
  The four maps have one row for each reservation, the audit is the envelope's, and what the envelope spent
  and released in this tick is what its conservation row recorded. Every operation keeps it.
\<close>

definition live_row :: "envelope_ledger \<Rightarrow> envelope_key \<Rightarrow> envelope option" where
  "live_row l k = pm_get (el_envelopes l) k"

definition row_at :: "envelope_ledger \<Rightarrow> envelope_key \<Rightarrow> envelope option" where
  "row_at l k = (case live_row l k of None \<Rightarrow> pm_get (el_terminal l) k | Some e \<Rightarrow> Some e)"

definition linked :: "envelope \<Rightarrow> conservation_state \<Rightarrow> bool" where
  "linked e s \<longleftrightarrow> env_spent e = cs_sealed_spent s \<and> env_released e = res_plus (cs_expiry_released s) (cs_sealed_released s)"

definition maps_ok :: "envelope_ledger \<Rightarrow> bool" where
  "maps_ok l \<longleftrightarrow> pm_ok (el_envelopes l) \<and> pm_ok (el_terminal l) \<and> pm_ok (el_audits l) \<and> pm_ok (el_conservation l)"

definition row_ok :: "envelope_ledger \<Rightarrow> envelope_key \<Rightarrow> bool" where
  "row_ok l k \<longleftrightarrow> (case row_at l k of
      None \<Rightarrow> pm_get (el_audits l) k = None \<and> pm_get (el_conservation l) k = None
    | Some e \<Rightarrow> env_key e = k \<and> envelope_ok e \<and> proof_ok e \<and> pm_get (el_audits l) k = Some (env_audit e)
        \<and> (\<exists>s. pm_get (el_conservation l) k = Some s \<and> linked e s))
     \<and> (live_row l k \<noteq> None \<longrightarrow> pm_get (el_terminal l) k = None)"

definition ledger_inv :: "envelope_ledger \<Rightarrow> bool" where
  "ledger_inv l \<longleftrightarrow> maps_ok l \<and> (\<forall>k. row_ok l k)"

lemma ledger_invD: "ledger_inv l \<Longrightarrow> maps_ok l" "ledger_inv l \<Longrightarrow> row_ok l k"
  by (simp_all add: ledger_inv_def)

lemma live_row_inv:
  assumes "ledger_inv l" "live_row l k = Some e"
  shows "env_key e = k" "envelope_ok e" "proof_ok e" "pm_get (el_audits l) k = Some (env_audit e)"
    "\<exists>s. pm_get (el_conservation l) k = Some s \<and> linked e s" "pm_get (el_terminal l) k = None"
  using ledger_invD(2) [OF assms(1), of k] assms(2) by (simp_all add: row_ok_def row_at_def)

text \<open>A row depends on its own entries only.\<close>

lemma row_ok_cong:
  assumes "live_row l k = live_row l' k" "pm_get (el_terminal l) k = pm_get (el_terminal l') k"
    "pm_get (el_audits l) k = pm_get (el_audits l') k" "pm_get (el_conservation l) k = pm_get (el_conservation l') k"
  shows "row_ok l k = row_ok l' k"
  by (simp add: row_ok_def row_at_def assms split: option.split)

lemma maps_ok_simps [simp]:
  "maps_ok (l\<lparr>el_seen := x\<rparr>) = maps_ok l" "maps_ok (l\<lparr>el_next_index := n\<rparr>) = maps_ok l"
  by (simp_all add: maps_ok_def)

lemma ledger_inv_other [simp]:
  "ledger_inv (l\<lparr>el_seen := x\<rparr>) = ledger_inv l" "ledger_inv (l\<lparr>el_next_index := n\<rparr>) = ledger_inv l"
  by (simp_all add: ledger_inv_def live_row_def row_ok_cong [of "l\<lparr>el_seen := x\<rparr>" _ l] row_ok_cong [of "l\<lparr>el_next_index := n\<rparr>" _ l])

subsection \<open>One receipt\<close>

text \<open>The parts of a receipt that was applied.\<close>

definition applied :: "envelope_receipt \<Rightarrow> envelope_ledger \<Rightarrow> envelope \<Rightarrow> envelope \<Rightarrow> conservation_state \<Rightarrow> conservation_state \<Rightarrow> bool" where
  "applied r l e e' s s' \<longleftrightarrow> (\<exists>audit a. pm_get (el_audits l) (rc_envelope r) = Some audit \<and> live_row l (rc_envelope r) = Some e
     \<and> validate_envelope_receipt r audit (Some e) = Inr () \<and> next_audit r audit = Inr a
     \<and> envelope_apply (rc_delta r) a (is_price_resolved (rc_kind r)) e = Inr e'
     \<and> pm_get (el_conservation l) (rc_envelope r) = Some s \<and> record_state r s = (Inr (), s'))"

lemma apply_one_Inr:
  assumes "apply_one r l = (Inr u, l')"
  obtains e e' s s' a where "applied r l e e' s s'" "a = env_audit e'"
    "l' = l\<lparr>el_envelopes := pm_update (rc_envelope r) e' (el_envelopes l), el_conservation := pm_update (rc_envelope r) s' (el_conservation l),
        el_audits := snd (pm_insert (rc_envelope r) a (el_audits l))\<rparr>"
proof -
  let ?k = "rc_envelope r"
  obtain audit e a e' l2 u' where parts: "pm_get (el_audits l) ?k = Some audit" "pm_get (el_envelopes l) ?k = Some e"
      "validate_envelope_receipt r audit (pm_get (el_envelopes l) ?k) = Inr u'" "next_audit r audit = Inr a"
      "envelope_apply (rc_delta r) a (is_price_resolved (rc_kind r)) e = Inr e'"
    and rec: "conservation_record r (l\<lparr>el_envelopes := pm_update ?k e' (el_envelopes l)\<rparr>) = (Inr (), l2)"
    and l': "l' = l2\<lparr>el_audits := snd (pm_insert ?k a (el_audits l2))\<rparr>"
    using assms by (auto simp: apply_one_def Let_def try_in_ok_iff try_st_ok_iff)
  obtain s s' where s: "pm_get (el_conservation l) ?k = Some s" "record_state r s = (Inr (), s')"
    and l2: "l2 = l\<lparr>el_envelopes := pm_update ?k e' (el_envelopes l), el_conservation := pm_update ?k s' (el_conservation l)\<rparr>"
    using rec by (auto simp: conservation_record_def split: option.splits prod.splits)
  have "a = env_audit e'" using envelope_apply_step [OF parts(5)] by (simp add: envelope_step_def)
  moreover have "applied r l e e' s s'" using parts s by (auto simp: applied_def live_row_def)
  ultimately show thesis using that l' l2 by simp
qed

lemma record_state_linked:
  assumes "linked e s" "record_state r s = (Inr u, s')" "envelope_step (rc_delta r) a x e e'"
    "lk_journal (rc_local_key r) = PreSeal \<Longrightarrow> dl_spent (rc_delta r) = res_zero"
  shows "linked e' s'"
proof (cases "lk_journal (rc_local_key r) = PreSeal")
  case True
  then have "s' = s\<lparr>cs_expiry_released := res_plus (cs_expiry_released s) (dl_released (rc_delta r))\<rparr>"
    using assms(2) by (auto simp: record_state_def try_in_ok_iff dest: res_add_value)
  with assms True show ?thesis by (simp add: linked_def envelope_step_def res_plus_ac)
next
  case False
  then have "s' = s\<lparr>cs_sealed_spent := res_plus (cs_sealed_spent s) (dl_spent (rc_delta r)),
      cs_sealed_released := res_plus (cs_sealed_released s) (dl_released (rc_delta r))\<rparr>"
    using assms(2) by (auto simp: record_state_def Let_def try_in_ok_iff dest!: res_add_value)
  with assms show ?thesis by (simp add: linked_def envelope_step_def res_plus_ac)
qed

text \<open>The journal of a receipt is that of its source; the numbering of a batch has checked it.\<close>

definition journal_ok :: "envelope_receipt \<Rightarrow> bool" where
  "journal_ok r \<longleftrightarrow> lk_journal (rc_local_key r) = source_journal (lk_source (rc_local_key r))"

lemma non_fill_spends_nothing:
  assumes "validate_resources r e = Inr u" "rc_kind r \<noteq> Fill"
  shows "dl_spent (rc_delta r) = res_zero" "rc_nominal r = fee_zero" "rc_charged r = fee_zero" "rc_deliver_qty r = 0" "rc_deliver_cash r = 0"
proof -
  have v: "validate_non_fill_transition r = Inr ()" using assms by (auto simp: validate_resources_def bind_result_Inr_iff)
  then show "dl_spent (rc_delta r) = res_zero" "rc_nominal r = fee_zero" "rc_charged r = fee_zero"
    using assms(2) by (auto simp: validate_non_fill_transition_def split: if_splits)
  show "rc_deliver_qty r = 0" "rc_deliver_cash r = 0"
    using assms by (auto simp: validate_resources_def validate_buyer_resources_def validate_seller_delivery_def bind_result_Inr_iff
        split: if_splits side.splits)
qed

lemma preseal_spends_nothing:
  assumes "validate_envelope_receipt r audit (Some e) = Inr u" "journal_ok r" "lk_journal (rc_local_key r) = PreSeal"
  shows "dl_spent (rc_delta r) = res_zero"
proof -
  have "rc_kind r = Release"
    using assms by (auto simp: validate_envelope_receipt_Inr journal_ok_def kind_legal_def split: receipt_source.splits)
  with assms(1) show ?thesis using non_fill_spends_nothing(1) [of r e "()"] by (simp add: validate_envelope_receipt_Inr)
qed

lemma applied_step:
  assumes "applied r l e e' s s'" "ledger_inv l"
  shows "envelope_step (rc_delta r) (env_audit e') (is_price_resolved (rc_kind r)) e e'" "envelope_ok e'" "proof_ok e'"
    "validate_envelope_receipt r (env_audit e) (Some e) = Inr ()" "next_audit r (env_audit e) = Inr (env_audit e')"
    "env_key e = rc_envelope r" "linked e s" "record_state r s = (Inr (), s')"
proof -
  obtain audit a where p: "pm_get (el_audits l) (rc_envelope r) = Some audit" "live_row l (rc_envelope r) = Some e"
     "validate_envelope_receipt r audit (Some e) = Inr ()" "next_audit r audit = Inr a"
     "envelope_apply (rc_delta r) a (is_price_resolved (rc_kind r)) e = Inr e'"
     "pm_get (el_conservation l) (rc_envelope r) = Some s" "record_state r s = (Inr (), s')"
    using assms(1) unfolding applied_def by blast
  note row = live_row_inv [OF assms(2) p(2)]
  have audit: "audit = env_audit e" using row(4) p(1) by simp
  note step = envelope_apply_step [OF p(5)]
  then have a: "a = env_audit e'" by (simp add: envelope_step_def)
  show "envelope_step (rc_delta r) (env_audit e') (is_price_resolved (rc_kind r)) e e'" "envelope_ok e'" using step a by auto
  show "proof_ok e'" by (rule envelope_apply_proof_ok [OF row(3) p(5)])
  show "validate_envelope_receipt r (env_audit e) (Some e) = Inr ()" "next_audit r (env_audit e) = Inr (env_audit e')" using p(3,4) audit a by auto
  show "env_key e = rc_envelope r" "linked e s" "record_state r s = (Inr (), s')" using row(1,5) p(6,7) by auto
qed

lemma apply_one_inv:
  assumes "apply_one r l = (Inr u, l')" "ledger_inv l" "journal_ok r"
  obtains e e' s s' where "applied r l e e' s s'" "ledger_inv l'" "live_row l (rc_envelope r) = Some e" "live_row l' (rc_envelope r) = Some e'"
    "\<And>k. k \<noteq> rc_envelope r \<Longrightarrow> live_row l' k = live_row l k" "el_terminal l' = el_terminal l"
    "el_seen l' = el_seen l" "el_next_index l' = el_next_index l"
proof -
  let ?k = "rc_envelope r"
  obtain e e' s s' where ap: "applied r l e e' s s'"
    and l': "l' = l\<lparr>el_envelopes := pm_update ?k e' (el_envelopes l), el_conservation := pm_update ?k s' (el_conservation l),
        el_audits := snd (pm_insert ?k (env_audit e') (el_audits l))\<rparr>"
    using apply_one_Inr [OF assms(1)] by metis
  have here: "live_row l ?k = Some e" "pm_get (el_conservation l) ?k = Some s" using ap unfolding applied_def by blast+
  note st = applied_step [OF ap assms(2)]
  have ok: "pm_ok (el_envelopes l)" "pm_ok (el_terminal l)" "pm_ok (el_audits l)" "pm_ok (el_conservation l)"
    using ledger_invD(1) [OF assms(2)] by (simp_all add: maps_ok_def)
  have live: "live_row l' k = (if k = ?k then Some e' else live_row l k)" for k
    using here(1) by (simp add: l' live_row_def rows.get_update [OF ok(1)])
  have others: "pm_get (el_audits l') k = (if k = ?k then Some (env_audit e') else pm_get (el_audits l) k)"
    "pm_get (el_conservation l') k = (if k = ?k then Some s' else pm_get (el_conservation l) k)"
    "pm_get (el_terminal l') k = pm_get (el_terminal l) k" for k
    using here(2) by (simp_all add: l' rows.get_update [OF ok(4)] rows.get_insert [OF ok(3)])
  have "linked e' s'"
    by (rule record_state_linked [OF st(7,8,1)]) (rule preseal_spends_nothing [OF st(4) assms(3)])
  moreover have "env_key e' = ?k" using st(1,6) by (simp add: envelope_step_def)
  ultimately have "row_ok l' ?k"
    using st(2,3) live [of ?k] others [of ?k] live_row_inv(6) [OF assms(2) here(1)] by (simp add: row_ok_def row_at_def)
  moreover have "row_ok l' k" if "k \<noteq> ?k" for k
    using ledger_invD(2) [OF assms(2), of k] row_ok_cong [of l' k l] live [of k] others [of k] that by simp
  moreover have "maps_ok l'" using ok by (simp add: l' maps_ok_def rows.update_ok rows.insert_ok)
  ultimately have "ledger_inv l'" by (metis ledger_inv_def)
  then show thesis using that [OF ap _ here(1)] live l' by simp
qed

subsection \<open>A batch of receipts\<close>

definition spent_by :: "envelope_receipt list \<Rightarrow> res_vec" where
  "spent_by rs = foldr (\<lambda>r. res_plus (dl_spent (rc_delta r))) rs res_zero"

definition released_by :: "envelope_receipt list \<Rightarrow> res_vec" where
  "released_by rs = foldr (\<lambda>r. res_plus (dl_released (rc_delta r))) rs res_zero"

lemma spent_by_simps [simp]: "spent_by [] = res_zero" "spent_by (r # rs) = res_plus (dl_spent (rc_delta r)) (spent_by rs)"
    "released_by [] = res_zero" "released_by (r # rs) = res_plus (dl_released (rc_delta r)) (released_by rs)"
  by (simp_all add: spent_by_def released_by_def)

text \<open>
  What a list of receipts of one envelope did to it. The reserved resources are split into what was spent, what
  was released and what is left. A buyer spends the value of its fills and the charged fees, and gets the
  shares; a seller spends the shares, and gets the value less the charged fees.
\<close>

definition settled :: "envelope_receipt list \<Rightarrow> envelope \<Rightarrow> envelope \<Rightarrow> bool" where
  "settled rs e e' \<longleftrightarrow> (let a = env_audit e; a' = env_audit e' in
     env_key e' = env_key e \<and> env_origin e' = env_origin e \<and> env_basis e' = env_basis e
     \<and> env_live e = res_plus (res_plus (spent_by rs) (released_by rs)) (env_live e')
     \<and> env_spent e' = res_plus (env_spent e) (spent_by rs) \<and> env_released e' = res_plus (env_released e) (released_by rs)
     \<and> au_filled_qty a' + au_remaining_qty a' = au_filled_qty a + au_remaining_qty a \<and> au_filled_qty a \<le> au_filled_qty a'
     \<and> (case ek_side (env_key e) of
          Buy \<Rightarrow> rv_cash (spent_by rs) = (au_filled_value a' - au_filled_value a) + (fee_sum (au_charged a') - fee_sum (au_charged a))
            \<and> sum_list (map rc_deliver_qty rs) = au_filled_qty a' - au_filled_qty a \<and> sum_list (map rc_deliver_cash rs) = 0
        | Sell \<Rightarrow> rv_shares (spent_by rs) = au_filled_qty a' - au_filled_qty a \<and> sum_list (map rc_deliver_qty rs) = 0
            \<and> sum_list (map rc_deliver_cash rs) = (au_filled_value a' - au_filled_value a) - (fee_sum (au_charged a') - fee_sum (au_charged a))))"

lemma settled_refl [simp]: "settled [] e e"
  by (simp add: settled_def Let_def split: side.split)

lemma settled_Cons:
  assumes "settled [r] e e1" "settled rs e1 e2"
  shows "settled (r # rs) e e2"
  using assms by (cases "ek_side (env_key e)") (auto simp: settled_def Let_def res_plus_ac)

lemma fee_sum_zero [simp]: "fee_sum fee_zero = 0"
  by (simp add: fee_sum_def fee_zero_def)

lemma settled_receipt:
  assumes "envelope_step (rc_delta r) (env_audit e') x e e'" "validate_envelope_receipt r (env_audit e) (Some e) = Inr ()"
    "next_audit r (env_audit e) = Inr (env_audit e')"
  shows "settled [r] e e'"
proof -
  have va: "validate_audit r (env_audit e) = Inr ()" and vr: "validate_resources r e = Inr ()" using assms(2) by (simp_all add: validate_envelope_receipt_Inr)
  note a = validate_audit_Inr [OF va] and n = next_audit_Inr [OF assms(3)]
  have qty: "au_filled_qty (env_audit e') + au_remaining_qty (env_audit e') = au_filled_qty (env_audit e) + au_remaining_qty (env_audit e)"
    "au_filled_qty (env_audit e') - au_filled_qty (env_audit e) = rc_qty_before r - rc_qty_after r" "au_filled_qty (env_audit e) \<le> au_filled_qty (env_audit e')"
    using a(1,4) n(1,2) by simp_all
  have fee: "fee_sum (au_charged (env_audit e')) - fee_sum (au_charged (env_audit e)) = fee_sum (rc_charged r)"
    using fee_add_sum [OF a(13)] n(5) by simp
  have val: "au_filled_value (env_audit e') - au_filled_value (env_audit e) = rc_value_after r - rc_value_before r" using a(2) n(3) by simp
  have side: "case ek_side (env_key e) of
          Buy \<Rightarrow> rv_cash (dl_spent (rc_delta r)) = (rc_value_after r - rc_value_before r) + fee_sum (rc_charged r)
            \<and> rc_deliver_qty r = rc_qty_before r - rc_qty_after r \<and> rc_deliver_cash r = 0
        | Sell \<Rightarrow> rv_shares (dl_spent (rc_delta r)) = rc_qty_before r - rc_qty_after r \<and> rc_deliver_qty r = 0
            \<and> rc_deliver_cash r = (rc_value_after r - rc_value_before r) - fee_sum (rc_charged r)"
  proof (cases "rc_kind r = Fill")
    case True
    show ?thesis using buyer_fill [OF vr _ True] seller_fill [OF vr _ True] by (auto split: side.split)
  next
    case False
    then have "rc_qty_before r = rc_qty_after r" "rc_value_after r = rc_value_before r" using a(4,5,10,11) by auto
    then show ?thesis using non_fill_spends_nothing [OF vr False] by (auto split: side.split)
  qed
  with assms(1) qty show ?thesis
    unfolding settled_def Let_def fee val by (cases "ek_side (env_key e)") (simp_all add: envelope_step_def)
qed

text \<open>The receipts of one envelope.\<close>

definition receipts_of :: "envelope_key \<Rightarrow> envelope_receipt list \<Rightarrow> envelope_receipt list" where
  "receipts_of k rs = filter (\<lambda>r. rc_envelope r = k) rs"

lemma apply_each_inv:
  "apply_each rs l = (Inr u, l') \<Longrightarrow> ledger_inv l \<Longrightarrow> \<forall>r\<in>set rs. journal_ok r \<Longrightarrow>
     ledger_inv l' \<and> el_terminal l' = el_terminal l \<and> el_next_index l' = el_next_index l
     \<and> (\<forall>k. case live_row l k of None \<Rightarrow> live_row l' k = None \<and> receipts_of k rs = []
         | Some e \<Rightarrow> \<exists>e'. live_row l' k = Some e' \<and> settled (receipts_of k rs) e e')"
proof (induction rs arbitrary: l)
  case Nil
  then show ?case by (auto simp: receipts_of_def split: option.split)
next
  case (Cons r rs)
  let ?l = "l\<lparr>el_seen := bt_insert (local_order (rc_local_key r)) (rc_local_key r) (el_seen l)\<rparr>" and ?k = "rc_envelope r"
  obtain l1 where one: "apply_one r ?l = (Inr (), l1)" and rest: "apply_each rs l1 = (Inr u, l')"
    using Cons.prems(1) by (auto simp: try_st_ok_iff split: if_splits)
  have inv: "ledger_inv ?l" and j: "journal_ok r" using Cons.prems by simp_all
  obtain e e1 s s' where ap: "applied r ?l e e1 s s'" and inv1: "ledger_inv l1"
    and here: "live_row ?l ?k = Some e" "live_row l1 ?k = Some e1" and away: "\<And>k. k \<noteq> ?k \<Longrightarrow> live_row l1 k = live_row ?l k"
    and same: "el_terminal l1 = el_terminal ?l" "el_next_index l1 = el_next_index ?l"
    using apply_one_inv [OF one inv j] by metis
  have same_live: "live_row ?l k = live_row l k" for k by (simp add: live_row_def)
  note st = applied_step [OF ap inv]
  have r: "settled [r] e e1" by (rule settled_receipt [OF st(1,4,5)])
  have ih: "ledger_inv l' \<and> el_terminal l' = el_terminal l1 \<and> el_next_index l' = el_next_index l1
     \<and> (\<forall>k. case live_row l1 k of None \<Rightarrow> live_row l' k = None \<and> receipts_of k rs = []
         | Some e \<Rightarrow> \<exists>e'. live_row l' k = Some e' \<and> settled (receipts_of k rs) e e')"
    using Cons.IH [OF rest inv1] Cons.prems(3) by simp
  have "case live_row l k of None \<Rightarrow> live_row l' k = None \<and> receipts_of k (r # rs) = []
         | Some e \<Rightarrow> \<exists>e'. live_row l' k = Some e' \<and> settled (receipts_of k (r # rs)) e e'" for k
  proof (cases "k = ?k")
    case True
    have "case live_row l1 k of None \<Rightarrow> live_row l' k = None \<and> receipts_of k rs = []
         | Some e \<Rightarrow> \<exists>e'. live_row l' k = Some e' \<and> settled (receipts_of k rs) e e'" using ih by blast
    then obtain e2 where "live_row l' k = Some e2" "settled (receipts_of k rs) e1 e2" using here(2) True by auto
    moreover have "receipts_of k (r # rs) = r # receipts_of k rs" by (simp add: receipts_of_def True)
    moreover have "live_row l k = Some e" using here(1) True same_live by metis
    ultimately show ?thesis using settled_Cons [OF r] by auto
  next
    case False
    then have "receipts_of k (r # rs) = receipts_of k rs" by (simp add: receipts_of_def)
    moreover have "case live_row l1 k of None \<Rightarrow> live_row l' k = None \<and> receipts_of k rs = []
         | Some e \<Rightarrow> \<exists>e'. live_row l' k = Some e' \<and> settled (receipts_of k rs) e e'" using ih by blast
    moreover have "live_row l1 k = live_row l k" using away [OF False] same_live by simp
    ultimately show ?thesis by (cases "live_row l k") simp_all
  qed
  with ih same show ?case by simp
qed

subsection \<open>Order and numbers of a batch\<close>

lemma number_receipts_Inr:
  "number_receipts n rs = (Inr rs', n') \<Longrightarrow> n' = n + length rs \<and> map rc_index rs' = [n..<n + length rs]
     \<and> map (rc_index_update (\<lambda>_. 0)) rs' = map (rc_index_update (\<lambda>_. 0)) rs"
proof (induction rs arbitrary: n rs' n')
  case (Cons r rs)
  obtain rs1 where rest: "number_receipts (n + 1) rs = (Inr rs1, n')" and rs': "rs' = r\<lparr>rc_index := n\<rparr> # rs1"
    using Cons.prems by (auto simp: try_in_ok_iff try_st_ok_iff)
  note ih = Cons.IH [OF rest]
  have "[n..<n + length (r # rs)] = n # [n + 1..<n + 1 + length rs]" by (simp add: upt_conv_Cons del: upt_Suc)
  with ih show ?case by (simp add: rs' del: upt_Suc)
qed simp

text \<open>Receipts up to their numbers.\<close>

abbreviation unnumbered :: "envelope_receipt \<Rightarrow> envelope_receipt" where
  "unnumbered r \<equiv> r\<lparr>rc_index := 0\<rparr>"

lemma receipt_order_unnumbered: "receipt_order (unnumbered r) = receipt_order r"
  by (simp add: receipt_order_def)

lemma index_in_order_Inr:
  assumes "index_in_order n rs = (Inr rs', n')"
  shows "n' = n + length rs" "map rc_index rs' = [n..<n + length rs]" "map unnumbered rs' = map unnumbered rs"
    "\<forall>r\<in>set rs'. journal_ok r \<and> rc_envelope r = lk_envelope (rc_local_key r)" "distinct (map rc_local_key rs')"
proof -
  have num: "number_receipts n rs = (Inr rs', n')" and keys: "validate_indexed_receipt_keys (map indexed_of rs') = Inr ()"
    using assms by (auto simp: index_in_order_def try_st_ok_iff try_in_ok_iff)
  note laws = number_receipts_Inr [OF num]
  show "n' = n + length rs" "map rc_index rs' = [n..<n + length rs]" "map unnumbered rs' = map unnumbered rs" using laws by auto
  have locals: "map ik_local (map indexed_of rs') = map rc_local_key rs'" by (simp add: indexed_of_def)
  obtain w expected where w: "try_fold check_local_key ([], Map.empty) (map rc_local_key rs') = Inr w"
    and idx: "check_indices [] expected (map indexed_of rs') = Inr ()"
    using keys unfolding validate_indexed_receipt_keys_def validate_receipt_keys_def locals bind_result_Inr_iff by blast
  from check_local_keys_Inr [OF w]
  have d: "distinct (rev (map rc_local_key rs'))" "\<forall>k\<in>set (map rc_local_key rs'). lk_journal k = source_journal (lk_source k)" by simp_all
  from d(1) show "distinct (map rc_local_key rs')" by simp
  from check_indices_Inr [OF idx] d(2) show "\<forall>r\<in>set rs'. journal_ok r \<and> rc_envelope r = lk_envelope (rc_local_key r)"
    by (auto simp: indexed_of_def journal_ok_def)
qed

lemma normalize_Inr:
  assumes "normalize n rs = (Inr rs', n')"
  shows "n' = n + length rs" "map rc_index rs' = [n..<n + length rs]" "mset (map unnumbered rs') = mset (map unnumbered rs)"
    "sorted (map receipt_order rs')" "\<forall>r\<in>set rs'. journal_ok r \<and> rc_envelope r = lk_envelope (rc_local_key r)" "distinct (map rc_local_key rs')"
proof -
  note laws = index_in_order_Inr [OF assms [unfolded normalize_def]]
  show "n' = n + length rs" "map rc_index rs' = [n..<n + length rs]" "distinct (map rc_local_key rs')"
    "\<forall>r\<in>set rs'. journal_ok r \<and> rc_envelope r = lk_envelope (rc_local_key r)" using laws by simp_all
  have "mset (map unnumbered (sort_key receipt_order rs)) = mset (map unnumbered rs)" by (metis mset_map mset_sort)
  then show "mset (map unnumbered rs') = mset (map unnumbered rs)" using laws(3) by simp
  have "map receipt_order rs' = map receipt_order (map unnumbered rs')" by (simp add: receipt_order_unnumbered comp_def)
  also have "\<dots> = map receipt_order (sort_key receipt_order rs)" unfolding laws(3) by (simp add: receipt_order_unnumbered comp_def)
  finally show "sorted (map receipt_order rs')" by simp
qed

subsection \<open>Rows that end\<close>

lemma end_each_inv:
  "end_each ks l = (Inr u, l') \<Longrightarrow> ledger_inv l \<Longrightarrow> ledger_inv l' \<and> (\<forall>k. row_at l' k = row_at l k)
     \<and> (\<forall>k. live_row l' k = (if k \<in> set ks then None else live_row l k))
     \<and> (\<forall>k\<in>set ks. \<exists>e. live_row l k = Some e \<and> env_live e = res_zero) \<and> distinct ks
     \<and> el_audits l' = el_audits l \<and> el_conservation l' = el_conservation l \<and> el_seen l' = el_seen l \<and> el_next_index l' = el_next_index l"
proof (induction ks arbitrary: l)
  case (Cons k ks)
  have ok: "pm_ok (el_envelopes l)" "pm_ok (el_terminal l)" "pm_ok (el_audits l)" "pm_ok (el_conservation l)"
    using ledger_invD(1) [OF Cons.prems(2)] by (simp_all add: maps_ok_def)
  obtain e live where rm: "pm_remove k (el_envelopes l) = (Some e, live)" and zero: "env_live e = res_zero"
    and rest: "end_each ks (l\<lparr>el_envelopes := live, el_terminal := snd (pm_insert k e (el_terminal l))\<rparr>) = (Inr u, l')"
    using Cons.prems(1) by (auto split: prod.splits option.splits if_splits)
  let ?l = "l\<lparr>el_envelopes := live, el_terminal := snd (pm_insert k e (el_terminal l))\<rparr>"
  have here: "live_row l k = Some e" using rows.remove_removed [OF ok(1), of k] rm by (simp add: live_row_def)
  have live: "live_row ?l j = (if j = k then None else live_row l j)" for j
    using rows.get_remove [OF ok(1), of k j] rm by (simp add: live_row_def)
  have ended: "pm_get (snd (pm_insert k e (el_terminal l))) j = (if j = k then Some e else pm_get (el_terminal l) j)" for j
    by (rule rows.get_insert [OF ok(2)])
  have at: "row_at ?l j = row_at l j" for j using here by (simp add: row_at_def live ended split: option.split)
  have "row_ok ?l j" for j
    using ledger_invD(2) [OF Cons.prems(2), of j] live_row_inv(6) [OF Cons.prems(2) here]
    by (cases "row_at l j") (auto simp: row_ok_def at live ended)
  moreover have "maps_ok ?l" using ok rows.remove_ok [OF ok(1), of k] rm by (simp add: maps_ok_def rows.insert_ok)
  ultimately have inv: "ledger_inv ?l" by (simp add: ledger_inv_def)
  note ih = Cons.IH [OF rest inv]
  have "k \<notin> set ks" using ih live [of k] by auto
  with ih at live here zero show ?case by (auto split: if_splits)
qed simp

end
