(* ===== verification/Envelope_Evidence.thy ===== *)
theory Envelope_Evidence
  imports Envelope_Invariant
begin

section \<open>Rows created, evidence checked, the next tick\<close>

text \<open>
  New rows keep the invariant. The two paths of the check of the whole ledger give the same answer, and what
  an accepted ledger satisfies is written as sums. The rebase to the next tick turns an accepted ledger into
  an accepted one.
\<close>

subsection \<open>New rows\<close>

definition fresh_row :: "envelope \<Rightarrow> bool" where
  "fresh_row e \<longleftrightarrow> env_spent e = res_zero \<and> env_released e = res_zero \<and> proof_ok e"

lemma row_at_None: "row_at l k = None \<longleftrightarrow> live_row l k = None \<and> pm_get (el_terminal l) k = None"
  by (simp add: row_at_def split: option.split)

lemma linked_fresh: "linked e conservation_empty \<longleftrightarrow> env_spent e = res_zero \<and> env_released e = res_zero"
  by (simp add: linked_def conservation_empty_def)

lemma install_row_inv:
  assumes "ledger_inv l" "row_at l (env_key e) = None" "envelope_ok e" "fresh_row e"
  shows "ledger_inv (install_row e l)"
    "live_row (install_row e l) k = (if k = env_key e then Some e else live_row l k)"
    "el_terminal (install_row e l) = el_terminal l" "el_seen (install_row e l) = el_seen l" "el_next_index (install_row e l) = el_next_index l"
proof -
  let ?l = "install_row e l"
  have ok: "pm_ok (el_envelopes l)" "pm_ok (el_terminal l)" "pm_ok (el_audits l)" "pm_ok (el_conservation l)"
    using ledger_invD(1) [OF assms(1)] by (simp_all add: maps_ok_def)
  have get: "live_row ?l j = (if j = env_key e then Some e else live_row l j)"
    "pm_get (el_terminal ?l) j = pm_get (el_terminal l) j"
    "pm_get (el_audits ?l) j = (if j = env_key e then Some (env_audit e) else pm_get (el_audits l) j)"
    "pm_get (el_conservation ?l) j = (if j = env_key e then Some conservation_empty else pm_get (el_conservation l) j)" for j
    by (simp_all add: install_row_def live_row_def rows.get_insert [OF ok(1)] rows.get_insert [OF ok(3)] rows.get_insert [OF ok(4)])
  then show "live_row ?l k = (if k = env_key e then Some e else live_row l k)" by simp
  show "el_terminal ?l = el_terminal l" "el_seen ?l = el_seen l" "el_next_index ?l = el_next_index l" by (simp_all add: install_row_def)
  have "row_ok ?l (env_key e)"
    using assms(2-4) by (auto simp: row_ok_def row_at_def get linked_fresh fresh_row_def split: option.splits)
  moreover have "row_ok ?l j" if "j \<noteq> env_key e" for j
    using ledger_invD(2) [OF assms(1), of j] row_ok_cong [of ?l j l] get [of j] that by simp
  moreover have "maps_ok ?l" using ok by (simp add: install_row_def maps_ok_def rows.insert_ok)
  ultimately show "ledger_inv ?l" by (metis ledger_inv_def)
qed

definition ledger_of :: "nat \<Rightarrow> envelope paged_map \<times> envelope_audit paged_map \<times> conservation_state paged_map \<Rightarrow> envelope_ledger" where
  "ledger_of n maps = (case maps of (rows, audits, conservation) \<Rightarrow>
     \<lparr>el_envelopes = rows, el_terminal = pm_empty, el_audits = audits, el_conservation = conservation, el_seen = [], el_next_index = n\<rparr>)"

lemma pm_get_empty [simp]: "pm_get pm_empty k = None"
  by (simp add: pm_get_def pm_empty_def)

lemma new_row_Inr:
  assumes "new_row maps e = Inr maps'" "ledger_inv (ledger_of n maps)" "fresh_row e"
  shows "ledger_of n maps' = install_row e (ledger_of n maps)" "row_at (ledger_of n maps) (env_key e) = None" "envelope_ok e"
proof -
  obtain rows audits conservation where maps: "maps = (rows, audits, conservation)" by (cases maps)
  have ok: "pm_ok rows" using ledger_invD(1) [OF assms(2)] by (simp add: maps_ok_def ledger_of_def maps)
  have "envelope_ok e \<and> fst (pm_insert (env_key e) e rows) = None
      \<and> maps' = (snd (pm_insert (env_key e) e rows), snd (pm_insert (env_key e) (env_audit e) audits), snd (pm_insert (env_key e) conservation_empty conservation))"
    using assms(1) by (auto simp: new_row_def maps bind_result_Inr_iff envelope_validate_Inr split: prod.splits if_splits)
  then show "ledger_of n maps' = install_row e (ledger_of n maps)" "row_at (ledger_of n maps) (env_key e) = None" "envelope_ok e"
    using rows.insert_previous [OF ok, of "env_key e" e]
    by (simp_all add: ledger_of_def maps install_row_def row_at_def live_row_def)
qed

lemma ledger_inv_empty: "ledger_inv (ledger_of n (pm_empty, pm_empty, pm_empty))"
  by (simp add: ledger_of_def ledger_inv_def maps_ok_def rows.empty_ok row_ok_def row_at_def live_row_def)

lemma new_rows_inv:
  "try_fold new_row maps es = Inr maps' \<Longrightarrow> ledger_inv (ledger_of n maps) \<Longrightarrow> \<forall>e\<in>set es. fresh_row e \<Longrightarrow>
     ledger_inv (ledger_of n maps') \<and> distinct (map env_key es)
     \<and> (\<forall>k. live_row (ledger_of n maps') k = (case map_of (map (\<lambda>e. (env_key e, e)) es) k of Some e \<Rightarrow> Some e | None \<Rightarrow> live_row (ledger_of n maps) k))
     \<and> (\<forall>e\<in>set es. live_row (ledger_of n maps) (env_key e) = None)"
proof (induction es arbitrary: maps)
  case (Cons e es)
  obtain maps1 where one: "new_row maps e = Inr maps1" and rest: "try_fold new_row maps1 es = Inr maps'"
    using Cons.prems(1) by (auto simp: bind_result_Inr_iff)
  note st = new_row_Inr [OF one Cons.prems(2)]
  have fresh: "fresh_row e" using Cons.prems(3) by simp
  note inst = install_row_inv [OF Cons.prems(2) st(2) st(3) fresh] st(1) [OF fresh]
  have "ledger_inv (ledger_of n maps1)" using install_row_inv(1) [OF Cons.prems(2)] st fresh by simp
  note ih = Cons.IH [OF rest this]
  have live: "live_row (ledger_of n maps1) k = (if k = env_key e then Some e else live_row (ledger_of n maps) k)" for k
    using install_row_inv(2) [OF Cons.prems(2)] st fresh by simp
  have here: "live_row (ledger_of n maps) (env_key e) = None" using st(2) [OF fresh] by (auto simp: row_at_def split: option.splits)
  have absent: "\<forall>e'\<in>set es. env_key e' \<noteq> env_key e \<and> live_row (ledger_of n maps) (env_key e') = None"
    using ih Cons.prems(3) by (auto simp: live split: if_splits)
  then have "map_of (map (\<lambda>e. (env_key e, e)) es) (env_key e) = None" by (auto simp: map_of_eq_None_iff)
  with ih Cons.prems(3) live here absent show ?case by (auto split: option.splits)
qed simp

lemma new_envelope_ledger_inv:
  assumes "new_envelope_ledger n es = Inr l" "\<forall>e\<in>set es. fresh_row e"
  shows "ledger_inv l" "live_row l k = map_of (map (\<lambda>e. (env_key e, e)) es) k" "el_terminal l = pm_empty" "el_next_index l = n"
    "distinct (map env_key es)"
proof -
  obtain maps where f: "try_fold new_row (pm_empty, pm_empty, pm_empty) es = Inr maps" and l: "l = ledger_of n maps"
    using assms(1) by (auto simp: new_envelope_ledger_def bind_result_Inr_iff ledger_of_def split: prod.splits)
  note laws = new_rows_inv [OF f ledger_inv_empty assms(2)]
  have "live_row (ledger_of n (pm_empty, pm_empty, pm_empty)) k = None" for k by (simp add: live_row_def ledger_of_def)
  with laws show "ledger_inv l" "live_row l k = map_of (map (\<lambda>e. (env_key e, e)) es) k" "distinct (map env_key es)"
    by (auto simp: l split: option.splits)
  show "el_terminal l = pm_empty" "el_next_index l = n" by (simp_all add: l ledger_of_def split: prod.splits)
qed

lemma prepare_rows:
  "try_fold (prepare_row l) prepared es = Inr out \<Longrightarrow> distinct (map env_key prepared) \<Longrightarrow>
     out = prepared @ es \<and> distinct (map env_key out)
     \<and> (\<forall>e\<in>set es. envelope_ok e \<and> env_origin e = CreatedAtValidation \<and> env_live e \<noteq> res_zero \<and> \<not> known_key l (env_key e))"
proof (induction es arbitrary: prepared)
  case (Cons e es)
  obtain w where step: "prepare_row l prepared e = Inr w" and walk: "try_fold (prepare_row l) w es = Inr out"
    using Cons.prems(1) by (auto simp: bind_result_Inr_iff)
  have e: "envelope_ok e" "env_origin e = CreatedAtValidation" "env_live e \<noteq> res_zero" "env_key e \<notin> set (map env_key prepared)" "\<not> known_key l (env_key e)"
    and w: "w = prepared @ [e]"
    using step by (auto simp: prepare_row_def bind_result_Inr_iff envelope_validate_Inr split: if_splits)
  have "distinct (map env_key (prepared @ [e]))" using Cons.prems(2) e(4) by simp
  note ih = Cons.IH [OF walk [unfolded w] this]
  show ?case
  proof (intro conjI)
    show "out = prepared @ e # es" using ih by simp
    show "distinct (map env_key out)" using ih by blast
    show "\<forall>e\<in>set (e # es). envelope_ok e \<and> env_origin e = CreatedAtValidation \<and> env_live e \<noteq> res_zero \<and> \<not> known_key l (env_key e)"
      using ih e by simp
  qed
qed simp

lemma install_rows_inv:
  "ledger_inv l \<Longrightarrow> distinct (map env_key es) \<Longrightarrow> \<forall>e\<in>set es. envelope_ok e \<and> fresh_row e \<and> row_at l (env_key e) = None \<Longrightarrow>
     ledger_inv (fold install_row es l) \<and> el_terminal (fold install_row es l) = el_terminal l
     \<and> el_seen (fold install_row es l) = el_seen l \<and> el_next_index (fold install_row es l) = el_next_index l
     \<and> (\<forall>k. live_row (fold install_row es l) k = (case map_of (map (\<lambda>e. (env_key e, e)) es) k of Some e \<Rightarrow> Some e | None \<Rightarrow> live_row l k))"
proof (induction es arbitrary: l)
  case (Cons e es)
  have e: "row_at l (env_key e) = None" "envelope_ok e" "fresh_row e" using Cons.prems(3) by simp_all
  note inst = install_row_inv [OF Cons.prems(1) e]
  have "row_at (install_row e l) (env_key e') = None" if "e' \<in> set es" for e'
  proof -
    have "env_key e' \<noteq> env_key e" using Cons.prems(2) that by (metis distinct.simps(2) image_eqI list.simps(9) set_map)
    then show ?thesis using Cons.prems(3) that by (simp add: row_at_None inst)
  qed
  then have "ledger_inv (fold install_row es (install_row e l)) \<and> el_terminal (fold install_row es (install_row e l)) = el_terminal (install_row e l)
     \<and> el_seen (fold install_row es (install_row e l)) = el_seen (install_row e l) \<and> el_next_index (fold install_row es (install_row e l)) = el_next_index (install_row e l)
     \<and> (\<forall>k. live_row (fold install_row es (install_row e l)) k = (case map_of (map (\<lambda>e. (env_key e, e)) es) k of Some e \<Rightarrow> Some e | None \<Rightarrow> live_row (install_row e l) k))"
    by (intro Cons.IH inst(1)) (use Cons.prems in auto)
  moreover have "map_of (map (\<lambda>e. (env_key e, e)) es) (env_key e) = None" using Cons.prems(2) by (auto simp: map_of_eq_None_iff)
  ultimately show ?case by (auto simp: inst(2-5) split: option.splits)
qed simp

subsection \<open>The two paths of the checks\<close>

lemma bind_result_assoc: "bind_result (bind_result r f) g = bind_result r (\<lambda>x. bind_result (f x) g)"
  by (cases r) simp_all

lemma try_fold_map: "try_fold f a (map g xs) = try_fold (\<lambda>a x. f a (g x)) a xs"
  by (induction xs arbitrary: a) (simp_all add: bind_result_def split: sum.split)

lemma try_fold_cong_set: "(\<And>a x. x \<in> set xs \<Longrightarrow> f a x = g a x) \<Longrightarrow> try_fold f a xs = try_fold g a xs"
  by (induction xs arbitrary: a) (simp_all add: bind_result_def split: sum.split)

definition checked_row :: "envelope_ledger \<Rightarrow> envelope_key \<times> envelope \<Rightarrow> step_fatal + row_totals" where
  "checked_row l x = bind_result (conservation_of l (fst x)) (check_row (snd x))"

lemma validate_conservation_paths:
  "validate_conservation l = validate_checked_rows (map (checked_row l) (ledger_rows l))"
proof -
  have "(\<lambda>t (k, e). bind_result (conservation_of l k) (\<lambda>s. bind_result (conservation_row_of e s) (\<lambda>row.
      bind_result (row_validate_with_preseal row (cs_expiry_released s)) (\<lambda>_.
      accumulate_totals t \<lparr>rt_basis = cr_basis row, rt_spent = cr_spent row, rt_released = cr_released row, rt_live = cr_live row\<rparr>))))
    = (\<lambda>t x. bind_result (checked_row l x) (accumulate_totals t))"
    by (simp add: fun_eq_iff checked_row_def check_row_def bind_result_assoc)
  moreover have "(\<lambda>(k, e). bind_result (conservation_of l k) (check_row e)) = checked_row l"
    by (simp add: fun_eq_iff checked_row_def)
  ultimately show ?thesis by (simp add: validate_conservation_def validate_checked_rows_def try_fold_map)
qed

lemma checked_rows_all:
  "try_fold (\<lambda>t r. bind_result r (accumulate_totals t)) t rs = Inr t' \<Longrightarrow> r \<in> set rs \<Longrightarrow> \<exists>y. r = Inr y"
  by (induction rs arbitrary: t) (auto simp: bind_result_Inr_iff)

definition evidence_checks :: "envelope_ledger \<Rightarrow> step_fatal + unit" where
  "evidence_checks l = bind_result (validate_conservation l) (\<lambda>_. bind_result (evidence_counts l) (\<lambda>_.
     try_fold (\<lambda>_ (k, e). validate_evidence_row l k e (pm_get (el_conservation l) k)) () (ledger_rows l)))"

text \<open>Both paths give the answer of the path for few rows, errors included.\<close>

lemma evidence_paths: "validate_complete_evidence l = evidence_checks l"
proof (cases "dense_ledger l")
  case False
  then show ?thesis by (simp add: validate_complete_evidence_def evidence_checks_def)
next
  case True
  let ?c = "\<lambda>(k, e). bind_result (conservation_of l k) (\<lambda>s. bind_result (check_row e s) (\<lambda>row. Inr (row, validate_evidence_row l k e (Some s))))"
  have proj: "(\<lambda>x. bind_result (?c x) (\<lambda>y. Inr (fst y))) = checked_row l"
    by (auto simp: fun_eq_iff checked_row_def bind_result_assoc)
  have all: "validate_complete_evidence l = bind_result (validate_conservation l) (\<lambda>_. bind_result (evidence_counts l) (\<lambda>_.
      try_fold (\<lambda>_ x. bind_result (?c x) snd) () (ledger_rows l)))"
    using True by (simp add: validate_complete_evidence_def validate_conservation_paths try_fold_map proj comp_def del: split_paired_All)
  show ?thesis
  proof (cases "validate_conservation l")
    case (Inr u)
    have "try_fold (\<lambda>_ x. bind_result (?c x) snd) () (ledger_rows l)
        = try_fold (\<lambda>_ (k, e). validate_evidence_row l k e (pm_get (el_conservation l) k)) () (ledger_rows l)"
    proof (rule try_fold_cong_set)
      fix a :: unit and x assume "x \<in> set (ledger_rows l)"
      then have "\<exists>y. checked_row l x = Inr y"
        using Inr checked_rows_all [of no_totals "map (checked_row l) (ledger_rows l)"]
        by (auto simp: validate_conservation_paths validate_checked_rows_def bind_result_Inr_iff)
      then show "bind_result (?c x) snd = (case x of (k, e) \<Rightarrow> validate_evidence_row l k e (pm_get (el_conservation l) k))"
        by (auto simp: checked_row_def conservation_of_def bind_result_Inr_iff split: prod.split)
    qed
    then show ?thesis by (simp add: all evidence_checks_def)
  qed (simp add: all evidence_checks_def)
qed

subsection \<open>What an accepted ledger satisfies\<close>

text \<open>The equation of a row, and the totals it adds.\<close>

definition balanced :: "envelope \<Rightarrow> conservation_state \<Rightarrow> bool" where
  "balanced e s \<longleftrightarrow> res_nonneg (cs_expiry_released s) \<and> res_nonneg (cs_sealed_spent s) \<and> res_nonneg (cs_sealed_released s)
     \<and> env_basis e = res_plus (cs_expiry_released s) (res_plus (res_plus (cs_sealed_spent s) (cs_sealed_released s)) (env_live e))
     \<and> (env_origin e = CreatedAtValidation \<longrightarrow> cs_expiry_released s = res_zero)"

lemma row_validate_totals:
  assumes "row_validate row = Inr u"
  obtains all where "res_nonneg (cr_spent row)" "res_nonneg (cr_released row)" "res_nonneg (cr_live row)"
    "all = res_plus (res_plus (cr_spent row) (cr_released row)) (cr_live row)"
    "case cr_basis row of BasisTickStart start expiry allocation \<Rightarrow> start = res_plus expiry allocation \<and> allocation = all
      | BasisCreated created \<Rightarrow> created = all"
proof -
  have n: "res_nonneg (cr_spent row)" "res_nonneg (cr_released row)" "res_nonneg (cr_live row)"
    using assms unfolding row_validate_def bind_result_Inr_iff [of "res_validate_nonnegative _"] by (simp_all del: split_paired_Ex)
  obtain used all where u: "res_add (cr_spent row) (cr_released row) = Inr used" "res_add used (cr_live row) = Inr all"
    using assms unfolding row_validate_def bind_result_Inr_iff [of "res_validate_nonnegative _"] bind_result_Inr_iff [of "res_add _ _"] by blast
  then have all: "all = res_plus (res_plus (cr_spent row) (cr_released row)) (cr_live row)" by (auto dest!: res_add_value)
  have "case cr_basis row of BasisTickStart start expiry allocation \<Rightarrow> start = res_plus expiry allocation \<and> allocation = all
      | BasisCreated created \<Rightarrow> created = all"
    using assms n u by (cases "cr_basis row") (auto simp: row_validate_def bind_result_Inr_iff dest: res_add_value split: if_splits)
  with n all that show thesis by blast
qed

lemma check_row_Inr:
  assumes "check_row e s = Inr t"
  shows "balanced e s" "rt_live t = env_live e" "rt_spent t = cs_sealed_spent s" "rt_released t = cs_sealed_released s"
proof -
  obtain row where row: "conservation_row_of e s = Inr row" and v: "row_validate_with_preseal row (cs_expiry_released s) = Inr ()"
    and t: "t = \<lparr>rt_basis = cr_basis row, rt_spent = cr_spent row, rt_released = cr_released row, rt_live = cr_live row\<rparr>"
    using assms by (auto simp: check_row_def bind_result_Inr_iff)
  have parts: "cr_spent row = cs_sealed_spent s" "cr_released row = cs_sealed_released s" "cr_live row = env_live e"
    using row by (auto simp: conservation_row_of_def bind_result_Inr_iff)
  then show "rt_live t = env_live e" "rt_spent t = cs_sealed_spent s" "rt_released t = cs_sealed_released s" by (simp_all add: t)
  have "row_validate row = Inr ()" and expiry: "res_nonneg (cs_expiry_released s)"
    using v by (auto simp: row_validate_with_preseal_def bind_result_Inr_iff split: conservation_basis.splits if_splits)
  from row_validate_totals [OF this(1)] obtain all where
    n: "res_nonneg (cs_sealed_spent s)" "res_nonneg (cs_sealed_released s)" "all = res_plus (res_plus (cs_sealed_spent s) (cs_sealed_released s)) (env_live e)"
    and basis: "case cr_basis row of BasisTickStart start expiry allocation \<Rightarrow> start = res_plus expiry allocation \<and> allocation = all
      | BasisCreated created \<Rightarrow> created = all" unfolding parts by blast
  show "balanced e s"
  proof (cases "env_origin e")
    case TickStart
    then obtain rest where "cr_basis row = BasisTickStart (env_basis e) (cs_expiry_released s) rest"
      using row by (auto simp: conservation_row_of_def bind_result_Inr_iff)
    with n basis expiry TickStart show ?thesis by (simp add: balanced_def)
  next
    case CreatedAtValidation
    then have b: "cr_basis row = BasisCreated (env_basis e)" using row by (auto simp: conservation_row_of_def)
    then have "cs_expiry_released s = res_zero"
      using v by (auto simp: row_validate_with_preseal_def bind_result_Inr_iff split: if_splits)
    with n basis expiry b show ?thesis by (simp add: balanced_def)
  qed
qed

lemma check_row_fresh:
  assumes "envelope_ok e" "env_origin e = TickStart" "env_basis e = env_live e"
  shows "check_row e conservation_empty = Inr \<lparr>rt_basis = BasisTickStart (env_live e) res_zero (env_live e), rt_spent = res_zero,
    rt_released = res_zero, rt_live = env_live e\<rparr>"
proof -
  have ok: "res_ok (env_live e)" "res_nonneg (env_live e)" using envelope_ok_live [OF assms(1)] by (auto dest: res_ok_nonneg)
  have sub: "res_sub (env_live e) res_zero = Inr (env_live e)" by (subst res_sub_Inr) (use ok in simp_all)
  have add: "res_add res_zero res_zero = Inr res_zero" "res_add res_zero (env_live e) = Inr (env_live e)" using ok by (simp_all add: res_add_Inr)
  have pos: "res_validate_nonnegative res_zero = Inr ()" "res_validate_nonnegative (env_live e) = Inr ()" using ok by simp_all
  show ?thesis
    using assms(2,3) by (simp add: check_row_def conservation_row_of_def conservation_empty_def sub row_validate_with_preseal_def row_validate_def add pos)
qed

text \<open>An accepted ledger, row by row.\<close>

definition accepted :: "envelope_ledger \<Rightarrow> bool" where
  "accepted l \<longleftrightarrow> (\<forall>k e. row_at l k = Some e \<longrightarrow> env_key e = k \<and> envelope_ok e \<and> pm_get (el_audits l) k = Some (env_audit e)
       \<and> (\<exists>s t. pm_get (el_conservation l) k = Some s \<and> check_row e s = Inr t))
     \<and> (\<forall>k. row_at l k = None \<longrightarrow> pm_get (el_audits l) k = None \<and> pm_get (el_conservation l) k = None)
     \<and> (\<forall>k e. live_row l k = Some e \<longrightarrow> pm_get (el_terminal l) k = None \<and> env_live e \<noteq> res_zero)
     \<and> (\<forall>k e. pm_get (el_terminal l) k = Some e \<longrightarrow> env_live e = res_zero)"

lemma mem_ledger_rows:
  assumes "maps_ok l"
  shows "(k, e) \<in> set (ledger_rows l) \<longleftrightarrow> live_row l k = Some e \<or> pm_get (el_terminal l) k = Some e"
  using assms rows.entries_get [of "el_envelopes l" k e] rows.entries_get [of "el_terminal l" k e]
  by (auto simp: ledger_rows_def maps_ok_def live_row_def)

lemma mem_values: "pm_ok m \<Longrightarrow> e \<in> set (pm_values m) \<longleftrightarrow> (\<exists>k. pm_get m k = Some e)"
  by (auto simp: pm_values_def rows.entries_get image_iff) (use rows.entries_get in force)

lemma try_fold_unit: "try_fold (\<lambda>_ x. f x) () xs = Inr u \<longleftrightarrow> (\<forall>x\<in>set xs. f x = Inr ())"
  by (induction xs) (auto simp: bind_result_Inr_iff)

lemma same_keys:
  assumes "pm_ok a" "pm_ok b" "pm_ok c" "pm_len c = pm_len a + pm_len b" "\<And>k. pm_get a k \<noteq> None \<Longrightarrow> pm_get b k = None"
    "\<And>k. pm_get a k \<noteq> None \<or> pm_get b k \<noteq> None \<Longrightarrow> pm_get c k \<noteq> None"
  shows "pm_get c k \<noteq> None \<longleftrightarrow> pm_get a k \<noteq> None \<or> pm_get b k \<noteq> None"
proof -
  let ?K = "\<lambda>m. fst ` set (pm_entries m)"
  have keys: "?K a = {k. pm_get a k \<noteq> None}" "?K b = {k. pm_get b k \<noteq> None}" "?K c = {k. pm_get c k \<noteq> None}"
    by (simp_all add: set_eq_iff rows.keys_get [OF assms(1)] rows.keys_get [OF assms(2)] rows.keys_get [OF assms(3)])
  have "?K a \<inter> ?K b = {}" using assms(5) by (auto simp: keys)
  then have "card (?K a \<union> ?K b) = card (?K c)"
    using assms(4) by (simp add: rows.size_keys [OF assms(1)] rows.size_keys [OF assms(2)] rows.size_keys [OF assms(3)] card_Un_disjoint)
  moreover have "?K a \<union> ?K b \<subseteq> ?K c" using assms(6) by (auto simp: keys)
  ultimately have "?K a \<union> ?K b = ?K c" by (intro card_subset_eq) auto
  then show ?thesis unfolding keys by blast
qed

lemma evidence_accepted:
  assumes "validate_complete_evidence l = Inr u" "maps_ok l"
  shows "accepted l"
proof -
  have cons: "validate_conservation l = Inr ()" and counts: "evidence_counts l = Inr ()"
    and rows: "\<forall>x\<in>set (ledger_rows l). (case x of (k, e) \<Rightarrow> validate_evidence_row l k e (pm_get (el_conservation l) k)) = Inr ()"
    using assms(1) try_fold_unit [of "\<lambda>(k, e). validate_evidence_row l k e (pm_get (el_conservation l) k)" "ledger_rows l"]
    by (auto simp: evidence_paths evidence_checks_def bind_result_Inr_iff)
  have ok: "pm_ok (el_envelopes l)" "pm_ok (el_terminal l)" "pm_ok (el_audits l)" "pm_ok (el_conservation l)"
    using assms(2) by (simp_all add: maps_ok_def)
  have row: "env_key e = k \<and> envelope_ok e \<and> pm_get (el_audits l) k = Some (env_audit e)
      \<and> \<not> (live_row l k \<noteq> None \<and> pm_get (el_terminal l) k \<noteq> None) \<and> (\<exists>s t. pm_get (el_conservation l) k = Some s \<and> check_row e s = Inr t)"
    if k: "live_row l k = Some e \<or> pm_get (el_terminal l) k = Some e" for k e
  proof -
    have mem: "(k, e) \<in> set (ledger_rows l)" using mem_ledger_rows [OF assms(2)] k by blast
    then have "\<exists>t. checked_row l (k, e) = Inr t"
      using cons checked_rows_all [of no_totals "map (checked_row l) (ledger_rows l)"]
      by (auto simp: validate_conservation_paths validate_checked_rows_def bind_result_Inr_iff)
    moreover have "validate_evidence_row l k e (pm_get (el_conservation l) k) = Inr ()" using bspec [OF rows mem] by simp
    ultimately show ?thesis
      by (auto simp: validate_evidence_row_def checked_row_def conservation_of_def bind_result_Inr_iff envelope_validate_Inr pm_contains_def live_row_def
          split: if_splits)
  qed
  have zero: "live_row l k = Some e \<Longrightarrow> env_live e \<noteq> res_zero" "pm_get (el_terminal l) k = Some e \<Longrightarrow> env_live e = res_zero" for k e
    using counts mem_values [OF ok(1)] mem_values [OF ok(2)] by (auto simp: evidence_counts_def live_row_def split: if_splits)
  have len: "pm_len (el_audits l) = pm_len (el_envelopes l) + pm_len (el_terminal l)" "pm_len (el_conservation l) = pm_len (el_envelopes l) + pm_len (el_terminal l)"
    using counts by (auto simp: evidence_counts_def bind_result_Inr_iff split: if_splits)
  have apart: "pm_get (el_terminal l) k = None" if "pm_get (el_envelopes l) k \<noteq> None" for k
    using row [of k] that by (auto simp: live_row_def)
  have present: "pm_get (el_audits l) k \<noteq> None" "pm_get (el_conservation l) k \<noteq> None"
    if "pm_get (el_envelopes l) k \<noteq> None \<or> pm_get (el_terminal l) k \<noteq> None" for k
    using row [of k] that by (auto simp: live_row_def)
  note same_keys [OF ok(1,2,3) len(1) apart present(1)] same_keys [OF ok(1,2,4) len(2) apart present(2)]
  then have none: "pm_get (el_audits l) k = None \<and> pm_get (el_conservation l) k = None" if "row_at l k = None" for k
    using that unfolding row_at_None live_row_def by blast
  show ?thesis unfolding accepted_def
  proof (intro conjI allI impI)
    fix k e assume "row_at l k = Some e"
    then have "live_row l k = Some e \<or> pm_get (el_terminal l) k = Some e" by (auto simp: row_at_def split: option.splits)
    from row [OF this] show "env_key e = k" "envelope_ok e" "pm_get (el_audits l) k = Some (env_audit e)"
      "\<exists>s t. pm_get (el_conservation l) k = Some s \<and> check_row e s = Inr t" by blast+
  qed (use none zero apart in \<open>auto simp: live_row_def\<close>)
qed

subsection \<open>The next tick\<close>

definition rebased :: "envelope \<Rightarrow> envelope" where
  "rebased e = e\<lparr>env_origin := TickStart, env_basis := env_live e, env_spent := res_zero, env_released := res_zero\<rparr>"

lemma rebased_sel [simp]: "env_key (rebased e) = env_key e" "env_origin (rebased e) = TickStart" "env_basis (rebased e) = env_live e"
    "env_live (rebased e) = env_live e" "env_spent (rebased e) = res_zero" "env_released (rebased e) = res_zero"
    "env_audit (rebased e) = env_audit e" "env_pending (rebased e) = env_pending e"
  by (simp_all add: rebased_def)

lemma rebased_ok: "envelope_ok e \<Longrightarrow> env_pending e = None \<Longrightarrow> envelope_ok (rebased e)"
proof -
  assume "envelope_ok e" "env_pending e = None"
  then show "envelope_ok (rebased e)" using envelope_ok_live [of e] res_ok_nonneg [of "env_live e"] unfolding envelope_ok_def [of "rebased e"] by simp
qed

lemma proof_ok_rebased: "proof_ok e \<Longrightarrow> proof_ok (rebased e)"
  using establish_proof_cong [of "rebased e" e] by (simp add: proof_ok_def rebased_def)

text \<open>A row that is left alone is what the rebase would make of it.\<close>

lemma unchanged_rebased: "envelope_ok e \<Longrightarrow> unchanged_row e \<Longrightarrow> rebased e = e"
  by (cases e) (auto simp: envelope_ok_def unchanged_row_def rebased_def res_eq_iff res_nonneg_def)

lemma rebase_each_Inr:
  "pm_ok (el_envelopes l) \<Longrightarrow> distinct ks \<Longrightarrow> \<forall>k\<in>set ks. \<exists>e. live_row l k = Some e \<and> envelope_ok e \<and> env_pending e = None \<Longrightarrow>
     \<exists>m. rebase_each ks l = (Inr (), l\<lparr>el_envelopes := m\<rparr>) \<and> pm_ok m
       \<and> (\<forall>k. pm_get m k = (if k \<in> set ks then map_option rebased (live_row l k) else live_row l k))"
proof (induction ks arbitrary: l)
  case Nil
  then show ?case by (intro exI [of _ "el_envelopes l"]) (simp add: live_row_def)
next
  case (Cons k ks)
  obtain e where e: "live_row l k = Some e" "envelope_ok e" "env_pending e = None" using Cons.prems(3) by auto
  let ?l = "l\<lparr>el_envelopes := pm_update k (rebased e) (el_envelopes l)\<rparr>"
  have step: "rebase_each (k # ks) l = rebase_each ks ?l"
    using rebase_for_next_tick_cases(1) [OF e(2,3)] e(1) by (simp add: live_row_def rebased_def)
  have live: "live_row ?l j = (if j = k then Some (rebased e) else live_row l j)" for j
    using e(1) by (simp add: live_row_def rows.get_update [OF Cons.prems(1)])
  have "pm_ok (el_envelopes ?l)" using rows.update_ok [OF Cons.prems(1)] by simp
  moreover have "\<forall>k\<in>set ks. \<exists>e. live_row ?l k = Some e \<and> envelope_ok e \<and> env_pending e = None"
    using Cons.prems(2,3) by (auto simp: live)
  ultimately obtain m where m: "rebase_each ks ?l = (Inr (), ?l\<lparr>el_envelopes := m\<rparr>)" "pm_ok m"
     "\<forall>j. pm_get m j = (if j \<in> set ks then map_option rebased (live_row ?l j) else live_row ?l j)"
    using Cons.IH [of ?l] Cons.prems(2) by auto
  have "pm_get m j = (if j \<in> set (k # ks) then map_option rebased (live_row l j) else live_row l j)" for j
    using m(3) Cons.prems(2) e(1) by (auto simp: live)
  with m(1,2) show ?case by (intro exI [of _ m]) (simp add: step del: rebase_each.simps)
qed

lemma rebase_each_pending:
  "pm_ok (el_envelopes l) \<Longrightarrow> distinct ks \<Longrightarrow> \<forall>k\<in>set ks. \<exists>e. live_row l k = Some e \<and> envelope_ok e \<Longrightarrow>
     \<exists>k\<in>set ks. \<exists>e. live_row l k = Some e \<and> env_pending e \<noteq> None \<Longrightarrow>
     fst (rebase_each ks l) = Inl (ledger_fault ''live envelope reached tick commit with an unresolved price'')"
proof (induction ks arbitrary: l)
  case (Cons k ks)
  obtain e where e: "live_row l k = Some e" "envelope_ok e" using Cons.prems(3) by auto
  show ?case
  proof (cases "env_pending e = None")
    case False
    obtain r e' where r: "rebase_for_next_tick e = (r, e')" by fastforce
    with rebase_for_next_tick_cases(2) [OF e(2) False] e(1) show ?thesis by (simp add: live_row_def)
  next
    case True
    let ?l = "l\<lparr>el_envelopes := pm_update k (rebased e) (el_envelopes l)\<rparr>"
    have step: "rebase_each (k # ks) l = rebase_each ks ?l"
      using rebase_for_next_tick_cases(1) [OF e(2) True] e(1) by (simp add: live_row_def rebased_def)
    have live: "live_row ?l j = (if j = k then Some (rebased e) else live_row l j)" for j
      using e(1) by (simp add: live_row_def rows.get_update [OF Cons.prems(1)])
    have away: "j \<in> set ks \<Longrightarrow> live_row ?l j = live_row l j" for j using Cons.prems(2) by (auto simp: live)
    have "pm_ok (el_envelopes ?l)" using rows.update_ok [OF Cons.prems(1)] by simp
    moreover have "\<exists>k\<in>set ks. \<exists>e. live_row ?l k = Some e \<and> env_pending e \<noteq> None"
      using Cons.prems(4) e(1) True away by (metis option.inject set_ConsD)
    moreover have "\<forall>k\<in>set ks. \<exists>e. live_row ?l k = Some e \<and> envelope_ok e" using Cons.prems(3) away by simp
    ultimately show ?thesis using Cons.IH [of ?l] Cons.prems(2) by (simp add: step del: rebase_each.simps)
  qed
qed simp

lemma clear_each_Inr:
  "pm_ok (el_conservation l) \<Longrightarrow> \<forall>k\<in>set ks. pm_get (el_conservation l) k \<noteq> None \<Longrightarrow>
     \<exists>m. clear_each ks l = (Inr (), l\<lparr>el_conservation := m\<rparr>) \<and> pm_ok m
       \<and> (\<forall>k. pm_get m k = (if k \<in> set ks then Some conservation_empty else pm_get (el_conservation l) k))"
proof (induction ks arbitrary: l)
  case Nil
  then show ?case by (intro exI [of _ "el_conservation l"]) simp
next
  case (Cons k ks)
  let ?l = "l\<lparr>el_conservation := pm_update k conservation_empty (el_conservation l)\<rparr>"
  obtain s where s: "pm_get (el_conservation l) k = Some s" using Cons.prems(2) by auto
  have step: "clear_each (k # ks) l = clear_each ks ?l" by (simp add: s)
  have get: "pm_get (pm_update k conservation_empty (el_conservation l)) j = (if j = k then Some conservation_empty else pm_get (el_conservation l) j)" for j
    using s by (simp add: rows.get_update [OF Cons.prems(1)])
  have "pm_ok (el_conservation ?l)" using rows.update_ok [OF Cons.prems(1)] by simp
  moreover have "\<forall>k\<in>set ks. pm_get (el_conservation ?l) k \<noteq> None" using Cons.prems(2) by (simp add: get)
  ultimately obtain m where "clear_each ks ?l = (Inr (), ?l\<lparr>el_conservation := m\<rparr>)" "pm_ok m"
     "\<forall>j. pm_get m j = (if j \<in> set ks then Some conservation_empty else pm_get (el_conservation ?l) j)"
    using Cons.IH [of ?l] by auto
  then show ?case by (intro exI [of _ m]) (simp add: step get del: clear_each.simps)
qed

lemma forget_rows:
  "pm_ok (el_audits l) \<Longrightarrow> pm_ok (el_conservation l) \<Longrightarrow> \<exists>a c. fold forget_row ks l = l\<lparr>el_audits := a, el_conservation := c\<rparr>
     \<and> pm_ok a \<and> pm_ok c \<and> (\<forall>k. pm_get a k = (if k \<in> set ks then None else pm_get (el_audits l) k))
     \<and> (\<forall>k. pm_get c k = (if k \<in> set ks then None else pm_get (el_conservation l) k))"
proof (induction ks arbitrary: l)
  case Nil
  then show ?case by (intro exI [of _ "el_audits l"] exI [of _ "el_conservation l"]) simp
next
  case (Cons k ks)
  let ?l = "forget_row k l"
  have get: "pm_get (el_audits ?l) j = (if j = k then None else pm_get (el_audits l) j)"
    "pm_get (el_conservation ?l) j = (if j = k then None else pm_get (el_conservation l) j)" for j
    by (simp_all add: forget_row_def rows.get_remove [OF Cons.prems(1)] rows.get_remove [OF Cons.prems(2)])
  have "pm_ok (el_audits ?l)" "pm_ok (el_conservation ?l)"
    using rows.remove_ok [OF Cons.prems(1)] rows.remove_ok [OF Cons.prems(2)] by (simp_all add: forget_row_def)
  then obtain a c where ac: "fold forget_row ks ?l = ?l\<lparr>el_audits := a, el_conservation := c\<rparr>" "pm_ok a" "pm_ok c"
     "\<forall>j. pm_get a j = (if j \<in> set ks then None else pm_get (el_audits ?l) j)"
     "\<forall>j. pm_get c j = (if j \<in> set ks then None else pm_get (el_conservation ?l) j)" using Cons.IH [of ?l] by metis
  have "?l\<lparr>el_audits := a, el_conservation := c\<rparr> = l\<lparr>el_audits := a, el_conservation := c\<rparr>" by (simp add: forget_row_def)
  with ac get show ?case by (intro exI [of _ a] exI [of _ c]) simp
qed

text \<open>The ledger of the next tick, seen from the one that ends.\<close>

definition next_tick_of :: "envelope_ledger \<Rightarrow> envelope_ledger \<Rightarrow> bool" where
  "next_tick_of l l' \<longleftrightarrow> maps_ok l' \<and> el_terminal l' = pm_empty \<and> el_seen l' = [] \<and> el_next_index l' = el_next_index l
     \<and> (\<forall>k. live_row l' k = map_option rebased (live_row l k)
       \<and> pm_get (el_audits l') k = map_option env_audit (live_row l k)
       \<and> pm_get (el_conservation l') k = map_option (\<lambda>_. conservation_empty) (live_row l k))"

definition all_resolved :: "envelope_ledger \<Rightarrow> bool" where
  "all_resolved l \<longleftrightarrow> (\<forall>k e. live_row l k = Some e \<longrightarrow> env_pending e = None)"

lemma accepted_live:
  assumes "accepted l" "live_row l k = Some e"
  shows "envelope_ok e" "env_key e = k" "pm_get (el_audits l) k = Some (env_audit e)" "pm_get (el_conservation l) k \<noteq> None"
    "pm_get (el_terminal l) k = None" "env_live e \<noteq> res_zero"
proof -
  have "row_at l k = Some e" using assms(2) by (simp add: row_at_def)
  with assms show "envelope_ok e" "env_key e = k" "pm_get (el_audits l) k = Some (env_audit e)" "pm_get (el_conservation l) k \<noteq> None"
    "pm_get (el_terminal l) k = None" "env_live e \<noteq> res_zero" unfolding accepted_def by blast+
qed

lemma accepted_absent: "accepted l \<Longrightarrow> row_at l k = None \<Longrightarrow> pm_get (el_audits l) k = None \<and> pm_get (el_conservation l) k = None"
  unfolding accepted_def by blast

lemma changed_keys_rows:
  assumes "pm_ok (el_envelopes l)"
  shows "distinct (changed_keys l)" "k \<in> set (changed_keys l) \<longleftrightarrow> (\<exists>e. live_row l k = Some e \<and> \<not> unchanged_row e)"
proof -
  have "distinct (map fst (pm_entries (el_envelopes l)))" using rows.sorted_entries [OF assms] by (rule bt_sorted_distinct)
  then show "distinct (changed_keys l)" unfolding changed_keys_def by (rule distinct_map_filter)
  show "k \<in> set (changed_keys l) \<longleftrightarrow> (\<exists>e. live_row l k = Some e \<and> \<not> unchanged_row e)"
    unfolding changed_keys_def live_row_def rows.entries_get [OF assms, symmetric] by force
qed

lemma rebase_rows_next:
  assumes "accepted l" "maps_ok l" "all_resolved l"
  shows "\<exists>l'. rebase_rows l = (Inr (), l') \<and> next_tick_of l l'"
proof -
  have ok: "pm_ok (el_envelopes l)" "pm_ok (el_terminal l)" "pm_ok (el_audits l)" "pm_ok (el_conservation l)"
    using assms(2) by (simp_all add: maps_ok_def)
  note ch = changed_keys_rows [OF ok(1)]
  have "\<forall>k\<in>set (changed_keys l). \<exists>e. live_row l k = Some e \<and> envelope_ok e \<and> env_pending e = None"
    using ch(2) accepted_live(1) [OF assms(1)] assms(3) by (auto simp: all_resolved_def)
  from rebase_each_Inr [OF ok(1) ch(1) this] obtain m where
    m: "rebase_each (changed_keys l) l = (Inr (), l\<lparr>el_envelopes := m\<rparr>)" "pm_ok m"
      "\<And>k. pm_get m k = (if k \<in> set (changed_keys l) then map_option rebased (live_row l k) else live_row l k)" by blast
  have live: "pm_get m k = map_option rebased (live_row l k)" for k
    using m(3) [of k] ch(2) [of k] unchanged_rebased accepted_live(1) [OF assms(1), of k] by (cases "live_row l k") auto
  let ?l1 = "l\<lparr>el_envelopes := m\<rparr>" and ?dead = "map fst (pm_entries (el_terminal l))"
  have dead: "k \<in> set ?dead \<longleftrightarrow> pm_get (el_terminal l) k \<noteq> None" for k using rows.keys_get [OF ok(2), of k] by simp
  obtain a c where f: "fold forget_row ?dead ?l1 = ?l1\<lparr>el_audits := a, el_conservation := c\<rparr>" "pm_ok a" "pm_ok c"
    "\<And>k. pm_get a k = (if k \<in> set ?dead then None else pm_get (el_audits l) k)"
    "\<And>k. pm_get c k = (if k \<in> set ?dead then None else pm_get (el_conservation l) k)"
    using forget_rows [of ?l1 ?dead] ok(3,4) by auto
  let ?l2 = "?l1\<lparr>el_audits := a, el_conservation := c\<rparr>" and ?stale = "map fst (filter (\<lambda>(k, s). s \<noteq> conservation_empty) (pm_entries c))"
  have stale: "k \<in> set ?stale \<longleftrightarrow> (\<exists>s. pm_get c k = Some s \<and> s \<noteq> conservation_empty)" for k
    unfolding rows.entries_get [OF f(3), symmetric] by force
  have "\<forall>k\<in>set ?stale. pm_get c k \<noteq> None" using stale by blast
  then have "\<forall>k\<in>set ?stale. pm_get (el_conservation ?l2) k \<noteq> None" by (simp del: set_map set_filter)
  with clear_each_Inr [of ?l2 ?stale] f(3) obtain d where
    d: "clear_each ?stale ?l2 = (Inr (), ?l2\<lparr>el_conservation := d\<rparr>)" "pm_ok d"
      "\<And>k. pm_get d k = (if k \<in> set ?stale then Some conservation_empty else pm_get c k)" by auto
  have cons: "pm_get d k = map_option (\<lambda>_. conservation_empty) (pm_get c k)" for k
    using d(3) [of k] stale [of k] by (cases "pm_get c k") auto
  let ?l' = "?l2\<lparr>el_conservation := d, el_terminal := pm_empty, el_seen := []\<rparr>"
  have run: "rebase_rows l = (Inr (), ?l')"
    unfolding rebase_rows_def m(1) by (simp add: f(1) d(1) pm_clear_def)
  have "pm_get a k = map_option env_audit (live_row l k) \<and> pm_get c k = (if live_row l k = None then None else pm_get (el_conservation l) k)" for k
    using f(4,5) [of k] dead [of k] accepted_live [OF assms(1), of k] accepted_absent [OF assms(1), of k]
    by (cases "live_row l k") (auto simp: row_at_None)
  then have "next_tick_of l ?l'"
    using m(2) f(2) d(2) ok accepted_live(4) [OF assms(1)]
    by (auto simp: next_tick_of_def maps_ok_def rows.empty_ok live_row_def live cons split: option.splits) 
  with run show ?thesis by blast
qed

subsection \<open>The next tick is accepted\<close>

text \<open>A row whose basis is its live balance adds this balance to the first and the last total.\<close>

definition fresh_totals :: "res_vec \<Rightarrow> row_totals" where
  "fresh_totals live = \<lparr>rt_basis = BasisTickStart live res_zero live, rt_spent = res_zero, rt_released = res_zero, rt_live = live\<rparr>"

lemma res_add_zero: "res_add res_zero res_zero = Inr res_zero"
  by (simp add: res_add_Inr)

text \<open>The live totals of an accepted ledger fit; the rebased rows add up to the same ones.\<close>

lemma fresh_totals_fold:
  assumes "try_fold (\<lambda>t r. bind_result r (accumulate_totals t)) (b, x, s, r, live) (map f xs @ ys) = Inr t"
    "\<And>y t. y \<in> set xs \<Longrightarrow> f y = Inr t \<Longrightarrow> rt_live t = g y" "res_add res_zero live = Inr live"
  shows "\<exists>live'. try_fold (\<lambda>t r. bind_result r (accumulate_totals t)) (live, res_zero, res_zero, res_zero, live)
      (map (\<lambda>y. Inr (fresh_totals (g y))) xs) = Inr (live', res_zero, res_zero, res_zero, live') \<and> res_add res_zero live' = Inr live'"
  using assms
proof (induction xs arbitrary: b x s r live)
  case (Cons y xs)
  obtain t1 w where y: "f y = Inr t1" and acc: "accumulate_totals (b, x, s, r, live) t1 = Inr w"
    and rest: "try_fold (\<lambda>t r. bind_result r (accumulate_totals t)) w (map f xs @ ys) = Inr t"
    using Cons.prems(1) by (auto simp: bind_result_Inr_iff)
  obtain b1 x1 s1 r1 live1 where w: "w = (b1, x1, s1, r1, live1)" and add: "res_add live (g y) = Inr live1"
    using acc Cons.prems(2) [OF _ y] by (cases w) (auto simp: accumulate_totals_def bind_result_Inr_iff split: prod.splits)
  have "res_add res_zero live1 = Inr live1" using add by (auto simp: res_add_def bind_result_Inr_iff)
  from Cons.IH [OF rest [unfolded w] Cons.prems(2) this] obtain live' where
    "try_fold (\<lambda>t r. bind_result r (accumulate_totals t)) (live1, res_zero, res_zero, res_zero, live1)
      (map (\<lambda>y. Inr (fresh_totals (g y))) xs) = Inr (live', res_zero, res_zero, res_zero, live')" "res_add res_zero live' = Inr live'" by auto
  moreover have "accumulate_totals (live, res_zero, res_zero, res_zero, live) (fresh_totals (g y)) = Inr (live1, res_zero, res_zero, res_zero, live1)"
    using add by (simp add: accumulate_totals_def fresh_totals_def res_add_zero)
  ultimately show ?case by (intro exI [of _ live']) simp
qed (auto)

lemma next_tick_entries:
  assumes "next_tick_of l l'" "maps_ok l"
  shows "ledger_rows l' = map (\<lambda>(k, e). (k, rebased e)) (pm_entries (el_envelopes l))"
proof -
  have ok: "pm_ok (el_envelopes l)" "pm_ok (el_envelopes l')" using assms by (simp_all add: maps_ok_def next_tick_of_def)
  let ?xs = "map (\<lambda>(k, e). (k, rebased e)) (pm_entries (el_envelopes l))"
  have "pm_entries (el_envelopes l') = ?xs"
  proof (rule rows.entries_by_get [OF ok(2)])
    show "bt_sorted ?xs" using rows.sorted_entries [OF ok(1)] by (simp add: bt_sorted_def comp_def case_prod_beta)
    fix k
    have "pm_get (el_envelopes l') k = map_option rebased (pm_get (el_envelopes l) k)"
      using assms(1) by (simp add: next_tick_of_def live_row_def)
    then show "map_of ?xs k = pm_get (el_envelopes l') k" by (simp add: map_of_map rows.get_entries [OF ok(1)])
  qed
  moreover have "pm_entries (el_terminal l') = []" using assms(1) by (simp add: next_tick_of_def rows.entries_empty)
  ultimately show ?thesis by (simp add: ledger_rows_def)
qed

lemma len_card: "pm_ok m \<Longrightarrow> pm_len m = card {k. pm_get m k \<noteq> None}"
proof -
  assume ok: "pm_ok m"
  have "fst ` set (pm_entries m) = {k. pm_get m k \<noteq> None}" by (simp add: set_eq_iff rows.keys_get [OF ok])
  then show "pm_len m = card {k. pm_get m k \<noteq> None}" by (simp add: rows.size_keys [OF ok])
qed

lemma next_tick_accepted:
  assumes "next_tick_of l l'" "accepted l" "maps_ok l" "all_resolved l" "validate_complete_evidence l = Inr u"
  shows "validate_complete_evidence l' = Inr ()"
proof -
  note rows_eq = next_tick_entries [OF assms(1,3)]
  have ok: "pm_ok (el_envelopes l)" using assms(3) by (simp add: maps_ok_def)
  have ok': "pm_ok (el_envelopes l')" "pm_ok (el_terminal l')" "pm_ok (el_audits l')" "pm_ok (el_conservation l')" "el_terminal l' = pm_empty"
    using assms(1) unfolding next_tick_of_def maps_ok_def by blast+
  have get: "live_row l' k = map_option rebased (live_row l k)" "pm_get (el_audits l') k = map_option env_audit (live_row l k)"
    "pm_get (el_conservation l') k = map_option (\<lambda>_. conservation_empty) (live_row l k)" for k
    using assms(1) by (simp_all add: next_tick_of_def)
  have src: "live_row l k = Some e" "envelope_ok e" "env_key e = k" "env_pending e = None" "env_live e \<noteq> res_zero"
    if "(k, e) \<in> set (pm_entries (el_envelopes l))" for k e
  proof -
    show live: "live_row l k = Some e" using that by (simp add: live_row_def rows.entries_get [OF ok])
    from accepted_live [OF assms(2) live] show "envelope_ok e" "env_key e = k" "env_live e \<noteq> res_zero" by blast+
    show "env_pending e = None" using live assms(4) by (auto simp: all_resolved_def)
  qed
  have cons: "validate_conservation l' = Inr ()"
  proof -
    have "checked_row l' x = Inr (fresh_totals (env_live (snd x)))" if x: "x \<in> set (ledger_rows l')" for x
    proof -
      obtain k e where ke: "(k, e) \<in> set (pm_entries (el_envelopes l))" "x = (k, rebased e)" using x by (auto simp: rows_eq)
      note s = src [OF ke(1)]
      show ?thesis using check_row_fresh [OF rebased_ok [OF s(2,4)]] get(3) [of k] s(1)
        by (simp add: ke(2) checked_row_def conservation_of_def fresh_totals_def)
    qed
    then have new: "map (checked_row l') (ledger_rows l') = map (\<lambda>x. Inr (fresh_totals (env_live (snd x)))) (pm_entries (el_envelopes l))"
      by (auto simp: rows_eq)
    obtain t where "try_fold (\<lambda>t r. bind_result r (accumulate_totals t)) no_totals (map (checked_row l) (ledger_rows l)) = Inr t"
      using assms(5) by (auto simp: evidence_paths evidence_checks_def validate_conservation_paths validate_checked_rows_def bind_result_Inr_iff)
    then have old: "try_fold (\<lambda>t r. bind_result r (accumulate_totals t)) (res_zero, res_zero, res_zero, res_zero, res_zero)
        (map (checked_row l) (pm_entries (el_envelopes l)) @ map (checked_row l) (pm_entries (el_terminal l))) = Inr t"
      by (simp add: ledger_rows_def no_totals_def)
    have "\<exists>live'. try_fold (\<lambda>t r. bind_result r (accumulate_totals t)) (res_zero, res_zero, res_zero, res_zero, res_zero)
        (map (\<lambda>y. Inr (fresh_totals (env_live (snd y)))) (pm_entries (el_envelopes l))) = Inr (live', res_zero, res_zero, res_zero, live')
        \<and> res_add res_zero live' = Inr live'"
      by (rule fresh_totals_fold [OF old _ res_add_zero]) (auto simp: checked_row_def bind_result_Inr_iff check_row_Inr(2))
    then obtain live' where
      "try_fold (\<lambda>t r. bind_result r (accumulate_totals t)) no_totals (map (checked_row l') (ledger_rows l')) = Inr (live', res_zero, res_zero, res_zero, live')"
      "res_add res_zero live' = Inr live'" unfolding new no_totals_def by auto
    then show ?thesis by (simp add: validate_conservation_paths validate_checked_rows_def validate_aggregate_def res_add_zero)
  qed
  have counts: "evidence_counts l' = Inr ()"
  proof -
    have same: "{k. pm_get (el_envelopes l') k \<noteq> None} = {k. pm_get (el_envelopes l) k \<noteq> None}"
      "{k. pm_get (el_audits l') k \<noteq> None} = {k. pm_get (el_envelopes l) k \<noteq> None}"
      "{k. pm_get (el_conservation l') k \<noteq> None} = {k. pm_get (el_envelopes l) k \<noteq> None}"
      using get by (auto simp: live_row_def)
    then have len: "pm_len (el_envelopes l') = pm_len (el_envelopes l)" "pm_len (el_audits l') = pm_len (el_envelopes l)"
      "pm_len (el_conservation l') = pm_len (el_envelopes l)" "pm_len (el_terminal l') = 0"
      by (simp_all only: len_card [OF ok'(1)] len_card [OF ok'(3)] len_card [OF ok'(4)] len_card [OF ok]) (simp add: ok'(5) pm_empty_def)
    have "pm_len (el_envelopes l) + pm_len (el_terminal l) \<le> u64_max"
      using assms(5) by (auto simp: evidence_paths evidence_checks_def evidence_counts_def bind_result_Inr_iff split: if_splits)
    moreover have "env_live e \<noteq> res_zero" if mem: "e \<in> set (pm_values (el_envelopes l'))" for e
    proof -
      obtain k where "live_row l' k = Some e" using mem unfolding mem_values [OF ok'(1)] live_row_def by blast
      then obtain e0 where "live_row l k = Some e0" "e = rebased e0" by (auto simp: get)
      then show ?thesis using accepted_live(6) [OF assms(2)] by simp
    qed
    moreover have "pm_values (el_terminal l') = []" by (simp add: pm_values_def ok'(5) rows.entries_empty)
    ultimately show ?thesis using len by (auto simp: evidence_counts_def checked_u64_def)
  qed
  have "validate_evidence_row l' k e (pm_get (el_conservation l') k) = Inr ()" if mem: "(k, e) \<in> set (ledger_rows l')" for k e
  proof -
    obtain e0 where e0: "(k, e0) \<in> set (pm_entries (el_envelopes l))" "e = rebased e0" using mem by (auto simp: rows_eq)
    note s = src [OF e0(1)]
    have "envelope_validate (rebased e0) = Inr ()" using rebased_ok [OF s(2,4)] by (simp add: envelope_validate_Inr)
    then show ?thesis using s(1,3) get [of k] by (simp add: validate_evidence_row_def e0(2) pm_contains_def ok'(5))
  qed
  then show ?thesis using cons counts try_fold_unit [of "\<lambda>(k, e). validate_evidence_row l' k e (pm_get (el_conservation l') k)" "ledger_rows l'"]
    by (auto simp: evidence_paths evidence_checks_def)
qed

text \<open>When nothing has changed in the tick, the short path leaves what the other path would make.\<close>

lemma pm_empty_iff: "pm_ok m \<Longrightarrow> pm_is_empty m \<longleftrightarrow> m = pm_empty"
proof
  assume ok: "pm_ok m" and "pm_is_empty m"
  then have "pm_len m = 0" and none: "pm_entries m = []" using rows.size_entries [OF ok] by (simp_all add: pm_is_empty_def)
  moreover have "pm_groups m = []"
  proof (rule ccontr)
    assume "pm_groups m \<noteq> []"
    then obtain g grp rest where g: "pm_groups m = (g, grp) # rest" by (cases "pm_groups m") auto
    then have "group_ok g grp" using ok by (simp add: pm_ok_def)
    from group_entries(2) [OF this] none g show False by (simp add: pm_entries_def)
  qed
  ultimately show "m = pm_empty" by (simp add: pm_empty_def)
qed (simp add: pm_is_empty_def pm_empty_def)

lemma rebase_paths:
  assumes "maps_ok l" "rebase_unneeded l"
  shows "rebase_rows l = (Inr (), l\<lparr>el_seen := []\<rparr>)"
proof -
  have ok: "pm_ok (el_envelopes l)" "pm_ok (el_terminal l)" "pm_ok (el_conservation l)" using assms(1) by (simp_all add: maps_ok_def)
  have none: "el_terminal l = pm_empty" using assms(2) pm_empty_iff [OF ok(2)] by (simp add: rebase_unneeded_def)
  then have "map fst (pm_entries (el_terminal l)) = []" by (simp add: rows.entries_empty)
  moreover have "changed_keys l = []"
    using assms(2) by (auto simp: changed_keys_def rebase_unneeded_def pm_values_def filter_empty_conv)
  moreover have "map fst (filter (\<lambda>(k, s). s \<noteq> conservation_empty) (pm_entries (el_conservation l))) = []"
    using assms(2) by (auto simp: rebase_unneeded_def pm_values_def filter_empty_conv)
  moreover have "l\<lparr>el_terminal := pm_clear (el_terminal l), el_seen := []\<rparr> = l\<lparr>el_seen := []\<rparr>"
    using none by (cases l) (simp add: pm_clear_def)
  ultimately show ?thesis by (simp add: rebase_rows_def)
qed

lemma rebase_private_next:
  assumes "validate_complete_evidence l = Inr ()" "maps_ok l" "all_resolved l"
  shows "\<exists>l'. rebase_private l = (Inr (), l') \<and> next_tick_of l l' \<and> validate_complete_evidence l' = Inr ()"
proof -
  have acc: "accepted l" by (rule evidence_accepted [OF assms(1,2)])
  obtain l' where l': "rebase_rows l = (Inr (), l')" "next_tick_of l l'" using rebase_rows_next [OF acc assms(2,3)] by blast
  moreover have "rebase_private l = rebase_rows l"
    using assms(1) rebase_paths [OF assms(2)] by (simp add: rebase_private_def)
  ultimately show ?thesis using next_tick_accepted [OF l'(2) acc assms(2,3,1)] by auto
qed

lemma rebase_private_pending:
  assumes "validate_complete_evidence l = Inr ()" "maps_ok l" "\<not> all_resolved l"
  shows "fst (rebase_private l) = Inl (ledger_fault ''live envelope reached tick commit with an unresolved price'')"
proof -
  have acc: "accepted l" by (rule evidence_accepted [OF assms(1,2)])
  have ok: "pm_ok (el_envelopes l)" using assms(2) by (simp add: maps_ok_def)
  obtain k e where p: "live_row l k = Some e" "env_pending e \<noteq> None" using assms(3) by (auto simp: all_resolved_def)
  then have ch: "\<not> unchanged_row e" by (simp add: unchanged_row_def)
  note keys = changed_keys_rows [OF ok]
  have "\<forall>k\<in>set (changed_keys l). \<exists>e. live_row l k = Some e \<and> envelope_ok e" using keys(2) accepted_live(1) [OF acc] by blast
  moreover have "\<exists>k\<in>set (changed_keys l). \<exists>e. live_row l k = Some e \<and> env_pending e \<noteq> None" using keys(2) p ch by blast
  ultimately have "fst (rebase_each (changed_keys l) l) = Inl (ledger_fault ''live envelope reached tick commit with an unresolved price'')"
    by (rule rebase_each_pending [OF ok keys(1)])
  moreover have "\<not> rebase_unneeded l" using p ch mem_values [OF ok] by (auto simp: rebase_unneeded_def live_row_def)
  ultimately show ?thesis using assms(1) by (cases "rebase_each (changed_keys l) l") (auto simp: rebase_private_def rebase_rows_def)
qed

text \<open>The invariant goes over to the next tick.\<close>

lemma next_tick_inv:
  assumes "next_tick_of l l'" "ledger_inv l" "all_resolved l"
  shows "ledger_inv l'"
proof -
  have "row_ok l' k" for k
  proof (cases "live_row l k")
    case None
    with assms(1) show ?thesis by (simp add: row_ok_def row_at_def next_tick_of_def)
  next
    case (Some e)
    note e = live_row_inv(1-3) [OF assms(2) Some]
    have "env_pending e = None" using assms(3) Some by (simp add: all_resolved_def)
    with e assms(1) Some show ?thesis
      by (simp add: row_ok_def row_at_def next_tick_of_def rebased_ok proof_ok_rebased linked_fresh)
  qed
  with assms(1) show ?thesis by (simp add: ledger_inv_def next_tick_of_def)
qed

end
