(* ===== verification/Reservation_Properties.thy ===== *)
theory Reservation_Properties
  imports Envelope_Evidence
begin

section \<open>Properties of the reservation ledger\<close>

text \<open>
  Histories of a ledger as sequences of operations, the invariant over all of them, and the properties of
  receipts, of the order of a batch, of the checks and of the change of the tick, with samples.
\<close>

subsection \<open>Pages and sorted maps\<close>

datatype 'v row_command = InsertRow envelope_key 'v | WriteRow envelope_key 'v | RemoveRow envelope_key | ClearRows

fun paged_step :: "'v row_command \<Rightarrow> 'v paged_map \<Rightarrow> 'v paged_map" where
  "paged_step (InsertRow k v) m = snd (pm_insert k v m)"
| "paged_step (WriteRow k v) m = pm_update k v m"
| "paged_step (RemoveRow k) m = snd (pm_remove k m)"
| "paged_step ClearRows m = pm_clear m"

fun sorted_step :: "'v row_command \<Rightarrow> (envelope_key, 'v) bt \<Rightarrow> (envelope_key, 'v) bt" where
  "sorted_step (InsertRow k v) xs = bt_insert k v xs"
| "sorted_step (WriteRow k v) xs = bt_update k v xs"
| "sorted_step (RemoveRow k) xs = bt_remove k xs"
| "sorted_step ClearRows xs = []"

lemma paged_step_ok: "pm_ok m \<Longrightarrow> pm_ok (paged_step c m) \<and> pm_entries (paged_step c m) = sorted_step c (pm_entries m)"
  by (cases c) (simp_all add: rows.insert_ok rows.update_ok rows.remove_ok rows.entries_insert rows.entries_update rows.entries_remove
      pm_clear_def rows.empty_ok rows.entries_empty)

lemma paged_run_ok: "pm_ok m \<Longrightarrow> pm_ok (fold paged_step cs m) \<and> pm_entries (fold paged_step cs m) = fold sorted_step cs (pm_entries m)"
  by (induction cs arbitrary: m) (simp_all add: paged_step_ok)

text \<open>
  C32 (Pages hold a sorted map). After any insertions, writes, removals and clearings, the rows of the paged
  map in the order of its iteration are those of a sorted map after the same commands, a lookup finds what the
  sorted map has, and the count kept beside the pages is the number of rows.
\<close>

theorem paged_map_refines_map:
  "pm_entries (fold paged_step cs pm_empty) = fold sorted_step cs []
   \<and> pm_get (fold paged_step cs pm_empty) k = map_of (fold sorted_step cs []) k
   \<and> pm_len (fold paged_step cs pm_empty) = length (fold sorted_step cs [])"
proof -
  have "pm_ok (fold paged_step cs pm_empty)" "pm_entries (fold paged_step cs pm_empty) = fold sorted_step cs []"
    using paged_run_ok [OF rows.empty_ok, of cs] by (simp_all add: rows.entries_empty)
  then show ?thesis by (simp add: rows.get_entries rows.size_entries)
qed

subsection \<open>Histories of a ledger\<close>

datatype ledger_op =
    ApplyOp "envelope_receipt list"
  | RemoveOp "envelope_key list"
  | ReplayOp "envelope_receipt list" "envelope_key list"
  | StockRoundOp "envelope_receipt list" "envelope_key list"
  | InsertOp "envelope list"
  | InsertStockOp "envelope list"
  | HydrateOp "envelope list"
  | RebaseOp
  | ResetOp

definition keep_on_error :: "step_fatal + envelope_ledger \<Rightarrow> envelope_ledger \<Rightarrow> (step_fatal + unit) \<times> envelope_ledger" where
  "keep_on_error r l = (case r of Inl err \<Rightarrow> (Inl err, l) | Inr l' \<Rightarrow> (Inr (), l'))"

fun ledger_step :: "ledger_op \<Rightarrow> envelope_ledger \<Rightarrow> (step_fatal + unit) \<times> envelope_ledger" where
  "ledger_step (ApplyOp rs) l = try_st (apply_receipts rs l) (\<lambda>_ l'. (Inr (), l'))"
| "ledger_step (RemoveOp ks) l = remove_terminal ks l"
| "ledger_step (ReplayOp rs ks) l = replay_for_commit_evidence rs ks l"
| "ledger_step (StockRoundOp rs ks) l = apply_for_stock_round rs ks l"
| "ledger_step (InsertOp es) l = keep_on_error (insert_created es l) l"
| "ledger_step (InsertStockOp es) l = keep_on_error (insert_created_for_stock_round es l) l"
| "ledger_step (HydrateOp es) l = hydrate_or_validate es l"
| "ledger_step RebaseOp l = rebase_live_for_next_tick l"
| "ledger_step ResetOp l = (Inr (), reset_tick_state l)"

text \<open>
  What the callers give: envelopes with nothing spent or released, as the constructors make them, and a
  projection of the books only between ticks, when no row has ended.
\<close>

fun op_ok :: "ledger_op \<Rightarrow> envelope_ledger \<Rightarrow> bool" where
  "op_ok (InsertOp es) l \<longleftrightarrow> (\<forall>e\<in>set es. fresh_row e)"
| "op_ok (InsertStockOp es) l \<longleftrightarrow> (\<forall>e\<in>set es. fresh_row e)"
| "op_ok (HydrateOp es) l \<longleftrightarrow> (\<forall>e\<in>set es. fresh_row e) \<and> pm_entries (el_terminal l) = []"
| "op_ok _ _ \<longleftrightarrow> True"

text \<open>Ledgers that operations make of a new one. An owner goes on with a ledger only after a success.\<close>

inductive ledger_reachable :: "envelope_ledger \<Rightarrow> bool" where
  reachable_new: "new_envelope_ledger n es = Inr l \<Longrightarrow> \<forall>e\<in>set es. fresh_row e \<Longrightarrow> ledger_reachable l"
| reachable_step: "ledger_reachable l \<Longrightarrow> op_ok c l \<Longrightarrow> ledger_step c l = (Inr (), l') \<Longrightarrow> ledger_reachable l'"

lemma apply_private_Inr:
  assumes "apply_private normalize aggregate rs l = (Inr rs', l')" "ledger_inv l"
  shows "normalize (el_next_index l) rs = (Inr rs', el_next_index l')" "ledger_inv l'" "el_terminal l' = el_terminal l"
    "case live_row l k of None \<Rightarrow> live_row l' k = None \<and> receipts_of k rs' = []
         | Some e \<Rightarrow> \<exists>e'. live_row l' k = Some e' \<and> settled (receipts_of k rs') e e'"
proof -
  obtain n where n: "normalize (el_next_index l) rs = (Inr rs', n)"
    and each: "apply_each rs' (l\<lparr>el_next_index := n\<rparr>) = (Inr (), l')"
    using assms(1) by (auto simp: apply_private_def try_in_ok_iff try_st_ok_iff split: prod.splits if_splits)
  have "\<forall>r\<in>set rs'. journal_ok r" using normalize_Inr(5) [OF n] by blast
  note laws = apply_each_inv [OF each _ this]
  have same: "live_row (l\<lparr>el_next_index := n\<rparr>) k = live_row l k" by (simp add: live_row_def)
  show "normalize (el_next_index l) rs = (Inr rs', el_next_index l')" "ledger_inv l'" "el_terminal l' = el_terminal l"
    using laws assms(2) n by simp_all
  have "case live_row (l\<lparr>el_next_index := n\<rparr>) k of None \<Rightarrow> live_row l' k = None \<and> receipts_of k rs' = []
         | Some e \<Rightarrow> \<exists>e'. live_row l' k = Some e' \<and> settled (receipts_of k rs') e e'" using laws assms(2) by simp
  then show "case live_row l k of None \<Rightarrow> live_row l' k = None \<and> receipts_of k rs' = []
         | Some e \<Rightarrow> \<exists>e'. live_row l' k = Some e' \<and> settled (receipts_of k rs') e e'" unfolding same .
qed

lemma atomically_Inr: "atomically f l = (Inr x, l') \<longleftrightarrow> f l = (Inr x, l')"
  by (auto simp: atomically_def split: prod.splits sum.splits)

lemma remove_private_inv:
  "remove_terminal_private aggregate ks l = (Inr u, l') \<Longrightarrow> ledger_inv l \<Longrightarrow> ledger_inv l'"
  using end_each_inv by (fastforce simp: remove_terminal_private_def try_st_ok_iff try_in_ok_iff split: if_splits)

lemma insert_stock_inv:
  assumes "insert_created_for_stock_round es l = Inr l'" "ledger_inv l" "\<forall>e\<in>set es. fresh_row e"
  shows "ledger_inv l'" "live_row l' k = (case map_of (map (\<lambda>e. (env_key e, e)) es) k of Some e \<Rightarrow> Some e | None \<Rightarrow> live_row l k)"
    "\<forall>e\<in>set es. env_origin e = CreatedAtValidation \<and> env_live e \<noteq> res_zero \<and> row_at l (env_key e) = None"
proof -
  have p: "try_fold (prepare_row l) [] es = Inr es" and l': "l' = fold install_row es l"
    using assms(1) prepare_rows [of l "[]" es] by (auto simp: insert_created_for_stock_round_def bind_result_Inr_iff)
  have prep: "distinct (map env_key es)" "\<forall>e\<in>set es. envelope_ok e \<and> env_origin e = CreatedAtValidation \<and> env_live e \<noteq> res_zero \<and> \<not> known_key l (env_key e)"
    using prepare_rows [OF p] by simp_all
  have new: "\<forall>e\<in>set es. row_at l (env_key e) = None" using prep(2) by (auto simp: known_key_def pm_contains_def row_at_None live_row_def)
  with prep assms(3) have "\<forall>e\<in>set es. envelope_ok e \<and> fresh_row e \<and> row_at l (env_key e) = None" by blast
  from install_rows_inv [OF assms(2) prep(1) this] show "ledger_inv l'"
    "live_row l' k = (case map_of (map (\<lambda>e. (env_key e, e)) es) k of Some e \<Rightarrow> Some e | None \<Rightarrow> live_row l k)" by (simp_all add: l')
  show "\<forall>e\<in>set es. env_origin e = CreatedAtValidation \<and> env_live e \<noteq> res_zero \<and> row_at l (env_key e) = None" using prep(2) new by blast
qed

lemma hydrate_inv:
  assumes "hydrate_or_validate es l = (Inr u, l')" "ledger_inv l" "\<forall>e\<in>set es. fresh_row e" "pm_entries (el_terminal l) = []"
  shows "ledger_inv l'"
proof (cases "pm_is_empty (el_envelopes l)")
  case False
  with assms(1,2) show ?thesis by (auto simp: hydrate_or_validate_def Let_def split: if_splits)
next
  case True
  then obtain c where c: "new_envelope_ledger (el_next_index l) (sort_key env_key es) = Inr c"
    and l': "l' = l\<lparr>el_envelopes := el_envelopes c, el_audits := el_audits c, el_conservation := el_conservation c\<rparr>"
    using assms(1) by (auto simp: hydrate_or_validate_def Let_def try_in_ok_iff split: if_splits)
  have "\<forall>e\<in>set (sort_key env_key es). fresh_row e" using assms(3) by simp
  note laws = new_envelope_ledger_inv [OF c this]
  have okt: "pm_ok (el_terminal l)" using ledger_invD(1) [OF assms(2)] by (simp add: maps_ok_def)
  then have "pm_get (el_terminal l) k = None" for k using rows.get_entries [OF okt, of k] assms(4) by simp
  then have "row_ok l' k" for k
    using ledger_invD(2) [OF laws(1), of k] laws(3) row_ok_cong [of l' k c] by (simp add: l' live_row_def)
  moreover have "maps_ok l'" using ledger_invD(1) [OF laws(1)] okt by (simp add: l' maps_ok_def)
  ultimately show ?thesis by (simp add: ledger_inv_def)
qed

lemma rebase_inv:
  assumes "rebase_private l = (Inr u, l')" "ledger_inv l"
  shows "ledger_inv l' \<and> validate_complete_evidence l = Inr () \<and> all_resolved l \<and> next_tick_of l l' \<and> validate_complete_evidence l' = Inr ()"
proof -
  have ok: "maps_ok l" by (rule ledger_invD(1) [OF assms(2)])
  have ev: "validate_complete_evidence l = Inr ()" using assms(1) by (auto simp: rebase_private_def try_in_ok_iff)
  have res: "all_resolved l" using rebase_private_pending [OF ev ok] assms(1) by (metis Inl_Inr_False fst_conv)
  have "next_tick_of l l'" "validate_complete_evidence l' = Inr ()" using rebase_private_next [OF ev ok res] assms(1) by auto
  with next_tick_inv [OF _ assms(2) res] ev res show ?thesis by blast
qed

lemma reset_inv: "ledger_inv (reset_tick_state l)"
  by (simp add: reset_tick_state_def ledger_inv_def maps_ok_def pm_clear_def rows.empty_ok row_ok_def row_at_def live_row_def)

lemma ledger_step_inv:
  assumes "ledger_step c l = (Inr (), l')" "op_ok c l" "ledger_inv l"
  shows "ledger_inv l'"
proof (cases c)
  case (ApplyOp rs)
  with assms show ?thesis using apply_private_Inr(2) by (auto simp: apply_receipts_def try_st_ok_iff atomically_Inr)
next
  case (RemoveOp ks)
  with assms show ?thesis using remove_private_inv by (auto simp: remove_terminal_def atomically_Inr)
next
  case (ReplayOp rs ks)
  with assms show ?thesis using apply_private_Inr(2) remove_private_inv by (fastforce simp: replay_for_commit_evidence_def try_st_ok_iff)
next
  case (StockRoundOp rs ks)
  with assms show ?thesis using apply_private_Inr(2) remove_private_inv by (fastforce simp: apply_for_stock_round_def try_st_ok_iff)
next
  case (InsertOp es)
  with assms show ?thesis using insert_stock_inv(1)
    by (auto simp: keep_on_error_def insert_created_def bind_result_Inr_iff split: sum.splits)
next
  case (InsertStockOp es)
  with assms show ?thesis using insert_stock_inv(1) by (auto simp: keep_on_error_def split: sum.splits)
next
  case (HydrateOp es)
  with assms show ?thesis using hydrate_inv by auto
next
  case RebaseOp
  with assms show ?thesis using rebase_inv by (auto simp: rebase_live_for_next_tick_def atomically_Inr)
next
  case ResetOp
  with assms show ?thesis using reset_inv by auto
qed

lemma ledger_reachable_inv: "ledger_reachable l \<Longrightarrow> ledger_inv l"
  by (induction rule: ledger_reachable.induct) (use new_envelope_ledger_inv(1) ledger_step_inv in blast)+

subsection \<open>Samples\<close>

text \<open>An order of an account to buy 200 shares at 10.00, with one fill of 100 at 9.90.\<close>

definition buy_key :: envelope_key where "buy_key = EnvelopeKey 2 0 7 Buy"

definition buy_audit :: envelope_audit where
  "buy_audit = \<lparr>au_limit = 1000, au_remaining_qty = 200, au_filled_qty = 0, au_filled_value = 0, au_nominal = fee_zero, au_charged = fee_zero\<rparr>"

definition buy_envelope :: envelope where
  "buy_envelope = created_at_validation buy_key 200600 0 buy_audit"

definition buy_fee :: fee_components where
  "buy_fee = \<lparr>fc_commission = 500, fc_stamp_tax = 0, fc_transfer_fee = 1\<rparr>"

definition buy_fill :: envelope_receipt where
  "buy_fill = \<lparr>rc_index = 5,
     rc_local_key = \<lparr>lk_journal = SealedBatch, lk_source = SealedIntent 3, lk_envelope = buy_key, lk_ordinal = 0\<rparr>,
     rc_envelope = buy_key, rc_kind = Fill, rc_qty_before = 200, rc_qty_after = 100, rc_value_before = 0, rc_value_after = 99000,
     rc_delta = \<lparr>dl_spent = \<lparr>rv_cash = 99501, rv_shares = 0\<rparr>, dl_released = \<lparr>rv_cash = 1000, rv_shares = 0\<rparr>,
       dl_live_after = \<lparr>rv_cash = 100099, rv_shares = 0\<rparr>\<rparr>,
     rc_nominal = buy_fee, rc_charged = buy_fee, rc_charged_before = fee_zero, rc_charged_after = buy_fee,
     rc_deliver_qty = 100, rc_deliver_cash = 0\<rparr>"

definition buy_audit_after :: envelope_audit where
  "buy_audit_after = \<lparr>au_limit = 1000, au_remaining_qty = 100, au_filled_qty = 100, au_filled_value = 99000, au_nominal = buy_fee, au_charged = buy_fee\<rparr>"

definition buy_envelope_after :: envelope where
  "buy_envelope_after = \<lparr>env_key = buy_key, env_origin = CreatedAtValidation, env_basis = \<lparr>rv_cash = 200600, rv_shares = 0\<rparr>,
     env_live = \<lparr>rv_cash = 100099, rv_shares = 0\<rparr>, env_spent = \<lparr>rv_cash = 99501, rv_shares = 0\<rparr>,
     env_released = \<lparr>rv_cash = 1000, rv_shares = 0\<rparr>, env_audit = buy_audit_after, env_pending = None, env_revision = 1, env_proof = None\<rparr>"

definition buy_state_after :: conservation_state where
  "buy_state_after = \<lparr>cs_expiry_released = res_zero, cs_sealed_spent = \<lparr>rv_cash = 99501, rv_shares = 0\<rparr>, cs_sealed_released = \<lparr>rv_cash = 1000, rv_shares = 0\<rparr>\<rparr>"

lemmas buy_defs = buy_key_def buy_audit_def buy_envelope_def buy_fee_def buy_fill_def created_at_validation_def fee_zero_def res_zero_def Let_def
  buy_audit_after_def buy_envelope_after_def buy_state_after_def conservation_empty_def

text \<open>A map of one row.\<close>

definition single :: "envelope_key \<Rightarrow> 'v \<Rightarrow> 'v paged_map" where
  "single k v = snd (pm_insert k v pm_empty)"

lemma single_get [simp]: "pm_get (single k v) k' = (if k' = k then Some v else None)"
  by (simp add: single_def rows.get_insert rows.empty_ok)

lemma single_ok [simp]: "pm_ok (single k v)"
  by (simp add: single_def rows.insert_ok rows.empty_ok)

lemma single_entries [simp]: "pm_entries (single k v) = [(k, v)]" "pm_len (single k v) = 1"
  by (simp_all add: single_def rows.entries_insert rows.size_entries rows.insert_ok rows.empty_ok rows.entries_empty)

lemma single_shape: "single k v = \<lparr>pm_groups = [(group_of k, [(page_of k, [(k, v)])])], pm_len = 1\<rparr>"
  by (simp add: single_def pm_insert_def pm_empty_def Let_def page_at_def group_at_def or_default_def)

lemma single_again [simp]: "pm_update k w (single k v) = single k w" "snd (pm_insert k w (single k v)) = single k w"
  by (simp_all add: single_shape pm_update_def pm_insert_def page_at_def group_at_def or_default_def bt_update_def Let_def)

definition one_row :: "envelope \<Rightarrow> conservation_state \<Rightarrow> seen_keys \<Rightarrow> nat \<Rightarrow> envelope_ledger" where
  "one_row e s seen n = \<lparr>el_envelopes = single (env_key e) e, el_terminal = pm_empty, el_audits = single (env_key e) (env_audit e),
     el_conservation = single (env_key e) s, el_seen = seen, el_next_index = n\<rparr>"

lemma new_one_row:
  assumes "envelope_validate e = Inr ()"
  shows "new_envelope_ledger n [e] = Inr (one_row e conservation_empty [] n)"
proof -
  have "fst (pm_insert (env_key e) e pm_empty) = None" using rows.insert_previous [OF rows.empty_ok, of "env_key e" e] by simp
  with assms show ?thesis by (auto simp: new_envelope_ledger_def new_row_def one_row_def single_def split: prod.split)
qed

lemma apply_one_row:
  assumes "validate_envelope_receipt r (env_audit e) (Some e) = Inr ()" "next_audit r (env_audit e) = Inr (env_audit e')"
    "envelope_apply (rc_delta r) (env_audit e') (is_price_resolved (rc_kind r)) e = Inr e'" "record_state r s = (Inr (), s')"
    "rc_envelope r = env_key e" "env_key e' = env_key e"
  shows "apply_one r (one_row e s seen n) = (Inr (), one_row e' s' seen n)"
  using assms by (simp add: apply_one_def one_row_def conservation_record_def Let_def)

lemma conservation_one_row:
  "validate_conservation (one_row e s seen n) = bind_result (check_row e s) (\<lambda>t. bind_result (accumulate_totals no_totals t) validate_aggregate)"
  by (simp add: validate_conservation_paths validate_checked_rows_def ledger_rows_def one_row_def checked_row_def conservation_of_def rows.entries_empty bind_result_assoc)

lemmas receipt_eval = validate_envelope_receipt_Inr validate_audit_def validate_price_resolution_def validate_resources_def kind_legal_def validate_non_fill_transition_def
   receipt_terminal_def validate_buyer_resources_def receipt_filled_def Let_def validate_fee_def fee_negative_def fee_add_def lm_total_def fee_total_def
    lm_add_def lm_sub_def in_i64_def money_add_def money_sub_def fee_exceeds_def checked_i64_def next_audit_def checked_u32_def checked_u64_def
   envelope_apply_def changed_envelope_def renew_proof_def res_add_def res_sub_def envelope_validate_def res_validate_nonnegative_def record_state_def

lemma buy_envelope_ok: "envelope_validate buy_envelope = Inr ()"
    by (simp add: receipt_eval buy_defs)

lemma buy_normalize: "normalize 5 [buy_fill\<lparr>rc_index := i\<rparr>] = (Inr [buy_fill], 6)"
  by (simp add: normalize_def index_in_order_def checked_u64_def validate_indexed_receipt_keys_def validate_receipt_keys_def check_local_key_def
     indexed_of_def Let_def buy_fill_def)

lemma buy_valid: "validate_envelope_receipt buy_fill buy_audit (Some buy_envelope) = Inr ()"
  by (simp add: receipt_eval buy_defs)

lemma buy_next: "next_audit buy_fill buy_audit = Inr buy_audit_after"
  by (simp add: receipt_eval buy_defs)

lemma buy_changed: "envelope_apply (rc_delta buy_fill) buy_audit_after False buy_envelope = Inr buy_envelope_after"
  by (simp add: receipt_eval buy_defs)

lemma buy_record: "record_state buy_fill conservation_empty = (Inr (), buy_state_after)"
  by (simp add: receipt_eval buy_defs)

lemma buy_row: "check_row buy_envelope_after buy_state_after = Inr \<lparr>rt_basis = BasisCreated \<lparr>rv_cash = 200600, rv_shares = 0\<rparr>,
  rt_spent = \<lparr>rv_cash = 99501, rv_shares = 0\<rparr>, rt_released = \<lparr>rv_cash = 1000, rv_shares = 0\<rparr>, rt_live = \<lparr>rv_cash = 100099, rv_shares = 0\<rparr>\<rparr>"
  by (simp add: check_row_def conservation_row_of_def row_validate_with_preseal_def row_validate_def receipt_eval buy_defs)

definition buy_seen :: seen_keys where "buy_seen = [(local_order (rc_local_key buy_fill), rc_local_key buy_fill)]"

lemma buy_run: "apply_receipts [buy_fill\<lparr>rc_index := 0\<rparr>] (one_row buy_envelope conservation_empty [] 5)
    = (Inr [buy_fill], one_row buy_envelope_after buy_state_after buy_seen 6)"
proof -
  have "apply_each [buy_fill] (one_row buy_envelope conservation_empty [] 6) = (Inr (), one_row buy_envelope_after buy_state_after buy_seen 6)"
  proof -
    have "apply_one buy_fill (one_row buy_envelope conservation_empty buy_seen 6) = (Inr (), one_row buy_envelope_after buy_state_after buy_seen 6)"
      by (rule apply_one_row) (use buy_valid buy_next buy_changed buy_record in \<open>simp_all add: buy_envelope_def created_at_validation_def Let_def buy_envelope_after_def buy_fill_def\<close>)
    then show ?thesis by (simp add: one_row_def buy_seen_def)
  qed
  moreover have "validate_conservation (one_row buy_envelope_after buy_state_after buy_seen 6) = Inr ()"
    by (simp add: conservation_one_row buy_row accumulate_totals_def no_totals_def validate_aggregate_def receipt_eval res_zero_def)
  moreover have "(one_row e s seen n)\<lparr>el_next_index := m\<rparr> = one_row e s seen m" "el_next_index (one_row e s seen n) = n" for e s seen n m
    by (simp_all add: one_row_def)
  ultimately show ?thesis
    by (simp add: apply_receipts_def atomically_def apply_private_def buy_normalize del: apply_each.simps)
qed


lemma fresh_buy: "fresh_row buy_envelope"
  by (simp add: fresh_row_def buy_envelope_def created_at_validation_def Let_def)

lemma buy_start: "ledger_reachable (one_row buy_envelope conservation_empty [] 5)"
  by (rule reachable_new [OF new_one_row [OF buy_envelope_ok]]) (simp add: fresh_buy)

lemma buy_end: "ledger_reachable (one_row buy_envelope_after buy_state_after buy_seen 6)"
  by (rule reachable_step [OF buy_start, of "ApplyOp [buy_fill\<lparr>rc_index := 0\<rparr>]"]) (simp_all add: buy_run)

lemma live_one_row: "live_row (one_row e s seen n) (env_key e) = Some e" "row_at (one_row e s seen n) (env_key e) = Some e"
  by (simp_all add: row_at_def live_row_def one_row_def)

subsection \<open>Rows over a whole history\<close>

text \<open>
  C9 (Every reservation is accounted for). In every ledger a history makes, a row carries its own key, what was
  reserved is what was spent, released and is still live, with no negative part; the audit map has the audit of
  the envelope, the conservation map has a row that recorded exactly what the envelope spent and released, and no
  key is both live and ended.
\<close>

theorem reservations_accounted:
  assumes "ledger_reachable l" "row_at l k = Some e"
  shows "env_key e = k
    \<and> rv_cash (env_basis e) = rv_cash (env_spent e) + rv_cash (env_released e) + rv_cash (env_live e)
    \<and> rv_shares (env_basis e) = rv_shares (env_spent e) + rv_shares (env_released e) + rv_shares (env_live e)
    \<and> 0 \<le> rv_cash (env_spent e) \<and> 0 \<le> rv_cash (env_released e) \<and> 0 \<le> rv_cash (env_live e)
    \<and> pm_get (el_audits l) k = Some (env_audit e)
    \<and> (\<exists>s. pm_get (el_conservation l) k = Some s \<and> env_spent e = cs_sealed_spent s
        \<and> env_released e = res_plus (cs_expiry_released s) (cs_sealed_released s))
    \<and> (pm_get (el_envelopes l) k = None \<or> pm_get (el_terminal l) k = None)"
proof -
  have "row_ok l k" by (rule ledger_invD(2) [OF ledger_reachable_inv [OF assms(1)]])
  with assms(2) show ?thesis
    by (auto simp: row_ok_def envelope_ok_def linked_def res_nonneg_def live_row_def split: option.splits)
qed

theorem reservations_accounted_witness:
  "env_key buy_envelope_after = buy_key \<and> rv_cash (env_spent buy_envelope_after) = 99501"
  using reservations_accounted [OF buy_end live_one_row(2)] by (simp add: buy_envelope_after_def)

subsection \<open>Receipts\<close>

text \<open>
  C8 (A batch settles each reservation). When a batch of receipts is applied, every reservation that was live
  stays a row; what was live is split into what the receipts of this reservation spent, what they released and
  what is left. For a buyer, the cash spent is the increase of the filled value plus the increase of the charged
  fees, and the shares delivered are the increase of the filled quantity; for a seller, the shares spent are the
  increase of the filled quantity and the cash delivered is the increase of the filled value less the increase of
  the charged fees. The order's filled and remaining quantities keep their sum.
\<close>

theorem batch_settles_reservations:
  assumes "ledger_reachable l" "apply_receipts rs l = (Inr rs', l')" "live_row l k = Some e"
  shows "\<exists>e'. live_row l' k = Some e' \<and> (let mine = filter (\<lambda>r. rc_envelope r = k) rs'; a = env_audit e; a' = env_audit e' in
     env_live e = res_plus (res_plus (spent_by mine) (released_by mine)) (env_live e')
     \<and> env_spent e' = res_plus (env_spent e) (spent_by mine) \<and> env_released e' = res_plus (env_released e) (released_by mine)
     \<and> au_filled_qty a' + au_remaining_qty a' = au_filled_qty a + au_remaining_qty a \<and> au_filled_qty a \<le> au_filled_qty a'
     \<and> (case ek_side k of
          Buy \<Rightarrow> rv_cash (spent_by mine) = (au_filled_value a' - au_filled_value a) + (fee_sum (au_charged a') - fee_sum (au_charged a))
            \<and> sum_list (map rc_deliver_qty mine) = au_filled_qty a' - au_filled_qty a \<and> sum_list (map rc_deliver_cash mine) = 0
        | Sell \<Rightarrow> rv_shares (spent_by mine) = au_filled_qty a' - au_filled_qty a \<and> sum_list (map rc_deliver_qty mine) = 0
            \<and> sum_list (map rc_deliver_cash mine) = (au_filled_value a' - au_filled_value a) - (fee_sum (au_charged a') - fee_sum (au_charged a))))"
proof -
  have inv: "ledger_inv l" by (rule ledger_reachable_inv [OF assms(1)])
  have "apply_private normalize True rs l = (Inr rs', l')" using assms(2) by (simp add: apply_receipts_def atomically_Inr)
  from apply_private_Inr(4) [OF this inv, of k] assms(3) obtain e' where "live_row l' k = Some e'" "settled (receipts_of k rs') e e'" by auto
  moreover have "env_key e = k" by (rule live_row_inv(1) [OF inv assms(3)])
  ultimately show ?thesis by (intro exI [of _ e']) (simp add: settled_def receipts_of_def Let_def)
qed

theorem batch_settles_reservations_witness:
  "\<exists>e'. live_row (one_row buy_envelope_after buy_state_after buy_seen 6) (env_key buy_envelope) = Some e'"
  using batch_settles_reservations [OF buy_start buy_run live_one_row(1)] by blast

text \<open>
  The order of the fills of a batch, stated on its own: by journal, by the kind of source, by envelope; along one
  envelope the larger remaining quantity comes first, of equal quantities the smaller value, of those the
  resolution of a price before a fill, and last the local keys decide.
\<close>

definition chain_of :: "envelope_receipt \<Rightarrow> nat \<times> nat \<times> envelope_key" where
  "chain_of r = (journal_order (lk_journal (rc_local_key r)), source_rank (lk_source (rc_local_key r)), rc_envelope r)"

definition fills_in_order :: "envelope_receipt \<Rightarrow> envelope_receipt \<Rightarrow> bool" where
  "fills_in_order r s \<longleftrightarrow> chain_of r = chain_of s \<longrightarrow>
     rc_qty_before s < rc_qty_before r
     \<or> rc_qty_before s = rc_qty_before r \<and> (rc_value_before r < rc_value_before s
       \<or> rc_value_before r = rc_value_before s \<and> (is_price_resolved (rc_kind r) \<and> \<not> is_price_resolved (rc_kind s)
         \<or> is_price_resolved (rc_kind r) = is_price_resolved (rc_kind s) \<and> local_order (rc_local_key r) \<le> local_order (rc_local_key s)))"

lemma receipt_order_le:
  assumes "receipt_order r \<le> receipt_order s"
  shows "chain_of r \<le> chain_of s \<and> fills_in_order r s"
  using assms unfolding receipt_order_def chain_of_def fills_in_order_def by (auto simp: less_eq_prod_def less_prod_def reverse_less split: if_splits)

text \<open>
  C31 (A batch is numbered in the order of its fills). The numbering of a batch keeps the receipts up to their
  numbers and sorts them: the receipts of one journal, kind of source and envelope are next to each other, and among them
  the one with the larger remaining quantity comes first, whatever their sources; it gives them
  consecutive numbers from the ledger's next one, and accepts only batches without a repeated identity whose
  journals are those of their sources.
\<close>

theorem receipts_numbered:
  assumes "normalize n rs = (Inr rs', n')"
  shows "mset (map (rc_index_update (\<lambda>_. 0)) rs') = mset (map (rc_index_update (\<lambda>_. 0)) rs)
    \<and> sorted (map chain_of rs') \<and> sorted_wrt fills_in_order rs'
    \<and> (\<forall>i j. i < j \<and> j < length rs' \<and> chain_of (rs' ! i) = chain_of (rs' ! j) \<longrightarrow> rc_qty_before (rs' ! j) \<le> rc_qty_before (rs' ! i))
    \<and> sorted (map receipt_order rs') \<and> map rc_index rs' = [n..<n + length rs] \<and> n' = n + length rs
    \<and> distinct (map rc_local_key rs')
    \<and> (\<forall>r\<in>set rs'. lk_journal (rc_local_key r) = source_journal (lk_source (rc_local_key r)) \<and> rc_envelope r = lk_envelope (rc_local_key r))"
proof -
  note laws = normalize_Inr [OF assms]
  have le: "chain_of (rs' ! i) \<le> chain_of (rs' ! j) \<and> fills_in_order (rs' ! i) (rs' ! j)" if "i < j" "j < length rs'" for i j
    using laws(4) that by (intro receipt_order_le) (simp add: sorted_wrt_iff_nth_less)
  have "sorted (map chain_of rs')" using le by (simp add: sorted_wrt_iff_nth_less)
  moreover have fills: "sorted_wrt fills_in_order rs'" using le by (simp add: sorted_wrt_iff_nth_less)
  moreover have "rc_qty_before (rs' ! j) \<le> rc_qty_before (rs' ! i)"
    if "i < j" "j < length rs'" "chain_of (rs' ! i) = chain_of (rs' ! j)" for i j
    using le [OF that(1,2)] that(3) by (auto simp: fills_in_order_def)
  ultimately show ?thesis using laws by (simp add: journal_ok_def)
qed

text \<open>Two fills of one order, delivered later fill first, the later one from the request received earlier.\<close>

definition later_fill :: envelope_receipt where
  "later_fill = buy_fill\<lparr>rc_local_key := (rc_local_key buy_fill)\<lparr>lk_source := SealedIntent 2\<rparr>,
     rc_qty_before := 100, rc_qty_after := 0, rc_value_before := 99000\<rparr>"

lemma fills_normalize: "normalize 5 [later_fill, buy_fill] = (Inr [buy_fill, later_fill\<lparr>rc_index := 6\<rparr>], 7)"
  by (simp add: normalize_def index_in_order_def checked_u64_def validate_indexed_receipt_keys_def validate_receipt_keys_def check_local_key_def
     indexed_of_def Let_def buy_fill_def later_fill_def receipt_order_def local_order_def less_eq_prod_def less_prod_def)

theorem receipts_numbered_witness:
  "fills_in_order buy_fill (later_fill\<lparr>rc_index := 6\<rparr>) \<and> rc_qty_before later_fill < rc_qty_before buy_fill
    \<and> source_payload (lk_source (rc_local_key later_fill)) < source_payload (lk_source (rc_local_key buy_fill))"
  using receipts_numbered [OF fills_normalize] by (simp add: later_fill_def buy_fill_def)

text \<open>
  C28 (A seller is charged what is owed, never more than the proceeds). For an accepted fill of a seller the charge
  is the smaller of the fees still unpaid and the value of the fill; it is taken from the commission first, then
  the stamp tax, then the transfer fee; the seller receives the rest, which is not negative; and over the life of
  the order the charged fees stay within the value received.
\<close>

theorem seller_charge_capped:
  assumes "validate_envelope_receipt r audit (Some e) = Inr ()" "ek_side (env_key e) = Sell" "rc_kind r = Fill" "audit = env_audit e"
    "fee_add (au_nominal audit) (rc_nominal r) = Inr nominal"
  shows "fee_sum (rc_charged r) = min (fee_sum nominal - fee_sum (au_charged audit)) (rc_value_after r - rc_value_before r)
    \<and> (\<exists>unpaid. fee_sub nominal (au_charged audit) = Inr unpaid \<and> taken_in_order (rc_charged r) unpaid)
    \<and> rc_deliver_cash r = (rc_value_after r - rc_value_before r) - fee_sum (rc_charged r) \<and> 0 \<le> rc_deliver_cash r
    \<and> fee_sum (rc_charged_after r) \<le> rc_value_after r"
proof -
  have va: "validate_audit r audit = Inr ()" and vr: "validate_resources r e = Inr ()" using assms(1) by (simp_all add: validate_envelope_receipt_Inr)
  note a = validate_audit_Inr [OF va] and f = seller_fill [OF vr assms(2,3)]
  have "0 \<le> rc_value_after r - rc_value_before r" using a(5) by simp
  note c = seller_charge [OF f(8) [folded assms(4)] va this assms(5)]
  have "fee_sum (rc_charged_after r) = fee_sum (au_charged audit) + fee_sum (rc_charged r)" by (rule fee_add_sum [OF a(13)])
  with c f(1,2) a(2) show ?thesis by auto
qed

text \<open>A sale of 100 shares for 3.00, less than the least commission.\<close>

definition sell_envelope :: envelope where
  "sell_envelope = tick_start_existing (EnvelopeKey 2 0 8 Sell) 0 100 \<lparr>au_limit = 3, au_remaining_qty = 100, au_filled_qty = 0, au_filled_value = 0,
     au_nominal = fee_zero, au_charged = fee_zero\<rparr>"

definition sell_fill :: envelope_receipt where
  "sell_fill = \<lparr>rc_index = 0,
     rc_local_key = \<lparr>lk_journal = SealedBatch, lk_source = SealedIntent 3, lk_envelope = EnvelopeKey 2 0 8 Sell, lk_ordinal = 0\<rparr>,
     rc_envelope = EnvelopeKey 2 0 8 Sell, rc_kind = Fill, rc_qty_before = 100, rc_qty_after = 0, rc_value_before = 0, rc_value_after = 300,
     rc_delta = \<lparr>dl_spent = \<lparr>rv_cash = 0, rv_shares = 100\<rparr>, dl_released = res_zero, dl_live_after = res_zero\<rparr>,
     rc_nominal = buy_fee, rc_charged = \<lparr>fc_commission = 300, fc_stamp_tax = 0, fc_transfer_fee = 0\<rparr>, rc_charged_before = fee_zero,
     rc_charged_after = \<lparr>fc_commission = 300, fc_stamp_tax = 0, fc_transfer_fee = 0\<rparr>, rc_deliver_qty = 0, rc_deliver_cash = 0\<rparr>"

lemma sell_valid: "validate_envelope_receipt sell_fill (env_audit sell_envelope) (Some sell_envelope) = Inr ()"
  by (simp add: receipt_eval validate_seller_delivery_def validate_seller_fill_charge_def fee_sub_def allocate_seller_charge_def
      sell_envelope_def sell_fill_def tick_start_existing_def buy_defs)

theorem seller_charge_capped_witness: "fee_sum (rc_charged sell_fill) = min 501 300"
proof -
  have "fee_add (au_nominal (env_audit sell_envelope)) (rc_nominal sell_fill) = Inr buy_fee"
    by (simp add: receipt_eval sell_envelope_def sell_fill_def tick_start_existing_def buy_defs)
  moreover have "ek_side (env_key sell_envelope) = Sell" "rc_kind sell_fill = Fill"
    by (simp_all add: sell_envelope_def sell_fill_def tick_start_existing_def Let_def)
  ultimately have "fee_sum (rc_charged sell_fill) = min (fee_sum buy_fee - fee_sum (au_charged (env_audit sell_envelope))) (rc_value_after sell_fill - rc_value_before sell_fill)"
    using seller_charge_capped [OF sell_valid _ _ refl] by blast
  then show ?thesis by (simp add: sell_envelope_def sell_fill_def tick_start_existing_def fee_sum_def buy_defs)
qed

subsection \<open>Checks of the ledger\<close>

text \<open>
  C30 (A remembered verification is one made now). When an envelope remembers a verification of the facts it has,
  under whatever schedule, and the check with a valid schedule accepts it, then the check made anew with this
  schedule accepts it too and gives the same resources; so the memory never lets an envelope pass that the full
  check would refuse. A change of the envelope by a receipt keeps that what is remembered is about its facts.
\<close>

theorem remembered_verification_sound:
  assumes "\<And>r. env_proof e = Some r \<Longrightarrow> \<exists>c0. r = establish_proof c0 e" "Game_Config.validate c = Inr ()"
    "fst (verified_live_at c site e) = Inr live"
  shows "fst (verified_live_at c site (e\<lparr>env_proof := None\<rparr>)) = Inr live
    \<and> (\<forall>delta audit resolved e' r. envelope_apply delta audit resolved e = Inr e' \<longrightarrow> env_proof e' = Some r \<longrightarrow> (\<exists>c0. r = establish_proof c0 e'))"
proof -
  have ok: "proof_ok e" using assms(1) by (simp add: proof_ok_def)
  show ?thesis using remembered_is_new [OF ok assms(2,3)] envelope_apply_proof_ok [OF ok] by (auto simp: proof_ok_def)
qed

lemma flat_config_valid: "Game_Config.validate flat_config = Inr ()"
  using flat_config_ok by (simp add: config_ok_def)

definition sell_verified :: envelope where
  "sell_verified = sell_envelope\<lparr>env_proof := Some (establish_proof flat_config sell_envelope)\<rparr>"

lemma sell_established: "establish_proof flat_config sell_envelope
    = Inr \<lparr>fp_inputs = fee_inputs_capture flat_config, fp_revision = 0, fp_calculator = flat_config\<rparr>"
  by (simp add: establish_proof_Inr sell_envelope_def tick_start_existing_def buy_defs cumulative_nominal_fees_def validate_charged_audit_def
      receipt_eval expected_live_def flat_config_valid)

theorem remembered_verification_sound_witness:
  "fst (verified_live_at flat_config GenericSite (sell_verified\<lparr>env_proof := None\<rparr>)) = Inr (env_live sell_envelope)"
proof -
  have "envelope_ok sell_verified" "validate_financial_birth sell_verified = Inr ()" "env_live sell_verified = env_live sell_envelope"
    "env_revision sell_verified = 0"
    by (simp_all add: sell_verified_def sell_envelope_def tick_start_existing_def envelope_ok_def res_ok_def res_nonneg_def validate_financial_birth_def
        res_plus_def buy_defs)
  then have "fst (verified_live_at flat_config GenericSite sell_verified) = Inr (env_live sell_envelope)"
    unfolding verified_live_Inr by (simp add: sell_verified_def sell_established)
  moreover have "\<exists>c0. r = establish_proof c0 sell_verified" if "env_proof sell_verified = Some r" for r
  proof -
    have "establish_proof flat_config sell_verified = establish_proof flat_config sell_envelope"
      by (rule establish_proof_cong) (simp_all add: sell_verified_def)
    moreover have "r = establish_proof flat_config sell_envelope" using that by (simp add: sell_verified_def)
    ultimately show ?thesis by metis
  qed
  ultimately show ?thesis using remembered_verification_sound [of sell_verified flat_config GenericSite "env_live sell_envelope"] flat_config_valid by blast
qed

text \<open>
  C29 (Many rows are checked like few). The path of the checks for many rows, which first checks all rows and
  reports in order what they gave, answers like the path for few rows, which stops at the first fault: the same
  acceptance and the same error, for the conservation check and for the check of the complete evidence.
\<close>

theorem evidence_check_paths:
  "validate_conservation l = validate_checked_rows (map (\<lambda>(k, e). bind_result (conservation_of l k) (check_row e)) (ledger_rows l))
   \<and> validate_complete_evidence l = bind_result (validate_conservation l) (\<lambda>_. bind_result (evidence_counts l) (\<lambda>_.
       try_fold (\<lambda>_ (k, e). validate_evidence_row l k e (pm_get (el_conservation l) k)) () (ledger_rows l)))"
proof -
  have "checked_row l = (\<lambda>(k, e). bind_result (conservation_of l k) (check_row e))" by (auto simp: fun_eq_iff checked_row_def)
  then show ?thesis using validate_conservation_paths [of l] evidence_paths [of l] by (simp add: evidence_checks_def)
qed

text \<open>
  C10 (The next tick starts from an accepted ledger). A ledger of a history whose evidence is accepted goes to the
  next tick if no live order waits for a price: each live reservation starts the tick with what it had left,
  nothing spent and nothing released, with its audit; ended rows, seen identities and the records of the tick are
  gone, the next receipt number stays; and the complete evidence of the new ledger is accepted, which is what the
  rebase records without checking. The short path for a tick in which nothing happened gives what the other path
  would. If an order waits for a price, the rebase reports it and leaves the ledger.
\<close>

theorem next_tick_from_accepted:
  assumes "ledger_reachable l" "validate_complete_evidence l = Inr ()"
  shows "if \<exists>k e. live_row l k = Some e \<and> env_pending e \<noteq> None
    then rebase_live_for_next_tick l = (Inl (ledger_fault ''live envelope reached tick commit with an unresolved price''), l)
    else \<exists>l'. rebase_live_for_next_tick l = (Inr (), l') \<and> rebase_rows l = (Inr (), l') \<and> validate_complete_evidence l' = Inr ()
      \<and> (\<forall>k. live_row l' k = map_option (\<lambda>e. e\<lparr>env_origin := TickStart, env_basis := env_live e, env_spent := res_zero, env_released := res_zero\<rparr>) (live_row l k)
          \<and> pm_get (el_audits l') k = map_option env_audit (live_row l k)
          \<and> pm_get (el_conservation l') k = map_option (\<lambda>_. conservation_empty) (live_row l k))
      \<and> el_terminal l' = pm_empty \<and> el_seen l' = [] \<and> el_next_index l' = el_next_index l"
proof -
  have inv: "ledger_inv l" by (rule ledger_reachable_inv [OF assms(1)])
  note ok = ledger_invD(1) [OF inv]
  show ?thesis
  proof (cases "all_resolved l")
    case True
    obtain l' where l': "rebase_private l = (Inr (), l')" "next_tick_of l l'" "validate_complete_evidence l' = Inr ()"
      using rebase_private_next [OF assms(2) ok True] by blast
    have "rebase_rows l = (Inr (), l')" using l'(1) rebase_paths [OF ok] assms(2) by (auto simp: rebase_private_def split: if_splits)
    moreover have "rebase_live_for_next_tick l = (Inr (), l')" using l'(1) by (simp add: rebase_live_for_next_tick_def atomically_Inr)
    moreover have "rebased = (\<lambda>e. e\<lparr>env_origin := TickStart, env_basis := env_live e, env_spent := res_zero, env_released := res_zero\<rparr>)"
      by (simp add: fun_eq_iff rebased_def)
    ultimately show ?thesis using True l'(2,3) by (auto simp: all_resolved_def next_tick_of_def)
  next
    case False
    then have "rebase_live_for_next_tick l = (Inl (ledger_fault ''live envelope reached tick commit with an unresolved price''), l)"
      using rebase_private_pending [OF assms(2) ok] by (auto simp: rebase_live_for_next_tick_def atomically_def split: prod.splits sum.splits)
    with False show ?thesis by (auto simp: all_resolved_def)
  qed
qed

lemma buy_accepted: "validate_complete_evidence (one_row buy_envelope_after buy_state_after buy_seen 6) = Inr ()"
proof -
  let ?l = "one_row buy_envelope_after buy_state_after buy_seen 6"
  have "validate_conservation ?l = Inr ()"
    by (simp add: conservation_one_row buy_row accumulate_totals_def no_totals_def validate_aggregate_def receipt_eval res_zero_def)
  moreover have "evidence_counts ?l = Inr ()"
    by (simp add: evidence_counts_def one_row_def pm_values_def rows.entries_empty checked_u64_def) (simp add: buy_defs pm_empty_def)
  moreover have "validate_evidence_row ?l buy_key buy_envelope_after (Some buy_state_after) = Inr ()"
    by (simp add: validate_evidence_row_def one_row_def pm_contains_def) (simp add: receipt_eval buy_defs)
  ultimately show ?thesis
    by (simp add: evidence_paths evidence_checks_def ledger_rows_def one_row_def rows.entries_empty) (simp add: buy_envelope_after_def)
qed

theorem next_tick_from_accepted_witness:
  "\<exists>l'. rebase_live_for_next_tick (one_row buy_envelope_after buy_state_after buy_seen 6) = (Inr (), l') \<and> validate_complete_evidence l' = Inr ()"
proof -
  have "\<not> (\<exists>k e. live_row (one_row buy_envelope_after buy_state_after buy_seen 6) k = Some e \<and> env_pending e \<noteq> None)"
    by (auto simp: live_row_def one_row_def buy_envelope_after_def split: if_splits)
  from next_tick_from_accepted [OF buy_end buy_accepted, unfolded if_not_P [OF this]] show ?thesis by blast
qed

end
