(* ===== verification/Intents.thy ===== *)
theory Intents
  imports Receipt_Key Market
begin

section \<open>Requests and their receipts (strategy/mod.rs, session.rs)\<close>

text \<open>
  What players, simulated actors and plans ask for, and the receipts the session gives to what it takes in: a
  number among the requests of the account and one among the requests on the stock, each counted from a
  cursor that is saved with the game.
\<close>

datatype intent =
    PlaceLimit stock_id side limit_price nat
  | PlaceMarket stock_id side nat
  | CancelOrder stock_id order_id

fun intent_code :: "intent \<Rightarrow> stock_id" where
  "intent_code (PlaceLimit code _ _ _) = code"
| "intent_code (PlaceMarket code _ _) = code"
| "intent_code (CancelOrder code _) = code"

fun is_cancel :: "intent \<Rightarrow> bool" where
  "is_cancel (CancelOrder _ _) = True"
| "is_cancel _ = False"

text \<open>The resource of an account a request draws on: its cash or its shares of a stock.\<close>

datatype resource_lane = CashLane account_id | SharesLane account_id stock_id

definition side_lane :: "account_id \<Rightarrow> stock_id \<Rightarrow> side \<Rightarrow> resource_lane" where
  "side_lane owner code sd = (case sd of Buy \<Rightarrow> CashLane owner | Sell \<Rightarrow> SharesLane owner code)"

fun intent_lane :: "account_id \<Rightarrow> intent \<Rightarrow> resource_lane option" where
  "intent_lane owner (PlaceLimit code sd _ _) = Some (side_lane owner code sd)"
| "intent_lane owner (PlaceMarket code sd _) = Some (side_lane owner code sd)"
| "intent_lane owner (CancelOrder _ _) = None"

fun lane_owner :: "resource_lane \<Rightarrow> account_id" where
  "lane_owner (CashLane owner) = owner"
| "lane_owner (SharesLane owner _) = owner"

lemma lane_owner_intent: "intent_lane owner i = Some l \<Longrightarrow> lane_owner l = owner"
  by (cases i) (auto simp: side_lane_def split: side.splits)

subsection \<open>Errors of the session\<close>

text \<open>The errors of \<open>SessionError\<close> the models here can return; a fault is a number with its context.\<close>

datatype session_error =
    SessionStep step_fatal
  | SyncPolicyViolation nat "nat list"
  | ResourceLimit nat "nat list"
  | UnknownPlayer account_id
  | NotPlayer account_id
  | InvalidSave nat "nat list"

subsection \<open>Receipts\<close>

record received_intent =
  ri_owner :: account_id
  ri_intent :: intent
  ri_account_ordinal :: nat
  ri_stock_ordinal :: nat

abbreviation ri_code :: "received_intent \<Rightarrow> stock_id" where
  "ri_code r \<equiv> intent_code (ri_intent r)"

record ingress_cursors =
  cu_account :: "(account_id, nat) bt"
  cu_stock :: "(stock_id, nat) bt"

definition next_ordinal :: "('k, nat) bt \<Rightarrow> 'k \<Rightarrow> nat" where
  "next_ordinal m k = (case map_of m k of None \<Rightarrow> 0 | Some n \<Rightarrow> n)"

definition receive_intent :: "account_id \<Rightarrow> intent \<Rightarrow> ingress_cursors \<Rightarrow> (session_error + received_intent) \<times> ingress_cursors" where
  "receive_intent owner i cu = (let code = intent_code i; account_ordinal = next_ordinal (cu_account cu) owner;
      stock_ordinal = next_ordinal (cu_stock cu) code in
    try_in (ok_or (ResourceLimit 1003 [owner]) (checked_u64 (account_ordinal + 1))) cu (\<lambda>account_next.
    try_in (ok_or (ResourceLimit 1004 [code]) (checked_u64 (stock_ordinal + 1))) cu (\<lambda>stock_next.
      (Inr \<lparr>ri_owner = owner, ri_intent = i, ri_account_ordinal = account_ordinal, ri_stock_ordinal = stock_ordinal\<rparr>,
       cu\<lparr>cu_account := bt_insert owner account_next (cu_account cu), cu_stock := bt_insert code stock_next (cu_stock cu)\<rparr>))))"

subsection \<open>What the receipts of a session are\<close>

definition cursors_ok :: "ingress_cursors \<Rightarrow> bool" where
  "cursors_ok cu \<longleftrightarrow> bt_sorted (cu_account cu) \<and> bt_sorted (cu_stock cu)"

lemma next_ordinal_insert: "bt_sorted m \<Longrightarrow> next_ordinal (bt_insert k n m) = (next_ordinal m)(k := n)"
  by (auto simp: next_ordinal_def map_of_bt_insert fun_eq_iff)

lemma receive_intent_ok:
  assumes "receive_intent owner i cu = (Inr r, cu')" "cursors_ok cu"
  shows "r = \<lparr>ri_owner = owner, ri_intent = i, ri_account_ordinal = next_ordinal (cu_account cu) owner,
      ri_stock_ordinal = next_ordinal (cu_stock cu) (intent_code i)\<rparr>"
    and "cursors_ok cu'"
    and "next_ordinal (cu_account cu') = (next_ordinal (cu_account cu))(owner := next_ordinal (cu_account cu) owner + 1)"
    and "next_ordinal (cu_stock cu') = (next_ordinal (cu_stock cu))(intent_code i := next_ordinal (cu_stock cu) (intent_code i) + 1)"
    and "map_of (cu_account cu') = (map_of (cu_account cu))(owner \<mapsto> next_ordinal (cu_account cu) owner + 1)"
    and "map_of (cu_stock cu') = (map_of (cu_stock cu))(intent_code i \<mapsto> next_ordinal (cu_stock cu) (intent_code i) + 1)"
  using assms by (auto simp: receive_intent_def Let_def try_in_ok_iff cursors_ok_def next_ordinal_insert map_of_bt_insert)

lemma receive_intent_error:
  "receive_intent owner i cu = (Inl err, cu') \<Longrightarrow> cu' = cu"
  by (auto simp: receive_intent_def Let_def try_in_def ok_or_def split: sum.splits option.splits)

text \<open>
  The receipts given between two states of the cursors: those of an account, and those of a stock, are
  numbered without gaps.
\<close>

definition receipts_between :: "ingress_cursors \<Rightarrow> received_intent list \<Rightarrow> ingress_cursors \<Rightarrow> bool" where
  "receipts_between cu0 rs cu \<longleftrightarrow>
    (\<forall>a. map ri_account_ordinal (filter (\<lambda>r. ri_owner r = a) rs) = [next_ordinal (cu_account cu0) a..<next_ordinal (cu_account cu) a])
  \<and> (\<forall>c. map ri_stock_ordinal (filter (\<lambda>r. ri_code r = c) rs) = [next_ordinal (cu_stock cu0) c..<next_ordinal (cu_stock cu) c])
  \<and> (\<forall>a. next_ordinal (cu_account cu0) a \<le> next_ordinal (cu_account cu) a)
  \<and> (\<forall>c. next_ordinal (cu_stock cu0) c \<le> next_ordinal (cu_stock cu) c)
  \<and> (\<forall>r\<in>set rs. map_of (cu_account cu) (ri_owner r) \<noteq> None \<and> map_of (cu_stock cu) (ri_code r) \<noteq> None)"

lemma receipts_between_start [simp]: "receipts_between cu [] cu"
  by (simp add: receipts_between_def)

lemma receipts_between_receive:
  assumes "receipts_between cu0 rs cu" "cursors_ok cu" "receive_intent owner i cu = (Inr r, cu')"
  shows "receipts_between cu0 (rs @ [r]) cu'"
  using assms(1) receive_intent_ok [OF assms(3,2)]
  by (auto simp: receipts_between_def intro: le_SucI)

text \<open>The place of a receipt in the order in which they were given agrees with both of its numbers.\<close>

lemma map_filter_upt_nth:
  assumes "map f (filter P rs) = [a..<b]" "i < length rs" "j < length rs" "P (rs ! i)" "P (rs ! j)"
  shows "i < j \<longleftrightarrow> f (rs ! i) < f (rs ! j)"
  using assms
proof (induction rs arbitrary: a i j)
  case (Cons r rs)
  show ?case
  proof (cases "P r")
    case True
    with Cons.prems(1) have "[a..<b] = f r # map f (filter P rs)" by simp
    then have head: "f r = a" "a < b" and rest: "map f (filter P rs) = [Suc a..<b]"
      by (auto simp: upt_eq_Cons_conv)
    have later: "a < f (rs ! k)" if "k < length rs" "P (rs ! k)" for k
    proof -
      from that have "f (rs ! k) \<in> set (map f (filter P rs))" by auto
      with rest show ?thesis by simp
    qed
    show ?thesis
      using Cons.IH [OF rest] Cons.prems(2-5) later head by (cases i; cases j) (auto, fastforce+)
  next
    case False
    with Cons show ?thesis by (cases i; cases j) auto
  qed
qed simp

lemma receipts_positions:
  assumes "receipts_between cu0 rs cu" "i < length rs" "j < length rs"
  shows "ri_owner (rs ! i) = ri_owner (rs ! j) \<Longrightarrow> i < j \<longleftrightarrow> ri_account_ordinal (rs ! i) < ri_account_ordinal (rs ! j)"
    and "ri_code (rs ! i) = ri_code (rs ! j) \<Longrightarrow> i < j \<longleftrightarrow> ri_stock_ordinal (rs ! i) < ri_stock_ordinal (rs ! j)"
proof -
  show "i < j \<longleftrightarrow> ri_account_ordinal (rs ! i) < ri_account_ordinal (rs ! j)" if "ri_owner (rs ! i) = ri_owner (rs ! j)"
    by (rule map_filter_upt_nth [where P = "\<lambda>r. ri_owner r = ri_owner (rs ! j)"])
      (use assms that in \<open>auto simp: receipts_between_def\<close>)
  show "i < j \<longleftrightarrow> ri_stock_ordinal (rs ! i) < ri_stock_ordinal (rs ! j)" if "ri_code (rs ! i) = ri_code (rs ! j)"
    by (rule map_filter_upt_nth [where P = "\<lambda>r. ri_code r = ri_code (rs ! j)"])
      (use assms that in \<open>auto simp: receipts_between_def\<close>)
qed

lemma receipts_bounded:
  assumes "receipts_between cu0 rs cu" "r \<in> set rs"
  shows "map_of (cu_account cu) (ri_owner r) = Some (next_ordinal (cu_account cu) (ri_owner r))"
    and "ri_account_ordinal r < next_ordinal (cu_account cu) (ri_owner r)"
    and "map_of (cu_stock cu) (ri_code r) = Some (next_ordinal (cu_stock cu) (ri_code r))"
    and "ri_stock_ordinal r < next_ordinal (cu_stock cu) (ri_code r)"
proof -
  from assms have acct: "map ri_account_ordinal (filter (\<lambda>x. ri_owner x = ri_owner r) rs)
      = [next_ordinal (cu_account cu0) (ri_owner r)..<next_ordinal (cu_account cu) (ri_owner r)]"
    and stk: "map ri_stock_ordinal (filter (\<lambda>x. ri_code x = ri_code r) rs)
      = [next_ordinal (cu_stock cu0) (ri_code r)..<next_ordinal (cu_stock cu) (ri_code r)]"
    by (auto simp: receipts_between_def)
  have "ri_account_ordinal r \<in> set (map ri_account_ordinal (filter (\<lambda>x. ri_owner x = ri_owner r) rs))" using assms(2) by simp
  then show "ri_account_ordinal r < next_ordinal (cu_account cu) (ri_owner r)" by (simp only: acct) simp
  have "ri_stock_ordinal r \<in> set (map ri_stock_ordinal (filter (\<lambda>x. ri_code x = ri_code r) rs))" using assms(2) by simp
  then show "ri_stock_ordinal r < next_ordinal (cu_stock cu) (ri_code r)" by (simp only: stk) simp
  show "map_of (cu_account cu) (ri_owner r) = Some (next_ordinal (cu_account cu) (ri_owner r))"
    "map_of (cu_stock cu) (ri_code r) = Some (next_ordinal (cu_stock cu) (ri_code r))"
    using assms by (auto simp: receipts_between_def next_ordinal_def)
qed

end
