(* ===== verification/Shared_Ingress.thy ===== *)
theory Shared_Ingress
  imports Intents Account
begin

section \<open>The shared queue of requests (session/shared\_ingress.rs)\<close>

text \<open>
  Players hand their requests to a queue that stays open while a tick runs. The session and every copy of it
  made for a tick read the queue through a cell of their own, which says how many inputs they have taken; an
  input leaves the queue once all the readers that are still there have taken it. The queue is behind a mutex
  whose poisoning is part of the state. Readers are the identities of their cells; the queue holds weak
  references to them, so that a cell that has been dropped reads as gone.
\<close>

datatype sync_policy = EveryTick | DayEnd | OnDemand

fun allows_player_ingress :: "sync_policy \<Rightarrow> bool" where
  "allows_player_ingress DayEnd = False"
| "allows_player_ingress _ = True"

subsection \<open>State\<close>

record ingress_state =
  ig_closed :: bool
  ig_terminal :: "step_fatal option"
  ig_policy :: sync_policy
  ig_tick :: nat
  ig_generation :: nat
  ig_accounts :: "(account_id, account_kind) bt"
  ig_receipts :: ingress_cursors
  ig_next_input :: nat
  ig_inputs :: "(nat \<times> received_intent) list"
  ig_readers :: "nat list"
  ig_poisoned :: bool

text \<open>The queue with the cells of its readers, and the identity the next cell gets.\<close>

record ingress = ingress_state +
  ig_cells :: "nat \<rightharpoonup> nat"
  ig_fresh :: nat

definition require_player_policy :: "ingress \<Rightarrow> session_error + unit" where
  "require_player_policy g = (case ig_terminal g of
      Some first \<Rightarrow> Inl (SessionStep first)
    | None \<Rightarrow> if allows_player_ingress (ig_policy g) then Inr ()
        else Inl (SyncPolicyViolation 3020 [1, ig_tick g, ig_generation g]))"

definition lock_ingress :: "ingress \<Rightarrow> session_error + unit" where
  "lock_ingress g = (if ig_poisoned g then (case ig_terminal g of
      Some first \<Rightarrow> Inl (SessionStep first) | None \<Rightarrow> Inl (ResourceLimit 1250 [])) else Inr ())"

subsection \<open>The queue\<close>

definition register_player :: "account_id \<Rightarrow> ingress \<Rightarrow> (session_error + unit) \<times> ingress" where
  "register_player account g = try_in (lock_ingress g) g (\<lambda>_.
    if ig_closed g \<or> map_of (ig_accounts g) account \<noteq> None then (Inl (ResourceLimit 1253 [account]), g)
    else (Inr (), g\<lparr>ig_accounts := bt_insert account Player (ig_accounts g)\<rparr>))"

definition enqueue_player_intent :: "account_id \<Rightarrow> intent \<Rightarrow> ingress \<Rightarrow> (session_error + unit) \<times> ingress" where
  "enqueue_player_intent account i g = try_in (lock_ingress g) g (\<lambda>_. try_in (require_player_policy g) g (\<lambda>_.
    if ig_closed g then (Inl (ResourceLimit 1251 []), g)
    else (case map_of (ig_accounts g) account of
        None \<Rightarrow> (Inl (UnknownPlayer account), g)
      | Some k \<Rightarrow> if k \<noteq> Player then (Inl (NotPlayer account), g)
          else try_in (ok_or (ResourceLimit 1252 []) (checked_u64 (ig_next_input g + 1))) g (\<lambda>n.
            case receive_intent account i (ig_receipts g) of
              (Inl err, cu) \<Rightarrow> (Inl err, g\<lparr>ig_receipts := cu\<rparr>)
            | (Inr received, cu) \<Rightarrow>
                (Inr (), g\<lparr>ig_receipts := cu, ig_next_input := n, ig_inputs := ig_inputs g @ [(ig_next_input g, received)]\<rparr>)))))"

definition update_runtime_progress :: "nat \<Rightarrow> nat \<Rightarrow> ingress \<Rightarrow> (session_error + unit) \<times> ingress" where
  "update_runtime_progress tick generation g =
    try_in (lock_ingress g) g (\<lambda>_. (Inr (), g\<lparr>ig_tick := tick, ig_generation := generation\<rparr>))"

text \<open>A poisoned lock does not stop the first error from being kept.\<close>

definition publish_terminal :: "step_fatal \<Rightarrow> ingress \<Rightarrow> ingress" where
  "publish_terminal fatal g = g\<lparr>ig_terminal := (case ig_terminal g of None \<Rightarrow> Some fatal | Some first \<Rightarrow> Some first), ig_closed := True\<rparr>"

definition close_ingress :: "ingress \<Rightarrow> (session_error + unit) \<times> ingress" where
  "close_ingress g = (if ig_poisoned g then (Inl (ResourceLimit 1250 []), g) else (Inr (), g\<lparr>ig_closed := True\<rparr>))"

definition receive_private :: "account_id \<Rightarrow> intent \<Rightarrow> ingress \<Rightarrow> (session_error + received_intent) \<times> ingress" where
  "receive_private account i g = try_in (lock_ingress g) g (\<lambda>_.
    if ig_closed g then (Inl (ResourceLimit 1251 []), g)
    else (case receive_intent account i (ig_receipts g) of (r, cu) \<Rightarrow> (r, g\<lparr>ig_receipts := cu\<rparr>)))"

subsection \<open>Readers\<close>

definition the_cell :: "nat \<Rightarrow> ingress \<Rightarrow> nat" where
  "the_cell r g = (case ig_cells g r of None \<Rightarrow> 0 | Some c \<Rightarrow> c)"

text \<open>
  The new cell is allocated before the lock is taken; if the lock fails it is dropped again, so that only its
  identity is used up.
\<close>

definition fork_reader :: "nat \<Rightarrow> ingress \<Rightarrow> (session_error + nat) \<times> ingress" where
  "fork_reader r g = (let fresh = ig_fresh g; g' = g\<lparr>ig_fresh := fresh + 1\<rparr> in
    try_in (lock_ingress g) g' (\<lambda>_.
      (Inr fresh, g'\<lparr>ig_cells := (ig_cells g)(fresh \<mapsto> the_cell r g), ig_readers := ig_readers g @ [fresh]\<rparr>)))"

definition drop_reader :: "nat \<Rightarrow> ingress \<Rightarrow> ingress" where
  "drop_reader r g = g\<lparr>ig_cells := (ig_cells g)(r := None)\<rparr>"

text \<open>
  The readers that are still there, and the least number of inputs one of them has taken. The inputs all of
  them have taken are given up.
\<close>

definition live_readers :: "ingress \<Rightarrow> nat list" where
  "live_readers g = filter (\<lambda>r. ig_cells g r \<noteq> None) (ig_readers g)"

definition least_taken :: "ingress \<Rightarrow> nat" where
  "least_taken g = fold (\<lambda>r m. min m (the_cell r g)) (live_readers g) (ig_next_input g)"

definition reader_snapshot ::
    "nat \<Rightarrow> ingress \<Rightarrow> (session_error + received_intent list \<times> ingress_cursors \<times> nat) \<times> ingress" where
  "reader_snapshot r g = try_in (lock_ingress g) g (\<lambda>_.
    let g' = g\<lparr>ig_readers := live_readers g, ig_inputs := dropWhile (\<lambda>(input, _). input < least_taken g) (ig_inputs g)\<rparr> in
    (Inr (map snd (filter (\<lambda>(input, _). the_cell r g \<le> input) (ig_inputs g')), ig_receipts g', ig_next_input g'), g'))"

definition store_taken :: "nat \<Rightarrow> nat \<Rightarrow> ingress \<Rightarrow> ingress" where
  "store_taken r cutoff g = g\<lparr>ig_cells := (ig_cells g)(r \<mapsto> cutoff)\<rparr>"

definition ingress_fatal :: "session_error \<Rightarrow> step_fatal" where
  "ingress_fatal err = InvariantViolation ''session::shared_ingress'' ''session error''"

subsection \<open>The part of a session that reads the queue\<close>

record session_intake =
  si_reader :: "nat option"
  si_poison :: "step_fatal option"
  si_policy :: sync_policy
  si_tick :: nat
  si_generation :: nat
  si_accounts :: "(account_id, account_kind) bt"
  si_cursors :: ingress_cursors
  si_pending :: "received_intent list"

text \<open>Opening the queue of a session that has none.\<close>

definition open_ingress :: "session_intake \<Rightarrow> ingress" where
  "open_ingress s = \<lparr>ig_closed = False, ig_terminal = si_poison s, ig_policy = si_policy s, ig_tick = si_tick s,
     ig_generation = si_generation s, ig_accounts = si_accounts s, ig_receipts = si_cursors s, ig_next_input = 0,
     ig_inputs = [], ig_readers = [0], ig_poisoned = False, ig_cells = [0 \<mapsto> 0], ig_fresh = 1\<rparr>"

definition bind_ingress :: "session_intake \<Rightarrow> session_intake" where
  "bind_ingress s = s\<lparr>si_reader := Some 0\<rparr>"

text \<open>What a session takes in at the cutoff of a tick: the snapshot and the store of the new position are two steps.\<close>

definition take_inputs :: "received_intent list \<times> ingress_cursors \<times> nat \<Rightarrow> session_intake \<Rightarrow> session_intake" where
  "take_inputs snapshot s = (case snapshot of (inputs, cursors, _) \<Rightarrow> s\<lparr>si_pending := si_pending s @ inputs, si_cursors := cursors\<rparr>)"

definition freeze_shared_ingress :: "session_intake \<Rightarrow> ingress \<Rightarrow> (step_fatal + unit) \<times> session_intake \<times> ingress" where
  "freeze_shared_ingress s g = (case si_reader s of
      None \<Rightarrow> (Inr (), s, g)
    | Some r \<Rightarrow> (case reader_snapshot r g of
        (Inl err, g') \<Rightarrow> (Inl (ingress_fatal err), s, g')
      | (Inr snapshot, g') \<Rightarrow> (Inr (), take_inputs snapshot s, store_taken r (snd (snd snapshot)) g')))"

definition receive_private_intent ::
    "account_id \<Rightarrow> intent \<Rightarrow> session_intake \<Rightarrow> ingress \<Rightarrow> (session_error + received_intent) \<times> session_intake \<times> ingress" where
  "receive_private_intent owner i s g = (case si_reader s of
      None \<Rightarrow> (case receive_intent owner i (si_cursors s) of (r, cu) \<Rightarrow> (r, s\<lparr>si_cursors := cu\<rparr>, g))
    | Some _ \<Rightarrow> (case receive_private owner i g of
        (Inl err, g') \<Rightarrow> (Inl err, s, g')
      | (Inr received, g') \<Rightarrow> (Inr received,
          s\<lparr>si_cursors := (si_cursors s)\<lparr>
            cu_account := bt_insert owner (ri_account_ordinal received + 1) (cu_account (si_cursors s)),
            cu_stock := bt_insert (ri_code received) (ri_stock_ordinal received + 1) (cu_stock (si_cursors s))\<rparr>\<rparr>, g')))"

definition require_player_ingress_policy :: "session_intake \<Rightarrow> session_error + unit" where
  "require_player_ingress_policy s = (case si_poison s of
      Some fatal \<Rightarrow> Inl (SessionStep fatal)
    | None \<Rightarrow> if allows_player_ingress (si_policy s) then Inr ()
        else Inl (SyncPolicyViolation 3020 [1, si_tick s, si_generation s]))"

definition session_enqueue_player_intent ::
    "account_id \<Rightarrow> intent \<Rightarrow> session_intake \<Rightarrow> ingress \<Rightarrow> (session_error + unit) \<times> session_intake \<times> ingress" where
  "session_enqueue_player_intent player i s g = (case require_player_ingress_policy s of
      Inl err \<Rightarrow> (Inl err, s, g)
    | Inr _ \<Rightarrow> (case si_reader s of
        Some _ \<Rightarrow> (case enqueue_player_intent player i g of (r, g') \<Rightarrow> (r, s, g'))
      | None \<Rightarrow> (case map_of (si_accounts s) player of
          None \<Rightarrow> (Inl (UnknownPlayer player), s, g)
        | Some k \<Rightarrow> if k \<noteq> Player then (Inl (NotPlayer player), s, g)
            else (case receive_intent player i (si_cursors s) of
                (Inl err, cu) \<Rightarrow> (Inl err, s\<lparr>si_cursors := cu\<rparr>, g)
              | (Inr received, cu) \<Rightarrow> (Inr (), s\<lparr>si_cursors := cu, si_pending := si_pending s @ [received]\<rparr>, g)))))"

text \<open>What a save holds of the requests: those the session has taken and those still in the queue for it.\<close>

record saved_requests =
  sv_pending :: "received_intent list"
  sv_cursors :: ingress_cursors

definition project_shared_ingress_save :: "session_intake \<Rightarrow> ingress \<Rightarrow> (step_fatal + saved_requests) \<times> ingress" where
  "project_shared_ingress_save s g = (let save = \<lparr>sv_pending = si_pending s, sv_cursors = si_cursors s\<rparr> in case si_reader s of
      None \<Rightarrow> (Inr save, g)
    | Some r \<Rightarrow> (case reader_snapshot r g of
        (Inl err, g') \<Rightarrow> (Inl (ingress_fatal err), g')
      | (Inr (inputs, cursors, _), g') \<Rightarrow> (Inr \<lparr>sv_pending = si_pending s @ inputs, sv_cursors = cursors\<rparr>, g')))"

text \<open>The requests go to the tick, and come back when the runtime fails before using them.\<close>

definition capture_player_candidate_batch :: "session_intake \<Rightarrow> received_intent list \<times> session_intake" where
  "capture_player_candidate_batch s = (si_pending s, s\<lparr>si_pending := []\<rparr>)"

definition restore_runtime_player_intents :: "received_intent list \<Rightarrow> session_intake \<Rightarrow> session_intake" where
  "restore_runtime_player_intents rs s = s\<lparr>si_pending := rs @ si_pending s\<rparr>"

text \<open>The copy a tick works on, with a reader of its own, and its return in place of the session.\<close>

definition clone_for_tick_shadow :: "session_intake \<Rightarrow> ingress \<Rightarrow> (step_fatal + session_intake) \<times> ingress" where
  "clone_for_tick_shadow s g = (case si_reader s of
      None \<Rightarrow> (Inr (s\<lparr>si_poison := None\<rparr>), g)
    | Some r \<Rightarrow> (case fork_reader r g of
        (Inl err, g') \<Rightarrow> (Inl (ingress_fatal err), g')
      | (Inr r', g') \<Rightarrow> (Inr (s\<lparr>si_reader := Some r', si_poison := None\<rparr>), g')))"

definition commit_tick_shadow :: "session_intake \<Rightarrow> session_intake \<Rightarrow> ingress \<Rightarrow> session_intake \<times> ingress" where
  "commit_tick_shadow shadow s g =
    (shadow\<lparr>si_poison := si_poison s, si_generation := si_generation s\<rparr>, case si_reader s of None \<Rightarrow> g | Some r \<Rightarrow> drop_reader r g)"

text \<open>A tick that is not committed drops its copy, and the reader with it.\<close>

definition discard_tick_shadow :: "session_intake \<Rightarrow> ingress \<Rightarrow> ingress" where
  "discard_tick_shadow shadow g = (case si_reader shadow of None \<Rightarrow> g | Some r \<Rightarrow> drop_reader r g)"

end
