(* ===== verification/Candidates.thy ===== *)
theory Candidates
  imports Shared_Ingress
begin

section \<open>Candidates of a tick (pipeline/intent\_candidates.rs, candidate\_composition.rs, ready\_ingress.rs)\<close>

text \<open>
  A candidate is a request that may enter the tick, with the identity of its source, its receipt and the
  cancellations it waits for. Actors' candidates and the queued requests of players make the first batch;
  what plans produce is given its receipts when it becomes ready.
\<close>

datatype candidate_key = NpcKey account_id nat | PlayerKey nat | PlanChainKey nat

record intent_candidate =
  ic_key :: candidate_key
  ic_owner :: account_id
  ic_intent :: intent
  ic_predecessors :: "candidate_key list"
  ic_ingress :: "(nat \<times> nat) option"

definition new_candidate :: "candidate_key \<Rightarrow> account_id \<Rightarrow> intent \<Rightarrow> intent_candidate" where
  "new_candidate key owner i = \<lparr>ic_key = key, ic_owner = owner, ic_intent = i, ic_predecessors = [], ic_ingress = None\<rparr>"

definition with_ingress_order :: "nat \<Rightarrow> nat \<Rightarrow> intent_candidate \<Rightarrow> intent_candidate" where
  "with_ingress_order account_ordinal stock_ordinal c = c\<lparr>ic_ingress := Some (account_ordinal, stock_ordinal)\<rparr>"

abbreviation ic_code :: "intent_candidate \<Rightarrow> stock_id" where
  "ic_code c \<equiv> intent_code (ic_intent c)"

abbreviation ic_lane :: "intent_candidate \<Rightarrow> resource_lane option" where
  "ic_lane c \<equiv> intent_lane (ic_owner c) (ic_intent c)"

datatype intent_candidate_error = DuplicateKey candidate_key | InvalidSourceSequence

fun check_candidate_keys :: "candidate_key list \<Rightarrow> intent_candidate list \<Rightarrow> intent_candidate_error + unit" where
  "check_candidate_keys seen [] = Inr ()"
| "check_candidate_keys seen (c # cs) =
    (if ic_key c \<in> set seen then Inl (DuplicateKey (ic_key c)) else check_candidate_keys (ic_key c # seen) cs)"

definition new_candidate_batch :: "intent_candidate list \<Rightarrow> intent_candidate_error + intent_candidate list" where
  "new_candidate_batch cs = bind_result (check_candidate_keys [] cs) (\<lambda>_. Inr cs)"

subsection \<open>The first batch\<close>

datatype composition_error = NonNpcKey candidate_key | NpcOwnerMismatch candidate_key account_id | CandidateFault intent_candidate_error

fun validate_projected_npc :: "candidate_key \<Rightarrow> account_id \<Rightarrow> composition_error + unit" where
  "validate_projected_npc (NpcKey account n) owner = (if account = owner then Inr () else Inl (NpcOwnerMismatch (NpcKey account n) owner))"
| "validate_projected_npc key owner = Inl (NonNpcKey key)"

fun player_candidates :: "nat \<Rightarrow> received_intent list \<Rightarrow> intent_candidate_error + intent_candidate list" where
  "player_candidates i [] = Inr []"
| "player_candidates i (r # rs) = bind_result (ok_or InvalidSourceSequence (checked_u64 i)) (\<lambda>n.
     bind_result (player_candidates (i + 1) rs) (\<lambda>cs.
     Inr (with_ingress_order (ri_account_ordinal r) (ri_stock_ordinal r) (new_candidate (PlayerKey n) (ri_owner r) (ri_intent r)) # cs)))"

definition compose_initial_candidates :: "intent_candidate list \<Rightarrow> received_intent list \<Rightarrow> intent_candidate_error + intent_candidate list" where
  "compose_initial_candidates cs intents =
    bind_result (player_candidates 0 intents) (\<lambda>players. new_candidate_batch (cs @ players))"

definition compose_projected_candidates :: "intent_candidate list \<Rightarrow> received_intent list \<Rightarrow> composition_error + intent_candidate list" where
  "compose_projected_candidates npc intents =
    bind_result (try_fold (\<lambda>_ c. validate_projected_npc (ic_key c) (ic_owner c)) () npc) (\<lambda>_.
      map_error CandidateFault (compose_initial_candidates npc intents))"

subsection \<open>Receipts of what plans produce\<close>

definition ready_fault :: "string \<Rightarrow> step_fatal" where
  "ready_fault = InvariantViolation ''pipeline::ready_ingress''"

fun is_plan_key :: "candidate_key \<Rightarrow> bool" where
  "is_plan_key (PlanChainKey _) = True"
| "is_plan_key _ = False"

fun stamp_ready_receipts ::
    "intent_candidate list \<Rightarrow> session_intake \<Rightarrow> ingress \<Rightarrow> (step_fatal + intent_candidate list) \<times> session_intake \<times> ingress" where
  "stamp_ready_receipts [] s g = (Inr [], s, g)"
| "stamp_ready_receipts (c # cs) s g =
    (if ic_ingress c \<noteq> None
     then (case stamp_ready_receipts cs s g of (r, s', g') \<Rightarrow> (bind_result r (\<lambda>cs'. Inr (c # cs')), s', g'))
     else if \<not> is_plan_key (ic_key c) then (Inl (ready_fault ''queued candidate is missing its receive ordinal''), s, g)
     else (case receive_private_intent (ic_owner c) (ic_intent c) s g of
         (Inl err, s', g') \<Rightarrow> (Inl (ready_fault ''session error''), s', g')
       | (Inr received, s', g') \<Rightarrow> (case stamp_ready_receipts cs s' g' of
           (r, s'', g'') \<Rightarrow> (bind_result r (\<lambda>cs'.
             Inr (with_ingress_order (ri_account_ordinal received) (ri_stock_ordinal received) c # cs')), s'', g''))))"

subsection \<open>What the batches hold\<close>

lemma player_candidates_ok:
  assumes "player_candidates n rs = Inr cs"
  shows "length cs = length rs \<and> (\<forall>i<length rs. cs ! i = \<lparr>ic_key = PlayerKey (n + i), ic_owner = ri_owner (rs ! i),
      ic_intent = ri_intent (rs ! i), ic_predecessors = [], ic_ingress = Some (ri_account_ordinal (rs ! i), ri_stock_ordinal (rs ! i))\<rparr>)"
  using assms
proof (induction rs arbitrary: n cs)
  case (Cons r rs)
  then obtain cs' where cs: "player_candidates (n + 1) rs = Inr cs'"
    "cs = with_ingress_order (ri_account_ordinal r) (ri_stock_ordinal r) (new_candidate (PlayerKey n) (ri_owner r) (ri_intent r)) # cs'"
    by (auto simp: bind_result_Inr_iff)
  from Cons.IH [OF cs(1)] cs(2) show ?case by (auto simp: nth_Cons' with_ingress_order_def new_candidate_def)
qed simp

lemma player_candidates_total: "n + length rs \<le> u64_max \<Longrightarrow> \<exists>cs. player_candidates n rs = Inr cs"
proof (induction rs arbitrary: n)
  case (Cons r rs)
  from Cons.IH [of "n + 1"] Cons.prems show ?case by (auto simp: checked_u64_def)
qed simp

lemma check_candidate_keys_ok:
  "check_candidate_keys seen cs = Inr () \<longleftrightarrow> distinct (map ic_key cs) \<and> set seen \<inter> set (map ic_key cs) = {}"
  by (induction cs arbitrary: seen) auto

end
