(* ===== verification/Ready_Graph.thy ===== *)
theory Ready_Graph
  imports Prelude Money
begin

section \<open>Topological order of a batch (pipeline/local\_admission.rs, session/persistence.rs)\<close>

text \<open>
  The order in which a batch of requests enters, and the check of the requests in a save, come from the same
  loop: a count of the incoming edges of every position, a stack of the positions that wait for nothing, and
  a turn that takes one off the stack and releases its successors. The loop is written here once, with the
  errors its users give it; the lemmas show that it ends, that what it returns respects every edge, and
  that it returns all the positions when the edges have no cycle.
\<close>

datatype graph_fault = CountOverflow | CountUnderflow | IndexPanic

definition count_edges :: "nat list list \<Rightarrow> nat list \<Rightarrow> graph_fault + nat list" where
  "count_edges successors remaining = try_fold (\<lambda>rem d.
     if length rem \<le> d then Inl IndexPanic
     else bind_result (ok_or CountOverflow (checked_u64 (rem ! d + 1))) (\<lambda>n. Inr (rem[d := n])))
     remaining (concat successors)"

text \<open>The vector of ready positions is a stack; it is held with its last element first.\<close>

fun release_dependents :: "nat list \<Rightarrow> nat list \<Rightarrow> nat list \<Rightarrow> graph_fault + nat list \<times> nat list" where
  "release_dependents [] ready remaining = Inr (ready, remaining)"
| "release_dependents (d # ds) ready remaining =
    (if length remaining \<le> d then Inl IndexPanic
     else if remaining ! d = 0 then Inl CountUnderflow
     else release_dependents ds (if remaining ! d - 1 = 0 then d # ready else ready) (remaining[d := remaining ! d - 1]))"

definition still_waiting :: "nat list \<Rightarrow> nat" where
  "still_waiting remaining = length (filter (\<lambda>n. 0 < n) remaining)"

lemma still_waiting_update:
  "d < length rem \<Longrightarrow> 0 < rem ! d \<Longrightarrow>
    still_waiting (rem[d := rem ! d - 1]) + (if rem ! d - 1 = 0 then 1 else 0) = still_waiting rem"
proof (induction rem arbitrary: d)
  case (Cons n rem)
  then show ?case by (cases d) (auto simp: still_waiting_def)
qed simp

lemma release_measure:
  "release_dependents ds ready rem = Inr (ready', rem') \<Longrightarrow> length ready' + still_waiting rem' = length ready + still_waiting rem"
proof (induction ds arbitrary: ready rem)
  case (Cons d ds)
  then have d: "d < length rem" "0 < rem ! d"
    and rest: "release_dependents ds (if rem ! d - 1 = 0 then d # ready else ready) (rem[d := rem ! d - 1]) = Inr (ready', rem')"
    by (auto split: if_splits)
  from Cons.IH [OF rest] still_waiting_update [OF d] show ?case by (auto split: if_splits)
qed simp

text \<open>Each turn takes a position off the stack, and puts on it only positions that wait no longer.\<close>

function topological_order :: "nat list list \<Rightarrow> nat list \<Rightarrow> nat list \<Rightarrow> nat list \<Rightarrow> graph_fault + nat list" where
  "topological_order successors [] remaining ord = Inr ord"
| "topological_order successors (i # ready) remaining ord =
    (if length successors \<le> i then Inl IndexPanic
     else case release_dependents (successors ! i) ready remaining of
       Inl err \<Rightarrow> Inl err
     | Inr (ready', remaining') \<Rightarrow> topological_order successors ready' remaining' (ord @ [i]))"
  by pat_completeness auto

termination
  by (relation "measure (\<lambda>(_, ready, remaining, _). length ready + still_waiting remaining)") (auto dest: release_measure)

text \<open>All of it, for a batch of \<open>n\<close> positions.\<close>

definition positions_in_order :: "nat \<Rightarrow> nat list list \<Rightarrow> graph_fault + nat list" where
  "positions_in_order n successors = bind_result (count_edges successors (replicate n 0)) (\<lambda>remaining.
    topological_order successors (rev (filter (\<lambda>i. remaining ! i = 0) [0..<n])) remaining [])"

subsection \<open>Edges\<close>

definition edges_in_range :: "nat list list \<Rightarrow> bool" where
  "edges_in_range succs \<longleftrightarrow> (\<forall>ds\<in>set succs. \<forall>d\<in>set ds. d < length succs)"

definition is_edge :: "nat list list \<Rightarrow> nat \<Rightarrow> nat \<Rightarrow> bool" where
  "is_edge succs i j \<longleftrightarrow> i < length succs \<and> j \<in> set (succs ! i)"

definition incoming_from :: "nat list list \<Rightarrow> nat set \<Rightarrow> nat \<Rightarrow> nat" where
  "incoming_from succs S j = (\<Sum>i\<in>S. count_list (succs ! i) j)"

lemma count_list_concat: "count_list (concat xss) j = incoming_from xss {..<length xss} j"
proof (induction xss rule: rev_induct)
  case (snoc xs xss)
  then show ?case by (simp add: incoming_from_def nth_append)
qed (simp add: incoming_from_def)

lemma incoming_remove:
  "finite S \<Longrightarrow> i \<in> S \<Longrightarrow> incoming_from succs S j = count_list (succs ! i) j + incoming_from succs (S - {i}) j"
  by (simp add: incoming_from_def sum.remove)

lemma incoming_zero:
  "finite S \<Longrightarrow> incoming_from succs S j = 0 \<longleftrightarrow> (\<forall>i\<in>S. j \<notin> set (succs ! i))"
  by (simp add: incoming_from_def count_list_0_iff)

text \<open>Every position comes after all that have an edge to it.\<close>

definition respects_edges :: "nat list list \<Rightarrow> nat list \<Rightarrow> bool" where
  "respects_edges succs ord \<longleftrightarrow> distinct ord \<and> (\<forall>k<length ord. \<forall>i. is_edge succs i (ord ! k) \<longrightarrow> i \<in> set (take k ord))"

lemma respects_edges_snoc:
  assumes "respects_edges succs ord" "x \<notin> set ord" "\<And>i. is_edge succs i x \<Longrightarrow> i \<in> set ord"
  shows "respects_edges succs (ord @ [x])"
  using assms by (auto simp: respects_edges_def nth_append less_Suc_eq)

lemma respects_edges_before:
  assumes "respects_edges succs ord" "is_edge succs (ord ! a) (ord ! b)" "a < length ord" "b < length ord"
  shows "a < b"
proof -
  from assms have "ord ! a \<in> set (take b ord)" by (auto simp: respects_edges_def)
  then obtain c where c: "c < b" "ord ! c = ord ! a" using assms(4) by (auto simp: in_set_conv_nth)
  with assms have "c = a" by (auto simp: respects_edges_def nth_eq_iff_index_eq)
  with c show ?thesis by simp
qed

subsection \<open>One turn\<close>

lemma release_result:
  assumes "\<forall>d\<in>set ds. d < length rem" "\<forall>j<length rem. count_list ds j \<le> rem ! j" "distinct ready" "\<forall>j\<in>set ready. j < length rem \<and> rem ! j = 0"
  shows "\<exists>ready' rem'. release_dependents ds ready rem = Inr (ready', rem') \<and> length rem' = length rem
    \<and> (\<forall>j<length rem. rem' ! j = rem ! j - count_list ds j) \<and> distinct ready'
    \<and> set ready' = set ready \<union> {j\<in>set ds. rem' ! j = 0}"
  using assms
proof (induction ds arbitrary: ready rem)
  case (Cons d ds)
  define rem1 where "rem1 = rem[d := rem ! d - 1]"
  define ready1 where "ready1 = (if rem ! d - 1 = 0 then d # ready else ready)"
  have d: "d < length rem" using Cons.prems(1) by simp
  have pos: "1 + count_list ds d \<le> rem ! d" using Cons.prems(2) d by force
  have fresh: "d \<notin> set ready" using Cons.prems(4) pos by force
  have rem1: "length rem1 = length rem" "\<And>j. j < length rem \<Longrightarrow> rem1 ! j = rem ! j - (if j = d then 1 else 0)"
    using d by (auto simp: rem1_def nth_list_update)
  have "\<exists>ready' rem'. release_dependents ds ready1 rem1 = Inr (ready', rem') \<and> length rem' = length rem1
    \<and> (\<forall>j<length rem1. rem' ! j = rem1 ! j - count_list ds j) \<and> distinct ready'
    \<and> set ready' = set ready1 \<union> {j\<in>set ds. rem' ! j = 0}"
  proof (rule Cons.IH)
    show "\<forall>d\<in>set ds. d < length rem1" using Cons.prems(1) rem1 by simp
    show "\<forall>j<length rem1. count_list ds j \<le> rem1 ! j"
    proof (intro allI impI)
      fix j assume j: "j < length rem1"
      with Cons.prems(2) rem1(1) have "count_list (d # ds) j \<le> rem ! j" by simp
      with rem1 j show "count_list ds j \<le> rem1 ! j" by (auto split: if_splits)
    qed
    show "distinct ready1" using Cons.prems(3) fresh by (simp add: ready1_def)
    show "\<forall>j\<in>set ready1. j < length rem1 \<and> rem1 ! j = 0" using Cons.prems(4) rem1 d by (auto simp: ready1_def)
  qed
  then obtain ready' rem' where r: "release_dependents ds ready1 rem1 = Inr (ready', rem')" "length rem' = length rem"
    "\<And>j. j < length rem \<Longrightarrow> rem' ! j = rem1 ! j - count_list ds j" "distinct ready'"
    "set ready' = set ready1 \<union> {j\<in>set ds. rem' ! j = 0}" using rem1(1) by auto
  have "release_dependents (d # ds) ready rem = Inr (ready', rem')" using r(1) d pos by (simp add: rem1_def ready1_def)
  moreover have "\<forall>j<length rem. rem' ! j = rem ! j - count_list (d # ds) j" using r(3) rem1(2) by auto
  moreover have "set ready' = set ready \<union> {j\<in>set (d # ds). rem' ! j = 0}"
  proof (cases "rem ! d - 1 = 0")
    case True
    with pos r(3) [OF d] rem1(2) [OF d] have "rem' ! d = 0" by simp
    with True r(5) show ?thesis by (auto simp: ready1_def)
  next
    case False
    then have "d \<in> set ds \<or> rem' ! d \<noteq> 0" using r(3) [OF d] rem1(2) [OF d] by (cases "d \<in> set ds") (simp_all add: count_notin)
    then have "{j\<in>set (d # ds). rem' ! j = 0} = {j\<in>set ds. rem' ! j = 0}" by auto
    with False r(5) show ?thesis by (simp add: ready1_def)
  qed
  ultimately show ?case using r(2,4) by (intro exI [of _ ready'] exI [of _ rem']) simp
qed auto

definition sort_state :: "nat list list \<Rightarrow> nat list \<Rightarrow> nat list \<Rightarrow> nat list \<Rightarrow> bool" where
  "sort_state succs ready rem ord \<longleftrightarrow> length rem = length succs \<and> distinct (ord @ ready) \<and> set (ord @ ready) \<subseteq> {..<length succs}
    \<and> (\<forall>j<length succs. rem ! j = incoming_from succs ({..<length succs} - set ord) j)
    \<and> (\<forall>j<length succs. rem ! j = 0 \<longleftrightarrow> j \<in> set (ord @ ready)) \<and> respects_edges succs ord"

lemma sort_state_turn:
  assumes s: "sort_state succs (i # ready) rem ord" and range: "edges_in_range succs"
  shows "\<exists>ready' rem'. release_dependents (succs ! i) ready rem = Inr (ready', rem') \<and> sort_state succs ready' rem' (ord @ [i])"
proof -
  define W where "W = {..<length succs} - set ord"
  have i: "i < length succs" "i \<in> W" "rem ! i = 0" "i \<notin> set ord" "i \<notin> set ready" using s by (auto simp: sort_state_def W_def)
  have n: "length rem = length succs" and sums: "\<And>j. j < length succs \<Longrightarrow> rem ! j = incoming_from succs W j"
    and zero: "\<And>j. j < length succs \<Longrightarrow> rem ! j = 0 \<longleftrightarrow> j \<in> set ord \<union> set (i # ready)"
    using s by (auto simp: sort_state_def W_def)
  have split: "rem ! j = count_list (succs ! i) j + incoming_from succs (W - {i}) j" if j: "j < length succs" for j
    using sums [OF j] incoming_remove [of W i succs j] i(2) by (simp add: W_def)
  have dep: "\<forall>d\<in>set (succs ! i). d < length rem" using range i(1) n by (auto simp: edges_in_range_def)
  have counts: "\<forall>j<length rem. count_list (succs ! i) j \<le> rem ! j" using split n by simp
  have ready: "distinct ready" "\<forall>j\<in>set ready. j < length rem \<and> rem ! j = 0" using s n by (auto simp: sort_state_def)
  obtain ready' rem' where r: "release_dependents (succs ! i) ready rem = Inr (ready', rem')" "length rem' = length rem"
    "\<And>j. j < length rem \<Longrightarrow> rem' ! j = rem ! j - count_list (succs ! i) j" "distinct ready'"
    "set ready' = set ready \<union> {j\<in>set (succs ! i). rem' ! j = 0}"
    using release_result [OF dep counts ready(1,2)] by blast
  have blocked: "j \<notin> set (succs ! i)" if "j \<in> set ord \<union> set (i # ready)" "j < length succs" for j
    using zero [OF that(2)] split [OF that(2)] that(1) by (simp add: count_list_0_iff)
  have inset: "j \<in> set ord \<Longrightarrow> j < length succs" "j \<in> set ready \<Longrightarrow> j < length succs" for j using s by (auto simp: sort_state_def)
  have sums': "rem' ! j = incoming_from succs ({..<length succs} - set (ord @ [i])) j" if j: "j < length succs" for j
  proof -
    have "{..<length succs} - set (ord @ [i]) = W - {i}" by (auto simp: W_def)
    with r(3) [of j] j split [OF j] n show ?thesis by simp
  qed
  have zero': "rem' ! j = 0 \<longleftrightarrow> j \<in> set ((ord @ [i]) @ ready')" if j: "j < length succs" for j
  proof (cases "j \<in> set (succs ! i)")
    case True
    then have "j \<notin> set ord \<union> set (i # ready)" using blocked j by blast
    with True r(5) show ?thesis by auto
  next
    case False
    with r(3) [of j] j n have "rem' ! j = rem ! j" by (simp add: count_list_0_iff)
    with zero [OF j] False r(5) show ?thesis by auto
  qed
  have before: "k \<in> set ord" if "is_edge succs k i" for k
  proof -
    have "incoming_from succs W i = 0" using sums [OF i(1)] i(3) by simp
    then show ?thesis using that by (auto simp: incoming_zero W_def is_edge_def)
  qed
  have "distinct ((ord @ [i]) @ ready')"
    using s r(4,5) blocked inset i(1) by (fastforce simp: sort_state_def)
  moreover have "set ((ord @ [i]) @ ready') \<subseteq> {..<length succs}" using s r(5) dep n by (auto simp: sort_state_def)
  moreover have "respects_edges succs (ord @ [i])"
    by (rule respects_edges_snoc) (use s i before in \<open>auto simp: sort_state_def\<close>)
  ultimately have "sort_state succs ready' rem' (ord @ [i])"
    unfolding sort_state_def using r(2) n sums' zero' by (intro conjI allI impI) simp_all
  with r(1) show ?thesis by blast
qed

lemma topological_order_result:
  assumes "sort_state succs ready rem ord" "edges_in_range succs"
  shows "\<exists>out rem'. topological_order succs ready rem ord = Inr out \<and> sort_state succs [] rem' out"
  using assms
proof (induction succs ready rem ord rule: topological_order.induct)
  case (2 succs i ready rem ord)
  from sort_state_turn [OF 2(2,3)] obtain ready' rem' where
    r: "release_dependents (succs ! i) ready rem = Inr (ready', rem')" "sort_state succs ready' rem' (ord @ [i])" by blast
  have "i < length succs" using 2(2) by (auto simp: sort_state_def)
  with r 2(1) [of "(ready', rem')" ready' rem'] 2(3) show ?case by auto
qed auto

subsection \<open>The whole order\<close>

lemma count_edges_fold:
  assumes "\<forall>d\<in>set ds. d < length rem" "\<forall>j<length rem. rem ! j + length ds < 2 ^ 64"
  shows "\<exists>rem'. try_fold (\<lambda>rem d. if length rem \<le> d then Inl IndexPanic
      else bind_result (ok_or CountOverflow (checked_u64 (rem ! d + 1))) (\<lambda>n. Inr (rem[d := n]))) rem ds = Inr rem'
    \<and> length rem' = length rem \<and> (\<forall>j<length rem. rem' ! j = rem ! j + count_list ds j)"
  using assms
proof (induction ds arbitrary: rem)
  case (Cons d ds)
  define rem1 where "rem1 = rem[d := Suc (rem ! d)]"
  have d: "d < length rem" "rem ! d + 1 < 2 ^ 64" using Cons.prems by auto
  have rem1: "length rem1 = length rem" "\<And>j. j < length rem \<Longrightarrow> rem1 ! j = rem ! j + (if j = d then 1 else 0)"
    using d by (auto simp: rem1_def nth_list_update)
  have "\<forall>d\<in>set ds. d < length rem1" "\<forall>j<length rem1. rem1 ! j + length ds < 2 ^ 64" using Cons.prems rem1 by auto
  from Cons.IH [OF this] show ?case using d rem1 by (auto simp: checked_u64_def rem1_def [symmetric])
qed simp

lemma count_edges_result:
  assumes "edges_in_range succs" "length (concat succs) < 2 ^ 64"
  shows "\<exists>rem. count_edges succs (replicate (length succs) 0) = Inr rem \<and> length rem = length succs
    \<and> (\<forall>j<length succs. rem ! j = incoming_from succs {..<length succs} j)"
  using count_edges_fold [of "concat succs" "replicate (length succs) 0"] assms
  unfolding count_edges_def by (auto simp: edges_in_range_def count_list_concat)

lemma positions_in_order_result:
  assumes "edges_in_range succs" "length (concat succs) < 2 ^ 64"
  shows "\<exists>ord rem. positions_in_order (length succs) succs = Inr ord \<and> sort_state succs [] rem ord"
proof -
  from count_edges_result [OF assms] obtain rem where
    rem: "count_edges succs (replicate (length succs) 0) = Inr rem" "length rem = length succs"
      "\<And>j. j < length succs \<Longrightarrow> rem ! j = incoming_from succs {..<length succs} j" by blast
  let ?ready = "rev (filter (\<lambda>i. rem ! i = 0) [0..<length succs])"
  have "sort_state succs ?ready rem []" using rem(2,3) by (auto simp: sort_state_def respects_edges_def)
  from topological_order_result [OF this assms(1)] show ?thesis using rem(1) by (simp add: positions_in_order_def)
qed

text \<open>Whatever the number of edges is, a count that ends is exact.\<close>

lemma count_edges_fold_exact:
  assumes "try_fold (\<lambda>rem d. if length rem \<le> d then Inl IndexPanic
      else bind_result (ok_or CountOverflow (checked_u64 (rem ! d + 1))) (\<lambda>n. Inr (rem[d := n]))) rem ds = Inr rem'"
  shows "length rem' = length rem \<and> (\<forall>j<length rem. rem' ! j = rem ! j + count_list ds j)"
  using assms
proof (induction ds arbitrary: rem)
  case (Cons d ds)
  then have d: "d < length rem" and rest: "try_fold (\<lambda>rem d. if length rem \<le> d then Inl IndexPanic
      else bind_result (ok_or CountOverflow (checked_u64 (rem ! d + 1))) (\<lambda>n. Inr (rem[d := n]))) (rem[d := Suc (rem ! d)]) ds = Inr rem'"
    by (auto simp: bind_result_Inr_iff split: if_splits)
  from Cons.IH [OF rest] d show ?case by (auto simp: nth_list_update)
qed simp

lemma positions_in_order_respects:
  assumes "positions_in_order (length succs) succs = Inr ord" "edges_in_range succs"
  shows "respects_edges succs ord" "set ord \<subseteq> {..<length succs}"
proof -
  obtain rem where rem: "count_edges succs (replicate (length succs) 0) = Inr rem"
    and ord: "topological_order succs (rev (filter (\<lambda>i. rem ! i = 0) [0..<length succs])) rem [] = Inr ord"
    using assms(1) by (auto simp: positions_in_order_def bind_result_Inr_iff)
  have "length rem = length succs" "\<And>j. j < length succs \<Longrightarrow> rem ! j = incoming_from succs {..<length succs} j"
    using count_edges_fold_exact [OF rem [unfolded count_edges_def]] by (auto simp: count_list_concat)
  then have "sort_state succs (rev (filter (\<lambda>i. rem ! i = 0) [0..<length succs])) rem []"
    by (auto simp: sort_state_def respects_edges_def)
  from topological_order_result [OF this assms(2)] ord show "respects_edges succs ord" "set ord \<subseteq> {..<length succs}"
    by (auto simp: sort_state_def)
qed

text \<open>No cycle, so every position is reached: of those left out, one with the least rank would have been ready.\<close>

lemma positions_in_order_complete:
  assumes "edges_in_range succs" "length (concat succs) < 2 ^ 64" and rank: "\<And>i j. is_edge succs i j \<Longrightarrow> rank i < (rank j :: nat)"
  shows "\<exists>ord. positions_in_order (length succs) succs = Inr ord \<and> respects_edges succs ord \<and> set ord = {..<length succs}"
proof -
  obtain ord rem where ord: "positions_in_order (length succs) succs = Inr ord" "sort_state succs [] rem ord"
    using positions_in_order_result [OF assms(1,2)] by blast
  have "set ord = {..<length succs}"
  proof (rule ccontr)
    assume "set ord \<noteq> {..<length succs}"
    then obtain j0 where "j0 \<in> {..<length succs} - set ord" using ord(2) by (auto simp: sort_state_def)
    then obtain j where j: "j \<in> {..<length succs} - set ord" and least: "\<And>i. i \<in> {..<length succs} - set ord \<Longrightarrow> rank j \<le> rank i"
      using ex_has_least_nat [of "\<lambda>j. j \<in> {..<length succs} - set ord" j0 rank] by blast
    with ord(2) have "incoming_from succs ({..<length succs} - set ord) j \<noteq> 0" by (auto simp: sort_state_def)
    then obtain i where "i \<in> {..<length succs} - set ord" "j \<in> set (succs ! i)" by (auto simp: incoming_zero)
    with rank [of i j] least [of i] show False by (auto simp: is_edge_def)
  qed
  with ord show ?thesis by (auto simp: sort_state_def)
qed

subsection \<open>Chains\<close>

text \<open>Positions linked one after the other come in that order.\<close>

definition comes_before :: "nat list \<Rightarrow> nat \<Rightarrow> nat \<Rightarrow> bool" where
  "comes_before ord i j \<longleftrightarrow> (\<exists>a b. a < b \<and> b < length ord \<and> ord ! a = i \<and> ord ! b = j)"

definition chain_pairs :: "(nat \<times> 'r) list \<Rightarrow> (nat \<times> nat) list" where
  "chain_pairs xs = zip (map fst xs) (tl (map fst xs))"

lemma chain_pairs_simps [simp]:
  "chain_pairs [] = []" "chain_pairs [x] = []" "chain_pairs (x # y # xs) = (fst x, fst y) # chain_pairs (y # xs)"
  by (simp_all add: chain_pairs_def)

lemma comes_before_trans: "distinct ord \<Longrightarrow> comes_before ord i j \<Longrightarrow> comes_before ord j k \<Longrightarrow> comes_before ord i k"
  unfolding comes_before_def by (metis less_trans nth_eq_iff_index_eq)

lemma edge_comes_before:
  assumes "respects_edges succs ord" "is_edge succs i j" "j \<in> set ord"
  shows "comes_before ord i j"
proof -
  obtain b where b: "b < length ord" "ord ! b = j" using assms(3) by (auto simp: in_set_conv_nth)
  with assms(1,2) have "i \<in> set (take b ord)" by (auto simp: respects_edges_def)
  then obtain a where "a < b" "ord ! a = i" using b(1) by (auto simp: in_set_conv_nth)
  with b show ?thesis unfolding comes_before_def by blast
qed

lemma chain_comes_before:
  assumes "distinct ord" "\<And>i j. (i, j) \<in> set (chain_pairs xs) \<Longrightarrow> comes_before ord i j"
  shows "sorted_wrt (\<lambda>x y. comes_before ord (fst x) (fst y)) xs"
proof -
  have "successively (\<lambda>x y. comes_before ord (fst x) (fst y)) xs"
    using assms(2)
  proof (induction xs rule: induct_list012)
    case (3 x y zs)
    then show ?case by auto
  qed auto
  moreover have "transp (\<lambda>x y. comes_before ord (fst x) (fst y))"
    using comes_before_trans [OF assms(1)] by (auto intro: transpI)
  ultimately show ?thesis using successively_conv_sorted_wrt by blast
qed

text \<open>With distinct keys, the one that comes first in the sorted list is the one with the lesser key.\<close>

lemma sorted_chain_keys:
  assumes "sorted_wrt (\<lambda>x y. P x y) (sort_key f xs)" "x \<in> set xs" "y \<in> set xs" "f x < (f y :: 'k::linorder)"
  shows "P x y"
proof -
  let ?ys = "sort_key f xs"
  obtain a b where ab: "a < length ?ys" "b < length ?ys" "?ys ! a = x" "?ys ! b = y"
    using assms(2,3) by (metis in_set_conv_nth set_sort)
  have "a < b"
  proof (rule ccontr)
    assume "\<not> a < b"
    then have "f (?ys ! b) \<le> f (?ys ! a)"
      using ab(1,2) sorted_sort_key [of f xs] by (simp add: sorted_iff_nth_mono)
    with ab assms(4) show False by simp
  qed
  with assms(1) ab show ?thesis by (auto simp: sorted_wrt_iff_nth_less)
qed

lemma all_positions: "distinct ord \<Longrightarrow> set ord \<subseteq> {..<n} \<Longrightarrow> length ord = n \<Longrightarrow> set ord = {..<n::nat}"
  by (metis card_lessThan card_subset_eq distinct_card finite_lessThan)

subsection \<open>What the users of the order rely on\<close>

text \<open>
  The admission and the check of a save look at the length of what the search returns, and take it for a cycle
  when a position is missing. The contract says why they may.
\<close>

locale order_search =
  fixes search :: "nat \<Rightarrow> nat list list \<Rightarrow> 'e + nat list"
  assumes search_respects: "search (length succs) succs = Inr ord \<Longrightarrow> edges_in_range succs \<Longrightarrow> respects_edges succs ord \<and> set ord \<subseteq> {..<length succs}"
    and search_complete: "edges_in_range succs \<Longrightarrow> length (concat succs) < 2 ^ 64 \<Longrightarrow> (\<And>i j. is_edge succs i j \<Longrightarrow> rank i < (rank j :: nat)) \<Longrightarrow>
      \<exists>ord. search (length succs) succs = Inr ord \<and> respects_edges succs ord \<and> set ord = {..<length succs}"
begin

lemma full_order:
  assumes "search (length succs) succs = Inr ord" "length ord = length succs" "edges_in_range succs"
  shows "respects_edges succs ord" "set ord = {..<length succs}"
proof -
  from search_respects [OF assms(1,3)] have r: "respects_edges succs ord" "set ord \<subseteq> {..<length succs}" by simp_all
  then show "respects_edges succs ord" "set ord = {..<length succs}"
    using all_positions [OF _ r(2) assms(2)] by (simp_all add: respects_edges_def)
qed

lemma ranked_order:
  assumes "edges_in_range succs" "length (concat succs) < 2 ^ 64" "\<And>i j. is_edge succs i j \<Longrightarrow> rank i < (rank j :: nat)"
  shows "\<exists>ord. search (length succs) succs = Inr ord \<and> length ord = length succs \<and> respects_edges succs ord \<and> set ord = {..<length succs}"
  using search_complete [where rank = rank, OF assms] by (metis card_lessThan distinct_card respects_edges_def)

text \<open>A search that leaves a position out has met a cycle: there is no rank that grows along the edges.\<close>

lemma missing_position:
  assumes "search (length succs) succs = Inr ord" "length ord \<noteq> length succs" "edges_in_range succs" "length (concat succs) < 2 ^ 64"
  shows "\<exists>i j. is_edge succs i j \<and> (rank j :: nat) \<le> rank i"
  using ranked_order [where rank = rank, OF assms(3,4)] assms(1,2) by (metis not_le sum.inject(2))

end

interpretation positions: order_search positions_in_order
  by unfold_locales (use positions_in_order_respects positions_in_order_complete in blast)+

end
