(* ===== verification/Local_Admission.thy ===== *)
theory Local_Admission
  imports Candidates Ready_Graph
begin

section \<open>Admission of the requests of a tick (session/pipeline/local\_admission.rs)\<close>

text \<open>
  Requests of players, simulated actors and plans that are ready in the same tick are put in an order: along the
  resources of an account by their receipts, on each stock by the order in which it received them, and a
  replacement after the cancellations it waits for. The constraints are edges of a graph over the positions of
  the batch, and the order is a topological one. Resource groups are kept in a hash map, whose order of
  iteration is an argument here.
\<close>

subsection \<open>Receipts of the accounts\<close>

definition admission_fault :: "string \<Rightarrow> step_fatal" where
  "admission_fault = InvariantViolation ''pipeline::local_admission''"

datatype account_receipt = Received nat | ReadyThisTick nat

fun account_receipt_order :: "account_receipt \<Rightarrow> nat \<times> nat" where
  "account_receipt_order (Received n) = (0, n)"
| "account_receipt_order (ReadyThisTick n) = (1, n)"

type_synonym account_receipts = "account_id \<rightharpoonup> nat"

definition foreign_npc :: "intent_candidate \<Rightarrow> bool" where
  "foreign_npc c \<longleftrightarrow> (case ic_key c of NpcKey account _ \<Rightarrow> account \<noteq> ic_owner c | _ \<Rightarrow> False)"

definition observe_receipt :: "intent_candidate \<Rightarrow> account_receipts \<Rightarrow> (step_fatal + account_receipt) \<times> account_receipts" where
  "observe_receipt c next_plan =
    (if foreign_npc c then (Inl (admission_fault ''NPC receipt belongs to another account''), next_plan)
     else case ic_ingress c of
       Some (account_ordinal, _) \<Rightarrow> (Inr (Received account_ordinal), next_plan)
     | None \<Rightarrow> (case ic_key c of
           PlanChainKey _ \<Rightarrow>
             let n = (case next_plan (ic_owner c) of None \<Rightarrow> 0 | Some n \<Rightarrow> n) in
             try_in (ok_or (admission_fault ''plan account receipt overflow'') (checked_u64 (n + 1)))
               (next_plan(ic_owner c \<mapsto> n)) (\<lambda>m. (Inr (ReadyThisTick n), next_plan(ic_owner c \<mapsto> m)))
         | _ \<Rightarrow> (Inl (admission_fault ''queued candidate is missing its receive ordinal''), next_plan)))"

fun observe_all :: "intent_candidate list \<Rightarrow> account_receipts \<Rightarrow> (step_fatal + account_receipt list) \<times> account_receipts" where
  "observe_all [] next_plan = (Inr [], next_plan)"
| "observe_all (c # cs) next_plan = try_st (observe_receipt c next_plan) (\<lambda>r next_plan'.
     try_st (observe_all cs next_plan') (\<lambda>rs next_plan''. (Inr (r # rs), next_plan'')))"

subsection \<open>The graph of a batch\<close>

text \<open>Entry and push, for a map in the order of its first insertions and for a sorted one.\<close>

fun push_group :: "'k \<Rightarrow> 'v \<Rightarrow> ('k \<times> 'v list) list \<Rightarrow> ('k \<times> 'v list) list" where
  "push_group k v [] = [(k, [v])]"
| "push_group k v ((k', vs) # gs) = (if k' = k then (k', vs @ [v]) # gs else (k', vs) # push_group k v gs)"

definition push_sorted :: "'k::linorder \<Rightarrow> 'v \<Rightarrow> ('k, 'v list) bt \<Rightarrow> ('k, 'v list) bt" where
  "push_sorted k v m = bt_insert k ((case map_of m k of None \<Rightarrow> [] | Some vs \<Rightarrow> vs) @ [v]) m"

type_synonym lane_groups = "(resource_lane \<times> (nat \<times> account_receipt) list) list"
type_synonym stock_groups = "(stock_id, (nat \<times> nat option) list) bt"

fun collect_groups :: "nat \<Rightarrow> (intent_candidate \<times> account_receipt) list \<Rightarrow> lane_groups \<times> stock_groups \<Rightarrow> lane_groups \<times> stock_groups" where
  "collect_groups i [] gs = gs"
| "collect_groups i ((c, r) # cs) (lanes, stocks) =
    collect_groups (i + 1) cs
      (case ic_lane c of None \<Rightarrow> lanes | Some lane \<Rightarrow> push_group lane (i, r) lanes,
       push_sorted (ic_code c) (i, map_option snd (ic_ingress c)) stocks)"

record admission_plan =
  ap_candidates :: "intent_candidate list"
  ap_successors :: "nat list list"
  ap_incoming :: "nat list"

text \<open>An index outside of the vectors would be a panic.\<close>

definition add_edge :: "string \<Rightarrow> nat \<Rightarrow> nat \<Rightarrow> admission_plan \<Rightarrow> step_fatal + admission_plan" where
  "add_edge overflow before after p =
    (if length (ap_successors p) \<le> before \<or> length (ap_incoming p) \<le> after then Inl (StepPanic ''index out of bounds'')
     else bind_result (ok_or (admission_fault overflow) (checked_u64 (ap_incoming p ! after + 1))) (\<lambda>n.
       Inr (p\<lparr>ap_successors := (ap_successors p)[before := ap_successors p ! before @ [after]], ap_incoming := (ap_incoming p)[after := n]\<rparr>)))"

fun chain_edges :: "string \<Rightarrow> (nat \<times> 'r) list \<Rightarrow> admission_plan \<Rightarrow> step_fatal + admission_plan" where
  "chain_edges message (x # y # rest) p =
    (if snd x = snd y then Inl (admission_fault message)
     else bind_result (add_edge ''local admission edge count overflow'' (fst x) (fst y) p) (chain_edges message (y # rest)))"
| "chain_edges message _ p = Inr p"

definition build_resource_edges :: "lane_groups \<Rightarrow> admission_plan \<Rightarrow> step_fatal + admission_plan" where
  "build_resource_edges groups p = try_fold (\<lambda>p (_, entries).
     chain_edges ''conflicting requests share an account receipt'' (sort_key (account_receipt_order \<circ> snd) entries) p) p groups"

definition stock_edges :: "admission_plan \<Rightarrow> stock_id \<times> (nat \<times> nat option) list \<Rightarrow> step_fatal + admission_plan" where
  "stock_edges p stock = (let receipts = snd stock in
    if length receipts < 2 then Inr p
    else if \<forall>r\<in>set receipts. snd r \<noteq> None then
      chain_edges ''conflicting requests share a stock receipt'' (sort_key (\<lambda>r. the (snd r)) receipts) p
    else if \<forall>r\<in>set receipts. snd r = None
    then Inl (admission_fault ''unstamped same-stock requests have no defined admission order'')
    else Inl (admission_fault ''ready stock batch mixes received and unstamped requests''))"

fun key_positions :: "nat \<Rightarrow> intent_candidate list \<Rightarrow> (candidate_key \<rightharpoonup> nat) \<Rightarrow> step_fatal + (candidate_key \<rightharpoonup> nat)" where
  "key_positions i [] m = Inr m"
| "key_positions i (c # cs) m =
    (if m (ic_key c) \<noteq> None then Inl (admission_fault ''quote dependency has an ambiguous candidate identity'')
     else key_positions (i + 1) cs (m(ic_key c \<mapsto> i)))"

fun dependency_edges :: "(candidate_key \<rightharpoonup> nat) \<Rightarrow> nat \<Rightarrow> intent_candidate \<Rightarrow> candidate_key list \<Rightarrow> candidate_key list \<Rightarrow> admission_plan \<Rightarrow>
    step_fatal + admission_plan" where
  "dependency_edges positions i c unique [] p = Inr p"
| "dependency_edges positions i c unique (k # ks) p =
    (if k \<in> set unique then Inl (admission_fault ''quote dependency repeats a predecessor'')
     else bind_result (ok_or (admission_fault ''quote dependency predecessor is missing'') (positions k)) (\<lambda>j.
       if i \<le> j then Inl (admission_fault ''quote dependency predecessor does not precede its replacement'')
       else let before = ap_candidates p ! j in
         if ic_owner before \<noteq> ic_owner c \<or> ic_code before \<noteq> ic_code c
            \<or> \<not> is_cancel (ic_intent before) \<or> is_cancel (ic_intent c)
         then Inl (admission_fault ''quote dependency must link an account's same-stock cancellation to its replacement'')
         else bind_result (add_edge ''quote dependency edge count overflow'' j i p) (dependency_edges positions i c (k # unique) ks)))"

definition add_quote_dependencies :: "admission_plan \<Rightarrow> step_fatal + admission_plan" where
  "add_quote_dependencies p = bind_result (key_positions 0 (ap_candidates p) Map.empty) (\<lambda>positions.
     try_fold (\<lambda>p (i, c). dependency_edges positions i c [] (ic_predecessors c) p) p (enumerate 0 (ap_candidates p)))"

definition empty_plan :: "intent_candidate list \<Rightarrow> admission_plan" where
  "empty_plan cs = \<lparr>ap_candidates = cs, ap_successors = replicate (length cs) [], ap_incoming = replicate (length cs) 0\<rparr>"

definition has_conflicts :: "bool \<Rightarrow> lane_groups \<Rightarrow> stock_groups \<Rightarrow> bool" where
  "has_conflicts has_dependencies lanes stocks \<longleftrightarrow> has_dependencies
     \<or> (\<exists>(_, rs)\<in>set stocks. 2 \<le> length rs) \<or> (\<exists>(_, rs)\<in>set lanes. 2 \<le> length rs)"

text \<open>The plan of a batch with conflicts, or none when there are no conflicts.\<close>

definition prepare_admission ::
    "(lane_groups \<Rightarrow> lane_groups) \<Rightarrow> bool \<Rightarrow> intent_candidate list \<Rightarrow> account_receipts \<Rightarrow>
     (step_fatal + admission_plan option) \<times> account_receipts" where
  "prepare_admission hash_order has_dependencies cs next_plan =
    try_st (observe_all cs next_plan) (\<lambda>rs next_plan'. (case collect_groups 0 (zip cs rs) ([], []) of (lanes, stocks) \<Rightarrow>
      (if \<not> has_conflicts has_dependencies lanes stocks then Inr None
       else bind_result (build_resource_edges (hash_order lanes) (empty_plan cs)) (\<lambda>p1.
         bind_result (if has_dependencies then add_quote_dependencies p1 else Inr p1) (\<lambda>p2.
         bind_result (try_fold stock_edges p2 stocks) (\<lambda>p3. Inr (Some p3)))), next_plan')))"

subsection \<open>The layout\<close>

fun graph_error :: "graph_fault \<Rightarrow> step_fatal" where
  "graph_error CountOverflow = admission_fault ''local admission edge count overflow''"
| "graph_error CountUnderflow = admission_fault ''local admission edge count underflow''"
| "graph_error IndexPanic = StepPanic ''index out of bounds''"

text \<open>Each candidate is taken out of its slot once.\<close>

fun take_slots :: "nat list \<Rightarrow> 'c option list \<Rightarrow> step_fatal + 'c list" where
  "take_slots [] slots = Inr []"
| "take_slots (i # rest) slots =
    (if length slots \<le> i then Inl (StepPanic ''index out of bounds'')
     else case slots ! i of None \<Rightarrow> Inl (StepPanic ''each ready command enters once'')
       | Some c \<Rightarrow> bind_result (take_slots rest (slots[i := None])) (\<lambda>cs. Inr (c # cs)))"

definition finish_layout :: "admission_plan \<Rightarrow> step_fatal + intent_candidate list" where
  "finish_layout p = bind_result (map_error graph_error (positions_in_order (length (ap_candidates p)) (ap_successors p))) (\<lambda>ord.
    if length ord \<noteq> length (ap_candidates p) then Inl (admission_fault ''local admission dependency cycle or omitted command'')
    else take_slots ord (map Some (ap_candidates p)))"

definition admit_ready_batch ::
    "(lane_groups \<Rightarrow> lane_groups) \<Rightarrow> intent_candidate list \<Rightarrow> account_receipts \<Rightarrow> (step_fatal + intent_candidate list) \<times> account_receipts" where
  "admit_ready_batch hash_order cs next_plan = (let has_dependencies = (\<exists>c\<in>set cs. ic_predecessors c \<noteq> []) in
    if length cs < 2 \<and> \<not> has_dependencies then try_st (observe_all cs next_plan) (\<lambda>_ next_plan'. (Inr cs, next_plan'))
    else try_st (prepare_admission hash_order has_dependencies cs next_plan) (\<lambda>plan next_plan'. (case plan of
        None \<Rightarrow> (Inr cs, next_plan')
      | Some p \<Rightarrow> (finish_layout p, next_plan'))))"

end
