(* ===== verification/Admission_Order.thy ===== *)
theory Admission_Order
  imports Local_Admission
begin

section \<open>The graph of a batch and its order\<close>

text \<open>
  What the groups of a batch hold, which edges its plan has, and what follows for the order of the requests.
\<close>

subsection \<open>Groups\<close>

definition entries_at :: "('k \<times> 'v list) list \<Rightarrow> 'k \<Rightarrow> 'v list" where
  "entries_at m k = (case map_of m k of None \<Rightarrow> [] | Some vs \<Rightarrow> vs)"

lemma entries_at_member: "distinct (map fst m) \<Longrightarrow> (k, vs) \<in> set m \<Longrightarrow> vs = entries_at m k"
  by (simp add: entries_at_def)

lemma entries_at_present: "entries_at m k \<noteq> [] \<Longrightarrow> (k, entries_at m k) \<in> set m"
  by (auto simp: entries_at_def split: option.splits dest: map_of_SomeD)

lemma push_group_keys: "fst ` set (push_group k v m) = insert k (fst ` set m)"
  by (induction k v m rule: push_group.induct) auto

lemma push_group_props:
  "distinct (map fst m) \<Longrightarrow> distinct (map fst (push_group k v m))"
  "entries_at (push_group k v m) = (entries_at m)(k := entries_at m k @ [v])"
  "sum_list (map (\<lambda>g. length (snd g)) (push_group k v m)) = sum_list (map (\<lambda>g. length (snd g)) m) + 1"
proof -
  show "distinct (map fst m) \<Longrightarrow> distinct (map fst (push_group k v m))"
    by (induction k v m rule: push_group.induct) (simp_all add: push_group_keys, metis)
  show "entries_at (push_group k v m) = (entries_at m)(k := entries_at m k @ [v])"
    by (induction k v m rule: push_group.induct) (auto simp: entries_at_def fun_eq_iff)
  show "sum_list (map (\<lambda>g. length (snd g)) (push_group k v m)) = sum_list (map (\<lambda>g. length (snd g)) m) + 1"
    by (induction k v m rule: push_group.induct) auto
qed

lemma sum_bt_insert:
  "bt_sorted m \<Longrightarrow> sum_list (map (\<lambda>g. length (snd g)) (bt_insert k vs m)) + length (entries_at m k) = sum_list (map (\<lambda>g. length (snd g)) m) + length vs"
proof (induction m)
  case (Cons x m)
  have "map_of m k = None" if "k \<le> fst x"
    using that Cons.prems by (fastforce simp: map_of_eq_None_iff)
  with Cons show ?case by (auto simp: entries_at_def)
qed (simp add: entries_at_def)

lemma push_sorted_props:
  assumes "bt_sorted m"
  shows "bt_sorted (push_sorted k v m)" "entries_at (push_sorted k v m) = (entries_at m)(k := entries_at m k @ [v])"
    "sum_list (map (\<lambda>g. length (snd g)) (push_sorted k v m)) = sum_list (map (\<lambda>g. length (snd g)) m) + 1"
proof -
  have push: "push_sorted k v m = bt_insert k (entries_at m k @ [v]) m" by (simp add: push_sorted_def entries_at_def)
  show "bt_sorted (push_sorted k v m)" using assms by (simp add: push)
  show "entries_at (push_sorted k v m) = (entries_at m)(k := entries_at m k @ [v])"
    using assms by (auto simp: push entries_at_def map_of_bt_insert fun_eq_iff)
  show "sum_list (map (\<lambda>g. length (snd g)) (push_sorted k v m)) = sum_list (map (\<lambda>g. length (snd g)) m) + 1"
    using sum_bt_insert [OF assms, of k "entries_at m k @ [v]"] by (simp add: push)
qed

text \<open>The entries of a lane and of a stock, in the order of the batch.\<close>

definition lane_entries :: "nat \<Rightarrow> (intent_candidate \<times> account_receipt) list \<Rightarrow> resource_lane \<Rightarrow> (nat \<times> account_receipt) list" where
  "lane_entries n crs l = map (\<lambda>(j, c, r). (j, r)) (filter (\<lambda>(j, c, r). ic_lane c = Some l) (enumerate n crs))"

definition stock_entries :: "nat \<Rightarrow> (intent_candidate \<times> account_receipt) list \<Rightarrow> stock_id \<Rightarrow> (nat \<times> nat option) list" where
  "stock_entries n crs s = map (\<lambda>(j, c, r). (j, map_option snd (ic_ingress c))) (filter (\<lambda>(j, c, r). ic_code c = s) (enumerate n crs))"

definition groups_of_batch :: "nat \<Rightarrow> (intent_candidate \<times> account_receipt) list \<Rightarrow> lane_groups \<times> stock_groups \<Rightarrow> lane_groups \<times> stock_groups \<Rightarrow> bool" where
  "groups_of_batch n crs g g' \<longleftrightarrow> distinct (map fst (fst g')) \<and> bt_sorted (snd g')
    \<and> (\<forall>l. entries_at (fst g') l = entries_at (fst g) l @ lane_entries n crs l)
    \<and> (\<forall>s. entries_at (snd g') s = entries_at (snd g) s @ stock_entries n crs s)
    \<and> sum_list (map (\<lambda>g. length (snd g)) (fst g')) \<le> sum_list (map (\<lambda>g. length (snd g)) (fst g)) + length crs
    \<and> sum_list (map (\<lambda>g. length (snd g)) (snd g')) = sum_list (map (\<lambda>g. length (snd g)) (snd g)) + length crs"

lemma collect_groups_spec:
  assumes "distinct (map fst lanes)" "bt_sorted stocks"
  shows "groups_of_batch n crs (lanes, stocks) (collect_groups n crs (lanes, stocks))"
  using assms
proof (induction crs arbitrary: n lanes stocks)
  case (Cons x crs)
  obtain c r where x: "x = (c, r)" by (cases x)
  define lanes1 where "lanes1 = (case ic_lane c of None \<Rightarrow> lanes | Some lane \<Rightarrow> push_group lane (n, r) lanes)"
  define stocks1 where "stocks1 = push_sorted (ic_code c) (n, map_option snd (ic_ingress c)) stocks"
  have keys: "distinct (map fst lanes1)" "bt_sorted stocks1"
    using Cons.prems push_group_props(1) push_sorted_props(1) by (auto simp: lanes1_def stocks1_def split: option.splits)
  have lane: "entries_at lanes1 l @ lane_entries (Suc n) crs l = entries_at lanes l @ lane_entries n (x # crs) l" for l
    by (auto simp: x lanes1_def lane_entries_def push_group_props(2) split: option.splits)
  have stock: "entries_at stocks1 s @ stock_entries (Suc n) crs s = entries_at stocks s @ stock_entries n (x # crs) s" for s
    using Cons.prems(2) by (auto simp: x stocks1_def stock_entries_def push_sorted_props(2))
  have sizes: "sum_list (map (\<lambda>g. length (snd g)) lanes1) \<le> sum_list (map (\<lambda>g. length (snd g)) lanes) + 1"
    "sum_list (map (\<lambda>g. length (snd g)) stocks1) = sum_list (map (\<lambda>g. length (snd g)) stocks) + 1"
    using Cons.prems(2) by (auto simp: lanes1_def stocks1_def push_group_props(3) push_sorted_props(3) split: option.splits)
  have "collect_groups n (x # crs) (lanes, stocks) = collect_groups (Suc n) crs (lanes1, stocks1)" by (simp add: x lanes1_def stocks1_def)
  with Cons.IH [OF keys, of "Suc n"] show ?case using lane stock sizes unfolding groups_of_batch_def by auto
qed (auto simp: groups_of_batch_def lane_entries_def stock_entries_def)

lemma lane_entries_set: "(j, r) \<in> set (lane_entries n crs l) \<longleftrightarrow>
  n \<le> j \<and> j < n + length crs \<and> ic_lane (fst (crs ! (j - n))) = Some l \<and> r = snd (crs ! (j - n))"
proof -
  have "(j, r) \<in> set (lane_entries n crs l) \<longleftrightarrow> (\<exists>c. (j, c, r) \<in> set (enumerate n crs) \<and> ic_lane c = Some l)"
    by (force simp: lane_entries_def)
  then show ?thesis by (cases "crs ! (j - n)") (auto simp: in_set_enumerate_eq)
qed

lemma stock_entries_set: "(j, r) \<in> set (stock_entries n crs s) \<longleftrightarrow> n \<le> j \<and> j < n + length crs \<and> ic_code (fst (crs ! (j - n))) = s
    \<and> r = map_option snd (ic_ingress (fst (crs ! (j - n))))"
proof -
  have "(j, r) \<in> set (stock_entries n crs s) \<longleftrightarrow>
      (\<exists>c x. (j, c, x) \<in> set (enumerate n crs) \<and> ic_code c = s \<and> r = map_option snd (ic_ingress c))"
    by (force simp: stock_entries_def)
  then show ?thesis by (cases "crs ! (j - n)") (auto simp: in_set_enumerate_eq)
qed

lemma distinct_entry_positions: "distinct (map fst (lane_entries n crs l))" "distinct (map fst (stock_entries n crs s))"
proof -
  have "distinct (map fst (filter P (enumerate n crs)))" for P
    by (rule distinct_map_filter) simp
  moreover have "map fst (lane_entries n crs l) = map fst (filter (\<lambda>(j, c, r). ic_lane c = Some l) (enumerate n crs))"
    "map fst (stock_entries n crs s) = map fst (filter (\<lambda>(j, c, r). ic_code c = s) (enumerate n crs))"
    by (simp_all add: lane_entries_def stock_entries_def comp_def case_prod_beta')
  ultimately show "distinct (map fst (lane_entries n crs l))" "distinct (map fst (stock_entries n crs s))" by simp_all
qed

subsection \<open>Edges of the plan\<close>

definition plan_state :: "intent_candidate list \<Rightarrow> (nat \<times> nat) set \<Rightarrow> nat \<Rightarrow> admission_plan \<Rightarrow> bool" where
  "plan_state cs E m p \<longleftrightarrow> ap_candidates p = cs \<and> length (ap_successors p) = length cs \<and> length (ap_incoming p) = length cs
    \<and> (\<forall>i j. is_edge (ap_successors p) i j \<longleftrightarrow> (i, j) \<in> E) \<and> length (concat (ap_successors p)) = m
    \<and> (\<forall>j<length cs. ap_incoming p ! j \<le> m) \<and> E \<subseteq> {..<length cs} \<times> {..<length cs}"

lemma plan_state_empty: "plan_state cs {} 0 (empty_plan cs)"
  by (auto simp: plan_state_def empty_plan_def is_edge_def)

lemma plan_state_range: "plan_state cs E m p \<Longrightarrow> edges_in_range (ap_successors p)"
  by (fastforce simp: plan_state_def edges_in_range_def is_edge_def in_set_conv_nth)

lemma length_concat_update: "i < length xss \<Longrightarrow> length (concat (xss[i := xss ! i @ [y]])) = Suc (length (concat xss))"
  by (induction xss arbitrary: i) (auto split: nat.splits)

lemma add_edge_state:
  assumes "plan_state cs E m p" "add_edge message i j p = Inr p'"
  shows "plan_state cs (insert (i, j) E) (Suc m) p'"
proof -
  have ij: "i < length cs" "j < length cs" and p': "p' = p\<lparr>ap_successors := (ap_successors p)[i := ap_successors p ! i @ [j]],
      ap_incoming := (ap_incoming p)[j := ap_incoming p ! j + 1]\<rparr>"
    using assms by (auto simp: add_edge_def plan_state_def bind_result_Inr_iff split: if_splits)
  have "length (concat (ap_successors p')) = Suc m" using assms(1) ij by (simp add: p' plan_state_def length_concat_update del: length_concat)
  moreover have "is_edge (ap_successors p') a b \<longleftrightarrow> is_edge (ap_successors p) a b \<or> (a, b) = (i, j)" for a b
    using assms(1) ij by (auto simp: p' plan_state_def is_edge_def nth_list_update)
  moreover have "\<forall>b<length cs. ap_incoming p' ! b \<le> Suc m"
    using assms(1) ij by (auto simp: p' plan_state_def nth_list_update le_SucI simp del: length_concat)
  ultimately show ?thesis using assms(1) ij by (auto simp: plan_state_def p' simp del: length_concat)
qed

lemma add_edge_total:
  assumes "plan_state cs E m p" "i < length cs" "j < length cs" "m < u64_max"
  shows "\<exists>p'. add_edge message i j p = Inr p'"
  using assms by (auto simp: add_edge_def plan_state_def checked_u64_def not_le dest: less_le_trans)

lemma chain_edges_state:
  assumes "plan_state cs E m p" "chain_edges message xs p = Inr p'"
  shows "plan_state cs (E \<union> set (chain_pairs xs)) (m + length (chain_pairs xs)) p' \<and> successively (\<lambda>x y. snd x \<noteq> snd y) xs"
  using assms
proof (induction message xs p arbitrary: E m rule: chain_edges.induct)
  case (1 message x y rest p)
  then obtain q where q: "snd x \<noteq> snd y" "add_edge ''local admission edge count overflow'' (fst x) (fst y) p = Inr q"
    "chain_edges message (y # rest) q = Inr p'"
    by (auto simp: bind_result_Inr_iff split: if_splits)
  from 1(1) [OF q(1,2) add_edge_state [OF 1(2) q(2)] q(3)] q(1) show ?case by simp
qed auto

lemma chain_edges_total:
  assumes "plan_state cs E m p" "\<forall>x\<in>set xs. fst x < length cs" "successively (\<lambda>x y. snd x \<noteq> snd y) xs" "m + length xs \<le> u64_max"
  shows "\<exists>p'. chain_edges message xs p = Inr p'"
  using assms
proof (induction message xs p arbitrary: E m rule: chain_edges.induct)
  case (1 message x y rest p)
  obtain q where q: "add_edge ''local admission edge count overflow'' (fst x) (fst y) p = Inr q"
    using add_edge_total [OF 1(2)] 1(3,5) by fastforce
  with 1(1) [OF _ q add_edge_state [OF 1(2) q]] 1(3-5) show ?case by auto
qed auto

lemma length_chain_pairs: "length (chain_pairs xs) \<le> length xs"
  by (simp add: chain_pairs_def)

end
