(* ===== verification/Admission_Laws.thy ===== *)
theory Admission_Laws
  imports Admission_Order
begin

section \<open>What an admitted batch looks like\<close>

subsection \<open>The edges a plan gets\<close>

definition lane_chain :: "intent_candidate list \<Rightarrow> account_receipt list \<Rightarrow> resource_lane \<Rightarrow> (nat \<times> account_receipt) list" where
  "lane_chain cs rs l = sort_key (account_receipt_order \<circ> snd) (lane_entries 0 (zip cs rs) l)"

definition stock_chain :: "intent_candidate list \<Rightarrow> account_receipt list \<Rightarrow> stock_id \<Rightarrow> (nat \<times> nat option) list" where
  "stock_chain cs rs s = sort_key (\<lambda>r. the (snd r)) (stock_entries 0 (zip cs rs) s)"

definition lane_links :: "intent_candidate list \<Rightarrow> account_receipt list \<Rightarrow> (nat \<times> nat) set" where
  "lane_links cs rs = (\<Union>l. set (chain_pairs (lane_chain cs rs l)))"

definition stock_links :: "intent_candidate list \<Rightarrow> account_receipt list \<Rightarrow> (nat \<times> nat) set" where
  "stock_links cs rs = (\<Union>s. set (chain_pairs (stock_chain cs rs s)))"

definition quote_links :: "intent_candidate list \<Rightarrow> (nat \<times> nat) set" where
  "quote_links cs = {(j, i). i < length cs \<and> j < length cs \<and> ic_key (cs ! j) \<in> set (ic_predecessors (cs ! i))}"

lemma chain_pairs_range: "(i, j) \<in> set (chain_pairs xs) \<Longrightarrow> i \<in> fst ` set xs \<and> j \<in> fst ` set xs"
  by (induction xs rule: induct_list012) auto

lemma short_chain: "length xs < 2 \<Longrightarrow> chain_pairs xs = []"
  by (cases xs; cases "tl xs") (auto simp: chain_pairs_def)

text \<open>Groups of a map with distinct keys: the non-empty ones are in it.\<close>

lemma chains_of_groups:
  assumes "distinct (map fst gs)" "\<And>k. entries_at gs k = f k" "F [] = []"
  shows "(\<Union>(k, vs)\<in>set gs. set (chain_pairs (F vs))) = (\<Union>k. set (chain_pairs (F (f k))))"
proof -
  have "(\<Union>(k, vs)\<in>set gs. set (chain_pairs (F vs))) \<subseteq> (\<Union>k. set (chain_pairs (F (f k))))"
    using entries_at_member [OF assms(1)] assms(2) by fastforce
  moreover have "set (chain_pairs (F (f k))) \<subseteq> (\<Union>(k, vs)\<in>set gs. set (chain_pairs (F vs)))" for k
  proof (cases "f k = []")
    case False
    then have "(k, f k) \<in> set gs" using entries_at_present [of gs k] assms(2) by simp
    then show ?thesis by blast
  qed (simp add: assms(3))
  ultimately show ?thesis by blast
qed

lemma chain_fold_state:
  assumes "plan_state cs E m p" and len: "\<And>vs. length (F vs) = length vs" and "try_fold (\<lambda>p (_, entries). chain_edges message (F entries) p) p gs = Inr p'"
  shows "\<exists>m'. plan_state cs (E \<union> (\<Union>(k, vs)\<in>set gs. set (chain_pairs (F vs)))) m' p'
    \<and> (\<forall>(k, vs)\<in>set gs. successively (\<lambda>x y. snd x \<noteq> snd y) (F vs)) \<and> m' \<le> m + sum_list (map (\<lambda>g. length (snd g)) gs)"
  using assms(1,3)
proof (induction gs arbitrary: E m p)
  case (Cons g gs)
  obtain k vs where g: "g = (k, vs)" by (cases g)
  with Cons.prems(2) obtain q where q: "chain_edges message (F vs) p = Inr q"
    "try_fold (\<lambda>p (_, entries). chain_edges message (F entries) p) q gs = Inr p'" by (auto simp: bind_result_Inr_iff)
  note state = chain_edges_state [OF Cons.prems(1) q(1)]
  from Cons.IH [OF conjunct1 [OF state] q(2)] obtain m' where
    m': "plan_state cs (E \<union> set (chain_pairs (F vs)) \<union> (\<Union>(k, vs)\<in>set gs. set (chain_pairs (F vs)))) m' p'"
    "\<forall>(k, vs)\<in>set gs. successively (\<lambda>x y. snd x \<noteq> snd y) (F vs)"
    "m' \<le> m + length (chain_pairs (F vs)) + sum_list (map (\<lambda>g. length (snd g)) gs)" by blast
  moreover have "length (chain_pairs (F vs)) \<le> length vs" using length_chain_pairs [of "F vs"] len by simp
  ultimately show ?case using state by (intro exI [of _ m']) (auto simp: g Un_assoc)
qed auto

text \<open>A stock whose requests are linked has receipts on all of them.\<close>

lemma stock_edges_state:
  assumes "plan_state cs E m p" "stock_edges p (s, vs) = Inr p'"
  shows "\<exists>m'. plan_state cs (E \<union> set (chain_pairs (sort_key (\<lambda>r. the (snd r)) vs))) m' p'
    \<and> (2 \<le> length vs \<longrightarrow> (\<forall>r\<in>set vs. snd r \<noteq> None) \<and> successively (\<lambda>x y. snd x \<noteq> snd y) (sort_key (\<lambda>r. the (snd r)) vs)) \<and> m' \<le> m + length vs"
proof (cases "length vs < 2")
  case True
  then have "chain_pairs (sort_key (\<lambda>r. the (snd r)) vs) = []" by (simp add: short_chain)
  with assms True show ?thesis by (auto simp: stock_edges_def Let_def)
next
  case False
  with assms(2) have all: "\<forall>r\<in>set vs. snd r \<noteq> None"
    and c: "chain_edges ''conflicting requests share a stock receipt'' (sort_key (\<lambda>r. the (snd r)) vs) p = Inr p'"
    by (auto simp: stock_edges_def Let_def split: if_splits)
  have "length (chain_pairs (sort_key (\<lambda>r. the (snd r)) vs)) \<le> length vs"
    using length_chain_pairs [of "sort_key (\<lambda>r. the (snd r)) vs"] by simp
  with chain_edges_state [OF assms(1) c] all show ?thesis by (meson add_left_mono)
qed

lemma stock_fold_state:
  assumes "plan_state cs E m p" "try_fold stock_edges p gs = Inr p'"
  shows "\<exists>m'. plan_state cs (E \<union> (\<Union>(s, vs)\<in>set gs. set (chain_pairs (sort_key (\<lambda>r. the (snd r)) vs)))) m' p'
    \<and> (\<forall>(s, vs)\<in>set gs. 2 \<le> length vs \<longrightarrow> (\<forall>r\<in>set vs. snd r \<noteq> None) \<and> successively (\<lambda>x y. snd x \<noteq> snd y) (sort_key (\<lambda>r. the (snd r)) vs))
    \<and> m' \<le> m + sum_list (map (\<lambda>g. length (snd g)) gs)"
  using assms
proof (induction gs arbitrary: E m p)
  case (Cons g gs)
  obtain s vs where g: "g = (s, vs)" by (cases g)
  with Cons.prems(2) obtain q where q: "stock_edges p (s, vs) = Inr q" "try_fold stock_edges q gs = Inr p'"
    by (auto simp: bind_result_Inr_iff)
  from stock_edges_state [OF Cons.prems(1) q(1)] obtain m1 where
    m1: "plan_state cs (E \<union> set (chain_pairs (sort_key (\<lambda>r. the (snd r)) vs))) m1 q"
    "2 \<le> length vs \<longrightarrow> (\<forall>r\<in>set vs. snd r \<noteq> None) \<and> successively (\<lambda>x y. snd x \<noteq> snd y) (sort_key (\<lambda>r. the (snd r)) vs)"
    "m1 \<le> m + length vs" by blast
  from Cons.IH [OF m1(1) q(2)] m1(2,3) show ?case by (fastforce simp: g Un_assoc)
qed auto

subsection \<open>Links of replacements to cancellations\<close>

lemma key_positions_ok:
  assumes "key_positions n cs m = Inr m'"
  shows "m' k = Some j \<longleftrightarrow> m k = Some j \<or> (n \<le> j \<and> j < n + length cs \<and> ic_key (cs ! (j - n)) = k)"
    and "distinct (map ic_key cs) \<and> (\<forall>c\<in>set cs. m (ic_key c) = None)"
proof -
  show keys: "distinct (map ic_key cs) \<and> (\<forall>c\<in>set cs. m (ic_key c) = None)"
    using assms
  proof (induction cs arbitrary: n m)
    case (Cons c cs)
    then have fresh: "m (ic_key c) = None" and rest: "key_positions (n + 1) cs (m(ic_key c \<mapsto> n)) = Inr m'" by (auto split: if_splits)
    from Cons.IH [OF rest] fresh show ?case by (auto split: if_splits)
  qed simp
  show "m' k = Some j \<longleftrightarrow> m k = Some j \<or> (n \<le> j \<and> j < n + length cs \<and> ic_key (cs ! (j - n)) = k)"
    using assms keys
  proof (induction cs arbitrary: n m)
    case (Cons c cs)
    then have fresh: "m (ic_key c) = None" and rest: "key_positions (n + 1) cs (m(ic_key c \<mapsto> n)) = Inr m'" by (auto split: if_splits)
    have "distinct (map ic_key cs) \<and> (\<forall>d\<in>set cs. (m(ic_key c \<mapsto> n)) (ic_key d) = None)" using Cons.prems(2) by (auto simp: image_iff)
    from Cons.IH [OF rest this] fresh show ?case
      by (cases "j = n") (auto simp: nth_Cons' Suc_le_eq split: if_splits)
  qed auto
qed

lemma dependency_edges_state:
  assumes "plan_state cs E m p" "dependency_edges positions i c unique ks p = Inr p'"
  shows "\<exists>m'. plan_state cs (E \<union> {(j, i') |j i'. i' = i \<and> (\<exists>k\<in>set ks. positions k = Some j)}) m' p' \<and> (\<forall>k\<in>set ks. \<exists>j<i. positions k = Some j)
    \<and> m' = m + length ks"
  using assms
proof (induction ks arbitrary: unique E m p)
  case (Cons k ks)
  then obtain j q where q: "positions k = Some j" "j < i" "add_edge ''quote dependency edge count overflow'' j i p = Inr q"
    "dependency_edges positions i c (k # unique) ks q = Inr p'"
    by (auto simp: bind_result_Inr_iff Let_def split: if_splits)
  from Cons.IH [OF add_edge_state [OF Cons.prems(1) q(3)] q(4)] obtain m' where
    m': "plan_state cs (insert (j, i) E \<union> {(j, i') |j i'. i' = i \<and> (\<exists>k\<in>set ks. positions k = Some j)}) m' p'"
    "\<forall>k\<in>set ks. \<exists>j<i. positions k = Some j" "m' = Suc m + length ks" by blast
  moreover have "insert (j, i) E \<union> {(j, i') |j i'. i' = i \<and> (\<exists>k\<in>set ks. positions k = Some j)}
      = E \<union> {(j, i') |j i'. i' = i \<and> (\<exists>k\<in>set (k # ks). positions k = Some j)}"
    using q(1) by auto
  ultimately show ?case using q(1,2) by auto
qed auto

lemma dependency_fold_state:
  assumes "plan_state cs E m p"
    "try_fold (\<lambda>p (i, c). dependency_edges positions i c [] (ic_predecessors c) p) p (enumerate n ds) = Inr p'"
  shows "\<exists>m'. plan_state cs (E \<union> {(j, i). n \<le> i \<and> i < n + length ds \<and> (\<exists>k\<in>set (ic_predecessors (ds ! (i - n))). positions k = Some j)}) m' p'
    \<and> (\<forall>i<length ds. \<forall>k\<in>set (ic_predecessors (ds ! i)). \<exists>j<n + i. positions k = Some j)
    \<and> m' = m + sum_list (map (\<lambda>c. length (ic_predecessors c)) ds)"
  using assms
proof (induction ds arbitrary: n E m p)
  case (Cons d ds)
  then obtain q where q: "dependency_edges positions n d [] (ic_predecessors d) p = Inr q"
    "try_fold (\<lambda>p (i, c). dependency_edges positions i c [] (ic_predecessors c) p) q (enumerate (Suc n) ds) = Inr p'"
    by (auto simp: bind_result_Inr_iff)
  from dependency_edges_state [OF Cons.prems(1) q(1)] obtain m1 where
    m1: "plan_state cs (E \<union> {(j, i') |j i'. i' = n \<and> (\<exists>k\<in>set (ic_predecessors d). positions k = Some j)}) m1 q"
    "\<forall>k\<in>set (ic_predecessors d). \<exists>j<n. positions k = Some j" "m1 = m + length (ic_predecessors d)" by blast
  from Cons.IH [OF m1(1) q(2)] obtain m' where m': "plan_state cs (E \<union> {(j, i') |j i'. i' = n \<and> (\<exists>k\<in>set (ic_predecessors d). positions k = Some j)}
      \<union> {(j, i). Suc n \<le> i \<and> i < Suc n + length ds \<and> (\<exists>k\<in>set (ic_predecessors (ds ! (i - Suc n))). positions k = Some j)}) m' p'"
    "\<forall>i<length ds. \<forall>k\<in>set (ic_predecessors (ds ! i)). \<exists>j<Suc n + i. positions k = Some j"
    "m' = m1 + sum_list (map (\<lambda>c. length (ic_predecessors c)) ds)" by blast
  have links: "E \<union> {(j, i') |j i'. i' = n \<and> (\<exists>k\<in>set (ic_predecessors d). positions k = Some j)}
      \<union> {(j, i). Suc n \<le> i \<and> i < Suc n + length ds \<and> (\<exists>k\<in>set (ic_predecessors (ds ! (i - Suc n))). positions k = Some j)}
    = E \<union> {(j, i). n \<le> i \<and> i < n + length (d # ds) \<and> (\<exists>k\<in>set (ic_predecessors ((d # ds) ! (i - n))). positions k = Some j)}"
    by (auto simp: nth_Cons' Suc_le_eq split: if_splits)
  have "\<forall>i<length (d # ds). \<forall>k\<in>set (ic_predecessors ((d # ds) ! i)). \<exists>j<n + i. positions k = Some j"
  proof (intro allI impI ballI)
    fix i k assume "i < length (d # ds)" "k \<in> set (ic_predecessors ((d # ds) ! i))"
    then show "\<exists>j<n + i. positions k = Some j" using m1(2) m'(2) by (cases i) auto
  qed
  with m'(1) [unfolded links] m'(3) m1(3) show ?case by (auto simp: add.assoc)
next
  case (Nil n)
  have "E \<union> {(j, i). n \<le> i \<and> i < n + length ([] :: intent_candidate list) \<and>
      (\<exists>k\<in>set (ic_predecessors (([] :: intent_candidate list) ! (i - n))). positions k = Some j)} = E" by auto
  note none = this
  show ?case unfolding none using Nil.prems by auto
qed

lemma add_quote_dependencies_state:
  assumes "plan_state cs E m p" "add_quote_dependencies p = Inr p'"
  shows "\<exists>m'. plan_state cs (E \<union> quote_links cs) m' p' \<and> m' = m + sum_list (map (\<lambda>c. length (ic_predecessors c)) cs)"
    and "distinct (map ic_key cs)" "\<forall>i<length cs. \<forall>k\<in>set (ic_predecessors (cs ! i)). \<exists>j<i. ic_key (cs ! j) = k"
proof -
  have cs: "ap_candidates p = cs" using assms(1) by (simp add: plan_state_def)
  obtain positions where pos: "key_positions 0 cs Map.empty = Inr positions"
    and fold: "try_fold (\<lambda>p (i, c). dependency_edges positions i c [] (ic_predecessors c) p) p (enumerate 0 cs) = Inr p'"
    using assms(2) by (auto simp: add_quote_dependencies_def cs bind_result_Inr_iff)
  have at: "positions k = Some j \<longleftrightarrow> j < length cs \<and> ic_key (cs ! j) = k" for k j using key_positions_ok(1) [OF pos] by simp
  have links: "{(j, i). 0 \<le> i \<and> i < 0 + length cs \<and> (\<exists>k\<in>set (ic_predecessors (cs ! (i - 0))). positions k = Some j)} = quote_links cs"
    by (auto simp: quote_links_def at)
  from dependency_fold_state [OF assms(1) fold] show "\<exists>m'. plan_state cs (E \<union> quote_links cs) m' p' \<and> m' = m + sum_list (map (\<lambda>c. length (ic_predecessors c)) cs)"
    "\<forall>i<length cs. \<forall>k\<in>set (ic_predecessors (cs ! i)). \<exists>j<i. ic_key (cs ! j) = k"
    unfolding links by (auto simp: at)
  show "distinct (map ic_key cs)" using key_positions_ok(2) [OF pos] by simp
qed

subsection \<open>The order of the positions\<close>

lemma comes_before_asym: "distinct ord \<Longrightarrow> comes_before ord i j \<Longrightarrow> \<not> comes_before ord j i"
  unfolding comes_before_def by (metis less_asym less_trans nth_eq_iff_index_eq)

lemma chain_order:
  fixes f :: "nat \<times> 'r \<Rightarrow> 'k::linorder"
  assumes ord: "distinct ord" and links: "\<And>i j. (i, j) \<in> set (chain_pairs (sort_key f xs)) \<Longrightarrow> comes_before ord i j"
    and different: "successively (\<lambda>x y. snd x \<noteq> snd y) (sort_key f xs)"
    and key: "\<And>x y. x \<in> set xs \<Longrightarrow> y \<in> set xs \<Longrightarrow> f x = f y \<Longrightarrow> snd x = snd y"
    and xy: "x \<in> set xs" "y \<in> set xs" "fst x \<noteq> fst y"
  shows "f x \<noteq> f y" "comes_before ord (fst x) (fst y) \<longleftrightarrow> f x < f y"
proof -
  let ?ys = "sort_key f xs"
  have strict: "sorted_wrt (\<lambda>x y. f x < f y) ?ys"
  proof -
    have "successively (\<lambda>x y. f x \<le> f y) ?ys" using sorted_sort_key [of f xs]
      by (simp add: sorted_map successively_if_sorted_wrt)
    with different have "successively (\<lambda>x y. f x < f y) ?ys"
    proof -
      have "successively (\<lambda>x y. f x < f y) zs" if "set zs \<subseteq> set xs" "successively (\<lambda>x y. snd x \<noteq> snd y) zs" "successively (\<lambda>x y. f x \<le> f y) zs" for zs
        using that
      proof (induction zs rule: induct_list012)
        case (3 a b zs)
        moreover have "f a \<noteq> f b" using key [of a b] 3 by auto
        ultimately show ?case by auto
      qed auto
      from this [OF _ different \<open>successively (\<lambda>x y. f x \<le> f y) ?ys\<close>] show ?thesis by simp
    qed
    moreover have "transp (\<lambda>x y. f x < f y)" by (auto intro: transpI)
    ultimately show ?thesis using successively_conv_sorted_wrt by blast
  qed
  obtain a b where ab: "a < length ?ys" "b < length ?ys" "?ys ! a = x" "?ys ! b = y"
    using xy(1,2) by (metis in_set_conv_nth set_sort)
  have "a \<noteq> b" using ab xy(3) by auto
  then show "f x \<noteq> f y" using strict ab by (auto simp: sorted_wrt_iff_nth_less neq_iff)
  have before: "comes_before ord (fst x') (fst y')" if "x' \<in> set xs" "y' \<in> set xs" "f x' < f y'" for x' y'
    using sorted_chain_keys [OF chain_comes_before [OF ord links] that] by simp
  show "comes_before ord (fst x) (fst y) \<longleftrightarrow> f x < f y"
    using before [OF xy(1,2)] before [OF xy(2,1)] comes_before_asym [OF ord] \<open>f x \<noteq> f y\<close> by (meson linorder_neqE)
qed

text \<open>
  The rules of admission: on a lane the receipts of the account decide, on a stock its receipts, and a
  replacement comes after the cancellations it names.
\<close>

definition admission_rules :: "intent_candidate list \<Rightarrow> account_receipt list \<Rightarrow> nat list \<Rightarrow> bool" where
  "admission_rules cs rs ord \<longleftrightarrow> distinct ord \<and> set ord = {..<length cs}
    \<and> (\<forall>i<length cs. \<forall>j<length cs. i \<noteq> j \<and> ic_lane (cs ! i) \<noteq> None \<and> ic_lane (cs ! i) = ic_lane (cs ! j) \<longrightarrow>
        rs ! i \<noteq> rs ! j \<and> (comes_before ord i j \<longleftrightarrow> account_receipt_order (rs ! i) < account_receipt_order (rs ! j)))
    \<and> (\<forall>i<length cs. \<forall>j<length cs. i \<noteq> j \<and> ic_code (cs ! i) = ic_code (cs ! j) \<longrightarrow>
        (\<exists>ai si aj sj. ic_ingress (cs ! i) = Some (ai, si) \<and> ic_ingress (cs ! j) = Some (aj, sj) \<and> si \<noteq> sj \<and> (comes_before ord i j \<longleftrightarrow> si < sj)))
    \<and> (\<forall>i<length cs. \<forall>j<length cs. ic_key (cs ! i) \<in> set (ic_predecessors (cs ! j)) \<longrightarrow> comes_before ord i j)
    \<and> (\<forall>j<length cs. set (ic_predecessors (cs ! j)) \<subseteq> ic_key ` set cs)"

lemma account_receipt_order_inject: "account_receipt_order r = account_receipt_order r' \<Longrightarrow> r = r'"
  by (cases r; cases r') auto

lemma two_entries: "x \<in> set xs \<Longrightarrow> y \<in> set xs \<Longrightarrow> fst x \<noteq> fst y \<Longrightarrow> 2 \<le> length xs"
  by (cases xs; cases "tl xs") auto

lemma plan_order_rules:
  assumes state: "plan_state cs E m p" and ord: "respects_edges (ap_successors p) ord" "set ord = {..<length cs}" and len: "length rs = length cs"
    and lanes: "\<And>l. set (chain_pairs (lane_chain cs rs l)) \<subseteq> E \<and> successively (\<lambda>x y. snd x \<noteq> snd y) (lane_chain cs rs l)"
    and stocks: "\<And>s. set (chain_pairs (stock_chain cs rs s)) \<subseteq> E"
    and stamped: "\<And>s. 2 \<le> length (stock_entries 0 (zip cs rs) s) \<Longrightarrow>
      (\<forall>r\<in>set (stock_entries 0 (zip cs rs) s). snd r \<noteq> None) \<and> successively (\<lambda>x y. snd x \<noteq> snd y) (stock_chain cs rs s)"
    and quotes: "quote_links cs \<subseteq> E" "\<And>j. j < length cs \<Longrightarrow> set (ic_predecessors (cs ! j)) \<subseteq> ic_key ` set cs"
  shows "admission_rules cs rs ord"
proof -
  have dist: "distinct ord" using ord(1) by (simp add: respects_edges_def)
  have edge: "comes_before ord i j" if "(i, j) \<in> E" for i j
    using edge_comes_before [OF ord(1), of i j] that state ord(2) by (auto simp: plan_state_def)
  have lane: "rs ! i \<noteq> rs ! j \<and> (comes_before ord i j \<longleftrightarrow> account_receipt_order (rs ! i) < account_receipt_order (rs ! j))"
    if "i < length cs" "j < length cs" "i \<noteq> j" "ic_lane (cs ! i) = Some l" "ic_lane (cs ! j) = Some l" for i j l
  proof -
    have mem: "(i, rs ! i) \<in> set (lane_entries 0 (zip cs rs) l)" "(j, rs ! j) \<in> set (lane_entries 0 (zip cs rs) l)"
      using that len by (auto simp: lane_entries_set)
    have links: "comes_before ord a b" if "(a, b) \<in> set (chain_pairs (sort_key (account_receipt_order \<circ> snd) (lane_entries 0 (zip cs rs) l)))" for a b
      using lanes [of l] edge that by (auto simp: lane_chain_def)
    have diff: "successively (\<lambda>x y. snd x \<noteq> snd y) (sort_key (account_receipt_order \<circ> snd) (lane_entries 0 (zip cs rs) l))"
      using lanes [of l] by (simp add: lane_chain_def)
    have key: "\<And>x y. (account_receipt_order \<circ> snd) x = (account_receipt_order \<circ> snd) y \<Longrightarrow> snd x = snd y"
      using account_receipt_order_inject by (simp add: comp_def)
    note c = chain_order [OF dist links diff key mem]
    show ?thesis using c that(3) by auto
  qed
  have stock: "\<exists>ai si aj sj. ic_ingress (cs ! i) = Some (ai, si) \<and> ic_ingress (cs ! j) = Some (aj, sj) \<and> si \<noteq> sj \<and> (comes_before ord i j \<longleftrightarrow> si < sj)"
    if "i < length cs" "j < length cs" "i \<noteq> j" "ic_code (cs ! i) = ic_code (cs ! j)" for i j
  proof -
    let ?xs = "stock_entries 0 (zip cs rs) (ic_code (cs ! i))"
    have mem: "(i, map_option snd (ic_ingress (cs ! i))) \<in> set ?xs" "(j, map_option snd (ic_ingress (cs ! j))) \<in> set ?xs"
      using that len by (auto simp: stock_entries_set)
    have "2 \<le> length ?xs" using two_entries [OF mem] that(3) by simp
    from stamped [OF this] have all: "\<forall>r\<in>set ?xs. snd r \<noteq> None"
      and diff: "successively (\<lambda>x y. snd x \<noteq> snd y) (sort_key (\<lambda>r. the (snd r)) ?xs)" by (simp_all add: stock_chain_def)
    have links: "comes_before ord a b" if "(a, b) \<in> set (chain_pairs (sort_key (\<lambda>r. the (snd r)) ?xs))" for a b
      using stocks [of "ic_code (cs ! i)"] edge that by (auto simp: stock_chain_def)
    have key: "\<And>x y. x \<in> set ?xs \<Longrightarrow> y \<in> set ?xs \<Longrightarrow> the (snd x) = the (snd y) \<Longrightarrow> snd x = snd y"
      using all by (metis option.expand)
    have ne: "fst (i, map_option snd (ic_ingress (cs ! i))) \<noteq> fst (j, map_option snd (ic_ingress (cs ! j)))" using that(3) by simp
    note c = chain_order [where f = "\<lambda>r. the (snd r)" and xs = ?xs, OF dist links diff key mem ne]
    have "ic_ingress (cs ! i) \<noteq> None" "ic_ingress (cs ! j) \<noteq> None" using bspec [OF all mem(1)] bspec [OF all mem(2)] by (simp_all only: snd_conv option.map_disc_iff not_False_eq_True)
    then obtain ai si aj sj where sep: "ic_ingress (cs ! i) = Some (ai, si)" "ic_ingress (cs ! j) = Some (aj, sj)"
      by (metis not_None_eq surj_pair)
    have "si \<noteq> sj" using c(1) unfolding fst_conv snd_conv sep option.map option.sel .
    moreover have "comes_before ord i j \<longleftrightarrow> si < sj" using c(2) unfolding fst_conv snd_conv sep option.map option.sel .
    ultimately show ?thesis using sep by blast
  qed
  show ?thesis unfolding admission_rules_def
  proof (intro conjI allI impI)
    show "comes_before ord i j" if "i < length cs" "j < length cs" "ic_key (cs ! i) \<in> set (ic_predecessors (cs ! j))" for i j
      using edge quotes(1) that by (auto simp: quote_links_def)
    show "rs ! i \<noteq> rs ! j" "comes_before ord i j \<longleftrightarrow> account_receipt_order (rs ! i) < account_receipt_order (rs ! j)"
      if "i < length cs" "j < length cs" "i \<noteq> j \<and> ic_lane (cs ! i) \<noteq> None \<and> ic_lane (cs ! i) = ic_lane (cs ! j)" for i j
      using lane [of i j] that by (metis not_None_eq)+
    show "\<exists>ai si aj sj. ic_ingress (cs ! i) = Some (ai, si) \<and> ic_ingress (cs ! j) = Some (aj, sj) \<and> si \<noteq> sj \<and> (comes_before ord i j \<longleftrightarrow> si < sj)"
      if "i < length cs" "j < length cs" "i \<noteq> j \<and> ic_code (cs ! i) = ic_code (cs ! j)" for i j
      using stock that by blast
  qed (use dist ord(2) quotes(2) in simp_all)
qed

end
