(* ===== verification/Admission_Complete.thy ===== *)
theory Admission_Complete
  imports Admission_Laws "HOL-Library.Multiset"
begin

section \<open>Which batches are admitted\<close>

subsection \<open>An admitted batch keeps the rules\<close>

lemma take_slots_ok:
  "distinct ord \<Longrightarrow> \<forall>i\<in>set ord. i < length slots \<and> slots ! i = Some (f i) \<Longrightarrow> take_slots ord slots = Inr (map f ord)"
proof (induction ord arbitrary: slots)
  case (Cons i ord)
  then have "take_slots ord (slots[i := None]) = Inr (map f ord)" by (intro Cons.IH) (auto simp: nth_list_update)
  with Cons.prems show ?case by simp
qed simp

lemma finish_layout_order:
  assumes "plan_state cs E m p" "respects_edges (ap_successors p) ord" "set ord = {..<length cs}"
    "positions_in_order (length cs) (ap_successors p) = Inr ord"
  shows "finish_layout p = Inr (map ((!) cs) ord)"
proof -
  have dist: "distinct ord" using assms(2) by (simp add: respects_edges_def)
  then have "length ord = length cs" using assms(3) by (metis card_lessThan distinct_card)
  moreover have "take_slots ord (map Some cs) = Inr (map ((!) cs) ord)" by (rule take_slots_ok) (use dist assms(3) in auto)
  ultimately show ?thesis using assms(1,4) by (simp add: finish_layout_def plan_state_def)
qed

lemma finish_layout_rules:
  assumes "plan_state cs E m p" "finish_layout p = Inr out"
  shows "\<exists>ord. respects_edges (ap_successors p) ord \<and> set ord = {..<length cs} \<and> out = map ((!) cs) ord"
proof -
  have p: "ap_candidates p = cs" "length (ap_successors p) = length cs" using assms(1) by (simp_all add: plan_state_def)
  obtain ord where ord: "positions_in_order (length cs) (ap_successors p) = Inr ord" "length ord = length cs"
    "take_slots ord (map Some cs) = Inr out"
    using assms(2) by (auto simp: finish_layout_def p bind_result_Inr_iff split: if_splits)
  have order: "positions_in_order (length (ap_successors p)) (ap_successors p) = Inr ord" "length ord = length (ap_successors p)"
    using ord(1,2) p(2) by simp_all
  from positions.full_order [OF order plan_state_range [OF assms(1)]] p(2)
  have r: "respects_edges (ap_successors p) ord" and all: "set ord = {..<length cs}" by simp_all
  with finish_layout_order [OF assms(1) r all ord(1)] assms(2) r show ?thesis by auto
qed

lemma observe_all_length: "observe_all cs next_plan = (Inr rs, next_plan') \<Longrightarrow> length rs = length cs"
  by (induction cs arbitrary: next_plan rs) (auto simp: try_st_ok_iff)

definition has_quotes :: "intent_candidate list \<Rightarrow> bool" where
  "has_quotes cs \<longleftrightarrow> (\<exists>c\<in>set cs. ic_predecessors c \<noteq> [])"

lemma no_quotes: "\<not> has_quotes cs \<Longrightarrow> i < length cs \<Longrightarrow> ic_predecessors (cs ! i) = []"
  by (auto simp: has_quotes_def)

text \<open>Without conflicts the batch keeps its order.\<close>

lemma unconflicted_rules:
  assumes len: "length rs = length cs" and quotes: "\<not> has_quotes cs"
    and lanes: "\<And>l. length (lane_entries 0 (zip cs rs) l) < 2" and stocks: "\<And>s. length (stock_entries 0 (zip cs rs) s) < 2"
  shows "admission_rules cs rs [0..<length cs]"
proof -
  have lane: "ic_lane (cs ! i) = None \<or> ic_lane (cs ! i) \<noteq> ic_lane (cs ! j)" if "i < length cs" "j < length cs" "i \<noteq> j" for i j
  proof (rule ccontr)
    assume "\<not> ?thesis"
    then obtain l where "ic_lane (cs ! i) = Some l" "ic_lane (cs ! j) = Some l" by (cases "ic_lane (cs ! i)") auto
    note that = that this
    have "(i, rs ! i) \<in> set (lane_entries 0 (zip cs rs) l)" "(j, rs ! j) \<in> set (lane_entries 0 (zip cs rs) l)"
      using that len by (auto simp: lane_entries_set)
    from two_entries [OF this] lanes [of l] that(3) show False by simp
  qed
  have stock: "ic_code (cs ! i) \<noteq> ic_code (cs ! j)" if "i < length cs" "j < length cs" "i \<noteq> j" for i j
  proof
    assume "ic_code (cs ! i) = ic_code (cs ! j)"
    note that = that this
    have "(i, map_option snd (ic_ingress (cs ! i))) \<in> set (stock_entries 0 (zip cs rs) (ic_code (cs ! i)))"
      "(j, map_option snd (ic_ingress (cs ! j))) \<in> set (stock_entries 0 (zip cs rs) (ic_code (cs ! i)))"
      using that len by (auto simp: stock_entries_set)
    from two_entries [OF this] stocks [of "ic_code (cs ! i)"] that(3) show False by simp
  qed
  show ?thesis unfolding admission_rules_def
  proof (intro conjI allI impI)
    show "rs ! i \<noteq> rs ! j" "comes_before [0..<length cs] i j \<longleftrightarrow> account_receipt_order (rs ! i) < account_receipt_order (rs ! j)"
      if "i < length cs" "j < length cs" "i \<noteq> j \<and> ic_lane (cs ! i) \<noteq> None \<and> ic_lane (cs ! i) = ic_lane (cs ! j)" for i j
      using lane [of i j] that by blast+
    show "\<exists>ai si aj sj. ic_ingress (cs ! i) = Some (ai, si) \<and> ic_ingress (cs ! j) = Some (aj, sj) \<and> si \<noteq> sj
        \<and> (comes_before [0..<length cs] i j \<longleftrightarrow> si < sj)"
      if "i < length cs" "j < length cs" "i \<noteq> j \<and> ic_code (cs ! i) = ic_code (cs ! j)" for i j
      using stock [of i j] that by blast
  qed (simp_all add: no_quotes [OF quotes] lessThan_atLeast0)
qed

text \<open>The edges of the plan of a batch, and what its steps have checked.\<close>

lemma batch_groups:
  assumes "collect_groups 0 (zip cs rs) ([], []) = (lanes, stocks)" "length rs = length cs"
  shows "distinct (map fst lanes)" "distinct (map fst stocks)"
    "entries_at lanes l = lane_entries 0 (zip cs rs) l" "entries_at stocks s = stock_entries 0 (zip cs rs) s"
    "(\<Sum>g\<leftarrow>lanes. length (snd g)) \<le> length cs" "(\<Sum>g\<leftarrow>stocks. length (snd g)) = length cs"
  using collect_groups_spec [of "[]" "[]" 0 "zip cs rs"] assms
  by (auto simp: groups_of_batch_def entries_at_def bt_sorted_distinct)

lemma same_groups:
  assumes "mset gs = mset lanes" "distinct (map fst lanes)"
  shows "set gs = set lanes" "distinct (map fst gs)" "entries_at gs = entries_at lanes" "(\<Sum>g\<leftarrow>gs. length (snd g)) = (\<Sum>g\<leftarrow>lanes. length (snd g))"
proof -
  show "set gs = set lanes" using assms(1) by (rule mset_eq_setD)
  have "mset (map fst gs) = mset (map fst lanes)" using assms(1) by simp
  with assms(2) show dist: "distinct (map fst gs)" using mset_eq_imp_distinct_iff by blast
  show "entries_at gs = entries_at lanes"
    using map_of_inject_set [OF dist assms(2)] \<open>set gs = set lanes\<close> by (auto simp: entries_at_def fun_eq_iff)
  have "mset (map (\<lambda>g. length (snd g)) gs) = mset (map (\<lambda>g. length (snd g)) lanes)" using assms(1) by simp
  then show "(\<Sum>g\<leftarrow>gs. length (snd g)) = (\<Sum>g\<leftarrow>lanes. length (snd g))" by (metis sum_mset_sum_list)
qed

lemma entries_length: "length (lane_entries n crs l) \<le> length crs" "length (stock_entries n crs s) \<le> length crs"
  by (auto simp: lane_entries_def stock_entries_def intro: order_trans [OF length_filter_le])

definition plan_links :: "intent_candidate list \<Rightarrow> account_receipt list \<Rightarrow> (nat \<times> nat) set" where
  "plan_links cs rs = lane_links cs rs \<union> (if has_quotes cs then quote_links cs else {}) \<union> stock_links cs rs"

lemma lane_links_groups:
  assumes "mset gs = mset lanes" "collect_groups 0 (zip cs rs) ([], []) = (lanes, stocks)" "length rs = length cs"
  shows "(\<Union>(k, vs)\<in>set gs. set (chain_pairs (sort_key (account_receipt_order \<circ> snd) vs))) = lane_links cs rs"
  using chains_of_groups [of gs "lane_entries 0 (zip cs rs)" "sort_key (account_receipt_order \<circ> snd)"]
    same_groups [OF assms(1) batch_groups(1) [OF assms(2,3)]] batch_groups(3) [OF assms(2,3)]
  by (simp add: lane_links_def lane_chain_def)

lemma stock_links_groups:
  assumes "collect_groups 0 (zip cs rs) ([], []) = (lanes, stocks)" "length rs = length cs"
  shows "(\<Union>(s, vs)\<in>set stocks. set (chain_pairs (sort_key (\<lambda>r. the (snd r)) vs))) = stock_links cs rs"
  using chains_of_groups [of stocks "stock_entries 0 (zip cs rs)" "sort_key (\<lambda>r. the (snd r))"] batch_groups(2,4) [OF assms]
  by (simp add: stock_links_def stock_chain_def)

lemma plan_of_batch:
  assumes prep: "prepare_admission hash_order (has_quotes cs) cs next_plan = (Inr (Some p), next_plan')"
    and obs: "observe_all cs next_plan = (Inr rs, next_plan')" and hash: "\<And>gs. mset (hash_order gs) = mset gs"
  shows "\<exists>m. plan_state cs (plan_links cs rs) m p"
    "\<And>l. successively (\<lambda>x y. snd x \<noteq> snd y) (lane_chain cs rs l)"
    "\<And>s. 2 \<le> length (stock_entries 0 (zip cs rs) s) \<Longrightarrow>
      (\<forall>r\<in>set (stock_entries 0 (zip cs rs) s). snd r \<noteq> None) \<and> successively (\<lambda>x y. snd x \<noteq> snd y) (stock_chain cs rs s)"
    "has_quotes cs \<Longrightarrow> \<forall>i<length cs. \<forall>k\<in>set (ic_predecessors (cs ! i)). \<exists>j<i. ic_key (cs ! j) = k"
proof -
  have len: "length rs = length cs" by (rule observe_all_length [OF obs])
  obtain lanes stocks where gs: "collect_groups 0 (zip cs rs) ([], []) = (lanes, stocks)" by (cases "collect_groups 0 (zip cs rs) ([], [])")
  have "(if \<not> has_conflicts (has_quotes cs) lanes stocks then Inr None
       else bind_result (build_resource_edges (hash_order lanes) (empty_plan cs)) (\<lambda>p1.
         bind_result (if has_quotes cs then add_quote_dependencies p1 else Inr p1) (\<lambda>p2.
         bind_result (try_fold stock_edges p2 stocks) (\<lambda>p3. Inr (Some p3))))) = Inr (Some p)"
    using prep by (simp add: prepare_admission_def obs gs)
  then have "bind_result (build_resource_edges (hash_order lanes) (empty_plan cs)) (\<lambda>p1.
         bind_result (if has_quotes cs then add_quote_dependencies p1 else Inr p1) (\<lambda>p2.
         bind_result (try_fold stock_edges p2 stocks) (\<lambda>p3. Inr (Some p3)))) = Inr (Some p)"
    by (auto split: if_split_asm)
  then obtain p1 p2 where p1: "build_resource_edges (hash_order lanes) (empty_plan cs) = Inr p1"
    and p2: "(if has_quotes cs then add_quote_dependencies p1 else Inr p1) = Inr p2" and p3: "try_fold stock_edges p2 stocks = Inr p"
    unfolding bind_result_Inr_iff by blast
  obtain m1 where s1: "plan_state cs (lane_links cs rs) m1 p1"
    and d1: "\<forall>(k, vs)\<in>set (hash_order lanes). successively (\<lambda>x y. snd x \<noteq> snd y) (sort_key (account_receipt_order \<circ> snd) vs)"
    using chain_fold_state [OF plan_state_empty _ p1 [unfolded build_resource_edges_def]] lane_links_groups [OF hash gs len] by auto
  obtain m2 where s2: "plan_state cs (lane_links cs rs \<union> (if has_quotes cs then quote_links cs else {})) m2 p2"
    using s1 p2 add_quote_dependencies_state(1) [OF s1] by (auto split: if_splits)
  from stock_fold_state [OF s2 p3] stock_links_groups [OF gs len]
  have "\<exists>m. plan_state cs (lane_links cs rs \<union> (if has_quotes cs then quote_links cs else {}) \<union> stock_links cs rs) m p"
    and d3: "\<forall>(s, vs)\<in>set stocks. 2 \<le> length vs \<longrightarrow> (\<forall>r\<in>set vs. snd r \<noteq> None) \<and> successively (\<lambda>x y. snd x \<noteq> snd y) (sort_key (\<lambda>r. the (snd r)) vs)"
    by auto
  then show "\<exists>m. plan_state cs (plan_links cs rs) m p" by (simp add: plan_links_def)
  show "successively (\<lambda>x y. snd x \<noteq> snd y) (lane_chain cs rs l)" for l
  proof (cases "lane_entries 0 (zip cs rs) l = []")
    case False
    then have "(l, lane_entries 0 (zip cs rs) l) \<in> set (hash_order lanes)"
      using entries_at_present [of lanes l] batch_groups(3) [OF gs len] same_groups(1) [OF hash batch_groups(1) [OF gs len]] by simp
    with d1 show ?thesis by (auto simp: lane_chain_def)
  qed (simp add: lane_chain_def)
  show "(\<forall>r\<in>set (stock_entries 0 (zip cs rs) s). snd r \<noteq> None) \<and> successively (\<lambda>x y. snd x \<noteq> snd y) (stock_chain cs rs s)"
    if "2 \<le> length (stock_entries 0 (zip cs rs) s)" for s
  proof -
    have "stock_entries 0 (zip cs rs) s \<noteq> []" using that by auto
    then have "(s, stock_entries 0 (zip cs rs) s) \<in> set stocks"
      using entries_at_present [of stocks s] batch_groups(4) [OF gs len] by simp
    from bspec [OF d3 this] that show ?thesis by (auto simp: stock_chain_def)
  qed
  show "\<forall>i<length cs. \<forall>k\<in>set (ic_predecessors (cs ! i)). \<exists>j<i. ic_key (cs ! j) = k" if "has_quotes cs"
    using add_quote_dependencies_state(3) [OF s1] p2 that by simp
qed

lemma prepare_observed:
  assumes "prepare_admission hash_order quotes cs next_plan = (Inr plan, next_plan')"
  shows "\<exists>rs. observe_all cs next_plan = (Inr rs, next_plan')"
proof (cases "observe_all cs next_plan")
  case (Pair r s)
  show ?thesis
  proof (cases r)
    case (Inl err)
    with assms Pair show ?thesis by (simp add: prepare_admission_def)
  next
    case (Inr rs)
    with assms Pair show ?thesis by (cases "collect_groups 0 (zip cs rs) ([], [])") (simp add: prepare_admission_def)
  qed
qed

lemma admit_unfold:
  "admit_ready_batch hash_order cs next_plan = (if length cs < 2 \<and> \<not> has_quotes cs
    then try_st (observe_all cs next_plan) (\<lambda>_ next_plan'. (Inr cs, next_plan'))
    else try_st (prepare_admission hash_order (has_quotes cs) cs next_plan) (\<lambda>plan next_plan'. (case plan of
        None \<Rightarrow> (Inr cs, next_plan') | Some p \<Rightarrow> (finish_layout p, next_plan'))))"
  unfolding admit_ready_batch_def has_quotes_def Let_def ..

lemma admitted_batch_rules:
  assumes adm: "admit_ready_batch hash_order cs next_plan = (Inr out, next_plan')" and hash: "\<And>gs. mset (hash_order gs) = mset gs"
  shows "\<exists>rs ord. observe_all cs next_plan = (Inr rs, next_plan') \<and> admission_rules cs rs ord \<and> out = map ((!) cs) ord"
proof (cases "length cs < 2 \<and> \<not> has_quotes cs")
  case True
  with adm obtain rs where rs: "observe_all cs next_plan = (Inr rs, next_plan')" and out: "out = cs"
    unfolding admit_unfold if_P [OF True] try_st_ok_iff by blast
  note len = observe_all_length [OF rs]
  have "length (lane_entries 0 (zip cs rs) l) < 2" "length (stock_entries 0 (zip cs rs) s) < 2" for l s
    using True len entries_length(1) [of 0 "zip cs rs" l] entries_length(2) [of 0 "zip cs rs" s] by simp_all
  from unconflicted_rules [OF len _ this] True rs out show ?thesis by (auto simp: map_nth intro!: exI [of _ "[0..<length cs]"])
next
  case False
  from adm have "try_st (prepare_admission hash_order (has_quotes cs) cs next_plan) (\<lambda>plan next_plan'. (case plan of
        None \<Rightarrow> (Inr cs, next_plan') | Some p \<Rightarrow> (finish_layout p, next_plan'))) = (Inr out, next_plan')"
    unfolding admit_unfold if_not_P [OF False] .
  then obtain plan next_plan1 where plan1: "prepare_admission hash_order (has_quotes cs) cs next_plan = (Inr plan, next_plan1)"
    and last: "(case plan of None \<Rightarrow> (Inr cs, next_plan1) | Some p \<Rightarrow> (finish_layout p, next_plan1)) = (Inr out, next_plan')"
    unfolding try_st_ok_iff by blast
  have plan: "prepare_admission hash_order (has_quotes cs) cs next_plan = (Inr plan, next_plan')"
    and result: "plan = None \<and> out = cs \<or> (\<exists>p. plan = Some p \<and> finish_layout p = Inr out)"
    using last plan1 by (cases plan; simp)+
  from plan obtain rs where rs: "observe_all cs next_plan = (Inr rs, next_plan')"
    using prepare_observed by blast
  note len = observe_all_length [OF rs]
  show ?thesis
  proof (cases plan)
    case None
    obtain lanes stocks where gs: "collect_groups 0 (zip cs rs) ([], []) = (lanes, stocks)" by (cases "collect_groups 0 (zip cs rs) ([], [])")
    have none: "\<not> has_conflicts (has_quotes cs) lanes stocks"
      using plan None by (auto simp: prepare_admission_def rs gs bind_result_Inr_iff split: if_splits)
    have "length (lane_entries 0 (zip cs rs) l) < 2" for l
      using none entries_at_present [of lanes l] batch_groups(3) [OF gs len] by (cases "lane_entries 0 (zip cs rs) l = []") (fastforce simp: has_conflicts_def)+
    moreover have "length (stock_entries 0 (zip cs rs) s) < 2" for s
      using none entries_at_present [of stocks s] batch_groups(4) [OF gs len] by (cases "stock_entries 0 (zip cs rs) s = []") (fastforce simp: has_conflicts_def)+
    ultimately have "admission_rules cs rs [0..<length cs]" using unconflicted_rules [OF len] none by (auto simp: has_conflicts_def)
    with rs result None show ?thesis by (auto simp: map_nth intro!: exI [of _ "[0..<length cs]"])
  next
    case (Some p)
    note facts = plan_of_batch [OF plan [unfolded Some] rs hash]
    obtain m where state: "plan_state cs (plan_links cs rs) m p" using facts(1) by blast
    obtain ord where ord: "respects_edges (ap_successors p) ord" "set ord = {..<length cs}" "out = map ((!) cs) ord"
      using finish_layout_rules [OF state] result Some by auto
    have "admission_rules cs rs ord"
    proof (rule plan_order_rules [OF state ord(1,2) len])
      show "set (chain_pairs (lane_chain cs rs l)) \<subseteq> plan_links cs rs \<and> successively (\<lambda>x y. snd x \<noteq> snd y) (lane_chain cs rs l)" for l
        using facts(2) by (auto simp: plan_links_def lane_links_def)
      show "set (chain_pairs (stock_chain cs rs s)) \<subseteq> plan_links cs rs" for s by (auto simp: plan_links_def stock_links_def)
      show "quote_links cs \<subseteq> plan_links cs rs" by (auto simp: plan_links_def quote_links_def dest: no_quotes)
      show "set (ic_predecessors (cs ! j)) \<subseteq> ic_key ` set cs" if "j < length cs" for j
        using facts(4) that no_quotes [of cs j] by (cases "has_quotes cs") (auto simp: image_iff, metis less_trans nth_mem)
    qed (use facts(3) in simp)
    with rs ord(3) show ?thesis by blast
  qed
qed

end
