(* ===== verification/Admission_Exists.thy ===== *)
theory Admission_Exists
  imports Admission_Complete
begin

section \<open>A batch with an order is admitted\<close>

text \<open>What the links of replacements to cancellations must be.\<close>

definition quote_link_ok :: "intent_candidate \<Rightarrow> intent_candidate \<Rightarrow> bool" where
  "quote_link_ok before c \<longleftrightarrow> ic_owner before = ic_owner c \<and> ic_code before = ic_code c \<and> is_cancel (ic_intent before) \<and> \<not> is_cancel (ic_intent c)"

definition quote_rules :: "intent_candidate list \<Rightarrow> bool" where
  "quote_rules cs \<longleftrightarrow> has_quotes cs \<longrightarrow> distinct (map ic_key cs) \<and> (\<forall>i<length cs. distinct (ic_predecessors (cs ! i)) \<and>
     (\<forall>k\<in>set (ic_predecessors (cs ! i)). \<exists>j<i. ic_key (cs ! j) = k \<and> quote_link_ok (cs ! j) (cs ! i)))"

subsection \<open>The checks of the links\<close>

lemma dependency_edges_checked:
  assumes "plan_state cs E m p" "dependency_edges positions i c unique ks p = Inr p'"
  shows "distinct ks \<and> set unique \<inter> set ks = {} \<and> (\<forall>k\<in>set ks. \<exists>j<i. positions k = Some j \<and> quote_link_ok (cs ! j) c)"
  using assms
proof (induction ks arbitrary: unique E m p)
  case (Cons k ks)
  have p: "ap_candidates p = cs" using Cons.prems(1) by (simp add: plan_state_def)
  obtain j q where q: "k \<notin> set unique" "positions k = Some j" "j < i" "quote_link_ok (cs ! j) c"
    "add_edge ''quote dependency edge count overflow'' j i p = Inr q" "dependency_edges positions i c (k # unique) ks q = Inr p'"
    using Cons.prems(2) by (auto simp: bind_result_Inr_iff Let_def p quote_link_ok_def split: if_splits)
  from Cons.IH [OF add_edge_state [OF Cons.prems(1) q(5)] q(6)] q(1-4) show ?case by auto
qed simp

lemma dependency_edges_total:
  assumes "plan_state cs E m p" "i < length cs" "distinct ks" "set unique \<inter> set ks = {}" "m + length ks \<le> u64_max"
    "\<forall>k\<in>set ks. \<exists>j<i. positions k = Some j \<and> quote_link_ok (cs ! j) c"
  shows "\<exists>p'. dependency_edges positions i c unique ks p = Inr p'"
  using assms
proof (induction ks arbitrary: unique E m p)
  case (Cons k ks)
  have p: "ap_candidates p = cs" using Cons.prems(1) by (simp add: plan_state_def)
  obtain j where j: "j < i" "positions k = Some j" "quote_link_ok (cs ! j) c" using Cons.prems(6) by auto
  obtain q where q: "add_edge ''quote dependency edge count overflow'' j i p = Inr q"
    using add_edge_total [OF Cons.prems(1), of j i] j(1) Cons.prems(2,5) by fastforce
  from Cons.IH [OF add_edge_state [OF Cons.prems(1) q], of "k # unique"] Cons.prems(2-6)
  obtain p' where "dependency_edges positions i c (k # unique) ks q = Inr p'" by auto
  then show ?case using j q Cons.prems(4) by (simp add: Let_def p quote_link_ok_def)
qed simp

lemma dependency_fold_checked:
  assumes "plan_state cs E m p"
    "try_fold (\<lambda>p (i, c). dependency_edges positions i c [] (ic_predecessors c) p) p (enumerate n ds) = Inr p'"
  shows "\<forall>i<length ds. distinct (ic_predecessors (ds ! i)) \<and>
    (\<forall>k\<in>set (ic_predecessors (ds ! i)). \<exists>j<n + i. positions k = Some j \<and> quote_link_ok (cs ! j) (ds ! i))"
  using assms
proof (induction ds arbitrary: n E m p)
  case (Cons d ds)
  then obtain q where q: "dependency_edges positions n d [] (ic_predecessors d) p = Inr q"
    "try_fold (\<lambda>p (i, c). dependency_edges positions i c [] (ic_predecessors c) p) q (enumerate (Suc n) ds) = Inr p'"
    by (auto simp: bind_result_Inr_iff)
  obtain E' m' where s: "plan_state cs E' m' q" using dependency_edges_state [OF Cons.prems(1) q(1)] by blast
  show ?case
  proof (intro allI impI)
    fix i assume "i < length (d # ds)"
    then show "distinct (ic_predecessors ((d # ds) ! i)) \<and>
        (\<forall>k\<in>set (ic_predecessors ((d # ds) ! i)). \<exists>j<n + i. positions k = Some j \<and> quote_link_ok (cs ! j) ((d # ds) ! i))"
      using dependency_edges_checked [OF Cons.prems(1) q(1)] Cons.IH [OF s q(2)] by (cases i) auto
  qed
qed simp

lemma dependency_fold_total:
  assumes "plan_state cs E m p" "n + length ds \<le> length cs"
    "m + (\<Sum>c\<leftarrow>ds. length (ic_predecessors c)) \<le> u64_max"
    "\<forall>i<length ds. distinct (ic_predecessors (ds ! i)) \<and>
      (\<forall>k\<in>set (ic_predecessors (ds ! i)). \<exists>j<n + i. positions k = Some j \<and> quote_link_ok (cs ! j) (ds ! i))"
  shows "\<exists>p'. try_fold (\<lambda>p (i, c). dependency_edges positions i c [] (ic_predecessors c) p) p (enumerate n ds) = Inr p'"
  using assms
proof (induction ds arbitrary: n E m p)
  case (Cons d ds)
  have head: "distinct (ic_predecessors d)" "\<forall>k\<in>set (ic_predecessors d). \<exists>j<n. positions k = Some j \<and> quote_link_ok (cs ! j) d"
    using Cons.prems(4) by (auto dest!: spec [of _ 0])
  obtain q where q: "dependency_edges positions n d [] (ic_predecessors d) p = Inr q"
    using dependency_edges_total [OF Cons.prems(1) _ head(1), of n "[]"] head(2) Cons.prems(2,3) by fastforce
  obtain E' m' where s: "plan_state cs E' m' q" "m' = m + length (ic_predecessors d)"
    using dependency_edges_state [OF Cons.prems(1) q] by blast
  have rest: "\<forall>i<length ds. distinct (ic_predecessors (ds ! i)) \<and>
      (\<forall>k\<in>set (ic_predecessors (ds ! i)). \<exists>j<Suc n + i. positions k = Some j \<and> quote_link_ok (cs ! j) (ds ! i))"
  proof (intro allI impI)
    fix i assume "i < length ds"
    with Cons.prems(4) show "distinct (ic_predecessors (ds ! i)) \<and>
        (\<forall>k\<in>set (ic_predecessors (ds ! i)). \<exists>j<Suc n + i. positions k = Some j \<and> quote_link_ok (cs ! j) (ds ! i))"
      by (auto dest!: spec [of _ "Suc i"])
  qed
  obtain p' where "try_fold (\<lambda>p (i, c). dependency_edges positions i c [] (ic_predecessors c) p) q (enumerate (Suc n) ds) = Inr p'"
    using Cons.IH [OF s(1) _ _ rest] Cons.prems(2,3) s(2) by auto
  then show ?case using q by auto
qed simp

lemma key_positions_total: "distinct (map ic_key cs) \<Longrightarrow> \<forall>c\<in>set cs. m (ic_key c) = None \<Longrightarrow> \<exists>m'. key_positions n cs m = Inr m'"
proof (induction cs arbitrary: n m)
  case (Cons c cs)
  then have "\<forall>d\<in>set cs. (m(ic_key c \<mapsto> n)) (ic_key d) = None" by (auto simp: image_iff)
  with Cons show ?case by auto
qed simp

lemma add_quote_dependencies_rules:
  assumes state: "plan_state cs E m p" and "add_quote_dependencies p = Inr p'"
  shows "quote_rules cs"
proof -
  have cs: "ap_candidates p = cs" using state by (simp add: plan_state_def)
  from assms(2) obtain positions where pos: "key_positions 0 cs Map.empty = Inr positions"
    and fold: "try_fold (\<lambda>p (i, c). dependency_edges positions i c [] (ic_predecessors c) p) p (enumerate 0 cs) = Inr p'"
    by (auto simp: add_quote_dependencies_def cs bind_result_Inr_iff)
  show ?thesis using dependency_fold_checked [OF state fold] key_positions_ok [OF pos]
    unfolding quote_rules_def by fastforce
qed

lemma add_quote_dependencies_total:
  assumes state: "plan_state cs E m p" and size: "m + (\<Sum>c\<leftarrow>cs. length (ic_predecessors c)) \<le> u64_max" and "has_quotes cs"
    and rules: "quote_rules cs"
  shows "\<exists>p'. add_quote_dependencies p = Inr p'"
proof -
  have cs: "ap_candidates p = cs" using state by (simp add: plan_state_def)
  from rules assms(3) obtain positions where pos: "key_positions 0 cs Map.empty = Inr positions"
    using key_positions_total [of cs Map.empty 0] by (auto simp: quote_rules_def)
  have "\<forall>i<length cs. distinct (ic_predecessors (cs ! i)) \<and>
        (\<forall>k\<in>set (ic_predecessors (cs ! i)). \<exists>j<0 + i. positions k = Some j \<and> quote_link_ok (cs ! j) (cs ! i))"
    proof (intro allI impI)
      fix i assume "i < length cs"
      with rules assms(3) show "distinct (ic_predecessors (cs ! i)) \<and>
        (\<forall>k\<in>set (ic_predecessors (cs ! i)). \<exists>j<0 + i. positions k = Some j \<and> quote_link_ok (cs ! j) (cs ! i))"
        unfolding quote_rules_def key_positions_ok(1) [OF pos] by force
    qed
    from dependency_fold_total [OF state _ size this] show "\<exists>p'. add_quote_dependencies p = Inr p'"
    by (simp add: add_quote_dependencies_def cs pos)
qed

subsection \<open>The edges agree with the order\<close>

lemma chain_pairs_keys:
  assumes "sorted (map f zs)" "distinct (map fst zs)" "(i, j) \<in> set (chain_pairs zs)"
  shows "\<exists>x\<in>set zs. \<exists>y\<in>set zs. fst x = i \<and> fst y = j \<and> f x \<le> f y \<and> i \<noteq> j"
  using assms
proof (induction zs rule: induct_list012)
  case (3 x y zs)
  then show ?case by (cases "(i, j) = (fst x, fst y)") auto
qed auto

lemma distinct_sort_positions: "distinct (map fst xs) \<Longrightarrow> distinct (map fst (sort_key f xs))"
proof -
  assume "distinct (map fst xs)"
  moreover have "mset (map fst (sort_key f xs)) = mset (map fst xs)" by simp
  ultimately show ?thesis using mset_eq_imp_distinct_iff by blast
qed

lemma sort_chain_keys:
  assumes "(i, j) \<in> set (chain_pairs (sort_key f xs))" "distinct (map fst xs)"
  obtains x y where "x \<in> set xs" "y \<in> set xs" "fst x = i" "fst y = j" "f x \<le> f y" "i \<noteq> j"
  using chain_pairs_keys [OF sorted_sort_key distinct_sort_positions [OF assms(2)] assms(1)] by auto

lemma rules_lane:
  assumes "admission_rules cs rs ord" "i < length cs" "j < length cs" "i \<noteq> j" "ic_lane (cs ! i) = Some l" "ic_lane (cs ! j) = Some l"
  shows "rs ! i \<noteq> rs ! j" "comes_before ord i j \<longleftrightarrow> account_receipt_order (rs ! i) < account_receipt_order (rs ! j)"
  using assms by (simp_all add: admission_rules_def)

lemma rules_stock:
  assumes "admission_rules cs rs ord" "i < length cs" "j < length cs" "i \<noteq> j" "ic_code (cs ! i) = ic_code (cs ! j)"
  shows "\<exists>ai si aj sj. ic_ingress (cs ! i) = Some (ai, si) \<and> ic_ingress (cs ! j) = Some (aj, sj) \<and> si \<noteq> sj \<and> (comes_before ord i j \<longleftrightarrow> si < sj)"
  using assms unfolding admission_rules_def by blast

lemma rules_order_links:
  assumes rules: "admission_rules cs rs ord" and len: "length rs = length cs" and link: "(i, j) \<in> plan_links cs rs"
  shows "comes_before ord i j"
proof -
  consider "(i, j) \<in> lane_links cs rs" | "(i, j) \<in> quote_links cs" | "(i, j) \<in> stock_links cs rs"
    using link by (auto simp: plan_links_def split: if_splits)
  then show ?thesis
  proof cases
    case 1
    then obtain l where "(i, j) \<in> set (chain_pairs (lane_chain cs rs l))" by (auto simp: lane_links_def)
    then obtain x y where xy: "x \<in> set (lane_entries 0 (zip cs rs) l)" "y \<in> set (lane_entries 0 (zip cs rs) l)" "fst x = i" "fst y = j"
      "(account_receipt_order \<circ> snd) x \<le> (account_receipt_order \<circ> snd) y" "i \<noteq> j"
      unfolding lane_chain_def by (rule sort_chain_keys [OF _ distinct_entry_positions(1)])
    have "(i, snd x) \<in> set (lane_entries 0 (zip cs rs) l)" "(j, snd y) \<in> set (lane_entries 0 (zip cs rs) l)"
      using xy(1-4) by (metis prod.collapse)+
    then have at: "i < length cs" "j < length cs" "ic_lane (cs ! i) = Some l" "ic_lane (cs ! j) = Some l" "snd x = rs ! i" "snd y = rs ! j"
      unfolding lane_entries_set using len by auto
    note r = rules_lane [OF rules at(1,2) xy(6) at(3,4)]
    have "account_receipt_order (rs ! i) \<noteq> account_receipt_order (rs ! j)" using r(1) account_receipt_order_inject by blast
    moreover have "account_receipt_order (rs ! i) \<le> account_receipt_order (rs ! j)" using xy(5) at(5,6) by simp
    ultimately show ?thesis unfolding r(2) by order
  next
    case 2
    with rules show ?thesis by (auto simp: admission_rules_def quote_links_def)
  next
    case 3
    then obtain s where "(i, j) \<in> set (chain_pairs (stock_chain cs rs s))" by (auto simp: stock_links_def)
    then obtain x y where xy: "x \<in> set (stock_entries 0 (zip cs rs) s)" "y \<in> set (stock_entries 0 (zip cs rs) s)" "fst x = i" "fst y = j"
      "the (snd x) \<le> the (snd y)" "i \<noteq> j"
      unfolding stock_chain_def by (rule sort_chain_keys [OF _ distinct_entry_positions(2)])
    have "(i, snd x) \<in> set (stock_entries 0 (zip cs rs) s)" "(j, snd y) \<in> set (stock_entries 0 (zip cs rs) s)"
      using xy(1-4) by (metis prod.collapse)+
    then have at: "i < length cs" "j < length cs" "ic_code (cs ! i) = s" "ic_code (cs ! j) = s"
      "snd x = map_option snd (ic_ingress (cs ! i))" "snd y = map_option snd (ic_ingress (cs ! j))"
      unfolding stock_entries_set using len by auto
    then obtain ai si aj sj where "ic_ingress (cs ! i) = Some (ai, si)" "ic_ingress (cs ! j) = Some (aj, sj)" "si \<noteq> sj"
      "comes_before ord i j \<longleftrightarrow> si < sj"
      using rules_stock [OF rules at(1,2) xy(6)] at(3,4) by auto
    with at(5,6) xy(5) show ?thesis by simp
  qed
qed

definition rank_in :: "nat list \<Rightarrow> nat \<Rightarrow> nat" where
  "rank_in ord i = (THE a. a < length ord \<and> ord ! a = i)"

lemma rank_in_nth: "distinct ord \<Longrightarrow> a < length ord \<Longrightarrow> rank_in ord (ord ! a) = a"
  unfolding rank_in_def by (rule the_equality) (auto simp: nth_eq_iff_index_eq)

lemma rank_in_less: "distinct ord \<Longrightarrow> comes_before ord i j \<Longrightarrow> rank_in ord i < rank_in ord j"
  by (auto simp: comes_before_def rank_in_nth)

subsection \<open>The steps succeed\<close>

lemma chain_fold_total:
  assumes "plan_state cs E m p" and len: "\<And>vs. length (F vs) = length vs" and "\<forall>(k, vs)\<in>set gs. (\<forall>x\<in>set (F vs). fst x < length cs)
      \<and> successively (\<lambda>x y. snd x \<noteq> snd y) (F vs)" "m + (\<Sum>g\<leftarrow>gs. length (snd g)) \<le> u64_max"
  shows "\<exists>p'. try_fold (\<lambda>p (_, entries). chain_edges message (F entries) p) p gs = Inr p'"
  using assms(1,3,4)
proof (induction gs arbitrary: E m p)
  case (Cons g gs)
  obtain k vs where g: "g = (k, vs)" by (cases g)
  obtain q where q: "chain_edges message (F vs) p = Inr q"
    using chain_edges_total [OF Cons.prems(1), of "F vs" message] Cons.prems(2,3) len by (auto simp: g)
  have "length (chain_pairs (F vs)) \<le> length vs" using length_chain_pairs [of "F vs"] len by simp
  with Cons.IH [OF conjunct1 [OF chain_edges_state [OF Cons.prems(1) q]]] Cons.prems(2,3) q show ?case by (auto simp: g)
qed simp

lemma stock_fold_total:
  assumes "plan_state cs E m p" "\<forall>(s, vs)\<in>set gs. (\<forall>x\<in>set vs. fst x < length cs) \<and>
      (2 \<le> length vs \<longrightarrow> (\<forall>r\<in>set vs. snd r \<noteq> None) \<and> successively (\<lambda>x y. snd x \<noteq> snd y) (sort_key (\<lambda>r. the (snd r)) vs))"
    "m + (\<Sum>g\<leftarrow>gs. length (snd g)) \<le> u64_max"
  shows "\<exists>p'. try_fold stock_edges p gs = Inr p'"
  using assms
proof (induction gs arbitrary: E m p)
  case (Cons g gs)
  obtain s vs where g: "g = (s, vs)" by (cases g)
  have "\<exists>q. stock_edges p (s, vs) = Inr q"
  proof (cases "length vs < 2")
    case True
    then show ?thesis by (simp add: stock_edges_def)
  next
    case False
    then obtain q where "chain_edges ''conflicting requests share a stock receipt'' (sort_key (\<lambda>r. the (snd r)) vs) p = Inr q"
      using chain_edges_total [OF Cons.prems(1), of "sort_key (\<lambda>r. the (snd r)) vs" "''conflicting requests share a stock receipt''"] Cons.prems(2,3) by (auto simp: g)
    moreover have "\<forall>r\<in>set vs. snd r \<noteq> None" using False Cons.prems(2) by (simp add: g)
    ultimately show ?thesis using False by (simp add: stock_edges_def)
  qed
  then obtain q where q: "stock_edges p (s, vs) = Inr q" by blast
  then obtain E' m' where "plan_state cs E' m' q" "m' \<le> m + length vs" using stock_edges_state [OF Cons.prems(1)] by blast
  with Cons.IH [of E' m' q] Cons.prems(2,3) q show ?case by (auto simp: g)
qed simp

lemma successively_different:
  "distinct (map fst zs) \<Longrightarrow> (\<And>x y. x \<in> set zs \<Longrightarrow> y \<in> set zs \<Longrightarrow> fst x \<noteq> fst y \<Longrightarrow> snd x \<noteq> snd y) \<Longrightarrow> successively (\<lambda>x y. snd x \<noteq> snd y) zs"
proof (induction zs rule: induct_list012)
  case (3 x y zs)
  then show ?case by simp
qed auto

lemma rules_lane_chain:
  assumes rules: "admission_rules cs rs ord" and len: "length rs = length cs"
  shows "successively (\<lambda>x y. snd x \<noteq> snd y) (lane_chain cs rs l)"
proof (rule successively_different)
  show "distinct (map fst (lane_chain cs rs l))"
    unfolding lane_chain_def by (rule distinct_sort_positions [OF distinct_entry_positions(1)])
  fix x y assume "x \<in> set (lane_chain cs rs l)" "y \<in> set (lane_chain cs rs l)" "fst x \<noteq> fst y"
  then have "(fst x, snd x) \<in> set (lane_entries 0 (zip cs rs) l)" "(fst y, snd y) \<in> set (lane_entries 0 (zip cs rs) l)" "fst x \<noteq> fst y"
    by (simp_all add: lane_chain_def)
  then show "snd x \<noteq> snd y" unfolding lane_entries_set using len rules_lane(1) [OF rules, of "fst x" "fst y" l] by auto
qed

lemma rules_stock_chain:
  assumes rules: "admission_rules cs rs ord" and len: "length rs = length cs" and two: "2 \<le> length (stock_entries 0 (zip cs rs) s)"
  shows "\<forall>r\<in>set (stock_entries 0 (zip cs rs) s). snd r \<noteq> None" "successively (\<lambda>x y. snd x \<noteq> snd y) (stock_chain cs rs s)"
proof -
  let ?xs = "stock_entries 0 (zip cs rs) s"
  have pair: "snd x \<noteq> None \<and> snd x \<noteq> snd y" if "x \<in> set ?xs" "y \<in> set ?xs" "fst x \<noteq> fst y" for x y
  proof -
    have "(fst x, snd x) \<in> set ?xs" "(fst y, snd y) \<in> set ?xs" using that by simp_all
    then have at: "fst x < length cs" "fst y < length cs" "ic_code (cs ! fst x) = s" "ic_code (cs ! fst y) = s"
      "snd x = map_option snd (ic_ingress (cs ! fst x))" "snd y = map_option snd (ic_ingress (cs ! fst y))"
      unfolding stock_entries_set using len by auto
    have "ic_code (cs ! fst x) = ic_code (cs ! fst y)" using at(3,4) by simp
    from rules_stock [OF rules at(1,2) that(3) this] at(5,6) show ?thesis by auto
  qed
  show "successively (\<lambda>x y. snd x \<noteq> snd y) (stock_chain cs rs s)"
    by (rule successively_different) (use pair distinct_sort_positions [OF distinct_entry_positions(2)] in \<open>auto simp: stock_chain_def\<close>)
  show "\<forall>r\<in>set ?xs. snd r \<noteq> None"
  proof
    fix x assume x: "x \<in> set ?xs"
    obtain a b zs where xs: "?xs = a # b # zs" using two by (cases ?xs; cases "tl ?xs") auto
    then have "fst a \<noteq> fst b" using distinct_entry_positions(2) [of 0 "zip cs rs" s] by simp
    then have "\<exists>y\<in>set ?xs. fst x \<noteq> fst y" using xs by (cases "fst x = fst a") auto
    with pair x show "snd x \<noteq> None" by blast
  qed
qed

lemma plan_exists:
  assumes rules: "admission_rules cs rs ord" and quotes: "quote_rules cs" and obs: "observe_all cs next_plan = (Inr rs, next_plan')"
    and hash: "\<And>gs. mset (hash_order gs) = mset gs" and size: "2 * length cs + (\<Sum>c\<leftarrow>cs. length (ic_predecessors c)) \<le> u64_max"
  shows "\<exists>plan. prepare_admission hash_order (has_quotes cs) cs next_plan = (Inr plan, next_plan')
    \<and> (\<forall>p. plan = Some p \<longrightarrow> (\<exists>m \<le> u64_max. plan_state cs (plan_links cs rs) m p))"
proof -
  have len: "length rs = length cs" by (rule observe_all_length [OF obs])
  obtain lanes stocks where gs: "collect_groups 0 (zip cs rs) ([], []) = (lanes, stocks)" by (cases "collect_groups 0 (zip cs rs) ([], [])")
  note groups = batch_groups [OF gs len]
  note hashed = same_groups [OF hash groups(1)]
  have in_lane: "fst x < length cs" if "x \<in> set (lane_entries 0 (zip cs rs) l)" for x l
    using that lane_entries_set [of "fst x" "snd x" 0 "zip cs rs" l] len by simp
  have in_stock: "fst x < length cs" if "x \<in> set (stock_entries 0 (zip cs rs) s)" for x s
    using that stock_entries_set [of "fst x" "snd x" 0 "zip cs rs" s] len by simp
  have hgs: "\<forall>(l, vs)\<in>set (hash_order lanes). vs = lane_entries 0 (zip cs rs) l"
    using hashed(1) entries_at_member [OF groups(1)] groups(3) by auto
  have sgs: "\<forall>(s, vs)\<in>set stocks. vs = stock_entries 0 (zip cs rs) s"
    using entries_at_member [OF groups(2)] groups(4) by auto
  show ?thesis
  proof (cases "has_conflicts (has_quotes cs) lanes stocks")
    case False
    then show ?thesis by (simp add: prepare_admission_def obs gs)
  next
    case True
    obtain p1 where p1: "build_resource_edges (hash_order lanes) (empty_plan cs) = Inr p1"
      using chain_fold_total [OF plan_state_empty, of "sort_key (account_receipt_order \<circ> snd)" "hash_order lanes" cs
          "''conflicting requests share an account receipt''"] hgs in_lane rules_lane_chain [OF rules len] hashed(4) groups(5) size
      unfolding build_resource_edges_def lane_chain_def by fastforce
    obtain m1 where s1: "plan_state cs (lane_links cs rs) m1 p1" "m1 \<le> length cs"
      using chain_fold_state [OF plan_state_empty _ p1 [unfolded build_resource_edges_def]] lane_links_groups [OF hash gs len]
        hashed(4) groups(5) by fastforce
    obtain p2 where p2: "(if has_quotes cs then add_quote_dependencies p1 else Inr p1) = Inr p2"
      using add_quote_dependencies_total [OF s1(1) _ _ quotes] s1(2) size by (cases "has_quotes cs") auto
    obtain m2 where s2: "plan_state cs (lane_links cs rs \<union> (if has_quotes cs then quote_links cs else {})) m2 p2"
      "m2 \<le> length cs + (\<Sum>c\<leftarrow>cs. length (ic_predecessors c))"
      using s1 p2 add_quote_dependencies_state(1) [OF s1(1)] by (auto split: if_splits)
    obtain p3 where p3: "try_fold stock_edges p2 stocks = Inr p3"
      using stock_fold_total [OF s2(1), of stocks] sgs in_stock rules_stock_chain [OF rules len] groups(6) size s2(2)
      unfolding stock_chain_def by fastforce
    obtain m3 where s3: "plan_state cs (plan_links cs rs) m3 p3" "m3 \<le> m2 + length cs"
      using stock_fold_state [OF s2(1) p3] stock_links_groups [OF gs len] groups(6) unfolding plan_links_def by auto
    have "prepare_admission hash_order (has_quotes cs) cs next_plan = (Inr (Some p3), next_plan')"
      using True p1 p2 p3 by (simp add: prepare_admission_def obs gs)
    moreover have "m3 \<le> u64_max" using s3(2) s2(2) size by simp
    ultimately show ?thesis using s3(1) by blast
  qed
qed

lemma batch_admitted:
  assumes rules: "admission_rules cs rs ord" and quotes: "quote_rules cs" and obs: "observe_all cs next_plan = (Inr rs, next_plan')"
    and hash: "\<And>gs. mset (hash_order gs) = mset gs" and size: "2 * length cs + (\<Sum>c\<leftarrow>cs. length (ic_predecessors c)) \<le> u64_max"
  shows "\<exists>out. admit_ready_batch hash_order cs next_plan = (Inr out, next_plan')"
proof (cases "length cs < 2 \<and> \<not> has_quotes cs")
  case True
  then show ?thesis by (simp add: admit_unfold obs)
next
  case False
  from plan_exists [OF assms] obtain plan where plan: "prepare_admission hash_order (has_quotes cs) cs next_plan = (Inr plan, next_plan')"
    and state: "\<forall>p. plan = Some p \<longrightarrow> (\<exists>m \<le> u64_max. plan_state cs (plan_links cs rs) m p)" by blast
  show ?thesis
  proof (cases plan)
    case None
    with plan show ?thesis unfolding admit_unfold if_not_P [OF False] by simp
  next
    case (Some p)
    with state obtain m where m: "m \<le> u64_max" "plan_state cs (plan_links cs rs) m p" by blast
    have succs: "length (ap_successors p) = length cs" "length (concat (ap_successors p)) < 2 ^ 64"
      using m by (auto simp: plan_state_def simp del: length_concat)
    have dist: "distinct ord" using rules by (simp add: admission_rules_def)
    have "rank_in ord i < rank_in ord j" if "is_edge (ap_successors p) i j" for i j
      using rank_in_less [OF dist] rules_order_links [OF rules observe_all_length [OF obs]] that m(2) by (simp add: plan_state_def)
    from positions_in_order_complete [where rank = "rank_in ord", OF plan_state_range [OF m(2)] succs(2) this] obtain out where
      out: "positions_in_order (length cs) (ap_successors p) = Inr out" "respects_edges (ap_successors p) out" "set out = {..<length cs}"
      using succs(1) by auto
    from finish_layout_order [OF m(2) out(2,3,1)] plan Some show ?thesis unfolding admit_unfold if_not_P [OF False] by simp
  qed
qed

lemma admitted_quote_rules:
  assumes adm: "admit_ready_batch hash_order cs next_plan = (Inr out, next_plan')" and hash: "\<And>gs. mset (hash_order gs) = mset gs"
  shows "quote_rules cs"
proof (cases "has_quotes cs")
  case True
  then have small: "\<not> (length cs < 2 \<and> \<not> has_quotes cs)" by simp
  from adm obtain plan s where plan: "prepare_admission hash_order (has_quotes cs) cs next_plan = (Inr plan, s)"
    unfolding admit_unfold if_not_P [OF small] try_st_ok_iff by blast
  obtain rs where rs: "observe_all cs next_plan = (Inr rs, s)" using prepare_observed [OF plan] by blast
  obtain lanes stocks where gs: "collect_groups 0 (zip cs rs) ([], []) = (lanes, stocks)" by (cases "collect_groups 0 (zip cs rs) ([], [])")
  have "bind_result (build_resource_edges (hash_order lanes) (empty_plan cs)) (\<lambda>p1. bind_result (add_quote_dependencies p1) (\<lambda>p2.
      bind_result (try_fold stock_edges p2 stocks) (\<lambda>p3. Inr (Some p3)))) = Inr plan"
    using plan True by (simp add: prepare_admission_def rs gs has_conflicts_def)
  then obtain p1 p2 where p1: "build_resource_edges (hash_order lanes) (empty_plan cs) = Inr p1" and p2: "add_quote_dependencies p1 = Inr p2"
    unfolding bind_result_Inr_iff by blast
  obtain m1 where "plan_state cs ({} \<union> (\<Union>(k, vs)\<in>set (hash_order lanes). set (chain_pairs (sort_key (account_receipt_order \<circ> snd) vs)))) m1 p1"
    using chain_fold_state [OF plan_state_empty _ p1 [unfolded build_resource_edges_def]] by auto
  from add_quote_dependencies_rules [OF this p2] show ?thesis .
qed (simp add: quote_rules_def)

end
