(* ===== verification/Saved_Requests.thy ===== *)
theory Saved_Requests
  imports Admission_Exists
begin

section \<open>The requests in a save (session/persistence.rs)\<close>

text \<open>
  A save holds the requests of players that no tick has used, with the cursors of the receipts. Loading it
  checks that every receipt was given by those cursors and only once, and that the requests can be put in an
  order: the graph of the admission is built again, with sets of successors, and must have no cycle.
\<close>

subsection \<open>Receipts\<close>

fun check_pending_receipts ::
    "ingress_cursors \<Rightarrow> (account_id \<times> nat) list \<Rightarrow> (stock_id \<times> nat) list \<Rightarrow> received_intent list \<Rightarrow> session_error + unit" where
  "check_pending_receipts cu accounts stocks [] = Inr ()"
| "check_pending_receipts cu accounts stocks (r # rs) =
    bind_result (ok_or (InvalidSave 2072 [ri_owner r]) (map_of (cu_account cu) (ri_owner r))) (\<lambda>next_account.
      if next_account \<le> ri_account_ordinal r \<or> (ri_owner r, ri_account_ordinal r) \<in> set accounts
      then Inl (InvalidSave 2073 [ri_owner r])
      else bind_result (ok_or (InvalidSave 2074 [ri_code r]) (map_of (cu_stock cu) (ri_code r))) (\<lambda>next_stock.
        if next_stock \<le> ri_stock_ordinal r \<or> (ri_code r, ri_stock_ordinal r) \<in> set stocks
        then Inl (InvalidSave 2075 [ri_code r])
        else check_pending_receipts cu ((ri_owner r, ri_account_ordinal r) # accounts) ((ri_code r, ri_stock_ordinal r) # stocks) rs))"

subsection \<open>Order\<close>

text \<open>Lanes in the order the derived comparison gives them: cash before shares, then account and stock.\<close>

fun lane_key :: "resource_lane \<Rightarrow> nat \<times> account_id \<times> stock_id" where
  "lane_key (CashLane a) = (0, a, 0)"
| "lane_key (SharesLane a c) = (1, a, c)"

lemma lane_key_inject: "lane_key x = lane_key y \<Longrightarrow> x = y"
  by (cases x; cases y) auto

instantiation resource_lane :: linorder
begin

definition less_eq_resource_lane :: "resource_lane \<Rightarrow> resource_lane \<Rightarrow> bool" where
  "less_eq_resource_lane x y \<longleftrightarrow> lane_key x \<le> lane_key y"

definition less_resource_lane :: "resource_lane \<Rightarrow> resource_lane \<Rightarrow> bool" where
  "less_resource_lane x y \<longleftrightarrow> lane_key x < lane_key y"

instance
  by standard (auto simp: less_eq_resource_lane_def less_resource_lane_def dest: lane_key_inject)

end

type_synonym 'k receipt_groups = "('k, (nat \<times> nat) list) bt"

fun saved_groups :: "nat \<Rightarrow> received_intent list \<Rightarrow> resource_lane receipt_groups \<times> stock_id receipt_groups \<Rightarrow>
    resource_lane receipt_groups \<times> stock_id receipt_groups" where
  "saved_groups i [] gs = gs"
| "saved_groups i (r # rs) (lanes, stocks) = saved_groups (i + 1) rs
    (case intent_lane (ri_owner r) (ri_intent r) of None \<Rightarrow> lanes | Some l \<Rightarrow> push_sorted l (i, ri_account_ordinal r) lanes,
     push_sorted (ri_code r) (i, ri_stock_ordinal r) stocks)"

definition set_insert :: "nat \<Rightarrow> nat list \<Rightarrow> nat list" where
  "set_insert j js = (if j \<in> set js then js else insort j js)"

text \<open>Linking the neighbours of each lane and each stock, sorted by their receipts.\<close>

fun insert_edges :: "(nat \<times> nat) list \<Rightarrow> nat list list \<Rightarrow> nat list list" where
  "insert_edges [] edges = edges"
| "insert_edges ((i, j) # ps) edges = insert_edges ps (edges[i := set_insert j (edges ! i)])"

definition group_pairs :: "'k receipt_groups \<Rightarrow> (nat \<times> nat) list" where
  "group_pairs gs = concat (map (\<lambda>(_, entries). chain_pairs (sort_key snd entries)) gs)"

definition saved_edges :: "received_intent list \<Rightarrow> nat list list" where
  "saved_edges rs = (case saved_groups 0 rs ([], []) of (lanes, stocks) \<Rightarrow>
     insert_edges (group_pairs lanes @ group_pairs stocks) (replicate (length rs) []))"

definition validate_pending_receipt_order :: "received_intent list \<Rightarrow> session_error + unit" where
  "validate_pending_receipt_order rs = (case positions_in_order (length rs) (saved_edges rs) of
      Inl CountOverflow \<Rightarrow> Inl (InvalidSave 2082 [])
    | Inl CountUnderflow \<Rightarrow> Inl (InvalidSave 2083 [])
    | Inl IndexPanic \<Rightarrow> Inl (SessionStep (StepPanic ''index out of bounds''))
    | Inr visited \<Rightarrow> if length visited \<noteq> length rs then Inl (InvalidSave 2084 []) else Inr ())"

definition validate_saved_requests :: "saved_requests \<Rightarrow> session_error + unit" where
  "validate_saved_requests sv =
    (if \<exists>r\<in>set (sv_pending sv). ri_owner r \<noteq> 0 then Inl (InvalidSave 2067 [])
     else bind_result (check_pending_receipts (sv_cursors sv) [] [] (sv_pending sv)) (\<lambda>_. validate_pending_receipt_order (sv_pending sv)))"

subsection \<open>What the groups hold\<close>

definition saved_lane :: "nat \<Rightarrow> received_intent list \<Rightarrow> resource_lane \<Rightarrow> (nat \<times> nat) list" where
  "saved_lane n rs l = map (\<lambda>(i, r). (i, ri_account_ordinal r)) (filter (\<lambda>(i, r). intent_lane (ri_owner r) (ri_intent r) = Some l) (enumerate n rs))"

definition saved_stock :: "nat \<Rightarrow> received_intent list \<Rightarrow> stock_id \<Rightarrow> (nat \<times> nat) list" where
  "saved_stock n rs s = map (\<lambda>(i, r). (i, ri_stock_ordinal r)) (filter (\<lambda>(i, r). ri_code r = s) (enumerate n rs))"

definition groups_of_save :: "nat \<Rightarrow> received_intent list \<Rightarrow> resource_lane receipt_groups \<times> stock_id receipt_groups \<Rightarrow>
    resource_lane receipt_groups \<times> stock_id receipt_groups \<Rightarrow> bool" where
  "groups_of_save n rs g g' \<longleftrightarrow> bt_sorted (fst g') \<and> bt_sorted (snd g')
    \<and> (\<forall>l. entries_at (fst g') l = entries_at (fst g) l @ saved_lane n rs l)
    \<and> (\<forall>s. entries_at (snd g') s = entries_at (snd g) s @ saved_stock n rs s)
    \<and> (\<Sum>x\<leftarrow>fst g'. length (snd x)) \<le> (\<Sum>x\<leftarrow>fst g. length (snd x)) + length rs
    \<and> (\<Sum>x\<leftarrow>snd g'. length (snd x)) = (\<Sum>x\<leftarrow>snd g. length (snd x)) + length rs"

lemma saved_groups_spec:
  assumes "bt_sorted lanes" "bt_sorted stocks"
  shows "groups_of_save n rs (lanes, stocks) (saved_groups n rs (lanes, stocks))"
  using assms
proof (induction rs arbitrary: n lanes stocks)
  case (Cons r rs)
  define lanes1 where "lanes1 = (case intent_lane (ri_owner r) (ri_intent r) of None \<Rightarrow> lanes | Some l \<Rightarrow> push_sorted l (n, ri_account_ordinal r) lanes)"
  define stocks1 where "stocks1 = push_sorted (ri_code r) (n, ri_stock_ordinal r) stocks"
  have keys: "bt_sorted lanes1" "bt_sorted stocks1"
    using Cons.prems push_sorted_props(1) by (auto simp: lanes1_def stocks1_def split: option.splits)
  have lane: "entries_at lanes1 l @ saved_lane (Suc n) rs l = entries_at lanes l @ saved_lane n (r # rs) l" for l
    using Cons.prems(1) by (auto simp: lanes1_def saved_lane_def push_sorted_props(2) split: option.splits)
  have stock: "entries_at stocks1 s @ saved_stock (Suc n) rs s = entries_at stocks s @ saved_stock n (r # rs) s" for s
    using Cons.prems(2) by (auto simp: stocks1_def saved_stock_def push_sorted_props(2))
  have sizes: "(\<Sum>x\<leftarrow>lanes1. length (snd x)) \<le> (\<Sum>x\<leftarrow>lanes. length (snd x)) + 1"
    "(\<Sum>x\<leftarrow>stocks1. length (snd x)) = (\<Sum>x\<leftarrow>stocks. length (snd x)) + 1"
    using Cons.prems by (auto simp: lanes1_def stocks1_def push_sorted_props(3) split: option.splits)
  have "saved_groups n (r # rs) (lanes, stocks) = saved_groups (Suc n) rs (lanes1, stocks1)" by (simp add: lanes1_def stocks1_def)
  with Cons.IH [OF keys, of "Suc n"] show ?case using lane stock sizes unfolding groups_of_save_def by auto
qed (auto simp: groups_of_save_def saved_lane_def saved_stock_def)

lemma saved_lane_set: "(i, a) \<in> set (saved_lane n rs l) \<longleftrightarrow> n \<le> i \<and> i < n + length rs
    \<and> intent_lane (ri_owner (rs ! (i - n))) (ri_intent (rs ! (i - n))) = Some l \<and> a = ri_account_ordinal (rs ! (i - n))"
  by (force simp: saved_lane_def in_set_enumerate_eq)

lemma saved_stock_set: "(i, a) \<in> set (saved_stock n rs s) \<longleftrightarrow> n \<le> i \<and> i < n + length rs
    \<and> ri_code (rs ! (i - n)) = s \<and> a = ri_stock_ordinal (rs ! (i - n))"
  by (force simp: saved_stock_def in_set_enumerate_eq)

lemma distinct_saved_positions: "distinct (map fst (saved_lane n rs l))" "distinct (map fst (saved_stock n rs s))"
proof -
  have "distinct (map fst (filter P (enumerate n rs)))" for P
    by (rule distinct_map_filter) simp
  moreover have "map fst (saved_lane n rs l) = map fst (filter (\<lambda>(i, r). intent_lane (ri_owner r) (ri_intent r) = Some l) (enumerate n rs))"
    "map fst (saved_stock n rs s) = map fst (filter (\<lambda>(i, r). ri_code r = s) (enumerate n rs))"
    by (simp_all add: saved_lane_def saved_stock_def comp_def case_prod_beta')
  ultimately show "distinct (map fst (saved_lane n rs l))" "distinct (map fst (saved_stock n rs s))" by simp_all
qed

subsection \<open>The edges\<close>

lemma set_insert_props: "set (set_insert j js) = insert j (set js)" "length (set_insert j js) \<le> Suc (length js)"
  by (auto simp: set_insert_def set_insort_key)

lemma length_concat_le: "i < length xss \<Longrightarrow> length ys \<le> Suc (length (xss ! i)) \<Longrightarrow> length (concat (xss[i := ys])) \<le> Suc (length (concat xss))"
proof (induction xss arbitrary: i)
  case (Cons xs xss)
  show ?case
  proof (cases i)
    case 0
    with Cons.prems show ?thesis by simp
  next
    case (Suc k)
    with Cons.IH [of k] Cons.prems show ?thesis by (simp del: length_concat)
  qed
qed simp

lemma insert_edges_props:
  assumes "\<forall>(i, j)\<in>set ps. i < length es \<and> j < length es"
  shows "length (insert_edges ps es) = length es"
    "is_edge (insert_edges ps es) i j \<longleftrightarrow> is_edge es i j \<or> (i, j) \<in> set ps"
    "length (concat (insert_edges ps es)) \<le> length (concat es) + length ps"
proof -
  show "length (insert_edges ps es) = length es" for ps es by (induction ps es rule: insert_edges.induct) auto
  show "is_edge (insert_edges ps es) i j \<longleftrightarrow> is_edge es i j \<or> (i, j) \<in> set ps"
    using assms
  proof (induction ps es rule: insert_edges.induct)
    case (2 a b ps es)
    have "is_edge (es[a := set_insert b (es ! a)]) i j \<longleftrightarrow> is_edge es i j \<or> (i, j) = (a, b)"
      using 2(2) by (auto simp: is_edge_def nth_list_update set_insert_props)
    with 2 show ?case by auto
  qed simp
  show "length (concat (insert_edges ps es)) \<le> length (concat es) + length ps"
    using assms
  proof (induction ps es rule: insert_edges.induct)
    case (2 a b ps es)
    have "length (concat (es[a := set_insert b (es ! a)])) \<le> Suc (length (concat es))"
      using 2(2) set_insert_props(2) by (intro length_concat_le) auto
    with 2 show ?case by (auto simp del: length_concat)
  qed simp
qed

lemma group_pairs_set:
  assumes "bt_sorted gs" "\<And>k. entries_at gs k = f k"
  shows "set (group_pairs gs) = (\<Union>k. set (chain_pairs (sort_key snd (f k))))"
  using chains_of_groups [OF bt_sorted_distinct [OF assms(1)] assms(2), of "sort_key snd"]
  by (simp add: group_pairs_def case_prod_beta')

lemma length_group_pairs: "length (group_pairs gs) \<le> (\<Sum>x\<leftarrow>gs. length (snd x))"
proof (induction gs)
  case (Cons g gs)
  have "length (chain_pairs (sort_key snd (snd g))) \<le> length (snd g)"
    using length_chain_pairs [of "sort_key snd (snd g)"] by simp
  with Cons show ?case by (auto simp: group_pairs_def case_prod_beta' simp del: length_concat)
qed (simp add: group_pairs_def)

definition saved_links :: "received_intent list \<Rightarrow> (nat \<times> nat) set" where
  "saved_links rs = (\<Union>l. set (chain_pairs (sort_key snd (saved_lane 0 rs l)))) \<union> (\<Union>s. set (chain_pairs (sort_key snd (saved_stock 0 rs s))))"

lemma saved_edges_props:
  "length (saved_edges rs) = length rs" "is_edge (saved_edges rs) i j \<longleftrightarrow> (i, j) \<in> saved_links rs"
  "edges_in_range (saved_edges rs)" "length (concat (saved_edges rs)) \<le> 2 * length rs"
proof -
  obtain lanes stocks where gs: "saved_groups 0 rs ([], []) = (lanes, stocks)" by (cases "saved_groups 0 rs ([], [])")
  have g: "bt_sorted lanes" "bt_sorted stocks" "\<And>l. entries_at lanes l = saved_lane 0 rs l" "\<And>s. entries_at stocks s = saved_stock 0 rs s"
    "(\<Sum>x\<leftarrow>lanes. length (snd x)) \<le> length rs" "(\<Sum>x\<leftarrow>stocks. length (snd x)) = length rs"
    using saved_groups_spec [of "[]" "[]" 0 rs] by (auto simp: gs groups_of_save_def entries_at_def)
  let ?ps = "group_pairs lanes @ group_pairs stocks"
  have ps: "set ?ps = saved_links rs" using group_pairs_set [OF g(1,3)] group_pairs_set [OF g(2,4)] by (simp add: saved_links_def)
  have range: "i < length rs \<and> j < length rs" if "(i, j) \<in> saved_links rs" for i j
  proof -
    from that consider l where "(i, j) \<in> set (chain_pairs (sort_key snd (saved_lane 0 rs l)))"
      | s where "(i, j) \<in> set (chain_pairs (sort_key snd (saved_stock 0 rs s)))" by (auto simp: saved_links_def)
    then show ?thesis
    proof cases
      case 1
      from chain_pairs_range [OF this] show ?thesis by (auto simp: saved_lane_set)
    next
      case 2
      from chain_pairs_range [OF this] show ?thesis by (auto simp: saved_stock_set)
    qed
  qed
  have es: "saved_edges rs = insert_edges ?ps (replicate (length rs) [])" by (simp add: saved_edges_def gs)
  have ok: "\<forall>(i, j)\<in>set ?ps. i < length (replicate (length rs) ([] :: nat list)) \<and> j < length (replicate (length rs) ([] :: nat list))"
    using range unfolding ps by auto
  note props = insert_edges_props [OF ok]
  show len: "length (saved_edges rs) = length rs" using props(1) by (simp add: es)
  show edge: "is_edge (saved_edges rs) i j \<longleftrightarrow> (i, j) \<in> saved_links rs" for i j
  proof -
    have "\<not> is_edge (replicate (length rs) ([] :: nat list)) i j" by (simp add: is_edge_def)
    then show ?thesis using props(2) [of i j] unfolding es ps by blast
  qed
  show "edges_in_range (saved_edges rs)"
    unfolding edges_in_range_def
  proof (intro ballI)
    fix ds d assume "ds \<in> set (saved_edges rs)" "d \<in> set ds"
    then obtain i where "is_edge (saved_edges rs) i d" by (auto simp: is_edge_def in_set_conv_nth)
    with range edge len show "d < length (saved_edges rs)" by auto
  qed
  have "length (concat (saved_edges rs)) \<le> length ?ps" using props(3) unfolding es by (simp del: length_concat)
  also have "\<dots> \<le> 2 * length rs" using length_group_pairs [of lanes] length_group_pairs [of stocks] g(5,6) by simp
  finally show "length (concat (saved_edges rs)) \<le> 2 * length rs" .
qed

end
