(* ===== verification/Ingress_Delivery.thy ===== *)
theory Ingress_Delivery
  imports Shared_Ingress "HOL-Library.Sublist"
begin

section \<open>What the readers of the shared queue are handed\<close>

text \<open>
  The queue as a step relation. Threads that hand in requests, threads that read, forks and drops of readers,
  failures and closing come in any order; reading is two steps, the snapshot under the lock and the store of
  the new position, between which other threads can go on. Beside the state runs a record of what happened:
  the inputs accepted so far, all the receipts given, what each reader has been handed, and the snapshots
  whose positions have not been stored yet.
\<close>

record ingress_run =
  run_log :: "received_intent list"
  run_issued :: "received_intent list"
  run_taken :: "nat \<rightharpoonup> received_intent list"
  run_flight :: "nat \<rightharpoonup> received_intent list \<times> ingress_cursors \<times> nat"

definition run_start :: ingress_run where
  "run_start = \<lparr>run_log = [], run_issued = [], run_taken = [0 \<mapsto> []], run_flight = Map.empty\<rparr>"

definition run_accept :: "received_intent \<Rightarrow> ingress_run \<Rightarrow> ingress_run" where
  "run_accept r h = h\<lparr>run_log := run_log h @ [r], run_issued := run_issued h @ [r]\<rparr>"

inductive ingress_step :: "ingress \<times> ingress_run \<Rightarrow> ingress \<times> ingress_run \<Rightarrow> bool" where
  enqueued: "enqueue_player_intent a i g = (Inr u, g') \<Longrightarrow> ingress_step (g, h) (g', run_accept (snd (last (ig_inputs g'))) h)"
| enqueue_refused: "enqueue_player_intent a i g = (Inl err, g') \<Longrightarrow> ingress_step (g, h) (g', h)"
| private_received: "receive_private a i g = (Inr r, g') \<Longrightarrow> ingress_step (g, h) (g', h\<lparr>run_issued := run_issued h @ [r]\<rparr>)"
| private_refused: "receive_private a i g = (Inl err, g') \<Longrightarrow> ingress_step (g, h) (g', h)"
| registered: "register_player a g = (res, g') \<Longrightarrow> ingress_step (g, h) (g', h)"
| progressed: "update_runtime_progress t n g = (res, g') \<Longrightarrow> ingress_step (g, h) (g', h)"
| published: "ingress_step (g, h) (publish_terminal fatal g, h)"
| shut: "close_ingress g = (res, g') \<Longrightarrow> ingress_step (g, h) (g', h)"
| poisoned: "ingress_step (g, h) (g\<lparr>ig_poisoned := True\<rparr>, h)"
| forked: "ig_cells g r \<noteq> None \<Longrightarrow> run_flight h r = None \<Longrightarrow> fork_reader r g = (Inr r', g') \<Longrightarrow>
    ingress_step (g, h) (g', h\<lparr>run_taken := (run_taken h)(r' := run_taken h r)\<rparr>)"
| fork_refused: "fork_reader r g = (Inl err, g') \<Longrightarrow> ingress_step (g, h) (g', h)"
| dropped: "run_flight h r = None \<Longrightarrow> ingress_step (g, h) (drop_reader r g, h\<lparr>run_taken := (run_taken h)(r := None)\<rparr>)"
| looked: "ig_cells g r \<noteq> None \<Longrightarrow> reader_snapshot r g = (res, g') \<Longrightarrow> ingress_step (g, h) (g', h)"
| snapshot: "ig_cells g r \<noteq> None \<Longrightarrow> run_flight h r = None \<Longrightarrow> reader_snapshot r g = (Inr shot, g') \<Longrightarrow>
    ingress_step (g, h) (g', h\<lparr>run_flight := (run_flight h)(r \<mapsto> shot)\<rparr>)"
| stored: "run_flight h r = Some (inputs, cu, cutoff) \<Longrightarrow> run_taken h r = Some had \<Longrightarrow>
    ingress_step (g, h) (store_taken r cutoff g, h\<lparr>run_taken := (run_taken h)(r \<mapsto> had @ inputs), run_flight := (run_flight h)(r := None)\<rparr>)"

inductive ingress_reachable :: "session_intake \<Rightarrow> ingress \<times> ingress_run \<Rightarrow> bool" for s where
  opened: "ingress_reachable s (open_ingress s, run_start)"
| step: "ingress_reachable s x \<Longrightarrow> ingress_step x y \<Longrightarrow> ingress_reachable s y"

subsection \<open>The queue is the part of the log that some reader may still need\<close>

lemma dropWhile_enumerate: "dropWhile (\<lambda>(i, _). i < m) (enumerate n xs) = enumerate (max n m) (drop (m - n) xs)"
proof (induction xs arbitrary: n)
  case (Cons x xs)
  show ?case
  proof (cases "n < m")
    case True
    then have "m - n = Suc (m - Suc n)" "max (Suc n) m = max n m" by auto
    with True Cons.IH [of "Suc n"] show ?thesis by simp
  qed (simp add: max_def)
qed simp

lemma filter_enumerate: "map snd (filter (\<lambda>(i, _). c \<le> i) (enumerate n xs)) = drop (c - n) xs"
proof (induction xs arbitrary: n)
  case (Cons x xs)
  show ?case
  proof (cases "c \<le> n")
    case True
    then have "c - Suc n = 0" "c - n = 0" by auto
    with True Cons.IH [of "Suc n"] show ?thesis by simp
  next
    case False
    then have "c - n = Suc (c - Suc n)" by auto
    with False Cons.IH [of "Suc n"] show ?thesis by simp
  qed
qed simp

lemma enumerate_snoc: "enumerate n (xs @ [x]) = enumerate n xs @ [(n + length xs, x)]"
  by (induction xs arbitrary: n) auto

lemma fold_min_le: "fold (\<lambda>r m. min m (f r)) rs a \<le> (a::nat) \<and> (\<forall>r\<in>set rs. fold (\<lambda>r m. min m (f r)) rs a \<le> f r)"
proof (induction rs arbitrary: a)
  case (Cons r rs)
  from Cons [of "min a (f r)"] show ?case by auto
qed simp

definition ingress_ok :: "ingress_cursors \<Rightarrow> ingress \<Rightarrow> ingress_run \<Rightarrow> bool" where
  "ingress_ok cu0 g h \<longleftrightarrow> cursors_ok (ig_receipts g) \<and> receipts_between cu0 (run_issued h) (ig_receipts g)
    \<and> subseq (run_log h) (run_issued h) \<and> ig_next_input g = length (run_log h)
    \<and> (\<exists>k. ig_inputs g = enumerate k (drop k (run_log h)) \<and> k \<le> length (run_log h) \<and> (\<forall>r c. ig_cells g r = Some c \<longrightarrow> k \<le> c))
    \<and> dom (ig_cells g) \<subseteq> set (ig_readers g) \<and> (\<forall>r\<in>set (ig_readers g). r < ig_fresh g)
    \<and> (\<forall>r c. ig_cells g r = Some c \<longrightarrow> c \<le> length (run_log h) \<and> run_taken h r = Some (take c (run_log h)))
    \<and> (\<forall>r inputs cu cutoff. run_flight h r = Some (inputs, cu, cutoff) \<longrightarrow> (\<exists>c. ig_cells g r = Some c \<and> c \<le> cutoff \<and>
         cutoff \<le> length (run_log h) \<and> inputs = drop c (take cutoff (run_log h))))"

lemma ingress_okI:
  assumes "cursors_ok (ig_receipts g)" "receipts_between cu0 (run_issued h) (ig_receipts g)"
    "subseq (run_log h) (run_issued h)" "ig_next_input g = length (run_log h)"
    "ig_inputs g = enumerate k (drop k (run_log h))" "k \<le> length (run_log h)" "\<And>r c. ig_cells g r = Some c \<Longrightarrow> k \<le> c"
    "dom (ig_cells g) \<subseteq> set (ig_readers g)" "\<forall>r\<in>set (ig_readers g). r < ig_fresh g"
    "\<And>r c. ig_cells g r = Some c \<Longrightarrow> c \<le> length (run_log h) \<and> run_taken h r = Some (take c (run_log h))"
    "\<And>r inputs cu cutoff. run_flight h r = Some (inputs, cu, cutoff) \<Longrightarrow> \<exists>c. ig_cells g r = Some c \<and> c \<le> cutoff \<and>
         cutoff \<le> length (run_log h) \<and> inputs = drop c (take cutoff (run_log h))"
  shows "ingress_ok cu0 g h"
  using assms unfolding ingress_ok_def by blast

lemma ingress_okE:
  assumes "ingress_ok cu0 g h"
  obtains k where "cursors_ok (ig_receipts g)" "receipts_between cu0 (run_issued h) (ig_receipts g)"
    "subseq (run_log h) (run_issued h)" "ig_next_input g = length (run_log h)"
    "ig_inputs g = enumerate k (drop k (run_log h))" "k \<le> length (run_log h)" "\<And>r c. ig_cells g r = Some c \<Longrightarrow> k \<le> c"
    "dom (ig_cells g) \<subseteq> set (ig_readers g)" "\<forall>r\<in>set (ig_readers g). r < ig_fresh g"
    "\<And>r c. ig_cells g r = Some c \<Longrightarrow> c \<le> length (run_log h) \<and> run_taken h r = Some (take c (run_log h))"
    "\<And>r inputs cu cutoff. run_flight h r = Some (inputs, cu, cutoff) \<Longrightarrow> \<exists>c. ig_cells g r = Some c \<and> c \<le> cutoff \<and>
         cutoff \<le> length (run_log h) \<and> inputs = drop c (take cutoff (run_log h))"
  using assms unfolding ingress_ok_def by blast

text \<open>Steps that leave the queue, the receipts and the readers alone.\<close>

definition same_queue :: "ingress \<Rightarrow> ingress \<Rightarrow> bool" where
  "same_queue g g' \<longleftrightarrow> ig_receipts g' = ig_receipts g \<and> ig_next_input g' = ig_next_input g \<and> ig_inputs g' = ig_inputs g
    \<and> ig_readers g' = ig_readers g \<and> ig_cells g' = ig_cells g \<and> ig_fresh g \<le> ig_fresh g'"

lemma ingress_ok_same: "ingress_ok cu0 g h \<Longrightarrow> same_queue g g' \<Longrightarrow> ingress_ok cu0 g' h"
  unfolding ingress_ok_def same_queue_def by (elim conjE, intro conjI) (simp_all, meson less_le_trans)

lemma refusals_same_queue:
  "enqueue_player_intent a i g = (Inl err, g') \<Longrightarrow> same_queue g g'"
  "receive_private a i g = (Inl err, g') \<Longrightarrow> same_queue g g'"
  "register_player a g = (res, g') \<Longrightarrow> same_queue g g'"
  "update_runtime_progress t n g = (res2, g') \<Longrightarrow> same_queue g g'"
  "close_ingress g = (res3, g') \<Longrightarrow> same_queue g g'"
  "fork_reader r g = (Inl err, g') \<Longrightarrow> same_queue g g'"
  "same_queue g (publish_terminal fatal g)"
  "same_queue g (g\<lparr>ig_poisoned := True\<rparr>)"
  by (auto simp: same_queue_def enqueue_player_intent_def receive_private_def register_player_def update_runtime_progress_def
      close_ingress_def fork_reader_def publish_terminal_def try_in_def ok_or_def Let_def dest: receive_intent_error
      split: sum.splits if_splits option.splits prod.splits)

subsection \<open>One step\<close>

lemma enqueue_accepts:
  assumes "enqueue_player_intent a i g = (Inr u, g')"
  obtains r cu where "receive_intent a i (ig_receipts g) = (Inr r, cu)"
    "g' = g\<lparr>ig_receipts := cu, ig_next_input := ig_next_input g + 1, ig_inputs := ig_inputs g @ [(ig_next_input g, r)]\<rparr>"
  using assms by (auto simp: enqueue_player_intent_def try_in_def ok_or_def split: sum.splits if_splits option.splits prod.splits)

lemma ingress_ok_enqueue:
  assumes "ingress_ok cu0 g h" "enqueue_player_intent a i g = (Inr u, g')"
  shows "ingress_ok cu0 g' (run_accept (snd (last (ig_inputs g'))) h)"
proof -
  obtain k where k: "cursors_ok (ig_receipts g)" "receipts_between cu0 (run_issued h) (ig_receipts g)"
    "subseq (run_log h) (run_issued h)" "ig_next_input g = length (run_log h)"
    "ig_inputs g = enumerate k (drop k (run_log h))" "k \<le> length (run_log h)" "\<And>r c. ig_cells g r = Some c \<Longrightarrow> k \<le> c"
    "dom (ig_cells g) \<subseteq> set (ig_readers g)" "\<forall>r\<in>set (ig_readers g). r < ig_fresh g"
    "\<And>r c. ig_cells g r = Some c \<Longrightarrow> c \<le> length (run_log h) \<and> run_taken h r = Some (take c (run_log h))"
    "\<And>r inputs cu cutoff. run_flight h r = Some (inputs, cu, cutoff) \<Longrightarrow> \<exists>c. ig_cells g r = Some c \<and> c \<le> cutoff \<and>
         cutoff \<le> length (run_log h) \<and> inputs = drop c (take cutoff (run_log h))"
    using assms(1) by (rule ingress_okE) blast
  obtain r cu where r: "receive_intent a i (ig_receipts g) = (Inr r, cu)"
    "g' = g\<lparr>ig_receipts := cu, ig_next_input := ig_next_input g + 1, ig_inputs := ig_inputs g @ [(ig_next_input g, r)]\<rparr>"
    using assms(2) by (rule enqueue_accepts)
  show ?thesis
  proof (rule ingress_okI [where k = k])
    show "receipts_between cu0 (run_issued (run_accept (snd (last (ig_inputs g'))) h)) (ig_receipts g')"
      using receipts_between_receive [OF k(2,1) r(1)] r(2) by (simp add: run_accept_def)
    show "ig_inputs g' = enumerate k (drop k (run_log (run_accept (snd (last (ig_inputs g'))) h)))"
      using r(2) k(4,5,6) by (simp add: run_accept_def enumerate_snoc)
    show "\<exists>c. ig_cells g' x = Some c \<and> c \<le> cutoff \<and> cutoff \<le> length (run_log (run_accept (snd (last (ig_inputs g'))) h)) \<and>
        inputs = drop c (take cutoff (run_log (run_accept (snd (last (ig_inputs g'))) h)))"
      if "run_flight (run_accept (snd (last (ig_inputs g'))) h) x = Some (inputs, cu', cutoff)" for x inputs cu' cutoff
      using k(11) [of x inputs cu' cutoff] that r(2) by (auto simp: run_accept_def)
    show "c \<le> length (run_log (run_accept (snd (last (ig_inputs g'))) h)) \<and>
        run_taken (run_accept (snd (last (ig_inputs g'))) h) x = Some (take c (run_log (run_accept (snd (last (ig_inputs g'))) h)))"
      if "ig_cells g' x = Some c" for x c
      using k(10) [of x c] that r(2) by (auto simp: run_accept_def)
  qed (use k r receive_intent_ok(2) [OF r(1) k(1)] in \<open>auto simp: run_accept_def intro: list_emb_append_mono\<close>)
qed

lemma ingress_ok_private:
  assumes "ingress_ok cu0 g h" "receive_private a i g = (Inr r, g')"
  shows "ingress_ok cu0 g' (h\<lparr>run_issued := run_issued h @ [r]\<rparr>)"
proof -
  obtain cu where r: "receive_intent a i (ig_receipts g) = (Inr r, cu)" "g' = g\<lparr>ig_receipts := cu\<rparr>"
    using assms(2) by (auto simp: receive_private_def try_in_def split: sum.splits if_splits prod.splits)
  have ok: "cursors_ok (ig_receipts g)" "receipts_between cu0 (run_issued h) (ig_receipts g)" using assms(1) by (simp_all add: ingress_ok_def)
  show ?thesis using assms(1) r receive_intent_ok(2) [OF r(1) ok(1)] receipts_between_receive [OF ok(2,1) r(1)]
    unfolding ingress_ok_def by (auto intro: subseq_rev_drop_many)
qed

lemma ingress_ok_fork:
  assumes "ingress_ok cu0 g h" "ig_cells g r \<noteq> None" "fork_reader r g = (Inr r', g')"
  shows "ingress_ok cu0 g' (h\<lparr>run_taken := (run_taken h)(r' := run_taken h r)\<rparr>)"
proof -
  obtain c where c: "ig_cells g r = Some c" using assms(2) by blast
  have g': "r' = ig_fresh g" "g' = g\<lparr>ig_fresh := ig_fresh g + 1, ig_cells := (ig_cells g)(ig_fresh g \<mapsto> c), ig_readers := ig_readers g @ [ig_fresh g]\<rparr>"
    using assms(3) c by (auto simp: fork_reader_def Let_def try_in_def the_cell_def split: sum.splits)
  have "ig_cells g (ig_fresh g) = None" using assms(1) unfolding ingress_ok_def by (meson domIff less_irrefl subsetD)
  moreover from this have "run_flight h (ig_fresh g) = None"
    using assms(1) unfolding ingress_ok_def by (cases "run_flight h (ig_fresh g)") (simp_all, metis option.distinct(1) prod_cases3)
  ultimately show ?thesis using assms(1) c g' unfolding ingress_ok_def by (auto simp: less_Suc_eq)
qed

lemma ingress_ok_drop:
  assumes "ingress_ok cu0 g h" "run_flight h r = None"
  shows "ingress_ok cu0 (drop_reader r g) (h\<lparr>run_taken := (run_taken h)(r := None)\<rparr>)"
  using assms unfolding ingress_ok_def drop_reader_def by (auto split: if_splits)

lemma snapshot_result:
  assumes ok: "ingress_ok cu0 g h" and c: "ig_cells g r = Some c" and shot: "reader_snapshot r g = (Inr (inputs, cu, cutoff), g')"
  shows "inputs = drop c (run_log h)" "cu = ig_receipts g" "cutoff = length (run_log h)" "ingress_ok cu0 g' h"
    "ig_cells g' = ig_cells g" "length (ig_inputs g') \<le> length (run_log h) - least_taken g"
proof -
  obtain k where k: "ig_next_input g = length (run_log h)" "ig_inputs g = enumerate k (drop k (run_log h))" "k \<le> length (run_log h)"
    "\<And>r c. ig_cells g r = Some c \<Longrightarrow> k \<le> c" "dom (ig_cells g) \<subseteq> set (ig_readers g)" "\<forall>r\<in>set (ig_readers g). r < ig_fresh g"
    using ok by (rule ingress_okE) blast
  define m where "m = least_taken g"
  have g': "g' = g\<lparr>ig_readers := live_readers g, ig_inputs := enumerate (max k m) (drop (max k m) (run_log h))\<rparr>"
    and shot': "inputs = map snd (filter (\<lambda>(input, _). c \<le> input) (ig_inputs g'))" "cu = ig_receipts g" "cutoff = ig_next_input g"
    using shot k(2) c by (auto simp: reader_snapshot_def try_in_def Let_def dropWhile_enumerate m_def the_cell_def max_def add.commute split: sum.splits)
  have live: "set (live_readers g) = dom (ig_cells g)" using k(5) by (auto simp: live_readers_def)
  have m: "m \<le> length (run_log h)" "\<And>r c. ig_cells g r = Some c \<Longrightarrow> m \<le> c"
  proof -
    show "m \<le> length (run_log h)" using fold_min_le [of "\<lambda>r. the_cell r g" "live_readers g"] k(1) by (simp add: m_def least_taken_def)
    show "m \<le> c" if "ig_cells g r = Some c" for r c
    proof -
      from that have "r \<in> set (live_readers g)" "the_cell r g = c" using live by (auto simp: the_cell_def)
      then show ?thesis using fold_min_le [of "\<lambda>r. the_cell r g" "live_readers g" "ig_next_input g"] by (auto simp: m_def least_taken_def)
    qed
  qed
  have "max k m \<le> c" using k(4) m(2) c by auto
  then show "inputs = drop c (run_log h)" using shot'(1) g' by (simp add: filter_enumerate)
  show "cu = ig_receipts g" "cutoff = length (run_log h)" "ig_cells g' = ig_cells g" using shot' k(1) g' by auto
  show "length (ig_inputs g') \<le> length (run_log h) - least_taken g" using g' by (simp add: m_def)
  show "ingress_ok cu0 g' h"
    by (rule ingress_okI [where k = "max k m"]) (use ok k m live g' in \<open>auto simp: ingress_ok_def live_readers_def\<close>)
qed

lemma snapshot_error: "reader_snapshot r g = (Inl err, g') \<Longrightarrow> g' = g"
  by (auto simp: reader_snapshot_def try_in_def Let_def split: sum.splits)

lemma ingress_ok_look:
  assumes "ingress_ok cu0 g h" "ig_cells g r \<noteq> None" "reader_snapshot r g = (res, g')"
  shows "ingress_ok cu0 g' h"
proof (cases res)
  case (Inl err)
  with assms snapshot_error show ?thesis by blast
next
  case (Inr shot)
  with assms snapshot_result(4) show ?thesis by (cases shot) blast
qed

lemma ingress_ok_shot:
  assumes "ingress_ok cu0 g h" "ig_cells g r \<noteq> None" "reader_snapshot r g = (Inr shot, g')"
  shows "ingress_ok cu0 g' (h\<lparr>run_flight := (run_flight h)(r \<mapsto> shot)\<rparr>)"
proof -
  obtain inputs cu cutoff c where s: "shot = (inputs, cu, cutoff)" "ig_cells g r = Some c" using assms(2) by (cases shot) auto
  note shot = snapshot_result [OF assms(1) s(2) assms(3) [unfolded s(1)]]
  have "c \<le> length (run_log h)" using assms(1) s(2) by (auto simp: ingress_ok_def)
  with shot(1,3,4,5) s show ?thesis unfolding ingress_ok_def by auto
qed

lemma ingress_ok_store:
  assumes "ingress_ok cu0 g h" "run_flight h r = Some (inputs, cu, cutoff)" "run_taken h r = Some had"
  shows "ingress_ok cu0 (store_taken r cutoff g) (h\<lparr>run_taken := (run_taken h)(r \<mapsto> had @ inputs), run_flight := (run_flight h)(r := None)\<rparr>)"
proof -
  obtain c where c: "ig_cells g r = Some c" "c \<le> cutoff" "cutoff \<le> length (run_log h)" "inputs = drop c (take cutoff (run_log h))"
    using assms(1,2) unfolding ingress_ok_def by blast
  have "had = take c (run_log h)" using assms(1,3) c(1) unfolding ingress_ok_def by force
  then have taken: "had @ inputs = take cutoff (run_log h)" using c(2,4) by (metis append_take_drop_id min.absorb1 take_take)
  obtain k where k: "cursors_ok (ig_receipts g)" "receipts_between cu0 (run_issued h) (ig_receipts g)"
    "subseq (run_log h) (run_issued h)" "ig_next_input g = length (run_log h)"
    "ig_inputs g = enumerate k (drop k (run_log h))" "k \<le> length (run_log h)" "\<And>r c. ig_cells g r = Some c \<Longrightarrow> k \<le> c"
    "dom (ig_cells g) \<subseteq> set (ig_readers g)" "\<forall>r\<in>set (ig_readers g). r < ig_fresh g"
    "\<And>r c. ig_cells g r = Some c \<Longrightarrow> c \<le> length (run_log h) \<and> run_taken h r = Some (take c (run_log h))"
    "\<And>r inputs cu cutoff. run_flight h r = Some (inputs, cu, cutoff) \<Longrightarrow> \<exists>c. ig_cells g r = Some c \<and> c \<le> cutoff \<and>
         cutoff \<le> length (run_log h) \<and> inputs = drop c (take cutoff (run_log h))"
    using assms(1) by (rule ingress_okE) blast
  show ?thesis
    by (rule ingress_okI [where k = k]) (use k c taken in \<open>auto simp: store_taken_def split: if_splits dest: k(7)\<close>)
qed

lemma ingress_ok_step: "ingress_step x y \<Longrightarrow> ingress_ok cu0 (fst x) (snd x) \<Longrightarrow> ingress_ok cu0 (fst y) (snd y)"
proof (induction rule: ingress_step.induct)
  case enqueued
  then show ?case by (auto intro: ingress_ok_enqueue)
next
  case private_received
  then show ?case by (auto intro: ingress_ok_private)
next
  case forked
  then show ?case by (auto intro: ingress_ok_fork)
next
  case dropped
  then show ?case by (auto intro: ingress_ok_drop)
next
  case looked
  then show ?case by (auto intro: ingress_ok_look)
next
  case snapshot
  then show ?case by (auto intro: ingress_ok_shot)
next
  case stored
  then show ?case by (auto intro: ingress_ok_store)
qed (auto intro: ingress_ok_same refusals_same_queue)

lemma ingress_ok_start: "cursors_ok (si_cursors s) \<Longrightarrow> ingress_ok (si_cursors s) (open_ingress s) run_start"
  by (auto simp: ingress_ok_def open_ingress_def run_start_def)

lemma ingress_reachable_ok:
  "ingress_reachable s x \<Longrightarrow> cursors_ok (si_cursors s) \<Longrightarrow> ingress_ok (si_cursors s) (fst x) (snd x)"
  by (induction rule: ingress_reachable.induct) (auto intro: ingress_ok_start ingress_ok_step)

end
