(* ===== verification/Saved_Laws.thy ===== *)
theory Saved_Laws
  imports Saved_Requests Ingress_Delivery
begin

section \<open>From the queue to a save, and from a save to admission\<close>

subsection \<open>What the checks of a save mean\<close>

lemma check_pending_receipts_ok:
  "check_pending_receipts cu accounts stocks rs = Inr () \<longleftrightarrow>
    (\<forall>r\<in>set rs. (\<exists>n. map_of (cu_account cu) (ri_owner r) = Some n \<and> ri_account_ordinal r < n)
      \<and> (\<exists>n. map_of (cu_stock cu) (ri_code r) = Some n \<and> ri_stock_ordinal r < n))
    \<and> distinct (map (\<lambda>r. (ri_owner r, ri_account_ordinal r)) rs) \<and> distinct (map (\<lambda>r. (ri_code r, ri_stock_ordinal r)) rs)
    \<and> (\<forall>r\<in>set rs. (ri_owner r, ri_account_ordinal r) \<notin> set accounts \<and> (ri_code r, ri_stock_ordinal r) \<notin> set stocks)"
proof (induction rs arbitrary: accounts stocks)
  case (Cons r rs)
  have step: "check_pending_receipts cu accounts stocks (r # rs) = Inr () \<longleftrightarrow>
      (\<exists>n. map_of (cu_account cu) (ri_owner r) = Some n \<and> ri_account_ordinal r < n)
      \<and> (\<exists>n. map_of (cu_stock cu) (ri_code r) = Some n \<and> ri_stock_ordinal r < n)
      \<and> (ri_owner r, ri_account_ordinal r) \<notin> set accounts \<and> (ri_code r, ri_stock_ordinal r) \<notin> set stocks
      \<and> check_pending_receipts cu ((ri_owner r, ri_account_ordinal r) # accounts) ((ri_code r, ri_stock_ordinal r) # stocks) rs = Inr ()"
    by (auto simp: bind_result_Inr_iff not_le)
  show ?case unfolding step Cons.IH by (auto simp: image_iff)
qed simp

lemma distinct_map_nth: "distinct (map f xs) \<Longrightarrow> i < length xs \<Longrightarrow> j < length xs \<Longrightarrow> i \<noteq> j \<Longrightarrow> f (xs ! i) \<noteq> f (xs ! j)"
  using nth_eq_iff_index_eq [of "map f xs" i j] by simp

lemma validate_saved_requests_ok:
  assumes "validate_saved_requests sv = Inr ()"
  obtains ord where "respects_edges (saved_edges (sv_pending sv)) ord" "set ord = {..<length (sv_pending sv)}"
    "check_pending_receipts (sv_cursors sv) [] [] (sv_pending sv) = Inr ()" "\<forall>r\<in>set (sv_pending sv). ri_owner r = 0"
proof -
  let ?rs = "sv_pending sv"
  have owners: "\<forall>r\<in>set ?rs. ri_owner r = 0" and check: "check_pending_receipts (sv_cursors sv) [] [] ?rs = Inr ()"
    and order: "validate_pending_receipt_order ?rs = Inr ()"
    using assms by (auto simp: validate_saved_requests_def bind_result_Inr_iff split: if_splits)
  obtain ord where "positions_in_order (length (saved_edges ?rs)) (saved_edges ?rs) = Inr ord" "length ord = length (saved_edges ?rs)"
    using order by (auto simp: validate_pending_receipt_order_def saved_edges_props(1) split: sum.splits graph_fault.splits if_splits)
  from positions.full_order [OF this saved_edges_props(3)] that check owners show thesis by (simp add: saved_edges_props(1))
qed

lemma edge_range: "edges_in_range succs \<Longrightarrow> is_edge succs i j \<Longrightarrow> j < length succs"
  unfolding edges_in_range_def is_edge_def by (meson nth_mem)

text \<open>The order the check finds puts each lane and each stock in the order of its receipts.\<close>

lemma saved_order:
  assumes ord: "respects_edges (saved_edges rs) ord" "set ord = {..<length rs}"
    and check: "check_pending_receipts cu [] [] rs = Inr ()" and ij: "i < length rs" "j < length rs" "i \<noteq> j"
  shows "intent_lane (ri_owner (rs ! i)) (ri_intent (rs ! i)) = Some l \<Longrightarrow> intent_lane (ri_owner (rs ! j)) (ri_intent (rs ! j)) = Some l \<Longrightarrow>
      ri_account_ordinal (rs ! i) \<noteq> ri_account_ordinal (rs ! j)
      \<and> (comes_before ord i j \<longleftrightarrow> ri_account_ordinal (rs ! i) < ri_account_ordinal (rs ! j))"
    and "ri_code (rs ! i) = ri_code (rs ! j) \<Longrightarrow> ri_stock_ordinal (rs ! i) \<noteq> ri_stock_ordinal (rs ! j)
      \<and> (comes_before ord i j \<longleftrightarrow> ri_stock_ordinal (rs ! i) < ri_stock_ordinal (rs ! j))"
proof -
  have dist: "distinct ord" using ord(1) by (simp add: respects_edges_def)
  have edge: "comes_before ord a b" if "(a, b) \<in> saved_links rs" for a b
  proof -
    have e: "is_edge (saved_edges rs) a b" using that by (simp add: saved_edges_props(2))
    moreover have "b \<in> set ord" using edge_range [OF saved_edges_props(3) e] ord(2) by (simp add: saved_edges_props(1))
    ultimately show ?thesis by (rule edge_comes_before [OF ord(1)])
  qed
  have accounts: "distinct (map (\<lambda>r. (ri_owner r, ri_account_ordinal r)) rs)" and stocks: "distinct (map (\<lambda>r. (ri_code r, ri_stock_ordinal r)) rs)"
    using check by (simp_all add: check_pending_receipts_ok)
  show "ri_account_ordinal (rs ! i) \<noteq> ri_account_ordinal (rs ! j)
      \<and> (comes_before ord i j \<longleftrightarrow> ri_account_ordinal (rs ! i) < ri_account_ordinal (rs ! j))"
    if lane: "intent_lane (ri_owner (rs ! i)) (ri_intent (rs ! i)) = Some l" "intent_lane (ri_owner (rs ! j)) (ri_intent (rs ! j)) = Some l"
  proof -
    have links: "comes_before ord a b" if "(a, b) \<in> set (chain_pairs (sort_key snd (saved_lane 0 rs l)))" for a b
      using edge that by (auto simp: saved_links_def)
    have diff: "successively (\<lambda>x y. snd x \<noteq> snd y) (sort_key snd (saved_lane 0 rs l))"
    proof (rule successively_different)
      show "distinct (map fst (sort_key snd (saved_lane 0 rs l)))" by (rule distinct_sort_positions [OF distinct_saved_positions(1)])
      fix x y assume "x \<in> set (sort_key snd (saved_lane 0 rs l))" "y \<in> set (sort_key snd (saved_lane 0 rs l))" and ne: "fst x \<noteq> fst y"
      then have "(fst x, snd x) \<in> set (saved_lane 0 rs l)" "(fst y, snd y) \<in> set (saved_lane 0 rs l)" by simp_all
      then have xy: "fst x < length rs" "fst y < length rs" "ri_owner (rs ! fst x) = lane_owner l" "ri_owner (rs ! fst y) = lane_owner l"
        "snd x = ri_account_ordinal (rs ! fst x)" "snd y = ri_account_ordinal (rs ! fst y)"
        unfolding saved_lane_set by (auto dest!: lane_owner_intent)
      with distinct_map_nth [OF accounts xy(1,2) ne] show "snd x \<noteq> snd y" by simp
    qed
    have "(i, ri_account_ordinal (rs ! i)) \<in> set (saved_lane 0 rs l)" "(j, ri_account_ordinal (rs ! j)) \<in> set (saved_lane 0 rs l)"
      using ij lane by (simp_all add: saved_lane_set)
    from chain_order [where f = snd, OF dist links diff _ this] ij(3) show ?thesis by simp
  qed
  show "ri_stock_ordinal (rs ! i) \<noteq> ri_stock_ordinal (rs ! j)
      \<and> (comes_before ord i j \<longleftrightarrow> ri_stock_ordinal (rs ! i) < ri_stock_ordinal (rs ! j))"
    if code: "ri_code (rs ! i) = ri_code (rs ! j)"
  proof -
    define s where "s = ri_code (rs ! j)"
    have links: "comes_before ord a b" if "(a, b) \<in> set (chain_pairs (sort_key snd (saved_stock 0 rs s)))" for a b
      using edge that by (auto simp: saved_links_def)
    have diff: "successively (\<lambda>x y. snd x \<noteq> snd y) (sort_key snd (saved_stock 0 rs s))"
    proof (rule successively_different)
      show "distinct (map fst (sort_key snd (saved_stock 0 rs s)))" by (rule distinct_sort_positions [OF distinct_saved_positions(2)])
      fix x y assume "x \<in> set (sort_key snd (saved_stock 0 rs s))" "y \<in> set (sort_key snd (saved_stock 0 rs s))" and ne: "fst x \<noteq> fst y"
      then have "(fst x, snd x) \<in> set (saved_stock 0 rs s)" "(fst y, snd y) \<in> set (saved_stock 0 rs s)" by simp_all
      then have xy: "fst x < length rs" "fst y < length rs" "ri_code (rs ! fst x) = s" "ri_code (rs ! fst y) = s"
        "snd x = ri_stock_ordinal (rs ! fst x)" "snd y = ri_stock_ordinal (rs ! fst y)"
        unfolding saved_stock_set by auto
      with distinct_map_nth [OF stocks xy(1,2) ne] show "snd x \<noteq> snd y" by simp
    qed
    have "(i, ri_stock_ordinal (rs ! i)) \<in> set (saved_stock 0 rs s)" "(j, ri_stock_ordinal (rs ! j)) \<in> set (saved_stock 0 rs s)"
      using ij code by (simp_all add: saved_stock_set s_def)
    from chain_order [where f = snd, OF dist links diff _ this] ij(3) show ?thesis by simp
  qed
qed

subsection \<open>Admission of the requests of a loaded save\<close>

lemma observe_players:
  "player_candidates n rs = Inr cs \<Longrightarrow> observe_all cs next_plan = (Inr (map (\<lambda>r. Received (ri_account_ordinal r)) rs), next_plan)"
proof (induction rs arbitrary: n cs)
  case (Cons r rs)
  then obtain cs' where cs: "player_candidates (n + 1) rs = Inr cs'"
    "cs = with_ingress_order (ri_account_ordinal r) (ri_stock_ordinal r) (new_candidate (PlayerKey n) (ri_owner r) (ri_intent r)) # cs'"
    by (auto simp: bind_result_Inr_iff)
  from Cons.IH [OF cs(1)] show ?case
    by (simp add: cs(2) observe_receipt_def foreign_npc_def with_ingress_order_def new_candidate_def)
qed simp

lemma loaded_rules:
  assumes valid: "validate_saved_requests sv = Inr ()" and cs: "player_candidates 0 (sv_pending sv) = Inr cs"
  shows "\<exists>ord. admission_rules cs (map (\<lambda>r. Received (ri_account_ordinal r)) (sv_pending sv)) ord"
proof -
  let ?rs = "sv_pending sv"
  obtain ord where ord: "respects_edges (saved_edges ?rs) ord" "set ord = {..<length ?rs}"
    and check: "check_pending_receipts (sv_cursors sv) [] [] ?rs = Inr ()" using valid by (rule validate_saved_requests_ok) blast
  have len: "length cs = length ?rs" and at: "\<And>i. i < length ?rs \<Longrightarrow> cs ! i = \<lparr>ic_key = PlayerKey i, ic_owner = ri_owner (?rs ! i),
      ic_intent = ri_intent (?rs ! i), ic_predecessors = [], ic_ingress = Some (ri_account_ordinal (?rs ! i), ri_stock_ordinal (?rs ! i))\<rparr>"
    using player_candidates_ok [OF cs] by auto
  have "admission_rules cs (map (\<lambda>r. Received (ri_account_ordinal r)) ?rs) ord"
    unfolding admission_rules_def
  proof (intro conjI allI impI)
    fix i j assume ij: "i < length cs" "j < length cs"
    show "map (\<lambda>r. Received (ri_account_ordinal r)) ?rs ! i \<noteq> map (\<lambda>r. Received (ri_account_ordinal r)) ?rs ! j"
      "comes_before ord i j \<longleftrightarrow> account_receipt_order (map (\<lambda>r. Received (ri_account_ordinal r)) ?rs ! i)
        < account_receipt_order (map (\<lambda>r. Received (ri_account_ordinal r)) ?rs ! j)"
      if same: "i \<noteq> j \<and> ic_lane (cs ! i) \<noteq> None \<and> ic_lane (cs ! i) = ic_lane (cs ! j)"
    proof -
      obtain l where l: "ic_lane (cs ! i) = Some l" using same by blast
      moreover have "ic_lane (cs ! j) = Some l" using same l by simp
      ultimately show
        "map (\<lambda>r. Received (ri_account_ordinal r)) ?rs ! i \<noteq> map (\<lambda>r. Received (ri_account_ordinal r)) ?rs ! j"
        "comes_before ord i j \<longleftrightarrow> account_receipt_order (map (\<lambda>r. Received (ri_account_ordinal r)) ?rs ! i)
          < account_receipt_order (map (\<lambda>r. Received (ri_account_ordinal r)) ?rs ! j)"
        using saved_order(1) [OF ord check, of i j l] same ij by (simp_all add: len at less_prod_def)
    qed
    show "\<exists>ai si aj sj. ic_ingress (cs ! i) = Some (ai, si) \<and> ic_ingress (cs ! j) = Some (aj, sj) \<and> si \<noteq> sj \<and> (comes_before ord i j \<longleftrightarrow> si < sj)"
      if "i \<noteq> j \<and> ic_code (cs ! i) = ic_code (cs ! j)"
      using saved_order(2) [OF ord check, of i j] that ij by (simp add: len at)
    show "comes_before ord i j" if "ic_key (cs ! i) \<in> set (ic_predecessors (cs ! j))" using that ij by (simp add: len at)
  qed (use ord in \<open>auto simp: respects_edges_def len at\<close>)
  then show ?thesis by blast
qed

lemma loaded_batch:
  assumes valid: "validate_saved_requests sv = Inr ()" and hash: "\<And>gs. mset (hash_order gs) = mset gs"
    and size: "2 * length (sv_pending sv) \<le> u64_max"
  shows "\<exists>cs out. compose_initial_candidates [] (sv_pending sv) = Inr cs \<and> admit_ready_batch hash_order cs next_plan = (Inr out, next_plan)"
proof -
  obtain cs where cs: "player_candidates 0 (sv_pending sv) = Inr cs" using player_candidates_total [of 0 "sv_pending sv"] size by auto
  have len: "length cs = length (sv_pending sv)" and at: "\<And>i. i < length cs \<Longrightarrow> ic_key (cs ! i) = PlayerKey i \<and> ic_predecessors (cs ! i) = []"
    using player_candidates_ok [OF cs] by auto
  have "distinct (map ic_key cs)" using at by (auto simp: distinct_conv_nth)
  then have "check_candidate_keys [] cs = Inr ()" by (simp add: check_candidate_keys_ok)
  then have compose: "compose_initial_candidates [] (sv_pending sv) = Inr cs"
    by (simp add: compose_initial_candidates_def cs new_candidate_batch_def)
  have none: "\<forall>c\<in>set cs. ic_predecessors c = []" using at by (auto simp: in_set_conv_nth)
  then have quotes: "quote_rules cs" by (simp add: quote_rules_def has_quotes_def)
  have sum: "(\<Sum>c\<leftarrow>cs. length (ic_predecessors c)) = 0" using none by simp
  have size': "2 * length cs + (\<Sum>c\<leftarrow>cs. length (ic_predecessors c)) \<le> u64_max" unfolding sum using size len by simp
  obtain ord where rules: "admission_rules cs (map (\<lambda>r. Received (ri_account_ordinal r)) (sv_pending sv)) ord" using loaded_rules [OF valid cs] by blast
  from batch_admitted [OF rules quotes observe_players [OF cs] hash size'] compose show ?thesis by blast
qed

subsection \<open>Receipts that were given one after the other\<close>

definition receipt_before :: "received_intent \<Rightarrow> received_intent \<Rightarrow> bool" where
  "receipt_before r r' \<longleftrightarrow> (ri_owner r = ri_owner r' \<longrightarrow> ri_account_ordinal r < ri_account_ordinal r')
    \<and> (ri_code r = ri_code r' \<longrightarrow> ri_stock_ordinal r < ri_stock_ordinal r')"

lemma sorted_wrt_subseq: "subseq xs ys \<Longrightarrow> sorted_wrt P ys \<Longrightarrow> sorted_wrt P xs"
  by (induction rule: list_emb.induct) (auto dest: list_emb_set)

lemma issued_sorted: "receipts_between cu0 rs cu \<Longrightarrow> sorted_wrt receipt_before rs"
  unfolding sorted_wrt_iff_nth_less receipt_before_def
proof (intro allI impI conjI)
  fix i j assume r: "receipts_between cu0 rs cu" and ij: "i < j" "j < length rs"
  then have i: "i < length rs" by simp
  show "ri_account_ordinal (rs ! i) < ri_account_ordinal (rs ! j)" if "ri_owner (rs ! i) = ri_owner (rs ! j)"
    using receipts_positions(1) [OF r i ij(2) that] ij(1) by simp
  show "ri_stock_ordinal (rs ! i) < ri_stock_ordinal (rs ! j)" if "ri_code (rs ! i) = ri_code (rs ! j)"
    using receipts_positions(2) [OF r i ij(2) that] ij(1) by simp
qed

lemma receipts_lower:
  assumes "receipts_between cu0 rs cu" "r \<in> set rs"
  shows "next_ordinal (cu_account cu0) (ri_owner r) \<le> ri_account_ordinal r" "next_ordinal (cu_stock cu0) (ri_code r) \<le> ri_stock_ordinal r"
proof -
  from assms(1) have acct: "map ri_account_ordinal (filter (\<lambda>x. ri_owner x = ri_owner r) rs)
      = [next_ordinal (cu_account cu0) (ri_owner r)..<next_ordinal (cu_account cu) (ri_owner r)]"
    and stk: "map ri_stock_ordinal (filter (\<lambda>x. ri_code x = ri_code r) rs)
      = [next_ordinal (cu_stock cu0) (ri_code r)..<next_ordinal (cu_stock cu) (ri_code r)]"
    by (auto simp: receipts_between_def)
  have "ri_account_ordinal r \<in> set (map ri_account_ordinal (filter (\<lambda>x. ri_owner x = ri_owner r) rs))" using assms(2) by simp
  then show "next_ordinal (cu_account cu0) (ri_owner r) \<le> ri_account_ordinal r" by (simp only: acct) simp
  have "ri_stock_ordinal r \<in> set (map ri_stock_ordinal (filter (\<lambda>x. ri_code x = ri_code r) rs))" using assms(2) by simp
  then show "next_ordinal (cu_stock cu0) (ri_code r) \<le> ri_stock_ordinal r" by (simp only: stk) simp
qed

text \<open>The check of the order passes whenever some ranking of the requests agrees with the receipts of every lane and stock.\<close>

lemma ranked_requests_in_order:
  fixes rank :: "nat \<Rightarrow> nat"
  assumes size: "2 * length rs \<le> u64_max"
    and lanes: "\<And>i j. i < length rs \<Longrightarrow> j < length rs \<Longrightarrow> i \<noteq> j \<Longrightarrow> intent_lane (ri_owner (rs ! i)) (ri_intent (rs ! i)) \<noteq> None \<Longrightarrow>
      intent_lane (ri_owner (rs ! i)) (ri_intent (rs ! i)) = intent_lane (ri_owner (rs ! j)) (ri_intent (rs ! j)) \<Longrightarrow>
      ri_account_ordinal (rs ! i) \<le> ri_account_ordinal (rs ! j) \<Longrightarrow> rank i < rank j"
    and stocks: "\<And>i j. i < length rs \<Longrightarrow> j < length rs \<Longrightarrow> i \<noteq> j \<Longrightarrow> ri_code (rs ! i) = ri_code (rs ! j) \<Longrightarrow>
      ri_stock_ordinal (rs ! i) \<le> ri_stock_ordinal (rs ! j) \<Longrightarrow> rank i < rank j"
  shows "validate_pending_receipt_order rs = Inr ()"
proof -
  have up: "rank i < rank j" if "(i, j) \<in> saved_links rs" for i j
  proof -
    from that consider l where "(i, j) \<in> set (chain_pairs (sort_key snd (saved_lane 0 rs l)))"
      | s where "(i, j) \<in> set (chain_pairs (sort_key snd (saved_stock 0 rs s)))" by (auto simp: saved_links_def)
    then show ?thesis
    proof cases
      case 1
      then obtain x y where xy: "x \<in> set (saved_lane 0 rs l)" "y \<in> set (saved_lane 0 rs l)" "fst x = i" "fst y = j" "snd x \<le> snd y" "i \<noteq> j"
        by (rule sort_chain_keys [OF _ distinct_saved_positions(1)])
      then have "(i, snd x) \<in> set (saved_lane 0 rs l)" "(j, snd y) \<in> set (saved_lane 0 rs l)" by (metis prod.collapse)+
      with xy(5,6) show ?thesis unfolding saved_lane_set by (intro lanes) auto
    next
      case 2
      then obtain x y where xy: "x \<in> set (saved_stock 0 rs s)" "y \<in> set (saved_stock 0 rs s)" "fst x = i" "fst y = j" "snd x \<le> snd y" "i \<noteq> j"
        by (rule sort_chain_keys [OF _ distinct_saved_positions(2)])
      then have "(i, snd x) \<in> set (saved_stock 0 rs s)" "(j, snd y) \<in> set (saved_stock 0 rs s)" by (metis prod.collapse)+
      with xy(5,6) show ?thesis unfolding saved_stock_set by (intro stocks) auto
    qed
  qed
  have "length (concat (saved_edges rs)) < 2 ^ 64" using saved_edges_props(4) [of rs] size by (simp del: length_concat)
  from positions.ranked_order [where rank = rank, OF saved_edges_props(3) this] up obtain ord where
    "positions_in_order (length rs) (saved_edges rs) = Inr ord" "length ord = length rs"
    by (auto simp: saved_edges_props(1,2))
  then show ?thesis by (simp add: validate_pending_receipt_order_def)
qed

text \<open>
  Requests that were loaded, followed by the log of the requests received since, keep their order: the loaded ones are ranked
  by the order the load check has found, those received since come after them as they were received.
\<close>

lemma loaded_and_logged:
  assumes loaded: "validate_saved_requests \<lparr>sv_pending = old, sv_cursors = cu0\<rparr> = Inr ()"
    and issued: "receipts_between cu0 issued cu" and sub: "subseq new issued"
  shows "\<exists>rank :: nat \<Rightarrow> nat. \<forall>i<length (old @ new). \<forall>j<length (old @ new). i \<noteq> j \<longrightarrow>
      (intent_lane (ri_owner ((old @ new) ! i)) (ri_intent ((old @ new) ! i)) \<noteq> None \<and>
       intent_lane (ri_owner ((old @ new) ! i)) (ri_intent ((old @ new) ! i)) = intent_lane (ri_owner ((old @ new) ! j)) (ri_intent ((old @ new) ! j)) \<and>
       ri_account_ordinal ((old @ new) ! i) \<le> ri_account_ordinal ((old @ new) ! j) \<or>
       ri_code ((old @ new) ! i) = ri_code ((old @ new) ! j) \<and> ri_stock_ordinal ((old @ new) ! i) \<le> ri_stock_ordinal ((old @ new) ! j)) \<longrightarrow>
      rank i < rank j"
proof -
  obtain ord where ord: "respects_edges (saved_edges old) ord" "set ord = {..<length old}"
    and check: "check_pending_receipts cu0 [] [] old = Inr ()"
    using loaded by (rule validate_saved_requests_ok) simp
  have dist: "distinct ord" using ord(1) by (simp add: respects_edges_def)
  have len: "length ord = length old" using ord(2) dist by (metis card_lessThan distinct_card)
  have "\<forall>k<length old. \<exists>a<length ord. ord ! a = k" using ord(2) by (metis in_set_conv_nth lessThan_iff)
  then obtain f where f: "\<And>k. k < length old \<Longrightarrow> f k < length old \<and> ord ! f k = k" unfolding len by metis
  have before: "f i < f j" if "comes_before ord i j" "i < length old" "j < length old" for i j
    using that f dist len unfolding comes_before_def by (metis less_trans nth_eq_iff_index_eq)
  let ?all = "old @ new"
  have at: "i < length old \<Longrightarrow> ?all ! i = old ! i" "length old \<le> i \<Longrightarrow> ?all ! i = new ! (i - length old)" for i by (simp_all add: nth_append)
  have low: "ri_account_ordinal r < next_ordinal (cu_account cu0) (ri_owner r)" "ri_stock_ordinal r < next_ordinal (cu_stock cu0) (ri_code r)"
    if "r \<in> set old" for r using check that by (auto simp: check_pending_receipts_ok next_ordinal_def)
  have high: "next_ordinal (cu_account cu0) (ri_owner r) \<le> ri_account_ordinal r" "next_ordinal (cu_stock cu0) (ri_code r) \<le> ri_stock_ordinal r"
    if "r \<in> set new" for r using receipts_lower [OF issued] list_emb_set [OF sub that] by blast+
  have sorted: "sorted_wrt receipt_before new" by (rule sorted_wrt_subseq [OF sub issued_sorted [OF issued]])
  define rank where "rank k = (if k < length old then f k else k)" for k
  have "rank i < rank j" if ij: "i < length ?all" "j < length ?all" "i \<noteq> j"
    and same: "intent_lane (ri_owner (?all ! i)) (ri_intent (?all ! i)) \<noteq> None \<and>
       intent_lane (ri_owner (?all ! i)) (ri_intent (?all ! i)) = intent_lane (ri_owner (?all ! j)) (ri_intent (?all ! j)) \<and>
       ri_account_ordinal (?all ! i) \<le> ri_account_ordinal (?all ! j) \<or>
       ri_code (?all ! i) = ri_code (?all ! j) \<and> ri_stock_ordinal (?all ! i) \<le> ri_stock_ordinal (?all ! j)" for i j
  proof -
    have owner: "ri_owner (?all ! i) = ri_owner (?all ! j) \<and> ri_account_ordinal (?all ! i) \<le> ri_account_ordinal (?all ! j) \<or>
        ri_code (?all ! i) = ri_code (?all ! j) \<and> ri_stock_ordinal (?all ! i) \<le> ri_stock_ordinal (?all ! j)"
      using same lane_owner_intent by (metis option.exhaust)
    consider (both) "i < length old" "j < length old" | (first) "i < length old" "length old \<le> j"
      | (second) "length old \<le> i" "j < length old" | (neither) "length old \<le> i" "length old \<le> j" by linarith
    then show ?thesis
    proof cases
      case both
      have "comes_before ord i j" using saved_order [OF ord check both ij(3)] same at both by fastforce
      with before both show ?thesis by (simp add: rank_def)
    next
      case first
      with f [of i] show ?thesis by (simp add: rank_def)
    next
      case second
      then have "?all ! i \<in> set new" "?all ! j \<in> set old" using ij by (simp_all add: nth_append)
      from high [OF this(1)] low [OF this(2)] owner show ?thesis by auto
    next
      case neither
      have "i < j"
      proof (rule ccontr)
        assume "\<not> i < j"
        then have "receipt_before (new ! (j - length old)) (new ! (i - length old))"
          using sorted ij neither by (auto simp: sorted_wrt_iff_nth_less)
        with owner at neither show False by (auto simp: receipt_before_def)
      qed
      with neither show ?thesis by (simp add: rank_def)
    qed
  qed
  then show ?thesis by blast
qed

lemma continued_requests_load:
  assumes loaded: "validate_saved_requests \<lparr>sv_pending = old, sv_cursors = cu0\<rparr> = Inr ()"
    and issued: "receipts_between cu0 issued cu" and sub: "subseq new issued" and all: "old @ new = used @ pending"
    and owners: "\<forall>r\<in>set pending. ri_owner r = 0" and size: "2 * length (old @ new) \<le> u64_max"
  shows "validate_saved_requests \<lparr>sv_pending = pending, sv_cursors = cu\<rparr> = Inr ()"
proof -
  obtain rank :: "nat \<Rightarrow> nat" where rank: "\<And>i j. i < length (used @ pending) \<Longrightarrow> j < length (used @ pending) \<Longrightarrow> i \<noteq> j \<Longrightarrow>
      (intent_lane (ri_owner ((used @ pending) ! i)) (ri_intent ((used @ pending) ! i)) \<noteq> None \<and>
       intent_lane (ri_owner ((used @ pending) ! i)) (ri_intent ((used @ pending) ! i)) = intent_lane (ri_owner ((used @ pending) ! j)) (ri_intent ((used @ pending) ! j)) \<and>
       ri_account_ordinal ((used @ pending) ! i) \<le> ri_account_ordinal ((used @ pending) ! j) \<or>
       ri_code ((used @ pending) ! i) = ri_code ((used @ pending) ! j) \<and> ri_stock_ordinal ((used @ pending) ! i) \<le> ri_stock_ordinal ((used @ pending) ! j)) \<Longrightarrow>
      rank i < rank j"
    using loaded_and_logged [OF loaded issued sub] unfolding all by blast
  have order: "validate_pending_receipt_order pending = Inr ()"
  proof (rule ranked_requests_in_order [where rank = "\<lambda>i. rank (length used + i)"])
    show "2 * length pending \<le> u64_max" using size unfolding all by simp
  qed (rule rank; simp)+
  have check: "check_pending_receipts cu0 [] [] old = Inr ()" using loaded by (rule validate_saved_requests_ok) simp
  have low: "ri_account_ordinal r < next_ordinal (cu_account cu0) (ri_owner r)" "ri_stock_ordinal r < next_ordinal (cu_stock cu0) (ri_code r)"
    if "r \<in> set old" for r using check that by (auto simp: check_pending_receipts_ok next_ordinal_def)
  have mem: "r \<in> set issued" if "r \<in> set new" for r using list_emb_set [OF sub that] by blast
  have high: "next_ordinal (cu_account cu0) (ri_owner r) \<le> ri_account_ordinal r" "next_ordinal (cu_stock cu0) (ri_code r) \<le> ri_stock_ordinal r"
    if "r \<in> set new" for r using receipts_lower [OF issued mem [OF that]] by blast+
  have grow: "next_ordinal (cu_account cu0) a \<le> next_ordinal (cu_account cu) a" "next_ordinal (cu_stock cu0) c \<le> next_ordinal (cu_stock cu) c" for a c
    using issued by (simp_all add: receipts_between_def)
  have bound: "\<exists>n. map_of (cu_account cu) (ri_owner r) = Some n \<and> ri_account_ordinal r < n"
    "\<exists>n. map_of (cu_stock cu) (ri_code r) = Some n \<and> ri_stock_ordinal r < n" if "r \<in> set (old @ new)" for r
  proof -
    have "ri_account_ordinal r < next_ordinal (cu_account cu) (ri_owner r)" "ri_stock_ordinal r < next_ordinal (cu_stock cu) (ri_code r)"
      using that low less_le_trans [OF low(1) grow(1)] less_le_trans [OF low(2) grow(2)] receipts_bounded(2,4) [OF issued mem] by auto
    then show "\<exists>n. map_of (cu_account cu) (ri_owner r) = Some n \<and> ri_account_ordinal r < n"
      "\<exists>n. map_of (cu_stock cu) (ri_code r) = Some n \<and> ri_stock_ordinal r < n"
      by (auto simp: next_ordinal_def split: option.splits)
  qed
  have sorted: "sorted_wrt receipt_before new" by (rule sorted_wrt_subseq [OF sub issued_sorted [OF issued]])
  have logs: "distinct (map (\<lambda>r. (ri_owner r, ri_account_ordinal r)) new)" "distinct (map (\<lambda>r. (ri_code r, ri_stock_ordinal r)) new)"
    using sorted by (induction new) (auto simp: receipt_before_def)
  have "distinct (map (\<lambda>r. (ri_owner r, ri_account_ordinal r)) (old @ new))" "distinct (map (\<lambda>r. (ri_code r, ri_stock_ordinal r)) (old @ new))"
    using check logs low high by (fastforce simp: check_pending_receipts_ok)+
  then have "distinct (map (\<lambda>r. (ri_owner r, ri_account_ordinal r)) pending)" "distinct (map (\<lambda>r. (ri_code r, ri_stock_ordinal r)) pending)"
    unfolding all by simp_all
  moreover have "set pending \<subseteq> set (old @ new)" unfolding all by auto
  ultimately have "check_pending_receipts cu [] [] pending = Inr ()" using bound unfolding check_pending_receipts_ok by auto
  with order owners show ?thesis by (simp add: validate_saved_requests_def)
qed

lemma subseq_drop_log: "subseq (drop n xs) xs"
  by (metis append_take_drop_id list_emb_append2 subseq_order.order_refl)

end
