(* ===== verification/Intake_Runs.thy ===== *)
theory Intake_Runs
  imports Saved_Laws
begin

section \<open>A session that reads the shared queue\<close>

text \<open>
  The runs of one session over the shared queue, as a step relation. The session takes in what has been handed in, in
  two steps between which other threads can go on; its runtime takes the pending requests out and uses them, or gives them back when
  it fails; a tick can work on a copy of the session, with a reader of its own, that is committed or dropped. Beside the state run the
  requests the ticks have used. The invariant says that no request is lost and none is there twice: the requests loaded and
  received are, in order, those used, those the runtime holds, those pending and those still in the queue.
\<close>

record intake_run =
  ir_session :: session_intake
  ir_used :: "received_intent list"
  ir_held :: "received_intent list"
  ir_original :: "(session_intake \<times> received_intent list) option"
  ir_queue :: ingress
  ir_run :: ingress_run

text \<open>The readers that no other thread reads through: the session's and, while a copy works, the original's.\<close>

definition own_readers :: "intake_run \<Rightarrow> nat set" where
  "own_readers x = set_option (si_reader (ir_session x)) \<union>
     (case ir_original x of None \<Rightarrow> {} | Some (s, _) \<Rightarrow> set_option (si_reader s))"

definition start_intake :: "session_intake \<Rightarrow> intake_run" where
  "start_intake s = \<lparr>ir_session = bind_ingress s, ir_used = [], ir_held = [], ir_original = None, ir_queue = open_ingress s, ir_run = run_start\<rparr>"

inductive intake_step :: "intake_run \<Rightarrow> intake_run \<Rightarrow> bool" where
  elsewhere: "ingress_step (ir_queue x, ir_run x) (g, h) \<Longrightarrow>
    (\<forall>r\<in>own_readers x. ig_cells g r = ig_cells (ir_queue x) r \<and> run_flight h r = run_flight (ir_run x) r) \<Longrightarrow>
    intake_step x (x\<lparr>ir_queue := g, ir_run := h\<rparr>)"
| cut: "si_reader (ir_session x) = Some r \<Longrightarrow> run_flight (ir_run x) r = None \<Longrightarrow> reader_snapshot r (ir_queue x) = (Inr shot, g) \<Longrightarrow>
    intake_step x (x\<lparr>ir_session := take_inputs shot (ir_session x), ir_queue := g,
      ir_run := (ir_run x)\<lparr>run_flight := (run_flight (ir_run x))(r \<mapsto> shot)\<rparr>\<rparr>)"
| noted: "si_reader (ir_session x) = Some r \<Longrightarrow> run_flight (ir_run x) r = Some (inputs, cu, cutoff) \<Longrightarrow> run_taken (ir_run x) r = Some had \<Longrightarrow>
    intake_step x (x\<lparr>ir_queue := store_taken r cutoff (ir_queue x),
      ir_run := (ir_run x)\<lparr>run_taken := (run_taken (ir_run x))(r \<mapsto> had @ inputs), run_flight := (run_flight (ir_run x))(r := None)\<rparr>\<rparr>)"
| private_received: "receive_private_intent owner i (ir_session x) (ir_queue x) = (Inr received, s, g) \<Longrightarrow>
    intake_step x (x\<lparr>ir_session := s, ir_queue := g, ir_run := (ir_run x)\<lparr>run_issued := run_issued (ir_run x) @ [received]\<rparr>\<rparr>)"
| private_refused: "receive_private_intent owner i (ir_session x) (ir_queue x) = (Inl err, s, g) \<Longrightarrow>
    intake_step x (x\<lparr>ir_session := s, ir_queue := g\<rparr>)"
| captured: "ir_held x = [] \<Longrightarrow> capture_player_candidate_batch (ir_session x) = (batch, s) \<Longrightarrow>
    intake_step x (x\<lparr>ir_session := s, ir_held := batch\<rparr>)"
| consumed: "intake_step x (x\<lparr>ir_used := ir_used x @ ir_held x, ir_held := []\<rparr>)"
| given_back: "intake_step x (x\<lparr>ir_session := restore_runtime_player_intents (ir_held x) (ir_session x), ir_held := []\<rparr>)"
| copied: "ir_original x = None \<Longrightarrow> ir_held x = [] \<Longrightarrow> si_reader (ir_session x) = Some r \<Longrightarrow> run_flight (ir_run x) r = None \<Longrightarrow>
    clone_for_tick_shadow (ir_session x) (ir_queue x) = (Inr s, g) \<Longrightarrow> si_reader s = Some r' \<Longrightarrow>
    intake_step x (x\<lparr>ir_session := s, ir_original := Some (ir_session x, ir_used x), ir_queue := g,
      ir_run := (ir_run x)\<lparr>run_taken := (run_taken (ir_run x))(r' := run_taken (ir_run x) r)\<rparr>\<rparr>)"
| committed: "ir_original x = Some (s, used) \<Longrightarrow> si_reader s = Some r \<Longrightarrow> commit_tick_shadow (ir_session x) s (ir_queue x) = (s', g) \<Longrightarrow>
    intake_step x (x\<lparr>ir_session := s', ir_original := None, ir_queue := g,
      ir_run := (ir_run x)\<lparr>run_taken := (run_taken (ir_run x))(r := None)\<rparr>\<rparr>)"
| discarded: "ir_original x = Some (s, used) \<Longrightarrow> si_reader (ir_session x) = Some r \<Longrightarrow> run_flight (ir_run x) r = None \<Longrightarrow>
    intake_step x (x\<lparr>ir_session := s, ir_used := used, ir_held := [], ir_original := None, ir_queue := discard_tick_shadow (ir_session x) (ir_queue x),
      ir_run := (ir_run x)\<lparr>run_taken := (run_taken (ir_run x))(r := None)\<rparr>\<rparr>)"

inductive intake_reachable :: "session_intake \<Rightarrow> intake_run \<Rightarrow> bool" for s where
  started: "intake_reachable s (start_intake s)"
| step: "intake_reachable s x \<Longrightarrow> intake_step x y \<Longrightarrow> intake_reachable s y"

subsection \<open>The invariant\<close>

text \<open>What a session has been given, up to the position it is about to store, is what is gone and what it has pending.\<close>

definition handed :: "ingress \<Rightarrow> ingress_run \<Rightarrow> nat \<Rightarrow> nat" where
  "handed g h r = (case run_flight h r of Some (_, _, cutoff) \<Rightarrow> cutoff | None \<Rightarrow> the_cell r g)"

definition reading :: "received_intent list \<Rightarrow> ingress \<Rightarrow> ingress_run \<Rightarrow> session_intake \<Rightarrow> received_intent list \<Rightarrow> bool" where
  "reading old g h t gone \<longleftrightarrow> (\<exists>r. si_reader t = Some r \<and> ig_cells g r \<noteq> None
     \<and> old @ take (handed g h r) (run_log h) = gone @ si_pending t)"

definition intake_ok :: "session_intake \<Rightarrow> intake_run \<Rightarrow> bool" where
  "intake_ok s x \<longleftrightarrow> ingress_ok (si_cursors s) (ir_queue x) (ir_run x)
    \<and> reading (si_pending s) (ir_queue x) (ir_run x) (ir_session x) (ir_used x @ ir_held x)
    \<and> (\<forall>t used. ir_original x = Some (t, used) \<longrightarrow> reading (si_pending s) (ir_queue x) (ir_run x) t used
        \<and> si_reader t \<noteq> si_reader (ir_session x) \<and> (\<forall>r. si_reader t = Some r \<longrightarrow> run_flight (ir_run x) r = None))"

lemma ingress_step_log: "ingress_step x y \<Longrightarrow> \<exists>ys. run_log (snd y) = run_log (snd x) @ ys"
  by (induction rule: ingress_step.induct) (auto simp: run_accept_def)

lemma handed_le: "ingress_ok cu0 g h \<Longrightarrow> ig_cells g r \<noteq> None \<Longrightarrow> handed g h r \<le> length (run_log h)"
proof (cases "run_flight h r")
  case None
  assume "ingress_ok cu0 g h" "ig_cells g r \<noteq> None"
  with None show ?thesis by (auto simp: ingress_ok_def handed_def the_cell_def)
next
  case (Some shot)
  obtain inputs cu cutoff where shot: "shot = (inputs, cu, cutoff)" by (cases shot)
  assume "ingress_ok cu0 g h"
  then have "cutoff \<le> length (run_log h)" using Some unfolding shot ingress_ok_def by blast
  with Some show ?thesis by (simp add: handed_def shot)
qed

lemma reading_other:
  assumes "reading old g h t gone" "ingress_ok cu0 g h" "run_log h' = run_log h @ ys"
    and "\<And>r. si_reader t = Some r \<Longrightarrow> ig_cells g' r = ig_cells g r \<and> run_flight h' r = run_flight h r"
  shows "reading old g' h' t gone"
proof -
  obtain r where r: "si_reader t = Some r" "ig_cells g r \<noteq> None" "old @ take (handed g h r) (run_log h) = gone @ si_pending t"
    using assms(1) by (auto simp: reading_def)
  have same: "ig_cells g' r = ig_cells g r" "handed g' h' r = handed g h r"
    using assms(4) [OF r(1)] by (auto simp: handed_def the_cell_def split: option.splits)
  with r handed_le [OF assms(2) r(2)] assms(3) show ?thesis by (auto simp: reading_def)
qed

lemma intake_okD:
  assumes "intake_ok s x"
  shows "ingress_ok (si_cursors s) (ir_queue x) (ir_run x)"
    "reading (si_pending s) (ir_queue x) (ir_run x) (ir_session x) (ir_used x @ ir_held x)"
    "ir_original x = Some (t, used) \<Longrightarrow> reading (si_pending s) (ir_queue x) (ir_run x) t used
        \<and> si_reader t \<noteq> si_reader (ir_session x) \<and> (\<forall>r. si_reader t = Some r \<longrightarrow> run_flight (ir_run x) r = None)"
  using assms by (simp_all add: intake_ok_def)

text \<open>A step that leaves the cells and the snapshots of both readers alone.\<close>

lemma intake_ok_other:
  assumes "intake_ok s x" "ingress_ok (si_cursors s) g h" "run_log h = run_log (ir_run x) @ ys"
    and "\<forall>r\<in>own_readers x. ig_cells g r = ig_cells (ir_queue x) r \<and> run_flight h r = run_flight (ir_run x) r"
    and "si_reader t = si_reader (ir_session x)" "si_pending t = si_pending (ir_session x)"
  shows "intake_ok s (x\<lparr>ir_session := t, ir_queue := g, ir_run := h\<rparr>)"
proof -
  have own: "ig_cells g r = ig_cells (ir_queue x) r \<and> run_flight h r = run_flight (ir_run x) r"
    if "si_reader (ir_session x) = Some r \<or> (\<exists>o' u. ir_original x = Some (o', u) \<and> si_reader o' = Some r)" for r
    using assms(4) that by (auto simp: own_readers_def)
  have "reading (si_pending s) g h (ir_session x) (ir_used x @ ir_held x)"
    by (rule reading_other [OF intake_okD(2,1) [OF assms(1)] assms(3)]) (use own in blast)
  then have "reading (si_pending s) g h t (ir_used x @ ir_held x)" using assms(5,6) by (simp add: reading_def)
  moreover have "reading (si_pending s) g h o' u \<and> si_reader o' \<noteq> si_reader t \<and> (\<forall>r. si_reader o' = Some r \<longrightarrow> run_flight h r = None)"
    if orig: "ir_original x = Some (o', u)" for o' u
  proof -
    note o' = intake_okD(3) [OF assms(1) orig]
    have "reading (si_pending s) g h o' u"
      by (rule reading_other [OF _ intake_okD(1) [OF assms(1)] assms(3)]) (use o' own orig in blast)+
    with o' own orig assms(5) show ?thesis by simp
  qed
  ultimately show ?thesis using assms(2) by (simp add: intake_ok_def)
qed

lemma reader_cell:
  assumes "intake_ok s x" "si_reader (ir_session x) = Some r"
  obtains c where "ig_cells (ir_queue x) r = Some c"
  using intake_okD(2) [OF assms(1)] assms(2) by (auto simp: reading_def)

lemma intake_ok_cut:
  assumes ok: "intake_ok s x" and r: "si_reader (ir_session x) = Some r" "run_flight (ir_run x) r = None"
    and shot: "reader_snapshot r (ir_queue x) = (Inr shot, g)"
  shows "intake_ok s (x\<lparr>ir_session := take_inputs shot (ir_session x), ir_queue := g,
      ir_run := (ir_run x)\<lparr>run_flight := (run_flight (ir_run x))(r \<mapsto> shot)\<rparr>\<rparr>)"
proof -
  obtain c where c: "ig_cells (ir_queue x) r = Some c" by (rule reader_cell [OF ok r(1)])
  obtain inputs cu cutoff where s: "shot = (inputs, cu, cutoff)" by (cases shot)
  note res = snapshot_result [OF intake_okD(1) [OF ok] c shot [unfolded s]]
  let ?h = "(ir_run x)\<lparr>run_flight := (run_flight (ir_run x))(r \<mapsto> shot)\<rparr>"
  have iok: "ingress_ok (si_cursors s) g ?h" by (rule ingress_ok_shot [OF intake_okD(1) [OF ok] _ shot]) (simp add: c)
  have "si_pending s @ take c (run_log (ir_run x)) = (ir_used x @ ir_held x) @ si_pending (ir_session x)"
    using intake_okD(2) [OF ok] r c by (auto simp: reading_def handed_def the_cell_def)
  then have "si_pending s @ run_log (ir_run x) = (ir_used x @ ir_held x) @ si_pending (ir_session x) @ inputs"
    using res(1) by (metis append.assoc append_take_drop_id)
  then have main: "reading (si_pending s) g ?h (take_inputs shot (ir_session x)) (ir_used x @ ir_held x)"
    using r(1) c res(3,5) by (auto simp: reading_def handed_def take_inputs_def s)
  have rd: "si_reader (take_inputs shot (ir_session x)) = Some r" using r(1) by (simp add: take_inputs_def s)
  have "reading (si_pending s) g ?h t used \<and> si_reader t \<noteq> Some r \<and> (\<forall>r'. si_reader t = Some r' \<longrightarrow> run_flight ?h r' = None)"
    if orig: "ir_original x = Some (t, used)" for t used
  proof -
    note o' = intake_okD(3) [OF ok orig]
    have "reading (si_pending s) g ?h t used"
      by (rule reading_other [OF _ intake_okD(1) [OF ok], where ys = "[]"]) (use o' r(1) res(5) in auto)
    with o' r(1) show ?thesis by auto
  qed
  with iok main rd show ?thesis by (simp add: intake_ok_def)
qed

lemma intake_ok_noted:
  assumes ok: "intake_ok s x" and r: "si_reader (ir_session x) = Some r" "run_flight (ir_run x) r = Some (inputs, cu, cutoff)"
    and had: "run_taken (ir_run x) r = Some had"
  shows "intake_ok s (x\<lparr>ir_queue := store_taken r cutoff (ir_queue x),
      ir_run := (ir_run x)\<lparr>run_taken := (run_taken (ir_run x))(r \<mapsto> had @ inputs), run_flight := (run_flight (ir_run x))(r := None)\<rparr>\<rparr>)"
proof -
  let ?g = "store_taken r cutoff (ir_queue x)"
  let ?h = "(ir_run x)\<lparr>run_taken := (run_taken (ir_run x))(r \<mapsto> had @ inputs), run_flight := (run_flight (ir_run x))(r := None)\<rparr>"
  have iok: "ingress_ok (si_cursors s) ?g ?h" by (rule ingress_ok_store [OF intake_okD(1) [OF ok] r(2) had])
  have main: "reading (si_pending s) ?g ?h (ir_session x) (ir_used x @ ir_held x)"
    using intake_okD(2) [OF ok] r by (auto simp: reading_def handed_def the_cell_def store_taken_def)
  have "reading (si_pending s) ?g ?h t used \<and> si_reader t \<noteq> Some r \<and> (\<forall>r'. si_reader t = Some r' \<longrightarrow> run_flight ?h r' = None)"
    if orig: "ir_original x = Some (t, used)" for t used
  proof -
    note o' = intake_okD(3) [OF ok orig]
    have "reading (si_pending s) ?g ?h t used"
      by (rule reading_other [OF _ intake_okD(1) [OF ok], where ys = "[]"]) (use o' r(1) in \<open>auto simp: store_taken_def\<close>)
    with o' r(1) show ?thesis by auto
  qed
  with iok main r(1) show ?thesis by (simp add: intake_ok_def)
qed

text \<open>What the runtime does with the requests it has taken out.\<close>

lemma intake_ok_moved:
  assumes "intake_ok s x" "si_reader t = si_reader (ir_session x)"
    and "used @ held @ si_pending t = ir_used x @ ir_held x @ si_pending (ir_session x)"
  shows "intake_ok s (x\<lparr>ir_session := t, ir_used := used, ir_held := held\<rparr>)"
  using assms by (auto simp: intake_ok_def reading_def)

lemma intake_ok_copied:
  assumes ok: "intake_ok s x" and none: "ir_original x = None" "ir_held x = []" and r: "si_reader (ir_session x) = Some r" "run_flight (ir_run x) r = None"
    and clone: "clone_for_tick_shadow (ir_session x) (ir_queue x) = (Inr t, g)" "si_reader t = Some r'"
  shows "intake_ok s (x\<lparr>ir_session := t, ir_original := Some (ir_session x, ir_used x), ir_queue := g,
      ir_run := (ir_run x)\<lparr>run_taken := (run_taken (ir_run x))(r' := run_taken (ir_run x) r)\<rparr>\<rparr>)"
proof -
  let ?h = "(ir_run x)\<lparr>run_taken := (run_taken (ir_run x))(r' := run_taken (ir_run x) r)\<rparr>"
  note iok = intake_okD(1) [OF ok]
  obtain c where c: "ig_cells (ir_queue x) r = Some c" by (rule reader_cell [OF ok r(1)])
  have fork: "fork_reader r (ir_queue x) = (Inr r', g)" and t: "t = (ir_session x)\<lparr>si_reader := Some r', si_poison := None\<rparr>"
    using clone r(1) by (auto simp: clone_for_tick_shadow_def split: sum.splits prod.splits)
  have g: "r' = ig_fresh (ir_queue x)" "g = (ir_queue x)\<lparr>ig_fresh := ig_fresh (ir_queue x) + 1,
      ig_cells := (ig_cells (ir_queue x))(ig_fresh (ir_queue x) \<mapsto> c), ig_readers := ig_readers (ir_queue x) @ [ig_fresh (ir_queue x)]\<rparr>"
    using fork c by (auto simp: fork_reader_def Let_def try_in_def the_cell_def split: sum.splits)
  have fresh: "ig_cells (ir_queue x) r' = None" using iok g(1) unfolding ingress_ok_def by (meson domIff less_irrefl subsetD)
  then have flight: "run_flight (ir_run x) r' = None"
    using iok unfolding ingress_ok_def by (cases "run_flight (ir_run x) r'") (simp_all, metis option.distinct(1) prod_cases3)
  have other: "r' \<noteq> r" using fresh c by auto
  have "ingress_ok (si_cursors s) g ?h" by (rule ingress_ok_fork [OF iok _ fork]) (simp add: c)
  moreover have "reading (si_pending s) g ?h (ir_session x) (ir_used x)"
    by (rule reading_other [OF _ iok, where ys = "[]"]) (use intake_okD(2) [OF ok] none(2) r(1) other g in auto)
  moreover have "reading (si_pending s) g ?h t (ir_used x)"
    using intake_okD(2) [OF ok] none(2) r c flight g t by (auto simp: reading_def handed_def the_cell_def)
  ultimately show ?thesis using r t other none(2) by (simp add: intake_ok_def)
qed

lemma intake_ok_committed:
  assumes ok: "intake_ok s x" and orig: "ir_original x = Some (t, used)" "si_reader t = Some r"
    and commit: "commit_tick_shadow (ir_session x) t (ir_queue x) = (t', g)"
  shows "intake_ok s (x\<lparr>ir_session := t', ir_original := None, ir_queue := g,
      ir_run := (ir_run x)\<lparr>run_taken := (run_taken (ir_run x))(r := None)\<rparr>\<rparr>)"
proof -
  note o' = intake_okD(3) [OF ok orig(1)]
  have g: "g = drop_reader r (ir_queue x)" "si_reader t' = si_reader (ir_session x)" "si_pending t' = si_pending (ir_session x)"
    using commit orig(2) by (auto simp: commit_tick_shadow_def)
  let ?h = "(ir_run x)\<lparr>run_taken := (run_taken (ir_run x))(r := None)\<rparr>"
  have "ingress_ok (si_cursors s) g ?h" unfolding g(1) by (rule ingress_ok_drop [OF intake_okD(1) [OF ok]]) (use o' orig(2) in blast)
  moreover have "reading (si_pending s) g ?h (ir_session x) (ir_used x @ ir_held x)"
    by (rule reading_other [OF intake_okD(2,1) [OF ok], where ys = "[]"]) (use o' orig(2) g(1) in \<open>auto simp: drop_reader_def\<close>)
  then have "reading (si_pending s) g ?h t' (ir_used x @ ir_held x)" using g(2,3) by (simp add: reading_def)
  ultimately show ?thesis by (simp add: intake_ok_def)
qed

lemma intake_ok_discarded:
  assumes ok: "intake_ok s x" and orig: "ir_original x = Some (t, used)" and r: "si_reader (ir_session x) = Some r" "run_flight (ir_run x) r = None"
  shows "intake_ok s (x\<lparr>ir_session := t, ir_used := used, ir_held := [], ir_original := None,
      ir_queue := discard_tick_shadow (ir_session x) (ir_queue x),
      ir_run := (ir_run x)\<lparr>run_taken := (run_taken (ir_run x))(r := None)\<rparr>\<rparr>)"
proof -
  note o' = intake_okD(3) [OF ok orig]
  have g: "discard_tick_shadow (ir_session x) (ir_queue x) = drop_reader r (ir_queue x)" using r(1) by (simp add: discard_tick_shadow_def)
  let ?h = "(ir_run x)\<lparr>run_taken := (run_taken (ir_run x))(r := None)\<rparr>"
  have "ingress_ok (si_cursors s) (drop_reader r (ir_queue x)) ?h" by (rule ingress_ok_drop [OF intake_okD(1) [OF ok] r(2)])
  moreover have "reading (si_pending s) (drop_reader r (ir_queue x)) ?h t used"
    by (rule reading_other [OF _ intake_okD(1) [OF ok], where ys = "[]"]) (use o' r(1) in \<open>auto simp: drop_reader_def\<close>)
  ultimately show ?thesis by (simp add: intake_ok_def g)
qed

lemma intake_ok_private:
  assumes ok: "intake_ok s x" and p: "receive_private_intent owner i (ir_session x) (ir_queue x) = (Inr received, t, g)"
  shows "intake_ok s (x\<lparr>ir_session := t, ir_queue := g, ir_run := (ir_run x)\<lparr>run_issued := run_issued (ir_run x) @ [received]\<rparr>\<rparr>)"
proof -
  obtain r where r: "si_reader (ir_session x) = Some r" using intake_okD(2) [OF ok] by (auto simp: reading_def)
  have q: "receive_private owner i (ir_queue x) = (Inr received, g)" "si_reader t = Some r" "si_pending t = si_pending (ir_session x)"
    using p r by (auto simp: receive_private_intent_def split: sum.splits prod.splits)
  have "ig_cells g = ig_cells (ir_queue x)"
    using q(1) by (auto simp: receive_private_def try_in_def split: sum.splits if_splits prod.splits)
  then show ?thesis
    by (intro intake_ok_other [OF ok ingress_ok_private [OF intake_okD(1) [OF ok] q(1)], where ys = "[]"]) (use q r in auto)
qed

lemma intake_ok_refused:
  assumes ok: "intake_ok s x" and p: "receive_private_intent owner i (ir_session x) (ir_queue x) = (Inl err, t, g)"
  shows "intake_ok s (x\<lparr>ir_session := t, ir_queue := g\<rparr>)"
proof -
  obtain r where r: "si_reader (ir_session x) = Some r" using intake_okD(2) [OF ok] by (auto simp: reading_def)
  have q: "receive_private owner i (ir_queue x) = (Inl err, g)" "t = ir_session x"
    using p r by (auto simp: receive_private_intent_def split: sum.splits prod.splits)
  have same: "same_queue (ir_queue x) g" by (rule refusals_same_queue(2) [OF q(1)])
  have "intake_ok s (x\<lparr>ir_session := t, ir_queue := g, ir_run := ir_run x\<rparr>)"
    by (rule intake_ok_other [OF ok ingress_ok_same [OF intake_okD(1) [OF ok] same], where ys = "[]"]) (use q same in \<open>auto simp: same_queue_def\<close>)
  then show ?thesis by simp
qed

lemma intake_ok_step:
  assumes "intake_step x y" "intake_ok s x"
  shows "intake_ok s y"
  using assms
proof (cases rule: intake_step.cases)
  case (elsewhere g h)
  obtain ys where "run_log h = run_log (ir_run x) @ ys" using ingress_step_log [OF elsewhere(2)] by auto
  moreover have "ingress_ok (si_cursors s) g h" using ingress_ok_step [OF elsewhere(2)] intake_okD(1) [OF assms(2)] by simp
  ultimately have "intake_ok s (x\<lparr>ir_session := ir_session x, ir_queue := g, ir_run := h\<rparr>)"
    using intake_ok_other [OF assms(2)] elsewhere(3) by blast
  then show ?thesis using elsewhere(1) by simp
next
  case (captured batch t)
  then show ?thesis using intake_ok_moved [OF assms(2), of t "ir_used x" batch] by (auto simp: capture_player_candidate_batch_def)
next
  case consumed
  then show ?thesis using intake_ok_moved [OF assms(2), of "ir_session x" "ir_used x @ ir_held x" "[]"] by simp
next
  case given_back
  then show ?thesis using intake_ok_moved [OF assms(2), of "restore_runtime_player_intents (ir_held x) (ir_session x)" "ir_used x" "[]"]
    by (simp add: restore_runtime_player_intents_def)
next
  case (cut r shot g)
  then show ?thesis using intake_ok_cut [OF assms(2) cut(2-4)] by simp
next
  case (noted r inputs cu cutoff had)
  then show ?thesis using intake_ok_noted [OF assms(2) noted(2-4)] by simp
next
  case (private_received owner i received t g)
  then show ?thesis using intake_ok_private [OF assms(2) private_received(2)] by simp
next
  case (private_refused owner i err t g)
  then show ?thesis using intake_ok_refused [OF assms(2) private_refused(2)] by simp
next
  case (copied r t g r')
  then show ?thesis using intake_ok_copied [OF assms(2) copied(2-7)] by simp
next
  case (committed t used r t' g)
  then show ?thesis using intake_ok_committed [OF assms(2) committed(2-4)] by simp
next
  case (discarded t used r)
  then show ?thesis using intake_ok_discarded [OF assms(2) discarded(2-4)] by simp
qed

lemma intake_ok_start: "cursors_ok (si_cursors s) \<Longrightarrow> intake_ok s (start_intake s)"
  using ingress_ok_start [of s]
  by (simp add: intake_ok_def start_intake_def reading_def handed_def the_cell_def bind_ingress_def open_ingress_def run_start_def)

lemma intake_reachable_ok: "intake_reachable s x \<Longrightarrow> cursors_ok (si_cursors s) \<Longrightarrow> intake_ok s x"
  by (induction rule: intake_reachable.induct) (auto intro: intake_ok_start intake_ok_step)

subsection \<open>What a save holds\<close>

lemma saved_intake:
  assumes "intake_ok s x" "si_reader (ir_session x) = Some r" "run_flight (ir_run x) r = None"
    and "project_shared_ingress_save (ir_session x) (ir_queue x) = (Inr sv, g)"
  shows "si_pending s @ run_log (ir_run x) = (ir_used x @ ir_held x) @ sv_pending sv" "sv_cursors sv = ig_receipts (ir_queue x)"
proof -
  obtain c where c: "ig_cells (ir_queue x) r = Some c" by (rule reader_cell [OF assms(1,2)])
  obtain inputs cu cutoff where shot: "reader_snapshot r (ir_queue x) = (Inr (inputs, cu, cutoff), g)"
    and sv: "sv = \<lparr>sv_pending = si_pending (ir_session x) @ inputs, sv_cursors = cu\<rparr>"
    using assms(2,4) by (auto simp: project_shared_ingress_save_def split: sum.splits prod.splits)
  note res = snapshot_result [OF intake_okD(1) [OF assms(1)] c shot]
  have "si_pending s @ take c (run_log (ir_run x)) = (ir_used x @ ir_held x) @ si_pending (ir_session x)"
    using intake_okD(2) [OF assms(1)] assms(2,3) c by (auto simp: reading_def handed_def the_cell_def)
  then show "si_pending s @ run_log (ir_run x) = (ir_used x @ ir_held x) @ sv_pending sv"
    using res(1) sv by (metis append.assoc append_take_drop_id saved_requests.select_convs(1))
  show "sv_cursors sv = ig_receipts (ir_queue x)" using res(2) sv by simp
qed

end
