(* ===== verification/Ingress_Properties.thy ===== *)
theory Ingress_Properties
  imports Intake_Runs
begin

section \<open>Properties of the requests: queue, save and admission\<close>

subsection \<open>Order of the admitted requests\<close>

text \<open>What is said of a request and one admitted after it.\<close>

definition admitted_before :: "intent_candidate \<Rightarrow> intent_candidate \<Rightarrow> bool" where
  "admitted_before c c' \<longleftrightarrow>
    (ic_code c = ic_code c' \<longrightarrow> (\<exists>a s a' s'. ic_ingress c = Some (a, s) \<and> ic_ingress c' = Some (a', s') \<and> s < s'))
  \<and> (\<forall>l a' s'. ic_lane c = Some l \<and> ic_lane c' = Some l \<and> ic_ingress c' = Some (a', s') \<longrightarrow> (\<exists>a s. ic_ingress c = Some (a, s) \<and> a < a'))
  \<and> ic_key c' \<notin> set (ic_predecessors c)"

lemma observe_stamped:
  "observe_all cs next_plan = (Inr rs, next_plan') \<Longrightarrow> i < length cs \<Longrightarrow>
    (\<forall>a s. ic_ingress (cs ! i) = Some (a, s) \<longrightarrow> rs ! i = Received a) \<and> (ic_ingress (cs ! i) = None \<longrightarrow> (\<exists>n. rs ! i = ReadyThisTick n))"
proof (induction cs arbitrary: next_plan rs i)
  case (Cons c cs)
  then obtain r s rs' where r: "observe_receipt c next_plan = (Inr r, s)" "observe_all cs s = (Inr rs', next_plan')" "rs = r # rs'"
    by (auto simp: try_st_ok_iff)
  have "(\<forall>a s. ic_ingress c = Some (a, s) \<longrightarrow> r = Received a) \<and> (ic_ingress c = None \<longrightarrow> (\<exists>n. r = ReadyThisTick n))"
    using r(1) by (auto simp: observe_receipt_def Let_def try_in_ok_iff split: if_splits option.splits candidate_key.splits)
  with Cons.IH [OF r(2)] Cons.prems(2) r(3) show ?case by (cases i) auto
qed simp

lemma rules_quote:
  "admission_rules cs rs ord \<Longrightarrow> i < length cs \<Longrightarrow> j < length cs \<Longrightarrow> ic_key (cs ! i) \<in> set (ic_predecessors (cs ! j)) \<Longrightarrow> comes_before ord i j"
  by (simp add: admission_rules_def)

lemma rules_admitted_before:
  assumes rules: "admission_rules cs rs ord" and obs: "observe_all cs next_plan = (Inr rs, next_plan')" and ab: "a < b" "b < length ord"
  shows "admitted_before (cs ! (ord ! a)) (cs ! (ord ! b))"
proof -
  have dist: "distinct ord" and all: "set ord = {..<length cs}" using rules by (simp_all add: admission_rules_def)
  define i j where "i = ord ! a" and "j = ord ! b"
  have ij: "i < length cs" "j < length cs" "i \<noteq> j"
    using ab all dist nth_mem [of a ord] nth_mem [of b ord] by (auto simp: i_def j_def nth_eq_iff_index_eq)
  have before: "comes_before ord i j" using ab unfolding comes_before_def i_def j_def by blast
  have "ic_key (cs ! j) \<notin> set (ic_predecessors (cs ! i))"
    using rules_quote [OF rules ij(2,1)] before comes_before_asym [OF dist] by blast
  moreover have "\<exists>ai si aj sj. ic_ingress (cs ! i) = Some (ai, si) \<and> ic_ingress (cs ! j) = Some (aj, sj) \<and> si < sj"
    if "ic_code (cs ! i) = ic_code (cs ! j)"
    using rules_stock [OF rules ij that] before by blast
  moreover have "\<exists>ai si. ic_ingress (cs ! i) = Some (ai, si) \<and> ai < aj"
    if "ic_lane (cs ! i) = Some l" "ic_lane (cs ! j) = Some l" "ic_ingress (cs ! j) = Some (aj, sj)" for l aj sj
  proof -
    have "account_receipt_order (rs ! i) < account_receipt_order (rs ! j)" using rules_lane(2) [OF rules ij that(1,2)] before by simp
    moreover have "rs ! j = Received aj" using observe_stamped [OF obs ij(2)] that(3) by blast
    ultimately have "\<exists>ai. rs ! i = Received ai \<and> ai < aj" by (cases "rs ! i") (auto simp: less_prod_def)
    then show ?thesis using observe_stamped [OF obs ij(1)] by (cases "ic_ingress (cs ! i)") auto
  qed
  ultimately show ?thesis unfolding admitted_before_def i_def [symmetric] j_def [symmetric] by blast
qed

lemma permuted_batch: "distinct ord \<Longrightarrow> set ord = {..<length cs} \<Longrightarrow> mset (map ((!) cs) ord) = mset cs"
proof -
  assume "distinct ord" "set ord = {..<length cs}"
  then have "mset ord = mset [0..<length cs]" by (intro set_eq_iff_mset_eq_distinct [THEN iffD1]) (auto simp: lessThan_atLeast0)
  then have "mset (map ((!) cs) ord) = mset (map ((!) cs) [0..<length cs])" by simp
  then show ?thesis by (simp add: map_nth)
qed

lemma admitted_sorted:
  assumes "admission_rules cs rs ord" "observe_all cs next_plan = (Inr rs, next_plan')"
  shows "mset (map ((!) cs) ord) = mset cs" "sorted_wrt admitted_before (map ((!) cs) ord)"
  using assms permuted_batch rules_admitted_before by (auto simp: admission_rules_def sorted_wrt_iff_nth_less)

subsection \<open>A small queue and a small batch\<close>

definition early_request :: intent_candidate where
  "early_request = with_ingress_order 0 0 (new_candidate (PlayerKey 1) 0 (PlaceMarket 1 Buy 100))"

definition late_request :: intent_candidate where
  "late_request = with_ingress_order 1 1 (new_candidate (PlayerKey 0) 0 (PlaceMarket 1 Buy 100))"

lemmas request_defs = early_request_def late_request_def with_ingress_order_def new_candidate_def

lemmas admission_eval = admit_ready_batch_def prepare_admission_def observe_receipt_def foreign_npc_def side_lane_def push_sorted_def
  has_conflicts_def build_resource_edges_def empty_plan_def add_edge_def checked_u64_def stock_edges_def finish_layout_def
  positions_in_order_def count_edges_def still_waiting_def

lemma late_first: "admit_ready_batch id [late_request, early_request] Map.empty = (Inr [early_request, late_request], Map.empty)"
  by (simp add: admission_eval request_defs upt_rec Let_def)

definition small_session :: session_intake where
  "small_session = \<lparr>si_reader = None, si_poison = None, si_policy = EveryTick, si_tick = 0, si_generation = 0, si_accounts = [(0, Player)],
     si_cursors = \<lparr>cu_account = [], cu_stock = []\<rparr>, si_pending = []\<rparr>"

definition first_receipt :: received_intent where
  "first_receipt = \<lparr>ri_owner = 0, ri_intent = PlaceMarket 1 Buy 100, ri_account_ordinal = 0, ri_stock_ordinal = 0\<rparr>"

definition one_input :: ingress where
  "one_input = snd (enqueue_player_intent 0 (PlaceMarket 1 Buy 100) (open_ingress small_session))"

lemmas ingress_eval = enqueue_player_intent_def lock_ingress_def require_player_policy_def receive_intent_def next_ordinal_def checked_u64_def
  open_ingress_def small_session_def Let_def try_in_def

lemma one_input_eq: "one_input = open_ingress small_session\<lparr>ig_receipts := \<lparr>cu_account = [(0, 1)], cu_stock = [(1, 1)]\<rparr>,
   ig_next_input := 1, ig_inputs := [(0, first_receipt)]\<rparr>"
  by (simp add: one_input_def ingress_eval first_receipt_def)

lemma one_input_reachable: "ingress_reachable small_session (one_input, run_accept first_receipt run_start)"
proof -
  have "enqueue_player_intent 0 (PlaceMarket 1 Buy 100) (open_ingress small_session) = (Inr (), one_input)"
    by (simp add: one_input_def ingress_eval)
  from ingress_step.enqueued [OF this] have "ingress_step (open_ingress small_session, run_start) (one_input, run_accept first_receipt run_start)"
    by (simp add: one_input_eq)
  then show ?thesis by (rule ingress_reachable.step [OF ingress_reachable.opened])
qed

lemma small_session_cursors: "cursors_ok (si_cursors small_session)"
  by (simp add: cursors_ok_def small_session_def)

lemma one_input_cell: "ig_cells one_input 0 = Some 0"
  by (simp add: one_input_eq open_ingress_def)

lemma one_save: "project_shared_ingress_save (bind_ingress small_session) one_input
    = (Inr \<lparr>sv_pending = [first_receipt], sv_cursors = \<lparr>cu_account = [(0, 1)], cu_stock = [(1, 1)]\<rparr>\<rparr>, one_input)"
  by (simp add: project_shared_ingress_save_def bind_ingress_def reader_snapshot_def lock_ingress_def one_input_eq open_ingress_def small_session_def
     Let_def live_readers_def least_taken_def the_cell_def)

subsection \<open>Admission\<close>

text \<open>
  C11 (Admission keeps the order of receipts). A ready batch that is admitted is returned as a permutation of itself
  in which, of any two requests, the earlier one has the smaller receipt on a stock both are for, and the
  smaller receipt of the account when both draw on the same cash or the same shares; no request comes before a
  cancellation it replaces. This holds whatever order the hash map of resources is walked in.\<close>

theorem admission_keeps_receipt_order:
  assumes "admit_ready_batch hash_order cs next_plan = (Inr out, next_plan')" "\<And>gs. mset (hash_order gs) = mset gs"
  shows "mset out = mset cs \<and> sorted_wrt admitted_before out \<and> (\<forall>c\<in>set cs. set (ic_predecessors c) \<subseteq> ic_key ` set cs)"
proof -
  obtain rs ord where r: "observe_all cs next_plan = (Inr rs, next_plan')" "admission_rules cs rs ord" "out = map ((!) cs) ord"
    using admitted_batch_rules [OF assms] by blast
  have "\<forall>j<length cs. set (ic_predecessors (cs ! j)) \<subseteq> ic_key ` set cs" using r(2) by (simp add: admission_rules_def)
  then have "\<forall>c\<in>set cs. set (ic_predecessors c) \<subseteq> ic_key ` set cs" by (metis in_set_conv_nth)
  with admitted_sorted [OF r(2,1)] r(3) show ?thesis by blast
qed

theorem admission_keeps_receipt_order_witness:
  "mset [early_request, late_request] = mset [late_request, early_request] \<and> sorted_wrt admitted_before [early_request, late_request]"
  using admission_keeps_receipt_order [OF late_first] by simp

text \<open>
  C12 (Exactly the batches with an order are admitted). A batch that fits in memory is admitted if and only if its
  receipts can be read, the links of replacements to cancellations are as they must be, and some order of the
  requests keeps the rules; the search for the order misses none.\<close>

theorem admitted_iff_orderable:
  assumes "\<And>gs. mset (hash_order gs) = mset gs" "2 * length cs + (\<Sum>c\<leftarrow>cs. length (ic_predecessors c)) \<le> u64_max"
  shows "(\<exists>out. fst (admit_ready_batch hash_order cs next_plan) = Inr out) \<longleftrightarrow>
    (\<exists>rs ord. fst (observe_all cs next_plan) = Inr rs \<and> quote_rules cs \<and> admission_rules cs rs ord)"
proof
  assume "\<exists>out. fst (admit_ready_batch hash_order cs next_plan) = Inr out"
  then obtain out s where adm: "admit_ready_batch hash_order cs next_plan = (Inr out, s)" by (metis prod.collapse)
  from admitted_batch_rules [OF this assms(1)] admitted_quote_rules [OF this assms(1)]
  show "\<exists>rs ord. fst (observe_all cs next_plan) = Inr rs \<and> quote_rules cs \<and> admission_rules cs rs ord" by force
next
  assume "\<exists>rs ord. fst (observe_all cs next_plan) = Inr rs \<and> quote_rules cs \<and> admission_rules cs rs ord"
  then obtain rs ord s where "observe_all cs next_plan = (Inr rs, s)" "quote_rules cs" "admission_rules cs rs ord" by (metis prod.collapse)
  from batch_admitted [OF this(3,2,1) assms] show "\<exists>out. fst (admit_ready_batch hash_order cs next_plan) = Inr out" by auto
qed

theorem admitted_iff_orderable_witness:
  "\<exists>rs ord. fst (observe_all [late_request, early_request] Map.empty) = Inr rs \<and> quote_rules [late_request, early_request]
    \<and> admission_rules [late_request, early_request] rs ord"
proof -
  have size: "2 * length [late_request, early_request] + (\<Sum>c\<leftarrow>[late_request, early_request]. length (ic_predecessors c)) \<le> u64_max"
    by (simp add: request_defs)
  have "\<exists>out. fst (admit_ready_batch id [late_request, early_request] Map.empty) = Inr out" by (simp add: late_first)
  then show ?thesis using admitted_iff_orderable [of id, OF _ size] by simp
qed

subsection \<open>The shared queue\<close>

text \<open>
  C13 (Every reader gets every input once, in order). However threads that hand in requests, reads in two steps, forks,
  drops, failures and closing interleave, a reader that is still there has been handed exactly the first inputs
  that were accepted, as many as its cell says, and its next snapshot holds exactly the others.\<close>

theorem inputs_delivered_once:
  assumes "ingress_reachable s (g, h)" "cursors_ok (si_cursors s)" "ig_cells g r = Some c"
  shows "run_taken h r = Some (take c (run_log h)) \<and> (\<forall>inputs cu cutoff g'. reader_snapshot r g = (Inr (inputs, cu, cutoff), g') \<longrightarrow>
    take c (run_log h) @ inputs = run_log h \<and> cutoff = length (run_log h) \<and> cu = ig_receipts g)"
proof -
  have ok: "ingress_ok (si_cursors s) g h" using ingress_reachable_ok [OF assms(1,2)] by simp
  then have "run_taken h r = Some (take c (run_log h))" using assms(3) by (simp add: ingress_ok_def)
  with snapshot_result(1-3) [OF ok assms(3)] show ?thesis by (metis append_take_drop_id)
qed

theorem inputs_delivered_once_witness:
  "run_taken (run_accept first_receipt run_start) 0 = Some [] \<and> (\<exists>g'. reader_snapshot 0 one_input =
    (Inr (run_log (run_accept first_receipt run_start), ig_receipts one_input, length (run_log (run_accept first_receipt run_start))), g'))"
proof -
  obtain inputs cu cutoff g' where snapshot: "reader_snapshot 0 one_input = (Inr (inputs, cu, cutoff), g')"
    by (simp add: reader_snapshot_def lock_ingress_def one_input_eq open_ingress_def small_session_def Let_def live_readers_def
       least_taken_def the_cell_def)
  have delivered: "run_taken (run_accept first_receipt run_start) 0 = Some (take 0 (run_log (run_accept first_receipt run_start)))
      \<and> take 0 (run_log (run_accept first_receipt run_start)) @ inputs = run_log (run_accept first_receipt run_start)
      \<and> cutoff = length (run_log (run_accept first_receipt run_start)) \<and> cu = ig_receipts one_input"
    using inputs_delivered_once [OF one_input_reachable small_session_cursors one_input_cell] snapshot by blast
  then show ?thesis using snapshot by simp
qed

text \<open>
  C16 (Receipts are numbered without gaps). The receipts given since the queue was opened, to players and to actors
  alike, count on from the cursors of the session: for each account the numbers of its requests are consecutive in
  the order in which they were received, and so are those of each stock; every input of the log has one.\<close>

theorem shared_receipts_consecutive:
  assumes "ingress_reachable s (g, h)" "cursors_ok (si_cursors s)"
  shows "map ri_account_ordinal (filter (\<lambda>r. ri_owner r = a) (run_issued h))
        = [next_ordinal (cu_account (si_cursors s)) a..<next_ordinal (cu_account (ig_receipts g)) a]
    \<and> map ri_stock_ordinal (filter (\<lambda>r. ri_code r = k) (run_issued h))
        = [next_ordinal (cu_stock (si_cursors s)) k..<next_ordinal (cu_stock (ig_receipts g)) k]
    \<and> subseq (run_log h) (run_issued h)"
  using ingress_reachable_ok [OF assms] by (simp add: ingress_ok_def receipts_between_def)

theorem shared_receipts_consecutive_witness:
  "map ri_account_ordinal (filter (\<lambda>r. ri_owner r = 0) (run_issued (run_accept first_receipt run_start)))
      = [next_ordinal (cu_account (si_cursors small_session)) 0..<next_ordinal (cu_account (ig_receipts one_input)) 0]
   \<and> map ri_stock_ordinal (filter (\<lambda>r. ri_code r = 1) (run_issued (run_accept first_receipt run_start)))
      = [next_ordinal (cu_stock (si_cursors small_session)) 1..<next_ordinal (cu_stock (ig_receipts one_input)) 1]
   \<and> subseq (run_log (run_accept first_receipt run_start)) (run_issued (run_accept first_receipt run_start))"
  by (rule shared_receipts_consecutive [OF one_input_reachable small_session_cursors])

text \<open>
  C17 (A tick that fails loses no input). A tick takes the inputs in a copy of the session; when the copy is dropped,
  the session still takes the same inputs with the same receipts at its next cutoff.\<close>

theorem failed_tick_keeps_inputs:
  assumes "ingress_reachable s (g, h)" "cursors_ok (si_cursors s)" "si_reader t = Some r" "ig_cells g r = Some c"
    and "clone_for_tick_shadow t g = (Inr shadow, g1)" "freeze_shared_ingress shadow g1 = (Inr u, shadow', g2)"
  shows "\<exists>t' g4. freeze_shared_ingress t (discard_tick_shadow shadow' g2) = (Inr (), t', g4)
    \<and> si_pending t' = si_pending t @ drop c (run_log h) \<and> si_pending shadow' = si_pending t' \<and> si_cursors shadow' = si_cursors t'"
proof -
  have ok: "ingress_ok (si_cursors s) g h" using ingress_reachable_ok [OF assms(1,2)] by simp
  obtain r' where fork: "fork_reader r g = (Inr r', g1)" and shadow: "shadow = t\<lparr>si_reader := Some r', si_poison := None\<rparr>"
    using assms(3,5) by (auto simp: clone_for_tick_shadow_def split: sum.splits prod.splits)
  have g1: "r' = ig_fresh g" "g1 = g\<lparr>ig_fresh := ig_fresh g + 1, ig_cells := (ig_cells g)(ig_fresh g \<mapsto> c), ig_readers := ig_readers g @ [ig_fresh g]\<rparr>"
    and healthy: "lock_ingress g = Inr ()"
    using fork assms(4) by (auto simp: fork_reader_def Let_def try_in_def the_cell_def split: sum.splits)
  have ok1: "ingress_ok (si_cursors s) g1 (h\<lparr>run_taken := (run_taken h)(r' := run_taken h r)\<rparr>)"
    using ingress_ok_fork [OF ok _ fork] assms(4) by simp
  have fresh: "ig_fresh g \<noteq> r" using ok assms(4) unfolding ingress_ok_def by (metis domI less_irrefl subsetD)
  obtain inputs cu cutoff g1' where shot: "reader_snapshot r' g1 = (Inr (inputs, cu, cutoff), g1')"
    and s': "shadow' = take_inputs (inputs, cu, cutoff) shadow" and g2: "g2 = store_taken r' cutoff g1'"
    using assms(6) shadow by (auto simp: freeze_shared_ingress_def split: sum.splits prod.splits)
  note res1 = snapshot_result [OF ok1 _ shot]
  have cell1: "ig_cells g1 r' = Some c" using g1 by simp
  define g3 where "g3 = discard_tick_shadow shadow' g2"
  have g3: "g3 = drop_reader r' (store_taken r' cutoff g1')"
    by (simp add: g3_def discard_tick_shadow_def s' take_inputs_def shadow g2)
  define h1 where "h1 = h\<lparr>run_taken := (run_taken h)(r' := run_taken h r)\<rparr>"
  have none: "run_flight h1 r' = None"
  proof -
    have "ig_cells g r' = None" using ok g1(1) unfolding ingress_ok_def by (meson domIff less_irrefl subsetD)
    then show ?thesis using ok unfolding ingress_ok_def h1_def
      by (cases "run_flight h r'") (simp_all, metis option.distinct(1) prod_cases3)
  qed
  have "ingress_ok (si_cursors s) g1' h1" using res1(4) [OF cell1] by (simp add: h1_def)
  from ingress_ok_drop [OF this none] have ok3: "ingress_ok (si_cursors s) g3 (h1\<lparr>run_taken := (run_taken h1)(r' := None)\<rparr>)"
    by (simp add: g3 drop_reader_def store_taken_def)
  have cell3: "ig_cells g3 r = Some c" using res1(5) [OF cell1] g1 fresh assms(4) by (simp add: g3 drop_reader_def store_taken_def)
  have keep: "ig_poisoned g3 = ig_poisoned g" "ig_terminal g3 = ig_terminal g" "ig_receipts g3 = ig_receipts g"
    using shot g1 by (auto simp: g3 drop_reader_def store_taken_def reader_snapshot_def Let_def try_in_def split: sum.splits)
  then have "lock_ingress g3 = lock_ingress g" by (simp add: lock_ingress_def)
  with healthy have "lock_ingress g3 = Inr ()" by simp
  then obtain inputs3 cu3 cutoff3 g4 where shot3: "reader_snapshot r g3 = (Inr (inputs3, cu3, cutoff3), g4)"
    by (auto simp: reader_snapshot_def Let_def)
  note res3 = snapshot_result [OF ok3 cell3 shot3]
  have "freeze_shared_ingress t g3 = (Inr (), take_inputs (inputs3, cu3, cutoff3) t, store_taken r cutoff3 g4)"
    using shot3 assms(3) by (simp add: freeze_shared_ingress_def)
  moreover have "inputs = drop c (run_log h)" "inputs3 = drop c (run_log h)" "cu = cu3"
    using res1(1,2) [OF cell1] res3(1,2) keep(3) g1(2) by (simp_all add: h1_def)
  ultimately show ?thesis unfolding g3_def [symmetric]
    by (intro exI [of _ "take_inputs (inputs3, cu3, cutoff3) t"] exI [of _ "store_taken r cutoff3 g4"]) (simp add: s' shadow take_inputs_def)
qed

theorem failed_tick_keeps_inputs_witness:
  "\<exists>shadow g1 shadow' g2 t' g4. clone_for_tick_shadow (bind_ingress small_session) one_input = (Inr shadow, g1)
    \<and> freeze_shared_ingress shadow g1 = (Inr (), shadow', g2)
    \<and> freeze_shared_ingress (bind_ingress small_session) (discard_tick_shadow shadow' g2) = (Inr (), t', g4)
    \<and> si_pending t' = [first_receipt]"
proof -
  have reader: "si_reader (bind_ingress small_session) = Some 0" by (simp add: bind_ingress_def)
  have "lock_ingress one_input = Inr ()" by (simp add: lock_ingress_def one_input_eq open_ingress_def)
  then obtain shadow g1 where clone: "clone_for_tick_shadow (bind_ingress small_session) one_input = (Inr shadow, g1)"
    and sh: "si_reader shadow = Some 1" "ig_poisoned g1 = False"
    by (auto simp: clone_for_tick_shadow_def reader fork_reader_def Let_def one_input_eq open_ingress_def lock_ingress_def)
  from sh obtain shadow' g2 where freeze: "freeze_shared_ingress shadow g1 = (Inr (), shadow', g2)"
    by (auto simp: freeze_shared_ingress_def reader_snapshot_def lock_ingress_def Let_def)
  from failed_tick_keeps_inputs [OF one_input_reachable small_session_cursors reader one_input_cell clone freeze]
  show ?thesis using clone freeze by (fastforce simp: run_accept_def run_start_def bind_ingress_def small_session_def)
qed

subsection \<open>Saves\<close>

text \<open>
  C14 (What a save holds of the requests, and when it can be loaded). A session is opened, new or loaded from a save that
  passes the checks, and then runs: requests come in from any thread, its ticks take them in, use them or fail and give them
  back, on the session itself or on copies that are committed or dropped. A save made at any moment at which it is not taking
  in inputs holds, in order, exactly the requests loaded or received that its ticks have neither used nor
  hold. Loading accepts it if all of these are of the account 0, the player of the game; if one is of a member who has joined
  later, loading refuses it with the fault 2067. The cursors saved are such that a session can be opened on them again.\<close>

theorem saved_requests_load:
  assumes "intake_reachable s x" "cursors_ok (si_cursors s)"
    and "validate_saved_requests \<lparr>sv_pending = si_pending s, sv_cursors = si_cursors s\<rparr> = Inr ()"
    and "si_reader (ir_session x) = Some r" "run_flight (ir_run x) r = None"
    and "2 * length (si_pending s @ run_log (ir_run x)) \<le> u64_max"
    and "project_shared_ingress_save (ir_session x) (ir_queue x) = (Inr sv, g)"
  shows "si_pending s @ run_log (ir_run x) = ir_used x @ ir_held x @ sv_pending sv
    \<and> cursors_ok (sv_cursors sv)
    \<and> validate_saved_requests sv = (if \<forall>q\<in>set (sv_pending sv). ri_owner q = 0 then Inr () else Inl (InvalidSave 2067 []))"
proof -
  have ok: "intake_ok s x" by (rule intake_reachable_ok [OF assms(1,2)])
  note save = saved_intake [OF ok assms(4,5,7)]
  have ingress: "ingress_ok (si_cursors s) (ir_queue x) (ir_run x)" by (rule intake_okD(1) [OF ok])
  have issued: "receipts_between (si_cursors s) (run_issued (ir_run x)) (sv_cursors sv)" "subseq (run_log (ir_run x)) (run_issued (ir_run x))"
    and cursors: "cursors_ok (sv_cursors sv)"
    using ingress save(2) by (auto simp: ingress_ok_def)
  have "validate_saved_requests sv = Inr ()" if "\<forall>q\<in>set (sv_pending sv). ri_owner q = 0"
    using continued_requests_load [OF assms(3) issued save(1) that assms(6)] by (cases sv) simp
  moreover have "validate_saved_requests sv = Inl (InvalidSave 2067 [])" if "\<not> (\<forall>q\<in>set (sv_pending sv). ri_owner q = 0)"
    using that by (auto simp: validate_saved_requests_def)
  ultimately show ?thesis using save(1) cursors by simp
qed

text \<open>A run in which one request of the player has been received.\<close>

definition one_run :: intake_run where
  "one_run = (start_intake small_session)\<lparr>ir_queue := one_input, ir_run := run_accept first_receipt run_start\<rparr>"

lemma one_run_reachable: "intake_reachable small_session one_run"
proof -
  have "enqueue_player_intent 0 (PlaceMarket 1 Buy 100) (open_ingress small_session) = (Inr (), one_input)"
    by (simp add: one_input_def ingress_eval)
  from ingress_step.enqueued [OF this] have "ingress_step (open_ingress small_session, run_start) (one_input, run_accept first_receipt run_start)"
    by (simp add: one_input_eq)
  then have "intake_step (start_intake small_session) one_run"
    unfolding one_run_def by (intro intake_step.elsewhere) (auto simp: start_intake_def run_accept_def one_input_eq)
  then show ?thesis by (rule intake_reachable.step [OF intake_reachable.started])
qed

theorem saved_requests_load_witness:
  "validate_saved_requests \<lparr>sv_pending = [first_receipt], sv_cursors = \<lparr>cu_account = [(0, 1)], cu_stock = [(1, 1)]\<rparr>\<rparr> = Inr ()
    \<and> run_log (ir_run one_run) = ir_used one_run @ ir_held one_run @ [first_receipt]"
proof -
  have at: "ir_session one_run = bind_ingress small_session" "ir_queue one_run = one_input" "ir_run one_run = run_accept first_receipt run_start"
    by (simp_all add: one_run_def start_intake_def)
  have new: "validate_saved_requests \<lparr>sv_pending = si_pending small_session, sv_cursors = si_cursors small_session\<rparr> = Inr ()"
    by (simp add: validate_saved_requests_def small_session_def validate_pending_receipt_order_def saved_edges_def group_pairs_def
        positions_in_order_def count_edges_def)
  have rest: "si_reader (ir_session one_run) = Some 0" "run_flight (ir_run one_run) 0 = None"
    "2 * length (si_pending small_session @ run_log (ir_run one_run)) \<le> u64_max"
    unfolding at by (simp_all add: bind_ingress_def run_accept_def run_start_def small_session_def)
  have save: "project_shared_ingress_save (ir_session one_run) (ir_queue one_run)
      = (Inr \<lparr>sv_pending = [first_receipt], sv_cursors = \<lparr>cu_account = [(0, 1)], cu_stock = [(1, 1)]\<rparr>\<rparr>, one_input)"
    unfolding at by (rule one_save)
  from saved_requests_load [OF one_run_reachable small_session_cursors new rest save]
  show ?thesis by (simp add: first_receipt_def small_session_def)
qed

text \<open>
  A member who joined later is a player of the queue, but a save that holds a request of the member is refused.
\<close>

lemma member_request_not_loaded:
  assumes "map_of (ig_accounts g) a = Some Player" "r \<in> set (sv_pending sv)" "ri_owner r = a" "a \<noteq> 0"
  shows "validate_saved_requests sv = Inl (InvalidSave 2067 [])"
  using assms by (auto simp: validate_saved_requests_def)

lemma member_request_accepted:
  "\<exists>g g' sv. register_player 5 (open_ingress small_session) = (Inr (), g)
    \<and> enqueue_player_intent 5 (PlaceMarket 1 Buy 100) g = (Inr (), g')
    \<and> fst (project_shared_ingress_save (bind_ingress small_session) g') = Inr sv
    \<and> validate_saved_requests sv = Inl (InvalidSave 2067 [])"
  by (simp add: register_player_def ingress_eval project_shared_ingress_save_def bind_ingress_def reader_snapshot_def
     live_readers_def least_taken_def the_cell_def validate_saved_requests_def)

text \<open>
  C15 (A loaded save never stops admission). The requests of a save that passes the checks of loading are composed
  into the first batch and admitted, all of them, each lane and each stock in the order of its receipts: the graph
  the load check has found free of cycles is the graph of the admission.\<close>

theorem loaded_requests_admitted:
  assumes "validate_saved_requests sv = Inr ()" "\<And>gs. mset (hash_order gs) = mset gs" "2 * length (sv_pending sv) \<le> u64_max"
  shows "\<exists>cs out. compose_initial_candidates [] (sv_pending sv) = Inr cs \<and> length cs = length (sv_pending sv)
    \<and> admit_ready_batch hash_order cs next_plan = (Inr out, next_plan) \<and> mset out = mset cs \<and> sorted_wrt admitted_before out"
proof -
  obtain cs out where b: "compose_initial_candidates [] (sv_pending sv) = Inr cs" "admit_ready_batch hash_order cs next_plan = (Inr out, next_plan)"
    using loaded_batch [OF assms] by blast
  have "player_candidates 0 (sv_pending sv) = Inr cs"
    using b(1) by (auto simp: compose_initial_candidates_def new_candidate_batch_def bind_result_Inr_iff)
  then have "length cs = length (sv_pending sv)" using player_candidates_ok by blast
  moreover obtain rs ord where "observe_all cs next_plan = (Inr rs, next_plan)" "admission_rules cs rs ord" "out = map ((!) cs) ord"
    using admitted_batch_rules [OF b(2) assms(2)] by blast
  ultimately show ?thesis using b admitted_sorted by blast
qed

theorem loaded_requests_admitted_witness:
  "\<exists>cs out. compose_initial_candidates [] [first_receipt] = Inr cs \<and> length cs = 1
    \<and> admit_ready_batch id cs Map.empty = (Inr out, Map.empty) \<and> mset out = mset cs \<and> sorted_wrt admitted_before out"
proof -
  have valid: "validate_saved_requests \<lparr>sv_pending = [first_receipt], sv_cursors = \<lparr>cu_account = [(0, 1)], cu_stock = [(1, 1)]\<rparr>\<rparr> = Inr ()"
    by (simp add: validate_saved_requests_def first_receipt_def validate_pending_receipt_order_def saved_edges_def group_pairs_def
        push_sorted_def side_lane_def positions_in_order_def count_edges_def)
  from loaded_requests_admitted [OF valid, of id Map.empty] show ?thesis by simp
qed

end
