(* ===== verification/Spec2Isabelle.thy ===== *)
theory Spec2Isabelle
  imports Game_Config Book_Properties Market_Properties Account_Properties Books_Properties Shared_History
    Trading_Calendar Share_Properties Reservation_Properties Ingress_Properties
begin

section \<open>A verification library for the stock market game\<close>

section \<open>A verification library for the stock market game\<close>

section \<open>A verification library for the stock market game\<close>

section \<open>A verification library for the stock market game\<close>

text \<open>
  The program is a simulation of a Chinese stock market, written in Rust under
  \<open>src/packages/engine/src\<close>. A game has stocks, each with an order book and daily price limits;
  accounts with cash and positions, of players and of simulated actors; companies with books of account and
  registries of their shares; and a calendar. A session steps all of them, and a runtime distributes a session
  over threads. This library models the parts that decide what a game means: prices, trades, settlements,
  bookkeeping, share registers and dates. File names below are relative to \<open>src/packages/engine/src\<close>.

  Conventions. A fallible function returns a sum, \<open>Inl\<close> for the error; a method that changes its receiver
  returns the result together with the state it leaves, also when it fails, so that a refusal without a trace is
  something to prove. Money and accounting amounts are integers of cents with the checks of \<open>i64\<close> and \<open>i128\<close>
  written out, identities and quantities are natural numbers with the checked operations of \<open>u32\<close> and \<open>u64\<close>.
  A \<open>BTreeMap\<close> is the list of its entries in key order, a set is a list used for membership. A panic is a
  constructor of the error type. Texts that users can choose are lists of code points, parsed texts are lists
  of characters. \<open>Prelude\<close> has the vocabulary of results and two contracts as locales: checked sums and
  undo logs.

  \<^bold>\<open>Numbers and texts.\<close> \<open>Float64\<close> models binary64 by exact rationals with rounding; \<open>Decimal_Text\<close> and
  \<open>Unicode_Text\<close> model printing, parsing, trimming and UTF-8. \<open>Money\<close> (\<open>money.rs\<close>) shows that rates are
  applied with banker's rounding of the floating product. \<open>Game_Config\<close> (\<open>config.rs\<close>, \<open>fees.rs\<close>) has the
  configuration and the charges; the locale \<open>fee_schedule\<close> is what a charge must satisfy for partial fills to be
  charged once, and the three charges of the game interpret it.

  \<^bold>\<open>Order book.\<close> \<open>Order_Types\<close>, \<open>Ordered_Map\<close>, \<open>Persistent_Index\<close>, \<open>Book_State\<close>, \<open>Matching\<close>, \<open>Auction_Clearing\<close>,
  \<open>Order_Book\<close>, \<open>Auction_Execution\<close>, \<open>Book_Machine\<close> and \<open>Book_Properties\<close> follow \<open>orderbook.rs\<close> and the files of
  \<open>orderbook/\<close>. The identity index is a treap whose contract is the locale \<open>id_index\<close>; the two sides of a book
  are instances of \<open>price_time_side\<close>. The matching loop is a recursive function whose termination is proved from
  the size of the opposite side. The lemmas show that placing an order refines a fold over the sorted
  opposite queue, that every reachable book is sorted, indexed and uncrossed, that the call auction selects a
  price of maximal volume and trades exactly that volume, failing on overflows only, and that refusals change nothing.

  \<^bold>\<open>Market and accounts.\<close> \<open>Market\<close> and \<open>Market_Properties\<close> (\<open>market.rs\<close>) put daily limits, the price cage and the
  ex-rights reference around one book; \<open>Account\<close> and \<open>Account_Properties\<close> (\<open>account.rs\<close>) settle the
  trades. Shown are the limits on every order of a reachable market, solvency, T+1, exact settlement and that
  reserved cash covers the fills. A grant of zero shares is accepted by the code and lists an empty position; the runs of an
  account include it.

  \<^bold>\<open>Books of account.\<close> \<open>Accounting_Types\<close>, \<open>Accounting_Amount\<close>, \<open>Ledger\<close>, \<open>Ledger_Laws\<close>, \<open>Books\<close>, \<open>Books_Machine\<close> and
  \<open>Books_Properties\<close> (\<open>accounting/\<close>) have double-entry books with closed periods. The ledger is shown to be a
  projection of the journal; failed batches and transactions are undone exactly, by interpreting \<open>undo_log\<close>;
  the books balance, and saving and restoring gives them back.

  \<^bold>\<open>Calendar.\<close> \<open>Civil_Date\<close>, \<open>Calendar_Policy\<close> and \<open>Trading_Calendar\<close> (\<open>calendar.rs\<close>, \<open>calendar/\<close>) have dates, the
  frozen calendar policy with its digests, and trading days. The searches for trading days are loops without a
  bound in the source and \<open>partial_function\<close>s here; they are shown to end, inside the window of the policy,
  and to find the nearest day or report that none is left.

  \<^bold>\<open>Share registries.\<close> \<open>Share_Types\<close>, \<open>Share_Movement\<close>, \<open>Share_Registry\<close>, \<open>Share_Settlement\<close>, \<open>Share_Laws\<close> and
  \<open>Share_Properties\<close> (\<open>company/share_registry.rs\<close> and \<open>company/share_registry/settlement_day.rs\<close>) have the lots of
  all holders of a stock, the movements of each day and the snapshots on registration days. A registry is a
  machine over its public operations. Every reachable registry passes its own validation, a
  day moves exactly what it says and takes the oldest transferable lots, snapshots replay to the current
  holdings, and complete days are idempotent. The market calendar and the final
  confirmations that settle a day are arguments.

  \<^bold>\<open>Reservations.\<close> \<open>Receipt_Key\<close>, \<open>Paged_Map\<close>, \<open>Envelope\<close>, \<open>Receipt_Rules\<close>, \<open>Envelope_Ledger\<close>, \<open>Envelope_Laws\<close>,
  \<open>Envelope_Invariant\<close>, \<open>Envelope_Evidence\<close> and \<open>Reservation_Properties\<close> follow the ledger of reserved cash and shares
  of a session (\<open>session/pipeline/\<close>: \<open>receipt_key.rs\<close>, \<open>ledger_paged_map.rs\<close>, \<open>conservation.rs\<close>, \<open>envelope.rs\<close>,
  \<open>ledger_validation.rs\<close>, \<open>ledger_candidate.rs\<close>, \<open>ledger_conservation.rs\<close>, \<open>ledger.rs\<close>, and the fee checks of
  \<open>session/envelope_projection.rs\<close>). The paged map is an instance of the contract \<open>row_map\<close>, through which the
  ledger uses it. A ledger is a machine over its operations; every reachable one accounts for each reservation,
  a batch of receipts moves exactly the fills and fees it states, the checks for many rows answer like those for
  few, and the next tick starts from an accepted ledger.

  \<^bold>\<open>Requests.\<close> \<open>Intents\<close> has the requests and the numbers they get (\<open>strategy/mod.rs\<close>, \<open>session.rs\<close>), \<open>Shared_Ingress\<close>
  the queue that threads and ticks share (\<open>session/shared_ingress.rs\<close>) and \<open>Ingress_Delivery\<close> its interleavings as a
  step relation: every reader gets each accepted input once. \<open>Candidates\<close> and \<open>Local_Admission\<close>
  (\<open>pipeline/intent_candidates.rs\<close>, \<open>candidate_composition.rs\<close>, \<open>ready_ingress.rs\<close>, \<open>local_admission.rs\<close>) put a ready batch in an
  order that keeps the receipts of every account and stock; \<open>Ready_Graph\<close> is the topological order both the
  admission and the check of a save use, through the contract \<open>order_search\<close>. \<open>Admission_Order\<close>, \<open>Admission_Laws\<close>,
  \<open>Admission_Complete\<close> and \<open>Admission_Exists\<close> show which edges a plan has and that a batch is admitted exactly when an
  order exists. \<open>Saved_Requests\<close> and \<open>Saved_Laws\<close> (\<open>session/persistence.rs\<close>) have the checks of the requests in a save.
  \<open>Intake_Runs\<close> has the runs of one session over the queue, with ticks on the session or on copies of it, and the requests they
  have used. \<open>Ingress_Properties\<close> joins the parts: what a session saves is what was received and not used, it can be loaded
  unless it holds a request of a member who joined later, and what loads is admitted. The iteration
  order of the hash map of resources is an argument.

  \<^bold>\<open>Histories.\<close> \<open>Shared_History\<close> (\<open>shared_history.rs\<close>) has append-only histories that share chunks
  by reference counting, in an explicit store, refined to independent lists.

  \<^bold>\<open>Not modelled.\<close> The session and its step protocol, the runtime with its threads and channels, strategies and
  behaviour of the actors, indicators and views, the industries of the companies and their corporate actions, closing
  and reports, and everything that is input, output or measurement: server, storage, diagnostics, GPU
  kernels. Of the session, the queue of requests, the admission, the reservation ledger and their part of a save are
  modelled, not the phases that call them in turn; the runtime's
  result depends on the scheduler of the standard library, the strategies have no specification beyond
  their own code.
\<close>

end
